(* ===== verification/Prelude.thy ===== *)
theory Prelude
  imports Main "HOL-Library.Word" "HOL-Library.Sublist"
begin

text \<open>
  Shared vocabulary of the development: the byte-string types the components exchange, the
  collections that carry the component proofs, generic facts on lists (first occurrence of a byte
  or of a delimiter, removal from a duplicate-free list), and the interface of a one-shot session:
  a machine that has one operation in flight until it reports its outcome, once.
\<close>

subsection \<open>Types and collections\<close>

type_synonym bytes = "char list"
type_synonym u32 = "32 word"
type_synonym u64 = "64 word"

named_theorems stream_simps \<open>evaluation of the istream and streambuf operations\<close>
named_theorems session_defs \<open>handler and step definitions of the sessions\<close>
named_theorems list_cut \<open>cutting a list at a position\<close>

abbreviation (input) NL :: char where "NL \<equiv> CHR 0x0A"
abbreviation (input) CR :: char where "CR \<equiv> CHR 0x0D"

abbreviation (input) crlf :: bytes where "crlf \<equiv> [CR, NL]"
abbreviation (input) crlf2 :: bytes where "crlf2 \<equiv> [CR, NL, CR, NL]"

subsection \<open>Lists cut at a first element\<close>

text \<open>\<open>before c xs\<close> is what precedes the first \<open>c\<close>; the whole list when there is none.\<close>

definition before :: "'a \<Rightarrow> 'a list \<Rightarrow> 'a list" where
  "before c xs = takeWhile (\<lambda>x. x \<noteq> c) xs"

definition after :: "'a \<Rightarrow> 'a list \<Rightarrow> 'a list" where
  "after c xs = tl (dropWhile (\<lambda>x. x \<noteq> c) xs)"

lemma before_append_hit [list_cut, simp]: "c \<notin> set xs \<Longrightarrow> before c (xs @ c # ys) = xs"
  unfolding before_def by (induction xs) auto

lemma after_append_hit [list_cut, simp]: "c \<notin> set xs \<Longrightarrow> after c (xs @ c # ys) = ys"
  unfolding after_def by (induction xs) auto

lemma cut_unique: "xs @ c # ys = l @ c # r \<Longrightarrow> c \<notin> set xs \<Longrightarrow> c \<notin> set l \<Longrightarrow> xs = l \<and> ys = r"
  by (metis before_append_hit after_append_hit)

lemma before_miss [list_cut, simp]: "c \<notin> set xs \<Longrightarrow> before c xs = xs"
  unfolding before_def by (induction xs) auto

lemma after_miss [list_cut, simp]: "c \<notin> set xs \<Longrightarrow> after c xs = []"
  unfolding after_def by (induction xs) auto

lemma before_Cons_hit [list_cut, simp]: "before c (c # xs) = []"
  by (simp add: before_def)

lemma after_Cons_hit [list_cut, simp]: "after c (c # xs) = xs"
  by (simp add: after_def)

lemma before_Cons_other [list_cut, simp]: "x \<noteq> c \<Longrightarrow> before c (x # xs) = x # before c xs"
  by (simp add: before_def)

lemma after_Cons_other [list_cut, simp]: "x \<noteq> c \<Longrightarrow> after c (x # xs) = after c xs"
  by (simp add: after_def)

lemma before_after_split: "c \<in> set xs \<Longrightarrow> before c xs @ c # after c xs = xs"
  by (induction xs) (auto simp: before_def after_def)

lemma not_in_before [simp]: "c \<notin> set (before c xs)"
  unfolding before_def using set_takeWhileD by metis

lemma length_after_le: "length (after c xs) \<le> length xs"
  unfolding after_def
  by (metis length_dropWhile_le length_tl diff_le_self le_trans)

lemma length_after_less: "c \<in> set xs \<Longrightarrow> length (after c xs) < length xs"
  by (metis before_after_split length_append length_Cons less_add_Suc2 add_Suc_right)

lemma length_before_less: "c \<in> set xs \<Longrightarrow> length (before c xs) < length xs"
  by (metis before_after_split length_append length_Cons less_add_Suc1 add_Suc_right)

lemma before_append_first [list_cut]: "c \<in> set xs \<Longrightarrow> before c (xs @ ys) = before c xs"
  unfolding before_def by (induction xs) auto

lemma before_append_second [list_cut]: "c \<notin> set xs \<Longrightarrow> before c (xs @ ys) = xs @ before c ys"
  unfolding before_def by (induction xs) auto

lemma after_append_first [list_cut]: "c \<in> set xs \<Longrightarrow> after c (xs @ ys) = after c xs @ ys"
  unfolding after_def by (induction xs) auto

lemma after_append_second [list_cut]: "c \<notin> set xs \<Longrightarrow> after c (xs @ ys) = after c ys"
  unfolding after_def by (induction xs) auto

lemma append_cut:
  assumes "b @ x = u @ r" and "length u \<le> length b"
  shows "\<exists>y. b = u @ y \<and> y @ x = r"
proof -
  from assms(1) obtain us where "b = u @ us \<and> us @ x = r \<or> b @ us = u \<and> x = us @ r"
    unfolding append_eq_append_conv2 by blast
  with assms(2) show ?thesis by auto
qed

text \<open>A whole line: everything up to and including the first newline.\<close>

definition first_line :: "bytes \<Rightarrow> bytes" where
  "first_line xs = before NL xs @ [NL]"

lemma first_line_prefix: "NL \<in> set xs \<Longrightarrow> first_line xs @ after NL xs = xs"
  by (simp add: first_line_def before_after_split)

lemma length_first_line: "length (first_line xs) = Suc (length (before NL xs))"
  by (simp add: first_line_def)

lemma take_first_line: "NL \<in> set xs \<Longrightarrow> take (Suc (length (before NL xs))) xs = first_line xs"
  by (metis first_line_prefix length_first_line append_eq_conv_conj)

subsection \<open>Duplicate-free registries\<close>

text \<open>
  \<open>erase_first\<close> is \<open>v.erase(std::find(v.begin(), v.end(), x))\<close>. Erasing the end iterator is
  undefined behaviour in C++, so a missing element is \<open>None\<close>.
\<close>

fun erase_first :: "'a \<Rightarrow> 'a list \<Rightarrow> 'a list option" where
  "erase_first x [] = None"
| "erase_first x (y # ys) = (if x = y then Some ys else map_option (Cons y) (erase_first x ys))"

lemma erase_first_remove1: "x \<in> set xs \<Longrightarrow> erase_first x xs = Some (remove1 x xs)"
  by (induction xs) auto

lemma erase_first_None [simp]: "erase_first x xs = None \<longleftrightarrow> x \<notin> set xs"
  by (induction xs) auto

text \<open>How many elements of a list are of a kind, as the counters of the programs count them.\<close>

definition how_many :: "('a \<Rightarrow> bool) \<Rightarrow> 'a list \<Rightarrow> int" where
  "how_many P xs = int (length (filter P xs))"

lemma how_many_simps [simp]:
  "how_many P [] = 0" "how_many P (x # xs) = (if P x then 1 else 0) + how_many P xs" "0 \<le> how_many P xs"
  by (simp_all add: how_many_def)

lemma how_many_update:
  "i < length xs \<Longrightarrow> how_many P (xs[i := x]) = how_many P xs - (if P (xs ! i) then 1 else 0) + (if P x then 1 else 0)"
proof (induction xs arbitrary: i)
  case (Cons y xs)
  then show ?case by (cases i) auto
qed simp

lemma how_many_pos: "0 < how_many P xs \<longleftrightarrow> (\<exists>i < length xs. P (xs ! i))"
proof -
  have "0 < how_many P xs \<longleftrightarrow> filter P xs \<noteq> []" by (simp add: how_many_def)
  also have "\<dots> \<longleftrightarrow> (\<exists>x \<in> set xs. P x)" by (auto simp: filter_empty_conv)
  finally show ?thesis by (metis in_set_conv_nth)
qed

lemma how_many_replicate: "how_many P (replicate n x) = (if P x then int n else 0)"
  by (simp add: how_many_def)

subsection \<open>The ends of a linked list\<close>

text \<open>The first and the last element, or what comes instead when there is none.\<close>

definition first_of :: "'a list \<Rightarrow> 'a option \<Rightarrow> 'a option" where
  "first_of xs d = (case xs of [] \<Rightarrow> d | x # _ \<Rightarrow> Some x)"

definition last_of :: "'a list \<Rightarrow> 'a option \<Rightarrow> 'a option" where
  "last_of xs d = (if xs = [] then d else Some (last xs))"

lemma first_of_simps [simp]: "first_of [] d = d" "first_of (x # xs) d = Some x"
  by (simp_all add: first_of_def)

lemma last_of_simps [simp]: "last_of [] d = d" "last_of (xs @ [x]) d = Some x"
  by (simp_all add: last_of_def)

lemma first_of_append: "first_of (xs @ ys) d = first_of xs (first_of ys d)"
  by (simp add: first_of_def split: list.split)

lemma last_of_append: "last_of (xs @ ys) d = last_of ys (last_of xs d)"
  by (simp add: last_of_def)

lemma last_of_Cons: "last_of (x # xs) d = last_of xs (Some x)"
  by (simp add: last_of_def)

subsection \<open>One-shot sessions\<close>

text \<open>
  A session has states, a step relation driven by the completions of its asynchronous operations,
  a count of operations in flight and a count of outcomes reported to its owner. The contract: a
  step consumes an operation in flight and either starts the next one or reports, so the sum of
  the two counts is conserved; and the work that is left, a weight of the operations in flight,
  drops with every step.
\<close>

locale one_shot =
  fixes step :: "'s \<Rightarrow> 's \<Rightarrow> bool"
    and inflight :: "'s \<Rightarrow> nat"
    and reports :: "'s \<Rightarrow> nat"
    and work :: "'s \<Rightarrow> nat"
  assumes step_waiting: "step s t \<Longrightarrow> 0 < inflight s"
    and step_balance: "step s t \<Longrightarrow> inflight t + reports t = inflight s + reports s"
    and work_drops: "step s t \<Longrightarrow> work t < work s"
begin

lemma balance_reachable: "step\<^sup>*\<^sup>* s t \<Longrightarrow> inflight t + reports t = inflight s + reports s"
  by (induction rule: rtranclp_induct) (auto dest: step_balance)

lemma reports_at_most_once:
  assumes "step\<^sup>*\<^sup>* s t" and "inflight s + reports s = 1"
  shows "reports t \<le> 1" and "reports t = 1 \<longleftrightarrow> inflight t = 0"
  using balance_reachable [OF assms(1)] assms(2) by auto

lemma reported_final:
  assumes "step\<^sup>*\<^sup>* s t" and "inflight s + reports s = 1" and "reports t = 1"
  shows "\<not> step t u"
  using balance_reachable [OF assms(1)] assms(2,3) by (auto dest: step_waiting)

lemma run_length: "(step ^^ n) s t \<Longrightarrow> n + work t \<le> work s"
  by (induction n arbitrary: t) (fastforce dest: work_drops)+

lemma terminates: "wfp (\<lambda>t s. step s t)"
  by (rule wfp_if_convertible_to_nat [where f = work]) (rule work_drops)

lemma reports_in_the_end:
  assumes "inflight s + reports s = 1"
    and live: "\<And>t. step\<^sup>*\<^sup>* s t \<Longrightarrow> 0 < inflight t \<Longrightarrow> \<exists>u. step t u"
  shows "\<exists>t. step\<^sup>*\<^sup>* s t \<and> reports t = 1 \<and> inflight t = 0"
proof -
  have "\<exists>u. step\<^sup>*\<^sup>* t u \<and> reports u = 1 \<and> inflight u = 0" if "step\<^sup>*\<^sup>* s t" for t
    using that
  proof (induction t rule: measure_induct_rule [where f = work])
    case (less t)
    show ?case
    proof (cases "inflight t = 0")
      case True
      with balance_reachable [OF less.prems] assms(1) show ?thesis by auto
    next
      case False
      with live [OF less.prems] obtain u where u: "step t u" by auto
      with less.prems have "step\<^sup>*\<^sup>* s u" by (rule rtranclp.rtrancl_into_rtrancl)
      from less.IH [OF work_drops [OF u] this] u show ?thesis
        by (meson converse_rtranclp_into_rtranclp)
    qed
  qed
  then show ?thesis by blast
qed

end


subsection \<open>Accept loops\<close>

text \<open>
  An acceptor re-arms itself: the completion of an accept starts the next one, or closes the acceptor
  once it has been stopped.
\<close>

locale accept_loop =
  fixes step :: "'a \<Rightarrow> 'a \<Rightarrow> bool"
    and accepts :: "'a \<Rightarrow> nat"
    and closed :: "'a \<Rightarrow> bool"
    and stopped :: "'a \<Rightarrow> bool"
  assumes rearms: "step a b \<Longrightarrow> accepts a = (if closed a then 0 else 1) \<Longrightarrow>
      accepts b = (if closed b then 0 else 1)"
    and closes_stopped: "step a b \<Longrightarrow> (closed a \<longrightarrow> stopped a) \<Longrightarrow> (closed b \<longrightarrow> stopped b)"
begin

lemma one_accept:
  assumes "step\<^sup>*\<^sup>* a b" and "accepts a = 1" and "\<not> closed a"
  shows "accepts b = (if closed b then 0 else 1) \<and> (closed b \<longrightarrow> stopped b)"
  using assms
proof (induction rule: rtranclp_induct)
  case (step b c)
  then show ?case using rearms [OF step(2)] closes_stopped [OF step(2)] by blast
qed simp

end

end
