(* ===== verification/Cxx_Streams.thy ===== *)
theory Cxx_Streams
  imports Prelude
begin

text \<open>
  The part of the C++ standard library the components parse and print with: \<open>std::istream\<close>
  over a character sequence with its eofbit and failbit, \<open>std::getline\<close>, \<open>get\<close>,
  \<open>ignore\<close>, the extractors for words and integers, \<open>std::to_string\<close>, \<open>std::stoul\<close> and
  \<open>atoi\<close>. Each follows the standard's rules on the sentry: an unformatted or formatted input
  function on a stream that is not good sets failbit and leaves its target unchanged.
\<close>

subsection \<open>Streams\<close>

record istream =
  chars :: bytes
  eofbit :: bool
  failbit :: bool

definition istream_of :: "bytes \<Rightarrow> istream" where
  "istream_of s = \<lparr>chars = s, eofbit = False, failbit = False\<rparr>"

definition stream_good :: "istream \<Rightarrow> bool" where
  "stream_good is \<longleftrightarrow> \<not> eofbit is \<and> \<not> failbit is"

lemma istream_of_sel [simp]:
  "chars (istream_of s) = s" "eofbit (istream_of s) = False" "failbit (istream_of s) = False"
  by (simp_all add: istream_of_def)

lemma istream_of_upd [simp]:
  "istream_of s\<lparr>chars := t\<rparr> = istream_of t" "istream_of s\<lparr>eofbit := False\<rparr> = istream_of s"
  by (simp_all add: istream_of_def)

lemma stream_good_of [simp]: "stream_good (istream_of s)"
  by (simp add: stream_good_def)

text \<open>\<open>isspace\<close> in the C locale.\<close>

definition isspace :: "char \<Rightarrow> bool" where
  "isspace c \<longleftrightarrow> c \<in> {CHR '' '', CHR 0x09, CHR 0x0A, CHR 0x0B, CHR 0x0C, CHR 0x0D}"

definition isdigit :: "char \<Rightarrow> bool" where
  "isdigit c \<longleftrightarrow> 48 \<le> (of_char c :: nat) \<and> (of_char c :: nat) \<le> 57"

text \<open>\<open>std::getline(is, str, delim)\<close>: the target string and the stream after the call.\<close>

definition getline_delim :: "char \<Rightarrow> istream \<Rightarrow> bytes \<Rightarrow> bytes \<times> istream" where
  "getline_delim d is str =
     (if \<not> stream_good is then (str, is\<lparr>failbit := True\<rparr>)
      else if d \<in> set (chars is)
      then (before d (chars is), is\<lparr>chars := after d (chars is)\<rparr>)
      else (chars is, is\<lparr>chars := [], eofbit := True, failbit := (chars is = [])\<rparr>))"

text \<open>\<open>is.get()\<close>, its result dropped, and \<open>is.ignore()\<close>.\<close>

definition stream_get :: "istream \<Rightarrow> istream" where
  "stream_get is =
     (if \<not> stream_good is then is\<lparr>failbit := True\<rparr>
      else case chars is of [] \<Rightarrow> is\<lparr>eofbit := True, failbit := True\<rparr>
           | _ # cs \<Rightarrow> is\<lparr>chars := cs\<rparr>)"

definition stream_ignore :: "istream \<Rightarrow> istream" where
  "stream_ignore is =
     (if \<not> stream_good is then is\<lparr>failbit := True\<rparr>
      else case chars is of [] \<Rightarrow> is\<lparr>eofbit := True\<rparr> | _ # cs \<Rightarrow> is\<lparr>chars := cs\<rparr>)"

text \<open>The sentry of a formatted extractor skips white space; at the end it sets both bits.\<close>

definition skip_ws :: "istream \<Rightarrow> istream" where
  "skip_ws is =
     (if \<not> stream_good is then is\<lparr>failbit := True\<rparr>
      else let cs = dropWhile isspace (chars is)
           in if cs = [] then is\<lparr>chars := [], eofbit := True, failbit := True\<rparr>
              else is\<lparr>chars := cs\<rparr>)"

text \<open>\<open>is >> str\<close>.\<close>

definition extract_word :: "istream \<Rightarrow> bytes \<Rightarrow> bytes \<times> istream" where
  "extract_word is str =
     (let is1 = skip_ws is in
      if \<not> stream_good is1 then (str, is1)
      else let w = takeWhile (\<lambda>c. \<not> isspace c) (chars is1);
               rest = dropWhile (\<lambda>c. \<not> isspace c) (chars is1)
           in (w, is1\<lparr>chars := rest, eofbit := (rest = [])\<rparr>))"

subsection \<open>Decimal numbers\<close>

definition digit_char :: "nat \<Rightarrow> char" where
  "digit_char n = char_of (48 + n)"

definition digit_value :: "char \<Rightarrow> nat" where
  "digit_value c = of_char c - 48"

text \<open>\<open>std::to_string\<close> of an unsigned value.\<close>

fun to_string :: "nat \<Rightarrow> bytes" where
  "to_string n = (if n < 10 then [digit_char n] else to_string (n div 10) @ [digit_char (n mod 10)])"

declare to_string.simps [simp del]

definition decimal_value :: "bytes \<Rightarrow> nat" where
  "decimal_value ds = foldl (\<lambda>v c. 10 * v + digit_value c) 0 ds"

lemma isdigit_digit_char [simp]: "n < 10 \<Longrightarrow> isdigit (digit_char n)"
  by (simp add: isdigit_def digit_char_def of_char_of)

lemma digit_value_digit_char [simp]: "n < 10 \<Longrightarrow> digit_value (digit_char n) = n"
  by (simp add: digit_value_def digit_char_def of_char_of)

lemma isdigit_not_space [simp]: "isdigit c \<Longrightarrow> \<not> isspace c"
  by (auto simp: isdigit_def isspace_def)

lemma to_string_digits: "\<forall>c \<in> set (to_string n). isdigit c"
proof (induction n rule: to_string.induct)
  case (1 n)
  then show ?case by (subst to_string.simps) auto
qed

lemma to_string_nonempty [simp]: "to_string n \<noteq> []"
  by (subst to_string.simps) simp

lemma decimal_value_snoc: "decimal_value (ds @ [c]) = 10 * decimal_value ds + digit_value c"
  by (simp add: decimal_value_def)

lemma decimal_value_to_string [simp]: "decimal_value (to_string n) = n"
proof (induction n rule: to_string.induct)
  case (1 n)
  show ?case
  proof (cases "n < 10")
    case True
    then show ?thesis by (subst to_string.simps) (simp add: decimal_value_def)
  next
    case False
    with "1.IH" show ?thesis by (subst to_string.simps) (simp add: decimal_value_snoc)
  qed
qed

lemma length_to_string: "length (to_string n) \<le> n div 10 + 1"
proof (induction n rule: to_string.induct)
  case (1 n)
  then show ?case by (subst to_string.simps) fastforce
qed

lemma to_string_no_space: "c \<in> set (to_string n) \<Longrightarrow> \<not> isspace c"
  using to_string_digits isdigit_not_space by blast

lemma isdigit_not_sign: "isdigit c \<Longrightarrow> c \<noteq> CHR ''-'' \<and> c \<noteq> CHR ''+'' \<and> c \<noteq> CR \<and> c \<noteq> NL
    \<and> c \<noteq> CHR '':''"
  by (auto simp: isdigit_def)

text \<open>
  \<open>std::stoul(s)\<close>: skips white space, an optional sign, then decimal digits; \<open>None\<close> stands for
  the exceptions \<open>invalid_argument\<close> (no digit) and \<open>out_of_range\<close> (more than 64 bits), both
  derived from \<open>logic_error\<close>. A minus sign negates in the unsigned type.
\<close>

definition stoul :: "bytes \<Rightarrow> u64 option" where
  "stoul s =
     (let t = dropWhile isspace s;
          neg = (t \<noteq> [] \<and> hd t = CHR ''-'');
          u = (if t \<noteq> [] \<and> (hd t = CHR ''-'' \<or> hd t = CHR ''+'') then tl t else t);
          ds = takeWhile isdigit u
      in if ds = [] then None
         else if decimal_value ds \<ge> 2 ^ 64 then None
         else Some (if neg then - of_nat (decimal_value ds) else of_nat (decimal_value ds)))"

lemma takeWhile_digits_to_string [simp]:
  "takeWhile isdigit (to_string n) = to_string n"
  using to_string_digits by (simp add: takeWhile_eq_all_conv)

lemma hd_to_string_digit: "isdigit (hd (to_string n))"
  using to_string_digits by (meson hd_in_set to_string_nonempty)

lemma dropWhile_space_to_string [simp]: "dropWhile isspace (to_string n) = to_string n"
  by (simp add: dropWhile_eq_self_iff hd_to_string_digit)

lemma stoul_to_string: "n < 2 ^ 64 \<Longrightarrow> stoul (to_string n) = Some (of_nat n)"
  using isdigit_not_sign [OF hd_to_string_digit [of n]] by (simp add: stoul_def Let_def)

text \<open>\<open>atoi(s)\<close>, for values that fit an \<open>int\<close>: no digits make 0.\<close>

definition atoi :: "bytes \<Rightarrow> int" where
  "atoi s =
     (let t = dropWhile isspace s;
          u = (if t \<noteq> [] \<and> (hd t = CHR ''-'' \<or> hd t = CHR ''+'') then tl t else t);
          v = int (decimal_value (takeWhile isdigit u))
      in if t \<noteq> [] \<and> hd t = CHR ''-'' then - v else v)"

lemma atoi_to_string: "atoi (to_string n) = int n"
  using isdigit_not_sign [OF hd_to_string_digit [of n]] by (simp add: atoi_def Let_def)

text \<open>
  \<open>is >> v\<close> for an \<open>int\<close>: since C++11 a parse failure stores 0 and an overflow the nearest
  limit, both with failbit; a failed sentry leaves \<open>v\<close> as it was.
\<close>

definition extract_int :: "istream \<Rightarrow> int \<Rightarrow> int \<times> istream" where
  "extract_int is v =
     (let is1 = skip_ws is in
      if \<not> stream_good is1 then (v, is1)
      else let t = chars is1;
               neg = (hd t = CHR ''-'');
               u = (if hd t = CHR ''-'' \<or> hd t = CHR ''+'' then tl t else t);
               ds = takeWhile isdigit u;
               rest = dropWhile isdigit u;
               is2 = is1\<lparr>chars := rest, eofbit := (rest = [])\<rparr>;
               m = (if neg then - int (decimal_value ds) else int (decimal_value ds))
           in if ds = [] then (0, is2\<lparr>failbit := True\<rparr>)
              else if m > 2 ^ 31 - 1 then (2 ^ 31 - 1, is2\<lparr>failbit := True\<rparr>)
              else if m < - (2 ^ 31) then (- (2 ^ 31), is2\<lparr>failbit := True\<rparr>)
              else (m, is2))"

text \<open>\<open>is >> v\<close> for an \<open>unsigned int\<close>: the magnitude must fit; a sign negates in the type.\<close>

definition extract_uint :: "istream \<Rightarrow> u32 \<Rightarrow> u32 \<times> istream" where
  "extract_uint is v =
     (let is1 = skip_ws is in
      if \<not> stream_good is1 then (v, is1)
      else let t = chars is1;
               neg = (hd t = CHR ''-'');
               u = (if hd t = CHR ''-'' \<or> hd t = CHR ''+'' then tl t else t);
               ds = takeWhile isdigit u;
               rest = dropWhile isdigit u;
               is2 = is1\<lparr>chars := rest, eofbit := (rest = [])\<rparr>
           in if ds = [] then (0, is2\<lparr>failbit := True\<rparr>)
              else if decimal_value ds \<ge> 2 ^ 32 then (- 1, is2\<lparr>failbit := True\<rparr>)
              else (if neg then - of_nat (decimal_value ds) else of_nat (decimal_value ds), is2))"


subsection \<open>Evaluation on streams that start with what is read\<close>

lemma getline_hit [stream_simps]:
  "d \<notin> set xs \<Longrightarrow> getline_delim d (istream_of (xs @ d # ys)) s = (xs, istream_of ys)"
  by (simp add: getline_delim_def istream_of_def stream_good_def)

lemma getline_hit_now [stream_simps]:
  "getline_delim d (istream_of (d # ys)) s = ([], istream_of ys)"
  using getline_hit [of d "[]"] by simp

lemma getline_miss [stream_simps]:
  "d \<notin> set xs \<Longrightarrow>
   getline_delim d (istream_of xs) s = (xs, \<lparr>chars = [], eofbit = True, failbit = (xs = [])\<rparr>)"
  by (simp add: getline_delim_def istream_of_def stream_good_def)

lemma stream_get_Cons [stream_simps]: "stream_get (istream_of (c # cs)) = istream_of cs"
  by (simp add: stream_get_def istream_of_def stream_good_def)

lemma stream_ignore_Cons [stream_simps]: "stream_ignore (istream_of (c # cs)) = istream_of cs"
  by (simp add: stream_ignore_def istream_of_def stream_good_def)

lemma skip_ws_word [stream_simps]:
  "cs \<noteq> [] \<Longrightarrow> \<not> isspace (hd cs) \<Longrightarrow> skip_ws (istream_of cs) = istream_of cs"
  by (cases cs) (simp_all add: skip_ws_def istream_of_def stream_good_def)

lemma skip_ws_space [stream_simps]:
  "isspace c \<Longrightarrow> skip_ws (istream_of (c # cs)) = skip_ws (istream_of cs)"
  by (simp add: skip_ws_def istream_of_def stream_good_def)

lemma extract_word_space [stream_simps]:
  "isspace c \<Longrightarrow> extract_word (istream_of (c # cs)) s = extract_word (istream_of cs) s"
  by (simp add: extract_word_def skip_ws_space)

lemma takeWhile_word: "\<forall>x \<in> set w. \<not> isspace x \<Longrightarrow> isspace c \<Longrightarrow>
    takeWhile (\<lambda>c. \<not> isspace c) (w @ c # rest) = w"
  by (induction w) auto

lemma dropWhile_word: "\<forall>x \<in> set w. \<not> isspace x \<Longrightarrow> isspace c \<Longrightarrow>
    dropWhile (\<lambda>c. \<not> isspace c) (w @ c # rest) = c # rest"
  by (induction w) auto

lemma extract_word_hit [stream_simps]:
  assumes "w \<noteq> []" and "\<forall>x \<in> set w. \<not> isspace x" and "isspace c"
  shows "extract_word (istream_of (w @ c # rest)) s = (w, istream_of (c # rest))"
proof -
  from assms(1,2) have "skip_ws (istream_of (w @ c # rest)) = istream_of (w @ c # rest)"
    by (intro skip_ws_word) (auto simp: hd_append)
  then show ?thesis
    using assms by (simp add: extract_word_def takeWhile_word dropWhile_word Let_def)
qed

lemma extract_word_last [stream_simps]:
  assumes "w \<noteq> []" and "\<forall>x \<in> set w. \<not> isspace x"
  shows "extract_word (istream_of w) s = (w, \<lparr>chars = [], eofbit = True, failbit = False\<rparr>)"
proof -
  from assms have "skip_ws (istream_of w) = istream_of w"
    by (intro skip_ws_word) auto
  moreover have "takeWhile (\<lambda>c. \<not> isspace c) w = w" "dropWhile (\<lambda>c. \<not> isspace c) w = []"
    using assms(2) by (simp_all add: takeWhile_eq_all_conv dropWhile_eq_Nil_conv)
  ultimately show ?thesis by (simp add: extract_word_def Let_def)
qed

lemma dropWhile_number: "\<not> isdigit c \<Longrightarrow> dropWhile isdigit (to_string n @ c # rest) = c # rest"
  using to_string_digits by (simp add: dropWhile_append2)

lemma takeWhile_number: "\<not> isdigit c \<Longrightarrow> takeWhile isdigit (to_string n @ c # rest) = to_string n"
  using to_string_digits by (simp add: takeWhile_append2)

lemma skip_ws_number: "skip_ws (istream_of (to_string n @ rest)) = istream_of (to_string n @ rest)"
  using hd_to_string_digit [of n] by (intro skip_ws_word) (auto simp: hd_append)

lemma hd_number: "hd (to_string n @ rest) \<noteq> CHR ''-'' \<and> hd (to_string n @ rest) \<noteq> CHR ''+''"
  using isdigit_not_sign [OF hd_to_string_digit [of n]] by (simp add: hd_append)

lemma extract_int_hit [stream_simps]:
  "n < 2 ^ 31 \<Longrightarrow> \<not> isdigit c \<Longrightarrow>
   extract_int (istream_of (to_string n @ c # rest)) v = (int n, istream_of (c # rest))"
  using hd_number [of n "c # rest"]
  by (simp add: extract_int_def skip_ws_number takeWhile_number dropWhile_number Let_def)

lemma extract_uint_hit [stream_simps]:
  "n < 2 ^ 32 \<Longrightarrow> \<not> isdigit c \<Longrightarrow>
   extract_uint (istream_of (to_string n @ c # rest)) v = (of_nat n, istream_of (c # rest))"
  using hd_number [of n "c # rest"]
  by (simp add: extract_uint_def skip_ws_number takeWhile_number dropWhile_number Let_def)

lemma isdigit_NL [simp]: "\<not> isdigit NL"
  by (simp add: isdigit_def)

lemma isspace_blanks [simp]: "isspace CHR '' ''" "isspace NL" "isspace CR"
  by (simp_all add: isspace_def)

end
