(* ===== verification/Asio_Core.thy ===== *)
theory Asio_Core
  imports Cxx_Streams
begin

text \<open>
  The parts of the asio library (vendored under asio-1.12.2/include) the programs lean on: error
  codes, a socket's inbound side as a script of arrivals and failures, \<open>read_some\<close>,
  \<open>read_until\<close> over a growing streambuf (impl/read_until.hpp) and \<open>read\<close> with a completion
  condition over a fixed buffer (impl/read.hpp). What the kernel delivers, and how it cuts it into
  pieces, is the script, an argument of every operation.
\<close>

subsection \<open>Error codes\<close>

datatype error_category = System_category | Misc_category | Netdb_category | Http_errors_category

datatype error_code = Error_code (ec_value: int) (ec_category: error_category)

definition no_error :: error_code where "no_error = Error_code 0 System_category"

text \<open>The conversion to bool: a code is an error when its value is not 0.\<close>

definition ec_set :: "error_code \<Rightarrow> bool" where "ec_set ec \<longleftrightarrow> ec_value ec \<noteq> 0"

text \<open>\<open>asio::error\<close>: the misc errors, and ECANCELED of the platform (125 on Linux).\<close>

definition eof :: error_code where "eof = Error_code 2 Misc_category"
definition not_found :: error_code where "not_found = Error_code 3 Misc_category"
definition operation_aborted :: error_code where
  "operation_aborted = Error_code 125 System_category"

lemma ec_set_simps [simp]:
  "\<not> ec_set no_error" "ec_set eof" "ec_set not_found" "ec_set operation_aborted"
  by (simp_all add: ec_set_def no_error_def eof_def not_found_def operation_aborted_def)

lemma ec_distinct [simp]:
  "eof \<noteq> not_found" "not_found \<noteq> eof" "eof \<noteq> operation_aborted" "operation_aborted \<noteq> eof"
  "no_error \<noteq> eof" "no_error \<noteq> not_found" "operation_aborted \<noteq> not_found"
  "no_error \<noteq> operation_aborted" "operation_aborted \<noteq> no_error"
  by (simp_all add: no_error_def eof_def not_found_def operation_aborted_def)

subsection \<open>The inbound side of a connected socket\<close>

datatype net_event = Arrive bytes | Fail error_code

type_synonym net = "net_event list"

text \<open>
  \<open>read_some(buffer of n bytes)\<close>: the bytes at hand, at most \<open>n\<close> of them; an error when one
  is next; end of file when the peer has sent everything.
\<close>

fun read_some :: "nat \<Rightarrow> net \<Rightarrow> error_code \<times> bytes \<times> net" where
  "read_some n [] = (eof, [], [])"
| "read_some n (Fail e # s) = (e, [], s)"
| "read_some n (Arrive d # s) =
     (if d = [] then read_some n s
      else (no_error, take n d, if length d \<le> n then s else Arrive (drop n d) # s))"

fun net_data :: "net \<Rightarrow> bytes" where
  "net_data [] = []"
| "net_data (Fail e # s) = net_data s"
| "net_data (Arrive d # s) = d @ net_data s"

fun net_size :: "net \<Rightarrow> nat" where
  "net_size [] = 0"
| "net_size (Fail e # s) = Suc (net_size s)"
| "net_size (Arrive d # s) = Suc (length d + net_size s)"

definition no_fail :: "net \<Rightarrow> bool" where
  "no_fail s \<longleftrightarrow> (\<forall>e. Fail e \<notin> set s)"

lemma no_fail_simps [simp]:
  "no_fail []" "no_fail (Arrive d # s) = no_fail s" "\<not> no_fail (Fail e # s)"
  by (auto simp: no_fail_def)

lemma read_some_nil: "read_some n s = (ec, got, s') \<Longrightarrow> s' \<noteq> [] \<Longrightarrow> s \<noteq> []"
  by (cases s) auto

lemma read_some_shrinks:
  "read_some n s = (ec, got, s') \<Longrightarrow> 0 < n \<Longrightarrow> s \<noteq> [] \<Longrightarrow> net_size s' < net_size s"
proof (induction n s rule: read_some.induct)
  case (3 n d s)
  then show ?case by (cases "s = []") (auto split: if_splits simp: less_Suc_eq_le less_imp_le)
qed auto

lemma read_some_data: "read_some n s = (ec, got, s') \<Longrightarrow> got @ net_data s' = net_data s"
  by (induction n s rule: read_some.induct) (auto split: if_splits)

lemma read_some_no_fail: "read_some n s = (ec, got, s') \<Longrightarrow> no_fail s \<Longrightarrow> no_fail s'"
  by (induction n s rule: read_some.induct) (auto split: if_splits)

lemma read_some_length: "read_some n s = (ec, got, s') \<Longrightarrow> length got \<le> n"
  by (induction n s rule: read_some.induct) (auto split: if_splits)

lemma read_some_ec: "read_some n s = (ec, got, s') \<Longrightarrow> no_fail s \<Longrightarrow>
    (if net_data s = [] then ec = eof \<and> got = [] else ec = no_error \<and> (0 < n \<longrightarrow> got \<noteq> []))"
  by (induction n s rule: read_some.induct) (auto split: if_splits)


subsection \<open>Searching for a delimiter\<close>

text \<open>
  \<open>detail::partial_search\<close>: the position of the first full match, or of the first match cut off
  by the end of the data, or the end. \<open>match_at\<close> is its inner loop; \<open>started\<close> says that
  \<open>test_iter2\<close> has left \<open>first2\<close>.
\<close>

datatype match_result = Full | Partial | Mismatch

fun match_at :: "bool \<Rightarrow> bytes \<Rightarrow> bytes \<Rightarrow> match_result" where
  "match_at started t1 [] = Full"
| "match_at started [] (y # ys) = (if started then Partial else Mismatch)"
| "match_at started (x # xs) (y # ys) = (if x \<noteq> y then Mismatch else match_at True xs ys)"

fun partial_search :: "nat \<Rightarrow> bytes \<Rightarrow> bytes \<Rightarrow> nat \<times> bool" where
  "partial_search i [] delim = (i, False)"
| "partial_search i (x # xs) delim =
     (case match_at False (x # xs) delim of
        Full \<Rightarrow> (i, True)
      | Partial \<Rightarrow> (i, False)
      | Mismatch \<Rightarrow> partial_search (Suc i) xs delim)"

definition search_str :: "bytes \<Rightarrow> bytes \<Rightarrow> nat \<Rightarrow> nat \<times> bool" where
  "search_str delim d pos = partial_search pos (drop pos d) delim"

definition search_char :: "char \<Rightarrow> bytes \<Rightarrow> nat \<Rightarrow> nat \<times> bool" where
  "search_char c d pos =
     (if c \<in> set (drop pos d) then (pos + length (before c (drop pos d)), True)
      else (length d, False))"

text \<open>What a search is to find: the least position where the delimiter stands.\<close>

definition occurs_at :: "bytes \<Rightarrow> bytes \<Rightarrow> nat \<Rightarrow> bool" where
  "occurs_at delim d i \<longleftrightarrow> i \<le> length d \<and> prefix delim (drop i d)"

definition first_at :: "bytes \<Rightarrow> bytes \<Rightarrow> nat \<Rightarrow> bool" where
  "first_at delim d i \<longleftrightarrow> occurs_at delim d i \<and> (\<forall>j<i. \<not> occurs_at delim d j)"

text \<open>A dead position can never start a match, whatever arrives later.\<close>

definition dead_at :: "bytes \<Rightarrow> bytes \<Rightarrow> nat \<Rightarrow> bool" where
  "dead_at delim d i \<longleftrightarrow>
     i < length d \<and> \<not> prefix delim (drop i d) \<and> \<not> prefix (drop i d) delim"

lemma dead_at_append: "dead_at delim d i \<Longrightarrow> dead_at delim (d @ e) i"
  unfolding dead_at_def
  by (auto simp: prefix_append dest: prefix_prefix append_prefixD)

lemma dead_not_occurs: "dead_at delim d i \<Longrightarrow> \<not> occurs_at delim d i"
  by (simp add: dead_at_def occurs_at_def)

lemma occurs_at_append: "occurs_at delim d i \<Longrightarrow> occurs_at delim (d @ e) i"
  by (auto simp: occurs_at_def intro: prefix_prefix)

lemma occurs_at_shrink:
  assumes "occurs_at delim (d @ e) i" and "i + length delim \<le> length d"
  shows "occurs_at delim d i"
proof -
  from assms have "prefix delim (drop i d @ e)" by (simp add: occurs_at_def)
  moreover have "prefix (drop i d) (drop i d @ e)" by simp
  ultimately have "prefix delim (drop i d)"
    by (rule prefix_length_prefix) (use assms(2) in simp)
  then show ?thesis using assms(2) by (simp add: occurs_at_def)
qed

lemma occurs_at_length: "occurs_at delim d i \<Longrightarrow> i + length delim \<le> length d"
  by (auto simp: occurs_at_def dest: prefix_length_le)

lemma first_at_unique: "first_at delim d i \<Longrightarrow> first_at delim d j \<Longrightarrow> i = j"
  by (metis first_at_def nat_neq_iff)

lemma first_at_append: "first_at delim d i \<Longrightarrow> first_at delim (d @ e) i"
  unfolding first_at_def
  by (meson occurs_at_append occurs_at_length occurs_at_shrink add_le_mono1 less_imp_le le_trans)


lemma occurs_at_Cons [simp]: "occurs_at delim (x # xs) (Suc j) = occurs_at delim xs j"
  by (simp add: occurs_at_def)

lemma dead_at_Cons [simp]: "dead_at delim (x # xs) (Suc j) = dead_at delim xs j"
  by (simp add: dead_at_def)

lemma occurs_at_drop: "pos \<le> length d \<Longrightarrow> occurs_at delim (drop pos d) j = occurs_at delim d (pos + j)"
  by (auto simp: occurs_at_def add.commute)

lemma dead_at_drop: "dead_at delim (drop pos d) j = dead_at delim d (pos + j)"
  by (auto simp: dead_at_def add.commute)

lemma match_at_prefix:
  "started \<or> xs \<noteq> [] \<Longrightarrow>
   match_at started xs ys = (if prefix ys xs then Full else if prefix xs ys then Partial else Mismatch)"
  by (induction started xs ys rule: match_at.induct) auto

lemma occurs_at_short: "length xs < length delim \<Longrightarrow> \<not> occurs_at delim xs j"
  by (auto dest: occurs_at_length)

lemma partial_search_spec:
  assumes "partial_search i xs delim = (k, b)" and "delim \<noteq> []"
  shows "\<exists>m. k = i + m \<and> m \<le> length xs \<and> (\<forall>j<m. dead_at delim xs j)
           \<and> (if b then occurs_at delim xs m else \<forall>j. \<not> occurs_at delim xs j)"
  using assms
proof (induction i xs delim rule: partial_search.induct)
  case (1 i delim)
  then show ?case by (simp add: occurs_at_short)
next
  case (2 i x xs delim)
  show ?case
  proof (cases "match_at False (x # xs) delim")
    case Full
    with 2 show ?thesis
      by (intro exI [where x = 0]) (auto simp: match_at_prefix occurs_at_def split: if_splits)
  next
    case Partial
    then have "prefix (x # xs) delim" and "\<not> prefix delim (x # xs)"
      by (auto simp: match_at_prefix split: if_splits)
    then have "length (x # xs) < length delim"
      by (metis prefix_length_le prefix_order.order_iff_strict prefix_length_less)
    with Partial 2 show ?thesis
      by (intro exI [where x = 0]) (auto simp: occurs_at_short)
  next
    case Mismatch
    then have dead: "dead_at delim (x # xs) 0"
      by (auto simp: match_at_prefix dead_at_def split: if_splits)
    from Mismatch 2 obtain m where m: "k = Suc i + m" "m \<le> length xs" "\<forall>j<m. dead_at delim xs j"
      "if b then occurs_at delim xs m else \<forall>j. \<not> occurs_at delim xs j"
      by auto
    have "dead_at delim (x # xs) j" if "j < Suc m" for j
      using that dead m(3) by (cases j) auto
    moreover have "\<not> occurs_at delim (x # xs) j" if "\<not> b" for j
      using that dead m(4) by (cases j) (auto dest: dead_not_occurs)
    ultimately show ?thesis
      using m by (intro exI [where x = "Suc m"]) auto
  qed
qed

text \<open>
  The contract \<open>read_until\<close> needs of a search that starts at a given position: a full match is
  the first one from there, and after a miss the returned position has only dead ones behind it.
\<close>

locale delim_search =
  fixes search :: "bytes \<Rightarrow> nat \<Rightarrow> nat \<times> bool" and delim :: bytes
  assumes delim_nonempty: "delim \<noteq> []"
    and search_found: "search d pos = (i, True) \<Longrightarrow> pos \<le> length d \<Longrightarrow>
      occurs_at delim d i \<and> (\<forall>j. pos \<le> j \<and> j < i \<longrightarrow> \<not> occurs_at delim d j)"
    and search_missed: "search d pos = (i, False) \<Longrightarrow> pos \<le> length d \<Longrightarrow>
      i \<le> length d \<and> (\<forall>j. pos \<le> j \<and> j < i \<longrightarrow> dead_at delim d j) \<and> (\<forall>j\<ge>pos. \<not> occurs_at delim d j)"

lemma delim_search_str:
  assumes ne: "delim \<noteq> []"
  shows "delim_search (search_str delim) delim"
proof (unfold_locales, rule ne)
  fix d :: bytes and pos i
  assume pos: "pos \<le> length d"
  show "occurs_at delim d i \<and> (\<forall>j. pos \<le> j \<and> j < i \<longrightarrow> \<not> occurs_at delim d j)"
    if "search_str delim d pos = (i, True)"
  proof -
    from partial_search_spec [OF that [unfolded search_str_def] ne]
    obtain m where m: "i = pos + m" "\<forall>j<m. dead_at delim d (pos + j)" "occurs_at delim d (pos + m)"
      using pos by (auto simp: dead_at_drop occurs_at_drop)
    have "dead_at delim d j" if "pos \<le> j" "j < i" for j
      using m(2) [rule_format, of "j - pos"] that m(1) by simp
    with m show ?thesis by (blast dest: dead_not_occurs)
  qed
  show "i \<le> length d \<and> (\<forall>j. pos \<le> j \<and> j < i \<longrightarrow> dead_at delim d j)
      \<and> (\<forall>j\<ge>pos. \<not> occurs_at delim d j)"
    if "search_str delim d pos = (i, False)"
  proof -
    from partial_search_spec [OF that [unfolded search_str_def] ne]
    obtain m where m: "i = pos + m" "m \<le> length d - pos" "\<forall>j<m. dead_at delim d (pos + j)"
      "\<forall>j. \<not> occurs_at delim d (pos + j)"
      using pos by (auto simp: dead_at_drop occurs_at_drop)
    have "dead_at delim d j" if "pos \<le> j" "j < i" for j
      using m(3) [rule_format, of "j - pos"] that m(1) by simp
    moreover have "\<not> occurs_at delim d j" if "pos \<le> j" for j
      using m(4) [rule_format, of "j - pos"] that by simp
    ultimately show ?thesis using m pos by auto
  qed
qed


lemma delim_search_char: "delim_search (search_char c) [c]"
proof (unfold_locales, simp)
  fix d :: bytes and pos i
  assume pos: "pos \<le> length d"
  have occ: "occurs_at [c] d j \<longleftrightarrow> j < length d \<and> d ! j = c" for j
    by (cases "j < length d") (auto simp: occurs_at_def Cons_nth_drop_Suc [symmetric])
  have dead: "dead_at [c] d j" if "j < length d" "d ! j \<noteq> c" for j
    using that by (auto simp: dead_at_def Cons_nth_drop_Suc [symmetric])
  show "occurs_at [c] d i \<and> (\<forall>j. pos \<le> j \<and> j < i \<longrightarrow> \<not> occurs_at [c] d j)"
    if "search_char c d pos = (i, True)"
  proof -
    from that have mem: "c \<in> set (drop pos d)" and i: "i = pos + length (before c (drop pos d))"
      by (auto simp: search_char_def split: if_splits)
    let ?b = "before c (drop pos d)"
    from before_after_split [OF mem] have d: "d = take pos d @ ?b @ c # after c (drop pos d)"
      by simp
    have "d ! i = c" "i < length d"
      using pos by (subst d, simp add: i nth_append, subst d, simp add: i)
    moreover have "d ! j \<noteq> c" if "pos \<le> j" "j < i" for j
    proof -
      from that have "j - pos < length ?b" by (simp add: i)
      moreover have "d ! j = ?b ! (j - pos)"
        using that pos calculation by (subst d) (simp add: nth_append)
      ultimately show ?thesis using nth_mem [of "j - pos" ?b] not_in_before by fastforce
    qed
    ultimately show ?thesis by (simp add: occ)
  qed
  show "i \<le> length d \<and> (\<forall>j. pos \<le> j \<and> j < i \<longrightarrow> dead_at [c] d j)
      \<and> (\<forall>j\<ge>pos. \<not> occurs_at [c] d j)"
    if "search_char c d pos = (i, False)"
  proof -
    from that have mem: "c \<notin> set (drop pos d)" and i: "i = length d"
      by (auto simp: search_char_def split: if_splits)
    have ne: "d ! j \<noteq> c" if "pos \<le> j" "j < length d" for j
      using that mem nth_mem [of "j - pos" "drop pos d"] by auto
    then show ?thesis using dead by (auto simp: i occ)
  qed
qed

subsection \<open>read_until\<close>

record streambuf =
  sb_data :: bytes
  sb_max :: nat

text \<open>\<open>basic_streambuf\<close> is bounded by the largest \<open>size_t\<close> unless told otherwise.\<close>

definition streambuf_new :: streambuf where
  "streambuf_new = \<lparr>sb_data = [], sb_max = 2 ^ 64 - 1\<rparr>"

text \<open>
  How many bytes the loop asks for. The vector's capacity at a given size is the allocator's
  affair: the argument \<open>cap\<close>.
\<close>

definition bytes_to_read :: "(nat \<Rightarrow> nat) \<Rightarrow> streambuf \<Rightarrow> nat" where
  "bytes_to_read cap b =
     min (max 512 (cap (length (sb_data b)) - length (sb_data b)))
         (min 65536 (sb_max b - length (sb_data b)))"

text \<open>
  The loop of \<open>read_until\<close>, the same in the overloads for a character and for a string: search,
  stop if the buffer is full, read more, search on from the remembered position. A streambuf never
  holds more than its bound, so the test for a full buffer is written with an inequality.
\<close>

function read_until_loop ::
  "(bytes \<Rightarrow> nat \<Rightarrow> nat \<times> bool) \<Rightarrow> nat \<Rightarrow> (nat \<Rightarrow> nat) \<Rightarrow> nat \<Rightarrow> streambuf \<Rightarrow> net
   \<Rightarrow> error_code \<times> nat \<times> streambuf \<times> net" where
  "read_until_loop search dlen cap pos b s =
     (case search (sb_data b) pos of
        (i, True) \<Rightarrow> (no_error, i + dlen, b, s)
      | (i, False) \<Rightarrow>
          if sb_max b \<le> length (sb_data b) then (not_found, 0, b, s)
          else (case read_some (bytes_to_read cap b) s of
                  (ec, got, s') \<Rightarrow>
                    let b' = b\<lparr>sb_data := sb_data b @ got\<rparr> in
                    if ec_set ec then (ec, 0, b', s')
                    else read_until_loop search dlen cap i b' s'))"
  by pat_completeness auto
termination
proof (relation "measure (\<lambda>(_, _, _, _, _, s). net_size s)", simp, clarsimp)
  fix cap and b :: streambuf and s ec got s'
  assume "\<not> sb_max b \<le> length (sb_data b)" and ec: "\<not> ec_set ec"
    and rs: "(ec, got, s') = read_some (bytes_to_read cap b) s"
  then have "0 < bytes_to_read cap b" by (simp add: bytes_to_read_def)
  moreover have "s \<noteq> []" using rs ec by auto
  ultimately show "net_size s' < net_size s"
    using read_some_shrinks [OF rs [symmetric]] by blast
qed

declare read_until_loop.simps [simp del]

definition read_until_char ::
  "(nat \<Rightarrow> nat) \<Rightarrow> char \<Rightarrow> streambuf \<Rightarrow> net \<Rightarrow> error_code \<times> nat \<times> streambuf \<times> net" where
  "read_until_char cap c = read_until_loop (search_char c) 1 cap 0"

definition read_until_str ::
  "(nat \<Rightarrow> nat) \<Rightarrow> bytes \<Rightarrow> streambuf \<Rightarrow> net \<Rightarrow> error_code \<times> nat \<times> streambuf \<times> net" where
  "read_until_str cap delim = read_until_loop (search_str delim) (length delim) cap 0"


definition proper_fails :: "net \<Rightarrow> bool" where
  "proper_fails s \<longleftrightarrow> (\<forall>e. Fail e \<in> set s \<longrightarrow> ec_set e)"

lemma proper_fails_simps [simp]:
  "proper_fails []" "proper_fails (Arrive d # s) = proper_fails s"
  "proper_fails (Fail e # s) \<longleftrightarrow> ec_set e \<and> proper_fails s"
  by (auto simp: proper_fails_def)

lemma no_fail_proper: "no_fail s \<Longrightarrow> proper_fails s"
  by (auto simp: no_fail_def proper_fails_def)

lemma read_some_proper: "read_some n s = (ec, got, s') \<Longrightarrow> proper_fails s \<Longrightarrow> proper_fails s'"
  by (induction n s rule: read_some.induct) (auto split: if_splits)

lemma read_some_progress:
  "read_some n s = (ec, got, s') \<Longrightarrow> proper_fails s \<Longrightarrow> 0 < n \<Longrightarrow> ec_set ec \<or> got \<noteq> []"
  by (induction n s rule: read_some.induct) (auto split: if_splits)

text \<open>
  The asynchronous operation (\<open>read_until_delim_op\<close>, \<open>read_until_delim_string_op\<close>): the same
  search, but the operation is resumed by the completion of each read; the first round always
  issues a read, of no bytes when the search has already decided, which completes at once. The
  search position is \<open>None\<close> for the reserved value \<open>not_found\<close>.
\<close>

definition search_round ::
  "(bytes \<Rightarrow> nat \<Rightarrow> nat \<times> bool) \<Rightarrow> nat \<Rightarrow> (nat \<Rightarrow> nat) \<Rightarrow> nat \<Rightarrow> streambuf \<Rightarrow> nat option \<times> nat" where
  "search_round search dlen cap pos b =
     (case search (sb_data b) pos of
        (i, True) \<Rightarrow> (Some (i + dlen), 0)
      | (i, False) \<Rightarrow> if sb_max b \<le> length (sb_data b) then (None, 0)
                      else (Some i, bytes_to_read cap b))"

definition async_result :: "error_code \<Rightarrow> nat option \<Rightarrow> error_code \<times> nat" where
  "async_result ec pos =
     (case pos of None \<Rightarrow> (not_found, 0) | Some n \<Rightarrow> (ec, if ec_set ec then 0 else n))"

function async_read_until_loop ::
  "(bytes \<Rightarrow> nat \<Rightarrow> nat \<times> bool) \<Rightarrow> nat \<Rightarrow> (nat \<Rightarrow> nat) \<Rightarrow> bool \<Rightarrow> nat \<Rightarrow> streambuf \<Rightarrow> net
   \<Rightarrow> error_code \<times> nat \<times> streambuf \<times> net" where
  "async_read_until_loop search dlen cap start pos b s =
     (case search_round search dlen cap pos b of
        (pos', toread) \<Rightarrow>
          if \<not> start \<and> toread = 0
          then (fst (async_result no_error pos'), snd (async_result no_error pos'), b, s)
          else (case (if toread = 0 then (no_error, [], s) else read_some toread s) of
                  (ec, got, s') \<Rightarrow>
                    let b' = b\<lparr>sb_data := sb_data b @ got\<rparr> in
                    if ec_set ec \<or> got = []
                    then (fst (async_result ec pos'), snd (async_result ec pos'), b', s')
                    else async_read_until_loop search dlen cap False (the pos') b' s'))"
  by pat_completeness auto
termination
proof (relation "measure (\<lambda>(_, _, _, _, _, _, s). net_size s)", simp, clarsimp)
  fix start :: bool and toread and s :: net and ec got s'
  assume "(ec, got, s') = (if toread = 0 then (no_error, [], s) else read_some toread s)"
    and "\<not> ec_set ec" and "got \<noteq> []"
  then have rs: "read_some toread s = (ec, got, s')" and pos: "0 < toread" and "s \<noteq> []"
    by (auto split: if_splits)
  then show "net_size s' < net_size s" by (rule read_some_shrinks)
qed

declare async_read_until_loop.simps [simp del]

lemma async_eq_sync:
  assumes "proper_fails s"
  shows "async_read_until_loop search dlen cap start pos b s = read_until_loop search dlen cap pos b s"
  using assms
proof (induction search dlen cap pos b s arbitrary: start rule: read_until_loop.induct)
  case (1 search dlen cap pos b s)
  obtain i hit where sr: "search (sb_data b) pos = (i, hit)" by force
  show ?case
  proof (cases "hit \<or> sb_max b \<le> length (sb_data b)")
    case True
    then show ?thesis
      by (subst async_read_until_loop.simps, subst read_until_loop.simps)
         (auto simp: sr search_round_def async_result_def split: bool.split)
  next
    case False
    then have hit: "hit = False" and room: "\<not> sb_max b \<le> length (sb_data b)" by auto
    then have n: "0 < bytes_to_read cap b" by (simp add: bytes_to_read_def)
    obtain ec got s' where rs: "read_some (bytes_to_read cap b) s = (ec, got, s')"
      by (metis prod_cases3)
    have prog: "ec_set ec \<or> got \<noteq> []" and pf: "proper_fails s'"
      using read_some_progress [OF rs _ n] read_some_proper [OF rs] "1.prems" by auto
    show ?thesis
    proof (cases "ec_set ec")
      case True
      then show ?thesis using n
        by (subst async_read_until_loop.simps, subst read_until_loop.simps)
           (simp add: sr hit room search_round_def rs async_result_def Let_def)
    next
      case ok: False
      have "async_read_until_loop search dlen cap False i (b\<lparr>sb_data := sb_data b @ got\<rparr>) s'
          = read_until_loop search dlen cap i (b\<lparr>sb_data := sb_data b @ got\<rparr>) s'"
        using "1.IH" sr hit room rs ok pf by (simp add: Let_def)
      then show ?thesis using n ok prog
        by (subst async_read_until_loop.simps, subst read_until_loop.simps)
           (simp add: sr hit room search_round_def rs Let_def)
    qed
  qed
qed

definition async_read_until_char ::
  "(nat \<Rightarrow> nat) \<Rightarrow> char \<Rightarrow> streambuf \<Rightarrow> net \<Rightarrow> error_code \<times> nat \<times> streambuf \<times> net" where
  "async_read_until_char cap c = async_read_until_loop (search_char c) 1 cap True 0"

definition async_read_until_str ::
  "(nat \<Rightarrow> nat) \<Rightarrow> bytes \<Rightarrow> streambuf \<Rightarrow> net \<Rightarrow> error_code \<times> nat \<times> streambuf \<times> net" where
  "async_read_until_str cap delim = async_read_until_loop (search_str delim) (length delim) cap True 0"


lemma read_bound: "\<not> sb_max b \<le> length (sb_data b) \<Longrightarrow> read_some (bytes_to_read cap b) s = (ec, got, s')
    \<Longrightarrow> length (sb_data b @ got) \<le> sb_max b"
  using read_some_length [of "bytes_to_read cap b" s ec got s'] by (auto simp: bytes_to_read_def)

lemma loop_found: "search (sb_data b) pos = (i, True) \<Longrightarrow>
    read_until_loop search dlen cap pos b s = (no_error, i + dlen, b, s)"
  by (subst read_until_loop.simps) simp

lemma loop_full: "search (sb_data b) pos = (i, False) \<Longrightarrow> sb_max b \<le> length (sb_data b) \<Longrightarrow>
    read_until_loop search dlen cap pos b s = (not_found, 0, b, s)"
  by (subst read_until_loop.simps) simp

lemma loop_error: "search (sb_data b) pos = (i, False) \<Longrightarrow> \<not> sb_max b \<le> length (sb_data b) \<Longrightarrow>
    read_some (bytes_to_read cap b) s = (ec, got, s') \<Longrightarrow> ec_set ec \<Longrightarrow>
    read_until_loop search dlen cap pos b s = (ec, 0, b\<lparr>sb_data := sb_data b @ got\<rparr>, s')"
  by (subst read_until_loop.simps) (simp add: Let_def)

lemma loop_more: "search (sb_data b) pos = (i, False) \<Longrightarrow> \<not> sb_max b \<le> length (sb_data b) \<Longrightarrow>
    read_some (bytes_to_read cap b) s = (ec, got, s') \<Longrightarrow> \<not> ec_set ec \<Longrightarrow>
    read_until_loop search dlen cap pos b s =
    read_until_loop search dlen cap i (b\<lparr>sb_data := sb_data b @ got\<rparr>) s'"
  by (subst read_until_loop.simps) (simp add: Let_def)

context delim_search
begin

lemma search_cases:
  assumes "pos \<le> length d" and "\<forall>j<pos. dead_at delim d j"
  obtains (found) i where "search d pos = (i, True)" "first_at delim d i"
    | (missed) i where "search d pos = (i, False)" "i \<le> length d" "\<forall>j<i. dead_at delim d j"
        "\<forall>j. \<not> occurs_at delim d j"
proof -
  obtain i hit where sr: "search d pos = (i, hit)" by force
  show ?thesis
  proof (cases hit)
    case True
    with search_found [of d pos i] sr assms have "first_at delim d i"
      unfolding first_at_def by (metis dead_not_occurs not_le_imp_less)
    with sr True found show ?thesis by simp
  next
    case False
    with search_missed [of d pos i] sr assms have "i \<le> length d"
      and "\<forall>j. pos \<le> j \<and> j < i \<longrightarrow> dead_at delim d j" and "\<forall>j\<ge>pos. \<not> occurs_at delim d j"
      by simp_all
    with assms(2) sr False missed show ?thesis by (metis dead_not_occurs not_le_imp_less)
  qed
qed

lemma loop_sound:
  assumes "read_until_loop search (length delim) cap pos b s = (ec, n, b', s')"
    and "length (sb_data b) \<le> sb_max b" and "pos \<le> length (sb_data b)"
    and "\<forall>j<pos. dead_at delim (sb_data b) j"
  shows "sb_data b' @ net_data s' = sb_data b @ net_data s \<and> sb_max b' = sb_max b
    \<and> length (sb_data b') \<le> sb_max b
    \<and> (if ec_set ec then n = 0 else \<exists>i. n = i + length delim \<and> first_at delim (sb_data b') i)"
  using assms
proof (induction s arbitrary: pos b rule: measure_induct_rule [where f = net_size])
  case (less s)
  from less.prems(3,4) show ?case
  proof (cases rule: search_cases)
    case (found i)
    with less.prems show ?thesis by (auto simp: loop_found)
  next
    case (missed i)
    obtain e got s1 where rs: "read_some (bytes_to_read cap b) s = (e, got, s1)"
      by (metis prod_cases3)
    show ?thesis
    proof (cases "sb_max b \<le> length (sb_data b)")
      case True
      with missed less.prems show ?thesis by (auto simp: loop_full)
    next
      case room: False
      note bound = read_bound [OF room rs] and data = read_some_data [OF rs]
      show ?thesis
      proof (cases "ec_set e")
        case True
        with missed(1) room rs have "read_until_loop search (length delim) cap pos b s
            = (e, 0, b\<lparr>sb_data := sb_data b @ got\<rparr>, s1)" by (rule loop_error)
        with True less.prems bound data show ?thesis by auto
      next
        case False
        from missed(1) room rs False have run: "read_until_loop search (length delim) cap pos b s
            = read_until_loop search (length delim) cap i (b\<lparr>sb_data := sb_data b @ got\<rparr>) s1"
          by (rule loop_more)
        from rs False have "s \<noteq> []" by auto
        then have "net_size s1 < net_size s"
          using read_some_shrinks [OF rs] room by (simp add: bytes_to_read_def)
        from less.IH [OF this, of i "b\<lparr>sb_data := sb_data b @ got\<rparr>"] show ?thesis
          using run less.prems bound data missed dead_at_append by auto
      qed
    qed
  qed
qed

lemma loop_outcome:
  assumes "read_until_loop search (length delim) cap pos b s = (ec, n, b', s')"
    and "length (sb_data b) \<le> sb_max b" and "pos \<le> length (sb_data b)"
    and "\<forall>j<pos. dead_at delim (sb_data b) j" and "no_fail s"
    and "tot = sb_data b @ net_data s"
  shows "if \<exists>i. first_at delim (take (sb_max b) tot) i then ec = no_error
         else ec = (if sb_max b \<le> length tot then not_found else eof)
            \<and> sb_data b' = take (sb_max b) tot"
  using assms
proof (induction s arbitrary: pos b rule: measure_induct_rule [where f = net_size])
  case (less s)
  have whole: "take (sb_max b) tot = sb_data b @ take (sb_max b - length (sb_data b)) (net_data s)"
    using less.prems(2,6) by simp
  from less.prems(3,4) show ?case
  proof (cases rule: search_cases)
    case (found i)
    then have "first_at delim (take (sb_max b) tot) i"
      unfolding whole by (intro first_at_append)
    with found less.prems(1) show ?thesis by (auto simp: loop_found)
  next
    case (missed i)
    obtain e got s1 where rs: "read_some (bytes_to_read cap b) s = (e, got, s1)"
      by (metis prod_cases3)
    show ?thesis
    proof (cases "sb_max b \<le> length (sb_data b)")
      case True
      with missed less.prems(1,2,6) show ?thesis by (auto simp: loop_full whole first_at_def)
    next
      case room: False
      note bound = read_bound [OF room rs] and data = read_some_data [OF rs]
      show ?thesis
      proof (cases "net_data s = []")
        case True
        then have "e = eof" "got = []" using read_some_ec [OF rs less.prems(5)] by auto
        moreover from missed(1) room rs have "read_until_loop search (length delim) cap pos b s
            = (e, 0, b\<lparr>sb_data := sb_data b @ got\<rparr>, s1)"
          by (rule loop_error) (simp add: \<open>e = eof\<close>)
        ultimately show ?thesis
          using less.prems(1,6) missed(4) True room by (auto simp: whole first_at_def)
      next
        case False
        then have e: "\<not> ec_set e" using read_some_ec [OF rs less.prems(5)] by simp
        from missed(1) room rs e have run: "read_until_loop search (length delim) cap pos b s
            = read_until_loop search (length delim) cap i (b\<lparr>sb_data := sb_data b @ got\<rparr>) s1"
          by (rule loop_more)
        from rs e have "s \<noteq> []" by auto
        then have "net_size s1 < net_size s"
          using read_some_shrinks [OF rs] room by (simp add: bytes_to_read_def)
        from less.IH [OF this, of i "b\<lparr>sb_data := sb_data b @ got\<rparr>"] show ?thesis
          using run less.prems bound data missed dead_at_append read_some_no_fail [OF rs] by auto
      qed
    qed
  qed
qed

end


interpretation crlf_search: delim_search "search_str crlf" crlf
  by (rule delim_search_str) simp

interpretation crlf2_search: delim_search "search_str crlf2" crlf2
  by (rule delim_search_str) simp

interpretation nl_search: delim_search "search_char NL" "[NL]"
  by (rule delim_search_char)

text \<open>
  What \<open>read_until\<close> is to deliver, decided at once on everything that will ever arrive: the first
  delimiter within the buffer's bound, else a full buffer, else the end of the stream. The position
  is found by trying each in turn, without the search of the code.
\<close>

definition first_position :: "bytes \<Rightarrow> bytes \<Rightarrow> nat option" where
  "first_position delim d = List.find (\<lambda>i. take (length delim) (drop i d) = delim) [0..<length d]"

definition read_until_outcome :: "bytes \<Rightarrow> nat \<Rightarrow> bytes \<Rightarrow> error_code \<times> nat" where
  "read_until_outcome delim m d =
     (case first_position delim (take m d) of
        Some i \<Rightarrow> (no_error, i + length delim)
      | None \<Rightarrow> (if m \<le> length d then not_found else eof, 0))"

lemma occurs_at_take:
  assumes "delim \<noteq> []"
  shows "take (length delim) (drop i d) = delim \<longleftrightarrow> occurs_at delim d i"
proof
  assume t: "take (length delim) (drop i d) = delim"
  then have "prefix delim (drop i d)" by (metis take_is_prefix)
  moreover have "i \<le> length d" using t assms by (cases "i \<le> length d") auto
  ultimately show "occurs_at delim d i" by (simp add: occurs_at_def)
qed (auto simp: occurs_at_def prefix_def)

lemma first_position_first:
  assumes "delim \<noteq> []"
  shows "(\<exists>i. first_position delim d = Some i \<and> first_at delim d i)
    \<or> first_position delim d = None \<and> (\<forall>j. \<not> occurs_at delim d j)"
proof (cases "first_position delim d")
  case None
  have "\<not> occurs_at delim d j" for j
  proof (cases "j < length d")
    case True
    with None show ?thesis by (auto simp: first_position_def find_None_iff occurs_at_take [OF assms])
  next
    case False
    then show ?thesis using assms by (simp add: occurs_at_take [OF assms, symmetric])
  qed
  with None show ?thesis by blast
next
  case (Some i)
  then obtain k where k: "k < length d" "occurs_at delim d ([0..<length d] ! k)" "i = [0..<length d] ! k"
    "\<forall>j<k. \<not> occurs_at delim d ([0..<length d] ! j)"
    by (auto simp: first_position_def find_Some_iff occurs_at_take [OF assms])
  then have "first_at delim d i" by (auto simp: first_at_def)
  with Some show ?thesis by blast
qed

lemma search_str_first:
  assumes "delim \<noteq> []"
  shows "(\<exists>i. search_str delim d 0 = (i, True) \<and> first_at delim d i)
    \<or> (\<exists>i. search_str delim d 0 = (i, False) \<and> (\<forall>j. \<not> occurs_at delim d j))"
  by (rule delim_search.search_cases [OF delim_search_str [OF assms], of 0 d]) auto

lemma loop_matches_outcome:
  assumes ds: "delim_search search delim" and nf: "no_fail s"
    and len: "length (sb_data b) \<le> sb_max b"
    and run: "read_until_loop search (length delim) cap 0 b s = (ec, n, b', s')"
  shows "(ec, n) = read_until_outcome delim (sb_max b) (sb_data b @ net_data s)"
proof -
  let ?tot = "sb_data b @ net_data s"
  have ne: "delim \<noteq> []" using ds by (rule delim_search.delim_nonempty)
  have none: "\<forall>j<0. dead_at delim (sb_data b) j" by simp
  note sound = delim_search.loop_sound [OF ds run len le0 none]
  note outcome = delim_search.loop_outcome [OF ds run len le0 none nf refl]
  from first_position_first [OF ne, of "take (sb_max b) ?tot"] show ?thesis
  proof (elim disjE exE conjE)
    fix i assume i: "first_position delim (take (sb_max b) ?tot) = Some i"
      "first_at delim (take (sb_max b) ?tot) i"
    with outcome have ec: "ec = no_error" by (metis (lifting))
    with sound obtain k where k: "n = k + length delim" "first_at delim (sb_data b') k"
      by auto
    have "take (sb_max b) ?tot = sb_data b' @ take (sb_max b - length (sb_data b')) (net_data s')"
      using sound by (metis append_Nil2 take_all_iff take_append)
    with k(2) have "first_at delim (take (sb_max b) ?tot) k"
      by (simp add: first_at_append del: take_append)
    with i(2) have "k = i" by (rule first_at_unique [rotated])
    with ec k i(1) show ?thesis by (simp add: read_until_outcome_def del: take_append)
  next
    assume i: "first_position delim (take (sb_max b) ?tot) = None"
      "\<forall>j. \<not> occurs_at delim (take (sb_max b) ?tot) j"
    then have "\<not> (\<exists>i. first_at delim (take (sb_max b) ?tot) i)" by (simp add: first_at_def)
    with outcome sound i show ?thesis
      by (auto simp: read_until_outcome_def simp del: take_append split: if_splits)
  qed
qed


lemma read_until_no_fail:
  "read_until_loop search dlen cap pos b s = (ec, n, b', s') \<Longrightarrow> no_fail s \<Longrightarrow> no_fail s'"
proof (induction search dlen cap pos b s rule: read_until_loop.induct)
  case (1 search dlen cap pos b s)
  obtain i hit where sr: "search (sb_data b) pos = (i, hit)" by force
  obtain e got s1 where rs: "read_some (bytes_to_read cap b) s = (e, got, s1)"
    by (metis prod_cases3)
  note nf = read_some_no_fail [OF rs "1.prems"(2)]
  show ?case
    using "1.prems" "1.IH" sr rs nf
    by (subst (asm) read_until_loop.simps) (auto simp: Let_def split: bool.splits if_splits)
qed

lemma read_until_error_proper:
  "read_until_loop search dlen cap pos b s = (ec, n, b', s') \<Longrightarrow> proper_fails s \<Longrightarrow> proper_fails s'"
proof (induction search dlen cap pos b s rule: read_until_loop.induct)
  case (1 search dlen cap pos b s)
  obtain i hit where sr: "search (sb_data b) pos = (i, hit)" by force
  obtain e got s1 where rs: "read_some (bytes_to_read cap b) s = (e, got, s1)"
    by (metis prod_cases3)
  note pf = read_some_proper [OF rs "1.prems"(2)]
  show ?case
    using "1.prems" "1.IH" sr rs pf
    by (subst (asm) read_until_loop.simps) (auto simp: Let_def split: bool.splits if_splits)
qed


lemma outcome_found:
  assumes "delim \<noteq> []" and "occurs_at delim (take m d) i"
  shows "fst (read_until_outcome delim m d) = no_error"
  using first_position_first [OF assms(1), of "take m d"] assms(2)
  by (auto simp: read_until_outcome_def simp del: take_append)

lemma outcome_infix:
  assumes "delim \<noteq> []" and "d = pre @ delim @ post" and "length pre + length delim \<le> m"
  shows "fst (read_until_outcome delim m d) = no_error"
proof (rule outcome_found [OF assms(1)])
  show "occurs_at delim (take m d) (length pre)"
    using assms(2,3) by (auto simp: occurs_at_def)
qed

lemma outcome_missing:
  assumes "delim \<noteq> []" and "\<forall>i. \<not> occurs_at delim (take m d) i"
  shows "read_until_outcome delim m d = (if m \<le> length d then not_found else eof, 0)"
  using first_position_first [OF assms(1), of "take m d"] assms(2)
  by (auto simp: read_until_outcome_def first_at_def simp del: take_append)

lemma occurs_at_elem: "occurs_at delim d i \<Longrightarrow> set delim \<subseteq> set d"
  by (auto simp: occurs_at_def dest!: set_mono_prefix in_set_dropD)

end
