(* ===== verification/Asio_Read.thy ===== *)
theory Asio_Read
  imports Asio_Core
begin

text \<open>
  \<open>asio::read\<close> and \<open>asio::async_read\<close> into a fixed buffer with a completion condition
  (impl/read.hpp), and the interface the chat and echo programs use them through: a condition that
  asks for one byte at a time until a newline has arrived. A condition that ignores errors can keep
  the loop going forever, so the loops return an option.
\<close>

type_synonym completion = "error_code \<Rightarrow> bytes \<Rightarrow> nat"

text \<open>The condition sees the error of the last read and the bytes read so far.\<close>

partial_function (option) read_loop ::
  "completion \<Rightarrow> nat \<Rightarrow> error_code \<Rightarrow> bytes \<Rightarrow> net \<Rightarrow> (error_code \<times> bytes \<times> net) option" where
  "read_loop cond bsz ec buf s =
     (if bsz \<le> length buf then Some (ec, buf, s)
      else let m = cond ec buf in
        if 0 < m then
          (case read_some (min m (bsz - length buf)) s of
             (ec', got, s') \<Rightarrow> read_loop cond bsz ec' (buf @ got) s')
        else Some (ec, buf, s))"

definition read_cc :: "completion \<Rightarrow> nat \<Rightarrow> net \<Rightarrow> (error_code \<times> bytes \<times> net) option" where
  "read_cc cond bsz s = read_loop cond bsz no_error [] s"

partial_function (option) async_read_loop ::
  "completion \<Rightarrow> nat \<Rightarrow> nat \<Rightarrow> bytes \<Rightarrow> net \<Rightarrow> (error_code \<times> bytes \<times> net) option" where
  "async_read_loop cond bsz m buf s =
     (case (if min m (bsz - length buf) = 0 then (no_error, [], s)
            else read_some (min m (bsz - length buf)) s) of
        (ec, got, s') \<Rightarrow>
          if \<not> ec_set ec \<and> got = [] \<or> bsz \<le> length (buf @ got) then Some (ec, buf @ got, s')
          else if 0 < cond ec (buf @ got)
          then async_read_loop cond bsz (cond ec (buf @ got)) (buf @ got) s'
          else Some (ec, buf @ got, s'))"

definition async_read_cc :: "completion \<Rightarrow> nat \<Rightarrow> net \<Rightarrow> (error_code \<times> bytes \<times> net) option" where
  "async_read_cc cond bsz s = async_read_loop cond bsz (cond no_error []) [] s"

text \<open>
  What reading a line into a buffer of \<open>bsz\<close> bytes is to give: the line with its newline, or a
  full buffer without one, or all there is and end of file.
\<close>

definition line_outcome :: "nat \<Rightarrow> bytes \<Rightarrow> error_code \<times> bytes \<times> bytes" where
  "line_outcome bsz d =
     (if NL \<in> set (take bsz d) then (no_error, first_line d, after NL d)
      else if bsz \<le> length d then (no_error, take bsz d, drop bsz d)
      else (eof, d, []))"

lemma read_some_one_ex:
  "no_fail s \<Longrightarrow> net_data s = c # r \<Longrightarrow>
   \<exists>s'. read_some (Suc 0) s = (no_error, [c], s') \<and> net_data s' = r \<and> no_fail s'"
proof (induction s)
  case (Cons e s)
  then obtain d where e: "e = Arrive d" by (cases e) auto
  show ?case
  proof (cases d)
    case Nil
    with Cons e show ?thesis by simp
  next
    case (Cons x xs)
    with Cons.prems e show ?thesis by (cases xs) auto
  qed
qed simp

lemma read_some_one:
  assumes "no_fail s" and "net_data s = c # r"
  obtains s' where "read_some (Suc 0) s = (no_error, [c], s')" "net_data s' = r" "no_fail s'"
  using read_some_one_ex [OF assms] by blast

lemma read_some_none:
  "no_fail s \<Longrightarrow> net_data s = [] \<Longrightarrow> \<exists>s'. read_some n s = (eof, [], s') \<and> net_data s' = []"
  by (induction n s rule: read_some.induct) auto

lemma read_loop_no_fail:
  assumes "read_loop cond bsz ec buf s = Some y"
  shows "no_fail s \<longrightarrow> no_fail (snd (snd y))"
proof (rule read_loop.raw_induct [where P = "\<lambda>_ _ _ _ s y. no_fail s \<longrightarrow> no_fail (snd (snd y))", OF _ assms])
  fix rec :: "completion \<Rightarrow> nat \<Rightarrow> error_code \<Rightarrow> bytes \<Rightarrow> net \<Rightarrow> (error_code \<times> bytes \<times> net) option"
    and cond bsz ec buf s y
  assume ih: "\<And>cond bsz ec buf s y. rec cond bsz ec buf s = Some y \<Longrightarrow> no_fail s \<longrightarrow> no_fail (snd (snd y))"
    and eq: "(if bsz \<le> length buf then Some (ec, buf, s)
      else let m = cond ec buf in
        if 0 < m then
          (case read_some (min m (bsz - length buf)) s of
             (ec', got, s') \<Rightarrow> rec cond bsz ec' (buf @ got) s')
        else Some (ec, buf, s)) = Some y"
  obtain ec' got s' where r: "read_some (min (cond ec buf) (bsz - length buf)) s = (ec', got, s')"
    by (metis prod_cases3)
  show "no_fail s \<longrightarrow> no_fail (snd (snd y))"
    using ih [of cond bsz ec' "buf @ got" s' y] eq r read_some_no_fail [OF r]
    by (auto simp: Let_def split: if_splits)
qed

lemma read_cc_no_fail: "read_cc cond bsz s = Some (ec, got, s') \<Longrightarrow> no_fail s \<Longrightarrow> no_fail s'"
  unfolding read_cc_def by (drule read_loop_no_fail) simp

locale line_condition =
  fixes cond :: completion
  assumes cond_error: "ec_set ec \<Longrightarrow> cond ec buf = 0"
    and cond_line: "\<not> ec_set ec \<Longrightarrow> cond ec buf = (if NL \<in> set buf then 0 else Suc 0)"
begin

lemma async_read_loop_line:
  assumes "no_fail s" and "NL \<notin> set buf" and "length buf < bsz"
  shows "\<exists>s'. async_read_loop cond bsz (Suc 0) buf s
       = (case line_outcome (bsz - length buf) (net_data s) of (ec, got, rest) \<Rightarrow> Some (ec, buf @ got, s'))
     \<and> net_data s' = snd (snd (line_outcome (bsz - length buf) (net_data s)))"
  using assms
proof (induction "net_data s" arbitrary: s buf)
  case Nil
  then obtain s' where "read_some (Suc 0) s = (eof, [], s')" "net_data s' = []"
    using read_some_none by metis
  with Nil show ?case
    by (subst async_read_loop.simps) (auto simp: line_outcome_def cond_error min_def)
next
  case (Cons c r)
  from Cons.hyps(2) have d: "net_data s = c # r" by simp
  from read_some_one [OF Cons.prems(1) d]
  obtain s1 where s1: "read_some (Suc 0) s = (no_error, [c], s1)" "net_data s1 = r" "no_fail s1" .
  obtain k where k: "bsz - length buf = Suc k"
    using Cons.prems(3) by (metis Suc_diff_Suc)
  show ?case
  proof (cases "c = NL \<or> k = 0")
    case True
    then show ?thesis using s1 Cons.prems k d
      by (subst async_read_loop.simps)
         (auto simp: line_outcome_def first_line_def cond_line min_def)
  next
    case False
    have k': "bsz - length (buf @ [c]) = k" and lt: "length (buf @ [c]) < bsz"
      and ne: "NL \<noteq> c" using k False by auto
    have "\<exists>s'. async_read_loop cond bsz (Suc 0) (buf @ [c]) s1
       = (case line_outcome k r of (ec, got, rest) \<Rightarrow> Some (ec, (buf @ [c]) @ got, s'))
     \<and> net_data s' = snd (snd (line_outcome k r))"
      using Cons.hyps(1) [of s1 "buf @ [c]"] s1 Cons.prems ne lt k' by simp
    then show ?thesis using s1 Cons.prems k d False
      by (subst async_read_loop.simps)
         (auto simp: line_outcome_def first_line_def cond_line min_def split: if_splits)
  qed
qed

theorem async_read_line:
  assumes "no_fail s" and "0 < bsz"
  shows "\<exists>s'. async_read_cc cond bsz s
       = (case line_outcome bsz (net_data s) of (ec, got, rest) \<Rightarrow> Some (ec, got, s'))
     \<and> net_data s' = snd (snd (line_outcome bsz (net_data s)))"
  using async_read_loop_line [of s "[]" bsz] assms
  by (simp add: async_read_cc_def cond_line)

lemma read_loop_line:
  assumes "no_fail s" and "NL \<notin> set buf" and "length buf < bsz"
  shows "\<exists>s'. read_loop cond bsz no_error buf s
       = (case line_outcome (bsz - length buf) (net_data s) of (ec, got, rest) \<Rightarrow> Some (ec, buf @ got, s'))
     \<and> net_data s' = snd (snd (line_outcome (bsz - length buf) (net_data s)))"
  using assms
proof (induction "net_data s" arbitrary: s buf)
  case Nil
  then obtain s' where s': "read_some (Suc 0) s = (eof, [], s')" "net_data s' = []"
    using read_some_none by metis
  have stop: "read_loop cond bsz eof buf s' = Some (eof, buf, s')"
    by (subst read_loop.simps) (simp add: cond_error)
  from Nil s' stop show ?case
    by (subst read_loop.simps) (auto simp: line_outcome_def cond_line min_def)
next
  case (Cons c r)
  from Cons.hyps(2) have d: "net_data s = c # r" by simp
  from read_some_one [OF Cons.prems(1) d]
  obtain s1 where s1: "read_some (Suc 0) s = (no_error, [c], s1)" "net_data s1 = r" "no_fail s1" .
  obtain k where k: "bsz - length buf = Suc k"
    using Cons.prems(3) by (metis Suc_diff_Suc)
  have one: "read_loop cond bsz no_error buf s = read_loop cond bsz no_error (buf @ [c]) s1"
    using s1 Cons.prems k by (subst read_loop.simps) (simp add: cond_line min_def)
  show ?case
  proof (cases "c = NL \<or> k = 0")
    case True
    have "read_loop cond bsz no_error (buf @ [c]) s1 = Some (no_error, buf @ [c], s1)"
      using True k by (subst read_loop.simps) (auto simp: cond_line)
    with True one show ?thesis using s1 Cons.prems k d
      by (auto simp: line_outcome_def first_line_def)
  next
    case False
    have k': "bsz - length (buf @ [c]) = k" and lt: "length (buf @ [c]) < bsz"
      and ne: "NL \<noteq> c" using k False by auto
    have "\<exists>s'. read_loop cond bsz no_error (buf @ [c]) s1
       = (case line_outcome k r of (ec, got, rest) \<Rightarrow> Some (ec, (buf @ [c]) @ got, s'))
     \<and> net_data s' = snd (snd (line_outcome k r))"
      using Cons.hyps(1) [of s1 "buf @ [c]"] s1 Cons.prems ne lt k' by simp
    then show ?thesis using k d False one
      by (auto simp: line_outcome_def first_line_def split: if_splits)
  qed
qed

theorem read_line:
  assumes "no_fail s" and "0 < bsz"
  shows "\<exists>s'. read_cc cond bsz s
       = (case line_outcome bsz (net_data s) of (ec, got, rest) \<Rightarrow> Some (ec, got, s'))
     \<and> net_data s' = snd (snd (line_outcome bsz (net_data s)))"
  using read_loop_line [of s "[]" bsz] assms by (simp add: read_cc_def)

end

lemma line_outcome_hit:
  "NL \<notin> set l \<Longrightarrow> length l < bsz \<Longrightarrow> line_outcome bsz (l @ NL # r) = (no_error, l @ [NL], r)"
  by (simp add: line_outcome_def first_line_def take_Cons' split: if_splits)

end
