(* ===== verification/Asio_Socket.thy ===== *)
theory Asio_Socket
  imports Asio_Read
begin

text \<open>
  A connected TCP socket as the programs see it: the inbound script, what the kernel accepted for
  sending, and the outcomes still to come of \<open>shutdown\<close> and of composed writes. The results a
  system call may give are the environment's choice, so they stand in the socket as scripts; an
  exhausted script means success.
\<close>

record tcp_sock =
  ts_in :: net
  ts_out :: bytes
  ts_shuts :: "error_code list"
  ts_writes :: "(nat \<times> error_code) option list"

definition sock_on :: "net \<Rightarrow> tcp_sock" where
  "sock_on s = \<lparr>ts_in = s, ts_out = [], ts_shuts = [], ts_writes = []\<rparr>"

definition sock_shutdown :: "tcp_sock \<Rightarrow> error_code \<times> tcp_sock" where
  "sock_shutdown k = (case ts_shuts k of [] \<Rightarrow> (no_error, k) | e # es \<Rightarrow> (e, k\<lparr>ts_shuts := es\<rparr>))"

text \<open>
  \<open>asio::async_write\<close> and \<open>asio::write\<close> of a whole buffer: all of it is transferred, or an error
  ends the operation after some bytes.
\<close>

definition write_all :: "bytes \<Rightarrow> tcp_sock \<Rightarrow> error_code \<times> nat \<times> tcp_sock" where
  "write_all bs k =
     (case ts_writes k of
        Some (n, e) # ws \<Rightarrow> (e, n, k\<lparr>ts_out := ts_out k @ take n bs, ts_writes := ws\<rparr>)
      | ws \<Rightarrow> (no_error, length bs, k\<lparr>ts_out := ts_out k @ bs, ts_writes := tl ws\<rparr>))"

text \<open>\<open>async_read_until\<close> on a socket and a streambuf.\<close>

definition sock_read_until_str ::
  "(nat \<Rightarrow> nat) \<Rightarrow> bytes \<Rightarrow> streambuf \<Rightarrow> tcp_sock \<Rightarrow> error_code \<times> nat \<times> streambuf \<times> tcp_sock" where
  "sock_read_until_str cap delim b k =
     (case async_read_until_str cap delim b (ts_in k) of
        (ec, n, b', s') \<Rightarrow> (ec, n, b', k\<lparr>ts_in := s'\<rparr>))"

definition sock_read_until_char ::
  "(nat \<Rightarrow> nat) \<Rightarrow> char \<Rightarrow> streambuf \<Rightarrow> tcp_sock \<Rightarrow> error_code \<times> nat \<times> streambuf \<times> tcp_sock" where
  "sock_read_until_char cap c b k =
     (case async_read_until_char cap c b (ts_in k) of
        (ec, n, b', s') \<Rightarrow> (ec, n, b', k\<lparr>ts_in := s'\<rparr>))"

text \<open>Exceptions that can leave a completion handler.\<close>

datatype exn = System_error error_code | Out_of_range | Logic_error | Bad_alloc

lemma sock_on_sel [simp]:
  "ts_in (sock_on s) = s" "ts_out (sock_on s) = []" "ts_shuts (sock_on s) = []"
  "ts_writes (sock_on s) = []"
  by (simp_all add: sock_on_def)

lemma sock_shutdown_quiet [simp]: "ts_shuts k = [] \<Longrightarrow> sock_shutdown k = (no_error, k)"
  by (simp add: sock_shutdown_def)

lemma write_all_quiet [simp]:
  "ts_writes k = [] \<Longrightarrow> write_all bs k = (no_error, length bs, k\<lparr>ts_out := ts_out k @ bs\<rparr>)"
  by (simp add: write_all_def)

lemma sock_read_until_sound:
  assumes "sock_read_until_str cap delim b k = (ec, n, b', k')" and "delim \<noteq> []"
    and "length (sb_data b) \<le> sb_max b" and "proper_fails (ts_in k)"
  shows "sb_data b' @ net_data (ts_in k') = sb_data b @ net_data (ts_in k)"
    and "ts_out k' = ts_out k" and "ts_shuts k' = ts_shuts k" and "ts_writes k' = ts_writes k"
    and "sb_max b' = sb_max b" and "length (sb_data b') \<le> sb_max b"
    and "\<not> ec_set ec \<Longrightarrow> \<exists>i. n = i + length delim \<and> first_at delim (sb_data b') i"
proof -
  from assms(1,4) obtain s' where
    run: "read_until_loop (search_str delim) (length delim) cap 0 b (ts_in k) = (ec, n, b', s')"
    and k': "k' = k\<lparr>ts_in := s'\<rparr>"
    by (auto simp: sock_read_until_str_def async_read_until_str_def async_eq_sync split: prod.splits)
  have none: "\<forall>j<0. dead_at delim (sb_data b) j" by simp
  note sound = delim_search.loop_sound [OF delim_search_str [OF assms(2)] run assms(3) le0 none]
  from sound k' show "sb_data b' @ net_data (ts_in k') = sb_data b @ net_data (ts_in k)"
    and "ts_out k' = ts_out k" and "ts_shuts k' = ts_shuts k" and "ts_writes k' = ts_writes k"
    and "sb_max b' = sb_max b" and "length (sb_data b') \<le> sb_max b"
    and "\<not> ec_set ec \<Longrightarrow> \<exists>i. n = i + length delim \<and> first_at delim (sb_data b') i"
    by auto
qed

lemma sock_read_until_outcome:
  assumes "sock_read_until_str cap delim b k = (ec, n, b', k')" and "delim \<noteq> []"
    and "length (sb_data b) \<le> sb_max b" and "no_fail (ts_in k)"
  shows "(ec, n) = read_until_outcome delim (sb_max b) (sb_data b @ net_data (ts_in k))"
    and "no_fail (ts_in k')"
proof -
  from assms(1,4) obtain s' where
    run: "read_until_loop (search_str delim) (length delim) cap 0 b (ts_in k) = (ec, n, b', s')"
    and k': "k' = k\<lparr>ts_in := s'\<rparr>"
    by (auto simp: sock_read_until_str_def async_read_until_str_def async_eq_sync no_fail_proper
        split: prod.splits)
  show "(ec, n) = read_until_outcome delim (sb_max b) (sb_data b @ net_data (ts_in k))"
    by (rule loop_matches_outcome [OF delim_search_str [OF assms(2)] assms(4,3) run])
  show "no_fail (ts_in k')"
    using read_until_no_fail [OF run assms(4)] k' by simp
qed


lemma first_at_single: "first_at [c] d i \<Longrightarrow> d = take i d @ c # drop (Suc i) d \<and> c \<notin> set (take i d)"
proof -
  assume f: "first_at [c] d i"
  have occ: "occurs_at [c] d j \<longleftrightarrow> j < length d \<and> d ! j = c" for j
    by (cases "j < length d") (auto simp: occurs_at_def Cons_nth_drop_Suc [symmetric])
  from f have i: "i < length d" "d ! i = c" and none: "\<forall>j<i. d ! j \<noteq> c"
    by (auto simp: first_at_def occ)
  from i have "d = take i d @ c # drop (Suc i) d" by (metis id_take_nth_drop)
  moreover have "c \<notin> set (take i d)" using none i by (auto simp: in_set_conv_nth)
  ultimately show ?thesis by simp
qed

lemma sock_read_line:
  assumes nf: "no_fail (ts_in k)" and d: "sb_data b @ net_data (ts_in k) = l @ c # r" and c: "c \<notin> set l"
    and len: "length (l @ c # r) < sb_max b"
  shows "\<exists>y s'. sock_read_until_char cap c b k
      = (no_error, Suc (length l), b\<lparr>sb_data := l @ c # y\<rparr>, k\<lparr>ts_in := s'\<rparr>)
    \<and> y @ net_data s' = r \<and> no_fail s'"
proof -
  obtain ec n b' s' where run: "read_until_loop (search_char c) (length [c]) cap 0 b (ts_in k) = (ec, n, b', s')"
    by (metis prod_cases4)
  have sb: "length (sb_data b) \<le> sb_max b"
    using d len by (metis le_add1 le_trans length_append less_imp_le)
  have none: "\<forall>j<0. dead_at [c] (sb_data b) j" by simp
  note ds = delim_search_char [of c]
  note sound = delim_search.loop_sound [OF ds run sb le0 none]
  have tk: "take (sb_max b) (l @ c # r) = l @ c # r" using len by simp
  have at: "occurs_at [c] (l @ c # r) (length l)" by (simp add: occurs_at_def)
  have "\<exists>i. first_at [c] (take (sb_max b) (l @ c # r)) i"
    unfolding tk using search_str_first [of "[c]" "l @ c # r"] at by blast
  then have ec: "ec = no_error"
    using delim_search.loop_outcome [OF ds run sb le0 none nf refl] unfolding d by metis
  then obtain i where i: "n = Suc i" "first_at [c] (sb_data b') i" using sound by auto
  note f = first_at_single [OF i(2)]
  have whole: "take i (sb_data b') @ c # (drop (Suc i) (sb_data b') @ net_data s') = l @ c # r"
    using sound f d by (metis append.assoc append_Cons)
  then have l: "take i (sb_data b') = l" and r: "drop (Suc i) (sb_data b') @ net_data s' = r"
    using cut_unique [OF whole] f c by blast+
  have "i \<le> length (sb_data b')" using i(2) by (auto simp: first_at_def occurs_at_def)
  then have "length l = i" using l by auto
  moreover obtain y where y: "sb_data b' = l @ c # y" "y @ net_data s' = r" using f l r by metis
  moreover have "b' = b\<lparr>sb_data := l @ c # y\<rparr>"
    by (rule streambuf.equality) (use y(1) sound in simp_all)
  moreover have "no_fail s'" using read_until_no_fail [OF run nf] .
  ultimately show ?thesis
    using run ec i(1) no_fail_proper [OF nf]
    by (auto simp: sock_read_until_char_def async_read_until_char_def async_eq_sync)
qed

lemma read_until_char_line:
  assumes "no_fail s" and "sb_data b @ net_data s = l @ c # r" and "c \<notin> set l"
    and "length (l @ c # r) < sb_max b"
  shows "\<exists>y s'. read_until_char cap c b s = (no_error, Suc (length l), b\<lparr>sb_data := l @ c # y\<rparr>, s')
    \<and> y @ net_data s' = r \<and> no_fail s'"
proof -
  have "async_read_until_char cap c b s = read_until_char cap c b s"
    using async_eq_sync [OF no_fail_proper [OF assms(1)]]
    by (simp add: async_read_until_char_def read_until_char_def)
  then show ?thesis
    using sock_read_line [of "sock_on s" b l c r cap] assms
    by (auto simp: sock_read_until_char_def split: prod.splits dest: arg_cong [where f = ts_in])
qed

text \<open>
  \<open>async_read\<close> into a streambuf (\<open>read_dynbuf_op\<close> with \<open>transfer_all\<close>): reads go on until one
  gives an error or no bytes, or the streambuf is full.
\<close>

function async_read_streambuf ::
  "(nat \<Rightarrow> nat) \<Rightarrow> nat \<Rightarrow> streambuf \<Rightarrow> net \<Rightarrow> error_code \<times> nat \<times> streambuf \<times> net" where
  "async_read_streambuf cap tot b s =
     (case (if bytes_to_read cap b = 0 then (no_error, [], s) else read_some (bytes_to_read cap b) s) of
        (ec, got, s') \<Rightarrow>
          let b' = b\<lparr>sb_data := sb_data b @ got\<rparr> in
          if ec_set ec \<or> got = [] \<or> bytes_to_read cap b' = 0 then (ec, tot + length got, b', s')
          else async_read_streambuf cap (tot + length got) b' s')"
  by pat_completeness auto
termination
proof (relation "measure (\<lambda>(_, _, _, s). net_size s)", simp, clarsimp)
  fix cap and b :: streambuf and s ec got s'
  assume "(ec, got, s') = (if bytes_to_read cap b = 0 then (no_error, [], s)
      else read_some (bytes_to_read cap b) s)"
    and "\<not> ec_set ec" and "got \<noteq> []"
  then have "read_some (bytes_to_read cap b) s = (ec, got, s')" and "0 < bytes_to_read cap b"
    and "s \<noteq> []"
    by (auto split: if_splits)
  then show "net_size s' < net_size s" by (rule read_some_shrinks)
qed

declare async_read_streambuf.simps [simp del]

definition sock_read_all ::
  "(nat \<Rightarrow> nat) \<Rightarrow> streambuf \<Rightarrow> tcp_sock \<Rightarrow> error_code \<times> nat \<times> streambuf \<times> tcp_sock" where
  "sock_read_all cap b k =
     (case async_read_streambuf cap 0 b (ts_in k) of (ec, n, b', s') \<Rightarrow> (ec, n, b', k\<lparr>ts_in := s'\<rparr>))"

lemma async_read_streambuf_all:
  assumes "no_fail s" and "length (sb_data b) + length (net_data s) < sb_max b"
  shows "\<exists>s'. async_read_streambuf cap tot b s
    = (eof, tot + length (net_data s), b\<lparr>sb_data := sb_data b @ net_data s\<rparr>, s') \<and> net_data s' = []"
  using assms
proof (induction s arbitrary: tot b rule: measure_induct_rule [where f = net_size])
  case (less s)
  have pos: "0 < bytes_to_read cap b" using less.prems(2) by (simp add: bytes_to_read_def)
  obtain ec got s1 where rs: "read_some (bytes_to_read cap b) s = (ec, got, s1)"
    by (metis prod_cases3)
  note data = read_some_data [OF rs] and e = read_some_ec [OF rs less.prems(1)]
  show ?case
  proof (cases "net_data s = []")
    case True
    with e data rs pos show ?thesis
      by (subst async_read_streambuf.simps) (auto simp: Let_def)
  next
    case False
    with e pos have ok: "ec = no_error" "got \<noteq> []" by auto
    let ?b = "b\<lparr>sb_data := sb_data b @ got\<rparr>"
    have len: "length (sb_data ?b) + length (net_data s1) < sb_max ?b"
      using less.prems(2) by (simp add: data [symmetric])
    then have pos': "bytes_to_read cap ?b \<noteq> 0" by (simp add: bytes_to_read_def)
    have "s \<noteq> []" using False by auto
    then have "net_size s1 < net_size s" by (rule read_some_shrinks [OF rs pos])
    from less.IH [OF this read_some_no_fail [OF rs less.prems(1)] len, of "tot + length got"]
    obtain s' where "async_read_streambuf cap (tot + length got) ?b s1
        = (eof, tot + length got + length (net_data s1), ?b\<lparr>sb_data := sb_data ?b @ net_data s1\<rparr>, s')"
      "net_data s' = []" by blast
    then show ?thesis using rs pos pos' ok data [symmetric]
      by (subst async_read_streambuf.simps) (simp add: Let_def)
  qed
qed


text \<open>
  the asynchronous \<open>read_until\<close>, with its remembered search position and its resumptions, and
  the synchronous one are the same function of the streambuf and the socket's script, errors
  included, when the failures of the script are real errors.
\<close>

theorem async_read_until_agrees:
  assumes "proper_fails s"
  shows "async_read_until_str cap delim b s = read_until_str cap delim b s
    \<and> async_read_until_char cap c b s = read_until_char cap c b s"
  using async_eq_sync [OF assms]
  by (simp add: async_read_until_str_def read_until_str_def async_read_until_char_def read_until_char_def)

theorem async_read_until_agrees_witness:
  "async_read_until_str (\<lambda>n. n) crlf \<lparr>sb_data = [], sb_max = 4\<rparr> [Arrive ''a'', Fail eof]
     = read_until_str (\<lambda>n. n) crlf \<lparr>sb_data = [], sb_max = 4\<rparr> [Arrive ''a'', Fail eof]
   \<and> async_read_until_char (\<lambda>n. n) NL \<lparr>sb_data = [], sb_max = 4\<rparr> [Arrive ''a'', Fail eof]
     = read_until_char (\<lambda>n. n) NL \<lparr>sb_data = [], sb_max = 4\<rparr> [Arrive ''a'', Fail eof]"
  by (rule async_read_until_agrees) simp

text \<open>
  C4: what \<open>async_read_until\<close> reports does not depend on how the data is cut into arrivals nor on
  the allocator: it is the end of the first delimiter within the streambuf's bound in all that will ever
  arrive, found by trying each position in turn, else \<open>not_found\<close> when the bound is reached, else end of file. No byte is lost or
  reordered, and the streambuf keeps its bound.
\<close>

theorem async_read_until_contract:
  assumes "delim \<noteq> []" and "length (sb_data b) \<le> sb_max b" and "no_fail s"
    and "async_read_until_str cap delim b s = (ec, n, b', s')"
  shows "(ec, n) = read_until_outcome delim (sb_max b) (sb_data b @ net_data s)
    \<and> sb_data b' @ net_data s' = sb_data b @ net_data s
    \<and> length (sb_data b') \<le> sb_max b
    \<and> (ec = no_error \<longrightarrow> first_at delim (sb_data b') (n - length delim) \<and> length delim \<le> n)"
proof -
  have run: "sock_read_until_str cap delim b (sock_on s) = (ec, n, b', (sock_on s)\<lparr>ts_in := s'\<rparr>)"
    using assms(4) by (simp add: sock_read_until_str_def)
  from sock_read_until_outcome [OF run assms(1,2)] sock_read_until_sound [OF run assms(1,2)] assms(3)
  show ?thesis by (auto simp: no_fail_proper)
qed

theorem async_read_until_contract_witness:
  "\<exists>ec n b' s'. async_read_until_str (\<lambda>n. n) crlf \<lparr>sb_data = [], sb_max = 10\<rparr> [Arrive [CR], Arrive ''x'', Arrive crlf]
      = (ec, n, b', s')
    \<and> ec = no_error \<and> n = 4"
proof -
  obtain ec n b' s' where r: "async_read_until_str (\<lambda>n. n) crlf \<lparr>sb_data = [], sb_max = 10\<rparr>
      [Arrive [CR], Arrive ''x'', Arrive crlf] = (ec, n, b', s')"
    by (metis prod_cases4)
  from async_read_until_contract [OF _ _ _ r] have
    "(ec, n) = read_until_outcome crlf 10 ([CR] @ ''x'' @ crlf)" by simp
  then have "ec = no_error \<and> n = 4" by (simp add: read_until_outcome_def first_position_def upt_rec)
  with r show ?thesis by blast
qed

end
