(* ===== verification/Http_Server.thy ===== *)
theory Http_Server
  imports Asio_Socket
begin

text \<open>
  The HTTP server of the cookbook (ch05/HTTPServer.cpp): the \<open>Service\<close> of one connection with its
  handlers, driven by the completions of the asynchronous operations it has in flight, and the
  \<open>Acceptor\<close>. The file system is a parameter, a function from paths; the script of the socket and
  the allocator's capacities are those of the asio theories. What is written to \<open>std::cout\<close> is left
  out.
\<close>

subsection \<open>State\<close>

text \<open>
  What \<open>file_exists\<close>, \<open>is_open\<close>, \<open>tellg\<close> at the end and \<open>read\<close> give for a path: the position
  reported and the contents of the buffer of that many bytes once read.
\<close>

datatype file_state = Missing | Unreadable | Opened int bytes

datatype svc_op = Read_request_line | Read_headers | Write_response bytes

record service =
  svc_sock :: tcp_sock
  svc_request :: streambuf
  svc_request_headers :: "bytes \<rightharpoonup> bytes"
  svc_requested_resource :: bytes
  svc_resource_buffer :: bytes
  svc_response_status_code :: u32
  svc_resource_size_bytes :: u64
  svc_response_headers :: bytes
  svc_response_status_line :: bytes
  svc_pending :: "svc_op list"
  svc_deleted :: nat
  svc_escaped :: "exn list"

definition service_new :: "tcp_sock \<Rightarrow> service" where
  "service_new sock =
     \<lparr>svc_sock = sock, svc_request = \<lparr>sb_data = [], sb_max = 4096\<rparr>, svc_request_headers = Map.empty,
      svc_requested_resource = [], svc_resource_buffer = [], svc_response_status_code = 200,
      svc_resource_size_bytes = 0, svc_response_headers = [], svc_response_status_line = [],
      svc_pending = [], svc_deleted = 0, svc_escaped = []\<rparr>"

definition http_status_table :: "u32 \<rightharpoonup> bytes" where
  "http_status_table = map_of
     [(200, ''200 OK''),
      (404, ''404 Not Found''),
      (413, ''413 Request Entity Too Large''),
      (500, ''500 Server Error''),
      (501, ''501 Not Implemented''),
      (505, ''505 HTTP Version Not Supported'')]"

subsection \<open>Handlers\<close>

text \<open>Starting an asynchronous operation puts it in flight; its completion calls the handler.\<close>

definition svc_start :: "svc_op \<Rightarrow> service \<Rightarrow> service" where
  "svc_start op s = s\<lparr>svc_pending := svc_pending s @ [op]\<rparr>"

definition svc_throw :: "exn \<Rightarrow> service \<Rightarrow> service" where
  "svc_throw e s = s\<lparr>svc_escaped := svc_escaped s @ [e]\<rparr>"

definition start_handling :: "service \<Rightarrow> service" where
  "start_handling s = svc_start Read_request_line s"

definition svc_on_finish :: "service \<Rightarrow> service" where
  "svc_on_finish s = s\<lparr>svc_deleted := Suc (svc_deleted s)\<rparr>"

definition on_response_sent :: "error_code \<Rightarrow> nat \<Rightarrow> service \<Rightarrow> service" where
  "on_response_sent ec n s =
     (case sock_shutdown (svc_sock s) of
        (e, k) \<Rightarrow> let s' = s\<lparr>svc_sock := k\<rparr> in
          if ec_set e then svc_throw (System_error e) s' else svc_on_finish s')"

definition send_response :: "service \<Rightarrow> service" where
  "send_response s =
     (case sock_shutdown (svc_sock s) of
        (e, k) \<Rightarrow> let s1 = s\<lparr>svc_sock := k\<rparr> in
          if ec_set e then svc_throw (System_error e) s1
          else (case http_status_table (svc_response_status_code s1) of
              None \<Rightarrow> svc_throw Out_of_range s1
            | Some status_line \<Rightarrow>
                let s2 = s1\<lparr>svc_response_status_line := ''HTTP/1.1 '' @ status_line @ crlf,
                            svc_response_headers := svc_response_headers s1 @ crlf\<rparr>;
                    buffers = [svc_response_status_line s2]
                      @ (if 0 < length (svc_response_headers s2)
                         then [svc_response_headers s2] else [])
                      @ (if 0 < svc_resource_size_bytes s2
                         then [take (unat (svc_resource_size_bytes s2)) (svc_resource_buffer s2)]
                         else [])
                in svc_start (Write_response (concat buffers)) s2))"

text \<open>
  \<open>tellg\<close> gives -1 on failure, and a file on a directory or a device may report anything;
  \<open>new char[n]\<close> throws when \<open>n\<close> exceeds the largest object.
\<close>

definition process_request :: "(bytes \<Rightarrow> file_state) \<Rightarrow> service \<Rightarrow> exn option \<times> service" where
  "process_request fs s =
     (let resource_file_path = ''.'' @ svc_requested_resource s in
      case fs resource_file_path of
        Missing \<Rightarrow> (None, s\<lparr>svc_response_status_code := 404\<rparr>)
      | Unreadable \<Rightarrow> (None, s\<lparr>svc_response_status_code := 500\<rparr>)
      | Opened end_pos contents \<Rightarrow>
          let s1 = s\<lparr>svc_resource_size_bytes := word_of_int end_pos\<rparr> in
          if unat (svc_resource_size_bytes s1) \<ge> 2 ^ 63 then (Some Bad_alloc, s1)
          else (None, s1\<lparr>svc_resource_buffer := contents,
                   svc_response_headers := svc_response_headers s1 @ ''content-length'' @ '': ''
                     @ to_string (unat (svc_resource_size_bytes s1)) @ crlf\<rparr>))"

text \<open>The header loop, on the stream over \<open>m_request\<close>; it gives the map and the stream left.\<close>

partial_function (option) request_headers_loop ::
  "istream \<Rightarrow> bytes \<Rightarrow> bytes \<Rightarrow> (bytes \<rightharpoonup> bytes) \<Rightarrow> ((bytes \<rightharpoonup> bytes) \<times> istream) option" where
  "request_headers_loop is header_name header_value m =
     (if eofbit is then Some (m, is)
      else case getline_delim CHR '':'' is header_name of
        (name, is1) \<Rightarrow>
          if eofbit is1 then request_headers_loop is1 name header_value m
          else case getline_delim CR is1 header_value of
            (val, is2) \<Rightarrow>
              request_headers_loop (stream_get is2) name val (m(name \<mapsto> val)))"

definition svc_on_headers_received ::
  "(bytes \<Rightarrow> file_state) \<Rightarrow> error_code \<Rightarrow> nat \<Rightarrow> service \<Rightarrow> service option" where
  "svc_on_headers_received fs ec n s =
     (if ec_set ec then
        (if ec = not_found
         then Some (send_response (s\<lparr>svc_response_status_code := 413\<rparr>))
         else Some (svc_on_finish s))
      else case request_headers_loop (istream_of (sb_data (svc_request s))) [] []
                  (svc_request_headers s) of
        None \<Rightarrow> None
      | Some (m, is) \<Rightarrow>
          let s1 = s\<lparr>svc_request := (svc_request s)\<lparr>sb_data := chars is\<rparr>, svc_request_headers := m\<rparr>
          in (case process_request fs s1 of
                (Some e, s2) \<Rightarrow> Some (svc_throw e s2)
              | (None, s2) \<Rightarrow> Some (send_response s2)))"

definition on_request_line_received :: "error_code \<Rightarrow> nat \<Rightarrow> service \<Rightarrow> service" where
  "on_request_line_received ec n s =
     (if ec_set ec then
        (if ec = not_found
         then send_response (s\<lparr>svc_response_status_code := 413\<rparr>)
         else svc_on_finish s)
      else
        let (request_line, rs) = getline_delim CR (istream_of (sb_data (svc_request s))) [];
            rs1 = stream_get rs;
            s1 = s\<lparr>svc_request := (svc_request s)\<lparr>sb_data := chars rs1\<rparr>\<rparr>;
            (request_method, ls1) = extract_word (istream_of request_line) []
        in if request_method \<noteq> ''GET''
           then send_response (s1\<lparr>svc_response_status_code := 501\<rparr>)
           else
             let (resource, ls2) = extract_word ls1 (svc_requested_resource s1);
                 s2 = s1\<lparr>svc_requested_resource := resource\<rparr>;
                 (http_version, ls3) = extract_word ls2 []
             in if http_version \<noteq> ''HTTP/1.1''
                then send_response (s2\<lparr>svc_response_status_code := 505\<rparr>)
                else svc_start Read_headers s2)"

text \<open>
  A completion: the operation that has been in flight longest ends and its handler runs. \<open>None\<close>
  would be a handler that does not return.
\<close>

definition svc_complete ::
  "(bytes \<Rightarrow> file_state) \<Rightarrow> (nat \<Rightarrow> nat) \<Rightarrow> service \<Rightarrow> service option" where
  "svc_complete fs cap s =
     (case svc_pending s of
        [] \<Rightarrow> None
      | Read_request_line # ops \<Rightarrow>
          (case sock_read_until_str cap crlf (svc_request s) (svc_sock s) of
             (ec, n, b, k) \<Rightarrow>
               Some (on_request_line_received ec n
                 (s\<lparr>svc_pending := ops, svc_request := b, svc_sock := k\<rparr>)))
      | Read_headers # ops \<Rightarrow>
          (case sock_read_until_str cap crlf2 (svc_request s) (svc_sock s) of
             (ec, n, b, k) \<Rightarrow>
               svc_on_headers_received fs ec n
                 (s\<lparr>svc_pending := ops, svc_request := b, svc_sock := k\<rparr>))
      | Write_response bs # ops \<Rightarrow>
          (case write_all bs (svc_sock s) of
             (ec, n, k) \<Rightarrow>
               Some (on_response_sent ec n (s\<lparr>svc_pending := ops, svc_sock := k\<rparr>))))"

inductive svc_step :: "(bytes \<Rightarrow> file_state) \<Rightarrow> (nat \<Rightarrow> nat) \<Rightarrow> service \<Rightarrow> service \<Rightarrow> bool"
  for fs cap where
  Svc_completion: "svc_complete fs cap s = Some t \<Longrightarrow> svc_step fs cap s t"

inductive_cases svc_stepE: "svc_step fs cap s t"

inductive_simps svc_step_iff: "svc_step fs cap s t"


text \<open>Completions until nothing is in flight, at most the given number of them.\<close>

fun svc_run ::
  "(bytes \<Rightarrow> file_state) \<Rightarrow> (nat \<Rightarrow> nat) \<Rightarrow> nat \<Rightarrow> service \<Rightarrow> service option" where
  "svc_run fs cap 0 s = Some s"
| "svc_run fs cap (Suc k) s =
     (if svc_pending s = [] then Some s
      else case svc_complete fs cap s of None \<Rightarrow> None | Some t \<Rightarrow> svc_run fs cap k t)"

subsection \<open>The header loop returns\<close>

lemma length_stream_get: "length (chars (stream_get is)) \<le> length (chars is)"
  by (simp add: stream_get_def split: list.split)

definition stream_live :: "istream \<Rightarrow> bool" where
  "stream_live is \<longleftrightarrow> (failbit is \<longrightarrow> eofbit is)"

lemma stream_live_of [simp]: "stream_live (istream_of s)"
  by (simp add: stream_live_def)

lemma getline_live:
  assumes "getline_delim d is s = (t, is')" and "stream_live is" and "\<not> eofbit is"
  shows "stream_live is'" and "\<not> eofbit is' \<Longrightarrow> length (chars is') < length (chars is)"
    and "length (chars is') \<le> length (chars is)"
proof -
  have good: "stream_good is" using assms(2,3) by (simp add: stream_live_def stream_good_def)
  show "stream_live is'"
    using assms good by (auto simp: getline_delim_def stream_live_def stream_good_def split: if_splits)
  show "length (chars is') < length (chars is)" if "\<not> eofbit is'"
    using assms good that by (auto simp: getline_delim_def length_after_less split: if_splits)
  show "length (chars is') \<le> length (chars is)"
    using assms good by (auto simp: getline_delim_def length_after_le split: if_splits)
qed

lemma stream_get_live: "stream_live is \<Longrightarrow> stream_live (stream_get is)"
  by (auto simp: stream_get_def stream_live_def stream_good_def split: list.split)

lemma request_headers_loop_returns:
  "stream_live is \<Longrightarrow> \<exists>m' is'. request_headers_loop is hn hv m = Some (m', is')"
proof (induction "length (chars is)" arbitrary: "is" hn hv m rule: less_induct)
  case less
  show ?case
  proof (cases "eofbit is")
    case True
    then show ?thesis by (subst request_headers_loop.simps) simp
  next
    case False
    obtain name is1 where g1: "getline_delim CHR '':'' is hn = (name, is1)" by force
    obtain val is2 where g2: "getline_delim CR is1 hv = (val, is2)" by force
    note l1 = getline_live [OF g1 less.prems False]
    show ?thesis
    proof (cases "eofbit is1")
      case True
      then show ?thesis using False g1
        by (subst request_headers_loop.simps) (simp add: request_headers_loop.simps [of is1])
    next
      case e1: False
      note l2 = getline_live [OF g2 l1(1) e1]
      have "length (chars (stream_get is2)) < length (chars is)"
        using l1(2) [OF e1] l2(3) length_stream_get [of is2] by simp
      then show ?thesis
        using less.hyps [of "stream_get is2"] stream_get_live [OF l2(1)] False e1 g1 g2
        by (subst request_headers_loop.simps) simp
    qed
  qed
qed

text \<open>On well-formed headers it stores each of them, the last value of a name winning.\<close>

definition header_line :: "bytes \<times> bytes \<Rightarrow> bytes" where
  "header_line h = fst h @ CHR '':'' # snd h @ crlf"

lemma header_line_Pair: "header_line (n, v) = n @ CHR '':'' # v @ crlf"
  by (simp add: header_line_def)

definition headers_wf :: "(bytes \<times> bytes) list \<Rightarrow> bool" where
  "headers_wf hs \<longleftrightarrow>
     (\<forall>h \<in> set hs. fst h \<noteq> [] \<and> CHR '':'' \<notin> set (fst h) \<and> CR \<notin> set (fst h) \<and> CR \<notin> set (snd h))"

lemma headers_wf_simps [simp]:
  "headers_wf []"
  "headers_wf ((n, v) # hs) \<longleftrightarrow>
     n \<noteq> [] \<and> CHR '':'' \<notin> set n \<and> CR \<notin> set n \<and> CR \<notin> set v \<and> headers_wf hs"
  by (auto simp: headers_wf_def)

lemma request_headers_loop_end:
  "CHR '':'' \<notin> set rest \<Longrightarrow>
   \<exists>is'. request_headers_loop (istream_of rest) hn hv m = Some (m, is') \<and> chars is' = []"
  by (subst request_headers_loop.simps)
     (simp add: getline_delim_def request_headers_loop.simps)

lemma request_headers_loop_spec:
  assumes "headers_wf hs" and "CHR '':'' \<notin> set rest"
  shows "\<exists>is'. request_headers_loop (istream_of (concat (map header_line hs) @ rest)) hn hv m
    = Some (m ++ map_of (rev hs), is') \<and> chars is' = []"
  using assms(1)
proof (induction hs arbitrary: m hn hv)
  case Nil
  with request_headers_loop_end [OF assms(2)] show ?case by simp
next
  case (Cons h hs)
  obtain n v where h: "h = (n, v)" by force
  from Cons.prems h have wf: "CHR '':'' \<notin> set n" "CR \<notin> set v" "headers_wf hs" by auto
  have "request_headers_loop (istream_of (concat (map header_line (h # hs)) @ rest)) hn hv m
      = request_headers_loop (istream_of (concat (map header_line hs) @ rest)) n v (m(n \<mapsto> v))"
    using wf by (subst request_headers_loop.simps)
      (simp add: h header_line_def getline_hit stream_get_Cons)
  moreover have "m(n \<mapsto> v) ++ map_of (rev hs) = m ++ map_of (rev (h # hs))"
    by (simp add: h)
  ultimately show ?case
    using Cons.IH [OF wf(3), of n v "m(n \<mapsto> v)"] by metis
qed


subsection \<open>One service, one end\<close>

text \<open>
  A service ends by \<open>delete this\<close> or by an exception that leaves a handler. Every handler, whatever
  its error code, adds one end or one operation.
\<close>

definition svc_reports :: "service \<Rightarrow> nat" where
  "svc_reports s = svc_deleted s + length (svc_escaped s)"

fun svc_op_work :: "svc_op \<Rightarrow> nat" where
  "svc_op_work Read_request_line = 3"
| "svc_op_work Read_headers = 2"
| "svc_op_work (Write_response bs) = 1"

definition svc_work :: "service \<Rightarrow> nat" where
  "svc_work s = sum_list (map svc_op_work (svc_pending s))"

definition svc_balance :: "service \<Rightarrow> nat" where
  "svc_balance s = length (svc_pending s) + svc_reports s"

lemmas svc_counts = svc_balance_def svc_reports_def svc_work_def

lemma svc_start_counts [simp]:
  "svc_balance (svc_start op s) = Suc (svc_balance s)"
  "svc_work (svc_start op s) = svc_work s + svc_op_work op"
  by (simp_all add: svc_start_def svc_counts)

lemma svc_throw_counts [simp]:
  "svc_balance (svc_throw e s) = Suc (svc_balance s)" "svc_work (svc_throw e s) = svc_work s"
  by (simp_all add: svc_throw_def svc_counts)

lemma svc_on_finish_counts [simp]:
  "svc_balance (svc_on_finish s) = Suc (svc_balance s)" "svc_work (svc_on_finish s) = svc_work s"
  by (simp_all add: svc_on_finish_def svc_counts)

lemma svc_fields_counts [simp]:
  "svc_balance (s\<lparr>svc_sock := k\<rparr>) = svc_balance s" "svc_work (s\<lparr>svc_sock := k\<rparr>) = svc_work s"
  "svc_balance (s\<lparr>svc_request := b\<rparr>) = svc_balance s" "svc_work (s\<lparr>svc_request := b\<rparr>) = svc_work s"
  "svc_balance (s\<lparr>svc_request_headers := m\<rparr>) = svc_balance s"
  "svc_work (s\<lparr>svc_request_headers := m\<rparr>) = svc_work s"
  "svc_balance (s\<lparr>svc_requested_resource := r\<rparr>) = svc_balance s"
  "svc_work (s\<lparr>svc_requested_resource := r\<rparr>) = svc_work s"
  "svc_balance (s\<lparr>svc_resource_buffer := r\<rparr>) = svc_balance s"
  "svc_work (s\<lparr>svc_resource_buffer := r\<rparr>) = svc_work s"
  "svc_balance (s\<lparr>svc_response_status_code := c\<rparr>) = svc_balance s"
  "svc_work (s\<lparr>svc_response_status_code := c\<rparr>) = svc_work s"
  "svc_balance (s\<lparr>svc_resource_size_bytes := z\<rparr>) = svc_balance s"
  "svc_work (s\<lparr>svc_resource_size_bytes := z\<rparr>) = svc_work s"
  "svc_balance (s\<lparr>svc_response_headers := r\<rparr>) = svc_balance s"
  "svc_work (s\<lparr>svc_response_headers := r\<rparr>) = svc_work s"
  "svc_balance (s\<lparr>svc_response_status_line := r\<rparr>) = svc_balance s"
  "svc_work (s\<lparr>svc_response_status_line := r\<rparr>) = svc_work s"
  by (simp_all add: svc_counts)

lemma send_response_counts [simp]:
  "svc_balance (send_response s) = Suc (svc_balance s)"
  "svc_work (send_response s) \<le> Suc (svc_work s)"
  by (auto simp: send_response_def Let_def split: prod.split option.split)

lemma process_request_counts:
  "process_request fs s = (e, t) \<Longrightarrow> svc_balance t = svc_balance s \<and> svc_work t = svc_work s"
  by (auto simp: process_request_def Let_def split: file_state.splits if_splits)

lemma on_response_sent_counts [simp]:
  "svc_balance (on_response_sent ec n s) = Suc (svc_balance s)"
  "svc_work (on_response_sent ec n s) = svc_work s"
  by (auto simp: on_response_sent_def Let_def split: prod.split)

lemma on_headers_received_counts:
  assumes "svc_on_headers_received fs ec n s = Some t"
  shows "svc_balance t = Suc (svc_balance s) \<and> svc_work t \<le> Suc (svc_work s)"
proof -
  have send: "svc_balance (send_response u) = Suc (svc_balance s)"
    "svc_work (send_response u) \<le> Suc (svc_work s)"
    if "svc_balance u = svc_balance s" "svc_work u = svc_work s" for u
    using send_response_counts [of u] that by simp_all
  show ?thesis
    using assms
    by (auto simp: svc_on_headers_received_def Let_def send dest!: process_request_counts
        split: if_splits option.splits prod.splits)
qed

lemma on_request_line_received_counts:
  "svc_balance (on_request_line_received ec n s) = Suc (svc_balance s)"
  "svc_work (on_request_line_received ec n s) \<le> svc_work s + 2"
proof -
  have send: "svc_work (send_response u) \<le> Suc (Suc (svc_work s))" if "svc_work u = svc_work s" for u
    using send_response_counts(2) [of u] that by simp
  show "svc_balance (on_request_line_received ec n s) = Suc (svc_balance s)"
    and "svc_work (on_request_line_received ec n s) \<le> svc_work s + 2"
    by (auto simp: on_request_line_received_def Let_def send split: prod.splits)
qed


lemma svc_pop_counts:
  "svc_pending s = op # ops \<Longrightarrow>
   Suc (svc_balance (s\<lparr>svc_pending := ops, svc_request := b, svc_sock := k\<rparr>)) = svc_balance s"
  "svc_pending s = op # ops \<Longrightarrow>
   svc_work (s\<lparr>svc_pending := ops, svc_request := b, svc_sock := k\<rparr>) + svc_op_work op = svc_work s"
  "svc_pending s = op # ops \<Longrightarrow>
   Suc (svc_balance (s\<lparr>svc_pending := ops, svc_sock := k\<rparr>)) = svc_balance s"
  "svc_pending s = op # ops \<Longrightarrow>
   svc_work (s\<lparr>svc_pending := ops, svc_sock := k\<rparr>) + svc_op_work op = svc_work s"
  by (simp_all add: svc_counts)

lemma svc_complete_counts:
  assumes "svc_complete fs cap s = Some t"
  shows "svc_balance t = svc_balance s \<and> svc_work t < svc_work s"
proof -
  from assms obtain op ops where p: "svc_pending s = op # ops"
    by (auto simp: svc_complete_def split: list.splits)
  show ?thesis
  proof (cases op)
    case Read_request_line
    obtain ec n b k where "sock_read_until_str cap crlf (svc_request s) (svc_sock s) = (ec, n, b, k)"
      by (metis prod_cases4)
    then show ?thesis
      using assms p Read_request_line svc_pop_counts(1,2) [OF p, where b = b and k = k]
        on_request_line_received_counts [of ec n "s\<lparr>svc_pending := ops, svc_request := b, svc_sock := k\<rparr>"]
      by (auto simp: svc_complete_def)
  next
    case Read_headers
    obtain ec n b k where "sock_read_until_str cap crlf2 (svc_request s) (svc_sock s) = (ec, n, b, k)"
      by (metis prod_cases4)
    then show ?thesis
      using assms p Read_headers svc_pop_counts(1,2) [OF p, where b = b and k = k]
        on_headers_received_counts [of fs ec n "s\<lparr>svc_pending := ops, svc_request := b, svc_sock := k\<rparr>" t]
      by (auto simp: svc_complete_def)
  next
    case (Write_response bs)
    obtain ec n k where "write_all bs (svc_sock s) = (ec, n, k)" by (metis prod_cases3)
    then show ?thesis
      using assms p Write_response svc_pop_counts(3,4) [OF p, where k = k] by (auto simp: svc_complete_def)
  qed
qed

interpretation http_service: one_shot "svc_step fs cap" "\<lambda>s. length (svc_pending s)" svc_reports svc_work
  for fs cap
proof
  show "svc_step fs cap s t \<Longrightarrow> 0 < length (svc_pending s)" for s t
    by (auto simp: svc_step_iff svc_complete_def split: list.splits)
  show "svc_step fs cap s t \<Longrightarrow> length (svc_pending t) + svc_reports t = length (svc_pending s) + svc_reports s"
    for s t
    using svc_complete_counts by (auto simp: svc_step_iff svc_balance_def)
  show "svc_step fs cap s t \<Longrightarrow> svc_work t < svc_work s" for s t
    using svc_complete_counts by (auto simp: svc_step_iff)
qed

lemma svc_complete_returns: "svc_pending s \<noteq> [] \<Longrightarrow> \<exists>t. svc_complete fs cap s = Some t"
proof -
  assume p: "svc_pending s \<noteq> []"
  have loop: "\<exists>t. svc_on_headers_received fs ec n u = Some t" for ec n u
    using request_headers_loop_returns [of "istream_of (sb_data (svc_request u))" "[]" "[]" "svc_request_headers u"]
    by (auto simp: svc_on_headers_received_def Let_def split: prod.split option.split)
  show ?thesis
    using p loop by (auto simp: svc_complete_def split: list.split svc_op.split prod.split)
qed

definition svc_accepted :: "tcp_sock \<Rightarrow> service" where
  "svc_accepted k = start_handling (service_new k)"

lemma svc_accepted_counts [simp]:
  "svc_pending (svc_accepted k) = [Read_request_line]" "svc_reports (svc_accepted k) = 0"
  "svc_work (svc_accepted k) = 3" "svc_sock (svc_accepted k) = k"
  "svc_request (svc_accepted k) = \<lparr>sb_data = [], sb_max = 4096\<rparr>"
  by (simp_all add: svc_accepted_def start_handling_def svc_start_def service_new_def svc_counts)

text \<open>
  C24: every run of a service, whatever the peer sends, whatever errors the socket reports and
  however the server's files look, has at most one end (\<open>delete this\<close> or an escaped exception),
  and it has ended exactly when nothing is in flight: no handler ever runs on a deleted service.
\<close>

theorem http_service_ends_once:
  assumes "(svc_step fs cap)\<^sup>*\<^sup>* (svc_accepted k) s"
  shows "svc_deleted s + length (svc_escaped s) \<le> 1
    \<and> (svc_deleted s + length (svc_escaped s) = 1 \<longleftrightarrow> svc_pending s = [])"
proof -
  have "length (svc_pending (svc_accepted k)) + svc_reports (svc_accepted k) = 1" by simp
  from http_service.reports_at_most_once [OF assms this] show ?thesis
    by (simp add: svc_reports_def)
qed

theorem http_service_ends_once_witness:
  "\<exists>t. (svc_step (\<lambda>p. Missing) (\<lambda>n. n))\<^sup>*\<^sup>* (svc_accepted (sock_on [Arrive ''GET''])) t \<and> svc_pending t = []
    \<and> svc_deleted t + length (svc_escaped t) = 1"
proof -
  let ?s = "svc_accepted (sock_on [Arrive ''GET''])"
  have one: "length (svc_pending ?s) + svc_reports ?s = 1" by simp
  have "\<exists>u. svc_step fs cap t u" if "0 < length (svc_pending t)" for fs cap t
    using svc_complete_returns [of t fs cap] that by (auto simp: svc_step_iff)
  then obtain t where t: "(svc_step (\<lambda>p. Missing) (\<lambda>n. n))\<^sup>*\<^sup>* ?s t" "svc_pending t = []"
    using http_service.reports_in_the_end [OF one] by fastforce
  with http_service_ends_once [OF t(1)] show ?thesis by blast
qed

text \<open>
  a service needs at most three completions, and can always reach its one end.
\<close>

theorem http_service_terminates:
  "((svc_step fs cap ^^ n) (svc_accepted k) s \<longrightarrow> n \<le> 3)
   \<and> (\<exists>t. (svc_step fs cap)\<^sup>*\<^sup>* (svc_accepted k) t
       \<and> svc_deleted t + length (svc_escaped t) = 1 \<and> svc_pending t = [])"
proof
  show "(svc_step fs cap ^^ n) (svc_accepted k) s \<longrightarrow> n \<le> 3"
    using http_service.run_length [of n fs cap "svc_accepted k" s] by auto
  have one: "length (svc_pending (svc_accepted k)) + svc_reports (svc_accepted k) = 1" by simp
  have "\<exists>u. svc_step fs cap t u" if "0 < length (svc_pending t)" for t
    using svc_complete_returns [of t fs cap] that by (auto simp: svc_step_iff)
  then show "\<exists>t. (svc_step fs cap)\<^sup>*\<^sup>* (svc_accepted k) t
       \<and> svc_deleted t + length (svc_escaped t) = 1 \<and> svc_pending t = []"
    using http_service.reports_in_the_end [OF one, where fs = fs and cap = cap]
    by (simp add: svc_reports_def)
qed


theorem http_service_terminates_witness:
  "\<exists>s. (svc_step (\<lambda>p. Missing) (\<lambda>n. n) ^^ 1) (svc_accepted (sock_on [])) s \<and> (1::nat) \<le> 3
    \<and> (\<exists>t. (svc_step (\<lambda>p. Missing) (\<lambda>n. n))\<^sup>*\<^sup>* (svc_accepted (sock_on [])) t
       \<and> svc_deleted t + length (svc_escaped t) = 1 \<and> svc_pending t = [])"
proof -
  let ?s = "svc_accepted (sock_on [])"
  obtain s where "svc_complete (\<lambda>p. Missing) (\<lambda>n. n) ?s = Some s"
    using svc_complete_returns [of ?s] by auto
  then have "(svc_step (\<lambda>p. Missing) (\<lambda>n. n) ^^ 1) ?s s" by (auto simp: svc_step_iff relcompp_apply)
  with http_service_terminates [of 1 "\<lambda>p. Missing" "\<lambda>n. n" "sock_on []" s] show ?thesis by blast
qed

subsection \<open>What the server answers\<close>

text \<open>
  The specification: the outcome of a connection as a function of the bytes the peer sends, with no
  mention of handlers, buffers or of how the bytes are cut into arrivals.
\<close>

datatype reply = Closed | Crashed | Reply bytes

definition error_reply :: "bytes \<Rightarrow> reply" where
  "error_reply status_line = Reply (''HTTP/1.1 '' @ status_line @ crlf @ crlf)"

definition ok_reply :: "bytes \<Rightarrow> reply" where
  "ok_reply body = Reply (''HTTP/1.1 200 OK'' @ crlf
     @ ''content-length: '' @ to_string (length body) @ crlf @ crlf @ body)"

definition resource_reply :: "(bytes \<Rightarrow> file_state) \<Rightarrow> bytes \<Rightarrow> reply" where
  "resource_reply fs resource =
     (case fs (''.'' @ resource) of
        Missing \<Rightarrow> error_reply ''404 Not Found''
      | Unreadable \<Rightarrow> error_reply ''500 Server Error''
      | Opened end_pos body \<Rightarrow>
          if int (length body) = end_pos \<and> length body < 2 ^ 63 then ok_reply body else Crashed)"

definition headers_reply :: "(bytes \<Rightarrow> file_state) \<Rightarrow> bytes \<Rightarrow> bytes \<Rightarrow> reply" where
  "headers_reply fs resource d =
     (case read_until_outcome crlf2 4096 d of (ec, n) \<Rightarrow>
        if ec = not_found then error_reply ''413 Request Entity Too Large''
        else if ec_set ec then Closed
        else resource_reply fs resource)"

definition http_reply :: "(bytes \<Rightarrow> file_state) \<Rightarrow> bytes \<Rightarrow> reply" where
  "http_reply fs d =
     (case read_until_outcome crlf 4096 d of (ec, n) \<Rightarrow>
        if ec = not_found then error_reply ''413 Request Entity Too Large''
        else if ec_set ec then Closed
        else
          let (request_method, ls1) = extract_word (istream_of (before CR d)) [];
              (resource, ls2) = extract_word ls1 [];
              (http_version, ls3) = extract_word ls2 []
          in if request_method \<noteq> ''GET'' then error_reply ''501 Not Implemented''
             else if http_version \<noteq> ''HTTP/1.1'' then error_reply ''505 HTTP Version Not Supported''
             else headers_reply fs resource (tl (after CR d)))"

text \<open>What \<open>tellg\<close> reports on a regular file: its length; otherwise the request crashes.\<close>

definition sane_files :: "(bytes \<Rightarrow> file_state) \<Rightarrow> bool" where
  "sane_files fs \<longleftrightarrow> (\<forall>p e c. fs p = Opened e c \<longrightarrow>
     (0 \<le> e \<and> e < 2 ^ 63 \<and> length c = nat e) \<or> (e = -1 \<and> c = []))"

definition svc_outcome :: "service \<Rightarrow> reply" where
  "svc_outcome s =
     (if svc_escaped s \<noteq> [] then Crashed
      else if ts_out (svc_sock s) = [] then Closed else Reply (ts_out (svc_sock s)))"

text \<open>A service on a quiet socket, with nothing sent and no end yet.\<close>

definition svc_fresh :: "service \<Rightarrow> bool" where
  "svc_fresh s \<longleftrightarrow> svc_escaped s = [] \<and> svc_deleted s = 0 \<and> svc_pending s = []
     \<and> ts_out (svc_sock s) = [] \<and> ts_shuts (svc_sock s) = [] \<and> ts_writes (svc_sock s) = []"

definition svc_delivers :: "(bytes \<Rightarrow> file_state) \<Rightarrow> (nat \<Rightarrow> nat) \<Rightarrow> nat \<Rightarrow> service \<Rightarrow> reply \<Rightarrow> bool" where
  "svc_delivers fs cap k s r \<longleftrightarrow>
     (\<exists>t. svc_run fs cap k s = Some t \<and> svc_pending t = [] \<and> svc_outcome t = r
        \<and> svc_deleted t + length (svc_escaped t) = 1)"

lemma svc_fresh_simps [simp]:
  "svc_fresh (s\<lparr>svc_response_status_code := c\<rparr>) = svc_fresh s"
  "svc_fresh (s\<lparr>svc_request := b\<rparr>) = svc_fresh s"
  "svc_fresh (s\<lparr>svc_request_headers := m\<rparr>) = svc_fresh s"
  "svc_fresh (s\<lparr>svc_requested_resource := r\<rparr>) = svc_fresh s"
  "svc_fresh (s\<lparr>svc_resource_size_bytes := z\<rparr>) = svc_fresh s"
  "svc_fresh (s\<lparr>svc_resource_buffer := r\<rparr>) = svc_fresh s"
  "svc_fresh (s\<lparr>svc_response_headers := r\<rparr>) = svc_fresh s"
  by (simp_all add: svc_fresh_def)

lemma deliver_response:
  assumes "svc_fresh s" and "http_status_table (svc_response_status_code s) = Some line"
  shows "svc_delivers fs cap (Suc k) (send_response s)
    (Reply (''HTTP/1.1 '' @ line @ crlf @ svc_response_headers s @ crlf
      @ (if 0 < svc_resource_size_bytes s
         then take (unat (svc_resource_size_bytes s)) (svc_resource_buffer s) else [])))"
  using assms
  by (cases k) (auto simp: svc_delivers_def send_response_def svc_start_def svc_complete_def
      svc_fresh_def on_response_sent_def svc_on_finish_def svc_outcome_def Let_def)

lemma deliver_error:
  assumes "svc_fresh s" and "svc_response_headers s = []" and "svc_resource_size_bytes s = 0"
    and "http_status_table c = Some line"
  shows "svc_delivers fs cap (Suc k) (send_response (s\<lparr>svc_response_status_code := c\<rparr>)) (error_reply line)"
  using deliver_response [of "s\<lparr>svc_response_status_code := c\<rparr>" line fs cap k] assms
  by (simp add: error_reply_def)

lemma deliver_close: "svc_fresh s \<Longrightarrow> svc_delivers fs cap k (svc_on_finish s) Closed"
  by (cases k) (auto simp: svc_delivers_def svc_on_finish_def svc_fresh_def svc_outcome_def)

lemma deliver_throw: "svc_fresh s \<Longrightarrow> svc_delivers fs cap k (svc_throw e s) Crashed"
  by (cases k) (auto simp: svc_delivers_def svc_throw_def svc_fresh_def svc_outcome_def)

lemma http_status_lines [simp]:
  "http_status_table 200 = Some ''200 OK''"
  "http_status_table 404 = Some ''404 Not Found''"
  "http_status_table 413 = Some ''413 Request Entity Too Large''"
  "http_status_table 500 = Some ''500 Server Error''"
  "http_status_table 501 = Some ''501 Not Implemented''"
  "http_status_table 505 = Some ''505 HTTP Version Not Supported''"
  by (simp_all add: http_status_table_def)


definition svc_blank :: "service \<Rightarrow> bool" where
  "svc_blank s \<longleftrightarrow> svc_fresh s \<and> svc_response_headers s = [] \<and> svc_resource_size_bytes s = 0
     \<and> svc_response_status_code s = 200"

lemma svc_blank_simps [simp]:
  "svc_blank (s\<lparr>svc_request := b\<rparr>) = svc_blank s"
  "svc_blank (s\<lparr>svc_request_headers := m\<rparr>) = svc_blank s"
  "svc_blank (s\<lparr>svc_requested_resource := r\<rparr>) = svc_blank s"
  by (simp_all add: svc_blank_def)

lemma deliver_blank_error:
  "svc_blank s \<Longrightarrow> http_status_table c = Some line \<Longrightarrow>
   svc_delivers fs cap (Suc k) (send_response (s\<lparr>svc_response_status_code := c\<rparr>)) (error_reply line)"
  by (rule deliver_error) (simp_all add: svc_blank_def)

lemma unat_file_size: "0 \<le> e \<Longrightarrow> e < 2 ^ 63 \<Longrightarrow> unat (word_of_int e :: u64) = nat e"
  by (simp add: unat_eq_nat_uint uint_word_of_int take_bit_int_eq_self)

lemma deliver_file:
  assumes blank: "svc_blank s" and len: "length c < 2 ^ 63"
  shows "svc_delivers fs cap (Suc k)
      (send_response (s\<lparr>svc_resource_size_bytes := word_of_int (int (length c)), svc_resource_buffer := c,
         svc_response_headers := svc_response_headers s @ ''content-length'' @ '': ''
           @ to_string (length c) @ crlf\<rparr>))
      (ok_reply c)"
proof -
  let ?s = "s\<lparr>svc_resource_size_bytes := word_of_int (int (length c)), svc_resource_buffer := c,
         svc_response_headers := svc_response_headers s @ ''content-length'' @ '': ''
           @ to_string (length c) @ crlf\<rparr>"
  have n: "unat (word_of_int (int (length c)) :: u64) = length c"
    using unat_file_size [of "int (length c)"] len by simp
  have body: "(if 0 < svc_resource_size_bytes ?s
         then take (unat (svc_resource_size_bytes ?s)) (svc_resource_buffer ?s) else []) = c"
    using n by (cases "c = []") (auto simp: word_greater_zero_iff)
  have "svc_fresh ?s" and "http_status_table (svc_response_status_code ?s) = Some ''200 OK''"
    using blank by (simp_all add: svc_blank_def)
  from deliver_response [OF this, of fs cap k] blank show ?thesis
    unfolding body by (simp add: ok_reply_def svc_blank_def)
qed

lemma deliver_resource:
  assumes sane: "sane_files fs" and blank: "svc_blank s"
  shows "case process_request fs s of
      (Some e, t) \<Rightarrow> svc_delivers fs cap (Suc k) (svc_throw e t) (resource_reply fs (svc_requested_resource s))
    | (None, t) \<Rightarrow> svc_delivers fs cap (Suc k) (send_response t) (resource_reply fs (svc_requested_resource s))"
proof (cases "fs (''.'' @ svc_requested_resource s)")
  case Missing
  then show ?thesis using deliver_blank_error [OF blank, of 404]
    by (simp add: process_request_def resource_reply_def Let_def)
next
  case Unreadable
  then show ?thesis using deliver_blank_error [OF blank, of 500]
    by (simp add: process_request_def resource_reply_def Let_def)
next
  case (Opened e c)
  with sane have "(0 \<le> e \<and> e < 2 ^ 63 \<and> length c = nat e) \<or> (e = -1 \<and> c = [])"
    by (auto simp: sane_files_def)
  then show ?thesis
  proof
    assume e: "0 \<le> e \<and> e < 2 ^ 63 \<and> length c = nat e"
    then have e': "e = int (length c)" and lt: "length c < 2 ^ 63" by auto
    have n: "unat (word_of_int (int (length c)) :: u64) = length c"
      using unat_file_size [of "int (length c)"] lt by simp
    show ?thesis
      using deliver_file [OF blank lt, of fs cap k] Opened e' lt n
      by (simp add: process_request_def resource_reply_def Let_def)
  next
    assume e: "e = -1 \<and> c = []"
    have big: "9223372036854775808 \<le> unat (- 1 :: u64)"
      by (simp add: unsigned_minus_1_eq_mask mask_eq_exp_minus_1)
    from e Opened blank show ?thesis
      by (simp add: process_request_def resource_reply_def Let_def big deliver_throw svc_blank_def)
  qed
qed


lemma svc_delivers_completion:
  "svc_pending s \<noteq> [] \<Longrightarrow> svc_complete fs cap s = Some t \<Longrightarrow> svc_delivers fs cap k t r
   \<Longrightarrow> svc_delivers fs cap (Suc k) s r"
  by (simp add: svc_delivers_def)

lemma read_until_outcome_cases:
  "(ec, n) = read_until_outcome delim m d \<Longrightarrow>
   ec = no_error \<or> ec = not_found \<or> ec = eof"
  by (auto simp: read_until_outcome_def split: prod.splits option.splits)

lemma deliver_headers:
  assumes sane: "sane_files fs" and blank: "svc_blank s"
    and buf: "sb_max (svc_request s) = 4096" "length (sb_data (svc_request s)) \<le> 4096"
    and net: "no_fail (ts_in (svc_sock s))"
  shows "svc_delivers fs cap (Suc (Suc k)) (svc_start Read_headers s)
    (headers_reply fs (svc_requested_resource s) (sb_data (svc_request s) @ net_data (ts_in (svc_sock s))))"
proof -
  let ?d = "sb_data (svc_request s) @ net_data (ts_in (svc_sock s))"
  obtain ec n b' k' where run:
    "sock_read_until_str cap crlf2 (svc_request s) (svc_sock s) = (ec, n, b', k')"
    by (metis prod_cases4)
  have len: "length (sb_data (svc_request s)) \<le> sb_max (svc_request s)" using buf by simp
  note out = sock_read_until_outcome [OF run _ len net]
  note snd = sock_read_until_sound [OF run _ len no_fail_proper [OF net]]
  define u where "u = s\<lparr>svc_pending := [], svc_request := b', svc_sock := k'\<rparr>"
  have b: "svc_blank u" and res: "svc_requested_resource u = svc_requested_resource s"
    using blank snd(2-4) by (simp_all add: svc_blank_def svc_fresh_def u_def)
  have pend: "svc_pending s = []" using blank by (simp add: svc_blank_def svc_fresh_def)
  have ec: "(ec, n) = read_until_outcome crlf2 4096 ?d" using out(1) buf by simp
  obtain t where t: "svc_on_headers_received fs ec n u = Some t"
    and d: "svc_delivers fs cap (Suc k) t (headers_reply fs (svc_requested_resource s) ?d)"
  proof (cases "ec_set ec")
    case True
    with read_until_outcome_cases [OF ec] show ?thesis
      using deliver_blank_error [OF b, of 413 _ fs cap k] b that deliver_close [of u fs cap "Suc k"]
      by (auto simp: headers_reply_def ec [symmetric] svc_on_headers_received_def svc_blank_def)
  next
    case False
    obtain m "is" where loop: "request_headers_loop (istream_of (sb_data (svc_request u))) [] []
        (svc_request_headers u) = Some (m, is)"
      using request_headers_loop_returns by (metis stream_live_of)
    let ?v = "u\<lparr>svc_request := (svc_request u)\<lparr>sb_data := chars is\<rparr>, svc_request_headers := m\<rparr>"
    have "svc_blank ?v" using b by simp
    note del = deliver_resource [OF sane this, of cap k]
    obtain e v where pr: "process_request fs ?v = (e, v)" by force
    have ne: "ec \<noteq> not_found" using False by auto
    show ?thesis
      by (cases e)
        (use del pr loop ne False res in \<open>auto intro!: that
          simp: headers_reply_def ec [symmetric] svc_on_headers_received_def Let_def\<close>)
  qed
  have "svc_complete fs cap (svc_start Read_headers s) = Some t"
    using t run pend by (simp add: svc_complete_def svc_start_def u_def)
  from svc_delivers_completion [OF _ this d] show ?thesis by (simp add: svc_start_def)
qed


lemma first_at_crlf_split:
  assumes "first_at crlf d i"
  shows "CR \<in> set d" and "after CR d \<noteq> []"
proof -
  from assms have p: "prefix crlf (drop i d)" by (simp add: first_at_def occurs_at_def)
  then obtain z where z: "d = take i d @ CR # NL # z"
    by (metis append_take_drop_id append_Cons append_Nil prefixE)
  show "CR \<in> set d" by (subst z) simp
  show "after CR d \<noteq> []"
    by (subst z) (cases "CR \<in> set (take i d)", auto simp: after_append_first after_append_second)
qed

lemma getline_crlf:
  assumes "first_at crlf d i"
  shows "\<exists>rs. getline_delim CR (istream_of d) [] = (before CR d, rs)
    \<and> stream_get rs = istream_of (tl (after CR d))"
proof -
  from first_at_crlf_split [OF assms] obtain c cs where "after CR d = c # cs"
    by (cases "after CR d") auto
  with first_at_crlf_split [OF assms] show ?thesis
    by (simp add: getline_delim_def stream_get_Cons)
qed

lemma deliver_request:
  assumes sane: "sane_files fs" and blank: "svc_blank s" and res: "svc_requested_resource s = []"
    and buf: "svc_request s = \<lparr>sb_data = [], sb_max = 4096\<rparr>" and net: "no_fail (ts_in (svc_sock s))"
  shows "svc_delivers fs cap (Suc (Suc (Suc k))) (start_handling s)
    (http_reply fs (net_data (ts_in (svc_sock s))))"
proof -
  let ?d = "net_data (ts_in (svc_sock s))"
  obtain ec n b' k' where run:
    "sock_read_until_str cap crlf (svc_request s) (svc_sock s) = (ec, n, b', k')"
    by (metis prod_cases4)
  have len: "length (sb_data (svc_request s)) \<le> sb_max (svc_request s)" using buf by simp
  note out = sock_read_until_outcome [OF run _ len net]
  note snd = sock_read_until_sound [OF run _ len no_fail_proper [OF net]]
  define u where "u = s\<lparr>svc_pending := [], svc_request := b', svc_sock := k'\<rparr>"
  have b: "svc_blank u" and r: "svc_requested_resource u = []" and req: "svc_request u = b'"
    and sock: "svc_sock u = k'"
    using blank snd(2-4) res by (simp_all add: svc_blank_def svc_fresh_def u_def)
  have pend: "svc_pending s = []" using blank by (simp add: svc_blank_def svc_fresh_def)
  have ec: "(ec, n) = read_until_outcome crlf 4096 ?d" using out(1) buf by simp
  have "svc_delivers fs cap (Suc (Suc k)) (on_request_line_received ec n u) (http_reply fs ?d)"
  proof (cases "ec_set ec")
    case True
    with read_until_outcome_cases [OF ec] show ?thesis
      using deliver_blank_error [OF b, of 413 _ fs cap "Suc k"] b deliver_close [of u fs cap "Suc (Suc k)"]
      by (auto simp: http_reply_def ec [symmetric] on_request_line_received_def svc_blank_def)
  next
    case False
    then obtain i where i: "first_at crlf (sb_data b') i" using snd(7) by auto
    have d: "?d = sb_data b' @ net_data (ts_in k')" using snd(1) buf by simp
    have line: "before CR ?d = before CR (sb_data b')"
      and rest: "tl (after CR ?d) = tl (after CR (sb_data b')) @ net_data (ts_in k')"
      using first_at_crlf_split [OF i] unfolding d
      by (simp_all add: before_append_first after_append_first)
    obtain rs where rs: "getline_delim CR (istream_of (sb_data b')) [] = (before CR ?d, rs)"
      "stream_get rs = istream_of (tl (after CR (sb_data b')))"
      using getline_crlf [OF i] line by auto
    obtain verb ls1 where w1: "extract_word (istream_of (before CR ?d)) [] = (verb, ls1)" by force
    obtain resource ls2 where w2: "extract_word ls1 [] = (resource, ls2)" by force
    obtain version ls3 where w3: "extract_word ls2 [] = (version, ls3)" by force
    have ne: "ec \<noteq> not_found" using False by auto
    let ?b = "b'\<lparr>sb_data := tl (after CR (sb_data b'))\<rparr>"
    let ?v = "u\<lparr>svc_request := ?b\<rparr>"
    have "length (tl (after CR (sb_data b'))) \<le> length (sb_data b')"
      by (metis diff_le_self le_trans length_after_le length_tl)
    then have "length (sb_data ?b) \<le> 4096" "sb_max ?b = 4096" using snd(5,6) buf by auto
    then have hdr: "svc_delivers fs cap (Suc (Suc k))
        (svc_start Read_headers (?v\<lparr>svc_requested_resource := resource\<rparr>))
        (headers_reply fs resource (tl (after CR ?d)))"
      using deliver_headers [OF sane, of "?v\<lparr>svc_requested_resource := resource\<rparr>" cap k]
        b out(2) sock unfolding rest by simp
    show ?thesis
      using hdr deliver_blank_error [of ?v 501 _ fs cap "Suc k"] b
        deliver_blank_error [of "?v\<lparr>svc_requested_resource := resource\<rparr>" 505 _ fs cap "Suc k"]
        rs w1 w2 w3 False ne
      by (simp add: http_reply_def ec [symmetric] on_request_line_received_def req r)
  qed
  note d = this
  have "svc_complete fs cap (start_handling s) = Some (on_request_line_received ec n u)"
    using run pend
    by (simp add: svc_complete_def start_handling_def svc_start_def u_def)
  from svc_delivers_completion [OF _ this d] show ?thesis
    by (simp add: svc_start_def start_handling_def)
qed


lemma server_refines_reply:
  assumes "sane_files fs" and "no_fail net"
  shows "\<exists>t. svc_run fs cap 3 (svc_accepted (sock_on net)) = Some t
    \<and> svc_pending t = [] \<and> svc_deleted t + length (svc_escaped t) = 1
    \<and> svc_outcome t = http_reply fs (net_data net)"
proof -
  have "svc_delivers fs cap (Suc (Suc (Suc 0))) (start_handling (service_new (sock_on net)))
    (http_reply fs (net_data (ts_in (svc_sock (service_new (sock_on net))))))"
    by (rule deliver_request)
      (use assms in \<open>simp_all add: service_new_def svc_blank_def svc_fresh_def\<close>)
  then show ?thesis
    by (auto simp: svc_delivers_def svc_accepted_def service_new_def numeral_3_eq_3)
qed

text \<open>
  C1: the server refines its specification. On a socket that fails in no call, with any cutting of
  the peer's bytes into arrivals, any allocator and any file system that reports plausible sizes,
  three completions end the service, exactly once, and what it wrote is \<open>http_reply\<close> of the bytes
  the peer sent; in particular it does not depend on the cutting.
\<close>

theorem http_server_refines_reply:
  assumes "sane_files fs" and "no_fail net"
  shows "\<exists>t. svc_run fs cap 3 (svc_accepted (sock_on net)) = Some t
    \<and> svc_pending t = [] \<and> svc_deleted t + length (svc_escaped t) = 1
    \<and> svc_outcome t = http_reply fs (net_data net)"
  by (rule server_refines_reply [OF assms])

lemma sane_files_const: "sane_files (\<lambda>p. if p = ''./a'' then Opened 2 ''hi'' else Missing)"
  by (simp add: sane_files_def)

theorem http_server_refines_reply_witness:
  "\<exists>t. svc_run (\<lambda>p. if p = ''./a'' then Opened 2 ''hi'' else Missing) (\<lambda>n. n) 3
      (svc_accepted (sock_on [Arrive ''GE'', Arrive ''T / HTTP/1.0'', Arrive crlf])) = Some t
    \<and> svc_pending t = [] \<and> svc_deleted t + length (svc_escaped t) = 1
    \<and> svc_outcome t = http_reply (\<lambda>p. if p = ''./a'' then Opened 2 ''hi'' else Missing)
        (net_data [Arrive ''GE'', Arrive ''T / HTTP/1.0'', Arrive crlf])"
  by (rule http_server_refines_reply [OF sane_files_const]) simp


subsection \<open>Replies to well-formed requests\<close>

definition request_line :: "bytes \<Rightarrow> bytes" where
  "request_line uri = ''GET '' @ uri @ '' HTTP/1.1'' @ crlf"

definition request_message :: "bytes \<Rightarrow> (bytes \<times> bytes) list \<Rightarrow> bytes" where
  "request_message uri hs = request_line uri @ concat (map header_line hs) @ crlf"

definition uri_wf :: "bytes \<Rightarrow> bool" where
  "uri_wf uri \<longleftrightarrow> uri \<noteq> [] \<and> (\<forall>c \<in> set uri. \<not> isspace c)"

lemma uri_no_cr: "uri_wf uri \<Longrightarrow> CR \<notin> set uri"
  by (auto simp: uri_wf_def)

lemma request_line_cut:
  assumes "uri_wf uri"
  shows "before CR (request_line uri @ r) = ''GET '' @ uri @ '' HTTP/1.1''"
    and "after CR (request_line uri @ r) = NL # r"
proof -
  have no: "CR \<notin> set (''GET '' @ uri @ '' HTTP/1.1'')" using uri_no_cr [OF assms] by auto
  have eq: "request_line uri @ r = (''GET '' @ uri @ '' HTTP/1.1'') @ CR # NL # r"
    by (simp add: request_line_def)
  show "before CR (request_line uri @ r) = ''GET '' @ uri @ '' HTTP/1.1''"
    unfolding eq by (rule before_append_hit [OF no])
  show "after CR (request_line uri @ r) = NL # r"
    unfolding eq by (rule after_append_hit [OF no])
qed

lemma request_line_words:
  assumes "uri_wf uri"
  shows "\<exists>ls1 ls2 ls3. extract_word (istream_of (''GET '' @ uri @ '' HTTP/1.1'')) [] = (''GET'', ls1)
    \<and> extract_word ls1 [] = (uri, ls2) \<and> extract_word ls2 [] = (''HTTP/1.1'', ls3)"
proof -
  have sp: "\<forall>c \<in> set ''GET''. \<not> isspace c" "\<forall>c \<in> set ''HTTP/1.1''. \<not> isspace c"
    by (auto simp: isspace_def)
  from assms have u: "uri \<noteq> []" "\<forall>c \<in> set uri. \<not> isspace c" by (auto simp: uri_wf_def)
  have "extract_word (istream_of (''GET'' @ CHR '' '' # uri @ '' HTTP/1.1'')) []
      = (''GET'', istream_of (CHR '' '' # uri @ '' HTTP/1.1''))"
    by (rule extract_word_hit) (use sp in auto)
  moreover have "extract_word (istream_of (CHR '' '' # uri @ CHR '' '' # ''HTTP/1.1'')) []
      = (uri, istream_of (CHR '' '' # ''HTTP/1.1''))"
    using extract_word_hit [OF u, of "CHR '' ''"] by (simp add: extract_word_space)
  moreover have "fst (extract_word (istream_of (CHR '' '' # ''HTTP/1.1'')) []) = ''HTTP/1.1''"
    using extract_word_last [of "''HTTP/1.1''" "[]"] sp(2) by (simp add: extract_word_space)
  ultimately show ?thesis by (auto simp: prod_eq_iff)
qed

lemma headers_end: "hs \<noteq> [] \<Longrightarrow> \<exists>pre. concat (map header_line hs) @ crlf @ r = pre @ crlf2 @ r
    \<and> length (concat (map header_line hs)) = length pre + 2"
proof (induction hs rule: rev_induct)
  case (snoc h hs)
  show ?case
    by (rule exI [where x = "concat (map header_line hs) @ fst h @ CHR '':'' # snd h"])
      (simp add: header_line_def [of h])
qed simp

lemma http_reply_line:
  assumes "uri_wf uri" and "length (request_line uri) \<le> 4096"
  shows "http_reply fs (request_line uri @ r) = headers_reply fs uri r"
proof -
  have "fst (read_until_outcome crlf 4096 (request_line uri @ r)) = no_error"
    by (rule outcome_infix [where pre = "''GET '' @ uri @ '' HTTP/1.1''" and post = r])
      (use assms(2) in \<open>auto simp: request_line_def\<close>)
  then obtain n where n: "read_until_outcome crlf 4096 (request_line uri @ r) = (no_error, n)"
    by (metis prod.collapse)
  obtain ls1 ls2 ls3 where "extract_word (istream_of (''GET '' @ uri @ '' HTTP/1.1'')) [] = (''GET'', ls1)"
    "extract_word ls1 [] = (uri, ls2)" "extract_word ls2 [] = (''HTTP/1.1'', ls3)"
    using request_line_words [OF assms(1)] by blast
  then show ?thesis by (simp add: http_reply_def n request_line_cut [OF assms(1)])
qed

text \<open>
  a GET request with at least one header is answered by what stands at the path "." followed by
  the request target, as it is: the file (200 with its length), 404, or 500. Nothing restricts the
  target, so a target with ".." components reaches files above the served directory.
\<close>

theorem http_get_reply:
  assumes "uri_wf uri" and "hs \<noteq> []" and "length (request_message uri hs) \<le> 4096"
  shows "http_reply fs (request_message uri hs @ r) = resource_reply fs uri"
proof -
  let ?h = "concat (map header_line hs) @ crlf @ r"
  from headers_end [OF assms(2), of r] obtain pre where pre: "?h = pre @ crlf2 @ r"
    "length (concat (map header_line hs)) = length pre + 2" by blast
  have "fst (read_until_outcome crlf2 4096 ?h) = no_error"
    by (rule outcome_infix [OF _ pre(1)]) (use assms(3) pre(2) in \<open>auto simp: request_message_def\<close>)
  then obtain n where "read_until_outcome crlf2 4096 ?h = (no_error, n)" by (metis prod.collapse)
  then have "headers_reply fs uri ?h = resource_reply fs uri" by (simp add: headers_reply_def)
  moreover have "length (request_line uri) \<le> 4096" using assms(3) by (simp add: request_message_def)
  ultimately show ?thesis
    using http_reply_line [OF assms(1), of fs ?h] by (simp add: request_message_def)
qed

theorem http_get_reply_witness:
  "http_reply (\<lambda>p. if p = ''./../etc/passwd'' then Opened 4 ''root'' else Missing)
     (request_message ''/../etc/passwd'' [(''Host'', '' a'')] @ [])
   = ok_reply ''root''"
  using http_get_reply [of "''/../etc/passwd''" "[(''Host'', '' a'')]"
      "\<lambda>p. if p = ''./../etc/passwd'' then Opened 4 ''root'' else Missing" "[]"]
  by (simp add: uri_wf_def isspace_def request_message_def request_line_def header_line_def
      resource_reply_def)

text \<open>
  a GET request with no header at all, complete as it stands ("GET uri HTTP/1.1", an empty line),
  is not answered: the blank line's CRLF alone does not match the two CRLFs the header read waits
  for, since the request line's own CRLF has been consumed.
\<close>

theorem http_bare_request_unanswered:
  assumes "uri_wf uri" and "length (request_line uri) \<le> 4096"
  shows "http_reply fs (request_message uri []) = Closed"
proof -
  have "\<not> occurs_at crlf2 (take 4096 crlf) i" for i
    by (auto dest: occurs_at_length)
  then have "read_until_outcome crlf2 4096 crlf = (eof, 0)"
    using outcome_missing [of crlf2 4096 crlf] by simp
  then have "headers_reply fs uri crlf = Closed" by (simp add: headers_reply_def)
  then show ?thesis
    using http_reply_line [OF assms, of fs crlf] by (simp add: request_message_def)
qed

theorem http_bare_request_unanswered_witness:
  "http_reply (\<lambda>p. Opened 0 []) (request_message ''/'' []) = Closed"
  by (rule http_bare_request_unanswered) (auto simp: uri_wf_def isspace_def request_line_def)

text \<open>
  a request whose first 4096 bytes hold no CRLF is refused with status 413.\<close>

theorem http_long_line_413:
  assumes "4096 \<le> length d" and "\<forall>i. \<not> occurs_at crlf (take 4096 d) i"
  shows "http_reply fs d = error_reply ''413 Request Entity Too Large''"
  using outcome_missing [OF _ assms(2)] assms(1) by (simp add: http_reply_def)

theorem http_long_line_413_witness:
  "http_reply (\<lambda>p. Missing) (replicate 5000 CHR ''a'') = error_reply ''413 Request Entity Too Large''"
proof (rule http_long_line_413)
  show "\<forall>i. \<not> occurs_at crlf (take 4096 (replicate 5000 CHR ''a'')) i"
    by (auto dest: occurs_at_elem)
qed simp


subsection \<open>Acceptor and server\<close>

text \<open>
  The acceptor: whether it is open and listening, its stop flag, the accepts in flight and the
  services it has spawned. The completion of an accept brings an error code and, if that is clear, a
  connected socket.
\<close>

record http_acceptor =
  ha_open :: bool
  ha_listening :: bool
  ha_isStopped :: bool
  ha_accepts :: nat
  ha_services :: "service list"

definition acceptor_new :: http_acceptor where
  "acceptor_new = \<lparr>ha_open = True, ha_listening = False, ha_isStopped = False, ha_accepts = 0,
     ha_services = []\<rparr>"

definition InitAccept :: "http_acceptor \<Rightarrow> http_acceptor" where
  "InitAccept a = a\<lparr>ha_accepts := Suc (ha_accepts a)\<rparr>"

definition acceptor_Start :: "http_acceptor \<Rightarrow> http_acceptor" where
  "acceptor_Start a = InitAccept (a\<lparr>ha_listening := True\<rparr>)"

definition acceptor_Stop :: "http_acceptor \<Rightarrow> http_acceptor" where
  "acceptor_Stop a = a\<lparr>ha_isStopped := True\<rparr>"

definition onAccept :: "error_code \<Rightarrow> tcp_sock \<Rightarrow> http_acceptor \<Rightarrow> http_acceptor" where
  "onAccept ec sock a =
     (let a1 = (if \<not> ec_set ec
                then a\<lparr>ha_services := ha_services a @ [start_handling (service_new sock)]\<rparr>
                else a)
      in if \<not> ha_isStopped a1 then InitAccept a1 else a1\<lparr>ha_open := False\<rparr>)"

inductive acceptor_step :: "http_acceptor \<Rightarrow> http_acceptor \<Rightarrow> bool" where
  Acceptor_completion:
    "0 < ha_accepts a \<Longrightarrow> acceptor_step a (onAccept ec sock (a\<lparr>ha_accepts := ha_accepts a - 1\<rparr>))"
| Acceptor_stop: "acceptor_step a (acceptor_Stop a)"

inductive_cases acceptor_stepE: "acceptor_step a b"

text \<open>
  An acceptor that has been started has one accept in flight until it closes, closes only after
  \<open>Stop\<close>, and every service it has spawned starts with reading the request line.
\<close>

definition acceptor_inv :: "http_acceptor \<Rightarrow> bool" where
  "acceptor_inv a \<longleftrightarrow> ha_listening a \<and> ha_accepts a = (if ha_open a then 1 else 0)
     \<and> (\<not> ha_open a \<longrightarrow> ha_isStopped a)
     \<and> (\<forall>s \<in> set (ha_services a). svc_pending s = [Read_request_line] \<and> svc_reports s = 0)"

lemma service_started [simp]:
  "svc_pending (start_handling (service_new k)) = [Read_request_line]"
  "svc_reports (start_handling (service_new k)) = 0"
  using svc_accepted_counts [of k] by (simp_all add: svc_accepted_def)

interpretation http_acceptor_loop: accept_loop acceptor_step ha_accepts "\<lambda>a. \<not> ha_open a" ha_isStopped
proof
  show "acceptor_step a b \<Longrightarrow> ha_accepts a = (if \<not> ha_open a then 0 else 1) \<Longrightarrow>
      ha_accepts b = (if \<not> ha_open b then 0 else 1)" for a b
    by (erule acceptor_stepE) (auto simp: onAccept_def InitAccept_def acceptor_Stop_def Let_def split: if_splits)
  show "acceptor_step a b \<Longrightarrow> (\<not> ha_open a \<longrightarrow> ha_isStopped a) \<Longrightarrow> (\<not> ha_open b \<longrightarrow> ha_isStopped b)" for a b
    by (erule acceptor_stepE) (auto simp: onAccept_def InitAccept_def acceptor_Stop_def Let_def)
qed

lemma acceptor_services_started:
  "acceptor_step\<^sup>*\<^sup>* (acceptor_Start acceptor_new) a \<Longrightarrow> ha_listening a
    \<and> (\<forall>s \<in> set (ha_services a). svc_pending s = [Read_request_line] \<and> svc_reports s = 0)"
proof (induction rule: rtranclp_induct)
  case base
  show ?case by (simp add: acceptor_Start_def acceptor_new_def InitAccept_def)
next
  case (step a b)
  then show ?case
    by (auto elim!: acceptor_stepE simp: onAccept_def InitAccept_def acceptor_Stop_def Let_def
        split: if_splits)
qed

text \<open>
  in every run of the acceptor exactly one accept is in flight while it is open and none once
  it has closed, it closes only after \<open>Stop\<close>, and what it spawns are services that have started
  reading their request line.
\<close>

theorem acceptor_one_accept:
  assumes "acceptor_step\<^sup>*\<^sup>* (acceptor_Start acceptor_new) a"
  shows "acceptor_inv a"
  using http_acceptor_loop.one_accept [OF assms] acceptor_services_started [OF assms]
  by (auto simp: acceptor_inv_def acceptor_Start_def acceptor_new_def InitAccept_def)

theorem acceptor_one_accept_witness:
  "acceptor_inv (onAccept no_error (sock_on []) ((acceptor_Stop (acceptor_Start acceptor_new))\<lparr>ha_accepts := 0\<rparr>))"
proof (rule acceptor_one_accept)
  let ?a = "acceptor_Start acceptor_new"
  have "acceptor_step ?a (acceptor_Stop ?a)" by (rule Acceptor_stop)
  moreover have "acceptor_step (acceptor_Stop ?a)
      (onAccept no_error (sock_on []) ((acceptor_Stop ?a)\<lparr>ha_accepts := ha_accepts (acceptor_Stop ?a) - 1\<rparr>))"
    by (rule Acceptor_completion)
       (simp add: acceptor_Start_def acceptor_new_def InitAccept_def acceptor_Stop_def)
  ultimately show "acceptor_step\<^sup>*\<^sup>* ?a
      (onAccept no_error (sock_on []) ((acceptor_Stop ?a)\<lparr>ha_accepts := 0\<rparr>))"
    by (simp add: acceptor_Start_def acceptor_new_def InitAccept_def acceptor_Stop_def)
qed

text \<open>
  The server: its io_context with the work guard, the acceptor and the thread pool, which is counted
  by the threads running and joined. \<open>Start\<close> asserts a positive pool size, \<open>None\<close> here.
\<close>

record http_server =
  hs_work :: bool
  hs_acceptor :: "http_acceptor option"
  hs_running :: nat
  hs_joined :: nat
  hs_ioc_stopped :: bool

definition server_new :: http_server where
  "server_new = \<lparr>hs_work = True, hs_acceptor = None, hs_running = 0, hs_joined = 0,
     hs_ioc_stopped = False\<rparr>"

definition server_Start :: "u32 \<Rightarrow> http_server \<Rightarrow> http_server option" where
  "server_Start thread_pool_size v =
     (if thread_pool_size = 0 then None
      else Some (v\<lparr>hs_acceptor := Some (acceptor_Start acceptor_new),
                   hs_running := hs_running v + unat thread_pool_size\<rparr>))"

definition server_Stop :: "http_server \<Rightarrow> http_server" where
  "server_Stop v =
     v\<lparr>hs_acceptor := map_option acceptor_Stop (hs_acceptor v), hs_ioc_stopped := True,
       hs_joined := hs_joined v + hs_running v, hs_running := 0\<rparr>"

definition thread_pool_size_of :: "u32 \<Rightarrow> u32" where
  "thread_pool_size_of hardware_concurrency =
     (let n = hardware_concurrency * 2 in if n = 0 then 2 else n)"

lemma thread_pool_positive: "thread_pool_size_of hc \<noteq> 0"
  by (simp add: thread_pool_size_of_def Let_def)

end
