(* ===== verification/Http_Client.thy ===== *)
theory Http_Client
  imports Http_Server
begin

text \<open>
  The HTTP client of the cookbook (ch05/HTTPClient.cpp): \<open>HTTPResponse\<close>, \<open>HTTPRequest\<close> with its
  handlers, and cancellation. The results of resolving and connecting are arguments of their
  completions; \<open>cancel\<close> may come from another thread before any completion, under the mutex the
  handlers hold when they test the flag, so it is a step of its own between two completions.
\<close>

subsection \<open>State\<close>

definition invalid_response :: error_code where
  "invalid_response = Error_code 1 Http_errors_category"

lemma invalid_response_set [simp]: "ec_set invalid_response"
  by (simp add: invalid_response_def ec_set_def)

text \<open>\<open>m_status_code\<close> has no initialiser: \<open>None\<close> until it is set.\<close>

record http_response =
  rs_status_code :: "u32 option"
  rs_status_message :: bytes
  rs_headers :: "bytes \<rightharpoonup> bytes"
  rs_buf :: streambuf

definition response_new :: http_response where
  "response_new = \<lparr>rs_status_code = None, rs_status_message = [], rs_headers = Map.empty,
     rs_buf = streambuf_new\<rparr>"

definition add_header :: "bytes \<Rightarrow> bytes \<Rightarrow> http_response \<Rightarrow> http_response" where
  "add_header name val r = r\<lparr>rs_headers := (rs_headers r)(name \<mapsto> val)\<rparr>"

datatype rq_op = Resolve | Connect | Write_request bytes | Read_status_line
  | Read_response_headers | Read_body

record http_request =
  rq_host :: bytes
  rq_port :: u32
  rq_uri :: bytes
  rq_id :: u32
  rq_callback :: bool
  rq_request_buf :: bytes
  rq_sock :: tcp_sock
  rq_sock_open :: bool
  rq_response :: http_response
  rq_was_cancelled :: bool
  rq_resolver_cancels :: nat
  rq_sock_cancels :: nat
  rq_pending :: "rq_op list"
  rq_callbacks :: "error_code list"
  rq_escaped :: "exn list"

text \<open>\<open>HTTPClient::create_request\<close>; the socket is what the connection will give.\<close>

definition create_request :: "u32 \<Rightarrow> tcp_sock \<Rightarrow> http_request" where
  "create_request ident k =
     \<lparr>rq_host = [], rq_port = 80, rq_uri = [], rq_id = ident, rq_callback = False,
      rq_request_buf = [], rq_sock = k, rq_sock_open = False, rq_response = response_new,
      rq_was_cancelled = False, rq_resolver_cancels = 0, rq_sock_cancels = 0, rq_pending = [], rq_callbacks = [], rq_escaped = []\<rparr>"

definition set_host :: "bytes \<Rightarrow> http_request \<Rightarrow> http_request" where
  "set_host host q = q\<lparr>rq_host := host\<rparr>"

definition set_port :: "u32 \<Rightarrow> http_request \<Rightarrow> http_request" where
  "set_port port q = q\<lparr>rq_port := port\<rparr>"

definition set_uri :: "bytes \<Rightarrow> http_request \<Rightarrow> http_request" where
  "set_uri uri q = q\<lparr>rq_uri := uri\<rparr>"

definition set_callback :: "http_request \<Rightarrow> http_request" where
  "set_callback q = q\<lparr>rq_callback := True\<rparr>"

subsection \<open>Handlers\<close>

definition rq_start :: "rq_op \<Rightarrow> http_request \<Rightarrow> http_request" where
  "rq_start op q = q\<lparr>rq_pending := rq_pending q @ [op]\<rparr>"

definition rq_throw :: "exn \<Rightarrow> http_request \<Rightarrow> http_request" where
  "rq_throw e q = q\<lparr>rq_escaped := rq_escaped q @ [e]\<rparr>"

definition rq_on_finish :: "error_code \<Rightarrow> http_request \<Rightarrow> http_request" where
  "rq_on_finish ec q = q\<lparr>rq_callbacks := rq_callbacks q @ [ec]\<rparr>"

text \<open>The end most handlers share: under the mutex, give up if cancelled, else go on.\<close>

definition unless_cancelled :: "rq_op \<Rightarrow> http_request \<Rightarrow> http_request" where
  "unless_cancelled op q =
     (if rq_was_cancelled q then rq_on_finish operation_aborted q else rq_start op q)"

text \<open>\<open>None\<close> is a failed assertion.\<close>

definition execute :: "http_request \<Rightarrow> http_request option" where
  "execute q =
     (if 0 < rq_port q \<and> 0 < length (rq_host q) \<and> 0 < length (rq_uri q) \<and> rq_callback q
      then Some (unless_cancelled Resolve q) else None)"

text \<open>
  \<open>cancel\<close> sets the flag and asks the resolver and the socket to abort what they have in flight;
  what comes of that is the error code of a completion, which the environment chooses.
\<close>

definition cancel :: "http_request \<Rightarrow> http_request" where
  "cancel q =
     (let q1 = q\<lparr>rq_was_cancelled := True, rq_resolver_cancels := Suc (rq_resolver_cancels q)\<rparr>
      in if rq_sock_open q1 then q1\<lparr>rq_sock_cancels := Suc (rq_sock_cancels q1)\<rparr> else q1)"

definition on_host_name_resolved :: "error_code \<Rightarrow> http_request \<Rightarrow> http_request" where
  "on_host_name_resolved ec q =
     (if ec_set ec then rq_on_finish ec q else unless_cancelled Connect q)"

definition on_connection_established :: "error_code \<Rightarrow> http_request \<Rightarrow> http_request" where
  "on_connection_established ec q =
     (if ec_set ec then rq_on_finish ec q
      else
        let q1 = q\<lparr>rq_request_buf := rq_request_buf q @ ''GET '' @ rq_uri q @ '' HTTP/1.1'' @ crlf\<rparr>;
            q2 = q1\<lparr>rq_request_buf := rq_request_buf q1 @ ''Host: '' @ rq_host q1 @ crlf\<rparr>;
            q3 = q2\<lparr>rq_request_buf := rq_request_buf q2 @ crlf\<rparr>
        in unless_cancelled (Write_request (rq_request_buf q3)) q3)"

definition on_request_sent :: "error_code \<Rightarrow> nat \<Rightarrow> http_request \<Rightarrow> http_request" where
  "on_request_sent ec n q =
     (if ec_set ec then rq_on_finish ec q
      else case sock_shutdown (rq_sock q) of
        (e, k) \<Rightarrow> let q1 = q\<lparr>rq_sock := k\<rparr> in
          if ec_set e then rq_throw (System_error e) q1 else unless_cancelled Read_status_line q1)"

definition rq_consume :: "istream \<Rightarrow> http_request \<Rightarrow> http_request" where
  "rq_consume is q = q\<lparr>rq_response := (rq_response q)\<lparr>rs_buf := (rs_buf (rq_response q))\<lparr>sb_data := chars is\<rparr>\<rparr>\<rparr>"

definition on_status_line_received :: "error_code \<Rightarrow> nat \<Rightarrow> http_request \<Rightarrow> http_request" where
  "on_status_line_received ec n q =
     (if ec_set ec then rq_on_finish ec q
      else
        let (http_version, rs1) = extract_word (istream_of (sb_data (rs_buf (rq_response q)))) []
        in if http_version \<noteq> ''HTTP/1.1'' then rq_on_finish invalid_response (rq_consume rs1 q)
           else
             let (str_status_code, rs2) = extract_word rs1 []
             in (case stoul str_status_code of
                   None \<Rightarrow> rq_on_finish invalid_response (rq_consume rs2 q)
                 | Some v \<Rightarrow>
                     let (status_message, rs3) = getline_delim CR rs2 [];
                         rs4 = stream_get rs3;
                         q1 = rq_consume rs4 q;
                         q2 = q1\<lparr>rq_response := (rq_response q1)\<lparr>rs_status_code := Some (ucast v),
                                                             rs_status_message := status_message\<rparr>\<rparr>
                     in unless_cancelled Read_response_headers q2))"

text \<open>The header loop. It leaves only by an empty line, so it need not return.\<close>

partial_function (option) response_headers_loop ::
  "istream \<Rightarrow> bytes \<Rightarrow> http_response \<Rightarrow> (http_response \<times> istream) option" where
  "response_headers_loop is header r =
     (case getline_delim CR is header of
        (line, is1) \<Rightarrow>
          let is2 = stream_get is1 in
          if line = [] then Some (r, is2)
          else if CHR '':'' \<in> set line
          then let separator_pos = length (before CHR '':'' line);
                   header_name = take separator_pos line;
                   header_value = (if separator_pos < length line - 1
                                   then drop (separator_pos + 1) line else [])
               in response_headers_loop is2 line (add_header header_name header_value r)
          else response_headers_loop is2 line r)"

definition on_response_headers_received ::
  "error_code \<Rightarrow> nat \<Rightarrow> http_request \<Rightarrow> http_request option" where
  "on_response_headers_received ec n q =
     (if ec_set ec then Some (rq_on_finish ec q)
      else case response_headers_loop (istream_of (sb_data (rs_buf (rq_response q)))) []
             (rq_response q) of
        None \<Rightarrow> None
      | Some (r, is) \<Rightarrow> Some (unless_cancelled Read_body (rq_consume is (q\<lparr>rq_response := r\<rparr>))))"

definition on_response_body_received :: "error_code \<Rightarrow> nat \<Rightarrow> http_request \<Rightarrow> http_request" where
  "on_response_body_received ec n q =
     (if ec = eof then rq_on_finish no_error q else rq_on_finish ec q)"

text \<open>The completion of the operation in flight; \<open>e\<close> is the result of resolving or connecting.\<close>

definition rq_read ::
  "error_code \<times> nat \<times> streambuf \<times> tcp_sock \<Rightarrow> rq_op list \<Rightarrow> http_request \<Rightarrow> error_code \<times> nat \<times> http_request" where
  "rq_read res ops q =
     (case res of (ec, n, b, k) \<Rightarrow>
        (ec, n, q\<lparr>rq_pending := ops, rq_sock := k, rq_response := (rq_response q)\<lparr>rs_buf := b\<rparr>\<rparr>))"

definition rq_complete :: "(nat \<Rightarrow> nat) \<Rightarrow> error_code \<Rightarrow> http_request \<Rightarrow> http_request option" where
  "rq_complete cap e q =
     (case rq_pending q of
        [] \<Rightarrow> None
      | Resolve # ops \<Rightarrow> Some (on_host_name_resolved e (q\<lparr>rq_pending := ops\<rparr>))
      | Connect # ops \<Rightarrow>
          Some (on_connection_established e (q\<lparr>rq_pending := ops, rq_sock_open := True\<rparr>))
      | Write_request bs # ops \<Rightarrow>
          (case write_all bs (rq_sock q) of
             (ec, n, k) \<Rightarrow> Some (on_request_sent ec n (q\<lparr>rq_pending := ops, rq_sock := k\<rparr>)))
      | Read_status_line # ops \<Rightarrow>
          (case rq_read (sock_read_until_str cap crlf (rs_buf (rq_response q)) (rq_sock q)) ops q of
             (ec, n, q') \<Rightarrow> Some (on_status_line_received ec n q'))
      | Read_response_headers # ops \<Rightarrow>
          (case rq_read (sock_read_until_str cap crlf2 (rs_buf (rq_response q)) (rq_sock q)) ops q of
             (ec, n, q') \<Rightarrow> on_response_headers_received ec n q')
      | Read_body # ops \<Rightarrow>
          (case rq_read (sock_read_all cap (rs_buf (rq_response q)) (rq_sock q)) ops q of
             (ec, n, q') \<Rightarrow> Some (on_response_body_received ec n q')))"

text \<open>One turn: possibly a cancellation, then a completion.\<close>

inductive rq_turn :: "(nat \<Rightarrow> nat) \<Rightarrow> http_request \<Rightarrow> http_request \<Rightarrow> bool" for cap where
  Rq_quiet: "rq_complete cap e q = Some t \<Longrightarrow> rq_turn cap q t"
| Rq_cancelled: "rq_complete cap e (cancel q) = Some t \<Longrightarrow> rq_turn cap q t"

inductive_cases rq_turnE: "rq_turn cap q t"

fun rq_run :: "(nat \<Rightarrow> nat) \<Rightarrow> error_code list \<Rightarrow> http_request \<Rightarrow> http_request option" where
  "rq_run cap [] q = Some q"
| "rq_run cap (e # es) q =
     (if rq_pending q = [] then Some q
      else case rq_complete cap e q of None \<Rightarrow> None | Some t \<Rightarrow> rq_run cap es t)"


subsection \<open>One request, one callback\<close>

definition rq_reports :: "http_request \<Rightarrow> nat" where
  "rq_reports q = length (rq_callbacks q) + length (rq_escaped q)"

fun rq_op_work :: "rq_op \<Rightarrow> nat" where
  "rq_op_work Resolve = 6"
| "rq_op_work Connect = 5"
| "rq_op_work (Write_request bs) = 4"
| "rq_op_work Read_status_line = 3"
| "rq_op_work Read_response_headers = 2"
| "rq_op_work Read_body = 1"

definition rq_work :: "http_request \<Rightarrow> nat" where
  "rq_work q = sum_list (map rq_op_work (rq_pending q))"

definition rq_balance :: "http_request \<Rightarrow> nat" where
  "rq_balance q = length (rq_pending q) + rq_reports q"

lemmas rq_counts = rq_balance_def rq_reports_def rq_work_def

text \<open>What a handler does to the counts: one more end or operation, of at most the given weight.\<close>

definition rq_moves :: "nat \<Rightarrow> http_request \<Rightarrow> http_request \<Rightarrow> bool" where
  "rq_moves w q t \<longleftrightarrow> rq_balance t = Suc (rq_balance q) \<and> rq_work t \<le> rq_work q + w"

lemma rq_moves_basic:
  "rq_moves w q (rq_on_finish ec q)" "rq_moves w q (rq_throw e q)"
  "rq_op_work op \<le> w \<Longrightarrow> rq_moves w q (unless_cancelled op q)"
  by (auto simp: rq_moves_def rq_on_finish_def rq_throw_def unless_cancelled_def rq_start_def rq_counts)

lemma rq_moves_cong:
  "rq_pending q = rq_pending q' \<Longrightarrow> rq_callbacks q = rq_callbacks q' \<Longrightarrow> rq_escaped q = rq_escaped q'
   \<Longrightarrow> rq_moves w q' t \<Longrightarrow> rq_moves w q t"
  by (simp add: rq_moves_def rq_counts)

lemma rq_consume_sel [simp]:
  "rq_pending (rq_consume is q) = rq_pending q" "rq_callbacks (rq_consume is q) = rq_callbacks q"
  "rq_escaped (rq_consume is q) = rq_escaped q" "rq_was_cancelled (rq_consume is q) = rq_was_cancelled q"
  by (simp_all add: rq_consume_def)

lemma rq_handlers_move:
  "rq_moves 5 q (on_host_name_resolved ec q)"
  "rq_moves 4 q (on_connection_established ec q)"
  "rq_moves 3 q (on_request_sent ec n q)"
  "rq_moves 2 q (on_status_line_received ec n q)"
  "on_response_headers_received ec n q = Some t \<Longrightarrow> rq_moves 1 q t"
  "rq_moves 0 q (on_response_body_received ec n q)"
proof -
  show "rq_moves 5 q (on_host_name_resolved ec q)"
    by (simp add: on_host_name_resolved_def rq_moves_basic)
  show "rq_moves 4 q (on_connection_established ec q)"
    by (auto simp: on_connection_established_def Let_def rq_moves_basic
        intro: rq_moves_cong [OF _ _ _ rq_moves_basic(3)])
  show "rq_moves 3 q (on_request_sent ec n q)"
    by (auto simp: on_request_sent_def Let_def rq_moves_basic split: prod.split
        intro: rq_moves_cong [OF _ _ _ rq_moves_basic(2)] rq_moves_cong [OF _ _ _ rq_moves_basic(3)])
  show "rq_moves 2 q (on_status_line_received ec n q)"
    by (auto simp: on_status_line_received_def Let_def rq_moves_basic split: prod.split option.split
        intro: rq_moves_cong [OF _ _ _ rq_moves_basic(1)] rq_moves_cong [OF _ _ _ rq_moves_basic(3)])
  show "on_response_headers_received ec n q = Some t \<Longrightarrow> rq_moves 1 q t"
    by (auto simp: on_response_headers_received_def rq_moves_basic split: if_splits option.splits prod.splits
        intro: rq_moves_cong [OF _ _ _ rq_moves_basic(3)])
  show "rq_moves 0 q (on_response_body_received ec n q)"
    by (simp add: on_response_body_received_def rq_moves_basic)
qed

lemma rq_cancel_counts [simp]:
  "rq_balance (cancel q) = rq_balance q" "rq_work (cancel q) = rq_work q"
  "rq_pending (cancel q) = rq_pending q" "rq_reports (cancel q) = rq_reports q"
  "rq_callbacks (cancel q) = rq_callbacks q" "rq_was_cancelled (cancel q)"
  by (simp_all add: cancel_def rq_counts Let_def)

lemma rq_read_sel:
  "rq_read res ops q = (ec, n, q') \<Longrightarrow> rq_pending q' = ops \<and> rq_callbacks q' = rq_callbacks q
     \<and> rq_escaped q' = rq_escaped q \<and> rq_was_cancelled q' = rq_was_cancelled q"
  by (auto simp: rq_read_def split: prod.splits)

lemma rq_pop_counts:
  assumes "rq_pending q = op # ops" and "rq_moves w u t" and "w < rq_op_work op"
    and "rq_pending u = ops" and "rq_callbacks u = rq_callbacks q" and "rq_escaped u = rq_escaped q"
  shows "rq_balance t = rq_balance q \<and> rq_work t < rq_work q"
  using assms by (simp add: rq_moves_def rq_counts)

lemma rq_complete_counts:
  assumes "rq_complete cap e q = Some t"
  shows "rq_balance t = rq_balance q \<and> rq_work t < rq_work q"
proof -
  from assms obtain op ops where p: "rq_pending q = op # ops"
    by (auto simp: rq_complete_def split: list.splits)
  obtain w u where "w < rq_op_work op" "rq_moves w u t" "rq_pending u = ops"
    "rq_callbacks u = rq_callbacks q" "rq_escaped u = rq_escaped q"
  proof (cases op)
    case Resolve
    with p assms have "t = on_host_name_resolved e (q\<lparr>rq_pending := ops\<rparr>)"
      by (simp add: rq_complete_def)
    with Resolve show ?thesis
      by (intro that [of 5 "q\<lparr>rq_pending := ops\<rparr>"]) (simp_all add: rq_handlers_move)
  next
    case Connect
    with p assms have "t = on_connection_established e (q\<lparr>rq_pending := ops, rq_sock_open := True\<rparr>)"
      by (simp add: rq_complete_def)
    with Connect show ?thesis
      by (intro that [of 4 "q\<lparr>rq_pending := ops, rq_sock_open := True\<rparr>"]) (simp_all add: rq_handlers_move)
  next
    case (Write_request bs)
    with p assms obtain ec n k where "t = on_request_sent ec n (q\<lparr>rq_pending := ops, rq_sock := k\<rparr>)"
      by (auto simp: rq_complete_def split: prod.splits)
    with Write_request show ?thesis
      by (intro that [of 3 "q\<lparr>rq_pending := ops, rq_sock := k\<rparr>"]) (simp_all add: rq_handlers_move)
  next
    case Read_status_line
    with p assms obtain ec n u res where "rq_read res ops q = (ec, n, u)"
      "t = on_status_line_received ec n u"
      by (auto simp: rq_complete_def split: prod.splits)
    with Read_status_line show ?thesis
      by (intro that [of 2 u]) (auto simp: rq_handlers_move dest: rq_read_sel)
  next
    case Read_response_headers
    with p assms obtain ec n u res where "rq_read res ops q = (ec, n, u)"
      "on_response_headers_received ec n u = Some t"
      by (auto simp: rq_complete_def split: prod.splits)
    with Read_response_headers show ?thesis
      by (intro that [of 1 u]) (auto intro: rq_handlers_move(5) [simplified] dest: rq_read_sel)
  next
    case Read_body
    with p assms obtain ec n u res where "rq_read res ops q = (ec, n, u)"
      "t = on_response_body_received ec n u"
      by (auto simp: rq_complete_def split: prod.splits)
    with Read_body show ?thesis
      by (intro that [of 0 u]) (auto simp: rq_handlers_move dest: rq_read_sel)
  qed
  with p show ?thesis by (intro rq_pop_counts)
qed

interpretation http_client_request: one_shot "rq_turn cap" "\<lambda>q. length (rq_pending q)" rq_reports rq_work
  for cap
proof
  show "rq_turn cap q t \<Longrightarrow> 0 < length (rq_pending q)" for q t
    by (erule rq_turnE) (auto simp: rq_complete_def split: list.splits)
  show "rq_turn cap q t \<Longrightarrow> length (rq_pending t) + rq_reports t = length (rq_pending q) + rq_reports q"
    for q t
    by (erule rq_turnE) (auto dest!: rq_complete_counts simp: rq_balance_def)
  show "rq_turn cap q t \<Longrightarrow> rq_work t < rq_work q" for q t
    by (erule rq_turnE) (auto dest!: rq_complete_counts)
qed


lemma execute_counts: "execute q = Some t \<Longrightarrow> rq_balance t = Suc (rq_balance q) \<and> rq_work t \<le> rq_work q + 6"
  using rq_moves_basic(3) [of Resolve 6 q] by (auto simp: execute_def rq_moves_def split: if_splits)

text \<open>
  whatever the peer and the network do, and whenever the request is cancelled, a request that
  has been executed once calls its callback at most once, and it has done so (or an exception of
  \<open>shutdown\<close> has left a handler) exactly when it has no operation in flight; it takes at most six
  completions.
\<close>

theorem http_request_calls_back_once:
  assumes "execute q = Some s" and "rq_balance q = 0" and "(rq_turn cap)\<^sup>*\<^sup>* s t"
  shows "length (rq_callbacks t) + length (rq_escaped t) \<le> 1
    \<and> (length (rq_callbacks t) + length (rq_escaped t) = 1 \<longleftrightarrow> rq_pending t = [])
    \<and> (\<forall>n. (rq_turn cap ^^ n) s t \<longrightarrow> n \<le> 6)"
proof -
  have one: "length (rq_pending s) + rq_reports s = 1" and w: "rq_work s \<le> 6"
    using execute_counts [OF assms(1)] assms(2) by (auto simp: rq_balance_def rq_work_def)
  have "n \<le> 6" if "(rq_turn cap ^^ n) s t" for n
    using http_client_request.run_length [OF that] w by simp
  with http_client_request.reports_at_most_once [OF assms(3) one] show ?thesis
    by (auto simp: rq_reports_def)
qed

definition example_request :: "tcp_sock \<Rightarrow> http_request" where
  "example_request k =
     set_callback (set_port 3333 (set_uri ''/index.html'' (set_host ''localhost'' (create_request 1 k))))"

lemmas example_request_defs = example_request_def set_callback_def set_port_def set_uri_def
  set_host_def create_request_def

theorem http_request_calls_back_once_witness:
  "\<exists>s. execute (example_request (sock_on [])) = Some s
    \<and> (length (rq_callbacks s) + length (rq_escaped s) \<le> 1
    \<and> (length (rq_callbacks s) + length (rq_escaped s) = 1 \<longleftrightarrow> rq_pending s = [])
    \<and> (\<forall>n. (rq_turn (\<lambda>n. n) ^^ n) s s \<longrightarrow> n \<le> 6))"
proof -
  let ?q = "example_request (sock_on [])"
  obtain s where s: "execute ?q = Some s" by (simp add: execute_def example_request_defs)
  have "rq_balance ?q = 0" by (simp add: example_request_defs rq_counts)
  from http_request_calls_back_once [OF s this] s show ?thesis by blast
qed

subsection \<open>Cancellation\<close>

text \<open>Once cancelled before the body is being read, no handler can report success any more.\<close>

definition rq_doomed :: "http_request \<Rightarrow> bool" where
  "rq_doomed q \<longleftrightarrow> rq_was_cancelled q \<and> Read_body \<notin> set (rq_pending q) \<and> no_error \<notin> set (rq_callbacks q)"

lemma rq_doomed_basic:
  "rq_doomed q \<Longrightarrow> ec_set ec \<Longrightarrow> rq_doomed (rq_on_finish ec q)"
  "rq_doomed q \<Longrightarrow> rq_doomed (rq_throw e q)"
  "rq_doomed q \<Longrightarrow> rq_doomed (unless_cancelled op q)"
  by (auto simp: rq_doomed_def rq_on_finish_def rq_throw_def unless_cancelled_def)

lemma rq_doomed_cong:
  "rq_pending q = rq_pending q' \<Longrightarrow> rq_callbacks q = rq_callbacks q' \<Longrightarrow>
   rq_was_cancelled q = rq_was_cancelled q' \<Longrightarrow> rq_doomed q \<Longrightarrow> rq_doomed q'"
  by (simp add: rq_doomed_def)

lemma rq_doomed_consume [simp]: "rq_doomed (rq_consume is q) = rq_doomed q"
  by (simp add: rq_doomed_def)

lemma rq_doomed_fields [simp]:
  "rq_doomed (q\<lparr>rq_request_buf := b\<rparr>) = rq_doomed q" "rq_doomed (q\<lparr>rq_sock := k\<rparr>) = rq_doomed q"
  "rq_doomed (q\<lparr>rq_response := r\<rparr>) = rq_doomed q" "rq_doomed (q\<lparr>rq_sock_open := b'\<rparr>) = rq_doomed q"
  by (simp_all add: rq_doomed_def)

lemma rq_handlers_doomed:
  assumes "rq_doomed q"
  shows "rq_doomed (on_host_name_resolved ec q)" "rq_doomed (on_connection_established ec q)"
    "rq_doomed (on_request_sent ec n q)" "rq_doomed (on_status_line_received ec n q)"
    "on_response_headers_received ec n q = Some t \<Longrightarrow> rq_doomed t"
  using assms
  by (auto simp: on_host_name_resolved_def on_connection_established_def on_request_sent_def
      on_status_line_received_def on_response_headers_received_def Let_def rq_doomed_basic
      split: prod.splits option.splits if_splits)

lemma rq_doomed_complete:
  assumes "rq_complete cap e q = Some t" and "rq_doomed q"
  shows "rq_doomed t"
proof -
  from assms obtain op ops where p: "rq_pending q = op # ops"
    by (auto simp: rq_complete_def split: list.splits)
  have pop: "rq_doomed u" if "rq_pending u = ops" "rq_callbacks u = rq_callbacks q"
    "rq_was_cancelled u = rq_was_cancelled q" for u
    using that assms(2) p by (simp add: rq_doomed_def)
  have rd: "rq_doomed u" if "rq_read res ops q = (ec, n, u)" for res ec n u
    using rq_read_sel [OF that] by (intro pop) auto
  from assms(2) p have "op \<noteq> Read_body" by (auto simp: rq_doomed_def)
  then show ?thesis
    using assms(1) p
    by (cases op)
      (auto simp: rq_complete_def rq_handlers_doomed pop split: prod.splits dest: rd
        intro: rq_handlers_doomed(4) [OF rd] rq_handlers_doomed(5) [OF rd])
qed

text \<open>
  if a request is cancelled before its body is being read, its callback never gets the clear
  error code, however far the request had come, and whatever arrives afterwards.
\<close>

theorem http_cancel_reports_error:
  assumes "rq_callbacks q = []" and "Read_body \<notin> set (rq_pending q)"
    and "(rq_turn cap)\<^sup>*\<^sup>* (cancel q) t"
  shows "no_error \<notin> set (rq_callbacks t)"
proof -
  from assms(3) have "rq_doomed t"
  proof (induction rule: rtranclp_induct)
    case base
    show ?case using assms(1,2) by (simp add: rq_doomed_def)
  next
    case (step u v)
    from step(3) have "rq_doomed (cancel u)" by (simp add: rq_doomed_def)
    with step(2,3) show ?case by (auto elim!: rq_turnE dest: rq_doomed_complete)
  qed
  then show ?thesis by (simp add: rq_doomed_def)
qed

theorem http_cancel_reports_error_witness:
  "\<exists>s t. execute (example_request (sock_on [])) = Some s
    \<and> rq_turn (\<lambda>n. n) (cancel s) t \<and> rq_callbacks t = [operation_aborted]
    \<and> no_error \<notin> set (rq_callbacks t)"
proof -
  let ?s = "rq_start Resolve (example_request (sock_on []))"
  let ?t = "rq_on_finish operation_aborted ((cancel ?s)\<lparr>rq_pending := []\<rparr>)"
  have s: "execute (example_request (sock_on [])) = Some ?s"
    by (simp add: execute_def example_request_defs unless_cancelled_def)
  have c: "rq_callbacks ?s = []" "rq_pending ?s = [Resolve]"
    by (simp_all add: rq_start_def example_request_defs)
  have "rq_complete (\<lambda>n. n) no_error (cancel ?s) = Some ?t"
    using c(2) by (simp add: rq_complete_def on_host_name_resolved_def unless_cancelled_def)
  then have turn: "rq_turn (\<lambda>n. n) (cancel ?s) ?t" by (rule Rq_quiet)
  then have "no_error \<notin> set (rq_callbacks ?t)"
    using c by (intro http_cancel_reports_error [of ?s "\<lambda>n. n"]) auto
  moreover have "rq_callbacks ?t = [operation_aborted]" using c by (simp add: rq_on_finish_def)
  ultimately show ?thesis using s turn by blast
qed


subsection \<open>Receiving a well-formed response\<close>

definition response_head :: "nat \<Rightarrow> bytes \<Rightarrow> bytes" where
  "response_head code msg = ''HTTP/1.1 '' @ to_string code @ '' '' @ msg"

definition response_message :: "nat \<Rightarrow> bytes \<Rightarrow> (bytes \<times> bytes) list \<Rightarrow> bytes \<Rightarrow> bytes" where
  "response_message code msg hs body =
     response_head code msg @ crlf @ concat (map header_line hs) @ crlf @ body"

lemma response_headers_loop_spec:
  assumes "headers_wf hs"
  shows "response_headers_loop (istream_of (concat (map header_line hs) @ crlf @ rest)) h r
    = Some (r\<lparr>rs_headers := rs_headers r ++ map_of (rev hs)\<rparr>, istream_of rest)"
  using assms
proof (induction hs arbitrary: h r)
  case Nil
  then show ?case
    by (subst response_headers_loop.simps) (simp add: getline_hit_now stream_get_Cons)
next
  case (Cons e hs)
  obtain n v where e: "e = (n, v)" by force
  from Cons.prems e have wf: "CHR '':'' \<notin> set n" "CR \<notin> set (n @ CHR '':'' # v)" "headers_wf hs" by auto
  have "getline_delim CR (istream_of ((n @ CHR '':'' # v) @ CR # NL # concat (map header_line hs) @ crlf @ rest)) h
      = (n @ CHR '':'' # v, istream_of (NL # concat (map header_line hs) @ crlf @ rest))"
    by (rule getline_hit [OF wf(2)])
  then have "response_headers_loop (istream_of (concat (map header_line (e # hs)) @ crlf @ rest)) h r
      = response_headers_loop (istream_of (concat (map header_line hs) @ crlf @ rest))
          (n @ CHR '':'' # v) (add_header n v r)"
    using wf(1) by (subst response_headers_loop.simps) (auto simp: e header_line_def stream_get_Cons)
  also have "\<dots> = Some ((add_header n v r)\<lparr>rs_headers := rs_headers (add_header n v r) ++ map_of (rev hs)\<rparr>,
      istream_of rest)"
    by (rule Cons.IH [OF wf(3)])
  finally show ?case by (simp add: e add_header_def)
qed

lemma occurs_at_nth: "occurs_at delim d j \<Longrightarrow> i < length delim \<Longrightarrow> d ! (j + i) = delim ! i"
  by (auto simp: occurs_at_def prefix_def nth_append dest!: arg_cong [where f = "\<lambda>xs. xs ! i"])

lemma occurs_at_skip: "length xs \<le> j \<Longrightarrow> occurs_at delim (xs @ ys) j = occurs_at delim ys (j - length xs)"
  by (auto simp: occurs_at_def)

lemma headers_no_early_end:
  assumes "headers_wf hs" and "j + 2 < length (concat (map header_line hs))"
  shows "\<not> occurs_at crlf2 (concat (map header_line hs) @ crlf @ body) j"
  using assms
proof (induction hs arbitrary: j)
  case (Cons e hs)
  obtain n v where e: "e = (n, v)" by force
  let ?l = "n @ CHR '':'' # v" and ?D = "concat (map header_line hs) @ crlf @ body"
  have wf: "CR \<notin> set ?l" "headers_wf hs" using Cons.prems(1) e by auto
  have d: "concat (map header_line (e # hs)) @ crlf @ body = (?l @ crlf) @ ?D"
    by (simp add: e header_line_Pair)
  have len: "j < length ?l + length (concat (map header_line hs))"
    using Cons.prems(2) by (simp add: e header_line_Pair)
  show ?case
  proof
    assume "occurs_at crlf2 (concat (map header_line (e # hs)) @ crlf @ body) j"
    then have occ: "occurs_at crlf2 ((?l @ crlf) @ ?D) j" unfolding d .
    have c0: "((?l @ crlf) @ ?D) ! j = CR" and c2: "((?l @ crlf) @ ?D) ! (j + 2) = CR"
      using occurs_at_nth [OF occ, of 0] occurs_at_nth [OF occ, of 2] by simp_all
    consider "j < length ?l" | "j = length ?l" | "j = Suc (length ?l)" | "length (?l @ crlf) \<le> j"
      by fastforce
    then show False
    proof cases
      case 1
      then have "((?l @ crlf) @ ?D) ! j = ?l ! j" by (simp add: nth_append del: append_assoc)
      with 1 c0 wf(1) show False by (metis nth_mem)
    next
      case 2
      then obtain e' hs' where hs: "hs = e' # hs'" using len by (cases hs) auto
      have "((?l @ crlf) @ ?D) ! (j + 2) = ?D ! 0"
        using 2 by (simp add: nth_append)
      also have "\<dots> = hd (fst e')" using Cons.prems(1) hs
        by (cases "fst e'") (auto simp: header_line_def headers_wf_def)
      finally have "hd (fst e') = CR" using c2 by simp
      moreover have "fst e' \<noteq> []" "CR \<notin> set (fst e')"
        using Cons.prems(1) hs by (auto simp: headers_wf_def)
      ultimately show False using hd_in_set by metis
    next
      case 3
      then show False using c0 by (simp add: nth_append)
    next
      case 4
      from occ have "occurs_at crlf2 ?D (j - length (?l @ crlf))"
        using occurs_at_skip [OF 4] by blast
      moreover have "j - length (?l @ crlf) + 2 < length (concat (map header_line hs))"
        using 4 len by simp
      ultimately show False using Cons.IH [OF wf(2)] by blast
    qed
  qed
qed simp


text \<open>A request that waits for the given operation, with the given bytes still to come.\<close>

definition rq_waits :: "rq_op \<Rightarrow> bytes \<Rightarrow> http_request \<Rightarrow> bool" where
  "rq_waits op d q \<longleftrightarrow>
     rq_pending q = [op] \<and> rq_callbacks q = [] \<and> rq_escaped q = [] \<and> \<not> rq_was_cancelled q
     \<and> no_fail (ts_in (rq_sock q)) \<and> ts_shuts (rq_sock q) = [] \<and> ts_writes (rq_sock q) = []
     \<and> sb_data (rs_buf (rq_response q)) @ net_data (ts_in (rq_sock q)) = d
     \<and> sb_max (rs_buf (rq_response q)) = 2 ^ 64 - 1 \<and> length d < 2 ^ 64 - 1"

lemma rq_waits_read:
  assumes w: "rq_waits op d q" and ne: "delim \<noteq> []" and d: "d = pre @ delim @ post"
  shows "\<exists>n b k i. sock_read_until_str cap delim (rs_buf (rq_response q)) (rq_sock q) = (no_error, n, b, k)
    \<and> sb_data b @ net_data (ts_in k) = d \<and> first_at delim (sb_data b) i \<and> no_fail (ts_in k)
    \<and> sb_max b = 2 ^ 64 - 1 \<and> ts_shuts k = [] \<and> ts_writes k = [] \<and> ts_out k = ts_out (rq_sock q)"
proof -
  obtain ec n b k where run: "sock_read_until_str cap delim (rs_buf (rq_response q)) (rq_sock q) = (ec, n, b, k)"
    by (metis prod_cases4)
  have sb: "sb_data (rs_buf (rq_response q)) @ net_data (ts_in (rq_sock q)) = d"
    "sb_max (rs_buf (rq_response q)) = 2 ^ 64 - 1" "no_fail (ts_in (rq_sock q))" "length d < 2 ^ 64 - 1"
    "ts_shuts (rq_sock q) = []" "ts_writes (rq_sock q) = []"
    using w by (simp_all add: rq_waits_def)
  have "length (sb_data (rs_buf (rq_response q))) \<le> length d" using sb(1) by auto
  then have len: "length (sb_data (rs_buf (rq_response q))) \<le> sb_max (rs_buf (rq_response q))"
    using sb(2,4) by linarith
  note out = sock_read_until_outcome [OF run ne len sb(3)]
  note snd = sock_read_until_sound [OF run ne len no_fail_proper [OF sb(3)]]
  have "length pre + length delim \<le> length d" using d by simp
  then have "fst (read_until_outcome delim (sb_max (rs_buf (rq_response q))) d) = no_error"
    using sb(2,4) by (intro outcome_infix [OF ne d]) linarith
  then have "ec = no_error" using out(1) sb(1) by (metis fst_conv)
  with run snd out(2) sb show ?thesis by auto
qed

text \<open>Data cut off somewhere after its first line.\<close>

lemma first_line_split:
  assumes cut: "b @ x = l @ crlf @ rest" and no: "CR \<notin> set l" and i: "first_at crlf b i"
  shows "\<exists>y. b = l @ crlf @ y \<and> y @ x = rest"
proof -
  from first_at_crlf_split [OF i] have cr: "CR \<in> set b" "after CR b \<noteq> []" .
  have "before CR b = before CR (l @ CR # NL # rest)"
    using before_append_first [OF cr(1), of x] cut by simp
  then have bl: "before CR b = l" using no by simp
  have "after CR b @ x = after CR (l @ CR # NL # rest)"
    using after_append_first [OF cr(1), of x] cut by simp
  then have "after CR b @ x = NL # rest" using no by simp
  with cr(2) obtain y where "after CR b = NL # y" "y @ x = rest" by (cases "after CR b") auto
  moreover have "b = l @ CR # after CR b" using before_after_split [OF cr(1)] bl by simp
  ultimately show ?thesis by auto
qed

lemma headers_split:
  assumes cut: "b @ x = concat (map header_line hs) @ crlf @ rest" and wf: "headers_wf hs"
    and i: "first_at crlf2 b i"
  shows "\<exists>y. b = concat (map header_line hs) @ crlf @ y \<and> y @ x = rest"
proof -
  let ?H = "concat (map header_line hs)"
  have "occurs_at crlf2 (b @ x) i" using i occurs_at_append by (auto simp: first_at_def)
  then have "\<not> i + 2 < length ?H" using headers_no_early_end [OF wf] unfolding cut by blast
  moreover have "i + 4 \<le> length b" using i by (auto simp: first_at_def dest: occurs_at_length)
  ultimately have "length (?H @ crlf) \<le> length b" by simp
  moreover have "b @ x = (?H @ crlf) @ rest" using cut by simp
  ultimately have "\<exists>y. b = (?H @ crlf) @ y \<and> y @ x = rest" by (rule append_cut [rotated])
  then show ?thesis by simp
qed


lemma parse_status_line:
  assumes "CR \<notin> set msg" and "code < 2 ^ 32"
  shows "\<exists>rs1 rs2 rs3. extract_word (istream_of (response_head code msg @ crlf @ y)) [] = (''HTTP/1.1'', rs1)
    \<and> extract_word rs1 [] = (to_string code, rs2)
    \<and> getline_delim CR rs2 [] = (CHR '' '' # msg, rs3) \<and> stream_get rs3 = istream_of y
    \<and> stoul (to_string code) = Some (of_nat code)"
proof -
  have "extract_word (istream_of (''HTTP/1.1'' @ CHR '' '' # to_string code @ CHR '' '' # msg @ crlf @ y)) []
      = (''HTTP/1.1'', istream_of (CHR '' '' # to_string code @ CHR '' '' # msg @ crlf @ y))"
    by (rule extract_word_hit) (auto simp: isspace_def)
  moreover have "extract_word (istream_of (CHR '' '' # to_string code @ CHR '' '' # msg @ crlf @ y)) []
      = (to_string code, istream_of (CHR '' '' # msg @ crlf @ y))"
    using extract_word_hit [of "to_string code" "CHR '' ''"] to_string_no_space
    by (simp add: extract_word_space)
  moreover have "getline_delim CR (istream_of ((CHR '' '' # msg) @ CR # NL # y)) []
      = (CHR '' '' # msg, istream_of (NL # y))"
    by (rule getline_hit) (use assms(1) in simp)
  moreover have "stoul (to_string code) = Some (of_nat code)"
    by (rule stoul_to_string) (use assms(2) in simp)
  ultimately show ?thesis by (simp add: response_head_def stream_get_Cons)
qed

lemma response_head_no_cr: "CR \<notin> set msg \<Longrightarrow> CR \<notin> set (response_head code msg)"
  using to_string_digits [of code] isdigit_not_sign by (fastforce simp: response_head_def)

lemma ucast_code: "code < 2 ^ 32 \<Longrightarrow> (ucast (of_nat code :: u64) :: u32) = of_nat code"
  by (simp add: unsigned_of_nat take_bit_nat_eq_self)

lemma rq_status_phase:
  assumes w: "rq_waits Read_status_line (response_message code msg hs body) q"
    and "CR \<notin> set msg" and "code < 2 ^ 32"
  shows "\<exists>t. rq_complete cap e q = Some t
    \<and> rq_waits Read_response_headers (concat (map header_line hs) @ crlf @ body) t
    \<and> rs_status_code (rq_response t) = Some (of_nat code)
    \<and> rs_status_message (rq_response t) = CHR '' '' # msg
    \<and> rs_headers (rq_response t) = rs_headers (rq_response q)
    \<and> ts_out (rq_sock t) = ts_out (rq_sock q)"
proof -
  let ?rest = "concat (map header_line hs) @ crlf @ body"
  have d: "response_message code msg hs body = response_head code msg @ crlf @ ?rest"
    by (simp add: response_message_def)
  obtain n b k i where run:
    "sock_read_until_str cap crlf (rs_buf (rq_response q)) (rq_sock q) = (no_error, n, b, k)"
    and b: "sb_data b @ net_data (ts_in k) = response_head code msg @ crlf @ ?rest"
      "first_at crlf (sb_data b) i" "no_fail (ts_in k)" "sb_max b = 2 ^ 64 - 1"
      "ts_shuts k = []" "ts_writes k = []" "ts_out k = ts_out (rq_sock q)"
    using rq_waits_read [OF w _ d, of cap] unfolding d by blast
  obtain y where y: "sb_data b = response_head code msg @ crlf @ y" "y @ net_data (ts_in k) = ?rest"
    using first_line_split [OF b(1) response_head_no_cr [OF assms(2)] b(2)] by blast
  obtain rs1 rs2 rs3 where parse:
    "extract_word (istream_of (response_head code msg @ crlf @ y)) [] = (''HTTP/1.1'', rs1)"
    "extract_word rs1 [] = (to_string code, rs2)" "getline_delim CR rs2 [] = (CHR '' '' # msg, rs3)"
    "stream_get rs3 = istream_of y" "stoul (to_string code) = Some (of_nat code)"
    using parse_status_line [OF assms(2,3)] by blast
  have len: "length ?rest < 2 ^ 64 - 1" using w unfolding d by (simp add: rq_waits_def)
  from w have q: "rq_pending q = [Read_status_line]" "rq_callbacks q = []" "rq_escaped q = []"
    "\<not> rq_was_cancelled q" by (simp_all add: rq_waits_def)
  show ?thesis
    using parse ucast_code [OF assms(3)] y b(3-7) q len
    by (simp add: rq_complete_def rq_read_def run on_status_line_received_def rq_consume_def
        unless_cancelled_def rq_start_def rq_waits_def)
qed

lemma rq_headers_phase:
  assumes w: "rq_waits Read_response_headers (concat (map header_line hs) @ crlf @ body) q"
    and wf: "headers_wf hs" and ne: "hs \<noteq> []"
  shows "\<exists>t. rq_complete cap e q = Some t \<and> rq_waits Read_body body t
    \<and> rs_status_code (rq_response t) = rs_status_code (rq_response q)
    \<and> rs_status_message (rq_response t) = rs_status_message (rq_response q)
    \<and> rs_headers (rq_response t) = rs_headers (rq_response q) ++ map_of (rev hs)
    \<and> ts_out (rq_sock t) = ts_out (rq_sock q)"
proof -
  let ?d = "concat (map header_line hs) @ crlf @ body"
  obtain pre where d: "?d = pre @ crlf2 @ body" using headers_end [OF ne, of body] by blast
  obtain n b k i where run:
    "sock_read_until_str cap crlf2 (rs_buf (rq_response q)) (rq_sock q) = (no_error, n, b, k)"
    and b: "sb_data b @ net_data (ts_in k) = ?d"
      "first_at crlf2 (sb_data b) i" "no_fail (ts_in k)" "sb_max b = 2 ^ 64 - 1"
      "ts_shuts k = []" "ts_writes k = []" "ts_out k = ts_out (rq_sock q)"
    using rq_waits_read [OF w _ d, of cap] by blast
  obtain y where y: "sb_data b = concat (map header_line hs) @ crlf @ y" "y @ net_data (ts_in k) = body"
    using headers_split [OF b(1) wf b(2)] by blast
  have len: "length body < 2 ^ 64 - 1" using w by (simp add: rq_waits_def)
  from w have q: "rq_pending q = [Read_response_headers]" "rq_callbacks q = []" "rq_escaped q = []"
    "\<not> rq_was_cancelled q" by (simp_all add: rq_waits_def)
  show ?thesis
    using response_headers_loop_spec [OF wf, of y] y b(3-7) q len
    by (simp add: rq_complete_def rq_read_def run on_response_headers_received_def rq_consume_def
        unless_cancelled_def rq_start_def rq_waits_def)
qed

lemma rq_body_phase:
  assumes w: "rq_waits Read_body body q"
  shows "\<exists>t. rq_complete cap e q = Some t \<and> rq_pending t = [] \<and> rq_callbacks t = [no_error]
    \<and> rq_escaped t = [] \<and> sb_data (rs_buf (rq_response t)) = body
    \<and> rs_status_code (rq_response t) = rs_status_code (rq_response q)
    \<and> rs_status_message (rq_response t) = rs_status_message (rq_response q)
    \<and> rs_headers (rq_response t) = rs_headers (rq_response q)
    \<and> ts_out (rq_sock t) = ts_out (rq_sock q)"
proof -
  from w have q: "rq_pending q = [Read_body]" "rq_callbacks q = []" "rq_escaped q = []"
    "no_fail (ts_in (rq_sock q))" "sb_data (rs_buf (rq_response q)) @ net_data (ts_in (rq_sock q)) = body"
    "sb_max (rs_buf (rq_response q)) = 2 ^ 64 - 1" "length body < 2 ^ 64 - 1"
    by (simp_all add: rq_waits_def)
  have "length (sb_data (rs_buf (rq_response q))) + length (net_data (ts_in (rq_sock q)))
      < sb_max (rs_buf (rq_response q))"
    unfolding q(6) using q(5,7) by (metis length_append)
  from async_read_streambuf_all [OF q(4) this, of cap 0] obtain s' where
    "async_read_streambuf cap 0 (rs_buf (rq_response q)) (ts_in (rq_sock q))
      = (eof, length (net_data (ts_in (rq_sock q))), (rs_buf (rq_response q))\<lparr>sb_data := body\<rparr>, s')"
    using q(5) by auto
  then show ?thesis
    using q(1-3) by (simp add: rq_complete_def rq_read_def sock_read_all_def
        on_response_body_received_def rq_on_finish_def)
qed


lemma rq_run_step:
  "rq_pending q \<noteq> [] \<Longrightarrow> rq_complete cap e q = Some t \<Longrightarrow> rq_run cap (e # es) q = rq_run cap es t"
  by simp

text \<open>A request as \<open>create_request\<close> and the setters leave it, on a quiet socket.\<close>

definition rq_fresh :: "http_request \<Rightarrow> bool" where
  "rq_fresh q \<longleftrightarrow> \<not> rq_was_cancelled q \<and> rq_pending q = [] \<and> rq_callbacks q = []
     \<and> rq_escaped q = [] \<and> rq_request_buf q = [] \<and> rq_response q = response_new
     \<and> ts_shuts (rq_sock q) = [] \<and> ts_writes (rq_sock q) = [] \<and> ts_out (rq_sock q) = []"

lemma rq_connect_phase:
  assumes "execute q = Some s" and fresh: "rq_fresh q"
    and "no_fail (ts_in (rq_sock q))" and "length (net_data (ts_in (rq_sock q))) < 2 ^ 64 - 1"
  shows "\<exists>t. rq_run cap (no_error # no_error # no_error # es) s = rq_run cap es t
    \<and> rq_waits Read_status_line (net_data (ts_in (rq_sock q))) t
    \<and> ts_out (rq_sock t) = request_message (rq_uri q) [(''Host'', CHR '' '' # rq_host q)]
    \<and> rq_response t = response_new"
proof -
  note fresh = fresh [unfolded rq_fresh_def]
  from assms(1) fresh have s: "s = rq_start Resolve q"
    by (simp add: execute_def unless_cancelled_def split: if_splits)
  let ?m = "request_message (rq_uri q) [(''Host'', CHR '' '' # rq_host q)]"
  show ?thesis
    using assms(3-) fresh unfolding s
    by (intro exI [where x = "q\<lparr>rq_sock_open := True, rq_request_buf := ?m,
          rq_sock := (rq_sock q)\<lparr>ts_out := ts_out (rq_sock q) @ ?m\<rparr>, rq_pending := [Read_status_line]\<rparr>"])
      (simp add: rq_start_def rq_complete_def on_host_name_resolved_def unless_cancelled_def
        on_connection_established_def on_request_sent_def rq_waits_def Let_def
        request_message_def request_line_def header_line_def response_new_def streambuf_new_def)
qed

lemma client_receives:
  assumes "execute q = Some s" and "rq_fresh q" and "rq_sock q = sock_on net" and "no_fail net"
    and "net_data net = response_message code msg hs body"
    and "length (response_message code msg hs body) < 2 ^ 64 - 1"
    and "CR \<notin> set msg" and "code < 2 ^ 32" and "headers_wf hs" and "hs \<noteq> []"
  shows "\<exists>t. rq_run cap (replicate 6 no_error) s = Some t
    \<and> rq_callbacks t = [no_error] \<and> rq_escaped t = [] \<and> rq_pending t = []
    \<and> ts_out (rq_sock t) = request_message (rq_uri q) [(''Host'', CHR '' '' # rq_host q)]
    \<and> rs_status_code (rq_response t) = Some (of_nat code)
    \<and> rs_status_message (rq_response t) = CHR '' '' # msg
    \<and> rs_headers (rq_response t) = map_of (rev hs)
    \<and> sb_data (rs_buf (rq_response t)) = body"
proof -
  let ?out = "request_message (rq_uri q) [(''Host'', CHR '' '' # rq_host q)]"
  have six: "replicate 6 no_error = no_error # no_error # no_error # [no_error, no_error, no_error]"
    by (simp add: eval_nat_numeral)
  obtain t1 where t1: "rq_run cap (replicate 6 no_error) s = rq_run cap [no_error, no_error, no_error] t1"
    "rq_waits Read_status_line (response_message code msg hs body) t1" "rq_response t1 = response_new" "ts_out (rq_sock t1) = ?out"
    using rq_connect_phase [OF assms(1,2), of cap "[no_error, no_error, no_error]"] assms(3-6)
    unfolding six by auto
  obtain t2 where t2: "rq_complete cap no_error t1 = Some t2"
    "rq_waits Read_response_headers (concat (map header_line hs) @ crlf @ body) t2"
    "rs_status_code (rq_response t2) = Some (of_nat code)"
    "rs_status_message (rq_response t2) = CHR '' '' # msg" "rs_headers (rq_response t2) = Map.empty"
    "ts_out (rq_sock t2) = ?out"
    using rq_status_phase [OF t1(2) assms(7,8), of cap no_error] t1(3,4) by (auto simp: response_new_def)
  obtain t3 where t3: "rq_complete cap no_error t2 = Some t3" "rq_waits Read_body body t3"
    "rs_status_code (rq_response t3) = Some (of_nat code)"
    "rs_status_message (rq_response t3) = CHR '' '' # msg" "rs_headers (rq_response t3) = map_of (rev hs)"
    "ts_out (rq_sock t3) = ?out"
    using rq_headers_phase [OF t2(2) assms(9,10), of cap no_error] t2(3-6) by auto
  obtain t4 where "rq_complete cap no_error t3 = Some t4" "rq_pending t4 = []"
    "rq_callbacks t4 = [no_error]" "rq_escaped t4 = []" "sb_data (rs_buf (rq_response t4)) = body"
    "rs_status_code (rq_response t4) = Some (of_nat code)"
    "rs_status_message (rq_response t4) = CHR '' '' # msg" "rs_headers (rq_response t4) = map_of (rev hs)"
    "ts_out (rq_sock t4) = ?out"
    using rq_body_phase [OF t3(2), of cap no_error] t3(3-6) by auto
  moreover have "rq_pending t1 \<noteq> []" "rq_pending t2 \<noteq> []" "rq_pending t3 \<noteq> []"
    using t1(2) t2(2) t3(2) by (simp_all add: rq_waits_def)
  ultimately show ?thesis using t1(1) t2(1) t3(1) by simp
qed

text \<open>
  C7: a request that is not cancelled, on a network that does not fail, whatever the cutting of the
  response into arrivals: the client sends the GET line with the Host header, and when the peer has
  sent a well-formed response (at least one header) and closed, the callback has been called once,
  with the clear error code, and the response holds the status code and message, each header, and
  the body exactly.
\<close>

theorem http_client_receives:
  assumes "execute q = Some s" and "rq_fresh q" and "rq_sock q = sock_on net" and "no_fail net"
    and "net_data net = response_message code msg hs body"
    and "length (response_message code msg hs body) < 2 ^ 64 - 1"
    and "CR \<notin> set msg" and "code < 2 ^ 32" and "headers_wf hs" and "hs \<noteq> []"
  shows "\<exists>t. rq_run cap (replicate 6 no_error) s = Some t
    \<and> rq_callbacks t = [no_error] \<and> rq_escaped t = [] \<and> rq_pending t = []
    \<and> ts_out (rq_sock t) = request_message (rq_uri q) [(''Host'', CHR '' '' # rq_host q)]
    \<and> rs_status_code (rq_response t) = Some (of_nat code)
    \<and> rs_status_message (rq_response t) = CHR '' '' # msg
    \<and> rs_headers (rq_response t) = map_of (rev hs)
    \<and> sb_data (rs_buf (rq_response t)) = body"
  by (rule client_receives [OF assms])


theorem http_client_receives_witness:
  "\<exists>s t. execute (example_request (sock_on [Arrive (response_message 200 ''OK'' [(''a'', ''b'')] ''hi'')])) = Some s
    \<and> rq_run (\<lambda>n. n) (replicate 6 no_error) s = Some t
    \<and> rq_callbacks t = [no_error] \<and> sb_data (rs_buf (rq_response t)) = ''hi''
    \<and> rs_headers (rq_response t) = [''a'' \<mapsto> ''b'']"
proof -
  let ?m = "response_message 200 ''OK'' [(''a'', ''b'')] ''hi''"
  let ?q = "example_request (sock_on [Arrive ?m])"
  obtain s where s: "execute ?q = Some s" by (simp add: execute_def example_request_defs)
  have len: "length (to_string 200) = 3" by (simp add: to_string.simps)
  have "\<exists>t. rq_run (\<lambda>n. n) (replicate 6 no_error) s = Some t
    \<and> rq_callbacks t = [no_error] \<and> rq_escaped t = [] \<and> rq_pending t = []
    \<and> ts_out (rq_sock t) = request_message (rq_uri ?q) [(''Host'', CHR '' '' # rq_host ?q)]
    \<and> rs_status_code (rq_response t) = Some (of_nat 200)
    \<and> rs_status_message (rq_response t) = CHR '' '' # ''OK''
    \<and> rs_headers (rq_response t) = map_of (rev [(''a'', ''b'')])
    \<and> sb_data (rs_buf (rq_response t)) = ''hi''"
    by (rule http_client_receives [OF s, where net = "[Arrive ?m]"])
       (simp_all add: example_request_defs rq_fresh_def,
        simp add: response_message_def response_head_def header_line_def len)
  with s show ?thesis by auto
qed

subsection \<open>A response the client never gets over\<close>

text \<open>
  A failed stream leaves the line as it was, so once the stream has failed with a line that is not
  empty the loop repeats itself for ever.
\<close>

lemma response_headers_loop_stuck:
  assumes "\<not> stream_good is" and "header \<noteq> []"
  shows "response_headers_loop is header r = None"
proof (rule ccontr)
  assume "response_headers_loop is header r \<noteq> None"
  then obtain res where "response_headers_loop is header r = Some res" by auto
  then have "\<not> (\<not> stream_good is \<and> header \<noteq> [])"
  proof (rule response_headers_loop.raw_induct [rotated, where P = "\<lambda>is header r res. \<not> (\<not> stream_good is \<and> header \<noteq> [])"])
    fix loop "is" header r res
    assume IH: "\<And>is header r res. loop is header r = Some res \<Longrightarrow> \<not> (\<not> stream_good is \<and> header \<noteq> [])"
      and body: "(case getline_delim CR is header of (line, is1) \<Rightarrow>
          let is2 = stream_get is1 in
          if line = [] then Some (r, is2)
          else if CHR '':'' \<in> set line
          then let separator_pos = length (before CHR '':'' line);
                   header_name = take separator_pos line;
                   header_value = (if separator_pos < length line - 1
                                   then drop (separator_pos + 1) line else [])
               in loop is2 line (add_header header_name header_value r)
          else loop is2 line r) = Some res"
    show "\<not> (\<not> stream_good is \<and> header \<noteq> [])"
    proof
      assume bad: "\<not> stream_good is \<and> header \<noteq> []"
      then have g: "getline_delim CR is header = (header, is\<lparr>failbit := True\<rparr>)"
        by (simp add: getline_delim_def)
      have "\<not> stream_good (stream_get (is\<lparr>failbit := True\<rparr>))"
        by (simp add: stream_get_def stream_good_def)
      with bad IH have "loop (stream_get (is\<lparr>failbit := True\<rparr>)) header r' \<noteq> Some res" for r'
        by blast
      with bad body show False by (auto simp: g Let_def split: if_splits)
    qed
  qed
  with assms show False by simp
qed

lemma response_headers_loop_next:
  assumes "getline_delim CR is h = (line, is1)" and "line \<noteq> []"
  obtains r' where "response_headers_loop is h r = response_headers_loop (stream_get is1) line r'"
  using assms by (cases "CHR '':'' \<in> set line") (auto simp: response_headers_loop.simps [of "is"] Let_def)

lemma skipped_end_first:
  assumes "CR \<notin> set name"
  shows "first_at crlf2 (name @ CR # crlf2 @ body) (length name + 1)"
proof -
  let ?d = "name @ CR # crlf2 @ body"
  have "\<not> occurs_at crlf2 ?d j" if j: "j < length name + 1" for j
  proof
    assume o: "occurs_at crlf2 ?d j"
    from occurs_at_nth [OF o, of 0] occurs_at_nth [OF o, of 1]
    have d: "?d ! j = CR" "?d ! (j + 1) = NL" by simp_all
    from j consider "j < length name" | "j = length name" by linarith
    then show False
    proof cases
      case 1
      with d(1) have "name ! j = CR" by (simp add: nth_append)
      with 1 assms show False by (metis nth_mem)
    next
      case 2
      with d(2) show False by (simp add: nth_append)
    qed
  qed
  moreover have "occurs_at crlf2 ?d (length name + 1)" by (simp add: occurs_at_def)
  ultimately show ?thesis by (simp add: first_at_def)
qed

text \<open>
  a header line that ends in CR CR LF makes the loop step over the blank line: with a body that
  has no CR, the handler of a completed header read never returns, so the one I/O thread hangs and
  the callback is never called, although the read itself has found its two CRLFs.
\<close>

theorem http_client_header_loop_hangs:
  assumes "CR \<notin> set name" and "name \<noteq> []" and "CR \<notin> set body" and "body \<noteq> []"
    and "sb_data (rs_buf (rq_response q)) = name @ CR # crlf2 @ body"
  shows "first_at crlf2 (sb_data (rs_buf (rq_response q))) (length name + 1)
    \<and> on_response_headers_received no_error n q = None"
proof
  let ?d = "name @ CR # crlf2 @ body" and ?eof = "\<lparr>chars = [], eofbit = True, failbit = body = []\<rparr>"
  show "first_at crlf2 (sb_data (rs_buf (rq_response q))) (length name + 1)"
    unfolding assms(5) by (rule skipped_end_first [OF assms(1)])
  have g1: "getline_delim CR (istream_of ?d) [] = (name, istream_of (crlf2 @ body))"
    by (rule getline_hit [OF assms(1)])
  have g2: "getline_delim CR (istream_of ([NL] @ CR # NL # body)) name = ([NL], istream_of (NL # body))"
    by (rule getline_hit) simp
  obtain r1 where r1: "response_headers_loop (istream_of ?d) [] (rq_response q)
      = response_headers_loop (stream_get (istream_of (crlf2 @ body))) name r1"
    using response_headers_loop_next [OF g1 assms(2)] by blast
  obtain r2 where r2: "response_headers_loop (istream_of ([NL] @ CR # NL # body)) name r1
      = response_headers_loop (stream_get (istream_of (NL # body))) [NL] r2"
    using response_headers_loop_next [OF g2] by blast
  obtain r3 where r3: "response_headers_loop (istream_of body) [NL] r2
      = response_headers_loop (stream_get ?eof) body r3"
    using response_headers_loop_next [OF getline_miss [OF assms(3)] assms(4)] by blast
  have "\<not> stream_good (stream_get ?eof)"
    by (simp add: stream_get_def stream_good_def)
  from response_headers_loop_stuck [OF this assms(4)]
  show "on_response_headers_received no_error n q = None"
    using r1 r2 r3 by (simp add: on_response_headers_received_def assms(5) stream_get_Cons)
qed

theorem http_client_header_loop_hangs_witness:
  "on_response_headers_received no_error 6
     ((create_request 1 (sock_on []))\<lparr>rq_response := response_new\<lparr>rs_buf :=
        \<lparr>sb_data = ''a'' @ CR # crlf2 @ ''x'', sb_max = 2 ^ 64 - 1\<rparr>\<rparr>\<rparr>) = None"
  by (rule http_client_header_loop_hangs [of "''a''" "''x''", THEN conjunct2]) simp_all

end
