(* ===== verification/Http_System.thy ===== *)
theory Http_System
  imports Http_Client
begin

text \<open>
  The cookbook's HTTP client and server against each other: what one writes is what the other
  receives, cut into arrivals in any way.
\<close>

lemma unanswered_headers:
  assumes w: "rq_waits Read_response_headers crlf q"
  shows "\<exists>t. rq_complete cap e q = Some t \<and> rq_pending t = [] \<and> rq_callbacks t = [eof]
    \<and> rs_status_code (rq_response t) = rs_status_code (rq_response q)"
proof -
  from w have q: "rq_pending q = [Read_response_headers]" "rq_callbacks q = []"
    "no_fail (ts_in (rq_sock q))" "sb_max (rs_buf (rq_response q)) = 2 ^ 64 - 1"
    "sb_data (rs_buf (rq_response q)) @ net_data (ts_in (rq_sock q)) = crlf"
    by (simp_all add: rq_waits_def)
  have "length (sb_data (rs_buf (rq_response q))) \<le> length crlf"
    using q(5) by (metis le_add1 length_append)
  then have len: "length (sb_data (rs_buf (rq_response q))) \<le> sb_max (rs_buf (rq_response q))"
    using q(4) by simp
  obtain ec n b k where run:
    "sock_read_until_str cap crlf2 (rs_buf (rq_response q)) (rq_sock q) = (ec, n, b, k)"
    by (metis prod_cases4)
  have "\<forall>i. \<not> occurs_at crlf2 (take (2 ^ 64 - 1) crlf) i"
    by (auto dest: occurs_at_length)
  then have "read_until_outcome crlf2 (2 ^ 64 - 1) crlf = (eof, 0)"
    using outcome_missing [of crlf2 "2 ^ 64 - 1" crlf] by simp
  then have "ec = eof"
    using sock_read_until_outcome(1) [OF run _ len q(3)] unfolding q(4,5) by simp
  then show ?thesis
    using q(1,2) by (simp add: rq_complete_def rq_read_def run on_response_headers_received_def
        rq_on_finish_def)
qed

text \<open>A response with no header, such as each of the server's error replies.\<close>

lemma client_bare_response:
  assumes "execute q = Some s" and "rq_fresh q" and "rq_sock q = sock_on net" and "no_fail net"
    and "net_data net = response_head code msg @ crlf @ crlf"
    and "length (net_data net) < 2 ^ 64 - 1" and "CR \<notin> set msg" and "code < 2 ^ 32"
  shows "\<exists>t. rq_run cap (replicate 6 no_error) s = Some t \<and> rq_callbacks t = [eof]
    \<and> rs_status_code (rq_response t) = Some (of_nat code)"
proof -
  have six: "replicate 6 no_error = no_error # no_error # no_error # [no_error, no_error, no_error]"
    by (simp add: eval_nat_numeral)
  have m: "net_data net = response_message code msg [] []"
    using assms(5) by (simp add: response_message_def)
  obtain t1 where t1: "rq_run cap (replicate 6 no_error) s = rq_run cap [no_error, no_error, no_error] t1"
    "rq_waits Read_status_line (response_message code msg [] []) t1"
    using rq_connect_phase [OF assms(1,2), of cap "[no_error, no_error, no_error]"] assms(3,4,6) m
    unfolding six by auto
  obtain t2 where t2: "rq_complete cap no_error t1 = Some t2" "rq_waits Read_response_headers crlf t2"
    "rs_status_code (rq_response t2) = Some (of_nat code)"
    using rq_status_phase [OF t1(2) assms(7,8), of cap no_error] by auto
  obtain t3 where t3: "rq_complete cap no_error t2 = Some t3" "rq_pending t3 = []"
    "rq_callbacks t3 = [eof]" "rs_status_code (rq_response t3) = Some (of_nat code)"
    using unanswered_headers [OF t2(2), of cap no_error] t2(3) by auto
  moreover have "rq_pending t1 \<noteq> []" "rq_pending t2 \<noteq> []"
    using t1(2) t2(2) by (simp_all add: rq_waits_def)
  ultimately show ?thesis using t1(1) t2(1) by simp
qed

lemma example_fresh: "rq_fresh (example_request (sock_on net))"
  "rq_sock (example_request (sock_on net)) = sock_on net"
  "rq_uri (example_request (sock_on net)) = ''/index.html''"
  "rq_host (example_request (sock_on net)) = ''localhost''"
  "execute (example_request (sock_on net)) = Some (rq_start Resolve (example_request (sock_on net)))"
  by (simp_all add: example_request_defs rq_fresh_def execute_def unless_cancelled_def)

lemma ok_reply_message:
  "ok_reply body = Reply (response_message 200 ''OK'' [(''content-length'', '' '' @ to_string (length body))] body)"
proof -
  have "to_string 200 = ''200''" by code_simp
  then show ?thesis
    by (simp add: ok_reply_def response_message_def response_head_def header_line_Pair)
qed

text \<open>
  C2: end to end. When the client asks for a file the server has, and each side receives what the
  other has written, whatever the cutting into arrivals on both ways, the client's callback is
  called once with the clear error code and the response is status 200, the header content-length
  with the file's size, and the file.
\<close>

theorem http_get_end_to_end:
  assumes "execute q = Some s" and "rq_fresh q" and "rq_sock q = sock_on down" and "no_fail down"
    and "uri_wf (rq_uri q)"
    and "length (request_message (rq_uri q) [(''Host'', CHR '' '' # rq_host q)]) \<le> 4096"
    and "sane_files fs" and "fs (''.'' @ rq_uri q) = Opened (int (length body)) body"
    and "length body < 2 ^ 63"
    and "no_fail up" and "net_data up = request_message (rq_uri q) [(''Host'', CHR '' '' # rq_host q)]"
    and "svc_run fs cap 3 (svc_accepted (sock_on up)) = Some v"
    and "net_data down = ts_out (svc_sock v)"
  shows "\<exists>t. rq_run cap' (replicate 6 no_error) s = Some t
    \<and> ts_out (rq_sock t) = net_data up \<and> rq_callbacks t = [no_error]
    \<and> rs_status_code (rq_response t) = Some 200
    \<and> rs_headers (rq_response t) = [''content-length'' \<mapsto> '' '' @ to_string (length body)]
    \<and> sb_data (rs_buf (rq_response t)) = body"
proof -
  let ?h = "[(''content-length'', '' '' @ to_string (length body))]"
  let ?m = "response_message 200 ''OK'' ?h body"
  have "http_reply fs (net_data up) = resource_reply fs (rq_uri q)"
    using http_get_reply [OF assms(5) _ assms(6), of fs "[]"] assms(11) by simp
  also have "\<dots> = Reply ?m"
    using assms(8,9) by (simp add: resource_reply_def ok_reply_message)
  finally have "svc_outcome v = Reply ?m"
    using server_refines_reply [OF assms(7,10), of cap] assms(12) by auto
  then have down: "net_data down = ?m"
    using assms(13) by (auto simp: svc_outcome_def split: if_splits)
  have len: "length ?m < 2 ^ 64 - 1"
    using length_to_string [of "length body"] assms(9) length_to_string [of 200]
    by (simp add: response_message_def response_head_def header_line_Pair)
  have wf: "headers_wf ?h"
    using to_string_digits [of "length body"] isdigit_not_sign by (auto simp: headers_wf_def)
  show ?thesis
    using client_receives [OF assms(1-4) down len _ _ wf, of cap'] assms(11) by auto
qed


definition example_files :: "bytes \<Rightarrow> file_state" where
  "example_files p = (if p = ''./index.html'' then Opened 2 ''hi'' else Missing)"

lemma example_files_sane: "sane_files example_files" "example_files (''.'' @ ''/index.html'') = Opened 2 ''hi''"
  by (simp_all add: sane_files_def example_files_def)

definition example_upload :: net where
  "example_upload = [Arrive (request_message ''/index.html'' [(''Host'', '' localhost'')])]"

lemma example_upload_data: "no_fail example_upload"
  "net_data example_upload = request_message ''/index.html'' [(''Host'', '' localhost'')]"
  by (simp_all add: example_upload_def)

lemma example_request_length:
  "length (request_message ''/index.html'' [(''Host'', '' localhost'')]) \<le> 4096"
  by (simp add: request_message_def request_line_def header_line_def)

theorem http_get_end_to_end_witness:
  "\<exists>v t. svc_run example_files (\<lambda>n. n) 3 (svc_accepted (sock_on example_upload)) = Some v
    \<and> rq_run (\<lambda>n. n) (replicate 6 no_error)
        (rq_start Resolve (example_request (sock_on [Arrive (ts_out (svc_sock v))]))) = Some t
    \<and> rq_callbacks t = [no_error] \<and> sb_data (rs_buf (rq_response t)) = ''hi''"
proof -
  obtain v where v: "svc_run example_files (\<lambda>n. n) 3 (svc_accepted (sock_on example_upload)) = Some v"
    using server_refines_reply [OF example_files_sane(1) example_upload_data(1), of "\<lambda>n. n"] by blast
  let ?q = "example_request (sock_on [Arrive (ts_out (svc_sock v))])"
  have uri: "uri_wf (rq_uri ?q)" by (simp add: example_fresh uri_wf_def isspace_def)
  have "\<exists>t. rq_run (\<lambda>n. n) (replicate 6 no_error) (rq_start Resolve ?q) = Some t
    \<and> ts_out (rq_sock t) = net_data example_upload \<and> rq_callbacks t = [no_error]
    \<and> rs_status_code (rq_response t) = Some 200
    \<and> rs_headers (rq_response t) = [''content-length'' \<mapsto> '' '' @ to_string (length ''hi'')]
    \<and> sb_data (rs_buf (rq_response t)) = ''hi''"
    by (rule http_get_end_to_end [OF example_fresh(5,1,2) _ uri _ example_files_sane(1) _ _
          example_upload_data(1) _ v])
      (use example_request_length in \<open>simp_all add: example_fresh example_files_def example_upload_data(2)\<close>)
  with v show ?thesis by blast
qed

text \<open>
  end to end, for a file the server does not have: the server's 404 reply has no header, so the
  empty line the client reads for after the status line never comes, and the client's callback is
  called with end of file instead of the status it has already stored.
\<close>

theorem http_missing_file_reported_as_eof:
  assumes "execute q = Some s" and "rq_fresh q" and "rq_sock q = sock_on down" and "no_fail down"
    and "uri_wf (rq_uri q)"
    and "length (request_message (rq_uri q) [(''Host'', CHR '' '' # rq_host q)]) \<le> 4096"
    and "sane_files fs" and "fs (''.'' @ rq_uri q) = Missing"
    and "no_fail up" and "net_data up = request_message (rq_uri q) [(''Host'', CHR '' '' # rq_host q)]"
    and "svc_run fs cap 3 (svc_accepted (sock_on up)) = Some v"
    and "net_data down = ts_out (svc_sock v)"
  shows "\<exists>t. rq_run cap' (replicate 6 no_error) s = Some t
    \<and> rq_callbacks t = [eof] \<and> rs_status_code (rq_response t) = Some 404"
proof -
  let ?m = "response_head 404 ''Not Found'' @ crlf @ crlf"
  have digits: "to_string 404 = ''404''" by code_simp
  have "http_reply fs (net_data up) = resource_reply fs (rq_uri q)"
    using http_get_reply [OF assms(5) _ assms(6), of fs "[]"] assms(10) by simp
  also have "\<dots> = Reply ?m"
    using assms(8) by (simp add: resource_reply_def error_reply_def response_head_def digits)
  finally have "svc_outcome v = Reply ?m"
    using server_refines_reply [OF assms(7,9), of cap] assms(11) by auto
  then have down: "net_data down = ?m"
    using assms(12) by (auto simp: svc_outcome_def split: if_splits)
  then have len: "length (net_data down) < 2 ^ 64 - 1"
    by (simp add: response_head_def digits)
  show ?thesis
    using client_bare_response [OF assms(1-4) down len, of cap'] by simp
qed

theorem http_missing_file_reported_as_eof_witness:
  "\<exists>v t. svc_run (\<lambda>p. Missing) (\<lambda>n. n) 3 (svc_accepted (sock_on example_upload)) = Some v
    \<and> rq_run (\<lambda>n. n) (replicate 6 no_error)
        (rq_start Resolve (example_request (sock_on [Arrive (ts_out (svc_sock v))]))) = Some t
    \<and> rq_callbacks t = [eof] \<and> rs_status_code (rq_response t) = Some 404"
proof -
  have sane: "sane_files (\<lambda>p. Missing)" by (simp add: sane_files_def)
  obtain v where v: "svc_run (\<lambda>p. Missing) (\<lambda>n. n) 3 (svc_accepted (sock_on example_upload)) = Some v"
    using server_refines_reply [OF sane example_upload_data(1), of "\<lambda>n. n"] by blast
  let ?q = "example_request (sock_on [Arrive (ts_out (svc_sock v))])"
  have uri: "uri_wf (rq_uri ?q)" by (simp add: example_fresh uri_wf_def isspace_def)
  have "\<exists>t. rq_run (\<lambda>n. n) (replicate 6 no_error) (rq_start Resolve ?q) = Some t
    \<and> rq_callbacks t = [eof] \<and> rs_status_code (rq_response t) = Some 404"
    by (rule http_missing_file_reported_as_eof [OF example_fresh(5,1,2) _ uri _ sane _
          example_upload_data(1) _ v])
      (use example_request_length in \<open>simp_all add: example_fresh example_upload_data(2)\<close>)
  with v show ?thesis by blast
qed

end
