(* ===== verification/Tcp_Client.thy ===== *)
theory Tcp_Client
  imports Asio_Socket
begin

text \<open>
  The cancellable TCP client of the cookbook (ch03/AsyncTCPClientMT.cpp; AsyncTCPClient.cpp is the
  same with one thread): its sessions, the map of active sessions, the three handlers of a request,
  cancellation, and the mutexes. A session is named by its index in the list of all sessions ever
  created, which stands for the shared pointer.
\<close>

subsection \<open>State\<close>

datatype as_op = As_connect | As_write bytes | As_read

record session =
  as_sock :: tcp_sock
  as_request :: bytes
  as_response_buf :: streambuf
  as_response :: bytes
  as_ec :: error_code
  as_id :: u32
  as_was_cancelled :: bool
  as_pending :: "as_op list"
  as_calls :: "(u32 \<times> bytes \<times> error_code) list"

definition session_new :: "tcp_sock \<Rightarrow> bytes \<Rightarrow> u32 \<Rightarrow> session" where
  "session_new sock request ident =
     \<lparr>as_sock = sock, as_request = request, as_response_buf = streambuf_new, as_response = [],
      as_ec = no_error, as_id = ident, as_was_cancelled = False, as_pending = [], as_calls = []\<rparr>"

record tcp_client =
  cl_sessions :: "session list"
  cl_active :: "u32 \<rightharpoonup> nat"

definition client_new :: tcp_client where
  "client_new = \<lparr>cl_sessions = [], cl_active = Map.empty\<rparr>"

definition session_at :: "tcp_client \<Rightarrow> nat \<Rightarrow> session" where
  "session_at c i = cl_sessions c ! i"

definition set_session :: "nat \<Rightarrow> session \<Rightarrow> tcp_client \<Rightarrow> tcp_client" where
  "set_session i s c = c\<lparr>cl_sessions := (cl_sessions c)[i := s]\<rparr>"

definition as_start :: "as_op \<Rightarrow> session \<Rightarrow> session" where
  "as_start op s = s\<lparr>as_pending := as_pending s @ [op]\<rparr>"

subsection \<open>Operations and handlers\<close>

definition emulateLongComputationOp :: "u32 \<Rightarrow> tcp_sock \<Rightarrow> u32 \<Rightarrow> tcp_client \<Rightarrow> tcp_client" where
  "emulateLongComputationOp duration_sec sock request_id c =
     (let request = ''EMULATE_LONG_CALC_OP '' @ to_string (unat duration_sec) @ [NL];
          session = session_new sock request request_id;
          c1 = c\<lparr>cl_sessions := cl_sessions c @ [session]\<rparr>;
          i = length (cl_sessions c);
          c2 = c1\<lparr>cl_active := (cl_active c1)(request_id \<mapsto> i)\<rparr>
      in set_session i (as_start As_connect (session_at c2 i)) c2)"

text \<open>\<open>m_sock.cancel()\<close> shows in the error code of a completion, the environment's choice.\<close>

definition cancelRequest :: "u32 \<Rightarrow> tcp_client \<Rightarrow> tcp_client" where
  "cancelRequest request_id c =
     (case cl_active c request_id of
        None \<Rightarrow> c
      | Some i \<Rightarrow> set_session i ((session_at c i)\<lparr>as_was_cancelled := True\<rparr>) c)"

definition onRequestComplete :: "nat \<Rightarrow> tcp_client \<Rightarrow> tcp_client" where
  "onRequestComplete i c =
     (let s = session_at c i;
          (ignored_ec, k) = sock_shutdown (as_sock s);
          s1 = s\<lparr>as_sock := k\<rparr>;
          active = (if cl_active c (as_id s1) = None then cl_active c
                    else (cl_active c)(as_id s1 := None));
          ec = (if \<not> ec_set (as_ec s1) \<and> as_was_cancelled s1 then operation_aborted else as_ec s1);
          s2 = s1\<lparr>as_calls := as_calls s1 @ [(as_id s1, as_response s1, ec)]\<rparr>
      in (set_session i s2 c)\<lparr>cl_active := active\<rparr>)"

definition as_fail :: "nat \<Rightarrow> error_code \<Rightarrow> tcp_client \<Rightarrow> tcp_client" where
  "as_fail i ec c = onRequestComplete i (set_session i ((session_at c i)\<lparr>as_ec := ec\<rparr>) c)"

definition on_connected :: "nat \<Rightarrow> error_code \<Rightarrow> tcp_client \<Rightarrow> tcp_client" where
  "on_connected i ec c =
     (if ec_set ec then as_fail i ec c
      else if as_was_cancelled (session_at c i) then onRequestComplete i c
      else set_session i (as_start (As_write (as_request (session_at c i))) (session_at c i)) c)"

definition on_written :: "nat \<Rightarrow> error_code \<Rightarrow> nat \<Rightarrow> tcp_client \<Rightarrow> tcp_client" where
  "on_written i ec n c =
     (if ec_set ec then as_fail i ec c
      else if as_was_cancelled (session_at c i) then onRequestComplete i c
      else set_session i (as_start As_read (session_at c i)) c)"

definition on_response :: "nat \<Rightarrow> error_code \<Rightarrow> nat \<Rightarrow> tcp_client \<Rightarrow> tcp_client" where
  "on_response i ec n c =
     (if ec_set ec then as_fail i ec c
      else
        let s = session_at c i;
            (response, strm) = getline_delim NL (istream_of (sb_data (as_response_buf s))) (as_response s);
            s1 = s\<lparr>as_response := response,
                   as_response_buf := (as_response_buf s)\<lparr>sb_data := chars strm\<rparr>\<rparr>
        in onRequestComplete i (set_session i s1 c))"

text \<open>The completion of the operation a session has in flight; \<open>e\<close> is the result of connecting.\<close>

definition cl_complete :: "(nat \<Rightarrow> nat) \<Rightarrow> error_code \<Rightarrow> nat \<Rightarrow> tcp_client \<Rightarrow> tcp_client option" where
  "cl_complete cap e i c =
     (if length (cl_sessions c) \<le> i then None
      else let s = session_at c i in
      case as_pending s of
        [] \<Rightarrow> None
      | As_connect # ops \<Rightarrow> Some (on_connected i e (set_session i (s\<lparr>as_pending := ops\<rparr>) c))
      | As_write bs # ops \<Rightarrow>
          (case write_all bs (as_sock s) of
             (ec, n, k) \<Rightarrow> Some (on_written i ec n (set_session i (s\<lparr>as_pending := ops, as_sock := k\<rparr>) c)))
      | As_read # ops \<Rightarrow>
          (case sock_read_until_char cap NL (as_response_buf s) (as_sock s) of
             (ec, n, b, k) \<Rightarrow> Some (on_response i ec n
               (set_session i (s\<lparr>as_pending := ops, as_response_buf := b, as_sock := k\<rparr>) c))))"

inductive cl_step :: "(nat \<Rightarrow> nat) \<Rightarrow> tcp_client \<Rightarrow> tcp_client \<Rightarrow> bool" for cap where
  Cl_request: "cl_step cap c (emulateLongComputationOp duration sock ident c)"
| Cl_cancel: "cl_step cap c (cancelRequest ident c)"
| Cl_completion: "cl_complete cap e i c = Some t \<Longrightarrow> cl_step cap c t"

inductive_cases cl_stepE: "cl_step cap c t"

subsection \<open>One session of the client\<close>

text \<open>
  The handlers seen from the session they belong to: what becomes of it does not depend on the
  others. This is the abstraction the registry lemmas use.
\<close>

definition session_complete :: "session \<Rightarrow> session" where
  "session_complete s =
     (let s1 = s\<lparr>as_sock := snd (sock_shutdown (as_sock s))\<rparr>;
          ec = (if \<not> ec_set (as_ec s1) \<and> as_was_cancelled s1 then operation_aborted else as_ec s1)
      in s1\<lparr>as_calls := as_calls s1 @ [(as_id s1, as_response s1, ec)]\<rparr>)"

lemma session_at_set [simp]:
  "i < length (cl_sessions c) \<Longrightarrow> session_at (set_session i s c) j = (if j = i then s else session_at c j)"
  by (auto simp: session_at_def set_session_def nth_list_update)

lemma set_session_length [simp]: "length (cl_sessions (set_session i s c)) = length (cl_sessions c)"
  by (simp add: set_session_def)

lemma set_session_active [simp]: "cl_active (set_session i s c) = cl_active c"
  by (simp add: set_session_def)

lemma set_session_twice [simp]: "set_session i s (set_session i s' c) = set_session i s c"
  by (simp add: set_session_def)

lemma onRequestComplete_eq:
  "onRequestComplete i c =
     (set_session i (session_complete (session_at c i)) c)\<lparr>cl_active := (cl_active c)(as_id (session_at c i) := None)\<rparr>"
  by (auto simp: onRequestComplete_def session_complete_def Let_def fun_upd_idem split: prod.split)


definition session_go_on :: "error_code \<Rightarrow> as_op \<Rightarrow> session \<Rightarrow> session \<times> bool" where
  "session_go_on ec op s =
     (if ec_set ec then (session_complete (s\<lparr>as_ec := ec\<rparr>), True)
      else if as_was_cancelled s then (session_complete s, True)
      else (as_start op s, False))"

definition session_response :: "error_code \<Rightarrow> session \<Rightarrow> session \<times> bool" where
  "session_response ec s =
     (if ec_set ec then (session_complete (s\<lparr>as_ec := ec\<rparr>), True)
      else case getline_delim NL (istream_of (sb_data (as_response_buf s))) (as_response s) of
        (response, strm) \<Rightarrow>
          (session_complete (s\<lparr>as_response := response,
             as_response_buf := (as_response_buf s)\<lparr>sb_data := chars strm\<rparr>\<rparr>), True))"

definition session_turn :: "(nat \<Rightarrow> nat) \<Rightarrow> error_code \<Rightarrow> session \<Rightarrow> (session \<times> bool) option" where
  "session_turn cap e s =
     (case as_pending s of
        [] \<Rightarrow> None
      | As_connect # ops \<Rightarrow>
          Some (session_go_on e (As_write (as_request s)) (s\<lparr>as_pending := ops\<rparr>))
      | As_write bs # ops \<Rightarrow>
          (case write_all bs (as_sock s) of
             (ec, n, k) \<Rightarrow> Some (session_go_on ec As_read (s\<lparr>as_pending := ops, as_sock := k\<rparr>)))
      | As_read # ops \<Rightarrow>
          (case sock_read_until_char cap NL (as_response_buf s) (as_sock s) of
             (ec, n, b, k) \<Rightarrow>
               Some (session_response ec (s\<lparr>as_pending := ops, as_response_buf := b, as_sock := k\<rparr>))))"

definition settle :: "nat \<Rightarrow> session \<times> bool \<Rightarrow> tcp_client \<Rightarrow> tcp_client" where
  "settle i r c =
     (if snd r then (set_session i (fst r) c)\<lparr>cl_active := (cl_active c)(as_id (session_at c i) := None)\<rparr>
      else set_session i (fst r) c)"

lemma session_complete_sel [simp]:
  "as_id (session_complete s) = as_id s" "as_pending (session_complete s) = as_pending s"
  "as_was_cancelled (session_complete s) = as_was_cancelled s"
  by (simp_all add: session_complete_def Let_def)

lemma cl_complete_eq:
  assumes "i < length (cl_sessions c)"
  shows "cl_complete cap e i c = map_option (\<lambda>r. settle i r c) (session_turn cap e (session_at c i))"
proof (cases "as_pending (session_at c i)")
  case Nil
  with assms show ?thesis by (simp add: cl_complete_def session_turn_def)
next
  case (Cons op ops)
  with assms show ?thesis
    by (cases op)
      (auto simp: cl_complete_def session_turn_def session_go_on_def session_response_def settle_def
        on_connected_def on_written_def on_response_def as_fail_def onRequestComplete_eq Let_def
        split: prod.split)
qed

text \<open>
  The effect of a turn on the counts and the result of a turn that ends the session.
\<close>

fun as_op_work :: "as_op \<Rightarrow> nat" where
  "as_op_work As_connect = 3"
| "as_op_work (As_write bs) = 2"
| "as_op_work As_read = 1"

definition as_balance :: "session \<Rightarrow> nat" where
  "as_balance s = length (as_pending s) + length (as_calls s)"

definition as_work :: "session \<Rightarrow> nat" where
  "as_work s = sum_list (map as_op_work (as_pending s))"

lemma session_turn_counts:
  assumes "session_turn cap e s = Some (s', ended)"
  shows "as_balance s' = as_balance s \<and> as_work s' < as_work s \<and> as_id s' = as_id s
    \<and> as_was_cancelled s' = as_was_cancelled s
    \<and> length (as_calls s') = length (as_calls s) + (if ended then 1 else 0)"
  using assms
  by (auto simp: session_turn_def session_go_on_def session_response_def as_start_def
      session_complete_def as_balance_def as_work_def Let_def
      split: list.splits as_op.splits prod.splits if_splits)

lemma session_turn_cancelled:
  assumes "session_turn cap e s = Some (s', ended)" and "as_was_cancelled s"
    and "\<forall>call \<in> set (as_calls s). ec_set (snd (snd call))"
  shows "\<forall>call \<in> set (as_calls s'). ec_set (snd (snd call))"
  using assms
  by (auto simp: session_turn_def session_go_on_def session_response_def as_start_def
      session_complete_def Let_def
      split: list.splits as_op.splits prod.splits if_splits)


subsection \<open>All sessions and the registry\<close>

lemma settle_session [simp]:
  "i < length (cl_sessions c) \<Longrightarrow> session_at (settle i r c) j = (if j = i then fst r else session_at c j)"
  "length (cl_sessions (settle i r c)) = length (cl_sessions c)"
proof -
  have ext: "session_at (c\<lparr>cl_active := a\<rparr>) j = session_at c j" for c :: tcp_client and a j
    by (simp add: session_at_def)
  show "i < length (cl_sessions c) \<Longrightarrow> session_at (settle i r c) j = (if j = i then fst r else session_at c j)"
    by (simp add: settle_def ext)
  show "length (cl_sessions (settle i r c)) = length (cl_sessions c)" by (simp add: settle_def)
qed

lemma emulate_sessions:
  "length (cl_sessions (emulateLongComputationOp d k ident c)) = Suc (length (cl_sessions c))"
  "j \<le> length (cl_sessions c) \<Longrightarrow> session_at (emulateLongComputationOp d k ident c) j =
     (if j = length (cl_sessions c)
      then as_start As_connect (session_new k (''EMULATE_LONG_CALC_OP '' @ to_string (unat d) @ [NL]) ident)
      else session_at c j)"
  "cl_active (emulateLongComputationOp d k ident c) = (cl_active c)(ident \<mapsto> length (cl_sessions c))"
  by (auto simp: emulateLongComputationOp_def Let_def session_at_def set_session_def nth_append nth_list_update)

lemma cancel_sessions:
  "length (cl_sessions (cancelRequest ident c)) = length (cl_sessions c)"
  "cl_active (cancelRequest ident c) = cl_active c"
  by (simp_all add: cancelRequest_def split: option.split)

lemma cl_complete_settles:
  "cl_complete cap e i c = Some t \<Longrightarrow>
   \<exists>s' ended. i < length (cl_sessions c) \<and> session_turn cap e (session_at c i) = Some (s', ended)
     \<and> t = settle i (s', ended) c"
  by (cases "i < length (cl_sessions c)") (auto simp: cl_complete_eq, simp add: cl_complete_def)

definition client_inv :: "tcp_client \<Rightarrow> bool" where
  "client_inv c \<longleftrightarrow>
     (\<forall>i < length (cl_sessions c). as_balance (session_at c i) = 1)
     \<and> (\<forall>ident i. cl_active c ident = Some i \<longrightarrow>
          i < length (cl_sessions c) \<and> as_id (session_at c i) = ident)"

definition registry_exact :: "tcp_client \<Rightarrow> bool" where
  "registry_exact c \<longleftrightarrow>
     (\<forall>ident i. cl_active c ident = Some i \<longleftrightarrow>
        i < length (cl_sessions c) \<and> as_id (session_at c i) = ident \<and> as_calls (session_at c i) = [])"

definition distinct_ids :: "tcp_client \<Rightarrow> bool" where
  "distinct_ids c \<longleftrightarrow>
     (\<forall>i < length (cl_sessions c). \<forall>j < length (cl_sessions c).
        as_id (session_at c i) = as_id (session_at c j) \<longrightarrow> i = j)"

lemma new_session_sel [simp]:
  "as_balance (as_start As_connect (session_new k r ident)) = 1"
  "as_id (as_start As_connect (session_new k r ident)) = ident"
  "as_calls (as_start As_connect (session_new k r ident)) = []"
  by (simp_all add: as_start_def session_new_def as_balance_def)

lemma client_inv_request: "client_inv c \<Longrightarrow> client_inv (emulateLongComputationOp d k ident c)"
  by (fastforce simp: client_inv_def emulate_sessions less_Suc_eq split: if_splits)

lemma cancel_session_at:
  assumes "client_inv c"
  shows "session_at (cancelRequest ident c) j =
    (if cl_active c ident = Some j then (session_at c j)\<lparr>as_was_cancelled := True\<rparr> else session_at c j)"
  using assms by (auto simp: cancelRequest_def client_inv_def split: option.split)

lemma client_inv_cancel: "client_inv c \<Longrightarrow> client_inv (cancelRequest ident c)"
proof -
  assume inv: "client_inv c"
  have bal: "as_balance (s\<lparr>as_was_cancelled := True\<rparr>) = as_balance s" for s
    by (simp add: as_balance_def)
  show ?thesis
    using inv unfolding client_inv_def cancel_sessions cancel_session_at [OF inv] by (auto simp: bal)
qed

lemma settle_active: "cl_active (settle i (s', ended) c) =
    (if ended then (cl_active c)(as_id (session_at c i) := None) else cl_active c)"
  by (simp add: settle_def)

lemma client_inv_settle:
  assumes "client_inv c" and "i < length (cl_sessions c)"
    and "session_turn cap e (session_at c i) = Some (s', ended)"
  shows "client_inv (settle i (s', ended) c)"
  using assms session_turn_counts [OF assms(3)]
  by (auto simp: client_inv_def settle_active split: if_splits)

lemma cl_step_inv: "cl_step cap c t \<Longrightarrow> client_inv c \<Longrightarrow> client_inv t"
  by (erule cl_stepE)
     (auto simp: client_inv_request client_inv_cancel dest!: cl_complete_settles intro: client_inv_settle)

lemma client_new_inv [simp]: "client_inv client_new" "registry_exact client_new"
  by (simp_all add: client_inv_def registry_exact_def client_new_def)

lemma cl_reachable_inv: "(cl_step cap)\<^sup>*\<^sup>* client_new c \<Longrightarrow> client_inv c"
  by (induction rule: rtranclp_induct) (auto dest: cl_step_inv)

text \<open>
  whatever requests, cancellations and completions happen in whatever order, each request's
  callback is called at most once, and it has been called exactly when the request has no operation
  in flight any more.
\<close>

theorem tcp_client_calls_back_once:
  assumes "(cl_step cap)\<^sup>*\<^sup>* client_new c" and "i < length (cl_sessions c)"
  shows "length (as_calls (session_at c i)) \<le> 1
    \<and> (as_calls (session_at c i) = [] \<longleftrightarrow> as_pending (session_at c i) \<noteq> [])"
proof -
  have "length (as_pending (session_at c i)) + length (as_calls (session_at c i)) = 1"
    using cl_reachable_inv [OF assms(1)] assms(2) by (simp add: client_inv_def as_balance_def)
  then show ?thesis by (cases "as_pending (session_at c i)") auto
qed

theorem tcp_client_calls_back_once_witness:
  "length (as_calls (session_at (emulateLongComputationOp 10 (sock_on []) 1 client_new) 0)) \<le> 1
    \<and> (as_calls (session_at (emulateLongComputationOp 10 (sock_on []) 1 client_new) 0) = []
       \<longleftrightarrow> as_pending (session_at (emulateLongComputationOp 10 (sock_on []) 1 client_new) 0) \<noteq> [])"
proof (rule tcp_client_calls_back_once)
  show "(cl_step (\<lambda>n. n))\<^sup>*\<^sup>* client_new (emulateLongComputationOp 10 (sock_on []) 1 client_new)"
    by (rule r_into_rtranclp) (rule Cl_request)
qed (simp add: emulate_sessions)


lemma registry_request:
  assumes "client_inv c" and "registry_exact c" and "distinct_ids (emulateLongComputationOp d k ident c)"
  shows "registry_exact (emulateLongComputationOp d k ident c)"
proof -
  let ?c = "emulateLongComputationOp d k ident c" and ?n = "length (cl_sessions c)"
  have new: "as_id (session_at c i) \<noteq> ident" if "i < ?n" for i
  proof -
    have "i < length (cl_sessions ?c)" "?n < length (cl_sessions ?c)"
      using that by (simp_all add: emulate_sessions)
    with assms(3) have "as_id (session_at ?c i) = as_id (session_at ?c ?n) \<longrightarrow> i = ?n"
      unfolding distinct_ids_def by blast
    with that show ?thesis by (simp add: emulate_sessions)
  qed
  have reg: "cl_active c x = Some i \<longleftrightarrow> i < ?n \<and> as_id (session_at c i) = x \<and> as_calls (session_at c i) = []"
    for x i using assms(2) by (simp add: registry_exact_def)
  show ?thesis
    using new reg unfolding registry_exact_def
    by (auto simp: emulate_sessions less_Suc_eq split: if_splits)
qed

lemma registry_cancel: "client_inv c \<Longrightarrow> registry_exact c \<Longrightarrow> registry_exact (cancelRequest ident c)"
  unfolding registry_exact_def by (auto simp: cancel_sessions cancel_session_at split: if_splits)

lemma registry_settle:
  assumes "client_inv c" and "registry_exact c" and "distinct_ids c" and "i < length (cl_sessions c)"
    and turn: "session_turn cap e (session_at c i) = Some (s', ended)"
  shows "registry_exact (settle i (s', ended) c)"
proof -
  note counts = session_turn_counts [OF turn]
  have "as_pending (session_at c i) \<noteq> []" using turn by (auto simp: session_turn_def)
  then have none: "as_calls (session_at c i) = []"
    using assms(1,4) by (cases "as_pending (session_at c i)") (auto simp: client_inv_def as_balance_def)
  have same: "j = i" if "j < length (cl_sessions c)" "as_id (session_at c j) = as_id (session_at c i)" for j
    using assms(3,4) that by (auto simp: distinct_ids_def)
  have reg: "cl_active c x = Some j \<longleftrightarrow> j < length (cl_sessions c) \<and> as_id (session_at c j) = x
      \<and> as_calls (session_at c j) = []" for x j
    using assms(2) by (simp add: registry_exact_def)
  show ?thesis
    using counts none same reg assms(4) unfolding registry_exact_def
    by (cases ended) (auto simp: settle_active)
qed

lemma distinct_ids_back:
  assumes "cl_step cap c t" and "client_inv c" and "distinct_ids t"
  shows "distinct_ids c"
  using assms
proof (cases rule: cl_step.cases)
  case (Cl_request d k ident)
  then show ?thesis using assms(3) unfolding distinct_ids_def
    by (auto simp: emulate_sessions less_Suc_eq)
next
  case (Cl_cancel ident)
  have "as_id (session_at t j) = as_id (session_at c j)" for j
    unfolding Cl_cancel cancel_session_at [OF assms(2)] by simp
  then show ?thesis using assms(3) Cl_cancel by (simp add: distinct_ids_def cancel_sessions)
next
  case (Cl_completion e i)
  then obtain s' ended where s: "i < length (cl_sessions c)"
    "session_turn cap e (session_at c i) = Some (s', ended)" "t = settle i (s', ended) c"
    using cl_complete_settles by blast
  then have "as_id (session_at t j) = as_id (session_at c j)" for j
    using session_turn_counts [OF s(2)] by simp
  then show ?thesis using assms(3) s(3) by (simp add: distinct_ids_def)
qed

text \<open>
  C28: as long as no request number is used twice, the map of active sessions holds exactly the
  requests whose callback has not been called: every outstanding request can be cancelled, and no
  finished session is kept alive.
\<close>

theorem tcp_client_registry_exact:
  assumes "(cl_step cap)\<^sup>*\<^sup>* client_new c" and "distinct_ids c"
  shows "cl_active c ident = Some i \<longleftrightarrow>
    i < length (cl_sessions c) \<and> as_id (session_at c i) = ident \<and> as_calls (session_at c i) = []"
proof -
  from assms have "registry_exact c"
  proof (induction rule: rtranclp_induct)
    case base
    show ?case by simp
  next
    case (step c t)
    note inv = cl_reachable_inv [OF step(1)]
    note dist = distinct_ids_back [OF step(2) inv step(4)]
    from step(2) step(3) [OF dist] inv step(4) dist show ?case
      by (auto elim!: cl_stepE dest!: cl_complete_settles
          intro: registry_request registry_cancel registry_settle)
  qed
  then show ?thesis by (simp add: registry_exact_def)
qed

theorem tcp_client_registry_exact_witness:
  "cl_active (emulateLongComputationOp 10 (sock_on []) 1 client_new) 1 = Some 0 \<longleftrightarrow>
     0 < length (cl_sessions (emulateLongComputationOp 10 (sock_on []) 1 client_new))
     \<and> as_id (session_at (emulateLongComputationOp 10 (sock_on []) 1 client_new) 0) = 1
     \<and> as_calls (session_at (emulateLongComputationOp 10 (sock_on []) 1 client_new) 0) = []"
proof (rule tcp_client_registry_exact)
  show "(cl_step (\<lambda>n. n))\<^sup>*\<^sup>* client_new (emulateLongComputationOp 10 (sock_on []) 1 client_new)"
    by (rule r_into_rtranclp) (rule Cl_request)
  show "distinct_ids (emulateLongComputationOp 10 (sock_on []) 1 client_new)"
    by (simp add: distinct_ids_def emulate_sessions client_new_def)
qed

text \<open>
  once \<open>cancelRequest\<close> has found a request, its callback gets an error, whatever completes
  afterwards and even if the response itself arrives.
\<close>

theorem tcp_client_cancel_reports_error:
  assumes "client_inv c" and "cl_active c ident = Some i" and "as_calls (session_at c i) = []"
    and "(cl_step cap)\<^sup>*\<^sup>* (cancelRequest ident c) t"
  shows "\<forall>call \<in> set (as_calls (session_at t i)). ec_set (snd (snd call))"
proof -
  let ?P = "\<lambda>t. client_inv t \<and> i < length (cl_sessions t) \<and> as_was_cancelled (session_at t i)
    \<and> (\<forall>call \<in> set (as_calls (session_at t i)). ec_set (snd (snd call)))"
  from assms(4) have "?P t"
  proof (induction rule: rtranclp_induct)
    case base
    show ?case using assms(1-3) client_inv_cancel [OF assms(1), of ident]
      by (auto simp: cancel_sessions cancel_session_at client_inv_def)
  next
    case (step c t)
    note inv = cl_step_inv [OF step(2)]
    from step(2) show ?case
    proof (cases rule: cl_step.cases)
      case (Cl_request d k ident)
      with step(3) inv show ?thesis by (auto simp: emulate_sessions)
    next
      case (Cl_cancel ident)
      with step(3) inv show ?thesis by (auto simp: cancel_sessions cancel_session_at)
    next
      case (Cl_completion e j)
      then obtain s' ended where s: "j < length (cl_sessions c)"
        "session_turn cap e (session_at c j) = Some (s', ended)" "t = settle j (s', ended) c"
        using cl_complete_settles by blast
      with step(3) inv session_turn_counts [OF s(2)] session_turn_cancelled [OF s(2)]
      show ?thesis by auto
    qed
  qed
  then show ?thesis by simp
qed


lemma one_request_inv:
  "client_inv (emulateLongComputationOp d k ident client_new)"
  "cl_active (emulateLongComputationOp d k ident client_new) ident = Some 0"
  "as_calls (session_at (emulateLongComputationOp d k ident client_new) 0) = []"
  "as_pending (session_at (emulateLongComputationOp d k ident client_new) 0) = [As_connect]"
  "length (cl_sessions (emulateLongComputationOp d k ident client_new)) = 1"
  using client_inv_request [OF client_new_inv(1)]
  by (simp_all add: emulate_sessions as_start_def session_new_def client_new_def)

theorem tcp_client_cancel_reports_error_witness:
  "\<exists>t. (cl_step (\<lambda>n. n))\<^sup>*\<^sup>* (cancelRequest 1 (emulateLongComputationOp 10 (sock_on []) 1 client_new)) t
    \<and> as_calls (session_at t 0) \<noteq> []
    \<and> (\<forall>call \<in> set (as_calls (session_at t 0)). ec_set (snd (snd call)))"
proof -
  let ?c = "cancelRequest 1 (emulateLongComputationOp 10 (sock_on []) 1 client_new)"
  note one = one_request_inv [where d = 10 and k = "sock_on []" and ident = 1]
  have s: "session_at ?c 0 = (session_at (emulateLongComputationOp 10 (sock_on []) 1 client_new) 0)\<lparr>as_was_cancelled := True\<rparr>"
    using one(2) by (simp add: cancel_session_at [OF one(1)])
  then obtain s' where turn: "session_turn (\<lambda>n. n) no_error (session_at ?c 0) = Some (s', True)"
    using one(4) by (simp add: session_turn_def session_go_on_def)
  let ?t = "settle 0 (s', True) ?c"
  have len: "0 < length (cl_sessions ?c)" using one(5) by (simp add: cancel_sessions)
  have "cl_complete (\<lambda>n. n) no_error 0 ?c = Some ?t"
    using turn by (simp add: cl_complete_eq [OF len])
  then have run: "(cl_step (\<lambda>n. n))\<^sup>*\<^sup>* ?c ?t" by (intro r_into_rtranclp Cl_completion)
  moreover have "as_calls (session_at ?t 0) \<noteq> []"
    using session_turn_counts [OF turn] len by auto
  ultimately show ?thesis
    using tcp_client_cancel_reports_error [OF one(1-3) run] by blast
qed

text \<open>
  a request number used again while the first request is in flight: when the first one ends it
  takes the second one's entry out of the map, so the second request is in flight and no longer
  known, and cancelling it does nothing.
\<close>

theorem tcp_client_reused_id_not_cancellable:
  assumes "client_inv c" and "i < length (cl_sessions c)" and "as_id (session_at c i) = ident"
    and "as_pending (session_at c i) = [As_connect]" and "ec_set e"
    and "cl_complete cap e i (emulateLongComputationOp d k ident c) = Some t"
  shows "as_pending (session_at t (length (cl_sessions c))) = [As_connect]
    \<and> as_id (session_at t (length (cl_sessions c))) = ident
    \<and> cl_active t ident = None \<and> cancelRequest ident t = t"
proof -
  let ?c = "emulateLongComputationOp d k ident c" and ?n = "length (cl_sessions c)"
  have len: "i < length (cl_sessions ?c)" using assms(2) by (simp add: emulate_sessions)
  have s: "session_at ?c i = session_at c i" using assms(2) by (simp add: emulate_sessions)
  have "\<exists>s'. session_turn cap e (session_at ?c i) = Some (s', True)"
    using assms(4,5) by (simp add: s session_turn_def session_go_on_def)
  then obtain s' where t: "t = settle i (s', True) ?c"
    using assms(6) by (auto simp: cl_complete_eq [OF len])
  have "session_at t ?n = session_at ?c ?n" using assms(2) len by (simp add: t)
  then show ?thesis
    using assms(3) s by (simp add: t settle_active emulate_sessions cancelRequest_def as_start_def session_new_def)
qed

theorem tcp_client_reused_id_not_cancellable_witness:
  "\<exists>t. cl_complete (\<lambda>n. n) eof 0 (emulateLongComputationOp 11 (sock_on []) 1
      (emulateLongComputationOp 10 (sock_on []) 1 client_new)) = Some t
    \<and> as_pending (session_at t 1) = [As_connect] \<and> cancelRequest 1 t = t"
proof -
  let ?c = "emulateLongComputationOp 10 (sock_on []) 1 client_new"
  let ?c2 = "emulateLongComputationOp 11 (sock_on []) 1 ?c"
  note one = one_request_inv [where d = 10 and k = "sock_on []" and ident = 1]
  have len: "0 < length (cl_sessions ?c)" using one(5) by simp
  have len2: "0 < length (cl_sessions ?c2)" by (simp add: emulate_sessions)
  have "\<exists>t. cl_complete (\<lambda>n. n) eof 0 ?c2 = Some t"
    using one(4,5) by (simp add: cl_complete_eq [OF len2] emulate_sessions session_turn_def)
  then obtain t where t: "cl_complete (\<lambda>n. n) eof 0 ?c2 = Some t" ..
  have ident: "as_id (session_at ?c 0) = 1" by (simp add: emulate_sessions client_new_def)
  from tcp_client_reused_id_not_cancellable [OF one(1) len ident one(4) _ t] one(5) t
  show ?thesis by auto
qed

subsection \<open>A request that is answered\<close>

inductive session_step :: "(nat \<Rightarrow> nat) \<Rightarrow> session \<Rightarrow> session \<Rightarrow> bool" for cap where
  Session_turn: "session_turn cap e s = Some (t, ended) \<Longrightarrow> session_step cap s t"
| Session_cancelled_turn:
    "session_turn cap e (s\<lparr>as_was_cancelled := True\<rparr>) = Some (t, ended) \<Longrightarrow> session_step cap s t"

interpretation tcp_session: one_shot "session_step cap" "\<lambda>s. length (as_pending s)"
  "\<lambda>s. length (as_calls s)" as_work
  for cap
proof
  have cancelled: "as_balance (s\<lparr>as_was_cancelled := True\<rparr>) = as_balance s"
    "as_work (s\<lparr>as_was_cancelled := True\<rparr>) = as_work s" for s
    by (simp_all add: as_balance_def as_work_def)
  show "session_step cap s t \<Longrightarrow> 0 < length (as_pending s)" for s t
    by (erule session_step.cases) (auto simp: session_turn_def split: list.splits)
  show "session_step cap s t \<Longrightarrow>
      length (as_pending t) + length (as_calls t) = length (as_pending s) + length (as_calls s)" for s t
    by (erule session_step.cases) (auto dest!: session_turn_counts simp: cancelled, auto simp: as_balance_def)
  show "session_step cap s t \<Longrightarrow> as_work t < as_work s" for s t
    by (erule session_step.cases) (auto dest!: session_turn_counts simp: cancelled)
qed

fun session_run :: "(nat \<Rightarrow> nat) \<Rightarrow> nat \<Rightarrow> session \<Rightarrow> session" where
  "session_run cap 0 s = s"
| "session_run cap (Suc n) s =
     (case session_turn cap no_error s of None \<Rightarrow> s | Some (t, ended) \<Rightarrow> session_run cap n t)"


lemma session_run_step:
  "session_turn cap no_error s = Some (t, ended) \<Longrightarrow> session_run cap (Suc n) s = session_run cap n t"
  by simp

text \<open>
  a request that is not cancelled, on a network that does not fail: the client sends the request
  and the callback gets the first line of what arrives, without its newline, however it is cut into
  arrivals.
\<close>

theorem tcp_client_delivers_line:
  assumes "no_fail net" and "net_data net = l @ NL # r" and "NL \<notin> set l"
    and "length (net_data net) < 2 ^ 64 - 1"
  shows "as_calls (session_run cap 3 (as_start As_connect (session_new (sock_on net) request ident)))
      = [(ident, l, no_error)]
    \<and> ts_out (as_sock (session_run cap 3 (as_start As_connect (session_new (sock_on net) request ident))))
      = request"
proof -
  let ?s = "as_start As_connect (session_new (sock_on net) request ident)"
  let ?k = "(sock_on net)\<lparr>ts_out := request\<rparr>"
  have data: "sb_data streambuf_new @ net_data (ts_in ?k) = l @ NL # r" and nf: "no_fail (ts_in ?k)"
    using assms(1,2) by (simp_all add: streambuf_new_def)
  have len: "length (l @ NL # r) < sb_max streambuf_new"
    using assms(2,4) by (simp add: streambuf_new_def)
  obtain y s' where y: "sock_read_until_char cap NL streambuf_new ?k
      = (no_error, Suc (length l), streambuf_new\<lparr>sb_data := l @ NL # y\<rparr>, ?k\<lparr>ts_in := s'\<rparr>)"
    using sock_read_line [OF nf data assms(3) len, of cap] by blast
  define s1 where "s1 = as_start (As_write request) (?s\<lparr>as_pending := []\<rparr>)"
  define s2 where "s2 = as_start As_read (s1\<lparr>as_pending := [], as_sock := ?k\<rparr>)"
  have 1: "session_turn cap no_error ?s = Some (s1, False)"
    by (simp add: session_turn_def session_go_on_def as_start_def session_new_def s1_def)
  have 2: "session_turn cap no_error s1 = Some (s2, False)"
    by (simp add: session_turn_def session_go_on_def as_start_def session_new_def s1_def s2_def)
  have "\<exists>s3. session_turn cap no_error s2 = Some (s3, True) \<and> as_calls s3 = [(ident, l, no_error)]
      \<and> ts_out (as_sock s3) = request"
    using y assms(3)
    by (simp add: session_turn_def session_response_def as_start_def session_new_def s1_def s2_def
        session_complete_def getline_hit)
  then obtain s3 where 3: "session_turn cap no_error s2 = Some (s3, True)"
    "as_calls s3 = [(ident, l, no_error)]" "ts_out (as_sock s3) = request" by blast
  have "session_run cap 3 ?s = s3"
    using 1 2 3(1) by (simp add: numeral_3_eq_3)
  with 3 show ?thesis by simp
qed

theorem tcp_client_delivers_line_witness:
  "as_calls (session_run (\<lambda>n. n) 3 (as_start As_connect (session_new (sock_on [Arrive ''OK'', Arrive [NL]]) ''X'' 7)))
      = [(7, ''OK'', no_error)]
    \<and> ts_out (as_sock (session_run (\<lambda>n. n) 3
        (as_start As_connect (session_new (sock_on [Arrive ''OK'', Arrive [NL]]) ''X'' 7)))) = ''X''"
  by (rule tcp_client_delivers_line [where r = "[]"]) simp_all

subsection \<open>Mutexes\<close>

text \<open>
  What the operations acquire and release: the guard of the active sessions and the cancel guard of
  one session. A handler that finds its session cancelled calls \<open>onRequestComplete\<close> with the
  cancel guard held; a handler that has an error does not hold it.
\<close>

datatype mutex = Active_guard | Cancel_guard

datatype lock_op = Acquire mutex | Release mutex

definition cancelRequest_locks :: "lock_op list" where
  "cancelRequest_locks =
     [Acquire Active_guard, Acquire Cancel_guard, Release Cancel_guard, Release Active_guard]"

definition onRequestComplete_locks :: "lock_op list" where
  "onRequestComplete_locks = [Acquire Active_guard, Release Active_guard]"

definition handler_locks :: "error_code \<Rightarrow> bool \<Rightarrow> lock_op list" where
  "handler_locks ec was_cancelled =
     (if ec_set ec then onRequestComplete_locks
      else Acquire Cancel_guard # (if was_cancelled then onRequestComplete_locks else [])
        @ [Release Cancel_guard])"

text \<open>Threads: what each has left to do; the owner of each mutex.\<close>

type_synonym lock_state = "lock_op list list \<times> (mutex \<rightharpoonup> nat)"

fun thread_step :: "nat \<Rightarrow> lock_state \<Rightarrow> lock_state option" where
  "thread_step i (ts, own) =
     (if length ts \<le> i then None
      else case ts ! i of
        [] \<Rightarrow> None
      | Acquire m # ops \<Rightarrow> if own m = None then Some (ts[i := ops], own(m \<mapsto> i)) else None
      | Release m # ops \<Rightarrow> Some (ts[i := ops], own(m := None)))"

fun run_threads :: "nat list \<Rightarrow> lock_state \<Rightarrow> lock_state option" where
  "run_threads [] st = Some st"
| "run_threads (i # is) st = (case thread_step i st of None \<Rightarrow> None | Some st' \<Rightarrow> run_threads is st')"

definition stuck :: "lock_state \<Rightarrow> bool" where
  "stuck st \<longleftrightarrow> (\<forall>i < length (fst st). thread_step i st = None) \<and> (\<exists>ops \<in> set (fst st). ops \<noteq> [])"

text \<open>
  the two mutexes are taken in opposite orders: a second cancellation of a request, running
  while a handler of that request has just found it cancelled, deadlocks with the handler.
\<close>

theorem tcp_client_cancel_deadlock:
  "\<exists>st. run_threads [0, 1] ([cancelRequest_locks, handler_locks no_error True], Map.empty) = Some st \<and> stuck st"
  by (simp add: cancelRequest_locks_def handler_locks_def onRequestComplete_locks_def stuck_def
      less_Suc_eq)


subsection \<open>The thread pool\<close>

text \<open>
  The constructor's loop counts with an \<open>unsigned char\<close> and an inclusive bound: the number of
  threads created, \<open>None\<close> when the loop does not end.
\<close>

partial_function (option) create_threads :: "8 word \<Rightarrow> 8 word \<Rightarrow> nat \<Rightarrow> nat option" where
  "create_threads num_of_threads i created =
     (if i \<le> num_of_threads then create_threads num_of_threads (i + 1) (Suc created) else Some created)"

definition pool_size :: "8 word \<Rightarrow> nat option" where
  "pool_size num_of_threads = create_threads num_of_threads 1 0"

lemma byte_max: "(i :: 8 word) \<le> 255"
proof -
  have "unat i < 2 ^ LENGTH(8)" by (rule unsigned_less)
  then show ?thesis by (simp add: word_le_nat_alt)
qed

lemma create_threads_count:
  assumes "num < 255" and "unat i \<le> Suc (unat num)"
  shows "create_threads num i n = Some (n + Suc (unat num) - unat i)"
  using assms(2)
proof (induction "Suc (unat num) - unat i" arbitrary: i n)
  case 0
  then have "\<not> i \<le> num" by (simp add: word_le_nat_alt)
  with 0 show ?case by (subst create_threads.simps) simp
next
  case (Suc m)
  have num: "unat num < 255" using assms(1) by (simp add: word_less_nat_alt)
  from Suc.hyps(2) have le: "unat i \<le> unat num" by simp
  have plus: "unat (i + 1) = Suc (unat i)"
    using le num by (simp add: unat_word_ariths(1))
  have "create_threads num (i + 1) (Suc n) = Some (Suc n + Suc (unat num) - unat (i + 1))"
    by (rule Suc.hyps(1)) (use Suc.hyps(2) le plus in auto)
  then show ?case using le plus by (subst create_threads.simps) (simp add: word_le_nat_alt)
qed

lemma create_threads_max: "create_threads 255 i n = None"
proof (rule ccontr)
  assume "create_threads 255 i n \<noteq> None"
  then obtain y where "create_threads 255 i n = Some y" by auto
  then have "(255 :: 8 word) \<noteq> 255"
  proof (rule create_threads.raw_induct [rotated, where P = "\<lambda>num i n y. num \<noteq> 255"])
    fix loop :: "8 word \<Rightarrow> 8 word \<Rightarrow> nat \<Rightarrow> nat option" and num i :: "8 word" and n y
    assume IH: "\<And>num i n y. loop num i n = Some y \<Longrightarrow> num \<noteq> 255"
      and body: "(if i \<le> num then loop num (i + 1) (Suc n) else Some n) = Some y"
    show "num \<noteq> 255"
    proof
      assume num: "num = 255"
      with body byte_max [of i] have "loop num (i + 1) (Suc n) = Some y" by simp
      then have "num \<noteq> 255" by (rule IH)
      with num show False by simp
    qed
  qed
  then show False by simp
qed

text \<open>
  the constructor creates as many threads as asked for, except for 255, the largest value of its
  parameter, for which its loop never ends: the counter wraps before it can exceed the bound.
\<close>

theorem tcp_client_pool_size:
  "pool_size n = (if n = 255 then None else Some (unat n))"
proof (cases "n = 255")
  case True
  then show ?thesis by (simp add: pool_size_def create_threads_max)
next
  case False
  from byte_max [of n] False have "n < 255" by simp
  from create_threads_count [OF this, of 1 0] False show ?thesis by (simp add: pool_size_def)
qed

end
