(* ===== verification/Line_Server.thy ===== *)
theory Line_Server
  imports Asio_Socket
begin

text \<open>
  The three one-line servers of the cookbook (ch04): iterative and thread-per-client with the
  synchronous calls, thread pool with the asynchronous ones, and the synchronous client (ch03). All
  read a line and answer a fixed line.
\<close>

definition Response :: bytes where "Response = ''Response'' @ [NL]"

subsection \<open>Iterative server\<close>

text \<open>
  \<open>HandleClient\<close>: the throwing forms of \<open>read_until\<close> and \<open>write\<close>; what they throw is caught, so
  the socket is all that is left of it.
\<close>

definition HandleClient :: "(nat \<Rightarrow> nat) \<Rightarrow> tcp_sock \<Rightarrow> tcp_sock" where
  "HandleClient cap sock =
     (case read_until_char cap NL streambuf_new (ts_in sock) of
        (ec, n, request, s') \<Rightarrow>
          let sock1 = sock\<lparr>ts_in := s'\<rparr> in
          if ec_set ec then sock1
          else (case write_all Response sock1 of (ec', m, sock2) \<Rightarrow> sock2))"

datatype accept_result = Accepted tcp_sock | Accept_failed error_code

text \<open>
  \<open>Server::Run\<close> in its thread, on the results of the accepts to come; \<open>stop k\<close> is what the load of
  \<open>m_stop\<close> before the k-th accept gives. A failed accept throws, nothing in the thread catches it,
  and the process is terminated. With no connection to come the thread blocks in accept.
\<close>

datatype run_result = Run_stopped "tcp_sock list" | Run_blocked "tcp_sock list"
  | Run_terminated "tcp_sock list" error_code

fun Run :: "(nat \<Rightarrow> nat) \<Rightarrow> (nat \<Rightarrow> bool) \<Rightarrow> nat \<Rightarrow> accept_result list \<Rightarrow> tcp_sock list \<Rightarrow> run_result" where
  "Run cap stop k [] served = (if stop k then Run_stopped served else Run_blocked served)"
| "Run cap stop k (a # as) served =
     (if stop k then Run_stopped served
      else case a of
        Accepted sock \<Rightarrow> Run cap stop (Suc k) as (served @ [HandleClient cap sock])
      | Accept_failed ec \<Rightarrow> Run_terminated served ec)"

lemma Run_serves:
  assumes "\<forall>j < length socks. \<not> stop (k + j)"
  shows "Run cap stop k (map Accepted socks @ as) served
    = Run cap stop (k + length socks) as (served @ map (HandleClient cap) socks)"
  using assms
proof (induction socks arbitrary: k served)
  case (Cons sock socks)
  have now: "\<not> stop k" using Cons.prems by (metis add_0_right length_greater_0_conv list.distinct(1))
  have later: "\<forall>j < length socks. \<not> stop (Suc k + j)"
    using Cons.prems by (metis Suc_less_eq add_Suc_shift length_Cons)
  show ?case using now Cons.IH [OF later] by simp
qed simp

lemma HandleClient_answers:
  assumes "no_fail (ts_in sock)" and "net_data (ts_in sock) = l @ NL # r" and "NL \<notin> set l"
    and "length (net_data (ts_in sock)) < 2 ^ 64 - 1" and "ts_writes sock = []"
  shows "ts_out (HandleClient cap sock) = ts_out sock @ Response"
proof -
  have d: "sb_data streambuf_new @ net_data (ts_in sock) = l @ NL # r"
    "length (l @ NL # r) < sb_max streambuf_new"
    using assms(2,4) by (simp_all add: streambuf_new_def)
  obtain y s' where "read_until_char cap NL streambuf_new (ts_in sock)
      = (no_error, Suc (length l), streambuf_new\<lparr>sb_data := l @ NL # y\<rparr>, s')"
    using read_until_char_line [OF assms(1) d(1) assms(3) d(2)] by blast
  then show ?thesis using assms(5) by (simp add: HandleClient_def)
qed

text \<open>
  the iterative server isolates its clients: as long as it is not stopped and no accept fails,
  every connection is handled from its own data alone, whatever errors the connections before it
  had, and one that has sent a line has been answered.
\<close>

theorem iterative_server_serves_all:
  assumes "\<forall>j < length socks. \<not> stop j" and "i < length socks"
    and "no_fail (ts_in (socks ! i))" and "net_data (ts_in (socks ! i)) = l @ NL # r"
    and "length (net_data (ts_in (socks ! i))) < 2 ^ 64 - 1"
    and "NL \<notin> set l" and "ts_writes (socks ! i) = []" and "ts_out (socks ! i) = []"
  shows "\<exists>served. Run cap stop 0 (map Accepted socks) []
      = (if stop (length socks) then Run_stopped served else Run_blocked served)
    \<and> length served = length socks \<and> ts_out (served ! i) = Response"
proof -
  have "Run cap stop 0 (map Accepted socks) []
      = (if stop (length socks) then Run_stopped (map (HandleClient cap) socks)
         else Run_blocked (map (HandleClient cap) socks))"
    using Run_serves [of socks stop 0 cap "[]" "[]"] assms(1) by simp
  moreover have "ts_out (map (HandleClient cap) socks ! i) = Response"
    using HandleClient_answers [OF assms(3,4,6,5,7)] assms(2,8) by simp
  ultimately show ?thesis using assms(2) by (intro exI [where x = "map (HandleClient cap) socks"]) simp
qed

theorem iterative_server_serves_all_witness:
  "\<exists>served. Run (\<lambda>n. n) (\<lambda>k. k = 2) 0 (map Accepted [sock_on [Fail eof], sock_on [Arrive [NL]]]) []
      = (if (2::nat) = 2 then Run_stopped served else Run_blocked served)
    \<and> length served = 2 \<and> ts_out (served ! 1) = Response"
  using iterative_server_serves_all [of "[sock_on [Fail eof], sock_on [Arrive [NL]]]" "\<lambda>k. k = 2" 1 "[]" "[]" "\<lambda>n. n"]
  by (simp add: less_Suc_eq)

text \<open>
  an accept that fails is caught nowhere: it ends the process, and with it every later client,
  although \<open>main\<close> means to catch system errors.
\<close>

theorem iterative_server_dies_on_accept_error:
  assumes "\<forall>j \<le> length socks. \<not> stop j"
  shows "Run cap stop 0 (map Accepted socks @ Accept_failed ec # as) []
    = Run_terminated (map (HandleClient cap) socks) ec"
  using Run_serves [of socks stop 0 cap "Accept_failed ec # as" "[]"] assms by simp

theorem iterative_server_dies_on_accept_error_witness:
  "Run (\<lambda>n. n) (\<lambda>k. False) 0 (map Accepted [] @ Accept_failed eof # [Accepted (sock_on [])]) []
    = Run_terminated (map (HandleClient (\<lambda>n. n)) []) eof"
  by (rule iterative_server_dies_on_accept_error) simp


subsection \<open>A thread per client\<close>

text \<open>
  \<open>StartHandligClient\<close> runs the same \<open>HandleClient\<close> in a detached thread of its own, which deletes
  its service at the end. The blocking calls are the points where threads interleave.
\<close>

datatype par_stage = Par_reading | Par_writing | Par_done

record par_service =
  pv_sock :: tcp_sock
  pv_stage :: par_stage
  pv_deleted :: nat

definition StartHandligClient :: "tcp_sock \<Rightarrow> par_service" where
  "StartHandligClient sock = \<lparr>pv_sock = sock, pv_stage = Par_reading, pv_deleted = 0\<rparr>"

definition par_end :: "par_service \<Rightarrow> par_service" where
  "par_end v = v\<lparr>pv_stage := Par_done, pv_deleted := Suc (pv_deleted v)\<rparr>"

definition par_HandleClient :: "(nat \<Rightarrow> nat) \<Rightarrow> par_service \<Rightarrow> par_service" where
  "par_HandleClient cap v =
     (case pv_stage v of
        Par_reading \<Rightarrow>
          (case read_until_char cap NL streambuf_new (ts_in (pv_sock v)) of
             (ec, n, request, s') \<Rightarrow>
               let v1 = v\<lparr>pv_sock := (pv_sock v)\<lparr>ts_in := s'\<rparr>\<rparr> in
               if ec_set ec then par_end v1 else v1\<lparr>pv_stage := Par_writing\<rparr>)
      | Par_writing \<Rightarrow>
          (case write_all Response (pv_sock v) of (ec, n, k) \<Rightarrow> par_end (v\<lparr>pv_sock := k\<rparr>))
      | Par_done \<Rightarrow> v)"

fun par_run :: "(nat \<Rightarrow> nat) \<Rightarrow> nat list \<Rightarrow> par_service list \<Rightarrow> par_service list" where
  "par_run cap [] vs = vs"
| "par_run cap (i # is) vs =
     par_run cap is (if i < length vs then vs[i := par_HandleClient cap (vs ! i)] else vs)"

text \<open>What will have become of the socket when the thread is done.\<close>

definition par_finish :: "(nat \<Rightarrow> nat) \<Rightarrow> par_service \<Rightarrow> tcp_sock" where
  "par_finish cap v =
     (case pv_stage v of
        Par_reading \<Rightarrow> HandleClient cap (pv_sock v)
      | Par_writing \<Rightarrow> snd (snd (write_all Response (pv_sock v)))
      | Par_done \<Rightarrow> pv_sock v)"

definition par_ok :: "par_service \<Rightarrow> bool" where
  "par_ok v \<longleftrightarrow> pv_deleted v = (if pv_stage v = Par_done then 1 else 0)"

lemma par_turn_finish: "par_finish cap (par_HandleClient cap v) = par_finish cap v"
  by (auto simp: par_finish_def par_HandleClient_def HandleClient_def par_end_def Let_def
      split: par_stage.split prod.split)

lemma par_turn_ok: "par_ok v \<Longrightarrow> par_ok (par_HandleClient cap v)"
  by (auto simp: par_ok_def par_HandleClient_def par_end_def Let_def
      split: par_stage.split prod.split)

lemma par_run_finish:
  "map (par_finish cap) (par_run cap is vs) = map (par_finish cap) vs
   \<and> (list_all par_ok vs \<longrightarrow> list_all par_ok (par_run cap is vs))"
proof (induction "is" arbitrary: vs)
  case (Cons i "is")
  show ?case
  proof (cases "i < length vs")
    case True
    let ?vs = "vs[i := par_HandleClient cap (vs ! i)]"
    have "map (par_finish cap) ?vs = (map (par_finish cap) vs)[i := map (par_finish cap) vs ! i]"
      using True by (simp add: map_update par_turn_finish)
    then have "map (par_finish cap) ?vs = map (par_finish cap) vs" by simp
    moreover have "list_all par_ok vs \<Longrightarrow> list_all par_ok ?vs"
      using True par_turn_ok by (auto simp: list_all_iff dest!: set_update_subset_insert [THEN subsetD])
    ultimately show ?thesis using True Cons.IH [of ?vs] by auto
  next
    case False
    with Cons.IH show ?thesis by simp
  qed
qed simp

text \<open>
  the thread-per-client server does to every connection what the iterative one does, for every
  interleaving of its threads, and each service is deleted exactly once.
\<close>

theorem parallel_server_equals_iterative:
  assumes "list_all (\<lambda>v. pv_stage v = Par_done) (par_run cap is (map StartHandligClient socks))"
  shows "map pv_sock (par_run cap is (map StartHandligClient socks)) = map (HandleClient cap) socks
    \<and> list_all (\<lambda>v. pv_deleted v = 1) (par_run cap is (map StartHandligClient socks))"
proof -
  let ?vs = "map StartHandligClient socks" and ?ws = "par_run cap is (map StartHandligClient socks)"
  have ok: "list_all par_ok ?vs" by (simp add: list_all_iff par_ok_def StartHandligClient_def)
  have "map pv_sock ?ws = map (par_finish cap) ?ws" using assms by (simp add: par_finish_def list_all_iff)
  also have "\<dots> = map (par_finish cap) ?vs" using par_run_finish by blast
  also have "\<dots> = map (HandleClient cap) socks" by (simp add: par_finish_def StartHandligClient_def)
  finally have socks: "map pv_sock ?ws = map (HandleClient cap) socks" .
  have "list_all par_ok ?ws" using par_run_finish ok by blast
  with socks assms show ?thesis by (simp add: list_all_iff par_ok_def)
qed

theorem parallel_server_equals_iterative_witness:
  "map pv_sock (par_run (\<lambda>n. n) [1, 0] (map StartHandligClient [sock_on [], sock_on []]))
      = map (HandleClient (\<lambda>n. n)) [sock_on [], sock_on []]
    \<and> list_all (\<lambda>v. pv_deleted v = 1) (par_run (\<lambda>n. n) [1, 0] (map StartHandligClient [sock_on [], sock_on []]))"
proof (rule parallel_server_equals_iterative)
  have "read_until_char (\<lambda>n. n) NL streambuf_new [] = (eof, 0, streambuf_new, [])"
    unfolding read_until_char_def
    by (subst read_until_loop.simps) (simp add: search_char_def streambuf_new_def)
  then show "list_all (\<lambda>v. pv_stage v = Par_done) (par_run (\<lambda>n. n) [1, 0] (map StartHandligClient [sock_on [], sock_on []]))"
    by (simp add: par_HandleClient_def StartHandligClient_def par_end_def)
qed


subsection \<open>The asynchronous server\<close>

datatype ap_op = Ap_read | Ap_write bytes

record ap_service =
  ap_sock :: tcp_sock
  ap_response :: bytes
  ap_request :: streambuf
  ap_pending :: "ap_op list"
  ap_deleted :: nat

definition ap_service_new :: "tcp_sock \<Rightarrow> ap_service" where
  "ap_service_new sock =
     \<lparr>ap_sock = sock, ap_response = [], ap_request = streambuf_new, ap_pending = [], ap_deleted = 0\<rparr>"

definition ap_start :: "ap_op \<Rightarrow> ap_service \<Rightarrow> ap_service" where
  "ap_start op v = v\<lparr>ap_pending := ap_pending v @ [op]\<rparr>"

definition StartHandling :: "ap_service \<Rightarrow> ap_service" where
  "StartHandling v = ap_start Ap_read v"

definition ap_onFinish :: "ap_service \<Rightarrow> ap_service" where
  "ap_onFinish v = v\<lparr>ap_deleted := Suc (ap_deleted v)\<rparr>"

definition ProcessRequest :: "streambuf \<Rightarrow> bytes" where
  "ProcessRequest request = Response"

definition onRequestReceived :: "error_code \<Rightarrow> nat \<Rightarrow> ap_service \<Rightarrow> ap_service" where
  "onRequestReceived ec n v =
     (if ec_set ec then ap_onFinish v
      else let v1 = v\<lparr>ap_response := ProcessRequest (ap_request v)\<rparr>
           in ap_start (Ap_write (ap_response v1)) v1)"

definition onResponseSent :: "error_code \<Rightarrow> nat \<Rightarrow> ap_service \<Rightarrow> ap_service" where
  "onResponseSent ec n v = ap_onFinish v"

definition ap_complete :: "(nat \<Rightarrow> nat) \<Rightarrow> ap_service \<Rightarrow> ap_service option" where
  "ap_complete cap v =
     (case ap_pending v of
        [] \<Rightarrow> None
      | Ap_read # ops \<Rightarrow>
          (case sock_read_until_char cap NL (ap_request v) (ap_sock v) of
             (ec, n, b, k) \<Rightarrow>
               Some (onRequestReceived ec n (v\<lparr>ap_pending := ops, ap_request := b, ap_sock := k\<rparr>)))
      | Ap_write bs # ops \<Rightarrow>
          (case write_all bs (ap_sock v) of
             (ec, n, k) \<Rightarrow> Some (onResponseSent ec n (v\<lparr>ap_pending := ops, ap_sock := k\<rparr>))))"

inductive ap_step :: "(nat \<Rightarrow> nat) \<Rightarrow> ap_service \<Rightarrow> ap_service \<Rightarrow> bool" for cap where
  Ap_completion: "ap_complete cap v = Some w \<Longrightarrow> ap_step cap v w"

inductive_simps ap_step_iff: "ap_step cap v w"

fun ap_op_work :: "ap_op \<Rightarrow> nat" where
  "ap_op_work Ap_read = 2"
| "ap_op_work (Ap_write bs) = 1"

definition ap_work :: "ap_service \<Rightarrow> nat" where
  "ap_work v = sum_list (map ap_op_work (ap_pending v))"

lemmas ap_handlers = ap_complete_def onRequestReceived_def onResponseSent_def ap_onFinish_def ap_start_def

interpretation async_service: one_shot "ap_step cap" "\<lambda>v. length (ap_pending v)" ap_deleted ap_work
  for cap
proof
  show "ap_step cap v w \<Longrightarrow> 0 < length (ap_pending v)" for v w
    by (auto simp: ap_step_iff ap_complete_def split: list.splits)
  show "ap_step cap v w \<Longrightarrow> length (ap_pending w) + ap_deleted w = length (ap_pending v) + ap_deleted v" for v w
    by (auto simp: ap_step_iff ap_handlers Let_def split: list.splits ap_op.splits prod.splits if_splits)
  show "ap_step cap v w \<Longrightarrow> ap_work w < ap_work v" for v w
    by (auto simp: ap_step_iff ap_handlers ap_work_def Let_def
        split: list.splits ap_op.splits prod.splits if_splits)
qed

fun ap_run :: "(nat \<Rightarrow> nat) \<Rightarrow> nat \<Rightarrow> ap_service \<Rightarrow> ap_service" where
  "ap_run cap 0 v = v"
| "ap_run cap (Suc n) v = (case ap_complete cap v of None \<Rightarrow> v | Some w \<Rightarrow> ap_run cap n w)"

text \<open>
  the asynchronous service deletes itself exactly once, in every run, and as soon as it has
  nothing in flight.
\<close>

theorem async_service_ends_once:
  assumes "(ap_step cap)\<^sup>*\<^sup>* (StartHandling (ap_service_new sock)) v"
  shows "ap_deleted v \<le> 1 \<and> (ap_deleted v = 1 \<longleftrightarrow> ap_pending v = [])"
proof -
  have "length (ap_pending (StartHandling (ap_service_new sock))) + ap_deleted (StartHandling (ap_service_new sock)) = 1"
    by (simp add: StartHandling_def ap_start_def ap_service_new_def)
  from async_service.reports_at_most_once [OF assms this] show ?thesis by simp
qed

theorem async_service_ends_once_witness:
  "ap_deleted (StartHandling (ap_service_new (sock_on []))) \<le> 1
    \<and> (ap_deleted (StartHandling (ap_service_new (sock_on []))) = 1
       \<longleftrightarrow> ap_pending (StartHandling (ap_service_new (sock_on []))) = [])"
  by (rule async_service_ends_once [of "\<lambda>n. n"]) blast

text \<open>
  the asynchronous server does to a connection exactly what the synchronous ones do, bytes read,
  bytes written and errors included, when the connection's failures are real errors.
\<close>

theorem async_service_equals_sync:
  assumes "proper_fails (ts_in sock)"
  shows "ap_sock (ap_run cap 2 (StartHandling (ap_service_new sock))) = HandleClient cap sock
    \<and> ap_deleted (ap_run cap 2 (StartHandling (ap_service_new sock))) = 1"
proof -
  obtain ec n b s' where r: "read_until_char cap NL streambuf_new (ts_in sock) = (ec, n, b, s')"
    by (metis prod_cases4)
  then have a: "sock_read_until_char cap NL streambuf_new sock = (ec, n, b, sock\<lparr>ts_in := s'\<rparr>)"
    using async_read_until_char_def async_eq_sync [OF assms] by (simp add: sock_read_until_char_def
        async_read_until_char_def read_until_char_def)
  obtain ec' m k where w: "write_all Response (sock\<lparr>ts_in := s'\<rparr>) = (ec', m, k)" by (metis prod_cases3)
  show ?thesis
    using r a w
    by (simp add: numeral_2_eq_2 StartHandling_def ap_service_new_def ap_handlers ProcessRequest_def
        HandleClient_def Let_def)
qed

theorem async_service_equals_sync_witness:
  "ap_sock (ap_run (\<lambda>n. n) 2 (StartHandling (ap_service_new (sock_on [Arrive ''a'', Arrive [NL]]))))
      = HandleClient (\<lambda>n. n) (sock_on [Arrive ''a'', Arrive [NL]])
    \<and> ap_deleted (ap_run (\<lambda>n. n) 2 (StartHandling (ap_service_new (sock_on [Arrive ''a'', Arrive [NL]])))) = 1"
  by (rule async_service_equals_sync) simp


subsection \<open>Acceptor and thread pool of the asynchronous server\<close>

record ap_acceptor =
  aa_open :: bool
  aa_listening :: bool
  aa_isStopped :: bool
  aa_accepts :: nat
  aa_services :: "ap_service list"

definition ap_acceptor_new :: ap_acceptor where
  "ap_acceptor_new = \<lparr>aa_open = True, aa_listening = False, aa_isStopped = False, aa_accepts = 0,
     aa_services = []\<rparr>"

definition ap_InitAccept :: "ap_acceptor \<Rightarrow> ap_acceptor" where
  "ap_InitAccept a = a\<lparr>aa_accepts := Suc (aa_accepts a)\<rparr>"

definition ap_acceptor_Start :: "ap_acceptor \<Rightarrow> ap_acceptor" where
  "ap_acceptor_Start a = ap_InitAccept (a\<lparr>aa_listening := True\<rparr>)"

definition ap_acceptor_Stop :: "ap_acceptor \<Rightarrow> ap_acceptor" where
  "ap_acceptor_Stop a = a\<lparr>aa_isStopped := True\<rparr>"

definition ap_onAccept :: "error_code \<Rightarrow> tcp_sock \<Rightarrow> ap_acceptor \<Rightarrow> ap_acceptor" where
  "ap_onAccept ec sock a =
     (let a1 = (if \<not> ec_set ec
                then a\<lparr>aa_services := aa_services a @ [StartHandling (ap_service_new sock)]\<rparr> else a)
      in if \<not> aa_isStopped a1 then ap_InitAccept a1 else a1\<lparr>aa_open := False\<rparr>)"

inductive ap_acceptor_step :: "ap_acceptor \<Rightarrow> ap_acceptor \<Rightarrow> bool" where
  Ap_accept: "0 < aa_accepts a \<Longrightarrow>
    ap_acceptor_step a (ap_onAccept ec sock (a\<lparr>aa_accepts := aa_accepts a - 1\<rparr>))"
| Ap_stop: "ap_acceptor_step a (ap_acceptor_Stop a)"

inductive_cases ap_acceptor_stepE: "ap_acceptor_step a b"

lemmas ap_acceptor_defs = ap_onAccept_def ap_InitAccept_def ap_acceptor_Stop_def Let_def

interpretation ap_acceptor_loop: accept_loop ap_acceptor_step aa_accepts "\<lambda>a. \<not> aa_open a" aa_isStopped
proof
  show "ap_acceptor_step a b \<Longrightarrow> aa_accepts a = (if \<not> aa_open a then 0 else 1) \<Longrightarrow>
      aa_accepts b = (if \<not> aa_open b then 0 else 1)" for a b
    by (erule ap_acceptor_stepE) (auto simp: ap_acceptor_defs split: if_splits)
  show "ap_acceptor_step a b \<Longrightarrow> (\<not> aa_open a \<longrightarrow> aa_isStopped a) \<Longrightarrow> (\<not> aa_open b \<longrightarrow> aa_isStopped b)" for a b
    by (erule ap_acceptor_stepE) (auto simp: ap_acceptor_defs)
qed

lemma ap_acceptor_one_accept:
  "ap_acceptor_step\<^sup>*\<^sup>* (ap_acceptor_Start ap_acceptor_new) a \<Longrightarrow>
   aa_accepts a = (if aa_open a then 1 else 0) \<and> (\<not> aa_open a \<longrightarrow> aa_isStopped a)"
  using ap_acceptor_loop.one_accept [of "ap_acceptor_Start ap_acceptor_new" a]
  by (simp add: ap_acceptor_Start_def ap_acceptor_new_def ap_InitAccept_def)

text \<open>The server around it, with its threads counted; \<open>None\<close> is the failed assertion.\<close>

record ap_server =
  aps_work :: bool
  aps_acc :: "ap_acceptor option"
  aps_running :: nat
  aps_joined :: nat
  aps_ioc_stopped :: bool

definition ap_server_new :: ap_server where
  "ap_server_new = \<lparr>aps_work = True, aps_acc = None, aps_running = 0, aps_joined = 0,
     aps_ioc_stopped = False\<rparr>"

definition ap_server_Start :: "u32 \<Rightarrow> ap_server \<Rightarrow> ap_server option" where
  "ap_server_Start thread_pool_size v =
     (if thread_pool_size = 0 then None
      else Some (v\<lparr>aps_acc := Some (ap_acceptor_Start ap_acceptor_new),
                   aps_running := aps_running v + unat thread_pool_size\<rparr>))"

definition ap_server_Stop :: "ap_server \<Rightarrow> ap_server" where
  "ap_server_Stop v =
     v\<lparr>aps_acc := map_option ap_acceptor_Stop (aps_acc v), aps_ioc_stopped := True,
       aps_joined := aps_joined v + aps_running v, aps_running := 0\<rparr>"

definition ap_main :: "u32 \<Rightarrow> ap_server option" where
  "ap_main hardware_concurrency =
     (let n = hardware_concurrency * 2;
          thread_pool_size = (if n = 0 then 2 else n)
      in map_option ap_server_Stop (ap_server_Start thread_pool_size ap_server_new))"

text \<open>
  whatever \<open>hardware_concurrency\<close> reports, 0 and a value whose double overflows included, the
  main program starts at least one thread, never fails its assertion, and stops with every thread it
  started joined.
\<close>

theorem async_main_joins_all:
  "\<exists>v. ap_main hc = Some v \<and> aps_running v = 0 \<and> 0 < aps_joined v
    \<and> aps_joined v = (if hc * 2 = 0 then 2 else unat (hc * 2))"
proof -
  have "0 < unat (hc * 2)" if "hc * 2 \<noteq> 0" using that by (simp add: unat_gt_0)
  then show ?thesis
    by (auto simp: ap_main_def ap_server_Start_def ap_server_Stop_def ap_server_new_def Let_def)
qed

subsection \<open>The synchronous client\<close>

text \<open>The calls throw on an error: \<open>Inl\<close>.\<close>

definition sync_sendRequest :: "bytes \<Rightarrow> tcp_sock \<Rightarrow> (exn + unit) \<times> tcp_sock" where
  "sync_sendRequest request sock =
     (case write_all request sock of
        (ec, n, k) \<Rightarrow> (if ec_set ec then Inl (System_error ec) else Inr (), k))"

definition sync_receiveResponse :: "(nat \<Rightarrow> nat) \<Rightarrow> tcp_sock \<Rightarrow> (exn + bytes) \<times> tcp_sock" where
  "sync_receiveResponse cap sock =
     (case read_until_char cap NL streambuf_new (ts_in sock) of
        (ec, n, buf, s') \<Rightarrow>
          (if ec_set ec then Inl (System_error ec)
           else Inr (fst (getline_delim NL (istream_of (sb_data buf)) [])), sock\<lparr>ts_in := s'\<rparr>))"

definition sync_emulateLongComputationOp ::
  "(nat \<Rightarrow> nat) \<Rightarrow> u32 \<Rightarrow> tcp_sock \<Rightarrow> (exn + bytes) \<times> tcp_sock" where
  "sync_emulateLongComputationOp cap duration_sec sock =
     (let request = ''EMULATE_LONG_COMP_OP '' @ to_string (unat duration_sec) @ [NL] in
      case sync_sendRequest request sock of
        (Inl e, k) \<Rightarrow> (Inl e, k)
      | (Inr _, k) \<Rightarrow> sync_receiveResponse cap k)"

definition sync_close :: "tcp_sock \<Rightarrow> (exn + unit) \<times> tcp_sock" where
  "sync_close sock =
     (case sock_shutdown sock of (ec, k) \<Rightarrow> (if ec_set ec then Inl (System_error ec) else Inr (), k))"

text \<open>
  the synchronous client against the iterative server: each receives what the other has written,
  cut in any way, and the client returns "Response", the line without its newline.
\<close>

theorem sync_client_and_server:
  assumes "no_fail up" and "net_data up = ''EMULATE_LONG_COMP_OP '' @ to_string (unat d) @ [NL]"
    and "no_fail down" and "net_data down = ts_out (HandleClient cap (sock_on up))"
  shows "\<exists>k. sync_emulateLongComputationOp cap' d (sock_on down) = (Inr ''Response'', k)
    \<and> ts_out k = net_data up"
proof -
  let ?l = "''EMULATE_LONG_COMP_OP '' @ to_string (unat d)"
  have nl: "NL \<notin> set ?l"
    using to_string_digits [of "unat d"] isdigit_not_sign by auto
  have "unat d < 2 ^ LENGTH(32)" by (rule unsigned_less)
  then have up: "length (net_data up) < 2 ^ 64 - 1"
    using length_to_string [of "unat d"] by (simp add: assms(2))
  have "ts_out (HandleClient cap (sock_on up)) = Response"
    using HandleClient_answers [of "sock_on up" ?l "[]" cap] assms(1,2) nl up by simp
  then have down: "net_data down = ''Response'' @ NL # []" using assms(4) by (simp add: Response_def)
  have "sb_data streambuf_new @ net_data down = ''Response'' @ NL # []"
    "length (''Response'' @ NL # []) < sb_max streambuf_new"
    using down by (simp_all add: streambuf_new_def)
  moreover have "NL \<notin> set ''Response''" by simp
  ultimately obtain y s' where
    "read_until_char cap' NL streambuf_new down
      = (no_error, Suc (length ''Response''), streambuf_new\<lparr>sb_data := ''Response'' @ NL # y\<rparr>, s')"
    using read_until_char_line [OF assms(3)] by blast
  then show ?thesis
    using getline_hit [of NL "''Response''" y "[]"]
    by (simp add: sync_emulateLongComputationOp_def sync_sendRequest_def sync_receiveResponse_def assms(2))
qed

theorem sync_client_and_server_witness:
  "\<exists>k. sync_emulateLongComputationOp (\<lambda>n. n) 10
      (sock_on [Arrive (ts_out (HandleClient (\<lambda>n. n)
        (sock_on [Arrive ''EMULATE_LONG_'', Arrive (''COMP_OP '' @ to_string 10 @ [NL])])))]) = (Inr ''Response'', k)
    \<and> ts_out k = net_data [Arrive ''EMULATE_LONG_'', Arrive (''COMP_OP '' @ to_string 10 @ [NL])]"
  by (rule sync_client_and_server [where cap = "\<lambda>n. n"]) simp_all

end
