(* ===== verification/Chat_Server.thy ===== *)
theory Chat_Server
  imports Asio_Socket
begin

text \<open>
  The asynchronous chat server (asio.cpp.v1/ch04/async_server.cpp): \<open>talk_to_client\<close>, the global
  array of clients, the ping timer and the accept handler. A talker is named by its index among all
  talkers ever created, which stands for the shared pointer. The results of its asynchronous
  operations and the clock readings are arguments of the completions; \<open>None\<close> is undefined behaviour:
  a message longer than \<open>write_buffer_\<close>, or erasing the end iterator of the array.
\<close>

subsection \<open>State\<close>

datatype tk_op = Tk_read | Tk_write bytes

record talker =
  tk_started :: bool
  tk_open :: bool
  tk_username :: bytes
  tk_last_ping :: int
  tk_changed :: bool
  tk_pending :: "tk_op list"
  tk_armed :: bool
  tk_aborted :: nat
  tk_wire :: bytes

definition talker_new :: talker where
  "talker_new = \<lparr>tk_started = False, tk_open = True, tk_username = [], tk_last_ping = 0,
     tk_changed = False, tk_pending = [], tk_armed = False, tk_aborted = 0, tk_wire = []\<rparr>"

record chat =
  ch_talkers :: "talker list"
  ch_clients :: "nat list"

text \<open>The talker whose socket the acceptor will connect next is the last one.\<close>

definition chat_new :: chat where
  "chat_new = \<lparr>ch_talkers = [talker_new], ch_clients = []\<rparr>"

definition max_msg :: nat where "max_msg = 1024"

definition tk :: "chat \<Rightarrow> nat \<Rightarrow> talker" where "tk s i = ch_talkers s ! i"

definition tk_set :: "nat \<Rightarrow> talker \<Rightarrow> chat \<Rightarrow> chat" where
  "tk_set i k s = s\<lparr>ch_talkers := (ch_talkers s)[i := k]\<rparr>"

subsection \<open>Operations\<close>

definition tk_read_complete :: completion where
  "tk_read_complete err buf = (if ec_set err then 0 else if NL \<in> set buf then 0 else 1)"

interpretation chat_lines: line_condition tk_read_complete
  by unfold_locales (simp_all add: tk_read_complete_def)

text \<open>
  \<open>expires_after\<close> cancels the wait in progress; its handler then runs with an error code that
  \<open>on_check_ping\<close>, bound without the placeholder, never sees.
\<close>

definition post_check_ping :: "nat \<Rightarrow> chat \<Rightarrow> chat" where
  "post_check_ping i s =
     (let k = tk s i in
      tk_set i (k\<lparr>tk_aborted := tk_aborted k + (if tk_armed k then 1 else 0), tk_armed := True\<rparr>) s)"

definition do_read :: "nat \<Rightarrow> chat \<Rightarrow> chat" where
  "do_read i s = post_check_ping i (tk_set i ((tk s i)\<lparr>tk_pending := tk_pending (tk s i) @ [Tk_read]\<rparr>) s)"

definition do_write :: "nat \<Rightarrow> bytes \<Rightarrow> chat \<Rightarrow> chat option" where
  "do_write i msg s =
     (if \<not> tk_started (tk s i) then Some s
      else if max_msg < length msg then None
      else Some (tk_set i ((tk s i)\<lparr>tk_pending := tk_pending (tk s i) @ [Tk_write msg]\<rparr>) s))"

definition update_clients_changed :: "chat \<Rightarrow> chat" where
  "update_clients_changed s =
     fold (\<lambda>i t. tk_set i ((tk t i)\<lparr>tk_changed := True\<rparr>) t) (ch_clients s) s"

definition tk_start :: "nat \<Rightarrow> int \<Rightarrow> chat \<Rightarrow> chat" where
  "tk_start i now s =
     (let s1 = tk_set i ((tk s i)\<lparr>tk_started := True\<rparr>) s;
          s2 = s1\<lparr>ch_clients := ch_clients s1 @ [i]\<rparr>;
          s3 = tk_set i ((tk s2 i)\<lparr>tk_last_ping := now\<rparr>) s2
      in do_read i s3)"

definition tk_stop :: "nat \<Rightarrow> chat \<Rightarrow> chat option" where
  "tk_stop i s =
     (if \<not> tk_started (tk s i) then Some s
      else
        let s1 = tk_set i ((tk s i)\<lparr>tk_started := False, tk_open := False\<rparr>) s
        in map_option (\<lambda>cl. update_clients_changed (s1\<lparr>ch_clients := cl\<rparr>)) (erase_first i (ch_clients s1)))"

definition on_login :: "nat \<Rightarrow> bytes \<Rightarrow> chat \<Rightarrow> chat option" where
  "on_login i msg s =
     (let (w1, is1) = extract_word (istream_of msg) (tk_username (tk s i));
          (w2, is2) = extract_word is1 w1;
          s1 = tk_set i ((tk s i)\<lparr>tk_username := w2\<rparr>) s
      in map_option update_clients_changed (do_write i (''login ok'' @ [NL]) s1))"

definition on_ping :: "nat \<Rightarrow> chat \<Rightarrow> chat option" where
  "on_ping i s =
     map_option (\<lambda>t. tk_set i ((tk t i)\<lparr>tk_changed := False\<rparr>) t)
       (do_write i (if tk_changed (tk s i) then ''ping client_list_changed'' @ [NL] else ''ping ok'' @ [NL]) s)"

definition clients_message :: "chat \<Rightarrow> bytes" where
  "clients_message s =
     ''clients '' @ concat (map (\<lambda>j. tk_username (tk s j) @ '' '') (ch_clients s)) @ [NL]"

definition on_clients :: "nat \<Rightarrow> chat \<Rightarrow> chat option" where
  "on_clients i s = do_write i (clients_message s) s"

definition on_read :: "nat \<Rightarrow> error_code \<Rightarrow> bytes \<Rightarrow> chat \<Rightarrow> chat option" where
  "on_read i err msg s =
     (case (if ec_set err then tk_stop i s else Some s) of
        None \<Rightarrow> None
      | Some s1 \<Rightarrow>
          if \<not> tk_started (tk s1 i) then Some s1
          else if prefix ''login '' msg then on_login i msg s1
          else if prefix ''ping'' msg then on_ping i s1
          else if prefix ''ask_clients'' msg then on_clients i s1
          else Some s1)"

definition on_write :: "nat \<Rightarrow> error_code \<Rightarrow> nat \<Rightarrow> chat \<Rightarrow> chat" where
  "on_write i err n s = do_read i s"

text \<open>The two clock readings, in milliseconds.\<close>

definition on_check_ping :: "nat \<Rightarrow> int \<Rightarrow> int \<Rightarrow> chat \<Rightarrow> chat option" where
  "on_check_ping i now now' s =
     map_option (\<lambda>t. tk_set i ((tk t i)\<lparr>tk_last_ping := now'\<rparr>) t)
       (if now - tk_last_ping (tk s i) > 5000 then tk_stop i s else Some s)"

definition handle_accept :: "int \<Rightarrow> chat \<Rightarrow> chat" where
  "handle_accept now s =
     (let s1 = tk_start (length (ch_talkers s) - 1) now s
      in s1\<lparr>ch_talkers := ch_talkers s1 @ [talker_new]\<rparr>)"

subsection \<open>Completions\<close>

datatype chat_event =
    Read_done nat error_code bytes
  | Write_done nat error_code nat
  | Timer_expired nat int int
  | Timer_aborted nat int int
  | Accept_done int

text \<open>
  What an event does, when it is due; a write transfers some of its bytes, \<open>async_write_some\<close> may
  transfer fewer than asked.
\<close>

fun chat_due :: "chat_event \<Rightarrow> chat \<Rightarrow> bool" where
  "chat_due (Read_done i err msg) s \<longleftrightarrow>
     i < length (ch_talkers s) \<and> (\<exists>ops. tk_pending (tk s i) = Tk_read # ops) \<and> length msg \<le> max_msg"
| "chat_due (Write_done i err n) s \<longleftrightarrow>
     i < length (ch_talkers s) \<and> (\<exists>m ops. tk_pending (tk s i) = Tk_write m # ops \<and> n \<le> length m)"
| "chat_due (Timer_expired i now now') s \<longleftrightarrow> i < length (ch_talkers s) \<and> tk_armed (tk s i)"
| "chat_due (Timer_aborted i now now') s \<longleftrightarrow> i < length (ch_talkers s) \<and> 0 < tk_aborted (tk s i)"
| "chat_due (Accept_done now) s \<longleftrightarrow> True"

fun chat_handle :: "chat_event \<Rightarrow> chat \<Rightarrow> chat option" where
  "chat_handle (Read_done i err msg) s =
     on_read i err msg (tk_set i ((tk s i)\<lparr>tk_pending := tl (tk_pending (tk s i))\<rparr>) s)"
| "chat_handle (Write_done i err n) s =
     (case tk_pending (tk s i) of
        Tk_write m # ops \<Rightarrow>
          Some (on_write i err n (tk_set i ((tk s i)\<lparr>tk_pending := ops,
                                     tk_wire := tk_wire (tk s i) @ take n m\<rparr>) s))
      | _ \<Rightarrow> Some s)"
| "chat_handle (Timer_expired i now now') s =
     on_check_ping i now now' (tk_set i ((tk s i)\<lparr>tk_armed := False\<rparr>) s)"
| "chat_handle (Timer_aborted i now now') s =
     on_check_ping i now now' (tk_set i ((tk s i)\<lparr>tk_aborted := tk_aborted (tk s i) - 1\<rparr>) s)"
| "chat_handle (Accept_done now) s = Some (handle_accept now s)"

inductive chat_step :: "chat \<Rightarrow> chat \<Rightarrow> bool" where
  Chat_event: "chat_due e s \<Longrightarrow> chat_handle e s = Some t \<Longrightarrow> chat_step s t"

inductive_cases chat_stepE: "chat_step s t"


subsection \<open>Frame lemmas\<close>

lemma tk_set_sel [simp]:
  "length (ch_talkers (tk_set i k s)) = length (ch_talkers s)"
  "ch_clients (tk_set i k s) = ch_clients s"
  "tk_set i k (tk_set i k' s) = tk_set i k s"
  by (simp_all add: tk_set_def)

lemma tk_tk_set [simp]:
  "i < length (ch_talkers s) \<Longrightarrow> tk (tk_set i k s) j = (if j = i then k else tk s j)"
  by (auto simp: tk_def tk_set_def nth_list_update)

lemma tk_clients [simp]: "tk (s\<lparr>ch_clients := c\<rparr>) j = tk s j"
  by (simp add: tk_def)

text \<open>An operation that keeps the array of clients and who has started.\<close>

definition keeps :: "chat \<Rightarrow> chat \<Rightarrow> bool" where
  "keeps s t \<longleftrightarrow> length (ch_talkers t) = length (ch_talkers s) \<and> ch_clients t = ch_clients s
     \<and> (\<forall>j < length (ch_talkers s). tk_started (tk t j) = tk_started (tk s j))"

lemma keeps_refl [simp]: "keeps s s"
  by (simp add: keeps_def)

lemma keeps_trans: "keeps s t \<Longrightarrow> keeps t u \<Longrightarrow> keeps s u"
  by (simp add: keeps_def)

lemma keeps_set: "i < length (ch_talkers s) \<Longrightarrow> tk_started k = tk_started (tk s i) \<Longrightarrow> keeps s (tk_set i k s)"
  by (simp add: keeps_def)

lemma keeps_read: "i < length (ch_talkers s) \<Longrightarrow> keeps s (do_read i s)"
  by (simp add: do_read_def post_check_ping_def Let_def keeps_set)

lemma keeps_write: "do_write i msg s = Some t \<Longrightarrow> i < length (ch_talkers s) \<Longrightarrow> keeps s t"
  by (auto simp: do_write_def keeps_set split: if_splits)

lemma fold_changed:
  assumes "\<forall>i \<in> set is. i < length (ch_talkers s)"
  shows "keeps s (fold (\<lambda>i t. tk_set i ((tk t i)\<lparr>tk_changed := True\<rparr>) t) is s)
    \<and> (\<forall>j < length (ch_talkers s). tk (fold (\<lambda>i t. tk_set i ((tk t i)\<lparr>tk_changed := True\<rparr>) t) is s) j
        = (if j \<in> set is then (tk s j)\<lparr>tk_changed := True\<rparr> else tk s j))"
  using assms
proof (induction "is" arbitrary: s)
  case (Cons i "is")
  let ?s = "tk_set i ((tk s i)\<lparr>tk_changed := True\<rparr>) s"
  have "keeps s ?s" using Cons.prems by (intro keeps_set) auto
  moreover note Cons.IH [of ?s]
  ultimately show ?case using Cons.prems by (auto intro: keeps_trans)
qed simp

definition chat_inv :: "chat \<Rightarrow> bool" where
  "chat_inv s \<longleftrightarrow> distinct (ch_clients s)
     \<and> (\<forall>i. i \<in> set (ch_clients s) \<longleftrightarrow> i < length (ch_talkers s) \<and> tk_started (tk s i))
     \<and> ch_talkers s \<noteq> [] \<and> \<not> tk_started (last (ch_talkers s))"

lemma last_tk: "ch_talkers s \<noteq> [] \<Longrightarrow> last (ch_talkers s) = tk s (length (ch_talkers s) - 1)"
  by (simp add: tk_def last_conv_nth)

lemma keeps_inv: "keeps s t \<Longrightarrow> chat_inv s \<Longrightarrow> chat_inv t"
  unfolding chat_inv_def keeps_def
  by (metis diff_less last_tk length_0_conv length_greater_0_conv zero_less_one)

lemma clients_bound: "chat_inv s \<Longrightarrow> \<forall>i \<in> set (ch_clients s). i < length (ch_talkers s)"
  by (auto simp: chat_inv_def)

lemma keeps_changed: "chat_inv s \<Longrightarrow> keeps s (update_clients_changed s)"
  using fold_changed [OF clients_bound] by (simp add: update_clients_changed_def)

lemma changed_all:
  "chat_inv s \<Longrightarrow> i \<in> set (ch_clients s) \<Longrightarrow> tk (update_clients_changed s) i = (tk s i)\<lparr>tk_changed := True\<rparr>"
  using fold_changed [OF clients_bound] clients_bound by (simp add: update_clients_changed_def)

subsection \<open>The array of clients\<close>

lemma stop_erases:
  assumes "chat_inv s" and "i < length (ch_talkers s)" and "tk_started (tk s i)"
  shows "\<exists>t. tk_stop i s = Some t \<and> ch_clients t = remove1 i (ch_clients s)
    \<and> length (ch_talkers t) = length (ch_talkers s)
    \<and> (\<forall>j < length (ch_talkers s). tk_started (tk t j) = (j \<noteq> i \<and> tk_started (tk s j)))
    \<and> (\<forall>j \<in> set (ch_clients t). tk_changed (tk t j))"
proof -
  let ?s1 = "tk_set i ((tk s i)\<lparr>tk_started := False, tk_open := False\<rparr>) s"
  let ?s2 = "?s1\<lparr>ch_clients := remove1 i (ch_clients s)\<rparr>"
  from assms have mem: "i \<in> set (ch_clients s)" and dist: "distinct (ch_clients s)"
    by (auto simp: chat_inv_def)
  have b: "\<forall>j \<in> set (ch_clients ?s2). j < length (ch_talkers ?s2)"
    using clients_bound [OF assms(1)] by (auto dest: notin_set_remove1 set_remove1_subset [THEN subsetD])
  note f = fold_changed [OF b]
  have "tk_stop i s = Some (update_clients_changed ?s2)"
    using assms(3) mem by (simp add: tk_stop_def erase_first_remove1)
  moreover have "keeps ?s2 (update_clients_changed ?s2)"
    using f by (simp add: update_clients_changed_def)
  moreover have "\<forall>j \<in> set (ch_clients ?s2). tk_changed (tk (update_clients_changed ?s2) j)"
    using f b by (simp add: update_clients_changed_def)
  ultimately show ?thesis using assms(2) by (auto simp: keeps_def)
qed

lemma stop_inv: "chat_inv s \<Longrightarrow> i < length (ch_talkers s) \<Longrightarrow> \<exists>t. tk_stop i s = Some t \<and> chat_inv t
    \<and> length (ch_talkers t) = length (ch_talkers s) \<and> \<not> tk_started (tk t i)"
proof (cases "tk_started (tk s i)")
  case True
  assume inv: "chat_inv s" and i: "i < length (ch_talkers s)"
  from stop_erases [OF inv i True] obtain t where t: "tk_stop i s = Some t"
    "ch_clients t = remove1 i (ch_clients s)" "length (ch_talkers t) = length (ch_talkers s)"
    "\<forall>j < length (ch_talkers s). tk_started (tk t j) = (j \<noteq> i \<and> tk_started (tk s j))" by blast
  have ne: "ch_talkers t \<noteq> []" using t(3) i by auto
  then have "chat_inv t"
    using inv t by (auto simp: chat_inv_def last_tk)
  with t i show ?thesis by auto
qed (simp add: tk_stop_def)

lemma read_inv: "chat_inv s \<Longrightarrow> i < length (ch_talkers s) \<Longrightarrow> on_read i err msg s = Some t \<Longrightarrow> chat_inv t"
proof -
  assume inv: "chat_inv s" and i: "i < length (ch_talkers s)" and r: "on_read i err msg s = Some t"
  obtain s1 where s1: "(if ec_set err then tk_stop i s else Some s) = Some s1" "chat_inv s1"
    "i < length (ch_talkers s1)"
    using stop_inv [OF inv i] inv i by (cases "ec_set err") auto
  have w: "do_write i m u = Some v \<Longrightarrow> keeps s1 u \<Longrightarrow> keeps s1 v" for m u v
    using keeps_write s1(3) keeps_trans by (metis keeps_def)
  have u: "keeps s1 v \<Longrightarrow> chat_inv (update_clients_changed v)" for v
    using keeps_inv keeps_changed s1(2) by blast
  have set: "keeps s1 v \<Longrightarrow> tk_started k = tk_started (tk v i) \<Longrightarrow> keeps s1 (tk_set i k v)" for v k
    using keeps_set keeps_trans s1(3) by (metis keeps_def)
  show ?thesis
    using r s1(1,2)
    by (auto simp: on_read_def on_login_def on_ping_def on_clients_def Let_def
        split: if_splits prod.splits dest!: w intro!: u set intro: keeps_inv [OF set] keeps_inv)
qed


lemma set_inv: "chat_inv s \<Longrightarrow> i < length (ch_talkers s) \<Longrightarrow> tk_started k = tk_started (tk s i)
    \<Longrightarrow> chat_inv (tk_set i k s)"
  using keeps_inv keeps_set by blast

lemma check_ping_inv: "chat_inv s \<Longrightarrow> i < length (ch_talkers s) \<Longrightarrow>
    \<exists>t. on_check_ping i now now' s = Some t \<and> chat_inv t"
proof -
  assume inv: "chat_inv s" and i: "i < length (ch_talkers s)"
  obtain s1 where "(if now - tk_last_ping (tk s i) > 5000 then tk_stop i s else Some s) = Some s1"
    "chat_inv s1" "length (ch_talkers s1) = length (ch_talkers s)"
    using stop_inv [OF inv i] inv by (cases "now - tk_last_ping (tk s i) > 5000") auto
  then show ?thesis using i by (simp add: on_check_ping_def set_inv)
qed

lemma timer_inv:
  assumes "chat_inv s" and "i < length (ch_talkers s)" and "tk_started k = tk_started (tk s i)"
  obtains t where "on_check_ping i now now' (tk_set i k s) = Some t" "chat_inv t"
  using check_ping_inv [OF set_inv [OF assms], of i now now'] assms(2) by auto

lemma accept_inv: "chat_inv s \<Longrightarrow> chat_inv (handle_accept now s)"
proof -
  assume inv: "chat_inv s"
  let ?n = "length (ch_talkers s) - 1"
  let ?s1 = "tk_start ?n now s"
  let ?k = "(tk s ?n)\<lparr>tk_started := True\<rparr>"
  have ne: "ch_talkers s \<noteq> []" using inv by (simp add: chat_inv_def)
  then have n: "?n < length (ch_talkers s)" by simp
  have fresh: "\<not> tk_started (tk s ?n)" using inv last_tk [OF ne] by (simp add: chat_inv_def)
  have k: "keeps (tk_set ?n (?k\<lparr>tk_last_ping := now\<rparr>) (s\<lparr>ch_clients := ch_clients s @ [?n]\<rparr>)) ?s1"
  proof -
    have "?s1 = do_read ?n (tk_set ?n (?k\<lparr>tk_last_ping := now\<rparr>) (s\<lparr>ch_clients := ch_clients s @ [?n]\<rparr>))"
      using n by (simp add: tk_start_def Let_def tk_set_def tk_def)
    then show ?thesis using n by (simp add: keeps_read)
  qed
  have dist: "distinct (ch_clients s)" and mem: "\<forall>i. i \<in> set (ch_clients s) \<longleftrightarrow> i < length (ch_talkers s) \<and> tk_started (tk s i)"
    using inv by (simp_all add: chat_inv_def)
  have t: "tk (handle_accept now s) j = (if j < length (ch_talkers s) then tk ?s1 j else talker_new)"
    if "j \<le> length (ch_talkers s)" for j
    using k that by (auto simp: handle_accept_def Let_def tk_def nth_append keeps_def)
  have len: "length (ch_talkers (handle_accept now s)) = Suc (length (ch_talkers s))"
    "ch_clients (handle_accept now s) = ch_clients s @ [?n]"
    using k by (simp_all add: handle_accept_def Let_def keeps_def)
  have st: "tk_started (tk ?s1 j) = (j = ?n \<or> tk_started (tk s j))" if "j < length (ch_talkers s)" for j
    using k n that by (simp add: keeps_def)
  have "\<not> tk_started (last (ch_talkers (handle_accept now s)))"
    by (simp add: handle_accept_def Let_def talker_new_def)
  moreover have "ch_talkers (handle_accept now s) \<noteq> []" by (simp add: handle_accept_def Let_def)
  ultimately show ?thesis
    using dist mem fresh n t st unfolding chat_inv_def len by (auto simp: less_Suc_eq talker_new_def)
qed

lemma chat_step_inv: "chat_step s t \<Longrightarrow> chat_inv s \<Longrightarrow> chat_inv t"
proof (erule chat_stepE)
  fix e
  assume inv: "chat_inv s" and due: "chat_due e s" and h: "chat_handle e s = Some t"
  show "chat_inv t"
  proof (cases e)
    case (Read_done i err msg)
    with due have i: "i < length (ch_talkers s)" by simp
    then have "chat_inv (tk_set i ((tk s i)\<lparr>tk_pending := tl (tk_pending (tk s i))\<rparr>) s)"
      using inv by (intro set_inv) simp_all
    from read_inv [OF this, of i err msg t] i h Read_done show ?thesis by simp
  next
    case (Write_done i err n)
    with due obtain m ops where p: "tk_pending (tk s i) = Tk_write m # ops" "i < length (ch_talkers s)" by auto
    then have "chat_inv (do_read i (tk_set i ((tk s i)\<lparr>tk_pending := ops, tk_wire := tk_wire (tk s i) @ take n m\<rparr>) s))"
      using inv by (intro keeps_inv [OF keeps_read] set_inv) simp_all
    with h Write_done p show ?thesis by (simp add: on_write_def)
  next
    case (Timer_expired i now now')
    with due have "i < length (ch_talkers s)" by simp
    then obtain u where "on_check_ping i now now' (tk_set i ((tk s i)\<lparr>tk_armed := False\<rparr>) s) = Some u" "chat_inv u"
      by (rule timer_inv [OF inv, where k = "(tk s i)\<lparr>tk_armed := False\<rparr>" and now = now and now' = now']) simp_all
    with h Timer_expired show ?thesis by simp
  next
    case (Timer_aborted i now now')
    with due have "i < length (ch_talkers s)" by simp
    then obtain u where "on_check_ping i now now' (tk_set i ((tk s i)\<lparr>tk_aborted := tk_aborted (tk s i) - 1\<rparr>) s) = Some u" "chat_inv u"
      by (rule timer_inv [OF inv, where k = "(tk s i)\<lparr>tk_aborted := tk_aborted (tk s i) - 1\<rparr>" and now = now and now' = now']) simp_all
    with h Timer_aborted show ?thesis by simp
  next
    case (Accept_done now)
    with h accept_inv [OF inv, of now] show ?thesis by simp
  qed
qed

lemma chat_reachable_inv: "chat_step\<^sup>*\<^sup>* chat_new s \<Longrightarrow> chat_inv s"
proof (induction rule: rtranclp_induct)
  case base
  show ?case by (auto simp: chat_inv_def chat_new_def talker_new_def tk_def)
next
  case (step s t)
  from chat_step_inv [OF step(2,3)] show ?case .
qed

text \<open>
  C21: in every run of the chat server the array of clients holds each client once, and holds exactly
  the clients that have started and not stopped.
\<close>

theorem chat_clients_are_started:
  assumes "chat_step\<^sup>*\<^sup>* chat_new s"
  shows "distinct (ch_clients s)
    \<and> (i \<in> set (ch_clients s) \<longleftrightarrow> i < length (ch_talkers s) \<and> tk_started (tk s i))"
  using chat_reachable_inv [OF assms] by (simp add: chat_inv_def)

theorem chat_clients_are_started_witness:
  "distinct (ch_clients (handle_accept 0 chat_new))
    \<and> (0 \<in> set (ch_clients (handle_accept 0 chat_new)) \<longleftrightarrow>
       0 < length (ch_talkers (handle_accept 0 chat_new)) \<and> tk_started (tk (handle_accept 0 chat_new) 0))"
proof (rule chat_clients_are_started)
  have "chat_step chat_new (handle_accept 0 chat_new)"
    using Chat_event [of "Accept_done 0" chat_new "handle_accept 0 chat_new"] by simp
  then show "chat_step\<^sup>*\<^sup>* chat_new (handle_accept 0 chat_new)" by blast
qed

lemma do_write_None: "do_write i m s = None \<longleftrightarrow> tk_started (tk s i) \<and> max_msg < length m"
  by (simp add: do_write_def)

lemma do_write_Some: "(\<exists>t. do_write i m s = Some t) \<longleftrightarrow> \<not> (tk_started (tk s i) \<and> max_msg < length m)"
  by (simp add: do_write_def)

text \<open>
  the only undefined behaviour the server can run into is one: a client that asks for the list
  when the list is longer than the 1024 bytes of \<open>write_buffer_\<close>. In particular the erase of a
  stopping client always finds it, for every order of reads, writes, timers and accepts.
\<close>

theorem chat_only_overflow:
  assumes "chat_step\<^sup>*\<^sup>* chat_new s" and "chat_due e s"
  shows "chat_handle e s = None \<longleftrightarrow>
    (\<exists>i err msg. e = Read_done i err msg \<and> \<not> ec_set err \<and> tk_started (tk s i)
      \<and> prefix ''ask_clients'' msg \<and> 1024 < length (clients_message s))"
proof -
  note inv = chat_reachable_inv [OF assms(1)]
  show ?thesis
  proof (cases e)
    case (Read_done i err msg)
    let ?s = "tk_set i ((tk s i)\<lparr>tk_pending := tl (tk_pending (tk s i))\<rparr>) s"
    have i: "i < length (ch_talkers s)" using assms(2) Read_done by simp
    have inv': "chat_inv ?s" using inv i by (simp add: set_inv)
    have names: "clients_message ?s = clients_message s"
      using i by (auto simp: clients_message_def intro!: arg_cong [where f = concat] map_cong)
    show ?thesis
    proof (cases "ec_set err")
      case True
      with stop_inv [OF inv', of i] i Read_done show ?thesis by (auto simp: on_read_def)
    next
      case False
      have np: "\<not> prefix ''login '' msg \<and> \<not> prefix ''ping'' msg" if "prefix ''ask_clients'' msg"
        using that by (auto simp: prefix_def)
      show ?thesis
        using False Read_done i names np
        by (auto simp: on_read_def on_login_def on_ping_def on_clients_def do_write_None do_write_Some max_msg_def
            Let_def split: prod.splits)
    qed
  next
    case (Timer_expired i now now')
    with assms(2) have "i < length (ch_talkers s)" by simp
    then obtain u where "on_check_ping i now now' (tk_set i ((tk s i)\<lparr>tk_armed := False\<rparr>) s) = Some u" "chat_inv u"
      by (rule timer_inv [OF inv, where k = "(tk s i)\<lparr>tk_armed := False\<rparr>" and now = now and now' = now']) simp_all
    with Timer_expired show ?thesis by simp
  next
    case (Timer_aborted i now now')
    with assms(2) have "i < length (ch_talkers s)" by simp
    then obtain u where "on_check_ping i now now' (tk_set i ((tk s i)\<lparr>tk_aborted := tk_aborted (tk s i) - 1\<rparr>) s) = Some u" "chat_inv u"
      by (rule timer_inv [OF inv, where k = "(tk s i)\<lparr>tk_aborted := tk_aborted (tk s i) - 1\<rparr>" and now = now and now' = now']) simp_all
    with Timer_aborted show ?thesis by simp
  qed (use assms(2) in auto)
qed


theorem chat_only_overflow_witness:
  "\<exists>s. chat_step\<^sup>*\<^sup>* chat_new s \<and> chat_due (Read_done 0 no_error ''ask_clients'') s
    \<and> (chat_handle (Read_done 0 no_error ''ask_clients'') s = None \<longleftrightarrow>
       (\<exists>i err msg. Read_done 0 no_error ''ask_clients'' = Read_done i err msg \<and> \<not> ec_set err
         \<and> tk_started (tk s i) \<and> prefix ''ask_clients'' msg \<and> 1024 < length (clients_message s)))"
proof -
  let ?s = "handle_accept 0 chat_new"
  have "chat_step chat_new ?s" using Chat_event [of "Accept_done 0" chat_new ?s] by simp
  then have run: "chat_step\<^sup>*\<^sup>* chat_new ?s" by blast
  have due: "chat_due (Read_done 0 no_error ''ask_clients'') ?s"
    by (simp add: handle_accept_def tk_start_def do_read_def post_check_ping_def chat_new_def
        talker_new_def tk_set_def tk_def Let_def max_msg_def)
  show ?thesis by (intro exI [of _ ?s] conjI run due chat_only_overflow [OF run due])
qed

subsection \<open>What a client is answered\<close>

text \<open>
  when a client logs in, it is sent "login ok", the username it gave is remembered, and every
  client of the array, itself included, is marked: its next ping will report the change.
\<close>

theorem chat_login_notifies:
  assumes "chat_inv s" and "i < length (ch_talkers s)" and "tk_started (tk s i)"
    and "name \<noteq> []" and "\<forall>c \<in> set name. \<not> isspace c"
  shows "\<exists>t. on_read i no_error (''login '' @ name @ [NL]) s = Some t
    \<and> tk_username (tk t i) = name
    \<and> tk_pending (tk t i) = tk_pending (tk s i) @ [Tk_write (''login ok'' @ [NL])]
    \<and> ch_clients t = ch_clients s \<and> (\<forall>j \<in> set (ch_clients t). tk_changed (tk t j))"
proof -
  have w1: "extract_word (istream_of (''login '' @ name @ [NL])) u
      = (''login'', istream_of (CHR '' '' # name @ [NL]))" for u
    using extract_word_hit [of "''login''" "CHR '' ''" "name @ [NL]" u] by (simp add: isspace_def)
  have w2: "extract_word (istream_of (CHR '' '' # name @ [NL])) u = (name, istream_of [NL])" for u
    using extract_word_hit [OF assms(4,5), of NL "[]" u] by (simp add: extract_word_space)
  let ?s = "tk_set i ((tk s i)\<lparr>tk_username := name,
      tk_pending := tk_pending (tk s i) @ [Tk_write (''login ok'' @ [NL])]\<rparr>) s"
  have inv: "chat_inv ?s" using assms(1,2) by (intro set_inv) simp_all
  have mem: "i \<in> set (ch_clients ?s)" using assms(1-3) by (simp add: chat_inv_def)
  have run: "on_read i no_error (''login '' @ name @ [NL]) s = Some (update_clients_changed ?s)"
    using assms(2,3) w1 w2 by (simp add: on_read_def on_login_def do_write_def max_msg_def)
  have "\<forall>j \<in> set (ch_clients ?s). tk_changed (tk (update_clients_changed ?s) j)"
    using changed_all [OF inv] by simp
  moreover have "ch_clients (update_clients_changed ?s) = ch_clients s"
    using keeps_changed [OF inv] by (simp add: keeps_def)
  moreover have "tk (update_clients_changed ?s) i = (tk ?s i)\<lparr>tk_changed := True\<rparr>"
    by (rule changed_all [OF inv mem])
  ultimately show ?thesis using run assms(2) by simp
qed

theorem chat_login_notifies_witness:
  "\<exists>t. on_read 0 no_error (''login '' @ ''Ann'' @ [NL]) (handle_accept 0 chat_new) = Some t
    \<and> tk_username (tk t 0) = ''Ann'' \<and> (\<forall>j \<in> set (ch_clients t). tk_changed (tk t j))"
proof -
  have run: "chat_step\<^sup>*\<^sup>* chat_new (handle_accept 0 chat_new)"
    using Chat_event [of "Accept_done 0" chat_new "handle_accept 0 chat_new"] by auto
  have "0 < length (ch_talkers (handle_accept 0 chat_new))" "tk_started (tk (handle_accept 0 chat_new) 0)"
    by (simp_all add: handle_accept_def tk_start_def do_read_def post_check_ping_def chat_new_def
        talker_new_def tk_set_def tk_def Let_def)
  from chat_login_notifies [OF chat_reachable_inv [OF run] this, of "''Ann''"] show ?thesis
    by (auto simp: isspace_def)
qed

lemma chat_ping_and_list_aux:
  assumes "i < length (ch_talkers s)" and "tk_started (tk s i)" and "length (clients_message s) \<le> 1024"
  shows "on_read i no_error (''ping'' @ [NL]) s = Some (tk_set i ((tk s i)\<lparr>
      tk_pending := tk_pending (tk s i) @ [Tk_write (if tk_changed (tk s i)
        then ''ping client_list_changed'' @ [NL] else ''ping ok'' @ [NL])], tk_changed := False\<rparr>) s)
    \<and> on_read i no_error (''ask_clients'' @ [NL]) s = Some (tk_set i ((tk s i)\<lparr>
      tk_pending := tk_pending (tk s i) @ [Tk_write (clients_message s)]\<rparr>) s)"
  using assms by (simp add: on_read_def on_ping_def on_clients_def do_write_def max_msg_def)

text \<open>
  a ping is answered with whether the list has changed since the last ping, and clears the mark;
  a request for the list is answered with the usernames of the clients in the order of the array.
\<close>

theorem chat_ping_and_list:
  assumes "i < length (ch_talkers s)" and "tk_started (tk s i)" and "length (clients_message s) \<le> 1024"
  shows "on_read i no_error (''ping'' @ [NL]) s = Some (tk_set i ((tk s i)\<lparr>
      tk_pending := tk_pending (tk s i) @ [Tk_write (if tk_changed (tk s i)
        then ''ping client_list_changed'' @ [NL] else ''ping ok'' @ [NL])], tk_changed := False\<rparr>) s)
    \<and> on_read i no_error (''ask_clients'' @ [NL]) s = Some (tk_set i ((tk s i)\<lparr>
      tk_pending := tk_pending (tk s i) @ [Tk_write (clients_message s)]\<rparr>) s)"
  by (rule chat_ping_and_list_aux [OF assms])

theorem chat_ping_and_list_witness:
  "on_read 0 no_error (''ping'' @ [NL]) (tk_set 0 (talker_new\<lparr>tk_started := True\<rparr>) chat_new)
    = Some (tk_set 0 (talker_new\<lparr>tk_started := True, tk_pending := [Tk_write (''ping ok'' @ [NL])]\<rparr>) chat_new)"
proof -
  let ?s = "tk_set 0 (talker_new\<lparr>tk_started := True\<rparr>) chat_new"
  have "0 < length (ch_talkers ?s)" "tk_started (tk ?s 0)" "length (clients_message ?s) \<le> 1024"
    by (simp_all add: chat_new_def clients_message_def)
  from chat_ping_and_list [OF this, THEN conjunct1] show ?thesis
    by (simp add: chat_new_def talker_new_def)
qed

text \<open>
  the check of the ping timer runs once per wait and does not arm the timer again. When it runs
  within 5000 milliseconds of the time it compares with, which the handler of the wait it replaced
  has just set, the silent client is kept, and no timer will ever look at it again.
\<close>

theorem chat_silent_client_kept:
  assumes "i < length (ch_talkers s)" and "tk_started (tk s i)" and "tk_armed (tk s i)"
    and "tk_aborted (tk s i) = 0" and "now - tk_last_ping (tk s i) \<le> 5000"
  shows "\<exists>t. chat_handle (Timer_expired i now now') s = Some t \<and> tk_started (tk t i)
    \<and> tk_pending (tk t i) = tk_pending (tk s i)
    \<and> (\<forall>now now'. \<not> chat_due (Timer_expired i now now') t \<and> \<not> chat_due (Timer_aborted i now now') t)"
  using assms by (simp add: on_check_ping_def)

theorem chat_silent_client_kept_witness:
  "\<exists>t. chat_handle (Timer_expired 0 5000 5000) (handle_accept 0 chat_new) = Some t \<and> tk_started (tk t 0)
    \<and> tk_pending (tk t 0) = [Tk_read]
    \<and> (\<forall>now now'. \<not> chat_due (Timer_expired 0 now now') t \<and> \<not> chat_due (Timer_aborted 0 now now') t)"
proof -
  let ?s = "handle_accept 0 chat_new"
  have "0 < length (ch_talkers ?s)" "tk_started (tk ?s 0)" "tk_armed (tk ?s 0)" "tk_aborted (tk ?s 0) = 0"
    "5000 - tk_last_ping (tk ?s 0) \<le> 5000" "tk_pending (tk ?s 0) = [Tk_read]"
    by (simp_all add: handle_accept_def tk_start_def do_read_def post_check_ping_def chat_new_def
        talker_new_def tk_set_def tk_def Let_def)
  from chat_silent_client_kept [OF this(1-5), of 5000] this(6) show ?thesis by simp
qed

end
