(* ===== verification/Chat_Client.thy ===== *)
theory Chat_Client
  imports Chat_Server
begin

text \<open>
  The asynchronous chat client (asio.cpp.v1/ch04/async_client.cpp), and its dialogue with the
  server: every request it can send is answered by a message it understands. \<open>None\<close> is the
  overflow of \<open>write_buffer_\<close> or the exception of \<open>substr\<close>.
\<close>

datatype tc_op = Tc_connect | Tc_read | Tc_write bytes | Tc_timer nat

record chat_client =
  tc_username :: bytes
  tc_started :: bool
  tc_open :: bool
  tc_pending :: "tc_op list"
  tc_lists :: "bytes list"

definition tc_begin :: "tc_op \<Rightarrow> chat_client \<Rightarrow> chat_client" where
  "tc_begin op c = c\<lparr>tc_pending := tc_pending c @ [op]\<rparr>"

text \<open>The two \<open>start\<close>s: construction and the first asynchronous operation.\<close>

definition tc_start :: "bytes \<Rightarrow> chat_client" where
  "tc_start username = tc_begin Tc_connect
     \<lparr>tc_username = username, tc_started = True, tc_open = True, tc_pending = [], tc_lists = []\<rparr>"

definition tc_stop :: "chat_client \<Rightarrow> chat_client" where
  "tc_stop c = (if \<not> tc_started c then c else c\<lparr>tc_started := False, tc_open := False\<rparr>)"

definition tc_do_write :: "bytes \<Rightarrow> chat_client \<Rightarrow> chat_client option" where
  "tc_do_write msg c =
     (if \<not> tc_started c then Some c
      else if max_msg < length msg then None else Some (tc_begin (Tc_write msg) c))"

definition tc_do_read :: "chat_client \<Rightarrow> chat_client" where
  "tc_do_read c = tc_begin Tc_read c"

definition do_ask_clients :: "chat_client \<Rightarrow> chat_client option" where
  "do_ask_clients c = tc_do_write (''ask_clients'' @ [NL]) c"

definition tc_do_ping :: "chat_client \<Rightarrow> chat_client option" where
  "tc_do_ping c = tc_do_write (''ping'' @ [NL]) c"

text \<open>\<open>rand\<close> is an argument.\<close>

definition postpone_ping :: "nat \<Rightarrow> chat_client \<Rightarrow> chat_client" where
  "postpone_ping rand c = (let millis = rand mod 7000 in tc_begin (Tc_timer millis) c)"

definition tc_on_connect :: "error_code \<Rightarrow> chat_client \<Rightarrow> chat_client option" where
  "tc_on_connect err c =
     (if \<not> ec_set err then tc_do_write (''login '' @ tc_username c @ [NL]) c else Some (tc_stop c))"

definition tc_on_login :: "chat_client \<Rightarrow> chat_client option" where
  "tc_on_login c = do_ask_clients c"

definition tc_on_ping :: "nat \<Rightarrow> bytes \<Rightarrow> chat_client \<Rightarrow> chat_client option" where
  "tc_on_ping rand msg c =
     (let (w1, is1) = extract_word (istream_of msg) [];
          (answer, is2) = extract_word is1 w1
      in if answer = ''client_list_changed'' then do_ask_clients c
         else Some (postpone_ping rand c))"

text \<open>\<open>substr(8)\<close> throws when the message is shorter; what it prints is kept in \<open>tc_lists\<close>.\<close>

definition tc_on_clients :: "nat \<Rightarrow> bytes \<Rightarrow> chat_client \<Rightarrow> chat_client option" where
  "tc_on_clients rand msg c =
     (if length msg < 8 then None
      else let clients = drop 8 msg
           in Some (postpone_ping rand (c\<lparr>tc_lists := tc_lists c @ [clients]\<rparr>)))"

definition tc_on_read :: "nat \<Rightarrow> error_code \<Rightarrow> bytes \<Rightarrow> chat_client \<Rightarrow> chat_client option" where
  "tc_on_read rand err msg c =
     (let c1 = (if ec_set err then tc_stop c else c) in
      if \<not> tc_started c1 then Some c1
      else if prefix ''login '' msg then tc_on_login c1
      else if prefix ''ping'' msg then tc_on_ping rand msg c1
      else if prefix ''clients '' msg then tc_on_clients rand msg c1
      else Some c1)"

definition tc_on_write :: "error_code \<Rightarrow> nat \<Rightarrow> chat_client \<Rightarrow> chat_client" where
  "tc_on_write err n c = tc_do_read c"

definition tc_read_complete :: completion where
  "tc_read_complete err buf = (if ec_set err then 0 else if NL \<in> set buf then 0 else 1)"

interpretation client_lines: line_condition tc_read_complete
  by unfold_locales (simp_all add: tc_read_complete_def)

subsection \<open>Completions\<close>

text \<open>
  A completion carries the error code, the line read, the bytes transferred and the random number
  its handler may draw.
\<close>

definition tc_complete :: "nat \<Rightarrow> error_code \<Rightarrow> bytes \<Rightarrow> nat \<Rightarrow> chat_client \<Rightarrow> chat_client option" where
  "tc_complete rand err msg n c =
     (case tc_pending c of
        [] \<Rightarrow> None
      | op # ops \<Rightarrow>
          let c1 = c\<lparr>tc_pending := ops\<rparr> in
          (case op of
             Tc_connect \<Rightarrow> tc_on_connect err c1
           | Tc_read \<Rightarrow> tc_on_read rand err msg c1
           | Tc_write m \<Rightarrow> Some (tc_on_write err n c1)
           | Tc_timer ms \<Rightarrow> tc_do_ping c1))"

inductive tc_step :: "chat_client \<Rightarrow> chat_client \<Rightarrow> bool" where
  Tc_completion: "tc_complete rand err msg n c = Some d \<Longrightarrow> tc_step c d"

inductive_cases tc_stepE: "tc_step c d"

lemmas tc_defs = tc_on_connect_def tc_on_read_def tc_on_login_def tc_on_ping_def tc_on_clients_def
  tc_on_write_def tc_do_ping_def tc_do_write_def tc_do_read_def do_ask_clients_def postpone_ping_def
  tc_begin_def tc_stop_def Let_def

lemma tc_complete_single:
  assumes "tc_complete rand err msg n c = Some d" and "length (tc_pending c) \<le> 1"
  shows "length (tc_pending d) \<le> 1"
  using assms
  by (auto simp: tc_complete_def tc_defs split: list.splits tc_op.splits if_splits prod.splits)

text \<open>
  the client is strictly half-duplex: in every run it has at most one asynchronous operation in
  flight, so \<open>read_buffer_\<close> and \<open>write_buffer_\<close> are never written while an operation uses them.
\<close>

theorem chat_client_half_duplex:
  assumes "tc_step\<^sup>*\<^sup>* (tc_start username) c"
  shows "length (tc_pending c) \<le> 1"
  using assms
proof (induction rule: rtranclp_induct)
  case base
  show ?case by (simp add: tc_start_def tc_begin_def)
next
  case (step c d)
  then show ?case by (auto elim!: tc_stepE dest: tc_complete_single)
qed

theorem chat_client_half_duplex_witness:
  "\<exists>c. tc_step (tc_start ''Ann'') c \<and> tc_pending c = [Tc_write (''login Ann'' @ [NL])]
     \<and> length (tc_pending c) \<le> 1"
proof -
  let ?c = "(tc_start ''Ann'')\<lparr>tc_pending := [Tc_write (''login Ann'' @ [NL])]\<rparr>"
  have "tc_complete 0 no_error [] 0 (tc_start ''Ann'') = Some ?c"
    by (simp add: tc_complete_def tc_start_def tc_defs max_msg_def)
  then have s: "tc_step (tc_start ''Ann'') ?c" by (rule Tc_completion)
  then have "tc_step\<^sup>*\<^sup>* (tc_start ''Ann'') ?c" by blast
  from chat_client_half_duplex [OF this] s show ?thesis by (intro exI [of _ ?c]) simp
qed

subsection \<open>The dialogue\<close>

text \<open>The requests a client with the given username can send.\<close>

definition client_request :: "bytes \<Rightarrow> bytes \<Rightarrow> bool" where
  "client_request username m \<longleftrightarrow>
     m = ''login '' @ username @ [NL] \<or> m = ''ping'' @ [NL] \<or> m = ''ask_clients'' @ [NL]"

text \<open>Every write a client starts is one of them.\<close>

definition tc_sound :: "chat_client \<Rightarrow> bool" where
  "tc_sound c \<longleftrightarrow> (\<forall>m. Tc_write m \<in> set (tc_pending c) \<longrightarrow> client_request (tc_username c) m)"

text \<open>What a handler may add to the operations in flight.\<close>

definition tc_grows :: "chat_client \<Rightarrow> chat_client \<Rightarrow> bool" where
  "tc_grows c d \<longleftrightarrow> tc_username d = tc_username c
     \<and> (\<forall>m. Tc_write m \<in> set (tc_pending d) \<longrightarrow> Tc_write m \<in> set (tc_pending c) \<or> client_request (tc_username c) m)"

lemma tc_grows_basic:
  "tc_grows c c" "tc_grows c (tc_stop c)" "tc_grows c (tc_do_read c)" "tc_grows c (postpone_ping rand c)"
  "tc_do_write m c = Some d \<Longrightarrow> client_request (tc_username c) m \<Longrightarrow> tc_grows c d"
  by (auto simp: tc_grows_def tc_stop_def tc_do_read_def postpone_ping_def tc_begin_def tc_do_write_def Let_def
      split: if_splits)

lemma tc_grows_trans: "tc_grows b c \<Longrightarrow> tc_grows c d \<Longrightarrow> tc_grows b d"
  by (auto simp: tc_grows_def)

lemma tc_grows_ask: "do_ask_clients c = Some d \<Longrightarrow> tc_grows c d"
  by (auto simp: do_ask_clients_def client_request_def intro: tc_grows_basic(5))

lemma tc_grows_ping: "tc_do_ping c = Some d \<Longrightarrow> tc_grows c d"
  by (auto simp: tc_do_ping_def client_request_def intro: tc_grows_basic(5))

lemma tc_grows_connect: "tc_on_connect err c = Some d \<Longrightarrow> tc_grows c d"
  by (auto simp: tc_on_connect_def client_request_def intro: tc_grows_basic split: if_splits)

lemma tc_grows_lists: "tc_grows (c\<lparr>tc_lists := l\<rparr>) d = tc_grows c d"
  by (simp add: tc_grows_def)

lemma tc_grows_clients: "tc_on_clients rand msg c = Some d \<Longrightarrow> tc_grows c d"
  using tc_grows_basic(4) [of "c\<lparr>tc_lists := tc_lists c @ [drop 8 msg]\<rparr>" rand]
  by (auto simp: tc_on_clients_def tc_grows_lists split: if_splits)

lemma tc_grows_read: "tc_on_read rand err msg c = Some d \<Longrightarrow> tc_grows c d"
proof -
  assume r: "tc_on_read rand err msg c = Some d"
  let ?c1 = "if ec_set err then tc_stop c else c"
  have "tc_grows c ?c1" by (simp add: tc_grows_basic)
  moreover have "tc_grows ?c1 d"
    using r unfolding tc_on_read_def Let_def
    by (auto simp: tc_on_login_def tc_on_ping_def Let_def split: if_splits prod.splits
        intro: tc_grows_ask tc_grows_clients tc_grows_basic)
  ultimately show ?thesis by (rule tc_grows_trans)
qed

lemma tc_complete_sound:
  assumes "tc_complete rand err msg n c = Some d" and "tc_sound c"
  shows "tc_sound d \<and> tc_username d = tc_username c"
proof -
  from assms(1) obtain op ops where p: "tc_pending c = op # ops"
    by (auto simp: tc_complete_def split: list.splits)
  have "tc_grows (c\<lparr>tc_pending := ops\<rparr>) d"
    using assms(1) p by (cases op) (auto simp: tc_complete_def tc_on_write_def
        intro: tc_grows_connect tc_grows_read tc_grows_ping tc_grows_basic)
  then show ?thesis using assms(2) p by (auto simp: tc_grows_def tc_sound_def)
qed

text \<open>The answers of the server, as its handlers write them.\<close>

definition server_answer :: "bytes \<Rightarrow> bool" where
  "server_answer m \<longleftrightarrow> m = ''login ok'' @ [NL] \<or> m = ''ping client_list_changed'' @ [NL]
     \<or> m = ''ping ok'' @ [NL] \<or> (\<exists>names. m = ''clients '' @ names @ [NL])"

lemma server_answers:
  assumes inv: "chat_inv s" and i: "i < length (ch_talkers s)" and st: "tk_started (tk s i)"
    and req: "client_request username m" and short: "length (clients_message s) \<le> 1024"
  shows "\<exists>t a. on_read i no_error m s = Some t \<and> server_answer a
    \<and> tk_pending (tk t i) = tk_pending (tk s i) @ [Tk_write a]"
proof -
  have mem: "i \<in> set (ch_clients s)" using inv i st by (simp add: chat_inv_def)
  consider "m = ''login '' @ username @ [NL]" | "m = ''ping'' @ [NL]" | "m = ''ask_clients'' @ [NL]"
    using req by (auto simp: client_request_def)
  then show ?thesis
  proof cases
    case 1
    obtain u where run: "on_read i no_error m s = Some (update_clients_changed (tk_set i ((tk s i)\<lparr>tk_username := u,
        tk_pending := tk_pending (tk s i) @ [Tk_write (''login ok'' @ [NL])]\<rparr>) s))"
    proof -
      obtain w1 is1 where w1: "extract_word (istream_of m) (tk_username (tk s i)) = (w1, is1)" by force
      obtain w2 is2 where "extract_word is1 w1 = (w2, is2)" by force
      with w1 1 i st that show ?thesis by (simp add: on_read_def on_login_def do_write_def max_msg_def)
    qed
    let ?s = "tk_set i ((tk s i)\<lparr>tk_username := u,
        tk_pending := tk_pending (tk s i) @ [Tk_write (''login ok'' @ [NL])]\<rparr>) s"
    have "chat_inv ?s" using inv i by (intro set_inv) simp_all
    then have "tk (update_clients_changed ?s) i = (tk ?s i)\<lparr>tk_changed := True\<rparr>"
      using mem by (intro changed_all) simp_all
    with run i show ?thesis by (auto simp: server_answer_def)
  next
    case 2
    with chat_ping_and_list_aux [OF i st short] i show ?thesis by (auto simp: server_answer_def)
  next
    case 3
    with chat_ping_and_list_aux [OF i st short] i show ?thesis
      by (auto simp: server_answer_def clients_message_def)
  qed
qed

lemma client_understands:
  assumes "server_answer a" and "tc_started c"
  shows "\<exists>d op. tc_on_read rand no_error a c = Some d \<and> tc_pending d = tc_pending c @ [op] \<and> op \<noteq> Tc_read"
  using assms
  by (auto simp: server_answer_def tc_defs max_msg_def split: prod.splits if_splits)

text \<open>
  the dialogue never gets stuck while both sides are up and the list of users fits the buffer:
  whatever request a client of any run has in flight, the server's handler starts exactly one write
  of an answer, and the client's handler of that answer goes on to its next write or timer.
\<close>

theorem chat_dialogue_goes_on:
  assumes "tc_step\<^sup>*\<^sup>* (tc_start username) c" and "tc_pending c = [Tc_write m]" and "tc_started c"
    and "chat_step\<^sup>*\<^sup>* chat_new s" and "i < length (ch_talkers s)" and "tk_started (tk s i)"
    and "length (clients_message s) \<le> 1024"
  shows "\<exists>t a d op. on_read i no_error m s = Some t
    \<and> tk_pending (tk t i) = tk_pending (tk s i) @ [Tk_write a]
    \<and> tc_on_read rand no_error a (c\<lparr>tc_pending := []\<rparr>) = Some d \<and> tc_pending d = [op] \<and> op \<noteq> Tc_read"
proof -
  from assms(1) have "tc_sound c \<and> tc_username c = username"
  proof (induction rule: rtranclp_induct)
    case base
    show ?case by (simp add: tc_sound_def tc_start_def tc_begin_def)
  next
    case (step c d)
    then show ?case by (auto elim!: tc_stepE dest: tc_complete_sound)
  qed
  then have req: "client_request username m" using assms(2) by (auto simp: tc_sound_def)
  from server_answers [OF chat_reachable_inv [OF assms(4)] assms(5,6) req assms(7)]
  obtain t a where ta: "on_read i no_error m s = Some t" "server_answer a"
    "tk_pending (tk t i) = tk_pending (tk s i) @ [Tk_write a]" by blast
  have "tc_started (c\<lparr>tc_pending := []\<rparr>)" using assms(3) by simp
  from client_understands [OF ta(2) this, of rand] ta show ?thesis by auto
qed


theorem chat_dialogue_goes_on_witness:
  "\<exists>c m t a d op. tc_step (tc_start ''Ann'') c \<and> tc_pending c = [Tc_write m]
    \<and> on_read 0 no_error m (handle_accept 0 chat_new) = Some t
    \<and> tk_pending (tk t 0) = tk_pending (tk (handle_accept 0 chat_new) 0) @ [Tk_write a]
    \<and> tc_on_read 0 no_error a (c\<lparr>tc_pending := []\<rparr>) = Some d \<and> tc_pending d = [op] \<and> op \<noteq> Tc_read"
proof -
  let ?c = "(tc_start ''Ann'')\<lparr>tc_pending := [Tc_write (''login Ann'' @ [NL])]\<rparr>"
  have "tc_complete 0 no_error [] 0 (tc_start ''Ann'') = Some ?c"
    by (simp add: tc_complete_def tc_start_def tc_defs max_msg_def)
  then have s: "tc_step (tc_start ''Ann'') ?c" by (rule Tc_completion)
  then have c: "tc_step\<^sup>*\<^sup>* (tc_start ''Ann'') ?c" by blast
  have st: "tc_started ?c" by (simp add: tc_start_def tc_begin_def)
  have p: "tc_pending ?c = [Tc_write (''login Ann'' @ [NL])]" by simp
  have run: "chat_step\<^sup>*\<^sup>* chat_new (handle_accept 0 chat_new)"
    using Chat_event [of "Accept_done 0" chat_new "handle_accept 0 chat_new"] by auto
  have up: "0 < length (ch_talkers (handle_accept 0 chat_new))" "tk_started (tk (handle_accept 0 chat_new) 0)"
    "length (clients_message (handle_accept 0 chat_new)) \<le> 1024"
    by (simp_all add: handle_accept_def tk_start_def do_read_def post_check_ping_def chat_new_def
        talker_new_def tk_set_def tk_def clients_message_def Let_def)
  from chat_dialogue_goes_on [OF c p st run up, of 0] s p show ?thesis by blast
qed

end
