(* ===== verification/Chat_Sync.thy ===== *)
theory Chat_Sync
  imports Asio_Socket
begin

text \<open>
  The synchronous chat server (asio.cpp.v1/ch04/sync_server.cpp): each client's receive buffer with
  the count of bytes already read, the framing of requests, the polling thread with its sweep of
  timed-out clients; and the synchronous client (sync_client.cpp). The bytes the kernel holds for a
  client, the errors of its calls and the clock are part of the state or arguments; \<open>clients_changed_\<close>
  has no initialiser, and what is read from it before it is set is an argument too.
\<close>

subsection \<open>A client of the server\<close>

record sclient =
  sc_kernel :: bytes
  sc_rerr :: "error_code option"
  sc_werr :: "error_code option"
  sc_open :: bool
  sc_already_read :: nat
  sc_buff :: bytes
  sc_username :: bytes
  sc_changed :: "bool option"
  sc_last_ping :: int
  sc_out :: bytes

definition sync_max_msg :: nat where "sync_max_msg = 1024"

definition sclient_new :: "bytes \<Rightarrow> int \<Rightarrow> sclient" where
  "sclient_new uninitialised now =
     \<lparr>sc_kernel = [], sc_rerr = None, sc_werr = None, sc_open = True, sc_already_read = 0,
      sc_buff = uninitialised, sc_username = [], sc_changed = None, sc_last_ping = now, sc_out = []\<rparr>"

record schat =
  sh_clients :: "sclient list"

definition sc :: "schat \<Rightarrow> nat \<Rightarrow> sclient" where "sc s i = sh_clients s ! i"

definition sc_set :: "nat \<Rightarrow> sclient \<Rightarrow> schat \<Rightarrow> schat" where
  "sc_set i k s = s\<lparr>sh_clients := (sh_clients s)[i := k]\<rparr>"

text \<open>Calls that may throw give the exception, if any, and the state.\<close>

type_synonym outcome = "exn option \<times> schat"

definition sync_write :: "nat \<Rightarrow> bytes \<Rightarrow> schat \<Rightarrow> outcome" where
  "sync_write i msg s =
     (case sc_werr (sc s i) of
        Some e \<Rightarrow> (Some (System_error e), s)
      | None \<Rightarrow> (None, sc_set i ((sc s i)\<lparr>sc_out := sc_out (sc s i) @ msg\<rparr>) s))"

definition sync_stop :: "nat \<Rightarrow> schat \<Rightarrow> schat" where
  "sync_stop i s = sc_set i ((sc s i)\<lparr>sc_open := False\<rparr>) s"

definition timed_out :: "int \<Rightarrow> sclient \<Rightarrow> bool" where
  "timed_out now k \<longleftrightarrow> now - sc_last_ping k > 5000"

definition sync_update_clients_changed :: "schat \<Rightarrow> schat" where
  "sync_update_clients_changed s = s\<lparr>sh_clients := map (\<lambda>k. k\<lparr>sc_changed := Some True\<rparr>) (sh_clients s)\<rparr>"

text \<open>
  \<open>read_request\<close>: only what is available, at most the room left in the buffer; \<open>sc_rerr\<close> is the
  error \<open>available\<close> or \<open>read_some\<close> throws, if any.
\<close>

definition read_request :: "nat \<Rightarrow> schat \<Rightarrow> outcome" where
  "read_request i s =
     (let k = sc s i in
      case sc_rerr k of
        Some e \<Rightarrow> (Some (System_error e), s)
      | None \<Rightarrow>
          if sc_kernel k = [] then (None, s)
          else
            let got = take (sync_max_msg - sc_already_read k) (sc_kernel k);
                buff' = take (sc_already_read k) (sc_buff k) @ got
                        @ drop (sc_already_read k + length got) (sc_buff k)
            in (None, sc_set i (k\<lparr>sc_kernel := drop (length got) (sc_kernel k), sc_buff := buff',
                                sc_already_read := sc_already_read k + length got\<rparr>) s))"

text \<open>
  The framing: the request is what precedes the first newline among the bytes read; the copy that is
  to move the rest of them to the front starts at \<open>already_read_\<close>.
\<close>

definition take_request :: "sclient \<Rightarrow> (bytes \<times> sclient) option" where
  "take_request k =
     (let have_read = take (sc_already_read k) (sc_buff k) in
      if NL \<notin> set have_read then None
      else
        let pos = length (before NL have_read);
            msg = take pos (sc_buff k);
            n = sync_max_msg - sc_already_read k;
            buff' = take n (drop (sc_already_read k) (sc_buff k)) @ drop n (sc_buff k)
        in Some (msg, k\<lparr>sc_buff := buff', sc_already_read := sc_already_read k - (pos + 1)\<rparr>))"

definition sync_on_login :: "nat \<Rightarrow> bytes \<Rightarrow> schat \<Rightarrow> outcome" where
  "sync_on_login i msg s =
     (let (w1, is1) = extract_word (istream_of msg) (sc_username (sc s i));
          (w2, is2) = extract_word is1 w1;
          s1 = sc_set i ((sc s i)\<lparr>sc_username := w2\<rparr>) s
      in case sync_write i (''login ok'' @ [NL]) s1 of
           (Some e, s2) \<Rightarrow> (Some e, s2)
         | (None, s2) \<Rightarrow> (None, sync_update_clients_changed s2))"

definition sync_on_ping :: "bool \<Rightarrow> nat \<Rightarrow> schat \<Rightarrow> outcome" where
  "sync_on_ping junk i s =
     (let changed = (case sc_changed (sc s i) of Some b \<Rightarrow> b | None \<Rightarrow> junk) in
      case sync_write i (if changed then ''ping client_list_changed'' @ [NL] else ''ping ok'' @ [NL]) s of
        (Some e, s1) \<Rightarrow> (Some e, s1)
      | (None, s1) \<Rightarrow> (None, sc_set i ((sc s1 i)\<lparr>sc_changed := Some False\<rparr>) s1))"

definition sync_list :: "schat \<Rightarrow> bytes" where
  "sync_list s = ''clients '' @ concat (map (\<lambda>k. sc_username k @ '' '') (sh_clients s)) @ [NL]"

definition sync_on_clients :: "nat \<Rightarrow> schat \<Rightarrow> outcome" where
  "sync_on_clients i s = sync_write i (sync_list s) s"

definition sync_process_request :: "bool \<Rightarrow> int \<Rightarrow> nat \<Rightarrow> schat \<Rightarrow> outcome" where
  "sync_process_request junk now i s =
     (case take_request (sc s i) of
        None \<Rightarrow> (None, s)
      | Some (msg, k) \<Rightarrow>
          let s1 = sc_set i (k\<lparr>sc_last_ping := now\<rparr>) s in
          if prefix ''login '' msg then sync_on_login i msg s1
          else if prefix ''ping'' msg then sync_on_ping junk i s1
          else if prefix ''ask_clients'' msg then sync_on_clients i s1
          else (None, s1))"

definition answer_to_client :: "bool \<Rightarrow> int \<Rightarrow> int \<Rightarrow> nat \<Rightarrow> schat \<Rightarrow> schat" where
  "answer_to_client junk now now' i s =
     (let s1 = (case read_request i s of
                  (Some e, t) \<Rightarrow> sync_stop i t
                | (None, t) \<Rightarrow> (case sync_process_request junk now i t of
                                 (Some e, u) \<Rightarrow> sync_stop i u
                               | (None, u) \<Rightarrow> u))
      in if timed_out now' (sc s1 i) then sync_stop i s1 else s1)"

text \<open>One round of \<open>handle_clients_thread\<close>; \<open>clock j i\<close> is the j-th reading for client i.\<close>

definition handle_clients :: "bool \<Rightarrow> (nat \<Rightarrow> nat \<Rightarrow> int) \<Rightarrow> schat \<Rightarrow> schat" where
  "handle_clients junk clock s =
     (let s1 = fold (\<lambda>i t. answer_to_client junk (clock 0 i) (clock 1 i) i t) [0..<length (sh_clients s)] s
      in s1\<lparr>sh_clients := map fst (filter (\<lambda>(k, i). \<not> timed_out (clock 2 i) k)
              (zip (sh_clients s1) [0..<length (sh_clients s1)]))\<rparr>)"

definition accept_client :: "bytes \<Rightarrow> int \<Rightarrow> schat \<Rightarrow> schat" where
  "accept_client uninitialised now s = s\<lparr>sh_clients := sh_clients s @ [sclient_new uninitialised now]\<rparr>"

subsection \<open>Bounds\<close>

definition sc_ok :: "sclient \<Rightarrow> bool" where
  "sc_ok k \<longleftrightarrow> length (sc_buff k) = sync_max_msg \<and> sc_already_read k \<le> sync_max_msg"

definition schat_ok :: "schat \<Rightarrow> bool" where
  "schat_ok s \<longleftrightarrow> list_all sc_ok (sh_clients s)"

lemma sc_set_sel [simp]:
  "length (sh_clients (sc_set i k s)) = length (sh_clients s)"
  "i < length (sh_clients s) \<Longrightarrow> sc (sc_set i k s) j = (if j = i then k else sc s j)"
  "sc_set i k (sc_set i k' s) = sc_set i k s"
  by (auto simp: sc_set_def sc_def nth_list_update)

lemma schat_ok_at: "schat_ok s \<Longrightarrow> i < length (sh_clients s) \<Longrightarrow> sc_ok (sc s i)"
  by (simp add: schat_ok_def sc_def list_all_length)

lemma schat_ok_set: "schat_ok s \<Longrightarrow> i < length (sh_clients s) \<Longrightarrow> sc_ok k \<Longrightarrow> schat_ok (sc_set i k s)"
  by (simp add: schat_ok_def sc_set_def list_all_length nth_list_update)

lemma sc_ok_fields [simp]:
  "sc_ok (k\<lparr>sc_username := u\<rparr>) = sc_ok k" "sc_ok (k\<lparr>sc_changed := c\<rparr>) = sc_ok k"
  "sc_ok (k\<lparr>sc_out := w\<rparr>) = sc_ok k" "sc_ok (k\<lparr>sc_open := b\<rparr>) = sc_ok k"
  "sc_ok (k\<lparr>sc_last_ping := n\<rparr>) = sc_ok k"
  by (simp_all add: sc_ok_def)

lemma take_request_ok: "take_request k = Some (msg, k') \<Longrightarrow> sc_ok k \<Longrightarrow> sc_ok k'"
  by (auto simp: take_request_def sc_ok_def Let_def split: if_splits)

definition sync_keeps :: "schat \<Rightarrow> schat \<Rightarrow> bool" where
  "sync_keeps s t \<longleftrightarrow> length (sh_clients t) = length (sh_clients s) \<and> schat_ok t"

lemma read_request_ok:
  "read_request i s = (e, t) \<Longrightarrow> schat_ok s \<Longrightarrow> i < length (sh_clients s) \<Longrightarrow> sync_keeps s t"
  using schat_ok_at [of s i]
  by (auto simp: read_request_def sync_keeps_def Let_def sc_ok_def min_def
      intro!: schat_ok_set split: option.splits if_splits)

lemma sync_write_ok:
  "sync_write i m s = (e, t) \<Longrightarrow> schat_ok s \<Longrightarrow> i < length (sh_clients s) \<Longrightarrow> sync_keeps s t"
  using schat_ok_at [of s i]
  by (auto simp: sync_write_def sync_keeps_def intro!: schat_ok_set split: option.splits)

lemma sync_update_ok: "schat_ok s \<Longrightarrow> sync_keeps s (sync_update_clients_changed s)"
  by (simp add: sync_keeps_def sync_update_clients_changed_def schat_ok_def list_all_iff)


lemma sync_keeps_trans: "sync_keeps s t \<Longrightarrow> sync_keeps t u \<Longrightarrow> sync_keeps s u"
  by (simp add: sync_keeps_def)

lemma sync_keeps_set: "schat_ok s \<Longrightarrow> i < length (sh_clients s) \<Longrightarrow> sc_ok k \<Longrightarrow> sync_keeps s (sc_set i k s)"
  by (simp add: sync_keeps_def schat_ok_set)

lemma sync_on_login_ok:
  assumes "sync_on_login i msg s = (e, t)" and "schat_ok s" and i: "i < length (sh_clients s)"
  shows "sync_keeps s t"
proof -
  obtain w1 is1 where 1: "extract_word (istream_of msg) (sc_username (sc s i)) = (w1, is1)" by force
  obtain w2 is2 where 2: "extract_word is1 w1 = (w2, is2)" by force
  let ?s1 = "sc_set i ((sc s i)\<lparr>sc_username := w2\<rparr>) s"
  have k1: "sync_keeps s ?s1" using assms(2) i by (intro sync_keeps_set) (simp_all add: schat_ok_at)
  obtain e2 s2 where w: "sync_write i (''login ok'' @ [NL]) ?s1 = (e2, s2)" by force
  have k2: "sync_keeps ?s1 s2" using sync_write_ok [OF w] k1 i by (simp add: sync_keeps_def)
  have k3: "sync_keeps s2 (sync_update_clients_changed s2)"
    using k2 by (intro sync_update_ok) (simp add: sync_keeps_def)
  have "t = s2 \<or> t = sync_update_clients_changed s2"
    using assms(1) 1 2 w by (auto simp: sync_on_login_def Let_def split: option.splits)
  then show ?thesis using sync_keeps_trans [OF k1 k2] sync_keeps_trans [OF _ k3] by blast
qed

lemma sync_on_ping_ok:
  assumes "sync_on_ping junk i s = (e, t)" and "schat_ok s" and "i < length (sh_clients s)"
  shows "sync_keeps s t"
proof -
  let ?m = "if (case sc_changed (sc s i) of Some b \<Rightarrow> b | None \<Rightarrow> junk)
      then ''ping client_list_changed'' @ [NL] else ''ping ok'' @ [NL]"
  obtain e1 s1 where w: "sync_write i ?m s = (e1, s1)" by force
  have k1: "sync_keeps s s1" by (rule sync_write_ok [OF w assms(2,3)])
  then have "sync_keeps s1 (sc_set i ((sc s1 i)\<lparr>sc_changed := Some False\<rparr>) s1)"
    using assms(3) by (intro sync_keeps_set) (simp_all add: schat_ok_at sync_keeps_def)
  with assms(1) w k1 show ?thesis
    by (auto simp: sync_on_ping_def Let_def split: option.splits intro: sync_keeps_trans)
qed

lemma sync_process_ok:
  assumes "sync_process_request junk now i s = (e, t)" and "schat_ok s" and i: "i < length (sh_clients s)"
  shows "sync_keeps s t"
proof (cases "take_request (sc s i)")
  case None
  with assms show ?thesis by (simp add: sync_process_request_def sync_keeps_def)
next
  case (Some r)
  obtain msg k where r: "r = (msg, k)" by force
  let ?s1 = "sc_set i (k\<lparr>sc_last_ping := now\<rparr>) s"
  have k1: "sync_keeps s ?s1"
    using take_request_ok [OF Some [unfolded r]] assms(2) i by (intro sync_keeps_set) (simp_all add: schat_ok_at)
  then have ok: "schat_ok ?s1" "i < length (sh_clients ?s1)" using i by (simp_all add: sync_keeps_def)
  have "sync_keeps ?s1 t"
    using assms(1) Some r k1 sync_on_login_ok [OF _ ok] sync_on_ping_ok [OF _ ok] sync_write_ok [OF _ ok]
    by (auto simp: sync_process_request_def sync_on_clients_def Let_def sync_keeps_def split: if_splits)
  with k1 show ?thesis by (rule sync_keeps_trans)
qed

lemma sync_stop_ok: "schat_ok s \<Longrightarrow> i < length (sh_clients s) \<Longrightarrow> sync_keeps s (sync_stop i s)"
  by (simp add: sync_stop_def sync_keeps_set schat_ok_at)

lemma answer_ok:
  assumes "schat_ok s" and i: "i < length (sh_clients s)"
  shows "sync_keeps s (answer_to_client junk now now' i s)"
proof -
  obtain e t where r: "read_request i s = (e, t)" by force
  obtain e' u where p: "sync_process_request junk now i t = (e', u)" by force
  have k1: "sync_keeps s t" by (rule read_request_ok [OF r assms])
  then have okt: "schat_ok t" "i < length (sh_clients t)" using i by (simp_all add: sync_keeps_def)
  have k2: "sync_keeps t u" by (rule sync_process_ok [OF p okt])
  then have oku: "schat_ok u" "i < length (sh_clients u)" using okt by (simp_all add: sync_keeps_def)
  let ?s1 = "case e of Some x \<Rightarrow> sync_stop i t | None \<Rightarrow> (case e' of Some x \<Rightarrow> sync_stop i u | None \<Rightarrow> u)"
  have k3: "sync_keeps s ?s1"
    using sync_keeps_trans [OF k1 k2] sync_stop_ok [OF okt] sync_stop_ok [OF oku] k1
    by (auto split: option.split intro: sync_keeps_trans)
  then have ok1: "schat_ok ?s1" "i < length (sh_clients ?s1)" using i by (simp_all add: sync_keeps_def)
  have "answer_to_client junk now now' i s = (if timed_out now' (sc ?s1 i) then sync_stop i ?s1 else ?s1)"
    by (simp add: answer_to_client_def r p Let_def split: option.split)
  with k3 sync_stop_ok [OF ok1] show ?thesis by (simp add: sync_keeps_trans)
qed

lemma answers_ok:
  assumes "schat_ok s" and "\<forall>i \<in> set is. i < length (sh_clients s)"
  shows "sync_keeps s (fold (\<lambda>i t. answer_to_client junk (f i) (g i) i t) is s)"
  using assms
proof (induction "is" arbitrary: s)
  case (Cons i "is")
  let ?t = "answer_to_client junk (f i) (g i) i s"
  have k: "sync_keeps s ?t" using Cons.prems by (intro answer_ok) auto
  with Cons.IH [of ?t] Cons.prems show ?case by (auto simp: sync_keeps_def)
qed (simp add: sync_keeps_def)

lemma handle_ok: "schat_ok s \<Longrightarrow> schat_ok (handle_clients junk clock s)"
proof -
  assume ok: "schat_ok s"
  let ?s1 = "fold (\<lambda>i t. answer_to_client junk (clock 0 i) (clock 1 i) i t) [0..<length (sh_clients s)] s"
  have "schat_ok ?s1" using answers_ok [OF ok, of "[0..<length (sh_clients s)]"] by (simp add: sync_keeps_def)
  then show ?thesis
    by (auto simp: handle_clients_def schat_ok_def list_all_iff Let_def dest: set_zip_leftD)
qed

text \<open>The environment: a connection, bytes or errors for a client, a round of the polling thread.\<close>

inductive sync_step :: "schat \<Rightarrow> schat \<Rightarrow> bool" where
  Sync_accept: "length uninitialised = sync_max_msg \<Longrightarrow> sync_step s (accept_client uninitialised now s)"
| Sync_deliver: "i < length (sh_clients s) \<Longrightarrow>
    sync_step s (sc_set i ((sc s i)\<lparr>sc_kernel := sc_kernel (sc s i) @ d, sc_rerr := r, sc_werr := w\<rparr>) s)"
| Sync_round: "sync_step s (handle_clients junk clock s)"

text \<open>
  in every run of the synchronous server the count of bytes read stays within the 1024 bytes of
  the client's buffer, so no read and no copy leaves it, whatever is received and whenever.
\<close>

theorem sync_server_buffer_bounds:
  assumes "sync_step\<^sup>*\<^sup>* \<lparr>sh_clients = []\<rparr> s" and "k \<in> set (sh_clients s)"
  shows "sc_already_read k \<le> 1024 \<and> length (sc_buff k) = 1024"
proof -
  from assms(1) have "schat_ok s"
  proof (induction rule: rtranclp_induct)
    case base
    show ?case by (simp add: schat_ok_def)
  next
    case (step s t)
    from step(2,3) show ?case
    proof (induction rule: sync_step.induct)
      case (Sync_accept u s now)
      then show ?case by (simp add: accept_client_def schat_ok_def sclient_new_def sc_ok_def)
    next
      case (Sync_deliver i s d r w)
      then show ?case using schat_ok_at [of s i] by (intro schat_ok_set) (simp_all add: sc_ok_def)
    qed (simp add: handle_ok)
  qed
  with assms(2) show ?thesis by (auto simp: schat_ok_def list_all_iff sc_ok_def sync_max_msg_def)
qed

theorem sync_server_buffer_bounds_witness:
  "sc_already_read (sclient_new (replicate 1024 CHR 0x00) 0) \<le> 1024
    \<and> length (sc_buff (sclient_new (replicate 1024 CHR 0x00) 0)) = 1024"
proof (rule sync_server_buffer_bounds)
  have "sync_step \<lparr>sh_clients = []\<rparr> (accept_client (replicate 1024 CHR 0x00) 0 \<lparr>sh_clients = []\<rparr>)"
    by (rule Sync_accept) (simp add: sync_max_msg_def)
  then show "sync_step\<^sup>*\<^sup>* \<lparr>sh_clients = []\<rparr> (accept_client (replicate 1024 CHR 0x00) 0 \<lparr>sh_clients = []\<rparr>)"
    by blast
  show "sclient_new (replicate 1024 CHR 0x00) 0
      \<in> set (sh_clients (accept_client (replicate 1024 CHR 0x00) 0 \<lparr>sh_clients = []\<rparr>))"
    by (simp add: accept_client_def)
qed

subsection \<open>Framing\<close>

text \<open>
  a request that has arrived alone is taken whole, without its newline, and leaves the buffer
  empty; when more bytes have arrived behind it they are lost: the copy starts behind all that has
  been read, so what stands in the buffer as read afterwards is whatever lay behind the data.
\<close>

theorem sync_server_framing:
  assumes "sc_ok k" and "take (sc_already_read k) (sc_buff k) = l @ NL # rest" and "NL \<notin> set l"
    and "length rest \<le> 1024 - sc_already_read k"
  shows "\<exists>k'. take_request k = Some (l, k') \<and> sc_already_read k' = length rest
    \<and> take (length rest) (sc_buff k') = take (length rest) (drop (sc_already_read k) (sc_buff k))"
proof -
  have len: "length (sc_buff k) = 1024" "sc_already_read k \<le> 1024"
    using assms(1) by (simp_all add: sc_ok_def sync_max_msg_def)
  have n: "sc_already_read k = length l + Suc (length rest)"
    using arg_cong [OF assms(2), of length] len by simp
  have "take (length l) (sc_buff k) = take (length l) (take (sc_already_read k) (sc_buff k))"
    using n by (simp add: min_def)
  also have "\<dots> = l" unfolding assms(2) by simp
  finally have l: "take (length l) (sc_buff k) = l" .
  let ?k = "k\<lparr>sc_buff := take (1024 - sc_already_read k) (drop (sc_already_read k) (sc_buff k))
      @ drop (1024 - sc_already_read k) (sc_buff k), sc_already_read := sc_already_read k - (length l + 1)\<rparr>"
  have "take_request k = Some (l, ?k)"
    by (simp add: take_request_def assms(2) before_append_hit [OF assms(3)] l sync_max_msg_def Let_def)
  moreover have "sc_already_read ?k = length rest" using n by simp
  moreover have "take (length rest) (sc_buff ?k) = take (length rest) (drop (sc_already_read k) (sc_buff k))"
    using assms(4) len by (simp add: min_def)
  ultimately show ?thesis by blast
qed

theorem sync_server_framing_witness:
  "\<exists>k'. take_request ((sclient_new ((''ping'' @ NL # ''ping'' @ [NL]) @ replicate 1014 CHR ''z'') 0)\<lparr>sc_already_read := 10\<rparr>)
      = Some (''ping'', k')
    \<and> sc_already_read k' = 5 \<and> take 5 (sc_buff k') = ''zzzzz''"
proof -
  let ?b = "(''ping'' @ NL # ''ping'' @ [NL]) @ replicate 1014 CHR ''z''"
  let ?k = "(sclient_new ?b 0)\<lparr>sc_already_read := 10\<rparr>"
  have d: "drop 10 ?b = replicate 1014 CHR ''z''" and t: "take 10 ?b = ''ping'' @ NL # ''ping'' @ [NL]"
    by (simp_all)
  have "\<exists>k'. take_request ?k = Some (''ping'', k') \<and> sc_already_read k' = length (''ping'' @ [NL])
      \<and> take (length (''ping'' @ [NL])) (sc_buff k') = take (length (''ping'' @ [NL])) (drop (sc_already_read ?k) (sc_buff ?k))"
    using t by (intro sync_server_framing) (simp_all add: sclient_new_def sc_ok_def sync_max_msg_def)
  moreover have "take 5 (replicate 1014 CHR ''z'') = ''zzzzz''"
    by (simp add: min_def numeral_eq_Suc)
  moreover have "length (''ping'' @ [NL]) = 5" and "drop (sc_already_read ?k) (sc_buff ?k) = drop 10 ?b"
    by (simp_all only: sclient_new_def sclient.select_convs sclient.update_convs) simp_all
  ultimately show ?thesis unfolding d by metis
qed

text \<open>
  a client that pings before anyone has logged in since it connected is answered from the
  uninitialised \<open>clients_changed_\<close>.
\<close>

theorem sync_server_uninitialised_ping:
  assumes "i < length (sh_clients s)" and "sc_changed (sc s i) = None" and "sc_werr (sc s i) = None"
  shows "sc_out (sc (snd (sync_on_ping junk i s)) i) = sc_out (sc s i)
    @ (if junk then ''ping client_list_changed'' @ [NL] else ''ping ok'' @ [NL])"
  using assms by (simp add: sync_on_ping_def sync_write_def Let_def)

theorem sync_server_uninitialised_ping_witness:
  "sc_out (sc (snd (sync_on_ping True 0 \<lparr>sh_clients = [sclient_new (replicate 1024 CHR 0x00) 0]\<rparr>)) 0)
    = ''ping client_list_changed'' @ [NL]"
  using sync_server_uninitialised_ping [of 0 "\<lparr>sh_clients = [sclient_new (replicate 1024 CHR 0x00) 0]\<rparr>" True]
  by (simp add: sc_def sclient_new_def)


subsection \<open>The synchronous client\<close>

record sync_client =
  sy_username :: bytes
  sy_started :: bool
  sy_sock :: tcp_sock
  sy_lists :: "bytes list"
  sy_sleeps :: "nat list"

definition sy_new :: "bytes \<Rightarrow> tcp_sock \<Rightarrow> sync_client" where
  "sy_new username k =
     \<lparr>sy_username = username, sy_started = True, sy_sock = k, sy_lists = [], sy_sleeps = []\<rparr>"

text \<open>\<open>write_some\<close>: the script may make it fail or take only the first bytes; the result is not looked at.\<close>

definition sy_write :: "bytes \<Rightarrow> sync_client \<Rightarrow> exn option \<times> sync_client" where
  "sy_write msg c =
     (case write_all msg (sy_sock c) of
        (ec, n, k) \<Rightarrow> (if ec_set ec then Some (System_error ec) else None, c\<lparr>sy_sock := k\<rparr>))"

definition sy_read_complete :: completion where
  "sy_read_complete err buf = (if ec_set err then 0 else if NL \<in> set buf then 0 else 1)"

interpretation sync_lines: line_condition sy_read_complete
  by unfold_locales (simp_all add: sy_read_complete_def)

text \<open>
  \<open>already_read_\<close> is the count of the last call of the condition, which is not called any more
  once the buffer is full.
\<close>

definition sy_msg :: "bytes \<Rightarrow> bytes" where
  "sy_msg got = take (sync_max_msg - 1) got"

definition sy_on_clients :: "bytes \<Rightarrow> sync_client \<Rightarrow> sync_client" where
  "sy_on_clients msg c = c\<lparr>sy_lists := sy_lists c @ [drop 8 msg]\<rparr>"

definition sy_ping_changed :: "bytes \<Rightarrow> bool" where
  "sy_ping_changed msg =
     (let (w1, is1) = extract_word (istream_of msg) [];
          (answer, is2) = extract_word is1 w1
      in answer = ''client_list_changed'')"

text \<open>\<open>read_answer\<close> with the handlers of \<open>process_msg\<close>, which may ask for the clients and read again.\<close>

partial_function (option) sy_read_answer :: "sync_client \<Rightarrow> (exn option \<times> sync_client) option" where
  "sy_read_answer c =
     (case read_cc sy_read_complete sync_max_msg (ts_in (sy_sock c)) of
        None \<Rightarrow> None
      | Some (ec, got, s) \<Rightarrow>
          let c1 = c\<lparr>sy_sock := (sy_sock c)\<lparr>ts_in := s\<rparr>\<rparr>; msg = sy_msg got in
          if ec_set ec then Some (Some (System_error ec), c1)
          else if prefix ''login '' msg \<or> prefix ''ping'' msg \<and> sy_ping_changed msg then
            (case sy_write (''ask_clients'' @ [NL]) c1 of
               (Some e, c2) \<Rightarrow> Some (Some e, c2)
             | (None, c2) \<Rightarrow> sy_read_answer c2)
          else if prefix ''ping'' msg then Some (None, c1)
          else if prefix ''clients '' msg then Some (None, sy_on_clients msg c1)
          else Some (None, c1))"

partial_function (option) sy_rounds :: "(nat \<Rightarrow> nat) \<Rightarrow> sync_client \<Rightarrow> (exn option \<times> sync_client) option" where
  "sy_rounds rand c =
     (if \<not> sy_started c then Some (None, c)
      else case sy_write (''ping'' @ [NL]) c of
        (Some e, c1) \<Rightarrow> Some (Some e, c1)
      | (None, c1) \<Rightarrow>
          (case sy_read_answer c1 of
             None \<Rightarrow> None
           | Some (Some e, c2) \<Rightarrow> Some (Some e, c2)
           | Some (None, c2) \<Rightarrow>
               sy_rounds rand (c2\<lparr>sy_sleeps := sy_sleeps c2 @ [rand (length (sy_sleeps c2)) mod 7000]\<rparr>)))"

definition sy_loop :: "(nat \<Rightarrow> nat) \<Rightarrow> sync_client \<Rightarrow> (exn option \<times> sync_client) option" where
  "sy_loop rand c =
     (case sy_write (''login '' @ sy_username c @ [NL]) c of
        (Some e, c1) \<Rightarrow> Some (Some e, c1)
      | (None, c1) \<Rightarrow>
          (case sy_read_answer c1 of
             None \<Rightarrow> None
           | Some (Some e, c2) \<Rightarrow> Some (Some e, c2)
           | Some (None, c2) \<Rightarrow> sy_rounds rand c2))"

definition sy_quiet :: "sync_client \<Rightarrow> bool" where
  "sy_quiet c \<longleftrightarrow> no_fail (ts_in (sy_sock c)) \<and> ts_writes (sy_sock c) = [] \<and> sy_started c"

definition sy_left :: "sync_client \<Rightarrow> nat" where
  "sy_left c = length (net_data (ts_in (sy_sock c)))"

lemma sy_write_quiet:
  "sy_quiet c \<Longrightarrow> \<exists>c'. sy_write m c = (None, c') \<and> sy_quiet c' \<and> sy_left c' = sy_left c"
  by (simp add: sy_write_def sy_quiet_def sy_left_def)

lemma sy_read_step:
  assumes "sy_quiet c"
  shows "\<exists>ec got s. read_cc sy_read_complete sync_max_msg (ts_in (sy_sock c)) = Some (ec, got, s)
    \<and> (ec = eof \<or> ec = no_error \<and> length (net_data s) < sy_left c) \<and> no_fail s"
proof -
  let ?d = "net_data (ts_in (sy_sock c))"
  have nf: "no_fail (ts_in (sy_sock c))" using assms by (simp add: sy_quiet_def)
  obtain ec got rest where o: "line_outcome sync_max_msg ?d = (ec, got, rest)" by (metis prod_cases3)
  from sync_lines.read_line [OF nf, of sync_max_msg] o obtain s where
    r: "read_cc sy_read_complete sync_max_msg (ts_in (sy_sock c)) = Some (ec, got, s)" "net_data s = rest"
    by (auto simp: sync_max_msg_def)
  have "ec = eof \<or> ec = no_error \<and> length rest < length ?d"
    using o length_after_less [of NL ?d]
    by (auto simp: line_outcome_def sync_max_msg_def split: if_splits dest: in_set_takeD)
  moreover have "no_fail s" by (rule read_cc_no_fail [OF r(1) nf])
  ultimately show ?thesis using r by (auto simp: sy_left_def)
qed

lemma sy_read_answer_ends:
  assumes "sy_quiet c"
  shows "\<exists>r c'. sy_read_answer c = Some (r, c') \<and> (r = Some (System_error eof)
    \<or> r = None \<and> sy_quiet c' \<and> sy_left c' < sy_left c)"
  using assms
proof (induction "sy_left c" arbitrary: c rule: less_induct)
  case less
  from sy_read_step [OF less.prems] obtain ec got s where
    r: "read_cc sy_read_complete sync_max_msg (ts_in (sy_sock c)) = Some (ec, got, s)"
    and o: "ec = eof \<or> ec = no_error \<and> length (net_data s) < sy_left c" and nf: "no_fail s" by blast
  let ?c1 = "c\<lparr>sy_sock := (sy_sock c)\<lparr>ts_in := s\<rparr>\<rparr>"
  have q1: "sy_quiet ?c1" using less.prems nf by (simp add: sy_quiet_def)
  show ?case
  proof (cases "ec = eof")
    case True
    then show ?thesis by (subst sy_read_answer.simps) (simp add: r)
  next
    case False
    then have ec: "ec = no_error" and l: "sy_left ?c1 < sy_left c" using o by (auto simp: sy_left_def)
    from sy_write_quiet [OF q1] obtain c2 where
      w: "sy_write (''ask_clients'' @ [NL]) ?c1 = (None, c2)" "sy_quiet c2" "sy_left c2 = sy_left ?c1" by blast
    have rec: "\<exists>r c'. sy_read_answer c2 = Some (r, c') \<and> (r = Some (System_error eof)
        \<or> r = None \<and> sy_quiet c' \<and> sy_left c' < sy_left c)"
      using less.hyps [of c2] w l by fastforce
    have oc: "sy_quiet (sy_on_clients m ?c1)" "sy_left (sy_on_clients m ?c1) < sy_left c" for m
      using q1 l by (simp_all add: sy_on_clients_def sy_quiet_def sy_left_def)
    show ?thesis using rec q1 l w(1) oc
      by (subst sy_read_answer.simps) (simp add: r ec Let_def)
  qed
qed

lemma sy_rounds_end:
  assumes "sy_quiet c"
  shows "\<exists>c'. sy_rounds rand c = Some (Some (System_error eof), c')"
  using assms
proof (induction "sy_left c" arbitrary: c rule: less_induct)
  case less
  have st: "sy_started c" using less.prems by (simp add: sy_quiet_def)
  from sy_write_quiet [OF less.prems] obtain c1 where
    w: "sy_write (''ping'' @ [NL]) c = (None, c1)" "sy_quiet c1" "sy_left c1 = sy_left c" by blast
  from sy_read_answer_ends [OF w(2)] obtain r c2 where
    a: "sy_read_answer c1 = Some (r, c2)"
      "r = Some (System_error eof) \<or> r = None \<and> sy_quiet c2 \<and> sy_left c2 < sy_left c1" by blast
  let ?c3 = "c2\<lparr>sy_sleeps := sy_sleeps c2 @ [rand (length (sy_sleeps c2)) mod 7000]\<rparr>"
  have rec: "r = None \<Longrightarrow> \<exists>c'. sy_rounds rand ?c3 = Some (Some (System_error eof), c')"
    using a w by (intro less.hyps) (auto simp: sy_quiet_def sy_left_def)
  show ?case using st w(1) a rec by (subst sy_rounds.simps) (cases r; auto)
qed

text \<open>
  the synchronous client's loop has no exit of its own: on a connection that does not fail it
  returns, whatever the server sends and however long it keeps \<open>ask_clients\<close> and its answers going,
  exactly by the end-of-file exception of the read after the last byte of the server.
\<close>

theorem sync_client_ends_with_connection:
  assumes "no_fail (ts_in k)" and "ts_writes k = []"
  shows "\<exists>c'. sy_loop rand (sy_new username k) = Some (Some (System_error eof), c')"
proof -
  have q: "sy_quiet (sy_new username k)" using assms by (simp add: sy_quiet_def sy_new_def)
  from sy_write_quiet [OF q] obtain c1 where
    w: "sy_write (''login '' @ username @ [NL]) (sy_new username k) = (None, c1)" "sy_quiet c1" by blast
  from sy_read_answer_ends [OF w(2)] obtain r c2 where
    a: "sy_read_answer c1 = Some (r, c2)"
      "r = Some (System_error eof) \<or> r = None \<and> sy_quiet c2 \<and> sy_left c2 < sy_left c1" by blast
  have "r = None \<Longrightarrow> \<exists>c'. sy_rounds rand c2 = Some (Some (System_error eof), c')"
    using a by (intro sy_rounds_end) auto
  then show ?thesis using w a by (cases r) (auto simp: sy_loop_def sy_new_def)
qed

theorem sync_client_ends_with_connection_witness:
  "\<exists>c'. sy_loop (\<lambda>_. 0) (sy_new ''Lucy'' (sock_on [Arrive (''login ok'' @ [NL]), Arrive (''clients '' @ [NL])]))
     = Some (Some (System_error eof), c')"
  by (rule sync_client_ends_with_connection) simp_all

end
