(* ===== verification/Practical_Socket.thy ===== *)
theory Practical_Socket
  imports Asio_Core Cxx_Streams
begin

text \<open>
  The socket classes of TCP.IP.Sockets.In.C/code/PracticalSocket.cpp: the descriptors the classes
  open and close, over a kernel whose calls succeed or fail as a script says, and the transfer of
  bytes over a connected socket, with the stream buffer built on it. Name resolution is a parameter.
\<close>

subsection \<open>Exceptions and addresses\<close>

datatype sock_exn = Socket_exception | Runtime_error | Length_error | Heap_overflow

datatype family = Inet | Inet6 | Unspec

datatype address_type = TCP_SOCKET | TCP_SERVER | UDP_SOCKET

record sock_address =
  sa_family :: family
  sa_host :: bytes
  sa_port :: "16 word"

datatype sock_type = Stream_type | Dgram_type

text \<open>
  \<open>getaddrinfo\<close> with the criteria each kind of address asks for: family, type, passive flag. It is
  an argument of the model; \<open>None\<close> is an error code.
\<close>

type_synonym resolver = "bytes option \<Rightarrow> bytes \<Rightarrow> sock_type \<Rightarrow> bool \<Rightarrow> sock_address list option"

fun criteria :: "address_type \<Rightarrow> sock_type \<times> bool" where
  "criteria TCP_SOCKET = (Stream_type, False)"
| "criteria TCP_SERVER = (Stream_type, True)"
| "criteria UDP_SOCKET = (Dgram_type, False)"

definition getAddressInfo ::
  "resolver \<Rightarrow> bytes \<Rightarrow> bytes \<Rightarrow> address_type \<Rightarrow> sock_exn + sock_address list" where
  "getAddressInfo gai host service atype =
     (case gai (Some host) service (fst (criteria atype)) (snd (criteria atype)) of
        None \<Rightarrow> Inl Socket_exception | Some as \<Rightarrow> Inr as)"

definition SocketAddress_service ::
  "resolver \<Rightarrow> bytes \<Rightarrow> bytes \<Rightarrow> address_type \<Rightarrow> sock_exn + sock_address" where
  "SocketAddress_service gai host service atype =
     (case getAddressInfo gai host service atype of
        Inl e \<Rightarrow> Inl e | Inr [] \<Rightarrow> Inl Socket_exception | Inr (a # as) \<Rightarrow> Inr a)"

text \<open>\<open>snprintf(service, 6, "%d", port)\<close>: at most five characters and the terminator.\<close>

definition port_service :: "16 word \<Rightarrow> bytes" where
  "port_service port = take 5 (to_string (unat port))"

definition SocketAddress_port ::
  "resolver \<Rightarrow> bytes \<Rightarrow> 16 word \<Rightarrow> address_type \<Rightarrow> sock_exn + sock_address" where
  "SocketAddress_port gai host port atype =
     (case getAddressInfo gai host (port_service port) atype of
        Inl e \<Rightarrow> Inl e | Inr [] \<Rightarrow> Inl Socket_exception | Inr (a # as) \<Rightarrow> Inr a)"

fun copy_addresses :: "sock_address list \<Rightarrow> sock_address list \<Rightarrow> sock_address list" where
  "copy_addresses [] addrList = addrList"
| "copy_addresses (a # as) addrList = copy_addresses as (addrList @ [a])"

definition lookupAddresses ::
  "resolver \<Rightarrow> bytes \<Rightarrow> bytes \<Rightarrow> address_type \<Rightarrow> sock_exn + sock_address list" where
  "lookupAddresses gai host service atype =
     (case getAddressInfo gai host service atype of
        Inl e \<Rightarrow> Inl e | Inr as \<Rightarrow> Inr (copy_addresses as []))"

definition lookupAddresses_port ::
  "resolver \<Rightarrow> bytes \<Rightarrow> 16 word \<Rightarrow> address_type \<Rightarrow> sock_exn + sock_address list" where
  "lookupAddresses_port gai host port atype =
     (case getAddressInfo gai host (port_service port) atype of
        Inl e \<Rightarrow> Inl e | Inr as \<Rightarrow> Inr (copy_addresses as []))"

lemma copy_addresses_append: "copy_addresses as bs = bs @ as"
  by (induction as arbitrary: bs) simp_all

lemma length_to_string_pow: "n < 10 ^ Suc k \<Longrightarrow> length (to_string n) \<le> Suc k"
proof (induction k arbitrary: n)
  case (Suc k)
  then have "n div 10 < 10 ^ Suc k" by (simp add: less_mult_imp_div_less)
  from Suc.IH [OF this] show ?case by (subst to_string.simps) simp
qed (subst to_string.simps, simp)

lemma port_service_whole: "port_service p = to_string (unat p)"
proof -
  have "unat p < 2 ^ LENGTH(16)" by (rule unsigned_less)
  then have "length (to_string (unat p)) \<le> Suc 4" by (intro length_to_string_pow) simp
  then show ?thesis by (simp add: port_service_def)
qed

subsection \<open>Descriptors\<close>

record desc =
  ds_family :: family
  ds_type :: sock_type
  ds_bound :: "sock_address option"
  ds_peer :: "sock_address option"
  ds_listening :: bool

text \<open>
  The descriptor table of the process; \<open>os_calls\<close> scripts the calls to come, 0 for success or the
  errno; a call finds 0 when the script is exhausted.
\<close>

record os =
  os_fds :: "int \<Rightarrow> desc option"
  os_next :: int
  os_calls :: "nat list"

definition sys_result :: "os \<Rightarrow> nat \<times> os" where
  "sys_result k = (case os_calls k of [] \<Rightarrow> (0, k) | e # es \<Rightarrow> (e, k\<lparr>os_calls := es\<rparr>))"

definition sys_socket :: "family \<Rightarrow> sock_type \<Rightarrow> os \<Rightarrow> int \<times> os" where
  "sys_socket fam typ k =
     (case sys_result k of
        (0, k1) \<Rightarrow> (os_next k1, k1\<lparr>os_fds := (os_fds k1)(os_next k1 \<mapsto>
            \<lparr>ds_family = fam, ds_type = typ, ds_bound = None, ds_peer = None, ds_listening = False\<rparr>),
            os_next := os_next k1 + 1\<rparr>)
      | (Suc e, k1) \<Rightarrow> (- 1, k1))"

definition on_desc :: "int \<Rightarrow> (desc \<Rightarrow> desc) \<Rightarrow> os \<Rightarrow> os" where
  "on_desc fd f k = k\<lparr>os_fds := (os_fds k)(fd := map_option f (os_fds k fd))\<rparr>"

text \<open>\<open>bind\<close>, \<open>connect\<close> and \<open>listen\<close> give the errno.\<close>

definition sys_call :: "int \<Rightarrow> (desc \<Rightarrow> desc) \<Rightarrow> os \<Rightarrow> nat \<times> os" where
  "sys_call fd f k =
     (case sys_result k of (e, k1) \<Rightarrow> (e, if e = 0 then on_desc fd f k1 else k1))"

definition sys_bind :: "int \<Rightarrow> sock_address \<Rightarrow> os \<Rightarrow> nat \<times> os" where
  "sys_bind fd a k = sys_call fd (\<lambda>d. d\<lparr>ds_bound := Some a\<rparr>) k"

definition sys_connect :: "int \<Rightarrow> sock_address option \<Rightarrow> os \<Rightarrow> nat \<times> os" where
  "sys_connect fd peer k = sys_call fd (\<lambda>d. d\<lparr>ds_peer := peer\<rparr>) k"

definition sys_listen :: "int \<Rightarrow> os \<Rightarrow> nat \<times> os" where
  "sys_listen fd k = sys_call fd (\<lambda>d. d\<lparr>ds_listening := True\<rparr>) k"

definition sys_close :: "int \<Rightarrow> os \<Rightarrow> os" where
  "sys_close fd k = k\<lparr>os_fds := (os_fds k)(fd := None)\<rparr>"

subsection \<open>Socket\<close>

text \<open>The member \<open>sockDesc\<close> is passed and returned; an operation that may throw also gives the exception.\<close>

type_synonym sock_result = "sock_exn option \<times> int \<times> os"

definition Socket_close :: "int \<Rightarrow> os \<Rightarrow> int \<times> os" where
  "Socket_close sockDesc k = (- 1, sys_close sockDesc k)"

definition Socket_destructor :: "int \<Rightarrow> os \<Rightarrow> os" where
  "Socket_destructor sockDesc k = (if sockDesc \<ge> 0 then snd (Socket_close sockDesc k) else k)"

definition createSocket :: "sock_address \<Rightarrow> sock_type \<Rightarrow> int \<Rightarrow> os \<Rightarrow> sock_result" where
  "createSocket address typ sockDesc k =
     (let k1 = (if sockDesc \<ge> 0 then snd (Socket_close sockDesc k) else k);
          domain = (if sa_family address = Inet6 then Inet6 else Inet)
      in case sys_socket domain typ k1 of
           (sd, k2) \<Rightarrow> (if sd < 0 then Some Socket_exception else None, sd, k2))"

subsection \<open>TCPSocket and TCPServerSocket\<close>

fun try_addresses :: "sock_address list \<Rightarrow> int \<Rightarrow> os \<Rightarrow> int \<times> os" where
  "try_addresses [] sockDesc k = (sockDesc, k)"
| "try_addresses (a # as) sockDesc k =
     (if \<not> sockDesc < 0 then (sockDesc, k)
      else case sys_socket (sa_family a) Stream_type k of
        (sd, k1) \<Rightarrow>
          if sd \<ge> 0 then
            (case sys_connect sd (Some a) k1 of
               (0, k2) \<Rightarrow> try_addresses as sd k2
             | (Suc e, k2) \<Rightarrow> try_addresses as (- 1) (sys_close sd k2))
          else try_addresses as sd k1)"

definition TCPSocket_new :: "resolver \<Rightarrow> bytes \<Rightarrow> 16 word \<Rightarrow> os \<Rightarrow> sock_result" where
  "TCPSocket_new gai foreignAddress foreignPort k =
     (case gai (Some foreignAddress) (port_service foreignPort) Stream_type False of
        None \<Rightarrow> (Some Socket_exception, - 1, k)
      | Some as \<Rightarrow>
          (case try_addresses as (- 1) k of
             (sd, k1) \<Rightarrow> (if sd = - 1 then Some Socket_exception else None, sd, k1)))"

definition TCPSocket_bind :: "sock_address \<Rightarrow> int \<Rightarrow> os \<Rightarrow> sock_result" where
  "TCPSocket_bind a sockDesc k =
     (case createSocket a Stream_type sockDesc k of
        (Some e, sd, k1) \<Rightarrow> (Some e, sd, k1)
      | (None, sd, k1) \<Rightarrow> (case sys_bind sd a k1 of
          (e, k2) \<Rightarrow> (if e \<noteq> 0 then Some Socket_exception else None, sd, k2)))"

definition TCPSocket_connect :: "sock_address \<Rightarrow> int \<Rightarrow> os \<Rightarrow> sock_result" where
  "TCPSocket_connect a sockDesc k =
     (case (if sockDesc < 0 then createSocket a Stream_type sockDesc k else (None, sockDesc, k)) of
        (Some e, sd, k1) \<Rightarrow> (Some e, sd, k1)
      | (None, sd, k1) \<Rightarrow> (case sys_connect sd (Some a) k1 of
          (e, k2) \<Rightarrow> (if e \<noteq> 0 then Some Socket_exception else None, sd, k2)))"

text \<open>The list given by a successful \<open>getaddrinfo\<close> is not empty; its head is all that is used.\<close>

definition findTCPServerSocketDesc :: "resolver \<Rightarrow> bytes option \<Rightarrow> bytes \<Rightarrow> os \<Rightarrow> (sock_exn + int) \<times> os" where
  "findTCPServerSocketDesc gai localAddr localPort k =
     (case gai localAddr localPort Stream_type True of
        None \<Rightarrow> (Inl Socket_exception, k)
      | Some as \<Rightarrow>
          (case sys_socket (sa_family (hd as)) Stream_type k of
             (sd, k1) \<Rightarrow>
               if sd < 0 then (Inl Socket_exception, k1)
               else (case sys_bind sd (hd as) k1 of
                       (0, k2) \<Rightarrow> (Inr sd, k2)
                     | (Suc e, k2) \<Rightarrow> (Inl Socket_exception, k2))))"

definition setListen :: "int \<Rightarrow> os \<Rightarrow> sock_exn option \<times> os" where
  "setListen sockDesc k = (case sys_listen sockDesc k of
     (e, k1) \<Rightarrow> (if e \<noteq> 0 then Some Socket_exception else None, k1))"

text \<open>
  The constructor; when its body throws, the destructor of the base class \<open>Socket\<close> runs on what
  \<open>sockDesc\<close> is by then.
\<close>

definition TCPServerSocket_new :: "resolver \<Rightarrow> 16 word \<Rightarrow> os \<Rightarrow> sock_result" where
  "TCPServerSocket_new gai localPort k =
     (case findTCPServerSocketDesc gai None (to_string (unat localPort)) k of
        (Inl e, k1) \<Rightarrow> (Some e, - 1, Socket_destructor (- 1) k1)
      | (Inr sd, k1) \<Rightarrow>
          (case setListen sd k1 of
             (Some e, k2) \<Rightarrow> (Some e, - 1, Socket_destructor sd k2)
           | (None, k2) \<Rightarrow> (None, sd, k2)))"

definition TCPServerSocket_bind :: "sock_address \<Rightarrow> int \<Rightarrow> os \<Rightarrow> sock_result" where
  "TCPServerSocket_bind a sockDesc k =
     (case createSocket a Stream_type sockDesc k of
        (Some e, sd, k1) \<Rightarrow> (Some e, sd, k1)
      | (None, sd, k1) \<Rightarrow>
          (case sys_bind sd a k1 of
             (Suc e, k2) \<Rightarrow> (Some Socket_exception, sd, k2)
           | (0, k2) \<Rightarrow> (case setListen sd k2 of (r, k3) \<Rightarrow> (r, sd, k3))))"

text \<open>\<open>accept\<close> gives a new descriptor, which becomes the \<open>sockDesc\<close> of a new TCPSocket.\<close>

definition TCPServerSocket_accept :: "sock_address \<Rightarrow> int \<Rightarrow> os \<Rightarrow> (sock_exn + int) \<times> os" where
  "TCPServerSocket_accept peer sockDesc k =
     (case sys_socket (sa_family peer) Stream_type k of
        (sd, k1) \<Rightarrow> if sd < 0 then (Inl Socket_exception, k1)
          else (Inr sd, on_desc sd (\<lambda>d. d\<lparr>ds_peer := Some peer\<rparr>) k1))"

subsection \<open>UDPSocket\<close>

definition UDPSocket_bind :: "sock_address \<Rightarrow> int \<Rightarrow> os \<Rightarrow> sock_result" where
  "UDPSocket_bind a sockDesc k = createSocket a Dgram_type sockDesc k"

definition UDPSocket_connect :: "sock_address \<Rightarrow> int \<Rightarrow> os \<Rightarrow> sock_result" where
  "UDPSocket_connect a sockDesc k =
     (case (if sockDesc < 0 then createSocket a Dgram_type sockDesc k else (None, sockDesc, k)) of
        (Some e, sd, k1) \<Rightarrow> (Some e, sd, k1)
      | (None, sd, k1) \<Rightarrow> (case sys_connect sd (Some a) k1 of
          (e, k2) \<Rightarrow> (if e \<noteq> 0 then Some Socket_exception else None, sd, k2)))"

text \<open>97 is EAFNOSUPPORT on Linux.\<close>

definition UDPSocket_disconnect :: "int \<Rightarrow> os \<Rightarrow> sock_exn option \<times> os" where
  "UDPSocket_disconnect sockDesc k =
     (case sys_connect sockDesc None k of
        (e, k1) \<Rightarrow> (if e \<noteq> 0 \<and> e \<noteq> 97 then Some Socket_exception else None, k1))"

subsection \<open>No descriptor is lost\<close>

definition os_ok :: "os \<Rightarrow> bool" where
  "os_ok k \<longleftrightarrow> 0 \<le> os_next k \<and> (\<forall>fd d. os_fds k fd = Some d \<longrightarrow> 0 \<le> fd \<and> fd < os_next k)"

definition fresh_desc :: "family \<Rightarrow> sock_type \<Rightarrow> desc" where
  "fresh_desc fam typ =
     \<lparr>ds_family = fam, ds_type = typ, ds_bound = None, ds_peer = None, ds_listening = False\<rparr>"

lemma sys_result_fds [simp]:
  "sys_result k = (e, k1) \<Longrightarrow> os_fds k1 = os_fds k"
  "sys_result k = (e, k1) \<Longrightarrow> os_next k1 = os_next k"
  by (auto simp: sys_result_def split: list.splits)

lemma sys_quiet:
  "os_calls k = [] \<Longrightarrow> sys_call fd f k = (0, on_desc fd f k)"
  "os_calls k = [] \<Longrightarrow> sys_socket fam typ k
     = (os_next k, k\<lparr>os_fds := (os_fds k)(os_next k \<mapsto> fresh_desc fam typ), os_next := os_next k + 1\<rparr>)"
  "os_calls (on_desc fd f k) = os_calls k"
  by (simp_all add: sys_call_def sys_socket_def sys_result_def on_desc_def fresh_desc_def)

lemma sys_socket_cases:
  assumes "sys_socket fam typ k = (sd, k1)" and "os_ok k"
  obtains (refused) "sd = - 1" "os_fds k1 = os_fds k" "os_ok k1"
  | (made) "sd \<ge> 0" "os_fds k sd = None" "os_fds k1 = (os_fds k)(sd \<mapsto> fresh_desc fam typ)" "os_ok k1"
proof -
  obtain e k0 where r: "sys_result k = (e, k0)" by force
  have f: "os_fds k0 = os_fds k" "os_next k0 = os_next k" using r by simp_all
  show thesis
  proof (cases e)
    case 0
    have new: "os_fds k (os_next k) = None" using assms(2) by (cases "os_fds k (os_next k)") (auto simp: os_ok_def)
    have k1: "sd = os_next k" "os_fds k1 = (os_fds k)(os_next k \<mapsto> fresh_desc fam typ)" "os_next k1 = os_next k + 1"
      using assms(1) r f 0 by (auto simp: sys_socket_def fresh_desc_def)
    have "0 \<le> fd \<and> fd < os_next k1" if "os_fds k1 fd = Some d" for fd d
      using that k1 assms(2) by (cases "fd = os_next k") (auto simp: os_ok_def)
    then have "os_ok k1" using k1 assms(2) by (simp add: os_ok_def)
    then show thesis using made k1 new assms(2) by (simp add: os_ok_def)
  next
    case (Suc n)
    then show thesis using refused assms r f by (simp add: sys_socket_def os_ok_def)
  qed
qed

lemma sys_call_cases:
  assumes "sys_call fd f k = (e, k1)" and "os_ok k"
  shows "os_ok k1 \<and> os_fds k1 = (if e = 0 then (os_fds k)(fd := map_option f (os_fds k fd)) else os_fds k)"
proof -
  obtain e0 k0 where r: "sys_result k = (e0, k0)" by force
  have f: "os_fds k0 = os_fds k" "os_next k0 = os_next k" using r by simp_all
  show ?thesis using assms r f by (auto simp: sys_call_def on_desc_def os_ok_def split: if_splits)
qed

lemma sys_socket_first:
  "sys_socket fam typ k = (sd, k1) \<Longrightarrow> sd \<ge> 0 \<Longrightarrow>
   sd = os_next k \<and> take 1 (os_calls k) \<in> {[], [0]} \<and> os_calls k1 = drop 1 (os_calls k)"
  by (cases "os_calls k"; cases "hd (os_calls k)") (auto simp: sys_socket_def sys_result_def)

lemma sys_call_first: "sys_call fd f k = (e, k1) \<Longrightarrow> e \<noteq> 0 \<Longrightarrow> take 1 (os_calls k) \<notin> {[], [0]}"
  by (cases "os_calls k") (auto simp: sys_call_def sys_result_def)

lemma sys_close_fds [simp]: "os_fds (sys_close fd k) = (os_fds k)(fd := None)"
  by (simp add: sys_close_def)

lemma sys_close_ok [simp]: "os_ok k \<Longrightarrow> os_ok (sys_close fd k)"
  by (auto simp: os_ok_def sys_close_def)

text \<open>What an operation that opens one descriptor promises: it is new, or nothing has changed.\<close>

definition opens_one :: "os \<Rightarrow> int \<Rightarrow> os \<Rightarrow> (desc \<Rightarrow> bool) \<Rightarrow> bool" where
  "opens_one k sd k' P \<longleftrightarrow> 0 \<le> sd \<and> os_fds k sd = None \<and> (\<exists>d. os_fds k' = (os_fds k)(sd \<mapsto> d) \<and> P d)"

lemma opens_oneI:
  "0 \<le> sd \<Longrightarrow> os_fds k sd = None \<Longrightarrow> os_fds k' = (os_fds k)(sd \<mapsto> d) \<Longrightarrow> P d \<Longrightarrow> opens_one k sd k' P"
  unfolding opens_one_def by blast

definition peer_in :: "sock_address list \<Rightarrow> desc \<Rightarrow> bool" where
  "peer_in as d \<longleftrightarrow> (\<exists>a \<in> set as. d = (fresh_desc (sa_family a) Stream_type)\<lparr>ds_peer := Some a\<rparr>)"

lemma try_addresses_found: "0 \<le> sd \<Longrightarrow> try_addresses as sd k = (sd, k)"
  by (cases as) simp_all

lemma try_addresses_contract:
  assumes "try_addresses as (- 1) k = (sd, k')" and "os_ok k"
  shows "os_ok k' \<and> (sd = - 1 \<and> os_fds k' = os_fds k \<or> opens_one k sd k' (peer_in as))"
  using assms
proof (induction as arbitrary: k)
  case (Cons a as)
  obtain s1 k1 where s: "sys_socket (sa_family a) Stream_type k = (s1, k1)" by force
  show ?case
  proof (rule sys_socket_cases [OF s Cons.prems(2)])
    assume r: "s1 = - 1" "os_fds k1 = os_fds k" "os_ok k1"
    then have "try_addresses as (- 1) k1 = (sd, k')" using Cons.prems s by simp
    from Cons.IH [OF this r(3)] r(2) show ?thesis by (auto simp: opens_one_def peer_in_def)
  next
    assume m: "s1 \<ge> 0" "os_fds k s1 = None" "os_fds k1 = (os_fds k)(s1 \<mapsto> fresh_desc (sa_family a) Stream_type)" "os_ok k1"
    obtain e k2 where c: "sys_connect s1 (Some a) k1 = (e, k2)" by force
    note cc = sys_call_cases [OF c [unfolded sys_connect_def] m(4)]
    show ?thesis
    proof (cases e)
      case 0
      then have "sd = s1" "k' = k2" using Cons.prems s m c by (simp_all add: try_addresses_found)
      moreover have "opens_one k s1 k2 (peer_in (a # as))"
        using cc m 0 by (intro opens_oneI [where d = "(fresh_desc (sa_family a) Stream_type)\<lparr>ds_peer := Some a\<rparr>"])
          (simp_all add: peer_in_def)
      ultimately show ?thesis using cc by simp
    next
      case (Suc n)
      then have "try_addresses as (- 1) (sys_close s1 k2) = (sd, k')" using Cons.prems s m c by simp
      from Cons.IH [OF this] cc m Suc show ?thesis
        by (auto simp: opens_one_def peer_in_def fun_upd_idem)
    qed
  qed
qed simp

text \<open>
  the connecting constructor of TCPSocket keeps the descriptors of the process in order however
  the attempts on the resolved addresses fail: it gives one new descriptor, connected to one of the
  addresses, or throws and leaves none behind.
\<close>

theorem TCPSocket_new_no_leak:
  assumes "os_ok k" and "TCPSocket_new gai host port k = (r, sd, k')"
  shows "(r = Some Socket_exception \<and> os_fds k' = os_fds k) \<or>
    (r = None \<and> 0 \<le> sd \<and> os_fds k sd = None \<and>
      (\<exists>as a. gai (Some host) (to_string (unat port)) Stream_type False = Some as \<and> a \<in> set as
         \<and> os_fds k' = (os_fds k)(sd \<mapsto> (fresh_desc (sa_family a) Stream_type)\<lparr>ds_peer := Some a\<rparr>)))"
proof (cases "gai (Some host) (to_string (unat port)) Stream_type False")
  case None
  with assms(2) show ?thesis by (simp add: TCPSocket_new_def port_service_whole)
next
  case (Some as)
  obtain s1 k1 where t: "try_addresses as (- 1) k = (s1, k1)" by force
  from try_addresses_contract [OF t assms(1)] Some t assms(2) show ?thesis
    by (auto simp: TCPSocket_new_def port_service_whole opens_one_def peer_in_def split: if_splits)
qed

definition no_fds :: os where "no_fds = \<lparr>os_fds = Map.empty, os_next = 3, os_calls = [0, 111, 0, 0]\<rparr>"

theorem TCPSocket_new_no_leak_witness:
  "\<exists>sd k'. TCPSocket_new (\<lambda>h s t p. Some [\<lparr>sa_family = Inet6, sa_host = '':'', sa_port = 7\<rparr>,
      \<lparr>sa_family = Inet, sa_host = ''l'', sa_port = 7\<rparr>]) ''localhost'' 7 no_fds = (None, sd, k')
    \<and> 0 \<le> sd \<and> dom (os_fds k') = {sd}"
proof -
  let ?gai = "\<lambda>h s t p. Some [\<lparr>sa_family = Inet6, sa_host = '':'', sa_port = 7\<rparr>,
      \<lparr>sa_family = Inet, sa_host = ''l'', sa_port = 7\<rparr>]"
  obtain r sd k' where n: "TCPSocket_new ?gai ''localhost'' 7 no_fds = (r, sd, k')" by (metis prod_cases3)
  have r: "r = None"
    using n by (simp add: TCPSocket_new_def no_fds_def sys_socket_def sys_connect_def sys_call_def
        sys_result_def sys_close_def on_desc_def)
  have "os_ok no_fds" by (simp add: os_ok_def no_fds_def)
  from TCPSocket_new_no_leak [OF this n] r n show ?thesis by (auto simp: no_fds_def split: if_splits)
qed

text \<open>
  the server socket's constructor loses a descriptor exactly when \<open>bind\<close> fails: the socket made
  by \<open>findTCPServerSocketDesc\<close> is then neither returned nor closed; on every other failure the table
  is as before, and on success there is one new listening socket bound to the first address.
\<close>

theorem TCPServerSocket_new_leaks_on_bind_failure:
  assumes "os_ok k" and "TCPServerSocket_new gai port k = (r, sd, k')"
    and "gai None (to_string (unat port)) Stream_type True = Some (a # as)"
  shows "case r of
      None \<Rightarrow> opens_one k sd k' (\<lambda>d. ds_bound d = Some a \<and> ds_listening d)
    | Some e \<Rightarrow> sd = - 1 \<and> (os_fds k' = os_fds k
        \<or> take 1 (os_calls k) = [0] \<and> take 1 (drop 1 (os_calls k)) \<notin> {[], [0]}
          \<and> opens_one k (os_next k) k' (\<lambda>d. d = fresh_desc (sa_family a) Stream_type))"
proof -
  obtain s1 k1 where s: "sys_socket (sa_family a) Stream_type k = (s1, k1)" by force
  obtain e1 k2 where b: "sys_bind s1 a k1 = (e1, k2)" by force
  obtain e2 k3 where l: "sys_listen s1 k2 = (e2, k3)" by force
  have run: "TCPServerSocket_new gai port k =
    (if s1 < 0 then (Some Socket_exception, - 1, k1)
     else if e1 \<noteq> 0 then (Some Socket_exception, - 1, k2)
     else if e2 \<noteq> 0 then (Some Socket_exception, - 1, sys_close s1 k3) else (None, s1, k3))"
    using s b l assms(3)
    by (cases e1) (auto simp: TCPServerSocket_new_def findTCPServerSocketDesc_def setListen_def
        Socket_destructor_def Socket_close_def)
  show ?thesis
  proof (rule sys_socket_cases [OF s assms(1)])
    assume "s1 = - 1" "os_fds k1 = os_fds k" "os_ok k1"
    then show ?thesis using run assms(2) by auto
  next
    assume m: "s1 \<ge> 0" "os_fds k s1 = None" "os_fds k1 = (os_fds k)(s1 \<mapsto> fresh_desc (sa_family a) Stream_type)" "os_ok k1"
    note bb = sys_call_cases [OF b [unfolded sys_bind_def] m(4)]
    note ll = sys_call_cases [OF l [unfolded sys_listen_def] conjunct1 [OF bb]]
    have first: "e1 \<noteq> 0 \<Longrightarrow> s1 = os_next k \<and> take 1 (os_calls k) = [0] \<and> take 1 (drop 1 (os_calls k)) \<notin> {[], [0]}"
      using sys_socket_first [OF s m(1)] sys_call_first [OF b [unfolded sys_bind_def]] by (cases "os_calls k") auto
    show ?thesis using run assms(2) m bb ll first
      by (auto simp: opens_one_def fun_upd_idem split: if_splits)
  qed
qed

theorem TCPServerSocket_new_leaks_on_bind_failure_witness:
  "\<exists>k'. TCPServerSocket_new (\<lambda>h s t p. Some [\<lparr>sa_family = Inet, sa_host = ''*'', sa_port = 7\<rparr>]) 7
      \<lparr>os_fds = Map.empty, os_next = 3, os_calls = [0, 98]\<rparr> = (Some Socket_exception, - 1, k')
    \<and> dom (os_fds k') = {3}"
proof -
  let ?gai = "\<lambda>h s t p. Some [\<lparr>sa_family = Inet, sa_host = ''*'', sa_port = 7\<rparr>]"
  let ?k = "\<lparr>os_fds = Map.empty, os_next = 3, os_calls = [0, 98]\<rparr>"
  obtain r sd k' where n: "TCPServerSocket_new ?gai 7 ?k = (r, sd, k')" by (metis prod_cases3)
  have r: "r = Some Socket_exception" and some: "os_fds k' 3 \<noteq> None"
    using n by (auto simp: TCPServerSocket_new_def findTCPServerSocketDesc_def sys_socket_def sys_bind_def
        sys_call_def sys_result_def Socket_destructor_def)
  have "os_ok ?k" by (simp add: os_ok_def)
  from TCPServerSocket_new_leaks_on_bind_failure [OF this n refl] r some n show ?thesis
    by (auto simp: opens_one_def dom_def fresh_desc_def split: if_splits)
qed

text \<open>
  \<open>UDPSocket::bind\<close> binds nothing: whether it replaces an old descriptor or not, the socket it
  makes has no local address.
\<close>

theorem UDPSocket_bind_binds_nothing:
  assumes "os_ok k" and "UDPSocket_bind a sockDesc k = (None, sd, k')"
  shows "\<exists>d. os_fds k' sd = Some d \<and> ds_type d = Dgram_type \<and> ds_bound d = None"
proof -
  let ?k1 = "if sockDesc \<ge> 0 then snd (Socket_close sockDesc k) else k"
  let ?dom = "if sa_family a = Inet6 then Inet6 else Inet"
  have "os_ok ?k1" using assms(1) by (simp add: Socket_close_def)
  moreover from assms(2) have "sys_socket ?dom Dgram_type ?k1 = (sd, k')" "\<not> sd < 0"
    by (auto simp: UDPSocket_bind_def createSocket_def Let_def split: prod.splits if_splits)
  ultimately show ?thesis by (elim sys_socket_cases) (auto simp: fresh_desc_def)
qed

theorem UDPSocket_bind_binds_nothing_witness:
  "\<exists>k'. UDPSocket_bind \<lparr>sa_family = Inet, sa_host = ''*'', sa_port = 7\<rparr> (- 1) \<lparr>os_fds = Map.empty, os_next = 3, os_calls = []\<rparr>
      = (None, 3, k') \<and> (\<exists>d. os_fds k' 3 = Some d \<and> ds_bound d = None)"
proof -
  let ?k = "\<lparr>os_fds = Map.empty, os_next = 3, os_calls = []\<rparr>"
  obtain r sd k' where u: "UDPSocket_bind \<lparr>sa_family = Inet, sa_host = ''*'', sa_port = 7\<rparr> (- 1) ?k = (r, sd, k')"
    by (metis prod_cases3)
  have r: "r = None" "sd = 3"
    using u by (auto simp: UDPSocket_bind_def createSocket_def sys_socket_def sys_result_def)
  have "os_ok ?k" by (simp add: os_ok_def)
  from UDPSocket_bind_binds_nothing [OF this u [unfolded r]] u r show ?thesis by blast
qed

end
