(* ===== verification/Socket_Stream.thy ===== *)
theory Socket_Stream
  imports Practical_Socket
begin

text \<open>
  The transfer of bytes over a connected socket in PracticalSocket.cpp: \<open>send\<close>, \<open>recv\<close>,
  \<open>recvFully\<close>, and \<open>SocketStreamBuffer\<close>, the stream buffer that makes an \<open>iostream\<close> of a socket.
  A connection is the script of what arrives, what the kernel took for sending, and the results of
  the calls of \<open>send\<close> to come (negative for an error, all bytes taken when the script is exhausted).
\<close>

record conn =
  cn_in :: net
  cn_out :: bytes
  cn_sends :: "int list"

definition conn_of :: "net \<Rightarrow> conn" where
  "conn_of s = \<lparr>cn_in = s, cn_out = [], cn_sends = []\<rparr>"

lemma conn_of_sel [simp]: "cn_in (conn_of s) = s" "cn_out (conn_of s) = []" "cn_sends (conn_of s) = []"
  by (simp_all add: conn_of_def)

subsection \<open>send and recv\<close>

definition sys_send :: "bytes \<Rightarrow> conn \<Rightarrow> int \<times> conn" where
  "sys_send bs c =
     (case cn_sends c of
        [] \<Rightarrow> (int (length bs), c\<lparr>cn_out := cn_out c @ bs\<rparr>)
      | r # rs \<Rightarrow>
          if r < 0 then (r, c\<lparr>cn_sends := rs\<rparr>)
          else (min r (int (length bs)), c\<lparr>cn_out := cn_out c @ take (nat r) bs, cn_sends := rs\<rparr>))"

lemma sys_send_quiet: "cn_sends c = [] \<Longrightarrow> sys_send bs c = (int (length bs), c\<lparr>cn_out := cn_out c @ bs\<rparr>)"
  by (simp add: sys_send_def)

lemma sys_send_in: "sys_send bs c = (r, c1) \<Longrightarrow> cn_in c1 = cn_in c"
  by (auto simp: sys_send_def split: list.splits if_splits)

definition comm_send :: "bytes \<Rightarrow> conn \<Rightarrow> sock_exn option \<times> conn" where
  "comm_send bs c = (case sys_send bs c of (r, c1) \<Rightarrow> (if r < 0 then Some Socket_exception else None, c1))"

text \<open>One call of \<open>::recv\<close>; the kernel transfers at most 0x7ffff000 bytes.\<close>

definition rw_count :: nat where "rw_count = 0x7ffff000"

definition sys_recv :: "nat \<Rightarrow> conn \<Rightarrow> bytes option \<times> conn" where
  "sys_recv n c =
     (case read_some (min n rw_count) (cn_in c) of
        (ec, got, s) \<Rightarrow> (if ec_set ec \<and> ec \<noteq> eof then None else Some got, c\<lparr>cn_in := s\<rparr>))"

text \<open>The conversion of an \<open>int\<close> length to the \<open>size_t\<close> the call takes.\<close>

definition size_of_int :: "int \<Rightarrow> nat" where
  "size_of_int i = nat (i mod 2 ^ 64)"

definition comm_recv :: "int \<Rightarrow> conn \<Rightarrow> (sock_exn + bytes) \<times> conn" where
  "comm_recv bufferLen c =
     (case sys_recv (size_of_int bufferLen) c of
        (None, c1) \<Rightarrow> (Inl Socket_exception, c1) | (Some got, c1) \<Rightarrow> (Inr got, c1))"

lemma sys_recv_shrinks:
  assumes "sys_recv n c = (Some got, c1)" and "got \<noteq> []"
  shows "net_size (cn_in c1) < net_size (cn_in c)"
proof -
  obtain ec g s where r: "read_some (min n rw_count) (cn_in c) = (ec, g, s)" by (metis prod_cases3)
  then have g: "g = got" "c1 = c\<lparr>cn_in := s\<rparr>" using assms(1) by (auto simp: sys_recv_def split: if_splits)
  have "0 < min n rw_count" using read_some_length [OF r] g(1) assms(2) by (cases "min n rw_count") simp_all
  moreover have "cn_in c \<noteq> []" using r g(1) assms(2) by (cases "cn_in c") auto
  moreover note g
  ultimately show ?thesis using read_some_shrinks [OF r] by simp
qed

function recv_fully_loop :: "int \<Rightarrow> bytes \<Rightarrow> conn \<Rightarrow> (sock_exn + bytes) \<times> conn" where
  "recv_fully_loop bufferLen acc c =
     (case sys_recv (size_of_int (bufferLen - int (length acc))) c of
        (None, c1) \<Rightarrow> (Inl Socket_exception, c1)
      | (Some got, c1) \<Rightarrow>
          if got \<noteq> [] \<and> int (length acc) + int (length got) < bufferLen
          then recv_fully_loop bufferLen (acc @ got) c1
          else (Inr (acc @ got), c1))"
  by pat_completeness auto

termination
  by (relation "measure (\<lambda>(_, _, c). net_size (cn_in c))") (auto intro: sys_recv_shrinks [OF sym])

declare recv_fully_loop.simps [simp del]

definition recvFully :: "int \<Rightarrow> conn \<Rightarrow> (sock_exn + bytes) \<times> conn" where
  "recvFully bufferLen c = recv_fully_loop bufferLen [] c"

lemma sys_recv_quiet:
  assumes "no_fail (cn_in c)" and "0 < n"
  shows "\<exists>got s. sys_recv n c = (Some got, c\<lparr>cn_in := s\<rparr>) \<and> got @ net_data s = net_data (cn_in c)
    \<and> no_fail s \<and> length got \<le> n \<and> (got = [] \<longleftrightarrow> net_data (cn_in c) = [])"
proof -
  obtain ec got s where r: "read_some (min n rw_count) (cn_in c) = (ec, got, s)" by (metis prod_cases3)
  have "0 < min n rw_count" using assms(2) by (simp add: rw_count_def)
  with read_some_ec [OF r assms(1)] read_some_data [OF r] read_some_no_fail [OF r assms(1)]
    read_some_length [OF r] r show ?thesis
    by (auto simp: sys_recv_def split: if_splits)
qed

lemma recv_fully_loop_exact:
  assumes "no_fail (cn_in c)" and "int (length acc) < n" and "n < 2 ^ 31"
  shows "\<exists>s. recv_fully_loop n acc c = (Inr (acc @ take (nat n - length acc) (net_data (cn_in c))), c\<lparr>cn_in := s\<rparr>)
    \<and> net_data s = drop (nat n - length acc) (net_data (cn_in c)) \<and> no_fail s"
  using assms
proof (induction n acc c rule: recv_fully_loop.induct)
  case (1 n acc c)
  have sz: "size_of_int (n - int (length acc)) = nat n - length acc" "0 < nat n - length acc"
    using "1.prems" by (simp_all add: size_of_int_def nat_diff_distrib)
  from sys_recv_quiet [OF "1.prems"(1) sz(2)] obtain got s where
    r: "sys_recv (nat n - length acc) c = (Some got, c\<lparr>cn_in := s\<rparr>)"
    and d: "got @ net_data s = net_data (cn_in c)" "no_fail s" "length got \<le> nat n - length acc"
      "got = [] \<longleftrightarrow> net_data (cn_in c) = []" by blast
  show ?case
  proof (cases "got \<noteq> [] \<and> int (length acc) + int (length got) < n")
    case True
    let ?c = "c\<lparr>cn_in := s\<rparr>"
    have r': "(Some got, ?c) = sys_recv (size_of_int (n - int (length acc))) c" using r sz by simp
    have lt: "int (length (acc @ got)) < n" using True by simp
    from "1.IH" [OF r' refl True _ lt "1.prems"(3)] d(2) obtain t where
      rec: "recv_fully_loop n (acc @ got) ?c
        = (Inr ((acc @ got) @ take (nat n - length (acc @ got)) (net_data s)), ?c\<lparr>cn_in := t\<rparr>)"
      "net_data t = drop (nat n - length (acc @ got)) (net_data s)" "no_fail t" by auto
    have "recv_fully_loop n acc c = recv_fully_loop n (acc @ got) ?c"
      using r sz True by (subst recv_fully_loop.simps) simp
    moreover have "(acc @ got) @ take (nat n - length (acc @ got)) (net_data s)
        = acc @ take (nat n - length acc) (net_data (cn_in c))"
      "drop (nat n - length (acc @ got)) (net_data s) = drop (nat n - length acc) (net_data (cn_in c))"
      unfolding d(1) [symmetric] using d(3) by simp_all
    ultimately show ?thesis using rec by (intro exI [of _ t]) simp
  next
    case False
    then have e: "got = [] \<or> length got = nat n - length acc" using d(3) "1.prems"(2) by linarith
    have "recv_fully_loop n acc c = (Inr (acc @ got), c\<lparr>cn_in := s\<rparr>)"
      using r sz False by (subst recv_fully_loop.simps) auto
    moreover have "got = take (nat n - length acc) (net_data (cn_in c))"
        "net_data s = drop (nat n - length acc) (net_data (cn_in c))"
      using e d(4) d(1) by (metis append_eq_conv_conj append_Nil take_Nil drop_Nil)+
    ultimately show ?thesis using d(2) by blast
  qed
qed

text \<open>
  \<open>recvFully\<close> returns exactly the next \<open>bufferLen\<close> bytes of the connection, or all that are left
  when the peer closes before, in whatever pieces they arrive, and takes no byte more.
\<close>

theorem recvFully_exact:
  assumes "no_fail (cn_in c)" and "0 < n" and "n < 2 ^ 31"
  shows "\<exists>s. recvFully n c = (Inr (take (nat n) (net_data (cn_in c))), c\<lparr>cn_in := s\<rparr>)
    \<and> net_data s = drop (nat n) (net_data (cn_in c)) \<and> no_fail s"
  using recv_fully_loop_exact [of c "[]" n] assms by (simp add: recvFully_def)

theorem recvFully_exact_witness:
  "\<exists>s. recvFully 4 (conn_of [Arrive ''a'', Arrive ''bc'', Arrive ''def'']) = (Inr ''abcd'', (conn_of [])\<lparr>cn_in := s\<rparr>)
    \<and> net_data s = ''ef''"
  using recvFully_exact [of "conn_of [Arrive ''a'', Arrive ''bc'', Arrive ''def'']" 4]
  by (auto simp: conn_of_def)

subsection \<open>SocketStreamBuffer\<close>

text \<open>
  The get area is the list of characters between \<open>gptr\<close> and \<open>egptr\<close>, the put area what stands
  between \<open>outBuffer\<close> and \<open>pptr\<close>; both arrays hold 1024 characters.
\<close>

record streambuf_state =
  st_get :: bytes
  st_put :: bytes
  st_conn :: conn

definition stream_cap :: nat where "stream_cap = 1024"

definition SocketStreamBuffer_new :: "conn \<Rightarrow> streambuf_state" where
  "SocketStreamBuffer_new c = \<lparr>st_get = [], st_put = [], st_conn = c\<rparr>"

definition st_sync :: "streambuf_state \<Rightarrow> sock_exn option \<times> streambuf_state" where
  "st_sync b =
     (case comm_send (st_put b) (st_conn b) of
        (Some e, c) \<Rightarrow> (Some e, b\<lparr>st_conn := c\<rparr>)
      | (None, c) \<Rightarrow> (None, b\<lparr>st_put := [], st_conn := c\<rparr>))"

text \<open>
  \<open>sputc\<close> of the base class stores the character when there is room and calls \<open>overflow\<close> otherwise,
  which syncs and calls \<open>sputc\<close> again, now with room.
\<close>

definition st_store :: "char \<Rightarrow> streambuf_state \<Rightarrow> streambuf_state" where
  "st_store ch b = b\<lparr>st_put := st_put b @ [ch]\<rparr>"

definition st_overflow :: "char option \<Rightarrow> streambuf_state \<Rightarrow> sock_exn option \<times> streambuf_state" where
  "st_overflow ch b =
     (case st_sync b of
        (Some e, b1) \<Rightarrow> (Some e, b1)
      | (None, b1) \<Rightarrow> (None, case ch of None \<Rightarrow> b1 | Some x \<Rightarrow> st_store x b1))"

definition st_sputc :: "char \<Rightarrow> streambuf_state \<Rightarrow> sock_exn option \<times> streambuf_state" where
  "st_sputc ch b =
     (if length (st_put b) < stream_cap then (None, st_store ch b) else st_overflow (Some ch) b)"

fun st_write :: "bytes \<Rightarrow> streambuf_state \<Rightarrow> sock_exn option \<times> streambuf_state" where
  "st_write [] b = (None, b)"
| "st_write (x # xs) b =
     (case st_sputc x b of (Some e, b1) \<Rightarrow> (Some e, b1) | (None, b1) \<Rightarrow> st_write xs b1)"

text \<open>\<open>underflow\<close> gives the character \<open>sgetc\<close> finds, or end of file.\<close>

definition st_underflow :: "streambuf_state \<Rightarrow> (sock_exn + char option) \<times> streambuf_state" where
  "st_underflow b =
     (case comm_recv (int stream_cap) (st_conn b) of
        (Inl e, c) \<Rightarrow> (Inl e, b\<lparr>st_conn := c\<rparr>)
      | (Inr got, c) \<Rightarrow>
          if length got = 0 then (Inr None, b\<lparr>st_conn := c\<rparr>)
          else (Inr (Some (hd got)), b\<lparr>st_get := got, st_conn := c\<rparr>))"

text \<open>\<open>sbumpc\<close> of the base class takes the next character, after \<open>underflow\<close> when the get area is empty.\<close>

definition st_sbumpc :: "streambuf_state \<Rightarrow> (sock_exn + char option) \<times> streambuf_state" where
  "st_sbumpc b =
     (case st_get b of
        x # xs \<Rightarrow> (Inr (Some x), b\<lparr>st_get := xs\<rparr>)
      | [] \<Rightarrow> (case st_underflow b of
          (Inr (Some x), b1) \<Rightarrow> (Inr (Some x), b1\<lparr>st_get := tl (st_get b1)\<rparr>) | r \<Rightarrow> r))"

fun st_read :: "nat \<Rightarrow> streambuf_state \<Rightarrow> (sock_exn + bytes) \<times> streambuf_state" where
  "st_read 0 b = (Inr [], b)"
| "st_read (Suc n) b =
     (case st_sbumpc b of
        (Inl e, b1) \<Rightarrow> (Inl e, b1)
      | (Inr None, b1) \<Rightarrow> (Inr [], b1)
      | (Inr (Some x), b1) \<Rightarrow>
          (case st_read n b1 of (Inl e, b2) \<Rightarrow> (Inl e, b2) | (Inr xs, b2) \<Rightarrow> (Inr (x # xs), b2)))"

lemma st_sputc_quiet:
  assumes "cn_sends (st_conn b) = []" and "length (st_put b) \<le> stream_cap"
  shows "\<exists>b'. st_sputc ch b = (None, b') \<and> cn_out (st_conn b') @ st_put b' = cn_out (st_conn b) @ st_put b @ [ch]
    \<and> cn_sends (st_conn b') = [] \<and> length (st_put b') \<le> stream_cap \<and> st_get b' = st_get b
    \<and> cn_in (st_conn b') = cn_in (st_conn b)"
  using assms by (auto simp: st_sputc_def st_overflow_def st_sync_def st_store_def comm_send_def sys_send_def stream_cap_def)

lemma st_write_quiet:
  assumes "cn_sends (st_conn b) = []" and "length (st_put b) \<le> stream_cap"
  shows "\<exists>b'. st_write xs b = (None, b') \<and> cn_out (st_conn b') @ st_put b' = cn_out (st_conn b) @ st_put b @ xs
    \<and> cn_sends (st_conn b') = [] \<and> length (st_put b') \<le> stream_cap \<and> st_get b' = st_get b
    \<and> cn_in (st_conn b') = cn_in (st_conn b)"
  using assms
proof (induction xs arbitrary: b)
  case (Cons x xs)
  from st_sputc_quiet [OF Cons.prems] obtain b1 where b1: "st_sputc x b = (None, b1)"
    "cn_out (st_conn b1) @ st_put b1 = cn_out (st_conn b) @ st_put b @ [x]"
    "cn_sends (st_conn b1) = []" "length (st_put b1) \<le> stream_cap" "st_get b1 = st_get b"
    "cn_in (st_conn b1) = cn_in (st_conn b)" by blast
  from Cons.IH [OF b1(3,4)] b1 show ?case by (auto simp: append_assoc [symmetric] simp del: append_assoc)
qed auto

text \<open>
  on a socket whose sends are not cut short the stream buffer is a faithful pipe to the peer:
  after any characters are written and the stream is flushed, exactly they have been sent, in order.
\<close>

theorem stream_write_flush:
  assumes "cn_sends c = []"
  shows "\<exists>b b'. st_write xs (SocketStreamBuffer_new c) = (None, b) \<and> st_sync b = (None, b')
    \<and> cn_out (st_conn b') = cn_out c @ xs \<and> st_put b' = []"
proof -
  have "\<exists>b. st_write xs (SocketStreamBuffer_new c) = (None, b) \<and> cn_out (st_conn b) @ st_put b = cn_out c @ xs
    \<and> cn_sends (st_conn b) = []"
    using st_write_quiet [of "SocketStreamBuffer_new c" xs] assms
    by (auto simp: SocketStreamBuffer_new_def stream_cap_def)
  then show ?thesis by (auto simp: st_sync_def comm_send_def sys_send_def)
qed

theorem stream_write_flush_witness:
  "\<exists>b b'. st_write ''hi'' (SocketStreamBuffer_new (conn_of [])) = (None, b) \<and> st_sync b = (None, b')
    \<and> cn_out (st_conn b') = ''hi''"
  using stream_write_flush [of "conn_of []" "''hi''"] by auto

text \<open>
  A send the kernel cuts short is not repeated: \<open>sync\<close> forgets the characters it did not take.
\<close>

lemma stream_sync_short:
  "cn_sends (st_conn b) = r # rs \<Longrightarrow> 0 \<le> r \<Longrightarrow>
   st_sync b = (None, b\<lparr>st_put := [], st_conn := (st_conn b)
      \<lparr>cn_out := cn_out (st_conn b) @ take (nat r) (st_put b), cn_sends := rs\<rparr>\<rparr>)"
  by (simp add: st_sync_def comm_send_def sys_send_def)

definition st_pending :: "streambuf_state \<Rightarrow> bytes" where
  "st_pending b = st_get b @ net_data (cn_in (st_conn b))"

lemma st_sbumpc_next:
  assumes "no_fail (cn_in (st_conn b))"
  shows "\<exists>b'. st_sbumpc b = (Inr (case st_pending b of [] \<Rightarrow> None | x # xs \<Rightarrow> Some x), b')
    \<and> st_pending b' = tl (st_pending b) \<and> no_fail (cn_in (st_conn b'))"
proof (cases "st_get b")
  case Nil
  have sz: "size_of_int (int stream_cap) = stream_cap" "0 < stream_cap" by (simp_all add: size_of_int_def stream_cap_def)
  from sys_recv_quiet [OF assms sz(2)] obtain got s where
    r: "sys_recv stream_cap (st_conn b) = (Some got, (st_conn b)\<lparr>cn_in := s\<rparr>)"
    and d: "got @ net_data s = net_data (cn_in (st_conn b))" "no_fail s" "got = [] \<longleftrightarrow> net_data (cn_in (st_conn b)) = []"
    by blast
  with Nil sz show ?thesis
    by (cases got) (auto simp: st_sbumpc_def st_underflow_def comm_recv_def st_pending_def d(1) [symmetric])
next
  case (Cons x xs)
  with assms show ?thesis by (simp add: st_sbumpc_def st_pending_def)
qed

text \<open>
  what is read from the stream is what the peer sent: n characters taken one by one are the
  first n bytes of the connection, however they arrive, and the rest stays to be read.
\<close>

theorem stream_read_in_order:
  assumes "no_fail (cn_in (st_conn b))"
  shows "\<exists>b'. st_read n b = (Inr (take n (st_pending b)), b') \<and> st_pending b' = drop n (st_pending b)"
  using assms
proof (induction n arbitrary: b)
  case (Suc n)
  from st_sbumpc_next [OF Suc.prems] obtain b1 where
    b1: "st_sbumpc b = (Inr (case st_pending b of [] \<Rightarrow> None | x # xs \<Rightarrow> Some x), b1)"
      "st_pending b1 = tl (st_pending b)" "no_fail (cn_in (st_conn b1))" by blast
  from Suc.IH [OF b1(3)] b1 show ?case by (cases "st_pending b") auto
qed simp

theorem stream_read_in_order_witness:
  "\<exists>b'. st_read 3 (SocketStreamBuffer_new (conn_of [Arrive ''ab'', Arrive ''cd''])) = (Inr ''abc'', b') \<and> st_pending b' = ''d''"
  using stream_read_in_order [of "SocketStreamBuffer_new (conn_of [Arrive ''ab'', Arrive ''cd''])" 3]
  by (simp add: SocketStreamBuffer_new_def st_pending_def)

end
