(* ===== verification/Survey.thy ===== *)
theory Survey
  imports Socket_Stream
begin

text \<open>
  The binary encoding of SurveyCommon.cpp in TCP.IP.Sockets.In.C/code, over the sockets of
  \<open>Socket_Stream\<close>: integers in network byte order and strings with their length, sent and received;
  and the interface of a codec, through which what one side writes is what the other reads.
\<close>

subsection \<open>Integers and strings on the wire\<close>

text \<open>\<open>htonl\<close> and the bytes in memory: the big-endian bytes of a 32-bit word, and back.\<close>

definition be_bytes :: "u32 \<Rightarrow> bytes" where
  "be_bytes v = (let n = unat v in
     [char_of (n div 16777216), char_of (n div 65536), char_of (n div 256), char_of n])"

definition be_word :: "bytes \<Rightarrow> u32" where
  "be_word bs = of_nat (foldl (\<lambda>n c. 256 * n + of_char c) 0 bs)"

lemma length_be_bytes [simp]: "length (be_bytes v) = 4"
  by (simp add: be_bytes_def Let_def)

lemma be_word_be_bytes [simp]: "be_word (be_bytes v) = v"
proof -
  let ?n = "unat v"
  have lt: "?n < 2 ^ LENGTH(32)" by (rule unsigned_less)
  have split: "?n div 65536 = ?n div 256 div 256" "?n div 16777216 = ?n div 256 div 256 div 256"
    by (simp_all add: div_mult2_eq [symmetric])
  have "?n div 16777216 < 256" using lt by (simp add: less_mult_imp_div_less)
  then have top: "?n div 256 div 256 div 256 mod 256 = ?n div 256 div 256 div 256"
    unfolding split by (rule mod_less)
  have "256 * (256 * (256 * (?n div 16777216 mod 256) + ?n div 65536 mod 256) + ?n div 256 mod 256) + ?n mod 256 = ?n"
    unfolding split top mult_div_mod_eq ..
  moreover have "?n div 16777216 mod 256 = ?n div 16777216" using top unfolding split .
  ultimately have "foldl (\<lambda>n c. 256 * n + of_char c) 0 (be_bytes v) = ?n"
    by (simp add: be_bytes_def Let_def of_char_of)
  then show ?thesis unfolding be_word_def by simp
qed

text \<open>The bytes of a word in the memory of a little-endian host.\<close>

definition le_bytes :: "u32 \<Rightarrow> bytes" where "le_bytes v = rev (be_bytes v)"
definition le_word :: "bytes \<Rightarrow> u32" where "le_word bs = be_word (rev bs)"

lemma le_word_le_bytes [simp]: "le_word (le_bytes v) = v" "length (le_bytes v) = 4"
  by (simp_all add: le_word_def le_bytes_def)

definition sendInt :: "u32 \<Rightarrow> conn \<Rightarrow> sock_exn option \<times> conn" where
  "sendInt val c = comm_send (be_bytes val) c"

definition sendString :: "bytes \<Rightarrow> conn \<Rightarrow> sock_exn option \<times> conn" where
  "sendString str c =
     (case sendInt (of_nat (length str)) c of
        (Some e, c1) \<Rightarrow> (Some e, c1) | (None, c1) \<Rightarrow> comm_send str c1)"

definition recvInt :: "conn \<Rightarrow> (sock_exn + u32) \<times> conn" where
  "recvInt c =
     (case recvFully 4 c of
        (Inl e, c1) \<Rightarrow> (Inl e, c1)
      | (Inr got, c1) \<Rightarrow> (if length got \<noteq> 4 then Inl Runtime_error else Inr (be_word got), c1))"

text \<open>
  The buffer has \<open>len + 1\<close> bytes, computed in 32 bits; \<open>len\<close> becomes an \<open>int\<close> for \<open>recvFully\<close>; the
  string is built from the bytes up to the first NUL.
\<close>

definition recvString :: "conn \<Rightarrow> (sock_exn + bytes) \<times> conn" where
  "recvString c =
     (case recvInt c of
        (Inl e, c1) \<Rightarrow> (Inl e, c1)
      | (Inr len, c1) \<Rightarrow>
          let room = unat (len + 1) in
          (case recvFully (sint len) c1 of
             (Inl e, c2) \<Rightarrow> (Inl e, c2)
           | (Inr got, c2) \<Rightarrow>
               if room < length got then (Inl Heap_overflow, c2)
               else if length got \<noteq> unat len then (Inl Runtime_error, c2)
               else (Inr (before CHR 0x00 got), c2)))"

text \<open>A value decoded again and again, as the client does for the choices of a question.\<close>

fun recv_many :: "(conn \<Rightarrow> (sock_exn + 'a) \<times> conn) \<Rightarrow> nat \<Rightarrow> conn \<Rightarrow> (sock_exn + 'a list) \<times> conn" where
  "recv_many dec 0 c = (Inr [], c)"
| "recv_many dec (Suc n) c =
     (case dec c of
        (Inl e, c1) \<Rightarrow> (Inl e, c1)
      | (Inr x, c1) \<Rightarrow>
          (case recv_many dec n c1 of (Inl e, c2) \<Rightarrow> (Inl e, c2) | (Inr xs, c2) \<Rightarrow> (Inr (x # xs), c2)))"

text \<open>A decoder that gives back what the encoder wrote, takes no byte more, and keeps the connection usable.\<close>

locale wire_codec =
  fixes dec :: "conn \<Rightarrow> (sock_exn + 'a) \<times> conn" and enc :: "'a \<Rightarrow> bytes" and valid :: "'a \<Rightarrow> bool"
  assumes dec_enc: "no_fail (cn_in c) \<Longrightarrow> net_data (cn_in c) = enc a @ rest \<Longrightarrow> valid a \<Longrightarrow>
    \<exists>s. dec c = (Inr a, c\<lparr>cn_in := s\<rparr>) \<and> net_data s = rest \<and> no_fail s"
begin

lemma many:
  "no_fail (cn_in c) \<Longrightarrow> net_data (cn_in c) = concat (map enc xs) @ rest \<Longrightarrow> \<forall>x \<in> set xs. valid x \<Longrightarrow>
    \<exists>s. recv_many dec (length xs) c = (Inr xs, c\<lparr>cn_in := s\<rparr>) \<and> net_data s = rest \<and> no_fail s"
proof (induction xs arbitrary: c)
  case Nil
  then show ?case by (intro exI [of _ "cn_in c"]) simp
next
  case (Cons x xs)
  from Cons.prems have "net_data (cn_in c) = enc x @ concat (map enc xs) @ rest" "valid x" by simp_all
  from dec_enc [OF Cons.prems(1) this] obtain s where
    s: "dec c = (Inr x, c\<lparr>cn_in := s\<rparr>)" "net_data s = concat (map enc xs) @ rest" "no_fail s" by blast
  from Cons.IH [of "c\<lparr>cn_in := s\<rparr>"] s Cons.prems(3) show ?case by auto
qed

end

lemma recvFully_prefix:
  assumes "no_fail (cn_in c)" and "net_data (cn_in c) = xs @ rest" and "length xs < 2 ^ 31" and "xs \<noteq> []"
  shows "\<exists>s. recvFully (int (length xs)) c = (Inr xs, c\<lparr>cn_in := s\<rparr>) \<and> net_data s = rest \<and> no_fail s"
  using recv_fully_loop_exact [of c "[]" "int (length xs)"] assms by (simp add: recvFully_def)

lemma recvFully_zero: "no_fail (cn_in c) \<Longrightarrow>
    \<exists>s. recvFully 0 c = (Inr [], c\<lparr>cn_in := s\<rparr>) \<and> net_data s = net_data (cn_in c) \<and> no_fail s"
proof -
  assume nf: "no_fail (cn_in c)"
  obtain ec got s where r: "read_some 0 (cn_in c) = (ec, got, s)" by (metis prod_cases3)
  then have "got = []" using read_some_length [OF r] by simp
  with read_some_ec [OF r nf] read_some_data [OF r] read_some_no_fail [OF r nf] r show ?thesis
    unfolding recvFully_def
    by (subst recv_fully_loop.simps) (auto simp: sys_recv_def size_of_int_def split: if_splits)
qed

interpretation int_codec: wire_codec recvInt be_bytes "\<lambda>_. True"
proof
  fix c :: conn and a rest
  assume "no_fail (cn_in c)" and "net_data (cn_in c) = be_bytes a @ rest"
  moreover have "be_bytes a \<noteq> []" by (metis length_be_bytes list.size(3) zero_neq_numeral)
  ultimately obtain s where "recvFully 4 c = (Inr (be_bytes a), c\<lparr>cn_in := s\<rparr>)" "net_data s = rest" "no_fail s"
    using recvFully_prefix [of c "be_bytes a" rest] by auto
  then show "\<exists>s. recvInt c = (Inr a, c\<lparr>cn_in := s\<rparr>) \<and> net_data s = rest \<and> no_fail s"
    by (auto simp: recvInt_def)
qed

definition string_bytes :: "bytes \<Rightarrow> bytes" where
  "string_bytes str = be_bytes (of_nat (length str)) @ str"

definition plain_string :: "bytes \<Rightarrow> bool" where
  "plain_string str \<longleftrightarrow> CHR 0x00 \<notin> set str \<and> length str < 2 ^ 31"

lemma sint_of_nat_small: "n < 2 ^ 31 \<Longrightarrow> sint (of_nat n :: u32) = int n"
  by (simp add: signed_of_nat signed_take_bit_int_eq_self)


lemma plain_string_len:
  assumes "plain_string str"
  shows "sint (of_nat (length str) :: u32) = int (length str)" and "unat (of_nat (length str) :: u32) = length str"
    and "unat (of_nat (length str) + 1 :: u32) = Suc (length str)"
proof -
  have l: "length str < 2 ^ 31" using assms by (simp add: plain_string_def)
  then show "sint (of_nat (length str) :: u32) = int (length str)" by (rule sint_of_nat_small)
  show "unat (of_nat (length str) :: u32) = length str" using l by (simp add: unat_of_nat)
  have "of_nat (length str) + 1 = (of_nat (Suc (length str)) :: u32)" by simp
  then show "unat (of_nat (length str) + 1 :: u32) = Suc (length str)" using l by (simp add: unat_of_nat del: of_nat_Suc)
qed

interpretation string_codec: wire_codec recvString string_bytes plain_string
proof
  fix c :: conn and str rest
  assume nf: "no_fail (cn_in c)" and d: "net_data (cn_in c) = string_bytes str @ rest" and pl: "plain_string str"
  have "net_data (cn_in c) = be_bytes (of_nat (length str)) @ str @ rest" using d by (simp add: string_bytes_def)
  from int_codec.dec_enc [OF nf this TrueI] obtain s where
    s: "recvInt c = (Inr (of_nat (length str)), c\<lparr>cn_in := s\<rparr>)" "net_data s = str @ rest" "no_fail s" by blast
  have "\<exists>t. recvFully (int (length str)) (c\<lparr>cn_in := s\<rparr>) = (Inr str, c\<lparr>cn_in := t\<rparr>) \<and> net_data t = rest \<and> no_fail t"
  proof (cases "str = []")
    case True
    then show ?thesis using recvFully_zero [of "c\<lparr>cn_in := s\<rparr>"] s by simp
  next
    case False
    then show ?thesis using recvFully_prefix [of "c\<lparr>cn_in := s\<rparr>" str rest] s pl by (simp add: plain_string_def)
  qed
  then obtain t where
    t: "recvFully (int (length str)) (c\<lparr>cn_in := s\<rparr>) = (Inr str, c\<lparr>cn_in := t\<rparr>)" "net_data t = rest" "no_fail t" by blast
  have "before CHR 0x00 str = str" using pl by (simp add: plain_string_def)
  then show "\<exists>s. recvString c = (Inr str, c\<lparr>cn_in := s\<rparr>) \<and> net_data s = rest \<and> no_fail s"
    using s(1) t by (intro exI [of _ t]) (simp add: recvString_def plain_string_len [OF pl])
qed

lemma sendString_quiet: "cn_sends c = [] \<Longrightarrow> sendString str c = (None, c\<lparr>cn_out := cn_out c @ string_bytes str\<rparr>)"
  by (simp add: sendString_def sendInt_def comm_send_def sys_send_def string_bytes_def)

lemma sendInt_quiet: "cn_sends c = [] \<Longrightarrow> sendInt v c = (None, c\<lparr>cn_out := cn_out c @ be_bytes v\<rparr>)"
  by (simp add: sendInt_def comm_send_def sys_send_def)

text \<open>
  a string sent by \<open>sendString\<close> is received whole by \<open>recvString\<close>, in whatever pieces it arrives,
  and nothing behind it is consumed, provided it is shorter than 2 ^ 31 bytes and holds no NUL.
\<close>

theorem string_over_the_wire:
  assumes "cn_sends a = []" and "cn_out a = []" and "sendString str a = (None, a')"
    and "no_fail (cn_in b)" and "net_data (cn_in b) = cn_out a' @ rest"
    and "CHR 0x00 \<notin> set str" and "length str < 2 ^ 31"
  shows "\<exists>s. recvString b = (Inr str, b\<lparr>cn_in := s\<rparr>) \<and> net_data s = rest"
proof -
  have "a' = a\<lparr>cn_out := cn_out a @ string_bytes str\<rparr>" using assms(3) sendString_quiet [OF assms(1)] by simp
  then have "cn_out a' = string_bytes str" using assms(2) by simp
  then show ?thesis using string_codec.dec_enc [OF assms(4), of str rest] assms(5,6,7) by (auto simp: plain_string_def)
qed

theorem string_over_the_wire_witness:
  "\<exists>a' s. sendString ''hi'' (conn_of []) = (None, a')
    \<and> recvString (conn_of [Arrive (take 3 (cn_out a')), Arrive (drop 3 (cn_out a') @ ''x'')]) = (Inr ''hi'', conn_of s)
    \<and> net_data s = ''x''"
proof -
  let ?a' = "(conn_of [])\<lparr>cn_out := string_bytes ''hi''\<rparr>"
  have a: "sendString ''hi'' (conn_of []) = (None, ?a')" by (simp add: sendString_quiet)
  let ?b = "conn_of [Arrive (take 3 (cn_out ?a')), Arrive (drop 3 (cn_out ?a') @ ''x'')]"
  have d: "net_data (cn_in ?b) = cn_out ?a' @ ''x''"
    unfolding conn_of_sel net_data.simps by (metis append.assoc append_Nil2 append_take_drop_id)
  have "\<exists>s. recvString ?b = (Inr ''hi'', ?b\<lparr>cn_in := s\<rparr>) \<and> net_data s = ''x''"
    by (rule string_over_the_wire [OF _ _ a _ d]) simp_all
  with a show ?thesis by (auto simp: conn_of_def)
qed

text \<open>
  C40: a peer that announces a string of 0xFFFFFFFF bytes writes to the heap of the receiver: the
  length of the buffer wraps to 0, and whatever bytes follow are stored behind it.
\<close>

theorem recvString_heap_overflow:
  assumes "no_fail (cn_in c)" and "net_data (cn_in c) = be_bytes (- 1) @ x # xs"
  shows "fst (recvString c) = Inl Heap_overflow"
proof -
  from int_codec.dec_enc [OF assms TrueI] obtain s where
    s: "recvInt c = (Inr (- 1), c\<lparr>cn_in := s\<rparr>)" "net_data s = x # xs" "no_fail s" by blast
  let ?c = "c\<lparr>cn_in := s\<rparr>"
  have sz: "size_of_int (- 1 - int (length ([] :: bytes))) = 18446744073709551615" by (simp add: size_of_int_def)
  have "no_fail (cn_in ?c)" using s(3) by simp
  from sys_recv_quiet [OF this, of 18446744073709551615] s(2) obtain got t where
    r: "sys_recv 18446744073709551615 ?c = (Some got, ?c\<lparr>cn_in := t\<rparr>)" "got \<noteq> []" by auto
  have "recvFully (- 1) ?c = (Inr got, ?c\<lparr>cn_in := t\<rparr>)"
    unfolding recvFully_def by (subst recv_fully_loop.simps) (simp only: sz r, simp)
  with s(1) r(2) show ?thesis by (simp add: recvString_def)
qed

theorem recvString_heap_overflow_witness:
  "fst (recvString (conn_of [Arrive (be_bytes (- 1)), Arrive ''boom''])) = Inl Heap_overflow"
  by (rule recvString_heap_overflow [of _ "CHR ''b''" "''oom''"]) simp_all

end
