(* ===== verification/Survey_Programs.thy ===== *)
theory Survey_Programs
  imports Survey
begin

text \<open>
  The programs of the survey: SurveyServer.cpp and SurveyClient.cpp speaking the binary encoding,
  SurveyServer2.cpp and SurveyClient2.cpp speaking the text format of \<open>readSurvey\<close>, AdminClient2.cpp,
  and PlusOneServer.cpp with PlusOneClient.cpp. The threads of a server share the tallies, which
  they change under a mutex one increment at a time.
\<close>

record question =
  qText :: bytes
  rList :: "bytes list"

type_synonym tally = "u32 list list"

definition tally_new :: "question list \<Rightarrow> tally" where
  "tally_new qList = map (\<lambda>q. replicate (length (rList q)) 0) qList"

text \<open>The critical section with its guard: an answer out of range is not counted.\<close>

definition tally_count :: "nat \<times> u32 \<Rightarrow> tally \<Rightarrow> tally" where
  "tally_count ev rCount =
     (case ev of (q, response) \<Rightarrow>
       if unat response < length (rCount ! q)
       then rCount[q := (rCount ! q)[unat response := rCount ! q ! unat response + 1]]
       else rCount)"

subsection \<open>SurveyServer and SurveyClient\<close>

fun send_strings :: "bytes list \<Rightarrow> conn \<Rightarrow> sock_exn option \<times> conn" where
  "send_strings [] c = (None, c)"
| "send_strings (s # ss) c =
     (case sendString s c of (Some e, c1) \<Rightarrow> (Some e, c1) | (None, c1) \<Rightarrow> send_strings ss c1)"

definition send_question :: "question \<Rightarrow> conn \<Rightarrow> sock_exn option \<times> conn" where
  "send_question qu c =
     (case sendString (qText qu) c of
        (Some e, c1) \<Rightarrow> (Some e, c1)
      | (None, c1) \<Rightarrow>
          (case sendInt (of_nat (length (rList qu))) c1 of
             (Some e, c2) \<Rightarrow> (Some e, c2) | (None, c2) \<Rightarrow> send_strings (rList qu) c2))"

fun conduct_from :: "nat \<Rightarrow> question list \<Rightarrow> tally \<Rightarrow> conn \<Rightarrow> sock_exn option \<times> tally \<times> conn" where
  "conduct_from q [] rCount c = (None, rCount, c)"
| "conduct_from q (qu # qus) rCount c =
     (case send_question qu c of
        (Some e, c1) \<Rightarrow> (Some e, rCount, c1)
      | (None, c1) \<Rightarrow>
          (case recvInt c1 of
             (Inl e, c2) \<Rightarrow> (Some e, rCount, c2)
           | (Inr response, c2) \<Rightarrow> conduct_from (Suc q) qus (tally_count (q, response) rCount) c2))"

definition conductSurvey :: "question list \<Rightarrow> tally \<Rightarrow> conn \<Rightarrow> sock_exn option \<times> tally \<times> conn" where
  "conductSurvey qList rCount c =
     (case sendInt (of_nat (length qList)) c of
        (Some e, c1) \<Rightarrow> (Some e, rCount, c1)
      | (None, c1) \<Rightarrow> conduct_from 0 qList rCount c1)"

text \<open>The prompt repeats until the answer is in range; there is no test of the stream.\<close>

partial_function (option) prompt :: "int \<Rightarrow> int \<Rightarrow> istream \<Rightarrow> (int \<times> istream) option" where
  "prompt rCount response is =
     (if response < 0 \<or> response \<ge> rCount
      then (case extract_int is response of (v, is1) \<Rightarrow> prompt rCount v is1)
      else Some (response, is))"

type_synonym shown = "(bytes \<times> bytes list) list"

fun client_questions ::
  "nat \<Rightarrow> istream \<Rightarrow> shown \<Rightarrow> conn \<Rightarrow> (sock_exn option \<times> istream \<times> shown \<times> conn) option" where
  "client_questions 0 cin out c = Some (None, cin, out, c)"
| "client_questions (Suc n) cin out c =
     (case recvString c of
        (Inl e, c1) \<Rightarrow> Some (Some e, cin, out, c1)
      | (Inr text, c1) \<Rightarrow>
          (case recvInt c1 of
             (Inl e, c2) \<Rightarrow> Some (Some e, cin, out, c2)
           | (Inr count, c2) \<Rightarrow>
               (case recv_many recvString (nat (sint count)) c2 of
                  (Inl e, c3) \<Rightarrow> Some (Some e, cin, out, c3)
                | (Inr choices, c3) \<Rightarrow>
                    (case prompt (sint count) (sint count) cin of
                       None \<Rightarrow> None
                     | Some (response, cin1) \<Rightarrow>
                         (case sendInt (of_int response) c3 of
                            (Some e, c4) \<Rightarrow> Some (Some e, cin1, out @ [(text, choices)], c4)
                          | (None, c4) \<Rightarrow> client_questions n cin1 (out @ [(text, choices)]) c4)))))"

definition survey_client :: "istream \<Rightarrow> conn \<Rightarrow> (sock_exn option \<times> istream \<times> shown \<times> conn) option" where
  "survey_client cin c =
     (case recvInt c of
        (Inl e, c1) \<Rightarrow> Some (Some e, cin, [], c1)
      | (Inr count, c1) \<Rightarrow> client_questions (nat (sint count)) cin [] c1)"

subsection \<open>Tallies\<close>

lemma length_tally_count [simp]: "length (tally_count ev t) = length t"
  by (simp add: tally_count_def split: prod.splits)

lemma length_tally_count_at [simp]: "length (tally_count ev t ! q) = length (t ! q)"
  by (cases ev; cases "fst ev = q"; cases "fst ev < length t") (auto simp: tally_count_def nth_list_update list_update_beyond)

lemma tally_count_at:
  assumes "q < length t" and "r < length (t ! q)" and "length (t ! q) \<le> 2 ^ 32"
  shows "tally_count ev t ! q ! r = t ! q ! r + (if ev = (q, of_nat r) then 1 else 0)"
proof -
  obtain q' v where ev: "ev = (q', v)" by force
  have r: "unat (of_nat r :: u32) = r" using assms by (simp add: unat_of_nat)
  have "v = of_nat r \<longleftrightarrow> unat v = r" using r by auto
  then show ?thesis using assms ev by (cases "q' = q") (auto simp: tally_count_def nth_list_update)
qed

lemma tally_fold_at:
  assumes "q < length t" and "r < length (t ! q)" and "length (t ! q) \<le> 2 ^ 32"
  shows "fold tally_count evs t ! q ! r = t ! q ! r + of_nat (count_list evs (q, of_nat r))"
  using assms
proof (induction evs arbitrary: t)
  case (Cons ev evs)
  then show ?case by (simp add: tally_count_at algebra_simps)
qed simp

text \<open>
  the tallies count the answers, whatever the order in which the threads of the server apply
  their increments: after any sequence of them the count of a choice has grown by the number of
  times it was answered, and answers out of range have counted nowhere.
\<close>

theorem survey_tally_counts:
  assumes "q < length t" and "r < length (t ! q)" and "length (t ! q) \<le> 2 ^ 32"
  shows "fold tally_count evs t ! q ! r = t ! q ! r + of_nat (count_list evs (q, of_nat r))"
  by (rule tally_fold_at [OF assms])

theorem survey_tally_counts_witness:
  "fold tally_count [(0, 1), (1, 0), (0, 1), (0, 7)] [[0, 0], [5]] ! 0 ! 1 = 2"
  using survey_tally_counts [of 0 "[[0, 0], [5]]" 1 "[(0, 1), (1, 0), (0, 1), (0, 7)]"]
  by simp

subsection \<open>A session of server and client\<close>

definition question_bytes :: "question \<Rightarrow> bytes" where
  "question_bytes qu = string_bytes (qText qu) @ be_bytes (of_nat (length (rList qu)))
     @ concat (map string_bytes (rList qu))"

definition plain_question :: "question \<Rightarrow> bool" where
  "plain_question qu \<longleftrightarrow> plain_string (qText qu) \<and> list_all plain_string (rList qu)
     \<and> length (rList qu) < 2 ^ 31"

lemma send_strings_quiet:
  "cn_sends c = [] \<Longrightarrow> send_strings ss c = (None, c\<lparr>cn_out := cn_out c @ concat (map string_bytes ss)\<rparr>)"
  by (induction ss arbitrary: c) (simp_all add: sendString_quiet)

lemma send_question_quiet:
  "cn_sends c = [] \<Longrightarrow> send_question qu c = (None, c\<lparr>cn_out := cn_out c @ question_bytes qu\<rparr>)"
  by (simp add: send_question_def sendString_quiet sendInt_quiet send_strings_quiet question_bytes_def)

lemma conduct_from_answers:
  assumes "cn_sends c = []" and "no_fail (cn_in c)" and "length answers = length qus"
    and "net_data (cn_in c) = concat (map be_bytes answers) @ rest"
  shows "\<exists>c'. conduct_from q qus rCount c
      = (None, fold tally_count (zip [q..<q + length qus] answers) rCount, c')
    \<and> cn_out c' = cn_out c @ concat (map question_bytes qus) \<and> net_data (cn_in c') = rest"
  using assms
proof (induction qus arbitrary: q rCount c answers)
  case (Cons qu qus)
  from Cons.prems(3) obtain a as where as: "answers = a # as" by (cases answers) auto
  let ?c = "c\<lparr>cn_out := cn_out c @ question_bytes qu\<rparr>"
  have "no_fail (cn_in ?c)" "net_data (cn_in ?c) = be_bytes a @ concat (map be_bytes as) @ rest"
    using Cons.prems as by simp_all
  from int_codec.dec_enc [OF this TrueI] obtain s where
    s: "recvInt ?c = (Inr a, ?c\<lparr>cn_in := s\<rparr>)" "net_data s = concat (map be_bytes as) @ rest" "no_fail s" by blast
  from Cons.IH [of "?c\<lparr>cn_in := s\<rparr>" as "Suc q" "tally_count (q, a) rCount"] Cons.prems as s
  obtain c' where c': "conduct_from (Suc q) qus (tally_count (q, a) rCount) (?c\<lparr>cn_in := s\<rparr>)
      = (None, fold tally_count (zip [Suc q..<Suc q + length qus] as) (tally_count (q, a) rCount), c')"
    "cn_out c' = cn_out c @ question_bytes qu @ concat (map question_bytes qus)" "net_data (cn_in c') = rest"
    by auto
  have "[q..<q + length (qu # qus)] = q # [Suc q..<Suc q + length qus]" by (simp add: upt_rec)
  then show ?case
    using c' s Cons.prems(1) as by (simp add: send_question_quiet)
qed simp

text \<open>What the user types: an answer on a line, for each question.\<close>

definition typed :: "nat list \<Rightarrow> bytes" where
  "typed answers = concat (map (\<lambda>a. to_string a @ [NL]) answers)"

lemma extract_int_newline: "extract_int (istream_of (NL # cs)) v = extract_int (istream_of cs) v"
  by (simp add: extract_int_def skip_ws_space)

lemma prompt_answered:
  assumes "a < n" and "n < 2 ^ 31" and "w \<in> {[], [NL]}"
  shows "prompt (int n) (int n) (istream_of (w @ to_string a @ NL # rest)) = Some (int a, istream_of (NL # rest))"
proof -
  have a: "a < 2 ^ 31" using assms by simp
  have "extract_int (istream_of (w @ to_string a @ NL # rest)) (int n) = (int a, istream_of (NL # rest))"
    using assms(3) extract_int_hit [OF a isdigit_NL] by (auto simp: extract_int_newline)
  then have "prompt (int n) (int n) (istream_of (w @ to_string a @ NL # rest)) = prompt (int n) (int a) (istream_of (NL # rest))"
    by (subst prompt.simps) simp
  also have "\<dots> = Some (int a, istream_of (NL # rest))" using assms(1) by (subst prompt.simps) simp
  finally show ?thesis .
qed

lemma client_questions_answered:
  assumes "cn_sends c = []" and "no_fail (cn_in c)" and "list_all2 (\<lambda>qu a. a < length (rList qu)) qus answers"
    and "list_all plain_question qus" and "net_data (cn_in c) = concat (map question_bytes qus) @ rest"
    and "w \<in> {[], [NL]}"
  shows "\<exists>cin c'. client_questions (length qus) (istream_of (w @ typed answers)) out c
      = Some (None, cin, out @ map (\<lambda>qu. (qText qu, rList qu)) qus, c')
    \<and> cn_out c' = cn_out c @ concat (map (\<lambda>a. be_bytes (of_nat a)) answers)"
  using assms
proof (induction qus arbitrary: c answers out w)
  case (Cons qu qus)
  from Cons.prems(3) obtain a as where as: "answers = a # as" "a < length (rList qu)"
    "list_all2 (\<lambda>qu a. a < length (rList qu)) qus as" by (cases answers) auto
  have pl: "plain_string (qText qu)" "\<forall>r \<in> set (rList qu). plain_string r" "length (rList qu) < 2 ^ 31"
    using Cons.prems(4) by (simp_all add: plain_question_def list_all_iff)
  let ?n = "of_nat (length (rList qu)) :: u32"
  have d1: "net_data (cn_in c) = string_bytes (qText qu)
      @ be_bytes ?n @ concat (map string_bytes (rList qu)) @ concat (map question_bytes qus) @ rest"
    using Cons.prems(5) question_bytes_def [of qu] by simp
  from string_codec.dec_enc [OF Cons.prems(2) d1 pl(1)] obtain s1 where
    s1: "recvString c = (Inr (qText qu), c\<lparr>cn_in := s1\<rparr>)" "no_fail s1"
      "net_data s1 = be_bytes ?n @ concat (map string_bytes (rList qu)) @ concat (map question_bytes qus) @ rest" by blast
  from int_codec.dec_enc [of "c\<lparr>cn_in := s1\<rparr>" ?n] s1 obtain s2 where
    s2: "recvInt (c\<lparr>cn_in := s1\<rparr>) = (Inr ?n, c\<lparr>cn_in := s2\<rparr>)" "no_fail s2"
      "net_data s2 = concat (map string_bytes (rList qu)) @ concat (map question_bytes qus) @ rest" by auto
  from string_codec.many [of "c\<lparr>cn_in := s2\<rparr>" "rList qu"] s2 pl(2) obtain s3 where
    s3: "recv_many recvString (length (rList qu)) (c\<lparr>cn_in := s2\<rparr>) = (Inr (rList qu), c\<lparr>cn_in := s3\<rparr>)" "no_fail s3"
      "net_data s3 = concat (map question_bytes qus) @ rest" by auto
  have n: "sint ?n = int (length (rList qu))" using pl(3) by (rule sint_of_nat_small)
  note pr = prompt_answered [OF as(2) pl(3) Cons.prems(6), of "typed as"]
  let ?c = "c\<lparr>cn_in := s3, cn_out := cn_out c @ be_bytes (of_nat a)\<rparr>"
  have snd: "sendInt (of_nat a) (c\<lparr>cn_in := s3\<rparr>) = (None, ?c)" using Cons.prems(1) by (simp add: sendInt_quiet)
  have "client_questions (length (qu # qus)) (istream_of (w @ typed answers)) out c
      = client_questions (length qus) (istream_of (NL # typed as)) (out @ [(qText qu, rList qu)]) ?c"
    using s1(1) s2(1) s3(1) n pr snd by (simp add: as(1) typed_def)
  moreover from Cons.IH [of ?c as "[NL]" "out @ [(qText qu, rList qu)]"] as s3 Cons.prems(1,4)
  obtain cin c' where "client_questions (length qus) (istream_of (NL # typed as)) (out @ [(qText qu, rList qu)]) ?c
      = Some (None, cin, out @ map (\<lambda>qu. (qText qu, rList qu)) (qu # qus), c')"
    "cn_out c' = cn_out c @ be_bytes (of_nat a) @ concat (map (\<lambda>a. be_bytes (of_nat a)) as)" by auto
  ultimately show ?case using as(1) by auto
qed simp



lemma prompt_failed_stream:
  assumes "failbit is" and "r < 0 \<or> n \<le> r"
  shows "prompt n r is = None"
proof (rule ccontr)
  assume "prompt n r is \<noteq> None"
  then obtain y where y: "prompt n r is = Some y" by auto
  have "\<not> (failbit is \<and> (r < 0 \<or> n \<le> r))"
  proof (rule prompt.raw_induct [where P = "\<lambda>n r is y. \<not> (failbit is \<and> (r < 0 \<or> n \<le> r))", OF _ y])
    fix rec :: "int \<Rightarrow> int \<Rightarrow> istream \<Rightarrow> (int \<times> istream) option" and n r "is" y
    assume ih: "\<And>n r is y. rec n r is = Some y \<Longrightarrow> \<not> (failbit is \<and> (r < 0 \<or> n \<le> r))"
      and eq: "(if r < 0 \<or> r \<ge> n then (case extract_int is r of (v, is1) \<Rightarrow> rec n v is1)
        else Some (r, is)) = Some y"
    show "\<not> (failbit is \<and> (r < 0 \<or> n \<le> r))"
    proof
      assume f: "failbit is \<and> (r < 0 \<or> n \<le> r)"
      then have "extract_int is r = (r, is)"
        by (simp add: extract_int_def skip_ws_def stream_good_def)
      with f eq ih [of n r "is" y] show False by auto
    qed
  qed
  with assms show False by simp
qed

text \<open>
  a user who types something that is no number answers the question with its first choice, and
  the client never gets an answer again: the stream stays failed, and the next prompt does not end.
\<close>

theorem survey_client_typo:
  assumes "\<not> isdigit ch" and "\<not> isspace ch" and "ch \<noteq> CHR ''-''" and "ch \<noteq> CHR ''+''" and "0 < n"
  shows "\<exists>cin. prompt (int n) (int n) (istream_of (ch # cs)) = Some (0, cin) \<and> (\<forall>m. prompt m m cin = None)"
proof -
  let ?is = "\<lparr>chars = ch # cs, eofbit = False, failbit = True\<rparr>"
  have "extract_int (istream_of (ch # cs)) (int n) = (0, ?is)"
    using assms by (simp add: extract_int_def skip_ws_word Let_def)
  then have "prompt (int n) (int n) (istream_of (ch # cs)) = prompt (int n) 0 ?is" by (subst prompt.simps) simp
  also have "\<dots> = Some (0, ?is)" using assms(5) by (subst prompt.simps) simp
  finally show ?thesis using prompt_failed_stream [of ?is] by (intro exI [of _ ?is]) simp
qed

theorem survey_client_typo_witness:
  "\<exists>cin. prompt 2 2 (istream_of (''yes'' @ [NL])) = Some (0, cin) \<and> prompt 3 3 cin = None"
  using survey_client_typo [of "CHR ''y''" 2 "''es'' @ [NL]"] by (auto simp: isdigit_def isspace_def)

subsection \<open>The text format\<close>

fun read_lines :: "nat \<Rightarrow> istream \<Rightarrow> bytes list \<times> istream" where
  "read_lines 0 is = ([], is)"
| "read_lines (Suc n) is =
     (case getline_delim NL is [] of
        (l, is1) \<Rightarrow> (case read_lines n is1 of (ls, is2) \<Rightarrow> (l # ls, is2)))"

text \<open>A negative count makes the size of the vector absurd: \<open>length_error\<close>.\<close>

fun read_questions :: "nat \<Rightarrow> istream \<Rightarrow> (sock_exn + question list) \<times> istream" where
  "read_questions 0 is = (Inr [], is)"
| "read_questions (Suc n) is =
     (case getline_delim NL is [] of
        (text, is1) \<Rightarrow>
          (case extract_int is1 0 of
             (count, is2) \<Rightarrow>
               let is3 = stream_ignore is2 in
               if count < 0 then (Inl Length_error, is3)
               else (case read_lines (nat count) is3 of
                 (ls, is4) \<Rightarrow>
                   (case read_questions n is4 of
                      (Inl e, is5) \<Rightarrow> (Inl e, is5)
                    | (Inr qs, is5) \<Rightarrow> (Inr (\<lparr>qText = text, rList = ls\<rparr> # qs), is5)))))"

text \<open>The result is the state of the stream, with the questions.\<close>

definition readSurvey :: "istream \<Rightarrow> (sock_exn + bool \<times> question list) \<times> istream" where
  "readSurvey is =
     (case extract_int is 0 of
        (count, is1) \<Rightarrow>
          let is2 = stream_ignore is1 in
          if count < 0 then (Inl Length_error, is2)
          else (case read_questions (nat count) is2 of
                  (Inl e, is3) \<Rightarrow> (Inl e, is3) | (Inr qs, is3) \<Rightarrow> (Inr (\<not> failbit is3, qs), is3)))"

text \<open>What SurveyServer2 writes before it reads the answers.\<close>

definition question_text :: "question \<Rightarrow> bytes" where
  "question_text qu = qText qu @ [NL] @ to_string (length (rList qu)) @ [NL]
     @ concat (map (\<lambda>r. r @ [NL]) (rList qu))"

definition survey_text :: "question list \<Rightarrow> bytes" where
  "survey_text qList = to_string (length qList) @ [NL] @ concat (map question_text qList)"

definition one_line :: "bytes \<Rightarrow> bool" where "one_line s \<longleftrightarrow> NL \<notin> set s"

definition text_question :: "question \<Rightarrow> bool" where
  "text_question qu \<longleftrightarrow> one_line (qText qu) \<and> list_all one_line (rList qu) \<and> length (rList qu) < 2 ^ 31"

lemma read_lines_text:
  "list_all one_line ls \<Longrightarrow> read_lines (length ls) (istream_of (concat (map (\<lambda>r. r @ [NL]) ls) @ rest)) = (ls, istream_of rest)"
  by (induction ls) (simp_all add: one_line_def getline_hit)

lemma read_questions_text:
  "list_all text_question qs \<Longrightarrow>
   read_questions (length qs) (istream_of (concat (map question_text qs) @ rest)) = (Inr qs, istream_of rest)"
proof (induction qs)
  case (Cons qu qs)
  then have q: "one_line (qText qu)" "list_all one_line (rList qu)" "length (rList qu) < 2 ^ 31"
    by (simp_all add: text_question_def)
  have "getline_delim NL (istream_of (concat (map question_text (qu # qs)) @ rest)) []
      = (qText qu, istream_of (to_string (length (rList qu)) @ NL # concat (map (\<lambda>r. r @ [NL]) (rList qu))
          @ concat (map question_text qs) @ rest))"
    using q(1) getline_hit [of NL "qText qu"] by (simp add: one_line_def question_text_def)
  then show ?case
    using Cons extract_int_hit [OF q(3) isdigit_NL] read_lines_text [OF q(2), of "concat (map question_text qs) @ rest"]
    by (simp add: stream_ignore_Cons)
qed simp

text \<open>
  what SurveyServer2 writes, \<open>readSurvey\<close> reads: a survey of questions and choices that hold no
  newline comes back unchanged, from the stream as from the file, and nothing behind it is consumed.
\<close>

theorem readSurvey_round_trip:
  assumes "list_all text_question qs" and "length qs < 2 ^ 31"
  shows "readSurvey (istream_of (survey_text qs @ rest)) = (Inr (True, qs), istream_of rest)"
  using extract_int_hit [OF assms(2) isdigit_NL, of "concat (map question_text qs) @ rest" 0]
    read_questions_text [OF assms(1), of rest]
  by (simp add: readSurvey_def survey_text_def stream_ignore_Cons)

theorem readSurvey_round_trip_witness:
  "readSurvey (istream_of (survey_text [\<lparr>qText = ''tea or coffee?'', rList = [''tea'', [], ''coffee'']\<rparr>] @ ''1''))
    = (Inr (True, [\<lparr>qText = ''tea or coffee?'', rList = [''tea'', [], ''coffee'']\<rparr>]), istream_of ''1'')"
  by (rule readSurvey_round_trip) (simp_all add: text_question_def one_line_def)

subsection \<open>SurveyServer2 and its administration\<close>

text \<open>
  The answers are extracted into an uninitialised variable; \<open>junk q\<close> is what it holds for question q.
  The result tells the tallies and whether the client was logged as having completed the survey.
\<close>

fun read_answers :: "(nat \<Rightarrow> u32) \<Rightarrow> nat \<Rightarrow> nat \<Rightarrow> tally \<Rightarrow> istream \<Rightarrow> tally \<times> istream" where
  "read_answers junk q 0 rCount is = (rCount, is)"
| "read_answers junk q (Suc n) rCount is =
     (case extract_uint is (junk q) of
        (response, is1) \<Rightarrow> read_answers junk (Suc q) n (tally_count (q, response) rCount) is1)"

text \<open>\<open>peer\<close> is the result of \<open>getForeignAddress\<close>, \<open>None\<close> when it throws.\<close>

definition conductSurvey2 ::
  "(nat \<Rightarrow> u32) \<Rightarrow> question list \<Rightarrow> bytes option \<Rightarrow> tally \<times> bytes list \<Rightarrow> istream \<Rightarrow> bytes \<times> tally \<times> bytes list" where
  "conductSurvey2 junk qList peer st is =
     (case st of (rCount, addrList) \<Rightarrow>
       (case read_answers junk 0 (length qList) rCount is of
          (rCount1, is1) \<Rightarrow>
            (survey_text qList, rCount1, case peer of None \<Rightarrow> addrList | Some a \<Rightarrow> addrList @ [a])))"

text \<open>\<open>setw(5)\<close> pads on the left.\<close>

definition setw :: "nat \<Rightarrow> bytes \<Rightarrow> bytes" where
  "setw w s = replicate (w - length s) CHR '' '' @ s"

definition report_question :: "nat \<Rightarrow> question \<Rightarrow> u32 list \<Rightarrow> bytes" where
  "report_question q qu counts = ''Q'' @ to_string q @ '':  '' @ qText qu @ [NL]
     @ concat (map (\<lambda>(n, r). setw 5 (to_string (unat n)) @ '' '' @ r @ [NL]) (zip counts (rList qu)))"

definition admin_report :: "question list \<Rightarrow> tally \<times> bytes list \<Rightarrow> bytes" where
  "admin_report qList st =
     (case st of (myCount, myList) \<Rightarrow>
       concat (map (\<lambda>(q, qu, counts). report_question q qu counts) (zip [0..<length qList] (zip qList myCount)))
       @ ''Client Addresses:'' @ [NL] @ concat (map (\<lambda>a. ''  '' @ a @ [NL]) myList))"

text \<open>AdminClient2 prints each block up to its first NUL, until the server closes.\<close>

function admin_client_loop :: "bytes \<Rightarrow> conn \<Rightarrow> sock_exn option \<times> bytes" where
  "admin_client_loop out c =
     (case sys_recv 1024 c of
        (None, c1) \<Rightarrow> (Some Socket_exception, out)
      | (Some got, c1) \<Rightarrow>
          if got \<noteq> [] then admin_client_loop (out @ before CHR 0x00 got) c1 else (None, out))"
  by pat_completeness auto
termination
  by (relation "measure (\<lambda>(_, c). net_size (cn_in c))") (auto intro: sys_recv_shrinks [OF sym])

declare admin_client_loop.simps [simp del]

definition admin_client :: "conn \<Rightarrow> sock_exn option \<times> bytes" where
  "admin_client c = admin_client_loop [] c"

lemma admin_client_all:
  assumes "no_fail (cn_in c)" and "CHR 0x00 \<notin> set (net_data (cn_in c))"
  shows "admin_client_loop out c = (None, out @ net_data (cn_in c))"
  using assms
proof (induction out c rule: admin_client_loop.induct)
  case (1 out c)
  from sys_recv_quiet [OF "1.prems"(1), of 1024] obtain got s where
    r: "sys_recv 1024 c = (Some got, c\<lparr>cn_in := s\<rparr>)" and d: "got @ net_data s = net_data (cn_in c)" "no_fail s"
      "got = [] \<longleftrightarrow> net_data (cn_in c) = []" by auto
  show ?case
  proof (cases "got = []")
    case True
    with r d show ?thesis by (subst admin_client_loop.simps) simp
  next
    case False
    have z: "CHR 0x00 \<notin> set got" "CHR 0x00 \<notin> set (net_data s)" using "1.prems"(2) unfolding d(1) [symmetric] by auto
    have "admin_client_loop (out @ before CHR 0x00 got) (c\<lparr>cn_in := s\<rparr>)
        = (None, (out @ before CHR 0x00 got) @ net_data (cn_in (c\<lparr>cn_in := s\<rparr>)))"
      by (rule "1.IH" [OF r [symmetric] refl False]) (use z d(2) in simp_all)
    then show ?thesis using False r z(1) unfolding d(1) [symmetric]
      by (subst admin_client_loop.simps) simp
  qed
qed

lemma read_answers_eof:
  "\<not> stream_good is \<or> chars is = [] \<Longrightarrow>
   fst (read_answers junk q n t is) = fold tally_count (map (\<lambda>q. (q, junk q)) [q..<q + n]) t"
proof (induction n arbitrary: q t "is")
  case (Suc n)
  have bad: "\<not> stream_good (skip_ws is)" using Suc.prems by (auto simp: skip_ws_def stream_good_def)
  then have e: "extract_uint is (junk q) = (junk q, skip_ws is)" by (simp add: extract_uint_def)
  have "q < q + Suc n" by simp
  from upt_conv_Cons [OF this] have u: "[q..<q + Suc n] = q # [Suc q..<Suc q + n]" by (simp only: add_Suc_shift)
  show ?case unfolding u using e bad Suc.IH [of "skip_ws is" "Suc q" "tally_count (q, junk q) t"] by simp
qed simp

text \<open>
  a client of SurveyServer2 that disconnects at once is recorded with votes it never cast: when
  the uninitialised variable holds a legal choice by chance, the question counts it, and the address
  is logged among those that completed the survey.
\<close>

theorem survey2_phantom_votes:
  assumes "q < length qs" and "length t = length qs" and "unat (junk q) < length (t ! q)"
    and "length (t ! q) \<le> 2 ^ 32"
  shows "\<exists>text t' log. conductSurvey2 junk qs (Some a) (t, log0) (istream_of []) = (text, t', log)
    \<and> t' ! q ! unat (junk q) = t ! q ! unat (junk q) + 1 \<and> log = log0 @ [a]"
proof -
  let ?evs = "map (\<lambda>q. (q, junk q)) [0..<length qs]"
  have "count_list ?evs (q, junk q) = length (filter (\<lambda>p. p = q) [0..<length qs])"
  proof -
    have "filter ((=) (q, junk q)) ?evs = map (\<lambda>q. (q, junk q)) (filter (\<lambda>p. p = q) [0..<length qs])"
      by (auto simp: filter_map comp_def intro!: arg_cong [where f = "map _"] filter_cong)
    then show ?thesis by (simp add: count_list_eq_length_filter)
  qed
  also have "\<dots> = 1" using assms(1) by (simp add: distinct_length_filter)
  finally have "count_list ?evs (q, of_nat (unat (junk q))) = 1" by simp
  then have "fold tally_count ?evs t ! q ! unat (junk q) = t ! q ! unat (junk q) + 1"
    using tally_fold_at [of q t "unat (junk q)" ?evs] assms by simp
  then show ?thesis
    using read_answers_eof [of "istream_of []" junk 0 "length qs" t]
    by (auto simp: conductSurvey2_def split: prod.splits)
qed

theorem survey2_phantom_votes_witness:
  "\<exists>text t' log. conductSurvey2 (\<lambda>_. 0) [\<lparr>qText = ''tea?'', rList = [''no'', ''yes'']\<rparr>] (Some ''10.0.0.1'') ([[3, 4]], []) (istream_of [])
      = (text, t', log) \<and> t' ! 0 ! 0 = 4 \<and> log = [''10.0.0.1'']"
  using survey2_phantom_votes [of 0 "[\<lparr>qText = ''tea?'', rList = [''no'', ''yes'']\<rparr>]" "[[3, 4]]" "\<lambda>_. 0" "''10.0.0.1''" "[]"]
  by auto

subsection \<open>PlusOneServer and PlusOneClient\<close>

text \<open>One client: four bytes come, the value is incremented in 32 bits, four bytes go back.\<close>

definition plus_one_serve :: "conn \<Rightarrow> sock_exn option \<times> conn" where
  "plus_one_serve c =
     (case recvFully 4 c of
        (Inl e, c1) \<Rightarrow> (Some e, c1)
      | (Inr got, c1) \<Rightarrow>
          if length got = 4 then comm_send (be_bytes (be_word got + 1)) c1 else (None, c1))"

text \<open>The loop over the accepted connections stands inside the \<open>try\<close>: the first exception ends it.\<close>

fun plus_one_server :: "conn list \<Rightarrow> sock_exn option \<times> conn list" where
  "plus_one_server [] = (None, [])"
| "plus_one_server (c # cs) =
     (case plus_one_serve c of
        (Some e, c1) \<Rightarrow> (Some e, c1 # cs)
      | (None, c1) \<Rightarrow> (case plus_one_server cs of (r, cs1) \<Rightarrow> (r, c1 # cs1)))"

text \<open>\<open>val\<close> is what \<open>atoi\<close> made of the argument; the result is what is printed, if anything.\<close>

definition plus_one_client :: "u32 \<Rightarrow> conn \<Rightarrow> sock_exn option \<times> bytes option \<times> conn" where
  "plus_one_client val c =
     (case comm_send (be_bytes val) c of
        (Some e, c1) \<Rightarrow> (Some e, None, c1)
      | (None, c1) \<Rightarrow>
          (case recvFully 4 c1 of
             (Inl e, c2) \<Rightarrow> (Some e, None, c2)
           | (Inr got, c2) \<Rightarrow>
               (None, if length got = 4 then Some (''Server Response: '' @ to_string (unat (be_word got)) @ [NL]) else None, c2)))"

lemma plus_one_answers:
  assumes "cn_sends c = []" and "no_fail (cn_in c)" and "net_data (cn_in c) = be_bytes v @ rest"
  shows "\<exists>s. plus_one_serve c = (None, c\<lparr>cn_in := s, cn_out := cn_out c @ be_bytes (v + 1)\<rparr>) \<and> net_data s = rest"
proof -
  have "be_bytes v \<noteq> []" by (metis length_be_bytes list.size(3) zero_neq_numeral)
  then obtain s where "recvFully 4 c = (Inr (be_bytes v), c\<lparr>cn_in := s\<rparr>)" "net_data s = rest"
    using recvFully_prefix [OF assms(2,3)] by auto
  then show ?thesis using assms(1) by (auto simp: plus_one_serve_def comm_send_def sys_send_def)
qed

text \<open>
  client and server together: for every 32-bit value, in whatever pieces request and reply
  arrive, the client prints the successor, which is 0 after 4294967295.
\<close>

theorem plus_one_round:
  assumes "cn_sends c = []" and "cn_out c = []" and "no_fail (cn_in c)"
    and "no_fail s" and "net_data s = be_bytes v" and "plus_one_serve (conn_of s) = (r, c')"
    and "net_data (cn_in c) = cn_out c'"
  shows "r = None \<and> (\<exists>d. plus_one_client v c
      = (None, Some (''Server Response: '' @ to_string ((unat v + 1) mod 2 ^ 32) @ [NL]), d) \<and> cn_out d = be_bytes v)"
proof -
  from plus_one_answers [of "conn_of s" v "[]"] assms(4,5) obtain t where
    t: "plus_one_serve (conn_of s) = (None, (conn_of s)\<lparr>cn_in := t, cn_out := be_bytes (v + 1)\<rparr>)" by auto
  then have o: "cn_out c' = be_bytes (v + 1)" and r: "r = None" using assms(6) by auto
  have "be_bytes (v + 1) \<noteq> []" by (metis length_be_bytes list.size(3) zero_neq_numeral)
  then obtain u where u: "recvFully 4 (c\<lparr>cn_out := be_bytes v\<rparr>) = (Inr (be_bytes (v + 1)), c\<lparr>cn_out := be_bytes v, cn_in := u\<rparr>)"
    using recvFully_prefix [of "c\<lparr>cn_out := be_bytes v\<rparr>" "be_bytes (v + 1)" "[]"] assms(3,7) o by auto
  have "unat (v + 1) = (unat v + 1) mod 2 ^ 32" by (simp add: unat_word_ariths)
  with u r show ?thesis
    by (simp add: plus_one_client_def comm_send_def sys_send_def assms(1,2))
qed

theorem plus_one_round_witness:
  "\<exists>d. plus_one_client (- 1) (conn_of [Arrive (be_bytes 0)]) = (None, Some (''Server Response: '' @ to_string 0 @ [NL]), d)"
proof -
  obtain s where s: "plus_one_serve (conn_of [Arrive (be_bytes (- 1))])
      = (None, (conn_of [Arrive (be_bytes (- 1))])\<lparr>cn_in := s, cn_out := be_bytes 0\<rparr>)"
    using plus_one_answers [of "conn_of [Arrive (be_bytes (- 1))]" "- 1" "[]"] by auto
  have m: "unat (- 1 :: u32) + 1 = 2 ^ 32" by (simp add: unsigned_minus_1_eq_mask mask_eq_exp_minus_1)
  show ?thesis using plus_one_round [OF _ _ _ _ _ s, of "conn_of [Arrive (be_bytes 0)]" "- 1"] unfolding m by auto
qed

text \<open>A reset of one connection ends the service for all that follow.\<close>

lemma plus_one_server_dies:
  assumes "cn_in c = Fail e # s" and "ec_set e" and "e \<noteq> eof"
  shows "plus_one_server (c # cs) = (Some Socket_exception, c\<lparr>cn_in := s\<rparr> # cs)"
proof -
  have "sys_recv (size_of_int 4) c = (None, c\<lparr>cn_in := s\<rparr>)" using assms by (simp add: sys_recv_def)
  then have "recvFully 4 c = (Inl Socket_exception, c\<lparr>cn_in := s\<rparr>)"
    unfolding recvFully_def by (subst recv_fully_loop.simps) simp
  then show ?thesis by (simp add: plus_one_serve_def)
qed

end
