(* ===== verification/Unix_Sockets.thy ===== *)
theory Unix_Sockets
  imports Socket_Stream
begin

text \<open>
  The socket helpers of Internetworking.With.TCP.IP/linux/examples: \<open>connectsock\<close>, \<open>passivesock\<close> and
  their TCP and UDP wrappers. \<open>errexit\<close> ends the process; a function that
  may call it gives \<open>Inl\<close> of the first words of its message. The data bases of names are parameters.
\<close>

type_synonym 'a exits = "bytes + 'a"

text \<open>The port of a service in host order, the address of a host, whether the protocol is known.\<close>

record netdb =
  db_serv :: "bytes \<Rightarrow> bytes \<Rightarrow> 16 word option"
  db_host :: "bytes \<Rightarrow> bytes option"
  db_addr :: "bytes \<Rightarrow> bytes option"
  db_proto :: "bytes \<Rightarrow> bool"

definition is_udp :: "bytes \<Rightarrow> bool" where "is_udp transport \<longleftrightarrow> transport = ''udp''"

definition socket_type :: "bytes \<Rightarrow> sock_type" where
  "socket_type transport = (if is_udp transport then Dgram_type else Stream_type)"

subsection \<open>connectsock\<close>

definition connect_port :: "netdb \<Rightarrow> bytes \<Rightarrow> bytes \<Rightarrow> (16 word) exits" where
  "connect_port db service transport =
     (case db_serv db service transport of
        Some p \<Rightarrow> Inr p
      | None \<Rightarrow>
          let p = word_of_int (atoi service)
          in if p = 0 then Inl ''can't get service entry'' else Inr p)"

definition connect_host :: "netdb \<Rightarrow> bytes \<Rightarrow> bytes exits" where
  "connect_host db host =
     (case db_host db host of
        Some a \<Rightarrow> Inr a
      | None \<Rightarrow> (case db_addr db host of None \<Rightarrow> Inl ''can't get host entry'' | Some a \<Rightarrow> Inr a))"

definition connectsock :: "netdb \<Rightarrow> bytes \<Rightarrow> bytes \<Rightarrow> bytes \<Rightarrow> os \<Rightarrow> int exits \<times> os" where
  "connectsock db host service transport k =
     (case connect_port db service transport of
        Inl m \<Rightarrow> (Inl m, k)
      | Inr port \<Rightarrow>
          (case connect_host db host of
             Inl m \<Rightarrow> (Inl m, k)
           | Inr address \<Rightarrow>
               if \<not> db_proto db transport then (Inl ''can't get protocol entry'', k)
               else (case sys_socket Inet (socket_type transport) k of
                 (s, k1) \<Rightarrow>
                   if s < 0 then (Inl ''can't create socket'', k1)
                   else (case sys_connect s (Some \<lparr>sa_family = Inet, sa_host = address, sa_port = port\<rparr>) k1 of
                     (0, k2) \<Rightarrow> (Inr s, k2)
                   | (Suc e, k2) \<Rightarrow> (Inl ''can't connect'', k2)))))"

definition connectTCP :: "netdb \<Rightarrow> bytes \<Rightarrow> bytes \<Rightarrow> os \<Rightarrow> int exits \<times> os" where
  "connectTCP db host service k = connectsock db host service ''tcp'' k"

definition connectUDP :: "netdb \<Rightarrow> bytes \<Rightarrow> bytes \<Rightarrow> os \<Rightarrow> int exits \<times> os" where
  "connectUDP db host service k = connectsock db host service ''udp'' k"

subsection \<open>passivesock\<close>

text \<open>\<open>portbase\<close> is added in 16 bits to the port of a known service, not to a numeric one.\<close>

definition passive_port :: "netdb \<Rightarrow> 16 word \<Rightarrow> bytes \<Rightarrow> bytes \<Rightarrow> (16 word) exits" where
  "passive_port db portbase service transport =
     (case db_serv db service transport of
        Some p \<Rightarrow> Inr (p + portbase)
      | None \<Rightarrow>
          let p = word_of_int (atoi service)
          in if p = 0 then Inl ''can't get service entry'' else Inr p)"

definition passivesock :: "netdb \<Rightarrow> 16 word \<Rightarrow> bytes \<Rightarrow> bytes \<Rightarrow> os \<Rightarrow> int exits \<times> os" where
  "passivesock db portbase service transport k =
     (case passive_port db portbase service transport of
        Inl m \<Rightarrow> (Inl m, k)
      | Inr port \<Rightarrow>
          if \<not> db_proto db transport then (Inl ''can't get protocol entry'', k)
          else (case sys_socket Inet (socket_type transport) k of
            (s, k1) \<Rightarrow>
              if s < 0 then (Inl ''can't create socket'', k1)
              else (case sys_bind s \<lparr>sa_family = Inet, sa_host = replicate 4 CHR 0x00, sa_port = port\<rparr> k1 of
                (Suc e, k2) \<Rightarrow> (Inl ''can't bind'', k2)
              | (0, k2) \<Rightarrow>
                  if socket_type transport = Stream_type then
                    (case sys_listen s k2 of
                       (0, k3) \<Rightarrow> (Inr s, k3) | (Suc e, k3) \<Rightarrow> (Inl ''can't listen'', k3))
                  else (Inr s, k2))))"

definition passiveTCP :: "netdb \<Rightarrow> 16 word \<Rightarrow> bytes \<Rightarrow> os \<Rightarrow> int exits \<times> os" where
  "passiveTCP db portbase service k = passivesock db portbase service ''tcp'' k"

definition passiveUDP :: "netdb \<Rightarrow> 16 word \<Rightarrow> bytes \<Rightarrow> os \<Rightarrow> int exits \<times> os" where
  "passiveUDP db portbase service k = passivesock db portbase service ''udp'' k"

text \<open>A port given as a number is taken when it is one, and cut to 16 bits when it is not.\<close>

lemma numeric_port:
  "db_serv db (to_string n) transport = None \<Longrightarrow>
   passive_port db portbase (to_string n) transport
     = (if n mod 2 ^ 16 = 0 then Inl ''can't get service entry'' else Inr (of_nat (n mod 2 ^ 16)))"
proof -
  assume none: "db_serv db (to_string n) transport = None"
  have "(of_nat n :: 16 word) = of_nat (n mod 2 ^ 16)"
    by (simp add: word_of_nat_eq_iff take_bit_eq_mod)
  moreover have "(of_nat n :: 16 word) = 0 \<longleftrightarrow> n mod 2 ^ 16 = 0"
    by (simp add: word_of_nat_eq_0_iff dvd_eq_mod_eq_0)
  ultimately show ?thesis using none by (simp add: passive_port_def atoi_to_string)
qed

text \<open>
  \<open>passivesock\<close> gives a socket ready to serve: a new descriptor of the type of the protocol,
  bound to the port of the service shifted by \<open>portbase\<close> on every interface, and listening exactly
  when it is TCP.
\<close>

theorem passivesock_ready:
  assumes "os_ok k" and "passivesock db portbase service transport k = (Inr s, k')"
    and "db_serv db service transport = Some p"
  shows "os_fds k s = None \<and> os_fds k' = (os_fds k)(s \<mapsto>
    \<lparr>ds_family = Inet, ds_type = (if transport = ''udp'' then Dgram_type else Stream_type),
     ds_bound = Some \<lparr>sa_family = Inet, sa_host = replicate 4 CHR 0x00, sa_port = p + portbase\<rparr>,
     ds_peer = None, ds_listening = (transport \<noteq> ''udp'')\<rparr>)"
proof -
  let ?a = "\<lparr>sa_family = Inet, sa_host = replicate 4 CHR 0x00, sa_port = p + portbase\<rparr>"
  obtain s1 k1 where s: "sys_socket Inet (socket_type transport) k = (s1, k1)" by force
  obtain e1 k2 where b: "sys_bind s1 ?a k1 = (e1, k2)" by force
  obtain e2 k3 where l: "sys_listen s1 k2 = (e2, k3)" by force
  have run: "\<not> s1 < 0 \<and> e1 = 0 \<and> s = s1 \<and> (if transport = ''udp'' then k' = k2 else e2 = 0 \<and> k' = k3)"
    using assms(2,3) s b l
    by (auto simp: passivesock_def passive_port_def socket_type_def is_udp_def split: if_splits nat.splits)
  show ?thesis
  proof (rule sys_socket_cases [OF s assms(1)])
    assume m: "s1 \<ge> 0" "os_fds k s1 = None" "os_fds k1 = (os_fds k)(s1 \<mapsto> fresh_desc Inet (socket_type transport))" "os_ok k1"
    note bb = sys_call_cases [OF b [unfolded sys_bind_def] m(4)]
    note ll = sys_call_cases [OF l [unfolded sys_listen_def] conjunct1 [OF bb]]
    show ?thesis using run m bb ll
      by (cases "transport = ''udp''") (simp_all add: fresh_desc_def socket_type_def is_udp_def)
  qed (use run in simp)
qed

theorem passivesock_ready_witness:
  "\<exists>k' d. passivesock \<lparr>db_serv = \<lambda>s t. Some 7, db_host = \<lambda>_. None, db_addr = \<lambda>_. None, db_proto = \<lambda>_. True\<rparr> 5000
      ''echo'' ''tcp'' \<lparr>os_fds = Map.empty, os_next = 3, os_calls = []\<rparr> = (Inr 3, k')
    \<and> os_fds k' 3 = Some d \<and> ds_listening d \<and> map_option sa_port (ds_bound d) = Some 5007"
proof -
  let ?db = "\<lparr>db_serv = \<lambda>s t. Some 7, db_host = \<lambda>_. None, db_addr = \<lambda>_. None, db_proto = \<lambda>_. True\<rparr>"
  let ?k = "\<lparr>os_fds = Map.empty, os_next = 3, os_calls = []\<rparr>"
  obtain r k' where p: "passivesock ?db 5000 ''echo'' ''tcp'' ?k = (r, k')" by force
  have r: "r = Inr 3"
    using p by (simp add: passivesock_def passive_port_def socket_type_def is_udp_def sys_bind_def sys_listen_def sys_quiet)
  have "os_ok ?k" by (simp add: os_ok_def)
  from passivesock_ready [OF this p [unfolded r]] p r show ?thesis by auto
qed

end
