(* ===== verification/Stdio.thy ===== *)
theory Stdio
  imports Prelude
begin

text \<open>
  What the C programs use of the standard input of the C library: \<open>fgets\<close> on the text that is left, and
  the lines into which a series of calls cuts a text.
\<close>

text \<open>\<open>fgets\<close> with a buffer of \<open>n\<close> bytes: the string it stores, NUL characters that are read included.\<close>

definition fgets :: "nat \<Rightarrow> bytes \<Rightarrow> (bytes \<times> bytes) option" where
  "fgets n inp =
     (if inp = [] \<or> n < 2 then None
      else let k = (if NL \<in> set (take (n - 1) inp) then Suc (length (before NL inp)) else min (n - 1) (length inp))
           in Some (take k inp, drop k inp))"

lemma fgets_shrinks: "fgets n inp = Some (line, rest) \<Longrightarrow> length rest < length inp"
  by (auto simp: fgets_def Let_def split: if_splits)

lemma fgets_line:
  assumes "fgets n inp = Some (line, rest)"
  shows "line @ rest = inp \<and> line \<noteq> [] \<and> length line < n"
proof -
  have n: "inp \<noteq> []" "\<not> n < 2" using assms by (auto simp: fgets_def split: if_splits)
  define k where "k = (if NL \<in> set (take (n - 1) inp) then Suc (length (before NL inp)) else min (n - 1) (length inp))"
  have l: "line = take k inp" "rest = drop k inp" using assms n by (simp_all add: fgets_def k_def Let_def)
  have "k \<le> n - 1 \<and> 0 < k"
  proof (cases "NL \<in> set (take (n - 1) inp)")
    case True
    then have "length (before NL (take (n - 1) inp)) < length (take (n - 1) inp)" by (rule length_before_less)
    moreover have "before NL inp = before NL (take (n - 1) inp)"
      using before_append_first [OF True, of "drop (n - 1) inp"] by simp
    ultimately show ?thesis using True by (simp add: k_def)
  next
    case False
    then show ?thesis using n by (cases inp) (auto simp: k_def)
  qed
  then show ?thesis using l n by (cases inp) auto
qed

function fgets_all :: "nat \<Rightarrow> bytes \<Rightarrow> bytes list" where
  "fgets_all n inp = (case fgets n inp of None \<Rightarrow> [] | Some (line, rest) \<Rightarrow> line # fgets_all n rest)"
  by pat_completeness auto

termination
  by (relation "measure (\<lambda>(_, inp). length inp)") (auto dest: fgets_shrinks [OF sym] fgets_shrinks)

declare fgets_all.simps [simp del]

definition strlen :: "bytes \<Rightarrow> nat" where
  "strlen buf = length (before CHR 0x00 buf)"

lemma strlen_line: "CHR 0x00 \<notin> set buf \<Longrightarrow> strlen buf = length buf"
  by (simp add: strlen_def)

lemma fgets_all_concat: "1 < n \<Longrightarrow> concat (fgets_all n inp) = inp"
proof (induction n inp rule: fgets_all.induct)
  case (1 n inp)
  show ?case
  proof (cases "fgets n inp")
    case None
    with "1.prems" show ?thesis by (subst fgets_all.simps) (auto simp: fgets_def Let_def split: if_splits)
  next
    case (Some lr)
    then obtain line rest where lr: "fgets n inp = Some (line, rest)" by (cases lr) auto
    from "1.IH" [OF lr refl "1.prems"] fgets_line [OF lr] lr show ?thesis by (subst fgets_all.simps) simp
  qed
qed

lemma fgets_all_bounds: "m \<in> set (fgets_all n inp) \<Longrightarrow> m \<noteq> [] \<and> length m < n \<and> set m \<subseteq> set inp"
proof (induction n inp rule: fgets_all.induct)
  case (1 n inp)
  show ?case
  proof (cases "fgets n inp")
    case None
    with "1.prems" show ?thesis by (subst (asm) fgets_all.simps) simp
  next
    case (Some lr)
    then obtain line rest where lr: "fgets n inp = Some (line, rest)" by (cases lr) auto
    note l = fgets_line [OF lr]
    then have "set line \<subseteq> set inp" "set rest \<subseteq> set inp" by (metis set_append sup_ge1 sup_ge2)+
    moreover have "m = line \<or> m \<in> set (fgets_all n rest)" using "1.prems" lr by (subst (asm) fgets_all.simps) simp
    ultimately show ?thesis using "1.IH" [OF lr refl] l by blast
  qed
qed

text \<open>A line that \<open>fgets\<close> reads whole, newline included.\<close>

definition is_line :: "nat \<Rightarrow> bytes \<Rightarrow> bool" where
  "is_line len m \<longleftrightarrow> m \<noteq> [] \<and> NL \<notin> set (butlast m) \<and> last m = NL \<and> length m < len"

lemma is_line_split: "is_line len m \<longleftrightarrow> (\<exists>l. m = l @ [NL] \<and> NL \<notin> set l \<and> length l + 1 < len)"
  by (cases m rule: rev_cases) (auto simp: is_line_def)

lemma fgets_all_lines: "\<forall>m \<in> set ms. is_line n m \<Longrightarrow> fgets_all n (concat ms) = ms"
proof (induction ms)
  case Nil
  show ?case by (simp add: fgets_all.simps fgets_def)
next
  case (Cons m ms)
  then obtain l where l: "m = l @ [NL]" "NL \<notin> set l" "length l + 1 < n" by (auto simp: is_line_split)
  have b: "before NL (l @ NL # concat ms) = l" using l(2) by simp
  have "NL \<in> set (take (n - 1) (l @ NL # concat ms))" using l(3) by (auto simp: take_Cons' )
  then have "fgets n (concat (m # ms)) = Some (m, concat ms)"
    using l(1,3) b by (simp add: fgets_def Let_def)
  with Cons show ?case by (subst fgets_all.simps) simp
qed

end
