(* ===== verification/Unix_Echo.thy ===== *)
theory Unix_Echo
  imports Unix_Sockets Stdio
begin

text \<open>
  The ECHO programs of Internetworking.With.TCP.IP/linux/examples: the thread-per-connection server
  TCPechod.cpp, the single-process server TCPmechod.cpp with its \<open>select\<close> loop, the datagram server
  UDPechod.cpp, and the clients TCPecho.cpp and UDPecho.cpp. BUFSIZ is 8192.
\<close>

subsection \<open>TCPechod\<close>

text \<open>The loop of \<open>TCPechod\<close>: \<open>Some\<close> message when it calls \<open>errexit\<close>. A short write is not noticed.\<close>

function echo_loop :: "nat \<Rightarrow> conn \<Rightarrow> bytes option \<times> conn" where
  "echo_loop bufsz c =
     (case sys_recv bufsz c of
        (None, c1) \<Rightarrow> (Some ''echo read'', c1)
      | (Some got, c1) \<Rightarrow>
          if got = [] then (None, c1)
          else (case sys_send got c1 of
                  (r, c2) \<Rightarrow> if r < 0 then (Some ''echo write'', c2) else echo_loop bufsz c2))"
  by pat_completeness auto

termination
proof (relation "measure (\<lambda>(_, c). net_size (cn_in c))", simp)
  fix bufsz c r c1 got r' c2
  assume "(r, c1) = sys_recv bufsz c" "r = Some got" "got \<noteq> []" "(r', c2) = sys_send got c1"
  then show "((bufsz, c2), (bufsz, c)) \<in> measure (\<lambda>(_, c). net_size (cn_in c))"
    using sys_recv_shrinks [of bufsz c got c1] sys_send_in [of got c1 r' c2] by simp
qed

declare echo_loop.simps [simp del]

definition TCPechod :: "conn \<Rightarrow> bytes option \<times> conn" where
  "TCPechod c = echo_loop 8192 c"

lemma echo_loop_all:
  assumes "no_fail (cn_in c)" and "cn_sends c = []" and "0 < bufsz"
  shows "\<exists>c'. echo_loop bufsz c = (None, c') \<and> cn_out c' = cn_out c @ net_data (cn_in c) \<and> net_data (cn_in c') = []"
  using assms
proof (induction bufsz c rule: echo_loop.induct)
  case (1 bufsz c)
  from sys_recv_quiet [OF "1.prems"(1,3)] obtain got s where
    r: "sys_recv bufsz c = (Some got, c\<lparr>cn_in := s\<rparr>)"
    and d: "got @ net_data s = net_data (cn_in c)" "no_fail s" "got = [] \<longleftrightarrow> net_data (cn_in c) = []" by blast
  show ?case
  proof (cases "got = []")
    case True
    with r d show ?thesis by (subst echo_loop.simps) simp
  next
    case False
    let ?c2 = "c\<lparr>cn_in := s, cn_out := cn_out c @ got\<rparr>"
    have w: "sys_send got (c\<lparr>cn_in := s\<rparr>) = (int (length got), ?c2)" using "1.prems"(2) by (simp add: sys_send_quiet)
    from "1.IH" [OF r [symmetric] refl False w [symmetric]] d(2) "1.prems"
    obtain c' where "echo_loop bufsz ?c2 = (None, c')" "cn_out c' = cn_out c @ got @ net_data s" "net_data (cn_in c') = []"
      by auto
    with False r w d(1) show ?thesis by (subst echo_loop.simps) simp
  qed
qed

text \<open>
  The master loop: a thread for each accepted connection, EINTR ignored. The event of an accept is
  the peer, EINTR, or another error. Neither the loop nor the thread closes the descriptor.
\<close>

datatype accept_event = Conn_accepted sock_address | Accept_interrupted | Accept_refused

fun TCPechod_main :: "accept_event list \<Rightarrow> int list \<Rightarrow> os \<Rightarrow> bytes option \<times> int list \<times> os" where
  "TCPechod_main [] threads k = (None, threads, k)"
| "TCPechod_main (Accept_interrupted # evs) threads k = TCPechod_main evs threads k"
| "TCPechod_main (Accept_refused # evs) threads k = (Some ''accept'', threads, k)"
| "TCPechod_main (Conn_accepted peer # evs) threads k =
     (case sys_socket Inet Stream_type k of
        (ssock, k1) \<Rightarrow> if ssock < 0 then (Some ''accept'', threads, k1)
          else TCPechod_main evs (threads @ [ssock]) (on_desc ssock (\<lambda>d. d\<lparr>ds_peer := Some peer\<rparr>) k1))"

lemma TCPechod_main_open:
  assumes "TCPechod_main evs threads k = (r, threads', k')" and "os_ok k"
  shows "\<exists>new. threads' = threads @ new \<and> distinct new \<and> set new \<inter> dom (os_fds k) = {}
    \<and> dom (os_fds k') = dom (os_fds k) \<union> set new"
  using assms
proof (induction evs threads k rule: TCPechod_main.induct)
  case (4 peer evs threads k)
  obtain ssock k1 where s: "sys_socket Inet Stream_type k = (ssock, k1)" by force
  show ?case
  proof (rule sys_socket_cases [OF s "4.prems"(2)])
    assume "ssock = - 1" "os_fds k1 = os_fds k" "os_ok k1"
    with 4 s show ?thesis by simp
  next
    let ?k = "on_desc ssock (\<lambda>d. d\<lparr>ds_peer := Some peer\<rparr>) k1"
    assume m: "ssock \<ge> 0" "os_fds k ssock = None" "os_fds k1 = (os_fds k)(ssock \<mapsto> fresh_desc Inet Stream_type)" "os_ok k1"
    then have "os_ok ?k" by (auto simp: os_ok_def on_desc_def)
    with "4.IH" [OF s [symmetric]] "4.prems"(1) s m(1) obtain new where
      n: "threads' = (threads @ [ssock]) @ new" "distinct new" "set new \<inter> dom (os_fds ?k) = {}"
        "dom (os_fds k') = dom (os_fds ?k) \<union> set new" by auto
    have "dom (os_fds ?k) = insert ssock (dom (os_fds k))" using m(3) by (auto simp: on_desc_def)
    with n m(2) show ?thesis by (intro exI [of _ "ssock # new"]) auto
  qed
qed auto

text \<open>
  TCPechod echoes every connection to its last byte, whatever the cuts, but keeps its descriptor:
  after any sequence of connections each of them, served or not, is still open in the process.
\<close>

theorem tcp_echod_leaks_descriptors:
  assumes "TCPechod_main evs [] k = (r, threads, k')" and "os_ok k"
    and "no_fail (cn_in c)" and "cn_sends c = []"
  shows "card (dom (os_fds k') - dom (os_fds k)) = length threads
    \<and> (\<exists>c'. TCPechod c = (None, c') \<and> cn_out c' = cn_out c @ net_data (cn_in c))"
proof -
  from TCPechod_main_open [OF assms(1,2)] obtain new where
    "threads = new" "distinct new" "set new \<inter> dom (os_fds k) = {}" "dom (os_fds k') = dom (os_fds k) \<union> set new" by auto
  then have "card (dom (os_fds k') - dom (os_fds k)) = length threads"
    by (simp add: Un_Diff Diff_triv distinct_card)
  with echo_loop_all [OF assms(3,4), of 8192] show ?thesis by (auto simp: TCPechod_def)
qed


theorem tcp_echod_leaks_descriptors_witness:
  "\<exists>k' c'. TCPechod_main [Conn_accepted \<lparr>sa_family = Inet, sa_host = [], sa_port = 9\<rparr>, Accept_interrupted] []
      \<lparr>os_fds = Map.empty, os_next = 4, os_calls = []\<rparr> = (None, [4], k') \<and> card (dom (os_fds k')) = 1
    \<and> TCPechod (conn_of [Arrive ''a'', Arrive ''bc'']) = (None, c') \<and> cn_out c' = ''abc''"
proof -
  let ?k = "\<lparr>os_fds = Map.empty, os_next = 4, os_calls = []\<rparr>"
  obtain r th k' where m: "TCPechod_main [Conn_accepted \<lparr>sa_family = Inet, sa_host = [], sa_port = 9\<rparr>, Accept_interrupted] [] ?k = (r, th, k')"
    by (metis prod_cases3)
  then have r: "r = None" "th = [4]" by (simp_all add: sys_quiet)
  have ok: "os_ok ?k" by (simp add: os_ok_def)
  from tcp_echod_leaks_descriptors [OF m ok, of "conn_of [Arrive ''a'', Arrive ''bc'']"] r m show ?thesis by auto
qed

subsection \<open>TCPmechod\<close>

text \<open>\<open>echo\<close> moves one buffer; its result is the byte count.\<close>

definition echo_once :: "conn \<Rightarrow> nat exits \<times> conn" where
  "echo_once c =
     (case sys_recv 8192 c of
        (None, c1) \<Rightarrow> (Inl ''echo read'', c1)
      | (Some got, c1) \<Rightarrow>
          if got \<noteq> [] then
            (case sys_send got c1 of (r, c2) \<Rightarrow> (if r < 0 then Inl ''echo write'' else Inr (length got), c2))
          else (Inr 0, c1))"

text \<open>The scan of the descriptors that \<open>select\<close> found ready: a finished one is closed and left out of \<open>afds\<close>.\<close>

fun mechod_scan :: "(int \<Rightarrow> bool) \<Rightarrow> (int \<times> conn) list \<Rightarrow> os \<Rightarrow> bytes option \<times> (int \<times> conn) list \<times> os" where
  "mechod_scan rfds [] k = (None, [], k)"
| "mechod_scan rfds ((fd, c) # slaves) k =
     (if \<not> rfds fd then
        (case mechod_scan rfds slaves k of (r, slaves1, k1) \<Rightarrow> (r, (fd, c) # slaves1, k1))
      else (case echo_once c of
        (Inl m, c1) \<Rightarrow> (Some m, (fd, c1) # slaves, k)
      | (Inr cc, c1) \<Rightarrow>
          if cc = 0 then mechod_scan rfds slaves (sys_close fd k)
          else (case mechod_scan rfds slaves k of (r, slaves1, k1) \<Rightarrow> (r, (fd, c1) # slaves1, k1))))"

text \<open>
  One turn of the loop; \<open>new\<close> is the connection waiting at the master socket, if that is ready. It
  enters \<open>afds\<close> but not the copy \<open>rfds\<close> the scan looks at.
\<close>

definition mechod_turn ::
  "(int \<Rightarrow> bool) \<Rightarrow> conn option \<Rightarrow> (int \<times> conn) list \<times> os \<Rightarrow> bytes option \<times> (int \<times> conn) list \<times> os" where
  "mechod_turn rfds new st =
     (case st of (slaves, k) \<Rightarrow>
       (case new of
          None \<Rightarrow> mechod_scan rfds slaves k
        | Some c \<Rightarrow>
            (case sys_socket Inet Stream_type k of
               (ssock, k1) \<Rightarrow>
                 if ssock < 0 then (Some ''accept'', slaves, k1)
                 else (case mechod_scan rfds slaves k1 of
                   (r, slaves1, k2) \<Rightarrow> (r, slaves1 @ [(ssock, c)], k2)))))"

inductive mechod_step :: "(int \<times> conn) list \<times> os \<Rightarrow> (int \<times> conn) list \<times> os \<Rightarrow> bool" where
  Mechod_turn: "mechod_turn rfds new st = (None, st') \<Longrightarrow>
    (case new of None \<Rightarrow> True | Some c \<Rightarrow> no_fail (cn_in c) \<and> cn_sends c = [] \<and> cn_out c = []) \<Longrightarrow> mechod_step st st'"
| Mechod_arrival: "i < length slaves \<Longrightarrow> slaves ! i = (fd, c) \<Longrightarrow>
    mechod_step (slaves, k) (slaves[i := (fd, c\<lparr>cn_in := cn_in c @ [Arrive d]\<rparr>)], k)"

text \<open>The open descriptors are those of before, for the master socket, and one for each slave.\<close>

definition mechod_fds :: "int set \<Rightarrow> (int \<times> conn) list \<times> os \<Rightarrow> bool" where
  "mechod_fds base st \<longleftrightarrow> os_ok (snd st) \<and> distinct (map fst (fst st)) \<and> set (map fst (fst st)) \<inter> base = {}
     \<and> dom (os_fds (snd st)) = base \<union> set (map fst (fst st))"

definition scan_ok :: "(int \<times> conn) list \<Rightarrow> os \<Rightarrow> (int \<times> conn) list \<Rightarrow> os \<Rightarrow> bool" where
  "scan_ok slaves k slaves' k' \<longleftrightarrow> os_ok k' \<and> distinct (map fst slaves')
     \<and> set (map fst slaves') \<subseteq> set (map fst slaves) \<and> os_next k' = os_next k
     \<and> dom (os_fds k') = dom (os_fds k) - (set (map fst slaves) - set (map fst slaves'))"

lemma scan_ok_kept:
  assumes "scan_ok slaves k slaves' k'" and "fd \<notin> set (map fst slaves)"
  shows "scan_ok ((fd, c) # slaves) k ((fd, c') # slaves') k'"
proof -
  have "insert fd (set (map fst slaves)) - insert fd (set (map fst slaves')) = set (map fst slaves) - set (map fst slaves')"
    using assms(2) by blast
  with assms show ?thesis unfolding scan_ok_def by (auto simp del: set_map)
qed

lemma scan_ok_closed:
  assumes "scan_ok slaves (sys_close fd k) slaves' k'" and "fd \<notin> set (map fst slaves)"
  shows "scan_ok ((fd, c) # slaves) k slaves' k'"
proof -
  have "dom (os_fds (sys_close fd k)) = dom (os_fds k) - {fd}" and "os_next (sys_close fd k) = os_next k"
    by (auto simp: sys_close_def)
  moreover have "set (map fst slaves') \<subseteq> set (map fst slaves) \<Longrightarrow>
      dom (os_fds k) - {fd} - (set (map fst slaves) - set (map fst slaves'))
      = dom (os_fds k) - (insert fd (set (map fst slaves)) - set (map fst slaves'))"
    using assms(2) by blast
  ultimately show ?thesis using assms(1) unfolding scan_ok_def by (auto simp del: set_map)
qed

lemma mechod_scan_fds:
  assumes "mechod_scan rfds slaves k = (r, slaves', k')" and "os_ok k" and "distinct (map fst slaves)"
  shows "scan_ok slaves k slaves' k'"
  using assms
proof (induction rfds slaves k arbitrary: r slaves' k' rule: mechod_scan.induct)
  case (2 rfds fd c slaves k)
  obtain cr c1 where e: "echo_once c = (cr, c1)" by force
  have fd: "fd \<notin> set (map fst slaves)" and ds: "distinct (map fst slaves)" using "2.prems"(3) by simp_all
  obtain r1 s1 k1 where s: "mechod_scan rfds slaves k = (r1, s1, k1)" by (metis prod_cases3)
  consider (skip) "\<not> rfds fd" | (err) m where "rfds fd" "cr = Inl m" | (finished) "rfds fd" "cr = Inr 0"
    | (more) n where "rfds fd" "cr = Inr (Suc n)"
    by (metis sum.exhaust not0_implies_Suc)
  then show ?case
  proof cases
    case skip
    with "2.IH"(1) [OF skip s "2.prems"(2) ds] s "2.prems"(1) show ?thesis by (auto intro: scan_ok_kept [OF _ fd])
  next
    case err
    with "2.prems" e have "slaves' = (fd, c1) # slaves" "k' = k" by simp_all
    with "2.prems"(2,3) show ?thesis by (simp add: scan_ok_def)
  next
    case finished
    then have "mechod_scan rfds slaves (sys_close fd k) = (r, slaves', k')" using "2.prems"(1) e by simp
    with "2.IH"(2) [OF _ e [symmetric] finished(2) refl this] finished(1) "2.prems"(2) ds
    show ?thesis by (intro scan_ok_closed [OF _ fd]) simp_all
  next
    case more
    with "2.IH"(3) [OF _ e [symmetric] more(2) _ s "2.prems"(2) ds] s "2.prems"(1) e show ?thesis
      by (auto intro: scan_ok_kept [OF _ fd])
  qed
qed (simp add: scan_ok_def)


lemma mechod_turn_fds:
  assumes "mechod_turn rfds new st = (r, st')" and "mechod_fds base st"
  shows "mechod_fds base st'"
proof -
  obtain slaves k where st: "st = (slaves, k)" by force
  from assms(2) have b: "os_ok k" "distinct (map fst slaves)" "set (map fst slaves) \<inter> base = {}"
    "dom (os_fds k) = base \<union> set (map fst slaves)" by (simp_all add: mechod_fds_def st)
  have scan: "mechod_fds base (s1, k2)"
    if "scan_ok slaves k s1 k2" for s1 k2
    using that b unfolding mechod_fds_def scan_ok_def by (auto simp del: set_map)
  show ?thesis
  proof (cases new)
    case None
    then obtain s1 k1 where "mechod_scan rfds slaves k = (r, s1, k1)" "st' = (s1, k1)"
      using assms(1) st by (cases st') (simp add: mechod_turn_def)
    with scan [OF mechod_scan_fds [OF _ b(1,2)]] show ?thesis by blast
  next
    case (Some c)
    obtain ssock k1 where s: "sys_socket Inet Stream_type k = (ssock, k1)" by force
    show ?thesis
    proof (rule sys_socket_cases [OF s b(1)])
      assume "ssock = - 1" "os_fds k1 = os_fds k" "os_ok k1"
      moreover from this have "st' = (slaves, k1)" using assms(1) s Some st by (auto simp: mechod_turn_def)
      ultimately show ?thesis using b by (simp add: mechod_fds_def del: set_map)
    next
      assume m: "ssock \<ge> 0" "os_fds k ssock = None" "os_fds k1 = (os_fds k)(ssock \<mapsto> fresh_desc Inet Stream_type)" "os_ok k1"
      obtain r1 s1 k2 where sc: "mechod_scan rfds slaves k1 = (r1, s1, k2)" by (metis prod_cases3)
      then have st': "st' = (s1 @ [(ssock, c)], k2)" using assms(1) s m(1) Some st by (simp add: mechod_turn_def)
      note ok = mechod_scan_fds [OF sc m(4) b(2), unfolded scan_ok_def]
      have new: "ssock \<notin> base" "ssock \<notin> set (map fst slaves)" using m(2) b(4) by (auto simp: domIff simp del: set_map)
      have "dom (os_fds k1) = insert ssock (base \<union> set (map fst slaves))" using m(3) b(4) by auto
      then have "dom (os_fds k2) = base \<union> insert ssock (set (map fst s1))" using ok new b(3) by blast
      moreover have "ssock \<notin> set (map fst s1)" "set (map fst s1) \<inter> base = {}" using ok new b(3) by blast+
      ultimately show ?thesis using ok new st' by (simp add: mechod_fds_def del: set_map)
    qed
  qed
qed

text \<open>
  the single-process server keeps its books: in every run, for every order of arrivals, of
  readiness and of ends of connections, the descriptors it has open are those it began with and one
  for each connection it still serves.
\<close>

theorem tcp_mechod_descriptors:
  assumes "mechod_step\<^sup>*\<^sup>* ([], k0) (slaves, k)" and "os_ok k0"
  shows "distinct (map fst slaves) \<and> dom (os_fds k) = dom (os_fds k0) \<union> set (map fst slaves)
    \<and> set (map fst slaves) \<inter> dom (os_fds k0) = {}"
proof -
  have "mechod_fds (dom (os_fds k0)) (slaves, k)"
    using assms(1)
  proof (induction "(slaves, k)" arbitrary: slaves k rule: rtranclp_induct)
    case base
    show ?case using assms(2) by (simp add: mechod_fds_def)
  next
    case (step st)
    from step(2,3) show ?case
    proof (cases rule: mechod_step.cases)
      case (Mechod_turn rfds new)
      then show ?thesis using step(3) [of "fst st" "snd st"] by (auto intro: mechod_turn_fds)
    next
      case (Mechod_arrival i sl fd c d)
      have "map fst (sl[i := (fd, c\<lparr>cn_in := cn_in c @ [Arrive d]\<rparr>)]) = map fst sl"
        using Mechod_arrival by (simp add: map_update list_update_same_conv)
      then show ?thesis using step(3) [of sl] Mechod_arrival by (simp add: mechod_fds_def del: set_map)
    qed
  qed
  then show ?thesis by (simp add: mechod_fds_def)
qed

theorem tcp_mechod_descriptors_witness:
  "\<exists>k. mechod_step ([], \<lparr>os_fds = [3 \<mapsto> fresh_desc Inet Stream_type], os_next = 4, os_calls = []\<rparr>) ([(4, conn_of [])], k)
    \<and> dom (os_fds k) = {3, 4}"
proof -
  let ?k = "\<lparr>os_fds = [3 \<mapsto> fresh_desc Inet Stream_type], os_next = 4, os_calls = []\<rparr>"
  obtain r sl k where t: "mechod_turn (\<lambda>_. False) (Some (conn_of [])) ([], ?k) = (r, sl, k)" by (metis prod_cases3)
  then have r: "r = None" "sl = [(4, conn_of [])]" by (simp_all add: mechod_turn_def sys_quiet)
  have s: "mechod_step ([], ?k) ([(4, conn_of [])], k)" by (rule Mechod_turn [OF t [unfolded r]]) simp
  have "os_ok ?k" by (simp add: os_ok_def)
  moreover have "mechod_step\<^sup>*\<^sup>* ([], ?k) ([(4, conn_of [])], k)" using s by blast
  ultimately show ?thesis using tcp_mechod_descriptors [of ?k "[(4, conn_of [])]" k] s by auto
qed

text \<open>What a turn does to a connection: its bytes are moved from input to output, in order, or it is closed at its end.\<close>

lemma echo_once_keeps:
  assumes "echo_once c = (Inr n, c')" and "no_fail (cn_in c)" and "cn_sends c = []"
  shows "cn_out c' @ net_data (cn_in c') = cn_out c @ net_data (cn_in c) \<and> no_fail (cn_in c') \<and> cn_sends c' = []
    \<and> (n = 0 \<longrightarrow> net_data (cn_in c) = [])"
proof -
  from sys_recv_quiet [OF assms(2), of 8192] obtain got s where
    "sys_recv 8192 c = (Some got, c\<lparr>cn_in := s\<rparr>)" "got @ net_data s = net_data (cn_in c)" "no_fail s"
    "got = [] \<longleftrightarrow> net_data (cn_in c) = []" by auto
  then show ?thesis using assms(1,3)
    by (cases "got = []") (auto simp: echo_once_def sys_send_quiet)
qed

subsection \<open>UDPechod\<close>

text \<open>
  The datagrams to come, \<open>None\<close> for an error of \<open>recvfrom\<close>, and the results of \<open>sendto\<close>. The result
  is \<open>None\<close> while the server goes on, \<open>Some (Inl m)\<close> when \<open>errexit\<close> is called, \<open>Some (Inr ())\<close> when
  the function returns; and what was sent.
\<close>

fun UDPechod ::
  "(bytes \<times> sock_address) option list \<Rightarrow> int list \<Rightarrow> (bytes \<times> sock_address) list
    \<Rightarrow> unit exits option \<times> (bytes \<times> sock_address) list" where
  "UDPechod [] sends out = (None, out)"
| "UDPechod (None # evs) sends out = (Some (Inl ''echo recvfrom''), out)"
| "UDPechod (Some (d, fsin) # evs) sends out =
     (let buf = take 8192 d in
      if buf = [] then (Some (Inr ()), out)
      else if sends \<noteq> [] \<and> hd sends < 0 then (Some (Inl ''echo sendto''), out)
      else UDPechod evs (tl sends) (out @ [(buf, fsin)]))"

text \<open>
  the datagram echo server answers each datagram to its sender, in order, until an empty one
  arrives: then it returns, and the process ends although nothing has failed.
\<close>

theorem udp_echod_empty_datagram:
  assumes "\<forall>(d, a) \<in> set ds. d \<noteq> [] \<and> length d \<le> 8192"
  shows "UDPechod (map Some ds) [] [] = (None, ds)
    \<and> UDPechod (map Some ds @ Some ([], fsin) # evs) [] [] = (Some (Inr ()), ds)"
proof -
  have "UDPechod (map Some ds @ evs) [] out = UDPechod evs [] (out @ ds)" for evs out
    using assms by (induction ds arbitrary: out) (auto simp: Let_def)
  from this [of "[]" "[]"] this [of "Some ([], fsin) # evs" "[]"] show ?thesis by simp
qed

theorem udp_echod_empty_datagram_witness:
  "UDPechod [Some (''hi'', a), Some ([], b), Some (''lost'', a)] [] [] = (Some (Inr ()), [(''hi'', a)])"
  using udp_echod_empty_datagram [of "[(''hi'', a)]" b "[Some (''lost'', a)]"] by simp

subsection \<open>The clients\<close>

text \<open>The inner loop of TCPecho.cpp: it counts what comes, and takes no notice of a count of 0.\<close>

partial_function (option) read_back :: "nat \<Rightarrow> bytes \<Rightarrow> conn \<Rightarrow> (bytes exits \<times> conn) option" where
  "read_back outchars buf c =
     (if length buf < outchars then
        (case sys_recv (outchars - length buf) c of
           (None, c1) \<Rightarrow> Some (Inl ''socket read failed'', c1)
         | (Some got, c1) \<Rightarrow> read_back outchars (buf @ got) c1)
      else Some (Inr buf, c))"

text \<open>\<open>TCPecho\<close> on the standard input, LINELEN being 128; the result has what was printed.\<close>

partial_function (option) TCPecho :: "bytes \<Rightarrow> bytes \<Rightarrow> conn \<Rightarrow> (bytes option \<times> bytes \<times> conn) option" where
  "TCPecho inp out c =
     (case fgets 129 inp of
        None \<Rightarrow> Some (None, out, c)
      | Some (line, rest) \<Rightarrow>
          let txt = before CHR 0x00 line in
          (case read_back (length txt) [] (snd (sys_send txt c)) of
             None \<Rightarrow> None
           | Some (Inl m, c1) \<Rightarrow> Some (Some m, out, c1)
           | Some (Inr buf, c1) \<Rightarrow> TCPecho rest (out @ before CHR 0x00 buf) c1))"

text \<open>A line of UDPecho.cpp: the reply is read over the line in the buffer, which is then printed.\<close>

definition udp_echo_line :: "bytes \<Rightarrow> bytes \<Rightarrow> bytes \<times> bytes" where
  "udp_echo_line line reply =
     (let txt = before CHR 0x00 line; got = take (length txt) reply
      in (txt, before CHR 0x00 (got @ drop (length got) txt)))"

text \<open>\<open>UDPecho\<close> with the replies to come, \<open>None\<close> for an error; with no reply left it waits for ever.\<close>

fun UDPecho_lines :: "bytes list \<Rightarrow> bytes option list \<Rightarrow> bytes list \<Rightarrow> bytes \<Rightarrow> bytes exits option \<times> bytes list" where
  "UDPecho_lines [] replies sent out = (Some (Inr out), sent)"
| "UDPecho_lines (line # lines) [] sent out = (None, sent @ [before CHR 0x00 line])"
| "UDPecho_lines (line # lines) (None # replies) sent out =
     (Some (Inl ''socket read failed''), sent @ [before CHR 0x00 line])"
| "UDPecho_lines (line # lines) (Some reply # replies) sent out =
     (case udp_echo_line line reply of
        (txt, printed) \<Rightarrow> UDPecho_lines lines replies (sent @ [txt]) (out @ printed))"

definition UDPecho :: "bytes \<Rightarrow> bytes option list \<Rightarrow> bytes exits option \<times> bytes list" where
  "UDPecho inp replies = UDPecho_lines (fgets_all 129 inp) replies [] []"

lemma read_back_all:
  assumes "no_fail (cn_in c)" and "length buf + length (net_data (cn_in c)) \<ge> outchars" and "length buf \<le> outchars"
  shows "\<exists>s. read_back outchars buf c = Some (Inr (buf @ take (outchars - length buf) (net_data (cn_in c))), c\<lparr>cn_in := s\<rparr>)
    \<and> net_data s = drop (outchars - length buf) (net_data (cn_in c)) \<and> no_fail s"
  using assms
proof (induction "outchars - length buf" arbitrary: buf c rule: less_induct)
  case less
  show ?case
  proof (cases "length buf < outchars")
    case True
    from sys_recv_quiet [OF less.prems(1), of "outchars - length buf"] True obtain got s where
      r: "sys_recv (outchars - length buf) c = (Some got, c\<lparr>cn_in := s\<rparr>)"
      and d: "got @ net_data s = net_data (cn_in c)" "no_fail s" "length got \<le> outchars - length buf"
        "got = [] \<longleftrightarrow> net_data (cn_in c) = []" by auto
    have ne: "got \<noteq> []" using d(4) less.prems(2) True by auto
    have "outchars - length (buf @ got) < outchars - length buf" using ne True by (cases got) simp_all
    moreover have "outchars \<le> length (buf @ got) + length (net_data s)"
      using less.prems(2) unfolding d(1) [symmetric] by simp
    moreover have "length (buf @ got) \<le> outchars" using d(3) True by simp
    ultimately obtain t where
      t: "read_back outchars (buf @ got) (c\<lparr>cn_in := s\<rparr>)
          = Some (Inr ((buf @ got) @ take (outchars - length (buf @ got)) (net_data s)), c\<lparr>cn_in := t\<rparr>)"
        "net_data t = drop (outchars - length (buf @ got)) (net_data s)" "no_fail t"
      using less.hyps [of "buf @ got" "c\<lparr>cn_in := s\<rparr>"] d(2) by fastforce
    have "read_back outchars buf c = read_back outchars (buf @ got) (c\<lparr>cn_in := s\<rparr>)"
      using True r by (subst read_back.simps) simp
    with t d(3) show ?thesis unfolding d(1) [symmetric] by (intro exI [of _ t]) simp
  next
    case False
    then show ?thesis using less.prems by (subst read_back.simps) (auto intro!: exI [of _ "cn_in c"])
  qed
qed


lemma TCPecho_prints:
  assumes "no_fail (cn_in c)" and "cn_sends c = []" and "CHR 0x00 \<notin> set inp" and "net_data (cn_in c) = inp @ rest"
  shows "\<exists>c'. TCPecho inp out c = Some (None, out @ inp, c') \<and> cn_out c' = cn_out c @ inp"
  using assms
proof (induction "length inp" arbitrary: inp out c rule: less_induct)
  case less
  show ?case
  proof (cases "fgets 129 inp")
    case None
    then have "inp = []" by (auto simp: fgets_def Let_def split: if_splits)
    with None show ?thesis by (subst TCPecho.simps) simp
  next
    case (Some lr)
    then obtain l r where lr: "fgets 129 inp = Some (l, r)" by (cases lr) auto
    have split: "l @ r = inp" "length r < length inp" using fgets_line [OF lr] fgets_shrinks [OF lr] by simp_all
    have z: "before CHR 0x00 l = l" "CHR 0x00 \<notin> set r" using less.prems(3) split(1) by auto
    let ?c = "c\<lparr>cn_out := cn_out c @ l\<rparr>"
    have d: "net_data (cn_in ?c) = l @ r @ rest" using less.prems(4) split(1) by auto
    have "length ([] :: bytes) + length (net_data (cn_in ?c)) \<ge> length l" unfolding d by simp
    from read_back_all [OF _ this] less.prems(1) d obtain s where
      s: "read_back (length l) [] ?c = Some (Inr l, ?c\<lparr>cn_in := s\<rparr>)" "net_data s = r @ rest" "no_fail s" by auto
    have "TCPecho inp out c = TCPecho r (out @ l) (?c\<lparr>cn_in := s\<rparr>)"
      using lr s(1) z(1) less.prems(2) by (subst TCPecho.simps) (simp add: sys_send_quiet)
    moreover have "\<exists>c'. TCPecho r (out @ l) (?c\<lparr>cn_in := s\<rparr>) = Some (None, (out @ l) @ r, c') \<and> cn_out c' = cn_out (?c\<lparr>cn_in := s\<rparr>) @ r"
      by (rule less.hyps) (use split(2) s z(2) less.prems(2) in simp_all)
    ultimately show ?thesis using split(1) by auto
  qed
qed

text \<open>
  client and server of the ECHO service together: a text without NUL typed into TCPecho comes
  back from TCPechod and is printed unchanged, however the network cuts it in either direction.
\<close>

theorem tcp_echo_end_to_end:
  assumes "CHR 0x00 \<notin> set inp"
    and "no_fail (cn_in d)" and "cn_sends d = []" and "cn_out d = []" and "net_data (cn_in d) = inp"
    and "TCPechod d = (r, d')" and "no_fail s" and "net_data s = cn_out d'"
  shows "r = None \<and> (\<exists>c'. TCPecho inp [] (conn_of s) = Some (None, inp, c') \<and> cn_out c' = net_data (cn_in d))"
proof -
  from echo_loop_all [OF assms(2,3), of 8192] assms(4,5,6) have "r = None" "cn_out d' = inp"
    by (auto simp: TCPechod_def)
  with TCPecho_prints [of "conn_of s" inp "[]" "[]"] assms(1,5,7,8) show ?thesis by auto
qed

theorem tcp_echo_end_to_end_witness:
  "\<exists>c'. TCPecho (''hi'' @ [NL] @ ''you'') [] (conn_of [Arrive ''h'', Arrive (''i'' @ [NL] @ ''you'')])
     = Some (None, ''hi'' @ [NL] @ ''you'', c')"
proof -
  let ?inp = "''hi'' @ [NL] @ ''you''"
  let ?d = "conn_of [Arrive ?inp]"
  obtain r d' where t: "TCPechod ?d = (r, d')" by force
  have o: "cn_out d' = ?inp" using echo_loop_all [of ?d 8192] t by (auto simp: TCPechod_def)
  show ?thesis using tcp_echo_end_to_end [of ?inp ?d r d' "[Arrive ''h'', Arrive (''i'' @ [NL] @ ''you'')]"] t o by auto
qed

lemma read_back_closed:
  assumes "no_fail (cn_in c)" and "net_data (cn_in c) = []" and "length buf < outchars"
  shows "read_back outchars buf c = None"
proof (rule ccontr)
  let ?P = "\<lambda>outchars buf c. \<not> (no_fail (cn_in c) \<and> net_data (cn_in c) = [] \<and> length buf < outchars)"
  assume "read_back outchars buf c \<noteq> None"
  then obtain y where y: "read_back outchars buf c = Some y" by auto
  have "?P outchars buf c"
  proof (rule read_back.raw_induct [where P = "\<lambda>n b c y. ?P n b c", OF _ y])
    fix rec :: "nat \<Rightarrow> bytes \<Rightarrow> conn \<Rightarrow> (bytes exits \<times> conn) option" and outchars buf c y
    assume ih: "\<And>outchars buf c y. rec outchars buf c = Some y \<Longrightarrow> ?P outchars buf c"
      and eq: "(if length buf < outchars then
          (case sys_recv (outchars - length buf) c of
             (None, c1) \<Rightarrow> Some (Inl ''socket read failed'', c1)
           | (Some got, c1) \<Rightarrow> rec outchars (buf @ got) c1)
        else Some (Inr buf, c)) = Some y"
    show "?P outchars buf c"
    proof
      assume p: "no_fail (cn_in c) \<and> net_data (cn_in c) = [] \<and> length buf < outchars"
      with sys_recv_quiet [of c "outchars - length buf"] obtain s where
        s: "sys_recv (outchars - length buf) c = (Some [], c\<lparr>cn_in := s\<rparr>)" "net_data s = []" "no_fail s" by auto
      then have "rec outchars buf (c\<lparr>cn_in := s\<rparr>) = Some y" using eq p by simp
      from ih [OF this] s p show False by simp
    qed
  qed
  with assms show False by simp
qed

text \<open>
  TCPecho does not notice that the server has closed the connection: when a line is not echoed
  to its last byte, the client reads end of file again and again and never ends.
\<close>

theorem tcp_echo_client_spins:
  assumes "no_fail s" and "net_data s = []" and "x \<noteq> CHR 0x00"
  shows "TCPecho (x # xs) out (conn_of s) = None"
proof -
  obtain l r where lr: "fgets 129 (x # xs) = Some (l, r)"
    by (cases "fgets 129 (x # xs)") (auto simp: fgets_def Let_def split: if_splits)
  obtain l' where "l = x # l'" using fgets_line [OF lr] by (cases l) auto
  then have "before CHR 0x00 l \<noteq> []" using assms(3) by simp
  with lr assms(1,2) show ?thesis
    by (subst TCPecho.simps) (simp add: sys_send_quiet read_back_closed)
qed

theorem tcp_echo_client_spins_witness: "TCPecho (''hi'' @ [NL]) [] (conn_of []) = None"
  using tcp_echo_client_spins [of "[]" "CHR ''h''" "''i'' @ [NL]" "[]"] by simp

lemma udp_echo_line_same: "CHR 0x00 \<notin> set line \<Longrightarrow> udp_echo_line line line = (line, line)"
  by (simp add: udp_echo_line_def)

text \<open>A reply shorter than the line leaves the tail of the line to be printed behind it.\<close>

lemma udp_echo_line_short:
  "CHR 0x00 \<notin> set line \<Longrightarrow> CHR 0x00 \<notin> set reply \<Longrightarrow> length reply \<le> length line \<Longrightarrow>
   udp_echo_line line reply = (line, reply @ drop (length reply) line)"
  using in_set_dropD [of "CHR 0x00" "length reply" line] by (auto simp: udp_echo_line_def intro!: before_miss)

end
