(* ===== verification/Unix_Services.thy ===== *)
theory Unix_Services
  imports Unix_Sockets Survey
begin

text \<open>
  The services of Internetworking.With.TCP.IP/linux/examples: the service functions of sv_funcs.cpp,
  which the super-server starts, the TIME servers and clients (TCPtimed.cpp, UDPtimed.cpp,
  TCPtime.cpp, UDPtime.cpp) and the DAYTIME ones (daytimed.cpp, TCPdaytimed.cpp, UDPdaytimed.cpp,
  TCPdaytime.cpp, UDPdaytime.cpp). \<open>ctime\<close> and the clock are parameters.
\<close>

subsection \<open>CHARGEN\<close>

text \<open>A line of \<open>TCPchargend\<close> and the next character, \<open>LINELEN\<close> being 72.\<close>

fun chargen_fill :: "nat \<Rightarrow> nat \<Rightarrow> bytes \<times> nat" where
  "chargen_fill 0 c = ([], c)"
| "chargen_fill (Suc i) c =
     (let c1 = (if c + 1 > 126 then 32 else c + 1)
      in case chargen_fill i c1 of (buf, c2) \<Rightarrow> (char_of c # buf, c2))"

definition chargen_line :: "nat \<Rightarrow> bytes \<times> nat" where
  "chargen_line c = (case chargen_fill 72 c of (buf, c1) \<Rightarrow> (buf @ crlf, c1))"

text \<open>The loop of \<open>TCPchargend\<close>: one line for each result of \<open>write\<close> to come, until one is negative.\<close>

fun chargen_loop :: "nat \<Rightarrow> int list \<Rightarrow> bytes list" where
  "chargen_loop c [] = []"
| "chargen_loop c (r # rs) =
     (case chargen_line c of (line, c1) \<Rightarrow> if r < 0 then [line] else line # chargen_loop c1 rs)"

definition TCPchargend :: "int list \<Rightarrow> bytes list" where
  "TCPchargend rs = chargen_loop 32 rs"

definition printable :: "nat \<Rightarrow> nat" where
  "printable n = 32 + n mod 95"

lemma printable_next: "(if printable n + 1 > 126 then 32 else printable n + 1) = printable (Suc n)"
  using mod_less_divisor [of 95 n] by (auto simp: printable_def mod_Suc simp del: mod_less_divisor)

lemma chargen_fill_printable:
  "chargen_fill i (printable n) = (map (\<lambda>j. char_of (printable (n + j))) [0..<i], printable (n + i))"
proof (induction i arbitrary: n)
  case (Suc i)
  have "[0..<Suc i] = 0 # map Suc [0..<i]" by (simp add: map_Suc_upt upt_conv_Cons)
  moreover have "(if printable n + 1 > 126 then 32 else printable n + 1) = printable (Suc n)" by (rule printable_next)
  ultimately show ?case using Suc [of "Suc n"] by (simp del: upt_Suc add: Let_def comp_def)
qed simp

lemma chargen_loop_lines:
  "k < length rs \<Longrightarrow> \<forall>j < k. 0 \<le> rs ! j \<Longrightarrow>
   chargen_loop (printable n) rs ! k = map (\<lambda>j. char_of (printable (n + 72 * k + j))) [0..<72] @ crlf
     \<and> k < length (chargen_loop (printable n) rs)"
proof (induction rs arbitrary: k n)
  case (Cons r rs)
  have line: "chargen_line (printable n) = (map (\<lambda>j. char_of (printable (n + j))) [0..<72] @ crlf, printable (n + 72))"
    unfolding chargen_line_def chargen_fill_printable by simp
  show ?case
  proof (cases k)
    case 0
    then show ?thesis by (simp add: line del: upt_Suc)
  next
    case (Suc m)
    have "0 \<le> r" using Cons.prems(2) Suc by force
    moreover have "\<forall>j < m. 0 \<le> rs ! j" using Cons.prems(2) Suc by fastforce
    ultimately show ?thesis using Cons.IH [of m "n + 72"] Cons.prems(1) Suc
      by (simp add: line ac_simps del: upt_Suc)
  qed
qed simp

text \<open>
  CHARGEN is one endless run through the 95 printable characters cut into lines of 72: the
  character at place i of line k, for as many lines as the peer takes, is the (72 k + i)-th of the
  run, and every line ends with CR and LF.
\<close>

theorem chargen_pattern:
  assumes "k < length rs" and "\<forall>j < k. 0 \<le> rs ! j" and "i < 72"
  shows "TCPchargend rs ! k ! i = char_of (32 + (72 * k + i) mod 95) \<and> drop 72 (TCPchargend rs ! k) = crlf
    \<and> length (TCPchargend rs ! k) = 74"
proof -
  have "printable 0 = 32" by (simp add: printable_def)
  then have "TCPchargend rs ! k = map (\<lambda>j. char_of (printable (72 * k + j))) [0..<72] @ crlf"
    using chargen_loop_lines [OF assms(1,2), of 0] by (simp add: TCPchargend_def del: upt_Suc)
  then show ?thesis using assms(3) by (simp add: nth_append printable_def del: upt_Suc)
qed

theorem chargen_pattern_witness:
  "TCPchargend [74, 74, - 1] ! 1 ! 29 = CHR ''&''"
proof -
  have "TCPchargend [74, 74, - 1] ! 1 ! 29 = char_of (38 :: nat)"
    using chargen_pattern [of 1 "[74, 74, - 1]" 29] by simp
  then show ?thesis by (simp add: char_of_def bit_0)
qed

subsection \<open>TIME\<close>

definition unix_epoch :: int where "unix_epoch = 2208988800"

text \<open>
  The servers store \<open>htonl\<close> of the time, a 32-bit value, in a 64-bit \<open>time_t\<close> and send the whole
  of it: on a little-endian machine the four bytes of the protocol and four zero bytes.
\<close>

definition time_reply :: "int \<Rightarrow> bytes" where
  "time_reply now = be_bytes (word_of_int (now + unix_epoch)) @ replicate 4 CHR 0x00"

definition sv_TCPtimed :: "int \<Rightarrow> conn \<Rightarrow> conn" where
  "sv_TCPtimed now c = snd (sys_send (time_reply now) c)"

definition TCPtimed :: "int \<Rightarrow> conn \<Rightarrow> conn" where
  "TCPtimed now c = snd (sys_send (time_reply now) c)"

text \<open>The loop of UDPtimed.cpp: the senders of the requests, \<open>None\<close> for an error, with the clock at each.\<close>

fun UDPtimed_loop :: "(sock_address \<times> int) option list \<Rightarrow> (bytes \<times> sock_address) list \<Rightarrow> bytes option \<times> (bytes \<times> sock_address) list" where
  "UDPtimed_loop [] out = (None, out)"
| "UDPtimed_loop (None # evs) out = (Some ''recvfrom'', out)"
| "UDPtimed_loop (Some (fsin, now) # evs) out = UDPtimed_loop evs (out @ [(time_reply now, fsin)])"

text \<open>
  The clients read into an uninitialised \<open>time_t\<close>, whose eight bytes \<open>junk\<close> stay behind what is
  read; the first four are taken as the time.
\<close>

definition time_value :: "bytes \<Rightarrow> bytes \<Rightarrow> int" where
  "time_value junk got =
     (let mem = got @ drop (length got) junk in uint (be_word (take 4 mem)) - unix_epoch)"

definition TCPtime :: "bytes \<Rightarrow> conn \<Rightarrow> int exits \<times> conn" where
  "TCPtime junk c =
     (case sys_recv 8 c of
        (None, c1) \<Rightarrow> (Inl ''read failed'', c1) | (Some got, c1) \<Rightarrow> (Inr (time_value junk got), c1))"

definition UDPtime :: "bytes \<Rightarrow> bytes option \<Rightarrow> bytes \<times> int exits" where
  "UDPtime junk reply =
     (''what time is it?'' @ [NL],
      case reply of None \<Rightarrow> Inl ''read failed'' | Some d \<Rightarrow> Inr (time_value junk (take 8 d)))"

lemma time_value_reply:
  "time_value junk (be_bytes (word_of_int (now + unix_epoch)) @ xs) = (now + unix_epoch) mod 2 ^ 32 - unix_epoch"
proof -
  have u: "uint (word_of_int x :: u32) = x mod 2 ^ 32" for x
    by (simp add: unsigned_of_int take_bit_eq_mod)
  have v: "time_value junk (be_bytes w @ xs) = uint w - unix_epoch" for w
    by (simp add: time_value_def)
  show ?thesis unfolding v u ..
qed

text \<open>
  the TIME client reads the clock of the TIME server when the reply arrives in one piece, be it
  the eight bytes these servers send or the four of the protocol, until the 32 bits of the protocol
  run out in February 2036; from then on it shows a time 2 ^ 32 seconds early.
\<close>

theorem time_round_trip:
  assumes "cn_in c = Arrive d # s" and "d = cn_out (TCPtimed now (conn_of [])) \<or> d = take 4 (cn_out (TCPtimed now (conn_of [])))"
    and "0 \<le> now" and "now < 2 ^ 32"
  shows "fst (TCPtime junk c) = Inr (if now < 2085978496 then now else now - 2 ^ 32)"
proof -
  have out: "cn_out (TCPtimed now (conn_of [])) = be_bytes (word_of_int (now + unix_epoch)) @ replicate 4 CHR 0x00"
    by (simp add: TCPtimed_def sys_send_def time_reply_def)
  obtain xs where d: "d = be_bytes (word_of_int (now + unix_epoch)) @ xs" "length xs \<le> 4"
    using assms(2) unfolding out by (auto intro: that [of "[]"] that [of "replicate 4 CHR 0x00"])
  then have len: "length d \<le> 8" "d \<noteq> []" by (auto simp: be_bytes_def Let_def)
  have "fst (TCPtime junk c) = Inr (time_value junk d)"
    using assms(1) len by (simp add: TCPtime_def sys_recv_def rw_count_def)
  also have "time_value junk d = (now + unix_epoch) mod 2 ^ 32 - unix_epoch" unfolding d(1) by (rule time_value_reply)
  also have "\<dots> = (if now < 2085978496 then now else now - 2 ^ 32)"
  proof (cases "now < 2085978496")
    case True
    then show ?thesis using assms(3) by (simp add: unix_epoch_def)
  next
    case False
    have "(now + unix_epoch) mod 2 ^ 32 = (now + unix_epoch - 2 ^ 32) mod 2 ^ 32" by simp
    also have "\<dots> = now + unix_epoch - 2 ^ 32" using False assms(4) by (intro mod_pos_pos_trivial) (simp_all add: unix_epoch_def)
    finally show ?thesis using False by simp
  qed
  finally show ?thesis .
qed

theorem time_round_trip_witness:
  "fst (TCPtime (replicate 8 CHR ''j'') (conn_of [Arrive (take 4 (cn_out (TCPtimed 1000000000 (conn_of []))))])) = Inr 1000000000"
  using time_round_trip [of "conn_of [Arrive (take 4 (cn_out (TCPtimed 1000000000 (conn_of []))))]" _ "[]" 1000000000] by simp

text \<open>A reply cut inside the four bytes is completed with what the variable held before.\<close>

lemma time_value_cut: "length got < 4 \<Longrightarrow> length junk = 8 \<Longrightarrow>
    time_value junk got = uint (be_word (got @ take (4 - length got) (drop (length got) junk))) - unix_epoch"
  by (simp add: time_value_def)

subsection \<open>DAYTIME\<close>

definition sv_TCPdaytimed :: "(int \<Rightarrow> bytes) \<Rightarrow> int \<Rightarrow> conn \<Rightarrow> sock_exn option \<times> conn" where
  "sv_TCPdaytimed ctime now c =
     (if 72 \<le> length (ctime now) then (Some Heap_overflow, c)
      else (None, snd (sys_send (before CHR 0x00 (ctime now)) c)))"

definition TCPdaytimed :: "(int \<Rightarrow> bytes) \<Rightarrow> int \<Rightarrow> conn \<Rightarrow> conn" where
  "TCPdaytimed ctime now c = snd (sys_send (before CHR 0x00 (ctime now)) c)"

text \<open>
  The loop of daytimed.cpp, which serves both protocols: what \<open>select\<close> reports at the two sockets,
  a connection or a datagram, \<open>None\<close> inside for an error; and what is sent, the connections closed.
\<close>

definition daytime :: "(int \<Rightarrow> bytes) \<Rightarrow> int \<Rightarrow> bytes" where
  "daytime ctime now = before CHR 0x00 (ctime now)"

definition daytimed_turn ::
  "(int \<Rightarrow> bytes) \<Rightarrow> int \<Rightarrow> conn option option \<Rightarrow> sock_address option option
    \<Rightarrow> bytes option \<times> conn list \<times> (bytes \<times> sock_address) list" where
  "daytimed_turn ctime now tcp udp =
     (case tcp of
        Some None \<Rightarrow> (Some ''accept failed'', [], [])
      | _ \<Rightarrow>
        let closed = (case tcp of Some (Some c) \<Rightarrow> [snd (sys_send (daytime ctime now) c)] | _ \<Rightarrow> []) in
        (case udp of
           None \<Rightarrow> (None, closed, [])
         | Some None \<Rightarrow> (Some ''recvfrom'', closed, [])
         | Some (Some fsin) \<Rightarrow> (None, closed, [(daytime ctime now, fsin)])))"

fun UDPdaytimed_loop ::
  "(int \<Rightarrow> bytes) \<Rightarrow> (sock_address \<times> int) option list \<Rightarrow> (bytes \<times> sock_address) list
    \<Rightarrow> bytes option \<times> (bytes \<times> sock_address) list" where
  "UDPdaytimed_loop ctime [] out = (None, out)"
| "UDPdaytimed_loop ctime (None # evs) out = (Some ''recvfrom'', out)"
| "UDPdaytimed_loop ctime (Some (fsin, now) # evs) out =
     UDPdaytimed_loop ctime evs (out @ [(before CHR 0x00 (ctime now), fsin)])"

text \<open>TCPdaytime.cpp prints each block up to its first NUL; an error ends the loop like the end of file.\<close>

function TCPdaytime_loop :: "bytes \<Rightarrow> conn \<Rightarrow> bytes" where
  "TCPdaytime_loop out c =
     (case sys_recv 128 c of
        (None, c1) \<Rightarrow> out
      | (Some got, c1) \<Rightarrow> if got = [] then out else TCPdaytime_loop (out @ before CHR 0x00 got) c1)"
  by pat_completeness auto
termination
  by (relation "measure (\<lambda>(_, c). net_size (cn_in c))") (auto intro: sys_recv_shrinks [OF sym])

declare TCPdaytime_loop.simps [simp del]

definition TCPdaytime :: "conn \<Rightarrow> bytes" where
  "TCPdaytime c = TCPdaytime_loop [] c"

text \<open>UDPdaytime.cpp: 64 bytes of room, and a terminator stored behind what was read.\<close>

definition UDPdaytime :: "bytes option \<Rightarrow> sock_exn + bytes exits" where
  "UDPdaytime reply =
     (case reply of
        None \<Rightarrow> Inr (Inl ''read failed'')
      | Some d \<Rightarrow>
          let n = length (take 64 d)
          in if 64 \<le> n then Inl Heap_overflow else Inr (Inr (before CHR 0x00 (take 64 d))))"

lemma TCPdaytime_prints:
  assumes "no_fail (cn_in c)" and "CHR 0x00 \<notin> set (net_data (cn_in c))"
  shows "TCPdaytime_loop out c = out @ net_data (cn_in c)"
  using assms
proof (induction out c rule: TCPdaytime_loop.induct)
  case (1 out c)
  from sys_recv_quiet [OF "1.prems"(1), of 128] obtain got s where
    r: "sys_recv 128 c = (Some got, c\<lparr>cn_in := s\<rparr>)" and d: "got @ net_data s = net_data (cn_in c)" "no_fail s"
      "got = [] \<longleftrightarrow> net_data (cn_in c) = []" by auto
  have z: "CHR 0x00 \<notin> set got" "CHR 0x00 \<notin> set (net_data s)" using "1.prems"(2) unfolding d(1) [symmetric] by auto
  show ?case
  proof (cases "got = []")
    case True
    with r d show ?thesis by (subst TCPdaytime_loop.simps) simp
  next
    case False
    have "TCPdaytime_loop (out @ before CHR 0x00 got) (c\<lparr>cn_in := s\<rparr>) = (out @ before CHR 0x00 got) @ net_data (cn_in (c\<lparr>cn_in := s\<rparr>))"
      by (rule "1.IH" [OF r [symmetric] refl False]) (use z d(2) in simp_all)
    then show ?thesis using False r z(1) unfolding d(1) [symmetric] by (subst TCPdaytime_loop.simps) simp
  qed
qed

lemma daytime_end_to_end:
  assumes "CHR 0x00 \<notin> set (ctime now)" and "no_fail s" and "net_data s = cn_out (TCPdaytimed ctime now (conn_of []))"
  shows "TCPdaytime (conn_of s) = ctime now"
  using TCPdaytime_prints [of "conn_of s" "[]"] assms by (simp add: TCPdaytime_def TCPdaytimed_def sys_send_def)

lemma UDPdaytime_overflow: "64 \<le> length d \<Longrightarrow> UDPdaytime (Some d) = Inl Heap_overflow"
  by (simp add: UDPdaytime_def)

end
