(* ===== verification/Unix_Select.thy ===== *)
theory Unix_Select
  imports Unix_Services
begin

text \<open>
  The two \<open>select\<close> programs of Internetworking.With.TCP.IP/linux/examples: the super-server superd.cpp,
  with the processes it forks, and the timing client TCPtecho.cpp with its counters.
\<close>

subsection \<open>superd\<close>

datatype sv_func = Sv_echo | Sv_chargen | Sv_daytime | Sv_time

record service_entry =
  sv_name :: bytes
  sv_useTCP :: bool
  sv_sock :: int
  sv_fun :: sv_func

definition svent :: "service_entry list" where
  "svent =
     [\<lparr>sv_name = ''echo'', sv_useTCP = True, sv_sock = - 1, sv_fun = Sv_echo\<rparr>,
      \<lparr>sv_name = ''chargen'', sv_useTCP = True, sv_sock = - 1, sv_fun = Sv_chargen\<rparr>,
      \<lparr>sv_name = ''daytime'', sv_useTCP = True, sv_sock = - 1, sv_fun = Sv_daytime\<rparr>,
      \<lparr>sv_name = ''time'', sv_useTCP = True, sv_sock = - 1, sv_fun = Sv_time\<rparr>]"

text \<open>The first loop of \<open>main\<close>: a socket for each service; \<open>nfds\<close> is one more than the largest.\<close>

fun superd_open ::
  "netdb \<Rightarrow> 16 word \<Rightarrow> service_entry list \<Rightarrow> service_entry list \<Rightarrow> int \<Rightarrow> os \<Rightarrow> (service_entry list \<times> int) exits \<times> os" where
  "superd_open db portbase [] opened nfds k = (Inr (opened, nfds), k)"
| "superd_open db portbase (sv # svs) opened nfds k =
     (case (if sv_useTCP sv then passiveTCP db portbase (sv_name sv) k else passiveUDP db portbase (sv_name sv) k) of
        (Inl m, k1) \<Rightarrow> (Inl m, k1)
      | (Inr s, k1) \<Rightarrow> superd_open db portbase svs (opened @ [sv\<lparr>sv_sock := s\<rparr>]) (max (s + 1) nfds) k1)"

text \<open>\<open>fd2sv\<close>: the entry stored last for the descriptor.\<close>

definition fd2sv :: "service_entry list \<Rightarrow> int \<Rightarrow> service_entry option" where
  "fd2sv opened fd = find (\<lambda>sv. sv_sock sv = fd) (rev opened)"

text \<open>The child closes every descriptor from \<open>NOFILE\<close>, which is 256, down to 0, except its socket.\<close>

definition close_all_but :: "int \<Rightarrow> os \<Rightarrow> os" where
  "close_all_but ssock k = fold (\<lambda>fd k. if fd \<noteq> ssock then sys_close fd k else k) (rev (map int [0..<257])) k"

record child =
  ch_func :: sv_func
  ch_sock :: int
  ch_os :: os

text \<open>\<open>doTCP\<close>; \<open>forks\<close> says whether \<open>fork\<close> succeeds.\<close>

definition doTCP :: "service_entry \<Rightarrow> bool \<Rightarrow> os \<Rightarrow> child exits \<times> os" where
  "doTCP psv forks k =
     (case sys_socket Inet Stream_type k of
        (ssock, k1) \<Rightarrow>
          if ssock < 0 then (Inl ''accept'', k1)
          else if \<not> forks then (Inl ''fork'', k1)
          else (Inr \<lparr>ch_func = sv_fun psv, ch_sock = ssock, ch_os = close_all_but ssock k1\<rparr>, sys_close ssock k1))"

text \<open>
  The scan after \<open>select\<close> over the descriptors 0 to nfds - 1: the children that TCP services start,
  in order, and the datagram services called in the process itself.
\<close>

fun superd_scan ::
  "service_entry list \<Rightarrow> (int \<Rightarrow> bool) \<Rightarrow> int list \<Rightarrow> child list \<Rightarrow> os \<Rightarrow> bytes option \<times> child list \<times> os" where
  "superd_scan opened rfds [] children k = (None, children, k)"
| "superd_scan opened rfds (fd # fds) children k =
     (if rfds fd then
        (case fd2sv opened fd of
           Some psv \<Rightarrow>
             if sv_useTCP psv then
               (case doTCP psv True k of
                  (Inl m, k1) \<Rightarrow> (Some m, children, k1)
                | (Inr c, k1) \<Rightarrow> superd_scan opened rfds fds (children @ [c]) k1)
             else superd_scan opened rfds fds (children @ [\<lparr>ch_func = sv_fun psv, ch_sock = sv_sock psv, ch_os = k\<rparr>]) k
         | None \<Rightarrow> (Some ''no service'', children, k))
      else superd_scan opened rfds fds children k)"

definition superd_turn ::
  "service_entry list \<Rightarrow> int \<Rightarrow> (int \<Rightarrow> bool) \<Rightarrow> os \<Rightarrow> bytes option \<times> child list \<times> os" where
  "superd_turn opened nfds rfds k = superd_scan opened rfds (map int [0..<nat nfds]) [] k"

lemma close_fold_fds:
  "os_fds (fold (\<lambda>fd k. if fd \<noteq> ssock then sys_close fd k else k) fds k)
     = (\<lambda>fd. if fd \<in> set fds \<and> fd \<noteq> ssock then None else os_fds k fd)"
  by (induction fds arbitrary: k) (auto simp: fun_eq_iff)

lemma close_all_but_fds:
  "os_fds (close_all_but ssock k) = (\<lambda>fd. if 0 \<le> fd \<and> fd \<le> 256 \<and> fd \<noteq> ssock then None else os_fds k fd)"
proof -
  have "fd \<in> set (rev (map int [0..<257])) \<longleftrightarrow> 0 \<le> fd \<and> fd \<le> 256" for fd
  proof
    assume "0 \<le> fd \<and> fd \<le> 256"
    then have "fd = int (nat fd)" "nat fd \<in> {0..<257}" by auto
    then show "fd \<in> set (rev (map int [0..<257]))" by (metis atLeast_upt image_eqI set_map set_rev atLeastLessThan_upt)
  qed (auto simp del: upt_Suc)
  then show ?thesis unfolding close_all_but_def close_fold_fds by (simp add: fun_eq_iff del: upt_Suc set_rev set_map)
qed

text \<open>
  forking leaves no descriptor behind: after \<open>doTCP\<close> the super-server has exactly the descriptors
  it had, and the child, when the process uses no descriptor above 256, has only the connection, on
  which it runs the function of the service.
\<close>

theorem superd_fork_descriptors:
  assumes "os_ok k" and "\<forall>fd \<in> dom (os_fds k). fd \<le> 256" and "os_next k \<le> 256"
    and "doTCP psv forks k = (Inr c, k')"
  shows "os_fds k' = os_fds k \<and> dom (os_fds (ch_os c)) = {ch_sock c} \<and> ch_sock c \<notin> dom (os_fds k) \<and> ch_func c = sv_fun psv"
proof -
  obtain ssock k1 where s: "sys_socket Inet Stream_type k = (ssock, k1)" by force
  have run: "\<not> ssock < 0" "c = \<lparr>ch_func = sv_fun psv, ch_sock = ssock, ch_os = close_all_but ssock k1\<rparr>" "k' = sys_close ssock k1"
    using assms(4) s by (auto simp: doTCP_def split: if_splits)
  show ?thesis
  proof (rule sys_socket_cases [OF s assms(1)])
    assume m: "ssock \<ge> 0" "os_fds k ssock = None" "os_fds k1 = (os_fds k)(ssock \<mapsto> fresh_desc Inet Stream_type)" "os_ok k1"
    have "0 \<le> fd \<and> fd \<le> 256" if "fd \<in> dom (os_fds k)" for fd
      using that assms(1,2) by (auto simp: os_ok_def)
    then have "dom (os_fds (close_all_but ssock k1)) = {ssock}"
      using m by (auto simp: close_all_but_fds dom_def split: if_splits)
    with run m show ?thesis by (auto simp: fun_upd_idem)
  qed (use run in simp)
qed

theorem superd_fork_descriptors_witness:
  "\<exists>c k'. doTCP (svent ! 3) True \<lparr>os_fds = [3 \<mapsto> fresh_desc Inet Stream_type], os_next = 4, os_calls = []\<rparr> = (Inr c, k')
    \<and> dom (os_fds k') = {3} \<and> dom (os_fds (ch_os c)) = {ch_sock c} \<and> ch_func c = Sv_time"
proof -
  let ?k = "\<lparr>os_fds = [3 \<mapsto> fresh_desc Inet Stream_type], os_next = 4, os_calls = []\<rparr>"
  obtain c k' where d: "doTCP (svent ! 3) True ?k = (Inr c, k')"
    by (simp add: doTCP_def sys_quiet)
  have "os_ok ?k" "\<forall>fd \<in> dom (os_fds ?k). fd \<le> 256" "os_next ?k \<le> 256" by (auto simp: os_ok_def)
  from superd_fork_descriptors [OF this d] d show ?thesis by (auto simp: svent_def)
qed

text \<open>Each ready service is served once, by a child running its own function.\<close>

lemma superd_scan_children:
  assumes "os_calls k = []" and "os_ok k" and "\<forall>fd \<in> set fds. rfds fd \<longrightarrow> (\<exists>sv. fd2sv opened fd = Some sv \<and> sv_useTCP sv)"
  shows "\<exists>cs k'. superd_scan opened rfds fds children k = (None, children @ cs, k') \<and> os_fds k' = os_fds k
    \<and> map ch_func cs = map (\<lambda>fd. sv_fun (the (fd2sv opened fd))) (filter rfds fds)"
  using assms
proof (induction fds arbitrary: children k)
  case (Cons fd fds)
  show ?case
  proof (cases "rfds fd")
    case False
    with Cons show ?thesis by simp
  next
    case True
    then obtain sv where sv: "fd2sv opened fd = Some sv" "sv_useTCP sv" using Cons.prems(3) by auto
    let ?k1 = "k\<lparr>os_fds := (os_fds k)(os_next k \<mapsto> fresh_desc Inet Stream_type), os_next := os_next k + 1\<rparr>"
    let ?c = "\<lparr>ch_func = sv_fun sv, ch_sock = os_next k, ch_os = close_all_but (os_next k) ?k1\<rparr>"
    have n: "0 \<le> os_next k" "os_fds k (os_next k) = None"
      using Cons.prems(2) by (auto simp: os_ok_def)
    have d: "doTCP sv True k = (Inr ?c, sys_close (os_next k) ?k1)"
      using Cons.prems(1) n(1) by (simp add: doTCP_def sys_quiet)
    have fds: "os_fds (sys_close (os_next k) ?k1) = os_fds k" using n(2) by (simp add: fun_upd_idem)
    have "os_calls (sys_close (os_next k) ?k1) = []" "os_ok (sys_close (os_next k) ?k1)"
      using Cons.prems(1,2) fds by (auto simp: os_ok_def sys_close_def)
    moreover have "\<forall>fd \<in> set fds. rfds fd \<longrightarrow> (\<exists>sv. fd2sv opened fd = Some sv \<and> sv_useTCP sv)"
      using Cons.prems(3) by simp
    ultimately obtain cs k' where
      rec: "superd_scan opened rfds fds (children @ [?c]) (sys_close (os_next k) ?k1) = (None, (children @ [?c]) @ cs, k')"
        "os_fds k' = os_fds (sys_close (os_next k) ?k1)"
        "map ch_func cs = map (\<lambda>fd. sv_fun (the (fd2sv opened fd))) (filter rfds fds)"
      using Cons.IH [of "sys_close (os_next k) ?k1" "children @ [?c]"] by blast
    have "os_fds k' = os_fds k" using rec(2) fds by (rule trans)
    moreover have "superd_scan opened rfds (fd # fds) children k = (None, children @ ?c # cs, k')"
      using True sv d rec(1) by simp
    ultimately show ?thesis using True sv(1) rec(3) by (intro exI [of _ "?c # cs"] exI [of _ k']) simp
  qed
qed simp


subsection \<open>TCPtecho\<close>

text \<open>
  A host: its counters \<open>rc\<close> and \<open>wc\<close>, whether it is still in the sets \<open>rcfds\<close> and \<open>wcfds\<close>, and the
  connection. \<open>te_hcount\<close> counts the hosts that have not echoed everything yet.
\<close>

record te_host =
  te_rc :: int
  te_wc :: int
  te_rd :: bool
  te_wr :: bool
  te_conn :: conn

record techo =
  te_hosts :: "te_host list"
  te_hcount :: int

definition techo_new :: "int \<Rightarrow> net list \<Rightarrow> techo" where
  "techo_new ccount nets =
     \<lparr>te_hosts = map (\<lambda>s. \<lparr>te_rc = ccount, te_wc = ccount, te_rd = True, te_wr = True, te_conn = conn_of s\<rparr>) nets,
      te_hcount = int (length nets)\<rparr>"

text \<open>\<open>reader\<close>: 1 while something is missing, 0 when the last byte has come.\<close>

definition te_reader :: "te_host \<Rightarrow> nat exits \<times> te_host" where
  "te_reader h =
     (case sys_recv 4096 (te_conn h) of
        (None, c1) \<Rightarrow> (Inl ''read'', h\<lparr>te_conn := c1\<rparr>)
      | (Some got, c1) \<Rightarrow>
          if got = [] then (Inl ''read: premature end of file'', h\<lparr>te_conn := c1\<rparr>)
          else
            let rc1 = te_rc h - int (length got); h1 = h\<lparr>te_rc := rc1, te_conn := c1\<rparr> in
            if rc1 \<noteq> 0 then (Inr 1, h1) else (Inr 0, h1\<lparr>te_rd := False\<rparr>))"

definition te_writer :: "te_host \<Rightarrow> unit exits \<times> te_host" where
  "te_writer h =
     (case sys_send (replicate (nat (min 4096 (te_wc h))) CHR ''D'') (te_conn h) of
        (cc, c1) \<Rightarrow>
          if cc < 0 then (Inl ''read'', h\<lparr>te_conn := c1\<rparr>)
          else
            let wc1 = te_wc h - cc; h1 = h\<lparr>te_wc := wc1, te_conn := c1\<rparr> in
            (Inr (), if wc1 = 0 then h1\<lparr>te_wr := False\<rparr> else h1))"

text \<open>The work on one host in a turn; \<open>r\<close> and \<open>w\<close> say what \<open>select\<close> reported for it.\<close>

definition te_serve :: "bool \<Rightarrow> bool \<Rightarrow> te_host \<Rightarrow> int \<Rightarrow> (te_host \<times> int) exits" where
  "te_serve r w h hcount =
     (case (if r then te_reader h else (Inr 1, h)) of
        (Inl m, h1) \<Rightarrow> Inl m
      | (Inr n, h1) \<Rightarrow>
          let hcount1 = (if n = 0 then hcount - 1 else hcount) in
          if w then (case te_writer h1 of (Inl m, h2) \<Rightarrow> Inl m | (Inr u, h2) \<Rightarrow> Inr (h2, hcount1))
          else Inr (h1, hcount1))"

inductive techo_step :: "techo \<Rightarrow> techo \<Rightarrow> bool" where
  Techo_serve: "i < length (te_hosts s) \<Longrightarrow> te_hosts s ! i = h \<Longrightarrow> (r \<longrightarrow> te_rd h) \<Longrightarrow> (w \<longrightarrow> te_wr h) \<Longrightarrow>
    te_serve r w h (te_hcount s) = Inr (h1, hc) \<Longrightarrow>
    techo_step s \<lparr>te_hosts = (te_hosts s)[i := h1], te_hcount = hc\<rparr>"
| Techo_arrival: "i < length (te_hosts s) \<Longrightarrow> te_hosts s ! i = h \<Longrightarrow>
    techo_step s (s\<lparr>te_hosts := (te_hosts s)[i := h\<lparr>te_conn := (te_conn h)\<lparr>cn_in := cn_in (te_conn h) @ [e]\<rparr>\<rparr>]\<rparr>)"

inductive_cases techo_stepE: "techo_step s t"

definition te_host_ok :: "int \<Rightarrow> te_host \<Rightarrow> bool" where
  "te_host_ok ccount h \<longleftrightarrow> int (length (cn_out (te_conn h))) + te_wc h = ccount \<and> 0 \<le> te_wc h
     \<and> (te_wr h \<longleftrightarrow> te_wc h \<noteq> 0) \<and> (te_rd h \<longleftrightarrow> te_rc h \<noteq> 0)"

definition techo_ok :: "int \<Rightarrow> techo \<Rightarrow> bool" where
  "techo_ok ccount s \<longleftrightarrow> (\<forall>h \<in> set (te_hosts s). te_host_ok ccount h)
     \<and> te_hcount s = int (length (filter te_rd (te_hosts s)))"

lemma sys_recv_out: "sys_recv n c = (r, c1) \<Longrightarrow> cn_out c1 = cn_out c"
  by (auto simp: sys_recv_def split: prod.splits)

lemma sys_send_out:
  "sys_send bs c = (cc, c1) \<Longrightarrow> 0 \<le> cc \<Longrightarrow> int (length (cn_out c1)) = int (length (cn_out c)) + cc \<and> cc \<le> int (length bs)"
  by (auto simp: sys_send_def split: list.splits if_splits)

lemma te_reader_ok:
  assumes "te_reader h = (Inr n, h1)" and "te_host_ok ccount h" and "te_rd h"
  shows "te_host_ok ccount h1 \<and> (n = 0 \<longleftrightarrow> \<not> te_rd h1) \<and> te_wr h1 = te_wr h"
proof -
  obtain r c1 where r: "sys_recv 4096 (te_conn h) = (r, c1)" by force
  note sys_recv_out [OF r]
  with assms r show ?thesis
    by (auto simp: te_reader_def te_host_ok_def Let_def split: option.splits if_splits)
qed

lemma te_writer_ok:
  assumes "te_writer h = (Inr u, h1)" and "te_host_ok ccount h" and "te_wr h"
  shows "te_host_ok ccount h1 \<and> te_rd h1 = te_rd h"
proof -
  obtain cc c1 where w: "sys_send (replicate (nat (min 4096 (te_wc h))) CHR ''D'') (te_conn h) = (cc, c1)" by force
  have "0 \<le> cc" using assms(1) w by (simp add: te_writer_def Let_def split: if_splits)
  from sys_send_out [OF w this] assms w show ?thesis
    by (auto simp: te_writer_def te_host_ok_def Let_def split: if_splits)
qed

lemma te_serve_ok:
  assumes "te_serve r w h hc = Inr (h1, hc1)" and "te_host_ok ccount h" and "r \<longrightarrow> te_rd h" and "w \<longrightarrow> te_wr h"
  shows "te_host_ok ccount h1 \<and> hc1 = hc - (if te_rd h \<and> \<not> te_rd h1 then 1 else 0) \<and> (te_rd h1 \<longrightarrow> te_rd h)"
proof -
  obtain x hm where m: "(if r then te_reader h else (Inr 1, h)) = (x, hm)" by force
  then obtain n where n: "x = Inr n" using assms(1) by (cases x) (simp_all add: te_serve_def)
  have hm: "te_host_ok ccount hm" "(n = 0) = (te_rd h \<and> \<not> te_rd hm)" "te_wr hm = te_wr h" "te_rd hm \<longrightarrow> te_rd h"
    using m n assms(2,3) te_reader_ok [of h n hm ccount] by (auto split: if_splits)
  show ?thesis
  proof (cases w)
    case True
    obtain y h2 where y: "te_writer hm = (y, h2)" by force
    then have "y = Inr ()" "h2 = h1" "hc1 = (if n = 0 then hc - 1 else hc)"
      using assms(1) m n True by (cases y; simp add: te_serve_def)+
    with te_writer_ok [of hm "()" h1 ccount] y hm True assms(4) show ?thesis by auto
  next
    case False
    with assms(1) m n hm show ?thesis by (auto simp: te_serve_def)
  qed
qed

lemma filter_update_length:
  "i < length xs \<Longrightarrow> length (filter P (xs[i := x])) + (if P (xs ! i) then 1 else 0)
    = length (filter P xs) + (if P x then 1 else 0)"
proof (induction xs arbitrary: i)
  case (Cons y ys)
  then show ?case by (cases i) auto
qed simp

lemma filter_update_count:
  "i < length xs \<Longrightarrow> int (length (filter P (xs[i := x])))
    = int (length (filter P xs)) + (if P x then 1 else 0) - (if P (xs ! i) then 1 else 0)"
  using filter_update_length [of i xs P x] by (auto split: if_splits)

lemma techo_step_ok:
  assumes "techo_step s t" and "techo_ok ccount s"
  shows "techo_ok ccount t"
  using assms(1)
proof (cases rule: techo_step.cases)
  case (Techo_serve i h r w h1 hc)
  have h: "te_host_ok ccount h" using assms(2) Techo_serve nth_mem [of i "te_hosts s"] by (auto simp: techo_ok_def)
  note ok = te_serve_ok [OF Techo_serve(6) h Techo_serve(4,5)]
  have "\<forall>x \<in> set ((te_hosts s)[i := h1]). te_host_ok ccount x"
    using ok assms(2) set_update_subset_insert [of "te_hosts s" i h1] by (auto simp: techo_ok_def)
  with ok assms(2) Techo_serve show ?thesis by (auto simp: techo_ok_def filter_update_count)
next
  case (Techo_arrival i h e)
  let ?h = "h\<lparr>te_conn := (te_conn h)\<lparr>cn_in := cn_in (te_conn h) @ [e]\<rparr>\<rparr>"
  have "te_host_ok ccount h" using assms(2) Techo_arrival nth_mem [of i "te_hosts s"] by (auto simp: techo_ok_def)
  then have "te_host_ok ccount ?h" by (simp add: te_host_ok_def)
  then have "\<forall>x \<in> set ((te_hosts s)[i := ?h]). te_host_ok ccount x"
    using assms(2) set_update_subset_insert [of "te_hosts s" i ?h] by (auto simp: techo_ok_def)
  with assms(2) Techo_arrival show ?thesis by (auto simp: techo_ok_def filter_update_count)
qed

text \<open>
  the timing client is exact: in every run, however its writes are cut and its reads arrive, no
  host is sent more than \<open>ccount\<close> bytes, and the loop's count reaches 0 only when each host has
  echoed exactly as many as it was to: then each has also been sent all of them or is still owed some.
\<close>

theorem techo_counts:
  assumes "techo_step\<^sup>*\<^sup>* (techo_new ccount nets) s" and "0 < ccount" and "h \<in> set (te_hosts s)"
  shows "int (length (cn_out (te_conn h))) = ccount - te_wc h \<and> 0 \<le> te_wc h \<and> (te_wr h \<longleftrightarrow> te_wc h \<noteq> 0)
    \<and> 0 \<le> te_hcount s \<and> (te_hcount s = 0 \<longrightarrow> te_rc h = 0)"
proof -
  from assms(1) have "techo_ok ccount s"
  proof (induction rule: rtranclp_induct)
    case base
    show ?case using assms(2) by (auto simp: techo_ok_def techo_new_def te_host_ok_def filter_map comp_def)
  next
    case (step s t)
    then show ?case by (blast intro: techo_step_ok)
  qed
  then show ?thesis using assms(3)
    by (auto simp: techo_ok_def te_host_ok_def filter_empty_conv)
qed

theorem techo_counts_witness:
  "\<exists>s h. techo_step (techo_new 2 [[Arrive ''DD'']]) s \<and> te_hosts s = [h] \<and> te_hcount s = 0 \<and> te_rc h = 0
    \<and> int (length (cn_out (te_conn h))) = 2 - te_wc h"
proof -
  let ?h0 = "\<lparr>te_rc = 2, te_wc = 2, te_rd = True, te_wr = True, te_conn = conn_of [Arrive ''DD'']\<rparr>"
  obtain h1 hc where v: "te_serve True True ?h0 1 = Inr (h1, hc)" and hc: "hc = 0"
    by (simp add: te_serve_def te_reader_def te_writer_def sys_recv_def rw_count_def sys_send_def Let_def)
  have "techo_step (techo_new 2 [[Arrive ''DD'']]) \<lparr>te_hosts = (te_hosts (techo_new 2 [[Arrive ''DD'']]))[0 := h1], te_hcount = hc\<rparr>"
    using v by (intro Techo_serve [where h = ?h0 and r = True and w = True]) (simp_all add: techo_new_def)
  then have s: "techo_step (techo_new 2 [[Arrive ''DD'']]) \<lparr>te_hosts = [h1], te_hcount = 0\<rparr>" by (simp add: techo_new_def hc)
  then have "techo_step\<^sup>*\<^sup>* (techo_new 2 [[Arrive ''DD'']]) \<lparr>te_hosts = [h1], te_hcount = 0\<rparr>" by blast
  from techo_counts [OF this, of h1] s show ?thesis by auto
qed

end
