(* ===== verification/Monitor.thy ===== *)
theory Monitor
  imports Prelude "HOL-Library.Multiset"
begin

text \<open>
  Monitors: the threads that call the operations of an object whose fields are guarded by one
  pthread mutex and that wait on its condition variables. The message queues, the read-write locks
  and the semaphores of UNIX.Network.Programming/unpv22e are written this way.

  An operation is two functions: what it does from the locking of the mutex to its return or its
  first \<open>pthread_cond_wait\<close>, and what it does each time that call returns. Both run without
  interruption, because they run with the mutex held. The arguments of the two are the results of
  \<open>pthread_mutex_lock\<close> and \<open>pthread_cond_wait\<close>. \<open>cleanup\<close> is what a thread that is cancelled in
  \<open>pthread_cond_wait\<close> does with the mutex, which it has locked again by then: \<open>None\<close> when no
  cleanup handler is pushed, so that the thread ends and the mutex stays locked.
\<close>

subsection \<open>Error numbers\<close>

abbreviation (input) ENOENT :: int where "ENOENT \<equiv> 2"
abbreviation (input) ESRCH :: int where "ESRCH \<equiv> 3"
abbreviation (input) EBADF :: int where "EBADF \<equiv> 9"
abbreviation (input) EAGAIN :: int where "EAGAIN \<equiv> 11"
abbreviation (input) ENOMEM :: int where "ENOMEM \<equiv> 12"
abbreviation (input) EBUSY :: int where "EBUSY \<equiv> 16"
abbreviation (input) EEXIST :: int where "EEXIST \<equiv> 17"
abbreviation (input) EINVAL :: int where "EINVAL \<equiv> 22"
abbreviation (input) EMSGSIZE :: int where "EMSGSIZE \<equiv> 90"
abbreviation (input) ETIMEDOUT :: int where "ETIMEDOUT \<equiv> 110"


subsection \<open>Steps\<close>

datatype 'v wake = Signal 'v | Broadcast 'v

datatype ('r, 's, 'v) outcome =
    Return 'r 's "'v wake list"  \<comment> \<open>unlocks the mutex and returns, having waked these\<close>
  | Block 's                     \<comment> \<open>waits on its condition variable\<close>
  | Die                          \<comment> \<open>\<open>err_dump\<close>: the process ends\<close>
  | Spin                         \<comment> \<open>loops for ever with the mutex locked\<close>

record ('s, 'c, 'r) monitor =
  mn_state :: 's
  mn_sleep :: "'c multiset"       \<comment> \<open>in \<open>pthread_cond_wait\<close>\<close>
  mn_woken :: "'c multiset"       \<comment> \<open>waked, wanting the mutex\<close>
  mn_cancelled :: "'c multiset"   \<comment> \<open>cancelled, wanting the mutex to clean up\<close>
  mn_log :: "('c \<times> 'r) list"      \<comment> \<open>the calls that have returned, in order\<close>
  mn_stuck :: bool                \<comment> \<open>the mutex is locked for ever\<close>

definition monitor_new :: "'s \<Rightarrow> ('s, 'c, 'r) monitor" where
  "monitor_new s = \<lparr>mn_state = s, mn_sleep = {#}, mn_woken = {#}, mn_cancelled = {#}, mn_log = [], mn_stuck = False\<rparr>"

text \<open>The effect of the signals of an operation on the sleeping and the woken.\<close>

inductive wakes :: "('c \<Rightarrow> 'v) \<Rightarrow> 'v wake list \<Rightarrow> 'c multiset \<Rightarrow> 'c multiset \<Rightarrow> 'c multiset \<Rightarrow> 'c multiset \<Rightarrow> bool"
  for cv :: "'c \<Rightarrow> 'v" where
  no_wake: "wakes cv [] sl wk sl wk"
| wake_one: "cv c = v \<Longrightarrow> wakes cv ws sl (add_mset c wk) sl' wk' \<Longrightarrow> wakes cv (Signal v # ws) (add_mset c sl) wk sl' wk'"
| wake_nobody: "\<forall>c \<in># sl. cv c \<noteq> v \<Longrightarrow> wakes cv ws sl wk sl' wk' \<Longrightarrow> wakes cv (Signal v # ws) sl wk sl' wk'"
| wake_all: "wakes cv ws (filter_mset (\<lambda>c. cv c \<noteq> v) sl) (wk + filter_mset (\<lambda>c. cv c = v) sl) sl' wk'
    \<Longrightarrow> wakes cv (Broadcast v # ws) sl wk sl' wk'"

inductive_simps wakes_nil [simp]: "wakes cv [] sl wk sl' wk'"
inductive_cases wakes_signalE: "wakes cv (Signal v # ws) sl wk sl' wk'"
inductive_cases wakes_broadcastE: "wakes cv (Broadcast v # ws) sl wk sl' wk'"

text \<open>
  A step of the monitor. \<open>E\<close> holds of the results that the pthread functions may give and \<open>C\<close> says
  whether threads are cancelled. A thread may wake without a signal.
\<close>

inductive mon_step :: "('c \<Rightarrow> 'v) \<Rightarrow> (int \<Rightarrow> 'c \<Rightarrow> 's \<Rightarrow> ('r, 's, 'v) outcome) \<Rightarrow> (int \<Rightarrow> 'c \<Rightarrow> 's \<Rightarrow> ('r, 's, 'v) outcome)
    \<Rightarrow> ('c \<Rightarrow> 's \<Rightarrow> 's option) \<Rightarrow> (int \<Rightarrow> bool) \<Rightarrow> bool
    \<Rightarrow> ('s, 'c, 'r) monitor \<Rightarrow> ('s, 'c, 'r) monitor \<Rightarrow> bool"
  for cv enter resume cleanup E C where
  mon_return: "\<lbrakk>\<not> mn_stuck m; E n; enter n c (mn_state m) = Return r s ws;
      wakes cv ws (mn_sleep m) (mn_woken m) sl wk\<rbrakk>
    \<Longrightarrow> mon_step cv enter resume cleanup E C m
        (m\<lparr>mn_state := s, mn_sleep := sl, mn_woken := wk, mn_log := mn_log m @ [(c, r)]\<rparr>)"
| mon_block: "\<lbrakk>\<not> mn_stuck m; E n; enter n c (mn_state m) = Block s\<rbrakk>
    \<Longrightarrow> mon_step cv enter resume cleanup E C m (m\<lparr>mn_state := s, mn_sleep := add_mset c (mn_sleep m)\<rparr>)"
| mon_resume: "\<lbrakk>\<not> mn_stuck m; E n; mn_woken m = add_mset c wk0; resume n c (mn_state m) = Return r s ws;
      wakes cv ws (mn_sleep m) wk0 sl wk\<rbrakk>
    \<Longrightarrow> mon_step cv enter resume cleanup E C m
        (m\<lparr>mn_state := s, mn_sleep := sl, mn_woken := wk, mn_log := mn_log m @ [(c, r)]\<rparr>)"
| mon_sleep_again: "\<lbrakk>\<not> mn_stuck m; E n; mn_woken m = add_mset c wk0; resume n c (mn_state m) = Block s\<rbrakk>
    \<Longrightarrow> mon_step cv enter resume cleanup E C m
        (m\<lparr>mn_state := s, mn_sleep := add_mset c (mn_sleep m), mn_woken := wk0\<rparr>)"
| mon_spurious: "mn_sleep m = add_mset c sl
    \<Longrightarrow> mon_step cv enter resume cleanup E C m (m\<lparr>mn_sleep := sl, mn_woken := add_mset c (mn_woken m)\<rparr>)"
| mon_cancel: "\<lbrakk>C; mn_sleep m = add_mset c sl\<rbrakk>
    \<Longrightarrow> mon_step cv enter resume cleanup E C m (m\<lparr>mn_sleep := sl, mn_cancelled := add_mset c (mn_cancelled m)\<rparr>)"
| mon_cleanup: "\<lbrakk>\<not> mn_stuck m; mn_cancelled m = add_mset c cn; cleanup c (mn_state m) = Some s\<rbrakk>
    \<Longrightarrow> mon_step cv enter resume cleanup E C m (m\<lparr>mn_state := s, mn_cancelled := cn\<rparr>)"
| mon_no_cleanup: "\<lbrakk>\<not> mn_stuck m; mn_cancelled m = add_mset c cn; cleanup c (mn_state m) = None\<rbrakk>
    \<Longrightarrow> mon_step cv enter resume cleanup E C m (m\<lparr>mn_cancelled := cn, mn_stuck := True\<rparr>)"

text \<open>The states the threads can bring a monitor to.\<close>

abbreviation mon_reaches :: "('c \<Rightarrow> 'v) \<Rightarrow> (int \<Rightarrow> 'c \<Rightarrow> 's \<Rightarrow> ('r, 's, 'v) outcome)
    \<Rightarrow> (int \<Rightarrow> 'c \<Rightarrow> 's \<Rightarrow> ('r, 's, 'v) outcome) \<Rightarrow> ('c \<Rightarrow> 's \<Rightarrow> 's option) \<Rightarrow> (int \<Rightarrow> bool) \<Rightarrow> bool
    \<Rightarrow> ('s, 'c, 'r) monitor \<Rightarrow> ('s, 'c, 'r) monitor \<Rightarrow> bool" where
  "mon_reaches cv enter resume cleanup E C \<equiv> (mon_step cv enter resume cleanup E C)\<^sup>*\<^sup>*"


subsection \<open>Invariants\<close>

text \<open>
  What an object promises: a relation between its fields, the threads that sleep, are waked or are
  cancelled, and the calls that have returned, which every critical section keeps. Then it holds
  in every reachable state.
\<close>

locale monitor_invariant =
  fixes cv :: "'c \<Rightarrow> 'v"
    and enter resume :: "int \<Rightarrow> 'c \<Rightarrow> 's \<Rightarrow> ('r, 's, 'v) outcome"
    and cleanup :: "'c \<Rightarrow> 's \<Rightarrow> 's option"
    and E :: "int \<Rightarrow> bool" and C :: bool
    and J :: "'s \<Rightarrow> 'c multiset \<Rightarrow> 'c multiset \<Rightarrow> 'c multiset \<Rightarrow> ('c \<times> 'r) list \<Rightarrow> bool"
  assumes enter_return: "\<lbrakk>J s sl wk cn lg; E n; enter n c s = Return r t ws; wakes cv ws sl wk sl' wk'\<rbrakk>
      \<Longrightarrow> J t sl' wk' cn (lg @ [(c, r)])"
    and enter_block: "\<lbrakk>J s sl wk cn lg; E n; enter n c s = Block t\<rbrakk> \<Longrightarrow> J t (add_mset c sl) wk cn lg"
    and resume_return: "\<lbrakk>J s sl (add_mset c wk) cn lg; E n; resume n c s = Return r t ws; wakes cv ws sl wk sl' wk'\<rbrakk>
      \<Longrightarrow> J t sl' wk' cn (lg @ [(c, r)])"
    and resume_block: "\<lbrakk>J s sl (add_mset c wk) cn lg; E n; resume n c s = Block t\<rbrakk> \<Longrightarrow> J t (add_mset c sl) wk cn lg"
    and spurious: "J s (add_mset c sl) wk cn lg \<Longrightarrow> J s sl (add_mset c wk) cn lg"
    and cancelled: "\<lbrakk>C; J s (add_mset c sl) wk cn lg\<rbrakk> \<Longrightarrow> J s sl wk (add_mset c cn) lg"
    and cleaned: "\<lbrakk>J s sl wk (add_mset c cn) lg; cleanup c s = Some t\<rbrakk> \<Longrightarrow> J t sl wk cn lg"
    and left_locked: "\<lbrakk>J s sl wk (add_mset c cn) lg; cleanup c s = None\<rbrakk> \<Longrightarrow> J s sl wk cn lg"
begin

definition holds :: "('s, 'c, 'r) monitor \<Rightarrow> bool" where
  "holds m = J (mn_state m) (mn_sleep m) (mn_woken m) (mn_cancelled m) (mn_log m)"

lemma step_holds: "mon_step cv enter resume cleanup E C m m' \<Longrightarrow> holds m \<Longrightarrow> holds m'"
proof (induction rule: mon_step.induct)
  case (mon_return m n c r s ws sl wk) then show ?case using enter_return by (simp add: holds_def)
next
  case (mon_block m n c s) then show ?case using enter_block by (simp add: holds_def)
next
  case (mon_resume m n c wk0 r s ws sl wk) then show ?case using resume_return by (simp add: holds_def)
next
  case (mon_sleep_again m n c wk0 s) then show ?case using resume_block by (simp add: holds_def)
next
  case (mon_spurious m c sl) then show ?case using spurious by (simp add: holds_def)
next
  case (mon_cancel m c sl) then show ?case using cancelled by (simp add: holds_def)
next
  case (mon_cleanup m c cn s) then show ?case using cleaned by (simp add: holds_def)
next
  case (mon_no_cleanup m c cn) then show ?case using left_locked by (simp add: holds_def)
qed

lemma reachable_holds: "mon_reaches cv enter resume cleanup E C m m' \<Longrightarrow> holds m \<Longrightarrow> holds m'"
  by (induction rule: rtranclp_induct) (auto intro: step_holds)

lemma from_new:
  "mon_reaches cv enter resume cleanup E C (monitor_new s) m \<Longrightarrow> J s {#} {#} {#} []
    \<Longrightarrow> J (mn_state m) (mn_sleep m) (mn_woken m) (mn_cancelled m) (mn_log m)"
  using reachable_holds [of "monitor_new s" m] by (simp add: holds_def monitor_new_def)

end

text \<open>What the signals leave as it is: who is waiting at all.\<close>

lemma wakes_union: "wakes cv ws sl wk sl' wk' \<Longrightarrow> sl' + wk' = sl + wk"
  by (induction rule: wakes.induct) (auto simp: ac_simps multiset_partition [symmetric] add.left_commute)

lemma wakes_more: "wakes cv ws sl wk sl' wk' \<Longrightarrow> wk \<subseteq># wk' \<and> sl' \<subseteq># sl"
proof (induction rule: wakes.induct)
  case (wake_one c v ws sl wk sl' wk')
  then show ?case by (meson mset_subset_eq_add_left subset_mset.trans add_mset_remove_trivial subset_mset.order_refl
      mset_subset_eq_add_right subset_mset.dual_order.trans mset_subset_eq_add_mset_cancel mset_subset_eq_insertD subset_mset.less_imp_le)
next
  case (wake_all ws v sl wk sl' wk')
  then show ?case by (meson mset_subset_eq_add_left multiset_filter_subset subset_mset.order_trans)
qed auto

text \<open>A signal wakes one of those who sleep on the variable, if there is one.\<close>

lemma wakes_signal_some:
  assumes "wakes cv [Signal v] sl wk sl' wk'" and "\<exists>c \<in># sl. cv c = v"
  shows "\<exists>c. c \<in># sl \<and> cv c = v \<and> wk' = add_mset c wk \<and> sl = add_mset c sl'"
  using assms by (auto elim!: wakes_signalE)

text \<open>With one condition variable: a signal wakes a thread or there is none to wake.\<close>

lemma signal_one:
  assumes "wakes (\<lambda>_. ()) [Signal ()] sl wk sl' wk'"
  shows "sl' + wk' = sl + wk \<and> (sl = {#} \<and> sl' = {#} \<and> wk' = wk \<or> size wk' = size wk + 1)"
proof (cases "sl = {#}")
  case True
  then show ?thesis using assms by (auto elim!: wakes_signalE)
next
  case False
  then obtain c where "wk' = add_mset c wk" using wakes_signal_some [OF assms] by auto
  then show ?thesis using wakes_union [OF assms] by simp
qed

lemma signal_enough:
  assumes "wakes (\<lambda>_. ()) [Signal ()] sl wk sl' wk'" and "sl = {#} \<or> n \<le> size wk"
  shows "sl' = {#} \<or> n + 1 \<le> size wk'"
proof (cases "sl = {#}")
  case True
  then have "size sl' + size wk' = size wk" using arg_cong [OF conjunct1 [OF signal_one [OF assms(1)]], of size] by simp
  then show ?thesis using signal_one [OF assms(1)] True by auto
next
  case False
  then show ?thesis using signal_one [OF assms(1)] assms(2) by auto
qed

lemma wakes_broadcast:
  "wakes cv [Broadcast v] sl wk sl' wk' \<longleftrightarrow>
    sl' = filter_mset (\<lambda>c. cv c \<noteq> v) sl \<and> wk' = wk + filter_mset (\<lambda>c. cv c = v) sl"
  by (auto elim!: wakes_broadcastE intro: wakes.intros)


subsection \<open>Histories\<close>

text \<open>
  Because critical sections do not overlap, the order in which the calls return is an order in
  which they may be thought to run one after the other. \<open>spec_run\<close> replays such a history on an
  abstract object; \<open>None\<close>: an event that the object does not allow.
\<close>

fun spec_run :: "('e \<Rightarrow> 'a \<Rightarrow> 'a option) \<Rightarrow> 'e list \<Rightarrow> 'a \<Rightarrow> 'a option" where
  "spec_run f [] a = Some a"
| "spec_run f (e # es) a = (case f e a of None \<Rightarrow> None | Some b \<Rightarrow> spec_run f es b)"

lemma spec_run_append [simp]:
  "spec_run f (es @ es') a = (case spec_run f es a of None \<Rightarrow> None | Some b \<Rightarrow> spec_run f es' b)"
  by (induction es arbitrary: a) (simp_all split: option.split)


text \<open>Once the mutex is locked for ever no call returns any more.\<close>

lemma stuck_step:
  "mon_step cv enter resume cleanup E C m m' \<Longrightarrow> mn_stuck m \<Longrightarrow> mn_stuck m' \<and> mn_log m' = mn_log m"
  by (induction rule: mon_step.induct) simp_all

lemma stuck_for_ever:
  "mon_reaches cv enter resume cleanup E C m m' \<Longrightarrow> mn_stuck m \<Longrightarrow> mn_stuck m' \<and> mn_log m' = mn_log m"
  by (induction rule: rtranclp_induct) (auto dest: stuck_step)

text \<open>The rules as facts about the state a step ends in, to run a monitor on concrete calls.\<close>

lemma reach_return:
  assumes "mon_reaches cv enter resume cleanup E C a m" and "\<not> mn_stuck m" and "E n"
    and "enter n c (mn_state m) = Return r s ws" and "wakes cv ws (mn_sleep m) (mn_woken m) sl wk"
  shows "mon_reaches cv enter resume cleanup E C a
    (m\<lparr>mn_state := s, mn_sleep := sl, mn_woken := wk, mn_log := mn_log m @ [(c, r)]\<rparr>)"
  by (rule rtranclp.rtrancl_into_rtrancl [OF assms(1)], rule mon_return) (fact assms)+

lemma reach_block:
  assumes "mon_reaches cv enter resume cleanup E C a m" and "\<not> mn_stuck m" and "E n"
    and "enter n c (mn_state m) = Block s"
  shows "mon_reaches cv enter resume cleanup E C a (m\<lparr>mn_state := s, mn_sleep := add_mset c (mn_sleep m)\<rparr>)"
  by (rule rtranclp.rtrancl_into_rtrancl [OF assms(1)], rule mon_block) (fact assms)+

lemma reach_resume:
  assumes "mon_reaches cv enter resume cleanup E C a m" and "\<not> mn_stuck m" and "E n" and "mn_woken m = add_mset c wk0"
    and "resume n c (mn_state m) = Return r s ws" and "wakes cv ws (mn_sleep m) wk0 sl wk"
  shows "mon_reaches cv enter resume cleanup E C a
    (m\<lparr>mn_state := s, mn_sleep := sl, mn_woken := wk, mn_log := mn_log m @ [(c, r)]\<rparr>)"
  by (rule rtranclp.rtrancl_into_rtrancl [OF assms(1)], rule mon_resume) (fact assms)+

lemma reach_cancel:
  assumes "mon_reaches cv enter resume cleanup E C a m" and "C" and "mn_sleep m = add_mset c sl"
  shows "mon_reaches cv enter resume cleanup E C a (m\<lparr>mn_sleep := sl, mn_cancelled := add_mset c (mn_cancelled m)\<rparr>)"
  by (rule rtranclp.rtrancl_into_rtrancl [OF assms(1)], rule mon_cancel) (fact assms)+

lemma reach_cleanup:
  assumes "mon_reaches cv enter resume cleanup E C a m" and "\<not> mn_stuck m" and "mn_cancelled m = add_mset c cn"
    and "cleanup c (mn_state m) = Some s"
  shows "mon_reaches cv enter resume cleanup E C a (m\<lparr>mn_state := s, mn_cancelled := cn\<rparr>)"
  by (rule rtranclp.rtrancl_into_rtrancl [OF assms(1)], rule mon_cleanup) (fact assms)+

lemma reach_no_cleanup:
  assumes "mon_reaches cv enter resume cleanup E C a m" and "\<not> mn_stuck m" and "mn_cancelled m = add_mset c cn"
    and "cleanup c (mn_state m) = None"
  shows "mon_reaches cv enter resume cleanup E C a (m\<lparr>mn_cancelled := cn, mn_stuck := True\<rparr>)"
  by (rule rtranclp.rtrancl_into_rtrancl [OF assms(1)], rule mon_no_cleanup) (fact assms)+

end
