(* ===== verification/Rwlock.thy ===== *)
theory Rwlock
  imports Monitor
begin

text \<open>
  The read-write locks of UNIX.Network.Programming/unpv22e: my_rwlock, and my_rwlock_cancel, whose
  waiting threads may be cancelled. The results of the pthread functions are arguments: 0 or an
  errno. The theorems are about all the threads that use one lock; its three counts, which are \<open>int\<close> in
  the source, are integers here: as each is at most the number of threads, they do not wrap round with
  fewer than \<open>2\<^sup>3\<^sup>1\<close> threads.
\<close>

subsection \<open>The lock\<close>

definition RW_MAGIC :: int where "RW_MAGIC = 0x19283746"

record rwlock =
  rw_mutex :: bool           \<comment> \<open>initialised\<close>
  rw_condreaders :: bool
  rw_condwriters :: bool
  rw_magic :: int
  rw_nwaitreaders :: int
  rw_nwaitwriters :: int
  rw_refcount :: int         \<comment> \<open>-1 if a writer has the lock, else the number of readers\<close>

definition PTHREAD_RWLOCK_INITIALIZER :: rwlock where
  "PTHREAD_RWLOCK_INITIALIZER =
     \<lparr>rw_mutex = True, rw_condreaders = True, rw_condwriters = True, rw_magic = RW_MAGIC,
      rw_nwaitreaders = 0, rw_nwaitwriters = 0, rw_refcount = 0\<rparr>"

text \<open>\<open>attr\<close>: one was given; the three results are of the initialisations, in their order.\<close>

definition rwlock_init :: "bool \<Rightarrow> int \<Rightarrow> int \<Rightarrow> int \<Rightarrow> rwlock \<Rightarrow> int \<times> rwlock" where
  "rwlock_init attr r1 r2 r3 rw =
     (if attr then (EINVAL, rw)
      else if r1 \<noteq> 0 then (r1, rw)
      else let rw1 = rw\<lparr>rw_mutex := True\<rparr> in
        if r2 \<noteq> 0 then (r2, rw1\<lparr>rw_mutex := False\<rparr>)
        else let rw2 = rw1\<lparr>rw_condreaders := True\<rparr> in
          if r3 \<noteq> 0 then (r3, rw2\<lparr>rw_condreaders := False, rw_mutex := False\<rparr>)
          else (0, rw2\<lparr>rw_condwriters := True, rw_nwaitreaders := 0, rw_nwaitwriters := 0,
                       rw_refcount := 0, rw_magic := RW_MAGIC\<rparr>))"

definition rwlock_destroy :: "rwlock \<Rightarrow> int \<times> rwlock" where
  "rwlock_destroy rw =
     (if rw_magic rw \<noteq> RW_MAGIC then (EINVAL, rw)
      else if rw_refcount rw \<noteq> 0 \<or> rw_nwaitreaders rw \<noteq> 0 \<or> rw_nwaitwriters rw \<noteq> 0 then (EBUSY, rw)
      else (0, rw\<lparr>rw_mutex := False, rw_condreaders := False, rw_condwriters := False, rw_magic := 0\<rparr>))"


subsection \<open>Operations\<close>

datatype rw_cond = Condreaders | Condwriters

datatype rw_call = Rdlock nat | Wrlock nat | Tryrdlock nat | Trywrlock nat | Unlock nat

fun rw_cond_of :: "rw_call \<Rightarrow> rw_cond" where
  "rw_cond_of (Wrlock t) = Condwriters"
| "rw_cond_of c = Condreaders"

text \<open>The loop of \<open>pthread_rwlock_rdlock\<close> up to the next wait, and what follows a wait.\<close>

definition rdlock_loop :: "rwlock \<Rightarrow> (int, rwlock, rw_cond) outcome" where
  "rdlock_loop rw =
     (if rw_refcount rw < 0 \<or> rw_nwaitwriters rw > 0 then Block (rw\<lparr>rw_nwaitreaders := rw_nwaitreaders rw + 1\<rparr>)
      else Return 0 (rw\<lparr>rw_refcount := rw_refcount rw + 1\<rparr>) [])"

definition rdlock :: "int \<Rightarrow> rwlock \<Rightarrow> (int, rwlock, rw_cond) outcome" where
  "rdlock n rw =
     (if rw_magic rw \<noteq> RW_MAGIC then Return EINVAL rw [] else if n \<noteq> 0 then Return n rw [] else rdlock_loop rw)"

definition rdlock_woken :: "int \<Rightarrow> rwlock \<Rightarrow> (int, rwlock, rw_cond) outcome" where
  "rdlock_woken n rw =
     (let rw1 = rw\<lparr>rw_nwaitreaders := rw_nwaitreaders rw - 1\<rparr>
      in if n \<noteq> 0 then Return n rw1 [] else rdlock_loop rw1)"

definition wrlock_loop :: "rwlock \<Rightarrow> (int, rwlock, rw_cond) outcome" where
  "wrlock_loop rw =
     (if rw_refcount rw \<noteq> 0 then Block (rw\<lparr>rw_nwaitwriters := rw_nwaitwriters rw + 1\<rparr>)
      else Return 0 (rw\<lparr>rw_refcount := -1\<rparr>) [])"

definition wrlock :: "int \<Rightarrow> rwlock \<Rightarrow> (int, rwlock, rw_cond) outcome" where
  "wrlock n rw =
     (if rw_magic rw \<noteq> RW_MAGIC then Return EINVAL rw [] else if n \<noteq> 0 then Return n rw [] else wrlock_loop rw)"

definition wrlock_woken :: "int \<Rightarrow> rwlock \<Rightarrow> (int, rwlock, rw_cond) outcome" where
  "wrlock_woken n rw =
     (let rw1 = rw\<lparr>rw_nwaitwriters := rw_nwaitwriters rw - 1\<rparr>
      in if n \<noteq> 0 then Return n rw1 [] else wrlock_loop rw1)"

definition tryrdlock :: "int \<Rightarrow> rwlock \<Rightarrow> (int, rwlock, rw_cond) outcome" where
  "tryrdlock n rw =
     (if rw_magic rw \<noteq> RW_MAGIC then Return EINVAL rw []
      else if n \<noteq> 0 then Return n rw []
      else if rw_refcount rw < 0 \<or> rw_nwaitwriters rw > 0 then Return EBUSY rw []
      else Return 0 (rw\<lparr>rw_refcount := rw_refcount rw + 1\<rparr>) [])"

definition trywrlock :: "int \<Rightarrow> rwlock \<Rightarrow> (int, rwlock, rw_cond) outcome" where
  "trywrlock n rw =
     (if rw_magic rw \<noteq> RW_MAGIC then Return EINVAL rw []
      else if n \<noteq> 0 then Return n rw []
      else if rw_refcount rw \<noteq> 0 then Return EBUSY rw []
      else Return 0 (rw\<lparr>rw_refcount := -1\<rparr>) [])"

text \<open>The signalling functions of pthread give 0.\<close>

definition unlock_release :: "rwlock \<Rightarrow> rwlock option" where
  "unlock_release rw =
     (if rw_refcount rw > 0 then Some (rw\<lparr>rw_refcount := rw_refcount rw - 1\<rparr>)
      else if rw_refcount rw = -1 then Some (rw\<lparr>rw_refcount := 0\<rparr>)
      else None)"

definition unlock_wakes :: "rwlock \<Rightarrow> rw_cond wake list" where
  "unlock_wakes rw =
     (if rw_nwaitwriters rw > 0 then if rw_refcount rw = 0 then [Signal Condwriters] else []
      else if rw_nwaitreaders rw > 0 then [Broadcast Condreaders] else [])"

definition unlock :: "int \<Rightarrow> rwlock \<Rightarrow> (int, rwlock, rw_cond) outcome" where
  "unlock n rw =
     (if rw_magic rw \<noteq> RW_MAGIC then Return EINVAL rw []
      else if n \<noteq> 0 then Return n rw []
      else case unlock_release rw of None \<Rightarrow> Die | Some rw1 \<Rightarrow> Return 0 rw1 (unlock_wakes rw1))"

fun rw_enter :: "int \<Rightarrow> rw_call \<Rightarrow> rwlock \<Rightarrow> (int, rwlock, rw_cond) outcome" where
  "rw_enter n (Rdlock t) = rdlock n"
| "rw_enter n (Wrlock t) = wrlock n"
| "rw_enter n (Tryrdlock t) = tryrdlock n"
| "rw_enter n (Trywrlock t) = trywrlock n"
| "rw_enter n (Unlock t) = unlock n"

fun rw_resume :: "int \<Rightarrow> rw_call \<Rightarrow> rwlock \<Rightarrow> (int, rwlock, rw_cond) outcome" where
  "rw_resume n (Wrlock t) = wrlock_woken n"
| "rw_resume n c = rdlock_woken n"

text \<open>No cleanup handler: a thread cancelled in \<open>pthread_cond_wait\<close> ends with the mutex locked.\<close>

definition rw_no_cleanup :: "rw_call \<Rightarrow> rwlock \<Rightarrow> rwlock option" where
  "rw_no_cleanup c rw = None"


subsection \<open>The operations of my_rwlock_cancel\<close>

text \<open>They differ in what they return after a failed wait, and \<open>unlock\<close> in when it signals.\<close>

definition rdlock_cn_woken :: "int \<Rightarrow> rwlock \<Rightarrow> (int, rwlock, rw_cond) outcome" where
  "rdlock_cn_woken n rw =
     (let rw1 = rw\<lparr>rw_nwaitreaders := rw_nwaitreaders rw - 1\<rparr>
      in if n \<noteq> 0 then Return 0 rw1 [] else rdlock_loop rw1)"

text \<open>The result of the mutex is compared with -1, which it never is.\<close>

definition wrlock_cn :: "int \<Rightarrow> rwlock \<Rightarrow> (int, rwlock, rw_cond) outcome" where
  "wrlock_cn n rw =
     (if rw_magic rw \<noteq> RW_MAGIC then Return EINVAL rw []
      else if n = -1 then Return n rw []
      else if rw_refcount rw = 0 \<and> n \<noteq> 0 then Return 0 rw []
      else wrlock_loop rw)"

definition wrlock_cn_woken :: "int \<Rightarrow> rwlock \<Rightarrow> (int, rwlock, rw_cond) outcome" where
  "wrlock_cn_woken n rw =
     (let rw1 = rw\<lparr>rw_nwaitwriters := rw_nwaitwriters rw - 1\<rparr>
      in if n \<noteq> 0 then Return 0 rw1 [] else wrlock_loop rw1)"

definition tryrdlock_cn :: "int \<Rightarrow> rwlock \<Rightarrow> (int, rwlock, rw_cond) outcome" where
  "tryrdlock_cn n rw =
     (if rw_magic rw \<noteq> RW_MAGIC then Return EINVAL rw []
      else if n \<noteq> 0 then Return n rw []
      else if rw_refcount rw = -1 \<or> rw_nwaitwriters rw > 0 then Return EBUSY rw []
      else Return 0 (rw\<lparr>rw_refcount := rw_refcount rw + 1\<rparr>) [])"

definition unlock_cn_wakes :: "rwlock \<Rightarrow> rw_cond wake list" where
  "unlock_cn_wakes rw =
     (if rw_nwaitwriters rw > 0 then [Signal Condwriters]
      else if rw_nwaitreaders rw > 0 then [Broadcast Condreaders] else [])"

definition unlock_cn :: "int \<Rightarrow> rwlock \<Rightarrow> (int, rwlock, rw_cond) outcome" where
  "unlock_cn n rw =
     (if rw_magic rw \<noteq> RW_MAGIC then Return EINVAL rw []
      else if n \<noteq> 0 then Return n rw []
      else case unlock_release rw of None \<Rightarrow> Die | Some rw1 \<Rightarrow> Return 0 rw1 (unlock_cn_wakes rw1))"

fun rw_cn_enter :: "int \<Rightarrow> rw_call \<Rightarrow> rwlock \<Rightarrow> (int, rwlock, rw_cond) outcome" where
  "rw_cn_enter n (Rdlock t) = rdlock n"
| "rw_cn_enter n (Wrlock t) = wrlock_cn n"
| "rw_cn_enter n (Tryrdlock t) = tryrdlock_cn n"
| "rw_cn_enter n (Trywrlock t) = trywrlock n"
| "rw_cn_enter n (Unlock t) = unlock_cn n"

fun rw_cn_resume :: "int \<Rightarrow> rw_call \<Rightarrow> rwlock \<Rightarrow> (int, rwlock, rw_cond) outcome" where
  "rw_cn_resume n (Wrlock t) = wrlock_cn_woken n"
| "rw_cn_resume n c = rdlock_cn_woken n"

definition rwlock_cancelrdwait :: "rwlock \<Rightarrow> rwlock" where
  "rwlock_cancelrdwait rw = rw\<lparr>rw_nwaitreaders := rw_nwaitreaders rw - 1\<rparr>"

definition rwlock_cancelwrwait :: "rwlock \<Rightarrow> rwlock" where
  "rwlock_cancelwrwait rw = rw\<lparr>rw_nwaitwriters := rw_nwaitwriters rw - 1\<rparr>"

fun rw_cn_cleanup :: "rw_call \<Rightarrow> rwlock \<Rightarrow> rwlock option" where
  "rw_cn_cleanup (Wrlock t) rw = Some (rwlock_cancelwrwait rw)"
| "rw_cn_cleanup c rw = Some (rwlock_cancelrdwait rw)"



subsection \<open>What a lock promises\<close>

datatype rw_mode = Free | Reading nat | Writing

definition mode_of :: "int \<Rightarrow> rw_mode" where
  "mode_of rc = (if rc = -1 then Writing else if rc = 0 then Free else Reading (nat rc))"

text \<open>The calls that return 0 on an abstract lock; those that fail leave it.\<close>

fun rw_grant :: "rw_call \<times> int \<Rightarrow> rw_mode \<Rightarrow> rw_mode option" where
  "rw_grant (c, r) m =
     (if r \<noteq> 0 then Some m
      else case c of
        Unlock t \<Rightarrow> (case m of Free \<Rightarrow> None | Writing \<Rightarrow> Some Free
                      | Reading n \<Rightarrow> Some (if n = 1 then Free else Reading (n - 1)))
      | Rdlock t \<Rightarrow> (case m of Free \<Rightarrow> Some (Reading 1) | Reading n \<Rightarrow> Some (Reading (n + 1)) | Writing \<Rightarrow> None)
      | Tryrdlock t \<Rightarrow> (case m of Free \<Rightarrow> Some (Reading 1) | Reading n \<Rightarrow> Some (Reading (n + 1)) | Writing \<Rightarrow> None)
      | Wrlock t \<Rightarrow> (if m = Free then Some Writing else None)
      | Trywrlock t \<Rightarrow> (if m = Free then Some Writing else None))"

definition waiting_on :: "rw_cond \<Rightarrow> rw_call multiset \<Rightarrow> int" where
  "waiting_on v w = int (size (filter_mset (\<lambda>c. rw_cond_of c = v) w))"

lemma waiting_on_simps [simp]:
  "waiting_on v {#} = 0"
  "waiting_on v (add_mset c w) = waiting_on v w + (if rw_cond_of c = v then 1 else 0)"
  "waiting_on v (w + w') = waiting_on v w + waiting_on v w'"
  by (simp_all add: waiting_on_def)

lemma waiting_on_nonneg [simp]: "0 \<le> waiting_on v w"
  by (simp add: waiting_on_def)

lemma waiting_on_pos: "0 < waiting_on v w \<longleftrightarrow> (\<exists>c \<in># w. rw_cond_of c = v)"
  by (auto simp: waiting_on_def filter_mset_eq_conv nonempty_has_size [symmetric])

lemma waiting_on_wakes: "wakes cv ws sl wk sl' wk' \<Longrightarrow> waiting_on v sl' + waiting_on v wk' = waiting_on v sl + waiting_on v wk"
  using wakes_union [of cv ws sl wk sl' wk'] by (metis waiting_on_simps(3))

fun rw_blocks :: "rw_call \<Rightarrow> bool" where
  "rw_blocks (Rdlock t) = True"
| "rw_blocks (Wrlock t) = True"
| "rw_blocks c = False"

text \<open>The fields are what they are called, and the calls that have returned are those of a lock.\<close>

definition rw_ok :: "rwlock \<Rightarrow> rw_call multiset \<Rightarrow> rw_call multiset \<Rightarrow> rw_call multiset \<Rightarrow> (rw_call \<times> int) list \<Rightarrow> bool" where
  "rw_ok rw sl wk cn lg \<longleftrightarrow>
     rw_magic rw = RW_MAGIC \<and> -1 \<le> rw_refcount rw \<and> (\<forall>c \<in># sl + wk + cn. rw_blocks c)
     \<and> rw_nwaitreaders rw = waiting_on Condreaders sl + waiting_on Condreaders wk + waiting_on Condreaders cn
     \<and> rw_nwaitwriters rw = waiting_on Condwriters sl + waiting_on Condwriters wk + waiting_on Condwriters cn
     \<and> spec_run rw_grant lg Free = Some (mode_of (rw_refcount rw))"

lemmas rw_loop_defs = rdlock_loop_def wrlock_loop_def Let_def

lemmas rw_enter_defs = rdlock_def wrlock_def tryrdlock_def trywrlock_def unlock_def wrlock_cn_def tryrdlock_cn_def
  unlock_cn_def unlock_release_def rw_loop_defs

lemmas rw_resume_defs = rdlock_woken_def wrlock_woken_def rdlock_cn_woken_def wrlock_cn_woken_def rw_loop_defs

lemma rw_cond_of_reader: "rw_cond_of c = Condreaders \<longleftrightarrow> (\<nexists>t. c = Wrlock t)"
  by (cases c) simp_all

lemma rw_cond_of_writer: "rw_cond_of c = Condwriters \<longleftrightarrow> (\<exists>t. c = Wrlock t)"
  by (cases c) simp_all

lemma grant_fails: "r \<noteq> 0 \<Longrightarrow> rw_grant (c, r) m = Some m"
  by simp

lemma grant_read: "0 \<le> rc \<Longrightarrow> rw_grant (Rdlock t, 0) (mode_of rc) = Some (mode_of (rc + 1))"
  by (simp add: mode_of_def nat_add_distrib)

lemma grant_tryread: "0 \<le> rc \<Longrightarrow> rw_grant (Tryrdlock t, 0) (mode_of rc) = Some (mode_of (rc + 1))"
  by (simp add: mode_of_def nat_add_distrib)

lemma grant_write: "rw_grant (Wrlock t, 0) (mode_of 0) = Some (mode_of (-1))"
  by (simp add: mode_of_def)

lemma grant_trywrite: "rw_grant (Trywrlock t, 0) (mode_of 0) = Some (mode_of (-1))"
  by (simp add: mode_of_def)

lemma grant_unlock_write: "rw_grant (Unlock t, 0) (mode_of (-1)) = Some (mode_of 0)"
  by (simp add: mode_of_def)

lemma grant_unlock_read: "0 < rc \<Longrightarrow> rw_grant (Unlock t, 0) (mode_of rc) = Some (mode_of (rc - 1))"
  by (auto simp: mode_of_def nat_diff_distrib nat_eq_iff)

lemmas grants = grant_fails grant_read grant_tryread grant_write grant_trywrite grant_unlock_write grant_unlock_read

lemma rw_enter_kept:
  assumes "rw_ok s sl wk cn lg" and "rw_enter n c s = Return r t ws"
  shows "rw_ok t sl wk cn (lg @ [(c, r)])"
proof (cases c)
  case (Rdlock u)
  with assms show ?thesis
    by (auto simp: rw_ok_def rdlock_def rdlock_loop_def grants split: if_splits simp del: rw_grant.simps)
next
  case (Wrlock u)
  with assms show ?thesis
    by (auto simp: rw_ok_def wrlock_def wrlock_loop_def grants split: if_splits simp del: rw_grant.simps)
next
  case (Tryrdlock u)
  with assms show ?thesis
    by (auto simp: rw_ok_def tryrdlock_def grants split: if_splits simp del: rw_grant.simps)
next
  case (Trywrlock u)
  with assms show ?thesis
    by (auto simp: rw_ok_def trywrlock_def grants split: if_splits simp del: rw_grant.simps)
next
  case (Unlock u)
  with assms show ?thesis
    by (auto simp: rw_ok_def unlock_def unlock_release_def grants split: if_splits option.splits simp del: rw_grant.simps)
qed

lemma rw_resume_kept:
  assumes "rw_ok s sl (add_mset c wk) cn lg" and "rw_resume n c s = Return r t ws"
  shows "rw_ok t sl wk cn (lg @ [(c, r)])"
proof (cases c)
  case (Rdlock u)
  with assms show ?thesis
    by (auto simp: rw_ok_def rdlock_woken_def rdlock_loop_def Let_def grants split: if_splits simp del: rw_grant.simps)
next
  case (Wrlock u)
  with assms show ?thesis
    by (auto simp: rw_ok_def wrlock_woken_def wrlock_loop_def Let_def grants split: if_splits simp del: rw_grant.simps)
qed (use assms in \<open>auto simp: rw_ok_def\<close>)

lemma rw_block_kept:
  "rw_ok s sl wk cn lg \<Longrightarrow> rw_enter n c s = Block t \<Longrightarrow> rw_ok t (add_mset c sl) wk cn lg"
  "rw_ok s sl (add_mset c wk) cn lg \<Longrightarrow> rw_resume n c s = Block t \<Longrightarrow> rw_ok t (add_mset c sl) wk cn lg"
  by (cases c; auto simp: rw_ok_def rw_enter_defs split: if_splits option.splits)
    (cases c; auto simp: rw_ok_def rw_resume_defs split: if_splits)

lemma rw_ok_wakes: "rw_ok s sl wk cn lg \<Longrightarrow> wakes cv ws sl wk sl' wk' \<Longrightarrow> rw_ok s sl' wk' cn lg"
  using waiting_on_wakes [of cv ws sl wk sl' wk'] wakes_union [of cv ws sl wk sl' wk']
  by (simp add: rw_ok_def)

lemma rw_spurious_kept: "rw_ok s (add_mset c sl) wk cn lg \<Longrightarrow> rw_ok s sl (add_mset c wk) cn lg"
  by (simp add: rw_ok_def)

lemma rw_cancel_kept: "rw_ok s (add_mset c sl) wk cn lg \<Longrightarrow> rw_ok s sl wk (add_mset c cn) lg"
  by (simp add: rw_ok_def)

text \<open>A thread that ends without the handler leaves its count behind: the law is then lost.\<close>

interpretation rwl: monitor_invariant rw_cond_of rw_enter rw_resume rw_no_cleanup E False
  "\<lambda>s sl wk cn lg. cn = {#} \<and> rw_ok s sl wk cn lg" for E
  by unfold_locales
    (auto dest: rw_enter_kept rw_resume_kept intro: rw_ok_wakes rw_block_kept rw_spurious_kept)

text \<open>The two versions agree on their results as long as the pthread functions give 0.\<close>

lemma rw_cn_enter_same:
  assumes "-1 \<le> rw_refcount s"
  shows "rw_cn_enter 0 c s = Return r t ws \<Longrightarrow> \<exists>ws'. rw_enter 0 c s = Return r t ws'"
    and "rw_cn_enter 0 c s = Block t \<Longrightarrow> rw_enter 0 c s = Block t"
  using assms by (cases c; auto simp: rw_enter_defs split: if_splits option.splits)+

lemma rw_cn_resume_same: "rw_cn_resume 0 c s = rw_resume 0 c s"
  by (cases c; simp add: rw_resume_defs)

lemma rw_cn_kept:
  assumes "rw_ok s sl wk cn lg"
  shows "rw_cn_enter 0 c s = Return r t ws \<Longrightarrow> rw_ok t sl wk cn (lg @ [(c, r)])"
    and "rw_cn_enter 0 c s = Block t \<Longrightarrow> rw_ok t (add_mset c sl) wk cn lg"
proof -
  have "-1 \<le> rw_refcount s" using assms by (simp add: rw_ok_def)
  then show "rw_cn_enter 0 c s = Return r t ws \<Longrightarrow> rw_ok t sl wk cn (lg @ [(c, r)])"
    and "rw_cn_enter 0 c s = Block t \<Longrightarrow> rw_ok t (add_mset c sl) wk cn lg"
    using rw_cn_enter_same [of s c] rw_enter_kept [OF assms] rw_block_kept(1) [OF assms] by blast+
qed

lemma rw_cleanup_kept: "rw_ok s sl wk (add_mset c cn) lg \<Longrightarrow> rw_cn_cleanup c s = Some t \<Longrightarrow> rw_ok t sl wk cn lg"
  by (cases c) (auto simp: rw_ok_def rwlock_cancelrdwait_def rwlock_cancelwrwait_def)

lemma rw_cn_cleanup_some: "rw_cn_cleanup c s \<noteq> None"
  by (cases c) simp_all

interpretation rwc: monitor_invariant rw_cond_of rw_cn_enter rw_cn_resume rw_cn_cleanup "\<lambda>n. n = 0" True rw_ok
  by unfold_locales
    (auto simp: rw_cn_resume_same rw_cn_cleanup_some dest: rw_cn_kept(1) rw_resume_kept
      intro: rw_ok_wakes rw_cn_kept(2) rw_block_kept(2) rw_spurious_kept rw_cancel_kept rw_cleanup_kept)



subsection \<open>Nobody sleeps on a free lock\<close>

definition rw_awake :: "rwlock \<Rightarrow> rw_call multiset \<Rightarrow> rw_call multiset \<Rightarrow> bool" where
  "rw_awake rw sl wk \<longleftrightarrow>
     (rw_refcount rw = 0 \<longrightarrow>
        (0 < waiting_on Condwriters sl \<longrightarrow> 0 < waiting_on Condwriters wk)
        \<and> (0 < waiting_on Condreaders sl \<longrightarrow> 0 < waiting_on Condreaders wk \<or> 0 < waiting_on Condwriters wk))"

lemma waiting_signal: "wakes rw_cond_of [Signal v] sl wk sl' wk' \<Longrightarrow> 0 < waiting_on v sl \<Longrightarrow> 0 < waiting_on v wk'"
  using waiting_on_nonneg [of v wk] by (auto dest!: wakes_signal_some simp: waiting_on_pos)

lemma waiting_broadcast: "wakes rw_cond_of [Broadcast v] sl wk sl' wk' \<Longrightarrow> 0 < waiting_on v sl \<Longrightarrow> 0 < waiting_on v wk'"
proof -
  assume w: "wakes rw_cond_of [Broadcast v] sl wk sl' wk'" and "0 < waiting_on v sl"
  then obtain c where "c \<in># sl" "rw_cond_of c = v" by (auto simp: waiting_on_pos)
  then have "c \<in># wk'" using w by (simp add: wakes_broadcast)
  then show "0 < waiting_on v wk'" unfolding waiting_on_pos using \<open>rw_cond_of c = v\<close> by blast
qed

lemma waiting_grows: "wakes rw_cond_of ws sl wk sl' wk' \<Longrightarrow> waiting_on v wk \<le> waiting_on v wk' \<and> waiting_on v sl' \<le> waiting_on v sl"
  using wakes_more [of rw_cond_of ws sl wk sl' wk']
  by (auto simp: waiting_on_def intro: size_mset_mono multiset_filter_mono)

lemma unlock_awake:
  assumes "rw_ok s sl wk {#} lg" and "unlock 0 s = Return r t ws" and "wakes rw_cond_of ws sl wk sl' wk'"
  shows "rw_awake t sl' wk'"
proof -
  have nw: "rw_nwaitwriters t = waiting_on Condwriters sl + waiting_on Condwriters wk"
    "rw_nwaitreaders t = waiting_on Condreaders sl + waiting_on Condreaders wk"
    and ws: "ws = unlock_wakes t"
    using assms(1,2) by (auto simp: rw_ok_def unlock_def unlock_release_def split: if_splits option.splits)
  note w = waiting_on_wakes [OF assms(3), of Condwriters] waiting_on_wakes [OF assms(3), of Condreaders]
    waiting_grows [OF assms(3), of Condwriters] waiting_grows [OF assms(3), of Condreaders]
    waiting_on_nonneg [of Condwriters wk] waiting_on_nonneg [of Condreaders wk]
  show ?thesis
  proof (cases "rw_refcount t = 0 \<and> rw_nwaitwriters t > 0")
    case True
    then have "wakes rw_cond_of [Signal Condwriters] sl wk sl' wk'"
      using assms(3) ws by (simp add: unlock_wakes_def)
    then have "0 < waiting_on Condwriters sl \<Longrightarrow> 0 < waiting_on Condwriters wk'" by (rule waiting_signal)
    then have "0 < waiting_on Condwriters wk'" using True nw(1) w(3,5) by linarith
    then show ?thesis by (simp add: rw_awake_def)
  next
    case False
    have "0 < waiting_on Condreaders wk'" if z: "rw_refcount t = 0" "0 < waiting_on Condreaders sl'"
    proof -
      have "\<not> rw_nwaitwriters t > 0" "rw_nwaitreaders t > 0" using z False nw(2) w(4,6) by (simp_all, linarith)
      then have "wakes rw_cond_of [Broadcast Condreaders] sl wk sl' wk'"
        using assms(3) ws by (simp add: unlock_wakes_def)
      then show ?thesis using waiting_broadcast z(2) w(4) by fastforce
    qed
    moreover have "waiting_on Condwriters sl' \<le> 0" if "rw_refcount t = 0"
      using that False nw(1) w(3,5) by linarith
    ultimately show ?thesis by (auto simp: rw_awake_def)
  qed
qed


lemma enter_awake:
  assumes "rw_ok s sl wk {#} lg" and "rw_awake s sl wk" and "rw_enter 0 c s = Return r t ws"
    and "wakes rw_cond_of ws sl wk sl' wk'"
  shows "rw_awake t sl' wk'"
proof (cases c)
  case (Unlock u) with assms show ?thesis using unlock_awake by simp
qed (use assms in \<open>auto simp: rw_ok_def rw_awake_def rw_enter_defs split: if_splits\<close>)

lemma block_awake:
  assumes "rw_ok s sl wk {#} lg" and "rw_awake s sl wk" and "rw_enter 0 c s = Block t"
  shows "rw_awake t (add_mset c sl) wk"
  using assms waiting_on_nonneg [of Condwriters sl] waiting_on_nonneg [of Condwriters wk]
  by (cases c) (auto simp: rw_ok_def rw_awake_def rw_enter_defs split: if_splits option.splits)

lemma resume_awake:
  assumes "rw_ok s sl (add_mset c wk) {#} lg" and "rw_awake s sl (add_mset c wk)" and "rw_resume 0 c s = Return r t ws"
    and "wakes rw_cond_of ws sl wk sl' wk'"
  shows "rw_awake t sl' wk'"
  using assms by (cases c) (auto simp: rw_ok_def rw_awake_def rw_resume_defs split: if_splits)

lemma sleep_awake:
  assumes "rw_ok s sl (add_mset c wk) {#} lg" and "rw_awake s sl (add_mset c wk)" and "rw_resume 0 c s = Block t"
  shows "rw_awake t (add_mset c sl) wk"
  using assms waiting_on_nonneg [of Condwriters sl] waiting_on_nonneg [of Condwriters wk]
  by (cases c) (auto simp: rw_ok_def rw_awake_def rw_resume_defs split: if_splits)

lemma spurious_awake: "rw_awake s (add_mset c sl) wk \<Longrightarrow> rw_awake s sl (add_mset c wk)"
  using waiting_on_nonneg [of Condwriters sl] waiting_on_nonneg [of Condreaders sl]
    waiting_on_nonneg [of Condwriters wk] waiting_on_nonneg [of Condreaders wk]
  by (auto simp: rw_awake_def split: if_splits)

interpretation rwa: monitor_invariant rw_cond_of rw_enter rw_resume rw_no_cleanup "\<lambda>n. n = 0" False
  "\<lambda>s sl wk cn lg. (cn = {#} \<and> rw_ok s sl wk cn lg) \<and> rw_awake s sl wk"
  by unfold_locales
    (auto dest: rw_enter_kept rw_resume_kept
      intro: rw_ok_wakes rw_block_kept rw_spurious_kept enter_awake block_awake resume_awake sleep_awake spurious_awake)



subsection \<open>Properties\<close>

lemma rw_new_ok: "rw_ok PTHREAD_RWLOCK_INITIALIZER {#} {#} {#} []" "rw_awake PTHREAD_RWLOCK_INITIALIZER {#} {#}"
  by (simp_all add: rw_ok_def rw_awake_def PTHREAD_RWLOCK_INITIALIZER_def mode_of_def)

abbreviation rw_run :: "(int \<Rightarrow> bool) \<Rightarrow> bool \<Rightarrow> (rwlock, rw_call, int) monitor \<Rightarrow> bool" where
  "rw_run E C \<equiv> mon_reaches rw_cond_of rw_enter rw_resume rw_no_cleanup E C (monitor_new PTHREAD_RWLOCK_INITIALIZER)"

abbreviation rw_cn_run :: "(rwlock, rw_call, int) monitor \<Rightarrow> bool" where
  "rw_cn_run \<equiv> mon_reaches rw_cond_of rw_cn_enter rw_cn_resume rw_cn_cleanup (\<lambda>n. n = 0) True
     (monitor_new PTHREAD_RWLOCK_INITIALIZER)"

text \<open>
  C5: however the threads that use a lock interleave, and whatever the pthread functions return, the
  locks that were granted are those of a read-write lock: a writer only when it is free, a reader
  only when no writer has it, and \<open>rw_refcount\<close> tells its state. The two counts are the numbers of
  the threads that wait.\<close>

theorem rwlock_excludes:
  assumes "rw_run E False m"
  shows "spec_run rw_grant (mn_log m) Free = Some (mode_of (rw_refcount (mn_state m)))
    \<and> -1 \<le> rw_refcount (mn_state m)
    \<and> rw_nwaitreaders (mn_state m) = waiting_on Condreaders (mn_sleep m + mn_woken m)
    \<and> rw_nwaitwriters (mn_state m) = waiting_on Condwriters (mn_sleep m + mn_woken m)"
  using rwl.from_new [OF assms] rw_new_ok(1) by (simp add: rw_ok_def)

text \<open>Two readers and a writer that waits for them.\<close>

lemma rw_example_run:
  "rw_run (\<lambda>n. n = 0) C (monitor_new (PTHREAD_RWLOCK_INITIALIZER\<lparr>rw_refcount := 1, rw_nwaitwriters := 1\<rparr>)
     \<lparr>mn_sleep := {#Wrlock 2#}, mn_log := [(Rdlock 1, 0)]\<rparr>)"
proof -
  let ?a = "monitor_new PTHREAD_RWLOCK_INITIALIZER"
  have "rw_run (\<lambda>n. n = 0) C ?a" by simp
  from reach_return [OF this, of 0 "Rdlock 1" 0 "PTHREAD_RWLOCK_INITIALIZER\<lparr>rw_refcount := 1\<rparr>" "[]" "{#}" "{#}"]
  have "rw_run (\<lambda>n. n = 0) C (monitor_new (PTHREAD_RWLOCK_INITIALIZER\<lparr>rw_refcount := 1\<rparr>)\<lparr>mn_log := [(Rdlock 1, 0)]\<rparr>)"
    by (simp add: monitor_new_def rdlock_def rdlock_loop_def PTHREAD_RWLOCK_INITIALIZER_def)
  from reach_block [OF this, of 0 "Wrlock 2"
      "PTHREAD_RWLOCK_INITIALIZER\<lparr>rw_refcount := 1, rw_nwaitwriters := 1\<rparr>"]
  show ?thesis by (simp add: monitor_new_def wrlock_def wrlock_loop_def PTHREAD_RWLOCK_INITIALIZER_def)
qed

theorem rwlock_excludes_witness:
  "\<exists>m. rw_run (\<lambda>n. n = 0) False m \<and> mn_log m = [(Rdlock 1, 0)] \<and> mn_sleep m = {#Wrlock 2#}
    \<and> spec_run rw_grant (mn_log m) Free = Some (mode_of 1) \<and> rw_nwaitwriters (mn_state m) = 1"
proof -
  let ?m = "monitor_new (PTHREAD_RWLOCK_INITIALIZER\<lparr>rw_refcount := 1, rw_nwaitwriters := 1\<rparr>)
     \<lparr>mn_sleep := {#Wrlock 2#}, mn_log := [(Rdlock 1, 0)]\<rparr>"
  have "spec_run rw_grant (mn_log ?m) Free = Some (mode_of 1)"
    using rwlock_excludes [OF rw_example_run] by (simp add: monitor_new_def PTHREAD_RWLOCK_INITIALIZER_def)
  moreover have "rw_nwaitwriters (mn_state ?m) = 1" by (simp add: monitor_new_def)
  ultimately show ?thesis using rw_example_run [of False] by (intro exI [of _ ?m]) (simp add: monitor_new_def)
qed

text \<open>
  C18: no thread sleeps on a free lock: when the lock is free and threads wait for it, one of them has
  been waked, and when it gets the mutex it gets the lock.\<close>

theorem rwlock_never_sleeps_on_free_lock:
  assumes "rw_run (\<lambda>n. n = 0) False m" and "rw_refcount (mn_state m) = 0" and "mn_sleep m + mn_woken m \<noteq> {#}"
  shows "\<exists>c s. c \<in># mn_woken m \<and> rw_resume 0 c (mn_state m) = Return 0 s []"
proof -
  let ?s = "mn_state m" and ?w = "mn_woken m"
  have ok: "rw_ok ?s (mn_sleep m) ?w {#} (mn_log m)" "rw_awake ?s (mn_sleep m) ?w"
    using rwa.from_new [OF assms(1)] rw_new_ok by auto
  show ?thesis
  proof (cases "0 < waiting_on Condwriters ?w")
    case True
    then obtain c where "c \<in># ?w" "rw_cond_of c = Condwriters" by (auto simp: waiting_on_pos)
    then show ?thesis using assms(2) by (auto simp: rw_cond_of_writer rw_resume_defs)
  next
    case False
    then have nw: "rw_nwaitwriters ?s = 0"
      using ok assms(2) waiting_on_nonneg [of Condwriters ?w] waiting_on_nonneg [of Condwriters "mn_sleep m"]
      by (auto simp: rw_ok_def rw_awake_def)
    have "0 < waiting_on Condreaders ?w"
    proof (rule ccontr)
      assume r: "\<not> 0 < waiting_on Condreaders ?w"
      then have "\<not> 0 < waiting_on v (mn_sleep m) \<and> \<not> 0 < waiting_on v ?w" for v
        using ok(2) assms(2) False by (cases v) (auto simp: rw_awake_def)
      then show False using assms(3) by (metis waiting_on_pos multiset_nonemptyE union_iff)
    qed
    then obtain c where "c \<in># ?w" "rw_cond_of c = Condreaders" by (auto simp: waiting_on_pos)
    moreover have "rw_blocks c" using ok(1) \<open>c \<in># ?w\<close> by (simp add: rw_ok_def)
    ultimately show ?thesis using assms(2) nw by (cases c) (auto simp: rw_resume_defs)
  qed
qed

lemma rw_unlocked_run:
  "rw_run (\<lambda>n. n = 0) C (monitor_new (PTHREAD_RWLOCK_INITIALIZER\<lparr>rw_nwaitwriters := 1\<rparr>)
     \<lparr>mn_woken := {#Wrlock 2#}, mn_log := [(Rdlock 1, 0), (Unlock 1, 0)]\<rparr>)"
proof -
  have "wakes rw_cond_of [Signal Condwriters] {#Wrlock 2#} {#} {#} {#Wrlock 2#}"
    by (rule wake_one) (auto intro: no_wake)
  then show ?thesis
    using reach_return [OF rw_example_run, of 0 "Unlock 1" 0 "PTHREAD_RWLOCK_INITIALIZER\<lparr>rw_nwaitwriters := 1\<rparr>"
        "[Signal Condwriters]" "{#}" "{#Wrlock 2#}"]
    by (simp add: monitor_new_def unlock_def unlock_release_def unlock_wakes_def PTHREAD_RWLOCK_INITIALIZER_def)
qed

theorem rwlock_never_sleeps_on_free_lock_witness:
  "\<exists>c s. c \<in># {#Wrlock 2#} \<and> rw_resume 0 c (PTHREAD_RWLOCK_INITIALIZER\<lparr>rw_nwaitwriters := 1\<rparr>) = Return 0 s []"
  using rwlock_never_sleeps_on_free_lock [OF rw_unlocked_run]
  by (simp add: monitor_new_def PTHREAD_RWLOCK_INITIALIZER_def)

text \<open>
  waiting writers come first: as long as one waits no thread is granted a read lock, neither a new
  one nor one that has waited.\<close>

theorem rwlock_writers_first:
  assumes "rw_run E False m" and "Wrlock w \<in># mn_sleep m + mn_woken m"
    and "mon_step rw_cond_of rw_enter rw_resume rw_no_cleanup E False m m'"
  shows "mn_log m' \<noteq> mn_log m @ [(Rdlock t, 0)] \<and> mn_log m' \<noteq> mn_log m @ [(Tryrdlock t, 0)]"
proof -
  have ok: "mn_cancelled m = {#}" "rw_ok (mn_state m) (mn_sleep m) (mn_woken m) {#} (mn_log m)"
    using rwl.from_new [OF assms(1)] rw_new_ok by auto
  then have blocks: "\<And>c. c \<in># mn_woken m \<Longrightarrow> rw_blocks c" by (simp add: rw_ok_def)
  have "0 < waiting_on Condwriters (mn_sleep m + mn_woken m)"
    unfolding waiting_on_pos using assms(2) by (auto intro: bexI [of _ "Wrlock w"])
  with ok(2) have nw: "0 < rw_nwaitwriters (mn_state m)" by (simp add: rw_ok_def)
  from assms(3) show ?thesis
  proof cases
    case (mon_return n c r s ws sl wk)
    then show ?thesis using nw by (cases c) (auto simp: rw_enter_defs split: if_splits)
  next
    case (mon_resume n c wk0 r s ws sl wk)
    then show ?thesis using nw blocks [of c] by (cases c) (auto simp: rw_resume_defs split: if_splits)
  qed auto
qed


theorem rwlock_writers_first_witness:
  "\<exists>m' :: (rwlock, rw_call, int) monitor. rw_refcount (mn_state m') = 1 \<and> mn_log m' \<noteq> [(Rdlock 1, 0)] @ [(Rdlock 3, 0)]
    \<and> mn_log m' \<noteq> [(Rdlock 1, 0)] @ [(Tryrdlock 3, 0)]"
proof -
  let ?m = "monitor_new (PTHREAD_RWLOCK_INITIALIZER\<lparr>rw_refcount := 1, rw_nwaitwriters := 1\<rparr>)
     \<lparr>mn_sleep := {#Wrlock 2#}, mn_log := [(Rdlock 1, 0)]\<rparr> :: (rwlock, rw_call, int) monitor"
  let ?m' = "?m\<lparr>mn_state := mn_state ?m\<lparr>rw_nwaitreaders := 1\<rparr>, mn_sleep := {#Rdlock 3, Wrlock 2#}\<rparr>"
  have "mon_step rw_cond_of rw_enter rw_resume rw_no_cleanup (\<lambda>n. n = 0) False ?m ?m'"
    using mon_block [of ?m "\<lambda>n. n = 0" 0 rw_enter "Rdlock 3" "mn_state ?m\<lparr>rw_nwaitreaders := 1\<rparr>" rw_cond_of rw_resume
        rw_no_cleanup False]
    by (simp add: monitor_new_def rdlock_def rdlock_loop_def PTHREAD_RWLOCK_INITIALIZER_def)
  from rwlock_writers_first [OF rw_example_run, of 2 ?m' 3] this show ?thesis
    by (intro exI [of _ ?m']) (simp add: monitor_new_def PTHREAD_RWLOCK_INITIALIZER_def)
qed

text \<open>
  with the cleanup handlers of my_rwlock_cancel the counts and the history stay right when waiting
  threads are cancelled.\<close>

theorem rwlock_cancel_keeps_counts:
  assumes "rw_cn_run m"
  shows "spec_run rw_grant (mn_log m) Free = Some (mode_of (rw_refcount (mn_state m)))
    \<and> rw_nwaitreaders (mn_state m) = waiting_on Condreaders (mn_sleep m + mn_woken m + mn_cancelled m)
    \<and> rw_nwaitwriters (mn_state m) = waiting_on Condwriters (mn_sleep m + mn_woken m + mn_cancelled m)"
  using rwc.from_new [OF assms] rw_new_ok(1) by (simp add: rw_ok_def)

text \<open>
  A reader, a writer that waits for it, and a reader that waits behind the writer. The writer is
  cancelled; before it has the mutex for its handler, the first reader unlocks.\<close>

lemma rw_cn_sleeper:
  "rw_cn_run (monitor_new (PTHREAD_RWLOCK_INITIALIZER\<lparr>rw_nwaitreaders := 1\<rparr>)
     \<lparr>mn_sleep := {#Rdlock 3#}, mn_log := [(Rdlock 1, 0), (Unlock 1, 0)]\<rparr>)"
proof -
  let ?i = "PTHREAD_RWLOCK_INITIALIZER"
  note ev = monitor_new_def PTHREAD_RWLOCK_INITIALIZER_def rw_enter_defs unlock_cn_wakes_def
    rwlock_cancelwrwait_def
  have "rw_cn_run (monitor_new ?i)" by simp
  from reach_return [OF this, of 0 "Rdlock 1" 0 "?i\<lparr>rw_refcount := 1\<rparr>" "[]" "{#}" "{#}"]
  have "rw_cn_run (monitor_new (?i\<lparr>rw_refcount := 1\<rparr>)\<lparr>mn_log := [(Rdlock 1, 0)]\<rparr>)" by (simp add: ev)
  from reach_block [OF this, of 0 "Wrlock 2" "?i\<lparr>rw_refcount := 1, rw_nwaitwriters := 1\<rparr>"]
  have "rw_cn_run (monitor_new (?i\<lparr>rw_refcount := 1, rw_nwaitwriters := 1\<rparr>)
      \<lparr>mn_sleep := {#Wrlock 2#}, mn_log := [(Rdlock 1, 0)]\<rparr>)" by (simp add: ev)
  from reach_block [OF this, of 0 "Rdlock 3" "?i\<lparr>rw_refcount := 1, rw_nwaitwriters := 1, rw_nwaitreaders := 1\<rparr>"]
  have "rw_cn_run (monitor_new (?i\<lparr>rw_refcount := 1, rw_nwaitwriters := 1, rw_nwaitreaders := 1\<rparr>)
      \<lparr>mn_sleep := {#Rdlock 3, Wrlock 2#}, mn_log := [(Rdlock 1, 0)]\<rparr>)" by (simp add: ev)
  from reach_cancel [OF this, of "Wrlock 2" "{#Rdlock 3#}"]
  have "rw_cn_run (monitor_new (?i\<lparr>rw_refcount := 1, rw_nwaitwriters := 1, rw_nwaitreaders := 1\<rparr>)
      \<lparr>mn_sleep := {#Rdlock 3#}, mn_cancelled := {#Wrlock 2#}, mn_log := [(Rdlock 1, 0)]\<rparr>)"
    by (simp add: ev add_mset_commute)
  moreover have "wakes rw_cond_of [Signal Condwriters] {#Rdlock 3#} {#} {#Rdlock 3#} {#}"
    by (rule wake_nobody) (auto intro: no_wake)
  ultimately have "rw_cn_run (monitor_new (?i\<lparr>rw_nwaitwriters := 1, rw_nwaitreaders := 1\<rparr>)
      \<lparr>mn_sleep := {#Rdlock 3#}, mn_cancelled := {#Wrlock 2#}, mn_log := [(Rdlock 1, 0), (Unlock 1, 0)]\<rparr>)"
    using reach_return [of rw_cond_of rw_cn_enter rw_cn_resume rw_cn_cleanup "\<lambda>n. n = 0" True _ _ 0 "Unlock 1" 0
        "?i\<lparr>rw_nwaitwriters := 1, rw_nwaitreaders := 1\<rparr>" "[Signal Condwriters]" "{#Rdlock 3#}" "{#}"]
    by (fastforce simp: ev)
  from reach_cleanup [OF this, of "Wrlock 2" "{#}" "?i\<lparr>rw_nwaitreaders := 1\<rparr>"] show ?thesis by (simp add: ev)
qed

theorem rwlock_cancel_keeps_counts_witness:
  "spec_run rw_grant [(Rdlock 1, 0), (Unlock 1, 0)] Free = Some (mode_of 0) \<and> (1 :: int) = waiting_on Condreaders {#Rdlock 3#}"
  using rwlock_cancel_keeps_counts [OF rw_cn_sleeper] by (simp add: monitor_new_def PTHREAD_RWLOCK_INITIALIZER_def)

text \<open>
  but the handler passes nothing on: a run ends with a reader asleep on a free lock, nobody waked,
  nobody cancelled, and no thread that has anything to unlock.\<close>

theorem rwlock_cancel_loses_wakeup:
  "\<exists>m. rw_cn_run m \<and> \<not> mn_stuck m \<and> mode_of (rw_refcount (mn_state m)) = Free
     \<and> mn_sleep m = {#Rdlock 3#} \<and> mn_woken m = {#} \<and> mn_cancelled m = {#}"
  by (rule exI, rule conjI, rule rw_cn_sleeper) (simp add: monitor_new_def PTHREAD_RWLOCK_INITIALIZER_def mode_of_def)

text \<open>
  without the handlers a cancelled thread takes the mutex with it: no call on the lock returns any
  more.\<close>

theorem rwlock_cancel_locks_for_ever:
  "\<exists>m. rw_run (\<lambda>n. n = 0) True m \<and> mn_log m = [(Rdlock 1, 0)]
     \<and> (\<nexists>m'. mon_reaches rw_cond_of rw_enter rw_resume rw_no_cleanup (\<lambda>n. n = 0) True m m' \<and> mn_log m' \<noteq> mn_log m)"
proof -
  from reach_cancel [OF rw_example_run [where C = True], of "Wrlock 2" "{#}"]
  have "rw_run (\<lambda>n. n = 0) True (monitor_new (PTHREAD_RWLOCK_INITIALIZER\<lparr>rw_refcount := 1, rw_nwaitwriters := 1\<rparr>)
     \<lparr>mn_sleep := {#}, mn_cancelled := {#Wrlock 2#}, mn_log := [(Rdlock 1, 0)]\<rparr>)"
    by (simp add: monitor_new_def)
  from reach_no_cleanup [OF this, of "Wrlock 2" "{#}"]
  have run: "rw_run (\<lambda>n. n = 0) True (monitor_new (PTHREAD_RWLOCK_INITIALIZER\<lparr>rw_refcount := 1, rw_nwaitwriters := 1\<rparr>)
     \<lparr>mn_log := [(Rdlock 1, 0)], mn_stuck := True\<rparr>)" (is "rw_run _ _ ?m")
    by (simp add: monitor_new_def rw_no_cleanup_def)
  have "mn_stuck ?m" "mn_log ?m = [(Rdlock 1, 0)]" by simp_all
  with run show ?thesis by (metis stuck_for_ever)
qed

text \<open>The initialisation destroys what it had set up when it fails.\<close>

lemma rwlock_init_cleans_up:
  "\<lbrakk>\<not> rw_mutex rw; \<not> rw_condreaders rw; \<not> rw_condwriters rw; fst (rwlock_init attr r1 r2 r3 rw) \<noteq> 0\<rbrakk>
    \<Longrightarrow> snd (rwlock_init attr r1 r2 r3 rw) = rw"
  "fst (rwlock_init attr r1 r2 r3 rw) = 0 \<Longrightarrow> snd (rwlock_init attr r1 r2 r3 rw) = PTHREAD_RWLOCK_INITIALIZER"
  by (auto simp: rwlock_init_def PTHREAD_RWLOCK_INITIALIZER_def Let_def split: if_splits)

lemma waiting_on_none: "waiting_on Condreaders w = 0 \<and> waiting_on Condwriters w = 0 \<longleftrightarrow> w = {#}"
proof -
  have "w = {#}" if "\<not> 0 < waiting_on Condreaders w" "\<not> 0 < waiting_on Condwriters w"
    using that by (metis (full_types) rw_cond.exhaust waiting_on_pos multiset_nonemptyE)
  then show ?thesis by auto
qed

lemma mode_of_free: "mode_of rc = Free \<longleftrightarrow> rc = 0"
  by (simp add: mode_of_def)

text \<open>
  a lock is destroyed exactly when it is free and no thread waits for it; else the result is EBUSY.\<close>

theorem rwlock_destroy_only_idle:
  assumes "rw_ok rw sl wk cn lg"
  shows "fst (rwlock_destroy rw)
    = (if sl + wk + cn = {#} \<and> spec_run rw_grant lg Free = Some Free then 0 else EBUSY)"
proof -
  let ?r = "waiting_on Condreaders (sl + wk + cn)" and ?w = "waiting_on Condwriters (sl + wk + cn)"
  have c: "rw_nwaitreaders rw = ?r" "rw_nwaitwriters rw = ?w" "rw_magic rw = RW_MAGIC"
    and f: "spec_run rw_grant lg Free = Some Free \<longleftrightarrow> rw_refcount rw = 0"
    using assms by (simp_all add: rw_ok_def mode_of_free)
  show ?thesis unfolding rwlock_destroy_def c f using waiting_on_none [of "sl + wk + cn"] by auto
qed

theorem rwlock_destroy_only_idle_witness:
  "fst (rwlock_destroy PTHREAD_RWLOCK_INITIALIZER) = 0"
  using rwlock_destroy_only_idle [OF rw_new_ok(1)] by simp

end
