(* ===== verification/Px_Mqueue.thy ===== *)
theory Px_Mqueue
  imports Monitor
begin

text \<open>
  The Posix message queues of UNIX.Network.Programming/unpv22e/my_pxmsg_mmap. A queue is a mapped
  file: a header and mq_maxmsg slots, each a message header and room for mq_msgsize bytes. The
  messages are a linked list in order of priority, the unused slots a second list; links are
  offsets into the file and 0 ends a list. A slot is named here by its offset, so that the file is
  a function from offsets to slots.
\<close>

subsection \<open>The mapped file\<close>

text \<open>The sizes of the structures on x86-64.\<close>

definition sizeof_mymq_hdr :: nat where "sizeof_mymq_hdr = 216"
definition sizeof_mymsg_hdr :: nat where "sizeof_mymsg_hdr = 24"

definition MSGSIZE :: "nat \<Rightarrow> nat" where
  "MSGSIZE i = ((i + 8 - 1) div 8) * 8"

record mymsg_hdr =
  msg_next :: nat
  msg_len :: nat
  msg_prio :: u32
  msg_data :: bytes     \<comment> \<open>what is behind the header\<close>

record sigevent =
  sigev_signal :: bool  \<comment> \<open>\<open>sigev_notify\<close> is SIGEV_SIGNAL\<close>
  sigev_signo :: int
  sigev_value :: int

record mymq =
  mq_maxmsg :: nat
  mq_msgsize :: nat
  mq_curmsgs :: nat
  mqh_head :: nat
  mqh_free :: nat
  mqh_nwait :: int
  mqh_pid :: int
  mqh_event :: sigevent
  mq_slots :: "nat \<Rightarrow> mymsg_hdr"
  mq_signals :: "(int \<times> int \<times> int) list"  \<comment> \<open>what \<open>sigqueue\<close> has sent\<close>

text \<open>One per open: the magic number, O_NONBLOCK, and the process.\<close>

record mymq_info =
  mqi_magic :: int
  mqi_nonblock :: bool
  mqi_pid :: int

definition MQI_MAGIC :: int where "MQI_MAGIC = 0x98765432"

definition mq_stride :: "nat \<Rightarrow> nat" where
  "mq_stride msgsize = sizeof_mymsg_hdr + MSGSIZE msgsize"

definition mq_filesize :: "nat \<Rightarrow> nat \<Rightarrow> nat" where
  "mq_filesize maxmsg msgsize = sizeof_mymq_hdr + maxmsg * mq_stride msgsize"

definition set_msg_next :: "nat \<Rightarrow> nat \<Rightarrow> (nat \<Rightarrow> mymsg_hdr) \<Rightarrow> nat \<Rightarrow> mymsg_hdr" where
  "set_msg_next i v f = f(i := (f i)\<lparr>msg_next := v\<rparr>)"

text \<open>The loop of \<open>mymq_open\<close> that puts all slots on the free list.\<close>

fun mq_format :: "nat \<Rightarrow> nat \<Rightarrow> nat \<Rightarrow> (nat \<Rightarrow> mymsg_hdr) \<Rightarrow> nat \<Rightarrow> mymsg_hdr" where
  "mq_format step 0 index f = set_msg_next index 0 f"
| "mq_format step (Suc n) index f = mq_format step n (index + step) (set_msg_next index (index + step) f)"

definition mq_init :: "nat \<Rightarrow> nat \<Rightarrow> sigevent \<Rightarrow> mymq" where
  "mq_init maxmsg msgsize ev =
     \<lparr>mq_maxmsg = maxmsg, mq_msgsize = msgsize, mq_curmsgs = 0, mqh_head = 0, mqh_free = sizeof_mymq_hdr,
      mqh_nwait = 0, mqh_pid = 0, mqh_event = ev,
      mq_slots = mq_format (mq_stride msgsize) (maxmsg - 1) sizeof_mymq_hdr
        (\<lambda>_. \<lparr>msg_next = 0, msg_len = 0, msg_prio = 0, msg_data = replicate (MSGSIZE msgsize) (CHR 0x00)\<rparr>),
      mq_signals = []\<rparr>"


subsection \<open>mq_send\<close>

datatype mq_result = Mq_sent | Mq_got bytes u32 | Mq_ok | Mq_attr bool nat nat nat mymq_info | Mq_err int

text \<open>The place of \<open>pmsghdr->msg_next\<close>: the head of the list, or the link of a message.\<close>

definition set_link :: "nat option \<Rightarrow> nat \<Rightarrow> mymq \<Rightarrow> mymq" where
  "set_link p v q =
     (case p of None \<Rightarrow> q\<lparr>mqh_head := v\<rparr> | Some i \<Rightarrow> q\<lparr>mq_slots := set_msg_next i v (mq_slots q)\<rparr>)"

partial_function (option) mq_insert :: "u32 \<Rightarrow> nat \<Rightarrow> nat \<Rightarrow> nat option \<Rightarrow> mymq \<Rightarrow> mymq option" where
  "mq_insert prio freeindex index p q =
     (if index = 0 then Some (set_link (Some freeindex) 0 (set_link p freeindex q))
      else if prio > msg_prio (mq_slots q index)
           then Some (set_link p freeindex (set_link (Some freeindex) index q))
      else mq_insert prio freeindex (msg_next (mq_slots q index)) (Some index) q)"

text \<open>What \<open>mymq_send\<close> does once there is room.\<close>

definition mq_put :: "bytes \<Rightarrow> u32 \<Rightarrow> mymq \<Rightarrow> (mq_result, mymq, unit) outcome" where
  "mq_put ptr prio q =
     (if mqh_free q = 0 then Die
      else let freeindex = mqh_free q; m = mq_slots q freeindex;
               m1 = m\<lparr>msg_prio := prio, msg_len := length ptr, msg_data := ptr @ drop (length ptr) (msg_data m)\<rparr>;
               q1 = q\<lparr>mq_slots := (mq_slots q)(freeindex := m1), mqh_free := msg_next m1\<rparr>
           in case mq_insert prio freeindex (mqh_head q1) None q1 of
                None \<Rightarrow> Spin
              | Some q2 \<Rightarrow> Return Mq_sent (q2\<lparr>mq_curmsgs := mq_curmsgs q2 + 1\<rparr>)
                             (if mq_curmsgs q2 = 0 then [Signal ()] else []))"

definition mq_notify_event :: "mymq \<Rightarrow> mymq" where
  "mq_notify_event q =
     (if mqh_pid q \<noteq> 0 \<and> mqh_nwait q = 0
      then q\<lparr>mqh_pid := 0,
             mq_signals := mq_signals q @ (if sigev_signal (mqh_event q)
               then [(mqh_pid q, sigev_signo (mqh_event q), sigev_value (mqh_event q))] else [])\<rparr>
      else q)"

definition mymq_send :: "mymq_info \<Rightarrow> bytes \<Rightarrow> u32 \<Rightarrow> int \<Rightarrow> mymq \<Rightarrow> (mq_result, mymq, unit) outcome" where
  "mymq_send mqd ptr prio n q =
     (if mqi_magic mqd \<noteq> MQI_MAGIC then Return (Mq_err EBADF) q []
      else if n \<noteq> 0 then Return (Mq_err n) q []
      else if length ptr > mq_msgsize q then Return (Mq_err EMSGSIZE) q []
      else if mq_curmsgs q = 0 then mq_put ptr prio (mq_notify_event q)
      else if mq_curmsgs q \<ge> mq_maxmsg q
           then if mqi_nonblock mqd then Return (Mq_err EAGAIN) q [] else Block q
      else mq_put ptr prio q)"

definition mymq_send_woken :: "bytes \<Rightarrow> u32 \<Rightarrow> mymq \<Rightarrow> (mq_result, mymq, unit) outcome" where
  "mymq_send_woken ptr prio q = (if mq_curmsgs q \<ge> mq_maxmsg q then Block q else mq_put ptr prio q)"


subsection \<open>mq_receive\<close>

definition mq_take :: "mymq \<Rightarrow> (mq_result, mymq, unit) outcome" where
  "mq_take q =
     (if mqh_head q = 0 then Die
      else let index = mqh_head q; m = mq_slots q index;
               q1 = q\<lparr>mqh_head := msg_next m\<rparr>;
               q2 = q1\<lparr>mq_slots := set_msg_next index (mqh_free q1) (mq_slots q1), mqh_free := index\<rparr>
           in Return (Mq_got (take (msg_len m) (msg_data m)) (msg_prio m)) (q2\<lparr>mq_curmsgs := mq_curmsgs q2 - 1\<rparr>)
                (if mq_curmsgs q2 = mq_maxmsg q2 then [Signal ()] else []))"

definition mymq_receive :: "mymq_info \<Rightarrow> nat \<Rightarrow> int \<Rightarrow> mymq \<Rightarrow> (mq_result, mymq, unit) outcome" where
  "mymq_receive mqd maxlen n q =
     (if mqi_magic mqd \<noteq> MQI_MAGIC then Return (Mq_err EBADF) q []
      else if n \<noteq> 0 then Return (Mq_err n) q []
      else if maxlen < mq_msgsize q then Return (Mq_err EMSGSIZE) q []
      else if mq_curmsgs q = 0
           then if mqi_nonblock mqd then Return (Mq_err EAGAIN) q [] else Block (q\<lparr>mqh_nwait := mqh_nwait q + 1\<rparr>)
      else mq_take q)"

definition mymq_receive_woken :: "mymq \<Rightarrow> (mq_result, mymq, unit) outcome" where
  "mymq_receive_woken q =
     (if mq_curmsgs q = 0 then Block q else mq_take (q\<lparr>mqh_nwait := mqh_nwait q - 1\<rparr>))"


subsection \<open>The other operations\<close>

text \<open>\<open>alive\<close>: \<open>kill\<close> finds the registered process, or fails with another errno than ESRCH.\<close>

definition mymq_notify :: "mymq_info \<Rightarrow> sigevent option \<Rightarrow> bool \<Rightarrow> int \<Rightarrow> mymq \<Rightarrow> (mq_result, mymq, unit) outcome" where
  "mymq_notify mqd notification alive n q =
     (if mqi_magic mqd \<noteq> MQI_MAGIC then Return (Mq_err EBADF) q []
      else if n \<noteq> 0 then Return (Mq_err n) q []
      else case notification of
        None \<Rightarrow> Return Mq_ok (if mqh_pid q = mqi_pid mqd then q\<lparr>mqh_pid := 0\<rparr> else q) []
      | Some ev \<Rightarrow>
          if mqh_pid q \<noteq> 0 \<and> alive then Return (Mq_err EBUSY) q []
          else Return Mq_ok (q\<lparr>mqh_pid := mqi_pid mqd, mqh_event := ev\<rparr>) [])"

definition mymq_getattr :: "mymq_info \<Rightarrow> int \<Rightarrow> mymq \<Rightarrow> (mq_result, mymq, unit) outcome" where
  "mymq_getattr mqd n q =
     (if mqi_magic mqd \<noteq> MQI_MAGIC then Return (Mq_err EBADF) q []
      else if n \<noteq> 0 then Return (Mq_err n) q []
      else Return (Mq_attr (mqi_nonblock mqd) (mq_maxmsg q) (mq_msgsize q) (mq_curmsgs q) mqd) q [])"

text \<open>The old attributes, and the descriptor with the new flag.\<close>

definition mymq_setattr :: "mymq_info \<Rightarrow> bool \<Rightarrow> int \<Rightarrow> mymq \<Rightarrow> (mq_result, mymq, unit) outcome" where
  "mymq_setattr mqd nonblock n q =
     (if mqi_magic mqd \<noteq> MQI_MAGIC then Return (Mq_err EBADF) q []
      else if n \<noteq> 0 then Return (Mq_err n) q []
      else Return (Mq_attr (mqi_nonblock mqd) (mq_maxmsg q) (mq_msgsize q) (mq_curmsgs q)
                     (mqd\<lparr>mqi_nonblock := nonblock\<rparr>)) q [])"

datatype mq_call =
    Mq_send mymq_info bytes u32
  | Mq_receive mymq_info nat
  | Mq_notify mymq_info "sigevent option" bool
  | Mq_getattr mymq_info
  | Mq_setattr mymq_info bool

fun mq_enter :: "int \<Rightarrow> mq_call \<Rightarrow> mymq \<Rightarrow> (mq_result, mymq, unit) outcome" where
  "mq_enter n (Mq_send mqd ptr prio) = mymq_send mqd ptr prio n"
| "mq_enter n (Mq_receive mqd maxlen) = mymq_receive mqd maxlen n"
| "mq_enter n (Mq_notify mqd ev alive) = mymq_notify mqd ev alive n"
| "mq_enter n (Mq_getattr mqd) = mymq_getattr mqd n"
| "mq_enter n (Mq_setattr mqd nonblock) = mymq_setattr mqd nonblock n"

text \<open>The result of \<open>pthread_cond_wait\<close> is not looked at.\<close>

fun mq_resume :: "int \<Rightarrow> mq_call \<Rightarrow> mymq \<Rightarrow> (mq_result, mymq, unit) outcome" where
  "mq_resume n (Mq_send mqd ptr prio) = mymq_send_woken ptr prio"
| "mq_resume n c = mymq_receive_woken"

definition mq_no_cleanup :: "mq_call \<Rightarrow> mymq \<Rightarrow> mymq option" where
  "mq_no_cleanup c q = None"



subsection \<open>The lists of slots\<close>

text \<open>The links lead from \<open>i\<close> through the slots \<open>xs\<close> to \<open>e\<close>.\<close>

fun mq_seg :: "(nat \<Rightarrow> mymsg_hdr) \<Rightarrow> nat \<Rightarrow> nat list \<Rightarrow> nat \<Rightarrow> bool" where
  "mq_seg f i [] e = (i = e)"
| "mq_seg f i (x # xs) e = (x = i \<and> i \<noteq> 0 \<and> mq_seg f (msg_next (f i)) xs e)"

lemma mq_seg_append: "mq_seg f i (xs @ ys) e \<longleftrightarrow> (\<exists>j. mq_seg f i xs j \<and> mq_seg f j ys e)"
  by (induction xs arbitrary: i) auto

lemma mq_seg_cong: "(\<And>x. x \<in> set xs \<Longrightarrow> msg_next (g x) = msg_next (f x)) \<Longrightarrow> mq_seg g i xs e = mq_seg f i xs e"
  by (induction xs arbitrary: i) auto

lemma set_msg_next_sel [simp]:
  "msg_next (set_msg_next i v f j) = (if j = i then v else msg_next (f j))"
  "msg_prio (set_msg_next i v f j) = msg_prio (f j)"
  "msg_len (set_msg_next i v f j) = msg_len (f j)"
  "msg_data (set_msg_next i v f j) = msg_data (f j)"
  by (simp_all add: set_msg_next_def)

lemma set_msg_next_other [simp]: "j \<noteq> i \<Longrightarrow> set_msg_next i v f j = f j"
  by (simp add: set_msg_next_def)

lemma mq_seg_other: "j \<notin> set xs \<Longrightarrow> mq_seg (set_msg_next j v f) i xs e = mq_seg f i xs e"
  by (rule mq_seg_cong) auto

lemma mq_seg_nonzero: "mq_seg f i xs e \<Longrightarrow> 0 \<notin> set xs"
  by (induction xs arbitrary: i) auto

lemma mq_seg_start: "mq_seg f i xs 0 \<Longrightarrow> i = (if xs = [] then 0 else hd xs)"
  by (cases xs) auto

lemma mq_seg_relink:
  assumes "mq_seg f i (xs @ [l]) e" and "l \<notin> set xs"
  shows "mq_seg (set_msg_next l v f) i (xs @ [l]) v"
  using assms by (auto simp: mq_seg_append mq_seg_other)

text \<open>The fields that relinking leaves alone.\<close>

definition mq_same :: "mymq \<Rightarrow> mymq \<Rightarrow> bool" where
  "mq_same q q' \<longleftrightarrow> mq_maxmsg q' = mq_maxmsg q \<and> mq_msgsize q' = mq_msgsize q \<and> mq_curmsgs q' = mq_curmsgs q
     \<and> mqh_free q' = mqh_free q \<and> mqh_nwait q' = mqh_nwait q \<and> mqh_pid q' = mqh_pid q \<and> mq_signals q' = mq_signals q
     \<and> (\<forall>i. msg_len (mq_slots q' i) = msg_len (mq_slots q i) \<and> msg_prio (mq_slots q' i) = msg_prio (mq_slots q i)
          \<and> msg_data (mq_slots q' i) = msg_data (mq_slots q i))"

lemma mq_same_set_link: "mq_same q (set_link p v q)"
  by (cases p) (simp_all add: mq_same_def set_link_def)

lemma mq_same_trans: "mq_same q q' \<Longrightarrow> mq_same q' q'' \<Longrightarrow> mq_same q q''"
  by (simp add: mq_same_def)

text \<open>A slot put between the two parts of a list.\<close>

lemma mq_splice:
  assumes "mq_seg (mq_slots q) (mqh_head q) ys index" and "mq_seg (mq_slots q) index xs 0"
    and "distinct (ys @ xs)" and "fi \<notin> set (ys @ xs)" and "fi \<noteq> 0"
    and p: "p = (if ys = [] then None else Some (last ys))"
    and q': "q' = set_link p fi (set_link (Some fi) index q) \<or> q' = set_link (Some fi) index (set_link p fi q)"
  shows "mq_seg (mq_slots q') (mqh_head q') (ys @ fi # xs) 0
    \<and> (\<forall>i. i \<notin> set ys \<longrightarrow> i \<noteq> fi \<longrightarrow> mq_slots q' i = mq_slots q i) \<and> mq_same q q'"
proof (cases ys rule: rev_cases)
  case Nil
  then have "mqh_head q' = fi \<and> mq_slots q' = set_msg_next fi index (mq_slots q)"
    using p q' by (auto simp: set_link_def)
  moreover have "mq_same q q'" using q' mq_same_set_link mq_same_trans by blast
  ultimately show ?thesis using Nil assms(2,4,5) by (simp add: mq_seg_other)
next
  case (snoc zs l)
  then have l: "l \<noteq> fi" "l \<notin> set zs" "l \<notin> set xs" "p = Some l" using assms(3,4) p by auto
  have f: "mqh_head q' = mqh_head q \<and> mq_slots q' = set_msg_next l fi (set_msg_next fi index (mq_slots q))"
    using q' l by (auto simp: set_link_def set_msg_next_def fun_upd_twist)
  have "mq_seg (set_msg_next fi index (mq_slots q)) (mqh_head q) (zs @ [l]) index"
    using assms(1,4) snoc by (simp add: mq_seg_other)
  then have "mq_seg (mq_slots q') (mqh_head q) ys fi" using mq_seg_relink l(2) f snoc by simp
  moreover have "mq_seg (mq_slots q') fi (fi # xs) 0" using assms(2,4,5) l f by (simp add: mq_seg_other)
  moreover have "mq_same q q'" using q' mq_same_set_link mq_same_trans by blast
  ultimately show ?thesis using f snoc by (auto simp: mq_seg_append)
qed

text \<open>The loop of \<open>mymq_send\<close> ends, and the new slot is behind those of its priority.\<close>

abbreviation mq_before :: "mymq \<Rightarrow> u32 \<Rightarrow> nat list \<Rightarrow> nat list" where
  "mq_before q prio \<equiv> takeWhile (\<lambda>i. prio \<le> msg_prio (mq_slots q i))"

abbreviation mq_behind :: "mymq \<Rightarrow> u32 \<Rightarrow> nat list \<Rightarrow> nat list" where
  "mq_behind q prio \<equiv> dropWhile (\<lambda>i. prio \<le> msg_prio (mq_slots q i))"

lemma mq_insert_places:
  assumes "mq_seg (mq_slots q) (mqh_head q) ys index" and "mq_seg (mq_slots q) index xs 0"
    and "distinct (ys @ xs)" and "fi \<notin> set (ys @ xs)" and "fi \<noteq> 0"
    and "p = (if ys = [] then None else Some (last ys))"
  shows "\<exists>q'. mq_insert prio fi index p q = Some q'
    \<and> mq_seg (mq_slots q') (mqh_head q') (ys @ mq_before q prio xs @ fi # mq_behind q prio xs) 0
    \<and> (\<forall>i. i \<notin> set (ys @ xs) \<longrightarrow> i \<noteq> fi \<longrightarrow> mq_slots q' i = mq_slots q i) \<and> mq_same q q'"
  using assms
proof (induction xs arbitrary: ys index p)
  case Nil
  then have i: "index = 0" by simp
  let ?q' = "set_link (Some fi) 0 (set_link p fi q)"
  have "mq_insert prio fi index p q = Some ?q'" using i by (simp add: mq_insert.simps)
  then show ?case using mq_splice [OF Nil.prems, of ?q'] i by auto
next
  case (Cons x xs)
  then have x: "index = x" "x \<noteq> 0" by auto
  show ?case
  proof (cases "prio > msg_prio (mq_slots q x)")
    case True
    let ?q' = "set_link p fi (set_link (Some fi) index q)"
    have "mq_insert prio fi index p q = Some ?q'" using x True by (simp add: mq_insert.simps)
    then show ?thesis using mq_splice [OF Cons.prems, of ?q'] True by (auto simp: not_le)
  next
    case False
    have "mq_seg (mq_slots q) (mqh_head q) (ys @ [x]) (msg_next (mq_slots q x))"
      using Cons.prems(1) x by (auto simp: mq_seg_append)
    moreover have "mq_seg (mq_slots q) (msg_next (mq_slots q x)) xs 0" using Cons.prems(2) x by simp
    moreover have "mq_insert prio fi index p q = mq_insert prio fi (msg_next (mq_slots q x)) (Some x) q"
      using x False by (subst mq_insert.simps) simp
    ultimately show ?thesis
      using Cons.IH [of "ys @ [x]" "msg_next (mq_slots q x)" "Some x"] Cons.prems(3-5) False by (auto simp: not_less)
  qed
qed

text \<open>All slots of a new file are on the free list.\<close>

definition slot_offset :: "nat \<Rightarrow> nat \<Rightarrow> nat" where
  "slot_offset msgsize k = sizeof_mymq_hdr + k * mq_stride msgsize"

lemma mq_stride_pos: "0 < mq_stride msgsize"
  by (simp add: mq_stride_def sizeof_mymsg_hdr_def)

lemma MSGSIZE_ge: "i \<le> MSGSIZE i"
  unfolding MSGSIZE_def by presburger

lemma mq_format_other: "(\<And>k. k \<le> n \<Longrightarrow> j \<noteq> index + k * step) \<Longrightarrow> mq_format step n index f j = f j"
proof (induction n arbitrary: index f)
  case (Suc n)
  have "j \<noteq> index + step + k * step" if "k \<le> n" for k
    using Suc.prems [of "Suc k"] that by (simp add: add.assoc)
  with Suc.IH [of "index + step"] Suc.prems [of 0] show ?case by simp
qed (metis add_0_right le_refl mult_0 mq_format.simps(1) set_msg_next_other)

lemma mq_format_data: "msg_data (mq_format step n index f j) = msg_data (f j)"
  by (induction n arbitrary: index f) simp_all

lemma mq_format_seg:
  assumes "0 < index" and "0 < step"
  shows "mq_seg (mq_format step n index f) index (map (\<lambda>k. index + k * step) [0..<Suc n]) 0"
  using assms(1)
proof (induction n arbitrary: index f)
  case (Suc n)
  let ?g = "set_msg_next index (index + step) f"
  have "map (\<lambda>k. index + k * step) [0..<Suc (Suc n)] = index # map (\<lambda>k. index + step + k * step) [0..<Suc n]"
    by (subst upt_conv_Cons, simp, subst map_Suc_upt [symmetric]) (simp add: comp_def add.assoc del: upt_Suc)
  moreover have "mq_format step n (index + step) ?g index = ?g index"
    using assms(2) by (intro mq_format_other) simp
  ultimately show ?case using Suc.IH [of "index + step" ?g] Suc.prems by (simp del: upt_Suc)
qed simp



subsection \<open>What a queue promises\<close>

text \<open>The abstract queue: priorities and messages, the next one first.\<close>

fun pq_insert :: "u32 \<times> bytes \<Rightarrow> (u32 \<times> bytes) list \<Rightarrow> (u32 \<times> bytes) list" where
  "pq_insert m [] = [m]"
| "pq_insert m (x # q) = (if fst m > fst x then m # x # q else x # pq_insert m q)"

lemma pq_insert_split:
  "pq_insert m q = takeWhile (\<lambda>x. fst m \<le> fst x) q @ m # dropWhile (\<lambda>x. fst m \<le> fst x) q"
  by (induction q) (auto simp: not_le)

text \<open>The calls that return, on an abstract queue of at most \<open>mx\<close> messages of at most \<open>sz\<close> bytes.\<close>

fun mq_grant :: "nat \<Rightarrow> nat \<Rightarrow> mq_call \<times> mq_result \<Rightarrow> (u32 \<times> bytes) list \<Rightarrow> (u32 \<times> bytes) list option" where
  "mq_grant mx sz (Mq_send mqd d p, Mq_sent) q =
     (if length q < mx \<and> length d \<le> sz then Some (pq_insert (p, d) q) else None)"
| "mq_grant mx sz (Mq_send mqd d p, Mq_err e) q =
     (if e = EAGAIN \<and> length q < mx \<or> e = EMSGSIZE \<and> length d \<le> sz then None else Some q)"
| "mq_grant mx sz (Mq_receive mqd k, Mq_got d p) q =
     (case q of [] \<Rightarrow> None | x # q' \<Rightarrow> if x = (p, d) \<and> length d \<le> k then Some q' else None)"
| "mq_grant mx sz (Mq_receive mqd k, Mq_err e) q =
     (if e = EAGAIN \<and> q \<noteq> [] \<or> e = EMSGSIZE \<and> sz \<le> k then None else Some q)"
| "mq_grant mx sz (Mq_getattr mqd, Mq_attr nb a b c i) q = (if a = mx \<and> b = sz \<and> c = length q then Some q else None)"
| "mq_grant mx sz (Mq_setattr mqd nb', Mq_attr nb a b c i) q = (if a = mx \<and> b = sz \<and> c = length q then Some q else None)"
| "mq_grant mx sz (Mq_notify mqd ev al, Mq_ok) q = Some q"
| "mq_grant mx sz (c, Mq_err e) q = Some q"
| "mq_grant mx sz (c, r) q = None"

definition mq_message :: "mymq \<Rightarrow> nat \<Rightarrow> u32 \<times> bytes" where
  "mq_message q i = (msg_prio (mq_slots q i), take (msg_len (mq_slots q i)) (msg_data (mq_slots q i)))"

text \<open>
  A well-formed file: \<open>ms\<close> are the slots of the messages, \<open>fs\<close> the free ones; together they are the
  slots of the file, each once, and no message is longer than its slot.\<close>

definition mq_wf :: "nat \<Rightarrow> nat \<Rightarrow> mymq \<Rightarrow> nat list \<Rightarrow> nat list \<Rightarrow> bool" where
  "mq_wf mx sz q ms fs \<longleftrightarrow>
     mq_maxmsg q = mx \<and> mq_msgsize q = sz \<and> mq_curmsgs q = length ms
     \<and> mq_seg (mq_slots q) (mqh_head q) ms 0 \<and> mq_seg (mq_slots q) (mqh_free q) fs 0
     \<and> distinct (ms @ fs) \<and> set (ms @ fs) = slot_offset sz ` {..<mx}
     \<and> (\<forall>i \<in> set (ms @ fs). length (msg_data (mq_slots q i)) = MSGSIZE sz)
     \<and> (\<forall>i \<in> set ms. msg_len (mq_slots q i) \<le> sz)"

lemma slot_offset_inj: "inj (slot_offset sz)"
  using mq_stride_pos [of sz] by (auto simp: inj_def slot_offset_def)

lemma mq_wf_length:
  assumes "mq_wf mx sz q ms fs"
  shows "length ms + length fs = mx"
proof -
  have "length (ms @ fs) = card (set (ms @ fs))" using assms by (metis distinct_card mq_wf_def)
  also have "\<dots> = mx" using assms by (simp add: mq_wf_def card_image [OF inj_on_subset [OF slot_offset_inj]])
  finally show ?thesis by simp
qed

lemma mq_init_wf:
  assumes "0 < mx"
  shows "mq_wf mx sz (mq_init mx sz ev) [] (map (slot_offset sz) [0..<mx])"
proof -
  have "Suc (mx - 1) = mx" using assms by simp
  then have "mq_seg (mq_slots (mq_init mx sz ev)) (mqh_free (mq_init mx sz ev)) (map (slot_offset sz) [0..<mx]) 0"
    using mq_format_seg [of sizeof_mymq_hdr "mq_stride sz" "mx - 1"] mq_stride_pos [of sz]
    by (simp add: mq_init_def slot_offset_def [abs_def] sizeof_mymq_hdr_def)
  moreover have "set (map (slot_offset sz) [0..<mx]) = slot_offset sz ` {..<mx}" by (auto simp: atLeast0LessThan)
  ultimately show ?thesis
    by (simp add: mq_wf_def mq_init_def mq_format_data distinct_map inj_on_subset [OF slot_offset_inj])
qed

lemma mq_split:
  assumes "xs = a @ b"
  shows "set (a @ f # b) = insert f (set xs)" and "length (a @ f # b) = Suc (length xs)"
    and "distinct xs \<Longrightarrow> f \<notin> set xs \<Longrightarrow> distinct (a @ f # b)"
  using assms by auto

lemma mq_split_messages:
  assumes "\<And>i. i \<in> set ms \<Longrightarrow> mq_message q' i = mq_message q i" and "mq_message q' f = (prio, d)"
  shows "map (mq_message q') (mq_before q prio ms @ f # mq_behind q prio ms) = pq_insert (prio, d) (map (mq_message q) ms)"
proof -
  have "map (mq_message q') (mq_before q prio ms) = map (mq_message q) (mq_before q prio ms)"
    "map (mq_message q') (mq_behind q prio ms) = map (mq_message q) (mq_behind q prio ms)"
    using assms(1) by (auto dest: set_takeWhileD set_dropWhileD)
  then show ?thesis
    using assms(2) by (simp add: pq_insert_split takeWhile_map dropWhile_map comp_def mq_message_def)
qed

text \<open>A message is put in a slot that is free, and only that slot is written.\<close>

lemma mq_message_cong:
  "mq_same q q' \<Longrightarrow> mq_message q' i = mq_message q i"
  by (simp add: mq_same_def mq_message_def)

lemma mq_put_wf:
  assumes wf: "mq_wf mx sz q ms fs" and room: "length ms < mx" and len: "length ptr \<le> sz"
  shows "\<exists>q' f fs' ws. mq_put ptr prio q = Return Mq_sent q' ws \<and> fs = f # fs' \<and> mqh_nwait q' = mqh_nwait q
    \<and> mq_wf mx sz q' (mq_before q prio ms @ f # mq_behind q prio ms) fs'
    \<and> map (mq_message q') (mq_before q prio ms @ f # mq_behind q prio ms)
        = pq_insert (prio, ptr) (map (mq_message q) ms)
    \<and> ws = (if ms = [] then [Signal ()] else []) \<and> mqh_pid q' = mqh_pid q \<and> mq_signals q' = mq_signals q"
proof -
  obtain f fs' where fs: "fs = f # fs'" using mq_wf_length [OF wf] room by (cases fs) auto
  have free: "mqh_free q = f" "f \<noteq> 0" "f \<notin> set ms" "f \<notin> set fs'" "mq_seg (mq_slots q) (msg_next (mq_slots q f)) fs' 0"
    and seg: "mq_seg (mq_slots q) (mqh_head q) ms 0" and dist: "distinct ms" "distinct fs'" "set ms \<inter> set fs' = {}"
    and room': "length (msg_data (mq_slots q f)) = MSGSIZE sz" and cur: "mq_curmsgs q = length ms"
    using wf by (auto simp: mq_wf_def fs)
  let ?m = "(mq_slots q f)\<lparr>msg_prio := prio, msg_len := length ptr, msg_data := ptr @ drop (length ptr) (msg_data (mq_slots q f))\<rparr>"
  let ?q1 = "q\<lparr>mq_slots := (mq_slots q)(f := ?m), mqh_free := msg_next (mq_slots q f)\<rparr>"
  let ?ms' = "mq_before q prio ms @ f # mq_behind q prio ms"
  have same: "mq_slots ?q1 i = mq_slots q i" if "i \<noteq> f" for i using that by simp
  have seg1: "mq_seg (mq_slots ?q1) (mqh_head ?q1) ms 0"
    using mq_seg_cong [of ms "mq_slots ?q1" "mq_slots q"] seg by auto
  have parts: "mq_before ?q1 prio ms = mq_before q prio ms" "mq_behind ?q1 prio ms = mq_behind q prio ms"
    using free(3) by (auto intro: takeWhile_cong dropWhile_cong)
  obtain q' where q': "mq_insert prio f (mqh_head ?q1) None ?q1 = Some q'"
    "mq_seg (mq_slots q') (mqh_head q') ?ms' 0" "\<forall>i. i \<notin> set ms \<longrightarrow> i \<noteq> f \<longrightarrow> mq_slots q' i = mq_slots ?q1 i" "mq_same ?q1 q'"
    using mq_insert_places [of ?q1 "[]" "mqh_head ?q1" ms f None prio] seg1 dist(1) free(2,3)
    unfolding parts by auto
  let ?r = "q'\<lparr>mq_curmsgs := Suc (length ms)\<rparr>"
  have cur': "mq_curmsgs q' = length ms" "mqh_nwait q' = mqh_nwait q" "mq_maxmsg q' = mq_maxmsg q"
    "mq_msgsize q' = mq_msgsize q" "mqh_free q' = msg_next (mq_slots q f)" "mqh_pid q' = mqh_pid q" "mq_signals q' = mq_signals q"
    using q'(4) cur by (simp_all add: mq_same_def)
  have put: "mq_put ptr prio q = Return Mq_sent ?r (if ms = [] then [Signal ()] else [])"
    using q'(1) free(1,2) cur' by (simp add: mq_put_def Let_def)
  have rest: "mq_slots q' i = mq_slots q i" if "i \<in> set fs'" for i
    using q'(3) that dist(3) free(4) by (metis disjoint_iff same)
  then have segf: "mq_seg (mq_slots q') (mqh_free q') fs' 0"
    using free(5) mq_seg_cong [of fs' "mq_slots q'" "mq_slots q"] cur'(5) by simp
  have cont: "msg_len (mq_slots q' i) = msg_len (mq_slots ?q1 i)" "msg_data (mq_slots q' i) = msg_data (mq_slots ?q1 i)"
    "mq_message q' i = mq_message ?q1 i" for i
    using q'(4) mq_message_cong [OF q'(4)] by (simp_all add: mq_same_def)
  have elems: "set ?ms' = insert f (set ms)" "distinct ?ms'" "length ?ms' = Suc (length ms)"
    using mq_split [OF takeWhile_dropWhile_id [symmetric], where f = f and xs = ms] dist(1) free(3) by blast+
  have data: "length (msg_data (mq_slots q' i)) = MSGSIZE sz" if "i \<in> insert f (set ms \<union> set fs')" for i
  proof (cases "i = f")
    case True
    then show ?thesis using room' len MSGSIZE_ge [of sz] by (simp add: cont)
  next
    case False
    then show ?thesis using that wf fs by (auto simp: cont mq_wf_def)
  qed
  have lens: "msg_len (mq_slots q' i) \<le> sz" if "i \<in> insert f (set ms)" for i
    using that wf len by (cases "i = f") (auto simp: cont mq_wf_def)
  have all: "set (?ms' @ fs') = set (ms @ fs)" "distinct (?ms' @ fs')"
    using elems(1,2) dist(2,3) free(3,4) by (auto simp: fs)
  have wf': "mq_wf mx sz ?r ?ms' fs'"
    unfolding mq_wf_def all(1)
    using wf all(2) elems(3) q'(2) segf data lens cur' by (auto simp: mq_wf_def fs elems(1) simp del: distinct_append dest: set_takeWhileD set_dropWhileD)
  have "mq_message ?r f = (prio, ptr)" "\<And>i. i \<in> set ms \<Longrightarrow> mq_message ?r i = mq_message q i"
    using cont(3) free(3) by (auto simp: mq_message_def)
  from mq_split_messages [OF this(2,1)]
  have msgs: "map (mq_message ?r) ?ms' = pq_insert (prio, ptr) (map (mq_message q) ms)" by blast
  show ?thesis using put wf' msgs fs cur'(2,6,7)
    by (intro exI [of _ ?r] exI [of _ f] exI [of _ fs'] exI [of _ "if ms = [] then [Signal ()] else []"]) simp
qed


text \<open>The first message is taken out, and its slot is the first of the free ones.\<close>

lemma mq_take_wf:
  assumes wf: "mq_wf mx sz q (i # ms) fs"
  shows "\<exists>q' ws. mq_take q = Return (Mq_got (snd (mq_message q i)) (fst (mq_message q i))) q' ws
    \<and> mqh_nwait q' = mqh_nwait q \<and> mq_wf mx sz q' ms (i # fs) \<and> map (mq_message q') ms = map (mq_message q) ms
    \<and> ws = (if Suc (length ms) = mx then [Signal ()] else [])"
proof -
  have i: "mqh_head q = i" "i \<noteq> 0" "mq_seg (mq_slots q) (msg_next (mq_slots q i)) ms 0" "i \<notin> set ms" "i \<notin> set fs"
    "mq_seg (mq_slots q) (mqh_free q) fs 0" and cur: "mq_curmsgs q = Suc (length ms)"
    using wf by (auto simp: mq_wf_def)
  let ?q' = "q\<lparr>mqh_head := msg_next (mq_slots q i), mq_slots := set_msg_next i (mqh_free q) (mq_slots q), mqh_free := i,
      mq_curmsgs := length ms\<rparr>"
  have "mq_take q = Return (Mq_got (snd (mq_message q i)) (fst (mq_message q i))) ?q'
      (if mq_curmsgs q = mq_maxmsg q then [Signal ()] else [])"
    using i(1,2) cur by (simp add: mq_take_def Let_def mq_message_def)
  moreover have "mq_wf mx sz ?q' ms (i # fs)"
  proof -
    have all: "set (ms @ i # fs) = set ((i # ms) @ fs)" by auto
    have "distinct ((i # ms) @ fs)" "\<forall>j \<in> set (i # ms). msg_len (mq_slots q j) \<le> sz"
      using wf unfolding mq_wf_def by blast+
    then have "distinct (ms @ i # fs)" "\<forall>j \<in> set ms. msg_len (mq_slots q j) \<le> sz" by auto
    then show ?thesis
      unfolding mq_wf_def all using wf i by (simp add: mq_wf_def mq_seg_other del: set_append list.set distinct_append)
  qed
  moreover have "mq_message ?q' j = mq_message q j" for j by (simp add: mq_message_def)
  moreover have "mq_maxmsg q = mx" using wf by (simp add: mq_wf_def)
  ultimately show ?thesis using cur by auto
qed


subsection \<open>The queue and its threads\<close>

fun is_receive :: "mq_call \<Rightarrow> bool" where
  "is_receive (Mq_receive mqd k) = True"
| "is_receive c = False"

text \<open>A call that may sleep: its arguments have passed the tests.\<close>

fun mq_may_sleep :: "nat \<Rightarrow> mq_call \<Rightarrow> bool" where
  "mq_may_sleep sz (Mq_send mqd d p) = (length d \<le> sz)"
| "mq_may_sleep sz (Mq_receive mqd k) = (sz \<le> k)"
| "mq_may_sleep sz c = False"

definition receivers :: "mq_call multiset \<Rightarrow> int" where
  "receivers w = int (size (filter_mset is_receive w))"

lemma receivers_simps [simp]:
  "receivers {#} = 0"
  "receivers (add_mset c w) = receivers w + (if is_receive c then 1 else 0)"
  "receivers (w + w') = receivers w + receivers w'"
  by (simp_all add: receivers_def)

definition mq_ok :: "nat \<Rightarrow> nat \<Rightarrow> mymq \<Rightarrow> mq_call multiset \<Rightarrow> mq_call multiset \<Rightarrow> mq_call multiset
    \<Rightarrow> (mq_call \<times> mq_result) list \<Rightarrow> bool" where
  "mq_ok mx sz q sl wk cn lg \<longleftrightarrow>
     (\<exists>ms fs. mq_wf mx sz q ms fs \<and> spec_run (mq_grant mx sz) lg [] = Some (map (mq_message q) ms))
     \<and> mqh_nwait q = receivers (sl + wk + cn) \<and> (\<forall>c \<in># sl + wk + cn. mq_may_sleep sz c)"

text \<open>A call that has its turn, on a queue that is well formed.\<close>

definition mq_steps_to :: "nat \<Rightarrow> nat \<Rightarrow> mymq \<Rightarrow> nat list \<Rightarrow> int \<Rightarrow> mq_call \<Rightarrow> (mq_result, mymq, unit) outcome \<Rightarrow> bool" where
  "mq_steps_to mx sz q ms w c out \<longleftrightarrow>
     (case out of
        Return r q' ws \<Rightarrow> (\<exists>ms' fs'. mq_wf mx sz q' ms' fs'
            \<and> mq_grant mx sz (c, r) (map (mq_message q) ms) = Some (map (mq_message q') ms'))
          \<and> mqh_nwait q' = mqh_nwait q - w
      | Block q' \<Rightarrow> (\<exists>ms' fs'. mq_wf mx sz q' ms' fs' \<and> map (mq_message q') ms' = map (mq_message q) ms)
          \<and> mqh_nwait q' = mqh_nwait q - w + (if is_receive c then 1 else 0) \<and> mq_may_sleep sz c
      | Die \<Rightarrow> False | Spin \<Rightarrow> False)"

lemma mq_notify_wf [simp]:
  "mq_wf mx sz (mq_notify_event q) ms fs = mq_wf mx sz q ms fs"
  "mq_message (mq_notify_event q) i = mq_message q i"
  "mqh_nwait (mq_notify_event q) = mqh_nwait q"
  by (simp_all add: mq_notify_event_def mq_wf_def mq_message_def)

lemma mq_put_steps:
  assumes "mq_wf mx sz q ms fs" and "length ms < mx" and "length ptr \<le> sz"
  shows "mq_steps_to mx sz q ms 0 (Mq_send mqd ptr prio) (mq_put ptr prio q)"
proof -
  from mq_put_wf [OF assms, of prio] obtain q' f fs' ws where
    "mq_put ptr prio q = Return Mq_sent q' ws" "mqh_nwait q' = mqh_nwait q"
    "mq_wf mx sz q' (mq_before q prio ms @ f # mq_behind q prio ms) fs'"
    "map (mq_message q') (mq_before q prio ms @ f # mq_behind q prio ms)
        = pq_insert (prio, ptr) (map (mq_message q) ms)" by blast
  then show ?thesis using assms(2,3) by (fastforce simp: mq_steps_to_def)
qed

lemma mq_notified_steps:
  "mq_steps_to mx sz (mq_notify_event q) ms w c out = mq_steps_to mx sz q ms w c out"
proof -
  have "mq_message (mq_notify_event q) = mq_message q" by (rule ext) simp
  then show ?thesis by (simp only: mq_steps_to_def mq_notify_wf(3))
qed

lemma mq_send_steps:
  assumes "mq_wf mx sz q ms fs" and "0 < mx" and "n \<noteq> EAGAIN" and "n \<noteq> EMSGSIZE"
  shows "mq_steps_to mx sz q ms 0 (Mq_send mqd ptr prio) (mymq_send mqd ptr prio n q)"
proof (cases "mqi_magic mqd = MQI_MAGIC \<and> n = 0 \<and> length ptr \<le> sz \<and> length ms < mx")
  case True
  then have p: "mq_steps_to mx sz q ms 0 (Mq_send mqd ptr prio) (mq_put ptr prio q)"
    "mq_steps_to mx sz q ms 0 (Mq_send mqd ptr prio) (mq_put ptr prio (mq_notify_event q))"
    using mq_put_steps [OF assms(1)] mq_put_steps [of mx sz "mq_notify_event q" ms fs] assms(1)
    by (simp_all add: mq_notified_steps)
  have "mq_maxmsg q = mx" "mq_msgsize q = sz" "mq_curmsgs q = length ms" using assms(1) by (simp_all add: mq_wf_def)
  with p True show ?thesis by (cases "ms = []") (auto simp: mymq_send_def)
next
  case False
  have "mq_maxmsg q = mx" "mq_msgsize q = sz" "mq_curmsgs q = length ms" using assms(1) by (simp_all add: mq_wf_def)
  with False assms show ?thesis by (auto simp: mymq_send_def mq_steps_to_def)
qed

lemma mq_take_steps:
  assumes "mq_wf mx sz q ms fs" and "ms \<noteq> []" and "sz \<le> k"
  shows "mq_steps_to mx sz q ms 0 (Mq_receive mqd k) (mq_take q)"
proof -
  obtain i ms' where ms: "ms = i # ms'" using assms(2) by (cases ms) auto
  from mq_take_wf [OF assms(1) [unfolded ms]] obtain q' ws where
    "mq_take q = Return (Mq_got (snd (mq_message q i)) (fst (mq_message q i))) q' ws"
    "mqh_nwait q' = mqh_nwait q" "mq_wf mx sz q' ms' (i # fs)" "map (mq_message q') ms' = map (mq_message q) ms'" by blast
  moreover have "length (snd (mq_message q i)) \<le> k"
    using assms(1,3) by (auto simp: mq_message_def mq_wf_def ms)
  ultimately show ?thesis by (fastforce simp: mq_steps_to_def ms)
qed

lemma mq_wait_wf [simp]:
  "mq_wf mx sz (q\<lparr>mqh_nwait := w\<rparr>) ms fs = mq_wf mx sz q ms fs"
  "mq_message (q\<lparr>mqh_nwait := w\<rparr>) i = mq_message q i"
  by (simp_all add: mq_wf_def mq_message_def)

lemma mq_receive_steps:
  assumes "mq_wf mx sz q ms fs" and "n \<noteq> EAGAIN" and "n \<noteq> EMSGSIZE"
  shows "mq_steps_to mx sz q ms 0 (Mq_receive mqd k) (mymq_receive mqd k n q)"
proof -
  have f: "mq_maxmsg q = mx" "mq_msgsize q = sz" "mq_curmsgs q = length ms" using assms(1) by (simp_all add: mq_wf_def)
  show ?thesis
  proof (cases "mqi_magic mqd = MQI_MAGIC \<and> n = 0 \<and> sz \<le> k \<and> ms \<noteq> []")
    case True
    then show ?thesis using mq_take_steps [OF assms(1)] f by (simp add: mymq_receive_def)
  next
    case False
    then show ?thesis using assms f by (auto simp: mymq_receive_def mq_steps_to_def)
  qed
qed

lemma mq_enter_steps:
  assumes "mq_wf mx sz q ms fs" and "0 < mx" and "n \<noteq> EAGAIN" and "n \<noteq> EMSGSIZE"
  shows "mq_steps_to mx sz q ms 0 c (mq_enter n c q)"
proof -
  have f: "mq_maxmsg q = mx" "mq_msgsize q = sz" "mq_curmsgs q = length ms" using assms(1) by (simp_all add: mq_wf_def)
  have upd: "mq_wf mx sz (q\<lparr>mqh_pid := p\<rparr>) ms fs" "mq_wf mx sz (q\<lparr>mqh_pid := p, mqh_event := ev\<rparr>) ms fs"
    "mq_message (q\<lparr>mqh_pid := p\<rparr>) = mq_message q" "mq_message (q\<lparr>mqh_pid := p, mqh_event := ev\<rparr>) = mq_message q" for p ev
    using assms(1) by (simp_all add: mq_wf_def mq_message_def [abs_def])
  show ?thesis
  proof (cases c)
    case (Mq_notify mqd notification alive)
    with upd assms(1) show ?thesis
      by (fastforce simp: mymq_notify_def mq_steps_to_def split: option.splits)
  qed (use mq_send_steps [OF assms] mq_receive_steps [OF assms(1,3,4)] assms(1) f in
    \<open>auto simp: mymq_getattr_def mymq_setattr_def mq_steps_to_def\<close>)
qed

lemma mq_steps_unwait:
  "mq_steps_to mx sz (q\<lparr>mqh_nwait := mqh_nwait q - 1\<rparr>) ms 0 c out = mq_steps_to mx sz q ms 1 c out"
proof -
  have "mq_message (q\<lparr>mqh_nwait := mqh_nwait q - 1\<rparr>) = mq_message q" by (rule ext) simp
  then show ?thesis by (simp add: mq_steps_to_def cong: outcome.case_cong)
qed

lemma mq_resume_steps:
  assumes "mq_wf mx sz q ms fs" and "mq_may_sleep sz c"
  shows "mq_steps_to mx sz q ms (if is_receive c then 1 else 0) c (mq_resume n c q)"
proof -
  have f: "mq_maxmsg q = mx" "mq_msgsize q = sz" "mq_curmsgs q = length ms" using assms(1) by (simp_all add: mq_wf_def)
  show ?thesis
  proof (cases c)
    case (Mq_send mqd ptr prio)
    then show ?thesis using mq_put_steps [OF assms(1)] assms f
      by (auto simp: mymq_send_woken_def mq_steps_to_def [of _ _ _ _ _ _ "Block q"])
  next
    case (Mq_receive mqd k)
    then have "mq_steps_to mx sz (q\<lparr>mqh_nwait := mqh_nwait q - 1\<rparr>) ms 0 c (mq_take (q\<lparr>mqh_nwait := mqh_nwait q - 1\<rparr>))"
      if "ms \<noteq> []"
      using mq_take_steps [of mx sz "q\<lparr>mqh_nwait := mqh_nwait q - 1\<rparr>" ms fs k mqd] assms that by simp
    then show ?thesis using Mq_receive assms f
      by (auto simp: mymq_receive_woken_def mq_steps_unwait mq_steps_to_def [of _ _ _ _ _ _ "Block q"])
  qed (use assms(2) in simp_all)
qed


lemma mq_ok_wakes: "mq_ok mx sz q sl wk cn lg \<Longrightarrow> wakes cv ws sl wk sl' wk' \<Longrightarrow> mq_ok mx sz q sl' wk' cn lg"
  using wakes_union [of cv ws sl wk sl' wk'] by (simp add: mq_ok_def)

lemma mq_enter_kept:
  assumes "mq_ok mx sz q sl wk cn lg" and "0 < mx" and "n \<noteq> EAGAIN" and "n \<noteq> EMSGSIZE"
  shows "mq_enter n c q = Return r t ws \<Longrightarrow> mq_ok mx sz t sl wk cn (lg @ [(c, r)])"
    and "mq_enter n c q = Block t \<Longrightarrow> mq_ok mx sz t (add_mset c sl) wk cn lg"
    and "mq_enter n c q \<noteq> Die" and "mq_enter n c q \<noteq> Spin"
proof -
  obtain ms fs where wf: "mq_wf mx sz q ms fs" and lg: "spec_run (mq_grant mx sz) lg [] = Some (map (mq_message q) ms)"
    using assms(1) by (auto simp: mq_ok_def)
  note steps = mq_enter_steps [OF wf assms(2-4), of c]
  show "mq_enter n c q = Return r t ws \<Longrightarrow> mq_ok mx sz t sl wk cn (lg @ [(c, r)])"
    using steps assms(1) lg by (auto simp: mq_steps_to_def mq_ok_def)
  show "mq_enter n c q = Block t \<Longrightarrow> mq_ok mx sz t (add_mset c sl) wk cn lg"
    using steps assms(1) lg by (fastforce simp: mq_steps_to_def mq_ok_def)
  show "mq_enter n c q \<noteq> Die" and "mq_enter n c q \<noteq> Spin"
    using steps by (auto simp: mq_steps_to_def)
qed

lemma mq_resume_kept:
  assumes "mq_ok mx sz q sl (add_mset c wk) cn lg"
  shows "mq_resume n c q = Return r t ws \<Longrightarrow> mq_ok mx sz t sl wk cn (lg @ [(c, r)])"
    and "mq_resume n c q = Block t \<Longrightarrow> mq_ok mx sz t (add_mset c sl) wk cn lg"
    and "mq_resume n c q \<noteq> Die" and "mq_resume n c q \<noteq> Spin"
proof -
  obtain ms fs where wf: "mq_wf mx sz q ms fs" and lg: "spec_run (mq_grant mx sz) lg [] = Some (map (mq_message q) ms)"
    and c: "mq_may_sleep sz c"
    using assms(1) by (auto simp: mq_ok_def)
  note steps = mq_resume_steps [OF wf c, of n]
  show "mq_resume n c q = Return r t ws \<Longrightarrow> mq_ok mx sz t sl wk cn (lg @ [(c, r)])"
    using steps assms(1) lg by (auto simp: mq_steps_to_def mq_ok_def split: if_splits)
  show "mq_resume n c q = Block t \<Longrightarrow> mq_ok mx sz t (add_mset c sl) wk cn lg"
    using steps assms(1) lg by (fastforce simp: mq_steps_to_def mq_ok_def split: if_splits)
  show "mq_resume n c q \<noteq> Die" and "mq_resume n c q \<noteq> Spin"
    using steps by (auto simp: mq_steps_to_def)
qed

lemma mq_spurious_kept: "mq_ok mx sz q (add_mset c sl) wk cn lg \<Longrightarrow> mq_ok mx sz q sl (add_mset c wk) cn lg"
  by (auto simp: mq_ok_def)

interpretation mqm: monitor_invariant "\<lambda>_. ()" mq_enter mq_resume mq_no_cleanup "\<lambda>n. n \<noteq> EAGAIN \<and> n \<noteq> EMSGSIZE" False
  "\<lambda>q sl wk cn lg. (0 < mx \<and> cn = {#}) \<and> mq_ok mx sz q sl wk cn lg" for mx sz
  by unfold_locales
    (auto simp: mq_no_cleanup_def dest: mq_enter_kept(1) mq_resume_kept(1)
      intro: mq_ok_wakes mq_enter_kept(2) mq_resume_kept(2) mq_spurious_kept)



subsection \<open>Properties\<close>

abbreviation mq_results :: "int \<Rightarrow> bool" where
  "mq_results n \<equiv> n \<noteq> EAGAIN \<and> n \<noteq> EMSGSIZE"

abbreviation mq_run :: "nat \<Rightarrow> nat \<Rightarrow> sigevent \<Rightarrow> (int \<Rightarrow> bool) \<Rightarrow> (mymq, mq_call, mq_result) monitor \<Rightarrow> bool" where
  "mq_run mx sz ev E \<equiv> mon_reaches (\<lambda>_. ()) mq_enter mq_resume mq_no_cleanup E False (monitor_new (mq_init mx sz ev))"

lemma mq_init_ok: "0 < mx \<Longrightarrow> mq_ok mx sz (mq_init mx sz ev) {#} {#} {#} []"
proof -
  assume "0 < mx"
  from mq_init_wf [OF this, of sz ev] show ?thesis unfolding mq_ok_def
    by (intro conjI exI [of _ "[]"] exI [of _ "map (slot_offset sz) [0..<mx]"]) (simp_all add: mq_init_def)
qed

lemma mq_reachable_ok:
  assumes "mq_run mx sz ev mq_results m" and "0 < mx"
  shows "mq_ok mx sz (mn_state m) (mn_sleep m) (mn_woken m) (mn_cancelled m) (mn_log m) \<and> mn_cancelled m = {#}"
  using mqm.from_new [OF assms(1), of mx sz] mq_init_ok [OF assms(2)] assms(2) by blast

abbreviation by_priority :: "(u32 \<times> bytes) list \<Rightarrow> bool" where
  "by_priority \<equiv> sorted_wrt (\<lambda>x y. fst y \<le> fst x)"

lemma pq_insert_sorted: "by_priority q \<Longrightarrow> by_priority (pq_insert m q)"
proof (induction q)
  case (Cons x q)
  have "set (pq_insert m q) = insert m (set q)" by (induction q) auto
  with Cons show ?case by (auto simp: not_less intro: order.trans less_imp_le)
qed simp

lemma mq_grant_sorted: "mq_grant mx sz e q = Some q' \<Longrightarrow> by_priority q \<Longrightarrow> by_priority q'"
  by (cases "(mx, sz, e, q)" rule: mq_grant.cases) (auto simp: pq_insert_sorted split: if_splits list.splits)

lemma mq_run_sorted: "spec_run (mq_grant mx sz) lg q = Some q' \<Longrightarrow> by_priority q \<Longrightarrow> by_priority q'"
  by (induction lg arbitrary: q) (auto split: option.splits dest: mq_grant_sorted)

text \<open>
  C3: the queue in the mapped file is a priority queue. However processes and threads interleave, the
  calls that have returned are those of one queue of at most mq_maxmsg messages of at most
  mq_msgsize bytes, where a message is put behind those of its priority and above and the first is
  received; the list in the file holds this queue, in the order of the priorities, and mqh_nwait
  counts the threads that wait to receive.\<close>

theorem mq_is_priority_queue:
  assumes "mq_run mx sz ev mq_results m" and "0 < mx"
  shows "\<exists>ms fs. mq_wf mx sz (mn_state m) ms fs
    \<and> spec_run (mq_grant mx sz) (mn_log m) [] = Some (map (mq_message (mn_state m)) ms)
    \<and> by_priority (map (mq_message (mn_state m)) ms)
    \<and> mqh_nwait (mn_state m) = receivers (mn_sleep m + mn_woken m)"
proof -
  obtain ms fs where ok: "mq_wf mx sz (mn_state m) ms fs"
    "spec_run (mq_grant mx sz) (mn_log m) [] = Some (map (mq_message (mn_state m)) ms)"
    "mqh_nwait (mn_state m) = receivers (mn_sleep m + mn_woken m)"
    using mq_reachable_ok [OF assms] by (auto simp: mq_ok_def)
  from mq_run_sorted [OF ok(2)] ok show ?thesis by auto
qed

text \<open>
  C25: neither mq_send nor mq_receive ever finds its list empty when mq_curmsgs says otherwise, which
  would end the process, and the search for the place of a message always ends.\<close>

theorem mq_never_dies:
  assumes "mq_run mx sz ev mq_results m" and "0 < mx" and "mq_results n"
  shows "(\<exists>r q ws. mq_enter n c (mn_state m) = Return r q ws \<or> mq_enter n c (mn_state m) = Block q)
    \<and> (c \<in># mn_woken m \<longrightarrow> (\<exists>r q ws. mq_resume n c (mn_state m) = Return r q ws \<or> mq_resume n c (mn_state m) = Block q))"
proof
  have ok: "mq_ok mx sz (mn_state m) (mn_sleep m) (mn_woken m) {#} (mn_log m)"
    using mq_reachable_ok [OF assms(1,2)] by auto
  show "\<exists>r q ws. mq_enter n c (mn_state m) = Return r q ws \<or> mq_enter n c (mn_state m) = Block q"
    using mq_enter_kept(3,4) [OF ok assms(2), of n c] assms(3) by (cases "mq_enter n c (mn_state m)") auto
  show "c \<in># mn_woken m \<longrightarrow> (\<exists>r q ws. mq_resume n c (mn_state m) = Return r q ws \<or> mq_resume n c (mn_state m) = Block q)"
  proof
    assume "c \<in># mn_woken m"
    then obtain wk where "mn_woken m = add_mset c wk" by (metis insert_DiffM)
    with ok mq_resume_kept(3,4) [of mx sz "mn_state m" "mn_sleep m" c wk "{#}" "mn_log m" n]
    show "\<exists>r q ws. mq_resume n c (mn_state m) = Return r q ws \<or> mq_resume n c (mn_state m) = Block q"
      by (cases "mq_resume n c (mn_state m)") auto
  qed
qed

text \<open>
  a process that has registered is notified of the first message that finds the queue empty and
  nobody waiting, with the event it gave, and the registration ends with it; no other message
  touches the registration.\<close>

theorem mq_notifies_once:
  assumes "mq_wf mx sz q ms fs" and "length ms < mx" and "length d \<le> sz" and "mqi_magic mqd = MQI_MAGIC"
  shows "\<exists>q' ws. mymq_send mqd d p 0 q = Return Mq_sent q' ws
    \<and> (mqh_pid q', mq_signals q') =
      (if ms = [] \<and> mqh_pid q \<noteq> 0 \<and> mqh_nwait q = 0
       then (0, mq_signals q @ (if sigev_signal (mqh_event q)
              then [(mqh_pid q, sigev_signo (mqh_event q), sigev_value (mqh_event q))] else []))
       else (mqh_pid q, mq_signals q))"
proof -
  let ?q = "if ms = [] then mq_notify_event q else q"
  have f: "mq_maxmsg q = mx" "mq_msgsize q = sz" "mq_curmsgs q = length ms" using assms(1) by (simp_all add: mq_wf_def)
  have "mq_wf mx sz ?q ms fs" using assms(1) by (cases "ms = []") simp_all
  from mq_put_wf [OF this assms(2,3), of p] obtain q' ws where
    "mq_put d p ?q = Return Mq_sent q' ws" "mqh_pid q' = mqh_pid ?q" "mq_signals q' = mq_signals ?q" by blast
  with assms f show ?thesis
    by (cases "ms = []") (auto simp: mymq_send_def mq_notify_event_def)
qed


text \<open>Two threads wait to receive; two messages are sent before the first of them has the mutex.\<close>

definition mq_reader :: mymq_info where
  "mq_reader = \<lparr>mqi_magic = MQI_MAGIC, mqi_nonblock = False, mqi_pid = 1\<rparr>"

lemma mq_wf_fields: "mq_wf mx sz q ms fs \<Longrightarrow> mq_maxmsg q = mx \<and> mq_msgsize q = sz \<and> mq_curmsgs q = length ms"
  by (simp add: mq_wf_def)

lemma mq_one_message:
  assumes E: "E 0"
  shows "\<exists>q f fs. mq_run 3 8 ev E (monitor_new q
    \<lparr>mn_sleep := {#Mq_receive mq_reader 8#}, mn_woken := {#Mq_receive mq_reader 8#},
     mn_log := [(Mq_send mq_reader ''a'' 1, Mq_sent)]\<rparr>)
    \<and> mqh_nwait q = 2 \<and> mq_wf 3 8 q [f] fs \<and> map (mq_message q) [f] = [(1, ''a'')]"
proof -
  let ?q = "mq_init 3 8 ev" and ?R = "Mq_receive mq_reader 8"
  let ?q2 = "?q\<lparr>mqh_nwait := 2\<rparr>"
  have wf0: "mq_wf 3 8 ?q [] (map (slot_offset 8) [0..<3])" by (rule mq_init_wf) simp
  note ev = monitor_new_def mymq_receive_def mymq_send_def mq_reader_def mq_notify_event_def mq_init_def
  have "mq_run 3 8 ev E (monitor_new ?q)" by simp
  from reach_block [OF this, of 0 ?R "?q\<lparr>mqh_nwait := 1\<rparr>"]
  have "mq_run 3 8 ev E (monitor_new (?q\<lparr>mqh_nwait := 1\<rparr>)\<lparr>mn_sleep := {#?R#}\<rparr>)" by (simp add: ev E)
  from reach_block [OF this, of 0 ?R ?q2]
  have run2: "mq_run 3 8 ev E (monitor_new ?q2\<lparr>mn_sleep := {#?R, ?R#}\<rparr>)" by (simp add: ev E)
  have wf2: "mq_wf 3 8 ?q2 [] (map (slot_offset 8) [0..<3])" using wf0 by simp
  from mq_put_wf [OF wf2, of "''a''" 1] obtain q3 f3 fs3 where q3: "mq_put ''a'' 1 ?q2 = Return Mq_sent q3 [Signal ()]"
    "mqh_nwait q3 = 2" "mq_wf 3 8 q3 [f3] fs3" "map (mq_message q3) [f3] = [(1, ''a'')]" by auto
  have "mq_enter 0 (Mq_send mq_reader ''a'' 1) ?q2 = Return Mq_sent q3 [Signal ()]"
    using q3(1) mq_wf_fields [OF wf2] by (simp add: mymq_send_def mq_reader_def mq_notify_event_def mq_init_def)
  moreover have "wakes (\<lambda>_. ()) [Signal ()] {#?R, ?R#} {#} {#?R#} {#?R#}"
    by (rule wake_one) (auto intro: no_wake)
  ultimately show ?thesis
    using reach_return [OF run2, of 0 "Mq_send mq_reader ''a'' 1" Mq_sent q3 "[Signal ()]" "{#?R#}" "{#?R#}"] q3(2-4)
    by (intro exI [of _ q3] exI [of _ f3] exI [of _ fs3]) (simp add: monitor_new_def E)
qed

lemma mq_two_messages:
  assumes E: "E 0"
  shows "\<exists>q ms fs. mq_run 3 8 ev E (monitor_new q
    \<lparr>mn_sleep := {#Mq_receive mq_reader 8#},
     mn_log := [(Mq_send mq_reader ''a'' 1, Mq_sent), (Mq_send mq_reader ''b'' 1, Mq_sent), (Mq_receive mq_reader 8, Mq_got ''a'' 1)]\<rparr>)
    \<and> mq_wf 3 8 q ms fs \<and> map (mq_message q) ms = [(1, ''b'')]"
proof -
  let ?R = "Mq_receive mq_reader 8"
  obtain q3 f3 fs3 where run3: "mq_run 3 8 ev E (monitor_new q3
      \<lparr>mn_sleep := {#?R#}, mn_woken := {#?R#}, mn_log := [(Mq_send mq_reader ''a'' 1, Mq_sent)]\<rparr>)"
    and q3: "mqh_nwait q3 = 2" "mq_wf 3 8 q3 [f3] fs3" "map (mq_message q3) [f3] = [(1, ''a'')]"
    using mq_one_message [where E = E and ev = ev, OF E] by auto
  from mq_put_wf [OF q3(2), of "''b''" 1] obtain q4 ms4 fs4 where q4: "mq_put ''b'' 1 q3 = Return Mq_sent q4 []"
    "mqh_nwait q4 = 2" "mq_wf 3 8 q4 ms4 fs4" "map (mq_message q4) ms4 = [(1, ''a''), (1, ''b'')]"
    using q3(1,3) by auto
  have "mq_enter 0 (Mq_send mq_reader ''b'' 1) q3 = Return Mq_sent q4 []"
    using q4(1) mq_wf_fields [OF q3(2)] by (simp add: mymq_send_def mq_reader_def)
  then have run4: "mq_run 3 8 ev E (monitor_new q4\<lparr>mn_sleep := {#?R#}, mn_woken := {#?R#},
      mn_log := [(Mq_send mq_reader ''a'' 1, Mq_sent), (Mq_send mq_reader ''b'' 1, Mq_sent)]\<rparr>)"
    using reach_return [OF run3, of 0 "Mq_send mq_reader ''b'' 1" Mq_sent q4 "[]" "{#?R#}" "{#?R#}"]
    by (simp add: monitor_new_def E)
  obtain i j where ms4: "ms4 = [i, j]" "mq_message q4 i = (1, ''a'')" "mq_message q4 j = (1, ''b'')"
    using q4(4) by (auto simp: map_eq_Cons_conv)
  have wf4: "mq_wf 3 8 (q4\<lparr>mqh_nwait := 1\<rparr>) [i, j] fs4" using q4(3) ms4(1) by simp
  from mq_take_wf [OF wf4] obtain q5 where q5: "mq_take (q4\<lparr>mqh_nwait := 1\<rparr>) = Return (Mq_got ''a'' 1) q5 []"
    "mq_wf 3 8 q5 [j] (i # fs4)" "map (mq_message q5) [j] = [(1, ''b'')]"
    using ms4(2,3) by auto
  have "mq_resume 0 ?R q4 = Return (Mq_got ''a'' 1) q5 []"
    using q5(1) q4(2) mq_wf_fields [OF q4(3)] ms4(1) by (simp add: mymq_receive_woken_def)
  then show ?thesis
    using reach_resume [OF run4, of 0 ?R "{#}" "Mq_got ''a'' 1" q5 "[]" "{#?R#}" "{#}"] q5(2,3)
    by (intro exI [of _ q5] exI [of _ "[j]"] exI [of _ "i # fs4"]) (simp add: monitor_new_def E)
qed


definition mq_usr1 :: sigevent where
  "mq_usr1 = \<lparr>sigev_signal = True, sigev_signo = 10, sigev_value = 7\<rparr>"

theorem mq_is_priority_queue_witness:
  "\<exists>q ms fs. mq_wf 3 8 q ms fs \<and> by_priority (map (mq_message q) ms)
    \<and> spec_run (mq_grant 3 8) [(Mq_send mq_reader ''a'' 1, Mq_sent), (Mq_send mq_reader ''b'' 1, Mq_sent),
        (Mq_receive mq_reader 8, Mq_got ''a'' 1)] [] = Some (map (mq_message q) ms)"
proof -
  obtain q where "mq_run 3 8 mq_usr1 mq_results (monitor_new q
    \<lparr>mn_sleep := {#Mq_receive mq_reader 8#},
     mn_log := [(Mq_send mq_reader ''a'' 1, Mq_sent), (Mq_send mq_reader ''b'' 1, Mq_sent), (Mq_receive mq_reader 8, Mq_got ''a'' 1)]\<rparr>)"
    using mq_two_messages [where E = mq_results and ev = mq_usr1] by auto
  from mq_is_priority_queue [OF this] obtain ms fs where "mq_wf 3 8 q ms fs" "by_priority (map (mq_message q) ms)"
    "spec_run (mq_grant 3 8) [(Mq_send mq_reader ''a'' 1, Mq_sent), (Mq_send mq_reader ''b'' 1, Mq_sent),
        (Mq_receive mq_reader 8, Mq_got ''a'' 1)] [] = Some (map (mq_message q) ms)"
    by (auto simp: monitor_new_def simp del: mq_grant.simps spec_run.simps)
  then show ?thesis by blast
qed

theorem mq_never_dies_witness:
  "\<exists>r q ws. mq_enter 0 (Mq_receive mq_reader 8) (mq_init 3 8 mq_usr1) = Return r q ws
    \<or> mq_enter 0 (Mq_receive mq_reader 8) (mq_init 3 8 mq_usr1) = Block q"
  using mq_never_dies [of 3 8 mq_usr1 "monitor_new (mq_init 3 8 mq_usr1)" 0 "Mq_receive mq_reader 8"]
  by (simp add: monitor_new_def)

theorem mq_notifies_once_witness:
  "\<exists>q' ws. mymq_send mq_reader ''a'' 1 0 ((mq_init 3 8 mq_usr1)\<lparr>mqh_pid := 42\<rparr>) = Return Mq_sent q' ws
    \<and> (mqh_pid q', mq_signals q') = (0, [(42, 10, 7)])"
proof -
  let ?q = "(mq_init 3 8 mq_usr1)\<lparr>mqh_pid := 42\<rparr>"
  have "mq_wf 3 8 (mq_init 3 8 mq_usr1) [] (map (slot_offset 8) [0..<3])" by (rule mq_init_wf) simp
  then have "mq_wf 3 8 ?q [] (map (slot_offset 8) [0..<3])" by (simp add: mq_wf_def)
  from mq_notifies_once [OF this, of "''a''" mq_reader 1] show ?thesis
    by (simp add: mq_reader_def mq_init_def mq_usr1_def)
qed

text \<open>
  mq_send signals only when the queue was empty. Two threads wait to receive, two messages come
  before the first of them runs: then the second sleeps although a message is there, and nobody is
  about to wake it.\<close>

theorem mq_send_loses_wakeup:
  "\<exists>m. mq_run 3 8 ev (\<lambda>n. n = 0) m \<and> mq_curmsgs (mn_state m) = 1 \<and> mn_sleep m = {#Mq_receive mq_reader 8#}
     \<and> mn_woken m = {#} \<and> mn_cancelled m = {#}"
proof -
  obtain q ms fs where run: "mq_run 3 8 ev (\<lambda>n. n = 0) (monitor_new q
    \<lparr>mn_sleep := {#Mq_receive mq_reader 8#},
     mn_log := [(Mq_send mq_reader ''a'' 1, Mq_sent), (Mq_send mq_reader ''b'' 1, Mq_sent), (Mq_receive mq_reader 8, Mq_got ''a'' 1)]\<rparr>)"
    and q: "mq_wf 3 8 q ms fs" "map (mq_message q) ms = [(1, ''b'')]"
    using mq_two_messages [where E = "\<lambda>n. n = 0" and ev = ev, OF refl] by auto
  have "length ms = 1" using q(2) by (metis One_nat_def length_Cons length_map list.size(3))
  then have "mq_curmsgs q = 1" using mq_wf_fields [OF q(1)] by simp
  then show ?thesis by (intro exI conjI) (rule run, simp_all add: monitor_new_def)
qed

end
