(* ===== verification/Px_Semaphore.thy ===== *)
theory Px_Semaphore
  imports Monitor
begin

text \<open>
  The Posix semaphores of UNIX.Network.Programming/unpv22e/my_pxsem_mmap: a counter in a mapped
  file with a mutex and a condition variable. The functions return 0, or -1 with an errno.
\<close>

subsection \<open>my_pxsem_mmap\<close>

definition SEM_MAGIC :: int where "SEM_MAGIC = 0x67458923"

record mysem =
  sem_count :: u32
  sem_magic :: int

datatype sem_call = Sem_wait nat | Sem_trywait nat | Sem_post nat | Sem_getvalue nat

datatype sem_result = Sem_ok | Sem_value int | Sem_err int

definition sem_wait_loop :: "mysem \<Rightarrow> (sem_result, mysem, unit) outcome" where
  "sem_wait_loop s = (if sem_count s = 0 then Block s else Return Sem_ok (s\<lparr>sem_count := sem_count s - 1\<rparr>) [])"

definition mysem_wait :: "int \<Rightarrow> mysem \<Rightarrow> (sem_result, mysem, unit) outcome" where
  "mysem_wait n s =
     (if sem_magic s \<noteq> SEM_MAGIC then Return (Sem_err EINVAL) s []
      else if n \<noteq> 0 then Return (Sem_err n) s []
      else sem_wait_loop s)"

definition mysem_trywait :: "int \<Rightarrow> mysem \<Rightarrow> (sem_result, mysem, unit) outcome" where
  "mysem_trywait n s =
     (if sem_magic s \<noteq> SEM_MAGIC then Return (Sem_err EINVAL) s []
      else if n \<noteq> 0 then Return (Sem_err n) s []
      else if sem_count s > 0 then Return Sem_ok (s\<lparr>sem_count := sem_count s - 1\<rparr>) []
      else Return (Sem_err EAGAIN) s [])"

definition mysem_post :: "int \<Rightarrow> mysem \<Rightarrow> (sem_result, mysem, unit) outcome" where
  "mysem_post n s =
     (if sem_magic s \<noteq> SEM_MAGIC then Return (Sem_err EINVAL) s []
      else if n \<noteq> 0 then Return (Sem_err n) s []
      else Return Sem_ok (s\<lparr>sem_count := sem_count s + 1\<rparr>) (if sem_count s = 0 then [Signal ()] else []))"

text \<open>The unsigned counter is stored in an \<open>int\<close>.\<close>

definition mysem_getvalue :: "int \<Rightarrow> mysem \<Rightarrow> (sem_result, mysem, unit) outcome" where
  "mysem_getvalue n s =
     (if sem_magic s \<noteq> SEM_MAGIC then Return (Sem_err EINVAL) s []
      else if n \<noteq> 0 then Return (Sem_err n) s []
      else Return (Sem_value (sint (sem_count s))) s [])"

fun sem_enter :: "int \<Rightarrow> sem_call \<Rightarrow> mysem \<Rightarrow> (sem_result, mysem, unit) outcome" where
  "sem_enter n (Sem_wait t) = mysem_wait n"
| "sem_enter n (Sem_trywait t) = mysem_trywait n"
| "sem_enter n (Sem_post t) = mysem_post n"
| "sem_enter n (Sem_getvalue t) = mysem_getvalue n"

text \<open>The result of \<open>pthread_cond_wait\<close> is not looked at.\<close>

definition sem_resume :: "int \<Rightarrow> sem_call \<Rightarrow> mysem \<Rightarrow> (sem_result, mysem, unit) outcome" where
  "sem_resume n c = sem_wait_loop"

definition sem_cleanup :: "sem_call \<Rightarrow> mysem \<Rightarrow> mysem option" where
  "sem_cleanup c s = None"


subsection \<open>What a semaphore promises\<close>

text \<open>The calls that return, on the value of the semaphore.\<close>

fun sem_grant :: "sem_call \<times> sem_result \<Rightarrow> u32 \<Rightarrow> u32 option" where
  "sem_grant (Sem_wait t, Sem_ok) v = (if v = 0 then None else Some (v - 1))"
| "sem_grant (Sem_trywait t, Sem_ok) v = (if v = 0 then None else Some (v - 1))"
| "sem_grant (Sem_trywait t, Sem_err e) v = (if e = EAGAIN \<and> v \<noteq> 0 then None else Some v)"
| "sem_grant (Sem_post t, Sem_ok) v = Some (v + 1)"
| "sem_grant (Sem_getvalue t, Sem_value i) v = (if i = sint v then Some v else None)"
| "sem_grant (c, Sem_err e) v = Some v"
| "sem_grant (c, r) v = None"

definition sem_ok :: "u32 \<Rightarrow> mysem \<Rightarrow> sem_call multiset \<Rightarrow> sem_call multiset \<Rightarrow> sem_call multiset
    \<Rightarrow> (sem_call \<times> sem_result) list \<Rightarrow> bool" where
  "sem_ok v s sl wk cn lg \<longleftrightarrow>
     sem_magic s = SEM_MAGIC \<and> spec_run sem_grant lg v = Some (sem_count s)
     \<and> (\<forall>c \<in># sl + wk + cn. \<exists>t. c = Sem_wait t)"

lemma sem_enter_kept:
  assumes "sem_ok v s sl wk cn lg" and "\<not> (n = EAGAIN)"
  shows "sem_enter n c s = Return r t ws \<Longrightarrow> sem_ok v t sl wk cn (lg @ [(c, r)])"
    and "sem_enter n c s = Block t \<Longrightarrow> sem_ok v t (add_mset c sl) wk cn lg"
  using assms
  by (cases c; auto simp: sem_ok_def mysem_wait_def mysem_trywait_def mysem_post_def mysem_getvalue_def
      sem_wait_loop_def word_gt_0 split: if_splits)+

lemma sem_resume_kept:
  assumes "sem_ok v s sl (add_mset c wk) cn lg"
  shows "sem_resume n c s = Return r t ws \<Longrightarrow> sem_ok v t sl wk cn (lg @ [(c, r)])"
    and "sem_resume n c s = Block t \<Longrightarrow> sem_ok v t (add_mset c sl) wk cn lg"
  using assms by (auto simp: sem_ok_def sem_resume_def sem_wait_loop_def split: if_splits)

lemma sem_ok_wakes: "sem_ok v s sl wk cn lg \<Longrightarrow> wakes cv ws sl wk sl' wk' \<Longrightarrow> sem_ok v s sl' wk' cn lg"
  using wakes_union [of cv ws sl wk sl' wk'] by (simp add: sem_ok_def)

lemma sem_moves_kept:
  "sem_ok v s (add_mset c sl) wk cn lg \<Longrightarrow> sem_ok v s sl (add_mset c wk) cn lg"
  "sem_ok v s (add_mset c sl) wk cn lg \<Longrightarrow> sem_ok v s sl wk (add_mset c cn) lg"
  "sem_ok v s sl wk (add_mset c cn) lg \<Longrightarrow> sem_ok v s sl wk cn lg"
  by (simp_all add: sem_ok_def)

interpretation pxs: monitor_invariant "\<lambda>_. ()" sem_enter sem_resume sem_cleanup "\<lambda>n. n \<noteq> EAGAIN" C "sem_ok v" for C v
  by unfold_locales
    (auto simp: sem_cleanup_def dest: sem_enter_kept(1) sem_resume_kept(1)
      intro: sem_ok_wakes sem_enter_kept(2) sem_resume_kept(2) sem_moves_kept)



subsection \<open>Properties of my_pxsem_mmap\<close>

abbreviation px_run :: "u32 \<Rightarrow> (int \<Rightarrow> bool) \<Rightarrow> bool \<Rightarrow> (mysem, sem_call, sem_result) monitor \<Rightarrow> bool" where
  "px_run v E C \<equiv> mon_reaches (\<lambda>_. ()) sem_enter sem_resume sem_cleanup E C (monitor_new \<lparr>sem_count = v, sem_magic = SEM_MAGIC\<rparr>)"

fun is_wait :: "sem_call \<times> sem_result \<Rightarrow> bool" where
  "is_wait (Sem_wait t, Sem_ok) = True"
| "is_wait (Sem_trywait t, Sem_ok) = True"
| "is_wait e = False"

fun is_post :: "sem_call \<times> sem_result \<Rightarrow> bool" where
  "is_post (Sem_post t, Sem_ok) = True"
| "is_post e = False"

definition waits_done :: "(sem_call \<times> sem_result) list \<Rightarrow> nat" where
  "waits_done lg = length (filter is_wait lg)"

definition posts_done :: "(sem_call \<times> sem_result) list \<Rightarrow> nat" where
  "posts_done lg = length (filter is_post lg)"

lemma sem_grant_count:
  assumes "sem_grant e v = Some w" and "unat v + (if is_post e then 1 else 0) < 2 ^ 32"
  shows "unat w + (if is_wait e then 1 else 0) = unat v + (if is_post e then 1 else 0)"
  using assms
  by (cases "(e, v)" rule: sem_grant.cases)
    (auto simp: unat_word_ariths unat_minus_one unat_gt_0 split: if_splits)

lemma sem_run_count:
  "spec_run sem_grant lg v = Some w \<Longrightarrow> unat v + posts_done lg < 2 ^ 32
    \<Longrightarrow> unat w + waits_done lg = unat v + posts_done lg"
proof (induction lg arbitrary: v)
  case (Cons e lg)
  then obtain u where g: "sem_grant e v = Some u" and r: "spec_run sem_grant lg u = Some w"
    by (auto split: option.splits)
  have "unat u + (if is_wait e then 1 else 0) = unat v + (if is_post e then 1 else 0)"
    using sem_grant_count [OF g] Cons.prems(2) by (auto simp: posts_done_def split: if_splits)
  then show ?case using Cons.IH [OF r] Cons.prems(2) by (auto simp: posts_done_def waits_done_def split: if_splits)
qed (simp add: posts_done_def waits_done_def)

text \<open>
  C33: in every run the value of a semaphore is what it began with, plus the posts, minus the waits that
  have returned, as long as the posts fit the 32 bits: no wait is let through without its post.\<close>

theorem sem_conserves:
  assumes "px_run v (\<lambda>n. n \<noteq> EAGAIN) C m" and "unat v + posts_done (mn_log m) < 2 ^ 32"
  shows "unat (sem_count (mn_state m)) + waits_done (mn_log m) = unat v + posts_done (mn_log m)"
proof (rule sem_run_count)
  show "spec_run sem_grant (mn_log m) v = Some (sem_count (mn_state m))"
    using pxs.from_new [OF assms(1)] by (simp add: sem_ok_def)
qed (rule assms(2))

text \<open>Two threads wait; two posts follow each other before the first waiter gets the mutex.\<close>

lemma px_two_posts:
  assumes E: "E 0"
  shows "px_run 0 E C (monitor_new \<lparr>sem_count = 1, sem_magic = SEM_MAGIC\<rparr>
     \<lparr>mn_sleep := {#Sem_wait 2#}, mn_log := [(Sem_post 3, Sem_ok), (Sem_post 3, Sem_ok), (Sem_wait 1, Sem_ok)]\<rparr>)"
proof -
  let ?s = "\<lambda>v. \<lparr>sem_count = v, sem_magic = SEM_MAGIC\<rparr>" and ?p = "(Sem_post 3, Sem_ok)"
  note ev = monitor_new_def mysem_wait_def sem_wait_loop_def mysem_post_def sem_resume_def
  have "px_run 0 E C (monitor_new (?s 0))" by simp
  from reach_block [OF this, of 0 "Sem_wait 1" "?s 0"]
  have "px_run 0 E C (monitor_new (?s 0)\<lparr>mn_sleep := {#Sem_wait 1#}\<rparr>)" by (simp add: ev E)
  from reach_block [OF this, of 0 "Sem_wait 2" "?s 0"]
  have s0: "px_run 0 E C (monitor_new (?s 0)\<lparr>mn_sleep := {#Sem_wait 1, Sem_wait 2#}\<rparr>)"
    by (simp add: ev E add_mset_commute)
  have "wakes (\<lambda>_. ()) [Signal ()] {#Sem_wait 1, Sem_wait 2#} {#} {#Sem_wait 2#} {#Sem_wait 1#}"
    by (rule wake_one) (auto intro: no_wake)
  with reach_return [OF s0, of 0 "Sem_post 3" Sem_ok "?s 1" "[Signal ()]" "{#Sem_wait 2#}" "{#Sem_wait 1#}"]
  have "px_run 0 E C (monitor_new (?s 1)\<lparr>mn_sleep := {#Sem_wait 2#}, mn_woken := {#Sem_wait 1#}, mn_log := [?p]\<rparr>)"
    by (simp add: ev E)
  from reach_return [OF this, of 0 "Sem_post 3" Sem_ok "?s 2" "[]" "{#Sem_wait 2#}" "{#Sem_wait 1#}"]
  have "px_run 0 E C (monitor_new (?s 2)\<lparr>mn_sleep := {#Sem_wait 2#}, mn_woken := {#Sem_wait 1#}, mn_log := [?p, ?p]\<rparr>)"
    by (simp add: ev E)
  from reach_resume [OF this, of 0 "Sem_wait 1" "{#}" Sem_ok "?s 1" "[]" "{#Sem_wait 2#}" "{#}"] show ?thesis by (simp add: ev E)
qed

theorem sem_conserves_witness:
  "unat (1 :: u32) + waits_done [(Sem_post 3, Sem_ok), (Sem_post 3, Sem_ok), (Sem_wait 1, Sem_ok)] = 2"
proof -
  let ?m = "monitor_new \<lparr>sem_count = 1, sem_magic = SEM_MAGIC\<rparr>
     \<lparr>mn_sleep := {#Sem_wait 2#}, mn_log := [(Sem_post 3, Sem_ok), (Sem_post 3, Sem_ok), (Sem_wait 1, Sem_ok)]\<rparr>"
  have "px_run 0 (\<lambda>n. n \<noteq> EAGAIN) False ?m"
    by (rule px_two_posts) simp
  from sem_conserves [OF this] show ?thesis by (simp add: monitor_new_def posts_done_def)
qed

text \<open>
  a post signals only when the value is 0. Two threads wait, two posts come before the first of
  them runs: then the value is 1, and the second sleeps on, waked by nobody.\<close>

theorem sem_post_loses_wakeup:
  "\<exists>m. px_run 0 (\<lambda>n. n = 0) False m \<and> sem_count (mn_state m) = 1 \<and> mn_sleep m = {#Sem_wait 2#}
     \<and> mn_woken m = {#} \<and> mn_cancelled m = {#}"
  by (rule exI, rule conjI, rule px_two_posts, simp) (simp add: monitor_new_def)

text \<open>
  the value is not bounded: a post to a semaphore of value 4294967295 returns 0 and leaves the value 0,
  and from 2147483648 on \<open>getvalue\<close> stores a negative number.\<close>

theorem sem_post_wraps:
  "mysem_post 0 \<lparr>sem_count = -1, sem_magic = SEM_MAGIC\<rparr> = Return Sem_ok \<lparr>sem_count = 0, sem_magic = SEM_MAGIC\<rparr> []
    \<and> mysem_getvalue 0 \<lparr>sem_count = 0x80000000, sem_magic = SEM_MAGIC\<rparr>
      = Return (Sem_value (- 2147483648)) \<lparr>sem_count = 0x80000000, sem_magic = SEM_MAGIC\<rparr> []"
  by (simp add: mysem_post_def mysem_getvalue_def)

end
