(* ===== verification/Px_Open.thy ===== *)
theory Px_Open
  imports Px_Mqueue Px_Semaphore
begin

text \<open>
  Opening and closing: \<open>mymq_open\<close> of my_pxmsg_mmap and \<open>mysem_open\<close> of my_pxsem_mmap. The first
  process to open creates the file with its user-execute bit set, initialises it and clears the
  bit; the others wait for that. What the calls return comes from a script, so that every failure
  can be looked at; when the script is used up calls succeed. The state holds what the process
  owns: descriptors, mappings, allocated blocks, and the files it has created.
\<close>

subsection \<open>Calls and resources\<close>

text \<open>\<open>Busy\<close>: \<open>stat\<close> finds the user-execute bit set.\<close>

datatype px_reply = Success | Busy | Failure int

record px_os =
  px_script :: "px_reply list"
  px_next :: nat
  px_fds :: "nat list"
  px_maps :: nat
  px_heap :: nat
  px_linked :: nat
  px_bad_close :: nat

definition px_call :: "px_os \<Rightarrow> px_reply \<times> px_os" where
  "px_call k = (case px_script k of [] \<Rightarrow> (Success, k) | r # rs \<Rightarrow> (r, k\<lparr>px_script := rs\<rparr>))"

text \<open>
  Descriptors get new numbers, never one that was closed. What a second close of a number would do to
  a descriptor that another thread has opened meanwhile is therefore not modelled: it is EBADF.
\<close>

definition px_new_fd :: "px_os \<Rightarrow> nat \<times> px_os" where
  "px_new_fd k = (px_next k, k\<lparr>px_next := Suc (px_next k), px_fds := px_next k # px_fds k\<rparr>)"

text \<open>\<open>None\<close>: the descriptor is -1. A descriptor that is not open is EBADF.\<close>

definition px_close :: "nat option \<Rightarrow> px_os \<Rightarrow> px_os" where
  "px_close fd k =
     (case fd of None \<Rightarrow> k\<lparr>px_bad_close := Suc (px_bad_close k)\<rparr>
      | Some d \<Rightarrow> if d \<in> set (px_fds k) then k\<lparr>px_fds := remove1 d (px_fds k)\<rparr>
                  else k\<lparr>px_bad_close := Suc (px_bad_close k)\<rparr>)"

text \<open>Calls that must all succeed, in their order: the errno of the first that does not.\<close>

fun px_calls :: "nat \<Rightarrow> px_os \<Rightarrow> int option \<times> px_os" where
  "px_calls 0 k = (None, k)"
| "px_calls (Suc n) k = (case px_call k of (Failure e, k1) \<Rightarrow> (Some e, k1) | (r, k1) \<Rightarrow> px_calls n k1)"


subsection \<open>mymq_open\<close>

text \<open>What the labels \<open>err\<close> and \<open>pthreaderr\<close> do.\<close>

definition mq_open_err :: "bool \<Rightarrow> bool \<Rightarrow> bool \<Rightarrow> nat option \<Rightarrow> px_os \<Rightarrow> px_os" where
  "mq_open_err created mapped allocated fd k =
     (let k1 = if created then k\<lparr>px_linked := px_linked k - 1\<rparr> else k;
          k2 = if mapped then k1\<lparr>px_maps := px_maps k1 - 1\<rparr> else k1;
          k3 = if allocated then k2\<lparr>px_heap := px_heap k2 - 1\<rparr> else k2
      in px_close fd k3)"

text \<open>
  The file has just been created on \<open>fd\<close>: lseek and write, mmap, malloc, the initialisation of the
  mutex and of the condition variable (two calls each) and fchmod.\<close>

definition mq_open_create :: "bool \<Rightarrow> (int \<times> int) option \<Rightarrow> nat \<Rightarrow> px_os \<Rightarrow> (int + mymq_info) \<times> px_os" where
  "mq_open_create nonblock attr fd k =
     (if (case attr of None \<Rightarrow> False | Some (maxmsg, msgsize) \<Rightarrow> maxmsg \<le> 0 \<or> msgsize \<le> 0)
      then (Inl EINVAL, mq_open_err True False False (Some fd) k)
      else case px_calls 2 k of
        (Some e, k1) \<Rightarrow> (Inl e, mq_open_err True False False (Some fd) k1)
      | (None, k1) \<Rightarrow>
        (case px_calls 1 k1 of
           (Some e, k2) \<Rightarrow> (Inl e, mq_open_err True False False (Some fd) k2)
         | (None, k2) \<Rightarrow>
           (let k3 = k2\<lparr>px_maps := Suc (px_maps k2)\<rparr> in
            case px_calls 1 k3 of
              (Some e, k4) \<Rightarrow> (Inl e, mq_open_err True True False (Some fd) k4)
            | (None, k4) \<Rightarrow>
              (let k5 = k4\<lparr>px_heap := Suc (px_heap k4)\<rparr> in
               case px_calls 5 k5 of
                 (Some e, k6) \<Rightarrow> (Inl e, mq_open_err True True True (Some fd) k6)
               | (None, k6) \<Rightarrow> (Inr \<lparr>mqi_magic = MQI_MAGIC, mqi_nonblock = nonblock, mqi_pid = 0\<rparr>, px_close (Some fd) k6)))))"

text \<open>The loop that waits for the initialisation.\<close>

datatype px_wait = Ready | Gone | Stat_failed int | Timed_out

fun mq_open_wait :: "bool \<Rightarrow> nat \<Rightarrow> px_os \<Rightarrow> px_wait \<times> px_os" where
  "mq_open_wait creat 0 k = (Timed_out, k)"
| "mq_open_wait creat (Suc i) k =
     (case px_call k of
        (Failure e, k1) \<Rightarrow> (if e = ENOENT \<and> creat then Gone else Stat_failed e, k1)
      | (Success, k1) \<Rightarrow> (Ready, k1)
      | (Busy, k1) \<Rightarrow> mq_open_wait creat i k1)"

text \<open>The queue exists and is initialised: mmap, close, malloc.\<close>

definition mq_open_map :: "bool \<Rightarrow> nat \<Rightarrow> px_os \<Rightarrow> (int + mymq_info) \<times> px_os" where
  "mq_open_map nonblock fd k =
     (case px_calls 1 k of
        (Some e, k1) \<Rightarrow> (Inl e, mq_open_err False False False (Some fd) k1)
      | (None, k1) \<Rightarrow>
        (let k2 = px_close (Some fd) (k1\<lparr>px_maps := Suc (px_maps k1)\<rparr>) in
         case px_calls 1 k2 of
           (Some e, k3) \<Rightarrow> (Inl e, mq_open_err False True False (Some fd) k3)
         | (None, k3) \<Rightarrow>
             (Inr \<lparr>mqi_magic = MQI_MAGIC, mqi_nonblock = nonblock, mqi_pid = 0\<rparr>, k3\<lparr>px_heap := Suc (px_heap k3)\<rparr>)))"

lemma px_calls_shrinks: "px_calls n k = (r, k1) \<Longrightarrow> length (px_script k1) \<le> length (px_script k)"
  by (induction n arbitrary: k) (fastforce simp: px_call_def split: list.splits px_reply.splits)+

lemma px_call_shrinks: "px_call k = (Failure e, k1) \<Longrightarrow> length (px_script k1) < length (px_script k)"
  by (auto simp: px_call_def split: list.splits)

lemma px_call_script: "px_call k = (r, k1) \<Longrightarrow> length (px_script k1) \<le> length (px_script k)"
  by (auto simp: px_call_def split: list.splits)

lemma mq_open_wait_script: "mq_open_wait creat i k = (r, k1) \<Longrightarrow> length (px_script k1) \<le> length (px_script k)"
proof (induction i arbitrary: k)
  case (Suc i)
  obtain a k2 where "px_call k = (a, k2)" by (cases "px_call k")
  with Suc px_call_script [OF this] show ?case by (cases a) (fastforce split: if_splits)+
qed simp

lemma mq_open_wait_shrinks: "mq_open_wait creat i k = (Gone, k1) \<Longrightarrow> length (px_script k1) < length (px_script k)"
proof (induction i arbitrary: k)
  case (Suc i)
  obtain a k2 where a: "px_call k = (a, k2)" by (cases "px_call k")
  with Suc px_call_script [OF a] px_call_shrinks [of k _ k2] show ?case
    by (cases a) (fastforce split: if_splits)+
qed simp

lemma px_close_script [simp]: "px_script (px_close fd k) = px_script k"
  by (simp add: px_close_def split: option.split)

lemma px_new_fd_script: "px_new_fd k = (fd, k1) \<Longrightarrow> px_script k1 = px_script k"
  by (auto simp: px_new_fd_def)

text \<open>\<open>creating\<close>: at the label \<open>again\<close> with O_CREAT; else at \<open>exists\<close>.\<close>

function mq_open_loop :: "bool \<Rightarrow> bool \<Rightarrow> bool \<Rightarrow> bool \<Rightarrow> (int \<times> int) option \<Rightarrow> px_os \<Rightarrow> (int + mymq_info) \<times> px_os" where
  "mq_open_loop creating creat excl nonblock attr k =
     (case px_call k of
        (Failure e, k1) \<Rightarrow>
          if creating then if e = EEXIST \<and> \<not> excl then mq_open_loop False creat excl nonblock attr k1 else (Inl e, k1)
          else if e = ENOENT \<and> creat then mq_open_loop True creat excl nonblock attr k1
          else (Inl e, mq_open_err False False False None k1)
      | (r, k1) \<Rightarrow>
          (case px_new_fd k1 of (fd, k2) \<Rightarrow>
             if creating then mq_open_create nonblock attr fd (k2\<lparr>px_linked := Suc (px_linked k2)\<rparr>)
             else (case mq_open_wait creat 10 k2 of
                 (Ready, k3) \<Rightarrow> mq_open_map nonblock fd k3
               | (Gone, k3) \<Rightarrow> mq_open_loop True creat excl nonblock attr (px_close (Some fd) k3)
               | (Stat_failed e, k3) \<Rightarrow> (Inl e, mq_open_err False False False (Some fd) k3)
               | (Timed_out, k3) \<Rightarrow> (Inl ETIMEDOUT, mq_open_err False False False (Some fd) k3))))"
  by pat_completeness auto

lemma mq_open_again_shrinks:
  "px_call k = (r, k1) \<Longrightarrow> (fd, k2) = px_new_fd k1 \<Longrightarrow> (Gone, k3) = mq_open_wait creat 10 k2
    \<Longrightarrow> length (px_script k3) < length (px_script k)"
  using px_call_script [of k r k1] px_new_fd_script [of k1 fd k2] mq_open_wait_shrinks [of creat 10 k2 k3] by simp

termination mq_open_loop
  by (relation "measure (\<lambda>(_, _, _, _, _, k). length (px_script k))")
    (auto dest!: sym [of _ "px_call _"] intro: mq_open_again_shrinks px_call_shrinks)

declare mq_open_loop.simps [simp del]

definition mymq_open :: "bool \<Rightarrow> bool \<Rightarrow> bool \<Rightarrow> (int \<times> int) option \<Rightarrow> px_os \<Rightarrow> (int + mymq_info) \<times> px_os" where
  "mymq_open creat excl nonblock attr k = mq_open_loop creat creat excl nonblock attr k"



subsection \<open>mymq_close and mymq_unlink\<close>

text \<open>The mapping and the block go back; the queue is left registered for no other process.\<close>

definition mymq_close :: "mymq_info \<Rightarrow> int \<Rightarrow> px_os \<Rightarrow> mymq \<Rightarrow> int option \<times> mymq_info \<times> px_os \<times> mymq" where
  "mymq_close mqd n k q =
     (if mqi_magic mqd \<noteq> MQI_MAGIC then (Some EBADF, mqd, k, q)
      else case mymq_notify mqd None False n q of
        Return Mq_ok q1 ws \<Rightarrow>
          (case px_call k of
             (Failure e, k1) \<Rightarrow> (Some e, mqd, k1, q1)
           | (r, k1) \<Rightarrow> (None, mqd\<lparr>mqi_magic := 0\<rparr>, k1\<lparr>px_maps := px_maps k1 - 1, px_heap := px_heap k1 - 1\<rparr>, q1))
      | Return (Mq_err e) q1 ws \<Rightarrow> (Some e, mqd, k, q1)
      | _ \<Rightarrow> (None, mqd, k, q))"

definition mymq_unlink :: "px_os \<Rightarrow> int option \<times> px_os" where
  "mymq_unlink k =
     (case px_call k of (Failure e, k1) \<Rightarrow> (Some e, k1) | (r, k1) \<Rightarrow> (None, k1\<lparr>px_linked := px_linked k1 - 1\<rparr>))"


subsection \<open>mysem_open\<close>

definition sem_open_err :: "bool \<Rightarrow> bool \<Rightarrow> nat option \<Rightarrow> px_os \<Rightarrow> px_os" where
  "sem_open_err created mapped fd k =
     (let k1 = if created then k\<lparr>px_linked := px_linked k - 1\<rparr> else k;
          k2 = if mapped then k1\<lparr>px_maps := px_maps k1 - 1\<rparr> else k1
      in px_close fd k2)"

text \<open>write, mmap, four initialisations, the test of the value, fchmod. \<open>mapped\<close>: \<open>sem\<close> is a mapping already.\<close>

definition sem_open_create :: "bool \<Rightarrow> u32 \<Rightarrow> nat \<Rightarrow> nat \<Rightarrow> px_os \<Rightarrow> (int + mysem) \<times> px_os" where
  "sem_open_create mapped value vmax fd k =
     (case px_calls 1 k of
        (Some e, k1) \<Rightarrow> (Inl e, sem_open_err True mapped (Some fd) k1)
      | (None, k1) \<Rightarrow>
        (case px_calls 1 k1 of
           (Some e, k2) \<Rightarrow> (Inl e, sem_open_err True False (Some fd) k2)
         | (None, k2) \<Rightarrow>
           (let k3 = k2\<lparr>px_maps := Suc (px_maps k2)\<rparr> in
            case px_calls 4 k3 of
              (Some e, k4) \<Rightarrow> (Inl e, sem_open_err True True (Some fd) k4)
            | (None, k4) \<Rightarrow>
              if unat value > vmax then (Inl EINVAL, sem_open_err True True (Some fd) k4)
              else case px_calls 1 k4 of
                (Some e, k5) \<Rightarrow> (Inl e, sem_open_err True True (Some fd) k5)
              | (None, k5) \<Rightarrow> (Inr \<lparr>sem_count = value, sem_magic = SEM_MAGIC\<rparr>, px_close (Some fd) k5))))"

text \<open>\<open>shared\<close>: what is in the file. Here the file is mapped before the wait.\<close>

function sem_open_loop :: "bool \<Rightarrow> bool \<Rightarrow> bool \<Rightarrow> bool \<Rightarrow> u32 \<Rightarrow> nat \<Rightarrow> mysem \<Rightarrow> px_os \<Rightarrow> (int + mysem) \<times> px_os" where
  "sem_open_loop creating mapped creat excl value vmax shared k =
     (case px_call k of
        (Failure e, k1) \<Rightarrow>
          if creating then if e = EEXIST \<and> \<not> excl then sem_open_loop False mapped creat excl value vmax shared k1 else (Inl e, k1)
          else if e = ENOENT \<and> creat then sem_open_loop True mapped creat excl value vmax shared k1
          else (Inl e, sem_open_err False mapped None k1)
      | (r, k1) \<Rightarrow>
          (case px_new_fd k1 of (fd, k2) \<Rightarrow>
             if creating then sem_open_create mapped value vmax fd (k2\<lparr>px_linked := Suc (px_linked k2)\<rparr>)
             else (case px_calls 1 k2 of
                 (Some e, k3) \<Rightarrow> (Inl e, sem_open_err False False (Some fd) k3)
               | (None, k3) \<Rightarrow>
                 (case mq_open_wait creat 10 (k3\<lparr>px_maps := Suc (px_maps k3)\<rparr>) of
                    (Ready, k4) \<Rightarrow> (Inr (shared\<lparr>sem_magic := SEM_MAGIC\<rparr>), px_close (Some fd) k4)
                  | (Gone, k4) \<Rightarrow> sem_open_loop True True creat excl value vmax shared (px_close (Some fd) k4)
                  | (Stat_failed e, k4) \<Rightarrow> (Inl e, sem_open_err False True (Some fd) k4)
                  | (Timed_out, k4) \<Rightarrow> (Inl ETIMEDOUT, sem_open_err False True (Some fd) k4)))))"
  by pat_completeness auto

lemma sem_open_again_shrinks:
  "px_call k = (r, k1) \<Longrightarrow> (fd, k2) = px_new_fd k1 \<Longrightarrow> (e, k3) = px_calls 1 k2
    \<Longrightarrow> (Gone, k4) = mq_open_wait creat 10 (k3\<lparr>px_maps := m\<rparr>) \<Longrightarrow> length (px_script k4) < length (px_script k)"
  using px_call_script [of k r k1] px_new_fd_script [of k1 fd k2] px_calls_shrinks [of 1 k2 e k3]
    mq_open_wait_shrinks [of creat 10 "k3\<lparr>px_maps := m\<rparr>" k4] by simp

termination sem_open_loop
  by (relation "measure (\<lambda>(_, _, _, _, _, _, _, k). length (px_script k))")
    (auto dest!: sym [of _ "px_call _"] intro: sem_open_again_shrinks px_call_shrinks simp del: px_calls.simps)

declare sem_open_loop.simps [simp del]

definition mysem_open :: "bool \<Rightarrow> bool \<Rightarrow> u32 \<Rightarrow> nat \<Rightarrow> mysem \<Rightarrow> px_os \<Rightarrow> (int + mysem) \<times> px_os" where
  "mysem_open creat excl value vmax shared k = sem_open_loop creat False creat excl value vmax shared k"

definition mysem_close :: "mysem \<Rightarrow> px_os \<Rightarrow> int option \<times> px_os" where
  "mysem_close s k =
     (if sem_magic s \<noteq> SEM_MAGIC then (Some EINVAL, k)
      else case px_call k of
        (Failure e, k1) \<Rightarrow> (Some e, k1) | (r, k1) \<Rightarrow> (None, k1\<lparr>px_maps := px_maps k1 - 1\<rparr>))"

definition mysem_unlink :: "px_os \<Rightarrow> int option \<times> px_os" where
  "mysem_unlink k =
     (case px_call k of (Failure e, k1) \<Rightarrow> (Some e, k1) | (r, k1) \<Rightarrow> (None, k1\<lparr>px_linked := px_linked k1 - 1\<rparr>))"



subsection \<open>Nothing is left behind\<close>

text \<open>A call changes nothing of what the process owns.\<close>

lemma px_call_owned: "px_call k = (r, k1) \<Longrightarrow> \<exists>s. k1 = k\<lparr>px_script := s\<rparr>"
  by (auto simp: px_call_def split: list.splits intro: exI [of _ "px_script k"])

lemma px_calls_owned: "px_calls n k = (r, k1) \<Longrightarrow> \<exists>s. k1 = k\<lparr>px_script := s\<rparr>"
proof (induction n arbitrary: k)
  case 0 then show ?case by (auto intro: exI [of _ "px_script k"])
next
  case (Suc n)
  obtain a k2 where a: "px_call k = (a, k2)" by (cases "px_call k")
  from px_call_owned [OF this] obtain s where "k2 = k\<lparr>px_script := s\<rparr>" ..
  with Suc a show ?case by (cases a) fastforce+
qed

lemma mq_open_wait_owned: "mq_open_wait creat i k = (r, k1) \<Longrightarrow> \<exists>s. k1 = k\<lparr>px_script := s\<rparr>"
proof (induction i arbitrary: k)
  case 0 then show ?case by (auto intro: exI [of _ "px_script k"])
next
  case (Suc i)
  obtain a k2 where a: "px_call k = (a, k2)" by (cases "px_call k")
  from px_call_owned [OF this] obtain s where "k2 = k\<lparr>px_script := s\<rparr>" ..
  with Suc a show ?case by (cases a) fastforce+
qed

text \<open>\<open>opens out k maps heap\<close>: a failure leaves what there was, a success has one mapping and one block more.\<close>

definition owns :: "px_os \<Rightarrow> nat list \<times> nat \<times> nat" where
  "owns k = (px_fds k, px_maps k, px_heap k)"

definition opens_queue :: "(int + 'a) \<times> px_os \<Rightarrow> nat \<Rightarrow> nat list \<times> nat \<times> nat \<times> nat \<Rightarrow> bool" where
  "opens_queue res blocks own \<longleftrightarrow>
     (case (res, own) of ((r, k'), fds, maps, heap, linked) \<Rightarrow>
        px_fds k' = fds
        \<and> (case r of Inl e \<Rightarrow> px_maps k' = maps \<and> px_heap k' = heap \<and> px_linked k' = linked
            | Inr x \<Rightarrow> px_maps k' = Suc maps \<and> px_heap k' = heap + blocks \<and> linked \<le> px_linked k'))"

lemma mq_open_create_owns:
  assumes "px_fds k = fd # fds" and "px_linked k = Suc linked"
  shows "opens_queue (mq_open_create nonblock attr fd k) 1 (fds, px_maps k, px_heap k, linked)"
proof -
  have calls: "\<exists>e s. px_calls n k = (e, k\<lparr>px_script := s\<rparr>)" for n k
    by (metis px_calls_owned surj_pair)
  let ?own = "(fds, px_maps k, px_heap k, linked)"
  obtain e1 s1 where 1: "px_calls 2 k = (e1, k\<lparr>px_script := s1\<rparr>)" using calls by blast
  obtain e2 s2 where 2: "px_calls 1 (k\<lparr>px_script := s1\<rparr>) = (e2, k\<lparr>px_script := s2\<rparr>)"
    using calls [of 1 "k\<lparr>px_script := s1\<rparr>"] by auto
  let ?k3 = "k\<lparr>px_script := s2, px_maps := Suc (px_maps k)\<rparr>"
  obtain e3 s3 where 3: "px_calls 1 ?k3 = (e3, ?k3\<lparr>px_script := s3\<rparr>)" using calls by blast
  let ?k5 = "k\<lparr>px_maps := Suc (px_maps k), px_script := s3, px_heap := Suc (px_heap k)\<rparr>"
  obtain e5 s5 where 5: "px_calls 5 ?k5 = (e5, ?k5\<lparr>px_script := s5\<rparr>)" using calls by blast
  note ev = mq_open_create_def opens_queue_def mq_open_err_def px_close_def Let_def assms 1 2 3 5
  show ?thesis
  proof (cases "case attr of None \<Rightarrow> False | Some (maxmsg, msgsize) \<Rightarrow> maxmsg \<le> 0 \<or> msgsize \<le> 0")
    case True then show ?thesis by (simp add: ev del: px_calls.simps)
  next
    case False
    show ?thesis
      by (cases e1; cases e2; cases e3; cases e5) (simp_all add: ev False del: px_calls.simps One_nat_def)
  qed
qed


lemma mq_open_map_owns:
  assumes "px_fds k = fd # fds" and "fd \<notin> set fds"
  shows "opens_queue (mq_open_map nonblock fd k) 1 (fds, px_maps k, px_heap k, px_linked k)"
proof -
  have calls: "\<exists>e s. px_calls n k = (e, k\<lparr>px_script := s\<rparr>)" for n k
    by (metis px_calls_owned surj_pair)
  obtain e1 s1 where 1: "px_calls 1 k = (e1, k\<lparr>px_script := s1\<rparr>)" using calls by blast
  let ?k2 = "px_close (Some fd) (k\<lparr>px_script := s1, px_maps := Suc (px_maps k)\<rparr>)"
  have k2: "?k2 = k\<lparr>px_script := s1, px_maps := Suc (px_maps k), px_fds := fds\<rparr>" using assms by (simp add: px_close_def)
  obtain e2 s2 where 2: "px_calls 1 ?k2 = (e2, ?k2\<lparr>px_script := s2\<rparr>)" using calls by blast
  note ev = mq_open_map_def opens_queue_def mq_open_err_def Let_def 1
  show ?thesis
    by (cases e1; cases e2) (use 2 k2 assms in \<open>simp_all add: ev px_close_def del: px_calls.simps One_nat_def\<close>)
qed

text \<open>
  When mymq_open fails it has closed the descriptors, unmapped the file, freed the block and removed
  the file it may have created; when it returns a queue it has one mapping and one block more and no
  descriptor: whatever calls fail, and however often it starts again.\<close>

lemma mq_open_loop_owns:
  assumes "\<forall>d \<in> set (px_fds k). d < px_next k"
  shows "opens_queue (mq_open_loop creating creat excl nonblock attr k) 1 (px_fds k, px_maps k, px_heap k, px_linked k)"
  using assms
proof (induction k arbitrary: creating rule: measure_induct_rule [of "\<lambda>k. length (px_script k)"])
  case (less k)
  obtain r k1 where c: "px_call k = (r, k1)" by (cases "px_call k")
  then obtain s1 where k1: "k1 = k\<lparr>px_script := s1\<rparr>" using px_call_owned by blast
  let ?fd = "px_next k" and ?own = "(px_fds k, px_maps k, px_heap k, px_linked k)"
  let ?k2 = "k1\<lparr>px_next := Suc ?fd, px_fds := ?fd # px_fds k\<rparr>"
  have new: "px_new_fd k1 = (?fd, ?k2)" by (simp add: px_new_fd_def k1)
  have fd: "?fd \<notin> set (px_fds k)" using less.prems by auto
  show ?case
  proof (cases "\<exists>e. r = Failure e")
    case True
    then obtain e where r: "r = Failure e" ..
    have "length (px_script k1) < length (px_script k)" using px_call_shrinks c r by blast
    then have "opens_queue (mq_open_loop b creat excl nonblock attr k1) 1 ?own" for b
      using less.IH [of k1 b] less.prems k1 by simp
    moreover have "opens_queue (Inl e, k1) 1 ?own" "opens_queue (Inl e, mq_open_err False False False None k1) 1 ?own"
      by (simp_all add: opens_queue_def mq_open_err_def px_close_def k1)
    ultimately show ?thesis unfolding mq_open_loop.simps [of creating] c r by (auto simp del: One_nat_def)
  next
    case False
    then have loop: "mq_open_loop creating creat excl nonblock attr k =
      (if creating then mq_open_create nonblock attr ?fd (?k2\<lparr>px_linked := Suc (px_linked k)\<rparr>)
       else case mq_open_wait creat 10 ?k2 of
           (Ready, k3) \<Rightarrow> mq_open_map nonblock ?fd k3
         | (Gone, k3) \<Rightarrow> mq_open_loop True creat excl nonblock attr (px_close (Some ?fd) k3)
         | (Stat_failed e, k3) \<Rightarrow> (Inl e, mq_open_err False False False (Some ?fd) k3)
         | (Timed_out, k3) \<Rightarrow> (Inl ETIMEDOUT, mq_open_err False False False (Some ?fd) k3))"
      unfolding mq_open_loop.simps [of creating] c using new k1 by (cases r) simp_all
    show ?thesis
    proof (cases creating)
      case True
      then show ?thesis
        using mq_open_create_owns [of "?k2\<lparr>px_linked := Suc (px_linked k)\<rparr>" ?fd "px_fds k" "px_linked k" nonblock attr]
        unfolding loop by (simp add: k1)
    next
      case False
      obtain w k3 where w: "mq_open_wait creat 10 ?k2 = (w, k3)" by (cases "mq_open_wait creat 10 ?k2")
      then obtain s3 where k3: "k3 = ?k2\<lparr>px_script := s3\<rparr>" using mq_open_wait_owned by blast
      let ?k4 = "px_close (Some ?fd) k3"
      have k4: "px_fds ?k4 = px_fds k" "px_maps ?k4 = px_maps k" "px_heap ?k4 = px_heap k" "px_linked ?k4 = px_linked k"
        "px_next ?k4 = Suc ?fd"
        by (simp_all add: px_close_def k3 k1)
      show ?thesis
      proof (cases w)
        case Ready
        then show ?thesis
          using mq_open_map_owns [of k3 ?fd "px_fds k" nonblock] fd False w unfolding loop by (simp add: k3 k1)
      next
        case Gone
        have "length (px_script ?k4) < length (px_script k)"
          using mq_open_again_shrinks [OF c new [symmetric], of k3 creat] w Gone by simp
        then have "opens_queue (mq_open_loop True creat excl nonblock attr ?k4) 1 ?own"
          using less.IH [of ?k4 True] less.prems k4 by (metis less_SucI)
        then show ?thesis unfolding loop using False w Gone by simp
      qed (unfold loop, use False w k4 in \<open>simp_all add: opens_queue_def mq_open_err_def\<close>)
    qed
  qed
qed


definition px_start :: "px_reply list \<Rightarrow> px_os" where
  "px_start rs = \<lparr>px_script = rs, px_next = 0, px_fds = [], px_maps = 0, px_heap = 0, px_linked = 0, px_bad_close = 0\<rparr>"

text \<open>
  C39: when mymq_open fails it has closed its descriptors, unmapped the file, freed the block and removed
  the file it created; when it returns a queue it keeps one mapping, one block and no descriptor:
  whatever calls fail, and however often it starts again.\<close>

theorem mq_open_leaves_nothing:
  assumes "\<forall>d \<in> set (px_fds k). d < px_next k"
  shows "case mymq_open creat excl nonblock attr k of
      (Inl e, k') \<Rightarrow> (px_fds k', px_maps k', px_heap k', px_linked k') = (px_fds k, px_maps k, px_heap k, px_linked k)
    | (Inr mqd, k') \<Rightarrow> (px_fds k', px_maps k', px_heap k') = (px_fds k, Suc (px_maps k), Suc (px_heap k))"
  using mq_open_loop_owns [OF assms, of creat creat excl nonblock attr]
  by (auto simp: mymq_open_def opens_queue_def split: prod.splits sum.splits)

text \<open>The file exists but is removed while its initialisation is waited for; then it is created.\<close>

theorem mq_open_leaves_nothing_witness:
  "px_maps (snd (mymq_open True False False None (px_start [Failure EEXIST, Success, Busy, Failure ENOENT, Success]))) = 1"
proof -
  let ?k = "px_start [Failure EEXIST, Success, Busy, Failure ENOENT, Success]"
  have "\<forall>d \<in> set (px_fds ?k). d < px_next ?k" by (simp add: px_start_def)
  from mq_open_leaves_nothing [OF this, of True False False None]
  have "px_maps (snd (mymq_open True False False None ?k)) = (if isl (fst (mymq_open True False False None ?k)) then 0 else 1)"
    by (cases "mymq_open True False False None ?k") (auto simp: px_start_def split: sum.splits)
  moreover have "\<not> isl (fst (mymq_open True False False None ?k))"
    by (simp add: mymq_open_def mq_open_loop.simps px_start_def px_call_def px_new_fd_def px_close_def mq_open_create_def
        eval_nat_numeral Let_def)
  ultimately show ?thesis by simp
qed

lemma px_calls_four: "px_calls 4 k = px_calls (Suc (Suc (Suc (Suc 0)))) k"
  by (simp add: eval_nat_numeral del: px_calls.simps)

text \<open>A first try of \<open>mysem_open\<close> that finds the file, maps it, and sees it removed.\<close>

lemma sem_open_tried:
  "mysem_open True False v vmax sh (px_start ([Failure EEXIST, Success, Success, Failure ENOENT] @ rs))
    = sem_open_loop True True True False v vmax sh
        \<lparr>px_script = rs, px_next = 1, px_fds = [], px_maps = 1, px_heap = 0, px_linked = 0, px_bad_close = 0\<rparr>"
proof -
  let ?k = "\<lambda>rs. px_start (Success # Success # Failure ENOENT # rs)"
  have "mysem_open True False v vmax sh (px_start ([Failure EEXIST, Success, Success, Failure ENOENT] @ rs))
      = sem_open_loop False False True False v vmax sh (?k rs)"
    unfolding mysem_open_def by (subst sem_open_loop.simps) (simp add: px_call_def px_start_def)
  also have "\<dots> = sem_open_loop True True True False v vmax sh
        \<lparr>px_script = rs, px_next = 1, px_fds = [], px_maps = 1, px_heap = 0, px_linked = 0, px_bad_close = 0\<rparr>"
    by (subst sem_open_loop.simps) (simp add: px_call_def px_start_def px_new_fd_def px_close_def eval_nat_numeral)
  finally show ?thesis .
qed

text \<open>
  mysem_open maps the file before it waits. When the file is gone by then and it starts again, the
  mapping stays: one semaphore is opened, or none, and a mapping is lost.\<close>

theorem mysem_open_loses_mapping:
  "(case mysem_open True False 1 32767 sh (px_start [Failure EEXIST, Success, Success, Failure ENOENT]) of
      (r, k) \<Rightarrow> \<not> isl r \<and> px_maps k = 2 \<and> px_fds k = [])
    \<and> (case mysem_open True False 1 32767 sh (px_start [Failure EEXIST, Success, Success, Failure ENOENT, Failure 13]) of
      (r, k) \<Rightarrow> r = Inl 13 \<and> px_maps k = 1 \<and> px_fds k = [])"
proof
  show "case mysem_open True False 1 32767 sh (px_start [Failure EEXIST, Success, Success, Failure ENOENT]) of
      (r, k) \<Rightarrow> \<not> isl r \<and> px_maps k = 2 \<and> px_fds k = []"
    using sem_open_tried [of 1 32767 sh "[]"]
    by (simp, subst sem_open_loop.simps)
      (simp add: px_call_def px_new_fd_def px_close_def sem_open_create_def px_calls_four Let_def)
  show "case mysem_open True False 1 32767 sh (px_start [Failure EEXIST, Success, Success, Failure ENOENT, Failure 13]) of
      (r, k) \<Rightarrow> r = Inl 13 \<and> px_maps k = 1 \<and> px_fds k = []"
    using sem_open_tried [of 1 32767 sh "[Failure 13]"]
    by (simp, subst sem_open_loop.simps) (simp add: px_call_def)
qed

text \<open>When malloc fails in mymq_open the descriptor is closed a second time.\<close>

lemma mq_open_double_close:
  "px_bad_close (snd (mymq_open False False False None (px_start [Success, Success, Success, Failure ENOMEM]))) = 1"
  by (simp add: mymq_open_def mq_open_loop.simps px_start_def px_call_def px_new_fd_def px_close_def mq_open_map_def
      mq_open_err_def eval_nat_numeral Let_def)

end
