(* ===== verification/Sv_Semaphore.thy ===== *)
theory Sv_Semaphore
  imports Px_Open
begin

text \<open>
  The Posix semaphores of UNIX.Network.Programming/unpv22e/my_pxsem_svsem, which are System V
  semaphores: a name is a file whose key identifies a set of one semaphore in the kernel.
\<close>

subsection \<open>The kernel\<close>

text \<open>The value, and whether sem_otime is nonzero; the set does not exist when there is \<open>None\<close>.\<close>

record sv_os =
  sv_sem :: "(nat \<times> bool) option"
  sv_file :: bool
  sv_px :: px_os

definition SEMVMX :: nat where "SEMVMX = 32767"

record sv_mysem =
  sem_open_magic :: int

definition SV_SEM_MAGIC :: int where "SV_SEM_MAGIC = 0x45678923"

definition sv_call :: "sv_os \<Rightarrow> int option \<times> sv_os" where
  "sv_call k = (case px_call (sv_px k) of (Failure e, p) \<Rightarrow> (Some e, k\<lparr>sv_px := p\<rparr>) | (r, p) \<Rightarrow> (None, k\<lparr>sv_px := p\<rparr>))"

text \<open>\<open>semop\<close> with one operation: \<open>Inl None\<close> when it has to wait.\<close>

abbreviation (input) EINTR :: int where "EINTR \<equiv> 4"
abbreviation (input) ERANGE :: int where "ERANGE \<equiv> 34"

definition semop :: "int \<Rightarrow> bool \<Rightarrow> sv_os \<Rightarrow> (int option + unit) \<times> sv_os" where
  "semop p nowait k =
     (case sv_sem k of
        None \<Rightarrow> (Inl (Some EINVAL), k)
      | Some (v, ot) \<Rightarrow>
          if int v + p < 0 \<or> p = 0 \<and> v \<noteq> 0 then (Inl (if nowait then Some EAGAIN else None), k)
          else if int v + p > int SEMVMX then (Inl (Some ERANGE), k)
          else (Inr (), k\<lparr>sv_sem := Some (nat (int v + p), True)\<rparr>))"


subsection \<open>Operations\<close>

definition sv_sem_post :: "sv_mysem \<Rightarrow> sv_os \<Rightarrow> (int option + unit) \<times> sv_os" where
  "sv_sem_post s k = (if sem_open_magic s \<noteq> SV_SEM_MAGIC then (Inl (Some EINVAL), k) else semop 1 False k)"

definition sv_sem_wait :: "sv_mysem \<Rightarrow> sv_os \<Rightarrow> (int option + unit) \<times> sv_os" where
  "sv_sem_wait s k = (if sem_open_magic s \<noteq> SV_SEM_MAGIC then (Inl (Some EINVAL), k) else semop (-1) False k)"

definition sv_sem_trywait :: "sv_mysem \<Rightarrow> sv_os \<Rightarrow> (int option + unit) \<times> sv_os" where
  "sv_sem_trywait s k = (if sem_open_magic s \<noteq> SV_SEM_MAGIC then (Inl (Some EINVAL), k) else semop (-1) True k)"

definition sv_sem_getvalue :: "sv_mysem \<Rightarrow> sv_os \<Rightarrow> (int + int)" where
  "sv_sem_getvalue s k =
     (if sem_open_magic s \<noteq> SV_SEM_MAGIC then Inl EINVAL
      else case sv_sem k of None \<Rightarrow> Inl EINVAL | Some (v, ot) \<Rightarrow> Inr (int v))"

definition sv_sem_close :: "sv_mysem \<Rightarrow> int option \<times> sv_mysem" where
  "sv_sem_close s = (if sem_open_magic s \<noteq> SV_SEM_MAGIC then (Some EINVAL, s) else (None, s\<lparr>sem_open_magic := 0\<rparr>))"

text \<open>ftok, unlink, semget, semctl.\<close>

definition sv_sem_unlink :: "sv_os \<Rightarrow> int option \<times> sv_os" where
  "sv_sem_unlink k =
     (case sv_call k of
        (Some e, k1) \<Rightarrow> (Some e, k1)
      | (None, k1) \<Rightarrow>
        (case sv_call k1 of
           (Some e, k2) \<Rightarrow> (Some e, k2)
         | (None, k2) \<Rightarrow>
           (let k3 = k2\<lparr>sv_file := False\<rparr> in
            case sv_sem k3 of
              None \<Rightarrow> (Some ENOENT, k3)
            | Some s \<Rightarrow> (case sv_call k3 of (Some e, k4) \<Rightarrow> (Some e, k4) | (None, k4) \<Rightarrow> (None, k4\<lparr>sv_sem := None\<rparr>)))))"

text \<open>The label \<open>err\<close>: the set is removed, whoever has created it.\<close>

definition sv_open_err :: "bool \<Rightarrow> int \<Rightarrow> sv_os \<Rightarrow> (int + sv_mysem) \<times> sv_os" where
  "sv_open_err has_id e k = (Inl e, if has_id then k\<lparr>sv_sem := None\<rparr> else k)"

definition sv_open_finish :: "sv_os \<Rightarrow> (int + sv_mysem) \<times> sv_os" where
  "sv_open_finish k =
     (case sv_call k of (Some e, k1) \<Rightarrow> sv_open_err True e k1 | (None, k1) \<Rightarrow> (Inr \<lparr>sem_open_magic = SV_SEM_MAGIC\<rparr>, k1))"

text \<open>The set has just been created: SETVAL, the test of the value, semop.\<close>

definition sv_open_create :: "nat \<Rightarrow> sv_os \<Rightarrow> (int + sv_mysem) \<times> sv_os" where
  "sv_open_create value k =
     (case sv_call k of
        (Some e, k1) \<Rightarrow> sv_open_err True e k1
      | (None, k1) \<Rightarrow>
          if value > SEMVMX then sv_open_err True EINVAL k1
          else case semop (int value) False k1 of
            (Inl e, k2) \<Rightarrow> sv_open_err True (case e of None \<Rightarrow> EINTR | Some e \<Rightarrow> e) k2
          | (Inr _, k2) \<Rightarrow> sv_open_finish k2)"

text \<open>\<open>others\<close> is what the other processes do to the semaphore during each second of sleep.\<close>

fun sv_open_wait :: "((nat \<times> bool) option \<Rightarrow> (nat \<times> bool) option) \<Rightarrow> nat \<Rightarrow> sv_os \<Rightarrow> (int + sv_mysem) \<times> sv_os" where
  "sv_open_wait others 0 k = sv_open_err True ETIMEDOUT k"
| "sv_open_wait others (Suc i) k =
     (case sv_sem k of
        None \<Rightarrow> sv_open_err True EINVAL k
      | Some (v, ot) \<Rightarrow> if ot then sv_open_finish k else sv_open_wait others i (k\<lparr>sv_sem := others (sv_sem k)\<rparr>))"

definition sv_open_existing :: "((nat \<times> bool) option \<Rightarrow> (nat \<times> bool) option) \<Rightarrow> sv_os \<Rightarrow> (int + sv_mysem) \<times> sv_os" where
  "sv_open_existing others k =
     (case sv_call k of
        (Some e, k1) \<Rightarrow> sv_open_err False e k1
      | (None, k1) \<Rightarrow> (case sv_sem k1 of None \<Rightarrow> sv_open_err False ENOENT k1 | Some s \<Rightarrow> sv_open_wait others 10 k1))"

definition sv_sem_open :: "((nat \<times> bool) option \<Rightarrow> (nat \<times> bool) option) \<Rightarrow> bool \<Rightarrow> bool \<Rightarrow> nat \<Rightarrow> sv_os \<Rightarrow> (int + sv_mysem) \<times> sv_os" where
  "sv_sem_open others creat excl value k =
     (if creat
      then case sv_call k of
        (Some e, k1) \<Rightarrow> (Inl e, k1)
      | (None, k1) \<Rightarrow>
        (case sv_call (k1\<lparr>sv_file := True\<rparr>) of
           (Some e, k2) \<Rightarrow> (Inl e, k2)
         | (None, k2) \<Rightarrow>
           (case sv_sem k2 of
              None \<Rightarrow> sv_open_create value (k2\<lparr>sv_sem := Some (0, False)\<rparr>)
            | Some s \<Rightarrow> if excl then sv_open_err False EEXIST k2 else sv_open_existing others k2))
      else sv_open_existing others k)"


subsection \<open>Properties\<close>

definition sv_start :: "(nat \<times> bool) option \<Rightarrow> px_reply list \<Rightarrow> sv_os" where
  "sv_start s rs = \<lparr>sv_sem = s, sv_file = s \<noteq> None, sv_px = px_start rs\<rparr>"

lemma sv_wait_ready: "0 < i \<Longrightarrow> sv_sem k = Some (v, True) \<Longrightarrow> sv_open_wait others i k = sv_open_finish k"
  by (cases i) simp_all

lemma sv_wait_never: "sv_sem k = Some (v, False) \<Longrightarrow> sv_open_wait (\<lambda>s. s) i k = sv_open_err True ETIMEDOUT k"
proof (induction i)
  case (Suc i)
  have same: "k\<lparr>sv_sem := Some (v, False)\<rparr> = k" using Suc.prems by (cases k) simp
  have "sv_open_wait (\<lambda>s. s) (Suc i) k = sv_open_wait (\<lambda>s. s) i (k\<lparr>sv_sem := Some (v, False)\<rparr>)"
    using Suc.prems by simp
  also have "\<dots> = sv_open_err True ETIMEDOUT k" unfolding same by (rule Suc.IH [OF Suc.prems])
  finally show ?case .
qed simp

text \<open>
  the process that creates a semaphore leaves it with the value asked for and marked as initialised;
  every other process that then opens it, with O_CREAT or not, leaves the value alone.\<close>

theorem sv_open_initialises:
  assumes "value \<le> SEMVMX"
  shows "(case sv_sem_open others True excl value (sv_start None []) of (r, k) \<Rightarrow> \<not> isl r \<and> sv_sem k = Some (value, True))
    \<and> (case sv_sem_open others creat False value' (sv_start (Some (v, True)) []) of (r, k) \<Rightarrow> \<not> isl r \<and> sv_sem k = Some (v, True))"
  using assms
  by (simp add: sv_sem_open_def sv_start_def px_start_def sv_call_def px_call_def sv_open_create_def semop_def
      sv_open_finish_def sv_open_existing_def sv_wait_ready SEMVMX_def)

theorem sv_open_initialises_witness:
  "case sv_sem_open (\<lambda>s. s) True True 5 (sv_start None []) of (r, k) \<Rightarrow> \<not> isl r \<and> sv_sem k = Some (5, True)"
  using sv_open_initialises [of 5 "\<lambda>s. s" True] by (simp add: SEMVMX_def)

text \<open>
  a failing open destroys what is not its own: a process that opens a semaphore in use and runs out
  of memory removes it from the kernel, and so does one that gives up waiting for the process that
  has created it.\<close>

theorem sv_open_removes_others:
  "(case sv_sem_open (\<lambda>s. s) False False 0 (sv_start (Some (v, True)) [Success, Failure ENOMEM]) of
      (r, k) \<Rightarrow> r = Inl ENOMEM \<and> sv_sem k = None)
    \<and> (case sv_sem_open (\<lambda>s. s) False False 0 (sv_start (Some (0, False)) []) of
      (r, k) \<Rightarrow> r = Inl ETIMEDOUT \<and> sv_sem k = None)"
  by (simp add: sv_sem_open_def sv_start_def px_start_def sv_call_def px_call_def
      sv_open_finish_def sv_open_existing_def sv_open_err_def sv_wait_ready sv_wait_never)

text \<open>The values stay within the bounds of System V semaphores.\<close>

lemma semop_bounded: "semop p nw k = (r, k') \<Longrightarrow> (\<forall>v ot. sv_sem k = Some (v, ot) \<longrightarrow> v \<le> SEMVMX)
    \<Longrightarrow> (\<forall>v ot. sv_sem k' = Some (v, ot) \<longrightarrow> v \<le> SEMVMX)"
  by (auto simp: semop_def split: option.splits if_splits)

end
