(* ===== verification/Voting.thy ===== *)
theory Voting
  imports Survey
begin

unbundle bit_operations_syntax

text \<open>
  The framing, encoding and voting programs of TCP.IP.Sockets.In.C/code: BruteForceCoding.c,
  DelimFramer.c and LengthFramer.c, VoteEncodingBin.c and VoteEncodingText.c, VoteServerTCP.c and
  VoteClientTCP.c. An input stream is the bytes that are left of it; a buffer is its bytes, of
  which a message overwrites the first.
\<close>

subsection \<open>BruteForceCoding\<close>

definition low_byte :: "u64 \<Rightarrow> char" where
  "low_byte w = char_of (unat w)"

function encode_be_from :: "u64 \<Rightarrow> nat \<Rightarrow> nat \<Rightarrow> bytes \<Rightarrow> nat \<Rightarrow> bytes \<times> nat" where
  "encode_be_from val sz i dst offset =
     (if i < sz
      then encode_be_from val sz (Suc i) (dst[offset := low_byte (drop_bit ((sz - 1 - i) * 8) val)]) (offset + 1)
      else (dst, offset))"
  by pat_completeness auto

termination encode_be_from
  by (relation "measure (\<lambda>(val, sz, i, dst, offset). sz - i)") auto

declare encode_be_from.simps [simp del]

definition EncodeIntBigEndian :: "bytes \<Rightarrow> u64 \<Rightarrow> nat \<Rightarrow> nat \<Rightarrow> bytes \<times> nat" where
  "EncodeIntBigEndian dst val offset sz = encode_be_from val sz 0 dst offset"

definition DecodeIntBigEndian :: "bytes \<Rightarrow> nat \<Rightarrow> nat \<Rightarrow> u64" where
  "DecodeIntBigEndian val offset sz =
     foldl (\<lambda>rtn i. push_bit 8 rtn OR of_nat (of_char (val ! (offset + i)))) 0 [0..<sz]"

lemma encode_be_from_spec:
  "i \<le> sz \<Longrightarrow> offset + (sz - i) \<le> length dst \<Longrightarrow>
    encode_be_from val sz i dst offset
    = (take offset dst @ map (\<lambda>j. low_byte (drop_bit ((sz - 1 - j) * 8) val)) [i..<sz] @ drop (offset + (sz - i)) dst,
       offset + (sz - i))"
proof (induction "sz - i" arbitrary: i dst offset)
  case 0
  then show ?case by (subst encode_be_from.simps) simp
next
  case (Suc n)
  then have i: "i < sz" "n = sz - Suc i" by simp_all
  let ?b = "low_byte (drop_bit ((sz - 1 - i) * 8) val)"
  have "encode_be_from val sz i dst offset = encode_be_from val sz (Suc i) (dst[offset := ?b]) (offset + 1)"
    using i by (subst encode_be_from.simps) simp
  also have "\<dots> = (take (offset + 1) (dst[offset := ?b]) @ map (\<lambda>j. low_byte (drop_bit ((sz - 1 - j) * 8) val)) [Suc i..<sz]
      @ drop (offset + 1 + (sz - Suc i)) (dst[offset := ?b]), offset + 1 + (sz - Suc i))"
    using Suc.hyps(1) [OF i(2), of "offset + 1" "dst[offset := ?b]"] Suc.prems i by simp
  also have "take (offset + 1) (dst[offset := ?b]) = take offset dst @ [?b]"
    using Suc.prems i by (simp add: take_Suc_conv_app_nth)
  also have "drop (offset + 1 + (sz - Suc i)) (dst[offset := ?b]) = drop (offset + 1 + (sz - Suc i)) dst" by simp
  finally show ?case using i by (simp add: upt_conv_Cons Suc_diff_Suc)
qed

lemma join_byte:
  fixes w :: u64
  shows "push_bit 8 (take_bit (8 * k) (drop_bit 8 w)) OR take_bit 8 w = take_bit (8 * Suc k) w"
  by (rule bit_word_eqI) (auto simp: bit_simps)

lemma of_char_low_byte: "of_nat (of_char (low_byte w)) = take_bit 8 w"
  by (simp add: low_byte_def of_char_of take_bit_eq_mod word_arith_nat_mod)

lemma decode_be_prefix:
  assumes "k \<le> sz" and "\<And>i. i < sz \<Longrightarrow> val ! (offset + i) = low_byte (drop_bit ((sz - 1 - i) * 8) v)"
  shows "foldl (\<lambda>rtn i. push_bit 8 rtn OR of_nat (of_char (val ! (offset + i)))) 0 [0..<k]
    = take_bit (8 * k) (drop_bit ((sz - k) * 8) v)"
  using assms(1)
proof (induction k)
  case (Suc k)
  let ?w = "drop_bit ((sz - 1 - k) * 8) v"
  have "drop_bit ((sz - k) * 8) v = drop_bit 8 ?w"
    using Suc.prems by (simp add: drop_bit_drop_bit) (metis Suc_diff_Suc Suc_le_lessD add.commute mult_Suc)
  then show ?case using Suc assms(2) [of k] join_byte [of k ?w] by (simp add: of_char_low_byte)
qed simp

text \<open>
  an integer of up to 8 bytes that is encoded at an offset of a buffer is decoded from there as its
  low bits, and the rest of the buffer is as it was.\<close>

theorem encode_int_round_trip:
  assumes "offset + sz \<le> length dst" and "sz \<le> 8"
  shows "DecodeIntBigEndian (fst (EncodeIntBigEndian dst val offset sz)) offset sz = take_bit (8 * sz) val
    \<and> snd (EncodeIntBigEndian dst val offset sz) = offset + sz
    \<and> take offset (fst (EncodeIntBigEndian dst val offset sz)) = take offset dst
    \<and> drop (offset + sz) (fst (EncodeIntBigEndian dst val offset sz)) = drop (offset + sz) dst"
proof -
  let ?m = "map (\<lambda>j. low_byte (drop_bit ((sz - 1 - j) * 8) val)) [0..<sz]"
  have e: "EncodeIntBigEndian dst val offset sz = (take offset dst @ ?m @ drop (offset + sz) dst, offset + sz)"
    using encode_be_from_spec [of 0 sz offset dst val] assms by (simp add: EncodeIntBigEndian_def)
  have "DecodeIntBigEndian (take offset dst @ ?m @ drop (offset + sz) dst) offset sz = take_bit (8 * sz) (drop_bit 0 val)"
    unfolding DecodeIntBigEndian_def
    using assms decode_be_prefix [of sz sz "take offset dst @ ?m @ drop (offset + sz) dst" offset val]
    by (simp add: nth_append)
  then show ?thesis using assms by (simp add: e)
qed

theorem encode_int_round_trip_witness:
  "DecodeIntBigEndian (fst (EncodeIntBigEndian (replicate 15 CHR 0x00) 10001 1 2)) 1 2 = 10001"
  using encode_int_round_trip [of 1 2 "replicate 15 CHR 0x00" 10001] by (simp add: take_bit_eq_mod)



subsection \<open>Framing\<close>

text \<open>The result of \<open>GetNextMsg\<close>; the program ends; it writes behind its buffer.\<close>

datatype frame = Frame int | Frame_dies | Frame_overflow

text \<open>A read into a buffer.\<close>

definition put_bytes :: "bytes \<Rightarrow> bytes \<Rightarrow> bytes" where
  "put_bytes bs buf = bs @ drop (length bs) buf"

lemma length_put_bytes [simp]: "length bs \<le> length buf \<Longrightarrow> length (put_bytes bs buf) = length buf"
  by (simp add: put_bytes_def)

text \<open>
  DelimFramer. \<open>nextChar\<close> is uninitialised when the buffer has no room: then the result depends on
  it, and the negative count is 0 either way.
\<close>

fun delim_loop :: "nat \<Rightarrow> nat \<Rightarrow> bytes \<Rightarrow> bytes \<Rightarrow> frame \<times> bytes \<times> bytes" where
  "delim_loop bufSize count ip buf =
     (if count < bufSize
      then case ip of
        [] \<Rightarrow> (if count > 0 then Frame_dies else Frame (-1), buf, [])
      | c # rest \<Rightarrow>
          if c = NL then (Frame (int count), buf, rest)
          else delim_loop bufSize (Suc count) rest (buf[count := c])
      else (Frame (- int count), buf, ip))"

declare delim_loop.simps [simp del]

definition Delim_GetNextMsg :: "nat \<Rightarrow> bytes \<Rightarrow> bytes \<Rightarrow> frame \<times> bytes \<times> bytes" where
  "Delim_GetNextMsg bufSize ip buf = delim_loop bufSize 0 ip buf"

text \<open>What is written; \<open>None\<close> for the result -1.\<close>

definition Delim_PutMsg :: "bytes \<Rightarrow> bytes option" where
  "Delim_PutMsg msg = (if NL \<in> set msg then None else Some (msg @ [NL]))"

text \<open>LengthFramer. The length is 16 bits; what does not fit the buffer goes into 512 bytes of waste.\<close>

definition be16 :: "nat \<Rightarrow> bytes" where
  "be16 n = [char_of (n div 256), char_of n]"

definition of_be16 :: "bytes \<Rightarrow> nat" where
  "of_be16 bs = 256 * of_char (bs ! 0) + of_char (bs ! 1)"

lemma of_be16_be16: "n < 65536 \<Longrightarrow> of_be16 (be16 n @ r) = n"
  by (simp add: of_be16_def be16_def of_char_of)

definition BUFSIZE :: nat where "BUFSIZE = 512"

definition Length_GetNextMsg :: "nat \<Rightarrow> bytes \<Rightarrow> bytes \<Rightarrow> frame \<times> bytes \<times> bytes" where
  "Length_GetNextMsg bufSize ip buf =
     (if length ip < 2 then (Frame (-1), buf, [])
      else let indicated = of_be16 (take 2 ip); ip1 = drop 2 ip;
               mSize = min indicated bufSize; extra = indicated - mSize;
               got = take mSize ip1; ip2 = drop mSize ip1; buf1 = put_bytes got buf
           in if length got \<noteq> mSize then (Frame (-1), buf1, [])
              else if extra > 0
                   then if min extra (length ip2) > BUFSIZE then (Frame_overflow, buf1, drop extra ip2)
                        else (Frame (- int (mSize + extra)), buf1, drop extra ip2)
              else (Frame (int mSize), buf1, ip2))"

definition Length_PutMsg :: "bytes \<Rightarrow> bytes option" where
  "Length_PutMsg msg = (if length msg > 65535 then None else Some (be16 (length msg) @ msg))"

text \<open>
  What a framer promises: a message that it has written is read again, whatever follows it, by a
  reader whose buffer is larger, and the rest of the buffer is as it was.
\<close>

locale framer =
  fixes put :: "bytes \<Rightarrow> bytes option" and get :: "nat \<Rightarrow> bytes \<Rightarrow> bytes \<Rightarrow> frame \<times> bytes \<times> bytes"
  assumes get_put: "\<lbrakk>put msg = Some w; length msg < n; n \<le> length buf\<rbrakk>
      \<Longrightarrow> get n (w @ rest) buf = (Frame (int (length msg)), put_bytes msg buf, rest)"
    and get_end: "0 < n \<Longrightarrow> get n [] buf = (Frame (-1), buf, [])"

lemma delim_loop_msg:
  "NL \<notin> set msg \<Longrightarrow> count + length msg < n \<Longrightarrow> n \<le> length buf \<Longrightarrow>
    delim_loop n count (msg @ NL # rest) buf
      = (Frame (int (count + length msg)), take count buf @ msg @ drop (count + length msg) buf, rest)"
proof (induction msg arbitrary: count buf)
  case Nil
  then show ?case by (subst delim_loop.simps) simp
next
  case (Cons c msg)
  have "delim_loop n count ((c # msg) @ NL # rest) buf = delim_loop n (Suc count) (msg @ NL # rest) (buf[count := c])"
    using Cons.prems by (subst delim_loop.simps) auto
  also have "\<dots> = (Frame (int (Suc count + length msg)),
      take (Suc count) (buf[count := c]) @ msg @ drop (Suc count + length msg) (buf[count := c]), rest)"
    using Cons.prems by (intro Cons.IH) auto
  also have "take (Suc count) (buf[count := c]) = take count buf @ [c]"
    using Cons.prems by (simp add: take_Suc_conv_app_nth)
  finally show ?case by simp
qed

interpretation delim: framer Delim_PutMsg Delim_GetNextMsg
proof
  fix msg w n and buf rest :: bytes
  assume "Delim_PutMsg msg = Some w" "length msg < n" "n \<le> length buf"
  then show "Delim_GetNextMsg n (w @ rest) buf = (Frame (int (length msg)), put_bytes msg buf, rest)"
    using delim_loop_msg [of msg 0 n buf rest]
    by (auto simp: Delim_PutMsg_def Delim_GetNextMsg_def put_bytes_def split: if_splits)
next
  fix n :: nat and buf :: bytes
  assume "0 < n"
  then show "Delim_GetNextMsg n [] buf = (Frame (-1), buf, [])"
    unfolding Delim_GetNextMsg_def by (subst delim_loop.simps) simp
qed

interpretation lenf: framer Length_PutMsg Length_GetNextMsg
proof
  fix msg w n and buf rest :: bytes
  assume "Length_PutMsg msg = Some w" "length msg < n" "n \<le> length buf"
  then have w: "w = be16 (length msg) @ msg" "length msg < 65536" "length msg \<le> n" by (auto simp: Length_PutMsg_def split: if_splits)
  have two: "length (be16 (length msg)) = 2" by (simp add: be16_def)
  then have "take 2 (w @ rest) = be16 (length msg)" "drop 2 (w @ rest) = msg @ rest" by (simp_all add: w(1))
  then show "Length_GetNextMsg n (w @ rest) buf = (Frame (int (length msg)), put_bytes msg buf, rest)"
    using of_be16_be16 [OF w(2), of "[]"] w(1,3) two by (simp add: Length_GetNextMsg_def Let_def min_absorb1)
qed (simp add: Length_GetNextMsg_def)


text \<open>
  whatever one of the framers has written it reads again, into a larger buffer and followed by
  anything; PutMsg refuses only messages with the delimiter, or of more than 65535 bytes.\<close>

theorem framing_round_trip:
  assumes "length msg < n" and "n \<le> length buf"
  shows "(case Delim_PutMsg msg of None \<Rightarrow> NL \<in> set msg
      | Some w \<Rightarrow> Delim_GetNextMsg n (w @ rest) buf = (Frame (int (length msg)), put_bytes msg buf, rest))
    \<and> (case Length_PutMsg msg of None \<Rightarrow> 65535 < length msg
      | Some w \<Rightarrow> Length_GetNextMsg n (w @ rest) buf = (Frame (int (length msg)), put_bytes msg buf, rest))"
proof -
  have none: "Delim_PutMsg msg = None \<longleftrightarrow> NL \<in> set msg" "Length_PutMsg msg = None \<longleftrightarrow> 65535 < length msg"
    by (simp_all add: Delim_PutMsg_def Length_PutMsg_def)
  show ?thesis
    using none delim.get_put [OF _ assms] lenf.get_put [OF _ assms]
    by (cases "Delim_PutMsg msg"; cases "Length_PutMsg msg") simp_all
qed

theorem framing_round_trip_witness:
  "Delim_GetNextMsg 4 (''abc'' @ [NL] @ ''def'') (replicate 4 CHR 0x00) = (Frame 3, ''abc'' @ [CHR 0x00], ''def'')"
  using framing_round_trip [of "''abc''" 4 "replicate 4 CHR 0x00" "''def''"]
  by (simp add: Delim_PutMsg_def put_bytes_def eval_nat_numeral)

text \<open>
  a message announced by more than bufSize + 512 bytes, which no sender of this library produces
  but any peer can send, is read beyond the 512 bytes of the array that takes the excess.\<close>

theorem length_framer_overflow:
  assumes "n + 512 < k" and "k < 65536" and "k \<le> length msg"
  shows "fst (Length_GetNextMsg n (be16 k @ msg) buf) = Frame_overflow"
proof -
  have "length (be16 k) = 2" by (simp add: be16_def)
  then have "take 2 (be16 k @ msg) = be16 k" "drop 2 (be16 k @ msg) = msg" "of_be16 (be16 k) = k" "\<not> length (be16 k @ msg) < 2"
    using of_be16_be16 [OF assms(2), of "[]"] by simp_all
  then show ?thesis using assms by (simp add: Length_GetNextMsg_def Let_def BUFSIZE_def min_def) arith
qed

theorem length_framer_overflow_witness:
  "fst (Length_GetNextMsg 500 (be16 2000 @ replicate 2000 CHR ''x'') buf) = Frame_overflow"
  by (rule length_framer_overflow) simp_all


subsection \<open>Votes\<close>

record VoteInfo =
  vi_count :: u64
  vi_candidate :: int
  vi_inquiry :: bool
  vi_response :: bool

definition MAX_CANDIDATE :: int where "MAX_CANDIDATE = 1000"
definition MAX_WIRE_SIZE :: nat where "MAX_WIRE_SIZE = 500"

definition vote_clear :: VoteInfo where
  "vote_clear = \<lparr>vi_count = 0, vi_candidate = 0, vi_inquiry = False, vi_response = False\<rparr>"

text \<open>The invariants of VoteProtocol.h.\<close>

definition vote_valid :: "VoteInfo \<Rightarrow> bool" where
  "vote_valid v \<longleftrightarrow> 0 \<le> vi_candidate v \<and> vi_candidate v \<le> MAX_CANDIDATE \<and> (\<not> vi_response v \<longrightarrow> vi_count v = 0)"

subsubsection \<open>VoteEncodingBin\<close>

definition vote_header :: "VoteInfo \<Rightarrow> nat" where
  "vote_header v = 0x5400 + (if vi_inquiry v then 0x0100 else 0) + (if vi_response v then 0x0200 else 0)"

text \<open>
  The message; \<open>None\<close> when the program ends. The candidate is cut to 16 bits. (\<open>memset\<close> first clears
  12 bytes, more than the buffer has if it has 4 to 11; the programs pass 500.)
\<close>

definition Bin_Encode :: "VoteInfo \<Rightarrow> nat \<Rightarrow> bytes option" where
  "Bin_Encode v bufSize =
     (if vi_response v \<and> bufSize < 12 \<or> bufSize < 4 then None
      else Some (be16 (vote_header v) @ be16 (nat (vi_candidate v mod 65536))
        @ (if vi_response v then be_bytes (ucast (drop_bit 32 (vi_count v))) @ be_bytes (ucast (vi_count v)) else [])))"

definition Bin_Decode :: "bytes \<Rightarrow> nat \<Rightarrow> VoteInfo \<Rightarrow> bool \<times> bytes \<times> VoteInfo" where
  "Bin_Decode buf mSize v =
     (let header = of_be16 (take 2 buf) in
      if mSize < 4 \<or> header div 1024 \<noteq> 0x5400 div 1024 then (False, buf, v)
      else let resp = odd (header div 512);
               v1 = v\<lparr>vi_response := resp, vi_inquiry := odd (header div 256),
                       vi_candidate := int (of_be16 (take 2 (drop 2 buf)))\<rparr>
           in (True, buf,
               if resp \<and> 12 \<le> mSize
               then v1\<lparr>vi_count := push_bit 32 (ucast (be_word (take 4 (drop 4 buf)))) OR ucast (be_word (take 4 (drop 8 buf)))\<rparr>
               else v1))"

lemma join_words: "push_bit 32 (ucast (ucast (drop_bit 32 w) :: u32)) OR ucast (ucast w :: u32) = (w :: u64)"
  by (rule bit_word_eqI) (auto simp: bit_simps)

lemma vote_header_fields:
  "vote_header v < 65536" "vote_header v div 1024 = 0x5400 div 1024"
  "odd (vote_header v div 512) \<longleftrightarrow> vi_response v" "odd (vote_header v div 256) \<longleftrightarrow> vi_inquiry v"
  by (simp_all add: vote_header_def)

lemma Bin_round_trip:
  assumes "vote_valid v" and "12 \<le> n"
  shows "\<exists>m. Bin_Encode v n = Some m \<and> length m = (if vi_response v then 12 else 4)
    \<and> Bin_Decode (m @ tail) (length m) vote_clear = (True, m @ tail, v)"
proof -
  let ?c = "nat (vi_candidate v mod 65536)"
  have c: "?c < 65536" "int ?c = vi_candidate v" using assms(1) by (auto simp: vote_valid_def MAX_CANDIDATE_def nat_less_iff)
  have two: "length (be16 k) = 2" for k by (simp add: be16_def)
  have b: "of_be16 (be16 (vote_header v)) = vote_header v" "of_be16 (be16 ?c) = ?c"
    using of_be16_be16 [of "vote_header v" "[]"] of_be16_be16 [OF c(1), of "[]"] vote_header_fields(1) by simp_all
  show ?thesis
  proof (cases "vi_response v")
    case True
    then show ?thesis using assms(2) b c two
      by (cases v) (auto simp: Bin_Encode_def Bin_Decode_def vote_clear_def Let_def vote_header_fields join_words)
  next
    case False
    then show ?thesis using assms b c two
      by (cases v) (auto simp: Bin_Encode_def Bin_Decode_def vote_clear_def Let_def vote_header_fields vote_valid_def)
  qed
qed


subsubsection \<open>VoteEncodingText\<close>

abbreviation (input) SP :: char where "SP \<equiv> CHR '' ''"
abbreviation (input) NUL :: char where "NUL \<equiv> CHR 0x00"

definition show_int :: "int \<Rightarrow> bytes" where
  "show_int i = (if i < 0 then CHR ''-'' # to_string (nat (- i)) else to_string (nat i))"

text \<open>What the two calls of \<open>snprintf\<close> print; \<open>None\<close> when the buffer is too small for them.\<close>

definition Text_Encode :: "VoteInfo \<Rightarrow> nat \<Rightarrow> bytes option" where
  "Text_Encode v bufSize =
     (let s = ''Voting'' @ [SP] @ (if vi_inquiry v then ''i'' else ''v'') @ [SP] @ (if vi_response v then ''R'' else '''') @ [SP]
            @ show_int (vi_candidate v) @ (if vi_response v then [SP] @ to_string (unat (vi_count v)) else [])
      in if length s < bufSize then Some s else None)"

text \<open>
  \<open>strtok\<close> at a position of the buffer: the token, the buffer with its end made NUL, and where to
  go on. A byte behind the buffer is taken to be NUL.
\<close>

definition strtok :: "bytes \<Rightarrow> nat \<Rightarrow> bytes option \<times> bytes \<times> nat" where
  "strtok buf pos =
     (let start = pos + length (takeWhile (\<lambda>c. c = SP) (drop pos buf));
          tok = takeWhile (\<lambda>c. c \<noteq> SP \<and> c \<noteq> NUL) (drop start buf);
          e = start + length tok
      in if tok = [] then (None, buf, start)
         else if e < length buf \<and> buf ! e = SP then (Some tok, buf[e := NUL], Suc e)
         else (Some tok, buf, e))"

text \<open>\<open>strtoll\<close>: beyond the range of \<open>long long\<close> the nearest limit.\<close>

definition strtoll :: "bytes \<Rightarrow> u64" where
  "strtoll s = word_of_int (max (- (2 ^ 63)) (min (2 ^ 63 - 1) (atoi s)))"

definition Text_Decode :: "bytes \<Rightarrow> nat \<Rightarrow> VoteInfo \<Rightarrow> bool \<times> bytes \<times> VoteInfo" where
  "Text_Decode buf mSize v =
     (case strtok buf 0 of
        (None, b, _) \<Rightarrow> (False, b, v)
      | (Some tok, b1, p1) \<Rightarrow>
        if tok \<noteq> ''Voting'' then (False, b1, v)
        else case strtok b1 p1 of
          (None, b, _) \<Rightarrow> (False, b, v)
        | (Some tok, b2, p2) \<Rightarrow>
          if tok \<noteq> ''v'' \<and> tok \<noteq> ''i'' then (False, b2, v)
          else let v1 = v\<lparr>vi_inquiry := (tok \<noteq> ''v'')\<rparr> in
          (case strtok b2 p2 of
             (None, b, _) \<Rightarrow> (False, b, v1)
           | (Some tok, b3, p3) \<Rightarrow>
             if tok = ''R''
             then let v2 = v1\<lparr>vi_response := True\<rparr> in
               (case strtok b3 p3 of
                  (None, b, _) \<Rightarrow> (False, b, v2)
                | (Some tok, b4, p4) \<Rightarrow>
                  let v3 = v2\<lparr>vi_candidate := atoi tok\<rparr> in
                  (case strtok b4 p4 of
                     (None, b, _) \<Rightarrow> (False, b, v3)
                   | (Some tok, b5, _) \<Rightarrow> (True, b5, v3\<lparr>vi_count := strtoll tok\<rparr>)))
             else (True, b3, v1\<lparr>vi_response := False, vi_candidate := atoi tok, vi_count := 0\<rparr>)))"

text \<open>A token that is followed by a blank, or by a NUL.\<close>

lemma strtok_token:
  assumes "tok \<noteq> []" and "SP \<notin> set tok" and "NUL \<notin> set tok" and "set sp \<subseteq> {SP}" and "d = SP \<or> d = NUL"
  shows "strtok (pre @ sp @ tok @ d # rest) (length pre)
    = (Some tok, pre @ sp @ tok @ NUL # rest, length (pre @ sp @ tok) + (if d = SP then 1 else 0))"
proof -
  have "takeWhile (\<lambda>c. c = SP) (sp @ tok @ d # rest) = sp"
    using assms(1,2,4) by (subst takeWhile_append2) (auto simp: neq_Nil_conv)
  moreover have "takeWhile (\<lambda>c. c \<noteq> SP \<and> c \<noteq> NUL) (tok @ d # rest) = tok"
    using assms(2,3,5) by (subst takeWhile_append2) auto
  ultimately show ?thesis
    using assms(1,5) by (auto simp: strtok_def Let_def nth_append list_update_append)
qed

lemma to_string_token: "SP \<notin> set (to_string n)" "NUL \<notin> set (to_string n)" "to_string n \<noteq> ''R''"
proof -
  have "isdigit c" if "c \<in> set (to_string n)" for c using that to_string_digits by blast
  then show "SP \<notin> set (to_string n)" "NUL \<notin> set (to_string n)"
    using isdigit_def [of SP] isdigit_def [of NUL] by auto
  show "to_string n \<noteq> ''R''" using hd_to_string_digit [of n] by (auto simp: isdigit_def)
qed


lemma strtoll_to_string:
  assumes "unat c < 2 ^ 63"
  shows "strtoll (to_string (unat c)) = c"
proof -
  have "int (unat c) < int (2 ^ 63)" using assms by (simp only: of_nat_less_iff)
  then have "0 \<le> uint c" "uint c \<le> 2 ^ 63 - 1" by simp_all
  moreover have "max (- (2 ^ 63)) (min (2 ^ 63 - 1) x) = x" if "0 \<le> x" "x \<le> 2 ^ 63 - 1" for x :: int
    using that by simp
  ultimately have "max (- (2 ^ 63)) (min (2 ^ 63 - 1) (uint c)) = uint c" by blast
  then show ?thesis by (simp only: strtoll_def atoi_to_string nat_uint_eq [symmetric] int_nat_eq if_P) simp
qed

lemma Text_round_trip:
  assumes "vote_valid v" and "unat (vi_count v) < 2 ^ 63" and "Text_Encode v n = Some m"
  shows "\<exists>b. Text_Decode (m @ NUL # rest) k vote_clear = (True, b, v)"
proof -
  let ?c = "to_string (nat (vi_candidate v))" and ?n = "to_string (unat (vi_count v))"
  obtain q where q: "(if vi_inquiry v then ''i'' else ''v'') = [q]" "q \<noteq> SP" "q \<noteq> NUL"
    "[q] = ''v'' \<or> [q] = ''i''" "[q] \<noteq> ''v'' \<longleftrightarrow> vi_inquiry v"
    by (cases "vi_inquiry v") auto
  have c: "show_int (vi_candidate v) = ?c" "atoi ?c = vi_candidate v"
    using assms(1) by (simp_all add: vote_valid_def show_int_def atoi_to_string)
  note tok = strtok_token [where sp = "[]" and d = SP, simplified]
  define t2 where "t2 = (if vi_response v then ''R'' @ SP # ?c @ SP # ?n else SP # ?c) @ NUL # rest"
  let ?p1 = "''Voting'' @ [NUL]" and ?p2 = "''Voting'' @ [NUL] @ [q] @ [NUL]"
  have m: "m @ NUL # rest = ''Voting'' @ SP # [q] @ SP # t2"
    using assms(3) c(1) by (auto simp: Text_Encode_def Let_def t2_def q(1) split: if_splits)
  define b1 b2 where "b1 = ?p1 @ [q] @ SP # t2" and "b2 = ?p2 @ t2"
  have s1: "strtok (m @ NUL # rest) 0 = (Some ''Voting'', b1, 7)"
    using tok [of "''Voting''" "[]" "[q] @ SP # t2"] by (simp add: m b1_def eval_nat_numeral)
  have s2: "strtok b1 7 = (Some [q], b2, 9)"
    using tok [of "[q]" ?p1 t2] q by (simp add: b1_def b2_def eval_nat_numeral)
  show ?thesis
  proof (cases "vi_response v")
    case True
    let ?p3 = "?p2 @ ''R'' @ [NUL]" and ?p4 = "?p2 @ ''R'' @ [NUL] @ ?c @ [NUL]"
    define b3 b4 p4 where "b3 = ?p3 @ ?c @ SP # ?n @ NUL # rest" and "b4 = ?p4 @ ?n @ NUL # rest" and "p4 = length ?p4"
    have s3: "strtok b2 9 = (Some ''R'', b3, 11)"
      using tok [of "''R''" ?p2 "?c @ SP # ?n @ NUL # rest"] True by (simp add: b2_def b3_def t2_def eval_nat_numeral)
    have s4: "strtok b3 11 = (Some ?c, b4, p4)"
      using tok [of ?c ?p3 "?n @ NUL # rest"] to_string_token [of "nat (vi_candidate v)"]
      by (simp add: b3_def b4_def p4_def eval_nat_numeral)
    have s5: "\<exists>b p. strtok b4 p4 = (Some ?n, b, p)"
      using strtok_token [of ?n "[]" NUL ?p4 rest] to_string_token [of "unat (vi_count v)"]
      by (simp add: b4_def p4_def)
    then obtain b5 p5 where s5: "strtok b4 p4 = (Some ?n, b5, p5)" by blast
    show ?thesis
      using True c(2) strtoll_to_string [OF assms(2)] q(4,5)
      by (cases v) (auto simp: Text_Decode_def s1 s2 s3 s4 s5 vote_clear_def)
  next
    case False
    have s3: "\<exists>b p. strtok b2 9 = (Some ?c, b, p)"
      using strtok_token [of ?c "[SP]" NUL ?p2 rest] to_string_token [of "nat (vi_candidate v)"] False
      by (simp add: b2_def t2_def eval_nat_numeral)
    then obtain b3 p3 where s3: "strtok b2 9 = (Some ?c, b3, p3)" by blast
    show ?thesis
      using False c(2) assms(1) to_string_token(3) [of "nat (vi_candidate v)"] q(4,5)
      by (cases v) (auto simp: Text_Decode_def s1 s2 s3 vote_clear_def vote_valid_def)
  qed
qed


text \<open>
  a vote or a response that meets the invariants of the protocol is encoded in 4 or 12 bytes and
  decoded from them; in the text encoding it is decoded from a message that a NUL follows.\<close>

theorem vote_encoding_round_trip:
  assumes "vote_valid v"
  shows "(\<exists>m. Bin_Encode v MAX_WIRE_SIZE = Some m \<and> length m = (if vi_response v then 12 else 4)
      \<and> Bin_Decode (m @ tail) (length m) vote_clear = (True, m @ tail, v))
    \<and> (unat (vi_count v) < 2 ^ 63 \<longrightarrow> (\<forall>m. Text_Encode v MAX_WIRE_SIZE = Some m \<longrightarrow>
        (\<exists>b. Text_Decode (m @ NUL # tail) (length m) vote_clear = (True, b, v))))"
  using Bin_round_trip [OF assms, of MAX_WIRE_SIZE tail] Text_round_trip [OF assms]
  by (auto simp: MAX_WIRE_SIZE_def)

theorem vote_encoding_round_trip_witness:
  "\<exists>m. Bin_Encode \<lparr>vi_count = 7, vi_candidate = 3, vi_inquiry = True, vi_response = True\<rparr> MAX_WIRE_SIZE = Some m
    \<and> Bin_Decode (m @ []) (length m) vote_clear
      = (True, m @ [], \<lparr>vi_count = 7, vi_candidate = 3, vi_inquiry = True, vi_response = True\<rparr>)"
  using vote_encoding_round_trip [of "\<lparr>vi_count = 7, vi_candidate = 3, vi_inquiry = True, vi_response = True\<rparr>" "[]"]
  by (auto simp: vote_valid_def MAX_CANDIDATE_def)


subsection \<open>VoteServerTCP\<close>

text \<open>How the service of a client ends.\<close>

datatype vote_end = Vote_closed | Vote_parse_error | Vote_put_error | Vote_dies | Vote_overflow | Vote_unsynced

definition vote_answer :: "VoteInfo \<Rightarrow> u64 list \<Rightarrow> VoteInfo \<times> u64 list" where
  "vote_answer v counts =
     (if \<not> vi_response v
      then let v1 = v\<lparr>vi_response := True\<rparr> in
        if 0 \<le> vi_candidate v \<and> vi_candidate v \<le> MAX_CANDIDATE
        then let c = nat (vi_candidate v);
                 counts1 = (if vi_inquiry v then counts else counts[c := counts ! c + 1])
             in (v1\<lparr>vi_count := counts1 ! c\<rparr>, counts1)
        else (v1, counts)
      else (v, counts))"

text \<open>
  The stream of the connection is opened for update: what has been read from the socket and not yet
  by the program, and what each further \<open>read\<close> of the library will give. Here \<open>k\<close> bytes are taken.
\<close>

fun stream_take :: "nat \<Rightarrow> bytes \<Rightarrow> bytes list \<Rightarrow> bytes \<times> bytes list" where
  "stream_take k ahead [] = (drop k ahead, [])"
| "stream_take k ahead (a # arrivals) =
     (if k \<le> length ahead then (drop k ahead, a # arrivals) else stream_take (k - length ahead) a arrivals)"

text \<open>
  The loop of one client: its input, the buffer of the program (not cleared between messages) and the
  counts, and what is sent. The program writes to the stream right after it has read from it, with
  no positioning in between. C does not define this; the GNU library sends what is written if it has
  nothing read ahead, and otherwise, as it cannot move back in a socket, sends nothing and reads no
  more: \<open>Vote_unsynced\<close>. \<open>None\<close> only when the fuel, a bound on the messages, is used up.
\<close>

fun vote_loop :: "nat \<Rightarrow> (nat \<Rightarrow> bytes \<Rightarrow> bytes \<Rightarrow> frame \<times> bytes \<times> bytes) \<Rightarrow> (bytes \<Rightarrow> bytes option)
    \<Rightarrow> (VoteInfo \<Rightarrow> nat \<Rightarrow> bytes option) \<Rightarrow> (bytes \<Rightarrow> nat \<Rightarrow> VoteInfo \<Rightarrow> bool \<times> bytes \<times> VoteInfo)
    \<Rightarrow> bytes \<Rightarrow> bytes list \<Rightarrow> bytes \<Rightarrow> u64 list \<Rightarrow> (vote_end \<times> bytes \<times> u64 list) option" where
  "vote_loop 0 get put enc dec ahead arrivals buf counts = None"
| "vote_loop (Suc fuel) get put enc dec ahead arrivals buf counts =
     (case get MAX_WIRE_SIZE (ahead @ concat arrivals) buf of
        (Frame_dies, _, _) \<Rightarrow> Some (Vote_dies, [], counts)
      | (Frame_overflow, _, _) \<Rightarrow> Some (Vote_overflow, [], counts)
      | (Frame mSize, buf1, ip1) \<Rightarrow>
          if mSize > 0
          then case dec buf1 (nat mSize) vote_clear of
              (False, _, _) \<Rightarrow> Some (Vote_parse_error, [], counts)
            | (True, buf2, v) \<Rightarrow>
                (case vote_answer v counts of (v1, counts1) \<Rightarrow>
                   (case enc v1 MAX_WIRE_SIZE of
                      None \<Rightarrow> Some (Vote_dies, [], counts1)
                    | Some out \<Rightarrow>
                        (case put out of
                           None \<Rightarrow> Some (Vote_put_error, [], counts1)
                         | Some w \<Rightarrow>
                             (case stream_take (length (ahead @ concat arrivals) - length ip1) ahead arrivals of
                                (ahead1, arrivals1) \<Rightarrow>
                                  if ahead1 \<noteq> [] then Some (Vote_unsynced, [], counts1)
                                  else map_option (\<lambda>(e, sent, c). (e, w @ sent, c))
                                    (vote_loop fuel get put enc dec [] arrivals1 buf2 counts1)))))
          else Some (Vote_closed, [], counts))"

text \<open>A request, and the number of votes for a candidate.\<close>

definition vote_request :: "VoteInfo \<Rightarrow> bool" where
  "vote_request v \<longleftrightarrow> vote_valid v \<and> \<not> vi_response v"

definition votes_for :: "nat \<Rightarrow> VoteInfo list \<Rightarrow> u64" where
  "votes_for c vs = of_nat (length (filter (\<lambda>v. \<not> vi_inquiry v \<and> vi_candidate v = int c) vs))"

text \<open>What an election promises: each reply has the count of its candidate so far.\<close>

fun vote_replies :: "u64 list \<Rightarrow> VoteInfo list \<Rightarrow> VoteInfo list" where
  "vote_replies counts [] = []"
| "vote_replies counts (v # vs) =
     (case vote_answer v counts of (r, counts1) \<Rightarrow> r # vote_replies counts1 vs)"

fun vote_counts :: "u64 list \<Rightarrow> VoteInfo list \<Rightarrow> u64 list" where
  "vote_counts counts [] = counts"
| "vote_counts counts (v # vs) = vote_counts (snd (vote_answer v counts)) vs"

lemma vote_answer_request:
  assumes "vote_request v" and "length counts = nat MAX_CANDIDATE + 1"
  shows "vote_answer v counts =
    (v\<lparr>vi_response := True, vi_count := counts ! nat (vi_candidate v) + votes_for (nat (vi_candidate v)) [v]\<rparr>,
     map (\<lambda>c. counts ! c + votes_for c [v]) [0..<nat MAX_CANDIDATE + 1])"
proof -
  have c: "0 \<le> vi_candidate v" "vi_candidate v \<le> MAX_CANDIDATE" "nat (vi_candidate v) < nat MAX_CANDIDATE + 1" "\<not> vi_response v"
    using assms(1) by (auto simp: vote_request_def vote_valid_def MAX_CANDIDATE_def)
  have one: "votes_for c [v] = (if \<not> vi_inquiry v \<and> vi_candidate v = int c then 1 else 0)" for c
    by (simp add: votes_for_def)
  have u: "map (\<lambda>c. counts ! c + votes_for c [v]) [0..<nat MAX_CANDIDATE + 1]
      = (if vi_inquiry v then counts else counts[nat (vi_candidate v) := counts ! nat (vi_candidate v) + 1])"
    using assms(2) c by (intro nth_equalityI) (auto simp: one nth_list_update simp del: upt_Suc)
  show ?thesis
    unfolding u using c assms(2) by (auto simp: vote_answer_def Let_def one)
qed

lemma vote_counts_votes_for:
  "list_all vote_request vs \<Longrightarrow> length counts = nat MAX_CANDIDATE + 1 \<Longrightarrow>
    vote_counts counts vs = map (\<lambda>c. counts ! c + votes_for c vs) [0..<nat MAX_CANDIDATE + 1]"
proof (induction vs arbitrary: counts)
  case Nil
  then show ?case using map_nth [of counts] by (simp add: votes_for_def)
next
  case (Cons v vs)
  then show ?case
    by (auto simp: vote_answer_request votes_for_def simp del: upt_Suc)
qed

lemma vote_replies_votes_for:
  "list_all vote_request vs \<Longrightarrow> length counts = nat MAX_CANDIDATE + 1 \<Longrightarrow>
    vote_replies counts vs = map (\<lambda>i. let c = nat (vi_candidate (vs ! i)) in
      (vs ! i)\<lparr>vi_response := True, vi_count := counts ! c + votes_for c (take (Suc i) vs)\<rparr>) [0..<length vs]"
proof (induction vs arbitrary: counts)
  case (Cons v vs)
  have c: "vi_candidate (vs ! i) \<le> MAX_CANDIDATE" "0 \<le> vi_candidate (vs ! i)" if "i < length vs" for i
    using Cons.prems(1) that by (auto simp: list_all_length vote_request_def vote_valid_def)
  have m: "nat (vi_candidate (vs ! i)) < nat MAX_CANDIDATE + 1" if "i < length vs" for i
    using c [OF that] by linarith
  have "vote_replies (snd (vote_answer v counts)) vs = map (\<lambda>i. let c = nat (vi_candidate (vs ! i)) in
      (vs ! i)\<lparr>vi_response := True, vi_count := counts ! c + votes_for c (take (Suc (Suc i)) (v # vs))\<rparr>) [0..<length vs]"
    using Cons m by (auto simp: vote_answer_request Let_def votes_for_def simp del: upt_Suc)
  moreover have "vote_replies counts (v # vs)
      = fst (vote_answer v counts) # vote_replies (snd (vote_answer v counts)) vs"
    by (simp add: case_prod_beta)
  ultimately show ?case
    using Cons.prems by (simp add: vote_answer_request Let_def map_upt_Suc del: upt_Suc vote_replies.simps)
qed simp

lemma stream_take_all: "[] \<notin> set g \<Longrightarrow> stream_take (length ahead + length (concat g)) ahead (g @ arrivals) = ([], arrivals)"
proof (induction g arbitrary: ahead)
  case Nil
  then show ?case by (cases arrivals) simp_all
next
  case (Cons a g)
  then have "a \<noteq> []" by auto
  then have "\<not> length ahead + length (concat (a # g)) \<le> length ahead" by (cases a) simp_all
  then show ?case using Cons.IH [of a] Cons.prems by simp
qed

lemma concat_concat: "concat (concat xsss) = concat (map concat xsss)"
  by (induction xsss) simp_all

text \<open>
  What the programs rely on: a framer, and an encoding whose messages the framer takes and that
  decodes them from a buffer whatever follows them there.
\<close>

locale vote_protocol = framer +
  fixes enc :: "VoteInfo \<Rightarrow> nat \<Rightarrow> bytes option" and dec :: "bytes \<Rightarrow> nat \<Rightarrow> VoteInfo \<Rightarrow> bool \<times> bytes \<times> VoteInfo"
    and wire :: "VoteInfo \<Rightarrow> bytes"
  assumes dec_enc: "vote_valid v \<Longrightarrow> \<exists>m. enc v MAX_WIRE_SIZE = Some m \<and> m \<noteq> [] \<and> length m < MAX_WIRE_SIZE
      \<and> put m = Some (wire v)
      \<and> (\<forall>tail. \<exists>b. length b = length m + length tail \<and> dec (m @ tail) (length m) vote_clear = (True, b, v))"
begin

lemma get_wire:
  assumes "vote_valid v" and "length buf = MAX_WIRE_SIZE"
  obtains n b b' where "get MAX_WIRE_SIZE (wire v @ rest) buf = (Frame (int n), b, rest)" and "0 < n"
    and "dec b n vote_clear = (True, b', v)" and "length b' = MAX_WIRE_SIZE"
proof -
  obtain m where m: "m \<noteq> []" "length m < MAX_WIRE_SIZE" "put m = Some (wire v)"
    and d: "\<forall>tail. \<exists>b. length b = length m + length tail \<and> dec (m @ tail) (length m) vote_clear = (True, b, v)"
    using dec_enc [OF assms(1)] by blast
  obtain b where b: "length b = length m + length (drop (length m) buf)"
    "dec (put_bytes m buf) (length m) vote_clear = (True, b, v)"
    unfolding put_bytes_def using d by blast
  show ?thesis
    using that [OF get_put [OF m(3,2)] _ b(2)] m(1,2) b(1) assms(2) by simp
qed

lemma enc_wire: "vote_valid v \<Longrightarrow> \<exists>m. enc v MAX_WIRE_SIZE = Some m \<and> put m = Some (wire v)"
  using dec_enc by blast

text \<open>
  The server answers the requests of a client one by one, until the client closes, when the client waits
  for each answer: the arrivals of a request, however it is cut, end where it ends.
\<close>

lemma vote_loop_session:
  assumes "list_all vote_request vs" and "length counts = nat MAX_CANDIDATE + 1"
    and "length buf = MAX_WIRE_SIZE" and "length vs < fuel" and "map concat gs = map wire vs" and "[] \<notin> set (concat gs)"
  shows "vote_loop fuel get put enc dec [] (concat gs) buf counts
    = Some (Vote_closed, concat (map wire (vote_replies counts vs)), vote_counts counts vs)"
  using assms
proof (induction vs arbitrary: counts buf fuel gs)
  case Nil
  then obtain f where "fuel = Suc f" by (cases fuel) auto
  moreover have "0 < MAX_WIRE_SIZE" by (simp add: MAX_WIRE_SIZE_def)
  ultimately show ?case using get_end Nil.prems(5) by simp
next
  case (Cons v vs)
  then obtain f where f: "fuel = Suc f" "length vs < f" by (cases fuel) auto
  obtain g gs' where gs: "gs = g # gs'" "concat g = wire v" "map concat gs' = map wire vs" "[] \<notin> set g" "[] \<notin> set (concat gs')"
    using Cons.prems(5,6) by (cases gs) auto
  have rest: "concat (concat gs') = concat (map wire vs)" using gs(3) by (metis concat_concat)
  have req: "vote_request v" "vote_valid v" "list_all vote_request vs"
    using Cons.prems(1) vote_request_def [of v] by simp_all
  obtain n b b' where g: "get MAX_WIRE_SIZE (wire v @ concat (map wire vs)) buf = (Frame (int n), b, concat (map wire vs))"
    "0 < n" "dec b n vote_clear = (True, b', v)" "length b' = MAX_WIRE_SIZE"
    using get_wire [OF req(2) Cons.prems(3)] by metis
  obtain r c1 where a: "vote_answer v counts = (r, c1)" by force
  have r: "vote_valid r" "length c1 = nat MAX_CANDIDATE + 1"
    using a vote_answer_request [OF req(1) Cons.prems(2)] req(2) by (auto simp: vote_valid_def)
  obtain m where "enc r MAX_WIRE_SIZE = Some m" "put m = Some (wire r)" using enc_wire [OF r(1)] by blast
  moreover have "stream_take (length (concat g)) [] (g @ concat gs') = ([], concat gs')"
    using stream_take_all [OF gs(4), of "[]" "concat gs'"] by simp
  ultimately show ?case using Cons.IH [OF req(3) r(2) g(4) f(2) gs(3,5)] g(1-3) a gs(1,2) rest by (simp add: f(1))
qed

end

text \<open>The binary encoding in the length framer is such a protocol.\<close>

definition bin_wire :: "VoteInfo \<Rightarrow> bytes" where
  "bin_wire v = the (Length_PutMsg (the (Bin_Encode v MAX_WIRE_SIZE)))"

interpretation binlen: vote_protocol Length_PutMsg Length_GetNextMsg Bin_Encode Bin_Decode bin_wire
proof
  fix v
  assume v: "vote_valid v"
  obtain m where m: "Bin_Encode v MAX_WIRE_SIZE = Some m" "length m = (if vi_response v then 12 else 4)"
    using Bin_round_trip [OF v, of MAX_WIRE_SIZE "[]"] by (auto simp: MAX_WIRE_SIZE_def)
  have "\<forall>tail. Bin_Decode (m @ tail) (length m) vote_clear = (True, m @ tail, v)"
  proof
    fix tail show "Bin_Decode (m @ tail) (length m) vote_clear = (True, m @ tail, v)"
      using Bin_round_trip [OF v, of MAX_WIRE_SIZE tail] m(1) by (auto simp: MAX_WIRE_SIZE_def)
  qed
  then show "\<exists>m. Bin_Encode v MAX_WIRE_SIZE = Some m \<and> m \<noteq> [] \<and> length m < MAX_WIRE_SIZE
      \<and> Length_PutMsg m = Some (bin_wire v)
      \<and> (\<forall>tail. \<exists>b. length b = length m + length tail \<and> Bin_Decode (m @ tail) (length m) vote_clear = (True, b, v))"
    using m by (intro exI [of _ m]) (cases "vi_response v"; auto simp: bin_wire_def Length_PutMsg_def MAX_WIRE_SIZE_def)
qed

text \<open>
  C11: with the binary encoding and the length framer the server answers each request of a client that
  waits for the answer before it sends the next, however a request is cut on its way; the answers
  come in the order of the requests, with the count of the candidate after the votes so far, and the
  service ends with the client; what it has then added to each count is the number of the client's
  votes.\<close>

theorem vote_session:
  assumes "list_all vote_request vs" and "length counts = nat MAX_CANDIDATE + 1"
    and "length buf = MAX_WIRE_SIZE" and "length vs < fuel"
    and "map concat arrivals = map bin_wire vs" and "[] \<notin> set (concat arrivals)"
  shows "vote_loop fuel Length_GetNextMsg Length_PutMsg Bin_Encode Bin_Decode [] (concat arrivals) buf counts
    = Some (Vote_closed,
        concat (map (\<lambda>i. let c = nat (vi_candidate (vs ! i)) in
          bin_wire ((vs ! i)\<lparr>vi_response := True, vi_count := counts ! c + votes_for c (take (Suc i) vs)\<rparr>)) [0..<length vs]),
        map (\<lambda>c. counts ! c + votes_for c vs) [0..<nat MAX_CANDIDATE + 1])"
  using binlen.vote_loop_session [OF assms] vote_replies_votes_for [OF assms(1,2)] vote_counts_votes_for [OF assms(1,2)]
  by (simp add: Let_def comp_def del: upt_Suc)

theorem vote_session_witness:
  "\<exists>out c. vote_loop 3 Length_GetNextMsg Length_PutMsg Bin_Encode Bin_Decode []
      (concat [[take 3 (bin_wire (vote_clear\<lparr>vi_candidate := 5\<rparr>)), drop 3 (bin_wire (vote_clear\<lparr>vi_candidate := 5\<rparr>))],
               [bin_wire (vote_clear\<lparr>vi_candidate := 5, vi_inquiry := True\<rparr>)]])
      (replicate MAX_WIRE_SIZE NUL) (replicate (nat MAX_CANDIDATE + 1) 0) = Some (Vote_closed, out, c) \<and> c ! 5 = 1"
proof -
  let ?v = "vote_clear\<lparr>vi_candidate := 5\<rparr>" and ?i = "vote_clear\<lparr>vi_candidate := 5, vi_inquiry := True\<rparr>"
  let ?gs = "[[take 3 (bin_wire ?v), drop 3 (bin_wire ?v)], [bin_wire ?i]]"
  have l: "length (bin_wire ?v) = 6" "length (bin_wire ?i) = 6"
    by (simp_all add: bin_wire_def Bin_Encode_def Length_PutMsg_def vote_clear_def MAX_WIRE_SIZE_def be16_def)
  then have "[] \<notin> set (concat ?gs)" by auto
  moreover have "list_all vote_request [?v, ?i]" by (simp add: vote_request_def vote_valid_def vote_clear_def MAX_CANDIDATE_def)
  ultimately show ?thesis
    using vote_session [of "[?v, ?i]" "replicate (nat MAX_CANDIDATE + 1) 0" "replicate MAX_WIRE_SIZE NUL" 3 ?gs]
    by (simp add: votes_for_def vote_clear_def MAX_CANDIDATE_def nth_append del: upt_Suc)
qed

text \<open>
  a client that sends two requests at once, so that they arrive together, gets no answer, not even to
  the first, although its vote is counted.\<close>

theorem vote_pipelined_unanswered:
  assumes "vote_request v" and "vote_request w" and "length counts = nat MAX_CANDIDATE + 1" and "length buf = MAX_WIRE_SIZE"
  shows "vote_loop (Suc fuel) Length_GetNextMsg Length_PutMsg Bin_Encode Bin_Decode [] [bin_wire v @ bin_wire w] buf counts
    = Some (Vote_unsynced, [], snd (vote_answer v counts))"
proof -
  have v: "vote_valid v" using assms(1) by (simp add: vote_request_def)
  obtain n b b' where g: "Length_GetNextMsg MAX_WIRE_SIZE (bin_wire v @ bin_wire w) buf = (Frame (int n), b, bin_wire w)"
    "0 < n" "Bin_Decode b n vote_clear = (True, b', v)"
    using binlen.get_wire [OF v assms(4)] by metis
  obtain r c1 where a: "vote_answer v counts = (r, c1)" by force
  have "vote_valid r" using a vote_answer_request [OF assms(1,3)] v by (auto simp: vote_valid_def)
  then obtain m where m: "Bin_Encode r MAX_WIRE_SIZE = Some m" "Length_PutMsg m = Some (bin_wire r)" using binlen.enc_wire by blast
  have "bin_wire w \<noteq> []" using binlen.enc_wire [of w] assms(2) by (auto simp: vote_request_def Length_PutMsg_def be16_def split: if_splits)
  moreover have "bin_wire v \<noteq> []" using binlen.enc_wire [OF v] by (auto simp: Length_PutMsg_def be16_def split: if_splits)
  ultimately show ?thesis using g a m by simp
qed

theorem vote_pipelined_unanswered_witness:
  "vote_loop 1 Length_GetNextMsg Length_PutMsg Bin_Encode Bin_Decode [] [bin_wire vote_clear @ bin_wire vote_clear]
      (replicate MAX_WIRE_SIZE NUL) (replicate (nat MAX_CANDIDATE + 1) 0)
    = Some (Vote_unsynced, [], snd (vote_answer vote_clear (replicate (nat MAX_CANDIDATE + 1) 0)))"
  using vote_pipelined_unanswered [of vote_clear vote_clear _ _ 0]
  by (simp add: vote_request_def vote_valid_def vote_clear_def MAX_CANDIDATE_def)

subsection \<open>VoteClientTCP\<close>

text \<open>The request; \<open>None\<close> when the program ends before it is sent.\<close>

definition vote_send :: "(bytes \<Rightarrow> bytes option) \<Rightarrow> (VoteInfo \<Rightarrow> nat \<Rightarrow> bytes option) \<Rightarrow> int \<Rightarrow> bool \<Rightarrow> (VoteInfo \<times> bytes) option" where
  "vote_send put enc candi inq =
     (if candi < 0 \<or> candi > MAX_CANDIDATE then None
      else let vi = vote_clear\<lparr>vi_inquiry := inq, vi_candidate := candi\<rparr> in
        (case enc vi MAX_WIRE_SIZE of
           None \<Rightarrow> None
         | Some out \<Rightarrow> (case put out of None \<Rightarrow> None | Some w \<Rightarrow> Some (vi, w))))"

text \<open>
  The response, decoded over the request. The result of \<open>GetNextMsg\<close> becomes a \<open>size_t\<close>, so that a
  failure is a message of nearly 2^64 bytes.
\<close>

definition vote_receive :: "(nat \<Rightarrow> bytes \<Rightarrow> bytes \<Rightarrow> frame \<times> bytes \<times> bytes)
    \<Rightarrow> (bytes \<Rightarrow> nat \<Rightarrow> VoteInfo \<Rightarrow> bool \<times> bytes \<times> VoteInfo) \<Rightarrow> VoteInfo \<Rightarrow> bytes \<Rightarrow> bytes \<Rightarrow> (bool \<times> VoteInfo) option" where
  "vote_receive get dec vi inbuf ip =
     (case get MAX_WIRE_SIZE ip inbuf of
        (Frame r, buf1, _) \<Rightarrow> (case dec buf1 (nat (r mod 2 ^ 64)) vi of (ok, _, v) \<Rightarrow> Some (ok, v))
      | _ \<Rightarrow> None)"

lemma Bin_Decode_any_info:
  "Bin_Decode b n vote_clear = (True, b', v) \<Longrightarrow> vi_response v \<Longrightarrow> 12 \<le> n \<Longrightarrow> \<exists>b''. Bin_Decode b n vi = (True, b'', v)"
  by (auto simp: Bin_Decode_def Let_def vote_clear_def split: if_splits)

text \<open>
  the client of a valid candidate sends one request, the server answers it, and what the client
  decodes is a response for its candidate with the count the server holds after the vote.\<close>

theorem vote_end_to_end:
  assumes "0 \<le> candi" and "candi \<le> MAX_CANDIDATE" and "length counts = nat MAX_CANDIDATE + 1"
    and "length buf = MAX_WIRE_SIZE" and "length inbuf = MAX_WIRE_SIZE"
  shows "\<exists>vi req reply counts1 r. vote_send Length_PutMsg Bin_Encode candi inq = Some (vi, req)
    \<and> vote_loop 2 Length_GetNextMsg Length_PutMsg Bin_Encode Bin_Decode [] [req] buf counts = Some (Vote_closed, reply, counts1)
    \<and> vote_receive Length_GetNextMsg Bin_Decode vi inbuf reply = Some (True, r)
    \<and> r = \<lparr>vi_count = counts1 ! nat candi, vi_candidate = candi, vi_inquiry = inq, vi_response = True\<rparr>
    \<and> counts1 = (if inq then counts else counts[nat candi := counts ! nat candi + 1])"
proof -
  let ?vi = "vote_clear\<lparr>vi_inquiry := inq, vi_candidate := candi\<rparr>"
  have v: "vote_request ?vi" "vote_valid ?vi"
    using assms(1,2) by (simp_all add: vote_request_def vote_valid_def vote_clear_def)
  have s: "vote_send Length_PutMsg Bin_Encode candi inq = Some (?vi, bin_wire ?vi)"
    using binlen.enc_wire [OF v(2)] assms(1,2) by (auto simp: vote_send_def Let_def)
  obtain r counts1 where a: "vote_answer ?vi counts = (r, counts1)" by force
  have l: "nat candi < length counts" using assms(1-3) by simp
  have c: "counts1 = (if inq then counts else counts[nat candi := counts ! nat candi + 1])"
    and r: "r = \<lparr>vi_count = counts1 ! nat candi, vi_candidate = candi, vi_inquiry = inq, vi_response = True\<rparr>"
    using a assms(1,2) l by (auto simp: vote_answer_def Let_def vote_clear_def)
  have "bin_wire ?vi \<noteq> []" using binlen.enc_wire [OF v(2)] by (auto simp: Length_PutMsg_def be16_def split: if_splits)
  then have loop: "vote_loop 2 Length_GetNextMsg Length_PutMsg Bin_Encode Bin_Decode [] [bin_wire ?vi] buf counts
      = Some (Vote_closed, bin_wire r, counts1)"
    using binlen.vote_loop_session [of "[?vi]" counts buf 2 "[[bin_wire ?vi]]"] v(1) assms(3,4) a by simp
  have rv: "vote_valid r" using r assms(1,2) by (simp add: vote_valid_def)
  obtain m where m: "Bin_Encode r MAX_WIRE_SIZE = Some m" "length m = 12"
    "Bin_Decode (m @ drop 12 inbuf) (length m) vote_clear = (True, m @ drop 12 inbuf, r)"
    using Bin_round_trip [OF rv, of MAX_WIRE_SIZE "drop 12 inbuf"] r by (auto simp: MAX_WIRE_SIZE_def)
  have p: "Length_PutMsg m = Some (bin_wire r)" using m(1,2) by (simp add: bin_wire_def Length_PutMsg_def)
  have g: "Length_GetNextMsg MAX_WIRE_SIZE (bin_wire r) inbuf = (Frame 12, m @ drop 12 inbuf, [])"
    using lenf.get_put [OF p, of MAX_WIRE_SIZE inbuf "[]"] m(2) assms(5) by (simp add: MAX_WIRE_SIZE_def put_bytes_def)
  obtain b where d: "Bin_Decode (m @ drop 12 inbuf) 12 ?vi = (True, b, r)"
    using Bin_Decode_any_info [OF m(3), of ?vi] m(2) r by auto
  have "vote_receive Length_GetNextMsg Bin_Decode ?vi inbuf (bin_wire r) = Some (True, r)"
    by (simp add: vote_receive_def g d)
  then show ?thesis using s loop c r by blast
qed

theorem vote_end_to_end_witness:
  "\<exists>vi req reply counts1 r. vote_send Length_PutMsg Bin_Encode 7 False = Some (vi, req)
    \<and> vote_loop 2 Length_GetNextMsg Length_PutMsg Bin_Encode Bin_Decode [] [req] (replicate MAX_WIRE_SIZE NUL)
        (replicate (nat MAX_CANDIDATE + 1) 0) = Some (Vote_closed, reply, counts1)
    \<and> vote_receive Length_GetNextMsg Bin_Decode vi (replicate MAX_WIRE_SIZE NUL) reply = Some (True, r)
    \<and> r = \<lparr>vi_count = counts1 ! nat 7, vi_candidate = 7, vi_inquiry = False, vi_response = True\<rparr>
    \<and> counts1 = (if False then replicate (nat MAX_CANDIDATE + 1) 0
        else (replicate (nat MAX_CANDIDATE + 1) 0)[nat 7 := replicate (nat MAX_CANDIDATE + 1) 0 ! nat 7 + 1])"
  by (rule vote_end_to_end) (simp_all add: MAX_CANDIDATE_def)

text \<open>
  a client whose server closes without an answer decodes what its buffer happens to hold: a
  response that is there from before is reported.\<close>

theorem vote_client_reads_stale_buffer:
  assumes "vote_valid v" and "vi_response v"
  shows "\<exists>m. length m = 12 \<and> (\<forall>tail. vote_receive Length_GetNextMsg Bin_Decode vi (m @ tail) [] = Some (True, v))"
proof -
  obtain m where m: "Bin_Encode v 12 = Some m" "length m = 12"
    using Bin_round_trip [OF assms(1), of 12 "[]"] assms(2) by auto
  have "Bin_Decode (m @ tail) (nat (-1 mod 2 ^ 64)) vi = (True, m @ tail, v)" for tail
  proof -
    have "Bin_Decode (m @ tail) 12 vote_clear = (True, m @ tail, v)"
      using Bin_round_trip [OF assms(1), of 12 tail] assms(2) m by auto
    then show ?thesis using assms(2) by (auto simp: Bin_Decode_def Let_def vote_clear_def split: if_splits)
  qed
  then show ?thesis using m(2) by (intro exI [of _ m]) (simp add: vote_receive_def Length_GetNextMsg_def MAX_WIRE_SIZE_def)
qed

theorem vote_client_reads_stale_buffer_witness:
  "\<exists>m. length m = 12 \<and> (\<forall>tail. vote_receive Length_GetNextMsg Bin_Decode vote_clear (m @ tail) []
    = Some (True, \<lparr>vi_count = 9, vi_candidate = 3, vi_inquiry = False, vi_response = True\<rparr>))"
  by (rule vote_client_reads_stale_buffer) (simp_all add: vote_valid_def MAX_CANDIDATE_def)

text \<open>
  the text encoding ends a message with no NUL: a vote for 3 that follows a vote for 12 on the same
  connection is counted for 32, as the digit of the first is still in the buffer.\<close>

theorem vote_text_counts_stale_digit:
  "map_option (\<lambda>(e, out, counts). (e, counts ! 12, counts ! 3, counts ! 32))
     (vote_loop 3 Delim_GetNextMsg Delim_PutMsg Text_Encode Text_Decode
       [] [''Voting v  12'' @ [NL], ''Voting v  3'' @ [NL]] (replicate MAX_WIRE_SIZE NUL) (replicate 1001 0))
   = Some (Vote_closed, 1, 0, 1)"
  by code_simp

end
