(* ===== verification/Telnet_Fsm.thy ===== *)
theory Telnet_Fsm
  imports Prelude
begin

text \<open>
  The finite state machines of the telnet client of Internetworking.With.TCP.IP/v3.linux/telnet:
  the codes of telnet.h, the three transition tables (ttfsm.c, sofsm.c, subfsm.c) and fsminit.c,
  which expands a table into a matrix of states and characters whose entries are indices into the
  table. A character of a transition is a character, or \<open>Any\<close> for the number TCANY beyond them.
\<close>

subsection \<open>telnet.h and tnfsm.h\<close>

abbreviation (input) "TCSE \<equiv> CHR 0xF0"
abbreviation (input) "TCNOP \<equiv> CHR 0xF1"
abbreviation (input) "TCDM \<equiv> CHR 0xF2"
abbreviation (input) "TCIP \<equiv> CHR 0xF4"
abbreviation (input) "TCAO \<equiv> CHR 0xF5"
abbreviation (input) "TCEC \<equiv> CHR 0xF7"
abbreviation (input) "TCEL \<equiv> CHR 0xF8"
abbreviation (input) "TCSB \<equiv> CHR 0xFA"
abbreviation (input) "TCWILL \<equiv> CHR 0xFB"
abbreviation (input) "TCWONT \<equiv> CHR 0xFC"
abbreviation (input) "TCDO \<equiv> CHR 0xFD"
abbreviation (input) "TCDONT \<equiv> CHR 0xFE"
abbreviation (input) "TCIAC \<equiv> CHR 0xFF"

abbreviation (input) "TOTXBINARY \<equiv> CHR 0x00"
abbreviation (input) "TOECHO \<equiv> CHR 0x01"
abbreviation (input) "TONOGA \<equiv> CHR 0x03"
abbreviation (input) "TOTERMTYPE \<equiv> CHR 0x18"

abbreviation (input) "TT_IS \<equiv> CHR 0x00"
abbreviation (input) "TT_SEND \<equiv> CHR 0x01"

abbreviation (input) "KCESCAPE \<equiv> CHR 0x1D"
abbreviation (input) "KCDCON \<equiv> CHR ''.''"
abbreviation (input) "KCSUSP \<equiv> CHR 0x1A"
abbreviation (input) "KCSCRIPT \<equiv> CHR ''s''"
abbreviation (input) "KCUNSCRIPT \<equiv> CHR ''u''"
abbreviation (input) "KCSTATUS \<equiv> CHR 0x14"
abbreviation (input) "KCNL \<equiv> CHR 0x0A"

abbreviation (input) "TSDATA \<equiv> 0 :: nat"
abbreviation (input) "TSIAC \<equiv> 1 :: nat"
abbreviation (input) "TSWOPT \<equiv> 2 :: nat"
abbreviation (input) "TSDOPT \<equiv> 3 :: nat"
abbreviation (input) "TSSUBNEG \<equiv> 4 :: nat"
abbreviation (input) "TSSUBIAC \<equiv> 5 :: nat"
abbreviation (input) "NTSTATES \<equiv> 6 :: nat"

abbreviation (input) "KSREMOTE \<equiv> 0 :: nat"
abbreviation (input) "KSLOCAL \<equiv> 1 :: nat"
abbreviation (input) "KSCOLLECT \<equiv> 2 :: nat"
abbreviation (input) "NKSTATES \<equiv> 3 :: nat"

abbreviation (input) "SS_START \<equiv> 0 :: nat"
abbreviation (input) "SS_TERMTYPE \<equiv> 1 :: nat"
abbreviation (input) "SS_END \<equiv> 2 :: nat"
abbreviation (input) "NSSTATES \<equiv> 3 :: nat"

abbreviation (input) "FSINVALID \<equiv> 255 :: nat"
abbreviation (input) "TINVALID \<equiv> 255 :: nat"
abbreviation (input) "NCHRS \<equiv> 256 :: nat"

text \<open>The functions that a transition can call.\<close>

datatype tn_action =
    No_op | Recopt | Ttputc | Tcdm | Do_echo | Do_noga | Do_txbinary | Do_notsup
  | Will_termtype | Will_txbinary | Will_notsup | Subopt | Subend | Subtermtype
  | Soputc | Scrinit | Scrgetc | Scrwrap | Unscript | Dcon | Suspend | Status | Sonotsup | Tnabort

datatype input_char = Any | Is char

record fsm_trans =
  ft_state :: nat
  ft_char :: input_char
  ft_next :: nat
  ft_action :: tn_action

abbreviation trans :: "nat \<Rightarrow> input_char \<Rightarrow> nat \<Rightarrow> tn_action \<Rightarrow> fsm_trans" where
  "trans s c t a \<equiv> \<lparr>ft_state = s, ft_char = c, ft_next = t, ft_action = a\<rparr>"

subsection \<open>The tables\<close>

definition ttstab :: "fsm_trans list" where
  "ttstab =
    [trans TSDATA (Is TCIAC) TSIAC No_op,
     trans TSDATA Any TSDATA Ttputc,
     trans TSIAC (Is TCIAC) TSDATA Ttputc,
     trans TSIAC (Is TCSB) TSSUBNEG No_op,
     trans TSIAC (Is TCNOP) TSDATA No_op,
     trans TSIAC (Is TCDM) TSDATA Tcdm,
     trans TSIAC (Is TCWILL) TSWOPT Recopt,
     trans TSIAC (Is TCWONT) TSWOPT Recopt,
     trans TSIAC (Is TCDO) TSDOPT Recopt,
     trans TSIAC (Is TCDONT) TSDOPT Recopt,
     trans TSIAC Any TSDATA No_op,
     trans TSSUBNEG (Is TCIAC) TSSUBIAC No_op,
     trans TSSUBNEG Any TSSUBNEG Subopt,
     trans TSSUBIAC (Is TCSE) TSDATA Subend,
     trans TSSUBIAC Any TSSUBNEG Subopt,
     trans TSWOPT (Is TOECHO) TSDATA Do_echo,
     trans TSWOPT (Is TONOGA) TSDATA Do_noga,
     trans TSWOPT (Is TOTXBINARY) TSDATA Do_txbinary,
     trans TSWOPT Any TSDATA Do_notsup,
     trans TSDOPT (Is TOTERMTYPE) TSDATA Will_termtype,
     trans TSDOPT (Is TOTXBINARY) TSDATA Will_txbinary,
     trans TSDOPT Any TSDATA Will_notsup,
     trans FSINVALID Any FSINVALID Tnabort]"

definition sostab :: "fsm_trans list" where
  "sostab =
    [trans KSREMOTE (Is KCESCAPE) KSLOCAL No_op,
     trans KSREMOTE Any KSREMOTE Soputc,
     trans KSLOCAL (Is KCSCRIPT) KSCOLLECT Scrinit,
     trans KSLOCAL (Is KCUNSCRIPT) KSREMOTE Unscript,
     trans KSLOCAL (Is KCESCAPE) KSREMOTE Soputc,
     trans KSLOCAL (Is KCDCON) KSREMOTE Dcon,
     trans KSLOCAL (Is KCSUSP) KSREMOTE Suspend,
     trans KSLOCAL (Is KCSTATUS) KSREMOTE Status,
     trans KSLOCAL Any KSREMOTE Sonotsup,
     trans KSCOLLECT (Is KCNL) KSREMOTE Scrwrap,
     trans KSCOLLECT Any KSCOLLECT Scrgetc,
     trans FSINVALID Any FSINVALID Tnabort]"

definition substab :: "fsm_trans list" where
  "substab =
    [trans SS_START (Is TOTERMTYPE) SS_TERMTYPE No_op,
     trans SS_START Any SS_END No_op,
     trans SS_TERMTYPE (Is TT_SEND) SS_END Subtermtype,
     trans SS_TERMTYPE Any SS_END No_op,
     trans SS_END Any SS_END No_op,
     trans FSINVALID Any FSINVALID Tnabort]"

subsection \<open>fsminit\<close>

type_synonym fsm = "nat list list"

definition fsm_row :: "nat \<Rightarrow> input_char \<Rightarrow> nat list \<Rightarrow> nat list" where
  "fsm_row ti ch row =
     (case ch of
        Any \<Rightarrow> map (\<lambda>x. if x = TINVALID then ti else x) row
      | Is c \<Rightarrow> row[of_char c := ti])"

text \<open>The loop over the table, which an entry of the state FSINVALID ends; its index is returned.\<close>

fun fsm_fill :: "nat \<Rightarrow> fsm_trans list \<Rightarrow> fsm \<Rightarrow> fsm \<times> nat" where
  "fsm_fill ti [] fsm = (fsm, ti)"
| "fsm_fill ti (tr # ttab) fsm =
     (if ft_state tr = FSINVALID then (fsm, ti)
      else fsm_fill (Suc ti) ttab (fsm[ft_state tr := fsm_row ti (ft_char tr) (fsm ! ft_state tr)]))"

definition fsminit :: "fsm_trans list \<Rightarrow> nat \<Rightarrow> fsm" where
  "fsminit ttab nstates =
     (case fsm_fill 0 ttab (replicate nstates (replicate NCHRS TINVALID)) of
        (fsm, ti) \<Rightarrow> map (map (\<lambda>x. if x = TINVALID then ti else x)) fsm)"

text \<open>The transition of a state for a character.\<close>

definition fsm_step :: "fsm_trans list \<Rightarrow> fsm \<Rightarrow> nat \<Rightarrow> char \<Rightarrow> fsm_trans" where
  "fsm_step ttab fsm s c = ttab ! (fsm ! s ! of_char c)"

subsection \<open>What a table means\<close>

text \<open>
  The transition of a state for a character is the last one of the table for both, or else the first
  of the state for any character, or else the one that ends the table.
\<close>

definition table_step :: "fsm_trans list \<Rightarrow> nat \<Rightarrow> char \<Rightarrow> fsm_trans" where
  "table_step ttab s c =
     (let ts = takeWhile (\<lambda>t. ft_state t \<noteq> FSINVALID) ttab;
          exact = filter (\<lambda>t. ft_state t = s \<and> ft_char t = Is c) ts;
          others = filter (\<lambda>t. ft_state t = s \<and> ft_char t = Any) ts
      in if exact \<noteq> [] then last exact else if others \<noteq> [] then hd others else ttab ! length ts)"

definition table_ok :: "fsm_trans list \<Rightarrow> nat \<Rightarrow> bool" where
  "table_ok ttab nstates \<longleftrightarrow>
     (let ts = takeWhile (\<lambda>t. ft_state t \<noteq> FSINVALID) ttab
      in length ts < length ttab \<and> length ts < TINVALID \<and> list_all (\<lambda>t. ft_state t < nstates) ts)"

text \<open>The entry of one state and character, by the same pass over the table.\<close>

fun cell_fill :: "nat \<Rightarrow> char \<Rightarrow> nat \<Rightarrow> fsm_trans list \<Rightarrow> nat \<Rightarrow> nat" where
  "cell_fill s c ti [] v = v"
| "cell_fill s c ti (tr # ttab) v =
     (if ft_state tr = FSINVALID then v
      else cell_fill s c (Suc ti) ttab
        (if ft_state tr = s \<and> (ft_char tr = Is c \<or> ft_char tr = Any \<and> v = TINVALID) then ti else v))"

definition fsm_shape :: "nat \<Rightarrow> fsm \<Rightarrow> bool" where
  "fsm_shape n fsm \<longleftrightarrow> length fsm = n \<and> list_all (\<lambda>row. length row = NCHRS) fsm"

lemma of_char_less: "of_char (c :: char) < (256 :: nat)"
  using of_char_mod_256 [of c] by (metis mod_less_divisor zero_less_numeral)

lemma fsm_shape_row: "fsm_shape n fsm \<Longrightarrow> s < n \<Longrightarrow> length (fsm ! s) = NCHRS"
  by (simp add: fsm_shape_def list_all_length)

lemma length_fsm_row [simp]: "length (fsm_row ti ch row) = length row"
  by (simp add: fsm_row_def split: input_char.split)

lemma fsm_shape_update: "fsm_shape n fsm \<Longrightarrow> s < n \<Longrightarrow> length row = NCHRS \<Longrightarrow> fsm_shape n (fsm[s := row])"
  by (auto simp: fsm_shape_def list_all_length nth_list_update)

lemma nth_fsm_row:
  "length row = NCHRS \<Longrightarrow> fsm_row ti ch row ! of_char c
    = (if ch = Is c \<or> ch = Any \<and> row ! of_char c = TINVALID then ti else row ! of_char c)"
  using of_char_less [of c] by (auto simp: fsm_row_def nth_list_update split: input_char.split)

lemma fsm_fill_cell:
  "fsm_shape n fsm \<Longrightarrow> s < n \<Longrightarrow> list_all (\<lambda>t. ft_state t < n) (takeWhile (\<lambda>t. ft_state t \<noteq> FSINVALID) ttab) \<Longrightarrow>
    fst (fsm_fill ti ttab fsm) ! s ! of_char c = cell_fill s c ti ttab (fsm ! s ! of_char c)
    \<and> fsm_shape n (fst (fsm_fill ti ttab fsm))
    \<and> snd (fsm_fill ti ttab fsm) = ti + length (takeWhile (\<lambda>t. ft_state t \<noteq> FSINVALID) ttab)"
proof (induction ttab arbitrary: ti fsm)
  case (Cons tr ttab)
  show ?case
  proof (cases "ft_state tr = FSINVALID")
    case False
    then have tr: "ft_state tr < n" using Cons.prems by simp
    let ?fsm = "fsm[ft_state tr := fsm_row ti (ft_char tr) (fsm ! ft_state tr)]"
    have shape: "fsm_shape n ?fsm"
      using Cons.prems(1) tr by (simp add: fsm_shape_update fsm_shape_row)
    have "?fsm ! s ! of_char c
        = (if ft_state tr = s \<and> (ft_char tr = Is c \<or> ft_char tr = Any \<and> fsm ! s ! of_char c = TINVALID)
           then ti else fsm ! s ! of_char c)"
      using Cons.prems(1,2) fsm_shape_row [OF Cons.prems(1,2)] tr
      by (auto simp: nth_list_update nth_fsm_row fsm_shape_def)
    then show ?thesis using Cons.IH [OF shape Cons.prems(2), of "Suc ti"] Cons.prems(3) False by simp
  qed (use Cons.prems in simp)
qed simp

lemma fsminit_cell:
  assumes "table_ok ttab n" and "s < n"
  shows "fsminit ttab n ! s ! of_char c
    = (let v = cell_fill s c 0 ttab TINVALID
       in if v = TINVALID then length (takeWhile (\<lambda>t. ft_state t \<noteq> FSINVALID) ttab) else v)"
proof -
  define fsm0 where "fsm0 = replicate n (replicate NCHRS TINVALID)"
  have "fsm_shape n fsm0" by (simp add: fsm_shape_def fsm0_def list_all_length)
  moreover have "list_all (\<lambda>t. ft_state t < n) (takeWhile (\<lambda>t. ft_state t \<noteq> FSINVALID) ttab)"
    using assms(1) by (simp add: table_ok_def Let_def)
  moreover obtain fsm ti where f: "fsm_fill 0 ttab fsm0 = (fsm, ti)" by force
  moreover have "fsm0 ! s ! of_char c = TINVALID" using assms(2) of_char_less [of c] by (simp add: fsm0_def)
  ultimately have "fsm ! s ! of_char c = cell_fill s c 0 ttab TINVALID" "fsm_shape n fsm"
    "ti = length (takeWhile (\<lambda>t. ft_state t \<noteq> FSINVALID) ttab)"
    using fsm_fill_cell [of n fsm0 s ttab 0 c] assms(2) by simp_all
  then show ?thesis
    using f assms(2) of_char_less [of c] fsm_shape_row [of n fsm s]
    by (simp add: fsminit_def fsm0_def [symmetric] Let_def fsm_shape_def)
qed


text \<open>What an entry holds after a part of the table.\<close>

definition chosen :: "nat \<Rightarrow> char \<Rightarrow> fsm_trans list \<Rightarrow> nat \<Rightarrow> bool" where
  "chosen s c ts v \<longleftrightarrow>
     (let exact = filter (\<lambda>t. ft_state t = s \<and> ft_char t = Is c) ts;
          others = filter (\<lambda>t. ft_state t = s \<and> ft_char t = Any) ts
      in (v = TINVALID \<longrightarrow> exact = [] \<and> others = []) \<and>
         (v \<noteq> TINVALID \<longrightarrow> v < length ts \<and> (exact \<noteq> [] \<or> others \<noteq> []) \<and>
            ts ! v = (if exact \<noteq> [] then last exact else hd others)))"

lemma chosen_snoc:
  assumes "chosen s c ts v" and "length ts < TINVALID"
  shows "chosen s c (ts @ [tr])
    (if ft_state tr = s \<and> (ft_char tr = Is c \<or> ft_char tr = Any \<and> v = TINVALID) then length ts else v)"
proof (cases "ft_state tr = s \<and> (ft_char tr = Is c \<or> ft_char tr = Any \<and> v = TINVALID)")
  case True
  then show ?thesis using assms by (auto simp: chosen_def Let_def nth_append)
next
  case False
  then have "ft_state tr = s \<and> ft_char tr = Any \<longrightarrow> v \<noteq> TINVALID" "\<not> (ft_state tr = s \<and> ft_char tr = Is c)" by auto
  then show ?thesis using assms by (cases "v = TINVALID") (auto simp: chosen_def Let_def nth_append hd_append)
qed

lemma cell_fill_chosen:
  "chosen s c ts v \<Longrightarrow> length ts + length (takeWhile (\<lambda>t. ft_state t \<noteq> FSINVALID) ttab) \<le> TINVALID \<Longrightarrow>
    chosen s c (ts @ takeWhile (\<lambda>t. ft_state t \<noteq> FSINVALID) ttab) (cell_fill s c (length ts) ttab v)"
proof (induction ttab arbitrary: ts v)
  case (Cons tr ttab)
  show ?case
  proof (cases "ft_state tr = FSINVALID")
    case False
    then have "length ts < TINVALID" using Cons.prems(2) by simp
    from Cons.IH [OF chosen_snoc [OF Cons.prems(1) this, of tr]] show ?thesis
      using False Cons.prems(2) by simp
  qed (use Cons.prems in simp)
qed simp

lemma fsm_step_table:
  assumes "table_ok ttab n" and "s < n"
  shows "fsm_step ttab (fsminit ttab n) s c = table_step ttab s c"
proof -
  let ?ts = "takeWhile (\<lambda>t. ft_state t \<noteq> FSINVALID) ttab" and ?v = "cell_fill s c 0 ttab TINVALID"
  have len: "length ?ts < TINVALID" using assms(1) by (simp add: table_ok_def Let_def)
  have "chosen s c [] TINVALID" by (simp add: chosen_def)
  then have ch: "chosen s c ?ts ?v" using cell_fill_chosen [of s c "[]" TINVALID ttab] len by simp
  have "ttab ! v = ?ts ! v" if "v < length ?ts" for v using that by (simp add: takeWhile_nth)
  then show ?thesis
    using ch fsminit_cell [OF assms, of c]
    by (cases "?v = TINVALID") (auto simp: fsm_step_def table_step_def chosen_def Let_def)
qed

text \<open>
  \<open>fsminit\<close> compiles a transition table faithfully: the entry of a state and a character leads to
  the last transition of the table for exactly them, or else to the first of the state for any
  character, or else to the invalid transition that ends the table.\<close>

theorem fsminit_compiles_table:
  assumes "table_ok ttab n" and "s < n"
  shows "fsm_step ttab (fsminit ttab n) s c = table_step ttab s c"
  by (rule fsm_step_table [OF assms])

theorem fsminit_compiles_table_witness:
  "fsm_step ttstab (fsminit ttstab NTSTATES) TSIAC TCDM = table_step ttstab TSIAC TCDM"
  by (rule fsminit_compiles_table) (simp_all add: table_ok_def ttstab_def Let_def)

subsection \<open>The three machines\<close>

text \<open>A complete table: each state has a transition for any character, into one of the states.\<close>

locale fsm_table =
  fixes ttab :: "fsm_trans list" and nstates :: nat
  assumes ok: "table_ok ttab nstates"
    and complete: "list_all (\<lambda>s. list_ex (\<lambda>t. ft_state t = s \<and> ft_char t = Any)
        (takeWhile (\<lambda>t. ft_state t \<noteq> FSINVALID) ttab)) [0..<nstates]"
    and closed: "list_all (\<lambda>t. ft_next t < nstates \<and> ft_action t \<noteq> Tnabort)
        (takeWhile (\<lambda>t. ft_state t \<noteq> FSINVALID) ttab)"
begin

lemma step_total:
  assumes "s < nstates"
  shows "ft_next (fsm_step ttab (fsminit ttab nstates) s c) < nstates
    \<and> ft_action (fsm_step ttab (fsminit ttab nstates) s c) \<noteq> Tnabort"
proof -
  let ?ts = "takeWhile (\<lambda>t. ft_state t \<noteq> FSINVALID) ttab"
  have "filter (\<lambda>t. ft_state t = s \<and> ft_char t = Any) ?ts \<noteq> []"
    using complete assms by (auto simp: list_all_iff list_ex_iff filter_empty_conv)
  then have "table_step ttab s c \<in> set ?ts"
    using last_in_set [of "filter (\<lambda>t. ft_state t = s \<and> ft_char t = Is c) ?ts"]
      hd_in_set [of "filter (\<lambda>t. ft_state t = s \<and> ft_char t = Any) ?ts"]
    unfolding table_step_def Let_def by (auto simp del: filter_empty_conv)
  then show ?thesis using closed by (simp add: fsm_step_table [OF ok assms] list_all_iff)
qed

end

interpretation tt: fsm_table ttstab NTSTATES
  by unfold_locales (simp_all add: ttstab_def table_ok_def Let_def upt_rec)

interpretation so: fsm_table sostab NKSTATES
  by unfold_locales (simp_all add: sostab_def table_ok_def Let_def upt_rec)

interpretation sub: fsm_table substab NSSTATES
  by unfold_locales (simp_all add: substab_def table_ok_def Let_def upt_rec)

text \<open>The matrices of ttfsm.c, sofsm.c and subfsm.c, as fsmbuild.c initialises them.\<close>

definition ttfsm :: fsm where "ttfsm = fsminit ttstab NTSTATES"
definition sofsm :: fsm where "sofsm = fsminit sostab NKSTATES"
definition subfsm :: fsm where "subfsm = fsminit substab NSSTATES"

abbreviation (input) "tt_step \<equiv> fsm_step ttstab ttfsm"
abbreviation (input) "so_step \<equiv> fsm_step sostab sofsm"
abbreviation (input) "sub_step \<equiv> fsm_step substab subfsm"

lemma tt_step_data: "tt_step TSDATA c = (if c = TCIAC then trans TSDATA (Is TCIAC) TSIAC No_op else trans TSDATA Any TSDATA Ttputc)"
  unfolding ttfsm_def by (subst fsm_step_table [OF tt.ok]) (simp_all add: table_step_def ttstab_def Let_def)

lemma tt_step_iac: "tt_step TSIAC c =
  (if c = TCIAC then trans TSIAC (Is TCIAC) TSDATA Ttputc
   else if c = TCSB then trans TSIAC (Is TCSB) TSSUBNEG No_op
   else if c = TCNOP then trans TSIAC (Is TCNOP) TSDATA No_op
   else if c = TCDM then trans TSIAC (Is TCDM) TSDATA Tcdm
   else if c = TCWILL then trans TSIAC (Is TCWILL) TSWOPT Recopt
   else if c = TCWONT then trans TSIAC (Is TCWONT) TSWOPT Recopt
   else if c = TCDO then trans TSIAC (Is TCDO) TSDOPT Recopt
   else if c = TCDONT then trans TSIAC (Is TCDONT) TSDOPT Recopt
   else trans TSIAC Any TSDATA No_op)"
  unfolding ttfsm_def by (subst fsm_step_table [OF tt.ok]) (simp_all add: table_step_def ttstab_def Let_def)

lemma tt_step_wopt: "tt_step TSWOPT c =
  (if c = TOECHO then trans TSWOPT (Is TOECHO) TSDATA Do_echo
   else if c = TONOGA then trans TSWOPT (Is TONOGA) TSDATA Do_noga
   else if c = TOTXBINARY then trans TSWOPT (Is TOTXBINARY) TSDATA Do_txbinary
   else trans TSWOPT Any TSDATA Do_notsup)"
  unfolding ttfsm_def by (subst fsm_step_table [OF tt.ok]) (simp_all add: table_step_def ttstab_def Let_def)

lemma tt_step_dopt: "tt_step TSDOPT c =
  (if c = TOTERMTYPE then trans TSDOPT (Is TOTERMTYPE) TSDATA Will_termtype
   else if c = TOTXBINARY then trans TSDOPT (Is TOTXBINARY) TSDATA Will_txbinary
   else trans TSDOPT Any TSDATA Will_notsup)"
  unfolding ttfsm_def by (subst fsm_step_table [OF tt.ok]) (simp_all add: table_step_def ttstab_def Let_def)

lemma tt_step_subneg: "tt_step TSSUBNEG c =
  (if c = TCIAC then trans TSSUBNEG (Is TCIAC) TSSUBIAC No_op else trans TSSUBNEG Any TSSUBNEG Subopt)"
  unfolding ttfsm_def by (subst fsm_step_table [OF tt.ok]) (simp_all add: table_step_def ttstab_def Let_def)

lemma tt_step_subiac: "tt_step TSSUBIAC c =
  (if c = TCSE then trans TSSUBIAC (Is TCSE) TSDATA Subend else trans TSSUBIAC Any TSSUBNEG Subopt)"
  unfolding ttfsm_def by (subst fsm_step_table [OF tt.ok]) (simp_all add: table_step_def ttstab_def Let_def)

lemmas tt_steps = tt_step_data tt_step_iac tt_step_wopt tt_step_dopt tt_step_subneg tt_step_subiac

lemma so_step_remote: "so_step KSREMOTE c =
  (if c = KCESCAPE then trans KSREMOTE (Is KCESCAPE) KSLOCAL No_op else trans KSREMOTE Any KSREMOTE Soputc)"
  unfolding sofsm_def by (subst fsm_step_table [OF so.ok]) (simp_all add: table_step_def sostab_def Let_def)

lemma so_step_local: "so_step KSLOCAL c =
  (if c = KCSCRIPT then trans KSLOCAL (Is KCSCRIPT) KSCOLLECT Scrinit
   else if c = KCUNSCRIPT then trans KSLOCAL (Is KCUNSCRIPT) KSREMOTE Unscript
   else if c = KCESCAPE then trans KSLOCAL (Is KCESCAPE) KSREMOTE Soputc
   else if c = KCDCON then trans KSLOCAL (Is KCDCON) KSREMOTE Dcon
   else if c = KCSUSP then trans KSLOCAL (Is KCSUSP) KSREMOTE Suspend
   else if c = KCSTATUS then trans KSLOCAL (Is KCSTATUS) KSREMOTE Status
   else trans KSLOCAL Any KSREMOTE Sonotsup)"
  unfolding sofsm_def by (subst fsm_step_table [OF so.ok]) (simp_all add: table_step_def sostab_def Let_def)

lemma so_step_collect: "so_step KSCOLLECT c =
  (if c = KCNL then trans KSCOLLECT (Is KCNL) KSREMOTE Scrwrap else trans KSCOLLECT Any KSCOLLECT Scrgetc)"
  unfolding sofsm_def by (subst fsm_step_table [OF so.ok]) (simp_all add: table_step_def sostab_def Let_def)

lemmas so_steps = so_step_remote so_step_local so_step_collect

lemma sub_step_start: "sub_step SS_START c =
  (if c = TOTERMTYPE then trans SS_START (Is TOTERMTYPE) SS_TERMTYPE No_op else trans SS_START Any SS_END No_op)"
  unfolding subfsm_def by (subst fsm_step_table [OF sub.ok]) (simp_all add: table_step_def substab_def Let_def)

lemma sub_step_termtype: "sub_step SS_TERMTYPE c =
  (if c = TT_SEND then trans SS_TERMTYPE (Is TT_SEND) SS_END Subtermtype else trans SS_TERMTYPE Any SS_END No_op)"
  unfolding subfsm_def by (subst fsm_step_table [OF sub.ok]) (simp_all add: table_step_def substab_def Let_def)

lemma sub_step_end: "sub_step SS_END c = trans SS_END Any SS_END No_op"
  unfolding subfsm_def by (subst fsm_step_table [OF sub.ok]) (simp_all add: table_step_def substab_def Let_def)

lemmas sub_steps = sub_step_start sub_step_termtype sub_step_end

end
