(* ===== verification/Telnet.thy ===== *)
theory Telnet
  imports Telnet_Fsm Cxx_Streams
begin

text \<open>
  The telnet client of Internetworking.With.TCP.IP/v3.linux/telnet: the global variables of the
  program as one state, each action of its machines, ttwrite.c and sowrite.c which run the machines
  over what the socket and the keyboard deliver, and the loop of telnet.c as a run of events.
\<close>

declare One_nat_def [simp del]

subsection \<open>State\<close>

text \<open>The modes of the terminal that the program changes.\<close>

record termios =
  ti_echo :: bool
  ti_icanon :: bool
  ti_min :: char
  ti_time :: char
  ti_intr :: char
  ti_quit :: char
  ti_susp :: char
  ti_erase :: char
  ti_kill :: char
  ti_discard :: char

text \<open>How the process ends: \<open>exit\<close> with its status, a fault, or the signal of a write to a closed socket.\<close>

datatype tn_end = Exit nat | Fault | Sigpipe

text \<open>
  The global and static variables (\<open>tn_keys\<close> has the special characters that \<open>ttysetup\<close> finds); what
  has been written to the socket and to the terminal; the modes of the terminal, and the results of
  the coming calls on them (those after the list succeed). The script file is what has been written
  to it.
\<close>

record tn =
  tn_ttstate :: nat
  tn_sostate :: nat
  tn_substate :: nat
  tn_option_cmd :: char
  tn_doecho :: bool
  tn_savec :: "char \<times> char"
  tn_noga :: bool
  tn_rcvbinary :: bool
  tn_sndbinary :: bool
  tn_termtype :: bool
  tn_term :: "bytes option"
  tn_synching :: "8 word"
  tn_last_char :: char
  tn_scrfp :: "bytes option"
  tn_scrname :: bytes
  tn_scrindex :: nat
  tn_keys :: termios
  tn_oldtty :: termios
  tn_tntty :: termios
  tn_tty :: termios
  tn_tty_calls :: "bool list"
  tn_stdin_open :: bool
  tn_sock :: bytes
  tn_out :: bytes
  tn_ended :: "tn_end option"

text \<open>The surroundings: TERM, the capabilities of the terminal, and what the system reports.\<close>

record tn_env =
  en_TERM :: "bytes option"
  en_cap :: "bytes \<Rightarrow> bytes \<Rightarrow> bytes option"
  en_host :: bytes
  en_local_port :: "nat option"
  en_remote_port :: "nat option"
  en_open :: "bytes \<Rightarrow> bool"
  en_error :: bytes
  en_stopped_tty :: "termios \<Rightarrow> termios"

definition SFBUFSZ :: nat where "SFBUFSZ = 2048"

abbreviation (input) VDISABLE :: char where "VDISABLE \<equiv> CHR 0x00"

definition sock_putc :: "bytes \<Rightarrow> tn \<Rightarrow> tn" where
  "sock_putc bs t = t\<lparr>tn_sock := tn_sock t @ bs\<rparr>"

definition out :: "bytes \<Rightarrow> tn \<Rightarrow> tn" where
  "out bs t = t\<lparr>tn_out := tn_out t @ bs\<rparr>"

definition ended :: "tn_end \<Rightarrow> tn \<Rightarrow> tn" where
  "ended e t = t\<lparr>tn_ended := Some e\<rparr>"

text \<open>A call on the terminal, and a change of its modes by \<open>tcsetattr\<close>.\<close>

definition tty_call :: "tn \<Rightarrow> bool \<times> tn" where
  "tty_call t = (case tn_tty_calls t of [] \<Rightarrow> (True, t) | ok # r \<Rightarrow> (ok, t\<lparr>tn_tty_calls := r\<rparr>))"

definition tcsetattr :: "termios \<Rightarrow> tn \<Rightarrow> bool \<times> tn" where
  "tcsetattr tio t = (case tty_call t of (ok, t1) \<Rightarrow> (ok, if ok then t1\<lparr>tn_tty := tio\<rparr> else t1))"

subsection \<open>Output to the terminal\<close>

text \<open>xput.c: with scripting, the script file gets it too.\<close>

definition xputc :: "char \<Rightarrow> tn \<Rightarrow> tn" where
  "xputc ch t = out [ch] (case tn_scrfp t of None \<Rightarrow> t | Some f \<Rightarrow> t\<lparr>tn_scrfp := Some (f @ [ch])\<rparr>)"

definition xfputs :: "bytes \<Rightarrow> tn \<Rightarrow> tn" where
  "xfputs str t = out str (case tn_scrfp t of None \<Rightarrow> t | Some f \<Rightarrow> t\<lparr>tn_scrfp := Some (f @ str)\<rparr>)"

definition tcout :: "tn_env \<Rightarrow> bytes \<Rightarrow> tn \<Rightarrow> bool \<times> tn" where
  "tcout env cap t =
     (case en_TERM env of
        None \<Rightarrow> (False, t)
      | Some term \<Rightarrow> (case en_cap env term cap of None \<Rightarrow> (False, t) | Some sv \<Rightarrow> (True, xfputs sv t)))"

text \<open>The capability that the switch of ttputc.c prints for a character, if any.\<close>

definition nvt_cap :: "char \<Rightarrow> bytes option" where
  "nvt_cap c =
     (if c = CHR 0x07 then Some ''bl'' else if c = CHR 0x08 then Some ''bc'' else if c = CHR 0x09 then Some ''ta''
      else if c = CHR 0x0B then Some ''do'' else if c = CHR 0x0C then Some ''cl'' else None)"

definition ttputc :: "tn_env \<Rightarrow> char \<Rightarrow> tn \<Rightarrow> int \<times> tn" where
  "ttputc env c t =
     (if tn_rcvbinary t then (0, xputc c t)
      else if tn_synching t \<noteq> 0 then (0, t)
      else if tn_last_char t = CR \<and> c = NL \<or> tn_last_char t = NL \<and> c = CR
      then (0, (xputc NL t)\<lparr>tn_last_char := CHR 0x00\<rparr>)
      else
        let t1 = (if tn_last_char t = CR then snd (tcout env ''cr'' t)
                  else if tn_last_char t = NL then snd (tcout env ''do'' t) else t);
            t2 = (if 32 \<le> (of_char c :: nat) \<and> (of_char c :: nat) < 255 then xputc c t1
                  else case nvt_cap c of
                    None \<Rightarrow> t1
                  | Some cap \<Rightarrow> (case tcout env cap t1 of (tc, t') \<Rightarrow> if tc then t' else xputc c t'))
        in (0, t2\<lparr>tn_last_char := c\<rparr>))"

subsection \<open>Option negotiation\<close>

definition recopt :: "char \<Rightarrow> tn \<Rightarrow> int \<times> tn" where
  "recopt c t = (0, t\<lparr>tn_option_cmd := c\<rparr>)"

definition do_echo :: "char \<Rightarrow> tn \<Rightarrow> int \<times> tn" where
  "do_echo c t =
     (if tn_doecho t \<and> tn_option_cmd t = TCWILL then (0, t)
      else if \<not> tn_doecho t \<and> tn_option_cmd t = TCWONT then (0, t)
      else
        let (ok, t2) =
              (case tty_call t of
                 (False, t1) \<Rightarrow> (False, t1)
               | (True, t1) \<Rightarrow>
                   if tn_option_cmd t = TCWILL
                   then tcsetattr ((tn_tty t1)\<lparr>ti_echo := False, ti_icanon := False, ti_min := CHR 0x01, ti_time := CHR 0x00\<rparr>)
                          (t1\<lparr>tn_savec := (ti_min (tn_tty t1), ti_time (tn_tty t1))\<rparr>)
                   else tcsetattr ((tn_tty t1)\<lparr>ti_echo := True, ti_icanon := True,
                          ti_min := fst (tn_savec t1), ti_time := snd (tn_savec t1)\<rparr>) t1);
            t3 = (if ok then t2\<lparr>tn_doecho := \<not> tn_doecho t2\<rparr> else t2)
        in (0, sock_putc [TCIAC, if tn_doecho t3 then TCDO else TCDONT, c] t3))"

definition do_noga :: "char \<Rightarrow> tn \<Rightarrow> int \<times> tn" where
  "do_noga c t =
     (if tn_noga t \<and> tn_option_cmd t = TCWILL then (0, t)
      else if \<not> tn_noga t \<and> tn_option_cmd t = TCWONT then (0, t)
      else let t1 = t\<lparr>tn_noga := \<not> tn_noga t\<rparr>
           in (0, sock_putc [TCIAC, if tn_noga t1 then TCDO else TCDONT, c] t1))"

definition do_txbinary :: "char \<Rightarrow> tn \<Rightarrow> int \<times> tn" where
  "do_txbinary c t =
     (if tn_rcvbinary t \<and> tn_option_cmd t = TCWILL then (0, t)
      else if \<not> tn_rcvbinary t \<and> tn_option_cmd t = TCWONT then (0, t)
      else let t1 = t\<lparr>tn_rcvbinary := \<not> tn_rcvbinary t\<rparr>
           in (0, sock_putc [TCIAC, if tn_rcvbinary t1 then TCDO else TCDONT, c] t1))"

definition will_txbinary :: "char \<Rightarrow> tn \<Rightarrow> int \<times> tn" where
  "will_txbinary c t =
     (if tn_sndbinary t \<and> tn_option_cmd t = TCDO then (0, t)
      else if \<not> tn_sndbinary t \<and> tn_option_cmd t = TCDONT then (0, t)
      else let t1 = t\<lparr>tn_sndbinary := \<not> tn_sndbinary t\<rparr>
           in (0, sock_putc [TCIAC, if tn_sndbinary t1 then TCWILL else TCWONT, c] t1))"

definition do_notsup :: "char \<Rightarrow> tn \<Rightarrow> int \<times> tn" where
  "do_notsup c t = (0, sock_putc [TCIAC, TCDONT, c] t)"

definition will_notsup :: "char \<Rightarrow> tn \<Rightarrow> int \<times> tn" where
  "will_notsup c t = (0, sock_putc [TCIAC, TCWONT, c] t)"

definition will_termtype :: "tn_env \<Rightarrow> char \<Rightarrow> tn \<Rightarrow> int \<times> tn" where
  "will_termtype env c t =
     (if tn_termtype t \<and> tn_option_cmd t = TCDO then (0, t)
      else if \<not> tn_termtype t \<and> tn_option_cmd t = TCDONT then (0, t)
      else
        let t1 = t\<lparr>tn_termtype := \<not> tn_termtype t\<rparr>;
            t2 = (if tn_termtype t1 \<and> tn_term t1 = None
                  then (case en_TERM env of
                          None \<Rightarrow> t1\<lparr>tn_termtype := \<not> tn_termtype t1\<rparr>
                        | Some term \<Rightarrow> t1\<lparr>tn_term := Some term\<rparr>)
                  else t1);
            t3 = sock_putc [TCIAC, if tn_termtype t2 then TCWILL else TCWONT, c] t2
        in if tn_termtype t3
           then let t4 = snd (do_txbinary TOTXBINARY (t3\<lparr>tn_option_cmd := TCWILL\<rparr>))
                in (0, snd (will_txbinary TOTXBINARY (t4\<lparr>tn_option_cmd := TCDO\<rparr>)))
           else (0, t3))"

text \<open>subtermtype.c: \<open>fputs\<close> of a null pointer is a fault.\<close>

definition subtermtype :: "tn \<Rightarrow> int \<times> tn" where
  "subtermtype t =
     (let t1 = sock_putc [TCIAC, TCSB, TOTERMTYPE, TT_IS] t in
      case tn_term t1 of
        None \<Rightarrow> (0, ended Fault t1)
      | Some term \<Rightarrow> (0, sock_putc [TCIAC, TCSE] (sock_putc term t1)))"

definition subopt :: "char \<Rightarrow> tn \<Rightarrow> int \<times> tn" where
  "subopt c t =
     (let pt = sub_step (tn_substate t) c;
          t1 = (if ft_action pt = Subtermtype then snd (subtermtype t) else t)
      in (0, t1\<lparr>tn_substate := ft_next pt\<rparr>))"

definition subend :: "tn \<Rightarrow> int \<times> tn" where
  "subend t = (0, t\<lparr>tn_substate := SS_START\<rparr>)"

text \<open>sync.c: a signed counter of 8 bits.\<close>

definition tcdm :: "tn \<Rightarrow> int \<times> tn" where
  "tcdm t = (0, if 0 < sint (tn_synching t) then t\<lparr>tn_synching := tn_synching t - 1\<rparr> else t)"

definition rcvurg :: "tn \<Rightarrow> tn" where
  "rcvurg t = t\<lparr>tn_synching := tn_synching t + 1\<rparr>"

subsection \<open>Keyboard actions\<close>

definition soputc :: "char \<Rightarrow> tn \<Rightarrow> int \<times> tn" where
  "soputc c t =
     (if tn_sndbinary t then (0, sock_putc (if c = TCIAC then [TCIAC, c] else [c]) t)
      else
        let c' = char_of (of_char c mod 128 :: nat) in
        (0, sock_putc
          (if c' = ti_intr (tn_oldtty t) \<or> c' = ti_quit (tn_keys t) then [TCIAC, TCIP]
           else if c' = ti_erase (tn_keys t) then [TCIAC, TCEC]
           else if c' = ti_kill (tn_keys t) then [TCIAC, TCEL]
           else if c' = ti_discard (tn_keys t) then [TCIAC, TCAO]
           else [c']) t))"

definition c_string :: "bytes \<Rightarrow> bytes" where
  "c_string bs = takeWhile (\<lambda>c. c \<noteq> CHR 0x00) bs"

definition errexit :: "tn \<Rightarrow> int \<times> tn" where
  "errexit t = (0, ended (Exit 1) t)"

definition scrinit :: "tn \<Rightarrow> int \<times> tn" where
  "scrinit t =
     (if \<not> tn_doecho t then (-1, out (NL # ''scripting requires remote ECHO.'' @ [NL]) t)
      else if tn_scrfp t \<noteq> None
      then (-1, out (NL # ''already scripting to '' @ CHR 0x22 # c_string (tn_scrname t) @ [CHR 0x22, CHR ''.'', NL]) t)
      else
        let t1 = t\<lparr>tn_scrindex := 0\<rparr> in
        case tty_call t1 of
          (False, t2) \<Rightarrow> errexit t2
        | (True, t2) \<Rightarrow>
            let t3 = t2\<lparr>tn_tntty := tn_tty t2\<rparr> in
            (case tcsetattr ((tn_oldtty t3)\<lparr>ti_intr := VDISABLE, ti_quit := VDISABLE, ti_susp := VDISABLE\<rparr>) t3 of
               (False, t4) \<Rightarrow> errexit t4
             | (True, t4) \<Rightarrow> (0, out (NL # ''script file: '') t4)))"

definition scrgetc :: "char \<Rightarrow> tn \<Rightarrow> int \<times> tn" where
  "scrgetc c t =
     (let t1 = t\<lparr>tn_scrname := (tn_scrname t)[tn_scrindex t := c], tn_scrindex := tn_scrindex t + 1\<rparr> in
      if tn_scrindex t1 \<ge> SFBUFSZ
      then (case tcsetattr (tn_oldtty t1) (out (NL # ''name too long'' @ [NL]) t1) of
              (False, t2) \<Rightarrow> errexit t2
            | (True, t2) \<Rightarrow> (-1, t2))
      else (0, t1))"

definition scrwrap :: "tn_env \<Rightarrow> tn \<Rightarrow> int \<times> tn" where
  "scrwrap env t =
     (let t1 = (if tn_scrindex t \<noteq> 0
                then let t' = t\<lparr>tn_scrname := (tn_scrname t)[tn_scrindex t := CHR 0x00], tn_scrindex := 0\<rparr>
                     in if en_open env (c_string (tn_scrname t')) then t'\<lparr>tn_scrfp := Some []\<rparr>
                        else out (NL # CHR ''c'' # ''an'' @ CHR 0x27 # ''t write '' @ CHR 0x22 # c_string (tn_scrname t')
                               @ CHR 0x22 # '': '' @ en_error env @ [NL]) t'
                else t)
      in case tcsetattr (tn_tntty t1) t1 of
           (False, t2) \<Rightarrow> errexit t2
         | (True, t2) \<Rightarrow> (0, t2))"

definition unscript :: "tn \<Rightarrow> int \<times> tn" where
  "unscript t =
     (case tn_scrfp t of
        None \<Rightarrow> (0, out (NL # ''Not scripting.'' @ [NL]) t)
      | Some f \<Rightarrow> (0, (out (NL # CHR 0x22 # c_string (tn_scrname t) @ CHR 0x22 # '': '' @ to_string (length f) @ '' bytes.'' @ [NL]) t)
                   \<lparr>tn_scrfp := None\<rparr>))"

definition dcon :: "tn \<Rightarrow> int \<times> tn" where
  "dcon t = (0, ended (Exit 0) (snd (tcsetattr (tn_oldtty t) (out (''disconnecting.'' @ [NL]) t))))"

definition suspend :: "tn_env \<Rightarrow> tn \<Rightarrow> int \<times> tn" where
  "suspend env t =
     (case tty_call t of
        (False, t1) \<Rightarrow> errexit t1
      | (True, t1) \<Rightarrow>
        (case tcsetattr (tn_oldtty t1) (t1\<lparr>tn_tntty := tn_tty t1\<rparr>) of
           (False, t2) \<Rightarrow> errexit t2
         | (True, t2) \<Rightarrow>
           (case tty_call (t2\<lparr>tn_tty := en_stopped_tty env (tn_tty t2)\<rparr>) of
              (False, t3) \<Rightarrow> errexit t3
            | (True, t3) \<Rightarrow>
              (case tcsetattr (tn_tntty t3) (t3\<lparr>tn_oldtty := tn_tty t3\<rparr>) of
                 (False, t4) \<Rightarrow> errexit t4
               | (True, t4) \<Rightarrow> (0, t4)))))"

definition port_text :: "bytes \<Rightarrow> nat option \<Rightarrow> bytes" where
  "port_text name p = (case p of None \<Rightarrow> [] | Some n \<Rightarrow> name @ '' port '' @ to_string n @ '' '')"

definition status :: "tn_env \<Rightarrow> tn \<Rightarrow> int \<times> tn" where
  "status env t =
     (let t1 = out (NL # ''connected to '' @ CHR 0x22 # en_host env @ CHR 0x22 # '' '' @ port_text ''local'' (en_local_port env)
                  @ port_text ''remote'' (en_remote_port env) @ [NL]) t;
          t2 = (if tn_doecho t1 \<or> tn_sndbinary t1 \<or> tn_rcvbinary t1
                then out (''options in effect: '' @ (if tn_doecho t1 then ''remote_echo '' else [])
                       @ (if tn_sndbinary t1 then ''send_binary '' else [])
                       @ (if tn_rcvbinary t1 then ''receive_binary '' else []) @ [NL]) t1
                else t1)
      in (0, if tn_scrfp t2 = None then t2
             else out (''scripting to file '' @ CHR 0x22 # c_string (tn_scrname t2) @ [CHR 0x22, NL]) t2))"

definition sonotsup :: "char \<Rightarrow> tn \<Rightarrow> int \<times> tn" where
  "sonotsup c t =
     (0, out (NL # ''unsupported escape: '' @ c # ''.'' @ NL # ''s  - turn on scripting'' @ [CHR 0x09, CHR 0x09]
        @ ''u  - turn off scripting'' @ NL # ''.  - disconnect'' @ [CHR 0x09, CHR 0x09, CHR 0x09] @ ''^Z - suspend''
        @ NL # ''^T - print status'' @ [NL]) t)"

definition tnabort :: "tn \<Rightarrow> int \<times> tn" where
  "tnabort t = errexit t"

subsection \<open>Running the machines\<close>

fun tn_act :: "tn_env \<Rightarrow> tn_action \<Rightarrow> char \<Rightarrow> tn \<Rightarrow> int \<times> tn" where
  "tn_act env No_op c t = (0, t)"
| "tn_act env Recopt c t = recopt c t"
| "tn_act env Ttputc c t = ttputc env c t"
| "tn_act env Tcdm c t = tcdm t"
| "tn_act env Do_echo c t = do_echo c t"
| "tn_act env Do_noga c t = do_noga c t"
| "tn_act env Do_txbinary c t = do_txbinary c t"
| "tn_act env Do_notsup c t = do_notsup c t"
| "tn_act env Will_termtype c t = will_termtype env c t"
| "tn_act env Will_txbinary c t = will_txbinary c t"
| "tn_act env Will_notsup c t = will_notsup c t"
| "tn_act env Subopt c t = subopt c t"
| "tn_act env Subend c t = subend t"
| "tn_act env Subtermtype c t = subtermtype t"
| "tn_act env Soputc c t = soputc c t"
| "tn_act env Scrinit c t = scrinit t"
| "tn_act env Scrgetc c t = scrgetc c t"
| "tn_act env Scrwrap c t = scrwrap env t"
| "tn_act env Unscript c t = unscript t"
| "tn_act env Dcon c t = dcon t"
| "tn_act env Suspend c t = suspend env t"
| "tn_act env Status c t = status env t"
| "tn_act env Sonotsup c t = sonotsup c t"
| "tn_act env Tnabort c t = tnabort t"

text \<open>One character of a loop; nothing more happens once the process has ended.\<close>

definition tt_char :: "tn_env \<Rightarrow> char \<Rightarrow> tn \<Rightarrow> tn" where
  "tt_char env c t =
     (if tn_ended t \<noteq> None then t
      else let pt = tt_step (tn_ttstate t) c
           in (snd (tn_act env (ft_action pt) c t))\<lparr>tn_ttstate := ft_next pt\<rparr>)"

definition so_char :: "tn_env \<Rightarrow> char \<Rightarrow> tn \<Rightarrow> tn" where
  "so_char env c t =
     (if tn_ended t \<noteq> None then t
      else let pt = so_step (tn_sostate t) c in
        case tn_act env (ft_action pt) c t of
          (r, t1) \<Rightarrow> t1\<lparr>tn_sostate := (if r < 0 then KSREMOTE else ft_next pt)\<rparr>)"

definition ttwrite :: "tn_env \<Rightarrow> bytes \<Rightarrow> tn \<Rightarrow> tn" where
  "ttwrite env buf t = fold (tt_char env) buf t"

definition sowrite :: "tn_env \<Rightarrow> bytes \<Rightarrow> tn \<Rightarrow> tn" where
  "sowrite env buf t = fold (so_char env) buf t"

subsection \<open>telnet.c\<close>

text \<open>
  What happens in a round of the loop: data, end or failure of the socket, of the keyboard, data of the
  socket and the keyboard both, urgent data (a signal, which \<open>select\<close> reports as EINTR), another failure of
  \<open>select\<close>.
\<close>

datatype tn_key = Typed bytes | Typed_eof | Typed_error

datatype tn_event = Net bytes | Net_closed | Net_error | Key tn_key | Net_key bytes tn_key | Urgent | Select_error

abbreviation Key_eof :: tn_event where "Key_eof \<equiv> Key Typed_eof"

definition cerrexit :: "tn \<Rightarrow> tn" where
  "cerrexit t = ended (Exit 1) (snd (tcsetattr (tn_oldtty t) t))"

text \<open>Output that is flushed after the sending side of the connection has been shut down.\<close>

definition tn_flush :: "tn \<Rightarrow> tn \<Rightarrow> tn" where
  "tn_flush t t1 =
     (if tn_ended t1 = None \<and> \<not> tn_stdin_open t1 \<and> tn_sock t1 \<noteq> tn_sock t
      then ended Sigpipe (t1\<lparr>tn_sock := tn_sock t\<rparr>) else t1)"

definition tn_stdin :: "tn_env \<Rightarrow> tn_key \<Rightarrow> tn \<Rightarrow> tn" where
  "tn_stdin env k t =
     (if \<not> tn_stdin_open t then t
      else case k of Typed buf \<Rightarrow> sowrite env buf t | Typed_eof \<Rightarrow> t\<lparr>tn_stdin_open := False\<rparr> | Typed_error \<Rightarrow> cerrexit t)"

fun tn_round :: "tn_env \<Rightarrow> tn_event \<Rightarrow> tn \<Rightarrow> tn" where
  "tn_round env (Net buf) t = tn_flush t (ttwrite env buf t)"
| "tn_round env Net_closed t =
     (case tcsetattr (tn_oldtty t) (out (NL # ''connection closed.'' @ [NL]) t) of
        (ok, t1) \<Rightarrow> ended (Exit (if ok then 0 else 1)) t1)"
| "tn_round env Net_error t = cerrexit t"
| "tn_round env (Key k) t = tn_stdin env k t"
| "tn_round env (Net_key buf k) t =
     (let t1 = ttwrite env buf t in if tn_ended t1 \<noteq> None then t1 else tn_flush t (tn_stdin env k t1))"
| "tn_round env Urgent t = rcvurg t"
| "tn_round env Select_error t = cerrexit t"

definition tn_loop :: "tn_env \<Rightarrow> tn_event list \<Rightarrow> tn \<Rightarrow> tn" where
  "tn_loop env evs t = fold (\<lambda>ev t. if tn_ended t \<noteq> None then t else tn_round env ev t) evs t"

text \<open>
  \<open>ttysetup\<close> and \<open>fsmbuild\<close>: the program before its loop, on a terminal whose modes are given;
  the global variables start as zero.
\<close>

definition tn_zero :: "termios \<Rightarrow> bool list \<Rightarrow> tn" where
  "tn_zero tio calls =
     \<lparr>tn_ttstate = TSDATA, tn_sostate = KSREMOTE, tn_substate = SS_START, tn_option_cmd = CHR 0x00, tn_doecho = False,
      tn_savec = (CHR 0x00, CHR 0x00), tn_noga = False, tn_rcvbinary = False, tn_sndbinary = False, tn_termtype = False,
      tn_term = None, tn_synching = 0, tn_last_char = CHR 0x00, tn_scrfp = None, tn_scrname = replicate SFBUFSZ (CHR 0x00),
      tn_scrindex = 0, tn_keys = tio, tn_oldtty = tio, tn_tntty = tio, tn_tty = tio, tn_tty_calls = calls, tn_stdin_open = True,
      tn_sock = [], tn_out = [], tn_ended = None\<rparr>"

definition ttysetup :: "tn \<Rightarrow> tn" where
  "ttysetup t =
     (case tty_call t of
        (False, t1) \<Rightarrow> snd (errexit t1)
      | (True, t1) \<Rightarrow>
          let t2 = t1\<lparr>tn_keys := tn_tty t1, tn_oldtty := tn_tty t1,
                      tn_tntty := (tn_tty t1)\<lparr>ti_intr := VDISABLE, ti_quit := VDISABLE, ti_susp := VDISABLE\<rparr>\<rparr>
          in (case tcsetattr (tn_tntty t2) t2 of
                (False, t3) \<Rightarrow> snd (errexit t3)
              | (True, t3) \<Rightarrow> t3))"

definition telnet :: "tn_env \<Rightarrow> termios \<Rightarrow> bool list \<Rightarrow> tn_event list \<Rightarrow> tn" where
  "telnet env tio calls evs = tn_loop env evs (ttysetup (tn_zero tio calls))"

end
