(* ===== verification/Telnet_Session.thy ===== *)
theory Telnet_Session
  imports Telnet
begin

text \<open>
  What the telnet client guarantees: its machines never reach an invalid state, what it sends is a
  series of complete telnet commands and data, eight-bit data pass through unchanged in binary
  mode, options are negotiated by answering only changes, and text is displayed with its line ends;
  and where it fails: an unexpected subnegotiation, the counter of urgent data.
\<close>

subsection \<open>Reading what a client sends\<close>

definition tn_read :: "nat \<Rightarrow> bytes \<Rightarrow> nat" where
  "tn_read s w = foldl (\<lambda>s c. ft_next (tt_step s c)) s w"

lemma tn_read_simps [simp]:
  "tn_read s [] = s" "tn_read s (c # w) = tn_read (ft_next (tt_step s c)) w"
  "tn_read s (v @ w) = tn_read (tn_read s v) w"
  by (simp_all add: tn_read_def)

definition tn_complete :: "bytes \<Rightarrow> bool" where
  "tn_complete w \<longleftrightarrow> tn_read TSDATA w = TSDATA"

lemma tn_complete_append: "tn_complete v \<Longrightarrow> tn_complete w \<Longrightarrow> tn_complete (v @ w)"
  by (simp add: tn_complete_def)

lemma tn_complete_Nil [simp]: "tn_complete []"
  by (simp add: tn_complete_def)

lemma tn_complete_data: "c \<noteq> TCIAC \<Longrightarrow> tn_complete [c]"
  by (simp add: tn_complete_def tt_steps)

lemma tn_complete_command: "cmd \<in> {TCIP, TCAO, TCEC, TCEL, TCIAC} \<Longrightarrow> tn_complete [TCIAC, cmd]"
  by (auto simp: tn_complete_def tt_steps)

lemma tn_complete_option: "cmd \<in> {TCWILL, TCWONT, TCDO, TCDONT} \<Longrightarrow> tn_complete [TCIAC, cmd, c]"
  by (auto simp: tn_complete_def tt_steps)

lemma tn_read_subneg: "TCIAC \<notin> set w \<Longrightarrow> tn_read TSSUBNEG w = TSSUBNEG"
  by (induction w) (auto simp: tt_steps)

lemma tn_complete_termtype:
  "TCIAC \<notin> set term \<Longrightarrow> tn_complete ([TCIAC, TCSB, TOTERMTYPE, TT_IS] @ term @ [TCIAC, TCSE])"
  by (simp add: tn_complete_def tt_steps tn_read_subneg)

subsection \<open>The invariant\<close>

text \<open>What an action leaves: the states of the machines, and complete output unless it faults.\<close>

definition act_frame :: "tn_env \<Rightarrow> tn \<Rightarrow> tn \<Rightarrow> bool" where
  "act_frame env t t' \<longleftrightarrow>
     tn_ttstate t' = tn_ttstate t \<and> tn_sostate t' = tn_sostate t \<and> tn_substate t' < NSSTATES
     \<and> (tn_term t' = None \<or> tn_term t' = en_TERM env) \<and> length (tn_scrname t') = SFBUFSZ
     \<and> (tn_ended t' \<noteq> Some Fault \<longrightarrow> tn_complete (tn_sock t'))"

definition tn_inv :: "tn_env \<Rightarrow> tn \<Rightarrow> bool" where
  "tn_inv env t \<longleftrightarrow>
     tn_ttstate t < NTSTATES \<and> tn_sostate t < NKSTATES \<and> tn_substate t < NSSTATES
     \<and> (tn_term t = None \<or> tn_term t = en_TERM env) \<and> length (tn_scrname t) = SFBUFSZ
     \<and> (tn_ended t = None \<and> tn_sostate t = KSCOLLECT \<longrightarrow> tn_scrindex t < SFBUFSZ)
     \<and> (tn_ended t \<noteq> Some Fault \<longrightarrow> tn_complete (tn_sock t))"

lemmas tn_prims = sock_putc_def out_def ended_def tty_call_def tcsetattr_def xputc_def xfputs_def tcout_def errexit_def

lemma xput_frame [simp]:
  "tn_sock (xputc c t) = tn_sock t" "tn_sock (xfputs s t) = tn_sock t" "tn_sock (snd (tcout env cap t)) = tn_sock t"
  "tn_ended (xputc c t) = tn_ended t" "tn_ended (xfputs s t) = tn_ended t" "tn_ended (snd (tcout env cap t)) = tn_ended t"
  "tn_ttstate (xputc c t) = tn_ttstate t" "tn_ttstate (xfputs s t) = tn_ttstate t" "tn_ttstate (snd (tcout env cap t)) = tn_ttstate t"
  "tn_sostate (xputc c t) = tn_sostate t" "tn_sostate (xfputs s t) = tn_sostate t" "tn_sostate (snd (tcout env cap t)) = tn_sostate t"
  "tn_substate (xputc c t) = tn_substate t" "tn_substate (xfputs s t) = tn_substate t" "tn_substate (snd (tcout env cap t)) = tn_substate t"
  "tn_term (xputc c t) = tn_term t" "tn_term (xfputs s t) = tn_term t" "tn_term (snd (tcout env cap t)) = tn_term t"
  "tn_scrname (xputc c t) = tn_scrname t" "tn_scrname (xfputs s t) = tn_scrname t" "tn_scrname (snd (tcout env cap t)) = tn_scrname t"
  "tn_scrindex (xputc c t) = tn_scrindex t" "tn_scrindex (xfputs s t) = tn_scrindex t" "tn_scrindex (snd (tcout env cap t)) = tn_scrindex t"
  by (simp_all add: tn_prims split: option.split)


lemma frame_sock_putc:
  "act_frame env t t' \<Longrightarrow> tn_ended t' \<noteq> Some Fault \<Longrightarrow> tn_complete w \<Longrightarrow> act_frame env t (sock_putc w t')"
  by (simp add: act_frame_def sock_putc_def tn_complete_append)

lemma frame_ttputc: "act_frame env t t \<Longrightarrow> act_frame env t (snd (ttputc env c t))"
  by (auto simp: ttputc_def Let_def act_frame_def case_prod_beta split: option.split)

lemma frame_do_echo:
  assumes "act_frame env t t" and "tn_ended t = None"
  shows "act_frame env t (snd (do_echo c t))"
  using assms tn_complete_option [of TCDO c] tn_complete_option [of TCDONT c]
  by (auto simp: do_echo_def Let_def act_frame_def case_prod_beta tn_prims tn_complete_append split: list.split bool.split)

lemma frame_noga:
  assumes "act_frame env t t" and "tn_ended t = None"
  shows "act_frame env t (snd (do_noga c t))"
  using assms tn_complete_option [of TCDO c] tn_complete_option [of TCDONT c]
  by (auto simp: do_noga_def Let_def act_frame_def sock_putc_def tn_complete_append)

lemma frame_do_txbinary:
  assumes "act_frame env t t" and "tn_ended t = None"
  shows "act_frame env t (snd (do_txbinary c t)) \<and> tn_ended (snd (do_txbinary c t)) = None"
  using assms tn_complete_option [of TCDO c] tn_complete_option [of TCDONT c]
  by (auto simp: do_txbinary_def Let_def act_frame_def sock_putc_def tn_complete_append)

lemma frame_will_txbinary:
  assumes "act_frame env t t" and "tn_ended t = None"
  shows "act_frame env t (snd (will_txbinary c t))"
  using assms tn_complete_option [of TCWILL c] tn_complete_option [of TCWONT c]
  by (auto simp: will_txbinary_def Let_def act_frame_def sock_putc_def tn_complete_append)

lemma frame_will_termtype:
  assumes "act_frame env t t" and "tn_ended t = None"
  shows "act_frame env t (snd (will_termtype env c t))"
proof -
  have trans: "act_frame env t v" if "act_frame env t u" "act_frame env u v" for u v
    using that by (simp add: act_frame_def)
  have refl: "act_frame env u u" if "act_frame env t u" for u using that by (simp add: act_frame_def)
  have cmd: "act_frame env t (u\<lparr>tn_option_cmd := d\<rparr>)" if "act_frame env t u" for u d
    using that by (simp add: act_frame_def)
  define t2 where "t2 = (let t1 = t\<lparr>tn_termtype := \<not> tn_termtype t\<rparr> in
     if tn_termtype t1 \<and> tn_term t1 = None
     then (case en_TERM env of None \<Rightarrow> t1\<lparr>tn_termtype := \<not> tn_termtype t1\<rparr> | Some term \<Rightarrow> t1\<lparr>tn_term := Some term\<rparr>)
     else t1)"
  have "act_frame env t t2" "tn_ended t2 = None"
    using assms by (auto simp: t2_def Let_def act_frame_def split: option.split)
  then have t3: "act_frame env t (sock_putc [TCIAC, d, c] t2)" "tn_ended (sock_putc [TCIAC, d, c] t2) = None"
    if "d \<in> {TCWILL, TCWONT}" for d
    using that tn_complete_option [of d c] frame_sock_putc [of env t t2] by (auto simp: sock_putc_def)
  let ?t3 = "sock_putc [TCIAC, TCWILL, c] t2"
  let ?t4 = "snd (do_txbinary TOTXBINARY (?t3\<lparr>tn_option_cmd := TCWILL\<rparr>))"
  have t3': "act_frame env t (?t3\<lparr>tn_option_cmd := TCWILL\<rparr>)" "tn_ended (?t3\<lparr>tn_option_cmd := TCWILL\<rparr>) = None"
    using cmd t3 by simp_all
  have t4: "act_frame env t (?t4\<lparr>tn_option_cmd := TCDO\<rparr>)" "tn_ended (?t4\<lparr>tn_option_cmd := TCDO\<rparr>) = None"
    using frame_do_txbinary [OF refl [OF t3'(1)] t3'(2), of TOTXBINARY] trans [OF t3'(1)] cmd by simp_all
  have t5: "act_frame env t (snd (will_txbinary TOTXBINARY (?t4\<lparr>tn_option_cmd := TCDO\<rparr>)))"
    using trans [OF t4(1) frame_will_txbinary [OF refl [OF t4(1)] t4(2)]] .
  show ?thesis
    using t3 t5 assms(1) unfolding will_termtype_def Let_def t2_def [unfolded Let_def, symmetric]
    by (auto simp: sock_putc_def)
qed

lemma frame_subopt:
  assumes "act_frame env t t" and "tn_ended t = None" and "\<forall>term. en_TERM env = Some term \<longrightarrow> TCIAC \<notin> set term"
  shows "act_frame env t (snd (subopt c t))"
proof -
  have "ft_next (sub_step (tn_substate t) c) < NSSTATES"
    using sub.step_total [of "tn_substate t" c] assms(1) by (simp add: act_frame_def subfsm_def)
  moreover have "tn_complete (tn_sock t @ [TCIAC, TCSB, TOTERMTYPE, TT_IS] @ tm @ [TCIAC, TCSE])"
    if "tn_term t = Some tm" for tm
    using assms that tn_complete_append [OF _ tn_complete_termtype [of tm], of "tn_sock t"] by (auto simp: act_frame_def)
  ultimately show ?thesis
    using assms(1,2) by (auto simp: subopt_def subtermtype_def Let_def act_frame_def tn_prims split: option.split)
qed

lemma seven_bit: "char_of (of_char c mod 128 :: nat) \<noteq> TCIAC"
proof
  assume "char_of (of_char c mod 128 :: nat) = TCIAC"
  then have "(of_char c mod 128 :: nat) mod 256 = 255" using of_char_of [of "of_char c mod 128 :: nat"] by simp
  moreover have "(of_char c mod 128 :: nat) < 128" by simp
  ultimately show False by simp
qed

lemma frame_soputc:
  assumes "act_frame env t t" and "tn_ended t = None"
  shows "act_frame env t (snd (soputc c t))"
proof -
  have put: "act_frame env t (sock_putc w t)" if "tn_complete w" for w
    using frame_sock_putc [OF assms(1) _ that] assms(2) by simp
  have "tn_complete [TCIAC, TCIP]" "tn_complete [TCIAC, TCEC]" "tn_complete [TCIAC, TCEL]" "tn_complete [TCIAC, TCAO]"
    "tn_complete [TCIAC, TCIAC]"
    by (rule tn_complete_command, simp)+
  moreover have "tn_complete [char_of (of_char c mod 128 :: nat)]" using tn_complete_data seven_bit by blast
  moreover have "c \<noteq> TCIAC \<Longrightarrow> tn_complete [c]" by (rule tn_complete_data)
  ultimately show ?thesis by (simp add: soputc_def Let_def put)
qed

lemma frame_keyboard:
  assumes "act_frame env t t" and "tn_ended t = None"
  shows "act_frame env t (snd (scrinit t))" "act_frame env t (snd (scrgetc c t))"
    "act_frame env t (snd (scrwrap env t))" "act_frame env t (snd (unscript t))" "act_frame env t (snd (dcon t))"
    "act_frame env t (snd (status env t))" "act_frame env t (snd (sonotsup c t))"
    "act_frame env t (snd (errexit t))"
  using assms
  by (auto simp: scrinit_def scrgetc_def scrwrap_def unscript_def dcon_def status_def sonotsup_def
      tn_prims act_frame_def Let_def split: list.split bool.split option.split)

lemma frame_suspend:
  assumes "act_frame env t t" and "tn_ended t = None"
  shows "act_frame env t (snd (suspend env t))"
  using assms
  by (auto simp: suspend_def tn_prims act_frame_def Let_def split: list.split bool.split)

lemma frame_simple:
  assumes "act_frame env t t" and "tn_ended t = None"
  shows "act_frame env t (snd (recopt c t))" "act_frame env t (snd (tcdm t))" "act_frame env t (snd (subend t))"
    "act_frame env t (snd (tnabort t))" "act_frame env t (snd (do_notsup c t))" "act_frame env t (snd (will_notsup c t))"
  using assms frame_sock_putc [OF assms(1) _ tn_complete_option [of TCDONT c]]
    frame_sock_putc [OF assms(1) _ tn_complete_option [of TCWONT c]]
  by (simp_all add: recopt_def tcdm_def subend_def tnabort_def do_notsup_def will_notsup_def act_frame_def errexit_def ended_def)

lemmas frame_actions = frame_simple frame_do_echo frame_noga frame_do_txbinary [THEN conjunct1] frame_will_txbinary
  frame_will_termtype frame_soputc frame_keyboard frame_suspend

lemma frame_act:
  assumes "act_frame env t t" and "tn_ended t = None" and "\<forall>tm. en_TERM env = Some tm \<longrightarrow> TCIAC \<notin> set tm"
    and "a \<noteq> Subtermtype"
  shows "act_frame env t (snd (tn_act env a c t))"
  by (cases a; simp only: tn_act.simps snd_conv;
      (rule assms(1) frame_ttputc [OF assms(1)] frame_subopt [OF assms(1-3)] frame_actions [OF assms(1,2)])?)
    (use assms(4) in simp)

lemma below_6: "(s :: nat) < NTSTATES \<Longrightarrow> s = TSDATA \<or> s = TSIAC \<or> s = TSWOPT \<or> s = TSDOPT \<or> s = TSSUBNEG \<or> s = TSSUBIAC"
  by presburger

lemma below_3: "(s :: nat) < NKSTATES \<Longrightarrow> s = KSREMOTE \<or> s = KSLOCAL \<or> s = KSCOLLECT"
  by presburger

lemma tt_action:
  "s < NTSTATES \<Longrightarrow> ft_action (tt_step s c)
    \<in> {No_op, Recopt, Ttputc, Tcdm, Do_echo, Do_noga, Do_txbinary, Do_notsup, Will_termtype, Will_txbinary, Will_notsup, Subopt, Subend}"
  by (drule below_6, elim disjE) (simp_all add: tt_steps)

lemma tt_action_scrindex:
  "a \<in> {No_op, Recopt, Ttputc, Tcdm, Do_echo, Do_noga, Do_txbinary, Do_notsup, Will_termtype, Will_txbinary, Will_notsup, Subopt, Subend}
    \<Longrightarrow> tn_scrindex (snd (tn_act env a c t)) = tn_scrindex t"
  by (elim insertE emptyE)
    (simp_all add: recopt_def ttputc_def tcdm_def do_echo_def do_noga_def do_txbinary_def do_notsup_def will_termtype_def
      will_txbinary_def will_notsup_def subopt_def subend_def subtermtype_def sock_putc_def ended_def tcsetattr_def tty_call_def
      Let_def case_prod_beta split: option.split list.split bool.split)

lemma inv_frame: "tn_inv env t \<Longrightarrow> act_frame env t t"
  by (auto simp: tn_inv_def act_frame_def)

lemma inv_tt_char:
  assumes "tn_inv env t" and "\<forall>tm. en_TERM env = Some tm \<longrightarrow> TCIAC \<notin> set tm"
  shows "tn_inv env (tt_char env c t)"
proof (cases "tn_ended t = None")
  case True
  let ?pt = "tt_step (tn_ttstate t) c"
  have s: "tn_ttstate t < NTSTATES" using assms(1) by (simp add: tn_inv_def)
  then have "ft_action ?pt \<noteq> Subtermtype" "ft_next ?pt < NTSTATES"
    using tt_action [OF s, of c] tt.step_total [OF s, of c] by (auto simp: ttfsm_def)
  then show ?thesis
    using frame_act [OF inv_frame [OF assms(1)] True assms(2), of "ft_action ?pt" c] tt_action_scrindex [OF tt_action [OF s], of env c c t]
      assms(1) True
    by (auto simp: tt_char_def Let_def tn_inv_def act_frame_def)
qed (use assms(1) in \<open>simp add: tt_char_def\<close>)

lemma so_action:
  "s < NKSTATES \<Longrightarrow> ft_action (so_step s c)
    \<in> {No_op, Soputc, Scrinit, Unscript, Dcon, Suspend, Status, Sonotsup, Scrwrap, Scrgetc}
    \<and> (ft_next (so_step s c) = KSCOLLECT \<longrightarrow> ft_action (so_step s c) \<in> {Scrinit, Scrgetc})"
  by (drule below_3, elim disjE) (simp_all add: so_steps)

lemma collect_bound:
  "a \<in> {Scrinit, Scrgetc} \<Longrightarrow> tn_act env a c t = (r, t') \<Longrightarrow> 0 \<le> r \<Longrightarrow> tn_ended t' = None \<Longrightarrow> tn_scrindex t' < SFBUFSZ"
  by (auto simp: scrinit_def scrgetc_def tcsetattr_def tty_call_def errexit_def ended_def out_def Let_def SFBUFSZ_def
      split: if_splits list.splits bool.splits)

lemma inv_so_char:
  assumes "tn_inv env t" and "\<forall>tm. en_TERM env = Some tm \<longrightarrow> TCIAC \<notin> set tm"
  shows "tn_inv env (so_char env c t)"
proof (cases "tn_ended t = None")
  case True
  let ?pt = "so_step (tn_sostate t) c"
  obtain r t1 where a: "tn_act env (ft_action ?pt) c t = (r, t1)" by force
  have s: "tn_sostate t < NKSTATES" using assms(1) by (simp add: tn_inv_def)
  then have "ft_action ?pt \<noteq> Subtermtype" "ft_next ?pt < NKSTATES"
    using so_action [OF s, of c] so.step_total [OF s, of c] by (auto simp: sofsm_def)
  then have "act_frame env t t1"
    using frame_act [OF inv_frame [OF assms(1)] True assms(2), of "ft_action ?pt" c] a by simp
  moreover have "tn_scrindex t1 < SFBUFSZ" if "0 \<le> r" "ft_next ?pt = KSCOLLECT" "tn_ended t1 = None"
    using collect_bound [OF _ a that(1,3)] so_action [OF s, of c] that(2) by blast
  ultimately show ?thesis
    using assms(1) True a \<open>ft_next ?pt < NKSTATES\<close>
    by (auto simp: so_char_def Let_def tn_inv_def act_frame_def)
qed (use assms(1) in \<open>simp add: so_char_def\<close>)

lemma inv_write:
  assumes "\<forall>tm. en_TERM env = Some tm \<longrightarrow> TCIAC \<notin> set tm"
  shows "tn_inv env t \<Longrightarrow> tn_inv env (ttwrite env buf t)" and "tn_inv env t \<Longrightarrow> tn_inv env (sowrite env buf t)"
proof -
  show "tn_inv env t \<Longrightarrow> tn_inv env (ttwrite env buf t)"
    by (induction buf arbitrary: t) (simp_all add: ttwrite_def inv_tt_char assms)
  show "tn_inv env t \<Longrightarrow> tn_inv env (sowrite env buf t)"
    by (induction buf arbitrary: t) (simp_all add: sowrite_def inv_so_char assms)
qed

lemma inv_ends:
  assumes "tn_inv env t" and "tn_ended t = None"
  shows "tn_inv env (cerrexit t)" "tn_inv env (tn_round env Net_closed t)" "tn_inv env (rcvurg t)"
    "tn_inv env (t\<lparr>tn_stdin_open := False\<rparr>)" "tn_inv env (snd (errexit t))"
  using assms
  by (auto simp: cerrexit_def tn_prims tn_inv_def rcvurg_def split: list.split bool.split)

lemma inv_flush: "tn_inv env t \<Longrightarrow> tn_ended t = None \<Longrightarrow> tn_inv env u \<Longrightarrow> tn_inv env (tn_flush t u)"
  by (auto simp: tn_flush_def tn_inv_def ended_def)

lemma inv_stdin:
  assumes "tn_inv env t" and "tn_ended t = None" and "\<forall>tm. en_TERM env = Some tm \<longrightarrow> TCIAC \<notin> set tm"
  shows "tn_inv env (tn_stdin env k t)"
  using assms(1) inv_write(2) [OF assms(3,1)] inv_ends [OF assms(1,2)] by (simp add: tn_stdin_def split: tn_key.split)

lemma inv_round:
  assumes "tn_inv env t" and "tn_ended t = None" and "\<forall>tm. en_TERM env = Some tm \<longrightarrow> TCIAC \<notin> set tm"
  shows "tn_inv env (tn_round env ev t)"
proof (cases ev)
  case (Net buf)
  then show ?thesis using inv_flush [OF assms(1,2) inv_write(1) [OF assms(3,1)]] by simp
next
  case (Key k)
  then show ?thesis using inv_stdin [OF assms] by simp
next
  case (Net_key buf k)
  show ?thesis
  proof (cases "tn_ended (ttwrite env buf t) = None")
    case True
    with inv_flush [OF assms(1,2) inv_stdin [OF inv_write(1) [OF assms(3,1)] True assms(3)]] Net_key show ?thesis by simp
  qed (use Net_key inv_write(1) [OF assms(3,1)] in simp)
qed (use assms(1) inv_ends [OF assms(1,2)] in simp_all)

lemma inv_loop:
  assumes "\<forall>tm. en_TERM env = Some tm \<longrightarrow> TCIAC \<notin> set tm"
  shows "tn_inv env t \<Longrightarrow> tn_inv env (tn_loop env evs t)"
  by (induction evs arbitrary: t) (auto simp: tn_loop_def inv_round assms)

lemma inv_start: "tn_inv env (ttysetup (tn_zero tio calls))"
  by (auto simp: ttysetup_def tn_zero_def tn_prims tn_inv_def Let_def split: list.split bool.split)

text \<open>
  C6: whatever the server sends and the user types, the machines of the client stay in their states, the
  name of a script file stays in its buffer, and what the client has sent is a series of complete
  characters, commands and subnegotiations of the protocol, unless it has ended with a fault.\<close>

theorem telnet_output_complete:
  assumes "\<forall>tm. en_TERM env = Some tm \<longrightarrow> TCIAC \<notin> set tm"
  shows "let t = telnet env tio calls evs in
    tn_ttstate t < NTSTATES \<and> tn_sostate t < NKSTATES \<and> tn_substate t < NSSTATES
    \<and> (tn_ended t = None \<and> tn_sostate t = KSCOLLECT \<longrightarrow> tn_scrindex t < length (tn_scrname t))
    \<and> (tn_ended t \<noteq> Some Fault \<longrightarrow> tn_complete (tn_sock t))"
  using inv_loop [OF assms inv_start, of evs tio calls] by (simp add: telnet_def tn_inv_def)

theorem telnet_output_complete_witness:
  "\<forall>tio. tn_complete (tn_sock (telnet \<lparr>en_TERM = Some ''vt100'', en_cap = \<lambda>_ _. None, en_host = ''h'', en_local_port = None,
      en_remote_port = None, en_open = \<lambda>_. False, en_error = [], en_stopped_tty = \<lambda>x. x\<rparr> tio [] [Net [TCIAC, TCWILL, TONOGA], Net_key ''hi'' (Typed ''ls'')]))
    \<and> TCIAC \<in> set (tn_sock (telnet \<lparr>en_TERM = Some ''vt100'', en_cap = \<lambda>_ _. None, en_host = ''h'', en_local_port = None,
      en_remote_port = None, en_open = \<lambda>_. False, en_error = [], en_stopped_tty = \<lambda>x. x\<rparr> tio [] [Net [TCIAC, TCWILL, TONOGA], Net_key ''hi'' (Typed ''ls'')]))"
proof (intro allI)
  fix tio
  let ?env = "\<lparr>en_TERM = Some ''vt100'', en_cap = \<lambda>_ _. None, en_host = ''h'', en_local_port = None,
      en_remote_port = None, en_open = \<lambda>_. False, en_error = [], en_stopped_tty = \<lambda>x. x\<rparr>"
  let ?t = "telnet ?env tio [] [Net [TCIAC, TCWILL, TONOGA], Net_key ''hi'' (Typed ''ls'')]"
  have "tn_ended ?t = None \<and> TCIAC \<in> set (tn_sock ?t)"
    by (simp add: telnet_def tn_loop_def ttysetup_def tn_zero_def tn_prims ttwrite_def tt_char_def tt_steps so_char_def so_steps sowrite_def
        recopt_def do_noga_def tn_flush_def tn_stdin_def ttputc_def xputc_def soputc_def Let_def)
  with telnet_output_complete [of ?env tio "[]" "[Net [TCIAC, TCWILL, TONOGA], Net_key ''hi'' (Typed ''ls'')]"]
  show "tn_complete (tn_sock ?t) \<and> TCIAC \<in> set (tn_sock ?t)" by (simp add: Let_def)
qed


subsection \<open>Binary data\<close>

lemma ttwrite_simps [simp]:
  "ttwrite env [] t = t" "ttwrite env (c # w) t = ttwrite env w (tt_char env c t)"
  "ttwrite env (v @ w) t = ttwrite env w (ttwrite env v t)"
  by (simp_all add: ttwrite_def)

lemma sowrite_simps [simp]:
  "sowrite env [] t = t" "sowrite env (c # w) t = sowrite env w (so_char env c t)"
  by (simp_all add: sowrite_def)

definition stuffed :: "bytes \<Rightarrow> bytes" where
  "stuffed w = concat (map (\<lambda>c. if c = TCIAC then [TCIAC, TCIAC] else [c]) w)"

lemma so_char_binary:
  "tn_sostate t = KSREMOTE \<Longrightarrow> tn_ended t = None \<Longrightarrow> tn_sndbinary t \<Longrightarrow> c \<noteq> KCESCAPE \<Longrightarrow>
    so_char env c t = sock_putc (stuffed [c]) t"
  by (cases t) (auto simp: so_char_def so_steps soputc_def stuffed_def sock_putc_def)

lemma sowrite_binary:
  "tn_sostate t = KSREMOTE \<Longrightarrow> tn_ended t = None \<Longrightarrow> tn_sndbinary t \<Longrightarrow> KCESCAPE \<notin> set w \<Longrightarrow>
    sowrite env w t = sock_putc (stuffed w) t"
proof (induction w arbitrary: t)
  case (Cons c w)
  then have "c \<noteq> KCESCAPE" by auto
  then have "so_char env c t = sock_putc (stuffed [c]) t" using Cons.prems by (intro so_char_binary) simp_all
  then show ?case using Cons by (simp add: sock_putc_def stuffed_def)
qed (simp add: sock_putc_def stuffed_def)

lemma ttwrite_binary:
  "tn_ttstate t = TSDATA \<Longrightarrow> tn_ended t = None \<Longrightarrow> tn_rcvbinary t \<Longrightarrow> tn_scrfp t = None \<Longrightarrow>
    ttwrite env (stuffed w) t = out w t"
proof (induction w arbitrary: t)
  case (Cons c w)
  then have "ttwrite env (stuffed [c]) t = out [c] t"
    by (cases t) (auto simp: stuffed_def tt_char_def tt_steps ttputc_def xputc_def out_def)
  moreover have "stuffed (c # w) = stuffed [c] @ stuffed w" by (simp add: stuffed_def)
  ultimately show ?case using Cons by (simp add: out_def)
qed (simp add: stuffed_def out_def)

text \<open>
  in binary mode any bytes that are typed, the escape character apart, arrive unchanged: a client
  that receives binary data displays exactly what another has sent.\<close>

theorem telnet_binary_transparent:
  assumes "tn_sostate s = KSREMOTE" and "tn_ended s = None" and "tn_sndbinary s" and "KCESCAPE \<notin> set w"
    and "tn_ttstate r = TSDATA" and "tn_ended r = None" and "tn_rcvbinary r" and "tn_scrfp r = None"
  shows "\<exists>wire. tn_sock (sowrite env w s) = tn_sock s @ wire \<and> tn_out (ttwrite env' wire r) = tn_out r @ w"
  using sowrite_binary [OF assms(1-4)] ttwrite_binary [OF assms(5-8)]
  by (intro exI [of _ "stuffed w"]) (simp add: sock_putc_def out_def)

theorem telnet_binary_transparent_witness:
  "\<forall>env env' tio. \<exists>wire. tn_sock (sowrite env [TCIAC, CR, CHR 0x00] ((tn_zero tio [])\<lparr>tn_sndbinary := True\<rparr>)) = [] @ wire
    \<and> tn_out (ttwrite env' wire ((tn_zero tio [])\<lparr>tn_rcvbinary := True\<rparr>)) = [] @ [TCIAC, CR, CHR 0x00]"
proof (intro allI)
  fix env env' tio
  show "\<exists>wire. tn_sock (sowrite env [TCIAC, CR, CHR 0x00] ((tn_zero tio [])\<lparr>tn_sndbinary := True\<rparr>)) = [] @ wire
    \<and> tn_out (ttwrite env' wire ((tn_zero tio [])\<lparr>tn_rcvbinary := True\<rparr>)) = [] @ [TCIAC, CR, CHR 0x00]"
    using telnet_binary_transparent [of "(tn_zero tio [])\<lparr>tn_sndbinary := True\<rparr>" "[TCIAC, CR, CHR 0x00]"
      "(tn_zero tio [])\<lparr>tn_rcvbinary := True\<rparr>" env env'] by (simp add: tn_zero_def)
qed

subsection \<open>Negotiation\<close>

text \<open>The commands that ask for an option to be on or off, and the answers a party owes: its changes.\<close>

definition commands :: "char \<Rightarrow> char \<Rightarrow> char \<Rightarrow> bool list \<Rightarrow> bytes" where
  "commands yes no opt bs = concat (map (\<lambda>b. [TCIAC, if b then yes else no, opt]) bs)"

fun changes :: "bool \<Rightarrow> bool list \<Rightarrow> bool list" where
  "changes s [] = []"
| "changes s (b # bs) = (if b = s then changes s bs else b # changes b bs)"

locale negotiated_option =
  fixes env :: tn_env and get :: "tn \<Rightarrow> bool" and yes no answer_yes answer_no opt :: char and ready :: "tn \<Rightarrow> bool"
  assumes command: "ready t \<Longrightarrow> (let t' = ttwrite env [TCIAC, if b then yes else no, opt] t
      in ready t' \<and> get t' = b
        \<and> tn_sock t' = tn_sock t @ (if b = get t then [] else [TCIAC, if b then answer_yes else answer_no, opt]))"
begin

lemma negotiation:
  "ready t \<Longrightarrow> get (ttwrite env (commands yes no opt bs) t) = last (get t # bs)
    \<and> tn_sock (ttwrite env (commands yes no opt bs) t)
      = tn_sock t @ commands answer_yes answer_no opt (changes (get t) bs)"
proof (induction bs arbitrary: t)
  case (Cons b bs)
  let ?u = "ttwrite env [TCIAC, if b then yes else no, opt] t"
  have u: "ready ?u" "get ?u = b"
    "tn_sock ?u = tn_sock t @ (if b = get t then [] else [TCIAC, if b then answer_yes else answer_no, opt])"
    using command [OF Cons.prems, of b] unfolding Let_def by blast+
  have "ttwrite env (commands yes no opt (b # bs)) t = ttwrite env (commands yes no opt bs) ?u"
    by (simp add: commands_def)
  then show ?case using Cons.IH [OF u(1)] u(2,3) by (simp add: commands_def)
qed (simp add: commands_def)

end

definition tn_reads_data :: "tn \<Rightarrow> bool" where
  "tn_reads_data t \<longleftrightarrow> tn_ttstate t = TSDATA \<and> tn_ended t = None"

interpretation noga: negotiated_option env tn_noga TCWILL TCWONT TCDO TCDONT TONOGA tn_reads_data for env
  by unfold_locales (auto simp: tn_reads_data_def tt_char_def tt_steps recopt_def do_noga_def sock_putc_def Let_def)

interpretation rcvbin: negotiated_option env tn_rcvbinary TCWILL TCWONT TCDO TCDONT TOTXBINARY tn_reads_data for env
  by unfold_locales (auto simp: tn_reads_data_def tt_char_def tt_steps recopt_def do_txbinary_def sock_putc_def Let_def)

interpretation sndbin: negotiated_option env tn_sndbinary TCDO TCDONT TCWILL TCWONT TOTXBINARY tn_reads_data for env
  by unfold_locales (auto simp: tn_reads_data_def tt_char_def tt_steps recopt_def will_txbinary_def sock_putc_def Let_def)

interpretation echo: negotiated_option env tn_doecho TCWILL TCWONT TCDO TCDONT TOECHO
    "\<lambda>t. tn_reads_data t \<and> tn_tty_calls t = []" for env
  by unfold_locales
    (auto simp: tn_reads_data_def tt_char_def tt_steps recopt_def do_echo_def sock_putc_def tcsetattr_def tty_call_def Let_def)

text \<open>
  C19: for no-go-ahead and binary transmission, in each direction, and for echo while the calls on the
  terminal succeed: a series of requests for the option leaves it as the last of them asks, and what
  the client answers are exactly its changes; a request for the state it is in is not answered. (A
  request for an option that the client does not support is always answered, see
  \<open>telnet_refusals_never_end\<close>.)\<close>

theorem telnet_negotiation:
  assumes "tn_reads_data t"
  shows "(let t' = ttwrite env (commands TCWILL TCWONT TONOGA bs) t
      in tn_noga t' = last (tn_noga t # bs) \<and> tn_sock t' = tn_sock t @ commands TCDO TCDONT TONOGA (changes (tn_noga t) bs))
    \<and> (let t' = ttwrite env (commands TCWILL TCWONT TOTXBINARY bs) t
      in tn_rcvbinary t' = last (tn_rcvbinary t # bs)
        \<and> tn_sock t' = tn_sock t @ commands TCDO TCDONT TOTXBINARY (changes (tn_rcvbinary t) bs))
    \<and> (let t' = ttwrite env (commands TCDO TCDONT TOTXBINARY bs) t
      in tn_sndbinary t' = last (tn_sndbinary t # bs)
        \<and> tn_sock t' = tn_sock t @ commands TCWILL TCWONT TOTXBINARY (changes (tn_sndbinary t) bs))
    \<and> (tn_tty_calls t = [] \<longrightarrow> (let t' = ttwrite env (commands TCWILL TCWONT TOECHO bs) t
      in tn_doecho t' = last (tn_doecho t # bs) \<and> tn_sock t' = tn_sock t @ commands TCDO TCDONT TOECHO (changes (tn_doecho t) bs)))"
  using noga.negotiation [OF assms, of env bs] rcvbin.negotiation [OF assms, of env bs] sndbin.negotiation [OF assms, of env bs]
    echo.negotiation [of t env bs] assms unfolding Let_def by blast

theorem telnet_negotiation_witness:
  "\<forall>env tio. tn_noga (ttwrite env (commands TCWILL TCWONT TONOGA [True, True, False]) (tn_zero tio [])) = False
    \<and> tn_sock (ttwrite env (commands TCWILL TCWONT TONOGA [True, True, False]) (tn_zero tio []))
      = [TCIAC, TCDO, TONOGA, TCIAC, TCDONT, TONOGA]"
proof (intro allI)
  fix env tio
  show "tn_noga (ttwrite env (commands TCWILL TCWONT TONOGA [True, True, False]) (tn_zero tio [])) = False
    \<and> tn_sock (ttwrite env (commands TCWILL TCWONT TONOGA [True, True, False]) (tn_zero tio []))
      = [TCIAC, TCDO, TONOGA, TCIAC, TCDONT, TONOGA]"
    using telnet_negotiation [of "tn_zero tio []" env "[True, True, False]"]
    by (simp add: tn_reads_data_def tn_zero_def Let_def commands_def)
qed


text \<open>An option that the client does not support: every request is answered, also one to stay without it.\<close>

lemma ttwrite_notsup:
  assumes "tn_reads_data t" and "opt \<notin> {TOECHO, TONOGA, TOTXBINARY, TOTERMTYPE}"
  shows "tn_sock (ttwrite env [TCIAC, TCWONT, opt] t) = tn_sock t @ [TCIAC, TCDONT, opt]
    \<and> tn_sock (ttwrite env [TCIAC, TCDONT, opt] t) = tn_sock t @ [TCIAC, TCWONT, opt]
    \<and> tn_reads_data (ttwrite env [TCIAC, TCWONT, opt] t) \<and> tn_reads_data (ttwrite env [TCIAC, TCDONT, opt] t)"
  using assms by (simp add: tn_reads_data_def tt_char_def tt_steps recopt_def do_notsup_def will_notsup_def sock_putc_def Let_def)

text \<open>Two parties that answer each other: what each has sent after a number of answers.\<close>

fun ping_pong :: "tn_env \<Rightarrow> nat \<Rightarrow> bytes \<Rightarrow> tn \<Rightarrow> tn \<Rightarrow> tn \<times> tn" where
  "ping_pong env 0 w a b = (a, b)"
| "ping_pong env (Suc n) w a b =
     (let b' = ttwrite env w b in ping_pong env n (drop (length (tn_sock b)) (tn_sock b')) b' a)"

text \<open>
  a refusal of an option that the client does not support is answered by a refusal: two parties with
  this table answer each other without end.\<close>

theorem telnet_refusals_never_end:
  assumes "tn_reads_data a" and "tn_reads_data b" and "opt \<notin> {TOECHO, TONOGA, TOTXBINARY, TOTERMTYPE}"
    and "w = [TCIAC, TCWONT, opt] \<or> w = [TCIAC, TCDONT, opt]"
  shows "case ping_pong env n w a b of (a', b') \<Rightarrow>
    length (tn_sock a') + length (tn_sock b') = length (tn_sock a) + length (tn_sock b) + 3 * n"
  using assms
proof (induction n arbitrary: w a b)
  case (Suc n)
  define b' where "b' = ttwrite env w b"
  define w' where "w' = drop (length (tn_sock b)) (tn_sock b')"
  have sent: "tn_reads_data b' \<and> (tn_sock b' = tn_sock b @ [TCIAC, TCWONT, opt] \<or> tn_sock b' = tn_sock b @ [TCIAC, TCDONT, opt])"
    unfolding b'_def using Suc.prems(4) ttwrite_notsup [OF Suc.prems(2,3), of env] by (elim disjE) (simp_all del: ttwrite_simps)
  then have "w' = [TCIAC, TCWONT, opt] \<or> w' = [TCIAC, TCDONT, opt]" "length (tn_sock b') = length (tn_sock b) + 3"
    by (auto simp: w'_def)
  moreover have "ping_pong env (Suc n) w a b = ping_pong env n w' b' a" by (simp add: b'_def w'_def Let_def)
  ultimately show ?case
    using Suc.IH [of b' a w'] sent Suc.prems(1,3) by (simp split: prod.splits)
qed simp

theorem telnet_refusals_never_end_witness:
  "case ping_pong env 1000 [TCIAC, TCWONT, CHR 0x1F] (tn_zero tio []) (tn_zero tio []) of (a', b') \<Rightarrow>
    length (tn_sock a') + length (tn_sock b') = length (tn_sock (tn_zero tio [])) + length (tn_sock (tn_zero tio [])) + 3 * 1000"
  by (rule telnet_refusals_never_end [where opt = "CHR 0x1F"]) (simp_all add: tn_reads_data_def tn_zero_def)

subsection \<open>The terminal type\<close>

lemma ttwrite_do_termtype:
  assumes "tn_reads_data t" and "\<not> tn_termtype t" and "tn_term t = None" and "\<not> tn_rcvbinary t" and "\<not> tn_sndbinary t"
    and "en_TERM env = Some name"
  shows "ttwrite env [TCIAC, TCDO, TOTERMTYPE] t
    = t\<lparr>tn_option_cmd := TCDO, tn_rcvbinary := True, tn_sndbinary := True, tn_termtype := True, tn_term := Some name,
        tn_sock := tn_sock t @ [TCIAC, TCWILL, TOTERMTYPE] @ [TCIAC, TCDO, TOTXBINARY] @ [TCIAC, TCWILL, TOTXBINARY]\<rparr>"
  using assms
  by (cases t) (simp add: tn_reads_data_def tt_char_def tt_steps recopt_def will_termtype_def do_txbinary_def will_txbinary_def
      sock_putc_def Let_def)

lemma ttwrite_send_termtype:
  assumes "tn_reads_data t" and "tn_substate t = SS_START" and "tn_term t = Some name"
  shows "ttwrite env [TCIAC, TCSB, TOTERMTYPE, TT_SEND, TCIAC, TCSE] t
    = t\<lparr>tn_sock := tn_sock t @ [TCIAC, TCSB, TOTERMTYPE, TT_IS] @ name @ [TCIAC, TCSE]\<rparr>"
  using assms
  by (cases t) (simp add: tn_reads_data_def tt_char_def tt_steps sub_steps subopt_def subtermtype_def subend_def sock_putc_def Let_def)

text \<open>
  asked for it, the client offers its terminal type and the binary mode in both directions, and
  answers the question for it with the name in TERM.\<close>

theorem telnet_terminal_type:
  assumes "tn_reads_data t" and "tn_substate t = SS_START" and "\<not> tn_termtype t" and "tn_term t = None"
    and "\<not> tn_rcvbinary t" and "\<not> tn_sndbinary t" and "en_TERM env = Some name"
  shows "let t' = ttwrite env ([TCIAC, TCDO, TOTERMTYPE] @ [TCIAC, TCSB, TOTERMTYPE, TT_SEND, TCIAC, TCSE]) t in
    tn_sock t' = tn_sock t @ [TCIAC, TCWILL, TOTERMTYPE] @ [TCIAC, TCDO, TOTXBINARY] @ [TCIAC, TCWILL, TOTXBINARY]
      @ [TCIAC, TCSB, TOTERMTYPE, TT_IS] @ name @ [TCIAC, TCSE]
    \<and> tn_reads_data t' \<and> tn_substate t' = SS_START \<and> tn_rcvbinary t' \<and> tn_sndbinary t'"
proof -
  define t1 where "t1 = ttwrite env [TCIAC, TCDO, TOTERMTYPE] t"
  have e: "t1 = t\<lparr>tn_option_cmd := TCDO, tn_rcvbinary := True, tn_sndbinary := True, tn_termtype := True, tn_term := Some name,
      tn_sock := tn_sock t @ [TCIAC, TCWILL, TOTERMTYPE] @ [TCIAC, TCDO, TOTXBINARY] @ [TCIAC, TCWILL, TOTXBINARY]\<rparr>"
    unfolding t1_def by (rule ttwrite_do_termtype [OF assms(1,3-7)])
  then have "ttwrite env [TCIAC, TCSB, TOTERMTYPE, TT_SEND, TCIAC, TCSE] t1
      = t1\<lparr>tn_sock := tn_sock t1 @ [TCIAC, TCSB, TOTERMTYPE, TT_IS] @ name @ [TCIAC, TCSE]\<rparr>"
    using assms(1,2) by (intro ttwrite_send_termtype) (simp_all add: tn_reads_data_def)
  then show ?thesis
    using assms(1,2) unfolding ttwrite_simps(3) t1_def [symmetric] by (simp add: e Let_def tn_reads_data_def del: ttwrite_simps)
qed

theorem telnet_terminal_type_witness:
  "tn_sock (ttwrite \<lparr>en_TERM = Some ''vt100'', en_cap = \<lambda>_ _. None, en_host = ''h'', en_local_port = None,
      en_remote_port = None, en_open = \<lambda>_. False, en_error = [], en_stopped_tty = \<lambda>x. x\<rparr>
      ([TCIAC, TCDO, TOTERMTYPE] @ [TCIAC, TCSB, TOTERMTYPE, TT_SEND, TCIAC, TCSE]) (tn_zero tio []))
    = [TCIAC, TCWILL, TOTERMTYPE] @ [TCIAC, TCDO, TOTXBINARY] @ [TCIAC, TCWILL, TOTXBINARY]
      @ [TCIAC, TCSB, TOTERMTYPE, TT_IS] @ ''vt100'' @ [TCIAC, TCSE]"
  using telnet_terminal_type [of "tn_zero tio []" "\<lparr>en_TERM = Some ''vt100'', en_cap = \<lambda>_ _. None, en_host = ''h'',
      en_local_port = None, en_remote_port = None, en_open = \<lambda>_. False, en_error = [], en_stopped_tty = \<lambda>x. x\<rparr>" "''vt100''"]
  by (simp add: tn_reads_data_def tn_zero_def Let_def)

lemma ended_loop: "tn_ended t \<noteq> None \<Longrightarrow> tn_loop env evs t = t"
  by (induction evs) (auto simp: tn_loop_def)

text \<open>
  a server that asks for the terminal type without having negotiated it makes the client use a null
  pointer.\<close>

theorem telnet_unasked_subnegotiation_faults:
  "tn_ended (telnet env tio [] (Net [TCIAC, TCSB, TOTERMTYPE, TT_SEND] # evs)) = Some Fault"
proof -
  let ?t = "ttysetup (tn_zero tio [])"
  have t: "tn_reads_data ?t" "tn_substate ?t = SS_START" "tn_term ?t = None" "tn_stdin_open ?t"
    by (simp_all add: ttysetup_def tn_zero_def tn_prims tn_reads_data_def)
  then have "tn_ended (tn_round env (Net [TCIAC, TCSB, TOTERMTYPE, TT_SEND]) ?t) = Some Fault"
    by (simp add: tn_reads_data_def tt_char_def tt_steps sub_steps subopt_def subtermtype_def sock_putc_def ended_def tn_flush_def Let_def)
  then show ?thesis
    using ended_loop [of "tn_round env (Net [TCIAC, TCSB, TOTERMTYPE, TT_SEND]) ?t" env evs] t(1)
    by (simp add: telnet_def tn_loop_def tn_reads_data_def)
qed

subsection \<open>Text\<close>

definition shows_text :: "tn \<Rightarrow> bool" where
  "shows_text t \<longleftrightarrow> tn_reads_data t \<and> \<not> tn_rcvbinary t \<and> tn_synching t = 0 \<and> tn_scrfp t = None"

definition printable :: "char \<Rightarrow> bool" where
  "printable c \<longleftrightarrow> 32 \<le> (of_char c :: nat) \<and> (of_char c :: nat) < 255"

lemma printable_not_special: "printable c \<Longrightarrow> c \<noteq> CR \<and> c \<noteq> NL \<and> c \<noteq> TCIAC"
  by (auto simp: printable_def)

lemma tt_char_printable:
  assumes "shows_text t" and "printable c" and "tn_last_char t \<noteq> CR" and "tn_last_char t \<noteq> NL"
  shows "tt_char env c t = (out [c] t)\<lparr>tn_last_char := c\<rparr>"
  using assms printable_not_special [OF assms(2)] unfolding printable_def
  by (cases t) (simp add: shows_text_def tn_reads_data_def tt_char_def tt_steps ttputc_def xputc_def out_def Let_def)

lemma ttwrite_printable:
  "shows_text t \<Longrightarrow> list_all printable w \<Longrightarrow> tn_last_char t \<noteq> CR \<Longrightarrow> tn_last_char t \<noteq> NL \<Longrightarrow>
    ttwrite env w t = (out w t)\<lparr>tn_last_char := last (tn_last_char t # w)\<rparr>
    \<and> last (tn_last_char t # w) \<noteq> CR \<and> last (tn_last_char t # w) \<noteq> NL"
proof (induction w arbitrary: t)
  case (Cons c w)
  have "shows_text ((out [c] t)\<lparr>tn_last_char := c\<rparr>)" using Cons.prems(1) by (simp add: shows_text_def tn_reads_data_def out_def)
  from Cons.IH [OF this] Cons.prems show ?case
    using tt_char_printable [of t c env] printable_not_special [of c] by (auto simp: out_def)
qed (simp add: out_def)

lemma ttwrite_crlf:
  assumes "shows_text t" and "tn_last_char t \<noteq> CR" and "tn_last_char t \<noteq> NL"
  shows "ttwrite env [CR, NL] t = (out [NL] t)\<lparr>tn_last_char := CHR 0x00\<rparr>"
  using assms
  by (cases t) (simp add: shows_text_def tn_reads_data_def tt_char_def tt_steps ttputc_def xputc_def out_def nvt_cap_def Let_def)

text \<open>
  lines of printable characters that end with CR LF are displayed as lines, whatever the terminal.\<close>

theorem telnet_shows_lines:
  assumes "shows_text t" and "tn_last_char t \<noteq> CR" and "tn_last_char t \<noteq> NL" and "list_all (list_all printable) ls"
  shows "tn_out (ttwrite env (concat (map (\<lambda>l. l @ [CR, NL]) ls)) t) = tn_out t @ concat (map (\<lambda>l. l @ [NL]) ls)"
  using assms
proof (induction ls arbitrary: t)
  case (Cons l ls)
  let ?t1 = "(out l t)\<lparr>tn_last_char := last (tn_last_char t # l)\<rparr>"
  have t1: "ttwrite env l t = ?t1" "tn_last_char ?t1 \<noteq> CR" "tn_last_char ?t1 \<noteq> NL"
    using ttwrite_printable [OF Cons.prems(1) _ Cons.prems(2,3), of l env] Cons.prems(4) by auto
  have "shows_text ?t1" using Cons.prems(1) by (simp add: shows_text_def tn_reads_data_def out_def)
  then have t2: "ttwrite env [CR, NL] ?t1 = (out [NL] ?t1)\<lparr>tn_last_char := CHR 0x00\<rparr>" using t1 by (intro ttwrite_crlf)
  define t2 where "t2 = (out [NL] ?t1)\<lparr>tn_last_char := CHR 0x00\<rparr>"
  have "shows_text t2" "tn_last_char t2 = CHR 0x00" "tn_out t2 = tn_out t @ l @ [NL]"
    using Cons.prems(1) by (simp_all add: shows_text_def tn_reads_data_def out_def t2_def)
  moreover have "ttwrite env (concat (map (\<lambda>l. l @ [CR, NL]) (l # ls))) t = ttwrite env (concat (map (\<lambda>l. l @ [CR, NL]) ls)) t2"
    using t2 by (simp only: list.map concat.simps ttwrite_simps(3) t1(1) t2_def)
  ultimately show ?case using Cons.IH [of t2] Cons.prems(4) by simp
qed simp

theorem telnet_shows_lines_witness:
  "tn_out (ttwrite env (concat (map (\<lambda>l. l @ [CR, NL]) [''login:'', ''''])) (tn_zero tio []))
    = tn_out (tn_zero tio []) @ concat (map (\<lambda>l. l @ [NL]) [''login:'', ''''])"
  by (rule telnet_shows_lines) (simp_all add: shows_text_def tn_reads_data_def tn_zero_def printable_def)

text \<open>
  a carriage return that no line feed follows is lost on a terminal without the capability cr.\<close>

theorem telnet_bare_return_is_lost:
  assumes "shows_text t" and "tn_last_char t \<noteq> CR" and "tn_last_char t \<noteq> NL" and "printable c" and "en_TERM env = None"
  shows "tn_out (ttwrite env [CR, c] t) = tn_out t @ [c]"
  using assms printable_not_special [OF assms(4)] unfolding printable_def
  by (simp add: shows_text_def tn_reads_data_def tt_char_def tt_steps ttputc_def xputc_def out_def nvt_cap_def tcout_def Let_def)

theorem telnet_bare_return_is_lost_witness:
  "tn_out (ttwrite \<lparr>en_TERM = None, en_cap = \<lambda>_ _. None, en_host = ''h'', en_local_port = None,
      en_remote_port = None, en_open = \<lambda>_. False, en_error = [], en_stopped_tty = \<lambda>x. x\<rparr> [CR, CHR ''x''] (tn_zero tio []))
    = tn_out (tn_zero tio []) @ ''x''"
  by (rule telnet_bare_return_is_lost) (simp_all add: shows_text_def tn_reads_data_def tn_zero_def printable_def)


subsection \<open>Urgent data\<close>

definition data_or_mark :: "bytes \<Rightarrow> bool" where
  "data_or_mark w \<longleftrightarrow> w = [TCIAC, TCDM] \<or> (\<exists>c. w = [c] \<and> c \<noteq> TCIAC)"

lemma tn_loop_Cons: "tn_ended t = None \<Longrightarrow> tn_loop env (ev # evs) t = tn_loop env evs (tn_round env ev t)"
  by (simp add: tn_loop_def)

lemma tn_loop_urgent: "tn_ended t = None \<Longrightarrow> tn_loop env (replicate n Urgent) t = t\<lparr>tn_synching := tn_synching t + of_nat n\<rparr>"
proof (induction n arbitrary: t)
  case (Suc n)
  have "tn_loop env (replicate (Suc n) Urgent) t = tn_loop env (replicate n Urgent) (rcvurg t)"
    using Suc.prems by (simp add: tn_loop_Cons)
  also have "\<dots> = (rcvurg t)\<lparr>tn_synching := tn_synching (rcvurg t) + of_nat n\<rparr>"
    using Suc.prems by (intro Suc.IH) (simp add: rcvurg_def)
  finally show ?case by (simp add: rcvurg_def add.assoc)
qed (simp add: tn_loop_def)

text \<open>With a counter that is not zero text is discarded; with one that is negative it stays what it is.\<close>

lemma ttwrite_synching:
  assumes "tn_reads_data t" and "\<not> tn_rcvbinary t" and "sint (tn_synching t) < 0"
  shows "list_all data_or_mark ws \<Longrightarrow> ttwrite env (concat ws) t = t"
proof (induction ws)
  case (Cons w ws)
  have "tn_synching t \<noteq> 0" using assms(3) by auto
  moreover have "data_or_mark w" using Cons.prems by simp
  ultimately have "ttwrite env w t = t"
    using assms by (cases t) (auto simp: data_or_mark_def tn_reads_data_def tt_char_def tt_steps tcdm_def ttputc_def)
  then show ?case using Cons by simp
qed simp

text \<open>
  the counter of urgent data has 8 bits with a sign: after 128 signals without a data mark it is
  negative, no data mark counts it down any more, and text is never displayed again.\<close>

theorem telnet_urgent_counter_sticks:
  assumes "tn_reads_data t" and "\<not> tn_rcvbinary t" and "tn_synching t = 0" and "tn_stdin_open t"
    and "list_all data_or_mark ws"
  shows "tn_loop env (replicate 128 Urgent @ [Net (concat ws)]) t = t\<lparr>tn_synching := 128\<rparr>"
proof -
  let ?t = "t\<lparr>tn_synching := 128\<rparr>"
  have u: "tn_loop env (replicate 128 Urgent) t = ?t"
    using tn_loop_urgent [of t env 128] assms(1,3) by (simp add: tn_reads_data_def)
  have neg: "sint (128 :: 8 word) < 0" by code_simp
  have "ttwrite env (concat ws) ?t = ?t"
    by (rule ttwrite_synching) (use assms(1,2,5) neg in \<open>auto simp: tn_reads_data_def simp del: sint_numeral\<close>)
  then have "tn_loop env [Net (concat ws)] ?t = ?t"
    using assms(1,4) by (simp add: tn_loop_def tn_reads_data_def tn_flush_def)
  moreover have "tn_loop env (evs @ evs') t = tn_loop env evs' (tn_loop env evs t)" for evs evs'
    by (simp add: tn_loop_def)
  ultimately show ?thesis using u by simp
qed

theorem telnet_urgent_counter_sticks_witness:
  "tn_loop env (replicate 128 Urgent @ [Net (concat (replicate 200 [TCIAC, TCDM] @ [''x'']))]) (tn_zero tio [])
    = (tn_zero tio [])\<lparr>tn_synching := 128\<rparr>"
  by (rule telnet_urgent_counter_sticks) (simp_all add: tn_reads_data_def tn_zero_def data_or_mark_def list_all_iff)


text \<open>
  after the end of the keyboard input the connection is half closed, and a request of the server
  that has to be answered kills the client, with its modes left on the terminal.\<close>

theorem telnet_answer_after_eof_kills:
  assumes "opt \<notin> {TOECHO, TONOGA, TOTXBINARY, TOTERMTYPE}"
  shows "let t = telnet env tio [] [Key_eof, Net [TCIAC, TCWILL, opt]] in
    tn_ended t = Some Sigpipe \<and> tn_sock t = [] \<and> tn_tty t = tio\<lparr>ti_intr := VDISABLE, ti_quit := VDISABLE, ti_susp := VDISABLE\<rparr>"
  using assms
  by (simp add: telnet_def tn_loop_def ttysetup_def tn_zero_def tty_call_def tcsetattr_def tt_char_def tt_steps recopt_def
      do_notsup_def sock_putc_def tn_flush_def tn_stdin_def ended_def Let_def)

theorem telnet_answer_after_eof_kills_witness:
  "tn_ended (telnet env tio [] [Key_eof, Net [TCIAC, TCWILL, CHR 0x05]]) = Some Sigpipe"
  using telnet_answer_after_eof_kills [of "CHR 0x05" env tio] by (simp add: Let_def)

end
