(* ===== verification/Rtp_Queue.thy ===== *)
theory Rtp_Queue
  imports Prelude
begin

text \<open>
  The packet queue of the RTP library (Internetworking.With.TCP.IP/v3.linux/rtp/rtpqueue.c): a
  doubly linked list through the packets themselves, in a store of nodes. The queue of the stream
  refines a list of packets that is sorted by extended sequence number.
\<close>

subsection \<open>Packets and the linked list\<close>

text \<open>The fields of an RTP packet, in host byte order, and the node that holds it.\<close>

record rtp =
  rtp_cc :: nat
  rtp_ver :: nat
  rtp_payload :: nat
  rtp_mark :: bool
  rtp_seq :: "16 word"
  rtp_time :: u32
  rtp_ssrc :: u32

record rtpln =
  rln_len :: int
  rln_seq :: u32
  rln_next :: "nat option"
  rln_prev :: "nat option"
  rln_rtp :: rtp

record rtpq =
  rq_nodes :: "nat \<Rightarrow> rtpln"
  rq_head :: "nat option"
  rq_tail :: "nat option"

definition set_next :: "nat \<Rightarrow> nat option \<Rightarrow> rtpq \<Rightarrow> rtpq" where
  "set_next i v q = q\<lparr>rq_nodes := (rq_nodes q)(i := (rq_nodes q i)\<lparr>rln_next := v\<rparr>)\<rparr>"

definition set_prev :: "nat \<Rightarrow> nat option \<Rightarrow> rtpq \<Rightarrow> rtpq" where
  "set_prev i v q = q\<lparr>rq_nodes := (rq_nodes q)(i := (rq_nodes q i)\<lparr>rln_prev := v\<rparr>)\<rparr>"

definition rtpqdequeue :: "rtpq \<Rightarrow> nat option \<times> rtpq" where
  "rtpqdequeue q =
     (case rq_head q of
        None \<Rightarrow> (None, q)
      | Some pln \<Rightarrow>
          (Some pln,
           case rln_prev (rq_nodes q pln) of
             Some p \<Rightarrow> set_next p None (q\<lparr>rq_head := Some p\<rparr>)
           | None \<Rightarrow> q\<lparr>rq_head := None, rq_tail := None\<rparr>))"

text \<open>The loop of \<open>rtpqinsert\<close>: \<open>p\<close> and \<open>q\<close> when it ends.\<close>

partial_function (option) rtpq_walk :: "u32 \<Rightarrow> (nat \<Rightarrow> rtpln) \<Rightarrow> nat option \<Rightarrow> nat option \<Rightarrow> (nat option \<times> nat option) option" where
  "rtpq_walk s ns p q =
     (case p of
        None \<Rightarrow> Some (None, q)
      | Some i \<Rightarrow> if rln_seq (ns i) > s then rtpq_walk s ns (rln_next (ns i)) (Some i) else Some (Some i, q))"

definition rtpqinsert :: "nat \<Rightarrow> rtpq \<Rightarrow> (bool \<times> rtpq) option" where
  "rtpqinsert pln rq =
     (case rtpq_walk (rln_seq (rq_nodes rq pln)) (rq_nodes rq) (rq_tail rq) None of
        None \<Rightarrow> None
      | Some (p, q) \<Rightarrow>
          let r1 = (case q of Some j \<Rightarrow> set_next j (Some pln) rq | None \<Rightarrow> rq\<lparr>rq_tail := Some pln\<rparr>);
              r2 = set_prev pln q r1;
              r3 = (case p of Some i \<Rightarrow> set_prev i (Some pln) r2 | None \<Rightarrow> r2\<lparr>rq_head := Some pln\<rparr>);
              r4 = set_next pln p r3
          in Some (rq_head r4 = Some pln, r4))"

subsection \<open>The list that the queue represents\<close>

text \<open>
  A stretch of the list, from the lowest sequence number: \<open>b\<close> comes before it and \<open>a\<close> after it.
\<close>

fun linked :: "(nat \<Rightarrow> rtpln) \<Rightarrow> nat option \<Rightarrow> nat list \<Rightarrow> nat option \<Rightarrow> bool" where
  "linked ns b [] a = True"
| "linked ns b (x # xs) a =
     (rln_next (ns x) = b \<and> rln_prev (ns x) = (case xs of [] \<Rightarrow> a | y # _ \<Rightarrow> Some y) \<and> linked ns (Some x) xs a)"

lemma linked_Cons: "linked ns b (x # xs) a \<longleftrightarrow> rln_next (ns x) = b \<and> rln_prev (ns x) = first_of xs a \<and> linked ns (Some x) xs a"
  by (simp add: first_of_def)

declare linked.simps(2) [simp del]

lemma linked_append: "linked ns b (xs @ ys) a \<longleftrightarrow> linked ns b xs (first_of ys a) \<and> linked ns (last_of xs b) ys a"
  by (induction xs arbitrary: b) (auto simp: linked_Cons last_of_Cons first_of_def split: list.split)

lemma linked_frame: "(\<And>x. x \<in> set xs \<Longrightarrow> ns' x = ns x) \<Longrightarrow> linked ns' b xs a = linked ns b xs a"
  by (induction xs arbitrary: b) (simp_all add: linked_Cons)

definition queue_of :: "rtpq \<Rightarrow> nat list \<Rightarrow> bool" where
  "queue_of q xs \<longleftrightarrow> distinct xs \<and> linked (rq_nodes q) None xs None
     \<and> rq_head q = first_of xs None \<and> rq_tail q = last_of xs None"

definition rtp_sorted :: "(nat \<Rightarrow> rtpln) \<Rightarrow> nat list \<Rightarrow> bool" where
  "rtp_sorted ns xs \<longleftrightarrow> sorted (map (\<lambda>i. rln_seq (ns i)) xs)"

text \<open>What the queue promises: a packet goes behind those with at most its sequence number.\<close>

definition put_packet :: "(nat \<Rightarrow> rtpln) \<Rightarrow> nat \<Rightarrow> nat list \<Rightarrow> nat list" where
  "put_packet ns i xs =
     takeWhile (\<lambda>x. rln_seq (ns x) \<le> rln_seq (ns i)) xs @ i # dropWhile (\<lambda>x. rln_seq (ns x) \<le> rln_seq (ns i)) xs"

lemma walk_last:
  "linked ns None (xs @ ys) a \<Longrightarrow> \<forall>x \<in> set ys. s < rln_seq (ns x) \<Longrightarrow> (xs \<noteq> [] \<longrightarrow> rln_seq (ns (last xs)) \<le> s) \<Longrightarrow>
    rtpq_walk s ns (last_of (xs @ ys) None) q = Some (last_of xs None, first_of ys q)"
proof (induction ys arbitrary: a q rule: rev_induct)
  case Nil
  then show ?case by (subst rtpq_walk.simps) (auto simp: last_of_def)
next
  case (snoc y ys)
  have l: "linked ns None ((xs @ ys) @ [y]) a" using snoc.prems(1) by simp
  then have "rln_next (ns y) = last_of (xs @ ys) None" "linked ns None (xs @ ys) (Some y)"
    unfolding linked_append [of _ _ "xs @ ys"] by (simp_all add: linked_Cons)
  moreover have "last_of (xs @ ys @ [y]) None = Some y" by (simp add: last_of_def)
  moreover have "s < rln_seq (ns y)" using snoc.prems(2) by simp
  ultimately show ?case
    using snoc.IH [of "Some y" "Some y"] snoc.prems(2,3) by (subst rtpq_walk.simps) (simp add: first_of_append)
qed

lemma relink_first:
  "linked ns b vs a \<Longrightarrow> vs \<noteq> [] \<Longrightarrow> \<forall>x \<in> set (tl vs). ns' x = ns x \<Longrightarrow> rln_next (ns' (hd vs)) = b' \<Longrightarrow>
    rln_prev (ns' (hd vs)) = rln_prev (ns (hd vs)) \<Longrightarrow> linked ns' b' vs a"
  using linked_frame [of "tl vs" ns' ns "Some (hd vs)" a] by (cases vs) (auto simp: linked_Cons)

lemma relink_last:
  "linked ns b (us @ [u]) a \<Longrightarrow> \<forall>x \<in> set us. ns' x = ns x \<Longrightarrow> rln_next (ns' u) = rln_next (ns u) \<Longrightarrow>
    rln_prev (ns' u) = a' \<Longrightarrow> linked ns' b (us @ [u]) a'"
  using linked_frame [of us ns' ns b "Some u"] by (simp add: linked_append linked_Cons)

lemma queue_of_insert:
  assumes "queue_of q (us @ vs)" and "pln \<notin> set (us @ vs)"
    and "us \<noteq> [] \<longrightarrow> rln_seq (rq_nodes q (last us)) \<le> rln_seq (rq_nodes q pln)"
    and "\<forall>x \<in> set vs. rln_seq (rq_nodes q pln) < rln_seq (rq_nodes q x)"
  shows "\<exists>q'. rtpqinsert pln q = Some (us = [], q') \<and> queue_of q' (us @ pln # vs)
    \<and> (\<forall>x. rln_seq (rq_nodes q' x) = rln_seq (rq_nodes q x) \<and> rln_rtp (rq_nodes q' x) = rln_rtp (rq_nodes q x)
         \<and> rln_len (rq_nodes q' x) = rln_len (rq_nodes q x))"
proof -
  have q: "distinct (us @ vs)" "linked (rq_nodes q) None us (first_of vs None)" "linked (rq_nodes q) (last_of us None) vs None"
    "rq_head q = first_of (us @ vs) None" "rq_tail q = last_of (us @ vs) None"
    "linked (rq_nodes q) None (us @ vs) None"
    using assms(1) by (simp_all add: queue_of_def linked_append)
  have walk: "rtpq_walk (rln_seq (rq_nodes q pln)) (rq_nodes q) (rq_tail q) None = Some (last_of us None, first_of vs None)"
    using walk_last [OF q(6) assms(4,3)] q(5) by simp
  define q' where "q' = snd (the (rtpqinsert pln q))"
  have ins: "rtpqinsert pln q = Some (rq_head q' = Some pln, q')"
    by (simp add: q'_def rtpqinsert_def walk Let_def)
  have apart: "last_of us None \<noteq> Some pln" "first_of vs None \<noteq> Some pln"
    using assms(2) by (auto simp: last_of_def first_of_def split: list.split)
  have apart': "first_of vs None \<noteq> Some x" if "last_of us None = Some x" for x
    using that q(1) by (cases vs) (auto simp: last_of_def split: if_splits)
  have fun_q': "rq_nodes q' x =
      (if x = pln then (rq_nodes q x)\<lparr>rln_next := last_of us None, rln_prev := first_of vs None\<rparr>
       else if first_of vs None = Some x then (rq_nodes q x)\<lparr>rln_next := Some pln\<rparr>
       else if last_of us None = Some x then (rq_nodes q x)\<lparr>rln_prev := Some pln\<rparr>
       else rq_nodes q x)" for x
    using apart apart'
    by (cases "last_of us None"; cases "first_of vs None")
      (simp_all add: q'_def rtpqinsert_def walk Let_def set_next_def set_prev_def)
  have nodes12: "rln_next (rq_nodes q' pln) = last_of us None" "rln_prev (rq_nodes q' pln) = first_of vs None"
    by (simp_all add: fun_q')
  have nodes3: "rln_next (rq_nodes q' v) = Some pln \<and> rln_prev (rq_nodes q' v) = rln_prev (rq_nodes q v)"
    if "first_of vs None = Some v" for v
    using that apart(2) by (auto simp: fun_q')
  have nodes4: "rln_prev (rq_nodes q' u) = Some pln \<and> rln_next (rq_nodes q' u) = rln_next (rq_nodes q u)"
    if "last_of us None = Some u" for u
    using that apart(1) apart' [OF that] by (auto simp: fun_q')
  have nodes5: "rq_nodes q' x = rq_nodes q x" if "x \<noteq> pln" "last_of us None \<noteq> Some x" "first_of vs None \<noteq> Some x" for x
    using that by (simp add: fun_q')
  have keep: "rln_seq (rq_nodes q' x) = rln_seq (rq_nodes q x) \<and> rln_rtp (rq_nodes q' x) = rln_rtp (rq_nodes q x)
      \<and> rln_len (rq_nodes q' x) = rln_len (rq_nodes q x)" for x
    by (simp add: fun_q')
  have ends: "rq_head q' = first_of (us @ [pln]) None" "rq_tail q' = last_of (pln # vs) None"
  proof -
    have h: "rq_head q' = (case last_of us None of Some i \<Rightarrow> rq_head q | None \<Rightarrow> Some pln)"
      and t: "rq_tail q' = (case first_of vs None of Some j \<Rightarrow> rq_tail q | None \<Rightarrow> Some pln)"
      by (simp_all add: q'_def rtpqinsert_def walk Let_def set_next_def set_prev_def split: option.split)
    show "rq_head q' = first_of (us @ [pln]) None" using h q(4) by (cases us) (simp_all add: last_of_Cons last_of_def)
    show "rq_tail q' = last_of (pln # vs) None" using t q(5) by (cases vs) (simp_all add: last_of_def)
  qed
  have "linked (rq_nodes q') None us (Some pln)"
  proof (cases us rule: rev_cases)
    case (snoc us' u)
    have "\<forall>x \<in> set us'. rq_nodes q' x = rq_nodes q x"
    proof
      fix x assume x: "x \<in> set us'"
      then show "rq_nodes q' x = rq_nodes q x"
        using snoc assms(2) q(1) by (intro nodes5) (cases vs; auto)+
    qed
    then show ?thesis using relink_last [of "rq_nodes q" None us' u "first_of vs None"] q(2) nodes4 [of u] snoc by simp
  qed simp
  moreover have "linked (rq_nodes q') (Some pln) vs None"
  proof (cases vs)
    case (Cons v vs')
    have "\<forall>x \<in> set vs'. rq_nodes q' x = rq_nodes q x"
    proof
      fix x assume x: "x \<in> set vs'"
      then show "rq_nodes q' x = rq_nodes q x"
        using Cons assms(2) q(1) by (intro nodes5) (cases us rule: rev_cases; auto)+
    qed
    then show ?thesis using relink_first [of "rq_nodes q" _ vs None "rq_nodes q'"] q(3) nodes3 [of v] Cons by simp
  qed simp
  ultimately have "queue_of q' (us @ pln # vs)"
    using q(1) assms(2) nodes12 ends by (auto simp: queue_of_def linked_append linked_Cons first_of_append last_of_Cons last_of_append)
  moreover have "(rq_head q' = Some pln) = (us = [])"
    using ends(1) assms(2) by (cases us) auto
  ultimately show ?thesis using ins keep by auto
qed

lemma sorted_split:
  assumes "rtp_sorted ns xs"
  shows "\<forall>x \<in> set (dropWhile (\<lambda>x. rln_seq (ns x) \<le> s) xs). s < rln_seq (ns x)"
proof
  fix x assume x: "x \<in> set (dropWhile (\<lambda>x. rln_seq (ns x) \<le> s) xs)"
  then obtain y ys where y: "dropWhile (\<lambda>x. rln_seq (ns x) \<le> s) xs = y # ys" "\<not> rln_seq (ns y) \<le> s"
    by (cases "dropWhile (\<lambda>x. rln_seq (ns x) \<le> s) xs") (auto dest: dropWhile_eq_Cons_conv [THEN iffD1])
  have "sorted (map (\<lambda>i. rln_seq (ns i)) (y # ys))"
    using assms sorted_wrt_dropWhile [of "(\<le>)"] y(1) unfolding rtp_sorted_def sorted_map
    by (metis sorted_wrt_dropWhile)
  then show "s < rln_seq (ns x)" using x y by auto
qed

lemma queue_of_dequeue:
  assumes "queue_of q xs" and "rtp_sorted (rq_nodes q) xs"
  shows "\<exists>q'. rtpqdequeue q = (first_of xs None, q') \<and> queue_of q' (tl xs) \<and> rtp_sorted (rq_nodes q') (tl xs)"
proof (cases xs)
  case Nil
  then show ?thesis using assms by (simp add: queue_of_def rtpqdequeue_def)
next
  case (Cons x ys)
  have q: "distinct (x # ys)" "rln_prev (rq_nodes q x) = first_of ys None" "linked (rq_nodes q) (Some x) ys None"
    "rq_head q = Some x" "rq_tail q = last_of ys (Some x)"
    using assms(1) Cons by (simp_all add: queue_of_def linked_Cons last_of_Cons)
  show ?thesis
  proof (cases ys)
    case Nil
    then show ?thesis using q Cons by (simp add: queue_of_def rtpqdequeue_def rtp_sorted_def)
  next
    case (Cons y zs)
    let ?q' = "set_next y None (q\<lparr>rq_head := Some y\<rparr>)"
    have "rtpqdequeue q = (Some x, ?q')" using q(2,4) Cons by (simp add: rtpqdequeue_def)
    moreover have "linked (rq_nodes ?q') None ys None"
      using q(1) Cons by (intro relink_first [OF q(3)]) (auto simp: set_next_def)
    moreover have "rtp_sorted (rq_nodes ?q') ys"
    proof -
      have "map (\<lambda>i. rln_seq (rq_nodes ?q' i)) ys = map (\<lambda>i. rln_seq (rq_nodes q i)) ys" by (auto simp: set_next_def)
      then show ?thesis using assms(2) \<open>xs = x # ys\<close> unfolding rtp_sorted_def by (metis list.simps(9) sorted_simps(2))
    qed
    ultimately show ?thesis
      using q(1,5) Cons \<open>xs = x # ys\<close> by (auto simp: queue_of_def set_next_def last_of_Cons)
  qed
qed

lemma rtpqinsert_keeps_seq:
  "rtpqinsert pln q = Some (b, q') \<Longrightarrow> rln_seq (rq_nodes q' x) = rln_seq (rq_nodes q x)
    \<and> rln_rtp (rq_nodes q' x) = rln_rtp (rq_nodes q x) \<and> rln_len (rq_nodes q' x) = rln_len (rq_nodes q x)"
  by (auto simp: rtpqinsert_def set_next_def set_prev_def Let_def split: option.splits prod.splits)

lemma rtpqinsert_refines:
  assumes "queue_of q xs" and "rtp_sorted (rq_nodes q) xs" and "pln \<notin> set xs"
  shows "\<exists>q'. rtpqinsert pln q = Some (put_packet (rq_nodes q) pln xs ! 0 = pln, q')
      \<and> queue_of q' (put_packet (rq_nodes q) pln xs) \<and> rtp_sorted (rq_nodes q') (put_packet (rq_nodes q) pln xs)"
proof -
  let ?ns = "rq_nodes q" and ?le = "\<lambda>x. rln_seq (rq_nodes q x) \<le> rln_seq (rq_nodes q pln)"
  define us vs where "us = takeWhile ?le xs" and "vs = dropWhile ?le xs"
  have xs: "xs = us @ vs" by (simp add: us_def vs_def)
  have us: "us \<noteq> [] \<longrightarrow> ?le (last us)" unfolding us_def using last_in_set set_takeWhileD by fastforce
  have vs: "\<forall>x \<in> set vs. rln_seq (?ns pln) < rln_seq (?ns x)"
    unfolding vs_def by (rule sorted_split [OF assms(2)])
  obtain q' where q': "rtpqinsert pln q = Some (us = [], q')" "queue_of q' (us @ pln # vs)"
    "\<forall>x. rln_seq (rq_nodes q' x) = rln_seq (?ns x)"
    using queue_of_insert [of q us vs pln] assms(1,3) us vs xs by auto
  have le: "\<forall>x \<in> set us. ?le x" unfolding us_def using set_takeWhileD by fastforce
  have "rtp_sorted (rq_nodes q') (us @ pln # vs)"
    using assms(2) vs le q'(3) unfolding rtp_sorted_def xs by (auto simp: sorted_append less_imp_le)
  moreover have "(put_packet ?ns pln xs ! 0 = pln) = (us = [])"
    using assms(3) xs unfolding put_packet_def us_def [symmetric] vs_def [symmetric] by (cases us) auto
  ultimately show ?thesis using q'(1,2) unfolding put_packet_def us_def [symmetric] vs_def [symmetric] by auto
qed

text \<open>
  the doubly linked list of packets refines a list: inserting a packet puts it behind all that have
  at most its extended sequence number and keeps the list sorted, and reports whether it has become
  the first; the first packet is what is taken out.\<close>

theorem rtp_queue_refines_list:
  assumes "queue_of q xs" and "rtp_sorted (rq_nodes q) xs" and "pln \<notin> set xs"
  shows "(\<exists>q'. rtpqinsert pln q = Some (put_packet (rq_nodes q) pln xs ! 0 = pln, q')
      \<and> queue_of q' (put_packet (rq_nodes q) pln xs) \<and> rtp_sorted (rq_nodes q') (put_packet (rq_nodes q) pln xs))
    \<and> (\<exists>q'. rtpqdequeue q = (first_of xs None, q') \<and> queue_of q' (tl xs) \<and> rtp_sorted (rq_nodes q') (tl xs))"
  using rtpqinsert_refines [OF assms] queue_of_dequeue [OF assms(1,2)] by blast

theorem rtp_queue_refines_list_witness:
  "\<forall>ns. \<exists>q'. rtpqdequeue \<lparr>rq_nodes = ns, rq_head = None, rq_tail = None\<rparr> = (None, q') \<and> queue_of q' []"
proof (intro allI)
  fix ns
  show "\<exists>q'. rtpqdequeue \<lparr>rq_nodes = ns, rq_head = None, rq_tail = None\<rparr> = (None, q') \<and> queue_of q' []"
    using rtp_queue_refines_list [of "\<lparr>rq_nodes = ns, rq_head = None, rq_tail = None\<rparr>" "[]" 0]
    by (auto simp: queue_of_def rtp_sorted_def)
qed

end
