(* ===== verification/Rtp.thy ===== *)
theory Rtp
  imports Rtp_Queue Survey Complex_Main "HOL-Library.Signed_Division"
begin

unbundle bit_operations_syntax

text \<open>
  The RTP library of Internetworking.With.TCP.IP/v3.linux/rtp: reception of a stream (rtpseq.c,
  rtpupdate.c, rtpnewdata.c, rtprecv.c), playback (playaudio.c) and the farewell (rtcpheader.c,
  rtcpsendbye.c). A time is in microseconds; \<open>tv2lin\<close>,
  which the sources only call, is a parameter; \<open>double\<close> is read as a real number. The threads that
  receive and play interleave between the operations that they do under a mutex: the queue has one of
  its own, so that packets can be inserted while the player holds the one it has taken out.
\<close>

subsection \<open>State\<close>

definition RTP_CURRVERS :: nat where "RTP_CURRVERS = 2"
definition RTP_MINHDRLEN :: int where "RTP_MINHDRLEN = 12"
definition RTP_MINSEQUENTIAL :: nat where "RTP_MINSEQUENTIAL = 2"
definition RTP_JITTHRESH :: int where "RTP_JITTHRESH = 8000"
definition RTP_LEEWAY :: u32 where "RTP_LEEWAY = 400"
definition RTP_INACTTHRESH :: int where "RTP_INACTTHRESH = 5"
definition PCMMU_CLKRT :: int where "PCMMU_CLKRT = 8000"
definition RTP_MAXDROPOUT :: int where "RTP_MAXDROPOUT = 3000"
definition RTP_MAXMISORDER :: int where "RTP_MAXMISORDER = 100"
definition RTP_SEQMOD :: int where "RTP_SEQMOD = 65536"

lemmas rtp_consts = RTP_CURRVERS_def RTP_MINHDRLEN_def RTP_MINSEQUENTIAL_def RTP_JITTHRESH_def RTP_LEEWAY_def
  RTP_INACTTHRESH_def PCMMU_CLKRT_def RTP_MAXDROPOUT_def RTP_MAXMISORDER_def RTP_SEQMOD_def

record stream =
  stm_ssrc :: u32
  stm_q :: rtpq
  stm_buffering :: bool
  stm_clkx :: int
  stm_clky :: u32
  stm_jitter :: real
  stm_inactive :: int
  stm_packets :: int
  stm_probation :: nat
  stm_firstseq :: "16 word"
  stm_hiseq :: "16 word"
  stm_badseq :: int
  stm_roll :: int
  stm_recprior :: int
  stm_expprior :: int
  stm_lastts :: u32
  stm_lastrec :: int
  stm_ntp :: "u32 \<times> u32"
  stm_lastsr :: int

text \<open>The session, with the stream and the control messages that have been sent.\<close>

record rtp_session =
  sn_ssrc :: u32
  sn_detected :: bool
  sn_avgrtcp :: int
  sn_stm :: stream
  sn_sent :: "bytes list"
  sn_exited :: bool

text \<open>The state that \<open>rtpinit\<close> leaves, with the random number it draws.\<close>

definition rtpinit :: "u32 \<Rightarrow> (nat \<Rightarrow> rtpln) \<Rightarrow> rtp_session" where
  "rtpinit random ns =
     \<lparr>sn_ssrc = random, sn_detected = False, sn_avgrtcp = 0,
      sn_stm = \<lparr>stm_ssrc = 0, stm_q = \<lparr>rq_nodes = ns, rq_head = None, rq_tail = None\<rparr>, stm_buffering = True,
        stm_clkx = 0, stm_clky = 0, stm_jitter = 0, stm_inactive = 0, stm_packets = 0, stm_probation = RTP_MINSEQUENTIAL,
        stm_firstseq = 0, stm_hiseq = 0, stm_badseq = 0, stm_roll = 0, stm_recprior = 0, stm_expprior = 0, stm_lastts = 0,
        stm_lastrec = 0, stm_ntp = (0, 0), stm_lastsr = 0\<rparr>,
      sn_sent = [], sn_exited = False\<rparr>"

subsection \<open>Sequence numbers\<close>

definition rtpinitseq :: "16 word \<Rightarrow> stream \<Rightarrow> stream" where
  "rtpinitseq seq s =
     s\<lparr>stm_firstseq := seq, stm_hiseq := seq, stm_roll := 0, stm_packets := 0, stm_recprior := 0, stm_expprior := 0\<rparr>"

definition rtpupdateseq :: "16 word \<Rightarrow> stream \<Rightarrow> bool \<times> stream" where
  "rtpupdateseq seq s =
     (let udelta = seq - stm_hiseq s in
      if stm_probation s \<noteq> 0
      then if uint seq = uint (stm_hiseq s) + 1
           then let s1 = s\<lparr>stm_probation := stm_probation s - 1, stm_hiseq := seq\<rparr>
                in if stm_probation s1 = 0 then (True, rtpinitseq seq s1) else (False, s1)
           else (False, s\<lparr>stm_probation := RTP_MINSEQUENTIAL - 1, stm_hiseq := seq\<rparr>)
      else if uint udelta < RTP_MAXDROPOUT
      then (True, s\<lparr>stm_roll := (if seq < stm_hiseq s then stm_roll s + 1 else stm_roll s), stm_hiseq := seq\<rparr>)
      else if uint udelta \<le> RTP_SEQMOD - RTP_MAXMISORDER
      then (True, if uint seq = stm_badseq s then rtpinitseq seq s else s)
      else (False, s\<lparr>stm_badseq := (uint seq + 1) mod RTP_SEQMOD\<rparr>))"

text \<open>A series of packets, by their sequence numbers: which of them are accepted.\<close>

fun rtp_feed :: "16 word list \<Rightarrow> stream \<Rightarrow> bool list \<times> stream" where
  "rtp_feed [] s = ([], s)"
| "rtp_feed (x # xs) s =
     (case rtpupdateseq x s of (ok, s1) \<Rightarrow> (case rtp_feed xs s1 of (oks, s2) \<Rightarrow> (ok # oks, s2)))"

definition ext_seq :: "stream \<Rightarrow> int" where
  "ext_seq s = stm_roll s * RTP_SEQMOD + uint (stm_hiseq s)"

lemma uint_delta: "d < 3000 \<Longrightarrow> uint (of_nat d :: 16 word) = int d"
  by (simp add: unsigned_of_nat take_bit_eq_mod)

lemma rtpupdateseq_step:
  assumes "stm_probation s = 0" and "d < 3000"
  shows "rtpupdateseq (stm_hiseq s + of_nat d) s
    = (True, s\<lparr>stm_roll := (if stm_hiseq s + of_nat d < stm_hiseq s then stm_roll s + 1 else stm_roll s),
               stm_hiseq := stm_hiseq s + of_nat d\<rparr>)"
  using assms uint_delta [OF assms(2)] by (simp add: rtpupdateseq_def Let_def rtp_consts)

lemma wrap_once: "0 \<le> h \<Longrightarrow> h < m \<Longrightarrow> 0 \<le> d \<Longrightarrow> d < m \<Longrightarrow> (h + d) mod m = (if h + d < m then h + d else h + d - m)"
  for h d m :: int
  using mod_pos_pos_trivial [of "h + d - m" m] by (simp add: mod_diff_right_eq)

lemma ext_seq_step:
  assumes "d < 3000"
  shows "ext_seq (s\<lparr>stm_roll := (if stm_hiseq s + of_nat d < stm_hiseq s then stm_roll s + 1 else stm_roll s),
      stm_hiseq := stm_hiseq s + of_nat d\<rparr>) = ext_seq s + int d"
proof -
  let ?h = "uint (stm_hiseq s)"
  have h: "0 \<le> ?h" "?h < 65536" using uint_lt2p [of "stm_hiseq s"] by simp_all
  have "uint (stm_hiseq s + of_nat d) = (?h + int d) mod 65536"
    using assms by (simp add: uint_word_ariths(1) uint_delta)
  also have "\<dots> = (if ?h + int d < 65536 then ?h + int d else ?h + int d - 65536)"
    using h assms by (intro wrap_once) simp_all
  finally show ?thesis using h assms by (auto simp: ext_seq_def RTP_SEQMOD_def word_less_def algebra_simps)
qed

lemma feed_unwraps:
  "stm_probation s = 0 \<Longrightarrow> stm_hiseq s = of_nat n \<Longrightarrow> successively (\<lambda>a b. a \<le> b \<and> b < a + 3000) (n # ns) \<Longrightarrow>
    \<exists>s'. rtp_feed (map of_nat ns) s = (map (\<lambda>_. True) ns, s')
      \<and> ext_seq s' = ext_seq s + int (last (n # ns)) - int n \<and> stm_probation s' = 0"
proof (induction ns arbitrary: n s)
  case (Cons m ns)
  have m: "n \<le> m" "m - n < 3000" using Cons.prems(3) by auto
  have e: "(of_nat m :: 16 word) = stm_hiseq s + of_nat (m - n)" using Cons.prems(2) m(1) by (simp flip: of_nat_add)
  define s1 where "s1 = s\<lparr>stm_roll := (if stm_hiseq s + of_nat (m - n) < stm_hiseq s then stm_roll s + 1 else stm_roll s),
    stm_hiseq := stm_hiseq s + of_nat (m - n)\<rparr>"
  have "rtpupdateseq (of_nat m) s = (True, s1)"
    unfolding e s1_def by (rule rtpupdateseq_step [OF Cons.prems(1) m(2)])
  moreover have "ext_seq s1 = ext_seq s + int m - int n"
    unfolding s1_def ext_seq_step [OF m(2)] using m(1) by simp
  moreover have "stm_probation s1 = 0" "stm_hiseq s1 = of_nat m" using Cons.prems(1) e by (simp_all add: s1_def)
  moreover have "successively (\<lambda>a b. a \<le> b \<and> b < a + 3000) (m # ns)" using Cons.prems(3) by (cases ns) auto
  ultimately show ?case using Cons.IH [of s1 m] by auto
qed simp


definition validated :: stream where
  "validated = (sn_stm (rtpinit 0 (\<lambda>_. undefined)))\<lparr>stm_probation := 0\<rparr>"


text \<open>While a stream is on probation, no packet is accepted before the successor of one comes.\<close>

lemma feed_probation:
  "stm_probation s = 1 \<Longrightarrow> successively (\<lambda>a b. uint b \<noteq> uint a + 1) (stm_hiseq s # xs) \<Longrightarrow>
    rtp_feed xs s = (map (\<lambda>_. False) xs, s\<lparr>stm_hiseq := last (stm_hiseq s # xs)\<rparr>)"
proof (induction xs arbitrary: s)
  case (Cons x xs)
  have "rtpupdateseq x s = (False, s\<lparr>stm_hiseq := x\<rparr>)"
    using Cons.prems by (cases s) (simp add: rtpupdateseq_def RTP_MINSEQUENTIAL_def)
  moreover have "successively (\<lambda>a b. uint b \<noteq> uint a + 1) (x # xs)" using Cons.prems(2) by (cases xs) auto
  ultimately show ?case using Cons.IH [of "s\<lparr>stm_hiseq := x\<rparr>"] Cons.prems(1) by simp
qed simp

lemma feed_append:
  "rtp_feed (xs @ ys) s = (case rtp_feed xs s of (a, s1) \<Rightarrow> case rtp_feed ys s1 of (b, s2) \<Rightarrow> (a @ b, s2))"
  by (induction xs arbitrary: s) (auto split: prod.splits)

text \<open>
  a new stream is accepted with the first packet that is the successor of the one before it, and
  starts to count there; until then all its packets are rejected.\<close>

theorem rtp_validates_stream:
  assumes "stm_probation s = RTP_MINSEQUENTIAL"
    and "successively (\<lambda>a b. uint b \<noteq> uint a + 1) (xs @ [x])" and "uint y = uint x + 1"
  shows "\<exists>s'. rtp_feed (xs @ [x, y]) s = (map (\<lambda>_. False) (xs @ [x]) @ [True], s')
    \<and> stm_probation s' = 0 \<and> stm_packets s' = 0 \<and> ext_seq s' = uint y"
proof -
  obtain z zs where z: "xs @ [x] = z # zs" by (cases "xs @ [x]") auto
  define s1 where "s1 = s\<lparr>stm_probation := 1, stm_hiseq := z\<rparr>"
  have first: "rtpupdateseq z s = (False, s1)"
    using assms(1) by (simp add: rtpupdateseq_def RTP_MINSEQUENTIAL_def s1_def)
  have "rtp_feed zs s1 = (map (\<lambda>_. False) zs, s1\<lparr>stm_hiseq := last (z # zs)\<rparr>)"
    using feed_probation [of s1 zs] assms(2) z by (simp add: s1_def)
  moreover have "last (z # zs) = x" using z by (metis last_snoc)
  ultimately have f: "rtp_feed (xs @ [x]) s = (map (\<lambda>_. False) (xs @ [x]), s1\<lparr>stm_hiseq := x\<rparr>)"
    unfolding z by (simp add: first)
  have "rtpupdateseq y (s1\<lparr>stm_hiseq := x\<rparr>) = (True, rtpinitseq y (s1\<lparr>stm_probation := 0, stm_hiseq := y\<rparr>))"
    using assms(3) by (simp add: rtpupdateseq_def s1_def Let_def)
  then show ?thesis
    using feed_append [of "xs @ [x]" "[y]" s] f by (auto simp: rtpinitseq_def ext_seq_def)
qed

theorem rtp_validates_stream_witness:
  "\<exists>s'. rtp_feed ([7, 9, 9, 3] @ [100, 101]) (sn_stm (rtpinit 0 ns)) = (map (\<lambda>_. False) ([7, 9, 9, 3] @ [100 :: 16 word]) @ [True], s')
    \<and> stm_probation s' = 0 \<and> stm_packets s' = 0 \<and> ext_seq s' = uint (101 :: 16 word)"
  by (rule rtp_validates_stream) (simp_all add: rtpinit_def)

text \<open>
  a packet that comes up to 99 places late is rejected, while one that is far ahead is accepted
  without becoming the highest: the two branches stand in the wrong order.\<close>

theorem rtp_late_rejected_jump_accepted:
  assumes "stm_probation s = 0"
  shows "(1 \<le> k \<and> k < 100 \<longrightarrow> fst (rtpupdateseq (stm_hiseq s - of_nat k) s) = False)
    \<and> (3000 \<le> k \<and> k \<le> 65436 \<and> uint (stm_hiseq s + of_nat k) \<noteq> stm_badseq s
        \<longrightarrow> rtpupdateseq (stm_hiseq s + of_nat k) s = (True, s))"
proof -
  have "uint (- of_nat k :: 16 word) = 65536 - int k" if "1 \<le> k" "k < 100"
    using that by (simp add: uint_word_ariths(4) unsigned_of_nat take_bit_eq_mod zmod_zminus1_eq_if)
  moreover have "uint (of_nat k :: 16 word) = int k" if "k \<le> 65436"
    using that by (simp add: unsigned_of_nat take_bit_eq_mod)
  ultimately show ?thesis using assms by (auto simp: rtpupdateseq_def Let_def rtp_consts)
qed

theorem rtp_late_rejected_jump_accepted_witness:
  "fst (rtpupdateseq (stm_hiseq validated - of_nat 1) validated) = False
    \<and> rtpupdateseq (stm_hiseq validated + of_nat 30000) validated = (True, validated)"
  using rtp_late_rejected_jump_accepted [of validated 1] rtp_late_rejected_jump_accepted [of validated 30000]
  by (simp add: validated_def rtpinit_def)


subsection \<open>Reception\<close>

text \<open>\<open>rtpupdate\<close>, with the time of the packet; \<open>OK\<close> is \<open>True\<close>.\<close>

definition rtpupdate :: "(int \<Rightarrow> int \<Rightarrow> int) \<Rightarrow> int \<Rightarrow> rtp \<Rightarrow> stream \<Rightarrow> bool \<times> stream" where
  "rtpupdate tv2lin now header s =
     (case rtpupdateseq (rtp_seq header) s of
        (False, s1) \<Rightarrow> (False, s1)
      | (True, s1) \<Rightarrow>
          let s2 = (if stm_packets s1 \<noteq> 0
                    then let delta = tv2lin (now - stm_lastrec s1) PCMMU_CLKRT;
                             D = sint (of_int delta - (rtp_time header - stm_lastts s1) :: u32)
                         in s1\<lparr>stm_jitter := stm_jitter s1 + (of_int \<bar>D\<bar> - stm_jitter s1) / 16\<rparr>
                    else s1)
          in (True, s2\<lparr>stm_packets := stm_packets s2 + 1, stm_inactive := 0, stm_lastts := rtp_time header,
                       stm_lastrec := now\<rparr>))"

definition rtpnewdata :: "int \<Rightarrow> stream \<Rightarrow> stream" where
  "rtpnewdata now s =
     (if stm_buffering s
      then let time = (\<lambda>i. rtp_time (rln_rtp (rq_nodes (stm_q s) i)));
               (begin_t, end_t) = (case (rq_head (stm_q s), rq_tail (stm_q s)) of
                                     (Some h, Some t) \<Rightarrow> (time h, time t) | _ \<Rightarrow> (0, 0))
           in if uint (end_t - begin_t) \<ge> RTP_JITTHRESH
              then s\<lparr>stm_clky := begin_t, stm_clkx := now, stm_buffering := False\<rparr>
              else s
      else s)"

text \<open>rtcpheader.c and rtcpsendbye.c: the messages as bytes.\<close>

definition rtcpheader :: "nat \<Rightarrow> nat \<Rightarrow> nat \<Rightarrow> bytes" where
  "rtcpheader count type len =
     [char_of (RTP_CURRVERS * 64 + count), char_of type, char_of ((len div 4 - 1) div 256), char_of (len div 4 - 1)]"

definition RTCP_SR :: nat where "RTCP_SR = 200"
definition RTCP_RR :: nat where "RTCP_RR = 201"
definition RTCP_BYE :: nat where "RTCP_BYE = 203"

definition rtcpsendbye :: "rtp_session \<Rightarrow> rtp_session" where
  "rtcpsendbye sn = sn\<lparr>sn_sent := sn_sent sn @ [rtcpheader 1 RTCP_BYE 8 @ be_bytes (sn_ssrc sn)]\<rparr>"

text \<open>
  A round of \<open>rtprecv\<close>, in three parts. The packet up to \<open>rtpupdate\<close>: the time, the random number that
  may be drawn, the buffer from the pool, and the length and the fields of what is received; the
  result says whether the packet is to be queued.
\<close>

definition rtprecv_packet :: "(int \<Rightarrow> int \<Rightarrow> int) \<Rightarrow> int \<Rightarrow> u32 \<Rightarrow> nat \<Rightarrow> int \<Rightarrow> rtp \<Rightarrow> rtp_session \<Rightarrow> bool \<times> rtp_session" where
  "rtprecv_packet tv2lin now random pln len prtp sn =
     (if len < RTP_MINHDRLEN \<or> rtp_ver prtp \<noteq> RTP_CURRVERS then (False, sn)
      else if sn_ssrc sn = rtp_ssrc prtp then (False, (rtcpsendbye sn)\<lparr>sn_ssrc := random\<rparr>)
      else
        let sn1 = (if \<not> sn_detected sn \<and> rtp_payload prtp = 0
                   then sn\<lparr>sn_detected := True, sn_stm := (sn_stm sn)\<lparr>stm_ssrc := rtp_ssrc prtp\<rparr>\<rparr> else sn)
        in if rtp_ssrc prtp \<noteq> stm_ssrc (sn_stm sn1) then (False, sn1)
           else (case rtpupdate tv2lin now prtp (sn_stm sn1) of
               (False, s) \<Rightarrow> (False, sn1\<lparr>sn_stm := s\<rparr>)
             | (True, s) \<Rightarrow>
                 let node = (rq_nodes (stm_q s) pln)\<lparr>rln_len := len, rln_rtp := prtp,
                              rln_seq := push_bit 16 (of_int (stm_roll s)) OR ucast (rtp_seq prtp)\<rparr>;
                     q = (stm_q s)\<lparr>rq_nodes := (rq_nodes (stm_q s))(pln := node)\<rparr>
                 in (True, sn1\<lparr>sn_stm := s\<lparr>stm_q := q\<rparr>\<rparr>)))"

text \<open>The insertion, under the mutex of the queue. \<open>None\<close> only if the search of the queue does not end.\<close>

definition rtprecv_insert :: "nat \<Rightarrow> rtp_session \<Rightarrow> (bool \<times> rtp_session) option" where
  "rtprecv_insert pln sn =
     (case rtpqinsert pln (stm_q (sn_stm sn)) of
        None \<Rightarrow> None
      | Some (is_head, q) \<Rightarrow> Some (is_head, sn\<lparr>sn_stm := (sn_stm sn)\<lparr>stm_q := q\<rparr>\<rparr>))"

definition rtprecv_announce :: "int \<Rightarrow> bool \<Rightarrow> rtp_session \<Rightarrow> rtp_session" where
  "rtprecv_announce now is_head sn =
     (if is_head \<or> stm_buffering (sn_stm sn) then sn\<lparr>sn_stm := rtpnewdata now (sn_stm sn)\<rparr> else sn)"

subsection \<open>Playback\<close>

definition rtphdrlen :: "rtp \<Rightarrow> int" where
  "rtphdrlen prtp = RTP_MINHDRLEN + int (rtp_cc prtp) * 4"

text \<open>
  The macro \<open>rtptsgt\<close> does not put its arguments into parentheses: \<open>rtptsgt(x, y + d)\<close> compares \<open>x\<close>
  with \<open>y + d\<close>, but then takes \<open>x - y + d\<close>. With \<open>d\<close> = 0 it is what it means to be.
\<close>

definition rtptsgt :: "u32 \<Rightarrow> u32 \<Rightarrow> u32 \<Rightarrow> bool" where
  "rtptsgt x y d = (if x > y + d then x - y + d < 0x80000000 else \<not> (y + d - x < 0x80000000))"

definition rtptsmax :: "u32 \<Rightarrow> u32 \<Rightarrow> u32" where
  "rtptsmax x y = (if rtptsgt x y 0 then x else y)"

text \<open>
  What a round of \<open>playaudio\<close> does: waits for data, drops a packet that is too late, puts one back
  and waits, or writes a number of bytes from an offset in its data.
\<close>

datatype played = Waits | Late nat | Early nat u32 | Plays nat bool int int

text \<open>The test of the loop, which takes a packet out under the mutex of the queue.\<close>

definition play_take :: "stream \<Rightarrow> nat option \<times> stream" where
  "play_take s =
     (if stm_buffering s then (None, s) else case rtpqdequeue (stm_q s) of (r, q) \<Rightarrow> (r, s\<lparr>stm_q := q\<rparr>))"

text \<open>The rest of the round, with the packet that was taken out.\<close>

definition play_packet :: "(int \<Rightarrow> int \<Rightarrow> int) \<Rightarrow> int \<Rightarrow> nat \<Rightarrow> stream \<Rightarrow> (played \<times> stream) option" where
  "play_packet tv2lin now pln s =
     (let node = rq_nodes (stm_q s) pln; prtp = rln_rtp node;
          mnow = of_int (tv2lin (now - stm_clkx s) PCMMU_CLKRT) + stm_clky s;
          samples = rln_len node - rtphdrlen prtp
      in if rtptsgt mnow (rtp_time prtp) (of_int samples - 1) then Some (Late pln, s)
         else let readfrom = rtptsmax (rtp_time prtp) mnow
           in if rtptsgt readfrom mnow RTP_LEEWAY
              then (case rtpqinsert pln (stm_q s) of
                      None \<Rightarrow> None
                    | Some (_, q) \<Rightarrow> Some (Early pln (readfrom - mnow - RTP_LEEWAY), s\<lparr>stm_q := q\<rparr>))
              else let offset = sint (readfrom - rtp_time prtp)
                   in Some (Plays pln (rtp_mark prtp) offset (samples - offset), s))"

text \<open>A round in which nothing is received between the two.\<close>

definition playaudio :: "(int \<Rightarrow> int \<Rightarrow> int) \<Rightarrow> int \<Rightarrow> stream \<Rightarrow> (played \<times> stream) option" where
  "playaudio tv2lin now s =
     (case play_take s of
        (None, s1) \<Rightarrow> Some (Waits, s1)
      | (Some pln, s1) \<Rightarrow> play_packet tv2lin now pln s1)"

lemma uint_add_no_wrap: "uint x + uint y < 2 ^ 32 \<Longrightarrow> uint (x + y) = uint x + uint y"
  for x y :: u32
  by (simp add: uint_word_ariths(1))

lemma uint_sub_no_wrap:
  fixes x y :: u32
  assumes "uint y \<le> uint x"
  shows "uint (x - y) = uint x - uint y"
proof -
  have "uint x < 2 ^ 32" using uint_lt2p [of x] by simp
  moreover have "0 \<le> uint y" by simp
  ultimately have "uint x - uint y < 2 ^ 32" by linarith
  then show ?thesis using assms by (simp add: uint_word_ariths(2) mod_pos_pos_trivial)
qed

lemma rtptsgt_no_wrap:
  assumes "uint y + uint d < 2 ^ 32" and "\<bar>uint x - uint y\<bar> < 2 ^ 30" and "uint d < 2 ^ 20"
  shows "rtptsgt x y d \<longleftrightarrow> uint y + uint d < uint x"
proof (cases "uint y + uint d < uint x")
  case True
  then have "uint (x - y) = uint x - uint y" by (intro uint_sub_no_wrap) (use uint_ge_0 [of d] in linarith)
  then have "uint (x - y + d) = uint x - uint y + uint d"
    using assms uint_lt2p [of x] by (subst uint_add_no_wrap) simp_all
  then show ?thesis
    using True assms by (simp add: rtptsgt_def word_less_def uint_add_no_wrap)
next
  case False
  then have "uint (y + d - x) = uint y + uint d - uint x"
    using assms(1) by (simp add: uint_sub_no_wrap uint_add_no_wrap)
  then show ?thesis using False assms by (simp add: rtptsgt_def word_less_def uint_add_no_wrap)
qed

text \<open>The media time of a moment, and the number of samples of a packet.\<close>

definition media_now :: "(int \<Rightarrow> int \<Rightarrow> int) \<Rightarrow> int \<Rightarrow> stream \<Rightarrow> u32" where
  "media_now tv2lin now s = of_int (tv2lin (now - stm_clkx s) PCMMU_CLKRT) + stm_clky s"

definition samples_of :: "rtpln \<Rightarrow> int" where
  "samples_of node = rln_len node - rtphdrlen (rln_rtp node)"

lemma dequeue_keeps_node:
  "rtpqdequeue q = (Some i, q') \<Longrightarrow> queue_of q (i # xs) \<Longrightarrow> rln_len (rq_nodes q' j) = rln_len (rq_nodes q j)
    \<and> rln_rtp (rq_nodes q' j) = rln_rtp (rq_nodes q j) \<and> rln_seq (rq_nodes q' j) = rln_seq (rq_nodes q j)"
  by (auto simp: rtpqdequeue_def set_next_def split: option.splits)

definition rq_seqs :: "rtpq \<Rightarrow> nat \<Rightarrow> u32" where
  "rq_seqs q i = rln_seq (rq_nodes q i)"

lemma playaudio_first:
  assumes "\<not> stm_buffering s" and "queue_of (stm_q s) (i # xs)" and "rtp_sorted (rq_nodes (stm_q s)) (i # xs)"
    and "node = rq_nodes (stm_q s) i" and "t = rtp_time (rln_rtp node)" and "m = media_now tv2lin now s" and "n = samples_of node"
  obtains q q' where "queue_of q xs" and "queue_of q' (put_packet (rq_nodes q) i xs)" and "rq_seqs q' = rq_seqs q"
    and "playaudio tv2lin now s =
      (if rtptsgt m t (of_int n - 1) then Some (Late i, s\<lparr>stm_q := q\<rparr>)
       else if rtptsgt (rtptsmax t m) m RTP_LEEWAY then Some (Early i (rtptsmax t m - m - RTP_LEEWAY), s\<lparr>stm_q := q'\<rparr>)
       else Some (Plays i (rtp_mark (rln_rtp node)) (sint (rtptsmax t m - t)) (n - sint (rtptsmax t m - t)), s\<lparr>stm_q := q\<rparr>))"
proof -
  obtain q where q: "rtpqdequeue (stm_q s) = (Some i, q)" "queue_of q xs" "rtp_sorted (rq_nodes q) xs"
    using queue_of_dequeue [OF assms(2,3)] by auto
  have keep: "rln_len (rq_nodes q i) = rln_len node" "rln_rtp (rq_nodes q i) = rln_rtp node"
    using dequeue_keeps_node [OF q(1) assms(2), of i] assms(4) by simp_all
  have i: "i \<notin> set xs" using assms(2) by (simp add: queue_of_def)
  obtain b q' where q': "rtpqinsert i q = Some (b, q')" "queue_of q' (put_packet (rq_nodes q) i xs)"
    using rtpqinsert_refines [OF q(2,3) i] by blast
  have "playaudio tv2lin now s =
      (if rtptsgt m t (of_int n - 1) then Some (Late i, s\<lparr>stm_q := q\<rparr>)
       else if rtptsgt (rtptsmax t m) m RTP_LEEWAY then Some (Early i (rtptsmax t m - m - RTP_LEEWAY), s\<lparr>stm_q := q'\<rparr>)
       else Some (Plays i (rtp_mark (rln_rtp node)) (sint (rtptsmax t m - t)) (n - sint (rtptsmax t m - t)), s\<lparr>stm_q := q\<rparr>))"
    using assms(1) unfolding assms(5-7) media_now_def samples_of_def by (simp add: playaudio_def play_take_def play_packet_def q(1) keep Let_def q'(1))
  moreover have "rq_seqs q' = rq_seqs q" using rtpqinsert_keeps_seq [OF q'(1)] by (simp add: rq_seqs_def fun_eq_iff)
  ultimately show ?thesis using that q(2) q'(2) by blast
qed

text \<open>A stream with one packet in its queue.\<close>

definition one_packet :: "u32 \<Rightarrow> u32 \<Rightarrow> nat \<Rightarrow> int \<Rightarrow> stream" where
  "one_packet y t cc len = (sn_stm (rtpinit 0 (\<lambda>_. undefined)))
     \<lparr>stm_buffering := False, stm_clky := y,
      stm_q := \<lparr>rq_nodes = \<lambda>_. \<lparr>rln_len = len, rln_seq = 0, rln_next = None, rln_prev = None,
          rln_rtp = \<lparr>rtp_cc = cc, rtp_ver = 2, rtp_payload = 0, rtp_mark = False, rtp_seq = 0, rtp_time = t, rtp_ssrc = 0\<rparr>\<rparr>,
        rq_head = Some 0, rq_tail = Some 0\<rparr>\<rparr>"

lemma one_packet_simps:
  "\<not> stm_buffering (one_packet y t cc len)" "queue_of (stm_q (one_packet y t cc len)) [0]"
  "rtp_sorted (rq_nodes (stm_q (one_packet y t cc len))) [0]"
  "samples_of (rq_nodes (stm_q (one_packet y t cc len)) i) = len - 12 - 4 * int cc"
  "rtp_time (rln_rtp (rq_nodes (stm_q (one_packet y t cc len)) i)) = t"
  "media_now (\<lambda>_ _. 0) 0 (one_packet y t cc len) = y"
  by (simp_all add: one_packet_def queue_of_def rtp_sorted_def linked_Cons samples_of_def rtphdrlen_def RTP_MINHDRLEN_def media_now_def
      last_of_def)

text \<open>
  C20: away from the points where the 32-bit clocks wrap round, the player drops the first packet when all
  of it is in the past, puts it back and waits when it is more than the leeway ahead, and otherwise
  plays the part of it that is not in the past.\<close>

theorem rtp_player_is_on_time:
  assumes "\<not> stm_buffering s" and "queue_of (stm_q s) (i # xs)" and "rtp_sorted (rq_nodes (stm_q s)) (i # xs)"
    and "node = rq_nodes (stm_q s) i" and "n = samples_of node" and "1 \<le> n" and "n \<le> 2048"
    and "T = uint (rtp_time (rln_rtp node))" and "M = uint (media_now tv2lin now s)"
    and "\<bar>M - T\<bar> < 2 ^ 30" and "T + n \<le> 2 ^ 32" and "M + 400 < 2 ^ 32"
  shows "\<exists>q. queue_of q (if T > M + 400 then put_packet (rq_nodes q) i xs else xs)
    \<and> playaudio tv2lin now s =
      Some (if M \<ge> T + n then Late i
            else if T > M + 400 then Early i (of_int (T - M - 400))
            else Plays i (rtp_mark (rln_rtp node)) (max 0 (M - T)) (n - max 0 (M - T)), s\<lparr>stm_q := q\<rparr>)"
proof -
  have T0: "0 \<le> T" "0 \<le> M" "M < 2 ^ 32" using uint_lt2p [of "media_now tv2lin now s"] assms(8,9) by simp_all
  define t where "t = rtp_time (rln_rtp node)"
  define m where "m = media_now tv2lin now s"
  have TM: "uint t = T" "uint m = M" using assms(8,9) by (simp_all add: t_def m_def)
  have d: "uint (of_int n - 1 :: u32) = n - 1"
  proof -
    have "uint (of_int n :: u32) = n" using assms(6,7) by (simp add: unsigned_of_int take_bit_eq_mod)
    then show ?thesis using assms(6) by (simp add: uint_sub_no_wrap)
  qed
  have late: "rtptsgt m t (of_int n - 1) \<longleftrightarrow> M \<ge> T + n"
    using rtptsgt_no_wrap [of t "of_int n - 1" m] TM d assms(7,10,11) by auto
  have rmax: "rtptsmax t m = (if T > M then t else m)"
    using rtptsgt_no_wrap [of m 0 t] TM T0 assms(10) by (simp add: rtptsmax_def)
  have leeway: "uint RTP_LEEWAY = 400" by (simp add: RTP_LEEWAY_def)
  have early: "rtptsgt (rtptsmax t m) m RTP_LEEWAY \<longleftrightarrow> T > M + 400"
    using rtptsgt_no_wrap [of m RTP_LEEWAY "rtptsmax t m"] TM leeway assms(10,12) by (auto simp: rmax)
  have wait: "rtptsmax t m - m - RTP_LEEWAY = of_int (T - M - 400)" if "T > M + 400"
  proof -
    have r: "rtptsmax t m = t" using that by (simp add: rmax)
    have "t = of_int T" "m = of_int M" using TM by auto
    then show ?thesis unfolding r by (simp add: RTP_LEEWAY_def)
  qed
  have off: "sint (rtptsmax t m - t) = max 0 (M - T)" if "M < T + n"
  proof -
    have "rtptsmax t m - t = (of_int (max 0 (M - T)) :: u32)"
      using TM by (simp add: rmax max_def flip: TM)
    moreover have "- (2 ^ 31) \<le> max 0 (M - T)" "max 0 (M - T) < 2 ^ 31" using assms(10) by auto
    ultimately show ?thesis by (simp add: signed_of_int signed_take_bit_int_eq_self)
  qed
  obtain q q' where q: "queue_of q xs" "queue_of q' (put_packet (rq_nodes q) i xs)" "rq_seqs q' = rq_seqs q"
    and play: "playaudio tv2lin now s =
      (if rtptsgt m t (of_int n - 1) then Some (Late i, s\<lparr>stm_q := q\<rparr>)
       else if rtptsgt (rtptsmax t m) m RTP_LEEWAY then Some (Early i (rtptsmax t m - m - RTP_LEEWAY), s\<lparr>stm_q := q'\<rparr>)
       else Some (Plays i (rtp_mark (rln_rtp node)) (sint (rtptsmax t m - t)) (n - sint (rtptsmax t m - t)), s\<lparr>stm_q := q\<rparr>))"
    by (rule playaudio_first [OF assms(1-4) t_def m_def assms(5)])
  have "put_packet (rq_nodes q') i xs = put_packet (rq_nodes q) i xs"
    using q(3) by (simp add: put_packet_def rq_seqs_def fun_eq_iff)
  then show ?thesis
    using q(1,2) assms(6)
    by (cases "T > M + 400") (auto simp: play late early wait off intro: exI [of _ q] exI [of _ q'])
qed


theorem rtp_player_is_on_time_witness:
  "\<exists>q. queue_of q [] \<and> playaudio (\<lambda>_ _. 0) 0 (one_packet 1040 1000 0 172) = Some (Plays 0 False 40 120, (one_packet 1040 1000 0 172)\<lparr>stm_q := q\<rparr>)"
  using rtp_player_is_on_time [where s = "one_packet 1040 1000 0 172" and i = 0 and xs = "[]" and tv2lin = "\<lambda>_ _. 0" and now = 0, OF one_packet_simps(1-3) refl refl _ _ refl refl]
  unfolding one_packet_simps by (simp add: one_packet_def)

text \<open>
  when the media clock is within the leeway of its wrap-around, a packet that is due is put back, and
  the player sleeps for nearly 2^32 samples, six days.\<close>

theorem rtp_player_stalls_at_wrap:
  assumes "\<not> stm_buffering s" and "queue_of (stm_q s) (i # xs)" and "rtp_sorted (rq_nodes (stm_q s)) (i # xs)"
    and "n = samples_of (rq_nodes (stm_q s) i)" and "n \<le> 2048"
    and "T = uint (rtp_time (rln_rtp (rq_nodes (stm_q s) i)))" and "M = uint (media_now tv2lin now s)"
    and "T \<le> M" and "M < T + n" and "T + n \<le> 2 ^ 32" and "2 ^ 32 - 400 \<le> M"
  shows "\<exists>s'. playaudio tv2lin now s = Some (Early i 0xFFFFFE70, s')"
proof -
  define t m where "t = rtp_time (rln_rtp (rq_nodes (stm_q s) i))" and "m = media_now tv2lin now s"
  have TM: "uint t = T" "uint m = M" using assms(6,7) by (simp_all add: t_def m_def)
  have "uint (of_int n :: u32) = n" using assms(5,8,9) by (simp add: unsigned_of_int take_bit_eq_mod)
  then have "uint (of_int n - 1 :: u32) = n - 1" using assms(8,9) by (simp add: uint_sub_no_wrap)
  then have late: "\<not> rtptsgt m t (of_int n - 1)"
    using rtptsgt_no_wrap [of t "of_int n - 1" m] TM assms(5,8-10) by simp
  have rmax: "rtptsmax t m = m"
    using rtptsgt_no_wrap [of m 0 t] TM assms(5,8,9) uint_lt2p [of m] by (simp add: rtptsmax_def)
  have "uint (m + RTP_LEEWAY) = M + 400 - 2 ^ 32"
  proof -
    have "uint (m + RTP_LEEWAY) = (M + 400) mod 2 ^ 32" using TM by (simp add: uint_word_ariths(1) RTP_LEEWAY_def)
    also have "\<dots> = M + 400 - 2 ^ 32"
      using wrap_once [of M "2 ^ 32" 400] assms(7,11) uint_lt2p [of m] TM by (simp add: m_def)
    finally show ?thesis .
  qed
  then have early: "rtptsgt m m RTP_LEEWAY"
    using TM uint_lt2p [of m] by (simp add: rtptsgt_def word_less_def RTP_LEEWAY_def)
  show ?thesis
    by (rule playaudio_first [OF assms(1-3) refl t_def m_def assms(4)])
      (use late early in \<open>simp add: rmax RTP_LEEWAY_def\<close>)
qed

theorem rtp_player_stalls_at_wrap_witness:
  "\<exists>s'. playaudio (\<lambda>_ _. 0) 0 (one_packet 0xFFFFFF00 0xFFFFFEF0 0 172) = Some (Early 0 0xFFFFFE70, s')"
  using rtp_player_stalls_at_wrap [where s = "one_packet 0xFFFFFF00 0xFFFFFEF0 0 172" and i = 0 and xs = "[]" and tv2lin = "\<lambda>_ _. 0" and now = 0, OF one_packet_simps(1-3) refl _ refl refl]
  unfolding one_packet_simps by simp

text \<open>
  the number of sources in a packet is not compared with its length: a packet whose header would be
  longer than it is can be played, with a negative number of bytes.\<close>

theorem rtp_header_beyond_packet:
  assumes "\<not> stm_buffering s" and "queue_of (stm_q s) (i # xs)" and "rtp_sorted (rq_nodes (stm_q s)) (i # xs)"
    and "n = samples_of (rq_nodes (stm_q s) i)" and "n \<le> 0" and "- 60 \<le> n"
    and "T = uint (rtp_time (rln_rtp (rq_nodes (stm_q s) i)))" and "M = uint (media_now tv2lin now s)"
    and "M < T + n" and "T \<le> M + 400" and "M + 400 < 2 ^ 32"
  shows "\<exists>mark s'. playaudio tv2lin now s = Some (Plays i mark 0 n, s')"
proof -
  define t m where "t = rtp_time (rln_rtp (rq_nodes (stm_q s) i))" and "m = media_now tv2lin now s"
  have TM: "uint t = T" "uint m = M" using assms(7,8) by (simp_all add: t_def m_def)
  have M: "0 \<le> M" "T < 2 ^ 32" using TM uint_lt2p [of t] by auto
  have "uint (t - of_int (1 - n)) = T - (1 - n)"
  proof -
    have "uint (of_int (1 - n) :: u32) = 1 - n" using assms(5,6) by (subst unsigned_of_int) (simp add: take_bit_eq_mod)
    then show ?thesis using TM assms(5,9) M by (subst uint_sub_no_wrap) simp_all
  qed
  moreover have "t + (of_int n - 1) = t - of_int (1 - n)" by simp
  ultimately have y: "uint (t + (of_int n - 1)) = T + n - 1" by (simp only:)
  then have late: "\<not> rtptsgt m t (of_int n - 1)"
    using TM assms(5,9,10) by (simp add: rtptsgt_def word_less_def uint_sub_no_wrap)
  have rmax: "rtptsmax t m = t"
    using rtptsgt_no_wrap [of m 0 t] TM assms(5,9,10) M by (simp add: rtptsmax_def)
  have early: "\<not> rtptsgt t m RTP_LEEWAY"
    using rtptsgt_no_wrap [of m RTP_LEEWAY t] TM assms(5,9-11) by (simp add: RTP_LEEWAY_def)
  show ?thesis
    by (rule playaudio_first [OF assms(1-3) refl t_def m_def assms(4)])
      (use late early in \<open>simp add: rmax\<close>)
qed

theorem rtp_header_beyond_packet_witness:
  "\<exists>mark s'. playaudio (\<lambda>_ _. 0) 0 (one_packet 900 1000 15 12) = Some (Plays 0 mark 0 (- 60), s')"
  using rtp_header_beyond_packet [where s = "one_packet 900 1000 15 12" and i = 0 and xs = "[]" and tv2lin = "\<lambda>_ _. 0" and now = 0, OF one_packet_simps(1-3) refl _ _ refl refl]
  unfolding one_packet_simps by simp


subsection \<open>The threads\<close>

text \<open>
  Where the player is: without the mutex of the stream (before the loop, and while it waits); with the
  mutex before the test of the loop; with the mutex and a packet. Where the receiver is: before a
  packet; before the insertion of one; behind it.
\<close>

datatype playing = Pl_out | Pl_top | Pl_has nat
datatype receiving = Rv_idle | Rv_has nat | Rv_queued bool

record rtp_threads =
  th_sn :: rtp_session
  th_player :: playing
  th_recv :: receiving

definition threads_new :: "u32 \<Rightarrow> (nat \<Rightarrow> rtpln) \<Rightarrow> rtp_threads" where
  "threads_new random ns = \<lparr>th_sn = rtpinit random ns, th_player = Pl_out, th_recv = Rv_idle\<rparr>"

text \<open>
  \<open>bpget\<close> gives a buffer that is in no use: neither in the queue nor with the player. The wait of the
  player can end at any time (it is signalled, its time is over, or there is no reason), and
  \<open>rtpnewdata\<close> needs the mutex of the stream.
\<close>

inductive rtp_step :: "(int \<Rightarrow> int \<Rightarrow> int) \<Rightarrow> rtp_threads \<Rightarrow> rtp_threads \<Rightarrow> bool" for tv2lin where
  Receives: "th_recv th = Rv_idle \<Longrightarrow> \<forall>xs. queue_of (stm_q (sn_stm (th_sn th))) xs \<longrightarrow> pln \<notin> set xs \<Longrightarrow> th_player th \<noteq> Pl_has pln
    \<Longrightarrow> rtprecv_packet tv2lin now random pln len prtp (th_sn th) = (go_on, sn')
    \<Longrightarrow> rtp_step tv2lin th (th\<lparr>th_sn := sn', th_recv := (if go_on then Rv_has pln else Rv_idle)\<rparr>)"
| Inserts: "th_recv th = Rv_has pln \<Longrightarrow> rtprecv_insert pln (th_sn th) = Some (is_head, sn')
    \<Longrightarrow> rtp_step tv2lin th (th\<lparr>th_sn := sn', th_recv := Rv_queued is_head\<rparr>)"
| Announces: "th_recv th = Rv_queued is_head \<Longrightarrow> is_head \<or> stm_buffering (sn_stm (th_sn th)) \<Longrightarrow> th_player th = Pl_out
    \<Longrightarrow> rtp_step tv2lin th (th\<lparr>th_sn := rtprecv_announce now is_head (th_sn th), th_recv := Rv_idle\<rparr>)"
| Goes_on: "th_recv th = Rv_queued is_head \<Longrightarrow> \<not> (is_head \<or> stm_buffering (sn_stm (th_sn th)))
    \<Longrightarrow> rtp_step tv2lin th (th\<lparr>th_recv := Rv_idle\<rparr>)"
| Wakes: "th_player th = Pl_out \<Longrightarrow> rtp_step tv2lin th (th\<lparr>th_player := Pl_top\<rparr>)"
| Takes: "th_player th = Pl_top \<Longrightarrow> play_take (sn_stm (th_sn th)) = (r, s')
    \<Longrightarrow> rtp_step tv2lin th (th\<lparr>th_sn := (th_sn th)\<lparr>sn_stm := s'\<rparr>, th_player := (case r of None \<Rightarrow> Pl_out | Some pln \<Rightarrow> Pl_has pln)\<rparr>)"
| Plays_it: "th_player th = Pl_has pln \<Longrightarrow> play_packet tv2lin now pln (sn_stm (th_sn th)) = Some (p, s')
    \<Longrightarrow> rtp_step tv2lin th (th\<lparr>th_sn := (th_sn th)\<lparr>sn_stm := s'\<rparr>, th_player := (case p of Early _ _ \<Rightarrow> Pl_out | _ \<Rightarrow> Pl_top)\<rparr>)"

inductive_cases rtp_stepE: "rtp_step tv2lin th th'"

subsection \<open>The queue of a session\<close>

text \<open>The packets that the threads have taken out or not yet put in.\<close>

definition in_hands :: "rtp_threads \<Rightarrow> nat set" where
  "in_hands th = (case th_player th of Pl_has i \<Rightarrow> {i} | _ \<Rightarrow> {}) \<union> (case th_recv th of Rv_has i \<Rightarrow> {i} | _ \<Rightarrow> {})"

definition packet_ok :: "rtpq \<Rightarrow> nat \<Rightarrow> bool" where
  "packet_ok q i \<longleftrightarrow> RTP_MINHDRLEN \<le> rln_len (rq_nodes q i) \<and> rtp_ver (rln_rtp (rq_nodes q i)) = RTP_CURRVERS"

text \<open>A queue, with packets \<open>H\<close> beside it.\<close>

definition queue_ok :: "rtpq \<Rightarrow> nat set \<Rightarrow> bool" where
  "queue_ok q H \<longleftrightarrow> (\<exists>xs. queue_of q xs \<and> rtp_sorted (rq_nodes q) xs \<and> set xs \<inter> H = {} \<and> (\<forall>i \<in> set xs \<union> H. packet_ok q i))"

definition threads_ok :: "rtp_threads \<Rightarrow> bool" where
  "threads_ok th \<longleftrightarrow> queue_ok (stm_q (sn_stm (th_sn th))) (in_hands th) \<and> (\<forall>i. \<not> (th_player th = Pl_has i \<and> th_recv th = Rv_has i))"

lemma queue_of_other: "pln \<notin> set xs \<Longrightarrow> queue_of (q\<lparr>rq_nodes := (rq_nodes q)(pln := v)\<rparr>) xs = queue_of q xs"
proof -
  assume "pln \<notin> set xs"
  then have "linked ((rq_nodes q)(pln := v)) None xs None = linked (rq_nodes q) None xs None"
    by (intro linked_frame) auto
  then show ?thesis by (simp add: queue_of_def)
qed

lemma set_put_packet: "set (put_packet ns i xs) = insert i (set xs)"
proof -
  let ?P = "\<lambda>x. rln_seq (ns x) \<le> rln_seq (ns i)"
  have "set (takeWhile ?P xs) \<union> set (dropWhile ?P xs) = set xs" by (metis set_append takeWhile_dropWhile_id)
  then show ?thesis unfolding put_packet_def by auto
qed

lemma queue_ok_insert:
  assumes "queue_ok q H" and "pln \<in> H"
  shows "\<exists>b q'. rtpqinsert pln q = Some (b, q') \<and> queue_ok q' (H - {pln})"
proof -
  obtain xs where xs: "queue_of q xs" "rtp_sorted (rq_nodes q) xs" "set xs \<inter> H = {}" "\<forall>i \<in> set xs \<union> H. packet_ok q i"
    using assms(1) unfolding queue_ok_def by blast
  obtain b q' where q': "rtpqinsert pln q = Some (b, q')" "queue_of q' (put_packet (rq_nodes q) pln xs)"
    "rtp_sorted (rq_nodes q') (put_packet (rq_nodes q) pln xs)"
    using rtpqinsert_refines [OF xs(1,2)] assms(2) xs(3) by blast
  have "packet_ok q' i = packet_ok q i" for i using rtpqinsert_keeps_seq [OF q'(1)] by (simp add: packet_ok_def)
  then have "queue_ok q' (H - {pln})"
    unfolding queue_ok_def using q'(2,3) xs(3,4) assms(2) set_put_packet [of "rq_nodes q" pln xs]
    by (intro exI [of _ "put_packet (rq_nodes q) pln xs"]) auto
  with q'(1) show ?thesis by blast
qed

lemma queue_ok_take:
  assumes "queue_ok q H" and "rtpqdequeue q = (r, q')"
  shows "case r of None \<Rightarrow> queue_ok q' H | Some pln \<Rightarrow> pln \<notin> H \<and> queue_ok q' (insert pln H)"
proof -
  obtain xs where xs: "queue_of q xs" "rtp_sorted (rq_nodes q) xs" "set xs \<inter> H = {}" "\<forall>i \<in> set xs \<union> H. packet_ok q i"
    using assms(1) unfolding queue_ok_def by blast
  have q: "r = first_of xs None" "queue_of q' (tl xs)" "rtp_sorted (rq_nodes q') (tl xs)"
    using queue_of_dequeue [OF xs(1,2)] assms(2) by auto
  show ?thesis
  proof (cases xs)
    case Nil
    then have "q' = q" using assms(2) xs(1) by (simp add: queue_of_def rtpqdequeue_def)
    then show ?thesis using q(1) Nil assms(1) by simp
  next
    case (Cons i ys)
    have "packet_ok q' j = packet_ok q j" for j
      using dequeue_keeps_node [of q i q' ys j] assms(2) q(1) xs(1) Cons by (simp add: packet_ok_def)
    moreover have "i \<notin> set ys" "i \<notin> H" using xs(1,3) Cons by (auto simp: queue_of_def)
    ultimately have "queue_ok q' (insert i H)"
      unfolding queue_ok_def using q(2,3) xs(3,4) Cons by (intro exI [of _ ys]) auto
    then show ?thesis using q(1) Cons \<open>i \<notin> H\<close> by simp
  qed
qed

lemma queue_ok_new_node:
  assumes "queue_ok q H" and "\<forall>xs. queue_of q xs \<longrightarrow> pln \<notin> set xs" and "pln \<notin> H"
    and "RTP_MINHDRLEN \<le> rln_len v" and "rtp_ver (rln_rtp v) = RTP_CURRVERS"
  shows "queue_ok (q\<lparr>rq_nodes := (rq_nodes q)(pln := v)\<rparr>) (insert pln H)"
proof -
  obtain xs where xs: "queue_of q xs" "rtp_sorted (rq_nodes q) xs" "set xs \<inter> H = {}" "\<forall>i \<in> set xs \<union> H. packet_ok q i"
    using assms(1) unfolding queue_ok_def by blast
  have p: "pln \<notin> set xs" using assms(2) xs(1) by blast
  have "map (\<lambda>i. rln_seq (((rq_nodes q)(pln := v)) i)) xs = map (\<lambda>i. rln_seq (rq_nodes q i)) xs" using p by auto
  then have "rtp_sorted (rq_nodes (q\<lparr>rq_nodes := (rq_nodes q)(pln := v)\<rparr>)) xs"
    using xs(2) unfolding rtp_sorted_def by (simp add: rtpq.defs del: map_eq_conv fun_upd_apply)
  then show ?thesis
    unfolding queue_ok_def using xs p assms(3-5) by (intro exI [of _ xs]) (auto simp: queue_of_other packet_ok_def)
qed

lemma rtpupdate_keeps: "rtpupdate tv2lin now h s = (ok, s') \<Longrightarrow> stm_q s' = stm_q s"
  by (auto simp: rtpupdate_def rtpupdateseq_def rtpinitseq_def Let_def split: prod.splits if_splits bool.splits)

lemma rtpnewdata_keeps: "stm_q (rtpnewdata now s) = stm_q s"
  by (simp add: rtpnewdata_def Let_def split: prod.split)

lemma rtprecv_packet_ok:
  assumes "rtprecv_packet tv2lin now random pln len prtp sn = (go_on, sn')"
    and "queue_ok (stm_q (sn_stm sn)) H" and "\<forall>xs. queue_of (stm_q (sn_stm sn)) xs \<longrightarrow> pln \<notin> set xs" and "pln \<notin> H"
  shows "queue_ok (stm_q (sn_stm sn')) (if go_on then insert pln H else H)"
proof -
  define sn1 where "sn1 = (if \<not> sn_detected sn \<and> rtp_payload prtp = 0
    then sn\<lparr>sn_detected := True, sn_stm := (sn_stm sn)\<lparr>stm_ssrc := rtp_ssrc prtp\<rparr>\<rparr> else sn)"
  have q1: "stm_q (sn_stm sn1) = stm_q (sn_stm sn)" by (simp add: sn1_def)
  obtain ok s where u: "rtpupdate tv2lin now prtp (sn_stm sn1) = (ok, s)" by force
  have qs: "stm_q s = stm_q (sn_stm sn)" using rtpupdate_keeps [OF u] q1 by simp
  define node where "node = (rq_nodes (stm_q s) pln)\<lparr>rln_len := len, rln_rtp := prtp,
    rln_seq := push_bit 16 (of_int (stm_roll s)) OR ucast (rtp_seq prtp)\<rparr>"
  define q where "q = (stm_q s)\<lparr>rq_nodes := (rq_nodes (stm_q s))(pln := node)\<rparr>"
  have eq: "rtprecv_packet tv2lin now random pln len prtp sn =
    (if len < RTP_MINHDRLEN \<or> rtp_ver prtp \<noteq> RTP_CURRVERS then (False, sn)
     else if sn_ssrc sn = rtp_ssrc prtp then (False, (rtcpsendbye sn)\<lparr>sn_ssrc := random\<rparr>)
     else if rtp_ssrc prtp \<noteq> stm_ssrc (sn_stm sn1) then (False, sn1)
     else if ok then (True, sn1\<lparr>sn_stm := s\<lparr>stm_q := q\<rparr>\<rparr>) else (False, sn1\<lparr>sn_stm := s\<rparr>))"
    by (simp add: rtprecv_packet_def sn1_def [symmetric] u node_def [symmetric] q_def [symmetric] Let_def)
  have "queue_ok q (insert pln H)" if "\<not> (len < RTP_MINHDRLEN \<or> rtp_ver prtp \<noteq> RTP_CURRVERS)"
    unfolding q_def qs by (rule queue_ok_new_node [OF assms(2-4)]) (use that in \<open>simp_all add: node_def\<close>)
  then show ?thesis using assms(1,2) q1 qs unfolding eq by (auto simp: rtcpsendbye_def split: if_splits)
qed

lemma play_packet_ok:
  assumes "queue_ok (stm_q s) H" and "pln \<in> H"
  shows "\<exists>p s'. play_packet tv2lin now pln s = Some (p, s') \<and> queue_ok (stm_q s') (H - {pln})"
proof -
  obtain b q' where q': "rtpqinsert pln (stm_q s) = Some (b, q')" "queue_ok q' (H - {pln})"
    using queue_ok_insert [OF assms] by blast
  moreover have "queue_ok (stm_q s) (H - {pln})" using assms(1) unfolding queue_ok_def by blast
  ultimately show ?thesis by (simp add: play_packet_def Let_def)
qed

lemma rtp_step_ok:
  assumes "rtp_step tv2lin th th'" and "threads_ok th"
  shows "threads_ok th'"
  using assms
proof (cases rule: rtp_step.cases)
  case (Receives pln now random len prtp go_on sn')
  have "pln \<notin> in_hands th" using Receives(2,4) by (auto simp: in_hands_def split: playing.splits)
  then have "queue_ok (stm_q (sn_stm sn')) (if go_on then insert pln (in_hands th) else in_hands th)"
    using rtprecv_packet_ok [OF Receives(5) _ Receives(3)] assms(2) by (simp add: threads_ok_def)
  then show ?thesis using Receives by (auto simp: threads_ok_def in_hands_def split: if_splits)
next
  case (Inserts pln is_head sn')
  then have "pln \<in> in_hands th" by (simp add: in_hands_def)
  then obtain b q' where "rtpqinsert pln (stm_q (sn_stm (th_sn th))) = Some (b, q')" "queue_ok q' (in_hands th - {pln})"
    using queue_ok_insert [of "stm_q (sn_stm (th_sn th))" "in_hands th" pln] assms(2) by (auto simp: threads_ok_def)
  then show ?thesis using Inserts assms(2)
    by (auto simp: threads_ok_def in_hands_def rtprecv_insert_def split: playing.splits)
next
  case (Announces is_head now)
  then show ?thesis using assms(2) by (auto simp: threads_ok_def in_hands_def rtprecv_announce_def rtpnewdata_keeps)
next
  case (Goes_on is_head)
  then show ?thesis using assms(2) by (auto simp: threads_ok_def in_hands_def)
next
  case Wakes
  then show ?thesis using assms(2) by (auto simp: threads_ok_def in_hands_def)
next
  case (Takes r s')
  have "case r of None \<Rightarrow> queue_ok (stm_q s') (in_hands th) | Some pln \<Rightarrow> pln \<notin> in_hands th \<and> queue_ok (stm_q s') (insert pln (in_hands th))"
    using Takes(3) assms(2) queue_ok_take [of "stm_q (sn_stm (th_sn th))" "in_hands th"]
    by (cases r) (auto simp: play_take_def threads_ok_def split: if_splits prod.splits)
  then show ?thesis using Takes by (auto simp: threads_ok_def in_hands_def split: option.splits)
next
  case (Plays_it pln now p s')
  then have "queue_ok (stm_q s') (in_hands th - {pln})"
    using play_packet_ok [of "sn_stm (th_sn th)" "in_hands th" pln tv2lin now] assms(2) by (auto simp: threads_ok_def in_hands_def)
  then show ?thesis using Plays_it assms(2)
    by (auto simp: threads_ok_def in_hands_def split: played.splits receiving.splits)
qed

lemma threads_reachable: "(rtp_step tv2lin)\<^sup>*\<^sup>* (threads_new random ns) th \<Longrightarrow> threads_ok th"
proof (induction rule: rtranclp_induct)
  case base
  have "queue_of (stm_q (sn_stm (rtpinit random ns))) []" by (simp add: rtpinit_def queue_of_def)
  then show ?case unfolding threads_ok_def queue_ok_def
    by (simp add: threads_new_def in_hands_def) (intro exI [of _ "[]"], simp add: rtp_sorted_def)
qed (rule rtp_step_ok)

text \<open>
  C8: however the receiver and the player interleave, also when packets are inserted while the player
  holds one that it then puts back, the packets of the queue are a well-formed doubly linked list,
  sorted by extended sequence number, each of them at least a header of version 2; a packet that a
  thread holds is not in the queue; and a thread that is to put its packet in can do so: the
  search of the queue ends.\<close>

theorem rtp_queue_always_sorted:
  assumes "(rtp_step tv2lin)\<^sup>*\<^sup>* (threads_new random ns) th"
  shows "(\<exists>xs. queue_of (stm_q (sn_stm (th_sn th))) xs \<and> rtp_sorted (rq_nodes (stm_q (sn_stm (th_sn th)))) xs
      \<and> (\<forall>i \<in> set xs. RTP_MINHDRLEN \<le> rln_len (rq_nodes (stm_q (sn_stm (th_sn th))) i)
           \<and> rtp_ver (rln_rtp (rq_nodes (stm_q (sn_stm (th_sn th))) i)) = RTP_CURRVERS)
      \<and> (\<forall>i. th_player th = Pl_has i \<or> th_recv th = Rv_has i \<longrightarrow> i \<notin> set xs))
    \<and> (\<forall>i. th_player th = Pl_has i \<longrightarrow> play_packet tv2lin now i (sn_stm (th_sn th)) \<noteq> None)
    \<and> (\<forall>i. th_recv th = Rv_has i \<longrightarrow> rtprecv_insert i (th_sn th) \<noteq> None)"
proof -
  have ok: "queue_ok (stm_q (sn_stm (th_sn th))) (in_hands th)" using threads_reachable [OF assms] by (simp add: threads_ok_def)
  have "play_packet tv2lin now i (sn_stm (th_sn th)) \<noteq> None" if "th_player th = Pl_has i" for i
    using play_packet_ok [OF ok, of i] that by (fastforce simp: in_hands_def)
  moreover have "rtprecv_insert i (th_sn th) \<noteq> None" if "th_recv th = Rv_has i" for i
    using queue_ok_insert [OF ok, of i] that by (fastforce simp: in_hands_def rtprecv_insert_def)
  moreover obtain xs where "queue_of (stm_q (sn_stm (th_sn th))) xs" "rtp_sorted (rq_nodes (stm_q (sn_stm (th_sn th)))) xs"
    "set xs \<inter> in_hands th = {}" "\<forall>i \<in> set xs \<union> in_hands th. packet_ok (stm_q (sn_stm (th_sn th))) i"
    using ok unfolding queue_ok_def by blast
  ultimately show ?thesis by (auto simp: packet_ok_def in_hands_def intro!: exI [of _ xs])
qed

text \<open>
  A run: of the first two packets of a stream the second is accepted, and with the third the player may
  start; while it holds that second packet the fourth comes and is put behind the third.
\<close>

definition demo_packet :: "16 word \<Rightarrow> u32 \<Rightarrow> rtp" where
  "demo_packet sq ti = \<lparr>rtp_cc = 0, rtp_ver = 2, rtp_payload = 0, rtp_mark = False, rtp_seq = sq, rtp_time = ti, rtp_ssrc = 7\<rparr>"

lemmas rtp_ops = threads_new_def rtpinit_def rtprecv_packet_def rtprecv_insert_def rtprecv_announce_def rtpnewdata_def
  rtpupdate_def rtpupdateseq_def rtpinitseq_def play_take_def rtpqdequeue_def rtpqinsert_def rtpq_walk.simps set_next_def
  set_prev_def demo_packet_def rtp_consts Let_def

lemma linked_unique: "linked ns b xs None \<Longrightarrow> linked ns b' ys None \<Longrightarrow> first_of xs None = first_of ys None \<Longrightarrow> xs = ys"
proof (induction xs arbitrary: b b' ys)
  case Nil
  then show ?case by (cases ys) auto
next
  case (Cons x xs)
  then obtain zs where "ys = x # zs" by (cases ys) auto
  with Cons show ?case by (auto simp: linked_Cons)
qed

lemma queue_unique: "queue_of q xs \<Longrightarrow> queue_of q ys \<Longrightarrow> xs = ys"
  unfolding queue_of_def using linked_unique by metis

lemma fresh_packet: "queue_of q xs \<Longrightarrow> pln \<notin> set xs \<Longrightarrow> \<forall>ys. queue_of q ys \<longrightarrow> pln \<notin> set ys"
  using queue_unique by blast

abbreviation rtp_runs :: "rtp_threads \<Rightarrow> rtp_threads \<Rightarrow> bool" where
  "rtp_runs \<equiv> (rtp_step (\<lambda>_ _. 0))\<^sup>*\<^sup>*"

lemma via_receives:
  assumes "th_recv th = Rv_idle" and "queue_of (stm_q (sn_stm (th_sn th))) xs" and "pln \<notin> set xs" and "th_player th \<noteq> Pl_has pln"
    and "rtp_runs (let R = rtprecv_packet (\<lambda>_ _. 0) now random pln len prtp (th_sn th)
      in th\<lparr>th_sn := snd R, th_recv := (if fst R then Rv_has pln else Rv_idle)\<rparr>) t"
  shows "rtp_runs th t"
proof -
  obtain go_on sn' where R: "rtprecv_packet (\<lambda>_ _. 0) now random pln len prtp (th_sn th) = (go_on, sn')" by force
  show ?thesis
    by (rule converse_rtranclp_into_rtranclp, rule Receives [OF assms(1) fresh_packet [OF assms(2,3)] assms(4) R])
      (use assms(5) R in \<open>simp add: Let_def\<close>)
qed

lemma via_inserts:
  assumes "th_recv th = Rv_has pln" and "rtprecv_insert pln (th_sn th) = Some R"
    and "rtp_runs (th\<lparr>th_sn := snd R, th_recv := Rv_queued (fst R)\<rparr>) t"
  shows "rtp_runs th t"
  by (rule converse_rtranclp_into_rtranclp, rule Inserts [OF assms(1), of "fst R" "snd R"]) (use assms(2,3) in simp_all)

lemma via_takes:
  assumes "th_player th = Pl_top" and "play_take (sn_stm (th_sn th)) = R"
    and "rtp_runs (th\<lparr>th_sn := (th_sn th)\<lparr>sn_stm := snd R\<rparr>, th_player := (case fst R of None \<Rightarrow> Pl_out | Some pln \<Rightarrow> Pl_has pln)\<rparr>) t"
  shows "rtp_runs th t"
  by (rule converse_rtranclp_into_rtranclp, rule Takes [OF assms(1), of "fst R" "snd R"]) (use assms(2,3) in simp_all)

lemma demo_run:
  "\<exists>th. rtp_runs (threads_new 1 ns) th \<and> th_player th = Pl_has 0 \<and> rq_head (stm_q (sn_stm (th_sn th))) = Some 1
    \<and> rq_tail (stm_q (sn_stm (th_sn th))) = Some 2"
  apply (rule exI, rule conjI)
  apply (rule via_receives [where pln = 0 and len = 100 and prtp = "demo_packet 1 0" and random = 1 and now = 0 and xs = "[]"])
      apply (simp_all add: rtp_ops queue_of_def)
  apply (rule via_receives [where pln = 0 and len = 100 and prtp = "demo_packet 2 0" and random = 1 and now = 0 and xs = "[]"])
      apply (simp_all add: rtp_ops queue_of_def)
  apply (rule via_inserts, simp, simp add: rtp_ops, simp)
  apply (rule converse_rtranclp_into_rtranclp, rule Announces [where now = 0 and is_head = True], simp, simp, simp, simp add: rtp_ops)
  apply (rule via_receives [where pln = 1 and len = 100 and prtp = "demo_packet 3 8000" and random = 1 and now = 0 and xs = "[0]"])
      apply (simp_all add: rtp_ops queue_of_def linked_Cons last_of_def)
  apply (rule via_inserts, simp, simp add: rtp_ops, simp)
  apply (rule converse_rtranclp_into_rtranclp, rule Announces [where now = 0 and is_head = False], simp, simp, simp, simp add: rtp_ops)
  apply (rule converse_rtranclp_into_rtranclp, rule Wakes, simp, simp)
  apply (rule via_takes, simp, simp add: rtp_ops, simp)
  apply (rule via_receives [where pln = 2 and len = 100 and prtp = "demo_packet 4 8160" and random = 1 and now = 0 and xs = "[1]"])
      apply (simp_all add: rtp_ops queue_of_def linked_Cons last_of_def)
  apply (rule via_inserts, simp, simp add: rtp_ops, simp)
   apply (rule rtranclp.rtrancl_refl)
  apply simp
  done

theorem rtp_queue_always_sorted_witness:
  "\<forall>ns. \<exists>th xs. rtp_runs (threads_new 1 ns) th \<and> th_player th = Pl_has 0 \<and> queue_of (stm_q (sn_stm (th_sn th))) xs
    \<and> hd xs = 1 \<and> last xs = 2 \<and> 0 \<notin> set xs \<and> play_packet (\<lambda>_ _. 0) 0 0 (sn_stm (th_sn th)) \<noteq> None"
proof (intro allI)
  fix ns
  obtain th where th: "rtp_runs (threads_new 1 ns) th" "th_player th = Pl_has 0" "rq_head (stm_q (sn_stm (th_sn th))) = Some 1"
    "rq_tail (stm_q (sn_stm (th_sn th))) = Some 2"
    using demo_run by blast
  with rtp_queue_always_sorted [OF th(1)] obtain xs where xs: "queue_of (stm_q (sn_stm (th_sn th))) xs" "0 \<notin> set xs"
    and p: "play_packet (\<lambda>_ _. 0) 0 0 (sn_stm (th_sn th)) \<noteq> None" by blast
  moreover have "hd xs = 1 \<and> last xs = 2" using xs(1) th(3,4) by (cases xs) (auto simp: queue_of_def last_of_def split: if_splits)
  ultimately show "\<exists>th xs. rtp_runs (threads_new 1 ns) th \<and> th_player th = Pl_has 0 \<and> queue_of (stm_q (sn_stm (th_sn th))) xs
    \<and> hd xs = 1 \<and> last xs = 2 \<and> 0 \<notin> set xs \<and> play_packet (\<lambda>_ _. 0) 0 0 (sn_stm (th_sn th)) \<noteq> None"
    using th(1,2) by blast
qed

end
