(* ===== verification/Rtcp.thy ===== *)
theory Rtcp
  imports Rtp
begin

text \<open>
  The control protocol of the RTP library: rtcprecv.c, rtcpinterval.c and rtcpcycle.c, with the
  receiver report as the bytes that are sent. A random number in [0, 1) is an argument.
\<close>

subsection \<open>Sender reports\<close>

text \<open>What \<open>rtcprecv\<close> does with the fields of a packet; the length of the packet is not looked at.\<close>

definition rtcprecv :: "int \<Rightarrow> nat \<Rightarrow> nat \<Rightarrow> u32 \<Rightarrow> u32 \<Rightarrow> u32 \<Rightarrow> stream \<Rightarrow> stream" where
  "rtcprecv now ver type ssrc fracts intts s =
     (if ver = RTP_CURRVERS \<and> type = RTCP_SR \<and> ssrc = stm_ssrc s
      then s\<lparr>stm_inactive := 0, stm_lastsr := now, stm_ntp := (fracts, intts)\<rparr>
      else s)"

subsection \<open>The interval between reports\<close>

text \<open>The conversion of a \<open>double\<close> to an \<open>int\<close>.\<close>

definition truncated :: "real \<Rightarrow> int" where
  "truncated x = (if 0 \<le> x then \<lfloor>x\<rfloor> else \<lceil>x\<rceil>)"

definition rtcpinterval :: "int \<Rightarrow> int \<Rightarrow> real \<Rightarrow> bool \<Rightarrow> int \<Rightarrow> int \<Rightarrow> bool \<Rightarrow> real \<Rightarrow> real \<times> int" where
  "rtcpinterval members senders rtcp_bw we_sent packet_size avg_rtcp_size initial drand =
     (let rtcp_min_time = (if initial then 5 / 2 else 5);
          avg0 = (if initial then 128 else avg_rtcp_size);
          (bw, n) = (if senders > 0 \<and> of_int senders < of_int members * (1 / 4 :: real)
                     then if we_sent then (rtcp_bw * (1 / 4), senders) else (rtcp_bw * (3 / 4), members - senders)
                     else (rtcp_bw, members));
          avg = truncated (of_int avg0 + of_int (packet_size - avg0) * (1 / 16));
          t0 = of_int avg * of_int n / bw;
          t = (if t0 < rtcp_min_time then rtcp_min_time else t0)
      in (t * (drand + 1 / 2), avg))"

text \<open>
  the interval is at least half of the minimum of 5 seconds, or of 2.5 at first, and less than one and
  a half times the larger of the minimum and the time the members' reports take; the average size of a
  report stays between its value and the size of the last packet.\<close>

theorem rtcp_interval_bounds:
  assumes "0 \<le> drand" and "drand < 1" and "0 \<le> avg" and "0 \<le> ps" and "0 < bw" and "0 < members"
    and "rtcpinterval members senders bw we_sent ps avg initial drand = (wait, avg')"
  shows "(if initial then 5 / 4 else 5 / 2) \<le> wait
    \<and> (senders = 0 \<longrightarrow> wait < 3 / 2 * max (if initial then 5 / 2 else 5) (of_int avg' * of_int members / bw))
    \<and> (let a = (if initial then 128 else avg) in min a ps \<le> avg' \<and> avg' \<le> max a ps)"
proof -
  define a :: int where "a = (if initial then 128 else avg)"
  define x :: real where "x = of_int a + of_int (ps - a) * (1 / 16)"
  have a: "0 \<le> a" using assms(3) by (simp add: a_def)
  have x: "of_int (min a ps) \<le> x" "x \<le> of_int (max a ps)" by (simp_all add: x_def min_def max_def field_simps)
  then have "0 \<le> x" using a assms(4) by (simp add: min_def split: if_splits)
  then have avg': "avg' = \<lfloor>x\<rfloor>"
    using assms(7) by (auto simp: rtcpinterval_def Let_def truncated_def x_def a_def split: prod.splits)
  have bounds: "min a ps \<le> avg'" "avg' \<le> max a ps" using x by (simp_all add: avg' le_floor_iff floor_le_iff le_less_trans)
  define m :: real where "m = (if initial then 5 / 2 else 5)"
  obtain bw' n where B: "(if senders > 0 \<and> of_int senders < of_int members * (1 / 4 :: real)
      then if we_sent then (bw * (1 / 4), senders) else (bw * (3 / 4), members - senders) else (bw, members)) = (bw', n)"
    by force
  define t where "t = max m (of_int avg' * of_int n / bw')"
  have "wait = t * (drand + 1 / 2)"
    using assms(7) avg' x_def unfolding rtcpinterval_def B a_def [symmetric] m_def [symmetric] Let_def
    by (auto simp: truncated_def t_def max_def split: if_splits)
  moreover have "senders = 0 \<longrightarrow> t = max m (of_int avg' * of_int members / bw)" using B by (auto simp: t_def)
  ultimately have t: "wait = t * (drand + 1 / 2)" "m \<le> t" "senders = 0 \<longrightarrow> t = max m (of_int avg' * of_int members / bw)"
    by (simp_all add: t_def)
  have m: "0 < m" by (simp add: m_def)
  then have "0 < t" using t(2) by linarith
  then have w: "t * (1 / 2) \<le> wait" "wait < t * (3 / 2)" using assms(1,2) unfolding t(1) by (simp_all add: mult_left_mono)
  have "m * (1 / 2) \<le> t * (1 / 2)" using t(2) by simp
  then have "m * (1 / 2) \<le> wait" using w(1) by linarith
  then show ?thesis using t(3) w(2) bounds unfolding a_def m_def Let_def by (auto split: if_splits)
qed

theorem rtcp_interval_bounds_witness:
  "rtcpinterval 2 1 3200 False 60 128 True (1 / 2) = (5 / 2, 123) \<and> (5 / 4 :: real) \<le> 5 / 2"
proof -
  have e: "rtcpinterval 2 1 3200 False 60 128 True (1 / 2) = (5 / 2, 123)"
    by (simp add: rtcpinterval_def truncated_def)
  show ?thesis using rtcp_interval_bounds [OF _ _ _ _ _ _ e] e by simp
qed

subsection \<open>Receiver reports\<close>

text \<open>Three bytes of a signed number of 24 bits, highest first (\<open>hton24\<close>), and back.\<close>

definition be24 :: "int \<Rightarrow> bytes" where
  "be24 v = (let n = nat (v mod 2 ^ 24) in [char_of (n div 65536), char_of (n div 256), char_of n])"

definition of_be24 :: "bytes \<Rightarrow> int" where
  "of_be24 bs = (let n = int (of_char (bs ! 0) * 65536 + of_char (bs ! 1) * 256 + of_char (bs ! 2)) in if n < 2 ^ 23 then n else n - 2 ^ 24)"

definition exthiseq :: "stream \<Rightarrow> int" where
  "exthiseq s = stm_roll s * 65536 + uint (stm_hiseq s)"

definition cumexp :: "stream \<Rightarrow> int" where
  "cumexp s = exthiseq s - uint (stm_firstseq s) + 1"

definition fraclost :: "stream \<Rightarrow> int" where
  "fraclost s =
     (let cycexp = cumexp s - stm_expprior s;
          cyclost = max (cycexp - (stm_packets s - stm_recprior s)) 0
      in (if cycexp = 0 then 0 else (cyclost * 256) sdiv cycexp) mod 256)"

definition cumlost :: "stream \<Rightarrow> int" where
  "cumlost s = max (min (cumexp s - stm_packets s) 0x7FFFFF) (- (2 ^ 23))"

definition receiver_report :: "(int \<Rightarrow> int \<Rightarrow> int) \<Rightarrow> int \<Rightarrow> rtp_session \<Rightarrow> bytes" where
  "receiver_report tv2lin now sn =
     (let s = sn_stm sn in
        rtcpheader 1 RTCP_RR 32 @ be_bytes (sn_ssrc sn) @ be_bytes (stm_ssrc s)
        @ [char_of (nat (fraclost s))] @ be24 (cumlost s) @ be_bytes (of_int (exthiseq s))
        @ be_bytes (of_int \<lfloor>stm_jitter s\<rfloor>)
        @ be_bytes (push_bit 16 (snd (stm_ntp s) AND 0xFFFF) OR drop_bit 16 (fst (stm_ntp s) AND 0xFFFF0000))
        @ be_bytes (if stm_lastsr s div 1000000 \<noteq> 0 then of_int (tv2lin (now - stm_lastsr s) 65536) else 0))"

text \<open>
  A round of \<open>rtcpcycle\<close> after its sleep: the session, and how long it sleeps next; it exits when it
  has been idle for RTP_INACTTHRESH rounds.
\<close>

definition rtcpcycle :: "(int \<Rightarrow> int \<Rightarrow> int) \<Rightarrow> int \<Rightarrow> real \<Rightarrow> rtp_session \<Rightarrow> real \<times> rtp_session" where
  "rtcpcycle tv2lin now drand sn =
     (let s = sn_stm sn in
      if stm_packets s = stm_recprior s
      then let s1 = s\<lparr>stm_inactive := stm_inactive s + 1\<rparr>; sn1 = sn\<lparr>sn_stm := s1\<rparr>
           in if stm_inactive s1 = RTP_INACTTHRESH then (0, (rtcpsendbye sn1)\<lparr>sn_exited := True\<rparr>)
              else (case rtcpinterval 2 0 3200 False 0 (sn_avgrtcp sn1) False drand of
                      (wait, avg) \<Rightarrow> (wait, sn1\<lparr>sn_avgrtcp := avg\<rparr>))
      else let sn1 = sn\<lparr>sn_sent := sn_sent sn @ [receiver_report tv2lin now sn],
                       sn_stm := s\<lparr>stm_expprior := cumexp s, stm_recprior := stm_packets s\<rparr>\<rparr>
           in (case rtcpinterval 2 1 3200 False (32 + 28) (sn_avgrtcp sn1) False drand of
                 (wait, avg) \<Rightarrow> (wait, sn1\<lparr>sn_avgrtcp := avg\<rparr>)))"

lemma of_be24_be24:
  assumes "- (2 ^ 23) \<le> v" and "v < 2 ^ 23"
  shows "of_be24 (be24 v @ r) = v"
proof -
  define n where "n = nat (v mod 2 ^ 24)"
  have n: "n < 256 * 256 * 256" "int n = v mod 2 ^ 24" by (simp_all add: n_def nat_less_iff)
  have "n div 65536 = n div 256 div 256" using div_mult2_eq [of n 256 256] by simp
  moreover have "n div 256 div 256 < 256" using n(1) by (simp add: less_mult_imp_div_less)
  ultimately have top: "n div 65536 mod 256 = n div 256 div 256" by simp
  have "n div 256 * 256 + n mod 256 = n" "n div 256 div 256 * 256 + n div 256 mod 256 = n div 256"
    by (rule div_mult_mod_eq)+
  then have "n div 65536 mod 256 * 65536 + n div 256 mod 256 * 256 + n mod 256 = n" unfolding top by linarith
  then have "of_be24 (be24 v @ r) = (if int n < 2 ^ 23 then int n else int n - 2 ^ 24)"
    unfolding of_be24_def be24_def n_def [symmetric] Let_def by (simp only: append_Cons nth_Cons_0 nth_Cons_Suc
        One_nat_def numeral_2_eq_2 of_char_of)
  moreover have "v mod 2 ^ 24 = (if 0 \<le> v then v else v + 2 ^ 24)"
    using assms mod_pos_pos_trivial [of "v + 2 ^ 24" "2 ^ 24"] by auto
  ultimately show ?thesis using assms unfolding n(2) by (simp split: if_splits)
qed


text \<open>
  in a receiver report the fraction of lost packets is the part of the packets expected since the
  last report, rounded down, and fits its 8 bits; the number of all that are lost comes back from its
  24 bits, with its sign; and the highest sequence number is the extended one.\<close>

theorem rtcp_report_fields:
  assumes "s = sn_stm sn" and "stm_recprior s < stm_packets s" and "stm_expprior s < cumexp s"
    and "b = receiver_report tv2lin now sn" and "expected = cumexp s - stm_expprior s"
    and "lost = max (expected - (stm_packets s - stm_recprior s)) 0"
  shows "length b = 32 \<and> int (of_char (b ! 12)) = 256 * lost div expected \<and> 256 * lost div expected < 256
    \<and> of_be24 (drop 13 b) = max (min (cumexp s - stm_packets s) 0x7FFFFF) (- (2 ^ 23))
    \<and> be_word (take 4 (drop 16 b)) = of_int (exthiseq s)"
proof -
  have e: "0 < expected" "0 \<le> lost" "lost < expected" using assms(2,3,5,6) by auto
  then have nonneg: "0 \<le> 256 * lost div expected" by (simp add: pos_imp_zdiv_nonneg_iff)
  have "256 * lost div expected < 256"
  proof (rule ccontr)
    assume "\<not> 256 * lost div expected < 256"
    then have "256 * expected \<le> 256 * lost div expected * expected" using e(1) by (intro mult_right_mono) simp_all
    also have "\<dots> \<le> 256 * lost" using div_mult_mod_eq [of "256 * lost" expected] pos_mod_sign [OF e(1), of "256 * lost"] by linarith
    finally show False using e(3) by simp
  qed
  with nonneg have f: "0 \<le> 256 * lost div expected" "256 * lost div expected < 256" by simp_all
  have "(lost * 256) sdiv expected = 256 * lost div expected"
    using e by (cases "lost = 0") (simp_all add: signed_divide_int_def mult.commute)
  then have frac: "fraclost s = 256 * lost div expected"
    using e(1) f unfolding fraclost_def Let_def assms(5) [symmetric] assms(6) [symmetric] by (simp add: mod_pos_pos_trivial)
  have b: "b = rtcpheader 1 RTCP_RR 32 @ be_bytes (sn_ssrc sn) @ be_bytes (stm_ssrc s) @ [char_of (nat (fraclost s))]
      @ be24 (cumlost s) @ be_bytes (of_int (exthiseq s)) @ drop 20 b"
    unfolding assms(1,4) receiver_report_def Let_def by (simp add: rtcpheader_def be24_def Let_def)
  have len: "length (rtcpheader c ty l) = 4" "length (be24 (cumlost s)) = 3" for c ty l
    by (simp_all add: rtcpheader_def be24_def Let_def)
  have "length b = 32" unfolding assms(4) receiver_report_def Let_def by (simp add: rtcpheader_def be24_def Let_def)
  moreover have "b ! 12 = char_of (nat (fraclost s))" by (subst b) (simp add: nth_append len)
  moreover have "drop 13 b = be24 (cumlost s) @ be_bytes (of_int (exthiseq s)) @ drop 20 b" by (subst b) (simp add: len)
  moreover have "drop 16 b = be_bytes (of_int (exthiseq s)) @ drop 20 b" by (subst b) (simp add: len)
  ultimately show ?thesis
    using f of_be24_be24 [of "cumlost s" "be_bytes (of_int (exthiseq s)) @ drop 20 b"]
    by (simp add: frac of_char_of cumlost_def)
qed

theorem rtcp_report_fields_witness:
  "int (of_char (receiver_report (\<lambda>_ _. 0) 0 ((rtpinit 0 (\<lambda>_. undefined))\<lparr>sn_stm := validated\<lparr>stm_packets := 3, stm_hiseq := 3\<rparr>\<rparr>) ! 12)) = 64"
  using rtcp_report_fields [OF refl, of "(rtpinit 0 (\<lambda>_. undefined))\<lparr>sn_stm := validated\<lparr>stm_packets := 3, stm_hiseq := 3\<rparr>\<rparr>",
      OF _ _ refl refl refl, of "\<lambda>_ _. 0" 0]
  by (simp add: validated_def rtpinit_def cumexp_def exthiseq_def)

lemma rtcpcycle_idle:
  assumes "stm_packets (sn_stm sn) = stm_recprior (sn_stm sn)"
  shows "stm_packets (sn_stm (snd (rtcpcycle tv2lin now d sn))) = stm_recprior (sn_stm (snd (rtcpcycle tv2lin now d sn)))"
    "stm_inactive (sn_stm (snd (rtcpcycle tv2lin now d sn))) = stm_inactive (sn_stm sn) + 1"
    "sn_exited (snd (rtcpcycle tv2lin now d sn)) = (sn_exited sn \<or> stm_inactive (sn_stm sn) + 1 = 5)"
    "sn_sent (snd (rtcpcycle tv2lin now d sn))
      = (if stm_inactive (sn_stm sn) + 1 = 5 then sn_sent sn @ [rtcpheader 1 RTCP_BYE 8 @ be_bytes (sn_ssrc sn)] else sn_sent sn)"
    "sn_ssrc (snd (rtcpcycle tv2lin now d sn)) = sn_ssrc sn"
  using assms by (auto simp: rtcpcycle_def Let_def RTP_INACTTHRESH_def rtcpsendbye_def split: prod.split)

definition rtcp_rounds :: "(int \<Rightarrow> int \<Rightarrow> int) \<Rightarrow> (int \<times> real) list \<Rightarrow> rtp_session \<Rightarrow> rtp_session" where
  "rtcp_rounds tv2lin rs sn = fold (\<lambda>(now, d) sn. if sn_exited sn then sn else snd (rtcpcycle tv2lin now d sn)) rs sn"

lemma rtcp_rounds_idle:
  "stm_packets (sn_stm sn) = stm_recprior (sn_stm sn) \<Longrightarrow> \<not> sn_exited sn \<Longrightarrow> stm_inactive (sn_stm sn) + int (length rs) < 5 \<Longrightarrow>
    let t = rtcp_rounds tv2lin rs sn in \<not> sn_exited t \<and> sn_sent t = sn_sent sn \<and> sn_ssrc t = sn_ssrc sn
      \<and> stm_inactive (sn_stm t) = stm_inactive (sn_stm sn) + int (length rs) \<and> stm_packets (sn_stm t) = stm_recprior (sn_stm t)"
proof (induction rs arbitrary: sn)
  case (Cons r rs)
  obtain now d where r: "r = (now, d)" by force
  let ?t = "snd (rtcpcycle tv2lin now d sn)"
  have "rtcp_rounds tv2lin (r # rs) sn = rtcp_rounds tv2lin rs ?t" using Cons.prems(2) by (simp add: rtcp_rounds_def r)
  then show ?case
    using Cons.IH [of ?t] Cons.prems rtcpcycle_idle [OF Cons.prems(1), of tv2lin now d] by (auto simp: Let_def)
qed (simp add: rtcp_rounds_def)

text \<open>
  a stream that falls silent ends the receiver after exactly five rounds of the control protocol
  without a packet: it sends one farewell and exits.\<close>

theorem rtcp_leaves_silent_stream:
  assumes "stm_packets (sn_stm sn) = stm_recprior (sn_stm sn)" and "\<not> sn_exited sn" and "stm_inactive (sn_stm sn) = 0"
  shows "(length rs < 5 \<longrightarrow> \<not> sn_exited (rtcp_rounds tv2lin rs sn) \<and> sn_sent (rtcp_rounds tv2lin rs sn) = sn_sent sn)
    \<and> (5 \<le> length rs \<longrightarrow> sn_exited (rtcp_rounds tv2lin rs sn)
        \<and> sn_sent (rtcp_rounds tv2lin rs sn) = sn_sent sn @ [rtcpheader 1 RTCP_BYE 8 @ be_bytes (sn_ssrc sn)])"
proof (intro conjI impI)
  assume "length rs < 5"
  then show "\<not> sn_exited (rtcp_rounds tv2lin rs sn)" "sn_sent (rtcp_rounds tv2lin rs sn) = sn_sent sn"
    using rtcp_rounds_idle [OF assms(1,2), of rs tv2lin] assms(3) by (simp_all add: Let_def)
next
  assume len: "5 \<le> length rs"
  define t where "t = rtcp_rounds tv2lin (take 4 rs) sn"
  obtain now d vs where v: "drop 4 rs = (now, d) # vs" using len by (cases "drop 4 rs") auto
  have t: "\<not> sn_exited t" "sn_sent t = sn_sent sn" "sn_ssrc t = sn_ssrc sn" "stm_inactive (sn_stm t) = 4"
    "stm_packets (sn_stm t) = stm_recprior (sn_stm t)"
    using rtcp_rounds_idle [OF assms(1,2), of "take 4 rs" tv2lin] assms(3) len by (simp_all add: t_def Let_def)
  have app: "rtcp_rounds tv2lin (xs @ ys) s = rtcp_rounds tv2lin ys (rtcp_rounds tv2lin xs s)" for xs ys s
    by (simp add: rtcp_rounds_def)
  have exited: "rtcp_rounds tv2lin ys s = s" if "sn_exited s" for ys s
    using that by (induction ys) (auto simp: rtcp_rounds_def)
  let ?u = "snd (rtcpcycle tv2lin now d t)"
  have u: "sn_exited ?u" "sn_sent ?u = sn_sent sn @ [rtcpheader 1 RTCP_BYE 8 @ be_bytes (sn_ssrc sn)]"
    using rtcpcycle_idle(3,4) [OF t(5), of tv2lin now d] t by simp_all
  have "rtcp_rounds tv2lin rs sn = rtcp_rounds tv2lin (drop 4 rs) t"
    using app [of "take 4 rs" "drop 4 rs" sn] by (simp add: t_def)
  also have "\<dots> = rtcp_rounds tv2lin vs ?u" using t(1) by (simp add: v rtcp_rounds_def)
  also have "\<dots> = ?u" by (rule exited [OF u(1)])
  finally show "sn_exited (rtcp_rounds tv2lin rs sn)"
    "sn_sent (rtcp_rounds tv2lin rs sn) = sn_sent sn @ [rtcpheader 1 RTCP_BYE 8 @ be_bytes (sn_ssrc sn)]"
    using u by simp_all
qed

theorem rtcp_leaves_silent_stream_witness:
  "sn_exited (rtcp_rounds tv2lin (replicate 5 (0, 0)) (rtpinit 0 ns))"
  using rtcp_leaves_silent_stream [of "rtpinit 0 ns" "replicate 5 (0, 0)" tv2lin] by (simp add: rtpinit_def)

end
