(* ===== verification/Etcp_Lib.thy ===== *)
theory Etcp_Lib
  imports Survey Stdio
begin

text \<open>
  The library of Effective.TCP.IP.Programming: \<open>readn\<close>, \<open>readvrec\<close>, \<open>readcrlf\<close> and \<open>readline\<close>
  (lib/*.c), with \<open>errno\<close> and interrupted calls, and the interface the programs use them through: a
  reader of records that gives back, one by one, what was framed.
\<close>

lemma drop_append_length: "drop (length xs + n) (xs @ ys) = drop n ys"
  by simp

lemma take_append_length: "take (length xs + n) (xs @ ys) = xs @ take n ys"
  by simp

subsection \<open>recv with errno\<close>

record sio =
  sio_conn :: conn
  sio_errno :: int

abbreviation sio_in :: "sio \<Rightarrow> net" where "sio_in t \<equiv> cn_in (sio_conn t)"

definition set_in :: "net \<Rightarrow> sio \<Rightarrow> sio" where
  "set_in s t = t\<lparr>sio_conn := (sio_conn t)\<lparr>cn_in := s\<rparr>\<rparr>"

definition set_errno :: "int \<Rightarrow> sio \<Rightarrow> sio" where
  "set_errno e t = t\<lparr>sio_errno := e\<rparr>"

abbreviation (input) EINTR :: int where "EINTR \<equiv> 4"
abbreviation (input) EMSGSIZE :: int where "EMSGSIZE \<equiv> 90"

definition sio_recv :: "nat \<Rightarrow> sio \<Rightarrow> int \<times> bytes \<times> sio" where
  "sio_recv n t =
     (case read_some n (sio_in t) of
        (ec, got, s) \<Rightarrow>
          if ec_set ec \<and> ec \<noteq> eof then (-1, [], set_errno (ec_value ec) (set_in s t))
          else (int (length got), got, set_in s t))"

lemma set_in_simps [simp]:
  "sio_in (set_in s t) = s" "set_in s (set_in s' t) = set_in s t" "sio_errno (set_in s t) = sio_errno t"
  "sio_errno (set_errno e t) = e" "sio_conn (set_errno e t) = sio_conn t"
  "set_in s (set_errno e t) = set_errno e (set_in s t)" "set_errno e (set_errno e' t) = set_errno e t"
  "cn_out (sio_conn (set_in s t)) = cn_out (sio_conn t)"
  "cn_sends (sio_conn (set_in s t)) = cn_sends (sio_conn t)"
  by (simp_all add: set_in_def set_errno_def)

text \<open>A connection whose only errors are interrupted calls.\<close>

definition only_intr :: "net \<Rightarrow> bool" where
  "only_intr s \<longleftrightarrow> (\<forall>e. Fail e \<in> set s \<longrightarrow> ec_value e = EINTR)"

lemma only_intr_simps [simp]:
  "only_intr []" "only_intr (Arrive d # s) = only_intr s"
  "only_intr (Fail e # s) \<longleftrightarrow> ec_value e = EINTR \<and> only_intr s"
  by (auto simp: only_intr_def)

lemma no_fail_only_intr: "no_fail s \<Longrightarrow> only_intr s"
  by (simp add: no_fail_def only_intr_def)

lemma read_some_only_intr:
  "read_some n s = (ec, got, s') \<Longrightarrow> only_intr s \<Longrightarrow> 0 < n \<Longrightarrow> only_intr s' \<and>
    (ec_value ec = EINTR \<and> got = [] \<and> net_size s' < net_size s
     \<or> ec = no_error \<and> got \<noteq> [] \<and> net_size s' < net_size s
     \<or> ec = eof \<and> got = [] \<and> s' = [] \<and> net_data s = [])"
  by (induction n s rule: read_some.induct) (auto split: if_splits)

lemma sio_recv_cases:
  assumes "only_intr (sio_in t)" and "0 < n"
  obtains
    (intr) s where "sio_recv n t = (-1, [], set_errno EINTR (set_in s t))" "only_intr s"
      "net_data s = net_data (sio_in t)" "net_size s < net_size (sio_in t)"
  | (data) got s where "sio_recv n t = (int (length got), got, set_in s t)" "only_intr s" "got \<noteq> []" "length got \<le> n"
      "net_data (sio_in t) = got @ net_data s" "net_size s < net_size (sio_in t)"
  | (eof) "sio_recv n t = (0, [], set_in [] t)" "net_data (sio_in t) = []"
proof -
  obtain ec got s where r: "read_some n (sio_in t) = (ec, got, s)" by (metis prod_cases3)
  note d = read_some_data [OF r] read_some_length [OF r]
  from read_some_only_intr [OF r assms] consider
      "ec_value ec = EINTR" "got = []" "net_size s < net_size (sio_in t)" "only_intr s"
    | "ec = no_error" "got \<noteq> []" "net_size s < net_size (sio_in t)" "only_intr s"
    | "ec = Asio_Core.eof" "got = []" "s = []" "net_data (sio_in t) = []" by blast
  then show thesis
  proof cases
    case 1
    then have "ec_set ec \<and> ec \<noteq> Asio_Core.eof" by (auto simp: ec_set_def eof_def)
    with 1 r d show thesis by (intro intr [of s]) (simp_all add: sio_recv_def)
  next
    case 2
    with r d show thesis by (intro data [of got s]) (simp_all add: sio_recv_def)
  next
    case 3
    with r show thesis by (intro eof) (simp_all add: sio_recv_def)
  qed
qed

lemma sio_recv_shrinks:
  assumes "sio_recv n t = (rc, got, t')" and "0 < n" and "rc \<noteq> 0"
  shows "net_size (sio_in t') < net_size (sio_in t)"
proof -
  obtain ec g s where r: "read_some n (sio_in t) = (ec, g, s)" by (metis prod_cases3)
  then have t': "sio_in t' = s" using assms(1) by (auto simp: sio_recv_def split: if_splits)
  have "sio_in t \<noteq> []" using assms(1,3) r by (cases "sio_in t") (auto simp: sio_recv_def)
  with read_some_shrinks [OF r assms(2)] t' show ?thesis by simp
qed

subsection \<open>readn\<close>

text \<open>A value kept in an \<open>int\<close>.\<close>

definition c_int :: "int \<Rightarrow> int" where
  "c_int x = sint (word_of_int x :: 32 word)"

lemma c_int_small [simp]: "- (2 ^ 31) \<le> x \<Longrightarrow> x < 2 ^ 31 \<Longrightarrow> c_int x = x"
  by (simp add: c_int_def signed_of_int signed_take_bit_int_eq_self)

lemma c_int_wrap:
  assumes "2 ^ 31 \<le> x" and "x < 2 ^ 32 + 2 ^ 31"
  shows "c_int x = x - 2 ^ 32"
proof -
  have "(word_of_int x :: 32 word) = word_of_int (x - 2 ^ 32)" by (simp add: word_of_int_eq_iff take_bit_eq_mod)
  then have "c_int x = c_int (x - 2 ^ 32)" unfolding c_int_def by (rule arg_cong)
  also have "\<dots> = x - 2 ^ 32" using assms by (intro c_int_small) simp_all
  finally show ?thesis .
qed

text \<open>\<open>readn\<close> gives its result, what it has stored in the buffer, and the connection.\<close>

function readn_loop :: "nat \<Rightarrow> int \<Rightarrow> bytes \<Rightarrow> sio \<Rightarrow> int \<times> bytes \<times> sio" where
  "readn_loop len cnt acc t =
     (if cnt > 0 then
        (case sio_recv (nat cnt) t of
           (rc, got, t1) \<Rightarrow>
             if rc < 0 then if sio_errno t1 = EINTR then readn_loop len cnt acc t1 else (-1, acc, t1)
             else if rc = 0 then (c_int (int len - cnt), acc, t1)
             else readn_loop len (cnt - rc) (acc @ got) t1)
      else (c_int (int len), acc, t))"
  by pat_completeness auto

termination
  by (relation "measure (\<lambda>(_, _, _, t). net_size (sio_in t))") (auto dest!: sio_recv_shrinks [OF sym])

declare readn_loop.simps [simp del]

definition readn :: "nat \<Rightarrow> sio \<Rightarrow> int \<times> bytes \<times> sio" where
  "readn len t = readn_loop len (c_int (int len)) [] t"

text \<open>Nothing has been sent between \<open>t\<close> and \<open>t'\<close>.\<close>

definition same_out :: "sio \<Rightarrow> sio \<Rightarrow> bool" where
  "same_out t t' \<longleftrightarrow> cn_out (sio_conn t') = cn_out (sio_conn t) \<and> cn_sends (sio_conn t') = cn_sends (sio_conn t)"

lemma same_out_simps [simp]:
  "same_out t t" "same_out t (set_in s t')= same_out t t'" "same_out t (set_errno e t') = same_out t t'"
  "same_out (set_in s t) t' = same_out t t'" "same_out (set_errno e t) t' = same_out t t'"
  by (auto simp: same_out_def set_in_def set_errno_def)

lemma same_out_trans: "same_out t u \<Longrightarrow> same_out u v \<Longrightarrow> same_out t v"
  by (simp add: same_out_def)

lemma readn_loop_exact:
  assumes "only_intr (sio_in t)" and "int len = int (length acc) + cnt" and "0 \<le> cnt" and "len < 2 ^ 31"
  shows "\<exists>t'. readn_loop len cnt acc t
      = (int (min len (length acc + length (net_data (sio_in t)))), acc @ take (nat cnt) (net_data (sio_in t)), t')
    \<and> net_data (sio_in t') = drop (nat cnt) (net_data (sio_in t)) \<and> only_intr (sio_in t') \<and> same_out t t'"
  using assms
proof (induction len cnt acc t rule: readn_loop.induct)
  case (1 len cnt acc t)
  show ?case
  proof (cases "cnt > 0")
    case False
    with "1.prems" show ?thesis by (subst readn_loop.simps) (auto intro!: exI [of _ t])
  next
    case True
    then have pos: "0 < nat cnt" by simp
    show ?thesis
    proof (cases rule: sio_recv_cases [OF "1.prems"(1) pos])
      case (1 s)
      from "1.IH"(1) [OF True 1(1) [symmetric] refl] 1 "1.prems" True
      show ?thesis by (subst readn_loop.simps) simp
    next
      case (2 got s)
      have n: "0 < length got" "int (length got) \<le> cnt" using 2(3,4) True by (cases got; simp)+
      have rec: "readn_loop len cnt acc t = readn_loop len (cnt - int (length got)) (acc @ got) (set_in s t)"
        using True 2(1,3) by (subst readn_loop.simps) simp
      have "\<exists>t'. readn_loop len (cnt - int (length got)) (acc @ got) (set_in s t)
          = (int (min len (length (acc @ got) + length (net_data s))), (acc @ got) @ take (nat (cnt - int (length got))) (net_data s), t')
        \<and> net_data (sio_in t') = drop (nat (cnt - int (length got))) (net_data s) \<and> only_intr (sio_in t') \<and> same_out t t'"
        using "1.IH"(2) [OF True 2(1) [symmetric] refl] 2 n "1.prems" by simp
      moreover have "nat cnt = length got + nat (cnt - int (length got))" using n by simp
      ultimately show ?thesis unfolding rec using 2(5) by (metis append.assoc drop_append_length length_append
          take_append_length add.assoc)
    next
      case 3
      have "c_int (int len - cnt) = int (min len (length acc))" using "1.prems" True by simp
      with 3 True show ?thesis by (subst readn_loop.simps) (auto intro!: exI [of _ "set_in [] t"])
    qed
  qed
qed

lemma readn_exact:
  assumes "only_intr (sio_in t)" and "len < 2 ^ 31"
  shows "\<exists>t'. readn len t = (int (min len (length (net_data (sio_in t)))), take len (net_data (sio_in t)), t')
    \<and> net_data (sio_in t') = drop len (net_data (sio_in t)) \<and> only_intr (sio_in t') \<and> same_out t t'"
  using readn_loop_exact [OF assms(1), of len "[]" "int len"] assms(2) by (simp add: readn_def)

subsection \<open>readvrec\<close>

text \<open>
  The loop that discards a record that is too long. With a buffer of no bytes it would not end, so it
  is a partial function.
\<close>

partial_function (option) discard :: "u32 \<Rightarrow> nat \<Rightarrow> sio \<Rightarrow> (int \<times> sio) option" where
  "discard reclen len t =
     (if reclen > 0 then
        (case readn len t of
           (rc, _, t1) \<Rightarrow>
             if rc \<noteq> int len then Some (if rc < 0 then -1 else 0, t1)
             else let reclen' = reclen - of_nat len
                  in discard reclen' (if unat reclen' < len then unat reclen' else len) t1)
      else Some (-1, set_errno EMSGSIZE t))"

definition readvrec :: "nat \<Rightarrow> sio \<Rightarrow> (int \<times> bytes \<times> sio) option" where
  "readvrec len t =
     (case readn 4 t of
        (rc, got, t1) \<Rightarrow>
          if rc \<noteq> 4 then Some (if rc < 0 then -1 else 0, [], t1)
          else let reclen = be_word got in
            if unat reclen > len
            then map_option (\<lambda>(rc, t2). (rc, [], t2)) (discard reclen len t1)
            else (case readn (unat reclen) t1 of
                    (rc, buf, t2) \<Rightarrow>
                      Some (if rc \<noteq> int (unat reclen) then if rc < 0 then -1 else 0 else rc, buf, t2)))"

lemma unat_minus_nat: "len \<le> unat w \<Longrightarrow> unat (w - of_nat len) = unat w - len"
  for w :: u32
proof -
  assume a: "len \<le> unat w"
  have "unat w < 2 ^ 32" using unsigned_less [of w] by simp
  with a have "unat (of_nat len :: u32) = len" by (simp add: unsigned_of_nat take_bit_eq_mod)
  with a show ?thesis by (simp add: unat_sub word_le_nat_alt)
qed

lemma discard_ends:
  assumes "only_intr (sio_in t)" and "len < 2 ^ 31" and "0 < len \<and> len \<le> unat reclen \<or> reclen = 0"
  shows "\<exists>t'. discard reclen len t = Some (if unat reclen \<le> length (net_data (sio_in t)) then -1 else 0, t')
    \<and> net_data (sio_in t') = drop (unat reclen) (net_data (sio_in t)) \<and> only_intr (sio_in t') \<and> same_out t t'
    \<and> (unat reclen \<le> length (net_data (sio_in t)) \<longrightarrow> sio_errno t' = EMSGSIZE)"
  using assms
proof (induction "unat reclen" arbitrary: reclen len t rule: less_induct)
  case less
  show ?case
  proof (cases "reclen = 0")
    case True
    with less.prems show ?thesis by (subst discard.simps) (auto intro!: exI [of _ "set_errno EMSGSIZE t"])
  next
    case False
    with less.prems(3) have len: "0 < len" "len \<le> unat reclen" by auto
    obtain t1 where r: "readn len t = (int (min len (length (net_data (sio_in t)))), take len (net_data (sio_in t)), t1)"
      and d: "net_data (sio_in t1) = drop len (net_data (sio_in t))" "only_intr (sio_in t1)" "same_out t t1"
      using readn_exact [OF less.prems(1,2)] by blast
    define r' where "r' = reclen - of_nat len"
    have r': "unat r' = unat reclen - len" unfolding r'_def by (rule unat_minus_nat [OF len(2)])
    have pos: "reclen > 0" using False by (simp add: word_neq_0_conv)
    show ?thesis
    proof (cases "len \<le> length (net_data (sio_in t))")
      case short: False
      with r d pos len show ?thesis by (subst discard.simps) (auto intro!: exI [of _ t1])
    next
      case True
      then have step: "discard reclen len t = discard r' (if unat r' < len then unat r' else len) t1"
        using r pos by (subst discard.simps) (simp add: Let_def r'_def)
      have ih: "0 < (if unat r' < len then unat r' else len) \<and> (if unat r' < len then unat r' else len) \<le> unat r' \<or> r' = 0"
        using len(1) by (auto simp: unat_eq_0 [symmetric] simp del: unat_eq_0)
      have "unat r' < unat reclen" "(if unat r' < len then unat r' else len) < 2 ^ 31"
        using r' len less.prems(2) by auto
      from less.hyps [OF this(1) d(2) this(2) ih] obtain t' where
        t': "discard r' (if unat r' < len then unat r' else len) t1
            = Some (if unat r' \<le> length (net_data (sio_in t1)) then -1 else 0, t')"
          "net_data (sio_in t') = drop (unat r') (net_data (sio_in t1))" "only_intr (sio_in t')" "same_out t1 t'"
          "unat r' \<le> length (net_data (sio_in t1)) \<longrightarrow> sio_errno t' = EMSGSIZE" by blast
      have "unat r' \<le> length (net_data (sio_in t1)) \<longleftrightarrow> unat reclen \<le> length (net_data (sio_in t))"
        using d(1) r' True len by (simp add: le_diff_conv)
      moreover have "drop (unat r') (net_data (sio_in t1)) = drop (unat reclen) (net_data (sio_in t))"
        using d(1) r' len by simp
      ultimately show ?thesis unfolding step using t' same_out_trans [OF d(3) t'(4)] by auto
    qed
  qed
qed

text \<open>The wire format of a record, as vrc.c sends it.\<close>

definition vrec :: "bytes \<Rightarrow> bytes" where
  "vrec m = be_bytes (of_nat (length m)) @ m"

lemma readvrec_record:
  assumes "only_intr (sio_in t)" and "net_data (sio_in t) = vrec m @ rest" and "length m < 2 ^ 32"
    and "0 < len" and "len < 2 ^ 31"
  shows "\<exists>t'. readvrec len t = Some (if length m \<le> len then (int (length m), m, t') else (-1, [], t'))
    \<and> net_data (sio_in t') = rest \<and> only_intr (sio_in t') \<and> same_out t t'
    \<and> (len < length m \<longrightarrow> sio_errno t' = EMSGSIZE)"
proof -
  let ?n = "of_nat (length m) :: u32"
  have n: "unat ?n = length m" using assms(3) by (simp add: unsigned_of_nat take_bit_eq_mod)
  have data: "net_data (sio_in t) = be_bytes ?n @ m @ rest" using assms(2) by (simp add: vrec_def)
  obtain t1 where r: "readn 4 t = (4, be_bytes ?n, t1)"
    and d: "net_data (sio_in t1) = m @ rest" "only_intr (sio_in t1)" "same_out t t1"
    using readn_exact [OF assms(1), of 4] data by auto
  show ?thesis
  proof (cases "length m \<le> len")
    case True
    then obtain t2 where "readn (length m) t1 = (int (length m), m, t2)" "net_data (sio_in t2) = rest"
        "only_intr (sio_in t2)" "same_out t1 t2"
      using readn_exact [OF d(2), of "length m"] d(1) assms(5) by auto
    with r n True same_out_trans [OF d(3)] show ?thesis by (auto simp: readvrec_def Let_def)
  next
    case False
    with discard_ends [OF d(2) assms(5), of ?n] n assms(4) d(1) obtain t2 where
      "discard ?n len t1 = Some (-1, t2)" "net_data (sio_in t2) = rest" "only_intr (sio_in t2)" "same_out t1 t2"
      "sio_errno t2 = EMSGSIZE" by auto
    with r n False same_out_trans [OF d(3)] show ?thesis by (auto simp: readvrec_def Let_def)
  qed
qed

lemma readvrec_end:
  assumes "only_intr (sio_in t)" and "net_data (sio_in t) = []"
  shows "\<exists>t'. readvrec len t = Some (0, [], t') \<and> net_data (sio_in t') = [] \<and> only_intr (sio_in t') \<and> same_out t t'"
  using readn_exact [OF assms(1), of 4] assms(2) by (auto simp: readvrec_def)

subsection \<open>readcrlf\<close>

text \<open>
  \<open>readcrlf\<close> stores a NUL behind what is given here as the contents of the buffer; \<open>len\<close> counts the
  room that is left.
\<close>

function readcrlf_loop :: "nat \<Rightarrow> bytes \<Rightarrow> char \<Rightarrow> sio \<Rightarrow> int \<times> bytes \<times> sio" where
  "readcrlf_loop len acc lastc t =
     (if len > 0 then
        (case sio_recv 1 t of
           (rc, got, t1) \<Rightarrow>
             if rc \<noteq> 1 then if rc < 0 \<and> sio_errno t1 = EINTR then readcrlf_loop len acc lastc t1 else (rc, acc, t1)
             else let c = hd got in
               if c = NL then let acc' = (if lastc = CR then butlast acc else acc) in (int (length acc'), acc', t1)
               else readcrlf_loop (len - 1) (acc @ [c]) c t1)
      else (-1, acc, set_errno EMSGSIZE t))"
  by pat_completeness auto

termination
  by (relation "measures [\<lambda>(len, _, _, t). len, \<lambda>(_, _, _, t). net_size (sio_in t)]") (auto dest!: sio_recv_shrinks [OF sym])

declare readcrlf_loop.simps [simp del]

definition readcrlf :: "nat \<Rightarrow> sio \<Rightarrow> int \<times> bytes \<times> sio" where
  "readcrlf len t = readcrlf_loop len [] CHR 0x00 t"

lemma readcrlf_loop_line:
  assumes "only_intr (sio_in t)" and "net_data (sio_in t) = m @ NL # rest" and "NL \<notin> set m" and "length m < len"
    and "acc = [] \<or> lastc = last acc" and "acc = [] \<longrightarrow> lastc = CHR 0x00"
  shows "\<exists>t'. readcrlf_loop len acc lastc t = (let l = acc @ m; l' = (if l \<noteq> [] \<and> last l = CR then butlast l else l)
      in (int (length l'), l', t'))
    \<and> net_data (sio_in t') = rest \<and> only_intr (sio_in t') \<and> same_out t t'"
  using assms
proof (induction len acc lastc t arbitrary: m rule: readcrlf_loop.induct)
  case (1 len acc lastc t)
  have len: "len > 0" using "1.prems"(4) by simp
  show ?case
  proof (cases rule: sio_recv_cases [OF "1.prems"(1) zero_less_one])
    case (1 s)
    have rec: "readcrlf_loop len acc lastc t = readcrlf_loop len acc lastc (set_errno EINTR (set_in s t))"
      using 1 len by (subst readcrlf_loop.simps) simp
    from "1.IH"(1) [OF len 1(1) [symmetric] refl, of m] 1 "1.prems" show ?thesis unfolding rec by simp
  next
    case (2 got s)
    from 2(3,4) obtain c where got: "got = [c]" by (cases got) auto
    show ?thesis
    proof (cases m)
      case Nil
      with "1.prems" 2 got have "c = NL" "net_data s = rest" by auto
      then have "readcrlf_loop len acc lastc t
          = (let l' = (if lastc = CR then butlast acc else acc) in (int (length l'), l', set_in s t))"
        using 2(1) got len by (subst readcrlf_loop.simps) (simp add: Let_def)
      moreover have "lastc = CR \<longleftrightarrow> acc \<noteq> [] \<and> last acc = CR" using "1.prems"(5,6) by auto
      ultimately show ?thesis using Nil 2 \<open>net_data s = rest\<close> by (intro exI [of _ "set_in s t"]) (simp add: Let_def)
    next
      case (Cons d m')
      with "1.prems" 2 got have c: "c = d" "d \<noteq> NL" "net_data s = m' @ NL # rest" by auto
      have rec: "readcrlf_loop len acc lastc t = readcrlf_loop (len - 1) (acc @ [d]) d (set_in s t)"
        using 2(1) got len c by (subst readcrlf_loop.simps) (simp add: Let_def)
      from "1.IH"(2) [OF len 2(1) [symmetric] refl, of "hd got" m'] 2 got c "1.prems" Cons
      show ?thesis unfolding rec by simp
    qed
  next
    case 3
    with "1.prems"(2) show ?thesis by simp
  qed
qed

lemma readcrlf_line:
  assumes "only_intr (sio_in t)" and "net_data (sio_in t) = m @ NL # rest" and "NL \<notin> set m" and "length m < len"
  shows "\<exists>t'. readcrlf len t = (let l = (if m \<noteq> [] \<and> last m = CR then butlast m else m) in (int (length l), l, t'))
    \<and> net_data (sio_in t') = rest \<and> only_intr (sio_in t') \<and> same_out t t'"
  using readcrlf_loop_line [OF assms, of "[]" "CHR 0x00"] by (simp add: readcrlf_def)

lemma readcrlf_end:
  assumes "only_intr (sio_in t)" and "net_data (sio_in t) = []" and "0 < len"
  shows "\<exists>t'. readcrlf_loop len acc lastc t = (0, acc, t') \<and> net_data (sio_in t') = [] \<and> only_intr (sio_in t') \<and> same_out t t'"
  using assms
proof (induction len acc lastc t rule: readcrlf_loop.induct)
  case (1 len acc lastc t)
  show ?case
  proof (cases rule: sio_recv_cases [OF "1.prems"(1) zero_less_one])
    case (1 s)
    have rec: "readcrlf_loop len acc lastc t = readcrlf_loop len acc lastc (set_errno EINTR (set_in s t))"
      using 1 "1.prems"(3) by (subst readcrlf_loop.simps) simp
    from "1.IH"(1) [OF "1.prems"(3) 1(1) [symmetric] refl] 1 "1.prems" show ?thesis unfolding rec by simp
  next
    case (2 got s)
    with "1.prems"(2) show ?thesis by simp
  next
    case 3
    with "1.prems"(3) show ?thesis by (subst readcrlf_loop.simps) (auto intro!: exI [of _ "set_in [] t"])
  qed
qed

subsection \<open>readline\<close>

text \<open>
  The static variables of \<open>readline\<close>: what stands in \<open>b\<close> from \<open>bp\<close> on, and \<open>cnt\<close>. Reading behind it
  would give stale bytes: \<open>None\<close>.
\<close>

record rline =
  rl_bp :: bytes
  rl_cnt :: int

definition refill :: "rline \<Rightarrow> sio \<Rightarrow> int \<times> rline \<times> sio" where
  "refill rl t =
     (let cnt = rl_cnt rl - 1 in
      if cnt \<le> 0
      then (case sio_recv 1500 t of
              (rc, got, t1) \<Rightarrow> (rc, \<lparr>rl_bp = (if rc > 0 then got else rl_bp rl), rl_cnt = rc\<rparr>, t1))
      else (cnt, rl\<lparr>rl_cnt := cnt\<rparr>, t))"

lemma refill_shrinks: "refill rl t = (rc, rl', t') \<Longrightarrow> rc < 0 \<Longrightarrow> net_size (sio_in t') < net_size (sio_in t)"
  by (auto simp: refill_def Let_def split: if_splits prod.splits dest: sio_recv_shrinks)

function readline_loop :: "nat \<Rightarrow> bytes \<Rightarrow> rline \<Rightarrow> sio \<Rightarrow> (int \<times> bytes \<times> rline \<times> sio) option" where
  "readline_loop n acc rl t =
     (if n > 0 then
        (case refill rl t of
           (rc, rl1, t1) \<Rightarrow>
             if rc < 0 then if sio_errno t1 = EINTR then readline_loop n acc rl1 t1 else Some (-1, acc, rl1, t1)
             else if rc = 0 then Some (0, acc, rl1, t1)
             else case rl_bp rl1 of
               [] \<Rightarrow> None
             | c # bp \<Rightarrow>
                 let rl2 = rl1\<lparr>rl_bp := bp\<rparr> in
                 if c = NL then Some (int (length (acc @ [c])), acc @ [c], rl2, t1)
                 else readline_loop (n - 1) (acc @ [c]) rl2 t1)
      else Some (-1, acc, rl, set_errno EMSGSIZE t))"
  by pat_completeness auto

termination
  by (relation "measures [\<lambda>(n, _, _, t). n, \<lambda>(_, _, _, t). net_size (sio_in t)]") (auto dest: refill_shrinks [OF sym])

declare readline_loop.simps [simp del]

text \<open>\<open>--len > 0\<close> in \<open>size_t\<close>: a buffer of no bytes has room for any number of them.\<close>

definition readline :: "nat \<Rightarrow> rline \<times> sio \<Rightarrow> (int \<times> bytes \<times> rline \<times> sio) option" where
  "readline len = (\<lambda>(rl, t). readline_loop (if len = 0 then 2 ^ 64 - 1 else len - 1) [] rl t)"

definition rline_init :: rline where
  "rline_init = \<lparr>rl_bp = [], rl_cnt = 0\<rparr>"

definition rl_ok :: "rline \<Rightarrow> bool" where
  "rl_ok rl \<longleftrightarrow> rl_cnt rl = int (length (rl_bp rl)) + 1 \<or> rl_cnt rl \<le> 0 \<and> rl_bp rl = []"

definition rl_pending :: "rline \<times> sio \<Rightarrow> bytes" where
  "rl_pending = (\<lambda>(rl, t). rl_bp rl @ net_data (sio_in t))"

definition rl_inv :: "rline \<times> sio \<Rightarrow> bool" where
  "rl_inv = (\<lambda>(rl, t). rl_ok rl \<and> only_intr (sio_in t))"

lemmas rl_defs = rl_pending_def rl_inv_def

lemma refill_cases:
  assumes "rl_inv (rl, t)"
  obtains
    (intr) rl1 t1 where "refill rl t = (-1, rl1, t1)" "sio_errno t1 = EINTR" "rl_inv (rl1, t1)"
      "rl_pending (rl1, t1) = rl_pending (rl, t)" "same_out t t1"
  | (char) rc rl1 t1 c bp where "refill rl t = (rc, rl1, t1)" "rc > 0" "rl_bp rl1 = c # bp" "rl_inv (rl1\<lparr>rl_bp := bp\<rparr>, t1)"
      "rl_pending (rl, t) = c # rl_pending (rl1\<lparr>rl_bp := bp\<rparr>, t1)" "same_out t t1"
  | (eof) rl1 t1 where "refill rl t = (0, rl1, t1)" "rl_inv (rl1, t1)" "rl_pending (rl, t) = []" "rl_pending (rl1, t1) = []"
      "same_out t t1"
proof (cases "rl_cnt rl - 1 \<le> 0")
  case True
  with assms have bp: "rl_bp rl = []" by (auto simp: rl_inv_def rl_ok_def)
  have intr: "only_intr (sio_in t)" using assms by (simp add: rl_inv_def)
  have "0 < (1500 :: nat)" by simp
  from intr this show thesis
  proof (cases rule: sio_recv_cases)
    case (intr s)
    with True bp show thesis
      by (intro that(1) [of "\<lparr>rl_bp = [], rl_cnt = -1\<rparr>" "set_errno EINTR (set_in s t)"])
        (simp_all add: refill_def Let_def rl_defs rl_ok_def)
  next
    case (data got s)
    then obtain c bp' where "got = c # bp'" by (cases got) auto
    with data True bp show thesis
      by (intro that(2) [of "int (length got)" "\<lparr>rl_bp = got, rl_cnt = int (length got)\<rparr>" "set_in s t" c bp'])
        (simp_all add: refill_def Let_def rl_defs rl_ok_def)
  next
    case eof
    with True bp show thesis
      by (intro that(3) [of "\<lparr>rl_bp = [], rl_cnt = 0\<rparr>" "set_in [] t"]) (simp_all add: refill_def Let_def rl_defs rl_ok_def)
  qed
next
  case False
  with assms obtain c bp where "rl_bp rl = c # bp" by (cases "rl_bp rl") (auto simp: rl_inv_def rl_ok_def)
  with False assms show thesis
    by (intro that(2) [of "rl_cnt rl - 1" "rl\<lparr>rl_cnt := rl_cnt rl - 1\<rparr>" t c bp]) (auto simp: refill_def Let_def rl_defs rl_ok_def)
qed

lemma readline_loop_line:
  assumes "rl_inv (rl, t)" and "rl_pending (rl, t) = l @ NL # rest" and "NL \<notin> set l" and "length l < n"
  shows "\<exists>rl' t'. readline_loop n acc rl t = Some (int (length (acc @ l @ [NL])), acc @ l @ [NL], rl', t')
    \<and> rl_pending (rl', t') = rest \<and> rl_inv (rl', t') \<and> same_out t t'"
  using assms
proof (induction n acc rl t arbitrary: l rule: readline_loop.induct)
  case (1 n acc rl t)
  have n: "n > 0" using "1.prems"(4) by simp
  from "1.prems"(1) show ?case
  proof (cases rule: refill_cases)
    case 1: (intr rl1 t1)
    have rec: "readline_loop n acc rl t = readline_loop n acc rl1 t1"
      using 1 n by (subst readline_loop.simps) simp
    from "1.IH"(1) [OF n 1(1) [symmetric] refl _ _ _, of l] 1 "1.prems" show ?thesis
      unfolding rec by (auto dest: same_out_trans)
  next
    case 2: (char rc rl1 t1 c bp)
    show ?thesis
    proof (cases l)
      case Nil
      with "1.prems"(2) 2 have "c = NL" "rl_pending (rl1\<lparr>rl_bp := bp\<rparr>, t1) = rest" by auto
      with 2 n Nil show ?thesis by (subst readline_loop.simps) (auto simp: Let_def)
    next
      case (Cons d l')
      with "1.prems"(2,3) 2 have c: "c = d" "d \<noteq> NL" "rl_pending (rl1\<lparr>rl_bp := bp\<rparr>, t1) = l' @ NL # rest" by auto
      have rec: "readline_loop n acc rl t = readline_loop (n - 1) (acc @ [d]) (rl1\<lparr>rl_bp := bp\<rparr>) t1"
        using 2 n c by (subst readline_loop.simps) (simp add: Let_def)
      have nz: "\<not> rc < 0" "rc \<noteq> 0" using 2(2) by simp_all
      have lt: "length l' < n - 1" using "1.prems"(4) Cons by simp
      from "1.IH"(2) [OF n 2(1) [symmetric] refl nz 2(3) refl _ _, of l'] lt 2 c "1.prems" Cons
      show ?thesis unfolding rec by (auto dest: same_out_trans)
    qed
  next
    case 3: (eof rl1 t1)
    with "1.prems"(2) show ?thesis by simp
  qed
qed

text \<open>Without a newline: the end of the connection is reported and the beginning of a line dropped; a line that is too long is cut.\<close>

lemma readline_loop_no_line:
  assumes "rl_inv (rl, t)" and "rl_pending (rl, t) = l @ rest" and "NL \<notin> set l"
    and "length l < n \<and> rest = [] \<or> length l = n"
  shows "\<exists>rl' t'. readline_loop n acc rl t = Some (if length l < n then 0 else -1, acc @ l, rl', t')
    \<and> rl_pending (rl', t') = rest \<and> rl_inv (rl', t') \<and> same_out t t' \<and> (length l = n \<longrightarrow> sio_errno t' = EMSGSIZE)"
  using assms
proof (induction n acc rl t arbitrary: l rule: readline_loop.induct)
  case (1 n acc rl t)
  show ?case
  proof (cases "n > 0")
    case False
    with "1.prems" show ?thesis
      by (subst readline_loop.simps) (auto simp: rl_defs intro!: exI [of _ "set_errno EMSGSIZE t"])
  next
    case n: True
    from "1.prems"(1) show ?thesis
    proof (cases rule: refill_cases)
      case 1: (intr rl1 t1)
      have rec: "readline_loop n acc rl t = readline_loop n acc rl1 t1"
        using 1 n by (subst readline_loop.simps) simp
      from "1.IH"(1) [OF n 1(1) [symmetric] refl _ _ _, of l] 1 "1.prems" show ?thesis
        unfolding rec by (auto dest: same_out_trans)
    next
      case 2: (char rc rl1 t1 c bp)
      obtain d l' where l: "l = d # l'" using "1.prems"(2,4) 2 n by (cases l) auto
      with "1.prems"(2,3) 2 have c: "c = d" "d \<noteq> NL" "rl_pending (rl1\<lparr>rl_bp := bp\<rparr>, t1) = l' @ rest" by auto
      have rec: "readline_loop n acc rl t = readline_loop (n - 1) (acc @ [d]) (rl1\<lparr>rl_bp := bp\<rparr>) t1"
        using 2 n c by (subst readline_loop.simps) (simp add: Let_def)
      have nz: "\<not> rc < 0" "rc \<noteq> 0" using 2(2) by simp_all
      have lt: "length l' < n - 1 \<longleftrightarrow> length l < n" "length l' = n - 1 \<longleftrightarrow> length l = n" using n l by auto
      from "1.IH"(2) [OF n 2(1) [symmetric] refl nz 2(3) refl _ _, of l'] lt 2 c "1.prems" l
      show ?thesis unfolding rec by (auto dest: same_out_trans)
    next
      case 3: (eof rl1 t1)
      with "1.prems"(2,4) n show ?thesis by (subst readline_loop.simps) auto
    qed
  qed
qed

subsection \<open>Readers of records\<close>

text \<open>
  A loop over the records of a connection, as the programs write it: \<open>body\<close> is what they do with the
  result and the buffer; it goes on or ends the loop.
\<close>

partial_function (option) each_record ::
  "('s \<Rightarrow> (int \<times> bytes \<times> 's) option) \<Rightarrow> (int \<Rightarrow> bytes \<Rightarrow> 'u \<Rightarrow> 's \<Rightarrow> 'e option \<times> 'u \<times> 's) \<Rightarrow> 'u \<Rightarrow> 's \<Rightarrow> ('e \<times> 'u \<times> 's) option" where
  "each_record rd body u s =
     (case rd s of
        None \<Rightarrow> None
      | Some (rc, buf, s1) \<Rightarrow>
          (case body rc buf u s1 of
             (Some e, u2, s2) \<Rightarrow> Some (e, u2, s2)
           | (None, u2, s2) \<Rightarrow> each_record rd body u2 s2))"

text \<open>
  The contract of a reader: it gives the result of the next record, whatever the pieces in which it
  arrives, and leaves what comes behind it; at the end of the connection it gives 0.
\<close>

locale record_reader =
  fixes rd :: "'s \<Rightarrow> (int \<times> bytes \<times> 's) option"
    and pending :: "'s \<Rightarrow> bytes"
    and inv :: "'s \<Rightarrow> bool"
    and frame :: "bytes \<Rightarrow> bytes"
    and ok :: "bytes \<Rightarrow> bool"
    and result :: "bytes \<Rightarrow> int \<times> bytes"
    and out :: "'s \<Rightarrow> conn"
  assumes reads: "inv s \<Longrightarrow> ok m \<Longrightarrow> pending s = frame m @ rest \<Longrightarrow>
      \<exists>s'. rd s = Some (fst (result m), snd (result m), s') \<and> pending s' = rest \<and> inv s' \<and> (out s')\<lparr>cn_in := []\<rparr> = (out s)\<lparr>cn_in := []\<rparr>"
    and ends: "inv s \<Longrightarrow> pending s = [] \<Longrightarrow>
      \<exists>s'. rd s = Some (0, [], s') \<and> (out s')\<lparr>cn_in := []\<rparr> = (out s)\<lparr>cn_in := []\<rparr>"
begin

text \<open>
  A body that goes on after every record \<open>m\<close> of the series, changing its own state by \<open>h m\<close> and what
  has been sent, is run over the whole series, and then once for the end of the connection.
\<close>

lemma each_record_all:
  assumes "inv s" and "pending s = concat (map frame ms)" and "\<forall>m \<in> set ms. ok m" and "R u (out s)"
    and body: "\<And>m u s. ok m \<Longrightarrow> inv s \<Longrightarrow> R u (out s) \<Longrightarrow>
      \<exists>s'. body (fst (result m)) (snd (result m)) u s = (None, h m u, s') \<and> inv s' \<and> pending s' = pending s \<and> R (h m u) (out s')"
    and R: "\<And>u c c'. R u c \<Longrightarrow> c\<lparr>cn_in := []\<rparr> = c'\<lparr>cn_in := []\<rparr> \<Longrightarrow> R u c'"
    and last: "\<And>u s. R u (out s) \<Longrightarrow> \<exists>u' s'. body 0 [] u s = (Some e, u', s') \<and> P u u' (out s')"
  shows "\<exists>u' s'. each_record rd body u s = Some (e, u', s') \<and> P (fold h ms u) u' (out s')"
  using assms(1-4)
proof (induction ms arbitrary: u s)
  case Nil
  then obtain s1 where s1: "rd s = Some (0, [], s1)" "(out s1)\<lparr>cn_in := []\<rparr> = (out s)\<lparr>cn_in := []\<rparr>" using ends by auto
  have "R u (out s1)" using R [OF Nil.prems(4)] s1(2) by metis
  from last [OF this] s1(1) show ?case by (subst each_record.simps) auto
next
  case (Cons m ms)
  then obtain s1 where s1: "rd s = Some (fst (result m), snd (result m), s1)" "pending s1 = concat (map frame ms)" "inv s1"
      "(out s1)\<lparr>cn_in := []\<rparr> = (out s)\<lparr>cn_in := []\<rparr>"
    using reads [OF Cons.prems(1), of m] by auto
  have "R u (out s1)" using R [OF Cons.prems(4)] s1(4) by metis
  from body [OF _ s1(3) this, of m] Cons.prems(3) obtain s2 where
    s2: "body (fst (result m)) (snd (result m)) u s1 = (None, h m u, s2)" "inv s2" "pending s2 = pending s1" "R (h m u) (out s2)"
    by auto
  from Cons.IH [OF s2(2) _ _ s2(4)] s2 s1 Cons.prems(3) show ?case by (subst each_record.simps) simp
qed

end

end
