(* ===== verification/Etcp_Records.thy ===== *)
theory Etcp_Records
  imports Etcp_Lib
begin

text \<open>
  The programs of Effective.TCP.IP.Programming that exchange records: vrc.c and vrs.c with records of
  variable length, count.c, keep.c and tcprw.c with lines. A program is run to its end: the message
  of the call of \<open>error\<close> that ends it, or \<open>exit\<close>.
\<close>

subsection \<open>The readers\<close>

lemma same_out_conn: "same_out t t' \<Longrightarrow> (sio_conn t')\<lparr>cn_in := []\<rparr> = (sio_conn t)\<lparr>cn_in := []\<rparr>"
  by (simp add: same_out_def)

definition vrec_result :: "nat \<Rightarrow> bytes \<Rightarrow> int \<times> bytes" where
  "vrec_result len m = (if length m \<le> len then (int (length m), m) else (-1, []))"

lemma record_reader_readvrec:
  assumes "0 < len" and "len < 2 ^ 31"
  shows "record_reader (readvrec len) (\<lambda>t. net_data (sio_in t)) (\<lambda>t. only_intr (sio_in t)) vrec
    (\<lambda>m. m \<noteq> [] \<and> length m < 2 ^ 32) (vrec_result len) sio_conn"
proof
  fix t m rest assume "only_intr (sio_in t)" "m \<noteq> [] \<and> length m < 2 ^ 32" "net_data (sio_in t) = vrec m @ rest"
  from readvrec_record [OF this(1,3) conjunct2 [OF this(2)] assms]
  show "\<exists>t'. readvrec len t = Some (fst (vrec_result len m), snd (vrec_result len m), t') \<and> net_data (sio_in t') = rest
      \<and> only_intr (sio_in t') \<and> (sio_conn t')\<lparr>cn_in := []\<rparr> = (sio_conn t)\<lparr>cn_in := []\<rparr>"
    by (auto simp: vrec_result_def dest: same_out_conn)
next
  fix t assume "only_intr (sio_in t)" "net_data (sio_in t) = []"
  from readvrec_end [OF this]
  show "\<exists>t'. readvrec len t = Some (0, [], t') \<and> (sio_conn t')\<lparr>cn_in := []\<rparr> = (sio_conn t)\<lparr>cn_in := []\<rparr>"
    by (auto dest: same_out_conn)
qed

lemma record_reader_readline:
  assumes "1 < len"
  shows "record_reader (readline len) rl_pending rl_inv (\<lambda>m. m) (is_line len) (\<lambda>m. (int (length m), m)) (\<lambda>s. sio_conn (snd s))"
proof
  fix s m rest assume a: "rl_inv s" "is_line len m" "rl_pending s = m @ rest"
  obtain rl t where s: "s = (rl, t)" by force
  obtain l where l: "m = l @ [NL]" "NL \<notin> set l" "length l < len - 1" using a(2) unfolding is_line_split by auto
  have "rl_pending (rl, t) = l @ NL # rest" using a(3) l s by simp
  from readline_loop_line [OF a(1) [unfolded s] this l(2,3), of "[]"] assms l(1)
  show "\<exists>s'. readline len s = Some (fst (int (length m), m), snd (int (length m), m), s') \<and> rl_pending s' = rest \<and> rl_inv s'
      \<and> (sio_conn (snd s'))\<lparr>cn_in := []\<rparr> = (sio_conn (snd s))\<lparr>cn_in := []\<rparr>"
    by (auto simp: readline_def s dest: same_out_conn)
next
  fix s assume a: "rl_inv s" "rl_pending s = []"
  obtain rl t where s: "s = (rl, t)" by force
  from readline_loop_no_line [OF a(1) [unfolded s], of "[]" "[]" "len - 1" "[]"] a(2) s assms
  show "\<exists>s'. readline len s = Some (0, [], s') \<and> (sio_conn (snd s'))\<lparr>cn_in := []\<rparr> = (sio_conn (snd s))\<lparr>cn_in := []\<rparr>"
    by (auto simp: readline_def dest: same_out_conn)
qed

interpretation vrs_reader: record_reader "readvrec 10" "\<lambda>t. net_data (sio_in t)" "\<lambda>t. only_intr (sio_in t)" vrec
    "\<lambda>m. m \<noteq> [] \<and> length m < 2 ^ 32" "vrec_result 10" sio_conn
  by (rule record_reader_readvrec) simp_all

interpretation count_reader: record_reader "readline 120" rl_pending rl_inv "\<lambda>m. m" "is_line 120"
    "\<lambda>m. (int (length m), m)" "\<lambda>s. sio_conn (snd s)"
  by (rule record_reader_readline) simp

interpretation keep_reader: record_reader "readline 128" rl_pending rl_inv "\<lambda>m. m" "is_line 128"
    "\<lambda>m. (int (length m), m)" "\<lambda>s. sio_conn (snd s)"
  by (rule record_reader_readline) simp

subsection \<open>vrc and vrs\<close>

text \<open>The client: a record for every line, of what stands before its first NUL.\<close>

function vrc :: "bytes \<Rightarrow> conn \<Rightarrow> bytes option \<times> conn" where
  "vrc inp c =
     (case fgets 128 inp of
        None \<Rightarrow> (None, c)
      | Some (line, rest) \<Rightarrow>
          let n = strlen line in
          (case sys_send (be_bytes (of_nat n) @ take n line) c of
             (r, c1) \<Rightarrow> if r < 0 then (Some ''send failure'', c1) else vrc rest c1))"
  by pat_completeness auto

termination
  by (relation "measure (\<lambda>(inp, _). length inp)") (auto dest: fgets_shrinks [OF sym] fgets_shrinks)

declare vrc.simps [simp del]

text \<open>The server: what it has printed and how many errors it has reported.\<close>

definition vrs_body :: "int \<Rightarrow> bytes \<Rightarrow> bytes \<times> nat \<Rightarrow> sio \<Rightarrow> bytes option \<times> (bytes \<times> nat) \<times> sio" where
  "vrs_body n buf = (\<lambda>(out, errs) t.
     if n < 0 then (None, (out, errs + 1), t)
     else if n = 0 then (Some ''client disconnected'', (out, errs), t)
     else (None, (out @ take (nat n) buf, errs), t))"

definition vrs :: "sio \<Rightarrow> (bytes \<times> (bytes \<times> nat) \<times> sio) option" where
  "vrs t = each_record (readvrec 10) vrs_body ([], 0) t"

definition vrs_shows :: "bytes \<Rightarrow> bytes \<times> nat \<Rightarrow> bytes \<times> nat" where
  "vrs_shows m = (\<lambda>(out, errs). if length m \<le> 10 then (out @ m, errs) else (out, errs + 1))"

lemma vrs_shows_fold:
  "fold vrs_shows ms (out, errs)
    = (out @ concat (filter (\<lambda>m. length m \<le> 10) ms), errs + length (filter (\<lambda>m. 10 < length m) ms))"
  by (induction ms arbitrary: out errs) (auto simp: vrs_shows_def not_le)

lemma vrs_records:
  assumes "only_intr (sio_in t)" and "net_data (sio_in t) = concat (map vrec ms)"
    and "\<forall>m \<in> set ms. m \<noteq> [] \<and> length m < 2 ^ 32"
  shows "\<exists>t'. vrs t = Some (''client disconnected'',
    (concat (filter (\<lambda>m. length m \<le> 10) ms), length (filter (\<lambda>m. 10 < length m) ms)), t')"
proof -
  have body: "\<exists>s'. vrs_body (fst (vrec_result 10 m)) (snd (vrec_result 10 m)) u s = (None, vrs_shows m u, s')
      \<and> only_intr (sio_in s') \<and> net_data (sio_in s') = net_data (sio_in s) \<and> True"
    if "m \<noteq> [] \<and> length m < 2 ^ 32" "only_intr (sio_in s)" for m u and s
    using that by (cases u) (auto simp: vrs_body_def vrs_shows_def vrec_result_def)
  have "\<exists>u' s'. vrs_body 0 [] u s = (Some ''client disconnected'', u', s') \<and> u' = u" for u s
    by (cases u) (simp add: vrs_body_def)
  from vrs_reader.each_record_all [where R = "\<lambda>_ _. True" and P = "\<lambda>u u' _. u' = u" and body = vrs_body and u = "([], 0)", OF assms(1,2,3) TrueI body TrueI this]
  show ?thesis by (simp add: vrs_def vrs_shows_fold)
qed


lemma vrc_sends:
  assumes "cn_sends c = []" and "CHR 0x00 \<notin> set inp"
  shows "vrc inp c = (None, c\<lparr>cn_out := cn_out c @ concat (map vrec (fgets_all 128 inp))\<rparr>)"
  using assms
proof (induction inp c rule: vrc.induct)
  case (1 inp c)
  show ?case
  proof (cases "fgets 128 inp")
    case None
    then show ?thesis by (subst vrc.simps, subst fgets_all.simps) simp
  next
    case (Some lr)
    then obtain line rest where lr: "fgets 128 inp = Some (line, rest)" by (cases lr) auto
    have "set line \<union> set rest = set inp" using fgets_line [OF lr] by (metis set_append)
    then have nul: "CHR 0x00 \<notin> set line" "CHR 0x00 \<notin> set rest" using "1.prems"(2) by auto
    let ?c = "c\<lparr>cn_out := cn_out c @ vrec line\<rparr>"
    have send: "sys_send (be_bytes (of_nat (strlen line)) @ take (strlen line) line) c = (int (length (vrec line)), ?c)"
      using nul(1) "1.prems"(1) by (simp add: strlen_line vrec_def sys_send_quiet)
    from "1.IH" [OF lr refl refl send [symmetric]] nul(2) "1.prems"(1)
    have "vrc rest ?c = (None, c\<lparr>cn_out := cn_out c @ vrec line @ concat (map vrec (fgets_all 128 rest))\<rparr>)" by simp
    with lr send show ?thesis by (subst vrc.simps, subst fgets_all.simps) (simp add: Let_def)
  qed
qed

text \<open>
  vrc and vrs together: whatever text without NUL characters the client is given and in whatever pieces
  it arrives, interrupted calls included, the server prints exactly its lines of at most 10
  characters, in order, reports every other line as an error without losing the next one, and ends
  when the client closes.
\<close>

theorem vrec_end_to_end:
  assumes "CHR 0x00 \<notin> set inp" and "only_intr (sio_in t)" and "net_data (sio_in t) = cn_out (snd (vrc inp (conn_of [])))"
  shows "\<exists>t'. vrs t = Some (''client disconnected'',
      (concat (filter (\<lambda>m. length m \<le> 10) (fgets_all 128 inp)), length (filter (\<lambda>m. 10 < length m) (fgets_all 128 inp))), t')
    \<and> concat (fgets_all 128 inp) = inp"
proof -
  have "net_data (sio_in t) = concat (map vrec (fgets_all 128 inp))"
    using assms(1,3) by (simp add: vrc_sends)
  moreover have "\<forall>m \<in> set (fgets_all 128 inp). m \<noteq> [] \<and> length m < 2 ^ 32"
  proof
    fix m assume "m \<in> set (fgets_all 128 inp)"
    from fgets_all_bounds [OF this] show "m \<noteq> [] \<and> length m < 2 ^ 32" by simp
  qed
  ultimately show ?thesis using vrs_records [OF assms(2)] by (simp add: fgets_all_concat)
qed

definition sio_of :: "net \<Rightarrow> sio" where
  "sio_of s = \<lparr>sio_conn = conn_of s, sio_errno = 0\<rparr>"

lemma sio_of_sel [simp]: "sio_conn (sio_of s) = conn_of s"
  by (simp add: sio_of_def)

theorem vrec_end_to_end_witness:
  "\<exists>t'. vrs (sio_of [Arrive (vrec [CHR ''a'', NL]), Fail (Error_code 4 System_category), Arrive (vrec (''bcdefghijk'' @ [NL]))])
    = Some (''client disconnected'', ([CHR ''a'', NL], 1), t')"
proof -
  let ?inp = "[CHR ''a'', NL] @ ''bcdefghijk'' @ [NL]"
  have l: "fgets_all 128 (CHR ''a'' # NL # ''bcdefghijk'' @ [NL]) = [[CHR ''a'', NL], ''bcdefghijk'' @ [NL]]"
    by (simp add: fgets_all.simps fgets_def before_def)
  have "cn_out (snd (vrc ?inp (conn_of []))) = vrec [CHR ''a'', NL] @ vrec (''bcdefghijk'' @ [NL])"
    by (subst vrc_sends) (use l in simp_all)
  with vrec_end_to_end [of ?inp "sio_of [Arrive (vrec [CHR ''a'', NL]), Fail (Error_code 4 System_category), Arrive (vrec (''bcdefghijk'' @ [NL]))]"]
  show ?thesis using l by simp
qed


text \<open>A line that begins with NUL makes a record of no bytes, which the server takes for the end.\<close>

lemma vrs_empty_record:
  assumes "only_intr (sio_in t)" and "net_data (sio_in t) = vrec [] @ rest"
  shows "\<exists>t'. vrs t = Some (''client disconnected'', ([], 0), t')"
proof -
  from readvrec_record [OF assms(1,2), of 10] obtain t' where "readvrec 10 t = Some (0, [], t')" by auto
  then show ?thesis unfolding vrs_def by (subst each_record.simps) (simp add: vrs_body_def)
qed

subsection \<open>count, keep and tcprw\<close>

text \<open>
  count.c answers every line with its number; a line that is too long ends it like the end of the
  connection. keep.c prints the lines.
\<close>

definition count_reply :: "nat \<Rightarrow> bytes" where
  "count_reply n = ''received message '' @ to_string n @ [NL]"

definition count_body :: "int \<Rightarrow> bytes \<Rightarrow> nat \<Rightarrow> rline \<times> sio \<Rightarrow> bytes option \<times> nat \<times> rline \<times> sio" where
  "count_body rc buf counter = (\<lambda>(rl, t).
     if rc \<le> 0 then (Some ''exit'', counter, rl, t)
     else (case sys_send (count_reply counter) (sio_conn t) of
             (r, c) \<Rightarrow> (if r < 0 then Some ''send failed'' else None, counter + 1, rl, t\<lparr>sio_conn := c\<rparr>)))"

definition count :: "sio \<Rightarrow> (bytes \<times> nat \<times> rline \<times> sio) option" where
  "count t = each_record (readline 120) count_body 1 (rline_init, t)"

definition keep_body :: "int \<Rightarrow> bytes \<Rightarrow> bytes \<Rightarrow> rline \<times> sio \<Rightarrow> bytes option \<times> bytes \<times> rline \<times> sio" where
  "keep_body rc buf out s =
     (if rc = 0 then (Some ''peer disconnected'', out, s)
      else if rc < 0 then (Some ''recv failure'', out, s)
      else (None, out @ take (nat rc) buf, s))"

definition keep :: "sio \<Rightarrow> (bytes \<times> bytes \<times> rline \<times> sio) option" where
  "keep t = each_record (readline 128) keep_body [] (rline_init, t)"

lemma keep_prints:
  assumes "only_intr (sio_in t)" and "net_data (sio_in t) = concat ms" and "\<forall>m \<in> set ms. is_line 128 m"
  shows "\<exists>s'. keep t = Some (''peer disconnected'', concat ms, s')"
proof -
  have body: "\<exists>s'. keep_body (fst (int (length m), m)) (snd (int (length m), m)) u s = (None, u @ m, s')
      \<and> rl_inv s' \<and> rl_pending s' = rl_pending s \<and> True" if "is_line 128 m" "rl_inv s" for m u and s :: "rline \<times> sio"
    using that by (auto simp: keep_body_def is_line_def)
  have last: "\<exists>u' s'. keep_body 0 [] u s = (Some ''peer disconnected'', u', s') \<and> u' = u" for u and s :: "rline \<times> sio"
    by (simp add: keep_body_def)
  have init: "rl_inv (rline_init, t)" "rl_pending (rline_init, t) = concat (map (\<lambda>m. m) ms)"
    using assms(1,2) by (simp_all add: rl_defs rl_ok_def rline_init_def)
  have "\<exists>u' s'. each_record (readline 128) keep_body [] (rline_init, t) = Some (''peer disconnected'', u', s')
      \<and> u' = fold (\<lambda>m u. u @ m) ms []"
    using keep_reader.each_record_all [where R = "\<lambda>_ _. True" and P = "\<lambda>u u' _. u' = u" and body = keep_body
        and h = "\<lambda>m u. u @ m", OF init assms(3) TrueI body TrueI last] by simp
  moreover have "fold (\<lambda>m u. u @ m) ms u = u @ concat ms" for u by (induction ms arbitrary: u) simp_all
  ultimately show ?thesis by (simp add: keep_def)
qed

definition count_replies :: "nat \<Rightarrow> nat \<Rightarrow> bytes" where
  "count_replies k n = concat (map count_reply [k..<k + n])"

lemma count_answers:
  assumes "only_intr (sio_in t)" and "net_data (sio_in t) = concat ms" and "\<forall>m \<in> set ms. is_line 120 m"
    and "cn_sends (sio_conn t) = []"
  shows "\<exists>s'. count t = Some (''exit'', length ms + 1, s')
    \<and> cn_out (sio_conn (snd s')) = cn_out (sio_conn t) @ count_replies 1 (length ms)"
proof -
  let ?R = "\<lambda>n c. n \<ge> 1 \<and> cn_sends c = [] \<and> cn_out c = cn_out (sio_conn t) @ count_replies 1 (n - 1)"
  have body: "\<exists>s'. count_body (fst (int (length m), m)) (snd (int (length m), m)) n s = (None, n + 1, s')
      \<and> rl_inv s' \<and> rl_pending s' = rl_pending s \<and> ?R (n + 1) (sio_conn (snd s'))"
    if "is_line 120 m" "rl_inv s" "?R n (sio_conn (snd s))" for m n and s :: "rline \<times> sio"
  proof -
    obtain rl t1 where s: "s = (rl, t1)" by force
    let ?c = "(sio_conn t1)\<lparr>cn_out := cn_out (sio_conn t1) @ count_reply n\<rparr>"
    have send: "sys_send (count_reply n) (sio_conn t1) = (int (length (count_reply n)), ?c)"
      using that(3) s by (simp add: sys_send_quiet)
    have "[1..<1 + n] = [1..<n] @ [n]" "1 + (n - 1) = n" using that(3) by simp_all
    then have "count_replies 1 (n - 1) @ count_reply n = count_replies 1 n" by (simp only: count_replies_def) simp
    with that send s show ?thesis by (auto simp: count_body_def is_line_def rl_defs)
  qed
  have last: "\<exists>u' s'. count_body 0 [] n s = (Some ''exit'', u', s') \<and> u' = n \<and> ?R n (sio_conn (snd s'))"
    if "?R n (sio_conn (snd s))" for n and s :: "rline \<times> sio"
    using that by (cases s) (auto simp: count_body_def)
  have R: "?R n c'" if "?R n c" "c\<lparr>cn_in := []\<rparr> = c'\<lparr>cn_in := []\<rparr>" for n and c c' :: conn
    using that by (cases c, cases c') simp
  have init: "rl_inv (rline_init, t)" "rl_pending (rline_init, t) = concat (map (\<lambda>m. m) ms)"
    "?R 1 (sio_conn (snd (rline_init, t)))"
    using assms by (simp_all add: rl_defs rl_ok_def rline_init_def count_replies_def)
  have "\<exists>u' s'. each_record (readline 120) count_body 1 (rline_init, t) = Some (''exit'', u', s')
      \<and> u' = fold (\<lambda>m n. n + 1) ms 1 \<and> ?R (fold (\<lambda>m n. n + 1) ms 1) (sio_conn (snd s'))"
    by (rule count_reader.each_record_all [where R = ?R and P = "\<lambda>u u' c. u' = u \<and> ?R u c" and body = count_body
        and h = "\<lambda>m n. n + 1", OF init(1,2) assms(3) init(3) body R last])
  moreover have "fold (\<lambda>m n. n + 1) ms n = n + length ms" for n by (induction ms arbitrary: n) simp_all
  ultimately show ?thesis by (auto simp: count_def)
qed


text \<open>tcprw.c: a line is sent and the reply to it awaited; what has been printed.\<close>

function tcprw :: "bytes \<Rightarrow> bytes \<Rightarrow> rline \<Rightarrow> sio \<Rightarrow> (bytes \<times> bytes \<times> rline \<times> sio) option" where
  "tcprw inp out rl t =
     (case fgets 120 inp of
        None \<Rightarrow> Some (''exit'', out, rl, t)
      | Some (line, rest) \<Rightarrow>
          (case sys_send (take (strlen line) line) (sio_conn t) of
             (r, c) \<Rightarrow>
               if r < 0 then Some (''send failed'', out, rl, t\<lparr>sio_conn := c\<rparr>)
               else (case readline 120 (rl, t\<lparr>sio_conn := c\<rparr>) of
                       None \<Rightarrow> None
                     | Some (rc, buf, rl1, t1) \<Rightarrow>
                         if rc < 0 then Some (''readline failed'', out, rl1, t1)
                         else if rc = 0 then Some (''server terminated'', out, rl1, t1)
                         else tcprw rest (out @ before CHR 0x00 buf) rl1 t1)))"
  by pat_completeness auto

termination
  by (relation "measure (\<lambda>(inp, _). length inp)") (auto dest: fgets_shrinks [OF sym] fgets_shrinks)

declare tcprw.simps [simp del]

lemma tcprw_dialogue:
  assumes "rl_inv (rl, t)" and "rl_pending (rl, t) = concat rs" and "length rs = length (fgets_all 120 inp)"
    and "\<forall>r \<in> set rs. is_line 120 r \<and> CHR 0x00 \<notin> set r" and "CHR 0x00 \<notin> set inp" and "cn_sends (sio_conn t) = []"
  shows "\<exists>rl' t'. tcprw inp out rl t = Some (''exit'', out @ concat rs, rl', t') \<and> cn_out (sio_conn t') = cn_out (sio_conn t) @ inp"
  using assms
proof (induction inp out rl t arbitrary: rs rule: tcprw.induct)
  case (1 inp out rl t)
  show ?case
  proof (cases "fgets 120 inp")
    case None
    then have "inp = []" "rs = []"
      using "1.prems"(3) by (auto simp: fgets_all.simps fgets_def Let_def split: if_splits)
    with None show ?thesis by (subst tcprw.simps) simp
  next
    case (Some lr)
    then obtain line rest where lr: "fgets 120 inp = Some (line, rest)" by (cases lr) auto
    note fl = fgets_line [OF lr]
    then have nul: "CHR 0x00 \<notin> set line" "CHR 0x00 \<notin> set rest" using "1.prems"(5) by (metis Un_iff set_append)+
    have "length rs = Suc (length (fgets_all 120 rest))" using "1.prems"(3) lr by (subst (asm) fgets_all.simps) simp
    then obtain r rs' where rs: "rs = r # rs'" "length rs' = length (fgets_all 120 rest)" by (cases rs) auto
    let ?c = "(sio_conn t)\<lparr>cn_out := cn_out (sio_conn t) @ line\<rparr>" and ?t = "t\<lparr>sio_conn := (sio_conn t)\<lparr>cn_out := cn_out (sio_conn t) @ line\<rparr>\<rparr>"
    have send: "sys_send (take (strlen line) line) (sio_conn t) = (int (length line), ?c)"
      using nul(1) "1.prems"(6) by (simp add: strlen_line sys_send_quiet)
    have "rl_inv (rl, ?t)" "is_line 120 r" "rl_pending (rl, ?t) = r @ concat rs'"
      using "1.prems"(1,2,4) rs(1) by (simp_all add: rl_defs)
    from count_reader.reads [OF this] obtain rl1 t1 where
      rd: "readline 120 (rl, ?t) = Some (int (length r), r, rl1, t1)" "rl_pending (rl1, t1) = concat rs'" "rl_inv (rl1, t1)"
        "(sio_conn t1)\<lparr>cn_in := []\<rparr> = ?c\<lparr>cn_in := []\<rparr>" by auto
    have t1: "cn_sends (sio_conn t1) = []" "cn_out (sio_conn t1) = cn_out (sio_conn t) @ line"
      using rd(4) "1.prems"(6) by (metis conn.select_convs(2,3) conn.surjective conn.update_convs(1,2))+
    have r: "r \<noteq> []" "before CHR 0x00 r = r" using "1.prems"(4) rs(1) by (auto simp: is_line_def)
    have pos: "\<not> int (length r) < 0" "int (length r) \<noteq> 0" using r(1) by simp_all
    have "\<not> int (length line) < 0" by simp
    from "1.IH" [OF lr refl send [symmetric] this rd(1) refl refl refl pos rd(3,2) rs(2) _ nul(2) t1(1)] "1.prems"(4) rs(1) r t1(2)
    obtain rl' t' where "tcprw rest (out @ r) rl1 t1 = Some (''exit'', (out @ r) @ concat rs', rl', t')"
      "cn_out (sio_conn t') = cn_out (sio_conn t) @ line @ rest" by auto
    with lr send rd(1) pos r rs(1) fl show ?thesis by (subst tcprw.simps) simp
  qed
qed
lemma count_reply_line:
  assumes "n < 10 ^ 10"
  shows "is_line 120 (count_reply n) \<and> CHR 0x00 \<notin> set (count_reply n)"
proof -
  have digits: "\<forall>c \<in> set (to_string n). isdigit c" by (rule to_string_digits)
  have "\<not> isdigit NL" "\<not> isdigit CHR 0x00" by (simp_all add: isdigit_def)
  with digits have "NL \<notin> set (to_string n)" "CHR 0x00 \<notin> set (to_string n)" by blast+
  moreover have "length (to_string n) \<le> 10" using length_to_string_pow [of n 9] assms by simp
  ultimately show ?thesis by (auto simp: count_reply_def is_line_def butlast_append)
qed

lemma digit_char_1: "digit_char (Suc 0) = CHR ''1''"
  by code_simp

text \<open>
  C35: count and tcprw together: for a text of whole lines of at most 119 characters, what the server
  answers to what the client sends, and what the client makes of these answers in whatever pieces
  they arrive, is one numbered message printed for every line.
\<close>

theorem count_end_to_end:
  assumes lines: "\<forall>m \<in> set (fgets_all 120 inp). is_line 120 m" and nul: "CHR 0x00 \<notin> set inp"
    and few: "length (fgets_all 120 inp) < 2 ^ 31"
    and sv: "only_intr (sio_in sv)" "cn_sends (sio_conn sv) = []" "cn_out (sio_conn sv) = []"
    and cl: "only_intr (sio_in cl)" "cn_sends (sio_conn cl) = []" "cn_out (sio_conn cl) = []"
    and wire: "net_data (sio_in sv) = inp" "net_data (sio_in cl) = count_replies 1 (length (fgets_all 120 inp))"
  shows "\<exists>s' rl' t'. count sv = Some (''exit'', length (fgets_all 120 inp) + 1, s')
    \<and> cn_out (sio_conn (snd s')) = net_data (sio_in cl)
    \<and> tcprw inp [] rline_init cl = Some (''exit'', count_replies 1 (length (fgets_all 120 inp)), rl', t')
    \<and> cn_out (sio_conn t') = net_data (sio_in sv)"
proof -
  let ?n = "length (fgets_all 120 inp)"
  have "net_data (sio_in sv) = concat (fgets_all 120 inp)" using wire(1) by (simp add: fgets_all_concat)
  from count_answers [OF sv(1) this lines sv(2)] obtain s' where
    s': "count sv = Some (''exit'', ?n + 1, s')" "cn_out (sio_conn (snd s')) = count_replies 1 ?n" using sv(3) by auto
  define rs where "rs = map count_reply [1..<1 + ?n]"
  have rs: "concat rs = count_replies 1 ?n" "length rs = ?n" "\<forall>r \<in> set rs. is_line 120 r \<and> CHR 0x00 \<notin> set r"
    using few count_reply_line by (auto simp: rs_def count_replies_def simp del: upt_Suc)
  have "rl_inv (rline_init, cl)" "rl_pending (rline_init, cl) = concat rs"
    using cl(1) wire(2) rs(1) by (simp_all add: rl_defs rl_ok_def rline_init_def)
  from tcprw_dialogue [OF this rs(2,3) nul cl(2), of "[]"] obtain rl' t' where
    "tcprw inp [] rline_init cl = Some (''exit'', concat rs, rl', t')" "cn_out (sio_conn t') = inp" using cl(3) by auto
  with s' wire rs(1) show ?thesis by auto
qed

theorem count_end_to_end_witness:
  "\<exists>s' rl' t'. count (sio_of [Arrive [CHR ''a'', CHR ''b'', NL]]) = Some (''exit'', 2, s')
    \<and> cn_out (sio_conn (snd s')) = ''received message 1'' @ [NL]
    \<and> tcprw (''ab'' @ [NL]) [] rline_init (sio_of [Arrive ''rec'', Arrive (''eived message 1'' @ [NL])])
    = Some (''exit'', ''received message 1'' @ [NL], rl', t') \<and> cn_out (sio_conn t') = ''ab'' @ [NL]"
proof -
  have l: "fgets_all 120 [CHR ''a'', CHR ''b'', NL] = [[CHR ''a'', CHR ''b'', NL]]"
    by (simp add: fgets_all.simps fgets_def before_def)
  have r: "count_replies (Suc 0) (Suc 0) = ''received message 1'' @ [NL]"
    by (simp add: count_replies_def count_reply_def to_string.simps digit_char_1)
  show ?thesis
    using count_end_to_end [of "[CHR ''a'', CHR ''b'', NL]" "sio_of [Arrive [CHR ''a'', CHR ''b'', NL]]"
        "sio_of [Arrive ''rec'', Arrive (''eived message 1'' @ [NL])]"]
    by (auto simp: l r is_line_def)
qed

text \<open>A line of 119 characters without its newline ends the server, as if the client had gone.\<close>

theorem count_long_line_ends:
  assumes "only_intr (sio_in t)" and "net_data (sio_in t) = l @ rest" and "NL \<notin> set l" and "length l = 119"
  shows "\<exists>rl' t'. count t = Some (''exit'', 1, rl', t') \<and> same_out t t' \<and> net_data (sio_in t) \<noteq> []"
proof -
  have "rl_inv (rline_init, t)" "rl_pending (rline_init, t) = l @ rest"
    using assms(1,2) by (simp_all add: rl_defs rl_ok_def rline_init_def)
  from readline_loop_no_line [OF this assms(3), of 119 "[]"] assms(4) obtain rl' t' where
    "readline 120 (rline_init, t) = Some (-1, l, rl', t')" "same_out t t'" by (auto simp: readline_def)
  moreover have "net_data (sio_in t) \<noteq> []" using assms(2,4) by auto
  ultimately show ?thesis unfolding count_def by (subst each_record.simps) (auto simp: count_body_def)
qed

end
