(* ===== verification/Etcp_Timers.thy ===== *)
theory Etcp_Timers
  imports Etcp_Lib
begin

text \<open>
  The timers of Effective.TCP.IP.Programming/tselect.c: \<open>timeout\<close>, \<open>untimeout\<close> and \<open>tselect\<close>, over a
  list of active timers that is linked through a pool of nodes, with a free list. A time is a pair of
  seconds and microseconds. The function of a timer is a value of type \<open>'f\<close>; what calling it does is an
  argument of the definitions.
\<close>

subsection \<open>Times\<close>

type_synonym timeval = "int \<times> int"

text \<open>\<open>timercmp(a, b, <)\<close>.\<close>

definition tv_less :: "timeval \<Rightarrow> timeval \<Rightarrow> bool" where
  "tv_less a b = (if fst a = fst b then snd a < snd b else fst a < fst b)"

definition tv_value :: "timeval \<Rightarrow> int" where
  "tv_value a = fst a * 1000000 + snd a"

lemma tv_less_linear: "\<not> tv_less a b \<longleftrightarrow> tv_less b a \<or> a = b"
  by (auto simp: tv_less_def prod_eq_iff)

lemma tv_less_trans: "tv_less a b \<Longrightarrow> tv_less b c \<Longrightarrow> tv_less a c"
  by (auto simp: tv_less_def split: if_splits)

lemma tv_less_trans2: "\<not> tv_less b a \<Longrightarrow> \<not> tv_less c b \<Longrightarrow> \<not> tv_less c a"
  by (auto simp: tv_less_def split: if_splits)

lemma tv_less_trans3: "tv_less a b \<Longrightarrow> \<not> tv_less c b \<Longrightarrow> tv_less a c"
  by (auto simp: tv_less_def split: if_splits)

lemma tv_less_value:
  "0 \<le> snd a \<and> snd a \<le> 1000000 \<Longrightarrow> 0 \<le> snd b \<and> snd b \<le> 1000000 \<Longrightarrow>
    (tv_value a < tv_value b \<longrightarrow> tv_less a b) \<and> (tv_less a b \<longrightarrow> tv_value a \<le> tv_value b)"
  by (auto simp: tv_less_def tv_value_def split: if_splits)

subsection \<open>The pool\<close>

record 'f tevent =
  te_next :: "nat option"
  te_tv :: timeval
  te_func :: 'f
  te_arg :: nat
  te_id :: u32

text \<open>The nodes by address, the two list heads, the next address \<open>malloc\<close> gives if it has memory, the static \<open>id\<close>.\<close>

record 'f timers =
  tm_nodes :: "nat \<Rightarrow> 'f tevent"
  tm_active :: "nat option"
  tm_free :: "nat option"
  tm_brk :: nat
  tm_mem :: bool
  tm_id :: u32

abbreviation (input) NTIMERS :: nat where "NTIMERS \<equiv> 25"

definition set_node :: "nat \<Rightarrow> ('f tevent \<Rightarrow> 'f tevent) \<Rightarrow> 'f timers \<Rightarrow> 'f timers" where
  "set_node i f t = t\<lparr>tm_nodes := (tm_nodes t)(i := f (tm_nodes t i))\<rparr>"

definition new_block :: "'f timers \<Rightarrow> 'f timers" where
  "new_block t =
     (let b = tm_brk t in
      t\<lparr>tm_nodes := (\<lambda>i. if b \<le> i \<and> i < b + NTIMERS
                        then (tm_nodes t i)\<lparr>te_next := if i < b + NTIMERS - 1 then Some (i + 1) else None\<rparr>
                        else tm_nodes t i),
        tm_free := Some b, tm_brk := b + NTIMERS\<rparr>)"

definition allocate_timer :: "'f timers \<Rightarrow> nat option \<times> 'f timers" where
  "allocate_timer t =
     (if tm_free t = None \<and> \<not> tm_mem t then (None, t)
      else let t1 = (if tm_free t = None then new_block t else t) in
        case tm_free t1 of
          None \<Rightarrow> (None, t1)
        | Some tp \<Rightarrow> (Some tp, t1\<lparr>tm_free := te_next (tm_nodes t1 tp)\<rparr>))"

text \<open>
  The loops over the active list: \<open>tprev\<close> is the node whose \<open>next\<close> points to \<open>tcur\<close>, or none for the
  head of the list.
\<close>

partial_function (option) tm_walk :: "('f tevent \<Rightarrow> bool) \<Rightarrow> (nat \<Rightarrow> 'f tevent) \<Rightarrow> nat option \<Rightarrow> nat option \<Rightarrow> (nat option \<times> nat option) option" where
  "tm_walk go ns tprev tcur =
     (case tcur of
        None \<Rightarrow> Some (tprev, None)
      | Some x \<Rightarrow> if go (ns x) then tm_walk go ns (Some x) (te_next (ns x)) else Some (tprev, Some x))"

definition store_prev :: "nat option \<Rightarrow> nat option \<Rightarrow> 'f timers \<Rightarrow> 'f timers" where
  "store_prev tprev v t =
     (case tprev of None \<Rightarrow> t\<lparr>tm_active := v\<rparr> | Some p \<Rightarrow> set_node p (\<lambda>e. e\<lparr>te_next := v\<rparr>) t)"

text \<open>The time of expiry: \<open>ms * 1000\<close> is computed in an \<open>int\<close>.\<close>

definition expiry :: "timeval \<Rightarrow> int \<Rightarrow> timeval" where
  "expiry now ms =
     (let us = snd now + c_int (ms * 1000) in
      if us > 1000000 then (fst now + us div 1000000, us mod 1000000) else (fst now, us))"

text \<open>\<open>timeout\<close> at the time \<open>now\<close>; \<open>Inl\<close> when there is no memory.\<close>

definition timeout :: "'f \<Rightarrow> nat \<Rightarrow> int \<Rightarrow> timeval \<Rightarrow> 'f timers \<Rightarrow> ((bytes + u32) \<times> 'f timers) option" where
  "timeout func arg ms now t =
     (case allocate_timer t of
        (None, t1) \<Rightarrow> Some (Inl ''couldn't allocate timers'', t1)
      | (Some tp, t1) \<Rightarrow>
          let t2 = set_node tp (\<lambda>e. e\<lparr>te_func := func, te_arg := arg, te_tv := expiry now ms\<rparr>) t1 in
          (case tm_walk (\<lambda>e. \<not> tv_less (te_tv (tm_nodes t2 tp)) (te_tv e)) (tm_nodes t2) None (tm_active t2) of
             None \<Rightarrow> None
           | Some (tprev, tcur) \<Rightarrow>
               let t3 = store_prev tprev (Some tp) t2;
                   t4 = set_node tp (\<lambda>e. e\<lparr>te_next := tcur, te_id := tm_id t3\<rparr>) t3
               in Some (Inr (tm_id t3), t4\<lparr>tm_id := tm_id t3 + 1\<rparr>)))"

text \<open>\<open>untimeout\<close>: whether there was such a timer.\<close>

definition untimeout :: "u32 \<Rightarrow> 'f timers \<Rightarrow> (bool \<times> 'f timers) option" where
  "untimeout i t =
     (case tm_walk (\<lambda>e. i \<noteq> te_id e) (tm_nodes t) None (tm_active t) of
        None \<Rightarrow> None
      | Some (tprev, None) \<Rightarrow> Some (False, t)
      | Some (tprev, Some tcur) \<Rightarrow>
          let t1 = store_prev tprev (te_next (tm_nodes t tcur)) t;
              t2 = set_node tcur (\<lambda>e. e\<lparr>te_next := tm_free t1\<rparr>) t1
          in Some (True, t2\<lparr>tm_free := Some tcur\<rparr>))"

subsection \<open>The lists that the pool represents\<close>

fun seg :: "(nat \<Rightarrow> 'f tevent) \<Rightarrow> nat option \<Rightarrow> nat list \<Rightarrow> nat option \<Rightarrow> bool" where
  "seg ns p [] q \<longleftrightarrow> p = q"
| "seg ns p (x # xs) q \<longleftrightarrow> p = Some x \<and> seg ns (te_next (ns x)) xs q"

text \<open>What is stored in a timer: when, what, with which argument, and its number.\<close>

type_synonym 'f timer = "timeval \<times> 'f \<times> nat \<times> u32"

definition timer_of :: "'f tevent \<Rightarrow> 'f timer" where
  "timer_of e = (te_tv e, te_func e, te_arg e, te_id e)"

text \<open>The active timers and the free nodes are two separate lists that together are all nodes allocated.\<close>

definition tm_lists :: "'f timers \<Rightarrow> nat list \<Rightarrow> nat list \<Rightarrow> bool" where
  "tm_lists t xs fs \<longleftrightarrow> seg (tm_nodes t) (tm_active t) xs None \<and> seg (tm_nodes t) (tm_free t) fs None
     \<and> distinct (xs @ fs) \<and> set (xs @ fs) = {..<tm_brk t}"

definition timers_are :: "'f timers \<Rightarrow> 'f timer list \<Rightarrow> bool" where
  "timers_are t ts \<longleftrightarrow> (\<exists>xs fs. tm_lists t xs fs \<and> ts = map (\<lambda>x. timer_of (tm_nodes t x)) xs)"

lemma seg_unique: "seg ns p xs None \<Longrightarrow> seg ns p ys None \<Longrightarrow> xs = ys"
proof (induction xs arbitrary: p ys)
  case Nil
  then show ?case by (cases ys) auto
next
  case (Cons x xs)
  then show ?case by (cases ys) auto
qed

lemma timers_are_unique: "timers_are t ts \<Longrightarrow> timers_are t us \<Longrightarrow> us = ts"
  unfolding timers_are_def tm_lists_def using seg_unique by metis

definition by_time :: "'f timer list \<Rightarrow> bool" where
  "by_time ts \<longleftrightarrow> sorted_wrt (\<lambda>a b. \<not> tv_less (fst b) (fst a)) ts"

text \<open>What \<open>timeout\<close> and \<open>untimeout\<close> promise: a timer goes behind those that are not due later; the first of a number is taken out.\<close>

definition add_timer :: "'f timer \<Rightarrow> 'f timer list \<Rightarrow> 'f timer list" where
  "add_timer a ts = takeWhile (\<lambda>b. \<not> tv_less (fst a) (fst b)) ts @ a # dropWhile (\<lambda>b. \<not> tv_less (fst a) (fst b)) ts"

fun drop_timer :: "u32 \<Rightarrow> 'f timer list \<Rightarrow> 'f timer list" where
  "drop_timer i [] = []"
| "drop_timer i ((tv, f, a, j) # ts) = (if i = j then ts else (tv, f, a, j) # drop_timer i ts)"

lemma seg_frame: "(\<And>x. x \<in> set xs \<Longrightarrow> te_next (ns' x) = te_next (ns x)) \<Longrightarrow> seg ns' p xs q = seg ns p xs q"
  by (induction xs arbitrary: p) simp_all

lemma seg_append: "seg ns p (xs @ ys) q \<longleftrightarrow> (\<exists>r. seg ns p xs r \<and> seg ns r ys q)"
  by (induction xs arbitrary: p) auto

lemma seg_first: "seg ns p xs q \<Longrightarrow> p = first_of xs q"
  by (cases xs) auto

lemma tm_walk_stops:
  "seg ns tcur (us @ vs) None \<Longrightarrow> \<forall>x \<in> set us. go (ns x) \<Longrightarrow> (vs \<noteq> [] \<longrightarrow> \<not> go (ns (hd vs))) \<Longrightarrow>
    tm_walk go ns tprev tcur = Some (last_of us tprev, first_of vs None)"
proof (induction us arbitrary: tprev tcur)
  case Nil
  then show ?case by (cases vs) (simp_all add: tm_walk.simps)
next
  case (Cons u us)
  then have "tm_walk go ns (Some u) (te_next (ns u)) = Some (last_of us (Some u), first_of vs None)" by simp
  with Cons.prems show ?case by (simp add: tm_walk.simps last_of_Cons)
qed

lemma store_prev_nodes: "last_of us None \<noteq> Some x \<Longrightarrow> tm_nodes (store_prev (last_of us None) v t) x = tm_nodes t x"
  by (auto simp: store_prev_def set_node_def split: option.split)

lemma store_prev_sel [simp]:
  "timer_of (tm_nodes (store_prev p v t) x) = timer_of (tm_nodes t x)"
  "tm_free (store_prev p v t) = tm_free t" "tm_brk (store_prev p v t) = tm_brk t"
  "tm_mem (store_prev p v t) = tm_mem t" "tm_id (store_prev p v t) = tm_id t"
  by (simp_all add: store_prev_def set_node_def timer_of_def split: option.split)

lemma store_prev_seg:
  assumes "seg (tm_nodes t) (tm_active t) us r" and "distinct us"
  shows "seg (tm_nodes (store_prev (last_of us None) v t)) (tm_active (store_prev (last_of us None) v t)) us v"
proof (cases us rule: rev_cases)
  case Nil
  then show ?thesis by (simp add: store_prev_def)
next
  case (snoc us' u)
  let ?t = "store_prev (last_of us None) v t"
  have "seg (tm_nodes t) (tm_active t) us' (Some u)" using assms(1) snoc by (auto simp: seg_append)
  moreover have "seg (tm_nodes ?t) (tm_active t) us' (Some u) = seg (tm_nodes t) (tm_active t) us' (Some u)"
    using assms(2) snoc by (intro seg_frame) (auto simp: store_prev_def set_node_def)
  ultimately show ?thesis using snoc by (auto simp: seg_append store_prev_def set_node_def)
qed

subsection \<open>timeout and untimeout refine a list in order of time\<close>

lemma seg_upt:
  assumes "i < m" and "\<And>j. i \<le> j \<Longrightarrow> j < m - 1 \<Longrightarrow> te_next (ns j) = Some (j + 1)" and "te_next (ns (m - 1)) = None"
  shows "seg ns (Some i) [i..<m] None"
  using assms
proof (induction "m - i" arbitrary: i)
  case (Suc k)
  show ?case
  proof (cases "Suc i < m")
    case True
    then have "seg ns (Some (Suc i)) [Suc i..<m] None" using Suc by auto
    with Suc.prems True show ?thesis by (simp add: upt_conv_Cons)
  next
    case False
    then have "m = Suc i" using Suc.prems(1) by simp
    with Suc.prems show ?thesis by simp
  qed
qed simp

definition tm_taken :: "'f timers \<Rightarrow> nat \<Rightarrow> nat list \<Rightarrow> nat list \<Rightarrow> bool" where
  "tm_taken t tp xs fs \<longleftrightarrow> seg (tm_nodes t) (tm_active t) xs None \<and> seg (tm_nodes t) (tm_free t) fs None
     \<and> distinct (tp # xs @ fs) \<and> set (tp # xs @ fs) = {..<tm_brk t}"

lemma new_block_lists:
  assumes "tm_lists t xs []"
  shows "\<exists>bs. bs \<noteq> [] \<and> tm_lists (new_block t) xs bs \<and> (\<forall>x \<in> set xs. tm_nodes (new_block t) x = tm_nodes t x)"
proof -
  define b where "b = tm_brk t"
  define m where "m = b + NTIMERS"
  define bs where "bs = [b..<m]"
  let ?t = "new_block t"
  have bm: "b < m" by (simp add: m_def)
  then have bs: "bs \<noteq> []" "distinct bs" "set bs = {b..<m}" by (simp_all add: bs_def)
  have xs: "seg (tm_nodes t) (tm_active t) xs None" "distinct xs" "set xs = {..<b}"
    using assms by (auto simp: tm_lists_def b_def)
  have sel: "tm_nodes ?t i = (if b \<le> i \<and> i < m then (tm_nodes t i)\<lparr>te_next := if i < m - 1 then Some (i + 1) else None\<rparr> else tm_nodes t i)"
    "tm_free ?t = Some b" "tm_brk ?t = m" "tm_active ?t = tm_active t" for i
    by (simp_all add: new_block_def Let_def b_def m_def)
  have keep: "\<forall>x \<in> set xs. tm_nodes ?t x = tm_nodes t x" using xs(3) by (simp add: sel)
  have "seg (tm_nodes ?t) (tm_active ?t) xs None"
    using xs(1) keep by (subst seg_frame [where ns = "tm_nodes t"]) (simp_all add: sel(4))
  moreover have "seg (tm_nodes ?t) (tm_free ?t) bs None"
    unfolding sel(2) bs_def using bm by (intro seg_upt) (auto simp: sel)
  moreover have "distinct (xs @ bs)" "set (xs @ bs) = {..<m}" using xs(2,3) bs bm by auto
  ultimately show ?thesis using bs(1) keep by (auto simp: tm_lists_def sel(3))
qed

lemma allocate_taken:
  assumes "tm_lists t xs fs" and "tm_free t \<noteq> None \<or> tm_mem t"
  shows "\<exists>tp t1 fs'. allocate_timer t = (Some tp, t1) \<and> tm_taken t1 tp xs fs'
    \<and> (\<forall>x \<in> set xs. tm_nodes t1 x = tm_nodes t x) \<and> tm_id t1 = tm_id t \<and> tm_mem t1 = tm_mem t"
proof -
  define t0 where "t0 = (if tm_free t = None then new_block t else t)"
  have free: "tm_free t = first_of fs None" using assms(1) by (auto simp: tm_lists_def dest: seg_first)
  obtain gs where t0: "tm_lists t0 xs gs" "gs \<noteq> []" "\<forall>x \<in> set xs. tm_nodes t0 x = tm_nodes t x"
    "tm_id t0 = tm_id t" "tm_mem t0 = tm_mem t"
  proof (cases fs)
    case Nil
    with free have "t0 = new_block t" by (simp add: t0_def)
    moreover obtain bs where "bs \<noteq> []" "tm_lists (new_block t) xs bs" "\<forall>x \<in> set xs. tm_nodes (new_block t) x = tm_nodes t x"
      using new_block_lists [of t xs] assms(1) Nil by auto
    ultimately show thesis by (intro that [of bs]) (simp_all add: new_block_def Let_def)
  next
    case Cons
    with free have "t0 = t" by (simp add: t0_def)
    with that [of fs] assms(1) Cons show thesis by simp
  qed
  then obtain tp fs' where gs: "gs = tp # fs'" by (cases gs) auto
  have f: "tm_free t0 = Some tp" using t0(1) gs by (auto simp: tm_lists_def)
  have "allocate_timer t = (Some tp, t0\<lparr>tm_free := te_next (tm_nodes t0 tp)\<rparr>)"
    using assms(2) f unfolding allocate_timer_def Let_def t0_def [symmetric] by simp
  moreover have "tm_taken (t0\<lparr>tm_free := te_next (tm_nodes t0 tp)\<rparr>) tp xs fs'"
    using t0(1) gs by (auto simp: tm_lists_def tm_taken_def)
  ultimately show ?thesis using t0 by auto
qed

lemma takeWhile_split: "\<exists>us vs. xs = us @ vs \<and> (\<forall>x \<in> set us. P x) \<and> (vs \<noteq> [] \<longrightarrow> \<not> P (hd vs))
    \<and> takeWhile P xs = us \<and> dropWhile P xs = vs"
  by (rule exI [of _ "takeWhile P xs"], rule exI [of _ "dropWhile P xs"]) (use hd_dropWhile [of P xs] in \<open>auto dest: set_takeWhileD\<close>)

lemma timeout_refines:
  assumes "timers_are t ts" and "tm_free t \<noteq> None \<or> tm_mem t"
  shows "\<exists>t'. timeout f a ms now t = Some (Inr (tm_id t), t')
    \<and> timers_are t' (add_timer (expiry now ms, f, a, tm_id t) ts) \<and> tm_id t' = tm_id t + 1 \<and> tm_mem t' = tm_mem t"
proof -
  from assms(1) obtain xs fs where l: "tm_lists t xs fs" and ts: "ts = map (\<lambda>x. timer_of (tm_nodes t x)) xs"
    by (auto simp: timers_are_def)
  from allocate_taken [OF l assms(2)] obtain tp t1 gs where
    a: "allocate_timer t = (Some tp, t1)" "tm_taken t1 tp xs gs" "\<forall>x \<in> set xs. tm_nodes t1 x = tm_nodes t x"
      "tm_id t1 = tm_id t" "tm_mem t1 = tm_mem t" by blast
  define t2 where "t2 = set_node tp (\<lambda>e. e\<lparr>te_func := f, te_arg := a, te_tv := expiry now ms\<rparr>) t1"
  have xs: "distinct (tp # xs @ gs)" "set (tp # xs @ gs) = {..<tm_brk t1}"
    "seg (tm_nodes t1) (tm_active t1) xs None" "seg (tm_nodes t1) (tm_free t1) gs None"
    using a(2) by (auto simp: tm_taken_def)
  have same2: "tm_nodes t2 x = tm_nodes t1 x" if "x \<in> set xs \<or> x \<in> set gs" for x
    using that xs(1) by (auto simp: t2_def set_node_def)
  have sel2: "tm_active t2 = tm_active t1" "tm_free t2 = tm_free t1" "tm_brk t2 = tm_brk t1" "tm_id t2 = tm_id t"
    "tm_mem t2 = tm_mem t" "te_tv (tm_nodes t2 tp) = expiry now ms"
    using a(4,5) by (simp_all add: t2_def set_node_def)
  define go where "go = (\<lambda>e :: 'a tevent. \<not> tv_less (expiry now ms) (te_tv e))"
  obtain us vs where uv: "xs = us @ vs" "\<forall>x \<in> set us. go (tm_nodes t2 x)" "vs \<noteq> [] \<longrightarrow> \<not> go (tm_nodes t2 (hd vs))"
    "takeWhile (\<lambda>x. go (tm_nodes t2 x)) xs = us" "dropWhile (\<lambda>x. go (tm_nodes t2 x)) xs = vs"
    using takeWhile_split [of xs "\<lambda>x. go (tm_nodes t2 x)"] by blast
  have seg2: "seg (tm_nodes t2) (tm_active t2) (us @ vs) None"
    using xs(3) uv(1) sel2(1) by (subst seg_frame [where ns = "tm_nodes t1"]) (auto simp: same2)
  have walk: "tm_walk go (tm_nodes t2) None (tm_active t2) = Some (last_of us None, first_of vs None)"
    by (rule tm_walk_stops [OF seg2 uv(2,3)])
  define t3 where "t3 = store_prev (last_of us None) (Some tp) t2"
  define t4 where "t4 = (set_node tp (\<lambda>e. e\<lparr>te_next := first_of vs None, te_id := tm_id t3\<rparr>) t3)\<lparr>tm_id := tm_id t3 + 1\<rparr>"
  have run: "timeout f a ms now t = Some (Inr (tm_id t), t4)"
    unfolding timeout_def a(1) by (simp add: Let_def t2_def [symmetric] sel2(6) walk [unfolded go_def] t3_def [symmetric] t4_def)
      (simp add: t3_def sel2)
  obtain r where r: "seg (tm_nodes t2) (tm_active t2) us r" "seg (tm_nodes t2) r vs None" using seg2 by (auto simp: seg_append)
  have dus: "distinct us" "tp \<notin> set us" "tp \<notin> set vs" "set us \<inter> set vs = {}" using xs(1) uv(1) by auto
  have seg3: "seg (tm_nodes t3) (tm_active t3) us (Some tp)" unfolding t3_def by (rule store_prev_seg [OF r(1) dus(1)])
  have off: "tm_nodes t3 x = tm_nodes t2 x" if "x \<notin> set us" for x
    unfolding t3_def using that by (intro store_prev_nodes) (auto simp: last_of_def)
  have nodes4: "tm_nodes t4 x = tm_nodes t3 x" if "x \<noteq> tp" for x using that by (simp add: t4_def set_node_def)
  have nodes42: "tm_nodes t4 x = tm_nodes t2 x" if "x \<in> set vs \<or> x \<in> set gs" for x
  proof -
    have "x \<noteq> tp" "x \<notin> set us" using that dus xs(1) uv(1) by auto
    then show ?thesis by (simp add: nodes4 off)
  qed
  have "seg (tm_nodes t4) (tm_active t4) us (Some tp)"
    using seg3 dus(2) by (subst seg_frame [where ns = "tm_nodes t3"]) (auto intro!: nodes4 simp: t4_def set_node_def)
  moreover have "seg (tm_nodes t4) r vs None"
    using r(2) dus by (subst seg_frame [where ns = "tm_nodes t2"]) (simp_all add: nodes42)
  moreover have "te_next (tm_nodes t4 tp) = r" using seg_first [OF r(2)] by (simp add: t4_def set_node_def)
  ultimately have seg4: "seg (tm_nodes t4) (tm_active t4) (us @ tp # vs) None" by (auto simp: seg_append)
  have "seg (tm_nodes t4) (tm_free t4) gs None"
    using xs(1,4) uv(1) sel2(2) by (subst seg_frame [where ns = "tm_nodes t1"]) (simp_all add: nodes42 same2, simp add: t4_def t3_def set_node_def)
  then have lists4: "tm_lists t4 (us @ tp # vs) gs"
    using seg4 xs(1,2) uv(1) sel2(3) by (auto simp: tm_lists_def t4_def set_node_def t3_def)
  have tim: "timer_of (tm_nodes t4 x) = timer_of (tm_nodes t x)" if "x \<in> set xs" for x
  proof -
    have "timer_of (tm_nodes t4 x) = timer_of (tm_nodes t3 x)" using that xs(1) by (subst nodes4) auto
    also have "\<dots> = timer_of (tm_nodes t2 x)" by (simp add: t3_def)
    finally show ?thesis using that xs(1) a(3) same2 by auto
  qed
  have new: "timer_of (tm_nodes t4 tp) = (expiry now ms, f, a, tm_id t)"
    using off [OF dus(2)] sel2 by (simp add: t4_def set_node_def timer_of_def t3_def t2_def)
  have goeq: "go (tm_nodes t2 x) = (\<not> tv_less (expiry now ms) (fst (timer_of (tm_nodes t x))))" if "x \<in> set xs" for x
    using that xs(1) a(3) same2 [of x] by (auto simp: go_def timer_of_def)
  have "map (\<lambda>x. timer_of (tm_nodes t4 x)) (us @ tp # vs) = add_timer (expiry now ms, f, a, tm_id t) ts"
  proof -
    have "takeWhile (\<lambda>b. \<not> tv_less (expiry now ms) (fst b)) ts = map (\<lambda>x. timer_of (tm_nodes t x)) us"
      using uv(4) goeq unfolding ts takeWhile_map o_def by (metis (mono_tags, lifting) takeWhile_cong)
    moreover have "dropWhile (\<lambda>b. \<not> tv_less (expiry now ms) (fst b)) ts = map (\<lambda>x. timer_of (tm_nodes t x)) vs"
      using uv(5) goeq unfolding ts dropWhile_map o_def by (metis (mono_tags, lifting) dropWhile_cong)
    ultimately show ?thesis using tim uv(1) new by (simp add: add_timer_def)
  qed
  then have "timers_are t4 (add_timer (expiry now ms, f, a, tm_id t) ts)" using lists4 by (auto simp: timers_are_def)
  moreover have "tm_id t4 = tm_id t + 1" "tm_mem t4 = tm_mem t" using sel2 by (simp_all add: t4_def t3_def set_node_def)
  ultimately show ?thesis using run by blast
qed

lemma drop_timer_split:
  "drop_timer i ts = (case dropWhile (\<lambda>b. snd (snd (snd b)) \<noteq> i) ts of
      [] \<Rightarrow> ts | _ # rest \<Rightarrow> takeWhile (\<lambda>b. snd (snd (snd b)) \<noteq> i) ts @ rest)"
  by (induction ts rule: drop_timer.induct) (auto split: list.splits simp: dropWhile_eq_Nil_conv [THEN iffD2])

lemma untimeout_refines:
  assumes "timers_are t ts"
  shows "\<exists>t'. untimeout i t = Some (i \<in> (\<lambda>b. snd (snd (snd b))) ` set ts, t') \<and> timers_are t' (drop_timer i ts)
    \<and> tm_id t' = tm_id t \<and> tm_mem t' = tm_mem t"
proof -
  from assms obtain xs fs where l: "tm_lists t xs fs" and ts: "ts = map (\<lambda>x. timer_of (tm_nodes t x)) xs"
    by (auto simp: timers_are_def)
  define go where "go = (\<lambda>e :: 'a tevent. i \<noteq> te_id e)"
  define key where "key = (\<lambda>b :: 'a timer. snd (snd (snd b)) \<noteq> i)"
  have key: "key (timer_of e) = go e" for e by (auto simp: key_def go_def timer_of_def)
  obtain us vs where uv: "xs = us @ vs" "\<forall>x \<in> set us. go (tm_nodes t x)" "vs \<noteq> [] \<longrightarrow> \<not> go (tm_nodes t (hd vs))"
    "takeWhile (\<lambda>x. go (tm_nodes t x)) xs = us" "dropWhile (\<lambda>x. go (tm_nodes t x)) xs = vs"
    using takeWhile_split [of xs "\<lambda>x. go (tm_nodes t x)"] by blast
  have xs: "seg (tm_nodes t) (tm_active t) (us @ vs) None" "seg (tm_nodes t) (tm_free t) fs None" "distinct (us @ vs @ fs)"
    "set (us @ vs @ fs) = {..<tm_brk t}"
    using l uv(1) by (simp_all add: tm_lists_def)
  have walk: "tm_walk go (tm_nodes t) None (tm_active t) = Some (last_of us None, first_of vs None)"
    by (rule tm_walk_stops [OF xs(1) uv(2,3)])
  have cut: "takeWhile key ts = map (\<lambda>x. timer_of (tm_nodes t x)) us" "dropWhile key ts = map (\<lambda>x. timer_of (tm_nodes t x)) vs"
    using uv(4,5) unfolding ts takeWhile_map dropWhile_map o_def key by simp_all
  note split = drop_timer_split [of i ts, folded key_def, unfolded cut]
  show ?thesis
  proof (cases vs)
    case Nil
    have "untimeout i t = Some (False, t)" unfolding untimeout_def walk [unfolded go_def] Nil by simp
    moreover have "i \<notin> (\<lambda>b. snd (snd (snd b))) ` set ts"
      using uv(1,2) Nil by (auto simp: ts go_def timer_of_def)
    moreover have "drop_timer i ts = ts" using split Nil by simp
    ultimately show ?thesis using assms by auto
  next
    case (Cons v vs')
    define t1 where "t1 = store_prev (last_of us None) (te_next (tm_nodes t v)) t"
    define t2 where "t2 = (set_node v (\<lambda>e. e\<lparr>te_next := tm_free t1\<rparr>) t1)\<lparr>tm_free := Some v\<rparr>"
    have run: "untimeout i t = Some (True, t2)"
      unfolding untimeout_def walk [unfolded go_def] Cons by (simp add: Let_def t1_def t2_def)
    obtain r where r: "seg (tm_nodes t) (tm_active t) us r" "seg (tm_nodes t) r (v # vs') None"
      using xs(1) Cons by (auto simp: seg_append)
    have d: "distinct us" "v \<notin> set us" "v \<notin> set vs'" "v \<notin> set fs" using xs(3) Cons by auto
    have off: "tm_nodes t2 x = tm_nodes t x" if "x \<notin> set us" "x \<noteq> v" for x
    proof -
      have "last_of us None \<noteq> Some x" using that(1) by (auto simp: last_of_def)
      then show ?thesis using that(2) store_prev_nodes [of us x] by (simp add: t2_def t1_def set_node_def)
    qed
    have "seg (tm_nodes t1) (tm_active t1) us (te_next (tm_nodes t v))"
      unfolding t1_def by (rule store_prev_seg [OF r(1) d(1)])
    then have "seg (tm_nodes t2) (tm_active t2) us (te_next (tm_nodes t v))"
      using d(2) by (subst seg_frame [where ns = "tm_nodes t1"]) (auto simp: t2_def set_node_def)
    moreover have "seg (tm_nodes t2) (te_next (tm_nodes t v)) vs' None"
    proof -
      have "x \<notin> set us \<and> x \<noteq> v" if "x \<in> set vs'" for x using that xs(3) Cons by auto
      then show ?thesis using r(2) by (subst seg_frame [where ns = "tm_nodes t"]) (simp_all add: off)
    qed
    ultimately have s1: "seg (tm_nodes t2) (tm_active t2) (us @ vs') None" by (auto simp: seg_append)
    have "seg (tm_nodes t2) (tm_free t) fs None"
    proof -
      have "x \<notin> set us \<and> x \<noteq> v" if "x \<in> set fs" for x using that xs(3) Cons by auto
      then show ?thesis using xs(2) by (subst seg_frame [where ns = "tm_nodes t"]) (simp_all add: off)
    qed
    then have s2: "seg (tm_nodes t2) (tm_free t2) (v # fs) None" by (simp add: t2_def set_node_def t1_def)
    have "tm_lists t2 (us @ vs') (v # fs)"
      using s1 s2 xs(3,4) Cons by (auto simp: tm_lists_def t2_def set_node_def t1_def)
    moreover have "timer_of (tm_nodes t2 x) = timer_of (tm_nodes t x)" for x
    proof -
      have "timer_of (tm_nodes t2 x) = timer_of (tm_nodes t1 x)" by (simp add: t2_def set_node_def timer_of_def)
      also have "\<dots> = timer_of (tm_nodes t x)" by (simp add: t1_def)
      finally show ?thesis .
    qed
    ultimately have "timers_are t2 (map (\<lambda>x. timer_of (tm_nodes t x)) (us @ vs'))" by (auto simp: timers_are_def)
    moreover have "drop_timer i ts = map (\<lambda>x. timer_of (tm_nodes t x)) (us @ vs')" using split Cons by simp
    moreover have "i \<in> (\<lambda>b. snd (snd (snd b))) ` set ts"
      using uv(1,3) Cons by (auto simp: ts go_def timer_of_def)
    ultimately show ?thesis using run by (auto simp: t2_def set_node_def t1_def)
  qed
qed

lemma by_time_add:
  assumes "by_time ts"
  shows "by_time (add_timer a ts)"
proof -
  let ?P = "\<lambda>b. \<not> tv_less (fst a) (fst b)"
  define us vs where "us = takeWhile ?P ts" and "vs = dropWhile ?P ts"
  have ts: "ts = us @ vs" by (simp add: us_def vs_def)
  have us: "\<forall>b \<in> set us. ?P b" unfolding us_def by (auto dest: set_takeWhileD)
  have s: "by_time us" "by_time vs" "\<forall>b \<in> set us. \<forall>c \<in> set vs. \<not> tv_less (fst c) (fst b)"
    using assms by (auto simp: by_time_def ts sorted_wrt_append)
  have vs: "\<not> tv_less (fst c) (fst a)" if mem: "c \<in> set vs" for c
  proof -
    obtain v vs' where v: "vs = v # vs'" using mem by (cases vs) auto
    then have "tv_less (fst a) (fst v)" using hd_dropWhile [of ?P ts] by (auto simp: vs_def)
    moreover have "\<not> tv_less (fst c) (fst v)" using s(2) mem v by (auto simp: by_time_def tv_less_def)
    ultimately show ?thesis by (auto simp: tv_less_def split: if_splits)
  qed
  show ?thesis using s us vs unfolding add_timer_def us_def [symmetric] vs_def [symmetric]
    by (auto simp: by_time_def sorted_wrt_append)
qed

lemma by_time_drop: "by_time ts \<Longrightarrow> by_time (drop_timer i ts)"
proof (induction ts rule: drop_timer.induct)
  case (2 i tv f a j ts)
  have "set (drop_timer i ts) \<subseteq> set ts" by (induction ts rule: drop_timer.induct) auto
  with 2 show ?case by (auto simp: by_time_def)
qed simp

subsection \<open>tselect\<close>

text \<open>
  A run gives a value, or the message of the call of \<open>error\<close> that ends the program (or of the fault);
  \<open>None\<close> when it does not return. A callback works on the timers and on a state \<open>'w\<close> of its own.
\<close>

type_synonym 'a run = "(bytes + 'a) option"
type_synonym ('f, 'w) callback = "'f \<Rightarrow> nat \<Rightarrow> 'f timers \<Rightarrow> 'w \<Rightarrow> ('f timers \<times> 'w) run"

text \<open>What follows the call: the timer at the head of the list, whichever it is now, is given back.\<close>

definition free_head :: "'f timers \<Rightarrow> 'f timers option" where
  "free_head t =
     (case tm_active t of
        None \<Rightarrow> None
      | Some tp \<Rightarrow>
          let t1 = t\<lparr>tm_active := te_next (tm_nodes t tp)\<rparr>;
              t2 = set_node tp (\<lambda>e. e\<lparr>te_next := tm_free t1\<rparr>) t1
          in Some (t2\<lparr>tm_free := Some tp\<rparr>))"

partial_function (option) fire :: "('f, 'w) callback \<Rightarrow> timeval \<Rightarrow> 'f timers \<Rightarrow> 'w \<Rightarrow> ('f timers \<times> 'w) run" where
  "fire call now t w =
     (case tm_active t of
        None \<Rightarrow> Some (Inr (t, w))
      | Some x \<Rightarrow>
          if \<not> tv_less now (te_tv (tm_nodes t x)) then
            (case call (te_func (tm_nodes t x)) (te_arg (tm_nodes t x)) t w of
               None \<Rightarrow> None
             | Some (Inl m) \<Rightarrow> Some (Inl m)
             | Some (Inr (t1, w1)) \<Rightarrow>
                 (case free_head t1 of None \<Rightarrow> Some (Inl ''segmentation fault'') | Some t2 \<Rightarrow> fire call now t2 w1))
          else Some (Inr (t, w)))"

text \<open>The time that is left, for \<open>select\<close>.\<close>

definition remaining :: "timeval \<Rightarrow> timeval \<Rightarrow> timeval" where
  "remaining a b =
     (let s = fst a - fst b; u = snd a - snd b in if u < 0 then (s - 1, u + 1000000) else (s, u))"

lemma remaining_value: "tv_value (remaining a b) = tv_value a - tv_value b"
  by (simp add: remaining_def tv_value_def Let_def)

text \<open>The three masks, each of which may be \<open>NULL\<close>; what \<open>select\<close> does: the masks it leaves, and its result.\<close>

type_synonym masks = "nat set option \<times> nat set option \<times> nat set option"

definition no_masks :: masks where
  "no_masks = (None, None, None)"

datatype sel = Sel_error | Sel_ready nat masks | Sel_timeout masks

record ('f, 'w) tsel =
  ts_timers :: "'f timers"
  ts_world :: 'w
  ts_masks :: masks
  ts_calls :: "(masks \<times> timeval option) list"

definition sel_time :: "timeval \<Rightarrow> 'f timers \<Rightarrow> timeval option" where
  "sel_time now t = map_option (\<lambda>x. remaining (te_tv (tm_nodes t x)) now) (tm_active t)"

text \<open>
  \<open>tselect\<close> over the rounds to come: the time at which each starts and what \<open>select\<close> does in it. The
  result is missing when the rounds are used up. \<open>saved\<close> are rmask, wmask and emask.
\<close>

fun tselect_rounds :: "('f, 'w) callback \<Rightarrow> masks \<Rightarrow> (timeval \<times> sel) list \<Rightarrow> ('f, 'w) tsel \<Rightarrow> (int option \<times> ('f, 'w) tsel) run" where
  "tselect_rounds call saved [] s = Some (Inr (None, s))"
| "tselect_rounds call saved ((now, r) # rs) s =
     (case fire call now (ts_timers s) (ts_world s) of
        None \<Rightarrow> None
      | Some (Inl m) \<Rightarrow> Some (Inl m)
      | Some (Inr (t, w)) \<Rightarrow>
          let s1 = s\<lparr>ts_timers := t, ts_world := w\<rparr>; tvp = sel_time now t in
          if tvp = None \<and> saved = no_masks then Some (Inr (Some 0, s1))
          else let s2 = s1\<lparr>ts_calls := ts_calls s1 @ [(ts_masks s1, tvp)]\<rparr> in
            (case r of
               Sel_error \<Rightarrow> Some (Inr (Some (-1), s2))
             | Sel_ready n m \<Rightarrow> Some (Inr (Some (int n), s2\<lparr>ts_masks := m\<rparr>))
             | Sel_timeout m \<Rightarrow> tselect_rounds call saved rs (s2\<lparr>ts_masks := saved\<rparr>)))"

definition tselect :: "('f, 'w) callback \<Rightarrow> masks \<Rightarrow> (timeval \<times> sel) list \<Rightarrow> 'f timers \<Rightarrow> 'w \<Rightarrow> (int option \<times> ('f, 'w) tsel) run" where
  "tselect call m rs t w = tselect_rounds call m rs \<lparr>ts_timers = t, ts_world = w, ts_masks = m, ts_calls = []\<rparr>"

text \<open>The timers that are due, which come first.\<close>

definition due :: "timeval \<Rightarrow> 'f timer list \<Rightarrow> 'f timer list" where
  "due now ts = takeWhile (\<lambda>b. \<not> tv_less now (fst b)) ts"

definition not_due :: "timeval \<Rightarrow> 'f timer list \<Rightarrow> 'f timer list" where
  "not_due now ts = dropWhile (\<lambda>b. \<not> tv_less now (fst b)) ts"

lemma due_append: "due now ts @ not_due now ts = ts"
  by (simp add: due_def not_due_def)

lemma due_simps [simp]:
  "due now [] = []" "not_due now [] = []"
  "\<not> tv_less now (fst a) \<Longrightarrow> due now (a # ts) = a # due now ts"
  "\<not> tv_less now (fst a) \<Longrightarrow> not_due now (a # ts) = not_due now ts"
  "tv_less now (fst a) \<Longrightarrow> due now (a # ts) = []"
  "tv_less now (fst a) \<Longrightarrow> not_due now (a # ts) = a # ts"
  "due now (not_due now ts) = []" "not_due now (not_due now ts) = not_due now ts"
proof -
  show "due now (not_due now ts) = []"
    by (induction ts) (auto simp: due_def not_due_def)
qed (simp_all add: due_def not_due_def)

lemma due_all:
  assumes "by_time ts"
  shows "set (due now ts) = {b \<in> set ts. \<not> tv_less now (fst b)}"
  using assms
proof (induction ts)
  case (Cons a ts)
  have ts: "by_time ts" "\<forall>b \<in> set ts. \<not> tv_less (fst b) (fst a)" using Cons.prems by (simp_all add: by_time_def)
  show ?case
  proof (cases "tv_less now (fst a)")
    case True
    then have "\<forall>b \<in> set ts. tv_less now (fst b)" using ts(2) tv_less_trans3 by blast
    with True show ?thesis by auto
  next
    case False
    with Cons.IH [OF ts(1)] show ?thesis by auto
  qed
qed simp

lemma due_filter:
  assumes "by_time ts"
  shows "due y ts = filter (\<lambda>b. \<not> tv_less y (fst b)) ts \<and> not_due y ts = filter (\<lambda>b. tv_less y (fst b)) ts"
  using assms
proof (induction ts)
  case (Cons a ts)
  have ts: "by_time ts" "\<forall>b \<in> set ts. \<not> tv_less (fst b) (fst a)" using Cons.prems by (simp_all add: by_time_def)
  show ?case
  proof (cases "tv_less y (fst a)")
    case True
    then have "\<forall>b \<in> set ts. tv_less y (fst b)" using ts(2) tv_less_trans3 by blast
    with True show ?thesis by (auto simp: filter_empty_conv intro!: filter_True [symmetric])
  next
    case False
    with Cons.IH [OF ts(1)] show ?thesis by auto
  qed
qed simp

lemma by_time_not_due: "by_time ts \<Longrightarrow> by_time (not_due now ts)"
  unfolding by_time_def not_due_def by (rule sorted_wrt_dropWhile)

lemma free_head_refines:
  assumes "timers_are t (a # ts)"
  shows "\<exists>t'. free_head t = Some t' \<and> timers_are t' ts \<and> tm_id t' = tm_id t \<and> tm_mem t' = tm_mem t"
proof -
  from assms obtain x xs fs where l: "tm_lists t (x # xs) fs" and ts: "ts = map (\<lambda>x. timer_of (tm_nodes t x)) xs"
    by (auto simp: timers_are_def Cons_eq_map_conv)
  define t' where "t' = (set_node x (\<lambda>e. e\<lparr>te_next := tm_free t\<rparr>) t)\<lparr>tm_active := te_next (tm_nodes t x), tm_free := Some x\<rparr>"
  have run: "free_head t = Some t'" using l by (simp add: free_head_def t'_def tm_lists_def set_node_def)
  have d: "x \<notin> set xs" "x \<notin> set fs" using l by (auto simp: tm_lists_def)
  have "seg (tm_nodes t') (te_next (tm_nodes t x)) xs None"
    using l d by (subst seg_frame [where ns = "tm_nodes t"]) (auto simp: tm_lists_def t'_def set_node_def)
  moreover have "seg (tm_nodes t') (tm_free t) fs None"
    using l d by (subst seg_frame [where ns = "tm_nodes t"]) (auto simp: tm_lists_def t'_def set_node_def)
  ultimately have "tm_lists t' xs (x # fs)"
    using l by (auto simp: tm_lists_def t'_def set_node_def)
  moreover have "ts = map (\<lambda>x. timer_of (tm_nodes t' x)) xs" using ts d by (auto simp: t'_def set_node_def)
  ultimately show ?thesis using run by (auto simp: timers_are_def t'_def set_node_def)
qed

lemma timers_are_head:
  assumes "timers_are t ts"
  shows "(ts = [] \<longrightarrow> tm_active t = None)
    \<and> (ts \<noteq> [] \<longrightarrow> (\<exists>x. tm_active t = Some x \<and> timer_of (tm_nodes t x) = hd ts))"
proof -
  from assms obtain xs fs where l: "tm_lists t xs fs" and ts: "ts = map (\<lambda>x. timer_of (tm_nodes t x)) xs"
    by (auto simp: timers_are_def)
  show ?thesis using l ts by (cases xs) (simp_all add: tm_lists_def)
qed

lemma sel_time_head:
  assumes "timers_are t ts"
  shows "sel_time now t = (case ts of [] \<Rightarrow> None | a # _ \<Rightarrow> Some (remaining (fst a) now))"
  using timers_are_head [OF assms] by (cases ts) (auto simp: sel_time_def timer_of_def)

subsection \<open>Callbacks\<close>

fun runs :: "('a \<Rightarrow> 'w \<Rightarrow> 'w \<Rightarrow> bool) \<Rightarrow> 'a list \<Rightarrow> 'w \<Rightarrow> 'w \<Rightarrow> bool" where
  "runs E [] w w' \<longleftrightarrow> w' = w"
| "runs E (a # as) w w' \<longleftrightarrow> (\<exists>w1. E a w w1 \<and> runs E as w1 w')"

lemma runs_fold [simp]: "runs (\<lambda>a w w'. w' = f a w) as w w' \<longleftrightarrow> w' = fold f as w"
  by (induction as arbitrary: w) simp_all

lemma runs_append: "runs E (as @ bs) w w' \<longleftrightarrow> (\<exists>w1. runs E as w w1 \<and> runs E bs w1 w')"
  by (induction as arbitrary: w) auto

text \<open>
  The contract of the callbacks, for a timer \<open>a\<close> that is due: the call returns with \<open>a\<close> still at the head
  of the list and the timers that are due unchanged; the others may change as \<open>R\<close> says, which is
  a preorder, and the state of the callbacks as \<open>E\<close> says. \<open>ok\<close> is what they need, and holds again
  when \<open>a\<close> has been given back: of the time of the round, of whether there is memory, of the next
  number, of the timers and of the state.
\<close>

locale timer_calls =
  fixes call :: "('f, 'w) callback"
    and E :: "'f timer \<Rightarrow> 'w \<Rightarrow> 'w \<Rightarrow> bool"
    and R :: "'f timer list \<Rightarrow> 'f timer list \<Rightarrow> bool"
    and ok :: "timeval \<Rightarrow> bool \<Rightarrow> u32 \<Rightarrow> 'f timer list \<Rightarrow> 'w \<Rightarrow> bool"
  assumes calls: "timers_are t (a # ts) \<Longrightarrow> by_time (a # ts) \<Longrightarrow> \<not> tv_less now (fst a) \<Longrightarrow> ok now (tm_mem t) (tm_id t) (a # ts) w \<Longrightarrow>
      \<exists>t' w' ts'. call (fst (snd a)) (fst (snd (snd a))) t w = Some (Inr (t', w')) \<and> timers_are t' (a # ts')
        \<and> by_time (a # ts') \<and> ok now (tm_mem t') (tm_id t') ts' w' \<and> due now ts' = due now ts
        \<and> R (not_due now ts) (not_due now ts') \<and> E a w w'"
    and R_refl: "R ts ts"
    and R_trans: "R ts ts' \<Longrightarrow> R ts' ts'' \<Longrightarrow> R ts ts''"
begin

lemma fire_due:
  assumes "timers_are t ts" and "by_time ts" and "ok now (tm_mem t) (tm_id t) ts w"
  shows "\<exists>t' w' ts'. fire call now t w = Some (Inr (t', w')) \<and> timers_are t' ts' \<and> by_time ts' \<and> due now ts' = []
    \<and> R (not_due now ts) ts' \<and> ok now (tm_mem t') (tm_id t') ts' w' \<and> runs E (due now ts) w w'"
  using assms
proof (induction "length (due now ts)" arbitrary: t w ts)
  case 0
  then have due: "due now ts = []" by simp
  then have nd: "not_due now ts = ts" using due_append [of now ts] by simp
  have "fire call now t w = Some (Inr (t, w))"
  proof (cases ts)
    case Nil
    with timers_are_head [OF "0.prems"(1)] show ?thesis by (subst fire.simps) simp
  next
    case (Cons a ts')
    then have "tv_less now (fst a)" using due by (cases "tv_less now (fst a)") auto
    with timers_are_head [OF "0.prems"(1)] Cons show ?thesis by (subst fire.simps) (auto simp: timer_of_def)
  qed
  then show ?case using "0.prems" due nd R_refl by auto
next
  case (Suc n)
  then obtain a ts1 where ts: "ts = a # ts1" "\<not> tv_less now (fst a)"
    by (cases ts) (auto simp: due_def split: if_splits)
  obtain x where x: "tm_active t = Some x" "timer_of (tm_nodes t x) = a"
    using timers_are_head [OF Suc.prems(1)] ts(1) by auto
  then have a: "te_tv (tm_nodes t x) = fst a" "te_func (tm_nodes t x) = fst (snd a)" "te_arg (tm_nodes t x) = fst (snd (snd a))"
    by (auto simp: timer_of_def)
  from calls [OF Suc.prems(1,2) [unfolded ts(1)] ts(2) Suc.prems(3) [unfolded ts(1)]] obtain t1 w1 ts2 where
    c: "call (fst (snd a)) (fst (snd (snd a))) t w = Some (Inr (t1, w1))" "timers_are t1 (a # ts2)" "by_time (a # ts2)"
      "ok now (tm_mem t1) (tm_id t1) ts2 w1" "due now ts2 = due now ts1" "R (not_due now ts1) (not_due now ts2)" "E a w w1" by blast
  from free_head_refines [OF c(2)] obtain t2 where t2: "free_head t1 = Some t2" "timers_are t2 ts2" "tm_mem t2 = tm_mem t1" "tm_id t2 = tm_id t1" by blast
  have step: "fire call now t w = fire call now t2 w1"
    using x(1) a c(1) t2(1) ts(2) by (subst fire.simps) simp
  have "n = length (due now ts2)" "by_time ts2" using Suc.hyps(2) ts c(3,5) by (simp_all add: by_time_def)
  from Suc.hyps(1) [OF this(1) t2(2) this(2), of w1] c(4) t2(3,4) obtain t' w' ts' where
    r: "fire call now t2 w1 = Some (Inr (t', w'))" "timers_are t' ts'" "by_time ts'" "due now ts' = []" "R (not_due now ts2) ts'"
    "ok now (tm_mem t') (tm_id t') ts' w'" "runs E (due now ts2) w1 w'" by auto
  have "R (not_due now ts) ts'" using ts by (auto intro: R_trans [OF c(6) r(5)])
  moreover have "runs E (due now ts) w w'" using ts c(5,7) r(7) by auto
  ultimately show ?case unfolding step using r(1,2,3,4,6) by blast
qed

end

subsection \<open>Callbacks that leave the timers alone\<close>

text \<open>
  \<open>report\<close> of the test program: it prints its argument and the time elapsed since \<open>start\<close>. The state is
  the number of readings of the clock made and what has been printed.
\<close>

definition subtimers :: "timeval \<Rightarrow> timeval \<Rightarrow> timeval" where
  "subtimers t u =
     (let s = fst t - fst u; m = snd t - snd u in if m < 0 then (s - 1, m + 1000000) else (s, m))"

definition report :: "(nat \<Rightarrow> timeval) \<Rightarrow> timeval \<Rightarrow> unit \<Rightarrow> nat \<Rightarrow> unit timers \<Rightarrow> nat \<times> (nat \<times> timeval) list \<Rightarrow> (unit timers \<times> nat \<times> (nat \<times> timeval) list) run" where
  "report clock start f r t = (\<lambda>(n, out). Some (Inr (t, n + 1, out @ [(r, subtimers (clock n) start)])))"

text \<open>A callback that leaves the timers alone is given by what it does to the state.\<close>

definition alone :: "('f \<Rightarrow> nat \<Rightarrow> 'w \<Rightarrow> 'w) \<Rightarrow> ('f, 'w) callback" where
  "alone g f r t w = Some (Inr (t, g f r w))"

definition called :: "('f \<Rightarrow> nat \<Rightarrow> 'w \<Rightarrow> 'w) \<Rightarrow> 'f timer \<Rightarrow> 'w \<Rightarrow> 'w" where
  "called g a = g (fst (snd a)) (fst (snd (snd a)))"

interpretation alone_calls: timer_calls "alone g" "\<lambda>a w w'. w' = called g a w" "(=)" "\<lambda>_ _ _ _ _. True"
  for g
  by unfold_locales (auto simp: alone_def called_def)

lemma report_alone:
  "report clock start f r t w = Some (Inr (t, fst w + 1, snd w @ [(r, subtimers (clock (fst w)) start)]))"
  by (simp add: report_def split: prod.splits)

text \<open>
  C22: The timers of tselect.c are a list in the order of expiry: whatever nodes the list goes through,
  \<open>timeout\<close> gives a new number and puts the timer behind all that are not due later, \<open>untimeout\<close> takes out
  the timer of its number and says whether there was one, and every node allocated stays in exactly
  one of the active and the free list.
\<close>

theorem timers_refine_list:
  assumes "timers_are t ts" and "by_time ts" and "tm_free t \<noteq> None \<or> tm_mem t"
  shows "(\<exists>t'. timeout f a ms now t = Some (Inr (tm_id t), t') \<and> tm_id t' = tm_id t + 1 \<and> tm_mem t' = tm_mem t
      \<and> timers_are t' (add_timer (expiry now ms, f, a, tm_id t) ts) \<and> by_time (add_timer (expiry now ms, f, a, tm_id t) ts))
    \<and> (\<exists>t'. untimeout i t = Some (i \<in> (\<lambda>b. snd (snd (snd b))) ` set ts, t') \<and> timers_are t' (drop_timer i ts)
      \<and> by_time (drop_timer i ts))"
proof (rule conjI)
  show "\<exists>t'. timeout f a ms now t = Some (Inr (tm_id t), t') \<and> tm_id t' = tm_id t + 1 \<and> tm_mem t' = tm_mem t
      \<and> timers_are t' (add_timer (expiry now ms, f, a, tm_id t) ts) \<and> by_time (add_timer (expiry now ms, f, a, tm_id t) ts)"
    using timeout_refines [OF assms(1,3), of f a ms now] by_time_add [OF assms(2)] by blast
qed (use untimeout_refines [OF assms(1), of i] by_time_drop [OF assms(2)] in blast)

definition no_timers :: "'f timers" where
  "no_timers = \<lparr>tm_nodes = \<lambda>_. undefined, tm_active = None, tm_free = None, tm_brk = 0, tm_mem = True, tm_id = 1\<rparr>"

lemma no_timers_are: "timers_are no_timers []"
  by (auto simp: timers_are_def tm_lists_def no_timers_def intro!: exI [of _ "[]"])

theorem timers_refine_list_witness:
  "\<exists>t t'. timeout () 3 3000 (7, 0) no_timers = Some (Inr 1, t) \<and> untimeout 1 t = Some (True, t') \<and> timers_are t' []"
proof -
  have b: "by_time ([] :: unit timer list)" by (simp add: by_time_def)
  have e: "expiry (7, 0) 3000 = (10, 0)" by (simp add: expiry_def)
  from timers_refine_list [OF no_timers_are b, of "()" 3 3000 "(7, 0)"]
  obtain t where t: "timeout () 3 3000 (7, 0) no_timers = Some (Inr 1, t)" "tm_mem t"
    "timers_are t [((10, 0), (), 3, 1)]" "by_time [((10, 0), (), 3, 1 :: u32)]"
    by (auto simp: no_timers_def add_timer_def e)
  from timers_refine_list [OF t(3,4), of "()" 3 3000 "(7, 0)" 1] t(1,2) show ?thesis by auto
qed

text \<open>The call of \<open>select\<close> in a round at \<open>now\<close> that leaves the timers \<open>ts\<close>.\<close>

definition round_call :: "masks \<Rightarrow> timeval \<Rightarrow> 'f timer list \<Rightarrow> masks \<times> timeval option" where
  "round_call m now ts = (m, case ts of [] \<Rightarrow> None | a # _ \<Rightarrow> Some (remaining (fst a) now))"

lemma not_due_later:
  assumes "by_time ts" and "\<not> tv_less now' now"
  shows "due now ts @ due now' (not_due now ts) = due now' ts \<and> not_due now' (not_due now ts) = not_due now' ts"
  using assms(1)
proof (induction ts)
  case (Cons a ts)
  show ?case
  proof (cases "tv_less now (fst a)")
    case False
    then have "\<not> tv_less now' (fst a)" using assms(2) tv_less_trans3 tv_less_linear by metis
    with False Cons show ?thesis by (simp add: by_time_def)
  qed simp
qed simp

lemma alone_round:
  assumes "timers_are (ts_timers s) ts" and "by_time ts"
  shows "\<exists>t. fire (alone g) now (ts_timers s) (ts_world s)
      = Some (Inr (t, fold (called g) (due now ts) (ts_world s)))
    \<and> timers_are t (not_due now ts) \<and> sel_time now t = snd (round_call m now (not_due now ts))"
proof -
  from alone_calls.fire_due [OF assms TrueI, of g now "ts_world s"] obtain t where
    t: "fire (alone g) now (ts_timers s) (ts_world s) = Some (Inr (t, fold (called g) (due now ts) (ts_world s)))"
      "timers_are t (not_due now ts)" by auto
  with sel_time_head [OF t(2), of now] show ?thesis by (auto simp: round_call_def)
qed

lemma alone_rounds:
  assumes "timers_are (ts_timers s) ts" and "by_time ts" and "ts_masks s = m" and "m \<noteq> no_masks"
    and "sorted_wrt (\<lambda>a b. \<not> tv_less b a) (map fst xs @ [now])"
  shows "\<exists>s'. tselect_rounds (alone g) m (map (\<lambda>x. (fst x, Sel_timeout (snd x))) xs @ (now, Sel_ready n m') # rest) s
      = Some (Inr (Some (int n), s'))
    \<and> timers_are (ts_timers s') (not_due now ts) \<and> ts_world s' = fold (called g) (due now ts) (ts_world s)
    \<and> ts_masks s' = m' \<and> ts_calls s' = ts_calls s @ map (\<lambda>x. round_call m x (not_due x ts)) (map fst xs @ [now])"
  using assms
proof (induction xs arbitrary: s ts)
  case Nil
  from alone_round [OF Nil.prems(1,2), of g now m] Nil.prems(3,4) show ?case
    by (auto simp: Let_def round_call_def)
next
  case (Cons x xs)
  from alone_round [OF Cons.prems(1,2), of g "fst x" m] obtain t where
    t: "fire (alone g) (fst x) (ts_timers s) (ts_world s)
        = Some (Inr (t, fold (called g) (due (fst x) ts) (ts_world s)))"
      "timers_are t (not_due (fst x) ts)" "sel_time (fst x) t = snd (round_call m (fst x) (not_due (fst x) ts))" by blast
  define s1 where "s1 = s\<lparr>ts_timers := t, ts_world := fold (called g) (due (fst x) ts) (ts_world s),
    ts_calls := ts_calls s @ [round_call m (fst x) (not_due (fst x) ts)], ts_masks := m\<rparr>"
  have call: "(m, snd (round_call m (fst x) ys)) = round_call m (fst x) ys" for ys by (simp add: round_call_def)
  have sel: "timers_are (ts_timers s1) (not_due (fst x) ts)" "ts_masks s1 = m" using t(2) Cons.prems(3) by (simp_all add: s1_def)
  have sorted: "sorted_wrt (\<lambda>a b. \<not> tv_less b a) (map fst xs @ [now])"
    and later: "\<And>y. y \<in> set (map fst xs @ [now]) \<Longrightarrow> \<not> tv_less y (fst x)" using Cons.prems(5) by auto
  have step: "tselect_rounds (alone g) m (map (\<lambda>x. (fst x, Sel_timeout (snd x))) (x # xs) @ (now, Sel_ready n m') # rest) s
      = tselect_rounds (alone g) m (map (\<lambda>x. (fst x, Sel_timeout (snd x))) xs @ (now, Sel_ready n m') # rest) s1"
    using t(1,3) Cons.prems(3,4) by (simp add: Let_def call s1_def)
  from Cons.IH [OF sel(1) by_time_not_due [OF Cons.prems(2)] sel(2) Cons.prems(4) sorted] obtain s' where
    s': "tselect_rounds (alone g) m (map (\<lambda>x. (fst x, Sel_timeout (snd x))) xs @ (now, Sel_ready n m') # rest) s1
        = Some (Inr (Some (int n), s'))"
      "timers_are (ts_timers s') (not_due now (not_due (fst x) ts))"
      "ts_world s' = fold (called g) (due now (not_due (fst x) ts)) (ts_world s1)" "ts_masks s' = m'"
      "ts_calls s' = ts_calls s1 @ map (\<lambda>y. round_call m y (not_due y (not_due (fst x) ts))) (map fst xs @ [now])" by blast
  note nd = not_due_later [OF Cons.prems(2) later]
  have "ts_world s' = fold (called g) (due (fst x) ts @ due now (not_due (fst x) ts)) (ts_world s)"
    using s'(3) by (simp add: s1_def)
  then have "ts_world s' = fold (called g) (due now ts) (ts_world s)" using nd [of now] by simp
  moreover have "map (\<lambda>y. round_call m y (not_due y (not_due (fst x) ts))) (map fst xs @ [now])
      = map (\<lambda>y. round_call m y (not_due y ts)) (map fst xs @ [now])"
    using nd by (intro map_cong) auto
  ultimately show ?case unfolding step using s' nd [of now] by (auto simp: s1_def)
qed



subsection \<open>Timers that are lost\<close>

text \<open>
  A callback that cancels its own timer: what \<open>tselect\<close> gives back is then the next timer, which is
  never called; when there is none it uses a null pointer.
\<close>

definition cancels_itself :: "u32 \<Rightarrow> nat \<Rightarrow> u32 timers \<Rightarrow> nat list \<Rightarrow> (u32 timers \<times> nat list) run" where
  "cancels_itself i r t out = map_option (\<lambda>(_, t'). Inr (t', out @ [r])) (untimeout i t)"

theorem tselect_loses_timer:
  assumes "timers_are t [(now, i, r, i), b]" and "i \<noteq> snd (snd (snd b))"
  shows "\<exists>t'. fire cancels_itself now t [] = Some (Inr (t', [r])) \<and> timers_are t' []"
    and "timers_are t1 [(now, i, r, i)] \<Longrightarrow> fire cancels_itself now t1 [] = Some (Inl ''segmentation fault'')"
proof -
  have due: "\<not> tv_less now now" by (simp add: tv_less_def)
  show "\<exists>t'. fire cancels_itself now t [] = Some (Inr (t', [r])) \<and> timers_are t' []"
  proof -
    obtain x where x: "tm_active t = Some x" "timer_of (tm_nodes t x) = (now, i, r, i)"
      using timers_are_head [OF assms(1)] by auto
    obtain t1 where t1: "untimeout i t = Some (True, t1)" "timers_are t1 [b]"
      using untimeout_refines [OF assms(1), of i] assms(2) by auto
    obtain t2 where t2: "free_head t1 = Some t2" "timers_are t2 []" using free_head_refines [OF t1(2)] by auto
    have "fire cancels_itself now t [] = fire cancels_itself now t2 [r]"
      using x t1(1) t2(1) due by (subst fire.simps) (simp add: timer_of_def cancels_itself_def)
    also have "\<dots> = Some (Inr (t2, [r]))" using timers_are_head [OF t2(2)] by (subst fire.simps) simp
    finally show ?thesis using t2(2) by auto
  qed
  assume a: "timers_are t1 [(now, i, r, i)]"
  obtain x where x: "tm_active t1 = Some x" "timer_of (tm_nodes t1 x) = (now, i, r, i)" using timers_are_head [OF a] by auto
  obtain t2 where t2: "untimeout i t1 = Some (True, t2)" "timers_are t2 []" using untimeout_refines [OF a, of i] by auto
  have "free_head t2 = None" using timers_are_head [OF t2(2)] by (simp add: free_head_def)
  then show "fire cancels_itself now t1 [] = Some (Inl ''segmentation fault'')"
    using x t2(1) due by (subst fire.simps) (simp add: timer_of_def cancels_itself_def)
qed

text \<open>
  The time of expiry is exact for delays of up to 2147483 milliseconds. Beyond, the product does not fit
  in an \<open>int\<close>: with a two's complement multiplication the timer is due in the past.
\<close>

lemma expiry_value: "tv_value (expiry now ms) = tv_value now + c_int (ms * 1000)"
  by (simp add: expiry_def tv_value_def Let_def algebra_simps)

theorem timeout_wraps:
  assumes "0 \<le> ms" and "ms < 4293967" and "0 \<le> snd now" and "snd now < 1000000"
  shows "if ms \<le> 2147483 then tv_value (expiry now ms) = tv_value now + ms * 1000 \<and> \<not> tv_less (expiry now ms) now
    else tv_value (expiry now ms) = tv_value now + ms * 1000 - 2 ^ 32 \<and> tv_less (expiry now ms) now"
proof (cases "ms \<le> 2147483")
  case True
  then have c: "c_int (ms * 1000) = ms * 1000" using assms(1) by simp
  have "\<not> tv_less (expiry now ms) now"
    using assms True unfolding expiry_def c by (auto simp: Let_def tv_less_def)
  then show ?thesis using True c by (simp add: expiry_value)
next
  case False
  then have c: "c_int (ms * 1000) = ms * 1000 - 2 ^ 32" using assms(2) by (intro c_int_wrap) simp_all
  have "ms * 1000 \<le> 4293966000" using assms(2) by simp
  then have "expiry now ms = (fst now, snd now + (ms * 1000 - 2 ^ 32))" "ms * 1000 < 2 ^ 32"
    using assms(4) unfolding expiry_def c by (simp_all add: Let_def)
  with False c show ?thesis by (simp add: tv_value_def tv_less_def)
qed

theorem timeout_wraps_witness: "tv_less (expiry (5, 0) 2200000) (5, 0)"
  using timeout_wraps [of 2200000 "(5, 0)"] by simp

end
