(* ===== verification/Etcp_Reliable.thy ===== *)
theory Etcp_Reliable
  imports Etcp_Records Etcp_Timers
begin

text \<open>
  Acknowledged messages on timers: the client xout3.c and the server extsys.c of
  Effective.TCP.IP.Programming. The client keeps every message in a record until it is acknowledged;
  after 3 seconds it is sent again, after 5 more it is dropped. Host byte order is little-endian.
\<close>

subsection \<open>Message records\<close>

datatype xo_func = Lost_ack | Drop

text \<open>\<open>mr_len\<close> is the length in network byte order, or -1 in a free record; \<open>mr_buf\<close> what has been read into \<open>buf\<close>.\<close>

record msgrec =
  mr_len :: u32
  mr_cookie :: u32
  mr_buf :: bytes
  mr_id :: u32

abbreviation mr_used :: "msgrec \<Rightarrow> bool" where "mr_used r \<equiv> mr_len r \<noteq> - 1"

datatype xo_note = Retrying nat | Dropping nat | No_message u32 | Illegal_ack | No_timer u32

text \<open>The program: the records, the socket, the part of an ACK that has arrived, the next cookie, the messages on stderr.\<close>

record xout =
  xo_mr :: "msgrec list"
  xo_conn :: conn
  xo_ack :: bytes
  xo_msgid :: u32
  xo_log :: "xo_note list"
  xo_ticks :: nat

abbreviation (input) MRSZ :: nat where "MRSZ \<equiv> 128"
abbreviation (input) ACKSZ :: nat where "ACKSZ \<equiv> 5"

definition mr_packet :: "msgrec \<Rightarrow> bytes" where
  "mr_packet r = be_bytes (mr_len r) @ le_bytes (mr_cookie r) @ mr_buf r"

definition getfreerec :: "msgrec list \<Rightarrow> nat option" where
  "getfreerec mr = (case filter (\<lambda>i. \<not> mr_used (mr ! i)) [0..<length mr] of [] \<Rightarrow> None | i # _ \<Rightarrow> Some i)"

definition findmsgrec :: "u32 \<Rightarrow> msgrec list \<Rightarrow> nat option" where
  "findmsgrec mid mr =
     (case filter (\<lambda>i. mr_used (mr ! i) \<and> mr_cookie (mr ! i) = mid) [0..<length mr] of [] \<Rightarrow> None | i # _ \<Rightarrow> Some i)"

definition say :: "xo_note \<Rightarrow> xout \<Rightarrow> xout" where
  "say n w = w\<lparr>xo_log := xo_log w @ [n]\<rparr>"

definition set_rec :: "nat \<Rightarrow> msgrec \<Rightarrow> xout \<Rightarrow> xout" where
  "set_rec i r w = w\<lparr>xo_mr := (xo_mr w)[i := r]\<rparr>"

definition freemsgrec :: "nat \<Rightarrow> xout \<Rightarrow> bytes + xout" where
  "freemsgrec i w =
     (if \<not> mr_used (xo_mr w ! i) then Inl ''freemsgrec: message record already free''
      else Inr (set_rec i ((xo_mr w ! i)\<lparr>mr_len := - 1\<rparr>) w))"

subsection \<open>The callbacks\<close>

text \<open>\<open>clock\<close> gives the readings of the clock by their number.\<close>

definition lost_ACK :: "(nat \<Rightarrow> timeval) \<Rightarrow> nat \<Rightarrow> xo_func timers \<Rightarrow> xout \<Rightarrow> (xo_func timers \<times> xout) run" where
  "lost_ACK clock mp t w =
     (let w1 = say (Retrying mp) w; r = xo_mr w ! mp in
      case sys_send (take (4 + unat (mr_len r)) (mr_packet r)) (xo_conn w1) of
        (rc, c) \<Rightarrow>
          if rc < 0 then Some (Inl ''lost_ACK: send failure'')
          else (case timeout Drop mp 5000 (clock (xo_ticks w)) t of
                  None \<Rightarrow> None
                | Some (Inl m, _) \<Rightarrow> Some (Inl m)
                | Some (Inr i, t1) \<Rightarrow>
                    Some (Inr (t1, set_rec mp (r\<lparr>mr_id := i\<rparr>) (w1\<lparr>xo_conn := c, xo_ticks := xo_ticks w + 1\<rparr>)))))"

definition drop_message :: "nat \<Rightarrow> xo_func timers \<Rightarrow> xout \<Rightarrow> (xo_func timers \<times> xout) run" where
  "drop_message mp t w =
     (case freemsgrec mp (say (Dropping mp) w) of Inl m \<Rightarrow> Some (Inl m) | Inr w1 \<Rightarrow> Some (Inr (t, w1)))"

definition xo_call :: "(nat \<Rightarrow> timeval) \<Rightarrow> xo_func \<Rightarrow> nat \<Rightarrow> xo_func timers \<Rightarrow> xout \<Rightarrow> (xo_func timers \<times> xout) run" where
  "xo_call clock f = (case f of Lost_ack \<Rightarrow> lost_ACK clock | Drop \<Rightarrow> drop_message)"

subsection \<open>The rounds of the main loop\<close>

text \<open>The socket is readable; the flag says whether the round goes on to the standard input.\<close>

definition xo_socket :: "xo_func timers \<Rightarrow> xout \<Rightarrow> (bool \<times> xo_func timers \<times> xout) run" where
  "xo_socket t w =
     (case sys_recv (ACKSZ - length (xo_ack w)) (xo_conn w) of
        (None, _) \<Rightarrow> Some (Inl ''recv failure'')
      | (Some got, c) \<Rightarrow>
          if got = [] then Some (Inl ''server disconnected'')
          else let w1 = w\<lparr>xo_conn := c, xo_ack := xo_ack w @ got\<rparr>; ack = xo_ack w1 in
            if length ack < ACKSZ then Some (Inr (False, t, w1))
            else let w2 = w1\<lparr>xo_ack := []\<rparr> in
              if hd ack \<noteq> CHR 0x06 then Some (Inr (False, t, say Illegal_ack w2))
              else let mid = le_word (drop 1 ack) in
                (case findmsgrec mid (xo_mr w2) of
                   None \<Rightarrow> Some (Inr (True, t, say (No_message mid) w2))
                 | Some mp \<Rightarrow>
                     (case untimeout (mr_id (xo_mr w2 ! mp)) t of
                        None \<Rightarrow> None
                      | Some (found, t1) \<Rightarrow>
                          let w3 = (if found then w2 else say (No_timer (mr_id (xo_mr w2 ! mp))) w2) in
                          (case freemsgrec mp w3 of Inl m \<Rightarrow> Some (Inl m) | Inr w4 \<Rightarrow> Some (Inr (True, t1, w4))))))"

text \<open>
  The standard input is readable; \<open>inp\<close> is what \<open>read\<close> gives, nothing at the end of the input. When it fills
  the 128 bytes of \<open>buf\<close>, the NUL is written behind it: undefined, an outcome of its own.
\<close>

definition xo_stdin :: "timeval \<Rightarrow> bytes option \<Rightarrow> xo_func timers \<Rightarrow> xout \<Rightarrow> (xo_func timers \<times> xout) run" where
  "xo_stdin now inp t w =
     (case getfreerec (xo_mr w) of
        None \<Rightarrow> Some (Inl ''getfreerec: out of message records'')
      | Some mp \<Rightarrow>
          (case inp of
             None \<Rightarrow> Some (Inl ''read failure'')
           | Some data \<Rightarrow>
               if length data \<ge> 128 then Some (Inl ''write beyond buf'')
               else let r = \<lparr>mr_len = of_nat (4 + length data), mr_cookie = xo_msgid w, mr_buf = data, mr_id = mr_id (xo_mr w ! mp)\<rparr>;
                   w1 = (set_rec mp r w)\<lparr>xo_msgid := xo_msgid w + 1\<rparr> in
               (case sys_send (take (8 + length data) (mr_packet r)) (xo_conn w1) of
                  (rc, c) \<Rightarrow>
                    if rc < 0 then Some (Inl ''send failure'')
                    else (case timeout Lost_ack mp 3000 now t of
                            None \<Rightarrow> None
                          | Some (Inl m, _) \<Rightarrow> Some (Inl m)
                          | Some (Inr i, t1) \<Rightarrow> Some (Inr (t1, set_rec mp (r\<lparr>mr_id := i\<rparr>) (w1\<lparr>xo_conn := c\<rparr>)))))))"

definition xo_handle :: "bool \<Rightarrow> bool \<Rightarrow> timeval \<Rightarrow> bytes option \<Rightarrow> xo_func timers \<Rightarrow> xout \<Rightarrow> (xo_func timers \<times> xout) run" where
  "xo_handle sock_ready stdin_ready now inp t w =
     (case (if sock_ready then xo_socket t w else Some (Inr (True, t, w))) of
        None \<Rightarrow> None
      | Some (Inl m) \<Rightarrow> Some (Inl m)
      | Some (Inr (go, t1, w1)) \<Rightarrow> if go \<and> stdin_ready then xo_stdin now inp t1 w1 else Some (Inr (t1, w1)))"

text \<open>
  A run of the program, until the numbers of timers wrap round: \<open>tselect\<close> calls the timers that are due
  at \<open>now\<close>, the clock not going back; the descriptors that are ready are served.
\<close>

inductive xo_step :: "xo_func timers \<times> xout \<Rightarrow> xo_func timers \<times> xout \<Rightarrow> bool" where
  xo_fires: "unat (tm_id t) + MRSZ < 2 ^ 32 \<Longrightarrow> (\<And>k. \<not> tv_less (clock k) now \<and> 0 \<le> snd (clock k) \<and> snd (clock k) < 1000000) \<Longrightarrow>
    fire (xo_call clock) now t w = Some (Inr (t', w')) \<Longrightarrow> xo_step (t, w) (t', w')"
| xo_serves: "unat (tm_id t) + MRSZ < 2 ^ 32 \<Longrightarrow> (\<And>d. inp = Some d \<Longrightarrow> length d \<le> 128) \<Longrightarrow>
    xo_handle sock_ready stdin_ready now inp t w = Some (Inr (t', w')) \<Longrightarrow> xo_step (t, w) (t', w')"

inductive_cases xo_stepE: "xo_step s s'"

definition xo_start :: "conn \<Rightarrow> xo_func timers \<times> xout" where
  "xo_start c = (no_timers, \<lparr>xo_mr = replicate MRSZ \<lparr>mr_len = - 1, mr_cookie = 0, mr_buf = [], mr_id = 0\<rparr>,
     xo_conn = c, xo_ack = [], xo_msgid = 0, xo_log = [], xo_ticks = 0\<rparr>)"

subsection \<open>Records and timers\<close>

abbreviation tm_due :: "'f timer \<Rightarrow> timeval" where "tm_due b \<equiv> fst b"
abbreviation tm_fun :: "'f timer \<Rightarrow> 'f" where "tm_fun b \<equiv> fst (snd b)"
abbreviation tm_rec :: "'f timer \<Rightarrow> nat" where "tm_rec b \<equiv> fst (snd (snd b))"
abbreviation tm_num :: "'f timer \<Rightarrow> u32" where "tm_num b \<equiv> snd (snd (snd b))"

text \<open>Every record in use has exactly one timer, which is the one whose number it holds; numbers are not used again.\<close>

text \<open>A record in use holds a message of at most 127 bytes, with its length.\<close>

definition rec_ok :: "msgrec \<Rightarrow> bool" where
  "rec_ok r \<longleftrightarrow> (mr_used r \<longrightarrow> mr_len r = of_nat (4 + length (mr_buf r)) \<and> length (mr_buf r) < 128)"

definition xo_inv :: "u32 \<Rightarrow> xo_func timer list \<Rightarrow> xout \<Rightarrow> bool" where
  "xo_inv i ts w \<longleftrightarrow> length (xo_mr w) = MRSZ \<and> distinct (map tm_num ts) \<and> distinct (map tm_rec ts)
     \<and> (\<forall>b \<in> set ts. tm_num b < i \<and> tm_rec b < MRSZ \<and> mr_used (xo_mr w ! tm_rec b) \<and> mr_id (xo_mr w ! tm_rec b) = tm_num b)
     \<and> {k. k < MRSZ \<and> mr_used (xo_mr w ! k)} \<subseteq> tm_rec ` set ts \<and> (\<forall>r \<in> set (xo_mr w). rec_ok r)"

lemma xo_inv_timer: "xo_inv i ts w \<Longrightarrow> k < MRSZ \<Longrightarrow> mr_used (xo_mr w ! k) \<Longrightarrow> \<exists>b. b \<in> set ts \<and> tm_rec b = k"
  unfolding xo_inv_def by blast

lemma set_update_all: "\<forall>x \<in> set xs. P x \<Longrightarrow> P y \<Longrightarrow> \<forall>x \<in> set (xs[k := y]). P x"
  using set_update_subset_insert [of xs k y] by blast

text \<open>The messages not acknowledged yet, by their records, and a message as xout3 sends it: the cookie and the data.\<close>

definition xo_pending :: "xout \<Rightarrow> nat \<Rightarrow> (u32 \<times> bytes) option" where
  "xo_pending w k =
     (if k < length (xo_mr w) \<and> mr_used (xo_mr w ! k) then Some (mr_cookie (xo_mr w ! k), mr_buf (xo_mr w ! k)) else None)"

definition xo_message :: "u32 \<times> bytes \<Rightarrow> bytes" where
  "xo_message m = le_bytes (fst m) @ snd m"

lemma mr_packet_vrec: "mr_len r = of_nat (4 + length (mr_buf r)) \<Longrightarrow> mr_packet r = vrec (xo_message (mr_cookie r, mr_buf r))"
  by (simp add: mr_packet_def vrec_def xo_message_def)

lemma length_xo_packet: "length (vrec (xo_message m)) = 8 + length (snd m)"
  by (simp add: vrec_def xo_message_def)

lemma xo_pending_upd:
  assumes "length (xo_mr w) = MRSZ" and "k < MRSZ" and "xo_mr w' = (xo_mr w)[k := r]"
  shows "xo_pending w' = (xo_pending w)(k := if mr_used r then Some (mr_cookie r, mr_buf r) else None)"
  using assms by (auto simp: xo_pending_def nth_list_update fun_eq_iff)

lemma resent_packet:
  assumes "rec_ok r" and "mr_used r"
  shows "take (4 + unat (mr_len r)) (mr_packet r) = vrec (xo_message (mr_cookie r, mr_buf r))"
proof -
  have r: "mr_len r = of_nat (4 + length (mr_buf r))" "length (mr_buf r) < 128" using assms by (simp_all add: rec_ok_def)
  have "unat (of_nat (4 + length (mr_buf r)) :: u32) = 4 + length (mr_buf r)"
    using r(2) by (simp add: unsigned_of_nat take_bit_eq_mod del: of_nat_add)
  then show ?thesis using mr_packet_vrec [OF r(1)] length_xo_packet [of "(mr_cookie r, mr_buf r)"] r(1) by (simp del: of_nat_add)
qed

lemma set_add_timer: "set (add_timer a ts) = insert a (set ts)"
  unfolding add_timer_def using takeWhile_dropWhile_id [of _ ts] by (metis Un_insert_right list.simps(15) set_append)

lemma add_timer_distinct: "distinct (map f (add_timer a ts)) \<longleftrightarrow> distinct (f a # map f ts)"
proof -
  have "distinct (map f (us @ a # vs)) = distinct (f a # map f (us @ vs))" for us vs by auto
  from this [of "takeWhile (\<lambda>b. \<not> tv_less (fst a) (fst b)) ts" "dropWhile (\<lambda>b. \<not> tv_less (fst a) (fst b)) ts"]
  show ?thesis by (simp only: add_timer_def takeWhile_dropWhile_id)
qed

lemma drop_timer_filter: "distinct (map tm_num ts) \<Longrightarrow> drop_timer i ts = filter (\<lambda>b. tm_num b \<noteq> i) ts"
proof (induction ts rule: drop_timer.induct)
  case (2 i tv f a j ts)
  show ?case
  proof (cases "i = j")
    case True
    have "i \<notin> tm_num ` set ts" using "2.prems" True by simp
    then have "filter (\<lambda>b. tm_num b \<noteq> i) ts = ts" by (intro filter_True) blast
    with True show ?thesis by simp
  qed (use 2 in simp)
qed simp

lemma set_drop_timer: "distinct (map tm_num ts) \<Longrightarrow> set (drop_timer i ts) = {b \<in> set ts. tm_num b \<noteq> i}"
  by (simp add: drop_timer_filter)

lemma distinct_drop_timer: "distinct (map f ts) \<Longrightarrow> distinct (map f (drop_timer i ts))"
proof (induction ts rule: drop_timer.induct)
  case (2 i tv g a j ts)
  have "set (drop_timer i ts) \<subseteq> set ts" by (induction ts rule: drop_timer.induct) auto
  with 2 show ?case by auto
qed simp

lemma due_add: "tv_less now (fst b) \<Longrightarrow> due now (add_timer b ts) = due now ts"
proof -
  assume later: "tv_less now (fst b)"
  let ?P = "\<lambda>c. \<not> tv_less (fst b) (fst c)" and ?D = "\<lambda>c. \<not> tv_less now (fst c)"
  have DP: "?P c" if "?D c" for c using that later tv_less_trans by blast
  have "due now (takeWhile ?P ts @ b # dropWhile ?P ts) = due now (takeWhile ?P ts @ dropWhile ?P ts)"
    using later DP by (induction ts) (auto simp: due_def)
  then show ?thesis by (simp add: add_timer_def)
qed

lemma add_timer_Cons: "\<not> tv_less (fst b) (fst a) \<Longrightarrow> add_timer b (a # ts) = a # add_timer b ts"
  by (simp add: add_timer_def)

lemma xo_inv_new:
  assumes "xo_inv i ts w" and "k \<notin> tm_rec ` set ts" and "k < MRSZ" and "mr_used r" and "mr_id r = i" and "i < i + 1"
    and "xo_mr w' = (xo_mr w)[k := r]" and "rec_ok r"
  shows "xo_inv (i + 1) (add_timer (tv, f, k, i) ts) w'"
proof -
  have old: "tm_num b < i + 1" if "b \<in> set ts" for b
    using that assms(1,6) by (auto simp: xo_inv_def)
  have "i \<notin> tm_num ` set ts" using assms(1) by (auto simp: xo_inv_def)
  moreover have "\<forall>r \<in> set (xo_mr w'). rec_ok r" using set_update_all [of "xo_mr w" rec_ok r k] assms(1,7,8) by (simp add: xo_inv_def)
  ultimately show ?thesis using assms old
    by (auto simp: xo_inv_def add_timer_distinct set_add_timer nth_list_update)
qed

lemma xo_inv_freed:
  assumes "xo_inv i ts w" and "b \<in> set ts" and "mr_len r = - 1" and "xo_mr w' = (xo_mr w)[tm_rec b := r]"
    and "set ts' = set ts - {b}" and "distinct (map tm_num ts')" and "distinct (map tm_rec ts')"
  shows "xo_inv i ts' w'"
proof -
  have ne: "tm_rec c \<noteq> tm_rec b" if "c \<in> set ts'" for c
    using that assms(1,2,5) by (auto simp: xo_inv_def distinct_map inj_on_def)
  have "\<forall>r \<in> set (xo_mr w'). rec_ok r"
    using set_update_all [of "xo_mr w" rec_ok r "tm_rec b"] assms(1,3,4) by (simp add: xo_inv_def rec_ok_def)
  moreover have "{k. k < MRSZ \<and> mr_used (xo_mr w' ! k)} \<subseteq> tm_rec ` set ts'"
  proof
    fix k
    assume "k \<in> {k. k < MRSZ \<and> mr_used (xo_mr w' ! k)}"
    then have "k < MRSZ" "mr_used (xo_mr w ! k)" "k \<noteq> tm_rec b"
      using assms(1,2,3,4) by (auto simp: xo_inv_def nth_list_update split: if_splits)
    then show "k \<in> tm_rec ` set ts'" using assms(1,5) unfolding xo_inv_def by blast
  qed
  moreover have "\<forall>c \<in> set ts'. tm_num c < i \<and> tm_rec c < MRSZ \<and> mr_used (xo_mr w' ! tm_rec c) \<and> mr_id (xo_mr w' ! tm_rec c) = tm_num c"
  proof
    fix c
    assume c: "c \<in> set ts'"
    then have "tm_rec c \<noteq> tm_rec b" by (rule ne)
    then show "tm_num c < i \<and> tm_rec c < MRSZ \<and> mr_used (xo_mr w' ! tm_rec c) \<and> mr_id (xo_mr w' ! tm_rec c) = tm_num c"
      using c assms(1,4,5) by (simp add: xo_inv_def)
  qed
  ultimately show ?thesis using assms(1,4,6,7) by (simp add: xo_inv_def)
qed

lemma xo_inv_again:
  assumes "xo_inv i (a # ts) w" and "mr_used r" and "mr_id r = i" and "i < i + 1"
    and "xo_mr w' = (xo_mr w)[tm_rec a := r]" and "rec_ok r"
  shows "xo_inv (i + 1) (add_timer (tv, f, tm_rec a, i) ts) w'"
proof -
  have old: "tm_num b < i + 1" if "b \<in> set ts" for b
    using that assms(1,4) by (auto simp: xo_inv_def)
  have "i \<notin> tm_num ` set ts" using assms(1) by (auto simp: xo_inv_def)
  moreover have "tm_rec b \<noteq> tm_rec a" if "b \<in> set ts" for b
    using that assms(1) by (auto simp: xo_inv_def)
  moreover have "\<forall>r \<in> set (xo_mr w'). rec_ok r"
    using set_update_all [of "xo_mr w" rec_ok r "tm_rec a"] assms(1,5,6) by (simp add: xo_inv_def)
  ultimately show ?thesis using assms old
    by (auto simp: xo_inv_def add_timer_distinct set_add_timer nth_list_update)
qed

lemma no_wrap: "unat i + n < 2 ^ 32 \<Longrightarrow> 0 < n \<Longrightarrow> i < i + 1 \<and> unat (i + 1) = unat i + 1"
  for i :: u32
proof -
  assume a: "unat i + n < 2 ^ 32" "0 < n"
  then have "unat (i + 1) = unat i + 1" by (simp add: unat_word_ariths)
  then show ?thesis by (simp add: word_less_nat_alt)
qed

lemma later_expiry:
  assumes "\<not> tv_less c now" and "0 \<le> snd c" and "snd c < 1000000"
  shows "tv_less now (expiry c 5000)"
proof -
  have "expiry c 5000 = (fst c + (snd c + 5000000) div 1000000, (snd c + 5000000) mod 1000000)"
    using assms(2) by (simp add: expiry_def Let_def)
  moreover have "(snd c + 5000000) div 1000000 = 5" using assms(2,3) by simp
  ultimately show ?thesis using assms(1) by (auto simp: tv_less_def split: if_splits)
qed

definition good_clock :: "(nat \<Rightarrow> timeval) \<Rightarrow> timeval \<Rightarrow> bool" where
  "good_clock clock now \<longleftrightarrow> (\<forall>k. \<not> tv_less (clock k) now \<and> 0 \<le> snd (clock k) \<and> snd (clock k) < 1000000)"

text \<open>The timers while the due ones of \<open>ts0\<close> are called: those of \<open>ts0\<close> that are left, and those set by \<open>lost_ACK\<close>.\<close>

definition xo_ok ::
  "(nat \<Rightarrow> timeval) \<Rightarrow> xo_func timer list \<Rightarrow> timeval \<Rightarrow> bool \<Rightarrow> u32 \<Rightarrow> xo_func timer list \<Rightarrow> xout \<Rightarrow> bool" where
  "xo_ok clock ts0 now mem i ts w \<longleftrightarrow> good_clock clock now \<and> mem \<and> xo_inv i ts w \<and> cn_sends (xo_conn w) = []
     \<and> unat i + length (due now ts) < 2 ^ 32
     \<and> (\<forall>b \<in> set ts. b \<in> set ts0 \<or> tm_fun b = Drop \<and> (\<exists>j. tm_due b = expiry (clock j) 5000))"

text \<open>What the call of a timer does: the message is sent again, or dropped.\<close>

definition xo_noted :: "xo_func timer \<Rightarrow> xout \<Rightarrow> xout \<Rightarrow> bool" where
  "xo_noted a w w' \<longleftrightarrow>
     (case tm_fun a of
        Lost_ack \<Rightarrow> xo_log w' = xo_log w @ [Retrying (tm_rec a)] \<and> xo_pending w' = xo_pending w
          \<and> cn_out (xo_conn w') = cn_out (xo_conn w) @ vrec (xo_message (the (xo_pending w (tm_rec a))))
      | Drop \<Rightarrow> xo_log w' = xo_log w @ [Dropping (tm_rec a)] \<and> xo_pending w' = (xo_pending w)(tm_rec a := None)
          \<and> cn_out (xo_conn w') = cn_out (xo_conn w))"

lemma lost_ACK_call:
  assumes "timers_are t (a # ts)" and "by_time (a # ts)" and "\<not> tv_less now (fst a)" and "xo_ok clock ts0 now (tm_mem t) (tm_id t) (a # ts) w"
    and "tm_fun a = Lost_ack"
  shows "\<exists>t' w' ts'. lost_ACK clock (tm_rec a) t w = Some (Inr (t', w')) \<and> timers_are t' (a # ts') \<and> by_time (a # ts')
    \<and> xo_ok clock ts0 now (tm_mem t') (tm_id t') ts' w' \<and> due now ts' = due now ts \<and> set (not_due now ts) \<subseteq> set (not_due now ts')
    \<and> xo_noted a w w'"
proof -
  let ?c = "clock (xo_ticks w)" and ?r = "xo_mr w ! tm_rec a"
  define b where "b = (expiry ?c 5000, Drop, tm_rec a, tm_id t)"
  define pkt where "pkt = take (4 + unat (mr_len ?r)) (mr_packet ?r)"
  have ok: "tm_mem t" "xo_inv (tm_id t) (a # ts) w" "cn_sends (xo_conn w) = []" "unat (tm_id t) + Suc (length (due now ts)) < 2 ^ 32"
    "\<not> tv_less ?c now" "0 \<le> snd ?c" "snd ?c < 1000000" "good_clock clock now"
    using assms(3,4) by (auto simp: xo_ok_def good_clock_def)
  have later: "tv_less now (fst b)" unfolding b_def by (simp add: later_expiry ok)
  then have "\<not> tv_less (fst b) (fst a)" using assms(3) tv_less_trans2 [of "fst b" now "fst a"] tv_less_linear by blast
  then have Cons: "add_timer b (a # ts) = a # add_timer b ts" by (rule add_timer_Cons)
  from timeout_refines [OF assms(1) disjI2 [OF ok(1)], of Drop "tm_rec a" 5000 ?c] obtain t1 where
    t1: "timeout Drop (tm_rec a) 5000 ?c t = Some (Inr (tm_id t), t1)" "timers_are t1 (a # add_timer b ts)"
      "tm_id t1 = tm_id t + 1" "tm_mem t1 = tm_mem t" unfolding b_def [symmetric] Cons by blast
  define w' where "w' = set_rec (tm_rec a) (?r\<lparr>mr_id := tm_id t\<rparr>)
      ((say (Retrying (tm_rec a)) w)\<lparr>xo_conn := (xo_conn w)\<lparr>cn_out := cn_out (xo_conn w) @ pkt\<rparr>, xo_ticks := xo_ticks w + 1\<rparr>)"
  have send: "sys_send pkt (xo_conn w) = (int (length pkt), (xo_conn w)\<lparr>cn_out := cn_out (xo_conn w) @ pkt\<rparr>)"
    using ok(3) by (rule sys_send_quiet)
  have run: "lost_ACK clock (tm_rec a) t w = Some (Inr (t1, w'))"
    using t1(1) send by (simp add: lost_ACK_def Let_def say_def pkt_def w'_def)
  have "0 < Suc (length (due now ts))" by simp
  note nw = no_wrap [OF ok(4) this]
  have used: "mr_used ?r" "tm_rec a < MRSZ" "length (xo_mr w) = MRSZ" using ok(2) by (simp_all add: xo_inv_def)
  then have rec: "rec_ok ?r" using ok(2) by (simp add: xo_inv_def)
  then have rec': "rec_ok (?r\<lparr>mr_id := tm_id t\<rparr>)" by (simp add: rec_ok_def)
  from used have inv: "xo_inv (tm_id t + 1) (add_timer b ts) w'"
    unfolding b_def by (intro xo_inv_again [OF ok(2)]) (use nw rec' in \<open>simp_all add: w'_def set_rec_def say_def\<close>)
  have "by_time (a # add_timer b ts)" using by_time_add [OF assms(2), of b] Cons by simp
  moreover have "due now (add_timer b ts) = due now ts" by (rule due_add [OF later])
  moreover have "xo_ok clock ts0 now (tm_mem t1) (tm_id t1) (add_timer b ts) w'"
    using ok inv nw t1(3,4) due_add [OF later] assms(4) by (auto simp: xo_ok_def w'_def set_rec_def set_add_timer b_def)
  moreover have "set (not_due now ts) \<subseteq> set (not_due now (add_timer b ts))"
  proof -
    have bt: "by_time ts" "by_time (add_timer b ts)" using assms(2) by_time_add [of ts b] by (simp_all add: by_time_def)
    show ?thesis using due_filter [OF bt(1), of now] due_filter [OF bt(2), of now] by (auto simp: set_add_timer)
  qed
  moreover have "xo_noted a w w'"
  proof -
    have "xo_mr w' = (xo_mr w)[tm_rec a := ?r\<lparr>mr_id := tm_id t\<rparr>]" by (simp add: w'_def set_rec_def say_def)
    from xo_pending_upd [OF used(3,2) this] used have "xo_pending w' = xo_pending w" by (auto simp: xo_pending_def fun_eq_iff)
    moreover have "pkt = vrec (xo_message (the (xo_pending w (tm_rec a))))"
      using resent_packet [OF rec used(1)] used by (simp add: pkt_def xo_pending_def)
    ultimately show ?thesis using assms(5) by (simp add: xo_noted_def w'_def set_rec_def say_def)
  qed
  ultimately show ?thesis using run t1(2) by blast
qed

lemma drop_message_call:
  assumes "timers_are t (a # ts)" and "by_time (a # ts)" and "\<not> tv_less now (fst a)" and "xo_ok clock ts0 now (tm_mem t) (tm_id t) (a # ts) w"
    and "tm_fun a = Drop"
  shows "\<exists>w'. drop_message (tm_rec a) t w = Some (Inr (t, w')) \<and> xo_ok clock ts0 now (tm_mem t) (tm_id t) ts w' \<and> xo_noted a w w'"
proof -
  let ?r = "xo_mr w ! tm_rec a"
  define w' where "w' = set_rec (tm_rec a) (?r\<lparr>mr_len := - 1\<rparr>) (say (Dropping (tm_rec a)) w)"
  have inv: "xo_inv (tm_id t) (a # ts) w" using assms(4) by (simp add: xo_ok_def)
  then have used: "mr_used ?r" "tm_rec a < MRSZ" "length (xo_mr w) = MRSZ" by (simp_all add: xo_inv_def)
  from used(1) have run: "drop_message (tm_rec a) t w = Some (Inr (t, w'))"
    by (simp add: drop_message_def freemsgrec_def say_def w'_def)
  have d: "distinct (map tm_num (a # ts))" "distinct (map tm_rec (a # ts))" using inv by (simp_all add: xo_inv_def)
  then have "set ts = set (a # ts) - {a}" by auto
  then have "xo_inv (tm_id t) ts w'"
    by (intro xo_inv_freed [OF inv, of a]) (use d in \<open>simp_all add: w'_def set_rec_def say_def\<close>)
  then have "xo_ok clock ts0 now (tm_mem t) (tm_id t) ts w'"
    using assms(3,4) by (auto simp: xo_ok_def w'_def set_rec_def say_def)
  moreover have "xo_mr w' = (xo_mr w)[tm_rec a := ?r\<lparr>mr_len := - 1\<rparr>]" by (simp add: w'_def set_rec_def say_def)
  then have "xo_noted a w w'"
    using xo_pending_upd [OF used(3,2)] assms(5) by (simp add: xo_noted_def w'_def set_rec_def say_def)
  ultimately show ?thesis using run by blast
qed

interpretation xo_calls: timer_calls "xo_call clock" xo_noted "\<lambda>ts ts'. set ts \<subseteq> set ts'" "xo_ok clock ts0" for clock ts0
proof (unfold_locales, goal_cases)
  case (1 t a ts now w)
  show ?case
  proof (cases "tm_fun a")
    case Lost_ack
    from lost_ACK_call [OF 1 Lost_ack] show ?thesis by (simp add: xo_call_def Lost_ack)
  next
    case Drop
    from drop_message_call [OF 1 Drop] 1(1,2) show ?thesis by (fastforce simp: xo_call_def Drop)
  qed
qed auto

lemma getfreerec_Some:
  "getfreerec mr = Some i \<Longrightarrow> i < length mr \<and> \<not> mr_used (mr ! i)"
  "getfreerec mr = None \<longleftrightarrow> (\<forall>i < length mr. mr_used (mr ! i))"
proof -
  assume "getfreerec mr = Some i"
  then obtain js where "filter (\<lambda>i. \<not> mr_used (mr ! i)) [0..<length mr] = i # js"
    by (auto simp: getfreerec_def split: list.splits)
  then have "i \<in> set (filter (\<lambda>i. \<not> mr_used (mr ! i)) [0..<length mr])" by simp
  then show "i < length mr \<and> \<not> mr_used (mr ! i)" by simp
next
  have "getfreerec mr = None \<longleftrightarrow> filter (\<lambda>i. \<not> mr_used (mr ! i)) [0..<length mr] = []"
    by (simp add: getfreerec_def split: list.split)
  then show "getfreerec mr = None \<longleftrightarrow> (\<forall>i < length mr. mr_used (mr ! i))" by (auto simp: filter_empty_conv)
qed

lemma findmsgrec_None: "findmsgrec m mr = None \<Longrightarrow> i < length mr \<Longrightarrow> mr_used (mr ! i) \<Longrightarrow> mr_cookie (mr ! i) \<noteq> m"
  by (auto simp: findmsgrec_def filter_empty_conv split: list.splits)

lemma findmsgrec_Some:
  "findmsgrec m mr = Some i \<Longrightarrow> i < length mr \<and> mr_used (mr ! i) \<and> mr_cookie (mr ! i) = m"
proof -
  assume "findmsgrec m mr = Some i"
  then obtain js where "filter (\<lambda>i. mr_used (mr ! i) \<and> mr_cookie (mr ! i) = m) [0..<length mr] = i # js"
    by (auto simp: findmsgrec_def split: list.splits)
  then have "i \<in> set (filter (\<lambda>i. mr_used (mr ! i) \<and> mr_cookie (mr ! i) = m) [0..<length mr])" by simp
  then show ?thesis by simp
qed

text \<open>What a handler may answer when the connection and the input are as the program expects, and how it keeps the invariant.\<close>

definition xo_state :: "xo_func timers \<times> xout \<Rightarrow> bool" where
  "xo_state = (\<lambda>(t, w). \<exists>ts. timers_are t ts \<and> by_time ts \<and> tm_mem t \<and> xo_inv (tm_id t) ts w \<and> cn_sends (xo_conn w) = []
     \<and> (\<forall>i. No_timer i \<notin> set (xo_log w)))"

lemma xo_stateI:
  "timers_are t ts \<Longrightarrow> by_time ts \<Longrightarrow> tm_mem t \<Longrightarrow> xo_inv (tm_id t) ts w \<Longrightarrow> cn_sends (xo_conn w) = [] \<Longrightarrow>
    (\<forall>i. No_timer i \<notin> set (xo_log w)) \<Longrightarrow> xo_state (t, w)"
  unfolding xo_state_def by blast

lemma xo_stateE:
  assumes "xo_state (t, w)"
  obtains ts where "timers_are t ts" "by_time ts" "tm_mem t" "xo_inv (tm_id t) ts w" "cn_sends (xo_conn w) = []"
    "\<forall>i. No_timer i \<notin> set (xo_log w)"
  using assms unfolding xo_state_def by blast

text \<open>
  What the standard input gives is kept in a record that was free, sent with the next cookie, and given
  three seconds.
\<close>

definition accepted :: "timeval \<Rightarrow> bytes \<Rightarrow> xout \<Rightarrow> xo_func timers \<times> xout \<Rightarrow> bool" where
  "accepted now data w s' \<longleftrightarrow>
     (\<exists>k < 128. xo_pending w k = None \<and> xo_pending (snd s') = (xo_pending w)(k \<mapsto> (xo_msgid w, data))
        \<and> xo_msgid (snd s') = xo_msgid w + 1
        \<and> cn_out (xo_conn (snd s')) = cn_out (xo_conn w) @ vrec (xo_message (xo_msgid w, data))
        \<and> (\<exists>ts i. timers_are (fst s') ts \<and> (expiry now 3000, Lost_ack, k, i) \<in> set ts))"

text \<open>
  What the socket gives is added to the part of an ACK that is there. A complete one frees the record of
  its cookie, if there is one; \<open>go\<close>: the round goes on to the standard input.
\<close>

definition acknowledged :: "xout \<Rightarrow> bool \<Rightarrow> xout \<Rightarrow> bool" where
  "acknowledged w go w' \<longleftrightarrow>
     (\<exists>got c. sys_recv (5 - length (xo_ack w)) (xo_conn w) = (Some got, c) \<and> got \<noteq> [] \<and> xo_conn w' = c \<and> xo_msgid w' = xo_msgid w
        \<and> (if length (xo_ack w @ got) < 5 then \<not> go \<and> xo_ack w' = xo_ack w @ got \<and> xo_pending w' = xo_pending w
           else xo_ack w' = []
             \<and> (if hd (xo_ack w @ got) \<noteq> CHR 0x06 then \<not> go \<and> xo_pending w' = xo_pending w
                else go
                  \<and> (if \<exists>k data. xo_pending w k = Some (le_word (drop 1 (xo_ack w @ got)), data)
                     then \<exists>k data. xo_pending w k = Some (le_word (drop 1 (xo_ack w @ got)), data)
                       \<and> xo_pending w' = (xo_pending w)(k := None)
                     else xo_pending w' = xo_pending w))))"

lemma xo_stdin_keeps:
  assumes "xo_state (t, w)" and "unat (tm_id t) + MRSZ < 2 ^ 32" and "\<forall>d. inp = Some d \<longrightarrow> length d \<le> 128"
  shows "case xo_stdin now inp t w of
      Some (Inr s') \<Rightarrow> xo_state s' \<and> (\<exists>d. inp = Some d \<and> accepted now d w s')
    | Some (Inl m) \<Rightarrow> m = ''read failure'' \<and> inp = None
        \<or> m = ''write beyond buf'' \<and> (\<exists>d. inp = Some d \<and> length d = 128)
        \<or> m = ''getfreerec: out of message records'' \<and> (\<forall>k < 128. xo_pending w k \<noteq> None)
    | None \<Rightarrow> False"
proof -
  obtain ts where st: "timers_are t ts" "by_time ts" "tm_mem t" "xo_inv (tm_id t) ts w" "cn_sends (xo_conn w) = []"
    "\<forall>i. No_timer i \<notin> set (xo_log w)" using assms(1) by (rule xo_stateE)
  have len: "length (xo_mr w) = MRSZ" using st(4) by (simp add: xo_inv_def)
  show ?thesis
  proof (cases "getfreerec (xo_mr w)")
    case None
    then show ?thesis using getfreerec_Some(2) [of "xo_mr w"] len by (simp add: xo_stdin_def xo_pending_def)
  next
    case (Some mp)
    then have mp: "mp < MRSZ" "\<not> mr_used (xo_mr w ! mp)" using getfreerec_Some(1) [OF Some] len by auto
    show ?thesis
    proof (cases inp)
      case None
      then show ?thesis using Some by (simp add: xo_stdin_def)
    next
      case data: (Some data)
      show ?thesis
      proof (cases "length data \<ge> 128")
        case True
        then show ?thesis using Some data assms(3) by (simp add: xo_stdin_def)
      next
        case False
        then have d: "length data < 128" by simp
        define r where "r = \<lparr>mr_len = of_nat (4 + length data), mr_cookie = xo_msgid w, mr_buf = data, mr_id = mr_id (xo_mr w ! mp)\<rparr>"
        define pkt where "pkt = take (8 + length data) (mr_packet r)"
        from timeout_refines [OF st(1) disjI2 [OF st(3)], of Lost_ack mp 3000 now] obtain t1 where
          t1: "timeout Lost_ack mp 3000 now t = Some (Inr (tm_id t), t1)"
            "timers_are t1 (add_timer (expiry now 3000, Lost_ack, mp, tm_id t) ts)" "tm_id t1 = tm_id t + 1" "tm_mem t1 = tm_mem t" by blast
        define w' where "w' = set_rec mp (r\<lparr>mr_id := tm_id t\<rparr>) ((set_rec mp r w)\<lparr>xo_msgid := xo_msgid w + 1,
            xo_conn := (xo_conn w)\<lparr>cn_out := cn_out (xo_conn w) @ pkt\<rparr>\<rparr>)"
        have send: "sys_send pkt (xo_conn w) = (int (length pkt), (xo_conn w)\<lparr>cn_out := cn_out (xo_conn w) @ pkt\<rparr>)"
          using st(5) by (rule sys_send_quiet)
        have run: "xo_stdin now inp t w = Some (Inr (t1, w'))"
          using Some data t1(1) send False unfolding xo_stdin_def
          by (simp add: Let_def set_rec_def r_def [symmetric] pkt_def [symmetric] w'_def del: of_nat_add)
        have "unat (of_nat (4 + length data) :: u32) = 4 + length data"
          using d by (simp add: unsigned_of_nat take_bit_eq_mod del: of_nat_add)
        moreover have "unat (- 1 :: u32) = 2 ^ 32 - 1" by (simp add: unsigned_minus_1_eq_mask mask_eq_exp_minus_1)
        ultimately have used: "mr_used r" using d unfolding r_def by (auto simp del: of_nat_add)
        have rec: "rec_ok (r\<lparr>mr_id := tm_id t\<rparr>)" using d by (simp add: rec_ok_def r_def)
        have pkt: "pkt = vrec (xo_message (xo_msgid w, data))"
          using mr_packet_vrec [of r] length_xo_packet [of "(xo_msgid w, data)"] by (simp add: pkt_def r_def)
        note used
        moreover have "mp \<notin> tm_rec ` set ts" using st(4) mp(2) by (auto simp: xo_inv_def)
        ultimately have "xo_inv (tm_id t + 1) (add_timer (expiry now 3000, Lost_ack, mp, tm_id t) ts) w'"
          using no_wrap [OF assms(2)] mp(1)
          by (intro xo_inv_new [OF st(4), of mp "r\<lparr>mr_id := tm_id t\<rparr>"]) (use rec in \<open>simp_all add: w'_def set_rec_def\<close>)
        then have keeps: "xo_state (t1, w')"
          using t1 st by (intro xo_stateI [OF t1(2) by_time_add [OF st(2)]]) (simp_all add: w'_def set_rec_def)
        have upd: "xo_mr w' = (xo_mr w)[mp := r\<lparr>mr_id := tm_id t\<rparr>]" by (simp add: w'_def set_rec_def)
        have "accepted now data w (t1, w')" unfolding accepted_def
        proof (intro exI conjI)
          show "mp < 128" by (rule mp(1))
          show "xo_pending w mp = None" using mp(2) by (simp add: xo_pending_def)
          show "xo_pending (snd (t1, w')) = (xo_pending w)(mp \<mapsto> (xo_msgid w, data))"
            using xo_pending_upd [OF len mp(1) upd] used by (simp add: r_def)
          show "timers_are (fst (t1, w')) (add_timer (expiry now 3000, Lost_ack, mp, tm_id t) ts)" using t1(2) by simp
          show "(expiry now 3000, Lost_ack, mp, tm_id t) \<in> set (add_timer (expiry now 3000, Lost_ack, mp, tm_id t) ts)"
            by (simp add: set_add_timer)
        qed (simp_all add: w'_def set_rec_def pkt)
        with run keeps data show ?thesis by simp
      qed
    qed
  qed
qed


lemma xo_socket_keeps:
  assumes "xo_state (t, w)"
  shows "case xo_socket t w of
      Some (Inr (go, s')) \<Rightarrow> xo_state s' \<and> tm_id (fst s') = tm_id t \<and> acknowledged w go (snd s')
    | Some (Inl m) \<Rightarrow> m = ''server disconnected'' \<and> fst (sys_recv (5 - length (xo_ack w)) (xo_conn w)) = Some []
        \<or> m = ''recv failure'' \<and> fst (sys_recv (5 - length (xo_ack w)) (xo_conn w)) = None
    | None \<Rightarrow> False"
proof -
  obtain ts where st: "timers_are t ts" "by_time ts" "tm_mem t" "xo_inv (tm_id t) ts w" "cn_sends (xo_conn w) = []"
    "\<forall>i. No_timer i \<notin> set (xo_log w)" using assms by (rule xo_stateE)
  obtain got c where r: "sys_recv (ACKSZ - length (xo_ack w)) (xo_conn w) = (got, c)" by force
  have c: "cn_sends c = []" using r st(5) by (auto simp: sys_recv_def split: prod.splits)
  show ?thesis
  proof (cases "case got of None \<Rightarrow> True | Some g \<Rightarrow> g = []")
    case True
    then show ?thesis using r by (auto simp: xo_socket_def split: option.splits)
  next
    case False
    then obtain g where g: "got = Some g" "g \<noteq> []" by (auto split: option.splits)
    define ack where "ack = xo_ack w @ g"
    define w1 where "w1 = w\<lparr>xo_conn := c, xo_ack := ack\<rparr>"
    have keep: "xo_state (t, w1')" if "xo_mr w1' = xo_mr w" "xo_conn w1' = c" "\<forall>i. No_timer i \<notin> set (xo_log w1')" for w1'
      using that st c by (intro xo_stateI [OF st(1,2)]) (simp_all add: xo_inv_def)
    have none: "\<forall>i. No_timer i \<notin> set (xo_log w)" by (rule st(6))
    show ?thesis
    proof (cases "length ack < ACKSZ \<or> hd ack \<noteq> CHR 0x06 \<or> findmsgrec (le_word (drop 1 ack)) (xo_mr w) = None")
      case True
      have same: "xo_pending w' = xo_pending w" if "xo_mr w' = xo_mr w" for w' using that by (simp add: xo_pending_def fun_eq_iff)
      have unknown: "xo_pending w k \<noteq> Some (le_word (drop 1 ack), data)" if "findmsgrec (le_word (drop 1 ack)) (xo_mr w) = None" for k data
        using findmsgrec_None [OF that, of k] by (auto simp: xo_pending_def split: if_splits)
      consider (part) "length ack < ACKSZ" | (illegal) "\<not> length ack < ACKSZ" "hd ack \<noteq> CHR 0x06"
        | (none) "\<not> length ack < ACKSZ" "hd ack = CHR 0x06" "findmsgrec (le_word (drop 1 ack)) (xo_mr w) = None" using True by argo
      then show ?thesis
      proof cases
        case part
        then have "xo_socket t w = Some (Inr (False, t, w1))" using r g by (simp add: xo_socket_def w1_def ack_def)
        moreover have "acknowledged w False w1" using part r g same [of w1] by (simp add: acknowledged_def w1_def ack_def)
        ultimately show ?thesis using keep [of w1] none by (simp add: w1_def)
      next
        case illegal
        then have "xo_socket t w = Some (Inr (False, t, say Illegal_ack (w1\<lparr>xo_ack := []\<rparr>)))"
          using r g by (simp add: xo_socket_def Let_def w1_def ack_def)
        moreover have "acknowledged w False (say Illegal_ack (w1\<lparr>xo_ack := []\<rparr>))"
          using illegal r g same [of "say Illegal_ack (w1\<lparr>xo_ack := []\<rparr>)"] by (simp add: acknowledged_def w1_def ack_def say_def)
        ultimately show ?thesis using keep [of "say Illegal_ack (w1\<lparr>xo_ack := []\<rparr>)"] none by (simp add: w1_def say_def)
      next
        case no: none
        let ?w = "say (No_message (le_word (drop 1 ack))) (w1\<lparr>xo_ack := []\<rparr>)"
        from no have "xo_socket t w = Some (Inr (True, t, ?w))"
          using r g by (simp add: xo_socket_def Let_def w1_def ack_def)
        moreover have "acknowledged w True ?w"
          using no(1,2) unknown [OF no(3)] r g same [of ?w] by (simp add: acknowledged_def w1_def ack_def say_def)
        ultimately show ?thesis using keep [of ?w] none by (simp add: w1_def say_def)
      qed
    next
      case False
      then obtain mp where mp: "findmsgrec (le_word (drop 1 ack)) (xo_mr w) = Some mp" "\<not> length ack < ACKSZ" "hd ack = CHR 0x06" by auto
      have used: "mp < MRSZ" "mr_used (xo_mr w ! mp)" using findmsgrec_Some [OF mp(1)] st(4) by (auto simp: xo_inv_def)
      then have "mp \<in> tm_rec ` set ts" using st(4) unfolding xo_inv_def by blast
      then obtain b where "mp = tm_rec b" "b \<in> set ts" by (rule imageE)
      moreover from this have "mr_id (xo_mr w ! mp) = tm_num b" using st(4) by (simp add: xo_inv_def)
      ultimately have b: "b \<in> set ts" "tm_rec b = mp" "mr_id (xo_mr w ! mp) = tm_num b" by simp_all
      from untimeout_refines [OF st(1), of "tm_num b"] b(1) obtain t1 where
        t1: "untimeout (tm_num b) t = Some (True, t1)" "timers_are t1 (drop_timer (tm_num b) ts)" "tm_id t1 = tm_id t" "tm_mem t1 = tm_mem t"
        by auto
      define w2 where "w2 = set_rec mp ((xo_mr w ! mp)\<lparr>mr_len := - 1\<rparr>) (w\<lparr>xo_conn := c, xo_ack := []\<rparr>)"
      have run: "xo_socket t w = Some (Inr (True, t1, w2))"
        using r g mp used(2) b(3) t1(1) by (simp add: xo_socket_def Let_def ack_def freemsgrec_def w2_def)
      have d: "distinct (map tm_num ts)" "distinct (map tm_rec ts)" using st(4) by (simp_all add: xo_inv_def)
      have "set (drop_timer (tm_num b) ts) = set ts - {b}"
        using set_drop_timer [OF d(1), of "tm_num b"] d(1) b(1) by (auto simp: distinct_map inj_on_def)
      then have "xo_inv (tm_id t) (drop_timer (tm_num b) ts) w2"
        using b(2) distinct_drop_timer [OF d(1)] distinct_drop_timer [OF d(2)]
        by (intro xo_inv_freed [OF st(4) b(1)]) (simp_all add: w2_def set_rec_def)
      then have "xo_state (t1, w2)"
        using t1 st c by (intro xo_stateI [OF t1(2) by_time_drop [OF st(2)]]) (simp_all add: w2_def set_rec_def)
      moreover have "acknowledged w True w2"
      proof -
        have pend: "xo_pending w mp = Some (le_word (drop 1 ack), mr_buf (xo_mr w ! mp))"
          using findmsgrec_Some [OF mp(1)] by (simp add: xo_pending_def)
        have "xo_pending w2 = (xo_pending w)(mp := None)"
          using xo_pending_upd [of w mp w2] st(4) used(1) by (simp add: w2_def set_rec_def xo_inv_def)
        then show ?thesis unfolding acknowledged_def using r g mp pend by (auto simp: ack_def w2_def set_rec_def)
      qed
      ultimately show ?thesis using run t1(3) by simp
    qed
  qed
qed

text \<open>Timers of different records called one after the other.\<close>

lemma runs_noted:
  assumes "runs xo_noted as w w'" and "distinct (map tm_rec as)"
  shows "(\<forall>i. No_timer i \<notin> set (xo_log w) \<longrightarrow> No_timer i \<notin> set (xo_log w'))
    \<and> cn_out (xo_conn w') = cn_out (xo_conn w)
        @ concat (map (\<lambda>a. case tm_fun a of Lost_ack \<Rightarrow> vrec (xo_message (the (xo_pending w (tm_rec a)))) | Drop \<Rightarrow> []) as)
    \<and> xo_pending w' = xo_pending w |` (- tm_rec ` {a \<in> set as. tm_fun a = Drop})"
  using assms
proof (induction as arbitrary: w)
  case (Cons a as)
  then obtain w1 where w1: "xo_noted a w w1" "runs xo_noted as w1 w'" by auto
  note IH = Cons.IH [OF w1(2)]
  show ?case
  proof (cases "tm_fun a")
    case Lost_ack
    then have "{b \<in> set (a # as). tm_fun b = Drop} = {b \<in> set as. tm_fun b = Drop}" by auto
    moreover from w1(1) Lost_ack have same: "xo_pending w1 = xo_pending w" by (simp add: xo_noted_def)
    ultimately show ?thesis using IH [unfolded same] Cons.prems(2) w1(1) Lost_ack by (simp add: xo_noted_def)
  next
    case Drop
    then have n: "xo_pending w1 = (xo_pending w)(tm_rec a := None)" "cn_out (xo_conn w1) = cn_out (xo_conn w)"
      "xo_log w1 = xo_log w @ [Dropping (tm_rec a)]" using w1(1) by (simp_all add: xo_noted_def)
    have "tm_rec a \<notin> tm_rec ` set as" using Cons.prems(2) by simp
    then have ne: "tm_rec b \<noteq> tm_rec a" if "b \<in> set as" for b using that by (metis imageI)
    have m: "map (\<lambda>a. case tm_fun a of Lost_ack \<Rightarrow> vrec (xo_message (the (xo_pending w1 (tm_rec a)))) | Drop \<Rightarrow> []) as
        = map (\<lambda>a. case tm_fun a of Lost_ack \<Rightarrow> vrec (xo_message (the (xo_pending w (tm_rec a)))) | Drop \<Rightarrow> []) as"
      by (intro map_cong refl) (simp add: n(1) ne split: xo_func.split)
    have "xo_pending w1 |` (- tm_rec ` {b \<in> set as. tm_fun b = Drop}) = xo_pending w |` (- tm_rec ` {b \<in> set (a # as). tm_fun b = Drop})"
      using n(1) Drop by (auto simp: fun_eq_iff restrict_map_def)
    then show ?thesis using IH [unfolded m] Cons.prems(2) n(2,3) Drop by simp
  qed
qed (simp add: restrict_map_def)

lemma xo_inv_few:
  assumes "xo_inv i ts w"
  shows "length ts \<le> MRSZ"
proof -
  have "distinct (map tm_rec ts)" "set (map tm_rec ts) \<subseteq> {..<MRSZ}" using assms by (auto simp: xo_inv_def)
  then have "length (map tm_rec ts) \<le> card {..<MRSZ}" by (metis card_mono distinct_card finite_lessThan)
  then show ?thesis by simp
qed

lemma xo_fire_keeps:
  assumes "timers_are t ts" and "by_time ts" and "xo_inv (tm_id t) ts w" and "tm_mem t" and "cn_sends (xo_conn w) = []"
    and "unat (tm_id t) + MRSZ < 2 ^ 32" and "good_clock clock now"
  shows "\<exists>t' w' ts'. fire (xo_call clock) now t w = Some (Inr (t', w')) \<and> timers_are t' ts' \<and> by_time ts' \<and> due now ts' = []
    \<and> set (not_due now ts) \<subseteq> set ts' \<and> xo_ok clock ts now (tm_mem t') (tm_id t') ts' w' \<and> runs xo_noted (due now ts) w w'"
proof -
  have "length (due now ts) \<le> length ts" by (simp add: due_def length_takeWhile_le)
  then have "unat (tm_id t) + length (due now ts) < 2 ^ 32" using assms(6) xo_inv_few [OF assms(3)] by simp
  then have "xo_ok clock ts now (tm_mem t) (tm_id t) ts w" using assms by (simp add: xo_ok_def)
  from xo_calls.fire_due [OF assms(1,2) this] show ?thesis .
qed

lemma xo_step_keeps:
  assumes "xo_step s s'" and "xo_state s"
  shows "xo_state s'"
  using assms(1)
proof (cases rule: xo_step.cases)
  case (xo_fires t clock now w t' w')
  from assms(2) xo_fires(1) have "xo_state (t, w)" by simp
  then obtain ts where st: "timers_are t ts" "by_time ts" "tm_mem t" "xo_inv (tm_id t) ts w" "cn_sends (xo_conn w) = []"
    "\<forall>i. No_timer i \<notin> set (xo_log w)" by (rule xo_stateE)
  have "good_clock clock now" using xo_fires(4) by (simp add: good_clock_def)
  from xo_fire_keeps [OF st(1,2,4,3,5) xo_fires(3) this] xo_fires(5) obtain ts' where
    r: "timers_are t' ts'" "by_time ts'" "xo_ok clock ts now (tm_mem t') (tm_id t') ts' w'" "runs xo_noted (due now ts) w w'" by auto
  have "distinct (map tm_rec ts)" using st(4) by (simp add: xo_inv_def)
  then have "distinct (map tm_rec (due now ts))" using due_append [of now ts] by (metis distinct_append map_append)
  from runs_noted [OF r(4) this] st(6) have "\<forall>i. No_timer i \<notin> set (xo_log w')" by blast
  with r have "xo_state (t', w')" by (intro xo_stateI [OF r(1,2)]) (simp_all add: xo_ok_def)
  then show ?thesis using xo_fires(2) by simp
next
  case (xo_serves t inp sock_ready stdin_ready now w t' w')
  from assms(2) xo_serves(1) have st: "xo_state (t, w)" by simp
  obtain go t1 w1 where
    s: "(if sock_ready then xo_socket t w else Some (Inr (True, t, w))) = Some (Inr (go, t1, w1))"
    and h: "(if go \<and> stdin_ready then xo_stdin now inp t1 w1 else Some (Inr (t1, w1))) = Some (Inr (t', w'))"
    using xo_serves(5) by (auto simp: xo_handle_def split: option.splits sum.splits prod.splits)
  have s1: "xo_state (t1, w1) \<and> tm_id t1 = tm_id t"
    using s st xo_socket_keeps [OF st] by (auto split: if_splits)
  have inp: "\<forall>d. inp = Some d \<longrightarrow> length d \<le> 128" using xo_serves(4) by blast
  have "xo_state (t', w')"
    using h s1 xo_stdin_keeps [OF conjunct1 [OF s1], of inp now] xo_serves(3) inp by (simp split: if_splits)
  then show ?thesis using xo_serves(2) by simp
qed

lemma xo_start_state: "cn_sends c = [] \<Longrightarrow> xo_state (xo_start c)"
  unfolding xo_start_def
  by (rule xo_stateI [OF no_timers_are]) (auto simp: by_time_def no_timers_def xo_inv_def rec_ok_def)

lemma xo_reachable: "xo_step\<^sup>*\<^sup>* (xo_start c) s \<Longrightarrow> cn_sends c = [] \<Longrightarrow> xo_state s"
  by (induction rule: rtranclp_induct) (auto intro: xo_step_keeps xo_start_state)

text \<open>
  C23: Whatever arrives and whenever, until the numbers of timers wrap round, while the sends succeed and
  no \<open>read\<close> of 128 bytes writes behind \<open>buf\<close>: the records in use and the active timers of xout3 match one
  to one, each record holding the number of its timer; an acknowledgement never cancels the timer of
  another message or one that does not exist.
\<close>

theorem xout3_timers_match:
  assumes "xo_step\<^sup>*\<^sup>* (xo_start c) (t, w)" and "cn_sends c = []"
  shows "\<exists>ts. timers_are t ts \<and> by_time ts \<and> distinct (map tm_num ts) \<and> distinct (map tm_rec ts)
    \<and> tm_rec ` set ts = {k. k < 128 \<and> mr_used (xo_mr w ! k)}
    \<and> (\<forall>b \<in> set ts. mr_id (xo_mr w ! tm_rec b) = tm_num b) \<and> (\<forall>i. No_timer i \<notin> set (xo_log w))"
proof -
  from xo_reachable [OF assms] obtain ts where st: "timers_are t ts" "by_time ts" "xo_inv (tm_id t) ts w"
    "\<forall>i. No_timer i \<notin> set (xo_log w)" by (rule xo_stateE)
  moreover have "tm_rec ` set ts = {k. k < 128 \<and> mr_used (xo_mr w ! k)}" using st(3) by (auto simp: xo_inv_def)
  ultimately show ?thesis unfolding xo_inv_def by blast
qed

text \<open>How a round fails: the server is gone, the input fails or fills \<open>buf\<close>, or all 128 records are in use.\<close>

definition xo_fails :: "bool \<Rightarrow> bool \<Rightarrow> bytes option \<Rightarrow> xout \<Rightarrow> bytes \<Rightarrow> bool" where
  "xo_fails sock_ready stdin_ready inp w m \<longleftrightarrow>
     sock_ready \<and> (m = ''server disconnected'' \<and> fst (sys_recv (5 - length (xo_ack w)) (xo_conn w)) = Some []
       \<or> m = ''recv failure'' \<and> fst (sys_recv (5 - length (xo_ack w)) (xo_conn w)) = None)
   \<or> stdin_ready \<and> (\<exists>w1. (if sock_ready then acknowledged w True w1 else w1 = w)
       \<and> (m = ''read failure'' \<and> inp = None \<or> m = ''write beyond buf'' \<and> (\<exists>d. inp = Some d \<and> length d = 128)
          \<or> m = ''getfreerec: out of message records'' \<and> (\<forall>k < 128. xo_pending w1 k \<noteq> None)))"

lemma xo_fire_sends:
  assumes "timers_are t ts" and "by_time ts" and "xo_inv (tm_id t) ts w" and "tm_mem t" and "cn_sends (xo_conn w) = []"
    and "unat (tm_id t) + MRSZ < 2 ^ 32" and "good_clock clock now"
  shows "\<exists>t' w' ts'. fire (xo_call clock) now t w = Some (Inr (t', w')) \<and> timers_are t' ts'
    \<and> cn_out (xo_conn w') = cn_out (xo_conn w)
        @ concat (map (\<lambda>a. case tm_fun a of Lost_ack \<Rightarrow> vrec (xo_message (the (xo_pending w (tm_rec a)))) | Drop \<Rightarrow> [])
            (filter (\<lambda>a. \<not> tv_less now (tm_due a)) ts))
    \<and> xo_pending w' = xo_pending w |` (- tm_rec ` {a \<in> set ts. \<not> tv_less now (tm_due a) \<and> tm_fun a = Drop})
    \<and> {b \<in> set ts. tv_less now (tm_due b)} \<subseteq> set ts'
    \<and> (\<forall>a \<in> set ts. \<not> tv_less now (tm_due a) \<longrightarrow> tm_fun a = Lost_ack \<longrightarrow>
         (\<exists>j i. (expiry (clock j) 5000, Drop, tm_rec a, i) \<in> set ts'))"
proof -
  from xo_fire_keeps [OF assms] obtain t' w' ts' where
    f: "fire (xo_call clock) now t w = Some (Inr (t', w'))" "timers_are t' ts'" "due now ts' = []" "by_time ts'"
      "set (not_due now ts) \<subseteq> set ts'" "xo_ok clock ts now (tm_mem t') (tm_id t') ts' w'" "runs xo_noted (due now ts) w w'" by blast
  have d: "distinct (map tm_num ts)" "distinct (map tm_rec ts)" using assms(3) by (simp_all add: xo_inv_def)
  have "distinct (map tm_rec (due now ts))" using due_append [of now ts] d(2) by (metis distinct_append map_append)
  note n = runs_noted [OF f(7) this]
  note df = due_filter [OF assms(2), of now]
  have drops: "{a \<in> set (due now ts). tm_fun a = Drop} = {a \<in> set ts. \<not> tv_less now (tm_due a) \<and> tm_fun a = Drop}" using df by auto
  have "\<exists>j i. (expiry (clock j) 5000, Drop, tm_rec a, i) \<in> set ts'"
    if a: "a \<in> set ts" "\<not> tv_less now (tm_due a)" "tm_fun a = Lost_ack" for a
  proof -
    have inv: "xo_inv (tm_id t') ts' w'" using f(6) by (simp add: xo_ok_def)
    have "xo_pending w (tm_rec a) \<noteq> None" using a(1) assms(3) by (auto simp: xo_inv_def xo_pending_def)
    moreover have "tm_rec a \<notin> tm_rec ` {b \<in> set ts. \<not> tv_less now (tm_due b) \<and> tm_fun b = Drop}"
      using a d(2) by (auto simp: distinct_map inj_on_def)
    ultimately have "xo_pending w' (tm_rec a) \<noteq> None" using n drops by simp
    moreover have "length (xo_mr w') = MRSZ" using inv by (simp add: xo_inv_def)
    ultimately have "tm_rec a < MRSZ \<and> mr_used (xo_mr w' ! tm_rec a)" by (simp add: xo_pending_def split: if_splits)
    with xo_inv_timer [OF inv, of "tm_rec a"] obtain b where b: "b \<in> set ts'" "tm_rec b = tm_rec a" by auto
    have "b \<notin> set ts"
    proof
      assume "b \<in> set ts"
      then have "b = a" using b(2) a(1) d(2) by (auto simp: distinct_map inj_on_def)
      then have "b \<in> set (due now ts')" using b(1) a(2) due_filter [OF f(4), of now] by simp
      then show False using f(3) by simp
    qed
    then have "tm_fun b = Drop" "\<exists>j. tm_due b = expiry (clock j) 5000" using f(6) b(1) unfolding xo_ok_def by blast+
    then show ?thesis using b by (metis prod.collapse)
  qed
  moreover have "{b \<in> set ts. tv_less now (tm_due b)} \<subseteq> set ts'" using f(5) df by auto
  ultimately show ?thesis using f(1,2) n drops df by (intro exI [of _ t'] exI [of _ w'] exI [of _ ts']) auto
qed

lemma xo_handle_serves:
  assumes "xo_state (t, w)" and "unat (tm_id t) + MRSZ < 2 ^ 32" and "\<forall>d. inp = Some d \<longrightarrow> length d \<le> 128"
  shows "case xo_handle sock_ready stdin_ready now inp t w of
      None \<Rightarrow> False
    | Some (Inl m) \<Rightarrow> xo_fails sock_ready stdin_ready inp w m
    | Some (Inr s') \<Rightarrow> \<exists>go t1 w1. (if sock_ready then acknowledged w go w1 else go \<and> (t1, w1) = (t, w))
        \<and> (if go \<and> stdin_ready then \<exists>d. inp = Some d \<and> accepted now d w1 s' else s' = (t1, w1))"
proof -
  let ?q = "if sock_ready then xo_socket t w else Some (Inr (True, t, w))"
  note sk = xo_socket_keeps [OF assms(1)]
  consider (fails) m where "?q = Some (Inl m)" | (goes) go t1 w1 where "?q = Some (Inr (go, t1, w1))"
    using sk by (cases ?q) (auto split: if_splits, metis obj_sumE prod_cases3)
  then show ?thesis
  proof cases
    case fails
    then have sr: sock_ready "xo_socket t w = Some (Inl m)" by (simp_all split: if_splits)
    then have "xo_handle sock_ready stdin_ready now inp t w = Some (Inl m)" by (simp add: xo_handle_def)
    with sk sr show ?thesis by (simp add: xo_fails_def)
  next
    case goes
    then have s1: "xo_state (t1, w1)" "tm_id t1 = tm_id t" "if sock_ready then acknowledged w go w1 else go \<and> (t1, w1) = (t, w)"
      using assms(1) sk by (simp_all split: if_splits)
    show ?thesis
    proof (cases "go \<and> stdin_ready")
      case False
      with goes have "xo_handle sock_ready stdin_ready now inp t w = Some (Inr (t1, w1))" by (auto simp: xo_handle_def)
      moreover have "if go \<and> stdin_ready then \<exists>d. inp = Some d \<and> accepted now d w1 (t1, w1) else (t1, w1) = (t1, w1)"
        using False by (subst if_not_P) simp_all
      ultimately show ?thesis using s1(3) by (simp only: option.case sum.case) blast
    next
      case True
      with goes have h: "xo_handle sock_ready stdin_ready now inp t w = xo_stdin now inp t1 w1" by (simp add: xo_handle_def)
      have "unat (tm_id t1) + MRSZ < 2 ^ 32" using assms(2) s1(2) by simp
      note si = xo_stdin_keeps [OF s1(1) this assms(3), where now = now]
      have via: "if sock_ready then acknowledged w True w1 else w1 = w" using s1(3) True by (auto split: if_splits)
      show ?thesis
      proof (cases "xo_stdin now inp t1 w1")
        case None
        with si show ?thesis by simp
      next
        case (Some r)
        show ?thesis
        proof (cases r)
          case (Inl m)
          have "xo_fails sock_ready stdin_ready inp w m"
            unfolding xo_fails_def
          proof (rule disjI2, rule conjI)
            show stdin_ready using True ..
          qed (rule exI [of _ w1], rule conjI, rule via, insert si, unfold Some Inl option.case sum.case, assumption)
          then show ?thesis unfolding h Some Inl option.case sum.case .
        next
          case (Inr s')
          have "if go \<and> stdin_ready then \<exists>d. inp = Some d \<and> accepted now d w1 s' else s' = (t1, w1)"
            using si True unfolding Some Inr option.case sum.case by simp
          with s1(3) show ?thesis unfolding h Some Inr option.case sum.case by blast
        qed
      qed
    qed
  qed
qed

text \<open>
  C34: In every state that xout3 reaches, with the timers \<open>ts\<close>: the timers that are due are called, in the
  order of expiry, and no other. A message that waits for its first acknowledgement is sent again, the
  same cookie and data, and is given five seconds more; one that was sent again is dropped; the other
  messages and timers stay as they are, and every call returns. What is ready is served: a complete ACK
  frees the message of its cookie, the input becomes a message sent with the next cookie and given
  three seconds; unless the server is gone, the input fails, a \<open>read\<close> of 128 bytes writes behind \<open>buf\<close>, or
  all 128 records are in use. The numbers of timers do not wrap round, the sends succeed, and the clock
  does not go back.
\<close>

theorem xout3_returns:
  assumes "xo_step\<^sup>*\<^sup>* (xo_start c) (t, w)" and "cn_sends c = []" and "unat (tm_id t) + 128 < 2 ^ 32" and "timers_are t ts"
    and "\<And>k. \<not> tv_less (clock k) now \<and> 0 \<le> snd (clock k) \<and> snd (clock k) < 1000000"
    and "\<And>d. inp = Some d \<Longrightarrow> length d \<le> 128"
  shows "by_time ts
    \<and> (\<exists>t' w' ts'. fire (xo_call clock) now t w = Some (Inr (t', w')) \<and> timers_are t' ts'
      \<and> cn_out (xo_conn w') = cn_out (xo_conn w)
          @ concat (map (\<lambda>a. case tm_fun a of Lost_ack \<Rightarrow> vrec (xo_message (the (xo_pending w (tm_rec a)))) | Drop \<Rightarrow> [])
              (filter (\<lambda>a. \<not> tv_less now (tm_due a)) ts))
      \<and> xo_pending w' = xo_pending w |` (- tm_rec ` {a \<in> set ts. \<not> tv_less now (tm_due a) \<and> tm_fun a = Drop})
      \<and> {b \<in> set ts. tv_less now (tm_due b)} \<subseteq> set ts'
      \<and> (\<forall>a \<in> set ts. \<not> tv_less now (tm_due a) \<longrightarrow> tm_fun a = Lost_ack \<longrightarrow>
           (\<exists>j i. (expiry (clock j) 5000, Drop, tm_rec a, i) \<in> set ts')))
    \<and> (case xo_handle sock_ready stdin_ready now inp t w of
         None \<Rightarrow> False
       | Some (Inl m) \<Rightarrow> xo_fails sock_ready stdin_ready inp w m
       | Some (Inr s') \<Rightarrow> \<exists>go t1 w1. (if sock_ready then acknowledged w go w1 else go \<and> (t1, w1) = (t, w))
           \<and> (if go \<and> stdin_ready then \<exists>d. inp = Some d \<and> accepted now d w1 s' else s' = (t1, w1)))"
proof -
  have st: "xo_state (t, w)" by (rule xo_reachable [OF assms(1,2)])
  then obtain us where us: "timers_are t us" "by_time us" "tm_mem t" "xo_inv (tm_id t) us w" "cn_sends (xo_conn w) = []"
    by (rule xo_stateE)
  then have ts: "us = ts" using timers_are_unique [OF assms(4)] by blast
  have "good_clock clock now" using assms(5) by (simp add: good_clock_def)
  have inp: "\<forall>d. inp = Some d \<longrightarrow> length d \<le> 128" using assms(6) by blast
  note sends = xo_fire_sends [OF us(1,2,4,3,5) assms(3) \<open>good_clock clock now\<close>]
  show ?thesis
    using us(2) sends xo_handle_serves [OF st assms(3) inp, where sock_ready = sock_ready and stdin_ready = stdin_ready and now = now] unfolding ts by blast
qed

text \<open>The first message, as an example.\<close>

lemma timers_are_first:
  assumes "timeout f a ms now no_timers = Some (Inr i, t)"
  shows "timers_are t [(expiry now ms, f, a, 1)] \<and> tm_id t = 2 \<and> i = 1"
  using timeout_refines [OF no_timers_are, of f a ms now] assms by (auto simp: no_timers_def add_timer_def)

lemma xo_stdin_first:
  assumes "xo_stdin now inp no_timers w = Some (Inr (t, w'))"
  shows "\<exists>mp. timers_are t [(expiry now 3000, Lost_ack, mp, 1)] \<and> tm_id t = 2"
proof -
  from assms obtain mp i where "timeout Lost_ack mp 3000 now no_timers = Some (Inr i, t)"
    by (auto simp: xo_stdin_def Let_def split: option.splits prod.splits if_splits sum.splits)
  then show ?thesis using timers_are_first [of Lost_ack mp 3000 now i t] by blast
qed

lemma xo_first_message:
  "\<exists>t w k. xo_handle False True (5, 0) (Some ''hi'') (fst (xo_start (conn_of []))) (snd (xo_start (conn_of []))) = Some (Inr (t, w))
    \<and> xo_step (xo_start (conn_of [])) (t, w) \<and> timers_are t [((8, 0), Lost_ack, k, 1)] \<and> unat (tm_id t) + 128 < 2 ^ 32
    \<and> k < 128 \<and> xo_pending w k = Some (0, ''hi'') \<and> cn_out (xo_conn w) = vrec (xo_message (0, ''hi''))"
proof -
  let ?t = "fst (xo_start (conn_of []))" and ?w = "snd (xo_start (conn_of []))"
  have t0: "?t = no_timers" by (simp add: xo_start_def)
  then have id: "unat (tm_id ?t) + 128 < 2 ^ 32" by (simp add: no_timers_def)
  have empty: "xo_pending ?w 0 = None" "cn_out (xo_conn ?w) = []" "xo_msgid ?w = 0"
    by (simp_all add: xo_start_def xo_pending_def conn_of_def)
  have st: "xo_state (?t, ?w)" using xo_start_state [of "conn_of []"] by simp
  have "\<not> (\<forall>k < 128. xo_pending ?w k \<noteq> None)" using empty(1) by (intro notI) (drule spec [of _ 0], simp)
  then have "\<not> xo_fails False True (Some ''hi'') ?w m" for m unfolding xo_fails_def by simp
  with xo_handle_serves [OF st id, of "Some ''hi''" False True "(5, 0)"] obtain t w where
    tw: "xo_handle False True (5, 0) (Some ''hi'') ?t ?w = Some (Inr (t, w))" "accepted (5, 0) ''hi'' ?w (t, w)"
    by (auto split: option.splits sum.splits, metis snd_conv)
  from tw(2) obtain k ts i where k: "k < 128" "xo_pending w = (xo_pending ?w)(k \<mapsto> (0, ''hi''))"
    "cn_out (xo_conn w) = vrec (xo_message (0, ''hi''))" "timers_are t ts" "(expiry (5, 0) 3000, Lost_ack, k, i) \<in> set ts"
    unfolding accepted_def using empty by auto
  obtain mp where t: "timers_are t [(expiry (5, 0) 3000, Lost_ack, mp, 1)]" "tm_id t = 2"
    using xo_stdin_first [of "(5, 0)" "Some ''hi''" ?w t w] tw(1) t0 by (auto simp: xo_handle_def)
  have ts: "ts = [((8, 0), Lost_ack, k, 1)]" using timers_are_unique [OF k(4) t(1)] k(5) by (auto simp: expiry_def)
  have step: "xo_step (xo_start (conn_of [])) (t, w)"
    using xo_serves [of ?t "Some ''hi''" False True "(5, 0)" ?w t w] id tw(1) by simp
  have "unat (tm_id t) + 128 < 2 ^ 32" using t(2) by simp
  with tw(1) step k ts show ?thesis by auto
qed

theorem xout3_timers_match_witness:
  "\<exists>t w ts k. xo_step\<^sup>*\<^sup>* (xo_start (conn_of [])) (t, w) \<and> xo_pending w k = Some (0, ''hi'')
    \<and> timers_are t ts \<and> k \<in> tm_rec ` set ts \<and> tm_rec ` set ts = {k. k < 128 \<and> mr_used (xo_mr w ! k)}"
proof -
  obtain t w k where s: "xo_step (xo_start (conn_of [])) (t, w)" "k < 128" "xo_pending w k = Some (0, ''hi'')"
    using xo_first_message by blast
  then have run: "xo_step\<^sup>*\<^sup>* (xo_start (conn_of [])) (t, w)" by blast
  from xout3_timers_match [OF run] obtain ts where ts: "timers_are t ts" "tm_rec ` set ts = {k. k < 128 \<and> mr_used (xo_mr w ! k)}"
    by auto
  moreover have "k \<in> tm_rec ` set ts" using s(2,3) ts(2) by (simp add: xo_pending_def split: if_splits)
  ultimately show ?thesis using run s(3) by blast
qed

theorem xout3_returns_witness:
  "\<exists>t w t' w'. xo_handle False True (5, 0) (Some ''hi'') (fst (xo_start (conn_of []))) (snd (xo_start (conn_of []))) = Some (Inr (t, w))
    \<and> fire (xo_call (\<lambda>_. (8, 0))) (8, 0) t w = Some (Inr (t', w'))
    \<and> cn_out (xo_conn w') = vrec (xo_message (0, ''hi'')) @ vrec (xo_message (0, ''hi''))"
proof -
  obtain t w k where s: "xo_handle False True (5, 0) (Some ''hi'') (fst (xo_start (conn_of []))) (snd (xo_start (conn_of []))) = Some (Inr (t, w))"
    "xo_step (xo_start (conn_of [])) (t, w)" "timers_are t [((8, 0), Lost_ack, k, 1)]" "unat (tm_id t) + 128 < 2 ^ 32"
    "xo_pending w k = Some (0, ''hi'')" "cn_out (xo_conn w) = vrec (xo_message (0, ''hi''))"
    using xo_first_message by blast
  then have run: "xo_step\<^sup>*\<^sup>* (xo_start (conn_of [])) (t, w)" by blast
  from xout3_returns [of "conn_of []" t w "[((8, 0), Lost_ack, k, 1)]" "\<lambda>_. (8, 0)" "(8, 0)" None False False, OF run _ s(4,3)] obtain t' w' where
    "fire (xo_call (\<lambda>_. (8, 0))) (8, 0) t w = Some (Inr (t', w'))"
    "cn_out (xo_conn w') = vrec (xo_message (0, ''hi'')) @ vrec (xo_message (0, ''hi''))"
    using s(5,6) by (auto simp: tv_less_def)
  with s(1) show ?thesis by blast
qed

subsection \<open>The server\<close>

text \<open>
  extsys.c drops a message when \<open>rand() % 100 < 33\<close>, here as a function of the number of the call. The
  state is that number and what has been printed. A record of less than 4 bytes makes \<open>rc - COOKIESZ\<close>
  negative, and \<open>write\<close> run out of the buffer.
\<close>

definition extsys_body :: "(nat \<Rightarrow> bool) \<Rightarrow> int \<Rightarrow> bytes \<Rightarrow> nat \<times> bytes \<Rightarrow> sio \<Rightarrow> bytes option \<times> (nat \<times> bytes) \<times> sio" where
  "extsys_body lost rc buf = (\<lambda>(k, out) t.
     if rc = 0 then (Some ''peer disconnected'', (k, out), t)
     else if rc < 0 then (Some ''recv failure'', (k, out), t)
     else if lost k then (None, (k + 1, out), t)
     else if rc < 4 then (Some ''write beyond the buffer'', (k + 1, out), t)
     else (case sys_send (CHR 0x06 # take 4 buf) (sio_conn t) of
             (r, c) \<Rightarrow> (if r < 0 then Some ''send failure'' else None, (k + 1, out @ drop 4 (take (nat rc) buf)), t\<lparr>sio_conn := c\<rparr>)))"

definition extsys :: "(nat \<Rightarrow> bool) \<Rightarrow> sio \<Rightarrow> (bytes \<times> (nat \<times> bytes) \<times> sio) option" where
  "extsys lost t = each_record (readvrec 128) (extsys_body lost) (0, []) t"

interpretation extsys_reader: record_reader "readvrec 128" "\<lambda>t. net_data (sio_in t)" "\<lambda>t. only_intr (sio_in t)" vrec
    "\<lambda>m. m \<noteq> [] \<and> length m < 2 ^ 32" "vrec_result 128" sio_conn
  by (rule record_reader_readvrec) simp_all

text \<open>The acknowledgement of a cookie.\<close>

definition xo_ack_bytes :: "u32 \<Rightarrow> bytes" where
  "xo_ack_bytes cookie = CHR 0x06 # le_bytes cookie"

text \<open>What is kept of a series of messages from the \<open>k\<close>-th on.\<close>

definition kept :: "(nat \<Rightarrow> bool) \<Rightarrow> nat \<Rightarrow> 'a list \<Rightarrow> 'a list" where
  "kept lost k ms = map fst (filter (\<lambda>p. \<not> lost (snd p)) (zip ms [k..<k + length ms]))"

lemma kept_simps [simp]: "kept lost k [] = []"
  "kept lost k (ms @ [m]) = kept lost k ms @ (if lost (k + length ms) then [] else [m])"
  by (simp_all add: kept_def)

lemma each_record_steps:
  assumes "rd s = Some (rc, buf, s1)" and "body rc buf u s1 = (None, u2, s2)"
  shows "each_record rd body u s = each_record rd body u2 s2"
  using assms by (subst each_record.simps) simp

lemma extsys_run:
  assumes "only_intr (sio_in t)" and "net_data (sio_in t) = concat (map (\<lambda>m. vrec (xo_message m)) ms)"
    and "\<forall>m \<in> set ms. length (snd m) \<le> 124" and "cn_sends (sio_conn t) = []"
  shows "\<exists>t'. each_record (readvrec 128) (extsys_body lost) (k, out) t
      = Some (''peer disconnected'', (k + length ms, out @ concat (map snd (kept lost k ms))), t')
    \<and> cn_out (sio_conn t') = cn_out (sio_conn t) @ concat (map (\<lambda>m. xo_ack_bytes (fst m)) (kept lost k ms))"
  using assms
proof (induction ms arbitrary: k out t)
  case Nil
  from extsys_reader.ends [of t] Nil obtain t1 where
    "readvrec 128 t = Some (0, [], t1)" "(sio_conn t1)\<lparr>cn_in := []\<rparr> = (sio_conn t)\<lparr>cn_in := []\<rparr>" by auto
  moreover from this(2) have "cn_out (sio_conn t1) = cn_out (sio_conn t)" by (metis conn.select_convs(2) conn.surjective conn.update_convs(1))
  ultimately show ?case by (subst each_record.simps) (simp add: extsys_body_def)
next
  case (Cons m ms)
  have len: "length (xo_message m) = 4 + length (snd m)" by (simp add: xo_message_def)
  have ok: "xo_message m \<noteq> [] \<and> length (xo_message m) < 2 ^ 32" "length (xo_message m) \<le> 128"
    using Cons.prems(3) len by (auto simp del: length_0_conv)
  from extsys_reader.reads [OF Cons.prems(1) ok(1)] Cons.prems(2) ok(2) obtain t1 where
    t1: "readvrec 128 t = Some (int (length (xo_message m)), xo_message m, t1)"
      "net_data (sio_in t1) = concat (map (\<lambda>m. vrec (xo_message m)) ms)" "only_intr (sio_in t1)"
      "(sio_conn t1)\<lparr>cn_in := []\<rparr> = (sio_conn t)\<lparr>cn_in := []\<rparr>" by (auto simp: vrec_result_def)
  have c1: "cn_out (sio_conn t1) = cn_out (sio_conn t)" "cn_sends (sio_conn t1) = []"
    using t1(4) Cons.prems(4) by (metis conn.select_convs(2,3) conn.surjective conn.update_convs(1))+
  have parts: "take 4 (xo_message m) = le_bytes (fst m)" "drop 4 (xo_message m) = snd m" by (simp_all add: xo_message_def)
  have later: "kept lost k (m # ms) = (if lost k then [] else [m]) @ kept lost (k + 1) ms"
    by (simp add: kept_def upt_conv_Cons del: upt_Suc)
  have ms: "\<forall>m \<in> set ms. length (snd m) \<le> 124" using Cons.prems(3) by simp
  show ?case
  proof (cases "lost k")
    case True
    have "extsys_body lost (int (length (xo_message m))) (xo_message m) (k, out) t1 = (None, (k + 1, out), t1)"
      using True len by (simp add: extsys_body_def)
    note step_facts = t1(1) this
    from each_record_steps [where rd = "readvrec 128" and body = "extsys_body lost" and s = t and u = "(k, out)", OF step_facts] Cons.IH [OF t1(3,2) ms c1(2), of "k + 1" out]
    show ?thesis using c1(1) later True by auto
  next
    case False
    let ?t2 = "t1\<lparr>sio_conn := (sio_conn t1)\<lparr>cn_out := cn_out (sio_conn t1) @ xo_ack_bytes (fst m)\<rparr>\<rparr>"
    have "extsys_body lost (int (length (xo_message m))) (xo_message m) (k, out) t1 = (None, (k + 1, out @ snd m), ?t2)"
      using False len parts c1(2) by (simp add: extsys_body_def sys_send_quiet xo_ack_bytes_def)
    note step_facts = t1(1) this
    from each_record_steps [where rd = "readvrec 128" and body = "extsys_body lost" and s = t and u = "(k, out)", OF step_facts] Cons.IH [of ?t2 "k + 1" "out @ snd m"] t1(2,3) ms c1
    show ?thesis using later False by auto
  qed
qed

text \<open>
  The server prints and acknowledges, with its cookie, exactly every message that is not lost, in the
  order sent and in whatever pieces they arrive.
\<close>

theorem extsys_acknowledges:
  assumes "only_intr (sio_in t)" and "net_data (sio_in t) = concat (map (\<lambda>m. vrec (xo_message m)) ms)"
    and "\<forall>m \<in> set ms. length (snd m) \<le> 124" and "cn_sends (sio_conn t) = []" and "cn_out (sio_conn t) = []"
  shows "\<exists>t'. extsys lost t = Some (''peer disconnected'', (length ms, concat (map snd (kept lost 0 ms))), t')
    \<and> cn_out (sio_conn t') = concat (map (\<lambda>m. xo_ack_bytes (fst m)) (kept lost 0 ms))"
  using extsys_run [OF assms(1-4), of lost 0 "[]"] assms(5) by (simp add: extsys_def)

theorem extsys_acknowledges_witness:
  "\<exists>t'. extsys (\<lambda>k. k = 0) (sio_of [Arrive (vrec (xo_message (0, ''ab''))), Arrive (vrec (xo_message (1, ''c'')))])
      = Some (''peer disconnected'', (2, ''c''), t') \<and> cn_out (sio_conn t') = xo_ack_bytes 1"
  using extsys_acknowledges [of "sio_of [Arrive (vrec (xo_message (0, ''ab''))), Arrive (vrec (xo_message (1, ''c'')))]"
      "[(0, ''ab''), (1, ''c'')]" "\<lambda>k. k = 0"]
  by (simp add: kept_def upt_rec numeral_2_eq_2)

text \<open>
  The client reads up to 128 bytes of a message, and sends 127 without a fault; the server has room for
  124: a longer message ends the server.
\<close>

theorem extsys_dies_of_long_message:
  assumes "only_intr (sio_in t)" and "net_data (sio_in t) = vrec (xo_message m) @ rest"
    and "124 < length (snd m)" and "length (snd m) \<le> 128"
  shows "\<exists>t'. extsys lost t = Some (''recv failure'', (0, []), t')"
proof -
  have len: "length (xo_message m) = 4 + length (snd m)" by (simp add: xo_message_def)
  have big: "\<not> length (xo_message m) \<le> 128" "length (xo_message m) < 2 ^ 32" using len assms(3,4) by simp_all
  from readvrec_record [OF assms(1,2) big(2), of 128] big(1) obtain t' where "readvrec 128 t = Some (-1, [], t')" by auto
  then show ?thesis unfolding extsys_def by (subst each_record.simps) (simp add: extsys_body_def)
qed

text \<open>The end of the standard input is not noticed: the client sends an empty message instead, as long as a record is free.\<close>

theorem xout3_sends_at_end_of_input:
  assumes "xo_step\<^sup>*\<^sup>* (xo_start c) (t, w)" and "cn_sends c = []" and "unat (tm_id t) + 128 < 2 ^ 32"
    and "k < 128" and "\<not> mr_used (xo_mr w ! k)"
  shows "\<exists>t' w'. xo_stdin now (Some []) t w = Some (Inr (t', w'))
    \<and> cn_out (xo_conn w') = cn_out (xo_conn w) @ vrec (xo_message (xo_msgid w, []))"
proof -
  have st: "xo_state (t, w)" by (rule xo_reachable [OF assms(1,2)])
  then obtain ts where ts: "timers_are t ts" "tm_mem t" "xo_inv (tm_id t) ts w" "cn_sends (xo_conn w) = []" by (rule xo_stateE)
  then obtain mp where mp: "getfreerec (xo_mr w) = Some mp"
    using assms(4,5) getfreerec_Some(2) [of "xo_mr w"] by (auto simp: xo_inv_def)
  from timeout_refines [OF ts(1) disjI2 [OF ts(2)], of Lost_ack mp 3000 now] obtain t1 where
    t1: "timeout Lost_ack mp 3000 now t = Some (Inr (tm_id t), t1)" by blast
  have p: "mr_packet \<lparr>mr_len = 4, mr_cookie = xo_msgid w, mr_buf = [], mr_id = i\<rparr> = vrec (xo_message (xo_msgid w, []))" for i
    by (simp add: mr_packet_vrec)
  have "length (vrec (xo_message (xo_msgid w, []))) = 8" by (simp add: vrec_def xo_message_def)
  then show ?thesis using mp t1 ts(4) by (simp add: xo_stdin_def Let_def p sys_send_quiet set_rec_def)
qed

theorem xout3_sends_at_end_of_input_witness:
  "\<exists>t' w'. xo_stdin (5, 0) (Some []) (fst (xo_start (conn_of []))) (snd (xo_start (conn_of []))) = Some (Inr (t', w'))
    \<and> cn_out (xo_conn w') = vrec (xo_message (0, []))"
proof -
  have "unat (tm_id (fst (xo_start (conn_of [])))) + 128 < 2 ^ 32" by (simp add: xo_start_def no_timers_def)
  from xout3_sends_at_end_of_input [of "conn_of []" "fst (xo_start (conn_of []))" "snd (xo_start (conn_of []))" 0 "(5, 0)", OF _ _ this]
  show ?thesis by (simp add: xo_start_def)
qed

end
