(* ===== verification/Etcp_Smb.thy ===== *)
theory Etcp_Smb
  imports Etcp_Records
begin

text \<open>
  Shared memory buffers of Effective.TCP.IP.Programming (smb.c) with the producer smbc.c and the
  consumer smbs.c: five buffers on a free list in shared memory, whose numbers are sent over a TCP
  connection. An operation on the free list is one step, being done under the semaphore; a number on
  the connection is one element, \<open>smbrecv\<close> reading it with \<open>readn\<close>.
\<close>

subsection \<open>The buffers\<close>

text \<open>\<open>smb_t\<close> is a union; the number of the next free buffer overlays the first four bytes of the data.\<close>

datatype smb_t = Nexti int | Buf bytes

definition nexti :: "smb_t \<Rightarrow> int" where
  "nexti b = (case b of Nexti i \<Rightarrow> i | Buf bs \<Rightarrow> sint (be_word (rev (take 4 (bs @ replicate 4 CHR 0x00)))))"

abbreviation (input) NSMB :: nat where "NSMB \<equiv> 5"
abbreviation (input) SMBUFSZ :: nat where "SMBUFSZ \<equiv> 256"

text \<open>\<open>smbarray\<close>, with \<open>FREE_LIST\<close>, its element \<open>NSMB\<close>, apart.\<close>

record shm =
  sh_array :: "nat \<Rightarrow> smb_t"
  sh_free :: int

definition init_smb :: "bool \<Rightarrow> shm \<Rightarrow> shm" where
  "init_smb init_freelist m =
     (if init_freelist
      then \<lparr>sh_array = (\<lambda>i. if i < NSMB - 1 then Nexti (int i + 1) else if i = NSMB - 1 then Nexti (-1) else sh_array m i),
            sh_free = 0\<rparr>
      else m)"

text \<open>\<open>None\<close>: out of shared memory buffers, which ends the program.\<close>

definition smballoc :: "shm \<Rightarrow> (nat \<times> shm) option" where
  "smballoc m =
     (if sh_free m < 0 then None
      else let i = nat (sh_free m) in Some (i, m\<lparr>sh_free := nexti (sh_array m i)\<rparr>))"

definition smbfree :: "nat \<Rightarrow> shm \<Rightarrow> shm" where
  "smbfree i m = m\<lparr>sh_array := (sh_array m)(i := Nexti (sh_free m)), sh_free := int i\<rparr>"

definition store_line :: "nat \<Rightarrow> bytes \<Rightarrow> shm \<Rightarrow> shm" where
  "store_line i line m = m\<lparr>sh_array := (sh_array m)(i := Buf (line @ [CHR 0x00]))\<rparr>"

definition line_in :: "nat \<Rightarrow> shm \<Rightarrow> bytes" where
  "line_in i m = (case sh_array m i of Buf bs \<Rightarrow> before CHR 0x00 bs | Nexti _ \<Rightarrow> [])"

subsection \<open>Producer and consumer\<close>

datatype smbc_state = Allocating | Has nat | Client_exit | Out_of_buffers
datatype smbs_state = Receiving | Got nat | Server_exit

text \<open>The two processes, the connection between them, the input that is left and what has been printed.\<close>

record smb_sys =
  sb_shm :: shm
  sb_client :: smbc_state
  sb_server :: smbs_state
  sb_wire :: "nat list"
  sb_input :: bytes
  sb_output :: bytes

definition smbc_alloc :: "smb_sys \<Rightarrow> smb_sys" where
  "smbc_alloc s =
     (case smballoc (sb_shm s) of
        None \<Rightarrow> s\<lparr>sb_client := Out_of_buffers\<rparr>
      | Some (i, m) \<Rightarrow> s\<lparr>sb_shm := m, sb_client := Has i\<rparr>)"

text \<open>A line is read into the buffer, and its number sent.\<close>

definition smbc_send :: "nat \<Rightarrow> smb_sys \<Rightarrow> smb_sys" where
  "smbc_send i s =
     (case fgets SMBUFSZ (sb_input s) of
        None \<Rightarrow> s\<lparr>sb_client := Client_exit\<rparr>
      | Some (line, rest) \<Rightarrow>
          s\<lparr>sb_shm := store_line i line (sb_shm s), sb_input := rest, sb_wire := sb_wire s @ [i], sb_client := Allocating\<rparr>)"

inductive smb_step :: "smb_sys \<Rightarrow> smb_sys \<Rightarrow> bool" where
  client_allocs: "sb_client s = Allocating \<Longrightarrow> smb_step s (smbc_alloc s)"
| client_sends: "sb_client s = Has i \<Longrightarrow> smb_step s (smbc_send i s)"
| server_receives: "sb_server s = Receiving \<Longrightarrow> sb_wire s = i # is \<Longrightarrow> smb_step s (s\<lparr>sb_server := Got i, sb_wire := is\<rparr>)"
| server_disconnected: "sb_server s = Receiving \<Longrightarrow> sb_wire s = [] \<Longrightarrow> sb_client s \<in> {Client_exit, Out_of_buffers} \<Longrightarrow>
    smb_step s (s\<lparr>sb_server := Server_exit\<rparr>)"
| server_prints: "sb_server s = Got i \<Longrightarrow>
    smb_step s (s\<lparr>sb_output := sb_output s @ line_in i (sb_shm s), sb_shm := smbfree i (sb_shm s), sb_server := Receiving\<rparr>)"

inductive_cases smb_stepE: "smb_step s t"

definition smb_start :: "shm \<Rightarrow> bytes \<Rightarrow> smb_sys" where
  "smb_start m inp = \<lparr>sb_shm = init_smb True m, sb_client = Allocating, sb_server = Receiving, sb_wire = [],
     sb_input = inp, sb_output = []\<rparr>"

subsection \<open>No buffer is lost or shared\<close>

fun free_chain :: "(nat \<Rightarrow> smb_t) \<Rightarrow> int \<Rightarrow> nat list \<Rightarrow> bool" where
  "free_chain a p [] \<longleftrightarrow> p = - 1"
| "free_chain a p (i # is) \<longleftrightarrow> p = int i \<and> (\<exists>n. a i = Nexti n \<and> free_chain a n is)"

lemma free_chain_frame: "(\<And>i. i \<in> set is \<Longrightarrow> a' i = a i) \<Longrightarrow> free_chain a' p is = free_chain a p is"
  by (induction "is" arbitrary: p) auto

text \<open>The buffers in use: those of the server and on the wire, in the order of their lines, and that of the client.\<close>

definition filled :: "smb_sys \<Rightarrow> nat list" where
  "filled s = (case sb_server s of Got i \<Rightarrow> [i] | _ \<Rightarrow> []) @ sb_wire s"

definition held :: "smb_sys \<Rightarrow> nat list" where
  "held s = (case sb_client s of Has i \<Rightarrow> [i] | _ \<Rightarrow> [])"

definition smb_inv :: "bytes \<Rightarrow> smb_sys \<Rightarrow> bool" where
  "smb_inv inp s \<longleftrightarrow> (\<exists>fs. free_chain (sh_array (sb_shm s)) (sh_free (sb_shm s)) fs
     \<and> distinct (fs @ filled s @ held s) \<and> set (fs @ filled s @ held s) \<subseteq> {..<NSMB}
     \<and> (sb_client s \<noteq> Client_exit \<longrightarrow> set (fs @ filled s @ held s) = {..<NSMB})
     \<and> sb_output s @ concat (map (\<lambda>i. line_in i (sb_shm s)) (filled s)) @ sb_input s = inp
     \<and> (sb_client s = Client_exit \<longrightarrow> sb_input s = [])
     \<and> (sb_server s = Server_exit \<longrightarrow> sb_wire s = [] \<and> sb_client s \<in> {Client_exit, Out_of_buffers}))"

lemma smb_start_inv: "smb_inv inp (smb_start m inp)"
  unfolding smb_inv_def
proof (intro exI conjI)
  show "free_chain (sh_array (sb_shm (smb_start m inp))) (sh_free (sb_shm (smb_start m inp))) [0, 1, 2, 3, 4]"
    by (simp add: smb_start_def init_smb_def)
qed (auto simp: smb_start_def filled_def held_def)


lemma smb_invE:
  assumes "smb_inv inp s"
  obtains fs where "free_chain (sh_array (sb_shm s)) (sh_free (sb_shm s)) fs" "distinct (fs @ filled s @ held s)"
    "set (fs @ filled s @ held s) \<subseteq> {..<NSMB}" "sb_client s \<noteq> Client_exit \<longrightarrow> set (fs @ filled s @ held s) = {..<NSMB}"
    "sb_output s @ concat (map (\<lambda>i. line_in i (sb_shm s)) (filled s)) @ sb_input s = inp"
    "sb_client s = Client_exit \<longrightarrow> sb_input s = []"
    "sb_server s = Server_exit \<longrightarrow> sb_wire s = [] \<and> sb_client s \<in> {Client_exit, Out_of_buffers}"
  using assms unfolding smb_inv_def by blast

lemma line_in_frame: "sh_array m i = sh_array m' i \<Longrightarrow> line_in i m = line_in i m'"
  by (simp add: line_in_def)

lemma smbc_alloc_inv:
  assumes "smb_inv inp s" and "sb_client s = Allocating"
  shows "smb_inv inp (smbc_alloc s)"
proof -
  from assms(1) obtain fs where i: "free_chain (sh_array (sb_shm s)) (sh_free (sb_shm s)) fs" "distinct (fs @ filled s @ held s)"
    "sb_client s \<noteq> Client_exit \<longrightarrow> set (fs @ filled s @ held s) = {..<NSMB}"
    "sb_output s @ concat (map (\<lambda>i. line_in i (sb_shm s)) (filled s)) @ sb_input s = inp"
    "sb_server s = Server_exit \<longrightarrow> sb_wire s = [] \<and> sb_client s \<in> {Client_exit, Out_of_buffers}" by (rule smb_invE)
  show ?thesis
  proof (cases fs)
    case Nil
    with i assms(2) have "smbc_alloc s = s\<lparr>sb_client := Out_of_buffers\<rparr>" by (simp add: smbc_alloc_def smballoc_def)
    with i assms(2) Nil show ?thesis by (auto simp: smb_inv_def filled_def held_def intro!: exI [of _ "[]"])
  next
    case (Cons k fs')
    then obtain n where n: "sh_free (sb_shm s) = int k" "sh_array (sb_shm s) k = Nexti n" "free_chain (sh_array (sb_shm s)) n fs'"
      using i(1) by auto
    have "smbc_alloc s = s\<lparr>sb_shm := (sb_shm s)\<lparr>sh_free := n\<rparr>, sb_client := Has k\<rparr>"
      using n by (simp add: smbc_alloc_def smballoc_def nexti_def)
    with i assms(2) Cons n(3) show ?thesis
      by (auto simp: smb_inv_def filled_def held_def line_in_def intro!: exI [of _ fs'])
  qed
qed

lemma smbc_send_inv:
  assumes "smb_inv inp s" and "sb_client s = Has k" and "CHR 0x00 \<notin> set inp"
  shows "smb_inv inp (smbc_send k s)"
proof -
  from assms(1) obtain fs where i: "free_chain (sh_array (sb_shm s)) (sh_free (sb_shm s)) fs" "distinct (fs @ filled s @ held s)"
    "sb_client s \<noteq> Client_exit \<longrightarrow> set (fs @ filled s @ held s) = {..<NSMB}"
    "sb_output s @ concat (map (\<lambda>i. line_in i (sb_shm s)) (filled s)) @ sb_input s = inp"
    "sb_server s = Server_exit \<longrightarrow> sb_wire s = [] \<and> sb_client s \<in> {Client_exit, Out_of_buffers}" by (rule smb_invE)
  have held: "held s = [k]" using assms(2) by (simp add: held_def)
  have k: "k < NSMB" "k \<notin> set fs" "k \<notin> set (filled s)" using i(2,3) held assms(2) by auto
  show ?thesis
  proof (cases "fgets SMBUFSZ (sb_input s)")
    case None
    then have "sb_input s = []" by (auto simp: fgets_def Let_def split: if_splits)
    with None i k assms(2) show ?thesis
      by (auto simp: smb_inv_def smbc_send_def filled_def held_def intro!: exI [of _ fs])
  next
    case (Some lr)
    then obtain line rest where lr: "fgets SMBUFSZ (sb_input s) = Some (line, rest)" by (cases lr) auto
    let ?m = "store_line k line (sb_shm s)"
    have split: "line @ rest = sb_input s" using fgets_line [OF lr] by simp
    then have "set line \<subseteq> set inp" using i(4) by (metis le_sup_iff order_refl set_append)
    with assms(3) have nul: "CHR 0x00 \<notin> set line" by blast
    have line: "line_in k ?m = line"
      using before_append_hit [of "CHR 0x00" line "[]"] nul by (auto simp: line_in_def store_line_def)
    have others: "concat (map (\<lambda>j. line_in j ?m) (filled s)) = concat (map (\<lambda>j. line_in j (sb_shm s)) (filled s))"
      using k(3) by (intro arg_cong [where f = concat] map_cong) (auto simp: line_in_def store_line_def)
    have chain: "free_chain (sh_array ?m) (sh_free ?m) fs"
      using i(1) k(2) by (subst free_chain_frame [where a = "sh_array (sb_shm s)"]) (auto simp: store_line_def)
    have f: "filled (smbc_send k s) = filled s @ [k]" "held (smbc_send k s) = []"
      using lr by (simp_all add: smbc_send_def filled_def held_def)
    show ?thesis unfolding smb_inv_def f
    proof (intro exI conjI)
      show "free_chain (sh_array (sb_shm (smbc_send k s))) (sh_free (sb_shm (smbc_send k s))) fs"
        using chain lr by (simp add: smbc_send_def)
      show "sb_output (smbc_send k s) @ concat (map (\<lambda>i. line_in i (sb_shm (smbc_send k s))) (filled s @ [k])) @ sb_input (smbc_send k s) = inp"
        using lr others line i(4) split by (simp add: smbc_send_def)
    qed (use i k held assms(2) lr in \<open>auto simp: smbc_send_def\<close>)
  qed
qed

lemma smb_print_inv:
  assumes "smb_inv inp s" and "sb_server s = Got k"
  shows "smb_inv inp (s\<lparr>sb_output := sb_output s @ line_in k (sb_shm s), sb_shm := smbfree k (sb_shm s), sb_server := Receiving\<rparr>)"
    (is "smb_inv inp ?t")
proof -
  from assms(1) obtain fs where i: "free_chain (sh_array (sb_shm s)) (sh_free (sb_shm s)) fs" "distinct (fs @ filled s @ held s)"
    "set (fs @ filled s @ held s) \<subseteq> {..<NSMB}" "sb_client s \<noteq> Client_exit \<longrightarrow> set (fs @ filled s @ held s) = {..<NSMB}"
    "sb_output s @ concat (map (\<lambda>i. line_in i (sb_shm s)) (filled s)) @ sb_input s = inp"
    "sb_client s = Client_exit \<longrightarrow> sb_input s = []" by (rule smb_invE)
  have filled: "filled s = k # sb_wire s" "filled ?t = sb_wire s" "held ?t = held s" using assms(2) by (simp_all add: filled_def held_def)
  have k: "k \<notin> set fs" "k \<notin> set (sb_wire s)" using i(2) filled by auto
  have "concat (map (\<lambda>j. line_in j (smbfree k (sb_shm s))) (sb_wire s)) = concat (map (\<lambda>j. line_in j (sb_shm s)) (sb_wire s))"
    using k(2) by (intro arg_cong [where f = concat] map_cong) (auto simp: line_in_def smbfree_def)
  moreover have "free_chain (sh_array (smbfree k (sb_shm s))) (sh_free (smbfree k (sb_shm s))) (k # fs)"
  proof -
    have "free_chain ((sh_array (sb_shm s))(k := Nexti (sh_free (sb_shm s)))) (sh_free (sb_shm s)) fs"
      using i(1) k(1) by (subst free_chain_frame [where a = "sh_array (sb_shm s)"]) auto
    then show ?thesis by (simp add: smbfree_def)
  qed
  ultimately show ?thesis using i filled unfolding smb_inv_def filled(2,3) by (intro exI [of _ "k # fs"]) auto
qed

lemma smb_step_inv:
  assumes "smb_step s t" and "smb_inv inp s" and "CHR 0x00 \<notin> set inp"
  shows "smb_inv inp t"
  using assms(1)
proof (cases rule: smb_step.cases)
  case client_allocs
  with smbc_alloc_inv [OF assms(2)] show ?thesis by simp
next
  case (client_sends i)
  with smbc_send_inv [OF assms(2) _ assms(3)] show ?thesis by simp
next
  case (server_receives i "is")
  with assms(2) show ?thesis by (auto simp: smb_inv_def filled_def held_def)
next
  case server_disconnected
  with assms(2) show ?thesis by (auto simp: smb_inv_def filled_def held_def)
next
  case (server_prints i)
  with smb_print_inv [OF assms(2)] show ?thesis by simp
qed


lemma smb_reachable:
  "smb_step\<^sup>*\<^sup>* (smb_start m inp) s \<Longrightarrow> CHR 0x00 \<notin> set inp \<Longrightarrow> smb_inv inp s"
  by (induction rule: rtranclp_induct) (auto intro: smb_step_inv smb_start_inv)

text \<open>What is left to do; every step takes something of it.\<close>

definition smb_work :: "smb_sys \<Rightarrow> nat" where
  "smb_work s = 4 * length (sb_input s) + 2 * length (sb_wire s)
     + (case sb_client s of Allocating \<Rightarrow> 2 | Has _ \<Rightarrow> 1 | _ \<Rightarrow> 0)
     + (case sb_server s of Got _ \<Rightarrow> 2 | Receiving \<Rightarrow> 1 | Server_exit \<Rightarrow> 0)"

lemma smb_work_drops: "smb_step s t \<Longrightarrow> smb_work t < smb_work s"
proof (induction rule: smb_step.induct)
  case (client_sends s i)
  then show ?case
    by (auto simp: smb_work_def smbc_send_def split: option.split dest: fgets_shrinks)
qed (auto simp: smb_work_def smbc_alloc_def smballoc_def Let_def)

lemma smb_stops:
  assumes "\<nexists>t. smb_step s t"
  shows "sb_server s = Server_exit"
proof -
  have c: "sb_client s \<in> {Client_exit, Out_of_buffers}"
  proof (cases "sb_client s")
    case Allocating
    then show ?thesis using assms client_allocs by blast
  next
    case (Has i)
    then show ?thesis using assms client_sends by blast
  qed simp_all
  show ?thesis
  proof (cases "sb_server s")
    case Receiving
    then show ?thesis using assms c server_receives [OF Receiving] server_disconnected [OF Receiving] by (cases "sb_wire s") blast+
  next
    case (Got i)
    then show ?thesis using assms server_prints [OF Got] by blast
  qed simp
qed

text \<open>
  C26: The five buffers are never lost nor in two places while the producer runs, in whatever order the
  two processes run: each is free, or the producer's, or on the wire, or the consumer's. What has
  been printed, what stands in the buffers in transit and what is still to be read make up the
  input: no line is overwritten before it is printed.
\<close>

theorem smb_buffers_safe:
  assumes "smb_step\<^sup>*\<^sup>* (smb_start m inp) s" and "CHR 0x00 \<notin> set inp"
  shows "(\<exists>fs. free_chain (sh_array (sb_shm s)) (sh_free (sb_shm s)) fs \<and> distinct (fs @ filled s @ held s)
      \<and> (sb_client s \<noteq> Client_exit \<longrightarrow> set (fs @ filled s @ held s) = {..<5}))
    \<and> sb_output s @ concat (map (\<lambda>i. line_in i (sb_shm s)) (filled s)) @ sb_input s = inp"
  using smb_reachable [OF assms] unfolding smb_inv_def by blast

theorem smb_buffers_safe_witness:
  "\<forall>m. \<exists>s fs. smb_step\<^sup>*\<^sup>* (smb_start m ''ab'') s \<and> sb_client s = Has 0
    \<and> free_chain (sh_array (sb_shm s)) (sh_free (sb_shm s)) fs \<and> distinct (fs @ filled s @ held s)"
proof (intro allI)
  fix m
  show "\<exists>s fs. smb_step\<^sup>*\<^sup>* (smb_start m ''ab'') s \<and> sb_client s = Has 0
    \<and> free_chain (sh_array (sb_shm s)) (sh_free (sb_shm s)) fs \<and> distinct (fs @ filled s @ held s)"
  proof -
    let ?s = "smbc_alloc (smb_start m ''ab'')"
    have "smb_step (smb_start m ''ab'') ?s" by (rule client_allocs) (simp add: smb_start_def)
    then have r: "smb_step\<^sup>*\<^sup>* (smb_start m ''ab'') ?s" ..
    have "sb_client ?s = Has 0" by (simp add: smbc_alloc_def smballoc_def smb_start_def init_smb_def)
    moreover from smb_buffers_safe [OF r] obtain fs where
      "free_chain (sh_array (sb_shm ?s)) (sh_free (sb_shm ?s)) fs" "distinct (fs @ filled ?s @ held ?s)" by auto
    ultimately show ?thesis using r by blast
  qed
qed

text \<open>The steps of a run are at most as many as there is work at its start, so that no run goes on for ever.\<close>

lemma smb_run_work: "(smb_step ^^ n) s t \<Longrightarrow> n + smb_work t \<le> smb_work s"
  by (induction n arbitrary: t) (auto dest: smb_work_drops, fastforce dest: smb_work_drops)

lemma smb_run_bounded: "(smb_step ^^ n) (smb_start m inp) t \<Longrightarrow> n \<le> 4 * length inp + 3"
  by (drule smb_run_work) (simp add: smb_work_def smb_start_def)

lemma smb_comes_to_end: "\<exists>t. smb_step\<^sup>*\<^sup>* s t \<and> (\<nexists>u. smb_step t u)"
proof (induction s rule: measure_induct_rule [where f = smb_work])
  case (less s)
  show ?case
  proof (cases "\<exists>u. smb_step s u")
    case True
    then obtain u where u: "smb_step s u" by blast
    from less [OF smb_work_drops [OF u]] u show ?thesis by (meson converse_rtranclp_into_rtranclp)
  qed blast
qed

text \<open>A buffer in transit holds a line that has been taken from the input: few lines need few buffers.\<close>

lemma smb_few_lines_step:
  assumes "smb_step s t" and "smb_inv inp s" and "L < 5" and "sb_client s \<noteq> Out_of_buffers"
    and "length (filled s) + length (fgets_all SMBUFSZ (sb_input s)) \<le> L"
  shows "sb_client t \<noteq> Out_of_buffers \<and> length (filled t) + length (fgets_all SMBUFSZ (sb_input t)) \<le> L"
  using assms(1)
proof (cases rule: smb_step.cases)
  case client_allocs
  from assms(2) obtain fs where fs: "free_chain (sh_array (sb_shm s)) (sh_free (sb_shm s)) fs" "distinct (fs @ filled s @ held s)"
    "sb_client s \<noteq> Client_exit \<longrightarrow> set (fs @ filled s @ held s) = {..<NSMB}" by (rule smb_invE)
  have "length fs + length (filled s) = 5"
    using distinct_card [OF fs(2)] fs(3) client_allocs(2) by (simp add: held_def)
  with assms(3,5) obtain i fs' where "fs = i # fs'" by (cases fs) auto
  with fs(1) obtain n where "smballoc (sb_shm s) = Some (i, (sb_shm s)\<lparr>sh_free := n\<rparr>)"
    by (auto simp: smballoc_def nexti_def)
  with assms(5) client_allocs show ?thesis by (simp add: smbc_alloc_def filled_def)
next
  case (client_sends i)
  show ?thesis
  proof (cases "fgets SMBUFSZ (sb_input s)")
    case (Some lr)
    then obtain line rest where lr: "fgets SMBUFSZ (sb_input s) = Some (line, rest)" by (cases lr) auto
    then have "fgets_all SMBUFSZ (sb_input s) = line # fgets_all SMBUFSZ rest" by (subst fgets_all.simps) simp
    with lr assms(5) client_sends show ?thesis by (simp add: smbc_send_def filled_def)
  qed (use assms(5) client_sends in \<open>simp add: smbc_send_def filled_def\<close>)
qed (use assms(4,5) in \<open>auto simp: filled_def\<close>)

lemma smb_few_lines:
  assumes "smb_step\<^sup>*\<^sup>* (smb_start m inp) s" and "CHR 0x00 \<notin> set inp" and "length (fgets_all SMBUFSZ inp) < 5"
  shows "sb_client s \<noteq> Out_of_buffers"
proof -
  have "sb_client s \<noteq> Out_of_buffers \<and> length (filled s) + length (fgets_all SMBUFSZ (sb_input s)) \<le> length (fgets_all SMBUFSZ inp)"
    using assms(1)
  proof (induction rule: rtranclp_induct)
    case base
    show ?case by (simp add: smb_start_def filled_def)
  next
    case (step s t)
    with smb_few_lines_step [OF step.hyps(2) smb_reachable [OF step.hyps(1) assms(2)] assms(3)] show ?case by blast
  qed
  then show ?thesis ..
qed



text \<open>
  With five lines or more the producer can run out of buffers: nothing makes it wait for the consumer.
\<close>

lemma smbc_ahead:
  assumes "CHR 0x00 \<notin> set inp" and "k \<le> 5" and "k \<le> length (fgets_all SMBUFSZ inp)"
  shows "\<exists>s. smb_step\<^sup>*\<^sup>* (smb_start m inp) s \<and> sb_client s = Allocating \<and> sb_server s = Receiving \<and> length (sb_wire s) = k
    \<and> length (fgets_all SMBUFSZ (sb_input s)) = length (fgets_all SMBUFSZ inp) - k"
  using assms(2,3)
proof (induction k)
  case 0
  show ?case by (rule exI [of _ "smb_start m inp"]) (simp add: smb_start_def)
next
  case (Suc k)
  then obtain s where s: "smb_step\<^sup>*\<^sup>* (smb_start m inp) s" "sb_client s = Allocating" "sb_server s = Receiving" "length (sb_wire s) = k"
    "length (fgets_all SMBUFSZ (sb_input s)) = length (fgets_all SMBUFSZ inp) - k" by auto
  from smb_reachable [OF s(1) assms(1)] obtain fs where
    fs: "free_chain (sh_array (sb_shm s)) (sh_free (sb_shm s)) fs" "distinct (fs @ filled s @ held s)"
      "set (fs @ filled s @ held s) = {..<NSMB}" using s(2) by (auto elim: smb_invE)
  have "filled s @ held s = sb_wire s" using s(2,3) by (simp add: filled_def held_def)
  then have "length fs + k = 5" using distinct_card [OF fs(2)] fs(3) s(4) by simp
  then obtain i fs' where "fs = i # fs'" using Suc.prems(1) by (cases fs) auto
  then obtain n where "smballoc (sb_shm s) = Some (i, (sb_shm s)\<lparr>sh_free := n\<rparr>)"
    using fs(1) by (auto simp: smballoc_def nexti_def)
  then have c1: "sb_client (smbc_alloc s) = Has i" "sb_input (smbc_alloc s) = sb_input s" "sb_server (smbc_alloc s) = Receiving"
    "sb_wire (smbc_alloc s) = sb_wire s" using s(3) by (simp_all add: smbc_alloc_def)
  have "0 < length (fgets_all SMBUFSZ (sb_input s))" using s(5) Suc.prems(2) by simp
  then obtain line rest where lr: "fgets SMBUFSZ (sb_input s) = Some (line, rest)"
    by (subst (asm) fgets_all.simps) (auto split: option.splits)
  let ?t = "smbc_send i (smbc_alloc s)"
  have "smb_step\<^sup>*\<^sup>* (smb_start m inp) ?t"
    using s(1) client_allocs [OF s(2)] client_sends [OF c1(1)] by (meson rtranclp.rtrancl_into_rtrancl)
  moreover have "fgets_all SMBUFSZ (sb_input s) = line # fgets_all SMBUFSZ rest" using lr by (subst fgets_all.simps) simp
  ultimately show ?case using lr c1 s(4,5) by (intro exI [of _ ?t]) (simp add: smbc_send_def)
qed

theorem smbc_runs_out:
  assumes "CHR 0x00 \<notin> set inp" and "5 \<le> length (fgets_all 256 inp)"
  shows "\<exists>s. smb_step\<^sup>*\<^sup>* (smb_start m inp) s \<and> sb_client s = Out_of_buffers"
proof -
  from smbc_ahead [OF assms(1) _ assms(2), of m] obtain s where s: "smb_step\<^sup>*\<^sup>* (smb_start m inp) s" "sb_client s = Allocating"
    "sb_server s = Receiving" "length (sb_wire s) = 5" by auto
  from smb_reachable [OF s(1) assms(1)] obtain fs where
    fs: "free_chain (sh_array (sb_shm s)) (sh_free (sb_shm s)) fs" "distinct (fs @ filled s @ held s)"
      "set (fs @ filled s @ held s) = {..<NSMB}" using s(2) by (auto elim: smb_invE)
  have "filled s @ held s = sb_wire s" using s(2,3) by (simp add: filled_def held_def)
  then have "fs = []" using distinct_card [OF fs(2)] fs(3) s(4) by simp
  then have "sb_client (smbc_alloc s) = Out_of_buffers" using fs(1) by (simp add: smbc_alloc_def smballoc_def)
  then show ?thesis using s(1) client_allocs [OF s(2)] by (meson rtranclp.rtrancl_into_rtrancl)
qed

theorem smbc_runs_out_witness:
  "\<exists>s. smb_step\<^sup>*\<^sup>* (smb_start m [NL, NL, NL, NL, NL]) s \<and> sb_client s = Out_of_buffers"
  by (rule smbc_runs_out) (simp_all add: fgets_all.simps fgets_def before_def)

end
