(* ===== verification/Etcp_Heartbeat.thy ===== *)
theory Etcp_Heartbeat
  imports Etcp_Records
begin

text \<open>
  The heartbeats of Effective.TCP.IP.Programming: hb_client.c and hb_server.c, which send them between
  the messages of one connection, and hb_client2.c and hb_server2.c, which use a second connection.
  \<open>select\<close> leaves in \<open>tv\<close> the time that was not used (as on Linux), and only \<open>tv_sec\<close> is set anew.
\<close>

subsection \<open>One connection\<close>

abbreviation (input) MSGSZ :: nat where "MSGSZ \<equiv> 2004"
abbreviation (input) T1 :: nat where "T1 \<equiv> 60"
abbreviation (input) T2 :: nat where "T2 \<equiv> 10"

definition MSG_TYPE1 :: u32 where "MSG_TYPE1 = 1"
definition MSG_TYPE2 :: u32 where "MSG_TYPE2 = 2"
definition MSG_HEARTBEAT :: u32 where "MSG_HEARTBEAT = 3"

text \<open>How \<open>select\<close> returns: with nothing after \<open>tv\<close>, or with the socket and the microseconds left over, or with an error.\<close>

datatype hb_event = Hb_timeout | Hb_readable nat | Hb_error

fun hb_left :: "hb_event \<Rightarrow> nat" where
  "hb_left (Hb_readable left) = left"
| "hb_left _ = 0"

text \<open>
  \<open>hb_msg\<close> is the buffer, of which the last \<open>hb_cnt\<close> bytes are still to come; \<open>hb_waits\<close> are the values of
  \<open>tv\<close> given to \<open>select\<close>, \<open>hb_done\<close> the messages that were complete.
\<close>

record hb =
  hb_conn :: conn
  hb_msg :: bytes
  hb_cnt :: nat
  hb_beats :: nat
  hb_tv :: "nat \<times> nat"
  hb_waits :: "(nat \<times> nat) list"
  hb_done :: "bytes list"

definition hb_type :: "bytes \<Rightarrow> u32" where
  "hb_type msg = be_word (take 4 msg)"

definition overlay :: "nat \<Rightarrow> bytes \<Rightarrow> bytes \<Rightarrow> bytes" where
  "overlay i bs msg = take i msg @ bs @ drop (i + length bs) msg"

definition hb_waiting :: "hb \<Rightarrow> hb" where
  "hb_waiting s = s\<lparr>hb_waits := hb_waits s @ [hb_tv s]\<rparr>"

definition hb_client_timeout :: "hb \<Rightarrow> bytes option \<times> hb" where
  "hb_client_timeout s =
     (let s1 = s\<lparr>hb_tv := (0, 0), hb_beats := hb_beats s + 1\<rparr> in
      if hb_beats s1 > 3 then (Some ''connection dead'', s1)
      else let s2 = s1\<lparr>hb_msg := overlay 0 (be_bytes MSG_HEARTBEAT) (hb_msg s1)\<rparr> in
        (case sys_send (hb_msg s2) (hb_conn s2) of
           (r, c) \<Rightarrow>
             if r < 0 then (Some ''send failure'', s2\<lparr>hb_conn := c\<rparr>)
             else (None, s2\<lparr>hb_conn := c, hb_tv := (T2, 0)\<rparr>)))"

text \<open>The part that client and server share: the bytes that have come are put in the buffer.\<close>

definition hb_recv :: "nat \<Rightarrow> nat \<Rightarrow> hb \<Rightarrow> bytes option \<times> hb" where
  "hb_recv secs left s =
     (case sys_recv (hb_cnt s) (hb_conn s) of
        (None, c) \<Rightarrow> (Some ''recv failure'', s\<lparr>hb_conn := c\<rparr>)
      | (Some got, c) \<Rightarrow>
          if got = [] then (Some ''terminated'', s\<lparr>hb_conn := c\<rparr>)
          else (None, s\<lparr>hb_conn := c, hb_msg := overlay (MSGSZ - hb_cnt s) got (hb_msg s), hb_beats := 0,
                        hb_tv := (secs, left), hb_cnt := hb_cnt s - length got\<rparr>))"

definition hb_client_readable :: "nat \<Rightarrow> hb \<Rightarrow> bytes option \<times> hb" where
  "hb_client_readable left s =
     (case hb_recv T1 left s of
        (Some m, s1) \<Rightarrow> (Some m, s1)
      | (None, s1) \<Rightarrow>
          if hb_cnt s1 > 0 then (None, s1)
          else (None, s1\<lparr>hb_cnt := MSGSZ, hb_done := hb_done s1 @ [hb_msg s1]\<rparr>))"

definition hb_client_step :: "hb_event \<Rightarrow> hb \<Rightarrow> bytes option \<times> hb" where
  "hb_client_step e s =
     (let s1 = hb_waiting s in
      case e of
        Hb_error \<Rightarrow> (Some ''select failure'', s1)
      | Hb_timeout \<Rightarrow> hb_client_timeout s1
      | Hb_readable left \<Rightarrow> hb_client_readable left s1)"

definition hb_server_timeout :: "hb \<Rightarrow> bytes option \<times> hb" where
  "hb_server_timeout s =
     (let s1 = s\<lparr>hb_tv := (0, 0), hb_beats := hb_beats s + 1\<rparr> in
      if hb_beats s1 > 3 then (Some ''connection dead'', s1) else (None, s1\<lparr>hb_tv := (T2, 0)\<rparr>))"

definition hb_server_readable :: "nat \<Rightarrow> hb \<Rightarrow> bytes option \<times> hb" where
  "hb_server_readable left s =
     (case hb_recv (T1 + T2) left s of
        (Some m, s1) \<Rightarrow> (Some m, s1)
      | (None, s1) \<Rightarrow>
          if hb_cnt s1 > 0 then (None, s1)
          else let s2 = s1\<lparr>hb_cnt := MSGSZ, hb_done := hb_done s1 @ [hb_msg s1]\<rparr>; type = hb_type (hb_msg s2) in
            if type = MSG_TYPE1 \<or> type = MSG_TYPE2 then (None, s2)
            else if type = MSG_HEARTBEAT then
              (case sys_send (hb_msg s2) (hb_conn s2) of
                 (r, c) \<Rightarrow> (if r < 0 then Some ''send failure'' else None, s2\<lparr>hb_conn := c\<rparr>))
            else (Some ''unknown message type'', s2))"

definition hb_server_step :: "hb_event \<Rightarrow> hb \<Rightarrow> bytes option \<times> hb" where
  "hb_server_step e s =
     (let s1 = hb_waiting s in
      case e of
        Hb_error \<Rightarrow> (Some ''select failure'', s1)
      | Hb_timeout \<Rightarrow> hb_server_timeout s1
      | Hb_readable left \<Rightarrow> hb_server_readable left s1)"

text \<open>The loops, over the events to come: \<open>None\<close> when they wait for another.\<close>

fun hb_loop :: "('e \<Rightarrow> 's \<Rightarrow> bytes option \<times> 's) \<Rightarrow> 'e list \<Rightarrow> 's \<Rightarrow> bytes option \<times> 's" where
  "hb_loop step [] s = (None, s)"
| "hb_loop step (e # es) s = (case step e s of (Some m, s1) \<Rightarrow> (Some m, s1) | (None, s1) \<Rightarrow> hb_loop step es s1)"

definition hb_start :: "nat \<Rightarrow> bytes \<Rightarrow> conn \<Rightarrow> hb" where
  "hb_start secs junk c = \<lparr>hb_conn = c, hb_msg = junk, hb_cnt = MSGSZ, hb_beats = 0, hb_tv = (secs, 0), hb_waits = [], hb_done = []\<rparr>"

definition hb_client :: "bytes \<Rightarrow> hb_event list \<Rightarrow> conn \<Rightarrow> bytes option \<times> hb" where
  "hb_client junk es c = hb_loop hb_client_step es (hb_start T1 junk c)"

definition hb_server :: "bytes \<Rightarrow> hb_event list \<Rightarrow> conn \<Rightarrow> bytes option \<times> hb" where
  "hb_server junk es c = hb_loop hb_server_step es (hb_start (T1 + T2) junk c)"

lemma hb_loop_append:
  "hb_loop step (es @ fs) s = (case hb_loop step es s of (Some m, s1) \<Rightarrow> (Some m, s1) | (None, s1) \<Rightarrow> hb_loop step fs s1)"
  by (induction es arbitrary: s) (auto split: prod.splits option.splits)

subsection \<open>When the peer is declared dead\<close>

text \<open>
  A program over the events that \<open>select\<close> reports declares its peer dead when there are four time-outs in
  a row: when it does, the last four events were time-outs, waited for through \<open>secs\<close> seconds and what an
  earlier \<open>select\<close> had left in \<open>tv_usec\<close>, and then three times 10 seconds; and whenever it goes on waiting,
  four more time-outs make it do so, where its sends succeed.
\<close>

definition declares_dead ::
  "nat \<Rightarrow> 'e \<Rightarrow> ('e \<Rightarrow> nat) \<Rightarrow> ('s \<Rightarrow> (nat \<times> nat) list) \<Rightarrow> ('s \<Rightarrow> bool) \<Rightarrow> ('e list \<Rightarrow> bytes option \<times> 's) \<Rightarrow> bool" where
  "declares_dead secs timeout left waits sends run \<longleftrightarrow>
     (\<forall>es s. run es = (Some ''connection dead'', s) \<longrightarrow>
        (\<exists>es1 es2 ws. es = es1 @ replicate 4 timeout @ es2 \<and> (es1 = [] \<or> last es1 \<noteq> timeout)
           \<and> waits s = ws @ [(secs, if es1 = [] then 0 else left (last es1)), (10, 0), (10, 0), (10, 0)]))
   \<and> (\<forall>es1 es2 s. run es1 = (None, s) \<longrightarrow> sends s \<longrightarrow>
        fst (run (es1 @ replicate 4 timeout @ es2)) = Some ''connection dead'')"

text \<open>
  The contract of a side: every event is waited for with the current \<open>tv\<close>; a time-out is counted, the
  fourth in a row ends the program, the others make it wait for \<open>T2\<close>, unless a send fails; anything else
  resets the count and makes it wait for \<open>secs\<close> seconds and the microseconds left.
\<close>

locale dead_peer =
  fixes step :: "'e \<Rightarrow> 's \<Rightarrow> bytes option \<times> 's"
    and timeout :: 'e
    and left :: "'e \<Rightarrow> nat"
    and beats :: "'s \<Rightarrow> nat"
    and tv :: "'s \<Rightarrow> nat \<times> nat"
    and waits :: "'s \<Rightarrow> (nat \<times> nat) list"
    and sends :: "'s \<Rightarrow> bool"
    and secs :: nat
  assumes waited: "step e s = (r, s') \<Longrightarrow> waits s' = waits s @ [tv s]"
    and dies: "fst (step e s) = Some ''connection dead'' \<longleftrightarrow> e = timeout \<and> 3 \<le> beats s"
    and counts: "step e s = (None, s') \<Longrightarrow>
      if e = timeout then beats s' = beats s + 1 \<and> tv s' = (T2, 0) else beats s' = 0 \<and> tv s' = (secs, left e)"
    and goes_on: "sends s \<Longrightarrow> beats s < 3 \<Longrightarrow> \<exists>s'. step timeout s = (None, s') \<and> sends s'"
begin

definition left_over :: "'e list \<Rightarrow> nat" where
  "left_over es = (if es = [] then 0 else left (last es))"

definition silent :: "'e list \<Rightarrow> 's \<Rightarrow> bool" where
  "silent past s \<longleftrightarrow> (\<exists>es ws. past = es @ replicate (beats s) timeout \<and> (es = [] \<or> last es \<noteq> timeout) \<and> beats s \<le> 3
     \<and> waits s = ws @ take (beats s) ((secs, left_over es) # replicate 3 (T2, 0))
     \<and> tv s = (if beats s = 0 then (secs, left_over es) else (T2, 0)))"

lemma silentE:
  assumes "silent past s"
  obtains es ws where "past = es @ replicate (beats s) timeout" "es = [] \<or> last es \<noteq> timeout" "beats s \<le> 3"
    "waits s = ws @ take (beats s) ((secs, left_over es) # replicate 3 (T2, 0))"
    "tv s = (if beats s = 0 then (secs, left_over es) else (T2, 0))"
  using assms unfolding silent_def by blast

lemma silent_start: "beats s = 0 \<Longrightarrow> tv s = (secs, 0) \<Longrightarrow> waits s = [] \<Longrightarrow> silent [] s"
  by (simp add: silent_def left_over_def)

lemma silent_step:
  assumes "silent past s" and "step e s = (None, s')"
  shows "silent (past @ [e]) s'"
proof -
  from assms(1) obtain es ws where i: "past = es @ replicate (beats s) timeout" "es = [] \<or> last es \<noteq> timeout" "beats s \<le> 3"
    "waits s = ws @ take (beats s) ((secs, left_over es) # replicate 3 (T2, 0))"
    "tv s = (if beats s = 0 then (secs, left_over es) else (T2, 0))" by (rule silentE)
  note c = counts [OF assms(2)] and w = waited [OF assms(2)]
  show ?thesis
  proof (cases "e = timeout")
    case True
    then have n: "beats s < 3" using dies [of e s] assms(2) by simp
    then have "beats s = 0 \<or> beats s = 1 \<or> beats s = 2" by arith
    then have "take (beats s + 1) ((secs, left_over es) # replicate 3 (T2, 0))
        = take (beats s) ((secs, left_over es) # replicate 3 (T2, 0)) @ [tv s]"
      using i(5) by (auto simp: numeral_3_eq_3 numeral_2_eq_2)
    moreover have "past @ [e] = es @ replicate (beats s + 1) timeout"
      using i(1) True replicate_append_same [of "beats s" timeout] by simp
    ultimately show ?thesis using True c w i n unfolding silent_def by (intro exI [of _ es] exI [of _ ws]) simp
  next
    case False
    then show ?thesis using c w unfolding silent_def
      by (intro exI [of _ "past @ [e]"] exI [of _ "waits s'"]) (simp add: left_over_def)
  qed
qed

lemma silent_loop: "hb_loop step es s = (None, s') \<Longrightarrow> silent past s \<Longrightarrow> silent (past @ es) s'"
proof (induction es arbitrary: past s)
  case (Cons e es)
  then obtain s1 where s1: "step e s = (None, s1)" "hb_loop step es s1 = (None, s')" by (auto split: prod.splits option.splits)
  from Cons.IH [OF s1(2) silent_step [OF Cons.prems(2) s1(1)]] show ?case by simp
qed simp

lemma dead_only_after_silence:
  assumes "hb_loop step es s = (Some ''connection dead'', s')" and "silent past s"
  shows "\<exists>es1 es2 ws. past @ es = es1 @ replicate 4 timeout @ es2 \<and> (es1 = [] \<or> last es1 \<noteq> timeout)
    \<and> waits s' = ws @ [(secs, left_over es1), (T2, 0), (T2, 0), (T2, 0)]"
  using assms
proof (induction es arbitrary: past s)
  case (Cons e es)
  obtain r s1 where st: "step e s = (r, s1)" by force
  show ?case
  proof (cases r)
    case None
    from Cons.IH [OF _ silent_step [OF Cons.prems(2) st [unfolded None]]] Cons.prems(1) st None show ?thesis by simp
  next
    case (Some m)
    then have m: "m = ''connection dead''" "s1 = s'" using Cons.prems(1) st by simp_all
    then have t: "e = timeout" "3 \<le> beats s" using dies [of e s] st Some by simp_all
    from Cons.prems(2) obtain bs ws where i: "past = bs @ replicate (beats s) timeout" "bs = [] \<or> last bs \<noteq> timeout" "beats s \<le> 3"
      "waits s = ws @ take (beats s) ((secs, left_over bs) # replicate 3 (T2, 0))"
      "tv s = (if beats s = 0 then (secs, left_over bs) else (T2, 0))" by (rule silentE)
    have b: "beats s = 3" using t(2) i(3) by simp
    have "waits s' = ws @ [(secs, left_over bs), (T2, 0), (T2, 0), (T2, 0)]"
      using waited [OF st] m(2) i(4,5) b by (simp add: numeral_3_eq_3)
    moreover have "past @ e # es = bs @ replicate 4 timeout @ es" using i(1) t(1) b by (simp add: eval_nat_numeral)
    ultimately show ?thesis using i(2) by blast
  qed
qed simp

lemma silence_kills:
  assumes "beats s \<le> 3" and "sends s" and "4 \<le> beats s + length ts" and "\<forall>e \<in> set ts. e = timeout"
  shows "fst (hb_loop step (ts @ es) s) = Some ''connection dead''"
  using assms
proof (induction ts arbitrary: s)
  case (Cons e ts)
  show ?case
  proof (cases "beats s < 3")
    case True
    with goes_on [OF Cons.prems(2)] obtain s1 where s1: "step timeout s = (None, s1)" "sends s1" by blast
    have "beats s1 = beats s + 1" using counts [OF s1(1)] by simp
    with Cons.IH [of s1] Cons.prems s1 True show ?thesis by simp
  next
    case False
    then have "fst (step e s) = Some ''connection dead''" using dies [of e s] Cons.prems(4) by simp
    then show ?thesis by (cases "step e s") simp
  qed
qed simp

lemma detects:
  assumes "beats s = 0" and "tv s = (secs, 0)" and "waits s = []"
  shows "declares_dead secs timeout left waits sends (\<lambda>es. hb_loop step es s)"
  unfolding declares_dead_def
proof (intro conjI allI impI)
  note start = silent_start [OF assms]
  fix es s'
  assume "hb_loop step es s = (Some ''connection dead'', s')"
  from dead_only_after_silence [OF this start] show
    "\<exists>es1 es2 ws. es = es1 @ replicate 4 timeout @ es2 \<and> (es1 = [] \<or> last es1 \<noteq> timeout)
       \<and> waits s' = ws @ [(secs, if es1 = [] then 0 else left (last es1)), (10, 0), (10, 0), (10, 0)]"
    by (simp add: left_over_def)
next
  fix es1 es2 s'
  assume l: "hb_loop step es1 s = (None, s')" and "sends s'"
  moreover have "beats s' \<le> 3" using silent_loop [OF l silent_start [OF assms]] by (auto elim: silentE)
  ultimately have "fst (hb_loop step (replicate 4 timeout @ es2) s') = Some ''connection dead''"
    by (intro silence_kills) auto
  with l show "fst (hb_loop step (es1 @ replicate 4 timeout @ es2) s) = Some ''connection dead''" by (simp add: hb_loop_append)
qed

end

lemma hb_recv_None:
  assumes "hb_recv secs left s = (None, s')"
  shows "hb_beats s' = 0 \<and> hb_tv s' = (secs, left) \<and> hb_waits s' = hb_waits s \<and> hb_done s' = hb_done s"
  using assms by (auto simp: hb_recv_def split: prod.splits option.splits if_splits)

lemma hb_recv_Some:
  "hb_recv secs left s = (Some m, s') \<Longrightarrow> m \<noteq> ''connection dead'' \<and> hb_waits s' = hb_waits s"
  by (auto simp: hb_recv_def split: prod.splits option.splits if_splits)

lemmas hb_recv_cases = hb_recv_None hb_recv_Some
lemmas hb_client_defs = hb_client_step_def hb_client_timeout_def hb_client_readable_def hb_waiting_def Let_def
lemmas hb_server_defs = hb_server_step_def hb_server_timeout_def hb_server_readable_def hb_waiting_def Let_def

interpretation client_side: dead_peer hb_client_step Hb_timeout hb_left hb_beats hb_tv hb_waits
    "\<lambda>s. cn_sends (hb_conn s) = []" T1
  by unfold_locales (auto simp: hb_client_defs sys_send_quiet split: hb_event.splits prod.splits option.splits if_splits dest: hb_recv_cases)

interpretation server_side: dead_peer hb_server_step Hb_timeout hb_left hb_beats hb_tv hb_waits "\<lambda>_. True" "T1 + T2"
  by unfold_locales (auto simp: hb_server_defs split: hb_event.splits prod.splits option.splits if_splits dest: hb_recv_cases)

subsection \<open>A second connection\<close>

datatype hb2_event = Hb2_timeout | Hb2_readable bool bool nat | Hb2_error

fun hb2_left :: "hb2_event \<Rightarrow> nat" where
  "hb2_left (Hb2_readable _ _ left) = left"
| "hb2_left _ = 0"

text \<open>The connection of the heartbeats and that of the data, and what has been received on it.\<close>

record hb2 =
  h2_shb :: conn
  h2_sdata :: conn
  h2_beats :: nat
  h2_tv :: "nat \<times> nat"
  h2_waits :: "(nat \<times> nat) list"
  h2_data :: bytes

definition h2_waiting :: "hb2 \<Rightarrow> hb2" where
  "h2_waiting s = s\<lparr>h2_waits := h2_waits s @ [h2_tv s]\<rparr>"

definition h2_recv_data :: "hb2 \<Rightarrow> bytes option \<times> hb2" where
  "h2_recv_data s =
     (case sys_recv 1024 (h2_sdata s) of
        (None, c) \<Rightarrow> (Some ''recv failure'', s\<lparr>h2_sdata := c\<rparr>)
      | (Some got, c) \<Rightarrow>
          (if got = [] then Some ''terminated'' else None, s\<lparr>h2_sdata := c, h2_data := h2_data s @ got\<rparr>))"

definition h2_client_shb :: "hb2 \<Rightarrow> bytes option \<times> hb2" where
  "h2_client_shb s =
     (case sys_recv 1 (h2_shb s) of
        (None, c) \<Rightarrow> (Some ''bad recv on shb'', s\<lparr>h2_shb := c\<rparr>)
      | (Some got, c) \<Rightarrow> (if got = [] then Some ''terminated'' else None, s\<lparr>h2_shb := c\<rparr>))"

text \<open>The server sends the byte back.\<close>

definition h2_server_shb :: "hb2 \<Rightarrow> bytes option \<times> hb2" where
  "h2_server_shb s =
     (case sys_recv 1 (h2_shb s) of
        (None, c) \<Rightarrow> (Some ''shb recv failure'', s\<lparr>h2_shb := c\<rparr>)
      | (Some got, c) \<Rightarrow>
          if got = [] then (Some ''terminated'', s\<lparr>h2_shb := c\<rparr>)
          else (case sys_send got c of
                  (r, c1) \<Rightarrow> (if r < 0 then Some ''shb send failure'' else None, s\<lparr>h2_shb := c1\<rparr>)))"

definition h2_readable :: "(hb2 \<Rightarrow> bytes option \<times> hb2) \<Rightarrow> nat \<Rightarrow> bool \<Rightarrow> bool \<Rightarrow> nat \<Rightarrow> hb2 \<Rightarrow> bytes option \<times> hb2" where
  "h2_readable shb secs shb_ready data_ready left s =
     (case (if shb_ready then shb s else (None, s)) of
        (Some m, s1) \<Rightarrow> (Some m, s1)
      | (None, s1) \<Rightarrow>
          (case (if data_ready then h2_recv_data s1 else (None, s1)) of
             (Some m, s2) \<Rightarrow> (Some m, s2)
           | (None, s2) \<Rightarrow> (None, s2\<lparr>h2_beats := 0, h2_tv := (secs, left)\<rparr>)))"

definition hb_client2_step :: "hb2_event \<Rightarrow> hb2 \<Rightarrow> bytes option \<times> hb2" where
  "hb_client2_step e s0 =
     (let s = h2_waiting s0 in
      case e of
        Hb2_error \<Rightarrow> (Some ''select failure'', s)
      | Hb2_timeout \<Rightarrow>
          let s1 = s\<lparr>h2_beats := h2_beats s + 1, h2_tv := (0, 0)\<rparr> in
          if h2_beats s1 > 3 then (Some ''connection dead'', s1)
          else (case sys_send [CHR 0x00] (h2_shb s1) of
                  (r, c) \<Rightarrow> if r < 0 then (Some ''send failure'', s1\<lparr>h2_shb := c\<rparr>) else (None, s1\<lparr>h2_shb := c, h2_tv := (T2, 0)\<rparr>))
      | Hb2_readable b d left \<Rightarrow> h2_readable h2_client_shb T1 b d left s)"

definition hb_server2_step :: "hb2_event \<Rightarrow> hb2 \<Rightarrow> bytes option \<times> hb2" where
  "hb_server2_step e s0 =
     (let s = h2_waiting s0 in
      case e of
        Hb2_error \<Rightarrow> (Some ''select failure'', s)
      | Hb2_timeout \<Rightarrow>
          let s1 = s\<lparr>h2_beats := h2_beats s + 1, h2_tv := (0, 0)\<rparr> in
          if h2_beats s1 > 3 then (Some ''connection dead'', s1) else (None, s1\<lparr>h2_tv := (T2, 0)\<rparr>)
      | Hb2_readable b d left \<Rightarrow> h2_readable h2_server_shb (T1 + T2) b d left s)"

lemma h2_parts:
  "h2_recv_data s = (r, s') \<Longrightarrow> r \<noteq> Some ''connection dead'' \<and> h2_waits s' = h2_waits s"
  "h2_client_shb s = (r, s') \<Longrightarrow> r \<noteq> Some ''connection dead'' \<and> h2_waits s' = h2_waits s"
  "h2_server_shb s = (r, s') \<Longrightarrow> r \<noteq> Some ''connection dead'' \<and> h2_waits s' = h2_waits s"
  by (auto simp: h2_recv_data_def h2_client_shb_def h2_server_shb_def split: prod.splits option.splits if_splits)

lemma h2_readable_facts:
  assumes "h2_readable shb secs b d left s = (r, s')"
    and "\<And>s r s'. shb s = (r, s') \<Longrightarrow> r \<noteq> Some ''connection dead'' \<and> h2_waits s' = h2_waits s"
  shows "r \<noteq> Some ''connection dead'' \<and> h2_waits s' = h2_waits s \<and> (r = None \<longrightarrow> h2_beats s' = 0 \<and> h2_tv s' = (secs, left))"
  using assms(1) by (auto simp: h2_readable_def split: prod.splits option.splits if_splits dest!: assms(2) h2_parts(1))

lemmas h2_facts = h2_readable_facts [OF _ h2_parts(2)] h2_readable_facts [OF _ h2_parts(3)]

definition hb2_start :: "nat \<Rightarrow> conn \<Rightarrow> conn \<Rightarrow> hb2" where
  "hb2_start secs shb sdata = \<lparr>h2_shb = shb, h2_sdata = sdata, h2_beats = 0, h2_tv = (secs, 0), h2_waits = [], h2_data = []\<rparr>"

definition hb_client2 :: "hb2_event list \<Rightarrow> conn \<Rightarrow> conn \<Rightarrow> bytes option \<times> hb2" where
  "hb_client2 es shb sdata = hb_loop hb_client2_step es (hb2_start T1 shb sdata)"

definition hb_server2 :: "hb2_event list \<Rightarrow> conn \<Rightarrow> conn \<Rightarrow> bytes option \<times> hb2" where
  "hb_server2 es shb sdata = hb_loop hb_server2_step es (hb2_start (T1 + T2) shb sdata)"

lemmas hb2_defs = hb_client2_step_def hb_server2_step_def h2_waiting_def Let_def

interpretation client2_side: dead_peer hb_client2_step Hb2_timeout hb2_left h2_beats h2_tv h2_waits
    "\<lambda>s. cn_sends (h2_shb s) = []" T1
  by unfold_locales
    (auto simp: hb2_defs sys_send_quiet split: hb2_event.splits prod.splits if_splits dest: h2_facts, metis h2_facts(1) prod.collapse)

interpretation server2_side: dead_peer hb_server2_step Hb2_timeout hb2_left h2_beats h2_tv h2_waits "\<lambda>_. True" "T1 + T2"
  by unfold_locales
    (auto simp: hb2_defs split: hb2_event.splits prod.splits if_splits dest: h2_facts, metis h2_facts(2) prod.collapse)

text \<open>
  C38: Each of the four programs declares its peer dead exactly when four calls of \<open>select\<close> in a row time
  out. When it does so, the four waits were 60 and three times 10 seconds for the clients, 70 and three
  times 10 for the servers; the first is longer by the microseconds that the last event before the
  silence left in \<open>tv_usec\<close> (none at the start; \<open>select\<close> leaves less than a second there). Whenever a
  program waits for events, four time-outs more make it declare its peer dead; for the clients, which
  send a heartbeat after each of the first three, where their sends succeed.
\<close>

theorem heartbeat_detects_silence:
  "declares_dead 60 Hb_timeout hb_left hb_waits (\<lambda>s. cn_sends (hb_conn s) = []) (\<lambda>es. hb_client junk es c)
    \<and> declares_dead 70 Hb_timeout hb_left hb_waits (\<lambda>_. True) (\<lambda>es. hb_server junk es c)
    \<and> declares_dead 60 Hb2_timeout hb2_left h2_waits (\<lambda>s. cn_sends (h2_shb s) = []) (\<lambda>es. hb_client2 es shb sdata)
    \<and> declares_dead 70 Hb2_timeout hb2_left h2_waits (\<lambda>_. True) (\<lambda>es. hb_server2 es shb sdata)"
proof (intro conjI)
  show "declares_dead 60 Hb_timeout hb_left hb_waits (\<lambda>s. cn_sends (hb_conn s) = []) (\<lambda>es. hb_client junk es c)"
    unfolding hb_client_def by (rule client_side.detects) (simp_all add: hb_start_def)
  show "declares_dead 70 Hb_timeout hb_left hb_waits (\<lambda>_. True) (\<lambda>es. hb_server junk es c)"
    using server_side.detects [of "hb_start (T1 + T2) junk c"] by (simp add: hb_server_def hb_start_def)
  show "declares_dead 60 Hb2_timeout hb2_left h2_waits (\<lambda>s. cn_sends (h2_shb s) = []) (\<lambda>es. hb_client2 es shb sdata)"
    unfolding hb_client2_def by (rule client2_side.detects) (simp_all add: hb2_start_def)
  show "declares_dead 70 Hb2_timeout hb2_left h2_waits (\<lambda>_. True) (\<lambda>es. hb_server2 es shb sdata)"
    using server2_side.detects [of "hb2_start (T1 + T2) shb sdata"] by (simp add: hb_server2_def hb2_start_def)
qed

theorem heartbeat_detects_silence_witness:
  "fst (hb_client (replicate 2004 CHR 0x00) (Hb_readable 250000 # replicate 4 Hb_timeout) (conn_of [Arrive ''ab''])) = Some ''connection dead''
    \<and> (\<exists>ws. hb_waits (snd (hb_client (replicate 2004 CHR 0x00) (Hb_readable 250000 # replicate 4 Hb_timeout) (conn_of [Arrive ''ab''])))
        = ws @ [(60, 250000), (10, 0), (10, 0), (10, 0)])"
proof -
  let ?c = "conn_of [Arrive ''ab'']" and ?junk = "replicate 2004 CHR 0x00"
  obtain s where s: "hb_client ?junk [Hb_readable 250000] ?c = (None, s)" "cn_sends (hb_conn s) = []"
    by (simp add: hb_client_def hb_client_defs hb_start_def hb_recv_def sys_recv_def conn_of_def rw_count_def)
  have four: "replicate 4 x = [x, x, x, x]" for x :: hb_event by (simp add: numeral_eq_Suc)
  note d = heartbeat_detects_silence [of ?junk ?c ?c ?c, THEN conjunct1, unfolded declares_dead_def]
  have dead: "fst (hb_client ?junk (Hb_readable 250000 # replicate 4 Hb_timeout) ?c) = Some ''connection dead''"
    using d [THEN conjunct2, rule_format, OF s, of "[]"] by simp
  obtain t where t: "hb_client ?junk (Hb_readable 250000 # replicate 4 Hb_timeout) ?c = (Some ''connection dead'', t)"
    using dead by (metis prod.collapse)
  from d [THEN conjunct1, rule_format, OF t] obtain es1 es2 ws where
    e: "Hb_readable 250000 # replicate 4 Hb_timeout = es1 @ replicate 4 Hb_timeout @ es2"
      "hb_waits t = ws @ [(60, if es1 = [] then 0 else hb_left (last es1)), (10, 0), (10, 0), (10, 0)]" by blast
  have "length (Hb_readable 250000 # replicate 4 Hb_timeout) = length (es1 @ replicate 4 Hb_timeout @ es2)" using e(1) by (rule arg_cong)
  then have "length es1 + length es2 = 1" by simp
  moreover have "es1 \<noteq> []"
  proof
    assume "es1 = []"
    with e(1) have "Hb_readable 250000 = hd (replicate 4 Hb_timeout @ es2)" by (metis append_Nil list.sel(1))
    then show False using four [of Hb_timeout] by simp
  qed
  ultimately have "length es1 = 1" by (cases es1) simp_all
  then obtain x where "es1 = [x]" by (auto simp: length_Suc_conv)
  with e(1) have "es1 = [Hb_readable 250000]" by simp
  with e(2) t dead show ?thesis by simp
qed

subsection \<open>The messages between the heartbeats\<close>

text \<open>Time-outs only when no message has come in part.\<close>

fun hb_quiet :: "hb_event list \<Rightarrow> hb \<Rightarrow> bool" where
  "hb_quiet [] s = True"
| "hb_quiet (e # es) s \<longleftrightarrow> (e = Hb_timeout \<longrightarrow> hb_cnt s = MSGSZ)
     \<and> (case hb_client_step e s of (None, s1) \<Rightarrow> hb_quiet es s1 | (Some m, s1) \<Rightarrow> True)"

definition hb_framed :: "bytes \<Rightarrow> hb \<Rightarrow> bool" where
  "hb_framed data s \<longleftrightarrow> concat (hb_done s) @ take (MSGSZ - hb_cnt s) (hb_msg s) @ net_data (cn_in (hb_conn s)) = data
     \<and> length (hb_msg s) = MSGSZ \<and> 0 < hb_cnt s \<and> hb_cnt s \<le> MSGSZ \<and> (\<forall>m \<in> set (hb_done s). length m = MSGSZ)
     \<and> no_fail (cn_in (hb_conn s))"

lemma hb_recv_framed:
  assumes "hb_framed data s" and "hb_recv secs left s = (r, s')"
  shows "concat (hb_done s') @ take (MSGSZ - hb_cnt s') (hb_msg s') @ net_data (cn_in (hb_conn s')) = data
    \<and> length (hb_msg s') = MSGSZ \<and> hb_cnt s' \<le> MSGSZ \<and> hb_done s' = hb_done s \<and> no_fail (cn_in (hb_conn s'))
    \<and> (r \<noteq> None \<longrightarrow> 0 < hb_cnt s')"
proof -
  from assms(1) have f: "length (hb_msg s) = MSGSZ" "0 < hb_cnt s" "hb_cnt s \<le> MSGSZ" "no_fail (cn_in (hb_conn s))"
    "concat (hb_done s) @ take (MSGSZ - hb_cnt s) (hb_msg s) @ net_data (cn_in (hb_conn s)) = data" by (simp_all add: hb_framed_def)
  from sys_recv_quiet [OF f(4,2)] obtain got t where
    r: "sys_recv (hb_cnt s) (hb_conn s) = (Some got, (hb_conn s)\<lparr>cn_in := t\<rparr>)" "got @ net_data t = net_data (cn_in (hb_conn s))"
      "no_fail t" "length got \<le> hb_cnt s" by blast
  show ?thesis
  proof (cases "got = []")
    case True
    with r f assms(2) show ?thesis by (auto simp: hb_recv_def)
  next
    case False
    then have s': "s' = s\<lparr>hb_conn := (hb_conn s)\<lparr>cn_in := t\<rparr>, hb_msg := overlay (MSGSZ - hb_cnt s) got (hb_msg s), hb_beats := 0,
        hb_tv := (secs, left), hb_cnt := hb_cnt s - length got\<rparr>" "r = None" using r assms(2) by (auto simp: hb_recv_def)
    have "take (MSGSZ - (hb_cnt s - length got)) (overlay (MSGSZ - hb_cnt s) got (hb_msg s)) = take (MSGSZ - hb_cnt s) (hb_msg s) @ got"
      using f(1,3) r(4) by (simp add: overlay_def)
    then have "concat (hb_done s) @ take (MSGSZ - (hb_cnt s - length got)) (overlay (MSGSZ - hb_cnt s) got (hb_msg s)) @ net_data t = data"
      using f(5) r(2) by simp
    moreover have "length (overlay (MSGSZ - hb_cnt s) got (hb_msg s)) = MSGSZ" using f(1,3) r(4) by (simp add: overlay_def)
    ultimately show ?thesis unfolding s' using f r by simp
  qed
qed

lemma hb_client_step_framed:
  assumes "hb_framed data s" and "hb_client_step e s = (r, s')" and "e = Hb_timeout \<longrightarrow> hb_cnt s = MSGSZ"
  shows "hb_framed data s'"
proof (cases e)
  case Hb_error
  with assms show ?thesis by (auto simp: hb_client_defs hb_framed_def)
next
  case Hb_timeout
  obtain x c where s: "sys_send (overlay 0 (be_bytes MSG_HEARTBEAT) (hb_msg s)) (hb_conn s) = (x, c)" by force
  then have "cn_in c = cn_in (hb_conn s)" by (rule sys_send_in)
  with assms Hb_timeout s show ?thesis
    by (auto simp: hb_client_defs hb_framed_def overlay_def split: if_splits)
next
  case (Hb_readable left)
  obtain q s1 where q: "hb_recv T1 left (hb_waiting s) = (q, s1)" by force
  have "hb_framed data (hb_waiting s)" using assms(1) by (simp add: hb_framed_def hb_waiting_def)
  note f = hb_recv_framed [OF this q]
  show ?thesis
  proof (cases "q = None \<and> hb_cnt s1 = 0")
    case True
    then have "s' = s1\<lparr>hb_cnt := MSGSZ, hb_done := hb_done s1 @ [hb_msg s1]\<rparr>"
      using assms(2) Hb_readable q by (simp add: hb_client_step_def hb_client_readable_def Let_def)
    moreover have "\<forall>m \<in> set (hb_done s). length m = MSGSZ" using assms(1) by (simp add: hb_framed_def)
    ultimately show ?thesis using f True by (auto simp: hb_framed_def hb_waiting_def)
  next
    case False
    then have "s' = s1" using assms(2) Hb_readable q
      by (auto simp: hb_client_step_def hb_client_readable_def Let_def split: option.splits if_splits)
    moreover have "\<forall>m \<in> set (hb_done s). length m = MSGSZ" using assms(1) by (simp add: hb_framed_def)
    ultimately show ?thesis using f False by (auto simp: hb_framed_def hb_waiting_def)
  qed
qed

text \<open>
  Without a time-out in the middle of a message the client takes the messages of 2004 bytes out of the
  stream, whatever the pieces in which they arrive.
\<close>

theorem hb_client_frames:
  assumes "no_fail (cn_in c)" and "length junk = 2004" and "hb_quiet es (hb_start 60 junk c)" and "hb_client junk es c = (r, s)"
  shows "concat (hb_done s) @ take (2004 - hb_cnt s) (hb_msg s) @ net_data (cn_in (hb_conn s)) = net_data (cn_in c)
    \<and> (\<forall>m \<in> set (hb_done s). length m = 2004) \<and> 0 < hb_cnt s"
proof -
  have "hb_framed data s'" if "hb_framed data s" "hb_quiet es s" "hb_loop hb_client_step es s = (r, s')" for data s es s' r
    using that
  proof (induction es arbitrary: s)
    case (Cons e es)
    obtain x s1 where st: "hb_client_step e s = (x, s1)" by force
    have "hb_framed data s1" using hb_client_step_framed [OF Cons.prems(1) st] Cons.prems(2) by simp
    with Cons.IH [of s1] Cons.prems(2,3) st show ?case by (cases x) auto
  qed simp
  moreover have "hb_framed (net_data (cn_in c)) (hb_start 60 junk c)"
    using assms(1,2) by (simp add: hb_framed_def hb_start_def)
  ultimately show ?thesis using assms(3,4) unfolding hb_client_def hb_framed_def by blast
qed

text \<open>
  A heartbeat that is due when a message has come in part is sent from the same buffer: the type of
  that message becomes that of a heartbeat.
\<close>

theorem hb_client_overwrites_type:
  assumes "4 \<le> length p" and "q \<noteq> []" and "length (p @ q) = 2004" and "length junk = 2004"
  shows "\<exists>s. hb_client junk [Hb_readable a, Hb_timeout, Hb_readable b] (conn_of [Arrive p, Arrive q]) = (None, s)
    \<and> hb_done s = [be_bytes MSG_HEARTBEAT @ drop 4 (p @ q)]"
proof -
  have ne: "p \<noteq> []" "0 < length q" "length p \<le> MSGSZ" "length q = MSGSZ - length p" "length p < MSGSZ"
    using assms(1,2,3) by (cases q; auto)+
  have r1: "sys_recv MSGSZ (conn_of [Arrive p, Arrive q]) = (Some p, conn_of [Arrive q])"
    using ne by (simp add: sys_recv_def rw_count_def conn_of_def)
  have r2: "sys_recv (MSGSZ - length p) ((conn_of [Arrive q])\<lparr>cn_out := out\<rparr>) = (Some q, (conn_of [])\<lparr>cn_out := out\<rparr>)" for out
    using ne assms(2) by (simp add: sys_recv_def rw_count_def conn_of_def)
  define m1 where "m1 = overlay 0 (be_bytes MSG_HEARTBEAT) (overlay 0 p junk)"
  have m1: "take (length p) m1 = be_bytes MSG_HEARTBEAT @ drop 4 p" "length m1 = MSGSZ"
    using assms(1,4) ne(3) by (simp_all add: m1_def overlay_def)
  have s1: "hb_client_step (Hb_readable a) (hb_start T1 junk (conn_of [Arrive p, Arrive q]))
      = (None, \<lparr>hb_conn = conn_of [Arrive q], hb_msg = overlay 0 p junk, hb_cnt = MSGSZ - length p, hb_beats = 0,
           hb_tv = (T1, a), hb_waits = [(T1, 0)], hb_done = []\<rparr>)"
    using ne r1 by (simp add: hb_client_defs hb_recv_def hb_start_def)
  have s2: "hb_client_step Hb_timeout \<lparr>hb_conn = conn_of [Arrive q], hb_msg = overlay 0 p junk, hb_cnt = MSGSZ - length p, hb_beats = 0,
           hb_tv = (T1, a), hb_waits = [(T1, 0)], hb_done = []\<rparr>
      = (None, \<lparr>hb_conn = (conn_of [Arrive q])\<lparr>cn_out := m1\<rparr>, hb_msg = m1, hb_cnt = MSGSZ - length p, hb_beats = 1,
           hb_tv = (T2, 0), hb_waits = [(T1, 0), (T1, a)], hb_done = []\<rparr>)"
    by (simp add: hb_client_defs m1_def sys_send_quiet)
  have "MSGSZ - (MSGSZ - length p) = length p" using ne(3) by simp
  then have s3: "fst (hb_client_step (Hb_readable b) \<lparr>hb_conn = (conn_of [Arrive q])\<lparr>cn_out := m1\<rparr>, hb_msg = m1, hb_cnt = MSGSZ - length p, hb_beats = 1,
           hb_tv = (T2, 0), hb_waits = [(T1, 0), (T1, a)], hb_done = []\<rparr>) = None
    \<and> hb_done (snd (hb_client_step (Hb_readable b) \<lparr>hb_conn = (conn_of [Arrive q])\<lparr>cn_out := m1\<rparr>, hb_msg = m1, hb_cnt = MSGSZ - length p, hb_beats = 1,
           hb_tv = (T2, 0), hb_waits = [(T1, 0), (T1, a)], hb_done = []\<rparr>)) = [take (length p) m1 @ q]"
    using ne r2 [of m1] m1(2) assms(2) by (simp add: hb_client_defs hb_recv_def overlay_def)
  show ?thesis
    using s1 s2 s3 m1(1) assms(1) by (auto simp: hb_client_def split: prod.splits option.splits)
qed

theorem hb_client_overwrites_type_witness:
  "\<exists>s. hb_client (replicate 2004 CHR 0x00) [Hb_readable 0, Hb_timeout, Hb_readable 0]
      (conn_of [Arrive (be_bytes MSG_TYPE1), Arrive (replicate 2000 CHR ''x'')]) = (None, s)
    \<and> map hb_type (hb_done s) = [MSG_HEARTBEAT]"
proof -
  have "2000 = Suc 1999" by simp
  then have ne: "replicate 2000 CHR ''x'' \<noteq> []" by (metis replicate_empty nat.distinct(1))
  from hb_client_overwrites_type [of "be_bytes MSG_TYPE1" "replicate 2000 CHR ''x''" "replicate 2004 CHR 0x00" 0 0] ne
  show ?thesis by (auto simp: hb_type_def)
qed

theorem hb_client_frames_witness:
  "hb_done (snd (hb_client (replicate 2004 CHR 0x00) [Hb_readable 7] (conn_of [Arrive ''ab'']))) = []"
proof -
  let ?junk = "replicate 2004 CHR 0x00"
  obtain r s where r: "hb_client ?junk [Hb_readable 7] (conn_of [Arrive ''ab'']) = (r, s)" by force
  have "hb_quiet [Hb_readable 7] (hb_start 60 ?junk (conn_of [Arrive ''ab'']))" by (simp split: prod.split option.split)
  from hb_client_frames [OF _ _ this r] have "concat (hb_done s) @ take (2004 - hb_cnt s) (hb_msg s) @ net_data (cn_in (hb_conn s)) = ''ab''"
    "\<forall>m \<in> set (hb_done s). length m = 2004" by simp_all
  moreover from this(1) have "length (concat (hb_done s)) \<le> 2"
    by (metis append_eq_append_conv_if length_append le_add1 list.size(3,4) One_nat_def Suc_1 plus_1_eq_Suc add.commute)
  ultimately have "hb_done s = []" by (cases "hb_done s") auto
  with r show ?thesis by simp
qed

end
