(* ===== verification/Etcp_Tcpmux.thy ===== *)
theory Etcp_Tcpmux
  imports Etcp_Records
begin

text \<open>
  The TCPMUX super-server of Effective.TCP.IP.Programming (tcpmux.c): the configuration file, read by
  \<open>parsetab\<close> with \<open>fgets\<close> and \<open>strtok\<close>, and what the child of \<open>start_server\<close> does with a request.
\<close>

subsection \<open>The configuration\<close>

record servtab_t =
  sv_flag :: bool
  sv_service :: bytes
  sv_path :: bytes
  sv_args :: "bytes list"

abbreviation (input) MAXARGS :: nat where "MAXARGS \<equiv> 10"
abbreviation (input) MAXLINE :: nat where "MAXLINE \<equiv> 256"
abbreviation (input) NSERVTAB :: nat where "NSERVTAB \<equiv> 10"

definition is_delim :: "char \<Rightarrow> bool" where
  "is_delim c \<longleftrightarrow> c = CHR '' '' \<or> c = CHR 0x09 \<or> c = NL"

text \<open>\<open>strtok\<close> with the delimiters of the program: the token, if there is one, and where the next call goes on.\<close>

definition strtok_white :: "bytes \<Rightarrow> bytes option \<times> bytes" where
  "strtok_white s =
     (let s1 = dropWhile is_delim s in
      if s1 = [] then (None, [])
      else (Some (takeWhile (\<lambda>c. \<not> is_delim c) s1), drop 1 (dropWhile (\<lambda>c. \<not> is_delim c) s1)))"

text \<open>The arguments: at most \<open>n\<close> more tokens.\<close>

fun strtok_args :: "nat \<Rightarrow> bytes \<Rightarrow> bytes list \<times> bytes" where
  "strtok_args 0 s = ([], s)"
| "strtok_args (Suc n) s =
     (case strtok_white s of
        (None, s1) \<Rightarrow> ([], s1)
      | (Some tok, s1) \<Rightarrow> (case strtok_args n s1 of (toks, s2) \<Rightarrow> (tok # toks, s2)))"

text \<open>
  A line of the file as \<open>fgets\<close> stores it: nothing for a line without a token, an entry, or the message
  with which the program ends. A line that begins with NUL makes it read the byte before the buffer.
\<close>

definition parse_line :: "nat \<Rightarrow> bytes \<Rightarrow> bytes + servtab_t option" where
  "parse_line entries buf =
     (let line = before CHR 0x00 buf in
      if line = [] then Inl ''reads line[-1]''
      else if last line \<noteq> NL then Inl ''line is too long''
      else if entries \<ge> NSERVTAB then Inl ''too many entries in tcpmux.conf''
      else (case strtok_white (before CHR ''#'' line) of
              (None, _) \<Rightarrow> Inr None
            | (Some cp, s1) \<Rightarrow>
                let flag = (hd cp = CHR ''+''); cp1 = (if flag then tl cp else cp) in
                if flag \<and> (cp1 = [] \<or> is_delim (hd cp1)) then Inl ''white space after +''
                else (case strtok_white s1 of
                        (None, _) \<Rightarrow> Inl ''missing path name''
                      | (Some path, s2) \<Rightarrow>
                          (case strtok_args MAXARGS s2 of
                             (args, s3) \<Rightarrow>
                               if length args \<ge> MAXARGS \<and> fst (strtok_white s3) \<noteq> None then Inl ''too many arguments''
                               else Inr (Some \<lparr>sv_flag = flag, sv_service = cp1, sv_path = path, sv_args = args\<rparr>)))))"

fun parse_lines :: "bytes list \<Rightarrow> servtab_t list \<Rightarrow> bytes + servtab_t list" where
  "parse_lines [] tab = Inr tab"
| "parse_lines (l # ls) tab =
     (case parse_line (length tab) l of
        Inl m \<Rightarrow> Inl m
      | Inr None \<Rightarrow> parse_lines ls tab
      | Inr (Some e) \<Rightarrow> parse_lines ls (tab @ [e]))"

definition parsetab :: "bytes option \<Rightarrow> bytes + servtab_t list" where
  "parsetab file =
     (case file of None \<Rightarrow> Inl ''unable to open tcpmux.conf'' | Some text \<Rightarrow> parse_lines (fgets_all MAXLINE text) [])"

text \<open>What \<open>print_serv_tab\<close> prints.\<close>

definition print_serv_tab :: "servtab_t list \<Rightarrow> bytes" where
  "print_serv_tab tab =
     concat (map (\<lambda>e. sv_service e @ '', '' @ sv_path e @ '', '' @ (if sv_flag e then ''+'' else ''-'') @ [NL]
       @ concat (map (\<lambda>a. CHR 0x09 # a @ [NL]) (sv_args e))) tab)"

subsection \<open>Starting a server\<close>

text \<open>How the child ends: it exits, or becomes the server, with the connection as its standard files.\<close>

datatype mux_child = Mux_exit | Mux_exec bytes "bytes list"

definition tolower :: "char \<Rightarrow> char" where
  "tolower c = (if of_char c \<ge> (65 :: nat) \<and> of_char c \<le> (90 :: nat) then char_of (of_char c + 32 :: nat) else c)"

definition strcasecmp0 :: "bytes \<Rightarrow> bytes \<Rightarrow> bool" where
  "strcasecmp0 a b \<longleftrightarrow> map tolower (before CHR 0x00 a) = map tolower (before CHR 0x00 b)"

definition mux_write :: "bytes \<Rightarrow> sio \<Rightarrow> int \<times> sio" where
  "mux_write bs t = (case sys_send bs (sio_conn t) of (r, c) \<Rightarrow> (r, t\<lparr>sio_conn := c\<rparr>))"

definition mux_err1 :: bytes where "mux_err1 = ''-unable to read service name'' @ crlf"
definition mux_err2 :: bytes where "mux_err2 = ''-unknown service'' @ crlf"
definition mux_err3 :: bytes where "mux_err3 = ''-unable to start service'' @ crlf"
definition mux_ok :: bytes where "mux_ok = ''+OK'' @ crlf"

text \<open>\<open>starts\<close> says whether \<open>execv\<close> succeeds.\<close>

definition mux_serve :: "(bytes \<Rightarrow> bytes list \<Rightarrow> bool) \<Rightarrow> servtab_t list \<Rightarrow> sio \<Rightarrow> mux_child \<times> sio" where
  "mux_serve starts tab t =
     (case readcrlf MAXLINE t of
        (rc, line, t1) \<Rightarrow>
          if rc \<le> 0 then (Mux_exit, snd (mux_write mux_err1 t1))
          else (case find (\<lambda>e. strcasecmp0 line (sv_service e)) tab of
                  None \<Rightarrow> (Mux_exit, snd (mux_write mux_err2 t1))
                | Some e \<Rightarrow>
                    (case (if sv_flag e then mux_write mux_ok t1 else (0, t1)) of
                       (r, t2) \<Rightarrow>
                         if r < 0 then (Mux_exit, t2)
                         else if starts (sv_path e) (sv_args e) then (Mux_exec (sv_path e) (sv_args e), t2)
                         else (Mux_exit, snd (mux_write mux_err3 t2)))))"

text \<open>\<open>start_server\<close>: what becomes of the child, if there is one, and the connection.\<close>

definition start_server :: "bool \<Rightarrow> (bytes \<Rightarrow> bytes list \<Rightarrow> bool) \<Rightarrow> servtab_t list \<Rightarrow> sio \<Rightarrow> mux_child option \<times> sio" where
  "start_server forks starts tab t =
     (if \<not> forks then (None, snd (mux_write mux_err3 t))
      else case mux_serve starts tab t of (ch, t1) \<Rightarrow> (Some ch, t1))"

subsection \<open>Reading back a configuration\<close>

definition is_word :: "bytes \<Rightarrow> bool" where
  "is_word w \<longleftrightarrow> w \<noteq> [] \<and> (\<forall>c \<in> set w. \<not> is_delim c \<and> c \<noteq> CHR ''#'' \<and> c \<noteq> CHR 0x00)"

definition entry_line :: "servtab_t \<Rightarrow> bytes" where
  "entry_line e = (if sv_flag e then ''+'' else []) @ sv_service e @ '' '' @ sv_path e @ concat (map (\<lambda>a. CHR '' '' # a) (sv_args e)) @ [NL]"

definition good_entry :: "servtab_t \<Rightarrow> bool" where
  "good_entry e \<longleftrightarrow> is_word (sv_service e) \<and> hd (sv_service e) \<noteq> CHR ''+'' \<and> is_word (sv_path e) \<and> (\<forall>a \<in> set (sv_args e). is_word a)
     \<and> length (sv_args e) \<le> 10 \<and> length (entry_line e) < 256"

lemma strtok_word:
  assumes "is_word w" and "is_delim d"
  shows "strtok_white (w @ d # s) = (Some w, s)" and "is_delim c \<Longrightarrow> strtok_white (c # s) = strtok_white s"
proof -
  have "takeWhile (\<lambda>c. \<not> is_delim c) (w @ d # s) = w" "dropWhile (\<lambda>c. \<not> is_delim c) (w @ d # s) = d # s"
    using assms by (auto simp: is_word_def takeWhile_append dropWhile_append3 takeWhile_eq_all_conv)
  moreover have "dropWhile is_delim (w @ d # s) = w @ d # s" using assms(1) by (cases w) (auto simp: is_word_def)
  ultimately show "strtok_white (w @ d # s) = (Some w, s)" by (simp add: strtok_white_def)
qed (simp add: strtok_white_def)

lemma strtok_blank: "\<forall>c \<in> set s. is_delim c \<Longrightarrow> strtok_white s = (None, [])"
  by (simp add: strtok_white_def dropWhile_eq_Nil_conv)


definition words_line :: "bytes list \<Rightarrow> bytes" where
  "words_line ws = (case ws of [] \<Rightarrow> [] | w # ws' \<Rightarrow> w @ concat (map (\<lambda>a. CHR '' '' # a) ws') @ [NL])"

lemma is_delim_simps [simp]: "is_delim CHR '' ''" "is_delim NL" "\<not> is_delim CHR ''+''"
  by (simp_all add: is_delim_def)

lemma strtok_words: "is_word w \<Longrightarrow> strtok_white (words_line (w # ws)) = (Some w, words_line ws)"
  using strtok_word(1) [of w "CHR '' ''"] strtok_word(1) [of w NL "[]"] by (cases ws) (simp_all add: words_line_def)

lemma strtok_args_words:
  "\<forall>a \<in> set as. is_word a \<Longrightarrow> length as \<le> n \<Longrightarrow> \<exists>s. strtok_args n (words_line as) = (as, s) \<and> strtok_white s = (None, [])"
proof (induction n arbitrary: "as")
  case 0
  then show ?case by (simp add: words_line_def strtok_white_def)
next
  case (Suc n)
  show ?case
  proof (cases "as")
    case Nil
    then show ?thesis by (simp add: words_line_def strtok_white_def)
  next
    case (Cons a as')
    moreover from this Suc.prems obtain s where "strtok_args n (words_line as') = (as', s)" "strtok_white s = (None, [])"
      using Suc.IH [of as'] by auto
    ultimately show ?thesis using Suc.prems(1) by (simp add: strtok_words)
  qed
qed

lemma entry_line_words:
  "entry_line e = words_line (((if sv_flag e then ''+'' else []) @ sv_service e) # sv_path e # sv_args e)"
  by (simp add: entry_line_def words_line_def)

lemma word_clean: "is_word w \<Longrightarrow> CHR ''#'' \<notin> set w \<and> CHR 0x00 \<notin> set w"
  unfolding is_word_def by blast

lemma parse_entry:
  assumes "good_entry e" and "k < 10"
  shows "parse_line k (entry_line e) = Inr (Some e)"
proof -
  define w where "w = (if sv_flag e then ''+'' else []) @ sv_service e"
  have g: "is_word (sv_service e)" "hd (sv_service e) \<noteq> CHR ''+''" "is_word (sv_path e)" "\<forall>a \<in> set (sv_args e). is_word a" "length (sv_args e) \<le> 10"
    using assms(1) by (simp_all add: good_entry_def)
  have w: "is_word w" using g(1) by (cases "sv_flag e") (simp_all add: is_word_def w_def)
  have "CHR ''#'' \<notin> set (entry_line e)" "CHR 0x00 \<notin> set (entry_line e)"
    using word_clean [OF g(1)] word_clean [OF g(3)] g(4) word_clean by (simp_all add: entry_line_def)
  then have b: "before CHR 0x00 (entry_line e) = entry_line e" "before CHR ''#'' (entry_line e) = entry_line e"
    by (metis before_miss)+
  have ne: "(entry_line e = []) = False" "(last (entry_line e) \<noteq> NL) = False" "(NSERVTAB \<le> k) = False"
    using assms(2) by (simp_all add: entry_line_def)
  have t1: "strtok_white (entry_line e) = (Some w, words_line (sv_path e # sv_args e))"
    unfolding entry_line_words w_def [symmetric] by (rule strtok_words [OF w])
  have t2: "strtok_white (words_line (sv_path e # sv_args e)) = (Some (sv_path e), words_line (sv_args e))"
    by (rule strtok_words [OF g(3)])
  obtain s where t3: "strtok_args MAXARGS (words_line (sv_args e)) = (sv_args e, s)" "strtok_white s = (None, [])"
    using strtok_args_words [OF g(4,5)] by blast
  have "sv_service e \<noteq> []" using g(1) by (simp add: is_word_def)
  then have f: "(hd w = CHR ''+'') = sv_flag e" "(if sv_flag e then tl w else w) = sv_service e" using g(2) by (simp_all add: w_def)
  have h: "(sv_service e = [] \<or> is_delim (hd (sv_service e))) = False" using g(1) by (cases "sv_service e") (auto simp: is_word_def)
  show ?thesis
    unfolding parse_line_def Let_def b ne t1 f h prod.case option.case t2 t3 if_False fst_conv by simp
qed

lemma word_no_NL: "is_word w \<Longrightarrow> NL \<notin> set w"
  using is_delim_simps(2) unfolding is_word_def by blast

lemma entry_is_line:
  assumes "good_entry e"
  shows "is_line 256 (entry_line e)"
proof -
  have g: "NL \<notin> set (sv_service e)" "NL \<notin> set (sv_path e)" "\<forall>a \<in> set (sv_args e). NL \<notin> set a" "length (entry_line e) < 256"
    using assms by (simp_all add: good_entry_def word_no_NL)
  define body where "body = (if sv_flag e then ''+'' else []) @ sv_service e @ '' '' @ sv_path e @ concat (map (\<lambda>a. CHR '' '' # a) (sv_args e))"
  have "NL \<notin> set body" using g(1-3) by (simp add: body_def)
  moreover have l: "entry_line e = body @ [NL]" by (simp add: entry_line_def body_def)
  ultimately show ?thesis using g(4) unfolding l by (simp add: is_line_def)
qed

lemma parse_entries:
  "\<forall>e \<in> set es. good_entry e \<Longrightarrow> length tab + length es \<le> 10 \<Longrightarrow> parse_lines (map entry_line es) tab = Inr (tab @ es)"
  by (induction es arbitrary: tab) (simp_all add: parse_entry)

text \<open>
  A configuration of at most ten services, written one on a line, is read back as it is: the names,
  paths and arguments, and which services are confirmed.
\<close>

theorem parsetab_round_trip:
  assumes "\<forall>e \<in> set tab. good_entry e" and "length tab \<le> 10"
  shows "parsetab (Some (concat (map entry_line tab))) = Inr tab"
proof -
  have "fgets_all 256 (concat (map entry_line tab)) = map entry_line tab"
    using assms(1) by (intro fgets_all_lines) (auto intro: entry_is_line)
  then show ?thesis using parse_entries [of tab "[]"] assms by (simp add: parsetab_def)
qed

theorem parsetab_round_trip_witness:
  "parsetab (Some (''+rlnum ./rlnumd rlnumd'' @ [NL]))
    = Inr [\<lparr>sv_flag = True, sv_service = ''rlnum'', sv_path = ''./rlnumd'', sv_args = [''rlnumd'']\<rparr>]"
  using parsetab_round_trip [of "[\<lparr>sv_flag = True, sv_service = ''rlnum'', sv_path = ''./rlnumd'', sv_args = [''rlnumd'']\<rparr>]"]
  by (simp add: good_entry_def is_word_def is_delim_def entry_line_def)

text \<open>
  What the child answers to a request line, whatever the pieces in which it arrives: the first service
  of that name, in upper or lower case, is started with its arguments after the confirmation if it is
  wanted; what follows the line is left for the server; an unknown name is refused.
\<close>

theorem tcpmux_starts_service:
  assumes "only_intr (sio_in t)" and "net_data (sio_in t) = name @ crlf @ rest" and "NL \<notin> set name" and "name \<noteq> []"
    and "length name \<le> 254" and "cn_sends (sio_conn t) = []" and "\<And>p as. starts p as"
  shows "\<exists>t'. start_server True starts tab t = (case find (\<lambda>e. strcasecmp0 name (sv_service e)) tab of
        None \<Rightarrow> (Some Mux_exit, t') | Some e \<Rightarrow> (Some (Mux_exec (sv_path e) (sv_args e)), t'))
    \<and> net_data (sio_in t') = rest
    \<and> cn_out (sio_conn t') = cn_out (sio_conn t) @ (case find (\<lambda>e. strcasecmp0 name (sv_service e)) tab of
        None \<Rightarrow> ''-unknown service'' @ crlf | Some e \<Rightarrow> if sv_flag e then ''+OK'' @ crlf else [])"
proof -
  have "net_data (sio_in t) = (name @ [CR]) @ NL # rest" "NL \<notin> set (name @ [CR])" "length (name @ [CR]) < 256"
    using assms(2,3,5) by simp_all
  from readcrlf_line [OF assms(1) this] obtain t1 where
    t1: "readcrlf 256 t = (int (length name), name, t1)" "net_data (sio_in t1) = rest" "same_out t t1" by auto
  have c: "cn_out (sio_conn t1) = cn_out (sio_conn t)" "cn_sends (sio_conn t1) = []"
    using t1(3) assms(6) by (simp_all add: same_out_def)
  have w: "mux_write bs t1 = (int (length bs), t1\<lparr>sio_conn := (sio_conn t1)\<lparr>cn_out := cn_out (sio_conn t1) @ bs\<rparr>\<rparr>)" for bs
    using c(2) by (simp add: mux_write_def sys_send_quiet)
  have rc: "\<not> int (length name) \<le> 0" using assms(4) by simp
  show ?thesis
    using t1 rc c assms(7)
    by (auto simp: start_server_def mux_serve_def w mux_err2_def mux_ok_def split: option.split)
qed

theorem tcpmux_starts_service_witness:
  "\<exists>t'. start_server True (\<lambda>_ _. True) [\<lparr>sv_flag = True, sv_service = ''rlnum'', sv_path = ''./rlnumd'', sv_args = [''rlnumd'']\<rparr>]
      (sio_of [Arrive ''RLN'', Arrive (''UM'' @ crlf @ ''one'')]) = (Some (Mux_exec ''./rlnumd'' [''rlnumd'']), t')
    \<and> cn_out (sio_conn t') = ''+OK'' @ crlf"
proof -
  have l: "strcasecmp0 ''RLNUM'' ''rlnum''" by code_simp
  from tcpmux_starts_service [of "sio_of [Arrive ''RLN'', Arrive (''UM'' @ crlf @ ''one'')]" "''RLNUM''" "''one''" "\<lambda>_ _. True"
      "[\<lparr>sv_flag = True, sv_service = ''rlnum'', sv_path = ''./rlnumd'', sv_args = [''rlnumd'']\<rparr>]"]
  show ?thesis using l by auto
qed

end
