(* ===== verification/Unp_Nonblock.thy ===== *)
theory Unp_Nonblock
  imports Prelude
begin

text \<open>
  The clients of UNIX.Network.Programming/unpv13e that copy the standard input to a socket and the
  socket to the standard output: nonblock/strclinonb.c, which never blocks but in \<open>select\<close>, and
  select/strcliselect02.c. What \<open>select\<close> reports and what the calls of a round give are an argument.
\<close>

abbreviation (input) MAXLINE :: nat where "MAXLINE \<equiv> 4096"

subsection \<open>The nonblocking client\<close>

datatype io_read = Read_error | Read_again | Read_bytes bytes
datatype io_write = Write_error | Write_again | Written nat

text \<open>
  A round: which descriptors of the masks are ready, and what the four calls give if they are made.
  A read transfers at most what there is room for, nothing at the end of the file; a write transfers
  at most what it is given. \<open>..._again\<close> is EWOULDBLOCK, \<open>..._error\<close> any other error.
\<close>

record nb_event =
  ev_stdin_ready :: bool
  ev_sock_ready :: bool
  ev_stdout_ready :: bool
  ev_send_ready :: bool
  ev_stdin :: io_read
  ev_sock :: io_read
  ev_stdout :: io_write
  ev_send :: io_write

text \<open>
  \<open>nb_to\<close> is what stands in \<open>to\<close> before \<open>toiptr\<close>, of which the first \<open>nb_too\<close> bytes (before \<open>tooptr\<close>) have
  been written; \<open>nb_fr\<close> and \<open>nb_fro\<close> are the same of \<open>fr\<close>. The last fields are what has gone through the
  four calls, and how often the socket was shut down.
\<close>

record nb =
  nb_to :: bytes
  nb_too :: nat
  nb_fr :: bytes
  nb_fro :: nat
  nb_eof :: bool
  nb_read :: bytes
  nb_sent :: bytes
  nb_got :: bytes
  nb_shown :: bytes
  nb_fins :: nat

datatype nb_stop = Nb_quit bytes | Nb_return

definition nb_start :: nb where
  "nb_start = \<lparr>nb_to = [], nb_too = 0, nb_fr = [], nb_fro = 0, nb_eof = False,
     nb_read = [], nb_sent = [], nb_got = [], nb_shown = [], nb_fins = 0\<rparr>"

definition nb_shutdown :: "nb \<Rightarrow> nb" where
  "nb_shutdown s = s\<lparr>nb_fins := nb_fins s + 1\<rparr>"

text \<open>The four parts of a round. The first two also say whether the write for what they read is to be tried.\<close>

definition nb_stdin :: "io_read \<Rightarrow> nb \<Rightarrow> nb_stop option \<times> bool \<times> nb" where
  "nb_stdin r s =
     (case r of
        Read_error \<Rightarrow> (Some (Nb_quit ''read error on stdin''), False, s)
      | Read_again \<Rightarrow> (None, False, s)
      | Read_bytes bs \<Rightarrow>
          let got = take (MAXLINE - length (nb_to s)) bs in
          if got = [] then
            let s1 = s\<lparr>nb_eof := True\<rparr> in (None, False, if nb_too s1 = length (nb_to s1) then nb_shutdown s1 else s1)
          else (None, True, s\<lparr>nb_to := nb_to s @ got, nb_read := nb_read s @ got\<rparr>))"

definition nb_socket :: "io_read \<Rightarrow> nb \<Rightarrow> nb_stop option \<times> bool \<times> nb" where
  "nb_socket r s =
     (case r of
        Read_error \<Rightarrow> (Some (Nb_quit ''read error on socket''), False, s)
      | Read_again \<Rightarrow> (None, False, s)
      | Read_bytes bs \<Rightarrow>
          let got = take (MAXLINE - length (nb_fr s)) bs in
          if got = [] then
            (Some (if nb_eof s then Nb_return else Nb_quit ''str_cli: server terminated prematurely''), False, s)
          else (None, True, s\<lparr>nb_fr := nb_fr s @ got, nb_got := nb_got s @ got\<rparr>))"

definition nb_stdout :: "io_write \<Rightarrow> nb \<Rightarrow> nb_stop option \<times> nb" where
  "nb_stdout w s =
     (let n = length (nb_fr s) - nb_fro s in
      if n = 0 then (None, s)
      else case w of
        Write_error \<Rightarrow> (Some (Nb_quit ''write error to stdout''), s)
      | Write_again \<Rightarrow> (None, s)
      | Written k \<Rightarrow>
          let nwritten = min k n;
              s1 = s\<lparr>nb_fro := nb_fro s + nwritten, nb_shown := nb_shown s @ take nwritten (drop (nb_fro s) (nb_fr s))\<rparr>
          in (None, if nb_fro s1 = length (nb_fr s1) then s1\<lparr>nb_fr := [], nb_fro := 0\<rparr> else s1))"

definition nb_send :: "io_write \<Rightarrow> nb \<Rightarrow> nb_stop option \<times> nb" where
  "nb_send w s =
     (let n = length (nb_to s) - nb_too s in
      if n = 0 then (None, s)
      else case w of
        Write_error \<Rightarrow> (Some (Nb_quit ''write error to socket''), s)
      | Write_again \<Rightarrow> (None, s)
      | Written k \<Rightarrow>
          let nwritten = min k n;
              s1 = s\<lparr>nb_too := nb_too s + nwritten, nb_sent := nb_sent s @ take nwritten (drop (nb_too s) (nb_to s))\<rparr>
          in (None, if nb_too s1 = length (nb_to s1)
                    then let s2 = s1\<lparr>nb_to := [], nb_too := 0\<rparr> in if nb_eof s2 then nb_shutdown s2 else s2
                    else s1))"

text \<open>The masks given to \<open>select\<close>: standard input and socket for reading, socket and standard output for writing.\<close>

record nb_masks =
  rset_stdin :: bool
  rset_sock :: bool
  wset_sock :: bool
  wset_stdout :: bool

definition nb_select :: "nb \<Rightarrow> nb_masks" where
  "nb_select s = \<lparr>rset_stdin = (\<not> nb_eof s \<and> length (nb_to s) < MAXLINE), rset_sock = (length (nb_fr s) < MAXLINE),
     wset_sock = (nb_too s \<noteq> length (nb_to s)), wset_stdout = (nb_fro s \<noteq> length (nb_fr s))\<rparr>"

definition nb_round :: "nb_event \<Rightarrow> nb \<Rightarrow> nb_stop option \<times> nb" where
  "nb_round ev s =
     (let m = nb_select s in
      case (if rset_stdin m \<and> ev_stdin_ready ev then nb_stdin (ev_stdin ev) s else (None, False, s)) of
        (Some e, _, s1) \<Rightarrow> (Some e, s1)
      | (None, try_send, s1) \<Rightarrow>
          (case (if rset_sock m \<and> ev_sock_ready ev then nb_socket (ev_sock ev) s1 else (None, False, s1)) of
             (Some e, _, s2) \<Rightarrow> (Some e, s2)
           | (None, try_stdout, s2) \<Rightarrow>
               (case (if wset_stdout m \<and> ev_stdout_ready ev \<or> try_stdout then nb_stdout (ev_stdout ev) s2 else (None, s2)) of
                  (Some e, s3) \<Rightarrow> (Some e, s3)
                | (None, s3) \<Rightarrow>
                    if wset_sock m \<and> ev_send_ready ev \<or> try_send then nb_send (ev_send ev) s3 else (None, s3))))"

fun nb_rounds :: "nb_event list \<Rightarrow> nb \<Rightarrow> nb_stop option \<times> nb" where
  "nb_rounds [] s = (None, s)"
| "nb_rounds (ev # evs) s = (case nb_round ev s of (Some e, s1) \<Rightarrow> (Some e, s1) | (None, s1) \<Rightarrow> nb_rounds evs s1)"

subsection \<open>What it does\<close>

text \<open>
  Nothing is lost, doubled or put out of order between the calls; the buffers are emptied as soon as
  all that is in them is written; the socket is shut down once, when the last of the input is sent.
\<close>

definition relayed :: "bytes \<Rightarrow> nat \<Rightarrow> bytes \<Rightarrow> bytes \<Rightarrow> bool" where
  "relayed buf off ins outs \<longleftrightarrow> ins = outs @ drop off buf \<and> length buf \<le> MAXLINE \<and> (if buf = [] then off = 0 else off < length buf)"

lemma relayed_read:
  assumes "relayed buf off ins outs" and "got = take (MAXLINE - length buf) bs"
  shows "relayed (buf @ got) off (ins @ got) outs"
proof -
  have "length got \<le> MAXLINE - length buf" using assms(2) by simp
  moreover have "off \<le> length buf" "length buf \<le> MAXLINE" using assms(1) by (cases "buf = []"; simp add: relayed_def)+
  ultimately have "off \<le> length buf" "length (buf @ got) \<le> MAXLINE" by simp_all
  then show ?thesis using assms(1) by (cases "buf = []"; cases "got = []") (simp_all add: relayed_def)
qed

lemma relayed_write:
  assumes "relayed buf off ins outs" and "k \<le> length buf - off" and "off + k \<noteq> length buf"
  shows "relayed buf (off + k) ins (outs @ take k (drop off buf))"
proof -
  have "off \<le> length buf" using assms(1) by (cases "buf = []") (simp_all add: relayed_def)
  then have "off + k < length buf" using assms(2,3) by simp
  moreover from this have "buf \<noteq> []" by auto
  moreover have "take k (drop off buf) @ drop (off + k) buf = drop off buf"
    by (metis add.commute append_take_drop_id drop_drop)
  ultimately show ?thesis using assms(1) by (simp add: relayed_def)
qed

lemma relayed_all:
  assumes "relayed buf off ins outs" and "off + k = length buf"
  shows "relayed [] 0 ins (outs @ take k (drop off buf))"
  using assms by (simp add: relayed_def)

definition nb_inv :: "nb \<Rightarrow> bool" where
  "nb_inv s \<longleftrightarrow> relayed (nb_to s) (nb_too s) (nb_read s) (nb_sent s) \<and> relayed (nb_fr s) (nb_fro s) (nb_got s) (nb_shown s)
     \<and> nb_fins s = (if nb_eof s \<and> nb_to s = [] then 1 else 0)"

lemma relayed_empty: "relayed buf off ins outs \<Longrightarrow> off = length buf \<longleftrightarrow> buf = []"
  by (cases "buf = []") (simp_all add: relayed_def)

lemma nb_stdin_inv:
  assumes "nb_inv s" and "\<not> nb_eof s" and "nb_stdin r s = (e, b, s')"
  shows "nb_inv s' \<and> e \<noteq> Some Nb_return"
proof (cases r)
  case (Read_bytes bs)
  define got where "got = take (MAXLINE - length (nb_to s)) bs"
  note inv = assms(1) [unfolded nb_inv_def]
  show ?thesis
  proof (cases "got = []")
    case True
    then have "s' = (let s1 = s\<lparr>nb_eof := True\<rparr> in if nb_too s1 = length (nb_to s1) then nb_shutdown s1 else s1)" "e = None"
      using assms(3) by (simp_all add: nb_stdin_def Read_bytes got_def [symmetric] Let_def)
    moreover have "nb_too s = length (nb_to s) \<longleftrightarrow> nb_to s = []" using inv relayed_empty by blast
    ultimately show ?thesis using assms(2) inv by (cases "nb_to s = []") (simp_all add: nb_shutdown_def nb_inv_def Let_def)
  next
    case False
    then show ?thesis using assms(2,3) inv relayed_read [OF _ got_def]
      by (simp add: nb_stdin_def Read_bytes got_def [symmetric] Let_def nb_inv_def) auto
  qed
qed (use assms in \<open>auto simp: nb_stdin_def\<close>)

lemma nb_socket_inv:
  assumes "nb_inv s" and "nb_socket r s = (e, b, s')"
  shows "nb_inv s' \<and> (e = Some Nb_return \<longrightarrow> nb_eof s')"
proof (cases r)
  case (Read_bytes bs)
  define got where "got = take (MAXLINE - length (nb_fr s)) bs"
  note inv = assms(1) [unfolded nb_inv_def]
  show ?thesis
  proof (cases "got = []")
    case True
    then show ?thesis using assms by (auto simp: nb_socket_def Read_bytes got_def [symmetric] Let_def split: if_splits)
  next
    case False
    then show ?thesis using assms(2) inv relayed_read [OF _ got_def]
      by (simp add: nb_socket_def Read_bytes got_def [symmetric] Let_def nb_inv_def) auto
  qed
qed (use assms in \<open>auto simp: nb_socket_def\<close>)

lemma nb_stdout_inv:
  assumes "nb_inv s" and "nb_stdout w s = (e, s')"
  shows "nb_inv s' \<and> e \<noteq> Some Nb_return"
proof (cases "nb_fro s = length (nb_fr s)")
  case True
  then show ?thesis using assms by (simp add: nb_stdout_def)
next
  case False
  note inv = assms(1) [unfolded nb_inv_def]
  have ne: "\<not> length (nb_fr s) - nb_fro s = 0"
    using False inv by (cases "nb_fr s = []") (simp_all add: relayed_def)
  show ?thesis
  proof (cases w)
    case (Written k)
    define m where "m = min k (length (nb_fr s) - nb_fro s)"
    have m: "m \<le> length (nb_fr s) - nb_fro s" by (simp add: m_def)
    show ?thesis using assms(2) inv relayed_write [OF _ m] relayed_all [of "nb_fr s" "nb_fro s" _ _ m] ne
      by (cases "nb_fro s + m = length (nb_fr s)") (auto simp: nb_stdout_def Written m_def [symmetric] Let_def nb_inv_def)
  qed (use assms ne in \<open>auto simp: nb_stdout_def\<close>)
qed

lemma nb_send_inv:
  assumes "nb_inv s" and "nb_send w s = (e, s')"
  shows "nb_inv s' \<and> e \<noteq> Some Nb_return"
proof (cases "nb_too s = length (nb_to s)")
  case True
  then show ?thesis using assms by (simp add: nb_send_def)
next
  case False
  note inv = assms(1) [unfolded nb_inv_def]
  have ne: "\<not> length (nb_to s) - nb_too s = 0" "nb_to s \<noteq> []"
    using False inv by (cases "nb_to s = []", simp_all add: relayed_def)+
  show ?thesis
  proof (cases w)
    case (Written k)
    define m where "m = min k (length (nb_to s) - nb_too s)"
    have m: "m \<le> length (nb_to s) - nb_too s" by (simp add: m_def)
    show ?thesis
    proof (cases "nb_too s + m = length (nb_to s)")
      case True
      then have "relayed [] 0 (nb_read s) (nb_sent s @ take m (drop (nb_too s) (nb_to s)))" using inv relayed_all by blast
      moreover have "nb_fins s = 0" using inv ne(2) by simp
      ultimately show ?thesis using assms(2) inv ne True
        by (cases "nb_eof s") (simp_all add: nb_send_def Written m_def [symmetric] Let_def nb_inv_def nb_shutdown_def, auto)
    next
      case False
      then have "relayed (nb_to s) (nb_too s + m) (nb_read s) (nb_sent s @ take m (drop (nb_too s) (nb_to s)))"
        using inv m relayed_write by blast
      then show ?thesis using assms(2) inv ne False
        by (simp add: nb_send_def Written m_def [symmetric] Let_def nb_inv_def) auto
    qed
  qed (use assms ne in \<open>auto simp: nb_send_def\<close>)
qed

lemma nb_round_inv:
  assumes "nb_inv s" and "nb_round ev s = (e, s')"
  shows "nb_inv s' \<and> (e = Some Nb_return \<longrightarrow> nb_eof s')"
proof -
  let ?m = "nb_select s"
  obtain e1 t1 s1 where r1: "(if rset_stdin ?m \<and> ev_stdin_ready ev then nb_stdin (ev_stdin ev) s else (None, False, s)) = (e1, t1, s1)"
    by (metis prod_cases3)
  then have i1: "nb_inv s1 \<and> e1 \<noteq> Some Nb_return"
    using assms(1) nb_stdin_inv [OF assms(1), of "ev_stdin ev" e1 t1 s1]
    by (auto simp: nb_select_def split: if_splits)
  obtain e2 t2 s2 where r2: "(if rset_sock ?m \<and> ev_sock_ready ev then nb_socket (ev_sock ev) s1 else (None, False, s1)) = (e2, t2, s2)"
    by (metis prod_cases3)
  then have i2: "nb_inv s2 \<and> (e2 = Some Nb_return \<longrightarrow> nb_eof s2)"
    using i1 nb_socket_inv [of s1 "ev_sock ev" e2 t2 s2] by (cases "rset_sock ?m \<and> ev_sock_ready ev") simp_all
  obtain e3 s3 where r3: "(if wset_stdout ?m \<and> ev_stdout_ready ev \<or> t2 then nb_stdout (ev_stdout ev) s2 else (None, s2)) = (e3, s3)"
    by (metis prod.exhaust)
  then have i3: "nb_inv s3 \<and> e3 \<noteq> Some Nb_return"
    using i2 nb_stdout_inv [of s2 "ev_stdout ev" e3 s3] by (cases "wset_stdout ?m \<and> ev_stdout_ready ev \<or> t2") simp_all
  obtain e4 s4 where r4: "(if wset_sock ?m \<and> ev_send_ready ev \<or> t1 then nb_send (ev_send ev) s3 else (None, s3)) = (e4, s4)"
    by (metis prod.exhaust)
  then have i4: "nb_inv s4 \<and> e4 \<noteq> Some Nb_return"
    using i3 nb_send_inv [of s3 "ev_send ev" e4 s4] by (cases "wset_sock ?m \<and> ev_send_ready ev \<or> t1") simp_all
  have "nb_round ev s = (case e1 of Some _ \<Rightarrow> (e1, s1) | None \<Rightarrow> (case e2 of Some _ \<Rightarrow> (e2, s2) | None \<Rightarrow>
      (case e3 of Some _ \<Rightarrow> (e3, s3) | None \<Rightarrow> (e4, s4))))"
    unfolding nb_round_def Let_def r1 using r4 by (auto simp: r2 r3 split: option.split if_splits)
  then show ?thesis using assms(2) i1 i2 i3 i4 by (auto split: option.splits)
qed

lemma nb_rounds_inv:
  "nb_inv s \<Longrightarrow> nb_rounds evs s = (e, s') \<Longrightarrow> nb_inv s' \<and> (e = Some Nb_return \<longrightarrow> nb_eof s')"
proof (induction evs arbitrary: s)
  case (Cons ev evs)
  obtain e1 s1 where r: "nb_round ev s = (e1, s1)" by fastforce
  from nb_round_inv [OF Cons.prems(1) r] Cons.IH [of s1] Cons.prems(2) r show ?case by (cases e1) auto
qed simp

lemma nb_start_inv: "nb_inv nb_start"
  by (simp add: nb_inv_def nb_start_def relayed_def)

text \<open>
  C15: Whatever becomes ready in whatever order and however little the calls transfer: between its rounds
  and at its end what the client has sent and what stands in its buffer make up all that it has read, in
  order, and what it has shown and what stands in the other buffer all that it has received; neither
  buffer overflows; the socket is shut down exactly once, after the end of the input and not before
  all of it has been sent. What is in the buffers when the client returns is lost (see
  \<open>nonblocking_client_loses_output\<close>); it returns only after the end of the input.
\<close>

theorem nonblocking_client_relays:
  assumes "nb_rounds evs nb_start = (e, s)"
  shows "nb_sent s @ drop (nb_too s) (nb_to s) = nb_read s \<and> nb_shown s @ drop (nb_fro s) (nb_fr s) = nb_got s
    \<and> length (nb_to s) \<le> 4096 \<and> length (nb_fr s) \<le> 4096
    \<and> nb_fins s = (if nb_eof s \<and> nb_sent s = nb_read s then 1 else 0)
    \<and> (e = Some Nb_return \<longrightarrow> nb_eof s)"
proof -
  from nb_rounds_inv [OF nb_start_inv assms] have inv: "nb_inv s" and e: "e = Some Nb_return \<longrightarrow> nb_eof s" by auto
  note r = inv [unfolded nb_inv_def]
  have "drop (nb_too s) (nb_to s) = [] \<longleftrightarrow> nb_to s = []"
    using r by (cases "nb_to s = []") (simp_all add: relayed_def)
  moreover have "nb_read s = nb_sent s @ drop (nb_too s) (nb_to s)" using r by (simp add: relayed_def)
  ultimately have t: "(nb_eof s \<and> nb_to s = []) = (nb_eof s \<and> nb_sent s = nb_read s)" by simp
  have "nb_got s = nb_shown s @ drop (nb_fro s) (nb_fr s)" "length (nb_to s) \<le> MAXLINE" "length (nb_fr s) \<le> MAXLINE"
    using r by (simp_all add: relayed_def)
  moreover have "nb_fins s = (if nb_eof s \<and> nb_sent s = nb_read s then 1 else 0)" using r unfolding t by blast
  ultimately show ?thesis using e \<open>nb_read s = nb_sent s @ drop (nb_too s) (nb_to s)\<close> [symmetric] by simp
qed

text \<open>
  What it waits for: the socket is selected for writing exactly when there is something to send,
  standard output exactly when there is something to show, and the two inputs while their buffers
  have room; so that it always waits for something, and with nothing to do for the inputs only.
\<close>

theorem nonblocking_client_waits:
  assumes "nb_rounds evs nb_start = (None, s)"
  shows "wset_sock (nb_select s) \<longleftrightarrow> nb_sent s \<noteq> nb_read s" and "wset_stdout (nb_select s) \<longleftrightarrow> nb_shown s \<noteq> nb_got s"
    and "rset_sock (nb_select s) \<or> wset_stdout (nb_select s)"
    and "rset_stdin (nb_select s) \<or> wset_sock (nb_select s) \<or> nb_eof s"
proof -
  from nb_rounds_inv [OF nb_start_inv assms] have r: "relayed (nb_to s) (nb_too s) (nb_read s) (nb_sent s)"
    "relayed (nb_fr s) (nb_fro s) (nb_got s) (nb_shown s)" by (simp_all add: nb_inv_def)
  have a: "nb_too s \<noteq> length (nb_to s) \<longleftrightarrow> nb_to s \<noteq> []" "nb_fro s \<noteq> length (nb_fr s) \<longleftrightarrow> nb_fr s \<noteq> []"
    using relayed_empty [OF r(1)] relayed_empty [OF r(2)] by simp_all
  have b: "nb_sent s \<noteq> nb_read s \<longleftrightarrow> nb_to s \<noteq> []" "nb_shown s \<noteq> nb_got s \<longleftrightarrow> nb_fr s \<noteq> []"
    using r by (cases "nb_to s = []"; cases "nb_fr s = []"; simp add: relayed_def)+
  show "wset_sock (nb_select s) \<longleftrightarrow> nb_sent s \<noteq> nb_read s" "wset_stdout (nb_select s) \<longleftrightarrow> nb_shown s \<noteq> nb_got s"
    using a b by (simp_all add: nb_select_def)
  show "rset_sock (nb_select s) \<or> wset_stdout (nb_select s)" "rset_stdin (nb_select s) \<or> wset_sock (nb_select s) \<or> nb_eof s"
    using a by (auto simp: nb_select_def)
qed

text \<open>
  The end of the connection after the end of the input is taken for a normal end even when what the
  server sent has not been shown, standard output being slow: it is lost.
\<close>

theorem nonblocking_client_loses_output:
  "\<exists>evs s. nb_rounds evs nb_start = (Some Nb_return, s) \<and> nb_got s = ''hi'' \<and> nb_shown s = []"
proof -
  let ?ev = "\<lambda>i r. \<lparr>ev_stdin_ready = i, ev_sock_ready = \<not> i, ev_stdout_ready = False, ev_send_ready = False,
    ev_stdin = Read_bytes [], ev_sock = Read_bytes r, ev_stdout = Write_again, ev_send = Write_again\<rparr>"
  let ?evs = "[?ev True [], ?ev False ''hi'', ?ev False []]"
  let ?s = "nb_start\<lparr>nb_fr := ''hi'', nb_eof := True, nb_got := ''hi'', nb_fins := 1\<rparr>"
  have "nb_rounds ?evs nb_start = (Some Nb_return, ?s)"
    by (simp add: nb_round_def nb_select_def nb_stdin_def nb_socket_def nb_stdout_def nb_start_def nb_shutdown_def Let_def)
  moreover have "nb_got ?s = ''hi''" "nb_shown ?s = []" by (simp_all add: nb_start_def)
  ultimately show ?thesis by blast
qed

subsection \<open>The blocking client\<close>

record blocking =
  bl_eof :: bool
  bl_read :: bytes
  bl_sent :: bytes
  bl_got :: bytes
  bl_shown :: bytes
  bl_fins :: nat

text \<open>\<open>Read\<close>, \<open>Write\<close> and \<open>Writen\<close> end the program on any error, \<open>Write\<close> also when not all is written.\<close>

definition bl_socket :: "io_read \<Rightarrow> io_write \<Rightarrow> blocking \<Rightarrow> nb_stop option \<times> blocking" where
  "bl_socket r w s =
     (case r of
        Read_bytes bs \<Rightarrow>
          let got = take MAXLINE bs in
          if got = [] then (Some (if bl_eof s then Nb_return else Nb_quit ''str_cli: server terminated prematurely''), s)
          else let s1 = s\<lparr>bl_got := bl_got s @ got\<rparr> in
            (case w of
               Written k \<Rightarrow>
                 (if k \<ge> length got then None else Some (Nb_quit ''write error''), s1\<lparr>bl_shown := bl_shown s1 @ take k got\<rparr>)
             | _ \<Rightarrow> (Some (Nb_quit ''write error''), s1))
      | _ \<Rightarrow> (Some (Nb_quit ''read error''), s))"

definition bl_stdin :: "io_read \<Rightarrow> io_write \<Rightarrow> blocking \<Rightarrow> nb_stop option \<times> blocking" where
  "bl_stdin r w s =
     (case r of
        Read_bytes bs \<Rightarrow>
          let got = take MAXLINE bs in
          if got = [] then (None, s\<lparr>bl_eof := True, bl_fins := bl_fins s + 1\<rparr>)
          else let s1 = s\<lparr>bl_read := bl_read s @ got\<rparr> in
            (case w of
               Written _ \<Rightarrow> (None, s1\<lparr>bl_sent := bl_sent s1 @ got\<rparr>)
             | _ \<Rightarrow> (Some (Nb_quit ''writen error''), s1))
      | _ \<Rightarrow> (Some (Nb_quit ''read error''), s))"

definition bl_round :: "nb_event \<Rightarrow> blocking \<Rightarrow> nb_stop option \<times> blocking" where
  "bl_round ev s =
     (case (if ev_sock_ready ev then bl_socket (ev_sock ev) (ev_stdout ev) s else (None, s)) of
        (Some e, s1) \<Rightarrow> (Some e, s1)
      | (None, s1) \<Rightarrow> if \<not> bl_eof s \<and> ev_stdin_ready ev then bl_stdin (ev_stdin ev) (ev_send ev) s1 else (None, s1))"

fun bl_rounds :: "nb_event list \<Rightarrow> blocking \<Rightarrow> nb_stop option \<times> blocking" where
  "bl_rounds [] s = (None, s)"
| "bl_rounds (ev # evs) s = (case bl_round ev s of (Some e, s1) \<Rightarrow> (Some e, s1) | (None, s1) \<Rightarrow> bl_rounds evs s1)"

definition bl_of :: "nb \<Rightarrow> blocking" where
  "bl_of s = \<lparr>bl_eof = nb_eof s, bl_read = nb_read s, bl_sent = nb_sent s, bl_got = nb_got s, bl_shown = nb_shown s, bl_fins = nb_fins s\<rparr>"

text \<open>A round in which no call is partial or in vain and one descriptor at a time is ready for reading.\<close>

definition whole :: "nb_event \<Rightarrow> bool" where
  "whole ev \<longleftrightarrow> (\<exists>a b k l. ev_stdin ev = Read_bytes a \<and> ev_sock ev = Read_bytes b \<and> ev_stdout ev = Written k \<and> ev_send ev = Written l
     \<and> k \<ge> MAXLINE \<and> l \<ge> MAXLINE) \<and> \<not> (ev_stdin_ready ev \<and> ev_sock_ready ev)"

lemma nb_send_whole:
  "nb_too s = 0 \<Longrightarrow> nb_to s \<noteq> [] \<Longrightarrow> length (nb_to s) \<le> k \<Longrightarrow> \<not> nb_eof s \<Longrightarrow>
    nb_send (Written k) s = (None, s\<lparr>nb_sent := nb_sent s @ nb_to s, nb_to := [], nb_too := 0\<rparr>)"
  by (simp add: nb_send_def min_def Let_def)

lemma nb_stdout_whole:
  "nb_fro s = 0 \<Longrightarrow> nb_fr s \<noteq> [] \<Longrightarrow> length (nb_fr s) \<le> k \<Longrightarrow>
    nb_stdout (Written k) s = (None, s\<lparr>nb_shown := nb_shown s @ nb_fr s, nb_fr := [], nb_fro := 0\<rparr>)"
  by (simp add: nb_stdout_def min_def Let_def)

lemma whole_round:
  assumes "whole ev" and "nb_to s = []" "nb_too s = 0" "nb_fr s = []" "nb_fro s = 0" and "nb_round ev s = (e, s')"
  shows "bl_round ev (bl_of s) = (e, bl_of s') \<and> nb_to s' = [] \<and> nb_too s' = 0 \<and> nb_fr s' = [] \<and> nb_fro s' = 0"
proof -
  obtain a b k l where ev: "ev_stdin ev = Read_bytes a" "ev_sock ev = Read_bytes b" "ev_stdout ev = Written k" "ev_send ev = Written l"
    "k \<ge> MAXLINE" "l \<ge> MAXLINE" "\<not> (ev_stdin_ready ev \<and> ev_sock_ready ev)" using assms(1) unfolding whole_def by blast
  have m: "length (take MAXLINE a) \<le> l" "length (take MAXLINE b) \<le> k" using ev(5,6) by simp_all
  consider "ev_stdin_ready ev" "\<not> ev_sock_ready ev" "\<not> nb_eof s" | "ev_sock_ready ev" "\<not> ev_stdin_ready ev"
    | "\<not> ev_sock_ready ev" "\<not> ev_stdin_ready ev \<or> nb_eof s" using ev(7) by blast
  then show ?thesis
  proof cases
    case 1
    show ?thesis
    proof (cases "a = []")
      case True
      then show ?thesis using 1 assms(2-6) ev(1)
        by (auto simp: nb_round_def nb_select_def nb_stdin_def nb_shutdown_def bl_round_def bl_stdin_def bl_of_def Let_def)
    next
      case False
      let ?s1 = "s\<lparr>nb_to := take MAXLINE a, nb_read := nb_read s @ take MAXLINE a\<rparr>"
      have "nb_round ev s = nb_send (Written l) ?s1"
        using False 1 assms(2-5) ev(1,4) by (simp add: nb_round_def nb_select_def nb_stdin_def Let_def)
      also have "\<dots> = (None, ?s1\<lparr>nb_sent := nb_sent s @ take MAXLINE a, nb_to := [], nb_too := 0\<rparr>)"
        using nb_send_whole [of ?s1 l] False 1(3) assms(3) m(1) by simp
      finally show ?thesis using assms(2-6) 1 False ev(1,4) by (auto simp: bl_round_def bl_stdin_def bl_of_def Let_def)
    qed
  next
    case 2
    show ?thesis
    proof (cases "b = []")
      case True
      then show ?thesis using 2 assms(2-6) ev(2)
        by (auto simp: nb_round_def nb_select_def nb_socket_def bl_round_def bl_socket_def bl_of_def Let_def)
    next
      case False
      let ?s1 = "s\<lparr>nb_fr := take MAXLINE b, nb_got := nb_got s @ take MAXLINE b\<rparr>"
      have "nb_round ev s = (case nb_stdout (Written k) ?s1 of (Some e, s3) \<Rightarrow> (Some e, s3) | (None, s3) \<Rightarrow> (None, s3))"
        using False 2 assms(2-5) ev(2,3) by (simp add: nb_round_def nb_select_def nb_socket_def Let_def split: prod.split option.split)
      also have "\<dots> = (None, ?s1\<lparr>nb_shown := nb_shown s @ take MAXLINE b, nb_fr := [], nb_fro := 0\<rparr>)"
        using nb_stdout_whole [of ?s1 k] False assms(5) m(2) by simp
      finally show ?thesis using assms(2-6) 2 False ev(2,3,5) m(2) by (auto simp: min_absorb2 bl_round_def bl_socket_def bl_of_def Let_def)
    qed
  next
    case 3
    then show ?thesis using assms(2-6) by (auto simp: nb_round_def nb_select_def bl_round_def bl_of_def)
  qed
qed

text \<open>
  C31: In rounds in which no call is partial or in vain, and the standard input and the socket are never
  both ready for reading, the nonblocking client does round by round what the blocking client does, and
  ends as it does; its buffers are empty after each round. (With both ready the clients differ: one
  reads the standard input first, the other the socket.)
\<close>

theorem nonblocking_equals_blocking:
  assumes "\<forall>ev \<in> set evs. whole ev" and "nb_rounds evs nb_start = (e, s)"
  shows "bl_rounds evs (bl_of nb_start) = (e, bl_of s) \<and> nb_sent s = nb_read s \<and> nb_shown s = nb_got s"
proof -
  have "bl_rounds evs (bl_of s0) = (e, bl_of s) \<and> nb_to s = [] \<and> nb_fr s = []"
    if "nb_rounds evs s0 = (e, s)" "nb_to s0 = []" "nb_too s0 = 0" "nb_fr s0 = []" "nb_fro s0 = 0" for s0
    using assms(1) that
  proof (induction evs arbitrary: s0)
    case (Cons ev evs)
    obtain e1 s1 where r: "nb_round ev s0 = (e1, s1)" by fastforce
    have "whole ev" using Cons.prems(1) by simp
    from whole_round [OF this Cons.prems(3-6) r] show ?case using Cons r by (cases e1) auto
  qed simp
  from this [OF assms(2)] have run: "bl_rounds evs (bl_of nb_start) = (e, bl_of s)" "nb_to s = []" "nb_fr s = []"
    by (simp_all add: nb_start_def)
  moreover from nb_rounds_inv [OF nb_start_inv assms(2)] have "nb_inv s" by blast
  ultimately show ?thesis by (simp add: nb_inv_def relayed_def)
qed

theorem nonblocking_equals_blocking_witness:
  "\<exists>s. nb_rounds
      [\<lparr>ev_stdin_ready = True, ev_sock_ready = False, ev_stdout_ready = False, ev_send_ready = False,
         ev_stdin = Read_bytes ''ab'', ev_sock = Read_bytes [], ev_stdout = Written 4096, ev_send = Written 4096\<rparr>,
       \<lparr>ev_stdin_ready = False, ev_sock_ready = True, ev_stdout_ready = False, ev_send_ready = False,
         ev_stdin = Read_bytes [], ev_sock = Read_bytes ''c'', ev_stdout = Written 4096, ev_send = Written 4096\<rparr>] nb_start = (None, s)
    \<and> bl_rounds
      [\<lparr>ev_stdin_ready = True, ev_sock_ready = False, ev_stdout_ready = False, ev_send_ready = False,
         ev_stdin = Read_bytes ''ab'', ev_sock = Read_bytes [], ev_stdout = Written 4096, ev_send = Written 4096\<rparr>,
       \<lparr>ev_stdin_ready = False, ev_sock_ready = True, ev_stdout_ready = False, ev_send_ready = False,
         ev_stdin = Read_bytes [], ev_sock = Read_bytes ''c'', ev_stdout = Written 4096, ev_send = Written 4096\<rparr>] (bl_of nb_start)
      = (None, \<lparr>bl_eof = False, bl_read = ''ab'', bl_sent = ''ab'', bl_got = ''c'', bl_shown = ''c'', bl_fins = 0\<rparr>)"
proof -
  let ?evs = "[\<lparr>ev_stdin_ready = True, ev_sock_ready = False, ev_stdout_ready = False, ev_send_ready = False,
       ev_stdin = Read_bytes ''ab'', ev_sock = Read_bytes [], ev_stdout = Written 4096, ev_send = Written 4096\<rparr>,
     \<lparr>ev_stdin_ready = False, ev_sock_ready = True, ev_stdout_ready = False, ev_send_ready = False,
       ev_stdin = Read_bytes [], ev_sock = Read_bytes ''c'', ev_stdout = Written 4096, ev_send = Written 4096\<rparr>]"
  let ?s = "nb_start\<lparr>nb_read := ''ab'', nb_sent := ''ab'', nb_got := ''c'', nb_shown := ''c''\<rparr>"
  have run: "nb_rounds ?evs nb_start = (None, ?s)"
    by (simp add: nb_round_def nb_select_def nb_stdin_def nb_socket_def nb_send_def nb_stdout_def nb_start_def Let_def)
  from nonblocking_equals_blocking [OF _ run] have "bl_rounds ?evs (bl_of nb_start) = (None, bl_of ?s)" by (simp add: whole_def)
  with run show ?thesis by (simp add: bl_of_def nb_start_def)
qed

theorem nonblocking_client_relays_witness:
  "\<exists>e s. nb_rounds [\<lparr>ev_stdin_ready = True, ev_sock_ready = False, ev_stdout_ready = False, ev_send_ready = False,
     ev_stdin = Read_bytes ''ab'', ev_sock = Read_bytes [], ev_stdout = Write_again, ev_send = Written 1\<rparr>] nb_start = (e, s)
    \<and> nb_sent s @ drop (nb_too s) (nb_to s) = ''ab'' \<and> nb_sent s = ''a''"
proof -
  let ?ev = "\<lparr>ev_stdin_ready = True, ev_sock_ready = False, ev_stdout_ready = False, ev_send_ready = False,
     ev_stdin = Read_bytes ''ab'', ev_sock = Read_bytes [], ev_stdout = Write_again, ev_send = Written 1\<rparr>"
  obtain e s where r: "nb_rounds [?ev] nb_start = (e, s)" by fastforce
  have "nb_read s = ''ab''" "nb_sent s = ''a''"
    using r by (auto simp: nb_round_def nb_select_def nb_stdin_def nb_send_def nb_start_def Let_def)
  with nonblocking_client_relays [OF r] r show ?thesis by auto
qed

end
