(* ===== verification/Unp_Web.thy ===== *)
theory Unp_Web
  imports Prelude
begin

text \<open>
  The web client of UNIX.Network.Programming/unpv13e/nonblock (web.c, start_connect.c, write_get_cmd.c):
  it fetches up to 20 files over nonblocking connections, at most \<open>maxnconn\<close> at a time. The results of
  the calls are arguments; what the servers send is only counted, as in the program.
\<close>

subsection \<open>Files and their flags\<close>

text \<open>\<open>f_flags\<close>: zero, F_CONNECTING, F_READING or F_DONE, in the order in which a file goes through them.\<close>

datatype f_flag = F_NONE | F_CONNECTING | F_READING | F_DONE

fun flag_value :: "f_flag \<Rightarrow> nat" where
  "flag_value F_NONE = 0"
| "flag_value F_CONNECTING = 1"
| "flag_value F_READING = 2"
| "flag_value F_DONE = 4"

instantiation f_flag :: linorder
begin

definition less_eq_f_flag :: "f_flag \<Rightarrow> f_flag \<Rightarrow> bool" where
  "less_eq_f_flag a b \<longleftrightarrow> flag_value a \<le> flag_value b"

definition less_f_flag :: "f_flag \<Rightarrow> f_flag \<Rightarrow> bool" where
  "less_f_flag a b \<longleftrightarrow> flag_value a < flag_value b"

instance
proof
  fix a b c :: f_flag
  show "a < b \<longleftrightarrow> a \<le> b \<and> \<not> b \<le> a" by (auto simp: less_eq_f_flag_def less_f_flag_def)
  show "a \<le> a" by (simp add: less_eq_f_flag_def)
  show "a \<le> b \<Longrightarrow> b \<le> c \<Longrightarrow> a \<le> c" by (simp add: less_eq_f_flag_def)
  show "a \<le> b \<Longrightarrow> b \<le> a \<Longrightarrow> a = b" by (cases a; cases b) (simp_all add: less_eq_f_flag_def)
  show "a \<le> b \<or> b \<le> a" by (auto simp: less_eq_f_flag_def)
qed

end

lemma flag_order [simp]:
  "F_NONE \<le> f" "f \<le> F_DONE" "F_READING \<le> f \<longleftrightarrow> f = F_READING \<or> f = F_DONE" "F_DONE \<le> f \<longleftrightarrow> f = F_DONE"
  "F_CONNECTING \<le> f \<longleftrightarrow> f \<noteq> F_NONE"
  by (cases f; simp add: less_eq_f_flag_def)+

record wfile =
  f_name :: bytes
  f_fd :: nat
  f_flags :: f_flag

abbreviation (input) MAXFILES :: nat where "MAXFILES \<equiv> 20"
abbreviation (input) MAXLINE :: nat where "MAXLINE \<equiv> 4096"
abbreviation (input) EINPROGRESS :: int where "EINPROGRESS \<equiv> 115"

text \<open>The globals, the open descriptors, the commands written with the number of their file, and the files whose connection failed.\<close>

record web =
  wb_file :: "wfile list"
  wb_nconn :: int
  wb_nlefttoconn :: int
  wb_nlefttoread :: int
  wb_maxfd :: int
  wb_rset :: "nat set"
  wb_wset :: "nat set"
  wb_open :: "nat list"
  wb_sent :: "(nat \<times> bytes) list"
  wb_failed :: "nat list"

definition set_file :: "nat \<Rightarrow> (wfile \<Rightarrow> wfile) \<Rightarrow> web \<Rightarrow> web" where
  "set_file i f s = s\<lparr>wb_file := (wb_file s)[i := f (wb_file s ! i)]\<rparr>"

text \<open>The calls: the result of \<open>connect\<close> (0 or an error number) and whether \<open>Writen\<close> succeeds, by the number of the file.\<close>

record web_calls =
  wc_connect :: "nat \<Rightarrow> int"
  wc_writen :: "nat \<Rightarrow> bool"

text \<open>The lowest descriptor that is not open.\<close>

definition lowest_free :: "nat list \<Rightarrow> nat" where
  "lowest_free fds = hd (filter (\<lambda>n. n \<notin> set fds) [3..<4 + length fds])"

subsection \<open>Connecting\<close>

definition GET_CMD :: "bytes \<Rightarrow> bytes" where
  "GET_CMD name = ''GET '' @ before CHR 0x00 name @ '' HTTP/1.0'' @ crlf2"

text \<open>\<open>snprintf\<close> returns the length of the whole command, also when it does not fit in \<open>line\<close>.\<close>

definition write_get_cmd :: "web_calls \<Rightarrow> nat \<Rightarrow> web \<Rightarrow> bytes + web" where
  "write_get_cmd c i s =
     (let f = wb_file s ! i; cmd = GET_CMD (f_name f) in
      if length cmd \<ge> MAXLINE then Inl ''writes what follows line''
      else if \<not> wc_writen c i then Inl ''writen error''
      else let s1 = set_file i (\<lambda>f. f\<lparr>f_flags := F_READING\<rparr>) s in
        Inr (s1\<lparr>wb_sent := wb_sent s1 @ [(i, cmd)], wb_rset := insert (f_fd f) (wb_rset s1),
               wb_maxfd := max (wb_maxfd s1) (int (f_fd f))\<rparr>))"

definition start_connect :: "web_calls \<Rightarrow> nat \<Rightarrow> web \<Rightarrow> bytes + web" where
  "start_connect c i s =
     (let fd = lowest_free (wb_open s);
          s1 = (set_file i (\<lambda>f. f\<lparr>f_fd := fd\<rparr>) s)\<lparr>wb_open := fd # wb_open s\<rparr> in
      if wc_connect c i = 0 then write_get_cmd c i s1
      else if wc_connect c i \<noteq> EINPROGRESS then Inl ''nonblocking connect error''
      else Inr ((set_file i (\<lambda>f. f\<lparr>f_flags := F_CONNECTING\<rparr>) s1)\<lparr>wb_rset := insert fd (wb_rset s1), wb_wset := insert fd (wb_wset s1),
             wb_maxfd := max (wb_maxfd s1) (int fd)\<rparr>))"

definition find_unconnected :: "web \<Rightarrow> nat option" where
  "find_unconnected s =
     (case filter (\<lambda>i. f_flags (wb_file s ! i) = F_NONE) [0..<length (wb_file s)] of [] \<Rightarrow> None | i # _ \<Rightarrow> Some i)"

lemma write_get_cmd_counts:
  "write_get_cmd c i s = Inr s' \<Longrightarrow> wb_nconn s' = wb_nconn s \<and> wb_nlefttoconn s' = wb_nlefttoconn s \<and> wb_nlefttoread s' = wb_nlefttoread s"
  by (auto simp: write_get_cmd_def set_file_def Let_def split: if_splits)

lemma start_connect_counts:
  "start_connect c i s = Inr s' \<Longrightarrow> wb_nconn s' = wb_nconn s \<and> wb_nlefttoconn s' = wb_nlefttoconn s \<and> wb_nlefttoread s' = wb_nlefttoread s"
  by (auto simp: start_connect_def set_file_def Let_def dest!: write_get_cmd_counts split: if_splits)

function web_connect :: "int \<Rightarrow> web_calls \<Rightarrow> web \<Rightarrow> bytes + web" where
  "web_connect maxnconn c s =
     (if wb_nconn s < maxnconn \<and> wb_nlefttoconn s > 0 then
        (case find_unconnected s of
           None \<Rightarrow> Inl ''nlefttoconn but nothing found''
         | Some i \<Rightarrow>
             (case start_connect c i s of
                Inl m \<Rightarrow> Inl m
              | Inr s1 \<Rightarrow> web_connect maxnconn c (s1\<lparr>wb_nconn := wb_nconn s1 + 1, wb_nlefttoconn := wb_nlefttoconn s1 - 1\<rparr>)))
      else Inr s)"
  by pat_completeness auto

termination
  by (relation "measure (\<lambda>(_, _, s). nat (wb_nlefttoconn s))") (auto dest: start_connect_counts)

declare web_connect.simps [simp del]

subsection \<open>Reading\<close>

text \<open>A return of \<open>select\<close>: the sets, the pending errors of the sockets and what \<open>read\<close> returns.\<close>

record web_event =
  we_rs :: "nat set"
  we_ws :: "nat set"
  we_error :: "nat \<Rightarrow> int"
  we_read :: "nat \<Rightarrow> int"

definition web_file :: "web_calls \<Rightarrow> web_event \<Rightarrow> nat \<Rightarrow> web \<Rightarrow> bytes + web" where
  "web_file c ev i s =
     (let f = wb_file s ! i; fd = f_fd f in
      if f_flags f = F_NONE \<or> f_flags f = F_DONE then Inr s
      else if f_flags f = F_CONNECTING \<and> (fd \<in> we_rs ev \<or> fd \<in> we_ws ev) then
        let s1 = (if we_error ev fd \<noteq> 0 then s\<lparr>wb_failed := wb_failed s @ [i]\<rparr> else s)
        in write_get_cmd c i (s1\<lparr>wb_wset := wb_wset s1 - {fd}\<rparr>)
      else if f_flags f = F_READING \<and> fd \<in> we_rs ev then
        (if we_read ev fd < 0 then Inl ''read error''
         else if we_read ev fd = 0 then
           Inr ((set_file i (\<lambda>f. f\<lparr>f_flags := F_DONE\<rparr>) s)\<lparr>wb_open := remove1 fd (wb_open s), wb_rset := wb_rset s - {fd},
                  wb_nconn := wb_nconn s - 1, wb_nlefttoread := wb_nlefttoread s - 1\<rparr>)
         else Inr s)
      else Inr s)"

fun web_files :: "web_calls \<Rightarrow> web_event \<Rightarrow> nat list \<Rightarrow> web \<Rightarrow> bytes + web" where
  "web_files c ev [] s = Inr s"
| "web_files c ev (i # is) s = (case web_file c ev i s of Inl m \<Rightarrow> Inl m | Inr s1 \<Rightarrow> web_files c ev is s1)"

text \<open>\<open>select\<close> reports descriptors of the sets it is given.\<close>

definition web_select :: "web_calls \<Rightarrow> web_event \<Rightarrow> web \<Rightarrow> bytes + web" where
  "web_select c ev s =
     web_files c (ev\<lparr>we_rs := we_rs ev \<inter> wb_rset s, we_ws := we_ws ev \<inter> wb_wset s\<rparr>) [0..<length (wb_file s)] s"

text \<open>The main loop over the returns of \<open>select\<close> to come; \<open>True\<close> when the program is done.\<close>

fun web_loop :: "int \<Rightarrow> web_calls \<Rightarrow> web_event list \<Rightarrow> web \<Rightarrow> bytes + bool \<times> web" where
  "web_loop maxnconn c evs s =
     (if wb_nlefttoread s > 0 then
        (case web_connect maxnconn c s of
           Inl m \<Rightarrow> Inl m
         | Inr s1 \<Rightarrow>
             (case evs of
                [] \<Rightarrow> Inr (False, s1)
              | ev # evs' \<Rightarrow> (case web_select c ev s1 of Inl m \<Rightarrow> Inl m | Inr s2 \<Rightarrow> web_loop maxnconn c evs' s2)))
      else Inr (True, s))"

definition web_start :: "bytes list \<Rightarrow> web" where
  "web_start names =
     (let fs = map (\<lambda>n. \<lparr>f_name = n, f_fd = 0, f_flags = F_NONE\<rparr>) (take MAXFILES names) in
      \<lparr>wb_file = fs, wb_nconn = 0, wb_nlefttoconn = int (length fs), wb_nlefttoread = int (length fs), wb_maxfd = -1,
       wb_rset = {}, wb_wset = {}, wb_open = [], wb_sent = [], wb_failed = []\<rparr>)"

definition web_main :: "bytes list \<Rightarrow> int \<Rightarrow> web_calls \<Rightarrow> web_event list \<Rightarrow> bytes + bool \<times> web" where
  "web_main names maxnconn c evs = web_loop maxnconn c evs (web_start names)"

declare web_loop.simps [simp del]


subsection \<open>The invariant\<close>

text \<open>The files that are being connected, and those that are connected or being connected.\<close>

definition connecting :: "wfile list \<Rightarrow> nat set" where
  "connecting fs = {i. i < length fs \<and> f_flags (fs ! i) = F_CONNECTING}"

definition active :: "wfile list \<Rightarrow> nat set" where
  "active fs = {i. i < length fs \<and> (f_flags (fs ! i) = F_CONNECTING \<or> f_flags (fs ! i) = F_READING)}"

abbreviation fd_of :: "wfile list \<Rightarrow> nat \<Rightarrow> nat" where "fd_of fs i \<equiv> f_fd (fs ! i)"

text \<open>The open descriptors are those of the active files, one each, and \<open>select\<close> watches exactly these.\<close>

definition fds_ok :: "wfile list \<Rightarrow> nat list \<Rightarrow> nat set \<Rightarrow> nat set \<Rightarrow> bool" where
  "fds_ok fs fds rs ws \<longleftrightarrow> inj_on (fd_of fs) (active fs) \<and> distinct fds \<and> set fds = fd_of fs ` active fs
     \<and> rs = fd_of fs ` active fs \<and> ws = fd_of fs ` connecting fs"

text \<open>Every file from F_READING on has been asked for once, and no other.\<close>

definition asked :: "wfile list \<Rightarrow> (nat \<times> bytes) list \<Rightarrow> bool" where
  "asked fs sent \<longleftrightarrow> distinct (map fst sent) \<and> fst ` set sent = {i. i < length fs \<and> F_READING \<le> f_flags (fs ! i)}
     \<and> (\<forall>p \<in> set sent. snd p = GET_CMD (f_name (fs ! fst p)))"

definition tally :: "(f_flag \<Rightarrow> bool) \<Rightarrow> wfile list \<Rightarrow> int" where
  "tally P fs = how_many (\<lambda>f. P (f_flags f)) fs"

definition counted :: "web \<Rightarrow> bool" where
  "counted s \<longleftrightarrow> wb_nconn s = tally (\<lambda>f. f = F_CONNECTING \<or> f = F_READING) (wb_file s)
     \<and> wb_nlefttoconn s = tally (\<lambda>f. f = F_NONE) (wb_file s) \<and> wb_nlefttoread s = tally (\<lambda>f. f \<noteq> F_DONE) (wb_file s)"

definition web_ok :: "bytes list \<Rightarrow> web \<Rightarrow> bool" where
  "web_ok names s \<longleftrightarrow> map f_name (wb_file s) = names \<and> fds_ok (wb_file s) (wb_open s) (wb_rset s) (wb_wset s)
     \<and> asked (wb_file s) (wb_sent s)"

lemma tally_simps [simp]: "tally P [] = 0" "tally P (f # fs) = (if P (f_flags f) then 1 else 0) + tally P fs"
  by (simp_all add: tally_def)

lemma tally_update:
  "i < length fs \<Longrightarrow> tally P (fs[i := f]) = tally P fs - (if P (f_flags (fs ! i)) then 1 else 0) + (if P (f_flags f) then 1 else 0)"
  by (simp add: tally_def how_many_update)

lemma tally_pos: "0 < tally P fs \<longleftrightarrow> (\<exists>i < length fs. P (f_flags (fs ! i)))"
  by (simp add: tally_def how_many_pos)

lemma active_update:
  "i < length fs \<Longrightarrow> active (fs[i := f]) = (if f_flags f = F_CONNECTING \<or> f_flags f = F_READING then insert i (active fs) else active fs - {i})"
  "i < length fs \<Longrightarrow> connecting (fs[i := f]) = (if f_flags f = F_CONNECTING then insert i (connecting fs) else connecting fs - {i})"
  by (auto simp: active_def connecting_def nth_list_update)

lemma connecting_active: "connecting fs \<subseteq> active fs"
  by (auto simp: active_def connecting_def)

lemma fd_update:
  assumes "i \<notin> A"
  shows "fd_of (fs[i := f]) ` A = fd_of fs ` A" and "inj_on (fd_of (fs[i := f])) A = inj_on (fd_of fs) A"
proof -
  have "\<And>x. x \<in> A \<Longrightarrow> fd_of (fs[i := f]) x = fd_of fs x" using assms by (metis nth_list_update_neq)
  then show "fd_of (fs[i := f]) ` A = fd_of fs ` A" "inj_on (fd_of (fs[i := f])) A = inj_on (fd_of fs) A"
    by (simp_all cong: image_cong inj_on_cong)
qed

lemma lowest_free_fresh: "lowest_free fds \<notin> set fds"
proof -
  have "card (set fds \<inter> {3..<4 + length fds}) \<le> length fds"
    by (meson card_length card_mono Int_lower1 finite_set le_trans)
  then have "\<not> {3..<4 + length fds} \<subseteq> set fds" using card_mono [of "set fds \<inter> {3..<4 + length fds}" "{3..<4 + length fds}"] by auto
  then have "filter (\<lambda>n. n \<notin> set fds) [3..<4 + length fds] \<noteq> []" by (auto simp: filter_empty_conv)
  from hd_in_set [OF this] show ?thesis by (simp add: lowest_free_def)
qed

text \<open>The four ways in which a file goes on.\<close>

lemma fds_ok_opened:
  assumes "fds_ok fs fds rs ws" and "i < length fs" and "f_flags (fs ! i) = F_NONE" and "fd \<notin> set fds" and "f_fd f = fd"
    and "f_flags f = F_CONNECTING \<or> f_flags f = F_READING"
  shows "fds_ok (fs[i := f]) (fd # fds) (insert fd rs) (if f_flags f = F_CONNECTING then insert fd ws else ws)"
proof -
  have i: "i \<notin> active fs" "i \<notin> connecting fs" using assms(3) by (simp_all add: active_def connecting_def)
  have c: "connecting fs - {i} = connecting fs" using i by blast
  show ?thesis using assms i
    by (auto simp: fds_ok_def active_update fd_update c)
qed

lemma fds_ok_connected:
  assumes "fds_ok fs fds rs ws" and "i < length fs" and "f_flags (fs ! i) = F_CONNECTING" and "f_fd f = fd_of fs i" and "f_flags f = F_READING"
  shows "fds_ok (fs[i := f]) fds (insert (fd_of fs i) rs) (ws - {fd_of fs i})"
proof -
  have i: "i \<in> active fs" "i \<in> connecting fs" using assms(2,3) by (simp_all add: active_def connecting_def)
  have same: "fd_of (fs[i := f]) = fd_of fs" using assms(2,4) by (auto simp: nth_list_update fun_eq_iff)
  have "connecting fs - {i} \<subseteq> active fs" using connecting_active [of fs] by blast
  then have "fd_of fs ` (connecting fs - {i}) = fd_of fs ` connecting fs - {fd_of fs i}"
    using assms(1) i connecting_active [of fs] inj_on_image_set_diff [of "fd_of fs" "active fs" "connecting fs" "{i}"]
    by (simp add: fds_ok_def)
  then show ?thesis using assms(1,2,5) i unfolding fds_ok_def same by (auto simp: active_update insert_absorb)
qed

lemma fds_ok_done:
  assumes "fds_ok fs fds rs ws" and "i < length fs" and "f_flags (fs ! i) = F_READING" and "f_fd f = fd_of fs i" and "f_flags f = F_DONE"
  shows "fds_ok (fs[i := f]) (remove1 (fd_of fs i) fds) (rs - {fd_of fs i}) ws"
proof -
  have i: "i \<in> active fs" "i \<notin> connecting fs" using assms(2,3) by (simp_all add: active_def connecting_def)
  have same: "fd_of (fs[i := f]) = fd_of fs" using assms(2,4) by (auto simp: nth_list_update fun_eq_iff)
  have "fd_of fs ` (active fs - {i}) = fd_of fs ` active fs - {fd_of fs i}"
    using assms(1) i inj_on_image_set_diff [of "fd_of fs" "active fs" "active fs" "{i}"] by (simp add: fds_ok_def)
  moreover have "connecting fs - {i} = connecting fs" using i by blast
  ultimately show ?thesis using assms(1,2,5) i unfolding fds_ok_def same by (auto simp: active_update intro: inj_on_subset)
qed


lemma asked_get:
  assumes "asked fs sent" and "i < length fs" and "f_flags (fs ! i) = F_NONE \<or> f_flags (fs ! i) = F_CONNECTING"
    and "f_name f = f_name (fs ! i)" and "f_flags f = F_READING"
  shows "asked (fs[i := f]) (sent @ [(i, GET_CMD (f_name f))])"
proof -
  have "i \<notin> fst ` set sent" using assms(1,3) by (auto simp: asked_def)
  moreover have "\<And>j. j < length fs \<Longrightarrow> f_name (fs[i := f] ! j) = f_name (fs ! j)" using assms(2,4) by (auto simp: nth_list_update)
  moreover have "\<And>p. p \<in> set sent \<Longrightarrow> fst p < length fs" using assms(1) by (auto simp: asked_def image_iff set_eq_iff)
  ultimately show ?thesis using assms by (auto simp: asked_def nth_list_update)
qed

lemma asked_same:
  assumes "asked fs sent" and "i < length fs" and "F_READING \<le> f_flags f \<longleftrightarrow> F_READING \<le> f_flags (fs ! i)" and "f_name f = f_name (fs ! i)"
  shows "asked (fs[i := f]) sent"
proof -
  have "\<And>j. j < length fs \<Longrightarrow> f_name (fs[i := f] ! j) = f_name (fs ! j)" using assms(2,4) by (auto simp: nth_list_update)
  moreover have "\<And>p. p \<in> set sent \<Longrightarrow> fst p < length fs" using assms(1) by (auto simp: asked_def image_iff set_eq_iff)
  moreover have "{j. j < length fs \<and> F_READING \<le> f_flags (fs[i := f] ! j)} = {j. j < length fs \<and> F_READING \<le> f_flags (fs ! j)}"
    using assms(2,3) by (auto simp: nth_list_update)
  ultimately show ?thesis using assms(1) by (simp add: asked_def)
qed

lemma map_name_update: "i < length fs \<Longrightarrow> f_name f = f_name (fs ! i) \<Longrightarrow> map f_name (fs[i := f]) = map f_name fs"
  by (simp add: map_update) (metis list_update_id nth_map map_update)

lemma start_connect_ok:
  assumes "web_ok names s" and "i < length (wb_file s)" and "f_flags (wb_file s ! i) = F_NONE" and "start_connect c i s = Inr s'"
  shows "web_ok names s' \<and> (\<exists>f. wb_file s' = (wb_file s)[i := f] \<and> (f_flags f = F_CONNECTING \<or> f_flags f = F_READING))"
proof -
  let ?fs = "wb_file s"
  define fd where "fd = lowest_free (wb_open s)"
  have new: "fd \<notin> set (wb_open s)" by (simp add: fd_def lowest_free_fresh)
  note ok = assms(1) [unfolded web_ok_def]
  have r: "(wc_connect c i = 0 \<and> (\<exists>f. f_name f = f_name (?fs ! i) \<and> f_fd f = fd \<and> f_flags f = F_READING \<and> wb_file s' = ?fs[i := f]
        \<and> wb_open s' = fd # wb_open s \<and> wb_rset s' = insert fd (wb_rset s) \<and> wb_wset s' = wb_wset s
        \<and> wb_sent s' = wb_sent s @ [(i, GET_CMD (f_name f))]))
    \<or> (\<exists>f. f_name f = f_name (?fs ! i) \<and> f_fd f = fd \<and> f_flags f = F_CONNECTING \<and> wb_file s' = ?fs[i := f]
        \<and> wb_open s' = fd # wb_open s \<and> wb_rset s' = insert fd (wb_rset s) \<and> wb_wset s' = insert fd (wb_wset s) \<and> wb_sent s' = wb_sent s)"
  proof (cases "wc_connect c i = 0")
    case True
    then show ?thesis using assms(2,4)
      by (intro disjI1 conjI exI [of _ "(?fs ! i)\<lparr>f_fd := fd, f_flags := F_READING\<rparr>"])
        (auto simp: start_connect_def write_get_cmd_def set_file_def fd_def [symmetric] Let_def split: if_splits)
  next
    case False
    then show ?thesis using assms(2,4)
      by (intro disjI2 conjI exI [of _ "(?fs ! i)\<lparr>f_fd := fd, f_flags := F_CONNECTING\<rparr>"])
        (auto simp: start_connect_def set_file_def fd_def [symmetric] Let_def split: if_splits)
  qed
  then show ?thesis
  proof (elim disjE conjE exE)
    fix f assume f: "f_name f = f_name (?fs ! i)" "f_fd f = fd" "f_flags f = F_READING" and s': "wb_file s' = ?fs[i := f]"
      "wb_open s' = fd # wb_open s" "wb_rset s' = insert fd (wb_rset s)" "wb_wset s' = wb_wset s"
      "wb_sent s' = wb_sent s @ [(i, GET_CMD (f_name f))]"
    have "fds_ok (?fs[i := f]) (fd # wb_open s) (insert fd (wb_rset s)) (wb_wset s)"
      using fds_ok_opened [OF _ assms(2,3) new f(2), of "wb_rset s" "wb_wset s"] ok f(3) by simp
    moreover have "asked (?fs[i := f]) (wb_sent s @ [(i, GET_CMD (f_name f))])" using asked_get [OF _ assms(2)] ok assms(3) f by blast
    ultimately show ?thesis using ok s' f(3) map_name_update [OF assms(2) f(1)] by (auto simp: web_ok_def)
  next
    fix f assume f: "f_name f = f_name (?fs ! i)" "f_fd f = fd" "f_flags f = F_CONNECTING" and s': "wb_file s' = ?fs[i := f]"
      "wb_open s' = fd # wb_open s" "wb_rset s' = insert fd (wb_rset s)" "wb_wset s' = insert fd (wb_wset s)" "wb_sent s' = wb_sent s"
    have "fds_ok (?fs[i := f]) (fd # wb_open s) (insert fd (wb_rset s)) (insert fd (wb_wset s))"
      using fds_ok_opened [OF _ assms(2,3) new f(2), of "wb_rset s" "wb_wset s"] ok f(3) by simp
    moreover have "asked (?fs[i := f]) (wb_sent s)" using asked_same [OF _ assms(2) _ f(1)] ok assms(3) f by simp
    ultimately show ?thesis using ok s' f(3) map_name_update [OF assms(2) f(1)] by (auto simp: web_ok_def)
  qed
qed

text \<open>Calls that succeed, and names that fit in \<open>line\<close> with the command.\<close>

definition healthy :: "bytes list \<Rightarrow> web_calls \<Rightarrow> bool" where
  "healthy names c \<longleftrightarrow> (\<forall>i. wc_connect c i = 0 \<or> wc_connect c i = EINPROGRESS) \<and> (\<forall>i. wc_writen c i) \<and> (\<forall>n \<in> set names. length n < 4000)"

lemma healthy_write:
  assumes "healthy names c" and "map f_name (wb_file s) = names" and "i < length (wb_file s)"
  shows "write_get_cmd c i s \<noteq> Inl m"
proof -
  have "f_name (wb_file s ! i) \<in> set names" using assms(2,3) by auto
  then have "length (f_name (wb_file s ! i)) < 4000" using assms(1) by (simp add: healthy_def)
  moreover have "length (before CHR 0x00 (f_name (wb_file s ! i))) \<le> length (f_name (wb_file s ! i))"
    by (simp add: before_def length_takeWhile_le)
  ultimately have "length (GET_CMD (f_name (wb_file s ! i))) < MAXLINE" by (simp add: GET_CMD_def)
  then show ?thesis using assms(1) by (simp add: write_get_cmd_def healthy_def Let_def)
qed

lemma healthy_connect:
  assumes "healthy names c" and "map f_name (wb_file s) = names" and "i < length (wb_file s)"
  shows "start_connect c i s \<noteq> Inl m"
proof -
  have "write_get_cmd c i ((set_file i (\<lambda>f. f\<lparr>f_fd := fd\<rparr>) s)\<lparr>wb_open := fds\<rparr>) \<noteq> Inl m" for fd fds
    using healthy_write [OF assms(1), of "(set_file i (\<lambda>f. f\<lparr>f_fd := fd\<rparr>) s)\<lparr>wb_open := fds\<rparr>" i m] assms(2,3)
      map_name_update [OF assms(3), of "(wb_file s ! i)\<lparr>f_fd := fd\<rparr>"] by (simp add: set_file_def)
  then show ?thesis using assms(1) by (auto simp: start_connect_def healthy_def Let_def)
qed

lemma find_unconnected_cases:
  "find_unconnected s = Some i \<Longrightarrow> i < length (wb_file s) \<and> f_flags (wb_file s ! i) = F_NONE"
  "find_unconnected s = None \<Longrightarrow> \<not> 0 < tally (\<lambda>f. f = F_NONE) (wb_file s)"
proof -
  let ?is = "filter (\<lambda>i. f_flags (wb_file s ! i) = F_NONE) [0..<length (wb_file s)]"
  show "i < length (wb_file s) \<and> f_flags (wb_file s ! i) = F_NONE" if "find_unconnected s = Some i"
  proof -
    have "i \<in> set ?is" using that by (cases ?is) (simp_all add: find_unconnected_def)
    then show ?thesis by simp
  qed
  assume "find_unconnected s = None"
  then have "?is = []" by (cases ?is) (simp_all add: find_unconnected_def)
  then show "\<not> 0 < tally (\<lambda>f. f = F_NONE) (wb_file s)" by (auto simp: tally_pos filter_empty_conv)
qed

text \<open>No file is left that the counters do not know of: the program never stops for that reason.\<close>

lemma web_connect_ok:
  assumes "web_ok names s" and "counted s" and "wb_nconn s \<le> maxnconn \<or> maxnconn \<le> 0 \<and> wb_nconn s = 0"
  shows "case web_connect maxnconn c s of Inl m \<Rightarrow> m \<noteq> ''nlefttoconn but nothing found'' \<and> \<not> healthy names c
    | Inr s' \<Rightarrow> web_ok names s' \<and> counted s' \<and> (wb_nconn s' \<le> maxnconn \<or> maxnconn \<le> 0 \<and> wb_nconn s' = 0)
        \<and> (maxnconn \<le> wb_nconn s' \<or> wb_nlefttoconn s' = 0)"
  using assms
proof (induction maxnconn c s rule: web_connect.induct)
  case (1 maxnconn c s)
  show ?case
  proof (cases "wb_nconn s < maxnconn \<and> wb_nlefttoconn s > 0")
    case False
    moreover have "0 \<le> wb_nlefttoconn s" using "1.prems"(2) by (simp add: counted_def tally_def how_many_def)
    ultimately show ?thesis using "1.prems" by (subst web_connect.simps) auto
  next
    case True
    then obtain i where i: "find_unconnected s = Some i"
      using find_unconnected_cases(2) [of s] "1.prems"(2) by (cases "find_unconnected s") (auto simp: counted_def)
    note f = find_unconnected_cases(1) [OF i]
    show ?thesis
    proof (cases "start_connect c i s")
      case (Inl m)
      then have "m \<noteq> ''nlefttoconn but nothing found''"
        by (auto simp: start_connect_def write_get_cmd_def Let_def split: if_splits)
      moreover have "\<not> healthy names c" using healthy_connect [of names c s i m] "1.prems"(1) f Inl by (auto simp: web_ok_def)
      ultimately show ?thesis using True i Inl by (subst web_connect.simps) simp
    next
      case (Inr s1)
      from start_connect_ok [OF "1.prems"(1)] f Inr obtain g where
        ok: "web_ok names s1" and g: "wb_file s1 = (wb_file s)[i := g]" "f_flags g = F_CONNECTING \<or> f_flags g = F_READING" by blast
      let ?s2 = "s1\<lparr>wb_nconn := wb_nconn s1 + 1, wb_nlefttoconn := wb_nlefttoconn s1 - 1\<rparr>"
      have "counted ?s2" using "1.prems"(2) f g start_connect_counts [OF Inr] by (auto simp: counted_def tally_update)
      moreover have "web_ok names ?s2" using ok by (simp add: web_ok_def)
      moreover have "wb_nconn ?s2 \<le> maxnconn" using start_connect_counts [OF Inr] True by simp
      ultimately show ?thesis using "1.IH" [OF True i Inr] True i Inr by (subst web_connect.simps) simp
    qed
  qed
qed


text \<open>A file in the loop over what \<open>select\<close> reported: it goes on or stays as it is, and the others are not touched.\<close>

lemma web_file_step:
  assumes "web_ok names s" and "counted s" and "i < length (wb_file s)" and "web_file c ev i s = Inr s'"
  shows "web_ok names s' \<and> counted s' \<and> wb_nconn s' \<le> wb_nconn s
    \<and> (\<exists>f. wb_file s' = (wb_file s)[i := f] \<and> f_fd f = fd_of (wb_file s) i \<and> f_flags (wb_file s ! i) \<le> f_flags f
        \<and> (i \<in> active (wb_file s) \<and> fd_of (wb_file s) i \<in> we_rs ev \<and> we_read ev (fd_of (wb_file s) i) = 0 \<longrightarrow> f_flags f \<noteq> f_flags (wb_file s ! i)))"
proof -
  let ?fs = "wb_file s" let ?fd = "fd_of (wb_file s) i"
  note ok = assms(1) [unfolded web_ok_def]
  note step = assms(4) [unfolded web_file_def Let_def]
  consider (gets) "f_flags (?fs ! i) = F_CONNECTING" "?fd \<in> we_rs ev \<or> ?fd \<in> we_ws ev"
    | (ends) "f_flags (?fs ! i) = F_READING" "?fd \<in> we_rs ev" "we_read ev ?fd = 0"
    | (stays) "s' = s" "\<not> (i \<in> active ?fs \<and> ?fd \<in> we_rs ev \<and> we_read ev ?fd = 0)"
    using step assms(3) by (cases "f_flags (?fs ! i)") (auto simp: active_def split: if_splits)
  then show ?thesis
  proof cases
    case gets
    define f where "f = (?fs ! i)\<lparr>f_flags := F_READING\<rparr>"
    have s': "wb_file s' = ?fs[i := f]" "wb_open s' = wb_open s" "wb_rset s' = insert ?fd (wb_rset s)" "wb_wset s' = wb_wset s - {?fd}"
      "wb_sent s' = wb_sent s @ [(i, GET_CMD (f_name f))]"
      "wb_nconn s' = wb_nconn s" "wb_nlefttoconn s' = wb_nlefttoconn s" "wb_nlefttoread s' = wb_nlefttoread s"
      using step gets by (auto simp: write_get_cmd_def set_file_def Let_def f_def split: if_splits)
    have "fds_ok (?fs[i := f]) (wb_open s) (insert ?fd (wb_rset s)) (wb_wset s - {?fd})"
      using ok fds_ok_connected [OF _ assms(3) gets(1), of "wb_open s" "wb_rset s" "wb_wset s" f] by (simp add: f_def)
    moreover have "asked (?fs[i := f]) (wb_sent s @ [(i, GET_CMD (f_name f))])"
      using ok asked_get [OF _ assms(3), of "wb_sent s" f] gets by (simp add: f_def)
    moreover have "counted s'" using assms(2,3) s' gets by (simp add: counted_def tally_update f_def)
    ultimately show ?thesis using ok s' gets map_name_update [OF assms(3), of f]
      by (auto simp: web_ok_def f_def intro!: exI [of _ f])
  next
    case ends
    define f where "f = (?fs ! i)\<lparr>f_flags := F_DONE\<rparr>"
    have s': "wb_file s' = ?fs[i := f]" "wb_open s' = remove1 ?fd (wb_open s)" "wb_rset s' = wb_rset s - {?fd}" "wb_wset s' = wb_wset s"
      "wb_sent s' = wb_sent s" "wb_nconn s' = wb_nconn s - 1" "wb_nlefttoconn s' = wb_nlefttoconn s" "wb_nlefttoread s' = wb_nlefttoread s - 1"
      using step ends by (auto simp: set_file_def f_def)
    have "fds_ok (?fs[i := f]) (remove1 ?fd (wb_open s)) (wb_rset s - {?fd}) (wb_wset s)"
      using ok fds_ok_done [OF _ assms(3) ends(1), of "wb_open s" "wb_rset s" "wb_wset s" f] by (simp add: f_def)
    moreover have "asked (?fs[i := f]) (wb_sent s)"
      using ok asked_same [OF _ assms(3), of "wb_sent s" f] ends by (simp add: f_def)
    moreover have "counted s'" using assms(2,3) s' ends by (simp add: counted_def tally_update f_def)
    ultimately show ?thesis using ok s' ends map_name_update [OF assms(3), of f]
      by (auto simp: web_ok_def f_def intro!: exI [of _ f])
  next
    case stays
    then show ?thesis using assms by (auto intro!: exI [of _ "?fs ! i"])
  qed
qed

text \<open>The steps that are left before every file is done.\<close>

definition work :: "wfile list \<Rightarrow> nat" where
  "work fs = sum_list (map (\<lambda>f. 4 - flag_value (f_flags f)) fs)"

lemma work_update:
  assumes "i < length fs" and "f_flags (fs ! i) \<le> f_flags f"
  shows "work (fs[i := f]) \<le> work fs" and "f_flags f \<noteq> f_flags (fs ! i) \<Longrightarrow> work (fs[i := f]) < work fs"
proof -
  let ?r = "\<lambda>f. 4 - flag_value (f_flags f)"
  have le: "?r f \<le> ?r (fs ! i)" using assms(2) by (simp add: less_eq_f_flag_def)
  have r: "work (fs[i := f]) + ?r (fs ! i) = work fs + ?r f"
    using assms(1) elem_le_sum_list [of i "map ?r fs"] by (simp add: work_def map_update sum_list_update)
  then show "work (fs[i := f]) \<le> work fs" using le by simp
  assume "f_flags f \<noteq> f_flags (fs ! i)"
  then have "?r f < ?r (fs ! i)" using assms(2) by (cases "f_flags f"; cases "f_flags (fs ! i)") (simp_all add: less_eq_f_flag_def)
  with r show "work (fs[i := f]) < work fs" by simp
qed

lemma work_0: "work fs = 0 \<longleftrightarrow> tally (\<lambda>f. f \<noteq> F_DONE) fs = 0"
proof -
  have "4 - flag_value f = 0 \<longleftrightarrow> f = F_DONE" for f by (cases f) simp_all
  then show ?thesis by (auto simp: work_def tally_def how_many_def filter_empty_conv)
qed

lemma web_files_step:
  assumes "web_ok names s" and "counted s" and "\<forall>i \<in> set is. i < length (wb_file s)" and "distinct is" and "web_files c ev is s = Inr s'"
  shows "web_ok names s' \<and> counted s' \<and> wb_nconn s' \<le> wb_nconn s \<and> work (wb_file s') \<le> work (wb_file s)
    \<and> ((\<exists>i \<in> set is. i \<in> active (wb_file s) \<and> fd_of (wb_file s) i \<in> we_rs ev \<and> we_read ev (fd_of (wb_file s) i) = 0)
       \<longrightarrow> work (wb_file s') < work (wb_file s))"
  using assms
proof (induction "is" arbitrary: s)
  case (Cons i "is")
  let ?go = "\<lambda>fs j. j \<in> active fs \<and> fd_of fs j \<in> we_rs ev \<and> we_read ev (fd_of fs j) = 0"
  from Cons.prems(5) obtain s1 where s1: "web_file c ev i s = Inr s1" "web_files c ev is s1 = Inr s'" by (auto split: sum.splits)
  have i: "i < length (wb_file s)" using Cons.prems(3) by simp
  from web_file_step [OF Cons.prems(1,2) i s1(1)] obtain f where
    ok: "web_ok names s1" "counted s1" "wb_nconn s1 \<le> wb_nconn s"
    and f: "wb_file s1 = (wb_file s)[i := f]" "f_flags (wb_file s ! i) \<le> f_flags f" "?go (wb_file s) i \<longrightarrow> f_flags f \<noteq> f_flags (wb_file s ! i)" by auto
  note w = work_update [OF i f(2), folded f(1)]
  have others: "?go (wb_file s1) j = ?go (wb_file s) j" if "j \<in> set is" for j
  proof -
    have "i \<noteq> j" using that Cons.prems(4) by auto
    then have "wb_file s1 ! j = wb_file s ! j" "length (wb_file s1) = length (wb_file s)" by (simp_all add: f(1))
    then show ?thesis by (simp add: active_def)
  qed
  have "\<forall>i \<in> set is. i < length (wb_file s1)" "distinct is" using Cons.prems(3,4) f(1) by simp_all
  from Cons.IH [OF ok(1,2) this s1(2)]
  have rest: "web_ok names s' \<and> counted s' \<and> wb_nconn s' \<le> wb_nconn s1 \<and> work (wb_file s') \<le> work (wb_file s1)"
    "(\<exists>j \<in> set is. ?go (wb_file s1) j) \<longrightarrow> work (wb_file s') < work (wb_file s1)" by simp_all
  have "work (wb_file s') < work (wb_file s)" if "\<exists>j \<in> set (i # is). ?go (wb_file s) j"
  proof (cases "?go (wb_file s) i")
    case True
    then show ?thesis using w(2) f(3) rest(1) by simp
  next
    case False
    then have "\<exists>j \<in> set is. ?go (wb_file s1) j" using that others by auto
    then show ?thesis using rest(2) w(1) by simp
  qed
  then show ?case using rest(1) w(1) ok(3) by simp
qed simp


lemma web_select_step:
  assumes "web_ok names s" and "counted s" and "web_select c ev s = Inr s'"
  shows "web_ok names s' \<and> counted s' \<and> wb_nconn s' \<le> wb_nconn s \<and> work (wb_file s') \<le> work (wb_file s)
    \<and> (0 < wb_nconn s \<and> we_rs ev = UNIV \<and> we_read ev = (\<lambda>_. 0) \<longrightarrow> work (wb_file s') < work (wb_file s))"
proof -
  let ?fs = "wb_file s" let ?ev = "ev\<lparr>we_rs := we_rs ev \<inter> wb_rset s, we_ws := we_ws ev \<inter> wb_wset s\<rparr>"
  have "\<exists>i \<in> set [0..<length ?fs]. i \<in> active ?fs \<and> fd_of ?fs i \<in> we_rs ?ev \<and> we_read ?ev (fd_of ?fs i) = 0"
    if "0 < wb_nconn s" "we_rs ev = UNIV" "we_read ev = (\<lambda>_. 0)"
  proof -
    from that(1) obtain i where i: "i < length ?fs" "i \<in> active ?fs"
      using assms(2) by (auto simp: counted_def tally_pos active_def)
    then have "fd_of ?fs i \<in> wb_rset s" using assms(1) by (auto simp: web_ok_def fds_ok_def)
    with i that show ?thesis by auto
  qed
  moreover have "\<forall>i \<in> set [0..<length ?fs]. i < length ?fs" "distinct [0..<length ?fs]" by simp_all
  ultimately show ?thesis using web_files_step [OF assms(1,2), of "[0..<length ?fs]" c ?ev s'] assms(3) by (simp add: web_select_def)
qed

subsection \<open>What it does\<close>

definition bounded :: "int \<Rightarrow> web \<Rightarrow> bool" where
  "bounded maxnconn s \<longleftrightarrow> wb_nconn s \<le> maxnconn \<or> maxnconn \<le> 0 \<and> wb_nconn s = 0"

lemma web_connect_work:
  assumes "web_connect maxnconn c s = Inr s'"
  shows "work (wb_file s') \<le> work (wb_file s) \<and> wb_nlefttoread s' = wb_nlefttoread s"
  using assms
proof (induction maxnconn c s rule: web_connect.induct)
  case (1 maxnconn c s)
  show ?case
  proof (cases "wb_nconn s < maxnconn \<and> wb_nlefttoconn s > 0")
    case True
    from "1.prems" True obtain i s1 where i: "find_unconnected s = Some i" and s1: "start_connect c i s = Inr s1"
      and rec: "web_connect maxnconn c (s1\<lparr>wb_nconn := wb_nconn s1 + 1, wb_nlefttoconn := wb_nlefttoconn s1 - 1\<rparr>) = Inr s'"
      by (subst (asm) web_connect.simps) (auto split: option.splits sum.splits)
    note f = find_unconnected_cases(1) [OF i]
    have "\<exists>g. wb_file s1 = (wb_file s)[i := g]"
      using s1 f by (auto simp: start_connect_def write_get_cmd_def set_file_def Let_def split: if_splits)
    then obtain g where "wb_file s1 = (wb_file s)[i := g]" by blast
    then have "work (wb_file s1) \<le> work (wb_file s)" "wb_nlefttoread s1 = wb_nlefttoread s"
      using work_update(1) [of i "wb_file s" g] f start_connect_counts [OF s1] by simp_all
    with "1.IH" [OF True i s1 rec] show ?thesis by simp
  next
    case False
    with "1.prems" show ?thesis by (subst (asm) web_connect.simps) auto
  qed
qed

lemma tally_split:
  "tally (\<lambda>f. f \<noteq> F_DONE) fs = tally (\<lambda>f. f = F_NONE) fs + tally (\<lambda>f. f = F_CONNECTING \<or> f = F_READING) fs"
proof (induction fs)
  case (Cons g fs)
  then show ?case by (cases "f_flags g") simp_all
qed simp

lemma web_file_message:
  assumes "web_ok names s" and "i < length (wb_file s)" and "web_file c ev i s = Inl m"
  shows "m \<noteq> ''nlefttoconn but nothing found'' \<and> \<not> (healthy names c \<and> (\<forall>fd. 0 \<le> we_read ev fd))"
proof -
  have "m \<noteq> ''nlefttoconn but nothing found''" using assms(3)
    by (auto simp: web_file_def write_get_cmd_def Let_def split: if_splits)
  moreover have "write_get_cmd c i (s\<lparr>wb_failed := l, wb_wset := w\<rparr>) \<noteq> Inl m" "write_get_cmd c i (s\<lparr>wb_wset := w\<rparr>) \<noteq> Inl m"
    if "healthy names c" for w l
    using healthy_write [OF that, of _ i m] assms(1,2) by (simp_all add: web_ok_def)
  ultimately show ?thesis using assms(3) by (auto simp: web_file_def Let_def not_le [symmetric] split: if_splits)
qed

lemma web_files_message:
  "web_ok names s \<Longrightarrow> counted s \<Longrightarrow> \<forall>i \<in> set is. i < length (wb_file s) \<Longrightarrow> web_files c ev is s = Inl m \<Longrightarrow>
    m \<noteq> ''nlefttoconn but nothing found'' \<and> \<not> (healthy names c \<and> (\<forall>fd. 0 \<le> we_read ev fd))"
proof (induction "is" arbitrary: s)
  case (Cons i "is")
  show ?case
  proof (cases "web_file c ev i s")
    case (Inl m')
    then show ?thesis using web_file_message [OF Cons.prems(1) _ Inl] Cons.prems(3,4) by simp
  next
    case (Inr s1)
    have i: "i < length (wb_file s)" using Cons.prems(3) by simp
    from web_file_step [OF Cons.prems(1,2) i Inr] have "web_ok names s1" "counted s1" "length (wb_file s1) = length (wb_file s)" by auto
    then show ?thesis using Cons.IH [of s1] Cons.prems(3,4) Inr by simp
  qed
qed simp

text \<open>A return of \<open>select\<close> in which every connection is ready and every server has sent all.\<close>

definition prompt :: "web_event \<Rightarrow> bool" where
  "prompt ev \<longleftrightarrow> we_rs ev = UNIV \<and> we_read ev = (\<lambda>_. 0)"

text \<open>The contract of the loop: what it keeps, and that it ends when the servers do.\<close>

lemma web_loop_spec:
  assumes "web_ok names s" and "counted s" and "bounded maxnconn s"
  shows "case web_loop maxnconn c evs s of
      Inl m \<Rightarrow> m \<noteq> ''nlefttoconn but nothing found'' \<and> \<not> (healthy names c \<and> (\<forall>ev \<in> set evs. \<forall>fd. 0 \<le> we_read ev fd))
    | Inr (finished, s') \<Rightarrow> web_ok names s' \<and> counted s' \<and> bounded maxnconn s' \<and> (finished \<longrightarrow> wb_nlefttoread s' = 0)
        \<and> (1 \<le> maxnconn \<and> work (wb_file s) \<le> length (filter prompt evs) \<longrightarrow> finished)"
  using assms
proof (induction maxnconn c evs s rule: web_loop.induct)
  case (1 maxnconn c evs s)
  show ?case
  proof (cases "0 < wb_nlefttoread s")
    case False
    moreover have "0 \<le> wb_nlefttoread s" using "1.prems"(2) by (simp add: counted_def tally_def how_many_def)
    ultimately show ?thesis using "1.prems" by (subst web_loop.simps) simp
  next
    case left: True
    show ?thesis
    proof (cases "web_connect maxnconn c s")
      case (Inl m)
      then show ?thesis using web_connect_ok [OF "1.prems"(1,2), of maxnconn c] "1.prems"(3) left
        by (subst web_loop.simps) (simp add: bounded_def)
    next
      case (Inr s1)
      have ok: "web_ok names s1" "counted s1" "bounded maxnconn s1" "maxnconn \<le> wb_nconn s1 \<or> wb_nlefttoconn s1 = 0"
        using web_connect_ok [OF "1.prems"(1,2), of maxnconn c] "1.prems"(3) Inr by (simp_all add: bounded_def)
      show ?thesis
      proof (cases evs)
        case Nil
        have "work (wb_file s) \<noteq> 0" using left "1.prems"(2) work_0 [of "wb_file s"] by (simp add: counted_def)
        then show ?thesis using left Inr Nil ok by (subst web_loop.simps) simp
      next
        case (Cons ev evs')
        have busy: "0 < wb_nconn s1" if "1 \<le> maxnconn"
          using that ok(2,4) left web_connect_work [OF Inr] tally_split [of "wb_file s1"] by (auto simp: counted_def)
        show ?thesis
        proof (cases "web_select c ev s1")
          case (Inl m)
          then have "m \<noteq> ''nlefttoconn but nothing found'' \<and> \<not> (healthy names c \<and> (\<forall>fd. 0 \<le> we_read ev fd))"
            using web_files_message [OF ok(1,2), of "[0..<length (wb_file s1)]" c
                "ev\<lparr>we_rs := we_rs ev \<inter> wb_rset s1, we_ws := we_ws ev \<inter> wb_wset s1\<rparr>" m] by (simp add: web_select_def)
          then show ?thesis using left Inr Cons Inl by (subst web_loop.simps) auto
        next
          case s2: (Inr s2)
          from web_select_step [OF ok(1,2) s2] have step: "web_ok names s2" "counted s2" "wb_nconn s2 \<le> wb_nconn s1"
            "work (wb_file s2) \<le> work (wb_file s1)" "0 < wb_nconn s1 \<and> prompt ev \<longrightarrow> work (wb_file s2) < work (wb_file s1)" by (auto simp: prompt_def)
          have "0 \<le> wb_nconn s2" using step(2) by (simp add: counted_def tally_def how_many_def)
          then have "bounded maxnconn s2" using ok(3) step(3) by (auto simp: bounded_def)
          note IH = "1.IH" [OF left Inr Cons s2 step(1,2) this]
          have "work (wb_file s2) \<le> length (filter prompt evs')"
            if "1 \<le> maxnconn" "work (wb_file s) \<le> length (filter prompt evs)"
            using that busy step(4,5) web_connect_work [OF Inr] Cons by (cases "prompt ev") auto
          then show ?thesis using IH left Inr Cons s2 by (subst web_loop.simps) (auto split: sum.splits)
        qed
      qed
    qed
  qed
qed

lemma web_start_ok: "web_ok (take MAXFILES names) (web_start names) \<and> counted (web_start names) \<and> bounded maxnconn (web_start names)"
proof -
  have "tally P (map (\<lambda>n. \<lparr>f_name = n, f_fd = 0, f_flags = F_NONE\<rparr>) ns) = (if P F_NONE then int (length ns) else 0)" for P ns
    by (induction ns) simp_all
  moreover have "active (map (\<lambda>n. \<lparr>f_name = n, f_fd = 0, f_flags = F_NONE\<rparr>) ns) = {}"
    "connecting (map (\<lambda>n. \<lparr>f_name = n, f_fd = 0, f_flags = F_NONE\<rparr>) ns) = {}" for ns
    by (auto simp: active_def connecting_def)
  ultimately show ?thesis
    by (auto simp: web_ok_def counted_def bounded_def web_start_def fds_ok_def asked_def o_def)
qed

lemma web_main_spec:
  "case web_main names maxnconn c evs of
      Inl m \<Rightarrow> m \<noteq> ''nlefttoconn but nothing found'' \<and> \<not> (healthy (take MAXFILES names) c \<and> (\<forall>ev \<in> set evs. \<forall>fd. 0 \<le> we_read ev fd))
    | Inr (finished, s') \<Rightarrow> web_ok (take MAXFILES names) s' \<and> counted s' \<and> bounded maxnconn s' \<and> (finished \<longrightarrow> wb_nlefttoread s' = 0)
        \<and> (1 \<le> maxnconn \<and> work (wb_file (web_start names)) \<le> length (filter prompt evs) \<longrightarrow> finished)"
  using web_loop_spec [of "take MAXFILES names" "web_start names" maxnconn c evs] web_start_ok [of names maxnconn]
  by (simp add: web_main_def)

text \<open>
  C30: Whatever \<open>select\<close> reports, however the calls end: at most \<open>maxnconn\<close> connections are open, each of a
  file of its own; \<open>select\<close> watches exactly these, for writing those that are not connected yet; every
  file is asked for at most once; the counters are exact, so that the search for a file to connect
  never fails.
\<close>

theorem web_client_bounded:
  "case web_main names maxnconn c evs of
      Inl m \<Rightarrow> m \<noteq> ''nlefttoconn but nothing found''
    | Inr (_, s) \<Rightarrow> length (wb_open s) = card (active (wb_file s)) \<and> int (length (wb_open s)) \<le> max 0 maxnconn
        \<and> distinct (wb_open s) \<and> set (wb_open s) = wb_rset s \<and> wb_rset s = fd_of (wb_file s) ` active (wb_file s)
        \<and> wb_wset s = fd_of (wb_file s) ` connecting (wb_file s) \<and> distinct (map fst (wb_sent s))"
proof (cases "web_main names maxnconn c evs")
  case (Inl m)
  then show ?thesis using web_main_spec [where names = names and maxnconn = maxnconn and c = c and evs = evs] by simp
next
  case (Inr r)
  obtain d s where r: "r = (d, s)" by fastforce
  have ok: "fds_ok (wb_file s) (wb_open s) (wb_rset s) (wb_wset s)" "asked (wb_file s) (wb_sent s)" "counted s" "bounded maxnconn s"
    using web_main_spec [where names = names and maxnconn = maxnconn and c = c and evs = evs] Inr r by (simp_all add: web_ok_def)
  have "card (active (wb_file s)) = card (set (wb_open s))" using ok(1) by (simp add: fds_ok_def card_image)
  also have "\<dots> = length (wb_open s)" by (rule distinct_card) (use ok(1) in \<open>simp add: fds_ok_def\<close>)
  finally have card: "card (active (wb_file s)) = length (wb_open s)" .
  moreover have "wb_nconn s = int (card (active (wb_file s)))"
    using ok(3) unfolding counted_def tally_def how_many_def active_def by (simp add: length_filter_conv_card)
  ultimately have "int (length (wb_open s)) \<le> max 0 maxnconn" using ok(4) by (auto simp: bounded_def)
  then show ?thesis using Inr r ok card by (simp add: fds_ok_def asked_def)
qed

text \<open>
  C29: When the calls succeed and no name is too long the program ends, as soon as \<open>select\<close> has often enough
  reported servers that are done: then every file has been asked for exactly once, with its own command,
  and nothing is left open. Files beyond the twentieth are not fetched.
\<close>

theorem web_client_fetches_all:
  assumes "1 \<le> maxnconn" and "healthy (take 20 names) c" and "\<forall>ev \<in> set evs. \<forall>fd. 0 \<le> we_read ev fd"
    and "80 \<le> length (filter prompt evs)"
  shows "\<exists>s. web_main names maxnconn c evs = Inr (True, s) \<and> distinct (map fst (wb_sent s))
    \<and> set (wb_sent s) = (\<lambda>i. (i, GET_CMD (names ! i))) ` {..<min 20 (length names)}
    \<and> wb_open s = [] \<and> wb_rset s = {} \<and> wb_wset s = {}"
proof -
  have "work (map (\<lambda>n. \<lparr>f_name = n, f_fd = 0, f_flags = F_NONE\<rparr>) ns) = 4 * length ns" for ns
    by (induction ns) (simp_all add: work_def)
  then have "work (wb_file (web_start names)) \<le> 80" by (simp add: web_start_def)
  then obtain s where s: "web_main names maxnconn c evs = Inr (True, s)" "web_ok (take 20 names) s" "counted s" "wb_nlefttoread s = 0"
    using web_main_spec [where names = names and maxnconn = maxnconn and c = c and evs = evs] assms by (cases "web_main names maxnconn c evs") auto
  have n: "length (wb_file s) = min 20 (length names)" "map f_name (wb_file s) = take 20 names"
    using s(2) by (auto simp: web_ok_def dest: arg_cong [of _ _ length])
  have "\<not> 0 < tally (\<lambda>f. f \<noteq> F_DONE) (wb_file s)" using s(3,4) by (simp add: counted_def)
  then have "\<forall>i < length (wb_file s). f_flags (wb_file s ! i) = F_DONE" by (auto simp: tally_pos)
  then have all: "active (wb_file s) = {}" "connecting (wb_file s) = {}"
    "{i. i < length (wb_file s) \<and> F_READING \<le> f_flags (wb_file s ! i)} = {..<length (wb_file s)}" by (auto simp: active_def connecting_def)
  have asked: "fst ` set (wb_sent s) = {..<length (wb_file s)}" "\<forall>p \<in> set (wb_sent s). snd p = GET_CMD (f_name (wb_file s ! fst p))"
    "distinct (map fst (wb_sent s))" using s(2) all(3) by (simp_all add: web_ok_def asked_def)
  have "set (wb_sent s) = (\<lambda>i. (i, GET_CMD (f_name (wb_file s ! i)))) ` fst ` set (wb_sent s)"
    using asked(2) by (force simp: image_image)
  also have "\<dots> = (\<lambda>i. (i, GET_CMD (names ! i))) ` {..<min 20 (length names)}"
  proof (unfold asked(1) n(1), intro image_cong refl)
    fix i assume i: "i \<in> {..<min 20 (length names)}"
    then have "f_name (wb_file s ! i) = map f_name (wb_file s) ! i" using n(1) by simp
    also have "\<dots> = names ! i" using i unfolding n(2) by simp
    finally show "(i, GET_CMD (f_name (wb_file s ! i))) = (i, GET_CMD (names ! i))" by simp
  qed
  finally show ?thesis using s(1,2) asked(3) all by (simp add: web_ok_def fds_ok_def)
qed

lemma web_files_idle: "\<forall>i \<in> set is. f_flags (wb_file s ! i) = F_NONE \<Longrightarrow> web_files c ev is s = Inr s"
  by (induction "is") (simp_all add: web_file_def Let_def)

theorem web_client_fetches_all_witness:
  "\<exists>s. web_main [''a''] 2 \<lparr>wc_connect = \<lambda>_. 115, wc_writen = \<lambda>_. True\<rparr>
      (replicate 80 \<lparr>we_rs = UNIV, we_ws = {}, we_error = \<lambda>_. 0, we_read = \<lambda>_. 0\<rparr>) = Inr (True, s)
    \<and> set (wb_sent s) = {(0, ''GET a HTTP/1.0'' @ crlf2)} \<and> wb_open s = []"
proof -
  have "healthy (take 20 [''a'']) \<lparr>wc_connect = \<lambda>_. 115, wc_writen = \<lambda>_. True\<rparr>" by (simp add: healthy_def)
  from web_client_fetches_all [OF _ this, of 2 "replicate 80 \<lparr>we_rs = UNIV, we_ws = {}, we_error = \<lambda>_. 0, we_read = \<lambda>_. 0\<rparr>"]
  show ?thesis by (auto simp: prompt_def GET_CMD_def)
qed

text \<open>With no connection allowed the client waits for ever: \<open>select\<close> has nothing to wait for.\<close>

theorem web_client_waits_for_nothing:
  assumes "maxnconn \<le> 0" and "names \<noteq> []" and "web_main names maxnconn c evs = Inr (d, s)"
  shows "\<not> d \<and> wb_rset s = {} \<and> wb_sent s = []"
proof -
  let ?s = "web_start names"
  have n: "0 < wb_nlefttoread ?s" "wb_nconn ?s = 0" using assms(2) by (simp_all add: web_start_def)
  have "web_connect maxnconn c ?s = Inr ?s" using assms(1) n(2) by (subst web_connect.simps) simp
  moreover have "web_select c ev ?s = Inr ?s" for ev
    unfolding web_select_def by (rule web_files_idle) (simp add: web_start_def)
  ultimately have "web_loop maxnconn c evs ?s = Inr (False, ?s)"
    by (induction evs) (subst web_loop.simps, use n in simp)+
  then show ?thesis using assms(3) by (auto simp: web_main_def web_start_def Let_def)
qed

end
