(* ===== verification/Unp_Web_Threads.thy ===== *)
theory Unp_Web_Threads
  imports Prelude
begin

text \<open>
  The web client with threads of UNIX.Network.Programming/unpv13e/threads/web03.c: the main thread
  creates a thread for each file, at most \<open>maxnconn\<close> at a time, and joins those that have ended, which
  tell it with a counter under a mutex and a condition variable. The calls of the threads succeed; what
  is on the connections is left out.
\<close>

subsection \<open>The program\<close>

text \<open>\<open>f_flags\<close> of a file: 0, F_CONNECTING, F_READING, F_DONE, F_JOINED.\<close>

datatype tflag = T_none | T_connecting | T_reading | T_done | T_joined

text \<open>Where the thread of a file is: none yet, before it marks the file, waiting for the mutex to count itself, ended.\<close>

datatype tphase = Not_started | Running | Wants_mutex | Ended

record tfile =
  tf_flags :: tflag
  tf_phase :: tphase

text \<open>
  Where the main thread is: in the loop that creates threads; in \<open>Pthread_cond_wait\<close>, signalled or not;
  with the mutex before file \<open>i\<close> of the scan, or in \<open>Pthread_join\<close> for file \<open>i\<close>; at the end.
\<close>

datatype tmain = Creating | Waiting bool | Scanning nat | Joining nat | Finished

record wthreads =
  wt_file :: "tfile list"
  wt_nconn :: int
  wt_nlefttoconn :: int
  wt_nlefttoread :: int
  wt_ndone :: int
  wt_main :: tmain

definition set_tfile :: "nat \<Rightarrow> tflag \<Rightarrow> tphase \<Rightarrow> wthreads \<Rightarrow> wthreads" where
  "set_tfile i fl ph s = s\<lparr>wt_file := (wt_file s)[i := \<lparr>tf_flags = fl, tf_phase = ph\<rparr>]\<rparr>"

definition wt_start :: "nat \<Rightarrow> wthreads" where
  "wt_start nfiles = \<lparr>wt_file = replicate nfiles \<lparr>tf_flags = T_none, tf_phase = Not_started\<rparr>, wt_nconn = 0,
     wt_nlefttoconn = int nfiles, wt_nlefttoread = int nfiles, wt_ndone = 0, wt_main = Creating\<rparr>"

text \<open>The mutex is free unless the main thread scans.\<close>

definition mutex_free :: "wthreads \<Rightarrow> bool" where
  "mutex_free s = (case wt_main s of Scanning _ \<Rightarrow> False | Joining _ \<Rightarrow> False | _ \<Rightarrow> True)"

definition find_none :: "wthreads \<Rightarrow> nat option" where
  "find_none s = (case filter (\<lambda>i. tf_flags (wt_file s ! i) = T_none) [0..<length (wt_file s)] of [] \<Rightarrow> None | i # _ \<Rightarrow> Some i)"

definition create_thread :: "nat \<Rightarrow> wthreads \<Rightarrow> wthreads" where
  "create_thread i s =
     (set_tfile i T_connecting Running s)\<lparr>wt_nconn := wt_nconn s + 1, wt_nlefttoconn := wt_nlefttoconn s - 1\<rparr>"

text \<open>With the mutex: wait when nothing is done, otherwise scan the files.\<close>

definition main_locked :: "wthreads \<Rightarrow> wthreads" where
  "main_locked s = s\<lparr>wt_main := (if wt_ndone s = 0 then Waiting False else Scanning 0)\<rparr>"

definition count_done :: "nat \<Rightarrow> wthreads \<Rightarrow> wthreads" where
  "count_done i s =
     (set_tfile i (tf_flags (wt_file s ! i)) Ended s)
       \<lparr>wt_ndone := wt_ndone s + 1, wt_main := (case wt_main s of Waiting _ \<Rightarrow> Waiting True | m \<Rightarrow> m)\<rparr>"

definition join_thread :: "nat \<Rightarrow> wthreads \<Rightarrow> wthreads" where
  "join_thread i s =
     (set_tfile i T_joined Ended s)
       \<lparr>wt_ndone := wt_ndone s - 1, wt_nconn := wt_nconn s - 1, wt_nlefttoread := wt_nlefttoread s - 1, wt_main := Scanning (i + 1)\<rparr>"

text \<open>
  A step of a thread. \<open>spur\<close> says whether \<open>Pthread_cond_wait\<close> may return without a signal.
\<close>

inductive wt_step :: "bool \<Rightarrow> int \<Rightarrow> wthreads \<Rightarrow> wthreads \<Rightarrow> bool" for spur :: bool and maxnconn :: int where
  main_creates: "wt_main s = Creating \<Longrightarrow> wt_nlefttoread s > 0 \<Longrightarrow> wt_nconn s < maxnconn \<Longrightarrow> wt_nlefttoconn s > 0 \<Longrightarrow> find_none s = Some i
    \<Longrightarrow> wt_step spur maxnconn s (create_thread i s)"
| main_locks: "wt_main s = Creating \<Longrightarrow> wt_nlefttoread s > 0 \<Longrightarrow> \<not> (wt_nconn s < maxnconn \<and> wt_nlefttoconn s > 0)
    \<Longrightarrow> wt_step spur maxnconn s (main_locked s)"
| main_wakes: "wt_main s = Waiting signalled \<Longrightarrow> signalled \<or> spur \<Longrightarrow> wt_step spur maxnconn s (main_locked s)"
| main_skips: "wt_main s = Scanning i \<Longrightarrow> i < length (wt_file s) \<Longrightarrow> tf_flags (wt_file s ! i) \<noteq> T_done
    \<Longrightarrow> wt_step spur maxnconn s (s\<lparr>wt_main := Scanning (i + 1)\<rparr>)"
| main_finds: "wt_main s = Scanning i \<Longrightarrow> i < length (wt_file s) \<Longrightarrow> tf_flags (wt_file s ! i) = T_done
    \<Longrightarrow> wt_step spur maxnconn s (s\<lparr>wt_main := Joining i\<rparr>)"
| main_joins: "wt_main s = Joining i \<Longrightarrow> tf_phase (wt_file s ! i) = Ended \<Longrightarrow> wt_step spur maxnconn s (join_thread i s)"
| main_unlocks: "wt_main s = Scanning i \<Longrightarrow> i = length (wt_file s) \<Longrightarrow> wt_step spur maxnconn s (s\<lparr>wt_main := Creating\<rparr>)"
| main_ends: "wt_main s = Creating \<Longrightarrow> \<not> wt_nlefttoread s > 0 \<Longrightarrow> wt_step spur maxnconn s (s\<lparr>wt_main := Finished\<rparr>)"
| thread_writes: "i < length (wt_file s) \<Longrightarrow> wt_file s ! i = \<lparr>tf_flags = T_connecting, tf_phase = Running\<rparr>
    \<Longrightarrow> wt_step spur maxnconn s (set_tfile i T_reading Running s)"
| thread_marks: "i < length (wt_file s) \<Longrightarrow> wt_file s ! i = \<lparr>tf_flags = T_reading, tf_phase = Running\<rparr>
    \<Longrightarrow> wt_step spur maxnconn s (set_tfile i T_done Wants_mutex s)"
| thread_counts: "i < length (wt_file s) \<Longrightarrow> tf_phase (wt_file s ! i) = Wants_mutex \<Longrightarrow> mutex_free s
    \<Longrightarrow> wt_step spur maxnconn s (count_done i s)"

inductive_cases wt_stepE: "wt_step spur maxnconn s s'"

subsection \<open>The counters\<close>

definition tfile_ok :: "tfile \<Rightarrow> bool" where
  "tfile_ok f \<longleftrightarrow> (tf_flags f, tf_phase f) \<in>
     {(T_none, Not_started), (T_connecting, Running), (T_reading, Running), (T_done, Wants_mutex), (T_done, Ended), (T_joined, Ended)}"

definition ended_tfile :: "tfile \<Rightarrow> bool" where "ended_tfile f \<longleftrightarrow> tf_flags f = T_done \<and> tf_phase f = Ended"
definition active_tfile :: "tfile \<Rightarrow> bool" where "active_tfile f \<longleftrightarrow> tf_flags f \<noteq> T_none \<and> tf_flags f \<noteq> T_joined"

definition main_ok :: "int \<Rightarrow> wthreads \<Rightarrow> bool" where
  "main_ok maxnconn s \<longleftrightarrow>
     (case wt_main s of
        Creating \<Rightarrow> True
      | Waiting b \<Rightarrow> wt_nlefttoread s > 0 \<and> (maxnconn \<ge> 1 \<longrightarrow> wt_nconn s > 0) \<and> (\<not> b \<longrightarrow> wt_ndone s = 0)
      | Scanning i \<Rightarrow> i \<le> length (wt_file s)
      | Joining i \<Rightarrow> i < length (wt_file s) \<and> tf_flags (wt_file s ! i) = T_done
      | Finished \<Rightarrow> wt_nlefttoread s = 0)"

definition wt_ok :: "int \<Rightarrow> wthreads \<Rightarrow> bool" where
  "wt_ok maxnconn s \<longleftrightarrow> (\<forall>f \<in> set (wt_file s). tfile_ok f)
     \<and> wt_ndone s = how_many ended_tfile (wt_file s) \<and> wt_nconn s = how_many active_tfile (wt_file s)
     \<and> wt_nlefttoconn s = how_many (\<lambda>f. tf_flags f = T_none) (wt_file s)
     \<and> wt_nlefttoread s = how_many (\<lambda>f. tf_flags f \<noteq> T_joined) (wt_file s)
     \<and> wt_nconn s \<le> max 0 maxnconn \<and> main_ok maxnconn s"

lemma left_split: "how_many (\<lambda>f. tf_flags f \<noteq> T_joined) fs = how_many (\<lambda>f. tf_flags f = T_none) fs + how_many active_tfile fs"
  by (induction fs) (auto simp: active_tfile_def)

lemma all_update: "\<forall>f \<in> set fs. P f \<Longrightarrow> P x \<Longrightarrow> \<forall>f \<in> set (fs[i := x]). P f"
  by (metis insertE set_update_subset_insert subsetD)

lemma find_none_cases:
  "find_none s = Some i \<Longrightarrow> i < length (wt_file s) \<and> tf_flags (wt_file s ! i) = T_none"
  "find_none s = None \<Longrightarrow> how_many (\<lambda>f. tf_flags f = T_none) (wt_file s) = 0"
proof -
  let ?is = "filter (\<lambda>i. tf_flags (wt_file s ! i) = T_none) [0..<length (wt_file s)]"
  show "i < length (wt_file s) \<and> tf_flags (wt_file s ! i) = T_none" if "find_none s = Some i"
  proof -
    have "i \<in> set ?is" using that by (cases ?is) (simp_all add: find_none_def)
    then show ?thesis by simp
  qed
  assume "find_none s = None"
  then have "?is = []" by (cases ?is) (simp_all add: find_none_def)
  then have "\<not> 0 < how_many (\<lambda>f. tf_flags f = T_none) (wt_file s)" by (auto simp: how_many_pos filter_empty_conv)
  then show "how_many (\<lambda>f. tf_flags f = T_none) (wt_file s) = 0" using how_many_simps(3) [of _ "wt_file s"] by (meson leI order_antisym)
qed

lemmas tfile_defs = tfile_ok_def ended_tfile_def active_tfile_def
lemmas wt_updates = set_tfile_def how_many_update

lemma wt_start_ok: "wt_ok maxnconn (wt_start n)"
  by (simp add: wt_ok_def wt_start_def main_ok_def how_many_replicate tfile_defs)

lemma wt_step_ok:
  assumes "wt_step spur maxnconn s s'" and "wt_ok maxnconn s"
  shows "wt_ok maxnconn s'"
  using assms
proof (induction rule: wt_step.induct)
  case (main_creates s i)
  have i: "i < length (wt_file s)" "tf_flags (wt_file s ! i) = T_none" using find_none_cases(1) [OF main_creates(5)] by auto
  have "\<forall>f \<in> set ((wt_file s)[i := \<lparr>tf_flags = T_connecting, tf_phase = Running\<rparr>]). tfile_ok f"
    by (rule all_update) (use main_creates(6) in \<open>auto simp: wt_ok_def tfile_ok_def\<close>)
  then show ?case using main_creates i by (simp add: wt_ok_def create_thread_def wt_updates tfile_defs main_ok_def)
next
  case (main_locks s)
  have "maxnconn \<ge> 1 \<longrightarrow> wt_nconn s > 0"
    using main_locks left_split [of "wt_file s"] how_many_simps(3) [of "\<lambda>f. tf_flags f = T_none" "wt_file s"] by (auto simp: wt_ok_def)
  then show ?case using main_locks by (auto simp: wt_ok_def main_locked_def main_ok_def)
next
  case (main_wakes s signalled)
  then show ?case by (auto simp: wt_ok_def main_locked_def main_ok_def)
next
  case (main_skips s i)
  then show ?case by (simp add: wt_ok_def main_ok_def)
next
  case (main_finds s i)
  then show ?case by (simp add: wt_ok_def main_ok_def)
next
  case (main_joins s i)
  then have i: "i < length (wt_file s)" "tf_flags (wt_file s ! i) = T_done" by (simp_all add: wt_ok_def main_ok_def)
  have "\<forall>f \<in> set ((wt_file s)[i := \<lparr>tf_flags = T_joined, tf_phase = Ended\<rparr>]). tfile_ok f"
    by (rule all_update) (use main_joins(3) in \<open>auto simp: wt_ok_def tfile_ok_def\<close>)
  then show ?case using main_joins i by (simp add: wt_ok_def join_thread_def wt_updates tfile_defs main_ok_def)
next
  case (main_unlocks s i)
  then show ?case by (simp add: wt_ok_def main_ok_def)
next
  case (main_ends s)
  then have "0 \<le> wt_nlefttoread s" by (simp add: wt_ok_def)
  then show ?case using main_ends by (simp add: wt_ok_def main_ok_def)
next
  case (thread_writes i s)
  have "\<forall>f \<in> set ((wt_file s)[i := \<lparr>tf_flags = T_reading, tf_phase = Running\<rparr>]). tfile_ok f"
    by (rule all_update) (use thread_writes(3) in \<open>auto simp: wt_ok_def tfile_ok_def\<close>)
  then show ?case using thread_writes
    by (auto simp: wt_ok_def wt_updates tfile_defs main_ok_def nth_list_update split: tmain.splits)
next
  case (thread_marks i s)
  have "\<forall>f \<in> set ((wt_file s)[i := \<lparr>tf_flags = T_done, tf_phase = Wants_mutex\<rparr>]). tfile_ok f"
    by (rule all_update) (use thread_marks(3) in \<open>auto simp: wt_ok_def tfile_ok_def\<close>)
  then show ?case using thread_marks
    by (auto simp: wt_ok_def wt_updates tfile_defs main_ok_def nth_list_update split: tmain.splits)
next
  case (thread_counts i s)
  then have d: "tf_flags (wt_file s ! i) = T_done" by (auto simp: wt_ok_def tfile_ok_def dest: bspec [OF _ nth_mem])
  have "\<forall>f \<in> set ((wt_file s)[i := \<lparr>tf_flags = T_done, tf_phase = Ended\<rparr>]). tfile_ok f"
    by (rule all_update) (use thread_counts(4) in \<open>auto simp: wt_ok_def tfile_ok_def\<close>)
  then show ?case using thread_counts d
    by (auto simp: wt_ok_def count_done_def wt_updates tfile_defs main_ok_def mutex_free_def split: tmain.splits)
qed

lemma wt_reachable: "(wt_step spur maxnconn)\<^sup>*\<^sup>* (wt_start n) s \<Longrightarrow> wt_ok maxnconn s"
  by (induction rule: rtranclp_induct) (auto intro: wt_start_ok wt_step_ok)

lemma wt_step_files: "wt_step spur maxnconn s s' \<Longrightarrow> length (wt_file s') = length (wt_file s)"
  by (induction rule: wt_step.induct) (simp_all add: set_tfile_def create_thread_def main_locked_def join_thread_def count_done_def)

lemma wt_files_kept: "(wt_step spur maxnconn)\<^sup>*\<^sup>* (wt_start n) s \<Longrightarrow> length (wt_file s) = n"
  by (induction rule: rtranclp_induct) (simp_all add: wt_start_def wt_step_files)

subsection \<open>Where a thread goes on\<close>

lemma creating_goes_on:
  assumes "wt_ok maxnconn s" and "wt_main s = Creating"
  shows "\<exists>s'. wt_step False maxnconn s s'"
proof (cases "wt_nlefttoread s > 0")
  case False
  then show ?thesis using main_ends [OF assms(2)] by blast
next
  case left: True
  show ?thesis
  proof (cases "wt_nconn s < maxnconn \<and> wt_nlefttoconn s > 0")
    case True
    have "find_none s \<noteq> None"
    proof
      assume "find_none s = None"
      then show False using True assms(1) find_none_cases(2) [of s] by (simp add: wt_ok_def)
    qed
    then obtain i where "find_none s = Some i" by blast
    then show ?thesis using main_creates [OF assms(2) left] True by blast
  next
    case False
    then show ?thesis using main_locks [OF assms(2) left] by blast
  qed
qed

lemma waiting_goes_on:
  assumes "wt_ok maxnconn s" and "wt_main s = Waiting b" and "1 \<le> maxnconn"
  shows "\<exists>s'. wt_step False maxnconn s s'"
proof (cases b)
  case True
  then show ?thesis using main_wakes [OF assms(2)] by blast
next
  case False
  then have "0 < how_many active_tfile (wt_file s)" and "\<not> 0 < how_many ended_tfile (wt_file s)"
    using assms by (auto simp: wt_ok_def main_ok_def)
  then obtain i where i: "i < length (wt_file s)" "active_tfile (wt_file s ! i)" "\<not> ended_tfile (wt_file s ! i)"
    by (auto simp: how_many_pos)
  have "mutex_free s" using assms(2) by (simp add: mutex_free_def)
  moreover have "tfile_ok (wt_file s ! i)" using assms(1) i(1) by (auto simp: wt_ok_def)
  ultimately show ?thesis using i thread_writes [OF i(1)] thread_marks [OF i(1)] thread_counts [OF i(1)]
    by (cases "wt_file s ! i") (fastforce simp: tfile_defs)
qed

lemma scanning_goes_on:
  assumes "wt_ok maxnconn s" and "wt_main s = Scanning i"
  shows "\<exists>s'. wt_step False maxnconn s s'"
proof -
  have "i \<le> length (wt_file s)" using assms by (simp add: wt_ok_def main_ok_def)
  then show ?thesis using main_skips [OF assms(2)] main_finds [OF assms(2)] main_unlocks [OF assms(2)] by (meson le_neq_implies_less)
qed

subsection \<open>Properties\<close>

text \<open>
  whatever the order in which the threads run, the counters of the program count what they are meant
  to count: the connections are the files whose thread was created and not joined, and never more than
  the limit; the threads done are those that have counted themselves and are not joined; and while
  \<open>nlefttoconn\<close> is positive the search for a file to read finds one.
\<close>

theorem web03_counts:
  assumes "(wt_step spur maxnconn)\<^sup>*\<^sup>* (wt_start n) s"
  shows "length (wt_file s) = n \<and> wt_nconn s \<le> max 0 maxnconn
    \<and> wt_nconn s = how_many (\<lambda>f. tf_flags f \<in> {T_connecting, T_reading, T_done}) (wt_file s)
    \<and> wt_ndone s = how_many (\<lambda>f. tf_flags f = T_done \<and> tf_phase f = Ended) (wt_file s)
    \<and> wt_nlefttoconn s = how_many (\<lambda>f. tf_flags f = T_none) (wt_file s)
    \<and> wt_nlefttoread s = how_many (\<lambda>f. tf_flags f \<noteq> T_joined) (wt_file s)
    \<and> \<not> (wt_nlefttoconn s > 0 \<and> find_none s = None)"
proof -
  have ok: "wt_ok maxnconn s" using assms by (rule wt_reachable)
  have "active_tfile = (\<lambda>f. tf_flags f \<in> {T_connecting, T_reading, T_done})"
  proof
    fix f show "active_tfile f = (tf_flags f \<in> {T_connecting, T_reading, T_done})"
      by (cases "tf_flags f") (simp_all add: active_tfile_def)
  qed
  moreover have "ended_tfile = (\<lambda>f. tf_flags f = T_done \<and> tf_phase f = Ended)" by (simp add: ended_tfile_def fun_eq_iff)
  moreover have "\<not> (wt_nlefttoconn s > 0 \<and> find_none s = None)"
  proof
    assume "wt_nlefttoconn s > 0 \<and> find_none s = None"
    then show False using ok find_none_cases(2) [of s] by (simp add: wt_ok_def)
  qed
  ultimately show ?thesis using ok wt_files_kept [OF assms] by (simp add: wt_ok_def)
qed

text \<open>
  C17: when nothing can go on any more, no thread is left and every file was joined, or else the main
  thread is in \<open>Pthread_join\<close>, with the mutex, for a thread that wants the mutex to count itself: no
  signal is lost and the program never waits for a thread that was not created.
\<close>

theorem web03_stops_where:
  assumes "(wt_step True maxnconn)\<^sup>*\<^sup>* (wt_start n) s" and "1 \<le> maxnconn" and "\<nexists>s'. wt_step False maxnconn s s'"
  shows "wt_main s = Finished \<and> wt_file s = replicate n \<lparr>tf_flags = T_joined, tf_phase = Ended\<rparr>
    \<or> (\<exists>i < n. wt_main s = Joining i \<and> wt_file s ! i = \<lparr>tf_flags = T_done, tf_phase = Wants_mutex\<rparr>)"
proof -
  have ok: "wt_ok maxnconn s" using assms(1) by (rule wt_reachable)
  have n: "length (wt_file s) = n" using assms(1) by (rule wt_files_kept)
  show ?thesis
  proof (cases "wt_main s")
    case Creating
    then show ?thesis using assms(3) creating_goes_on [OF ok] by blast
  next
    case (Waiting b)
    then show ?thesis using assms(2,3) waiting_goes_on [OF ok] by blast
  next
    case (Scanning i)
    then show ?thesis using assms(3) scanning_goes_on [OF ok] by blast
  next
    case (Joining i)
    then have i: "i < n" "tf_flags (wt_file s ! i) = T_done" using ok n by (simp_all add: wt_ok_def main_ok_def)
    then have "tfile_ok (wt_file s ! i)" using ok n by (auto simp: wt_ok_def)
    moreover have "tf_phase (wt_file s ! i) \<noteq> Ended" using assms(3) main_joins [OF Joining] by blast
    ultimately have "wt_file s ! i = \<lparr>tf_flags = T_done, tf_phase = Wants_mutex\<rparr>" using i(2) by (cases "wt_file s ! i") (auto simp: tfile_ok_def)
    then show ?thesis using Joining i(1) by blast
  next
    case Finished
    then have "\<not> 0 < how_many (\<lambda>f. tf_flags f \<noteq> T_joined) (wt_file s)" using ok by (simp add: wt_ok_def main_ok_def)
    then have "tf_flags (wt_file s ! i) = T_joined" if "i < n" for i using that n by (auto simp: how_many_pos)
    moreover have "tfile_ok (wt_file s ! i)" if "i < n" for i using ok n that by (auto simp: wt_ok_def)
    ultimately have "wt_file s ! i = \<lparr>tf_flags = T_joined, tf_phase = Ended\<rparr>" if "i < n" for i
      using that by (cases "wt_file s ! i") (fastforce simp: tfile_ok_def)
    then have "wt_file s = replicate n \<lparr>tf_flags = T_joined, tf_phase = Ended\<rparr>" using n by (simp add: list_eq_iff_nth_eq)
    then show ?thesis using Finished by blast
  qed
qed

subsection \<open>Two files, two connections\<close>

text \<open>
  One thread has ended and woken the main thread, the other has just marked its file: the main thread
  joins both in one scan, with the mutex.
\<close>

definition both_stuck :: wthreads where
  "both_stuck = \<lparr>wt_file = [\<lparr>tf_flags = T_joined, tf_phase = Ended\<rparr>, \<lparr>tf_flags = T_done, tf_phase = Wants_mutex\<rparr>],
     wt_nconn = 1, wt_nlefttoconn = 0, wt_nlefttoread = 1, wt_ndone = 0, wt_main = Joining 1\<rparr>"

lemmas via = converse_rtranclp_into_rtranclp [of "wt_step spur maxnconn" for spur maxnconn]
lemmas wt_ops = wt_start_def create_thread_def main_locked_def join_thread_def count_done_def set_tfile_def mutex_free_def
  find_none_def both_stuck_def

lemma both_stuck_reachable: "(wt_step spur 2)\<^sup>*\<^sup>* (wt_start 2) both_stuck"
  apply (rule via, rule main_creates [where i = 0], simp_all add: wt_ops numeral_2_eq_2)
  apply (rule via, rule main_creates [where i = 1], simp_all add: wt_ops numeral_2_eq_2)
  apply (rule via, rule main_locks, simp_all add: wt_ops)
  apply (rule via, rule thread_writes [where i = 0], simp_all add: wt_ops)
  apply (rule via, rule thread_marks [where i = 0], simp_all add: wt_ops)
  apply (rule via, rule thread_counts [where i = 0], simp_all add: wt_ops)
  apply (rule via, rule thread_writes [where i = 1], simp_all add: wt_ops)
  apply (rule via, rule thread_marks [where i = 1], simp_all add: wt_ops)
  apply (rule via, rule main_wakes [where signalled = True], simp_all add: wt_ops)
  apply (rule via, rule main_finds [where i = 0], simp_all add: wt_ops)
  apply (rule via, rule main_joins [where i = 0], simp_all add: wt_ops)
  apply (rule via, rule main_finds [where i = 1], simp_all add: wt_ops)
  done

lemma both_stuck_stuck: "\<not> wt_step spur 2 both_stuck s'"
  by (auto elim!: wt_stepE simp: both_stuck_def mutex_free_def less_Suc_eq)

text \<open>
  the program can hang: with two files at once it can reach a state in which the main thread waits,
  holding the mutex, for a thread that waits for the mutex, and nothing can go on, not even after a wakeup
  without a signal. A thread marks its file F_DONE before it takes the mutex, and the main thread joins
  every file it finds marked.
\<close>

theorem web03_can_hang:
  "\<exists>s. (wt_step False 2)\<^sup>*\<^sup>* (wt_start 2) s \<and> wt_main s = Joining 1 \<and> tf_phase (wt_file s ! 1) = Wants_mutex \<and> (\<nexists>s'. wt_step True 2 s s')"
proof (intro exI conjI)
  show "(wt_step False 2)\<^sup>*\<^sup>* (wt_start 2) both_stuck" by (rule both_stuck_reachable)
  show "\<nexists>s'. wt_step True 2 both_stuck s'" using both_stuck_stuck by blast
qed (simp_all add: both_stuck_def)

theorem web03_counts_witness: "wt_nconn both_stuck = 1 \<and> wt_ndone both_stuck = 0 \<and> \<not> (wt_nlefttoconn both_stuck > 0 \<and> find_none both_stuck = None)"
  using web03_counts [OF both_stuck_reachable [of True]] by (simp add: both_stuck_def)

theorem web03_stops_where_witness:
  "\<exists>i < 2. wt_main both_stuck = Joining i \<and> wt_file both_stuck ! i = \<lparr>tf_flags = T_done, tf_phase = Wants_mutex\<rparr>"
  using web03_stops_where [OF both_stuck_reachable] both_stuck_stuck by (auto simp: both_stuck_def)

end
