(* ===== verification/Unp_Prethread.thy ===== *)
theory Unp_Prethread
  imports Monitor
begin

text \<open>
  The prethreaded server of UNIX.Network.Programming/unpv13e/server (serv08.c, pthread08.c): the main
  thread puts the descriptors it accepts into a ring of 32, the threads take them out, under one mutex
  and with one condition variable.
\<close>

abbreviation (input) MAXNCLI :: nat where "MAXNCLI \<equiv> 32"

record ring =
  clifd :: "nat list"
  iget :: nat
  iput :: nat

datatype ring_call = Accepted nat | Take_next nat

text \<open>
  \<open>Accepted fd\<close> is what the main thread does with an accepted descriptor, \<open>Take_next i\<close> what thread \<open>i\<close>
  does at the top of its loop; the result is the descriptor. \<open>Die\<close>: the process ends.
\<close>

definition ring_put :: "nat \<Rightarrow> ring \<Rightarrow> (nat, ring, unit) outcome" where
  "ring_put connfd s =
     (let s1 = s\<lparr>clifd := (clifd s)[iput s := connfd], iput := (if iput s + 1 = MAXNCLI then 0 else iput s + 1)\<rparr> in
      if iput s1 = iget s1 then Die else Return connfd s1 [Signal ()])"

definition ring_get :: "ring \<Rightarrow> (nat, ring, unit) outcome" where
  "ring_get s =
     (if iget s = iput s then Block s
      else Return (clifd s ! iget s) (s\<lparr>iget := (if iget s + 1 = MAXNCLI then 0 else iget s + 1)\<rparr>) [])"

text \<open>The wrappers of the pthread functions end the process on an error.\<close>

fun ring_enter :: "int \<Rightarrow> ring_call \<Rightarrow> ring \<Rightarrow> (nat, ring, unit) outcome" where
  "ring_enter n (Accepted fd) s = (if n \<noteq> 0 then Die else ring_put fd s)"
| "ring_enter n (Take_next i) s = (if n \<noteq> 0 then Die else ring_get s)"

fun ring_resume :: "int \<Rightarrow> ring_call \<Rightarrow> ring \<Rightarrow> (nat, ring, unit) outcome" where
  "ring_resume n (Accepted fd) s = Die"
| "ring_resume n (Take_next i) s = (if n \<noteq> 0 then Die else ring_get s)"

definition ring_new :: ring where
  "ring_new = \<lparr>clifd = replicate MAXNCLI 0, iget = 0, iput = 0\<rparr>"

subsection \<open>A queue of at most 31\<close>

definition pending :: "ring \<Rightarrow> nat" where
  "pending s = (iput s + MAXNCLI - iget s) mod MAXNCLI"

text \<open>The descriptors that are waiting, the oldest first.\<close>

definition waiting :: "ring \<Rightarrow> nat list" where
  "waiting s = map (\<lambda>k. clifd s ! ((iget s + k) mod MAXNCLI)) [0..<pending s]"

definition ring_ok :: "ring \<Rightarrow> bool" where
  "ring_ok s \<longleftrightarrow> length (clifd s) = MAXNCLI \<and> iget s < MAXNCLI \<and> iput s < MAXNCLI"

fun fifo :: "ring_call \<times> nat \<Rightarrow> nat list \<Rightarrow> nat list option" where
  "fifo (Accepted fd, r) q = (if r = fd \<and> length q < 31 then Some (q @ [fd]) else None)"
| "fifo (Take_next i, r) q = (case q of [] \<Rightarrow> None | fd # q' \<Rightarrow> if r = fd then Some q' else None)"

fun_cases fifo_acceptedE: "fifo (Accepted fd, r) q = Some q'"
  and fifo_takeE: "fifo (Take_next i, r) q = Some q'"

lemma step_mod: "i < MAXNCLI \<Longrightarrow> (if i + 1 = MAXNCLI then 0 else i + 1) = (i + 1) mod MAXNCLI"
  by auto

lemma pending_less: "pending s < MAXNCLI"
  by (simp add: pending_def)

lemma iput_pending: "ring_ok s \<Longrightarrow> iput s = (iget s + pending s) mod MAXNCLI"
proof -
  assume "ring_ok s"
  then have "iget s < MAXNCLI" "iput s < MAXNCLI" by (simp_all add: ring_ok_def)
  then show ?thesis unfolding pending_def by (simp add: mod_add_right_eq)
qed

lemma pending_0: "ring_ok s \<Longrightarrow> iget s = iput s \<longleftrightarrow> pending s = 0"
  using iput_pending [of s] by (auto simp: ring_ok_def pending_def)

lemma pending_if: "ring_ok s \<Longrightarrow> pending s = (if iget s \<le> iput s then iput s - iget s else iput s + MAXNCLI - iget s)"
  by (simp add: pending_def ring_ok_def) (metis Nat.add_diff_assoc2 add.commute le_add_diff_inverse less_imp_diff_less mod_add_self2 mod_less)

lemma mod_ring: "a < 64 \<Longrightarrow> a mod MAXNCLI = (if a < 32 then a else a - 32)"
  by (simp add: le_mod_geq)

lemma put_arith:
  fixes g k :: nat
  assumes "g < 32" and "k < 32"
  shows "(g + (k + 1)) mod MAXNCLI = g \<longleftrightarrow> k = 31"
    and "k \<noteq> 31 \<Longrightarrow> ((g + (k + 1)) mod MAXNCLI + MAXNCLI - g) mod MAXNCLI = k + 1"
    and "j < k \<Longrightarrow> (g + j) mod MAXNCLI \<noteq> (g + k) mod MAXNCLI"
proof -
  have m: "(g + (k + 1)) mod MAXNCLI = (if g + (k + 1) < 32 then g + (k + 1) else g + (k + 1) - 32)"
    using assms by (intro mod_ring) simp
  have "(if g + (k + 1) < 32 then g + (k + 1) else g + (k + 1) - 32) = g \<longleftrightarrow> k = 31" using assms by arith
  then show "(g + (k + 1)) mod MAXNCLI = g \<longleftrightarrow> k = 31" unfolding m .
  show "((g + (k + 1)) mod MAXNCLI + MAXNCLI - g) mod MAXNCLI = k + 1" if "k \<noteq> 31"
  proof (cases "g + (k + 1) < 32")
    case True
    then have "(g + (k + 1)) mod MAXNCLI + MAXNCLI - g = (k + 1) + MAXNCLI" using m assms by simp
    moreover have "((k + 1) + MAXNCLI) mod MAXNCLI = k + 1" using that assms(2) by (subst mod_add_self2) simp
    ultimately show ?thesis by metis
  next
    case False
    then have "(g + (k + 1)) mod MAXNCLI + MAXNCLI - g = k + 1" using m assms by simp
    then show ?thesis using that assms(2) by simp
  qed
  assume j: "j < k"
  have "(g + j) mod MAXNCLI = (if g + j < 32 then g + j else g + j - 32)" "(g + k) mod MAXNCLI = (if g + k < 32 then g + k else g + k - 32)"
    using assms j by (intro mod_ring; simp)+
  then show "(g + j) mod MAXNCLI \<noteq> (g + k) mod MAXNCLI" using j assms by (cases "g + j < 32"; cases "g + k < 32") simp_all
qed

lemma take_arith:
  fixes g p g' :: nat
  assumes "g < 32" and "p < 32" and "g \<noteq> p" and "g' = (if g = 31 then 0 else g + 1)"
  shows "(if g \<le> p then p - g else p + 32 - g) = Suc (if g' \<le> p then p - g' else p + 32 - g')"
  using assms by (cases "g = 31"; cases "g \<le> p") simp_all

lemma put_outcome:
  assumes "ring_ok s"
  shows "ring_put fd s = Die \<longleftrightarrow> pending s = 31"
    and "ring_put fd s = Return r s' ws \<Longrightarrow> ring_ok s' \<and> r = fd \<and> ws = [Signal ()] \<and> waiting s' = waiting s @ [fd] \<and> pending s' = pending s + 1"
proof -
  have b: "iget s < MAXNCLI" "iput s < MAXNCLI" "length (clifd s) = MAXNCLI" using assms by (simp_all add: ring_ok_def)
  have p: "iput s = (iget s + pending s) mod MAXNCLI" by (rule iput_pending [OF assms])
  have "(iput s + 1) mod MAXNCLI = (iget s + (pending s + 1)) mod MAXNCLI" unfolding p by (simp add: mod_Suc_eq)
  then have nxt: "(if iput s + 1 = MAXNCLI then 0 else iput s + 1) = (iget s + (pending s + 1)) mod MAXNCLI"
    using step_mod [OF b(2)] by simp
  have wrap: "(iget s + (pending s + 1)) mod MAXNCLI = iget s \<longleftrightarrow> pending s = 31"
    using put_arith(1) [OF b(1) pending_less] by simp
  show "ring_put fd s = Die \<longleftrightarrow> pending s = 31"
    unfolding ring_put_def Let_def using nxt wrap by simp
  assume r: "ring_put fd s = Return r s' ws"
  have s': "r = fd" "ws = [Signal ()]" "s' = s\<lparr>clifd := (clifd s)[iput s := fd], iput := (iget s + (pending s + 1)) mod MAXNCLI\<rparr>" "pending s \<noteq> 31"
    using r nxt wrap by (auto simp: ring_put_def Let_def split: if_splits)
  have n: "pending s' = pending s + 1"
    using put_arith(2) [OF b(1) pending_less s'(4)] s'(3) by (simp add: pending_def)
  have other: "(iget s + k) mod MAXNCLI \<noteq> iput s" if "k < pending s" for k
    using put_arith(3) [OF b(1) pending_less that] unfolding p by simp
  have "map (\<lambda>k. clifd s' ! ((iget s' + k) mod MAXNCLI)) [0..<pending s] = waiting s"
    unfolding waiting_def by (rule map_cong) (use other in \<open>simp_all add: s'(3) nth_list_update_neq [OF not_sym]\<close>)
  moreover have "clifd s' ! ((iget s' + pending s) mod MAXNCLI) = fd" using s'(3) b p by simp
  ultimately have "waiting s' = waiting s @ [fd]" unfolding waiting_def [of s'] n by simp
  then show "ring_ok s' \<and> r = fd \<and> ws = [Signal ()] \<and> waiting s' = waiting s @ [fd] \<and> pending s' = pending s + 1"
    using s' n b by (simp add: ring_ok_def)
qed

lemma get_outcome:
  assumes "ring_ok s"
  shows "ring_get s = Block s' \<longleftrightarrow> s' = s \<and> waiting s = []"
    and "ring_get s = Return r s' ws \<Longrightarrow> ring_ok s' \<and> ws = [] \<and> waiting s = r # waiting s' \<and> pending s = pending s' + 1"
proof -
  have b: "iget s < MAXNCLI" "iput s < MAXNCLI" "length (clifd s) = MAXNCLI" using assms by (simp_all add: ring_ok_def)
  show "ring_get s = Block s' \<longleftrightarrow> s' = s \<and> waiting s = []"
    using pending_0 [OF assms] by (auto simp: ring_get_def waiting_def)
  assume r: "ring_get s = Return r s' ws"
  then have s': "r = clifd s ! iget s" "ws = []" "s' = s\<lparr>iget := (iget s + 1) mod MAXNCLI\<rparr>" "iget s \<noteq> iput s"
    using step_mod [OF b(1)] by (auto simp: ring_get_def split: if_splits)
  have ok': "ring_ok s'" using s'(3) b by (simp add: ring_ok_def)
  have "iget s' = (if iget s = 31 then 0 else iget s + 1)" "iput s' = iput s" using s'(3) b(1) by auto
  then have n: "pending s = Suc (pending s')"
    unfolding pending_if [OF assms] pending_if [OF ok'] using take_arith [OF b(1,2) s'(4)] by metis
  have "waiting s = map (\<lambda>k. clifd s ! ((iget s + k) mod MAXNCLI)) (0 # map Suc [0..<pending s'])"
    unfolding waiting_def n by (simp add: upt_conv_Cons map_Suc_upt del: upt_Suc)
  also have "\<dots> = r # waiting s'"
  proof -
    have "(iget s' + k) mod MAXNCLI = (iget s + Suc k) mod MAXNCLI" "clifd s' = clifd s" for k by (simp_all add: s'(3) mod_simps)
    then show ?thesis using b(1) by (simp add: waiting_def [of s'] s'(1) o_def)
  qed
  finally show "ring_ok s' \<and> ws = [] \<and> waiting s = r # waiting s' \<and> pending s = pending s' + 1"
    using s' n b by (simp add: ring_ok_def)
qed

text \<open>
  The history is that of a queue; only threads that take wait; and there is no descriptor that is
  neither taken nor has a waked thread of its own, unless no thread sleeps.
\<close>

definition ring_inv :: "ring \<Rightarrow> ring_call multiset \<Rightarrow> ring_call multiset \<Rightarrow> ring_call multiset \<Rightarrow> (ring_call \<times> nat) list \<Rightarrow> bool" where
  "ring_inv s sl wk cn lg \<longleftrightarrow> ring_ok s \<and> cn = {#} \<and> spec_run fifo lg [] = Some (waiting s)
     \<and> (\<forall>c \<in># sl + wk. \<exists>i. c = Take_next i) \<and> (sl = {#} \<or> length (waiting s) \<le> size wk)"

lemma waiting_length: "length (waiting s) = pending s"
  by (simp add: waiting_def)

lemma took:
  assumes "ring_inv s sl wk cn lg" and "ring_get s = Return r t ws"
  shows "ws = [] \<and> ring_ok t \<and> cn = {#} \<and> spec_run fifo (lg @ [(Take_next i, r)]) [] = Some (waiting t)
    \<and> (\<forall>c \<in># sl + wk. \<exists>i. c = Take_next i) \<and> (sl = {#} \<or> length (waiting t) + 1 \<le> size wk)"
  using get_outcome(2) [OF _ assms(2)] assms(1) by (auto simp: ring_inv_def)

interpretation ring_monitor: monitor_invariant "\<lambda>_. ()" ring_enter ring_resume "\<lambda>_ _. None" "\<lambda>_. True" False ring_inv
proof
  fix s t :: ring and sl wk cn sl' wk' :: "ring_call multiset" and lg n c and r :: nat and ws
  show "ring_inv t sl' wk' cn (lg @ [(c, r)])"
    if "ring_inv s sl wk cn lg" "ring_enter n c s = Return r t ws" "wakes (\<lambda>_. ()) ws sl wk sl' wk'"
  proof (cases c)
    case (Accepted fd)
    then have "ring_put fd s = Return r t ws" using that(2) by (simp split: if_splits)
    from put_outcome(2) [OF _ this] that(1) have p: "ring_ok t" "r = fd" "ws = [Signal ()]" "waiting t = waiting s @ [fd]" "pending t = pending s + 1"
      by (simp_all add: ring_inv_def)
    have "length (waiting s) < 31" using p(5) pending_less [of t] by (simp add: waiting_length)
    then have log: "spec_run fifo (lg @ [(c, r)]) [] = Some (waiting t)" using that(1) p(2,4) Accepted by (simp add: ring_inv_def)
    have w: "sl' + wk' = sl + wk" "sl = {#} \<and> sl' = {#} \<and> wk' = wk \<or> size wk' = size wk + 1" using signal_one that(3) p(3) by blast+
    have "\<forall>c \<in># sl' + wk'. \<exists>i. c = Take_next i" unfolding w(1) using that(1) by (simp add: ring_inv_def)
    moreover have "sl' = {#} \<or> length (waiting t) \<le> size wk'"
      using signal_enough [OF that(3) [unfolded p(3)], of "length (waiting s)"] that(1) p(4) by (simp add: ring_inv_def)
    ultimately show ?thesis using that(1) p(1) log by (simp add: ring_inv_def)
  next
    case (Take_next i)
    then have "ring_get s = Return r t ws" using that(2) by (simp split: if_splits)
    from took [OF that(1) this, of i] that(3) Take_next show ?thesis
      by (cases "sl = {#}") (simp_all add: ring_inv_def)
  qed
  show "ring_inv t (add_mset c sl) wk cn lg" if "ring_inv s sl wk cn lg" "ring_enter n c s = Block t"
  proof (cases c)
    case (Accepted fd)
    then show ?thesis using that(2) by (simp add: ring_put_def Let_def split: if_splits)
  next
    case (Take_next i)
    then have "ring_get s = Block t" using that(2) by (simp split: if_splits)
    then show ?thesis using that(1) get_outcome(1) [of s t] Take_next by (simp add: ring_inv_def)
  qed
  show "ring_inv t sl' wk' cn (lg @ [(c, r)])"
    if "ring_inv s sl (add_mset c wk) cn lg" "ring_resume n c s = Return r t ws" "wakes (\<lambda>_. ()) ws sl wk sl' wk'"
  proof (cases c)
    case (Accepted fd)
    then show ?thesis using that(2) by simp
  next
    case (Take_next i)
    then have "ring_get s = Return r t ws" using that(2) by (simp split: if_splits)
    from took [OF that(1) this, of i] that(3) Take_next show ?thesis
      by (cases "sl = {#}") (simp_all add: ring_inv_def)
  qed
  show "ring_inv t (add_mset c sl) wk cn lg" if "ring_inv s sl (add_mset c wk) cn lg" "ring_resume n c s = Block t"
  proof (cases c)
    case (Accepted fd)
    then show ?thesis using that(2) by simp
  next
    case (Take_next i)
    then have "ring_get s = Block t" using that(2) by (simp split: if_splits)
    then show ?thesis using that(1) get_outcome(1) [of s t] Take_next by (simp add: ring_inv_def)
  qed
  show "ring_inv s sl (add_mset c wk) cn lg" if "ring_inv s (add_mset c sl) wk cn lg"
    using that by (auto simp: ring_inv_def)
qed (auto simp: ring_inv_def)

abbreviation ring_run :: "(ring, ring_call, nat) monitor \<Rightarrow> bool" where
  "ring_run \<equiv> mon_reaches (\<lambda>_. ()) ring_enter ring_resume (\<lambda>_ _. None) (\<lambda>_. True) False (monitor_new ring_new)"

lemma ring_new_inv: "ring_inv ring_new {#} {#} {#} []"
  by (simp add: ring_inv_def ring_new_def ring_ok_def waiting_def pending_def)

text \<open>
  C13: However the threads interleave, the ring is a queue: the descriptors come out in the order in which
  they were accepted, each once; at most 31 wait; and when one waits no thread sleeps without another
  that has been waked for it.
\<close>

theorem ring_is_queue:
  assumes "ring_run m"
  shows "spec_run fifo (mn_log m) [] = Some (waiting (mn_state m)) \<and> length (waiting (mn_state m)) \<le> 31
    \<and> (mn_sleep m = {#} \<or> length (waiting (mn_state m)) \<le> size (mn_woken m))"
  using ring_monitor.from_new [OF assms ring_new_inv] pending_less [of "mn_state m"]
  by (simp add: ring_inv_def waiting_length)

text \<open>
  A connection that comes when 31 wait for a thread ends the server, although the ring has room for
  one more; with fewer it is put in; and a thread that is waked with a descriptor waiting gets the oldest.
\<close>

theorem ring_full_ends_server:
  assumes "ring_run m"
  shows "(ring_enter 0 (Accepted fd) (mn_state m) = Die \<longleftrightarrow> length (waiting (mn_state m)) = 31)
    \<and> (\<exists>s'. waiting (mn_state m) = r # q \<longrightarrow> ring_resume 0 (Take_next i) (mn_state m) = Return r s' [] \<and> waiting s' = q)"
proof -
  let ?s = "mn_state m"
  have ok: "ring_ok ?s" using ring_monitor.from_new [OF assms ring_new_inv] by (simp add: ring_inv_def)
  have "iget ?s \<noteq> iput ?s" if "waiting ?s = r # q" using that pending_0 [OF ok] by (auto simp: waiting_def)
  then have "\<exists>r' s' ws. ring_get ?s = Return r' s' ws" if "waiting ?s = r # q" using that by (auto simp: ring_get_def split: if_splits)
  then show ?thesis using put_outcome(1) [OF ok, of fd] get_outcome(2) [OF ok] by (fastforce simp: waiting_length)
qed

theorem ring_is_queue_witness:
  "\<exists>m. ring_run m \<and> mn_log m = [(Accepted 5, 5), (Accepted 6, 6), (Take_next 0, 5)] \<and> waiting (mn_state m) = [6]"
proof -
  let ?s1 = "ring_new\<lparr>clifd := (clifd ring_new)[0 := 5], iput := 1\<rparr>"
  let ?s2 = "?s1\<lparr>clifd := (clifd ?s1)[1 := 6], iput := 2\<rparr>"
  have start: "ring_run (monitor_new ring_new)" by simp
  have w: "wakes (\<lambda>_. ()) [Signal ()] {#} {#} {#} {#}" for sl :: "ring_call multiset" by (intro wake_nobody) simp_all
  have r1: "ring_run ((monitor_new ring_new)\<lparr>mn_state := ?s1, mn_log := [(Accepted 5, 5)]\<rparr>)"
    using reach_return [OF start, of 0 "Accepted 5" 5 ?s1 "[Signal ()]" "{#}" "{#}"] w
    by (simp add: monitor_new_def ring_put_def ring_new_def)
  have r2: "ring_run ((monitor_new ring_new)\<lparr>mn_state := ?s2, mn_log := [(Accepted 5, 5), (Accepted 6, 6)]\<rparr>)"
    using reach_return [OF r1, of 0 "Accepted 6" 6 ?s2 "[Signal ()]" "{#}" "{#}"] w
    by (simp add: monitor_new_def ring_put_def ring_new_def)
  have r3: "ring_run ((monitor_new ring_new)\<lparr>mn_state := ?s2\<lparr>iget := 1\<rparr>, mn_log := [(Accepted 5, 5), (Accepted 6, 6), (Take_next 0, 5)]\<rparr>)"
    using reach_return [OF r2, of 0 "Take_next 0" 5 "?s2\<lparr>iget := 1\<rparr>" "[]" "{#}" "{#}"]
    by (simp add: monitor_new_def ring_get_def ring_new_def)
  from ring_is_queue [OF r3] r3 show ?thesis by (auto simp: monitor_new_def)
qed

end
