(* ===== verification/Unp_Prefork.thy ===== *)
theory Unp_Prefork
  imports Prelude "HOL-Library.Multiset"
begin

text \<open>
  The preforked server that passes descriptors, UNIX.Network.Programming/unpv13e/server (serv05.c,
  child05.c): the parent accepts the connections and gives each to a child that is free over a stream
  pipe; a child writes a byte back when it is free again. Children do not die, and the pipes do not fail.
\<close>

subsection \<open>Parent and children\<close>

text \<open>\<open>Child\<close>, with the state of the process and of its pipe: the descriptors under way, the connection it serves, the bytes it has written that are not yet read.\<close>

record child =
  cd_status :: nat
  cd_count :: int
  cd_inbox :: "nat list"
  cd_conn :: "nat option"
  cd_answers :: nat

text \<open>The program: the children, \<open>navail\<close>, the connections that wait to be accepted, those that were accepted and served.\<close>

record prefork =
  pf_cptr :: "child list"
  pf_navail :: int
  pf_backlog :: "nat list"
  pf_accepted :: "nat list"
  pf_served :: "nat list"

definition child_make :: child where
  "child_make = \<lparr>cd_status = 0, cd_count = 0, cd_inbox = [], cd_conn = None, cd_answers = 0\<rparr>"

definition pf_start :: "nat \<Rightarrow> prefork" where
  "pf_start nchildren = \<lparr>pf_cptr = replicate nchildren child_make, pf_navail = int nchildren, pf_backlog = [], pf_accepted = [], pf_served = []\<rparr>"

definition set_child :: "nat \<Rightarrow> (child \<Rightarrow> child) \<Rightarrow> prefork \<Rightarrow> prefork" where
  "set_child i f s = s\<lparr>pf_cptr := (pf_cptr s)[i := f (pf_cptr s ! i)]\<rparr>"

definition available :: "prefork \<Rightarrow> nat option" where
  "available s = (case filter (\<lambda>i. cd_status (pf_cptr s ! i) = 0) [0..<length (pf_cptr s)] of [] \<Rightarrow> None | i # _ \<Rightarrow> Some i)"

text \<open>A new connection; \<open>Accept\<close> blocks when there is none.\<close>

definition pf_accept :: "prefork \<Rightarrow> bytes + prefork" where
  "pf_accept s =
     (case pf_backlog s of
        [] \<Rightarrow> Inl ''blocked in accept''
      | connfd # rest \<Rightarrow>
          (case available s of
             None \<Rightarrow> Inl ''no available children''
           | Some i \<Rightarrow>
               Inr ((set_child i (\<lambda>c. c\<lparr>cd_status := 1, cd_count := cd_count c + 1, cd_inbox := cd_inbox c @ [connfd]\<rparr>) s)
                 \<lparr>pf_navail := pf_navail s - 1, pf_backlog := rest, pf_accepted := pf_accepted s @ [connfd]\<rparr>)))"

text \<open>A byte of child \<open>i\<close>: it is free.\<close>

definition pf_ready :: "nat \<Rightarrow> prefork \<Rightarrow> prefork" where
  "pf_ready i s = (set_child i (\<lambda>c. c\<lparr>cd_status := 0, cd_answers := cd_answers c - 1\<rparr>) s)\<lparr>pf_navail := pf_navail s + 1\<rparr>"

text \<open>The loop over the children, left as soon as all that \<open>select\<close> has reported is done.\<close>

fun pf_collect :: "nat set \<Rightarrow> nat list \<Rightarrow> nat \<Rightarrow> prefork \<Rightarrow> prefork" where
  "pf_collect pipes [] nsel s = s"
| "pf_collect pipes (i # is) nsel s =
     (if i \<in> pipes then
        let s1 = pf_ready i s in if nsel - 1 = 0 then s1 else pf_collect pipes is (nsel - 1) s1
      else pf_collect pipes is nsel s)"

text \<open>
  A round of the parent: \<open>select\<close> reports the listening socket, which is asked for while a child is
  available, and the pipes of some children; \<open>nsel\<close> is how many descriptors it reports.
\<close>

definition pf_round :: "bool \<Rightarrow> nat set \<Rightarrow> prefork \<Rightarrow> bytes + prefork" where
  "pf_round listening pipes s =
     (let n = length (pf_cptr s); new = (listening \<and> \<not> pf_navail s \<le> 0);
          nsel = (if new then 1 else 0) + length (filter (\<lambda>i. i \<in> pipes) [0..<n]) in
      if new then
        (case pf_accept s of
           Inl m \<Rightarrow> Inl m
         | Inr s1 \<Rightarrow> if nsel - 1 = 0 then Inr s1 else Inr (pf_collect pipes [0..<n] (nsel - 1) s1))
      else Inr (pf_collect pipes [0..<n] nsel s))"

text \<open>A child takes the descriptor; it has served the connection and says so.\<close>

definition child_takes :: "nat \<Rightarrow> prefork \<Rightarrow> prefork" where
  "child_takes i s = set_child i (\<lambda>c. c\<lparr>cd_conn := Some (hd (cd_inbox c)), cd_inbox := tl (cd_inbox c)\<rparr>) s"

definition child_serves :: "nat \<Rightarrow> prefork \<Rightarrow> prefork" where
  "child_serves i s =
     (set_child i (\<lambda>c. c\<lparr>cd_conn := None, cd_answers := cd_answers c + 1\<rparr>) s)
       \<lparr>pf_served := pf_served s @ [the (cd_conn (pf_cptr s ! i))]\<rparr>"

inductive pf_step :: "prefork \<Rightarrow> prefork \<Rightarrow> bool" where
  client_connects: "pf_step s (s\<lparr>pf_backlog := pf_backlog s @ [c]\<rparr>)"
| parent_selects: "(listening \<longrightarrow> pf_backlog s \<noteq> []) \<Longrightarrow>
    (\<forall>i. i \<in> pipes \<longrightarrow> i < length (pf_cptr s) \<and> 0 < cd_answers (pf_cptr s ! i)) \<Longrightarrow>
    pf_round listening pipes s = Inr s' \<Longrightarrow> pf_step s s'"
| child_receives: "i < length (pf_cptr s) \<Longrightarrow> cd_conn (pf_cptr s ! i) = None \<Longrightarrow> cd_inbox (pf_cptr s ! i) \<noteq> [] \<Longrightarrow>
    pf_step s (child_takes i s)"
| child_done: "i < length (pf_cptr s) \<Longrightarrow> cd_conn (pf_cptr s ! i) \<noteq> None \<Longrightarrow> pf_step s (child_serves i s)"

inductive_cases pf_stepE: "pf_step s s'"

subsection \<open>Every connection has one child\<close>

text \<open>The connections that a child has or is given.\<close>

definition held :: "child \<Rightarrow> nat list" where
  "held c = cd_inbox c @ (case cd_conn c of None \<Rightarrow> [] | Some fd \<Rightarrow> [fd])"

text \<open>A busy child has exactly one connection, or has just served it; a free child has nothing.\<close>

definition child_ok :: "child \<Rightarrow> bool" where
  "child_ok c \<longleftrightarrow> cd_status c \<le> 1 \<and> length (held c) + cd_answers c = cd_status c"

definition free :: "child \<Rightarrow> int" where
  "free c = (if cd_status c = 0 then 1 else 0)"

definition pf_ok :: "prefork \<Rightarrow> bool" where
  "pf_ok s \<longleftrightarrow> (\<forall>c \<in> set (pf_cptr s). child_ok c) \<and> pf_navail s = sum_list (map free (pf_cptr s))
     \<and> mset (pf_accepted s) = mset (pf_served s) + sum_list (map (\<lambda>c. mset (held c)) (pf_cptr s))
     \<and> int (length (pf_accepted s)) = sum_list (map cd_count (pf_cptr s))"

lemma sum_list_change:
  fixes f :: "'a \<Rightarrow> 'b :: comm_monoid_add"
  shows "i < length xs \<Longrightarrow> sum_list (map f (xs[i := x])) + f (xs ! i) = sum_list (map f xs) + f x"
proof (induction xs arbitrary: i)
  case (Cons y xs)
  show ?case
  proof (cases i)
    case (Suc j)
    then have "sum_list (map f (xs[j := x])) + f (xs ! j) = sum_list (map f xs) + f x" using Cons by simp
    then show ?thesis using Suc by (simp add: ac_simps)
  qed (simp add: ac_simps)
qed simp

text \<open>What a change of one child does to the invariant.\<close>

lemma pf_ok_change:
  assumes "pf_ok s" and "i < length (pf_cptr s)" and "pf_cptr s' = (pf_cptr s)[i := c]" and "child_ok c"
    and "pf_navail s' + free (pf_cptr s ! i) = pf_navail s + free c"
    and "mset (pf_accepted s') + mset (pf_served s) + mset (held (pf_cptr s ! i)) = mset (pf_accepted s) + mset (pf_served s') + mset (held c)"
    and "int (length (pf_accepted s')) + cd_count (pf_cptr s ! i) = int (length (pf_accepted s)) + cd_count c"
  shows "pf_ok s'"
proof -
  note ok = assms(1) [unfolded pf_ok_def]
  have "\<forall>c \<in> set (pf_cptr s'). child_ok c"
    unfolding assms(3) using ok assms(4) set_update_subset_insert [of "pf_cptr s" i c] by blast
  moreover have "pf_navail s' = sum_list (map free (pf_cptr s'))" "int (length (pf_accepted s')) = sum_list (map cd_count (pf_cptr s'))"
    using ok assms(5,7) sum_list_change [OF assms(2), of free c] sum_list_change [OF assms(2), of cd_count c] by (simp_all add: assms(3))
  moreover have "mset (pf_accepted s') = mset (pf_served s') + sum_list (map (\<lambda>c. mset (held c)) (pf_cptr s'))"
  proof -
    let ?h = "\<lambda>cs. sum_list (map (\<lambda>c. mset (held c)) cs)" and ?o = "mset (held (pf_cptr s ! i))"
    have "mset (pf_accepted s') + mset (pf_served s) + ?o = mset (pf_served s) + ?h (pf_cptr s) + mset (pf_served s') + mset (held c)"
      using assms(6) ok by (simp add: ac_simps)
    also have "\<dots> = mset (pf_served s) + mset (pf_served s') + (?h (pf_cptr s') + ?o)"
      using sum_list_change [OF assms(2), of "\<lambda>c. mset (held c)" c] by (simp add: assms(3) ac_simps)
    finally show ?thesis by (simp add: ac_simps)
  qed
  ultimately show ?thesis by (simp add: pf_ok_def)
qed


lemma child_at: "pf_ok s \<Longrightarrow> i < length (pf_cptr s) \<Longrightarrow> child_ok (pf_cptr s ! i)"
  by (simp add: pf_ok_def)

lemma available_cases:
  "available s = Some i \<Longrightarrow> i < length (pf_cptr s) \<and> cd_status (pf_cptr s ! i) = 0"
  "available s = None \<Longrightarrow> \<forall>c \<in> set (pf_cptr s). cd_status c \<noteq> 0"
proof -
  let ?is = "filter (\<lambda>i. cd_status (pf_cptr s ! i) = 0) [0..<length (pf_cptr s)]"
  show "i < length (pf_cptr s) \<and> cd_status (pf_cptr s ! i) = 0" if "available s = Some i"
  proof -
    have "i \<in> set ?is" using that by (cases ?is) (simp_all add: available_def)
    then show ?thesis by simp
  qed
  assume "available s = None"
  then have "?is = []" by (cases ?is) (simp_all add: available_def)
  then show "\<forall>c \<in> set (pf_cptr s). cd_status c \<noteq> 0" by (auto simp: filter_empty_conv in_set_conv_nth)
qed

lemma accept_ok:
  assumes "pf_ok s" and "0 < pf_navail s" and "pf_backlog s = fd # rest"
  shows "\<exists>s'. pf_accept s = Inr s' \<and> pf_ok s' \<and> length (pf_cptr s') = length (pf_cptr s) \<and> pf_accepted s' = pf_accepted s @ [fd]
    \<and> (\<forall>i. 0 < cd_answers (pf_cptr s ! i) \<longrightarrow> pf_cptr s' ! i = pf_cptr s ! i)"
proof -
  have "available s \<noteq> None"
  proof
    assume "available s = None"
    then have "sum_list (map free (pf_cptr s)) = sum_list (map (\<lambda>_. 0) (pf_cptr s))"
      using available_cases(2) [of s] by (intro arg_cong [of _ _ sum_list] map_cong) (simp_all add: free_def)
    then have "pf_navail s = 0" using assms(1) by (simp add: pf_ok_def)
    then show False using assms(2) by simp
  qed
  then obtain i where i: "available s = Some i" by blast
  note a = available_cases(1) [OF i]
  have "held (pf_cptr s ! i) = [] \<and> cd_answers (pf_cptr s ! i) = 0"
    using child_at [OF assms(1), of i] a by (simp add: child_ok_def)
  then have c: "held (pf_cptr s ! i) = []" "cd_answers (pf_cptr s ! i) = 0" "cd_conn (pf_cptr s ! i) = None"
    "cd_inbox (pf_cptr s ! i) = []" by (auto simp: held_def split: option.splits)
  let ?c = "(pf_cptr s ! i)\<lparr>cd_status := 1, cd_count := cd_count (pf_cptr s ! i) + 1, cd_inbox := cd_inbox (pf_cptr s ! i) @ [fd]\<rparr>"
  let ?s' = "(set_child i (\<lambda>c. c\<lparr>cd_status := 1, cd_count := cd_count c + 1, cd_inbox := cd_inbox c @ [fd]\<rparr>) s)
      \<lparr>pf_navail := pf_navail s - 1, pf_backlog := rest, pf_accepted := pf_accepted s @ [fd]\<rparr>"
  have "pf_ok ?s'"
    by (rule pf_ok_change [OF assms(1), of i _ ?c]) (use a c in \<open>simp_all add: set_child_def child_ok_def held_def free_def\<close>)
  moreover have "pf_cptr ?s' ! j = pf_cptr s ! j" if "0 < cd_answers (pf_cptr s ! j)" for j
    using that c(2) by (cases "i = j") (simp_all add: set_child_def)
  moreover have "pf_accept s = Inr ?s'" using i assms(3) by (simp add: pf_accept_def)
  ultimately show ?thesis by (simp add: set_child_def)
qed

lemma ready_ok:
  assumes "pf_ok s" and "i < length (pf_cptr s)" and "0 < cd_answers (pf_cptr s ! i)"
  shows "pf_ok (pf_ready i s)"
proof -
  have c: "cd_status (pf_cptr s ! i) = 1" "held (pf_cptr s ! i) = []" "cd_answers (pf_cptr s ! i) = 1"
    using child_at [OF assms(1,2)] assms(3) by (cases "held (pf_cptr s ! i)"; simp add: child_ok_def)+
  show ?thesis
    by (rule pf_ok_change [OF assms(1,2), of _ "(pf_cptr s ! i)\<lparr>cd_status := 0, cd_answers := 0\<rparr>"])
      (use c in \<open>simp_all add: pf_ready_def set_child_def child_ok_def held_def free_def\<close>)
qed

text \<open>Leaving the loop early changes nothing: all that was reported has been read by then.\<close>

lemma collect_all:
  "nsel = length (filter (\<lambda>i. i \<in> pipes) is) \<Longrightarrow> pf_collect pipes is nsel s = fold pf_ready (filter (\<lambda>i. i \<in> pipes) is) s"
proof (induction "is" arbitrary: nsel s)
  case (Cons i "is")
  show ?case
  proof (cases "i \<in> pipes \<and> filter (\<lambda>i. i \<in> pipes) is = []")
    case True
    then show ?thesis using Cons.prems by simp
  next
    case False
    then show ?thesis using Cons by auto
  qed
qed simp

lemma fold_ready_ok:
  "pf_ok s \<Longrightarrow> distinct is \<Longrightarrow> \<forall>i \<in> set is. i < length (pf_cptr s) \<and> 0 < cd_answers (pf_cptr s ! i) \<Longrightarrow>
    pf_ok (fold pf_ready is s) \<and> pf_accepted (fold pf_ready is s) = pf_accepted s \<and> pf_served (fold pf_ready is s) = pf_served s"
proof (induction "is" arbitrary: s)
  case (Cons i "is")
  have "pf_ok (pf_ready i s)" using Cons.prems ready_ok by simp
  moreover have "\<forall>j \<in> set is. j < length (pf_cptr (pf_ready i s)) \<and> 0 < cd_answers (pf_cptr (pf_ready i s) ! j)"
    using Cons.prems by (auto simp: pf_ready_def set_child_def nth_list_update)
  ultimately show ?case using Cons.IH [of "pf_ready i s"] Cons.prems(2) by (simp add: pf_ready_def set_child_def)
qed simp

lemma round_ok:
  assumes "pf_ok s" and "listening \<longrightarrow> pf_backlog s \<noteq> []"
    and "\<forall>i. i \<in> pipes \<longrightarrow> i < length (pf_cptr s) \<and> 0 < cd_answers (pf_cptr s ! i)"
  shows "\<exists>s'. pf_round listening pipes s = Inr s' \<and> pf_ok s'"
proof -
  let ?n = "length (pf_cptr s)" let ?is = "filter (\<lambda>i. i \<in> pipes) [0..<?n]"
  have reads: "pf_ok (fold pf_ready ?is t)"
    if "pf_ok t" "\<forall>i \<in> set ?is. i < length (pf_cptr t) \<and> 0 < cd_answers (pf_cptr t ! i)" for t
    using fold_ready_ok [OF that(1) _ that(2)] by simp
  show ?thesis
  proof (cases "listening \<and> \<not> pf_navail s \<le> 0")
    case True
    then obtain fd rest where "pf_backlog s = fd # rest" using assms(2) by (cases "pf_backlog s") auto
    from accept_ok [OF assms(1) _ this] True obtain t where t: "pf_accept s = Inr t" "pf_ok t" "length (pf_cptr t) = ?n"
      "\<forall>i. 0 < cd_answers (pf_cptr s ! i) \<longrightarrow> pf_cptr t ! i = pf_cptr s ! i" by auto
    have "pf_ok (fold pf_ready ?is t)" using reads [OF t(2)] t(3,4) assms(3) by simp
    moreover have "pf_round listening pipes s = Inr (fold pf_ready ?is t)"
      using True t(1) collect_all [of "length ?is" pipes "[0..<?n]" t]
      by (cases "?is = []") (simp_all add: pf_round_def Let_def)
    ultimately show ?thesis by blast
  next
    case False
    have "pf_ok (fold pf_ready ?is s)" using reads [OF assms(1)] assms(3) by simp
    moreover have "pf_round listening pipes s = Inr (fold pf_ready ?is s)"
      unfolding pf_round_def Let_def if_not_P [OF False] using collect_all [of "length ?is" pipes "[0..<?n]" s] by simp
    ultimately show ?thesis by blast
  qed
qed

lemma pf_step_ok:
  assumes "pf_step s s'" and "pf_ok s"
  shows "pf_ok s'"
  using assms
proof (induction rule: pf_step.induct)
  case (client_connects s c)
  then show ?case by (simp add: pf_ok_def)
next
  case (parent_selects listening s pipes s')
  then show ?case using round_ok [OF parent_selects.prems parent_selects.hyps(1,2)] by auto
next
  case (child_receives i s)
  let ?c = "(pf_cptr s ! i)\<lparr>cd_conn := Some (hd (cd_inbox (pf_cptr s ! i))), cd_inbox := tl (cd_inbox (pf_cptr s ! i))\<rparr>"
  have h: "mset (held ?c) = mset (held (pf_cptr s ! i))" "length (held ?c) = length (held (pf_cptr s ! i))"
    using child_receives.hyps by (cases "cd_inbox (pf_cptr s ! i)"; simp add: held_def)+
  have "child_ok ?c" using child_at [OF child_receives.prems child_receives.hyps(1)] h(2) by (simp add: child_ok_def)
  then show ?case
    by (intro pf_ok_change [OF child_receives.prems child_receives.hyps(1), of _ ?c]) (use h in \<open>simp_all add: child_takes_def set_child_def free_def\<close>)
next
  case (child_done i s)
  let ?c = "(pf_cptr s ! i)\<lparr>cd_conn := None, cd_answers := cd_answers (pf_cptr s ! i) + 1\<rparr>"
  from child_done.hyps obtain fd where fd: "cd_conn (pf_cptr s ! i) = Some fd" by blast
  then have h: "held (pf_cptr s ! i) = held ?c @ [fd]" by (simp add: held_def)
  have "child_ok ?c" using child_at [OF child_done.prems child_done.hyps(1)] h by (simp add: child_ok_def)
  then show ?case
    by (intro pf_ok_change [OF child_done.prems child_done.hyps(1), of _ ?c])
      (use h fd in \<open>simp_all add: child_serves_def set_child_def free_def ac_simps\<close>)
qed

lemma pf_start_ok: "pf_ok (pf_start n)"
proof -
  have "sum_list (replicate n {#}) = ({#} :: nat multiset)" by (induction n) simp_all
  then show ?thesis
    by (simp add: pf_ok_def pf_start_def child_make_def child_ok_def held_def free_def sum_list_replicate)
qed

lemma pf_reachable: "pf_step\<^sup>*\<^sup>* (pf_start n) s \<Longrightarrow> pf_ok s"
  by (induction rule: rtranclp_induct) (auto intro: pf_start_ok pf_step_ok)

text \<open>
  C14: However parent and children run: \<open>navail\<close> is the number of children that are free, every round of the
  parent is completed and never fails to find a child for a connection, and every connection accepted
  has been served or is with exactly one child, which has no other.
\<close>

theorem prefork_gives_each_connection_once:
  assumes "pf_step\<^sup>*\<^sup>* (pf_start n) s"
  shows "pf_navail s = sum_list (map free (pf_cptr s))
    \<and> mset (pf_accepted s) = mset (pf_served s) + sum_list (map (\<lambda>c. mset (held c)) (pf_cptr s))
    \<and> (\<forall>c \<in> set (pf_cptr s). length (held c) + cd_answers c = cd_status c \<and> cd_status c \<le> 1)
    \<and> int (length (pf_accepted s)) = sum_list (map cd_count (pf_cptr s))
    \<and> ((listening \<longrightarrow> pf_backlog s \<noteq> []) \<and> (\<forall>i. i \<in> pipes \<longrightarrow> i < length (pf_cptr s) \<and> 0 < cd_answers (pf_cptr s ! i))
        \<longrightarrow> (\<exists>s'. pf_round listening pipes s = Inr s'))"
proof -
  have ok: "pf_ok s" by (rule pf_reachable [OF assms])
  then show ?thesis using round_ok [OF ok, of listening pipes] by (auto simp: pf_ok_def child_ok_def)
qed

theorem prefork_gives_each_connection_once_witness:
  "\<exists>s. pf_step\<^sup>*\<^sup>* (pf_start 1) s \<and> pf_accepted s = [7] \<and> pf_navail s = 0
    \<and> mset [7] = mset (pf_served s) + sum_list (map (\<lambda>c. mset (held c)) (pf_cptr s))"
proof -
  let ?s1 = "(pf_start 1)\<lparr>pf_backlog := [7]\<rparr>"
  let ?s2 = "?s1\<lparr>pf_cptr := [child_make\<lparr>cd_status := 1, cd_count := 1, cd_inbox := [7]\<rparr>], pf_navail := 0, pf_backlog := [], pf_accepted := [7]\<rparr>"
  have "pf_step (pf_start 1) ?s1" using client_connects [of "pf_start 1" 7] by (simp add: pf_start_def)
  moreover have "pf_round True {} ?s1 = Inr ?s2"
    by (simp add: pf_round_def pf_accept_def available_def set_child_def pf_start_def child_make_def Let_def)
  then have "pf_step ?s1 ?s2" by (intro parent_selects [of True _ "{}"]) simp_all
  ultimately have r: "pf_step\<^sup>*\<^sup>* (pf_start 1) ?s2" by (meson r_into_rtranclp rtranclp_trans)
  from prefork_gives_each_connection_once [OF r, of False "{}"] r show ?thesis by (intro exI [of _ ?s2]) simp
qed

end
