(* ===== verification/Unp_Rtt.thy ===== *)
theory Unp_Rtt
  imports Survey Stdio Complex_Main
begin

text \<open>
  Datagrams with retransmission, UNIX.Network.Programming/lib (rtt.c, rtt.h) and unpv13e/rtt
  (dg_send_recv.c, dg_cli.c, dg_echo.c): the estimators of the round-trip time, the exchange of a
  request and its reply with time-outs, and the client and the server on it. \<open>float\<close> and \<open>double\<close> are
  read as real numbers; a time is in seconds and microseconds; host byte order is little-endian. What
  the socket and the alarm clock do is an argument.
\<close>

subsection \<open>Estimators\<close>

type_synonym clock_time = "int \<times> int"

record rtt_info =
  rtt_rtt :: real
  rtt_srtt :: real
  rtt_rttvar :: real
  rtt_rto :: real
  rtt_nrexmt :: int
  rtt_base :: u32

definition RTT_RXTMIN :: real where "RTT_RXTMIN = 2"
definition RTT_RXTMAX :: real where "RTT_RXTMAX = 60"
definition RTT_MAXNREXMT :: int where "RTT_MAXNREXMT = 3"

definition RTT_RTOCALC :: "rtt_info \<Rightarrow> real" where
  "RTT_RTOCALC p = rtt_srtt p + 4 * rtt_rttvar p"

definition rtt_minmax :: "real \<Rightarrow> real" where
  "rtt_minmax rto = (if rto < RTT_RXTMIN then RTT_RXTMIN else if rto > RTT_RXTMAX then RTT_RXTMAX else rto)"

definition rtt_init :: "clock_time \<Rightarrow> rtt_info \<Rightarrow> rtt_info" where
  "rtt_init now p =
     (let p1 = p\<lparr>rtt_base := of_int (fst now), rtt_rtt := 0, rtt_srtt := 0, rtt_rttvar := 3 / 4\<rparr>
      in p1\<lparr>rtt_rto := rtt_minmax (RTT_RTOCALC p1)\<rparr>)"

definition rtt_ts :: "clock_time \<Rightarrow> rtt_info \<Rightarrow> u32" where
  "rtt_ts now p = of_int ((fst now - uint (rtt_base p)) * 1000 + snd now div 1000)"

definition rtt_newpack :: "rtt_info \<Rightarrow> rtt_info" where
  "rtt_newpack p = p\<lparr>rtt_nrexmt := 0\<rparr>"

definition rtt_start :: "rtt_info \<Rightarrow> int" where
  "rtt_start p = (let x = rtt_rto p + 1 / 2 in if x < 0 then \<lceil>x\<rceil> else \<lfloor>x\<rfloor>)"

definition rtt_stop :: "u32 \<Rightarrow> rtt_info \<Rightarrow> rtt_info" where
  "rtt_stop ms p =
     (let p1 = p\<lparr>rtt_rtt := real (unat ms) / 1000\<rparr>;
          delta = rtt_rtt p1 - rtt_srtt p1;
          p2 = p1\<lparr>rtt_srtt := rtt_srtt p1 + delta / 8\<rparr>;
          delta1 = (if delta < 0 then - delta else delta);
          p3 = p2\<lparr>rtt_rttvar := rtt_rttvar p2 + (delta1 - rtt_rttvar p2) / 4\<rparr>
      in p3\<lparr>rtt_rto := rtt_minmax (RTT_RTOCALC p3)\<rparr>)"

definition rtt_timeout :: "rtt_info \<Rightarrow> int \<times> rtt_info" where
  "rtt_timeout p =
     (let p1 = p\<lparr>rtt_rto := rtt_rto p * 2, rtt_nrexmt := rtt_nrexmt p + 1\<rparr>
      in (if rtt_nrexmt p1 > RTT_MAXNREXMT then -1 else 0, p1))"

subsection \<open>A request and its reply\<close>

text \<open>
  The static variables; \<open>dg_sent\<close> are the datagrams that have been sent, with the argument of the call
  of \<open>alarm\<close> after each.
\<close>

record dgc =
  dg_info :: rtt_info
  dg_rttinit :: bool
  dg_seq :: u32
  dg_errno :: int
  dg_sent :: "(bytes \<times> int) list"

text \<open>What comes while the client waits: the alarm or a datagram, at a time.\<close>

datatype dg_event = Alarm clock_time | Datagram clock_time bytes

abbreviation (input) HDR :: nat where "HDR \<equiv> 8"

definition dg_header :: "u32 \<Rightarrow> u32 \<Rightarrow> bytes" where
  "dg_header sq ts = le_bytes sq @ le_bytes ts"

definition dg_send :: "clock_time \<Rightarrow> bytes \<Rightarrow> dgc \<Rightarrow> dgc" where
  "dg_send now outbuff s =
     s\<lparr>dg_sent := dg_sent s @ [(dg_header (dg_seq s) (rtt_ts now (dg_info s)) @ outbuff, rtt_start (dg_info s))]\<rparr>"

text \<open>\<open>None\<close>: it still waits. The result is that of the function and what it has put into \<open>inbuff\<close>.\<close>

fun dg_wait :: "bytes \<Rightarrow> nat \<Rightarrow> dg_event list \<Rightarrow> dgc \<Rightarrow> (int \<times> bytes) option \<times> dgc \<times> dg_event list" where
  "dg_wait outbuff inbytes [] s = (None, s, [])"
| "dg_wait outbuff inbytes (Alarm now # evs) s =
     (case rtt_timeout (dg_info s) of
        (r, info) \<Rightarrow>
          if r < 0 then (Some (-1, []), s\<lparr>dg_info := info, dg_rttinit := False, dg_errno := 110\<rparr>, evs)
          else dg_wait outbuff inbytes evs (dg_send now outbuff (s\<lparr>dg_info := info\<rparr>)))"
| "dg_wait outbuff inbytes (Datagram now d # evs) s =
     (let n = min (length d) (HDR + inbytes) in
      if n < HDR \<or> le_word (take 4 d) \<noteq> dg_seq s then dg_wait outbuff inbytes evs s
      else (Some (int (n - HDR), take inbytes (drop HDR d)),
            s\<lparr>dg_info := rtt_stop (rtt_ts now (dg_info s) - le_word (take 4 (drop 4 d))) (dg_info s)\<rparr>, evs))"

definition dg_send_recv ::
    "clock_time \<Rightarrow> bytes \<Rightarrow> nat \<Rightarrow> dg_event list \<Rightarrow> dgc \<Rightarrow> (int \<times> bytes) option \<times> dgc \<times> dg_event list" where
  "dg_send_recv now outbuff inbytes evs s =
     (let s1 = (if \<not> dg_rttinit s then s\<lparr>dg_info := rtt_init now (dg_info s), dg_rttinit := True\<rparr> else s);
          s2 = s1\<lparr>dg_seq := dg_seq s1 + 1\<rparr>;
          s3 = s2\<lparr>dg_info := rtt_newpack (dg_info s2)\<rparr>
      in dg_wait outbuff inbytes evs (dg_send now outbuff s3))"

subsection \<open>Client and server\<close>

abbreviation (input) MAXLINE :: nat where "MAXLINE \<equiv> 4096"

definition dg_echo :: "bytes \<Rightarrow> bytes" where
  "dg_echo mesg = take MAXLINE mesg"

datatype dg_exit = Dg_end | Dg_waiting | Dg_quit bytes

text \<open>
  The client over the lines that \<open>Fgets\<close> gives; for every line the time and what comes. It puts out
  what stands in \<open>recvline\<close> before the first NUL.
\<close>

fun dg_lines :: "bytes list \<Rightarrow> (clock_time \<times> dg_event list) list \<Rightarrow> dgc \<Rightarrow> bytes \<Rightarrow> dg_exit \<times> bytes \<times> dgc" where
  "dg_lines [] sc s out = (Dg_end, out, s)"
| "dg_lines (l # ls) [] s out = (Dg_waiting, out, s)"
| "dg_lines (l # ls) ((now, evs) # sc) s out =
     (case dg_send_recv now (take (strlen l) l) MAXLINE evs s of
        (None, s1, _) \<Rightarrow> (Dg_waiting, out, s1)
      | (Some (n, got), s1, _) \<Rightarrow>
          if n < 0 then (Dg_quit ''dg_send_recv error'', out, s1)
          else dg_lines ls sc s1 (out @ before CHR 0x00 (got @ [CHR 0x00])))"

definition dg_cli :: "bytes \<Rightarrow> (clock_time \<times> dg_event list) list \<Rightarrow> dgc \<Rightarrow> dg_exit \<times> bytes \<times> dgc" where
  "dg_cli inp sc s = dg_lines (fgets_all MAXLINE inp) sc s []"

definition dg_start :: "rtt_info \<Rightarrow> dgc" where
  "dg_start info = \<lparr>dg_info = info, dg_rttinit = False, dg_seq = 0, dg_errno = 0, dg_sent = []\<rparr>"

subsection \<open>One exchange\<close>

definition is_alarm :: "dg_event \<Rightarrow> bool" where
  "is_alarm ev = (case ev of Alarm _ \<Rightarrow> True | Datagram _ _ \<Rightarrow> False)"

abbreviation alarms :: "dg_event list \<Rightarrow> nat" where
  "alarms evs \<equiv> length (filter is_alarm evs)"

text \<open>A datagram that is long enough and carries the sequence number.\<close>

definition own :: "u32 \<Rightarrow> bytes \<Rightarrow> bool" where
  "own sq d \<longleftrightarrow> HDR \<le> length d \<and> le_word (take 4 d) = sq"

definition own_in :: "u32 \<Rightarrow> dg_event list \<Rightarrow> bool" where
  "own_in sq evs \<longleftrightarrow> (\<exists>now d. Datagram now d \<in> set evs \<and> own sq d)"

lemma own_in_simps [simp]:
  "\<not> own_in sq []" "own_in sq (Alarm now # evs) = own_in sq evs" "own_in sq (Datagram now d # evs) \<longleftrightarrow> own sq d \<or> own_in sq evs"
  by (auto simp: own_in_def simp del: split_paired_Ex)

lemma is_alarm_simps [simp]: "is_alarm (Alarm now)" "\<not> is_alarm (Datagram now d)"
  by (simp_all add: is_alarm_def)

lemma rtt_minmax_range: "2 \<le> rtt_minmax x \<and> rtt_minmax x \<le> 60"
  by (simp add: rtt_minmax_def RTT_RXTMIN_def RTT_RXTMAX_def)

lemma rtt_stop_range: "2 \<le> rtt_rto (rtt_stop ms p) \<and> rtt_rto (rtt_stop ms p) \<le> 60"
  by (simp add: rtt_stop_def Let_def rtt_minmax_range)

text \<open>Between the exchanges the time-out is within its limits.\<close>

definition dg_ok :: "dgc \<Rightarrow> bool" where
  "dg_ok s \<longleftrightarrow> (dg_rttinit s \<longrightarrow> 2 \<le> rtt_rto (dg_info s) \<and> rtt_rto (dg_info s) \<le> 60)"

text \<open>The datagrams with one number and one payload, the \<open>i\<close>-th with the alarm of the \<open>i\<close>-th doubling.\<close>

definition resent :: "u32 \<Rightarrow> bytes \<Rightarrow> real \<Rightarrow> (bytes \<times> int) list \<Rightarrow> bool" where
  "resent sq out r new \<longleftrightarrow> (\<forall>i < length new. (\<exists>ts. fst (new ! i) = dg_header sq ts @ out) \<and> snd (new ! i) = \<lfloor>r * 2 ^ i + 1 / 2\<rfloor>)"

lemma resent_Cons: "resent sq out r ((dg_header sq ts @ out, \<lfloor>r + 1 / 2\<rfloor>) # new) \<longleftrightarrow> resent sq out (2 * r) new"
proof -
  have e: "2 * r * 2 ^ i = r * (2 * 2 ^ i)" for i :: nat by simp
  show ?thesis unfolding resent_def e by (auto simp: nth_Cons split: nat.splits)
qed

definition dg_result :: "u32 \<Rightarrow> nat \<Rightarrow> (int \<times> bytes) option \<Rightarrow> dgc \<Rightarrow> dg_event list \<Rightarrow> dg_event list \<Rightarrow> bool" where
  "dg_result sq inbytes r s pre rest \<longleftrightarrow>
     (case r of
        None \<Rightarrow> rest = [] \<and> \<not> own_in sq pre
      | Some (n, got) \<Rightarrow>
          if n < 0 then \<not> own_in sq pre \<and> \<not> dg_rttinit s
          else \<exists>pre' now d. pre = pre' @ [Datagram now d] \<and> own sq d \<and> \<not> own_in sq pre' \<and> dg_rttinit s
            \<and> got = take inbytes (drop HDR d) \<and> n = int (length got))"

lemma dg_result_Cons:
  assumes "dg_result sq inbytes r s pre rest" and "\<not> own_in sq [ev]"
  shows "dg_result sq inbytes r s (ev # pre) rest"
proof -
  have "own_in sq (ev # xs) = own_in sq xs" for xs using assms(2) by (cases ev) auto
  moreover have "(\<exists>pre' now d. pre = pre' @ [Datagram now d] \<and> P pre' d) \<Longrightarrow> \<exists>pre' now d. ev # pre = pre' @ [Datagram now d] \<and> P (tl pre') d \<and> pre' = ev # tl pre'" for P
    by (metis append_Cons list.sel(3))
  ultimately show ?thesis using assms(1) unfolding dg_result_def
    by (auto split: option.splits if_splits)
qed

lemma dg_wait_contract:
  assumes "dg_wait out inbytes evs s = (r, s', rest)" and "dg_rttinit s" and "rtt_nrexmt (dg_info s) = int k" and "k \<le> 3"
    and "0 \<le> rtt_rto (dg_info s)"
  shows "\<exists>pre new. evs = pre @ rest \<and> dg_sent s' = dg_sent s @ new \<and> dg_seq s' = dg_seq s
    \<and> resent (dg_seq s) out (2 * rtt_rto (dg_info s)) new
    \<and> (case r of Some (n, _) \<Rightarrow> if n < 0 then k + alarms pre = 4 \<and> length new + 1 = alarms pre else k + alarms pre \<le> 3 \<and> length new = alarms pre \<and> dg_ok s'
         | None \<Rightarrow> k + alarms pre \<le> 3 \<and> length new = alarms pre)
    \<and> dg_result (dg_seq s) inbytes r s' pre rest"
  using assms
proof (induction out inbytes evs s arbitrary: k rule: dg_wait.induct)
  case (1 out inbytes s)
  then show ?case by (auto intro!: exI [of _ "[]"] simp: resent_def dg_result_def)
next
  case (2 out inbytes now evs s)
  obtain t info where t: "rtt_timeout (dg_info s) = (t, info)" by fastforce
  then have info: "rtt_rto info = 2 * rtt_rto (dg_info s)" "rtt_nrexmt info = int (k + 1)" "t < 0 \<longleftrightarrow> k = 3"
    using 2(4,5) by (auto simp: rtt_timeout_def RTT_MAXNREXMT_def Let_def split: if_splits)
  show ?case
  proof (cases "k = 3")
    case True
    then have "r = Some (-1, [])" "rest = evs" "s' = s\<lparr>dg_info := info, dg_rttinit := False, dg_errno := 110\<rparr>"
      using 2(2) t info(3) by auto
    then show ?thesis using True by (intro exI [of _ "[Alarm now]"] exI [of _ "[]"]) (simp add: resent_def dg_result_def)
  next
    case False
    let ?s1 = "dg_send now out (s\<lparr>dg_info := info\<rparr>)"
    have w: "dg_wait out inbytes evs ?s1 = (r, s', rest)" using 2(2) t info(3) False by simp
    have "k + 1 \<le> 3" "dg_rttinit ?s1" "rtt_nrexmt (dg_info ?s1) = int (k + 1)" "0 \<le> rtt_rto (dg_info ?s1)"
      using 2(3,5,6) False info by (simp_all add: dg_send_def)
    from 2(1) [OF t [symmetric] _ w this(2,3,1,4)] False info(3)
    obtain pre new where p: "evs = pre @ rest" "dg_sent s' = dg_sent ?s1 @ new" "dg_seq s' = dg_seq s"
      "resent (dg_seq s) out (2 * rtt_rto info) new"
      "case r of Some (n, _) \<Rightarrow> if n < 0 then k + 1 + alarms pre = 4 \<and> length new + 1 = alarms pre else k + 1 + alarms pre \<le> 3 \<and> length new = alarms pre \<and> dg_ok s'
         | None \<Rightarrow> k + 1 + alarms pre \<le> 3 \<and> length new = alarms pre"
      "dg_result (dg_seq s) inbytes r s' pre rest"
      by (auto simp: dg_send_def)
    have start: "rtt_start info = \<lfloor>rtt_rto info + 1 / 2\<rfloor>" using 2(6) info(1) by (simp add: rtt_start_def Let_def)
    let ?new = "(dg_header (dg_seq s) (rtt_ts now info) @ out, rtt_start info) # new"
    have "resent (dg_seq s) out (2 * rtt_rto (dg_info s)) ?new"
      using p(4) unfolding start by (subst info(1) [symmetric], subst resent_Cons)
    moreover have "dg_result (dg_seq s) inbytes r s' (Alarm now # pre) rest" using p(6) by (rule dg_result_Cons) simp
    ultimately show ?thesis using p(1-3,5)
      by (intro exI [of _ "Alarm now # pre"] exI [of _ ?new]) (auto simp: dg_send_def split: option.splits if_splits)
  qed
next
  case (3 out inbytes now d evs s)
  let ?n = "min (length d) (HDR + inbytes)"
  have skip: "?n < HDR \<or> le_word (take 4 d) \<noteq> dg_seq s \<longleftrightarrow> \<not> own (dg_seq s) d" by (auto simp: own_def)
  show ?case
  proof (cases "own (dg_seq s) d")
    case True
    then have "r = Some (int (?n - HDR), take inbytes (drop HDR d))" "rest = evs"
      "s' = s\<lparr>dg_info := rtt_stop (rtt_ts now (dg_info s) - le_word (take 4 (drop 4 d))) (dg_info s)\<rparr>"
      using 3(2) skip by (auto simp: Let_def split: if_splits)
    then show ?thesis using True 3(3,5) rtt_stop_range
      by (intro exI [of _ "[Datagram now d]"] exI [of _ "[]"]) (auto simp: resent_def dg_result_def dg_ok_def own_def min_def)
  next
    case False
    then have w: "dg_wait out inbytes evs s = (r, s', rest)" using 3(2) skip by (simp add: Let_def)
    from 3(1) [OF refl _ w 3(3-6)] False skip
    obtain pre new where p: "evs = pre @ rest" "dg_sent s' = dg_sent s @ new" "dg_seq s' = dg_seq s"
      "resent (dg_seq s) out (2 * rtt_rto (dg_info s)) new"
      "case r of Some (n, _) \<Rightarrow> if n < 0 then k + alarms pre = 4 \<and> length new + 1 = alarms pre else k + alarms pre \<le> 3 \<and> length new = alarms pre \<and> dg_ok s'
         | None \<Rightarrow> k + alarms pre \<le> 3 \<and> length new = alarms pre"
      "dg_result (dg_seq s) inbytes r s' pre rest"
      by blast
    have "dg_result (dg_seq s) inbytes r s' (Datagram now d # pre) rest" using p(6) by (rule dg_result_Cons) (simp add: False)
    then show ?thesis using p(1-5)
      by (intro exI [of _ "Datagram now d # pre"] exI [of _ new]) (auto split: option.splits prod.splits if_splits)
  qed
qed

lemma dg_result_None: "dg_result sq inbytes None s pre rest \<Longrightarrow> rest = []"
  by (simp add: dg_result_def)

lemma dg_call_contract:
  assumes "dg_ok s" and "dg_send_recv now out inbytes evs s = (r, s', rest)"
  shows "\<exists>pre new r0. evs = pre @ rest \<and> dg_sent s' = dg_sent s @ new \<and> dg_seq s' = dg_seq s + 1
    \<and> 2 \<le> r0 \<and> r0 \<le> 60 \<and> resent (dg_seq s + 1) out r0 new
    \<and> (case r of Some (n, _) \<Rightarrow> if n < 0 then alarms pre = 4 \<and> length new = 4 else alarms pre \<le> 3 \<and> length new = alarms pre + 1
         | None \<Rightarrow> alarms pre \<le> 3 \<and> length new = alarms pre + 1)
    \<and> dg_result (dg_seq s + 1) inbytes r s' pre rest \<and> (r \<noteq> None \<longrightarrow> dg_ok s')"
proof -
  define s3 where "s3 = (let s1 = (if \<not> dg_rttinit s then s\<lparr>dg_info := rtt_init now (dg_info s), dg_rttinit := True\<rparr> else s);
      s2 = s1\<lparr>dg_seq := dg_seq s1 + 1\<rparr> in s2\<lparr>dg_info := rtt_newpack (dg_info s2)\<rparr>)"
  have s3: "dg_rttinit s3" "rtt_nrexmt (dg_info s3) = int 0" "dg_seq s3 = dg_seq s + 1" "dg_sent s3 = dg_sent s"
    by (auto simp: s3_def rtt_newpack_def Let_def)
  have "rtt_rto (dg_info s3) = (if dg_rttinit s then rtt_rto (dg_info s) else rtt_rto (rtt_init now (dg_info s)))"
    by (simp add: s3_def rtt_newpack_def Let_def)
  then have rto: "2 \<le> rtt_rto (dg_info s3)" "rtt_rto (dg_info s3) \<le> 60"
    using assms(1) rtt_minmax_range by (auto simp: dg_ok_def rtt_init_def Let_def)
  let ?s = "dg_send now out s3"
  have w: "dg_wait out inbytes evs ?s = (r, s', rest)" using assms(2) by (simp add: dg_send_recv_def s3_def Let_def)
  have "dg_rttinit ?s" "rtt_nrexmt (dg_info ?s) = int 0" "0 \<le> rtt_rto (dg_info ?s)" using s3 rto by (simp_all add: dg_send_def)
  from dg_wait_contract [OF w this(1,2) _ this(3), unfolded add_0]
  obtain pre new where p: "evs = pre @ rest" "dg_sent s' = dg_sent ?s @ new" "dg_seq s' = dg_seq s + 1"
    "resent (dg_seq s + 1) out (2 * rtt_rto (dg_info s3)) new"
    "case r of Some (n, _) \<Rightarrow> if n < 0 then alarms pre = 4 \<and> length new + 1 = alarms pre else alarms pre \<le> 3 \<and> length new = alarms pre \<and> dg_ok s'
       | None \<Rightarrow> alarms pre \<le> 3 \<and> length new = alarms pre"
    "dg_result (dg_seq s + 1) inbytes r s' pre rest"
    using s3 by (auto simp: dg_send_def)
  let ?first = "(dg_header (dg_seq s + 1) (rtt_ts now (dg_info s3)) @ out, \<lfloor>rtt_rto (dg_info s3) + 1 / 2\<rfloor>)"
  have "rtt_start (dg_info s3) = \<lfloor>rtt_rto (dg_info s3) + 1 / 2\<rfloor>" using rto by (simp add: rtt_start_def Let_def)
  then have "dg_sent s' = dg_sent s @ ?first # new" using p(2) s3 by (simp add: dg_send_def)
  moreover have "resent (dg_seq s + 1) out (rtt_rto (dg_info s3)) (?first # new)" using p(4) by (subst resent_Cons)
  moreover have "r \<noteq> None \<longrightarrow> dg_ok s'" using p(5,6) by (auto simp: dg_result_def dg_ok_def split: option.splits if_splits)
  moreover have "case r of Some (n, _) \<Rightarrow> if n < 0 then alarms pre = 4 \<and> length (?first # new) = 4 else alarms pre \<le> 3 \<and> length (?first # new) = alarms pre + 1
       | None \<Rightarrow> alarms pre \<le> 3 \<and> length (?first # new) = alarms pre + 1"
    using p(5) by (auto split: option.splits if_splits)
  ultimately show ?thesis using p(1,3,6) rto by blast
qed

text \<open>
  C32: Every call sends its request under a new sequence number, at most four times, with alarms that are
  doubled from a first one between 2 and 60 seconds; it gives up exactly at the fourth alarm without a
  reply, and otherwise returns at the first datagram that carries its number, with the data behind
  the header. After that the time-out is between 2 and 60 seconds again, or is set anew.
\<close>

theorem dg_send_recv_contract:
  assumes "dg_ok s" and "dg_send_recv now out inbytes evs s = (r, s', rest)"
  shows "\<exists>pre new r0. evs = pre @ rest \<and> dg_sent s' = dg_sent s @ new \<and> dg_seq s' = dg_seq s + 1
    \<and> 2 \<le> r0 \<and> r0 \<le> 60 \<and> resent (dg_seq s + 1) out r0 new
    \<and> (case r of Some (n, _) \<Rightarrow> if n < 0 then alarms pre = 4 \<and> length new = 4 else alarms pre \<le> 3 \<and> length new = alarms pre + 1
         | None \<Rightarrow> alarms pre \<le> 3 \<and> length new = alarms pre + 1)
    \<and> dg_result (dg_seq s + 1) inbytes r s' pre rest \<and> (r \<noteq> None \<longrightarrow> dg_ok s')"
  by (rule dg_call_contract [OF assms])

text \<open>
  The longest wait before the client gives up: 15 times the first time-out, which no time-out within the
  exchange is limited to 60 seconds by, so that the last alarm may be 480 seconds.
\<close>

lemma resent_alarm:
  assumes "resent sq out r0 new" and "i < length new" and "length new \<le> 4" and "2 \<le> r0" and "r0 \<le> 60"
  shows "2 \<le> snd (new ! i) \<and> snd (new ! i) \<le> 480"
proof -
  have "i \<le> 3" using assms(2,3) by simp
  then have "(2 :: real) ^ i \<le> 2 ^ 3" by (intro power_increasing) simp_all
  moreover have "(1 :: real) \<le> 2 ^ i" by simp
  ultimately have "2 * 1 \<le> r0 * 2 ^ i" "r0 * 2 ^ i \<le> 60 * 8" using assms(4,5) by (intro mult_mono; simp)+
  moreover have "snd (new ! i) = \<lfloor>r0 * 2 ^ i + 1 / 2\<rfloor>" using assms(1,2) by (simp add: resent_def)
  ultimately show ?thesis by linarith
qed

subsection \<open>Client and server together\<close>

text \<open>
  A network that loses, repeats and reorders datagrams: whatever comes in the \<open>i\<close>-th exchange is what the
  server made of something that was sent in this exchange or in one before.
\<close>

definition lossy_network :: "bytes list \<Rightarrow> (clock_time \<times> dg_event list) list \<Rightarrow> bool" where
  "lossy_network reqs sc \<longleftrightarrow> (\<forall>i < length sc. \<forall>now d. Datagram now d \<in> set (snd (sc ! i)) \<longrightarrow>
     (\<exists>k ts. k \<le> i \<and> k < length reqs \<and> d = dg_echo (dg_header (of_nat (k + 1)) ts @ reqs ! k)))"

lemma own_reply:
  assumes "lossy_network reqs sc" and "i < length sc" and "i + 1 < 2 ^ 32" and "Datagram now d \<in> set (snd (sc ! i))"
    and "own (of_nat (i + 1)) d"
  shows "i < length reqs \<and> take 4096 (drop 8 d) = take 4088 (reqs ! i)"
proof -
  obtain k ts where d: "k \<le> i" "k < length reqs" "d = take 4096 (dg_header (of_nat (k + 1)) ts @ reqs ! k)"
    using assms(1,2,4) unfolding lossy_network_def dg_echo_def by blast
  have hd4: "take 4 (take 4096 (le_bytes v @ xs)) = le_bytes v" for v xs by simp
  have "le_word (take 4 d) = of_nat (k + 1)" unfolding d(3) dg_header_def append_assoc hd4 by simp
  then have "(of_nat (k + 1) :: u32) = of_nat (i + 1)" using assms(5) by (simp add: own_def del: of_nat_add of_nat_Suc)
  then have "k + 1 = i + 1" using assms(3) d(1) by (simp add: word_of_nat_eq_iff take_bit_nat_eq_self del: of_nat_add of_nat_Suc)
  moreover have "take 4096 (drop 8 d) = take 4088 (reqs ! k)" unfolding d(3) dg_header_def by (simp add: drop_take)
  ultimately show ?thesis using d(2) by simp
qed

text \<open>A reply to the request comes before the fourth time-out.\<close>

definition answered_in_time :: "u32 \<Rightarrow> dg_event list \<Rightarrow> bool" where
  "answered_in_time sq evs \<longleftrightarrow> (\<exists>before_it now d after_it. evs = before_it @ Datagram now d # after_it \<and> own sq d \<and> alarms before_it < 4)"

lemma dg_call_answered:
  assumes "dg_ok s" and "dg_send_recv now out inbytes evs s = (r, s', rest)" and "answered_in_time (dg_seq s + 1) evs"
  shows "\<exists>n got. r = Some (n, got) \<and> 0 \<le> n"
proof (rule ccontr)
  assume no: "\<not> (\<exists>n got. r = Some (n, got) \<and> 0 \<le> n)"
  obtain A t d B where A: "evs = A @ Datagram t d # B" "own (dg_seq s + 1) d" "alarms A < 4"
    using assms(3) unfolding answered_in_time_def by blast
  obtain pre where pre: "evs = pre @ rest" "dg_result (dg_seq s + 1) inbytes r s' pre rest"
    "case r of Some (n, _) \<Rightarrow> if n < 0 then alarms pre = 4 else alarms pre \<le> 3 | None \<Rightarrow> alarms pre \<le> 3"
    using dg_call_contract [OF assms(1,2)] by (auto split: option.splits if_splits)
  have none: "\<not> own_in (dg_seq s + 1) pre" and end4: "rest = [] \<or> alarms pre = 4"
    using pre(2,3) no by (auto simp: dg_result_def split: option.splits if_splits)
  show False
  proof (cases "length pre \<le> length A")
    case True
    then obtain C where C: "A = pre @ C" using pre(1) A(1) by (metis append_eq_append_conv2 append_eq_append_conv_if append_take_drop_id)
    then show False using A pre(1) end4 by auto
  next
    case False
    then have "take (length pre) evs ! length A = evs ! length A" by simp
    then have "take (length pre) evs ! length A = Datagram t d" using A(1) by simp
    then have "Datagram t d \<in> set pre" using pre(1) False by (metis append_eq_conv_conj linorder_not_le nth_mem)
    then show False using none A(2) unfolding own_in_def by blast
  qed
qed

lemma dg_lines_answers:
  assumes "lossy_network (pre @ ls) (pre_sc @ sc)" and "length pre_sc = length pre" and "length pre + length ls < 2 ^ 32"
    and "\<forall>l \<in> set ls. CHR 0x00 \<notin> set l" and "dg_ok s" and "dg_seq s = of_nat (length pre)"
    and "dg_lines ls sc s out = (e, out', s')"
  shows "\<exists>m \<le> length ls. out' = out @ concat (map (take 4088) (take m ls)) \<and> (e = Dg_end \<longrightarrow> m = length ls)
    \<and> ((\<forall>i < length ls. i < length sc \<and> answered_in_time (of_nat (length pre + i + 1)) (snd (sc ! i))) \<longrightarrow> e = Dg_end)"
  using assms
proof (induction ls arbitrary: sc s out pre pre_sc)
  case (Cons l ls)
  note net = Cons.prems(1) and lens = Cons.prems(2,3) and ok = Cons.prems(5,6) and run = Cons.prems(7)
  have l: "take (strlen l) l = l" "CHR 0x00 \<notin> set l" using Cons.prems(4) by (simp_all add: strlen_line)
  show ?case
  proof (cases sc)
    case Nil
    then show ?thesis using run by (intro exI [of _ 0]) auto
  next
    case (Cons script sc1)
    obtain now evs where sc: "sc = (now, evs) # sc1" using Cons by (cases script) simp
    obtain r s1 rest where call: "dg_send_recv now l 4096 evs s = (r, s1, rest)" by (metis prod_cases3)
    from dg_call_contract [OF ok(1) call] obtain hd where c: "evs = hd @ rest" "dg_seq s1 = of_nat (length pre + 1)"
      "dg_result (of_nat (length pre + 1)) 4096 r s1 hd rest" "r \<noteq> None \<longrightarrow> dg_ok s1" using ok(2) by (auto simp: add.commute)
    show ?thesis
    proof (cases "\<exists>n got. r = Some (n, got) \<and> 0 \<le> n")
      case False
      then have "e \<noteq> Dg_end \<and> out' = out" using run call l(1) sc by (cases r) (auto split: if_splits)
      moreover have "\<not> answered_in_time (of_nat (length pre + 1)) evs"
        using dg_call_answered [OF ok(1) call] False ok(2) by (auto simp: add.commute)
      ultimately show ?thesis using sc by (intro exI [of _ 0]) auto
    next
      case True
      then obtain n got where p: "r = Some (n, got)" "\<not> n < 0" by auto
      then obtain hd' t d where d: "hd = hd' @ [Datagram t d]" "own (of_nat (length pre + 1)) d" "got = take 4096 (drop 8 d)"
        using c(3) by (auto simp: dg_result_def)
      have "got = take 4088 ((pre @ l # ls) ! length pre)"
        using own_reply [OF net, of "length pre" t d] lens c(1) d sc by (simp add: nth_append)
      then have got: "got = take 4088 l" by simp
      then have "CHR 0x00 \<notin> set got" using l(2) by (auto dest: in_set_takeD)
      then have "dg_lines ls sc1 s1 (out @ got) = (e, out', s')" using run call l(1) p sc by simp
      from Cons.IH [of "pre @ [l]" "pre_sc @ [(now, evs)]", OF _ _ _ _ _ _ this]
      have "\<exists>m \<le> length ls. out' = (out @ got) @ concat (map (take 4088) (take m ls)) \<and> (e = Dg_end \<longrightarrow> m = length ls)
        \<and> ((\<forall>i < length ls. i < length sc1 \<and> answered_in_time (of_nat (length (pre @ [l]) + i + 1)) (snd (sc1 ! i))) \<longrightarrow> e = Dg_end)"
        using net lens Cons.prems(4) c(2,4) p(1) sc by simp
      then obtain m where m: "m \<le> length ls" "out' = (out @ got) @ concat (map (take 4088) (take m ls))" "e = Dg_end \<longrightarrow> m = length ls"
        "(\<forall>i < length ls. i < length sc1 \<and> answered_in_time (of_nat (length (pre @ [l]) + i + 1)) (snd (sc1 ! i))) \<longrightarrow> e = Dg_end" by blast
      have "e = Dg_end" if a: "\<forall>i < length (l # ls). i < length sc \<and> answered_in_time (of_nat (length pre + i + 1)) (snd (sc ! i))"
        using m(4) a [rule_format, of "Suc i" for i] sc by simp
      then show ?thesis using m(1-3) got by (intro exI [of _ "Suc m"]) simp
    qed
  qed
qed simp

text \<open>
  C9: Whatever the network loses, repeats and puts out of order: what the client puts out are the answers to
  its first lines, in their order and each once. When to each request a reply comes before the fourth
  time-out of its exchange, the client comes to the end of its input and has put out the answers to all
  lines. An answer is the line, but only its first 4088 characters, for the server takes 4096 with the
  header: when no line is longer, the output is the input.
\<close>

theorem dg_cli_echoes:
  assumes "lossy_network (fgets_all 4096 inp) sc" and "length (fgets_all 4096 inp) < 2 ^ 32" and "CHR 0x00 \<notin> set inp"
    and "dg_cli inp sc (dg_start info) = (e, out, s)"
  shows "(\<exists>m \<le> length (fgets_all 4096 inp). out = concat (map (take 4088) (take m (fgets_all 4096 inp)))
      \<and> (e = Dg_end \<longrightarrow> m = length (fgets_all 4096 inp)))
    \<and> ((\<forall>i < length (fgets_all 4096 inp). i < length sc \<and> answered_in_time (of_nat (i + 1)) (snd (sc ! i)))
        \<longrightarrow> e = Dg_end \<and> out = concat (map (take 4088) (fgets_all 4096 inp))
            \<and> ((\<forall>l \<in> set (fgets_all 4096 inp). length l \<le> 4088) \<longrightarrow> out = inp))"
proof -
  have "\<forall>l \<in> set (fgets_all 4096 inp). CHR 0x00 \<notin> set l" using assms(3) fgets_all_bounds by blast
  with dg_lines_answers [of "[]" "fgets_all 4096 inp" "[]" sc "dg_start info" "[]" e out s] assms
  obtain m where m: "m \<le> length (fgets_all 4096 inp)" "out = concat (map (take 4088) (take m (fgets_all 4096 inp)))"
    "e = Dg_end \<longrightarrow> m = length (fgets_all 4096 inp)"
    "(\<forall>i < length (fgets_all 4096 inp). i < length sc \<and> answered_in_time (of_nat (i + 1)) (snd (sc ! i))) \<longrightarrow> e = Dg_end"
    by (auto simp: dg_cli_def dg_start_def dg_ok_def)
  have "concat (map (take 4088) (fgets_all 4096 inp)) = inp" if "\<forall>l \<in> set (fgets_all 4096 inp). length l \<le> 4088"
    using that fgets_all_concat [of 4096 inp] by (simp add: map_idI)
  with m show ?thesis by (metis (no_types, lifting) order_refl take_all)
qed

theorem dg_send_recv_contract_witness:
  "\<forall>info. \<exists>s' new. dg_send_recv (100, 0) ''hi'' 10 [Alarm (103, 0), Alarm (109, 0), Alarm (121, 0), Alarm (145, 0)] (dg_start info)
      = (Some (-1, []), s', []) \<and> dg_sent s' = new \<and> length new = 4 \<and> map snd new = [3, 6, 12, 24] \<and> \<not> dg_rttinit s'"
proof
  fix info :: rtt_info
  let ?evs = "[Alarm (103, 0), Alarm (109, 0), Alarm (121, 0), Alarm (145, 0)]"
  have r: "rtt_rto (rtt_init (100, 0) info) = 3"
    by (simp add: rtt_init_def rtt_minmax_def RTT_RTOCALC_def RTT_RXTMIN_def RTT_RXTMAX_def Let_def)
  let ?X = "dg_send_recv (100, 0) ''hi'' 10 ?evs (dg_start info)"
  note defs = dg_send_recv_def dg_start_def rtt_newpack_def dg_send_def rtt_timeout_def RTT_MAXNREXMT_def Let_def
  define s' where "s' = fst (snd ?X)"
  have "fst ?X = Some (-1, [])" by (simp add: defs)
  moreover have "snd (snd ?X) = []" by (simp add: defs)
  ultimately have run: "?X = (Some (-1, []), s', [])" unfolding s'_def by (metis prod.collapse)
  have alarms: "map snd (dg_sent s') = [3, 6, 12, 24]" unfolding s'_def by (simp add: defs rtt_start_def r)
  have ok: "dg_ok (dg_start info)" by (simp add: dg_ok_def dg_start_def)
  from dg_send_recv_contract [OF ok run] obtain pre new where p: "dg_sent s' = dg_sent (dg_start info) @ new" "length new = 4"
    "dg_result (dg_seq (dg_start info) + 1) 10 (Some (-1, [])) s' pre []" by auto
  then have "length (dg_sent s') = 4" "\<not> dg_rttinit s'" by (simp_all add: dg_start_def dg_result_def)
  then show "\<exists>s' new. dg_send_recv (100, 0) ''hi'' 10 ?evs (dg_start info) = (Some (-1, []), s', []) \<and> dg_sent s' = new
      \<and> length new = 4 \<and> map snd new = [3, 6, 12, 24] \<and> \<not> dg_rttinit s'"
    using run alarms by (intro exI [of _ s'] exI [of _ "dg_sent s'"] conjI) (assumption | rule refl)+
qed

theorem dg_cli_echoes_witness:
  "\<forall>info. \<exists>out s. dg_cli (''hi'' @ [NL]) [((100, 0), [Alarm (103, 0), Datagram (104, 0) (dg_echo (dg_header 1 0 @ ''hi'' @ [NL]))])] (dg_start info)
      = (Dg_end, out, s) \<and> out = ''hi'' @ [NL]"
proof
  fix info :: rtt_info
  let ?inp = "''hi'' @ [NL]" and ?sc = "[((100, 0), [Alarm (103, 0), Datagram (104, 0) (dg_echo (dg_header 1 0 @ ''hi'' @ [NL]))])]"
  have "is_line 4096 ?inp" by (simp add: is_line_split)
  then have ls: "fgets_all 4096 ?inp = [?inp]" using fgets_all_lines [of "[?inp]" 4096] by simp
  have net: "lossy_network (fgets_all 4096 ?inp) ?sc" unfolding ls lossy_network_def by (auto intro!: exI [of _ "0 :: nat"])
  obtain e out s where run: "dg_cli ?inp ?sc (dg_start info) = (e, out, s)" by (metis prod_cases3)
  have "own 1 (dg_echo (dg_header 1 0 @ ?inp))" by (simp add: own_def dg_echo_def dg_header_def)
  then have "answered_in_time 1 (snd (?sc ! 0))"
    unfolding answered_in_time_def by (intro exI [of _ "[Alarm (103, 0)]"] exI [of _ "(104, 0)"] exI [of _ "[]"] exI) auto
  with dg_cli_echoes [OF net _ _ run] ls have "e = Dg_end \<and> out = ?inp" by simp
  with run show "\<exists>out s. dg_cli ?inp ?sc (dg_start info) = (Dg_end, out, s) \<and> out = ?inp" by auto
qed

end
