(* ===== verification/Inet_Text.thy ===== *)
theory Inet_Text
  imports Cxx_Streams
begin

text \<open>
  Internet addresses as text, UNIX.Network.Programming/origin/unpv13e/libfree (inet_ntop.c,
  inet_pton.c). An address is its 4 or 16 bytes in network order; a C string is its characters before
  the NUL. \<open>inet_ntop\<close> gives the text it puts into \<open>dst\<close>, or the error; \<open>inet_pton\<close> gives the bytes of
  \<open>dst\<close>, or \<open>None\<close> for the result 0, when \<open>dst\<close> is not touched.
\<close>

unbundle bit_operations_syntax

type_synonym u_char = "8 word"

datatype inet_error = ENOSPC | EAFNOSUPPORT

subsection \<open>Printing\<close>

definition xdigits_l :: bytes where "xdigits_l = ''0123456789abcdef''"
definition xdigits_u :: bytes where "xdigits_u = ''0123456789ABCDEF''"

text \<open>\<open>sprintf\<close> with \<open>%x\<close>.\<close>

fun to_hex :: "nat \<Rightarrow> bytes" where
  "to_hex n = (if n < 16 then [xdigits_l ! n] else to_hex (n div 16) @ [xdigits_l ! (n mod 16)])"

declare to_hex.simps [simp del]

definition inet_ntop4 :: "u_char list \<Rightarrow> nat \<Rightarrow> inet_error + bytes" where
  "inet_ntop4 src sz =
     (let tmp = to_string (unat (src ! 0)) @ ''.'' @ to_string (unat (src ! 1)) @ ''.'' @ to_string (unat (src ! 2))
        @ ''.'' @ to_string (unat (src ! 3))
      in if length tmp > sz then Inl ENOSPC else Inr tmp)"

text \<open>The eight words of an address, and the runs of zero words: base and length, \<open>None\<close> for the base -1.\<close>

definition words6 :: "u_char list \<Rightarrow> u32 list" where
  "words6 src = map (\<lambda>k. push_bit 8 (ucast (src ! (2 * k))) OR ucast (src ! (2 * k + 1))) [0..<8]"

type_synonym zero_run = "(nat \<times> nat) option"

definition better_run :: "zero_run \<Rightarrow> zero_run \<Rightarrow> zero_run" where
  "better_run best cur =
     (case cur of
        None \<Rightarrow> best
      | Some (_, len) \<Rightarrow> (case best of None \<Rightarrow> cur | Some (_, best_len) \<Rightarrow> if len > best_len then cur else best))"

fun scan_runs :: "nat \<Rightarrow> u32 list \<Rightarrow> zero_run \<Rightarrow> zero_run \<Rightarrow> zero_run" where
  "scan_runs i [] best cur = better_run best cur"
| "scan_runs i (w # ws) best cur =
     (if w = 0 then scan_runs (i + 1) ws best (case cur of None \<Rightarrow> Some (i, 1) | Some (base, len) \<Rightarrow> Some (base, len + 1))
      else scan_runs (i + 1) ws (better_run best cur) None)"

definition best_run :: "u32 list \<Rightarrow> zero_run" where
  "best_run ws = (case scan_runs 0 ws None None of None \<Rightarrow> None | Some (base, len) \<Rightarrow> if len < 2 then None else Some (base, len))"

text \<open>\<open>tp\<close> is what has been written to \<open>tmp\<close>, which has 46 bytes; the list is that of the indices to come.\<close>

fun format6 :: "u_char list \<Rightarrow> u32 list \<Rightarrow> zero_run \<Rightarrow> nat list \<Rightarrow> bytes \<Rightarrow> inet_error + bytes" where
  "format6 src ws best [] tp = Inr tp"
| "format6 src ws best (i # is) tp =
     (if (case best of None \<Rightarrow> False | Some (base, len) \<Rightarrow> i \<ge> base \<and> i < base + len) then
        format6 src ws best is (if i = fst (the best) then tp @ '':'' else tp)
      else
        let tp1 = (if i \<noteq> 0 then tp @ '':'' else tp) in
        if i = 6 \<and> (case best of None \<Rightarrow> False | Some (base, len) \<Rightarrow> base = 0 \<and> (len = 6 \<or> len = 5 \<and> ws ! 5 = 0xffff)) then
          (case inet_ntop4 (drop 12 src) (46 - length tp1) of Inl e \<Rightarrow> Inl e | Inr t \<Rightarrow> Inr (tp1 @ t))
        else format6 src ws best is (tp1 @ to_hex (unat (ws ! i))))"

definition inet_ntop6 :: "u_char list \<Rightarrow> nat \<Rightarrow> inet_error + bytes" where
  "inet_ntop6 src sz =
     (let ws = words6 src; best = best_run ws in
      case format6 src ws best [0..<8] [] of
        Inl e \<Rightarrow> Inl e
      | Inr tp \<Rightarrow>
          let tp1 = (case best of None \<Rightarrow> tp | Some (base, len) \<Rightarrow> if base + len = 8 then tp @ '':'' else tp) in
          if length tp1 + 1 > sz then Inl ENOSPC else Inr tp1)"

subsection \<open>Parsing\<close>

fun strchr :: "bytes \<Rightarrow> char \<Rightarrow> nat option" where
  "strchr [] c = None"
| "strchr (x # xs) c = (if x = c then Some 0 else map_option Suc (strchr xs c))"

text \<open>\<open>done\<close> are the bytes of \<open>tmp\<close> before \<open>tp\<close>, \<open>cur\<close> is \<open>*tp\<close>.\<close>

fun pton4_loop :: "bytes \<Rightarrow> bool \<Rightarrow> nat \<Rightarrow> u_char list \<Rightarrow> u_char \<Rightarrow> u_char list option" where
  "pton4_loop [] saw_digit octets tmp cur = (if octets < 4 then None else Some (tmp @ [cur]))"
| "pton4_loop (ch # src) saw_digit octets tmp cur =
     (case strchr ''0123456789'' ch of
        Some d \<Rightarrow>
          let new = unat cur * 10 + d in
          if new > 255 then None
          else if \<not> saw_digit then
            if octets + 1 > 4 then None else pton4_loop src True (octets + 1) tmp (of_nat new)
          else pton4_loop src saw_digit octets tmp (of_nat new)
      | None \<Rightarrow>
          if ch = CHR ''.'' \<and> saw_digit then
            if octets = 4 then None else pton4_loop src False octets (tmp @ [cur]) 0
          else None)"

definition inet_pton4 :: "bytes \<Rightarrow> u_char list option" where
  "inet_pton4 src = pton4_loop src False 0 [] 0"

definition xdigit :: "char \<Rightarrow> nat option" where
  "xdigit ch = (case strchr xdigits_l ch of Some d \<Rightarrow> Some d | None \<Rightarrow> strchr xdigits_u ch)"

text \<open>The two bytes of a group; the bytes of \<open>tmp\<close> behind \<open>colonp\<close> moved to its end, one by one.\<close>

definition group_bytes :: "u32 \<Rightarrow> u_char list" where
  "group_bytes val = [ucast (drop_bit 8 val), ucast val]"

definition shift_by_hand :: "nat \<Rightarrow> nat \<Rightarrow> u_char list \<Rightarrow> u_char list" where
  "shift_by_hand colonp n tmp =
     fold (\<lambda>i t. let t1 = t[16 - i := t ! (colonp + (n - i))] in t1[colonp + (n - i) := 0]) [1..<n + 1] tmp"

text \<open>After the loop: \<open>tp\<close> holds the bytes of \<open>tmp\<close> that are written, the others being 0.\<close>

definition pton6_finish :: "bool \<Rightarrow> u32 \<Rightarrow> u_char list \<Rightarrow> nat option \<Rightarrow> u_char list option" where
  "pton6_finish saw_xdigit val tp colonp =
     (if saw_xdigit \<and> length tp + 2 > 16 then None
      else
        let tp1 = (if saw_xdigit then tp @ group_bytes val else tp) in
        (case colonp of
           None \<Rightarrow> if length tp1 \<noteq> 16 then None else Some tp1
         | Some c \<Rightarrow> Some (shift_by_hand c (length tp1 - c) (tp1 @ replicate (16 - length tp1) 0))))"

fun pton6_loop :: "bytes \<Rightarrow> bytes \<Rightarrow> bool \<Rightarrow> u32 \<Rightarrow> u_char list \<Rightarrow> nat option \<Rightarrow> u_char list option" where
  "pton6_loop [] curtok saw_xdigit val tp colonp = pton6_finish saw_xdigit val tp colonp"
| "pton6_loop (ch # src) curtok saw_xdigit val tp colonp =
     (case xdigit ch of
        Some d \<Rightarrow>
          let val1 = push_bit 4 val OR of_nat d in
          if val1 > 0xffff then None else pton6_loop src curtok True val1 tp colonp
      | None \<Rightarrow>
          if ch = CHR '':'' then
            if \<not> saw_xdigit then
              if colonp \<noteq> None then None else pton6_loop src src saw_xdigit val tp (Some (length tp))
            else if length tp + 2 > 16 then None
            else pton6_loop src src False 0 (tp @ group_bytes val) colonp
          else if ch = CHR ''.'' \<and> length tp + 4 \<le> 16 then
            (case inet_pton4 curtok of
               Some q \<Rightarrow> pton6_finish False val (tp @ q) colonp
             | None \<Rightarrow> None)
          else None)"

definition inet_pton6 :: "bytes \<Rightarrow> u_char list option" where
  "inet_pton6 src =
     (if src \<noteq> [] \<and> hd src = CHR '':'' then
        if tl src = [] \<or> hd (tl src) \<noteq> CHR '':'' then None else pton6_loop (tl src) (tl src) False 0 [] None
      else pton6_loop src src False 0 [] None)"

datatype af = AF_INET | AF_INET6 | AF_other

definition inet_ntop :: "af \<Rightarrow> u_char list \<Rightarrow> nat \<Rightarrow> inet_error + bytes" where
  "inet_ntop af src sz = (case af of AF_INET \<Rightarrow> inet_ntop4 src sz | AF_INET6 \<Rightarrow> inet_ntop6 src sz | AF_other \<Rightarrow> Inl EAFNOSUPPORT)"

definition inet_pton :: "af \<Rightarrow> bytes \<Rightarrow> inet_error + u_char list option" where
  "inet_pton af src = (case af of AF_INET \<Rightarrow> Inr (inet_pton4 src) | AF_INET6 \<Rightarrow> Inr (inet_pton6 src) | AF_other \<Rightarrow> Inl EAFNOSUPPORT)"

subsection \<open>Groups of hexadecimal digits\<close>

lemma strchr_nth: "distinct xs \<Longrightarrow> n < length xs \<Longrightarrow> strchr xs (xs ! n) = Some n"
  by (induction xs arbitrary: n) (auto simp: nth_Cons split: nat.splits)

lemma strchr_none [simp]: "strchr xs c = None \<longleftrightarrow> c \<notin> set xs"
  by (induction xs) auto

lemma length_xdigits [simp]: "length xdigits_l = 16"
  by (simp add: xdigits_l_def)

lemma xdigit_nth [simp]: "n < 16 \<Longrightarrow> xdigit (xdigits_l ! n) = Some n"
  unfolding xdigit_def by (subst strchr_nth) (simp_all add: xdigits_l_def)

lemma xdigit_colon [simp]: "xdigit CHR '':'' = None" "xdigit CHR ''.'' = None"
  by (simp_all add: xdigit_def xdigits_l_def xdigits_u_def)

definition hex_value :: "nat \<Rightarrow> bytes \<Rightarrow> nat" where
  "hex_value v ds = foldl (\<lambda>v c. 16 * v + the (xdigit c)) v ds"

lemma hex_value_simps [simp]:
  "hex_value v [] = v" "hex_value v (c # ds) = hex_value (16 * v + the (xdigit c)) ds"
  "hex_value v (ds @ ds') = hex_value (hex_value v ds) ds'"
  by (simp_all add: hex_value_def)

lemma hex_value_mono: "v \<le> hex_value v ds"
proof (induction ds arbitrary: v)
  case (Cons c ds)
  show ?case using Cons [of "16 * v + the (xdigit c)"] by simp
qed simp

lemma to_hex_digits: "\<forall>c \<in> set (to_hex n). xdigit c \<noteq> None"
proof (induction n rule: to_hex.induct)
  case (1 n)
  then show ?case by (subst to_hex.simps) auto
qed

lemma to_hex_nonempty [simp]: "to_hex n \<noteq> []"
  by (subst to_hex.simps) simp

lemma hex_value_to_hex: "hex_value 0 (to_hex n) = n"
proof (induction n rule: to_hex.induct)
  case (1 n)
  then show ?case by (subst to_hex.simps) simp
qed

lemma nat_or_add: "d < 16 \<Longrightarrow> (16 * v) OR d = 16 * v + (d :: nat)"
proof -
  assume d: "d < 16"
  have "(push_bit 4 v) AND d = 0"
  proof (rule bit_eqI)
    fix n
    have "d = take_bit 4 d" using d by (simp add: take_bit_nat_eq_self)
    then have "bit d n \<Longrightarrow> n < 4" by (metis bit_take_bit_iff)
    then show "bit (push_bit 4 v AND d) n \<longleftrightarrow> bit (0 :: nat) n" by (auto simp: bit_and_iff bit_push_bit_iff)
  qed
  then have "push_bit 4 v + d = push_bit 4 v OR d" by (rule disjunctive_add_eq_or)
  then show ?thesis by (simp add: push_bit_eq_mult mult.commute)
qed

lemma hex_step: "d < 16 \<Longrightarrow> push_bit 4 (of_nat v :: u32) OR of_nat d = of_nat (16 * v + d)"
proof -
  assume "d < 16"
  then have "(push_bit 4 v OR d) = 16 * v + d" using nat_or_add by (simp add: push_bit_eq_mult mult.commute)
  then show ?thesis by (metis of_nat_or_eq push_bit_of_nat)
qed

lemma xdigit_less: "xdigit c = Some d \<Longrightarrow> d < 16"
proof -
  have len: "strchr xs c = Some d \<Longrightarrow> d < length xs" for xs by (induction xs arbitrary: d) (auto split: if_splits)
  have "length xdigits_u = 16" by (simp add: xdigits_u_def)
  then show "xdigit c = Some d \<Longrightarrow> d < 16" using len [of xdigits_l] len [of xdigits_u] by (simp add: xdigit_def split: option.splits)
qed

text \<open>A run of digits whose value fits a group.\<close>

lemma pton6_digits:
  assumes "\<forall>c \<in> set ds. xdigit c \<noteq> None" and "hex_value v ds \<le> 0xffff"
  shows "pton6_loop (ds @ rest) ct saw (of_nat v) tp cp = pton6_loop rest ct (saw \<or> ds \<noteq> []) (of_nat (hex_value v ds)) tp cp"
  using assms
proof (induction ds arbitrary: v saw)
  case (Cons c ds)
  then obtain d where d: "xdigit c = Some d" by auto
  have v: "16 * v + d \<le> 0xffff" using hex_value_mono [of "16 * v + d" ds] Cons.prems(2) d by simp
  have "\<not> (of_nat (16 * v + d) :: u32) > 0xffff"
    using v by (simp add: word_less_nat_alt unat_of_nat take_bit_nat_eq_self del: of_nat_add of_nat_mult)
  then show ?case using Cons.IH [of "16 * v + d" True] Cons.prems d v xdigit_less [OF d]
    by (simp add: hex_step del: of_nat_add of_nat_mult)
qed simp

lemma pton6_group:
  assumes "unat w \<le> 0xffff"
  shows "pton6_loop (to_hex (unat w) @ rest) ct saw 0 tp cp = pton6_loop rest ct True w tp cp"
  using pton6_digits [OF to_hex_digits, of 0 "unat w" rest ct saw tp cp] assms by (simp add: hex_value_to_hex)

subsection \<open>Dotted decimal\<close>

lemma strchr_digit:
  assumes "isdigit c"
  shows "strchr ''0123456789'' c = Some (digit_value c)" and "xdigit c = Some (digit_value c)" and "digit_value c < 10"
proof -
  show less: "digit_value c < 10" using assms by (auto simp: isdigit_def digit_value_def)
  have "c = digit_char (digit_value c)" using assms by (simp add: digit_char_def digit_value_def isdigit_def char_of_char)
  moreover have "list_all (\<lambda>n. strchr ''0123456789'' (digit_char n) = Some n \<and> xdigit (digit_char n) = Some n) [0..<10]" by code_simp
  ultimately show "strchr ''0123456789'' c = Some (digit_value c)" "xdigit c = Some (digit_value c)"
    using less unfolding list_all_iff by (metis atLeastLessThan_iff atLeastLessThan_upt le0)+
qed

abbreviation decimal_from :: "nat \<Rightarrow> bytes \<Rightarrow> nat" where
  "decimal_from v ds \<equiv> foldl (\<lambda>v c. 10 * v + digit_value c) v ds"

lemma decimal_from_mono: "v \<le> decimal_from v ds"
proof (induction ds arbitrary: v)
  case (Cons c ds)
  show ?case using Cons [of "10 * v + digit_value c"] by simp
qed simp

lemma pton4_digits:
  assumes "\<forall>c \<in> set ds. isdigit c" and "decimal_from v ds \<le> 255"
  shows "pton4_loop (ds @ rest) True octets tmp (of_nat v) = pton4_loop rest True octets tmp (of_nat (decimal_from v ds))"
  using assms
proof (induction ds arbitrary: v)
  case (Cons c ds)
  have v: "10 * v + digit_value c \<le> 255" using decimal_from_mono [of "10 * v + digit_value c" ds] Cons.prems(2) by simp
  then have "unat (of_nat v :: u_char) = v" by (simp add: unat_of_nat take_bit_nat_eq_self)
  then show ?case using Cons.IH [of "10 * v + digit_value c"] Cons.prems v strchr_digit(1) [of c]
    by (simp add: mult.commute del: of_nat_add of_nat_mult strchr.simps)
qed simp

lemma pton4_octet:
  assumes "n \<le> 255" and "octets < 4"
  shows "pton4_loop (to_string n @ rest) False octets tmp 0 = pton4_loop rest True (octets + 1) tmp (of_nat n)"
proof -
  obtain c ds where ds: "to_string n = c # ds" by (cases "to_string n") simp_all
  have dig: "isdigit c" "\<forall>c \<in> set ds. isdigit c" using to_string_digits [of n] ds by simp_all
  have val: "decimal_from (digit_value c) ds = n" using decimal_value_to_string [of n] ds by (simp add: decimal_value_def)
  have "digit_value c \<le> 255" using strchr_digit(3) [OF dig(1)] by simp
  then show ?thesis using pton4_digits [OF dig(2), of "digit_value c" rest "octets + 1" tmp] val assms ds strchr_digit(1) [OF dig(1)]
    by (simp del: strchr.simps)
qed

lemma pton4_dot: "octets < 4 \<Longrightarrow> pton4_loop (CHR ''.'' # rest) True octets tmp cur = pton4_loop rest False octets (tmp @ [cur]) 0"
  by simp

abbreviation dotted :: "u_char \<Rightarrow> u_char \<Rightarrow> u_char \<Rightarrow> u_char \<Rightarrow> bytes" where
  "dotted a b c d \<equiv> to_string (unat a) @ ''.'' @ to_string (unat b) @ ''.'' @ to_string (unat c) @ ''.'' @ to_string (unat d)"

lemma unat_u_char: "unat (a :: u_char) \<le> 255"
  using unsigned_less [where w = a and 'a = nat] by simp

lemma pton4_dotted: "inet_pton4 (dotted a b c d) = Some [a, b, c, d]"
proof -
  note o = pton4_octet [OF unat_u_char]
  have "inet_pton4 (dotted a b c d) = pton4_loop (''.'' @ to_string (unat b) @ ''.'' @ to_string (unat c) @ ''.'' @ to_string (unat d)) True 1 [] a"
    using o [of 0 a _ "[]"] by (simp add: inet_pton4_def)
  also have "\<dots> = pton4_loop (''.'' @ to_string (unat c) @ ''.'' @ to_string (unat d)) True 2 [a] b"
    using o [of 1 b _ "[a]"] by (simp add: pton4_dot eval_nat_numeral)
  also have "\<dots> = pton4_loop (''.'' @ to_string (unat d)) True 3 [a, b] c"
    using o [of 2 c _ "[a, b]"] by (simp add: pton4_dot eval_nat_numeral)
  also have "\<dots> = pton4_loop [] True 4 [a, b, c] d"
    using o [of 3 d "[]" "[a, b, c]"] by (simp add: pton4_dot eval_nat_numeral)
  finally show ?thesis by simp
qed

lemma length_octet: "length (to_string (unat (a :: u_char))) \<le> 3"
proof -
  have short: "n < 10 \<Longrightarrow> length (to_string n) = 1" for n by (subst to_string.simps) simp
  have "n < 100 \<Longrightarrow> length (to_string n) \<le> 2" for n
    by (cases "n < 10") (simp add: short, subst to_string.simps, simp add: short)
  then have "n < 1000 \<Longrightarrow> length (to_string n) \<le> 3" for n
    by (cases "n < 10") (simp add: short, subst to_string.simps, simp)
  then show ?thesis using unat_u_char [of a] by simp
qed

text \<open>What \<open>inet_ntop4\<close> prints, and its length.\<close>

lemma list4: "length xs = 4 \<Longrightarrow> xs = [xs ! 0, xs ! 1, xs ! 2, xs ! 3]"
  by (intro nth_equalityI) (auto simp: less_Suc_eq nth_Cons numeral_eq_Suc)

lemma length_dotted: "length (dotted a b c d) \<le> 15"
  using length_octet [of a] length_octet [of b] length_octet [of c] length_octet [of d] by simp

lemma ntop4_dotted:
  "inet_ntop4 src sz = (let t = dotted (src ! 0) (src ! 1) (src ! 2) (src ! 3) in if length t > sz then Inl ENOSPC else Inr t)"
  by (simp add: inet_ntop4_def)

subsection \<open>The longest run of zeros\<close>

definition zeros_at :: "u32 list \<Rightarrow> nat \<Rightarrow> nat \<Rightarrow> bool" where
  "zeros_at ws base len \<longleftrightarrow> base + len \<le> length ws \<and> (\<forall>i. base \<le> i \<and> i < base + len \<longrightarrow> ws ! i = 0)"

abbreviation run_len :: "zero_run \<Rightarrow> nat" where
  "run_len r \<equiv> case r of None \<Rightarrow> 0 | Some (_, len) \<Rightarrow> len"

text \<open>Of the words before \<open>i\<close>: \<open>best\<close> and \<open>cur\<close> are runs, \<open>cur\<close> ends at \<open>i\<close>, and no run is longer.\<close>

definition scanned :: "u32 list \<Rightarrow> nat \<Rightarrow> zero_run \<Rightarrow> zero_run \<Rightarrow> bool" where
  "scanned ws i best cur \<longleftrightarrow>
     (\<forall>b l. best = Some (b, l) \<longrightarrow> zeros_at ws b l) \<and> (\<forall>b l. cur = Some (b, l) \<longrightarrow> zeros_at ws b l \<and> b + l = i)
     \<and> (\<forall>b l. zeros_at ws b l \<and> b + l \<le> i \<longrightarrow> l \<le> max (run_len best) (run_len cur) \<and> (b + l = i \<longrightarrow> l \<le> run_len cur))"

lemma run_len_better: "run_len (better_run best cur) = max (run_len best) (run_len cur)"
  by (auto simp: better_run_def split: option.splits)

lemma scanned_zero:
  assumes "scanned ws i best cur" and "i < length ws" and "ws ! i = 0"
  shows "scanned ws (i + 1) best (case cur of None \<Rightarrow> Some (i, 1) | Some (base, len) \<Rightarrow> Some (base, len + 1))"
proof -
  define cur' where "cur' = (case cur of None \<Rightarrow> Some (i, 1) | Some (base, len) \<Rightarrow> Some (base, len + 1))"
  have len: "run_len cur' = run_len cur + 1" by (simp add: cur'_def split: option.split)
  have "zeros_at ws b l \<and> b + l = i + 1" if "cur' = Some (b, l)" for b l
    using that assms by (auto simp: cur'_def scanned_def zeros_at_def less_Suc_eq split: option.splits)
  moreover have "l \<le> max (run_len best) (run_len cur') \<and> (b + l = i + 1 \<longrightarrow> l \<le> run_len cur')"
    if z: "zeros_at ws b l" "b + l \<le> i + 1" for b l
  proof (cases "b + l = i + 1 \<and> l > 0")
    case True
    then have "zeros_at ws b (l - 1)" "b + (l - 1) = i" using z by (auto simp: zeros_at_def)
    then have "l - 1 \<le> run_len cur" using assms(1) unfolding scanned_def by blast
    then have "l \<le> run_len cur + 1" by linarith
    then show ?thesis unfolding len by (simp add: le_max_iff_disj)
  next
    case False
    then show ?thesis
    proof (cases "l = 0")
      case False
      then have "b + l \<le> i" using z(2) \<open>\<not> (b + l = i + 1 \<and> l > 0)\<close> by simp
      then have "l \<le> max (run_len best) (run_len cur)" using assms(1) z(1) unfolding scanned_def by blast
      then show ?thesis using len \<open>b + l \<le> i\<close> by simp
    qed simp
  qed
  ultimately show ?thesis using assms(1) unfolding scanned_def cur'_def [symmetric] by blast
qed

lemma scanned_nonzero:
  assumes "scanned ws i best cur" and "i < length ws" and "ws ! i \<noteq> 0"
  shows "scanned ws (i + 1) (better_run best cur) None"
proof -
  have "zeros_at ws b l" if "better_run best cur = Some (b, l)" for b l
    using that assms(1) by (auto simp: better_run_def scanned_def split: option.splits if_splits)
  moreover have "l \<le> max (run_len best) (run_len cur) \<and> (b + l = i + 1 \<longrightarrow> l = 0)"
    if z: "zeros_at ws b l" "b + l \<le> i + 1" for b l
  proof (cases "b + l = i + 1")
    case True
    then have "l = 0" using z assms(3) unfolding zeros_at_def by (cases l) auto
    then show ?thesis by simp
  next
    case False
    then have "b + l \<le> i" using z(2) by simp
    then show ?thesis using assms(1) z(1) False unfolding scanned_def by blast
  qed
  ultimately show ?thesis unfolding scanned_def run_len_better by (simp, blast)
qed

lemma scan_runs_spec:
  "scanned ws i best cur \<Longrightarrow> i \<le> length ws \<Longrightarrow>
     (\<forall>b l. scan_runs i (drop i ws) best cur = Some (b, l) \<longrightarrow> zeros_at ws b l)
     \<and> (\<forall>b l. zeros_at ws b l \<longrightarrow> l \<le> run_len (scan_runs i (drop i ws) best cur))"
proof (induction "length ws - i" arbitrary: i best cur)
  case 0
  then have i: "i = length ws" by simp
  have "zeros_at ws b l" if "better_run best cur = Some (b, l)" for b l
    using that 0(2) by (auto simp: better_run_def scanned_def split: option.splits if_splits)
  moreover have "l \<le> run_len (better_run best cur)" if "zeros_at ws b l" for b l
  proof -
    have "b + l \<le> i" using that i by (simp add: zeros_at_def)
    then show ?thesis using that 0(2) unfolding run_len_better scanned_def by blast
  qed
  ultimately show ?case by (simp add: i)
next
  case (Suc k)
  then have i: "i < length ws" "k = length ws - (i + 1)" "i + 1 \<le> length ws" by simp_all
  have d: "drop i ws = ws ! i # drop (i + 1) ws" using Cons_nth_drop_Suc [OF i(1)] by simp
  show ?case
  proof (cases "ws ! i = 0")
    case True
    show ?thesis using Suc.hyps(1) [OF i(2) scanned_zero [OF Suc.prems(1) i(1) True] i(3)] True by (simp add: d)
  next
    case False
    show ?thesis using Suc.hyps(1) [OF i(2) scanned_nonzero [OF Suc.prems(1) i(1) False] i(3)] False by (simp add: d)
  qed
qed

lemma best_run_spec:
  shows "best_run ws = Some (b, l) \<Longrightarrow> 2 \<le> l \<and> zeros_at ws b l"
    and "zeros_at ws b l \<Longrightarrow> 2 \<le> l \<Longrightarrow> \<exists>b' l'. best_run ws = Some (b', l') \<and> l \<le> l'"
proof -
  have "scanned ws 0 None None" by (simp add: scanned_def)
  from scan_runs_spec [OF this] show
    "best_run ws = Some (b, l) \<Longrightarrow> 2 \<le> l \<and> zeros_at ws b l"
    "zeros_at ws b l \<Longrightarrow> 2 \<le> l \<Longrightarrow> \<exists>b' l'. best_run ws = Some (b', l') \<and> l \<le> l'"
    by (fastforce simp: best_run_def split: option.splits if_splits)+
qed

subsection \<open>The shape of the text\<close>

abbreviation hex :: "u32 \<Rightarrow> bytes" where "hex w \<equiv> to_hex (unat w)"

text \<open>Every group with a colon behind it, with one before it, and the groups with colons between them.\<close>

definition groups :: "u32 list \<Rightarrow> bytes" where
  "groups ws = concat (map (\<lambda>w. hex w @ '':'') ws)"

definition colon_groups :: "u32 list \<Rightarrow> bytes" where
  "colon_groups ws = concat (map (\<lambda>w. '':'' @ hex w) ws)"

definition joined :: "u32 list \<Rightarrow> bytes" where
  "joined ws = (if ws = [] then [] else groups (butlast ws) @ hex (last ws))"

lemma groups_simps [simp]: "groups [] = []" "groups (w # ws) = hex w @ '':'' @ groups ws" "groups (xs @ ys) = groups xs @ groups ys"
  by (simp_all add: groups_def)

lemma colon_groups_joined: "ws \<noteq> [] \<Longrightarrow> colon_groups ws = '':'' @ joined ws"
proof (induction ws)
  case (Cons w ws)
  then show ?case by (cases ws) (simp_all add: colon_groups_def joined_def)
qed simp

lemma hex_colon_groups: "hex w @ colon_groups ws = joined (w # ws)"
  using colon_groups_joined [of "w # ws"] by (simp add: colon_groups_def)

lemma joined_colon: "ws \<noteq> [] \<Longrightarrow> joined ws @ '':'' = groups ws"
  by (cases ws rule: rev_cases) (simp_all add: joined_def)

definition plain_at :: "u32 list \<Rightarrow> zero_run \<Rightarrow> nat \<Rightarrow> bool" where
  "plain_at ws best i \<longleftrightarrow> (case best of None \<Rightarrow> True
     | Some (base, len) \<Rightarrow> \<not> (i \<ge> base \<and> i < base + len) \<and> \<not> (i = 6 \<and> base = 0 \<and> (len = 6 \<or> len = 5 \<and> ws ! 5 = 0xffff)))"

lemma format6_step:
  assumes "plain_at ws best i"
  shows "format6 src ws best (i # is) tp = format6 src ws best is ((if i \<noteq> 0 then tp @ '':'' else tp) @ hex (ws ! i))"
proof -
  have 1: "\<not> (case best of None \<Rightarrow> False | Some (base, len) \<Rightarrow> i \<ge> base \<and> i < base + len)"
    using assms by (auto simp: plain_at_def split: option.splits)
  have 2: "\<not> (i = 6 \<and> (case best of None \<Rightarrow> False | Some (base, len) \<Rightarrow> base = 0 \<and> (len = 6 \<or> len = 5 \<and> ws ! 5 = 0xffff)))"
    using assms by (auto simp: plain_at_def split: option.splits)
  show ?thesis unfolding format6.simps if_not_P [OF 1] Let_def if_not_P [OF 2] by simp
qed

lemma format6_plain:
  assumes "\<forall>i \<in> set is. plain_at ws best i \<and> 0 < i \<and> i < length ws"
  shows "format6 src ws best (is @ rest) tp = format6 src ws best rest (tp @ colon_groups (map (\<lambda>i. ws ! i) is))"
  using assms
proof (induction "is" arbitrary: tp)
  case (Cons i "is")
  then show ?case using format6_step [of ws best i src "is @ rest" tp] by (simp add: colon_groups_def)
qed (simp add: colon_groups_def)

lemma format6_run:
  assumes "\<forall>i \<in> set is. b < i \<and> i < b + l"
  shows "format6 src ws (Some (b, l)) (is @ rest) tp = format6 src ws (Some (b, l)) rest tp"
  using assms by (induction "is" arbitrary: tp) auto

lemma format6_whole_run:
  assumes "0 < l" and "b + l \<le> 8"
  shows "format6 src ws (Some (b, l)) ([b..<8]) tp = format6 src ws (Some (b, l)) [b + l..<8] (tp @ '':'')"
proof -
  have "[b..<8] = b # [b + 1..<b + l] @ [b + l..<8]"
    using assms upt_conv_Cons [of b 8] upt_add_eq_append [of "b + 1" "b + l" "8 - (b + l)"] by simp
  then show ?thesis using assms(1) format6_run [of "[b + 1..<b + l]" b l src ws "[b + l..<8]"] by simp
qed

lemma map_nth_upt: "j \<le> length ws \<Longrightarrow> map (\<lambda>i. ws ! i) [i..<j] = drop i (take j ws)"
  by (rule nth_equalityI) auto

lemma format6_prefix:
  assumes "length ws = 8" and "0 < b" and "b \<le> 8" and "\<forall>i < b. plain_at ws best i"
  shows "format6 src ws best [0..<8] [] = format6 src ws best [b..<8] (joined (take b ws))"
proof -
  have "[0..<8] = 0 # [1..<b] @ [b..<8]" using assms(2,3) upt_conv_Cons [of 0 8] upt_add_eq_append [of 1 b "8 - b"] by simp
  moreover have "format6 src ws best (0 # [1..<b] @ [b..<8]) [] = format6 src ws best ([1..<b] @ [b..<8]) (hex (ws ! 0))"
    using assms(2,4) by (simp add: format6_step del: format6.simps)
  moreover have "format6 src ws best ([1..<b] @ [b..<8]) (hex (ws ! 0))
      = format6 src ws best [b..<8] (hex (ws ! 0) @ colon_groups (map (\<lambda>i. ws ! i) [1..<b]))"
    using assms by (intro format6_plain) auto
  moreover have "take b ws = ws ! 0 # drop 1 (take b ws)"
    using assms(1,2) by (cases ws; cases b) simp_all
  then have "hex (ws ! 0) @ colon_groups (map (\<lambda>i. ws ! i) [1..<b]) = joined (take b ws)"
    using assms(1,3) map_nth_upt [of b ws 1] hex_colon_groups by metis
  ultimately show ?thesis by simp
qed

abbreviation dotted_tail :: "u_char list \<Rightarrow> bytes" where
  "dotted_tail src \<equiv> dotted (src ! 12) (src ! 13) (src ! 14) (src ! 15)"

definition embeds_ipv4 :: "u32 list \<Rightarrow> nat \<Rightarrow> nat \<Rightarrow> bool" where
  "embeds_ipv4 ws b l \<longleftrightarrow> b = 0 \<and> (l = 6 \<or> l = 5 \<and> ws ! 5 = 0xffff)"

definition tail6 :: "u_char list \<Rightarrow> u32 list \<Rightarrow> nat \<Rightarrow> nat \<Rightarrow> bytes" where
  "tail6 src ws b l =
     (if embeds_ipv4 ws b l then groups (drop l (take 6 ws)) @ dotted_tail src else joined (drop (b + l) ws))"

definition text6 :: "u_char list \<Rightarrow> u32 list \<Rightarrow> bytes" where
  "text6 src ws =
     (case best_run ws of
        None \<Rightarrow> joined ws
      | Some (b, l) \<Rightarrow> (if b = 0 then '':'' else groups (take b ws)) @ '':'' @ tail6 src ws b l)"

lemma ntop4_tail:
  assumes "length src = 16" and "15 \<le> n"
  shows "inet_ntop4 (drop 12 src) n = Inr (dotted_tail src)"
  using assms length_dotted [of "src ! 12" "src ! 13" "src ! 14" "src ! 15"] by (simp add: ntop4_dotted Let_def)

lemma format6_ipv4:
  assumes "length src = 16" and "embeds_ipv4 ws 0 l" and "length tp < 30"
  shows "format6 src ws (Some (0, l)) [6..<8] tp = Inr (tp @ '':'' @ dotted_tail src)"
proof -
  have "[6..<8] = [6, 7::nat]" by (simp add: upt_rec)
  moreover have "format6 src ws (Some (0, l)) (6 # [7]) tp = (case inet_ntop4 (drop 12 src) (46 - length (tp @ '':'')) of
      Inl e \<Rightarrow> Inl e | Inr t \<Rightarrow> Inr ((tp @ '':'') @ t))"
    unfolding format6.simps using assms(2) by (auto simp: embeds_ipv4_def Let_def)
  moreover have "inet_ntop4 (drop 12 src) (46 - length (tp @ '':'')) = Inr (dotted_tail src)"
    using assms(3) by (intro ntop4_tail [OF assms(1)]) simp
  ultimately show ?thesis by simp
qed

lemma plain_at_Some: "plain_at ws (Some (b, l)) i \<longleftrightarrow> \<not> (b \<le> i \<and> i < b + l) \<and> \<not> (i = 6 \<and> embeds_ipv4 ws b l)"
  by (auto simp: plain_at_def embeds_ipv4_def)

lemma format6_from_run:
  assumes "length ws = 8" and "0 < l" and "b + l \<le> 8"
  shows "format6 src ws (Some (b, l)) [0..<8] []
    = format6 src ws (Some (b, l)) [b + l..<8] ((if b = 0 then [] else joined (take b ws)) @ '':'')"
proof (cases "b = 0")
  case True
  then show ?thesis using format6_whole_run [OF assms(2), of 0 src ws "[]"] assms(3) by simp
next
  case False
  then have "\<forall>i < b. plain_at ws (Some (b, l)) i" by (simp add: plain_at_Some embeds_ipv4_def)
  then show ?thesis using format6_prefix [OF assms(1), of b "Some (b, l)" src] format6_whole_run [OF assms(2,3)] False assms(3) by simp
qed

lemma format6_behind_run:
  assumes "length src = 16" and "length ws = 8" and "2 \<le> l" and "b + l \<le> 8"
  shows "format6 src ws (Some (b, l)) [b + l..<8] tp = Inr (tp @ colon_groups (drop (b + l) ws)) \<and> \<not> embeds_ipv4 ws b l
    \<or> embeds_ipv4 ws b l \<and> b + l \<noteq> 8 \<and> (length tp < 20 \<longrightarrow>
        format6 src ws (Some (b, l)) [b + l..<8] tp = Inr (tp @ '':'' @ groups (drop l (take 6 ws)) @ dotted_tail src))"
proof (cases "embeds_ipv4 ws b l")
  case False
  have "format6 src ws (Some (b, l)) ([b + l..<8] @ []) tp
      = format6 src ws (Some (b, l)) [] (tp @ colon_groups (map (\<lambda>i. ws ! i) [b + l..<8]))"
    by (rule format6_plain) (use assms False in \<open>auto simp: plain_at_Some\<close>)
  then show ?thesis using False map_nth_upt [of 8 ws "b + l"] assms(2) by simp
next
  case True
  then consider "b = 0" "l = 6" | "b = 0" "l = 5" "ws ! 5 = 0xffff" by (auto simp: embeds_ipv4_def)
  then show ?thesis
  proof cases
    case 1
    then show ?thesis using True format6_ipv4 [OF assms(1), of ws l tp] assms(2) by simp
  next
    case 2
    have "[5..<8] = 5 # [6..<8]" by (simp add: upt_rec)
    moreover have "plain_at ws (Some (0, 5)) 5" using 2 by (simp add: plain_at_Some)
    moreover have "to_hex 65535 = ''ffff''" by (simp add: to_hex.simps xdigits_l_def)
    moreover have "drop 5 (take 6 ws) = [0xffff]" using assms(2) 2(3) Cons_nth_drop_Suc [of 5 "take 6 ws"] by simp
    moreover have "format6 src ws (Some (0, 5)) [6..<8] (tp @ '':ffff'') = Inr ((tp @ '':ffff'') @ '':'' @ dotted_tail src)" if "length tp < 20"
      using True 2 that by (intro format6_ipv4 [OF assms(1)]) simp_all
    ultimately show ?thesis using True 2 format6_step [of ws "Some (0, 5)" 5 src "[6..<8]" tp] by (simp del: format6.simps)
  qed
qed

lemma ntop6_text:
  assumes "length src = 16"
  shows "inet_ntop6 src sz = (let t = text6 src (words6 src) in if length t + 1 > sz then Inl ENOSPC else Inr t)"
proof -
  let ?ws = "words6 src"
  have len: "length ?ws = 8" by (simp add: words6_def)
  show ?thesis
  proof (cases "best_run ?ws")
    case None
    have "format6 src ?ws None [0..<8] [] = Inr (joined ?ws)"
      using format6_prefix [OF len, of 8 None src] len by (simp add: plain_at_def del: upt_Suc)
    then show ?thesis using None by (simp add: inet_ntop6_def text6_def Let_def)
  next
    case (Some r)
    then obtain b l where best: "best_run ?ws = Some (b, l)" by (cases r) simp
    have l: "2 \<le> l" "b + l \<le> 8" using best_run_spec(1) [OF best] len by (simp_all add: zeros_at_def)
    let ?tp = "(if b = 0 then [] else joined (take b ?ws)) @ '':''"
    have short: "embeds_ipv4 ?ws b l \<Longrightarrow> length ?tp < 20" by (simp add: embeds_ipv4_def)
    have pre: "?tp = (if b = 0 then '':'' else groups (take b ?ws))" using joined_colon [of "take b ?ws"] len by (cases ?ws) simp_all
    have "format6 src ?ws (Some (b, l)) [0..<8] [] = format6 src ?ws (Some (b, l)) [b + l..<8] ?tp"
      using format6_from_run [OF len _ l(2)] l(1) by simp
    then have f: "format6 src ?ws (Some (b, l)) [0..<8] [] = Inr (?tp @ colon_groups (drop (b + l) ?ws)) \<and> \<not> embeds_ipv4 ?ws b l
        \<or> embeds_ipv4 ?ws b l \<and> b + l \<noteq> 8 \<and> format6 src ?ws (Some (b, l)) [0..<8] [] = Inr (?tp @ '':'' @ groups (drop l (take 6 ?ws)) @ dotted_tail src)"
      using format6_behind_run [OF assms len l, of ?tp] short by metis
    have shape: "text6 src ?ws = ?tp @ '':'' @ tail6 src ?ws b l" unfolding pre by (simp add: text6_def best)
    have "\<exists>tp. format6 src ?ws (Some (b, l)) [0..<8] [] = Inr tp \<and> (if b + l = 8 then tp @ '':'' else tp) = text6 src ?ws"
    proof (cases "embeds_ipv4 ?ws b l \<or> b + l = 8")
      case True
      then show ?thesis using f len by (elim disjE) (auto simp: shape tail6_def joined_def colon_groups_def simp del: format6.simps upt_Suc)
    next
      case False
      then have "colon_groups (drop (b + l) ?ws) = '':'' @ joined (drop (b + l) ?ws)" using l(2) len by (intro colon_groups_joined) simp
      then show ?thesis using f False by (simp add: shape tail6_def del: format6.simps upt_Suc)
    qed
    then show ?thesis by (auto simp: inet_ntop6_def best Let_def simp del: format6.simps upt_Suc)
  qed
qed

subsection \<open>Reading it back\<close>

definition bytes6 :: "u32 list \<Rightarrow> u_char list" where
  "bytes6 ws = concat (map group_bytes ws)"

lemma bytes6_simps [simp]: "bytes6 [] = []" "bytes6 (w # ws) = group_bytes w @ bytes6 ws" "bytes6 (xs @ ys) = bytes6 xs @ bytes6 ys"
  by (simp_all add: bytes6_def)

lemma length_group_bytes [simp]: "length (group_bytes w) = 2"
  by (simp add: group_bytes_def)

lemma length_bytes6 [simp]: "length (bytes6 ws) = 2 * length ws"
  by (induction ws) simp_all

abbreviation small :: "u32 list \<Rightarrow> bool" where
  "small ws \<equiv> \<forall>w \<in> set ws. unat w \<le> 0xffff"

lemma pton6_groups:
  "small gs \<Longrightarrow> length tp + 2 * length gs \<le> 16 \<Longrightarrow>
    pton6_loop (groups gs @ rest) (groups gs @ rest) False 0 tp cp = pton6_loop rest rest False 0 (tp @ bytes6 gs) cp"
proof (induction gs arbitrary: tp)
  case (Cons g gs)
  then have "pton6_loop (groups (g # gs) @ rest) ct False 0 tp cp
      = pton6_loop ('':'' @ groups gs @ rest) ct True g tp cp" for ct
    using pton6_group [of g "'':'' @ groups gs @ rest"] by simp
  moreover have "pton6_loop ('':'' @ groups gs @ rest) ct True g tp cp
      = pton6_loop (groups gs @ rest) (groups gs @ rest) False 0 (tp @ group_bytes g) cp" for ct
    using Cons.prems(2) by simp
  ultimately show ?case using Cons.IH [of "tp @ group_bytes g"] Cons.prems by simp
qed simp

lemma pton6_joined:
  assumes "small gs" and "length tp + 2 * length gs \<le> 16"
  shows "pton6_loop (joined gs) (joined gs) False 0 tp cp = pton6_finish False 0 (tp @ bytes6 gs) cp"
proof (cases gs rule: rev_cases)
  case Nil
  then show ?thesis by (simp add: joined_def)
next
  case (snoc hs h)
  have "pton6_loop (joined gs) (joined gs) False 0 tp cp = pton6_loop (hex h) (hex h) False 0 (tp @ bytes6 hs) cp"
    using pton6_groups [of hs tp "hex h" cp] assms by (simp add: snoc joined_def)
  also have "\<dots> = pton6_finish True h (tp @ bytes6 hs) cp"
    using pton6_group [of h "[]"] assms(1) by (simp add: snoc)
  finally show ?thesis using assms(2) by (simp add: pton6_finish_def snoc)
qed

lemma hex_value_less: "\<forall>c \<in> set ds. xdigit c \<noteq> None \<Longrightarrow> hex_value v ds < 16 ^ length ds * (v + 1)"
proof (induction ds arbitrary: v)
  case (Cons c ds)
  then obtain d where d: "xdigit c = Some d" "d < 16" using xdigit_less by fastforce
  have "hex_value (16 * v + d) ds < 16 ^ length ds * (16 * v + d + 1)" using Cons by simp
  also have "\<dots> \<le> 16 ^ length ds * (16 * (v + 1))" using d(2) by (intro mult_le_mono2) simp
  finally show ?case using d(1) by (simp add: algebra_simps)
qed simp

lemma pton6_dotted:
  assumes "length tp \<le> 12"
  shows "\<exists>v. pton6_loop (dotted a b c d) (dotted a b c d) False 0 tp cp = pton6_finish False v (tp @ [a, b, c, d]) cp"
proof -
  let ?n = "to_string (unat a)"
  have dig: "\<forall>c \<in> set ?n. xdigit c \<noteq> None" using to_string_digits [of "unat a"] strchr_digit(2) by fastforce
  have "hex_value 0 ?n < 16 ^ length ?n" using hex_value_less [OF dig, of 0] by simp
  also have "\<dots> \<le> 16 ^ 3" using length_octet by (intro power_increasing) simp_all
  finally have "pton6_loop (?n @ rest) ct False 0 tp cp = pton6_loop rest ct True (of_nat (hex_value 0 ?n)) tp cp" for rest ct
    using pton6_digits [OF dig, of 0 rest ct False tp cp] by simp
  then show ?thesis using assms pton4_dotted [of a b c d] by (intro exI [of _ "of_nat (hex_value 0 ?n)"]) simp
qed

lemma shift_step:
  assumes "length xs = p" and "0 < g"
  shows "(xs @ x # replicate g 0 @ ys)[p + g := (xs @ x # replicate g 0 @ ys) ! p, p := 0] = xs @ replicate g 0 @ x # (ys :: u_char list)"
proof -
  obtain h where h: "g = h + 1" using assms(2) by (cases g) simp_all
  have "x # replicate g 0 @ ys = (x # replicate h 0) @ 0 # ys" by (simp add: h replicate_append_same)
  then have "(xs @ x # replicate g 0 @ ys)[p + g := x] = xs @ (x # replicate h 0) @ x # ys"
    using assms(1) h by (simp add: list_update_append)
  then show ?thesis using assms(1) h by (simp add: nth_append list_update_append)
qed

lemma shift_by_hand:
  assumes "c + n \<le> length tp" and "length tp < 16" and "c + n = length tp"
  shows "shift_by_hand c n (tp @ replicate (16 - length tp) 0) = take c tp @ replicate (16 - length tp) 0 @ drop c tp"
proof -
  let ?g = "16 - length tp"
  let ?f = "\<lambda>i t. let t1 = t[16 - i := t ! (c + (n - i))] in t1[c + (n - i) := (0 :: u_char)]"
  have "fold ?f [1..<k + 1] (tp @ replicate ?g 0)
      = take (c + n - k) tp @ replicate ?g 0 @ drop (c + n - k) tp" if "k \<le> n" for k
    using that
  proof (induction k)
    case 0
    then show ?case using assms(3) by simp
  next
    case (Suc k)
    let ?p = "c + n - Suc k"
    have p: "?p < length tp" "?p + 1 = c + n - k" "c + (n - Suc k) = ?p" "16 - Suc k = ?p + ?g" using Suc.prems assms by simp_all
    let ?X = "take ?p tp @ tp ! ?p # replicate ?g 0 @ drop (c + n - k) tp"
    have "take (c + n - k) tp = take ?p tp @ [tp ! ?p]" using p(1,2) by (metis Suc_eq_plus1 take_Suc_conv_app_nth)
    then have IH: "fold ?f [1..<k + 1] (tp @ replicate ?g 0) = ?X" using Suc by simp
    have "fold ?f [1..<Suc k + 1] (tp @ replicate ?g 0) = ?f (Suc k) (fold ?f [1..<k + 1] (tp @ replicate ?g 0))" by simp
    also have "\<dots> = ?X[?p + ?g := ?X ! ?p, ?p := 0]" by (subst IH, subst IH) (simp only: p(3,4) Let_def)
    also have "\<dots> = take ?p tp @ replicate ?g 0 @ tp ! ?p # drop (c + n - k) tp"
      by (rule shift_step) (use p(1) assms(2) in simp_all)
    also have "tp ! ?p # drop (c + n - k) tp = drop ?p tp" using p(1,2) by (metis Cons_nth_drop_Suc Suc_eq_plus1)
    finally show ?case .
  qed
  from this [of n] show ?thesis by (simp add: shift_by_hand_def)
qed

lemma finish_complete: "length tp = 16 \<Longrightarrow> pton6_finish False v tp None = Some tp"
  by (simp add: pton6_finish_def)

lemma finish_run:
  assumes "c \<le> length tp" and "length tp < 16"
  shows "pton6_finish False v tp (Some c) = Some (take c tp @ replicate (16 - length tp) 0 @ drop c tp)"
  using shift_by_hand [of c "length tp - c" tp] assms by (simp add: pton6_finish_def Let_def)

lemma pton6_tail:
  assumes "length src = 16" and "small ws" and "length ws = 8" and "length tp = 2 * b" and "b + l \<le> 8"
  shows "\<exists>v. pton6_loop (tail6 src ws b l) (tail6 src ws b l) False 0 tp cp
    = pton6_finish False v (tp @ (if embeds_ipv4 ws b l then bytes6 (drop l (take 6 ws)) @ drop 12 src else bytes6 (drop (b + l) ws))) cp"
proof (cases "embeds_ipv4 ws b l")
  case True
  let ?gs = "drop l (take 6 ws)"
  have s: "small ?gs" using assms(2) by (auto dest: in_set_dropD in_set_takeD)
  have len: "length tp + 2 * length ?gs \<le> 12" "length (tp @ bytes6 ?gs) \<le> 12"
    using True assms(3,4) by (auto simp: embeds_ipv4_def)
  have q: "drop 12 src = [src ! 12, src ! 13, src ! 14, src ! 15]" using list4 [of "drop 12 src"] assms(1) by simp
  have "pton6_loop (tail6 src ws b l) (tail6 src ws b l) False 0 tp cp
      = pton6_loop (dotted_tail src) (dotted_tail src) False 0 (tp @ bytes6 ?gs) cp"
    using pton6_groups [OF s, of tp "dotted_tail src" cp] len(1) True by (simp add: tail6_def)
  moreover obtain v where "pton6_loop (dotted_tail src) (dotted_tail src) False 0 (tp @ bytes6 ?gs) cp
      = pton6_finish False v ((tp @ bytes6 ?gs) @ drop 12 src) cp"
    using pton6_dotted [OF len(2), of "src ! 12" "src ! 13" "src ! 14" "src ! 15" cp] unfolding q by blast
  ultimately show ?thesis using True by auto
next
  case False
  have s: "small (drop (b + l) ws)" using assms(2) by (auto dest: in_set_dropD)
  show ?thesis using pton6_joined [OF s, of tp cp] assms(3-5) False by (auto simp: tail6_def)
qed

lemma word_of_bytes:
  fixes a b :: u_char
  defines "w \<equiv> push_bit 8 (ucast a) OR ucast b :: u32"
  shows "group_bytes w = [a, b]" and "unat w \<le> 0xffff"
proof -
  have high: "\<not> bit b (8 + n)" for n using bit_imp_le_length [of b "8 + n"] by auto
  show "group_bytes w = [a, b]" unfolding group_bytes_def w_def
    by (auto intro!: bit_word_eqI simp: bit_simps high)
  have "take_bit 16 w = w" unfolding w_def
    by (auto intro!: bit_word_eqI simp: bit_simps) (auto dest!: bit_imp_le_length)
  then have "take_bit 16 (unat w) = unat w" by (metis unsigned_take_bit_eq)
  then have "unat w < 2 ^ 16" by (simp add: take_bit_nat_eq_self_iff)
  then show "unat w \<le> 0xffff" by simp
qed

lemma upt8: "[0..<8] = [0, 1, 2, 3, 4, 5, 6, 7 :: nat]"
  by (simp add: upt_rec)

lemma bytes6_words6:
  assumes "length src = 16"
  shows "bytes6 (words6 src) = src"
proof -
  have "bytes6 (words6 src) = concat (map (\<lambda>k. [src ! (2 * k), src ! (2 * k + 1)]) [0..<8])"
    by (simp add: bytes6_def words6_def o_def word_of_bytes(1) cong: map_cong)
  also have "\<dots> = map (\<lambda>k. src ! k) [0..<16]" by (simp add: upt_rec, simp add: eval_nat_numeral)
  also have "\<dots> = src" using assms map_nth [of src] by simp
  finally show ?thesis .
qed

lemma small_words6: "small (words6 src)"
  by (auto simp: words6_def word_of_bytes(2))

lemma group_bytes_0: "group_bytes 0 = [0, 0]"
  by (simp add: group_bytes_def)

lemma zero_words: "zeros_at ws b l \<Longrightarrow> bytes6 (take l (drop b ws)) = replicate (2 * l) 0"
proof -
  assume z: "zeros_at ws b l"
  then have "take l (drop b ws) = replicate l 0"
    by (intro nth_equalityI) (auto simp: zeros_at_def)
  moreover have "bytes6 (replicate n 0) = replicate (2 * n) 0" for n by (induction n) (simp_all add: group_bytes_0)
  ultimately show ?thesis by simp
qed

lemma drop_bytes6: "drop (2 * k) (bytes6 ws) = bytes6 (drop k ws)"
proof (induction ws arbitrary: k)
  case (Cons w ws)
  then show ?case by (cases k) (simp_all add: group_bytes_def)
qed simp

lemma joined_hd: "ws \<noteq> [] \<Longrightarrow> joined ws \<noteq> [] \<and> hd (joined ws) \<noteq> CHR '':''"
  and groups_hd: "ws \<noteq> [] \<Longrightarrow> groups ws \<noteq> [] \<and> hd (groups ws) \<noteq> CHR '':''"
proof -
  have "xdigit (hd (hex w)) \<noteq> None" for w using to_hex_digits by (meson hd_in_set to_hex_nonempty)
  then have h: "hd (hex w) \<noteq> CHR '':''" for w using xdigit_colon by metis
  show "ws \<noteq> [] \<Longrightarrow> joined ws \<noteq> [] \<and> hd (joined ws) \<noteq> CHR '':''"
    by (cases ws; cases "tl ws") (simp_all add: joined_def h)
  show "ws \<noteq> [] \<Longrightarrow> groups ws \<noteq> [] \<and> hd (groups ws) \<noteq> CHR '':''" by (cases ws) (simp_all add: h)
qed

subsection \<open>The theorems\<close>

lemma digit_chars:
  "digit_char 1 = CHR ''1''" "digit_char (Suc 0) = CHR ''1''" "digit_char 2 = CHR ''2''" "digit_char 3 = CHR ''3''" "digit_char 4 = CHR ''4''"
  by code_simp+

lemma pton6_text6:
  assumes "length src = 16"
  shows "inet_pton6 (text6 src (words6 src)) = Some src"
proof -
  let ?ws = "words6 src"
  have len: "length ?ws = 8" by (simp add: words6_def)
  then have ne: "?ws \<noteq> []" by auto
  show ?thesis
  proof (cases "best_run ?ws")
    case None
    then have "inet_pton6 (text6 src ?ws) = pton6_loop (joined ?ws) (joined ?ws) False 0 [] None"
      using joined_hd [OF ne] by (simp add: inet_pton6_def text6_def)
    also have "\<dots> = pton6_finish False 0 (bytes6 ?ws) None"
      using pton6_joined [OF small_words6, of "[]" src None] len by simp
    finally show ?thesis using bytes6_words6 [OF assms] assms by (simp add: finish_complete)
  next
    case (Some r)
    then obtain b l where best: "best_run ?ws = Some (b, l)" by (cases r) simp
    have z: "2 \<le> l" "b + l \<le> 8" "zeros_at ?ws b l" using best_run_spec(1) [OF best] len by (simp_all add: zeros_at_def)
    let ?tail = "tail6 src ?ws b l" and ?pre = "bytes6 (take b ?ws)"
    have "inet_pton6 (text6 src ?ws) = pton6_loop ('':'' @ ?tail) ('':'' @ ?tail) False 0 ?pre None"
    proof (cases "b = 0")
      case True
      then show ?thesis by (simp add: inet_pton6_def text6_def best)
    next
      case False
      then have h: "take b ?ws \<noteq> []" using ne by simp
      have "small (take b ?ws)" using small_words6 by (auto dest: in_set_takeD)
      then show ?thesis using False pton6_groups [of "take b ?ws" "[]" "'':'' @ ?tail" None] groups_hd [OF h] len z(2)
        by (simp add: inet_pton6_def text6_def best)
    qed
    also have "\<dots> = pton6_loop ?tail ?tail False 0 ?pre (Some (2 * b))" using len z(2) by simp
    finally have parse: "inet_pton6 (text6 src ?ws) = pton6_loop ?tail ?tail False 0 ?pre (Some (2 * b))" .
    have "take b ?ws @ take l (drop b ?ws) @ drop (b + l) ?ws = ?ws"
      by (metis append_take_drop_id drop_drop add.commute)
    then have "bytes6 (take b ?ws) @ bytes6 (take l (drop b ?ws)) @ bytes6 (drop (b + l) ?ws) = bytes6 ?ws" by (metis bytes6_simps(3))
    then have src: "src = ?pre @ replicate (2 * l) 0 @ bytes6 (drop (b + l) ?ws)"
      using bytes6_words6 [OF assms] zero_words [OF z(3)] by simp
    let ?rest = "if embeds_ipv4 ?ws b l then bytes6 (drop l (take 6 ?ws)) @ drop 12 src else bytes6 (drop (b + l) ?ws)"
    have rest: "?rest = bytes6 (drop (b + l) ?ws)"
    proof (cases "embeds_ipv4 ?ws b l")
      case True
      then have b: "b = 0" "l \<le> 6" by (auto simp: embeds_ipv4_def)
      have "drop 12 (bytes6 ?ws) = bytes6 (drop 6 ?ws)" using drop_bytes6 [of 6 ?ws] by simp
      then have "drop 12 src = bytes6 (drop 6 ?ws)" using bytes6_words6 [OF assms] by simp
      moreover have "drop l (take 6 ?ws) @ drop 6 ?ws = drop l ?ws" using b(2) len drop_append [of l "take 6 ?ws" "drop 6 ?ws"] by simp
      ultimately show ?thesis using True b(1) by (metis add_0 bytes6_simps(3))
    qed simp
    obtain v where "inet_pton6 (text6 src ?ws) = pton6_finish False v (?pre @ ?rest) (Some (2 * b))"
      using pton6_tail [OF assms small_words6 len, of ?pre b l "Some (2 * b)"] len z(2) parse by auto
    also have "\<dots> = Some src"
      unfolding rest using len z(1,2) finish_run [of "2 * b" "?pre @ bytes6 (drop (b + l) ?ws)" v] src
      by (simp add: algebra_simps)
    finally show ?thesis .
  qed
qed

lemma length_hex: "unat w \<le> 0xffff \<Longrightarrow> length (hex w) \<le> 4"
proof -
  have one: "n < 16 \<Longrightarrow> length (to_hex n) = 1" for n by (subst to_hex.simps) simp
  have two: "n < 256 \<Longrightarrow> length (to_hex n) \<le> 2" for n
    by (cases "n < 16") (simp add: one, subst to_hex.simps, simp add: one)
  have "n < 4096 \<Longrightarrow> length (to_hex n) \<le> 3" for n
    using two [of "n div 16"] by (cases "n < 16") (simp add: one, subst to_hex.simps, simp)
  then have "n < 65536 \<Longrightarrow> length (to_hex n) \<le> 4" for n
    by (cases "n < 16") (simp add: one, subst to_hex.simps, simp)
  then show "unat w \<le> 0xffff \<Longrightarrow> length (hex w) \<le> 4" by simp
qed

lemma length_groups: "small ws \<Longrightarrow> length (groups ws) \<le> 5 * length ws"
proof (induction ws)
  case (Cons w ws)
  then show ?case using length_hex [of w] by simp
qed simp

lemma length_joined: "small ws \<Longrightarrow> length (joined ws) \<le> 5 * length ws - 1"
proof (cases ws rule: rev_cases)
  case (snoc vs v)
  assume "small ws"
  then show ?thesis using length_groups [of vs] length_hex [of v] snoc by (simp add: joined_def)
qed (simp add: joined_def)

lemma length_text6:
  assumes "length src = 16"
  shows "length (text6 src (words6 src)) \<le> 39"
proof -
  let ?ws = "words6 src"
  have len: "length ?ws = 8" by (simp add: words6_def)
  have s: "small (take i ?ws)" "small (drop i (take j ?ws))" "small (drop i ?ws)" for i j
    using small_words6 by (auto dest: in_set_takeD in_set_dropD)
  show ?thesis
  proof (cases "best_run ?ws")
    case None
    then show ?thesis using length_joined [OF small_words6, of src] len by (simp add: text6_def)
  next
    case (Some r)
    then obtain b l where best: "best_run ?ws = Some (b, l)" by (cases r) simp
    have z: "2 \<le> l" "b + l \<le> 8" using best_run_spec(1) [OF best] len by (simp_all add: zeros_at_def)
    have pre: "length (groups (take b ?ws)) \<le> 5 * b" using length_groups [OF s(1), of b] len z(2) by simp
    show ?thesis
    proof (cases "embeds_ipv4 ?ws b l")
      case True
      then have "b = 0" "5 \<le> l" by (auto simp: embeds_ipv4_def)
      then show ?thesis using best True length_groups [OF s(2), of l 6] length_dotted [of "src ! 12" "src ! 13" "src ! 14" "src ! 15"] len
        by (simp add: text6_def tail6_def)
    next
      case False
      have "length (joined (drop (b + l) ?ws)) \<le> 5 * (8 - (b + l)) - 1" using length_joined [OF s(3), of "b + l"] len by simp
      moreover have "5 * b + 5 * (8 - (b + l)) \<le> 30" using z by arith
      ultimately have "length (groups (take b ?ws)) + length (joined (drop (b + l) ?ws)) \<le> 30" using pre by linarith
      then show ?thesis using best False by (cases "b = 0") (simp_all add: text6_def tail6_def)
    qed
  qed
qed

text \<open>
  C10: Every address is printed, into any buffer of 16 bytes for an IPv4 address and 40 for an IPv6 one
  (which is less than the 46 bytes of the temporary buffer), and what is printed is read back as the
  same address: the run of zeros that is left out, the embedded IPv4 address and all lengths of groups
  included.
\<close>

theorem inet_text_round_trip:
  assumes "af = AF_INET \<and> length src = 4 \<and> 16 \<le> sz \<or> af = AF_INET6 \<and> length src = 16 \<and> 40 \<le> sz"
  shows "\<exists>t. inet_ntop af src sz = Inr t \<and> length t < sz \<and> inet_pton af t = Inr (Some src)"
  using assms
proof (elim disjE conjE)
  assume a: "af = AF_INET" "length src = 4" "16 \<le> sz"
  let ?t = "dotted (src ! 0) (src ! 1) (src ! 2) (src ! 3)"
  have "length ?t < sz" using length_dotted [of "src ! 0" "src ! 1" "src ! 2" "src ! 3"] a(3) by linarith
  then show ?thesis using a list4 [OF a(2)] pton4_dotted [of "src ! 0" "src ! 1" "src ! 2" "src ! 3"]
    by (simp add: inet_ntop_def inet_pton_def ntop4_dotted Let_def)
next
  assume a: "af = AF_INET6" "length src = 16" "40 \<le> sz"
  have "length (text6 src (words6 src)) + 1 \<le> 40" using length_text6 [OF a(2)] by simp
  then show ?thesis using a pton6_text6 [OF a(2)] by (simp add: inet_ntop_def inet_pton_def ntop6_text Let_def)
qed

theorem inet_text_round_trip_witness:
  "inet_ntop AF_INET6 [0,0,0,0,0,0,0,0,0,0,0xff,0xff,1,2,3,4] 46 = Inr ''::ffff:1.2.3.4''
   \<and> inet_pton AF_INET6 ''::ffff:1.2.3.4'' = Inr (Some [0,0,0,0,0,0,0,0,0,0,0xff,0xff,1,2,3,4])"
proof -
  have p: "inet_ntop AF_INET6 [0,0,0,0,0,0,0,0,0,0,0xff,0xff,1,2,3,4] 46 = Inr ''::ffff:1.2.3.4''"
  proof -
    have w: "words6 [0,0,0,0,0,0,0,0,0,0,0xff,0xff,1,2,3,4] = [0, 0, 0, 0, 0, 0xffff, 0x102, 0x304]" by code_simp
    have "best_run [0, 0, 0, 0, 0, 0xffff, 0x102, 0x304] = Some (0, 5)" by (simp add: best_run_def better_run_def)
    moreover have "hex 0xffff = ''ffff''" by (simp add: to_hex.simps xdigits_l_def)
    ultimately show ?thesis
      by (simp add: inet_ntop_def ntop6_text w text6_def tail6_def embeds_ipv4_def to_string.simps digit_chars Let_def)
  qed
  show ?thesis using inet_text_round_trip [of AF_INET6 "[0,0,0,0,0,0,0,0,0,0,0xff,0xff,1,2,3,4]" 46] by (simp add: p)
qed

text \<open>
  A buffer of exactly the length of a dotted text is taken as large enough: the NUL is written behind it.
\<close>

theorem inet_ntop4_overflows: "inet_ntop AF_INET [1, 2, 3, 4] (length ''1.2.3.4'') = Inr ''1.2.3.4''"
  by (simp add: inet_ntop_def inet_ntop4_def to_string.simps digit_chars)

text \<open>
  A double colon in an address of eight groups is not ignored, as the comment says, but puts zeros in
  place of all groups behind it; and a colon at the end is accepted.
\<close>

theorem inet_pton6_loses_groups:
  "inet_pton AF_INET6 ''::1:2:3:4:5:6:7:8'' = Inr (Some (replicate 16 0))
   \<and> inet_pton AF_INET6 ''1:2:3::4:5:6:7:8'' = Inr (Some [0, 1, 0, 2, 0, 3, 0, 0, 0, 0, 0, 0, 0, 0, 0, 0])
   \<and> inet_pton AF_INET6 ''1:2:3:4:5:6:7:8:'' = inet_pton AF_INET6 ''1:2:3:4:5:6:7:8''"
proof (intro conjI)
  show "inet_pton AF_INET6 ''::1:2:3:4:5:6:7:8'' = Inr (Some (replicate 16 0))" by code_simp
  show "inet_pton AF_INET6 ''1:2:3::4:5:6:7:8'' = Inr (Some [0, 1, 0, 2, 0, 3, 0, 0, 0, 0, 0, 0, 0, 0, 0, 0])" by code_simp
  show "inet_pton AF_INET6 ''1:2:3:4:5:6:7:8:'' = inet_pton AF_INET6 ''1:2:3:4:5:6:7:8''" by code_simp
qed

end
