(* ===== verification/Thread_Pool.thy ===== *)
theory Thread_Pool
  imports Monitor
begin

text \<open>
  The thread pool of Diagrammatize.Linux.Network.Progamming/code/chapter14 (thread_pool.h): tasks on a
  circular doubly linked list, under one mutex with one condition variable. An address is a number, the
  list head of the pool being at 0. The wait has a time limit of a second, so that a thread may wake
  at any time, as in any monitor.
\<close>

subsection \<open>The list\<close>

record list_head =
  lh_prev :: nat
  lh_next :: nat

type_synonym heads = "nat \<Rightarrow> list_head"

definition store_next :: "nat \<Rightarrow> nat \<Rightarrow> heads \<Rightarrow> heads" where
  "store_next p v m = m(p := (m p)\<lparr>lh_next := v\<rparr>)"

definition store_prev_of :: "nat \<Rightarrow> nat \<Rightarrow> heads \<Rightarrow> heads" where
  "store_prev_of p v m = m(p := (m p)\<lparr>lh_prev := v\<rparr>)"

definition list_head_init :: "nat \<Rightarrow> heads \<Rightarrow> heads" where
  "list_head_init head m = store_next head head (store_prev_of head head m)"

definition list_add :: "nat \<Rightarrow> nat \<Rightarrow> heads \<Rightarrow> heads" where
  "list_add new head m =
     (let nxt = lh_next (m head);
          m1 = store_next head new m;
          m2 = store_prev_of new head m1;
          m3 = store_next new nxt m2
      in store_prev_of nxt new m3)"

definition list_del :: "nat \<Rightarrow> heads \<Rightarrow> nat option \<times> heads" where
  "list_del head m =
     (if lh_prev (m head) = head then (None, m)
      else
        let prv = lh_prev (m head);
            m1 = store_next (lh_prev (m prv)) head m;
            m2 = store_prev_of head (lh_prev (m1 prv)) m1
        in (Some prv, m2))"

definition is_empty :: "nat \<Rightarrow> heads \<Rightarrow> bool" where
  "is_empty head m \<longleftrightarrow> lh_next (m head) = head"

subsection \<open>The pool\<close>

text \<open>
  The fields of the pool, what the tasks hold (handler and argument), the blocks that are allocated,
  and those of tasks that a thread has taken and not yet freed.
\<close>

record 't pool =
  pl_heads :: heads
  pl_task_num :: int
  pl_shutdown :: bool
  pl_task :: "nat \<Rightarrow> 't"
  pl_blocks :: "nat set"
  pl_taken :: "nat set"

text \<open>
  What is done with the pool: a task is allocated at an address, filled and added; a thread gets a
  task, and later runs and frees it; the pool is destroyed.
\<close>

datatype 't pool_call = Pool_submit nat 't | Pool_get nat | Pool_run nat | Pool_destroy
datatype 't pool_result = Added | Got nat | No_task | Ran 't | Joins int

definition thread_pool_add :: "nat \<Rightarrow> 't pool \<Rightarrow> ('t pool_result, 't pool, unit) outcome" where
  "thread_pool_add t s = Return Added (s\<lparr>pl_heads := list_add t 0 (pl_heads s), pl_task_num := pl_task_num s + 1\<rparr>) [Signal ()]"

definition thread_pool_get :: "'t pool \<Rightarrow> ('t pool_result, 't pool, unit) outcome" where
  "thread_pool_get s =
     (if is_empty 0 (pl_heads s) \<and> \<not> pl_shutdown s then Block s
      else if pl_shutdown s then Return No_task s []
      else
        case list_del 0 (pl_heads s) of
          (None, m) \<Rightarrow> Return No_task (s\<lparr>pl_heads := m, pl_task_num := pl_task_num s - 1\<rparr>) []
        | (Some t, m) \<Rightarrow> Return (Got t) (s\<lparr>pl_heads := m, pl_task_num := pl_task_num s - 1, pl_taken := insert t (pl_taken s)\<rparr>) [])"

text \<open>Its result is the number of threads that are then joined.\<close>

definition thread_pool_destroy :: "'t pool \<Rightarrow> ('t pool_result, 't pool, unit) outcome" where
  "thread_pool_destroy s = Return (Joins (pl_task_num s)) (s\<lparr>pl_shutdown := True\<rparr>) [Broadcast ()]"

text \<open>
  \<open>task_new\<close> gives a block that is not allocated, and only a thread that has got a task runs it: in the
  other cases there is no such call (\<open>Die\<close>).
\<close>

definition pool_submit :: "nat \<Rightarrow> 't \<Rightarrow> 't pool \<Rightarrow> ('t pool_result, 't pool, unit) outcome" where
  "pool_submit t x s =
     (if t = 0 \<or> t \<in> pl_blocks s then Die
      else thread_pool_add t (s\<lparr>pl_blocks := insert t (pl_blocks s), pl_task := (pl_task s)(t := x)\<rparr>))"

definition pool_run :: "nat \<Rightarrow> 't pool \<Rightarrow> ('t pool_result, 't pool, unit) outcome" where
  "pool_run t s =
     (if t \<in> pl_taken s then Return (Ran (pl_task s t)) (s\<lparr>pl_blocks := pl_blocks s - {t}, pl_taken := pl_taken s - {t}\<rparr>) []
      else Die)"

fun pool_enter :: "int \<Rightarrow> 't pool_call \<Rightarrow> 't pool \<Rightarrow> ('t pool_result, 't pool, unit) outcome" where
  "pool_enter n (Pool_submit t x) s = pool_submit t x s"
| "pool_enter n (Pool_get i) s = thread_pool_get s"
| "pool_enter n (Pool_run t) s = pool_run t s"
| "pool_enter n Pool_destroy s = thread_pool_destroy s"

fun pool_resume :: "int \<Rightarrow> 't pool_call \<Rightarrow> 't pool \<Rightarrow> ('t pool_result, 't pool, unit) outcome" where
  "pool_resume n (Pool_get i) s = thread_pool_get s"
| "pool_resume n _ s = Die"

definition pool_init :: "(nat \<Rightarrow> 't) \<Rightarrow> heads \<Rightarrow> 't pool" where
  "pool_init tasks m = \<lparr>pl_heads = list_head_init 0 m, pl_task_num = 0, pl_shutdown = False, pl_task = tasks, pl_blocks = {}, pl_taken = {}\<rparr>"

subsection \<open>The list as a list\<close>

text \<open>From \<open>p\<close> through the nodes of a list to \<open>e\<close>, linked both ways.\<close>

fun linked :: "heads \<Rightarrow> nat \<Rightarrow> nat list \<Rightarrow> nat \<Rightarrow> bool" where
  "linked m p [] e \<longleftrightarrow> lh_next (m p) = e \<and> lh_prev (m e) = p"
| "linked m p (x # xs) e \<longleftrightarrow> lh_next (m p) = x \<and> lh_prev (m x) = p \<and> linked m x xs e"

definition circular :: "heads \<Rightarrow> nat list \<Rightarrow> bool" where
  "circular m xs \<longleftrightarrow> linked m 0 xs 0 \<and> distinct (0 # xs)"

lemma linked_between: "linked m p (xs @ y # ys) e \<longleftrightarrow> linked m p xs y \<and> linked m y ys e"
  by (induction xs arbitrary: p) auto

lemma linked_same:
  assumes "lh_next (m p) = lh_next (m' p)" and "lh_prev (m e) = lh_prev (m' e)" and "\<forall>x \<in> set xs. m x = m' x"
  shows "linked m p xs e \<longleftrightarrow> linked m' p xs e"
  using assms by (induction xs arbitrary: p) auto

lemma stores [simp]:
  "lh_next (store_next p v m q) = (if p = q then v else lh_next (m q))"
  "lh_prev (store_next p v m q) = lh_prev (m q)"
  "lh_next (store_prev_of p v m q) = lh_next (m q)"
  "lh_prev (store_prev_of p v m q) = (if p = q then v else lh_prev (m q))"
  by (simp_all add: store_next_def store_prev_of_def)

lemma stores_other [simp]: "p \<noteq> q \<Longrightarrow> store_next p v m q = m q" "p \<noteq> q \<Longrightarrow> store_prev_of p v m q = m q"
  by (simp_all add: store_next_def store_prev_of_def)

lemma circular_init: "circular (list_head_init 0 m) []"
  by (simp add: circular_def list_head_init_def)

lemma list_add_circular:
  assumes "circular m xs" and "a \<noteq> 0" and "a \<notin> set xs"
  shows "circular (list_add a 0 m) (a # xs)"
proof (cases xs)
  case Nil
  then show ?thesis using assms by (simp add: circular_def list_add_def Let_def)
next
  case (Cons x ys)
  have l: "lh_next (m 0) = x" "lh_prev (m x) = 0" "linked m x ys 0" using assms(1) Cons by (simp_all add: circular_def)
  have d: "x \<noteq> 0" "x \<notin> set ys" "0 \<notin> set ys" "a \<noteq> x" "a \<notin> set ys" using assms Cons by (auto simp: circular_def)
  have "linked (list_add a 0 m) x ys 0 \<longleftrightarrow> linked m x ys 0"
    by (rule linked_same) (use l d assms(2) in \<open>auto simp: list_add_def Let_def store_next_def store_prev_of_def\<close>)
  then show ?thesis using assms l d Cons by (simp add: circular_def list_add_def Let_def)
qed

lemma list_del_circular:
  assumes "circular m (xs @ [z])"
  shows "\<exists>m'. list_del 0 m = (Some z, m') \<and> circular m' xs"
proof (cases xs rule: rev_cases)
  case Nil
  then show ?thesis using assms by (auto simp: circular_def list_del_def Let_def)
next
  case (snoc ys y)
  then have l: "linked m 0 ys y" "lh_next (m y) = z" "lh_prev (m z) = y" "lh_next (m z) = 0" "lh_prev (m 0) = z"
    using assms by (simp_all add: circular_def linked_between)
  have d: "y \<noteq> 0" "z \<noteq> 0" "y \<notin> set ys" "z \<notin> set ys" "0 \<notin> set ys" "y \<noteq> z" "distinct ys" using assms snoc by (auto simp: circular_def)
  let ?m' = "store_prev_of 0 y (store_next y 0 m)"
  have "list_del 0 m = (Some z, ?m')" using l d by (simp add: list_del_def Let_def)
  moreover have "linked ?m' 0 ys y \<longleftrightarrow> linked m 0 ys y" by (rule linked_same) (use d in \<open>auto simp: store_next_def store_prev_of_def\<close>)
  then have "circular ?m' xs" using l d by (simp add: circular_def snoc linked_between)
  ultimately show ?thesis by blast
qed

lemma is_empty_circular: "circular m xs \<Longrightarrow> is_empty 0 m \<longleftrightarrow> xs = []"
  by (cases xs) (auto simp: circular_def is_empty_def)

subsection \<open>A queue of tasks\<close>

text \<open>The tasks that wait, the oldest first, those that a thread has taken, and whether the pool is shut down.\<close>

type_synonym 't tasks = "(nat \<times> 't) list \<times> (nat \<times> 't) list \<times> bool"

fun pool_spec :: "'t pool_call \<times> 't pool_result \<Rightarrow> 't tasks \<Rightarrow> 't tasks option" where
  "pool_spec (Pool_submit t x, Added) (q, r, sd) = (if t \<in> fst ` set (q @ r) then None else Some (q @ [(t, x)], r, sd))"
| "pool_spec (Pool_get i, Got t) (q, r, sd) = (case q of [] \<Rightarrow> None | p # q' \<Rightarrow> if fst p = t \<and> \<not> sd then Some (q', p # r, sd) else None)"
| "pool_spec (Pool_get i, No_task) (q, r, sd) = (if sd then Some (q, r, sd) else None)"
| "pool_spec (Pool_run t, Ran x) (q, r, sd) = (if (t, x) \<in> set r then Some (q, remove1 (t, x) r, sd) else None)"
| "pool_spec (Pool_destroy, Joins n) (q, r, sd) = (if n = int (length q) then Some (q, r, True) else None)"
| "pool_spec _ _ = None"

text \<open>The pool and the abstract tasks.\<close>

definition pool_rel :: "'t pool \<Rightarrow> 't tasks \<Rightarrow> bool" where
  "pool_rel s a \<longleftrightarrow> (case a of (q, r, sd) \<Rightarrow>
     circular (pl_heads s) (rev (map fst q)) \<and> distinct (map fst (q @ r)) \<and> 0 \<notin> fst ` set (q @ r)
     \<and> pl_blocks s = fst ` set (q @ r) \<and> pl_taken s = fst ` set r \<and> (\<forall>(t, x) \<in> set (q @ r). pl_task s t = x)
     \<and> pl_task_num s = int (length q) \<and> pl_shutdown s = sd)"

lemma pool_relD:
  assumes "pool_rel s (q, r, sd)"
  shows "circular (pl_heads s) (rev (map fst q))" "distinct (map fst (q @ r))" "0 \<notin> fst ` set (q @ r)" "pl_blocks s = fst ` set (q @ r)"
    "pl_taken s = fst ` set r" "\<forall>(t, x) \<in> set (q @ r). pl_task s t = x" "pl_task_num s = int (length q)" "pl_shutdown s = sd"
  using assms by (simp_all add: pool_rel_def)

lemma submit_rel:
  assumes "pool_rel s (q, r, sd)" and "pool_submit t x s = Return res s' ws"
  shows "pool_spec (Pool_submit t x, res) (q, r, sd) = Some (q @ [(t, x)], r, sd) \<and> pool_rel s' (q @ [(t, x)], r, sd) \<and> ws = [Signal ()]"
proof -
  note p = pool_relD [OF assms(1)]
  have t: "t \<noteq> 0" "t \<notin> fst ` set (q @ r)" "res = Added" "ws = [Signal ()]"
    "s' = s\<lparr>pl_blocks := insert t (pl_blocks s), pl_task := (pl_task s)(t := x), pl_heads := list_add t 0 (pl_heads s), pl_task_num := pl_task_num s + 1\<rparr>"
    using assms(2) p(4) by (auto simp: pool_submit_def thread_pool_add_def split: if_splits)
  have "circular (list_add t 0 (pl_heads s)) (t # rev (map fst q))"
    by (rule list_add_circular [OF p(1) t(1)]) (use t(2) in force)
  moreover have "\<forall>(u, y) \<in> set (q @ r). u \<noteq> t" using t(2) by force
  ultimately show ?thesis using p t by (auto simp: pool_rel_def split: prod.splits)
qed

lemma get_rel:
  assumes "pool_rel s (q, r, sd)"
  shows "thread_pool_get s = Block s' \<longleftrightarrow> s' = s \<and> q = [] \<and> \<not> sd"
    and "thread_pool_get s = Return res s' ws \<Longrightarrow> ws = [] \<and>
      (sd \<and> s' = s \<and> res = No_task \<or> (\<exists>p q'. \<not> sd \<and> q = p # q' \<and> res = Got (fst p) \<and> pool_rel s' (q', p # r, sd)))"
proof -
  note p = pool_relD [OF assms]
  have e: "is_empty 0 (pl_heads s) \<longleftrightarrow> q = []" using is_empty_circular [OF p(1)] by simp
  show "thread_pool_get s = Block s' \<longleftrightarrow> s' = s \<and> q = [] \<and> \<not> sd"
    using e p(8) by (auto simp: thread_pool_get_def split: prod.splits option.splits)
  assume g: "thread_pool_get s = Return res s' ws"
  show "ws = [] \<and> (sd \<and> s' = s \<and> res = No_task \<or> (\<exists>p q'. \<not> sd \<and> q = p # q' \<and> res = Got (fst p) \<and> pool_rel s' (q', p # r, sd)))"
  proof (cases sd)
    case True
    then show ?thesis using g p(8) by (simp add: thread_pool_get_def)
  next
    case False
    then have "q \<noteq> []" using g e p(8) by (auto simp: thread_pool_get_def)
    then obtain h q' where q: "q = h # q'" by (cases q) auto
    from list_del_circular [of "pl_heads s" "rev (map fst q')" "fst h"] p(1) q
    obtain m' where m': "list_del 0 (pl_heads s) = (Some (fst h), m')" "circular m' (rev (map fst q'))" by auto
    then have s': "res = Got (fst h)" "ws = []"
      "s' = s\<lparr>pl_heads := m', pl_task_num := pl_task_num s - 1, pl_taken := insert (fst h) (pl_taken s)\<rparr>"
      using g False e p(8) q by (auto simp: thread_pool_get_def)
    have "pool_rel s' (q', h # r, sd)" using p m'(2) s'(3) q by (auto simp: pool_rel_def)
    then show ?thesis using False q s' by blast
  qed
qed

lemma run_rel:
  assumes "pool_rel s (q, r, sd)" and "pool_run t s = Return res s' ws"
  shows "ws = [] \<and> (\<exists>x. res = Ran x \<and> (t, x) \<in> set r \<and> pool_rel s' (q, remove1 (t, x) r, sd))"
proof -
  note p = pool_relD [OF assms(1)]
  have t: "t \<in> fst ` set r" "res = Ran (pl_task s t)" "ws = []" "s' = s\<lparr>pl_blocks := pl_blocks s - {t}, pl_taken := pl_taken s - {t}\<rparr>"
    using assms(2) p(5) by (auto simp: pool_run_def split: if_splits)
  then obtain x where x: "(t, x) \<in> set r" by auto
  then have tx: "pl_task s t = x" using bspec [OF p(6), of "(t, x)"] by simp
  have d: "distinct r" "distinct (map fst r)" using p(2) by (auto simp: distinct_map)
  define r' where "r' = remove1 (t, x) r"
  have "set r' = set r - {(t, x)}" using d(1) by (simp add: r'_def)
  moreover have "fst ` (set r - {(t, x)}) = fst ` set r - {t}" using d(2) x inj_on_image_set_diff [of fst "set r" "set r" "{(t, x)}"] by (simp add: distinct_map)
  ultimately have f: "set r' \<subseteq> set r" "fst ` set r' = fst ` set r - {t}" by auto
  have "distinct (map fst r')" using d by (simp add: r'_def distinct_map inj_on_def)
  moreover have q: "t \<notin> fst ` set q" using p(2) x by force
  ultimately have "distinct (map fst (q @ r'))" using p(2) f(2) by auto
  moreover have "pl_blocks s - {t} = fst ` set (q @ r')" using p(4) f(2) q by auto
  moreover have "0 \<notin> fst ` set (q @ r')" using p(3) f(1) by auto
  moreover have "\<forall>(u, y) \<in> set (q @ r'). pl_task s u = y" by (intro ballI bspec [OF p(6)]) (use f(1) in auto)
  ultimately have "pool_rel s' (q, r', sd)" using p(1,5,7,8) f(2) by (simp add: pool_rel_def t(4))
  then show ?thesis using t tx x by (auto simp: r'_def)
qed

text \<open>Only threads that want a task wait; when the pool is shut down none does; and every task that waits has a waked thread, unless none sleeps.\<close>

definition pool_inv :: "'t pool \<Rightarrow> 't pool_call multiset \<Rightarrow> 't pool_call multiset \<Rightarrow> 't pool_call multiset \<Rightarrow> ('t pool_call \<times> 't pool_result) list \<Rightarrow> bool" where
  "pool_inv s sl wk cn lg \<longleftrightarrow> cn = {#} \<and> (\<forall>c \<in># sl + wk. \<exists>i. c = Pool_get i) \<and> (pl_shutdown s \<longrightarrow> sl = {#})
     \<and> (\<exists>q r sd. spec_run pool_spec lg ([], [], False) = Some (q, r, sd) \<and> pool_rel s (q, r, sd)
          \<and> (sl = {#} \<or> length q \<le> size wk))"

interpretation pool_monitor: monitor_invariant "\<lambda>_. ()" pool_enter pool_resume "\<lambda>_ _. None" "\<lambda>_. True" False pool_inv
proof
  fix s t :: "'t pool" and sl wk cn sl' wk' :: "'t pool_call multiset" and lg n c and r :: "'t pool_result" and ws
  show "pool_inv t sl' wk' cn (lg @ [(c, r)])"
    if inv: "pool_inv s sl wk cn lg" and ret: "pool_enter n c s = Return r t ws" and w: "wakes (\<lambda>_. ()) ws sl wk sl' wk'"
  proof -
    obtain q k sd where a: "spec_run pool_spec lg ([], [], False) = Some (q, k, sd)" "pool_rel s (q, k, sd)" "sl = {#} \<or> length q \<le> size wk"
      using inv by (auto simp: pool_inv_def)
    have u: "sl' + wk' = sl + wk" "wk \<subseteq># wk'" "sl' \<subseteq># sl" using wakes_union [OF w] wakes_more [OF w] by auto
    have b: "cn = {#}" "\<forall>c \<in># sl' + wk'. \<exists>i. c = Pool_get i" "pl_shutdown s \<Longrightarrow> sl' = {#}"
      using inv u(3) unfolding u(1) by (auto simp: pool_inv_def)
    have sd: "pl_shutdown s = sd" using pool_relD(8) [OF a(2)] .
    have quiet: "sl' = {#} \<or> length q' \<le> size wk'" if "length q' \<le> length q" for q' :: "(nat \<times> 't) list"
      using a(3) that u(2,3) size_mset_mono [OF u(2)] by auto
    show ?thesis
    proof (cases c)
      case (Pool_submit x1 x2)
      then have s: "pool_spec (c, r) (q, k, sd) = Some (q @ [(x1, x2)], k, sd)" "pool_rel t (q @ [(x1, x2)], k, sd)" "ws = [Signal ()]"
        using submit_rel [OF a(2), of x1 x2 r t ws] ret by simp_all
      have "sl' = {#} \<or> length (q @ [(x1, x2)]) \<le> size wk'" using signal_enough [OF w [unfolded s(3)] a(3)] by simp
      then show ?thesis using a(1) b s pool_relD(8) [OF s(2)] sd by (auto simp: pool_inv_def)
    next
      case (Pool_get i)
      then have "sd \<and> t = s \<and> r = No_task \<or> (\<exists>p q'. \<not> sd \<and> q = p # q' \<and> r = Got (fst p) \<and> pool_rel t (q', p # k, sd))"
        using get_rel(2) [OF a(2), of r t ws] ret by simp
      then show ?thesis
      proof
        assume "sd \<and> t = s \<and> r = No_task"
        then show ?thesis using a b sd quiet [of q] Pool_get by (auto simp: pool_inv_def)
      next
        assume "\<exists>p q'. \<not> sd \<and> q = p # q' \<and> r = Got (fst p) \<and> pool_rel t (q', p # k, sd)"
        then obtain p q' where g: "\<not> sd" "q = p # q'" "r = Got (fst p)" "pool_rel t (q', p # k, sd)" by blast
        then show ?thesis using a b sd quiet [of q'] Pool_get pool_relD(8) [OF g(4)] by (auto simp: pool_inv_def)
      qed
    next
      case (Pool_run x)
      then obtain y where y: "r = Ran y" "(x, y) \<in> set k" "pool_rel t (q, remove1 (x, y) k, sd)"
        using run_rel [OF a(2), of x r t ws] ret by auto
      then show ?thesis using a b sd quiet [of q] Pool_run pool_relD(8) [OF y(3)] by (auto simp: pool_inv_def)
    next
      case Pool_destroy
      then have d: "r = Joins (int (length q))" "t = s\<lparr>pl_shutdown := True\<rparr>" "ws = [Broadcast ()]"
        using ret pool_relD(7) [OF a(2)] by (auto simp: thread_pool_destroy_def)
      then have "sl' = {#}" using w by (simp add: wakes_broadcast)
      moreover have "pool_rel t (q, k, True)" using a(2) d(2) by (simp add: pool_rel_def)
      ultimately show ?thesis using a(1) b d Pool_destroy by (auto simp: pool_inv_def)
    qed
  qed
  have block: "pool_inv t (add_mset (Pool_get i) sl) wk cn lg"
    if inv: "pool_inv s sl w cn lg" and blocks: "thread_pool_get s = Block t" and w: "w = wk \<or> w = add_mset (Pool_get i) wk" for i w
  proof -
    obtain q k sd where a: "spec_run pool_spec lg ([], [], False) = Some (q, k, sd)" "pool_rel s (q, k, sd)"
      using inv unfolding pool_inv_def by blast
    then have "t = s" "q = []" "\<not> pl_shutdown s" using get_rel(1) [OF a(2), of t] blocks pool_relD(8) [OF a(2)] by auto
    then show ?thesis using inv w a by (auto simp: pool_inv_def)
  qed
  show "pool_inv t (add_mset c sl) wk cn lg" if "pool_inv s sl wk cn lg" "pool_enter n c s = Block t"
    using that block by (cases c) (auto simp: pool_submit_def thread_pool_add_def pool_run_def thread_pool_destroy_def split: if_splits)
  show "pool_inv t (add_mset c sl) wk cn lg" if "pool_inv s sl (add_mset c wk) cn lg" "pool_resume n c s = Block t"
    using that block by (cases c) auto
  show "pool_inv t sl' wk' cn (lg @ [(c, r)])"
    if inv: "pool_inv s sl (add_mset c wk) cn lg" and ret: "pool_resume n c s = Return r t ws" and w: "wakes (\<lambda>_. ()) ws sl wk sl' wk'"
  proof -
    from ret obtain i where c: "c = Pool_get i" and g: "thread_pool_get s = Return r t ws" by (cases c) auto
    obtain q k sd where a: "spec_run pool_spec lg ([], [], False) = Some (q, k, sd)" "pool_rel s (q, k, sd)" "sl = {#} \<or> length q \<le> size wk + 1"
      using inv by (auto simp: pool_inv_def)
    have ws: "ws = []" using get_rel(2) [OF a(2) g] by simp
    then have same: "sl' = sl" "wk' = wk" using w by auto
    show ?thesis using get_rel(2) [OF a(2) g] a inv same c pool_relD(8) [OF a(2)] by (auto simp: pool_inv_def dest: pool_relD(8))
  qed
  show "pool_inv s sl (add_mset c wk) cn lg" if "pool_inv s (add_mset c sl) wk cn lg"
    using that by (auto simp: pool_inv_def)
qed (auto simp: pool_inv_def)

abbreviation pool_runs :: "(nat \<Rightarrow> 't) \<Rightarrow> heads \<Rightarrow> ('t pool, 't pool_call, 't pool_result) monitor \<Rightarrow> bool" where
  "pool_runs tasks h \<equiv> mon_reaches (\<lambda>_. ()) pool_enter pool_resume (\<lambda>_ _. None) (\<lambda>_. True) False (monitor_new (pool_init tasks h))"

lemma pool_init_inv: "pool_inv (pool_init tasks h) {#} {#} {#} []"
  by (auto simp: pool_inv_def pool_init_def pool_rel_def circular_init)

text \<open>
  C16: However the threads interleave: tasks are got in the order in which they were added, each once, and
  run with the handler and argument they were added with; the links are always those of one circle; the
  block of a task is freed once, and not while the task waits; and when tasks wait no thread sleeps
  without a waked thread for each of them.
\<close>

theorem thread_pool_is_queue:
  assumes "pool_runs tasks h m"
  shows "\<exists>q r. spec_run pool_spec (mn_log m) ([], [], False) = Some (q, r, pl_shutdown (mn_state m))
    \<and> circular (pl_heads (mn_state m)) (rev (map fst q)) \<and> pl_task_num (mn_state m) = int (length q)
    \<and> pl_blocks (mn_state m) = fst ` set (q @ r) \<and> distinct (map fst (q @ r))
    \<and> (mn_sleep m = {#} \<or> length q \<le> size (mn_woken m))"
proof -
  obtain q r sd where a: "spec_run pool_spec (mn_log m) ([], [], False) = Some (q, r, sd)" "pool_rel (mn_state m) (q, r, sd)"
    "mn_sleep m = {#} \<or> length q \<le> size (mn_woken m)"
    using pool_monitor.from_new [OF assms pool_init_inv] by (auto simp: pool_inv_def)
  show ?thesis using a(1,3) pool_relD [OF a(2)] by blast
qed

theorem thread_pool_is_queue_witness:
  "\<forall>h. \<exists>m q r. pool_runs (\<lambda>_. ''idle'') h m \<and> mn_log m = [(Pool_submit 7 ''a'', Added), (Pool_submit 9 ''b'', Added), (Pool_get 0, Got 7)]
    \<and> spec_run pool_spec (mn_log m) ([], [], False) = Some (q, r, pl_shutdown (mn_state m)) \<and> circular (pl_heads (mn_state m)) [9]"
proof
  fix h :: heads
  let ?s0 = "pool_init (\<lambda>_. ''idle'') h"
  let ?s1 = "?s0\<lparr>pl_blocks := {7}, pl_task := (pl_task ?s0)(7 := ''a''), pl_heads := list_add 7 0 (pl_heads ?s0), pl_task_num := 1\<rparr>"
  let ?s2 = "?s1\<lparr>pl_blocks := {9, 7}, pl_task := (pl_task ?s1)(9 := ''b''), pl_heads := list_add 9 0 (pl_heads ?s1), pl_task_num := 2\<rparr>"
  let ?s3 = "?s2\<lparr>pl_heads := snd (list_del 0 (pl_heads ?s2)), pl_task_num := 1, pl_taken := {7}\<rparr>"
  have w: "wakes (\<lambda>_. ()) [Signal ()] {#} {#} {#} ({#} :: string pool_call multiset)" by (intro wake_nobody) simp_all
  have start: "pool_runs (\<lambda>_. ''idle'') h (monitor_new ?s0)" by simp
  have r1: "pool_runs (\<lambda>_. ''idle'') h ((monitor_new ?s0)\<lparr>mn_state := ?s1, mn_log := [(Pool_submit 7 ''a'', Added)]\<rparr>)"
    using reach_return [OF start, of 0 "Pool_submit 7 ''a''" Added ?s1 "[Signal ()]" "{#}" "{#}"] w
    by (simp add: monitor_new_def pool_submit_def thread_pool_add_def pool_init_def)
  have r2: "pool_runs (\<lambda>_. ''idle'') h ((monitor_new ?s0)\<lparr>mn_state := ?s2, mn_log := [(Pool_submit 7 ''a'', Added), (Pool_submit 9 ''b'', Added)]\<rparr>)"
    using reach_return [OF r1, of 0 "Pool_submit 9 ''b''" Added ?s2 "[Signal ()]" "{#}" "{#}"] w
    by (simp add: monitor_new_def pool_submit_def thread_pool_add_def pool_init_def)
  have c: "circular (pl_heads ?s2) ([9] @ [7])"
    using list_add_circular [of "list_add 7 0 (list_head_init 0 h)" "[7]" 9] list_add_circular [OF circular_init, of 7 h]
    by (simp add: pool_init_def)
  obtain m' where m': "list_del 0 (pl_heads ?s2) = (Some 7, m')" "circular m' [9]" using list_del_circular [OF c] by auto
  have "\<not> is_empty 0 (pl_heads ?s2)" using is_empty_circular [OF c] by simp
  then have "thread_pool_get ?s2 = Return (Got 7) ?s3 []" using m'(1) by (simp add: thread_pool_get_def pool_init_def)
  then have r3: "pool_runs (\<lambda>_. ''idle'') h ((monitor_new ?s0)\<lparr>mn_state := ?s3,
      mn_log := [(Pool_submit 7 ''a'', Added), (Pool_submit 9 ''b'', Added), (Pool_get 0, Got 7)]\<rparr>)"
    using reach_return [OF r2, of 0 "Pool_get 0" "Got 7" ?s3 "[]" "{#}" "{#}"] by (simp add: monitor_new_def)
  have "circular (pl_heads ?s3) [9]" using m' by simp
  with thread_pool_is_queue [OF r3] r3
  show "\<exists>m q r. pool_runs (\<lambda>_. ''idle'') h m \<and> mn_log m = [(Pool_submit 7 ''a'', Added), (Pool_submit 9 ''b'', Added), (Pool_get 0, Got 7)]
    \<and> spec_run pool_spec (mn_log m) ([], [], False) = Some (q, r, pl_shutdown (mn_state m)) \<and> circular (pl_heads (mn_state m)) [9]"
    by (intro exI [of _ "(monitor_new ?s0)\<lparr>mn_state := ?s3, mn_log := [(Pool_submit 7 ''a'', Added), (Pool_submit 9 ''b'', Added), (Pool_get 0, Got 7)]\<rparr>"]) auto
qed

text \<open>
  The destruction of a pool joins as many threads as there are tasks, not as there are threads: with no
  task, none is joined, and the mutex is destroyed while the threads it has waked want it.
\<close>

theorem thread_pool_destroy_joins_nobody:
  "\<exists>m. pool_runs tasks h m \<and> mn_log m = [(Pool_destroy, Joins 0)] \<and> mn_woken m = {#Pool_get 0, Pool_get 1#}"
proof -
  let ?s0 = "pool_init tasks h"
  have start: "pool_runs tasks h (monitor_new ?s0)" by simp
  have b: "pool_enter 0 (Pool_get i) ?s0 = Block ?s0" for i
    using is_empty_circular [OF circular_init] by (simp add: thread_pool_get_def pool_init_def)
  have r1: "pool_runs tasks h ((monitor_new ?s0)\<lparr>mn_sleep := {#Pool_get 0#}\<rparr>)"
    using reach_block [OF start, of 0 "Pool_get 0" ?s0] b by (simp add: monitor_new_def)
  have r2: "pool_runs tasks h ((monitor_new ?s0)\<lparr>mn_sleep := {#Pool_get 1, Pool_get 0#}\<rparr>)"
    using reach_block [OF r1, of 0 "Pool_get 1" ?s0] b by (simp add: monitor_new_def)
  have w: "wakes (\<lambda>_. ()) [Broadcast ()] {#Pool_get 1, Pool_get 0#} {#} {#} ({#Pool_get 0, Pool_get 1#} :: 'a pool_call multiset)"
    by (simp add: wakes_broadcast add_mset_commute)
  have "pool_runs tasks h ((monitor_new ?s0)\<lparr>mn_state := ?s0\<lparr>pl_shutdown := True\<rparr>, mn_sleep := {#}, mn_woken := {#Pool_get 0, Pool_get 1#},
      mn_log := [(Pool_destroy, Joins 0)]\<rparr>)"
    using reach_return [OF r2, of 0 Pool_destroy "Joins 0" "?s0\<lparr>pl_shutdown := True\<rparr>" "[Broadcast ()]" "{#}" "{#Pool_get 0, Pool_get 1#}"] w
    by (simp add: monitor_new_def thread_pool_destroy_def pool_init_def)
  then show ?thesis by (intro exI conjI) (assumption, simp_all)
qed

end
