(* ===== verification/Spec2Isabelle.thy ===== *)
theory Spec2Isabelle
  imports Http_System Tcp_Client Line_Server Chat_Client Chat_Sync Survey_Programs Unix_Echo
    Unix_Select Rwlock Sv_Semaphore Voting Telnet_Session Rtcp
    Etcp_Reliable Etcp_Smb Etcp_Heartbeat Etcp_Tcpmux
    Unp_Nonblock Unp_Web Unp_Web_Threads Unp_Prethread Unp_Prefork Unp_Rtt
    Inet_Text Thread_Pool
begin

text \<open>
  \<^bold>\<open>Verification of the network-programming examples\<close>

  The repository collects the programs of a dozen books on network programming. They share no build
  and, with few exceptions, no code; what they have in common is what is hard in all of them: byte
  streams that arrive in pieces of any size, framing and encoding, calls that fail, handlers that run
  in the order of their completions, threads that share a buffer, timers. The development models
  the programs of C and C++ that have logic of their own. A reader who wants to know which source
  file a theory models finds it below and in the text at the head of the theory.

  \<^bold>\<open>Conventions\<close>

  A definition has the name of the function it models wherever the name is free. A struct or class is
  a record, an enumeration a datatype, an integer of fixed width a word where it can wrap and an
  integer otherwise, an array of characters a list. A function that can fail returns a sum whose left
  side is the error or the message with which the program ends; undefined behaviour is a value of its
  own (\<open>None\<close>, or a left side that names it), never a default. What the environment decides is an
  argument: the bytes that arrive and how they are cut, the results of system calls, the clock, random
  numbers, what \<open>select\<close> reports, in which order completions and threads run. These arguments are
  scripts (lists, consumed from the front) or parameters of a step relation, so that a theorem about
  all scripts is a theorem about all behaviours of the environment. Loops whose end depends on data
  are partial functions into \<open>option\<close>, where \<open>None\<close> is a loop that does not end, or functions with a
  measure; loops that are driven by events recurse on the list of the events. The one definition with
  fuel is \<open>vote_loop\<close> of Voting, whose fuel bounds the messages of a connection: with one more than
  there are, which the theorems ask for, it comes to the end. Output to the terminal is left out unless
  a theorem is about it.

  \<^bold>\<open>Shared theories\<close>

  Prelude: types of bytes and words, the first occurrence of a byte or delimiter, \<open>how_many\<close> entries
  of an array satisfy a condition, the interfaces
  \<open>one_shot\<close> (a session that has one operation in flight until it reports its outcome, once) and
  \<open>accept_loop\<close>. Cxx_Streams: \<open>istream\<close>, \<open>getline\<close>, the extractors, \<open>to_string\<close>, \<open>stoul\<close>, \<open>atoi\<close>.
  Stdio: \<open>fgets\<close> and the lines it cuts. Monitor: threads that call the operations of an object under
  a mutex and wait on its conditions, with signals, broadcasts, spurious wake-ups and cancellation;
  its interface \<open>monitor_invariant\<close> turns obligations about one critical section into facts about all
  runs of all threads.

  \<^bold>\<open>Asio.Cpp.Network.Programming.Cookbook (asio-1.12.2, asio.cookbook)\<close>

  Asio_Core, Asio_Read and Asio_Socket model the operations of asio on which the programs rest, from
  impl/read_until.hpp and impl/read.hpp: the search for a delimiter over a buffer that grows (interface
  \<open>delim_search\<close>, interpreted for CR LF, for the empty line and for the newline), reading until a
  condition holds (interface \<open>line_condition\<close>, interpreted on the conditions of the chat programs), and
  a socket with its scripts. \<open>async_read_until_contract\<close> says what a caller may rely on, however the
  input is cut.

  Http_Server and Http_Client are ch05/HTTPServer.cpp and HTTPClient.cpp: every handler, driven by
  the completions of the operation that is in flight. Service, request and session interpret
  \<open>one_shot\<close>: they end once, and call back once. The server refines a function from requests to
  replies; the client hands over what a server sends, and Http_System puts the two together. Line_Server
  is ch04 with the synchronous client of ch03: the server with a thread for each client equals
  the iterative one. Tcp_Client is ch03/AsyncTCPClientMT.cpp with its registry of sessions and its
  two mutexes, whose order of locking can deadlock.

  \<^bold>\<open>Asio.Cpp.Network.Programming (asio.cpp.v1/ch04)\<close>

  Chat_Server, Chat_Client and Chat_Sync: the asynchronous server with its array of clients and its
  timers, the asynchronous client and its dialogue with the server, and the synchronous pair, where
  the threads alternate turn by turn under one mutex.

  \<^bold>\<open>TCP.IP.Sockets.In.C\<close>

  Practical_Socket and Socket_Stream are PracticalSocket.cpp: descriptors over a kernel with scripted
  results, transfer of bytes, the stream buffer. Survey is the binary encoding (interface \<open>wire_codec\<close>,
  interpreted for integers and strings), Survey_Programs the servers and clients with both encodings.
  Voting is BruteForceCoding.c, the two framers (interface \<open>framer\<close>), the two encodings of a vote and
  the voting client and server; \<open>vote_protocol\<close> extends \<open>framer\<close> and is interpreted for the pairs that
  are built.

  \<^bold>\<open>Internetworking.With.TCP.IP\<close>

  Unix_Sockets is \<open>connectsock\<close> and \<open>passivesock\<close>, Unix_Echo the ECHO programs, Unix_Services the DAYTIME,
  TIME and CHARGEN ones, Unix_Select the super-server and TCPtecho (linux/examples). Telnet_Fsm holds
  the three tables of v3.linux/telnet with \<open>fsminit\<close> (interface \<open>fsm_table\<close>, one interpretation for
  each machine), Telnet the actions and the main loop, Telnet_Session what they guarantee
  (interface \<open>negotiated_option\<close>, interpreted for the four options). Rtp_Queue, Rtp and Rtcp are
  v3.linux/rtp: the doubly linked queue as a sorted list, the validation of sequence numbers and their
  extension over wrap-around, the player, the control protocol.

  \<^bold>\<open>Effective.TCP.IP.Programming\<close>

  Etcp_Lib is lib/ (\<open>readn\<close>, \<open>readvrec\<close>, \<open>readcrlf\<close>, \<open>readline\<close>) with \<open>errno\<close> and interrupted calls, and the
  interface \<open>record_reader\<close>, which Etcp_Records (vrc, vrs, count, keep, tcprw) and Etcp_Reliable
  interpret. Etcp_Timers is tselect.c, a list linked through a pool that refines a list in the order of
  expiry; the interface \<open>timer_calls\<close> says what a callback may do to it. Etcp_Reliable is xout3.c
  (retransmission on these timers) with extsys.c, Etcp_Smb the shared buffers of smb.c with its producer
  and consumer interleaved, Etcp_Heartbeat the four heartbeat programs (interface \<open>dead_peer\<close>),
  Etcp_Tcpmux tcpmux.c.

  \<^bold>\<open>UNIX.Network.Programming\<close>

  Inet_Text is libfree (\<open>inet_ntop\<close> and \<open>inet_pton\<close>, from the archive under origin). From unpv22e, on Monitor: Rwlock (my_rwlock and my_rwlock_cancel), Px_Mqueue (my_pxmsg_mmap, a
  priority queue in a mapped file), Px_Semaphore (my_pxsem_mmap), Px_Open (the opening of both, with
  every failure), Sv_Semaphore (my_pxsem_svsem). From unpv13e: Unp_Nonblock (nonblock/strclinonb.c and
  select/strcliselect02.c), Unp_Web (nonblock/web.c), Unp_Web_Threads (threads/web03.c, a step relation
  of the main thread and the others), Unp_Prethread (server/serv08.c, on Monitor), Unp_Prefork
  (server/serv05.c, a step relation of the parent and its children) and Unp_Rtt (lib/rtt.c with
  rtt/dg_send_recv.c and the client and server on it).

  \<^bold>\<open>Diagrammatize.Linux.Network.Progamming\<close>

  Thread_Pool is code/chapter14/thread_pool.h, on Monitor: a circular list linked both ways that refines
  a queue of tasks.

  \<^bold>\<open>What the lemmas show\<close>

  For each component, in this order: facts that evaluate its operations on every branch, errors
  included; an invariant and its preservation by every operation; the theorems about whole runs.
  The last are of these kinds. Refinement: the server is a function from requests to replies, the
  queues are lists, the ring of the threads is a first-in first-out queue, the locks grant what a
  specification of readers and writers grants. Equivalence: threads and iteration, nonblocking and
  blocking client. End to end: what one program sends is what the other has received, through
  encoding, framing and any cutting of the stream. Safety and liveness of interleavings: exclusion,
  no thread that sleeps while there is something for it, no buffer used twice, timers called in time,
  silence detected after exactly the announced time. Errors and bounds: what a failing call leaves
  behind, where a buffer overflows. Where the code does not do what it means to, a theorem shows an
  input or a run on which it fails.

  \<^bold>\<open>Bounds\<close>

  Constants are those of the code: buffers of 4096 bytes in Unp_Nonblock, 32 entries in Unp_Prethread,
  20 files in Unp_Web, 8192 bytes for BUFSIZ, 128 and 120 bytes for the lines of Etcp_Records. In
  \<open>web_client_fetches_all\<close> 80 rounds are asked for because each of at most 20 files needs at most four
  (connecting, writing, reading to the end, closing). The delimiter searches and the readers of
  records are shown to end for every input that the theorems admit.

  \<^bold>\<open>Not modelled\<close>

  The rest of asio (reactors, services, SSL), which is vendored, and its second copy; the variants of
  the asio programs for Boost; cxxopts; the Python programs; the original archives of UNIX Network
  Programming, which, libfree apart, hold the same programs again; programs that demonstrate a system call and keep no
  state, whose behaviour is that of the kernel; everything for Windows; parsing of command lines,
  name resolution and the terminal, which are parameters where a program depends on them. Memory is
  modelled where a component manages it itself (the queues, pools and rings); elsewhere an access
  beyond a buffer is a branch of the model, and what happens after it is not.
\<close>

end
